(* ===== verification/Prelude.thy ===== *)
theory Prelude
  imports Main "HOL-Library.Word"
begin

text \<open>
  What the components share: the C types of the code, the collections of simplification rules,
  and small facts on lists, options and characters.

  The code is compiled with \<open>-fsigned-char\<close> (\<open>mktemp/gcc.mk\<close>), so \<open>CHAR\<close> is a signed byte.
  A \<open>CHAR\<close> is a \<open>char\<close> of HOL (a byte), \<open>schar\<close> reads its signed value and \<open>uchar\<close> the value
  of its bits.  A NUL-terminated string is the list of the characters before the NUL.
\<close>

named_theorems fault_simps \<open>facts on results that may be a fault\<close>
named_theorems wf_simps \<open>facts that unfold or establish well-formedness predicates\<close>

unbundle bit_operations_syntax

type_synonym c_char = char
type_synonym c_int = int
type_synonym cstring = "char list"

section \<open>Characters as bytes\<close>

definition uchar :: "c_char \<Rightarrow> nat" where
  "uchar c = of_char c"

definition schar :: "c_char \<Rightarrow> int" where
  "schar c = (let n = int (uchar c) in if n < 128 then n else n - 256)"

definition EOS :: c_char where
  "EOS = char_of (0 :: nat)"

text \<open>A C integer stored into a \<open>CHAR\<close>: the low byte.\<close>

definition char_of_int :: "int \<Rightarrow> c_char" where
  "char_of_int i = char_of (nat (i mod 256))"

lemma uchar_less: "uchar c < 256"
  by (simp add: uchar_def)

lemma schar_bounds: "- 128 \<le> schar c \<and> schar c < 128"
  using uchar_less [of c] by (simp add: schar_def Let_def)

lemma char_of_uchar [simp]: "char_of (uchar c) = c"
  by (simp add: uchar_def)

lemma uchar_char_of [simp]: "uchar (char_of n) = n mod 256"
  by (simp add: uchar_def)

lemma uchar_inject [simp]: "uchar c = uchar d \<longleftrightarrow> c = d"
  by (metis char_of_uchar)

lemma schar_nonneg_iff: "0 \<le> schar c \<longleftrightarrow> uchar c < 128"
  using uchar_less [of c] by (simp add: schar_def Let_def)

lemma schar_eq_uchar: "0 \<le> schar c \<Longrightarrow> schar c = int (uchar c)"
  using uchar_less [of c] by (simp add: schar_def Let_def split: if_splits)

lemma EOS_eq: "EOS = CHR 0x00"
  by (simp add: EOS_def char_of_def)

lemma uchar_EOS [simp]: "uchar EOS = 0"
  by (simp add: EOS_def)

lemma uchar_0_iff [simp]: "uchar c = 0 \<longleftrightarrow> c = EOS"
  by (metis uchar_EOS uchar_inject)

section \<open>Strings\<close>

text \<open>The characters of a C string: none of them is the terminator.\<close>

definition is_cstr :: "cstring \<Rightarrow> bool" where
  "is_cstr s \<longleftrightarrow> EOS \<notin> set s"

text \<open>The characters that the 256-way tables of the code may be indexed with.\<close>

definition ascii :: "c_char \<Rightarrow> bool" where
  "ascii c \<longleftrightarrow> 0 \<le> schar c"

definition ascii_str :: "cstring \<Rightarrow> bool" where
  "ascii_str s \<longleftrightarrow> list_all ascii s"

lemma ascii_str_simps [simp]:
  "ascii_str []" "ascii_str (c # s) \<longleftrightarrow> ascii c \<and> ascii_str s"
  "ascii_str (s @ t) \<longleftrightarrow> ascii_str s \<and> ascii_str t"
  by (simp_all add: ascii_str_def)

lemma is_cstr_simps [simp]:
  "is_cstr []" "is_cstr (c # s) \<longleftrightarrow> c \<noteq> EOS \<and> is_cstr s"
  "is_cstr (s @ t) \<longleftrightarrow> is_cstr s \<and> is_cstr t"
  by (auto simp: is_cstr_def)

lemma ascii_uchar: "ascii c \<longleftrightarrow> uchar c < 128"
  by (simp add: ascii_def schar_nonneg_iff)

section \<open>Results that may be a fault\<close>

text \<open>
  \<open>Inl\<close> is a fault (undefined behaviour the code would run into, or an error it returns),
  \<open>Inr\<close> a result.
\<close>

definition bind_res :: "'e + 'a \<Rightarrow> ('a \<Rightarrow> 'e + 'b) \<Rightarrow> 'e + 'b" where
  "bind_res r f = (case r of Inl e \<Rightarrow> Inl e | Inr a \<Rightarrow> f a)"

lemma bind_res_simps [simp]:
  "bind_res (Inl e) f = Inl e" "bind_res (Inr a) f = f a"
  by (simp_all add: bind_res_def)

lemma bind_res_Inr [fault_simps]:
  "bind_res r f = Inr b \<longleftrightarrow> (\<exists>a. r = Inr a \<and> f a = Inr b)"
  by (cases r) simp_all

lemma bind_res_cong:
  "r = r' \<Longrightarrow> (\<And>a. r' = Inr a \<Longrightarrow> f a = g a) \<Longrightarrow> bind_res r f = bind_res r' g"
  by (cases r') simp_all

lemma option_ext: "(\<And>w. x = Some w \<longleftrightarrow> y = Some w) \<Longrightarrow> x = y"
  by (cases x; cases y) auto

lemma map_ext_Some: "(\<And>k w. f k = Some w \<longleftrightarrow> g k = Some w) \<Longrightarrow> f = g"
  by (rule ext, rule option_ext) blast

end
