(* ===== verification/LibString.thy ===== *)
theory LibString
  imports Prelude
begin

text \<open>
  The string routines of the system's C library, \<open>lib/libc/string\<close>, on which the shell rests.  A
  pointer into a string is the list of the characters from there to the terminating NUL; a pointer
  that is returned is the offset from the argument, \<open>LW_NULL\<close> is \<open>None\<close>.  Each definition is the
  loop of the C function; the lemmas give what it computes.
\<close>

section \<open>Length\<close>

primrec lib_strlen :: "cstring \<Rightarrow> nat" where
  "lib_strlen [] = 0"
| "lib_strlen (c # s) = Suc (lib_strlen s)"

fun lib_strnlen :: "cstring \<Rightarrow> nat \<Rightarrow> nat" where
  "lib_strnlen [] n = 0"
| "lib_strnlen (c # s) n = (if n > 0 then Suc (lib_strnlen s (n - 1)) else 0)"

lemma lib_strlen_eq [simp]: "lib_strlen s = length s"
  by (induction s) auto

lemma lib_strnlen_eq [simp]: "lib_strnlen s n = min n (length s)"
  by (induction s n rule: lib_strnlen.induct) auto

section \<open>Comparison\<close>

fun lib_strcmp :: "cstring \<Rightarrow> cstring \<Rightarrow> int" where
  "lib_strcmp [] [] = 0"
| "lib_strcmp [] (d # t) = (if uchar EOS > uchar d then 1 else - 1)"
| "lib_strcmp (c # s) [] = (if uchar c > uchar EOS then 1 else - 1)"
| "lib_strcmp (c # s) (d # t) =
     (if c = d then lib_strcmp s t else if uchar c > uchar d then 1 else - 1)"

fun lib_strncmp :: "cstring \<Rightarrow> cstring \<Rightarrow> nat \<Rightarrow> int" where
  "lib_strncmp s t 0 = 0"
| "lib_strncmp [] [] (Suc n) = 0"
| "lib_strncmp [] (d # t) (Suc n) = (if uchar EOS > uchar d then 1 else - 1)"
| "lib_strncmp (c # s) [] (Suc n) = (if uchar c > uchar EOS then 1 else - 1)"
| "lib_strncmp (c # s) (d # t) (Suc n) =
     (if c = d then lib_strncmp s t n else if uchar c > uchar d then 1 else - 1)"

lemma lib_strcmp_0 [simp]: "lib_strcmp s t = 0 \<longleftrightarrow> s = t"
  by (induction s t rule: lib_strcmp.induct) auto

lemma lib_strcmp_0_flip [simp]: "0 = lib_strcmp s t \<longleftrightarrow> s = t"
  by (metis lib_strcmp_0)

lemma lib_strncmp_0: "is_cstr s \<Longrightarrow> is_cstr t \<Longrightarrow> lib_strncmp s t n = 0 \<longleftrightarrow> take n s = take n t"
  by (induction s t n rule: lib_strncmp.induct) auto

text \<open>The sign of \<open>lib_strcmp\<close> is the lexicographic order of the unsigned characters.\<close>

lemma lib_strcmp_neg:
  "is_cstr s \<Longrightarrow> is_cstr t \<Longrightarrow>
     lib_strcmp s t < 0 \<longleftrightarrow> (map uchar s, map uchar t) \<in> lexord {(a, b). a < b}"
proof (induction s t rule: lib_strcmp.induct)
  case (4 c s d t)
  then show ?case using linorder_less_linear[of "uchar c" "uchar d"] by auto
qed auto

lemma lib_strcmp_swap:
  "is_cstr s \<Longrightarrow> is_cstr t \<Longrightarrow> lib_strcmp t s = - lib_strcmp s t"
proof (induction s t rule: lib_strcmp.induct)
  case (4 c s d t)
  then show ?case using uchar_inject[of c d] by auto
qed auto

section \<open>Search\<close>

fun lib_index :: "cstring \<Rightarrow> c_char \<Rightarrow> nat option" where
  "lib_index [] c = (if c = EOS then Some 0 else None)"
| "lib_index (d # s) c = (if d = c then Some 0 else map_option Suc (lib_index s c))"

fun rindex_loop :: "cstring \<Rightarrow> nat \<Rightarrow> c_char \<Rightarrow> nat option \<Rightarrow> nat option" where
  "rindex_loop [] i c found = (if c = EOS then Some i else found)"
| "rindex_loop (d # s) i c found = rindex_loop s (Suc i) c (if d = c then Some i else found)"

definition lib_rindex :: "cstring \<Rightarrow> c_char \<Rightarrow> nat option" where
  "lib_rindex s c = rindex_loop s 0 c None"

lemma lib_index_Some:
  "is_cstr s \<Longrightarrow> c \<noteq> EOS \<Longrightarrow>
     lib_index s c = Some i \<longleftrightarrow> i < length s \<and> s ! i = c \<and> c \<notin> set (take i s)"
proof (induction s arbitrary: i)
  case (Cons d s)
  then show ?case by (cases i) auto
qed auto

lemma lib_index_None: "c \<noteq> EOS \<Longrightarrow> lib_index s c = None \<longleftrightarrow> c \<notin> set s"
  by (induction s) auto

lemma rindex_loop_append:
  "c \<noteq> EOS \<Longrightarrow> rindex_loop (s @ [d]) i c l =
     (if d = c then Some (i + length s) else rindex_loop s i c l)"
  by (induction s arbitrary: i l) auto

lemma lib_rindex_snoc:
  "c \<noteq> EOS \<Longrightarrow> lib_rindex (s @ [d]) c = (if d = c then Some (length s) else lib_rindex s c)"
  by (simp add: lib_rindex_def rindex_loop_append)

lemma lib_rindex_Some:
  "is_cstr s \<Longrightarrow> c \<noteq> EOS \<Longrightarrow>
     lib_rindex s c = Some i \<longleftrightarrow> i < length s \<and> s ! i = c \<and> c \<notin> set (drop (Suc i) s)"
proof (induction s arbitrary: i rule: rev_induct)
  case (snoc d s)
  then have IH: "lib_rindex s c = Some i \<longleftrightarrow> i < length s \<and> s ! i = c \<and> c \<notin> set (drop (Suc i) s)"
    by (simp add: is_cstr_def)
  show ?case
  proof (cases "i < length s")
    case True
    then show ?thesis
      by (auto simp: lib_rindex_snoc[OF snoc.prems(2)] IH nth_append)
  next
    case False
    then have "lib_rindex s c \<noteq> Some i" using IH by blast
    with False show ?thesis
      by (auto simp: lib_rindex_snoc[OF snoc.prems(2)] nth_append)
  qed
qed (simp add: lib_rindex_def)

text \<open>
  \<open>lib_strstr\<close> goes from one occurrence of the first character of the pattern to the next and
  compares there.
\<close>

lemma lib_index_bound: "lib_index s c = Some i \<Longrightarrow> i \<le> length s"
  by (induction s arbitrary: i) (auto split: if_splits)

function strstr_loop :: "cstring \<Rightarrow> cstring \<Rightarrow> nat option" where
  "strstr_loop s t =
     (case lib_index s (hd (t @ [EOS])) of
        None \<Rightarrow> None
      | Some i \<Rightarrow>
          if lib_strncmp (drop i s) t (lib_strlen t) = 0 then Some i
          else if i < length s
          then map_option (\<lambda>j. Suc i + j) (strstr_loop (drop (Suc i) s) t)
          else None)"
  by pat_completeness auto
termination by (relation "measure (\<lambda>(s, t). length s)") auto

declare strstr_loop.simps [simp del]

definition lib_strstr :: "cstring \<Rightarrow> cstring \<Rightarrow> nat option" where
  "lib_strstr s t = (if lib_strlen t = 0 then Some 0 else strstr_loop s t)"

definition occurs_at :: "cstring \<Rightarrow> cstring \<Rightarrow> nat \<Rightarrow> bool" where
  "occurs_at t s i \<longleftrightarrow> i \<le> length s \<and> take (length t) (drop i s) = t"

lemma occurs_at_drop: "k \<le> length s \<Longrightarrow> occurs_at t (drop k s) j \<longleftrightarrow> occurs_at t s (k + j)"
  by (auto simp: occurs_at_def add.commute)

lemma occurs_at_hd: "occurs_at (c # t) s i \<Longrightarrow> i < length s \<and> s ! i = c"
  unfolding occurs_at_def
  by (metis drop_eq_Nil hd_drop_conv_nth leI length_Cons list.distinct(1) list.sel(1) take_Nil hd_take
      zero_less_Suc)

lemma strstr_loop_spec:
  "is_cstr s \<Longrightarrow> is_cstr (c # t) \<Longrightarrow>
     (case strstr_loop s (c # t) of
        None \<Rightarrow> \<forall>i. \<not> occurs_at (c # t) s i
      | Some i \<Rightarrow> occurs_at (c # t) s i \<and> (\<forall>j<i. \<not> occurs_at (c # t) s j))"
proof (induction "length s" arbitrary: s rule: less_induct)
  case less
  note cs = less.prems
  have cE: "c \<noteq> EOS" using cs(2) by simp
  show ?case
  proof (cases "lib_index s c")
    case None
    then have "c \<notin> set s" using lib_index_None[OF cE] by simp
    then have "\<not> occurs_at (c # t) s i" for i using occurs_at_hd[of c t s i] nth_mem by metis
    with None show ?thesis by (subst strstr_loop.simps) simp
  next
    case (Some i)
    then have i: "i < length s" "s ! i = c" "c \<notin> set (take i s)"
      using lib_index_Some[OF cs(1) cE] by auto
    have before: "\<not> occurs_at (c # t) s j" if "j < i" for j
    proof
      assume "occurs_at (c # t) s j"
      then have "s ! j = c" using occurs_at_hd by blast
      then have "take i s ! j = c" using that by simp
      then show False using i(1,3) that by (metis length_take min.absorb4 nth_mem)
    qed
    have cd: "is_cstr (drop i s)" "is_cstr (drop (Suc i) s)"
      using cs(1) unfolding is_cstr_def by (meson in_set_dropD)+
    have here: "lib_strncmp (drop i s) (c # t) (lib_strlen (c # t)) = 0 \<longleftrightarrow> occurs_at (c # t) s i"
      using lib_strncmp_0[OF cd(1) cs(2)] i(1) by (simp add: occurs_at_def)
    let ?r = "strstr_loop (drop (Suc i) s) (c # t)"
    have step: "strstr_loop s (c # t) =
        (if occurs_at (c # t) s i then Some i else map_option (\<lambda>j. Suc i + j) ?r)"
      using Some here i(1) by (subst strstr_loop.simps) simp
    have IH: "case ?r of None \<Rightarrow> \<forall>j. \<not> occurs_at (c # t) s (Suc i + j)
        | Some k \<Rightarrow> occurs_at (c # t) s (Suc i + k) \<and> (\<forall>j<k. \<not> occurs_at (c # t) s (Suc i + j))"
      using less.hyps[of "drop (Suc i) s"] i(1) cd(2) cs(2)
      by (auto simp: occurs_at_drop split: option.splits)
    have later: "\<not> occurs_at (c # t) s j"
      if "\<not> occurs_at (c # t) s i" "\<And>k. j = Suc i + k \<Longrightarrow> \<not> occurs_at (c # t) s (Suc i + k)" for j
      using before[of j] that by (metis le_add_diff_inverse less_linear not_less_eq not_less_less_Suc_eq linorder_not_less)
    show ?thesis
    proof (cases "occurs_at (c # t) s i")
      case True
      with step before show ?thesis by simp
    next
      case no: False
      show ?thesis
      proof (cases ?r)
        case None
        with IH step no later show ?thesis by simp
      next
        case (Some k)
        have "\<not> occurs_at (c # t) s j" if "j < Suc i + k" for j
        proof (rule later[OF no])
          fix m assume "j = Suc i + m"
          then show "\<not> occurs_at (c # t) s (Suc i + m)" using IH Some that by simp
        qed
        with Some IH step no show ?thesis by simp
      qed
    qed
  qed
qed

section \<open>Copy and concatenation\<close>

fun strlcpy_loop :: "cstring \<Rightarrow> nat \<Rightarrow> cstring" where
  "strlcpy_loop [] n = []"
| "strlcpy_loop (c # s) n = (if n > 1 then c # strlcpy_loop s (n - 1) else [])"

definition lib_strlcpy :: "cstring \<Rightarrow> cstring \<Rightarrow> nat \<Rightarrow> cstring \<times> nat" where
  "lib_strlcpy dest src n =
     (if n = 0 then (dest, lib_strlen src) else (strlcpy_loop src n, lib_strlen src))"

definition lib_strlcat :: "cstring \<Rightarrow> cstring \<Rightarrow> nat \<Rightarrow> cstring \<times> nat" where
  "lib_strlcat dest src n =
     (let dlen = lib_strnlen dest n;
          cnt = n - dlen
      in if cnt = 0 then (dest, dlen + lib_strlen src)
         else (take dlen dest @ strlcpy_loop src cnt, dlen + lib_strlen src))"

lemma strlcpy_loop_eq: "strlcpy_loop s n = take (n - 1) s"
proof (induction s n rule: strlcpy_loop.induct)
  case (2 c s n)
  then show ?case by (cases n; cases "n - 1") auto
qed simp

lemma lib_strlcpy_eq: "0 < n \<Longrightarrow> lib_strlcpy d s n = (take (n - 1) s, length s)"
  by (simp add: lib_strlcpy_def strlcpy_loop_eq)

end
