(* ===== verification/Trie.thy ===== *)
theory Trie
  imports Prelude "HOL-Library.Sublist"
begin

text \<open>
  The history trie of the shell, \<open>kernel/tree/trie.c\<close> and \<open>trie.h\<close>.

  \<open>LW_TRIE_NODE\<close> is the datatype \<open>trie\<close>.  The pointer \<open>child\<close> is allocated by
  \<open>__trieNodeValidate\<close> together with \<open>isValid = 1\<close>, and neither is ever undone, so the two are one
  field: \<open>child t = None\<close> is a node with \<open>isValid = 0\<close>, \<open>child t = Some g\<close> a valid one whose child
  at index \<open>c\<close> is \<open>g c\<close>.  \<open>INITIALIZE_TRIE_NODE\<close> leaves \<open>mostFrequentlyUsedChar\<close> unset: that
  is \<open>None\<close>.  The frequencies are 15-bit fields.  Allocations are taken to succeed.

  The code indexes the child array with a signed \<open>CHAR\<close> (\<open>child + *sentence\<close>): a character
  outside ASCII would read before the array.  That is the fault \<open>Negative_Index\<close>.
\<close>

section \<open>Nodes\<close>

datatype trie =
  TrieNode (isEnd: bool) (frequence: "15 word") (maxFrequence: "15 word")
    (mostFrequentlyUsedChar: "c_char option") (child: "(c_char \<Rightarrow> trie) option")

datatype trie_fault = Negative_Index | Uninitialised_Char | Invalid_Child | Buffer_Overflow

definition isValid :: "trie \<Rightarrow> bool" where
  "isValid t \<longleftrightarrow> child t \<noteq> None"

definition initialize_trie_node :: trie where
  "initialize_trie_node = TrieNode False 0 0 None None"

definition trieNodeValidate :: "trie \<Rightarrow> trie" where
  "trieNodeValidate t =
     TrieNode (isEnd t) (frequence t) (maxFrequence t) (mostFrequentlyUsedChar t)
       (Some (\<lambda>_. initialize_trie_node))"

definition trieGetRoot :: trie where
  "trieGetRoot = trieNodeValidate initialize_trie_node"


section \<open>Insertion\<close>

text \<open>The first two statements of \<open>__trieInsert\<close>: count the visit, allocate the children.\<close>

definition trieTouch :: "trie \<Rightarrow> trie" where
  "trieTouch t =
     (let t1 = TrieNode (isEnd t)
                 (if frequence t = 32767 then 32767 else frequence t + 1)
                 (maxFrequence t) (mostFrequentlyUsedChar t) (child t)
      in if isValid t1 then t1 else trieNodeValidate t1)"

fun trieInsert :: "trie \<Rightarrow> cstring \<Rightarrow> trie_fault + trie" where
  "trieInsert t [] =
     (let t2 = trieTouch t
      in Inr (TrieNode True (frequence t2) (maxFrequence t2) (mostFrequentlyUsedChar t2) (child t2)))"
| "trieInsert t (c # s) =
     (let t2 = trieTouch t in
      if schar c < 0 then Inl Negative_Index
      else case child t2 of
        None \<Rightarrow> Inl Invalid_Child
      | Some g \<Rightarrow>
          bind_res (trieInsert (g c) s) (\<lambda>u.
            if maxFrequence t2 \<le> frequence u
            then Inr (TrieNode (isEnd t2) (frequence t2) (frequence u) (Some c) (Some (g(c := u))))
            else Inr (TrieNode (isEnd t2) (frequence t2) (maxFrequence t2)
                        (mostFrequentlyUsedChar t2) (Some (g(c := u))))))"

text \<open>The history: every executed command is inserted in turn (\<open>__tshellAfterExecution\<close>).\<close>

fun trieInsertAll :: "trie \<Rightarrow> cstring list \<Rightarrow> trie_fault + trie" where
  "trieInsertAll t [] = Inr t"
| "trieInsertAll t (w # ws) = bind_res (trieInsert t w) (\<lambda>u. trieInsertAll u ws)"

section \<open>Search\<close>

text \<open>
  The loop of \<open>__trieSearch\<close> that writes the suffix: \<open>bufferLen\<close> is the capacity of the buffer,
  \<open>buf\<close> what has been written.  A write at index \<open>current_len\<close> outside the buffer is the fault
  \<open>Buffer_Overflow\<close>; the new capacity on growth is \<open>3 * bufferLen / 2\<close> (\<open>ENLARGE_LIST\<close>).
\<close>

primrec trieFollow :: "trie \<Rightarrow> nat \<Rightarrow> cstring \<Rightarrow> trie_fault + cstring" where
  "trieFollow (TrieNode e f m k ch) = (\<lambda>bufferLen buf.
     let bufferLen = (if length buf \<ge> bufferLen - 1 then 3 * bufferLen div 2 else bufferLen) in
     if \<not> length buf < bufferLen then Inl Buffer_Overflow
     else if e then Inr buf
     else case k of
       None \<Rightarrow> Inl Uninitialised_Char
     | Some c \<Rightarrow>
         (case map_option (\<lambda>g. trieFollow \<circ> g) ch of
           None \<Rightarrow> Inl Invalid_Child
         | Some h \<Rightarrow> if schar c < 0 then Inl Negative_Index else h c bufferLen (buf @ [c])))"

fun trieSearch :: "trie \<Rightarrow> cstring \<Rightarrow> trie_fault + cstring option" where
  "trieSearch t [] =
     (if \<not> isValid t then Inr None else map_sum id Some (trieFollow t 10 []))"
| "trieSearch t (c # s) =
     (case child t of
        None \<Rightarrow> Inr None
      | Some g \<Rightarrow> if schar c < 0 then Inl Negative_Index else trieSearch (g c) s)"

section \<open>The abstract history: the words of a trie\<close>

fun node_at :: "trie \<Rightarrow> cstring \<Rightarrow> trie option" where
  "node_at t [] = Some t"
| "node_at t (c # s) = (case child t of None \<Rightarrow> None | Some g \<Rightarrow> node_at (g c) s)"

definition is_word :: "trie \<Rightarrow> cstring \<Rightarrow> bool" where
  "is_word t w = (case node_at t w of None \<Rightarrow> False | Some u \<Rightarrow> isEnd u)"

definition freq_at :: "trie \<Rightarrow> cstring \<Rightarrow> nat" where
  "freq_at t w = (case node_at t w of None \<Rightarrow> 0 | Some u \<Rightarrow> unat (frequence u))"

lemma is_word_simps [simp]:
  "is_word t [] \<longleftrightarrow> isEnd t"
  "is_word t (c # w) \<longleftrightarrow> (case child t of None \<Rightarrow> False | Some g \<Rightarrow> is_word (g c) w)"
  by (auto simp: is_word_def split: option.splits)

lemma freq_at_simps [simp]:
  "freq_at t [] = unat (frequence t)"
  "freq_at t (c # w) = (case child t of None \<Rightarrow> 0 | Some g \<Rightarrow> freq_at (g c) w)"
  by (auto simp: freq_at_def split: option.splits)

lemma init_node_simps [simp]:
  "isEnd initialize_trie_node = False" "frequence initialize_trie_node = 0"
  "maxFrequence initialize_trie_node = 0" "mostFrequentlyUsedChar initialize_trie_node = None"
  "child initialize_trie_node = None" "isValid initialize_trie_node = False"
  "is_word initialize_trie_node w = False" "freq_at initialize_trie_node w = 0"
  by (cases w; simp add: initialize_trie_node_def isValid_def)+

lemma validate_simps [simp]:
  "isEnd (trieNodeValidate t) = isEnd t" "frequence (trieNodeValidate t) = frequence t"
  "maxFrequence (trieNodeValidate t) = maxFrequence t"
  "mostFrequentlyUsedChar (trieNodeValidate t) = mostFrequentlyUsedChar t"
  "child (trieNodeValidate t) = Some (\<lambda>_. initialize_trie_node)" "isValid (trieNodeValidate t)"
  by (simp_all add: trieNodeValidate_def isValid_def)

lemma isValid_TrieNode [simp]: "isValid (TrieNode e f m k ch) \<longleftrightarrow> ch \<noteq> None"
  by (simp add: isValid_def)

lemma touch_simps [simp]:
  "isEnd (trieTouch t) = isEnd t" "maxFrequence (trieTouch t) = maxFrequence t"
  "mostFrequentlyUsedChar (trieTouch t) = mostFrequentlyUsedChar t" "isValid (trieTouch t)"
  "frequence (trieTouch t) = (if frequence t = 32767 then 32767 else frequence t + 1)"
  by (auto simp: trieTouch_def Let_def)

lemma child_touch:
  "child (trieTouch t) =
     Some (case child t of None \<Rightarrow> (\<lambda>_. initialize_trie_node) | Some g \<Rightarrow> g)"
  by (auto simp: trieTouch_def Let_def isValid_def trieNodeValidate_def)


section \<open>Insertion adds one word and counts one visit\<close>

lemma trieInsert_total: "ascii_str s \<Longrightarrow> \<exists>u. trieInsert t s = Inr u"
proof (induction s arbitrary: t)
  case Nil
  then show ?case by (simp add: Let_def)
next
  case (Cons c s)
  then have "\<not> schar c < 0" by (simp add: ascii_def)
  moreover obtain g where g: "child (trieTouch t) = Some g" by (simp add: child_touch)
  moreover obtain u where "trieInsert (g c) s = Inr u" using Cons by auto
  ultimately show ?case by (simp add: Let_def)
qed

lemma trieInsert_ConsE:
  assumes "trieInsert t (c # s) = Inr u"
  obtains g v where "child (trieTouch t) = Some g" "ascii c" "trieInsert (g c) s = Inr v"
    "child u = Some (g(c := v))" "isEnd u = isEnd t" "frequence u = frequence (trieTouch t)"
    "maxFrequence u = max (maxFrequence t) (frequence v)"
    "mostFrequentlyUsedChar u =
       (if maxFrequence t \<le> frequence v then Some c else mostFrequentlyUsedChar t)"
  using assms
  by (fastforce simp: Let_def bind_res_Inr ascii_def max_def split: if_splits option.splits)

declare trieInsert.simps(2) [simp del]

lemma trieInsert_valid: "trieInsert t s = Inr u \<Longrightarrow> isValid u"
  by (cases s) (auto simp: Let_def isValid_def child_touch elim: trieInsert_ConsE)

lemma frequence_insert:
  "trieInsert t s = Inr u \<Longrightarrow> frequence u = frequence (trieTouch t)"
  by (cases s) (auto simp: Let_def simp del: touch_simps elim: trieInsert_ConsE)

lemma child_touch_word:
  assumes "child (trieTouch t) = Some g"
  shows "is_word t (d # w) \<longleftrightarrow> is_word (g d) w" "freq_at t (d # w) = freq_at (g d) w"
  using assms by (auto simp: child_touch split: option.splits)

lemma trieInsert_word: "trieInsert t s = Inr u \<Longrightarrow> is_word u w \<longleftrightarrow> w = s \<or> is_word t w"
proof (induction s arbitrary: t u w)
  case Nil
  then show ?case by (cases w) (auto simp: Let_def child_touch split: option.splits)
next
  case (Cons c s)
  then obtain g v where g: "child (trieTouch t) = Some g" and v: "trieInsert (g c) s = Inr v"
    and u: "child u = Some (g(c := v))" "isEnd u = isEnd t"
    by (elim trieInsert_ConsE) auto
  show ?case
  proof (cases w)
    case (Cons d w')
    then show ?thesis
      using Cons.IH [OF v, of w'] by (simp only: child_touch_word [OF g]) (simp add: u)
  qed (simp add: u)
qed

lemma unat_touch: "unat (frequence (trieTouch t)) = min 32767 (unat (frequence t) + 1)"
proof (cases "frequence t = 32767")
  case False
  then have "unat (frequence t) \<noteq> unat (32767 :: 15 word)"
    by (simp only: word_unat_eq_iff [symmetric]) simp
  moreover have lt: "unat (frequence t) < 32768"
    using unsigned_less [of "frequence t"] by simp
  ultimately have le: "unat (frequence t) < 32767" by simp
  then have "unat (frequence t + 1) = unat (frequence t) + 1"
    by (simp add: unat_word_ariths)
  with False le show ?thesis by simp
qed simp

lemma trieInsert_freq:
  "trieInsert t s = Inr u \<Longrightarrow>
   freq_at u w = (if prefix w s then min 32767 (freq_at t w + 1) else freq_at t w)"
proof (induction s arbitrary: t u w)
  case Nil
  then show ?case
    by (cases w) (auto simp: Let_def child_touch unat_touch simp del: touch_simps(5) split: option.splits)
next
  case (Cons c s)
  then obtain g v where g: "child (trieTouch t) = Some g" and v: "trieInsert (g c) s = Inr v"
    and u: "child u = Some (g(c := v))" "frequence u = frequence (trieTouch t)"
    by (elim trieInsert_ConsE) auto
  show ?case
  proof (cases w)
    case Nil
    with u show ?thesis by (simp add: unat_touch del: touch_simps(5))
  next
    case (Cons d w')
    then show ?thesis
      using Cons.IH [OF v, of w'] by (simp only: child_touch_word [OF g]) (simp add: u)
  qed
qed


section \<open>The invariant of the nodes\<close>

text \<open>
  \<open>maxFrequence\<close> is the frequency of the child \<open>mostFrequentlyUsedChar\<close>, and no child has a
  higher one; every valid child is a word or knows where to go on.
\<close>

definition children_ok ::
    "bool \<Rightarrow> 15 word \<Rightarrow> 15 word \<Rightarrow> c_char option \<Rightarrow> (c_char \<Rightarrow> trie) option \<Rightarrow> bool" where
  "children_ok e f m k ch = (case ch of
     None \<Rightarrow> \<not> e \<and> f = 0 \<and> m = 0 \<and> k = None
   | Some g \<Rightarrow>
       (\<forall>c. isValid (g c) \<longrightarrow> ascii c \<and> (isEnd (g c) \<or> mostFrequentlyUsedChar (g c) \<noteq> None)) \<and>
       (\<forall>c. frequence (g c) \<le> m) \<and>
       (case k of None \<Rightarrow> m = 0 \<and> (\<forall>c. \<not> isValid (g c))
        | Some c \<Rightarrow> ascii c \<and> isValid (g c) \<and> frequence (g c) = m))"

primrec trie_inv :: "trie \<Rightarrow> bool" where
  "trie_inv (TrieNode e f m k ch) =
     (children_ok e f m k ch \<and>
      (case map_option (\<lambda>g. trie_inv \<circ> g) ch of None \<Rightarrow> True | Some h \<Rightarrow> \<forall>c. h c))"

lemma trie_inv_unfold [wf_simps]:
  "trie_inv t \<longleftrightarrow>
     children_ok (isEnd t) (frequence t) (maxFrequence t) (mostFrequentlyUsedChar t) (child t) \<and>
     (\<forall>g. child t = Some g \<longrightarrow> (\<forall>c. trie_inv (g c)))"
  by (cases t) (auto split: option.splits)

lemma trie_inv_init [simp]: "trie_inv initialize_trie_node"
  by (simp add: trie_inv_unfold [of initialize_trie_node] children_ok_def)

lemma trie_inv_root: "trie_inv trieGetRoot"
  by (simp add: trieGetRoot_def trie_inv_unfold [of "trieNodeValidate _"] children_ok_def)

lemma trie_inv_touch:
  assumes "trie_inv t" and "child (trieTouch t) = Some g"
  shows "trie_inv (g c)" "frequence (g c) \<le> maxFrequence t"
    "isValid (g c) \<Longrightarrow> ascii c \<and> (isEnd (g c) \<or> mostFrequentlyUsedChar (g c) \<noteq> None)"
    "mostFrequentlyUsedChar t = None \<Longrightarrow> maxFrequence t = 0 \<and> \<not> isValid (g c)"
    "mostFrequentlyUsedChar t = Some d \<Longrightarrow> ascii d \<and> isValid (g d) \<and> frequence (g d) = maxFrequence t"
  using assms by (auto simp: trie_inv_unfold [of t] children_ok_def child_touch split: option.splits)

lemma trieTouch_freq_le: "frequence t \<le> frequence (trieTouch t)"
proof -
  have "unat (frequence t) < 2 ^ 15" using unsigned_less [of "frequence t"] by simp
  then show ?thesis by (simp add: word_le_nat_alt unat_touch del: touch_simps(5))
qed

lemma trieInsert_inv:
  "trieInsert t s = Inr u \<Longrightarrow> trie_inv t \<Longrightarrow>
   trie_inv u \<and> (isEnd u \<or> mostFrequentlyUsedChar u \<noteq> None)"
proof (induction s arbitrary: t u)
  case Nil
  obtain g where g: "child (trieTouch t) = Some g" by (simp add: child_touch)
  note touch = trie_inv_touch [OF Nil.prems(2) g]
  from Nil.prems(1) have "isEnd u" "child u = Some g" "maxFrequence u = maxFrequence t"
    "mostFrequentlyUsedChar u = mostFrequentlyUsedChar t" by (auto simp: Let_def g)
  with touch show ?case
    by (auto simp: trie_inv_unfold [of u] children_ok_def split: option.splits)
next
  case (Cons c s)
  from Cons.prems(1) obtain g v where g: "child (trieTouch t) = Some g" and c: "ascii c"
    and v: "trieInsert (g c) s = Inr v" and u: "child u = Some (g(c := v))"
      "maxFrequence u = max (maxFrequence t) (frequence v)"
      "mostFrequentlyUsedChar u =
         (if maxFrequence t \<le> frequence v then Some c else mostFrequentlyUsedChar t)"
    by (elim trieInsert_ConsE) auto
  note touch = trie_inv_touch [OF Cons.prems(2) g]
  have IH: "trie_inv v" "isEnd v \<or> mostFrequentlyUsedChar v \<noteq> None"
    using Cons.IH [OF v] touch by auto
  have valid: "isValid v" using v by (rule trieInsert_valid)
  have grow: "frequence (g c) \<le> frequence v"
    using frequence_insert [OF v] trieTouch_freq_le [of "g c"] by simp
  have other: "mostFrequentlyUsedChar t = Some d \<Longrightarrow> \<not> maxFrequence t \<le> frequence v \<Longrightarrow> d \<noteq> c" for d
    using touch(5) grow by auto
  have none: "mostFrequentlyUsedChar t = None \<Longrightarrow> maxFrequence t \<le> frequence v"
    using Cons.prems(2) by (auto simp: trie_inv_unfold [of t] children_ok_def split: option.splits)
  have "frequence (g d) \<le> max (maxFrequence t) (frequence v)" for d
    using touch(2) [of d] by (simp add: max.coboundedI1)
  with touch IH valid c other none show ?case
    by (auto simp: trie_inv_unfold [of u] children_ok_def u max_def split: option.splits)
qed


lemma trieInsertAll_total:
  "list_all ascii_str ws \<Longrightarrow> trie_inv t \<Longrightarrow> \<exists>u. trieInsertAll t ws = Inr u \<and> trie_inv u"
proof (induction ws arbitrary: t)
  case (Cons w ws)
  then obtain u where "trieInsert t w = Inr u" using trieInsert_total [of w t] by auto
  with Cons show ?case by (auto dest: trieInsert_inv)
qed simp

lemma trieInsertAll_inv: "trieInsertAll t ws = Inr u \<Longrightarrow> trie_inv t \<Longrightarrow> trie_inv u"
  by (induction ws arbitrary: t) (auto simp: bind_res_Inr dest: trieInsert_inv)

lemma trieInsertAll_valid: "trieInsertAll t ws = Inr u \<Longrightarrow> isValid t \<Longrightarrow> isValid u"
  by (induction ws arbitrary: t) (auto simp: bind_res_Inr dest: trieInsert_valid)

lemma trieInsertAll_word:
  "trieInsertAll t ws = Inr u \<Longrightarrow> is_word u w \<longleftrightarrow> w \<in> set ws \<or> is_word t w"
proof (induction ws arbitrary: t)
  case (Cons a ws)
  then obtain v where v: "trieInsert t a = Inr v" "trieInsertAll v ws = Inr u"
    by (auto simp: bind_res_Inr)
  then show ?case using Cons.IH [OF v(2)] trieInsert_word [OF v(1), of w] by auto
qed simp

text \<open>How many commands of the history start with \<open>p\<close>.\<close>

definition visits :: "cstring list \<Rightarrow> cstring \<Rightarrow> nat" where
  "visits ws p = length (filter (prefix p) ws)"

lemma trieInsertAll_freq:
  "trieInsertAll t ws = Inr u \<Longrightarrow> freq_at t p \<le> 32767 \<Longrightarrow>
   freq_at u p = min 32767 (freq_at t p + visits ws p)"
proof (induction ws arbitrary: t)
  case (Cons w ws)
  then obtain v where v: "trieInsert t w = Inr v" "trieInsertAll v ws = Inr u"
    by (auto simp: bind_res_Inr)
  then show ?case
    using Cons.IH [OF v(2)] Cons.prems(2) trieInsert_freq [OF v(1), of p]
    by (auto simp: visits_def)
qed (simp add: visits_def)

section \<open>What the suggestion is\<close>

fun greedy :: "trie \<Rightarrow> cstring \<Rightarrow> bool" where
  "greedy t [] = isEnd t"
| "greedy t (c # s) =
     (\<not> isEnd t \<and> (case child t of None \<Rightarrow> False
        | Some g \<Rightarrow> (\<forall>d. frequence (g d) \<le> frequence (g c)) \<and> greedy (g c) s))"

lemma greedy_word: "greedy t s \<Longrightarrow> is_word t s"
  by (induction t s rule: greedy.induct) (auto split: option.splits)

lemma greedy_steps:
  "greedy t s \<Longrightarrow> j < length s \<Longrightarrow>
   \<not> is_word t (take j s) \<and> (\<forall>d. freq_at t (take j s @ [d]) \<le> freq_at t (take (Suc j) s))"
proof (induction t s arbitrary: j rule: greedy.induct)
  case (2 t c s)
  then obtain g where g: "child t = Some g" by (auto split: option.splits)
  show ?case
  proof (cases j)
    case 0
    with 2 g show ?thesis by (auto simp: word_le_nat_alt)
  next
    case (Suc i)
    with 2 g show ?thesis by simp
  qed
qed simp

lemma trieFollow_greedy:
  "trie_inv t \<Longrightarrow> isValid t \<Longrightarrow> isEnd t \<or> mostFrequentlyUsedChar t \<noteq> None \<Longrightarrow>
   2 \<le> bufferLen \<Longrightarrow> length buf < bufferLen \<Longrightarrow>
   \<exists>s. trieFollow t bufferLen buf = Inr (buf @ s) \<and> greedy t s"
proof (induction t arbitrary: bufferLen buf)
  case (TrieNode e f m k ch)
  define b where "b = (if length buf \<ge> bufferLen - 1 then 3 * bufferLen div 2 else bufferLen)"
  have b: "2 \<le> b" "length buf + 1 < b" using TrieNode.prems(4,5) by (auto simp: b_def)
  have step: "trieFollow (TrieNode e f m k ch) bufferLen buf =
    (if e then Inr buf else case k of None \<Rightarrow> Inl Uninitialised_Char
     | Some c \<Rightarrow> (case ch of None \<Rightarrow> Inl Invalid_Child
         | Some g \<Rightarrow> if schar c < 0 then Inl Negative_Index else trieFollow (g c) b (buf @ [c])))"
    using b unfolding b_def by (auto simp: Let_def split: option.splits)
  show ?case
  proof (cases e)
    case True
    then show ?thesis unfolding step by (intro exI [of _ "[]"]) simp
  next
    case False
    with TrieNode.prems obtain c g where cg: "k = Some c" "ch = Some g"
      by (auto simp: isValid_def)
    with TrieNode.prems(1) have c: "ascii c" "isValid (g c)" "frequence (g c) = m"
      "\<And>d. frequence (g d) \<le> m" "trie_inv (g c)"
      "isEnd (g c) \<or> mostFrequentlyUsedChar (g c) \<noteq> None"
      by (auto simp: children_ok_def)
    obtain s where "trieFollow (g c) b (buf @ [c]) = Inr ((buf @ [c]) @ s)" "greedy (g c) s"
      using TrieNode.IH [of g "g c" b "buf @ [c]"] cg c b by auto
    with False cg c b show ?thesis
      unfolding step by (intro exI [of _ "c # s"]) (auto simp: ascii_def)
  qed
qed

lemma trieSearch_spec:
  assumes "trie_inv t" and "ascii_str p" and "isValid t \<Longrightarrow> isEnd t \<or> mostFrequentlyUsedChar t \<noteq> None"
  shows "(trieSearch t p = Inr None \<and> (\<forall>q. \<not> is_word t (p @ q))) \<or>
    (\<exists>s u. trieSearch t p = Inr (Some s) \<and> node_at t p = Some u \<and> greedy u s)"
  using assms
proof (induction t p rule: trieSearch.induct)
  case (1 t)
  show ?case
  proof (cases "isValid t")
    case True
    with 1 trieFollow_greedy [of t 10 "[]"] show ?thesis by auto
  next
    case False
    then have "child t = None" by (simp add: isValid_def)
    with 1 False have "t = initialize_trie_node"
      by (cases t) (auto simp: initialize_trie_node_def children_ok_def)
    with False show ?thesis by simp
  qed
next
  case (2 t c s)
  show ?case
  proof (cases "child t")
    case (Some g)
    with "2.prems" have "trie_inv (g c)" "ascii c"
      "isValid (g c) \<Longrightarrow> isEnd (g c) \<or> mostFrequentlyUsedChar (g c) \<noteq> None"
      by (auto simp: trie_inv_unfold [of t] children_ok_def)
    with "2.IH" [OF Some] "2.prems"(2) Some show ?thesis by (auto simp: ascii_def)
  qed simp
qed


lemma node_at_append:
  "node_at t p = Some u \<Longrightarrow> is_word t (p @ q) = is_word u q"
  "node_at t p = Some u \<Longrightarrow> freq_at t (p @ q) = freq_at u q"
  by (induction t p rule: node_at.induct) (auto split: option.splits)

lemma is_word_root [simp]: "\<not> is_word trieGetRoot w"
  by (cases w) (simp_all add: trieGetRoot_def)

lemma freq_at_root [simp]: "freq_at trieGetRoot w = 0"
  by (cases w) (simp_all add: trieGetRoot_def)

text \<open>
  C3: a suggestion completes the input to a command of the history, and one is given exactly
  when there is one.  For any history of ASCII commands and any non-empty ASCII input, the
  inserts run without a fault, the search returns, never faults (no uninitialised character is
  read, no invalid child followed, the buffer never overflows), answers \<open>NULL\<close> only if no
  command of the history starts with the input, and otherwise returns a suffix that makes the
  input a command of the history.
\<close>

theorem suggestion_completes_history:
  assumes "list_all ascii_str ws" and "ascii_str (c # p)"
  shows "\<exists>t. trieInsertAll trieGetRoot ws = Inr t \<and>
    (case trieSearch t (c # p) of
       Inl f \<Rightarrow> False
     | Inr None \<Rightarrow> \<forall>w \<in> set ws. \<not> prefix (c # p) w
     | Inr (Some s) \<Rightarrow> (c # p) @ s \<in> set ws)"
proof -
  from assms(1) obtain t where t: "trieInsertAll trieGetRoot ws = Inr t" and inv: "trie_inv t"
    using trieInsertAll_total [OF _ trie_inv_root] by blast
  have words: "is_word t w \<longleftrightarrow> w \<in> set ws" for w
    using trieInsertAll_word [OF t, of w] by simp
  have "isValid trieGetRoot" by (simp add: trieGetRoot_def)
  then obtain g where g: "child t = Some g"
    using trieInsertAll_valid [OF t] by (auto simp: isValid_def)
  have live: "isValid (g c) \<Longrightarrow> isEnd (g c) \<or> mostFrequentlyUsedChar (g c) \<noteq> None" "trie_inv (g c)"
    using inv g by (auto simp: trie_inv_unfold [of t] children_ok_def)
  have "ascii_str p" "\<not> schar c < 0" using assms(2) by (auto simp: ascii_def)
  from trieSearch_spec [OF live(2) this(1) live(1)]
  consider "trieSearch (g c) p = Inr None" "\<forall>q. \<not> is_word (g c) (p @ q)"
    | s u where "trieSearch (g c) p = Inr (Some s)" "node_at (g c) p = Some u" "greedy u s"
    by blast
  then show ?thesis
  proof cases
    case 1
    then have no: "\<not> is_word t ((c # p) @ q)" for q using g by simp
    then have "\<forall>w \<in> set ws. \<not> prefix (c # p) w" by (metis words prefixE)
    then show ?thesis using t g 1 \<open>\<not> schar c < 0\<close> by simp
  next
    case 2
    then have "is_word t ((c # p) @ s)"
      using node_at_append(1) [of "g c" p u s] greedy_word g by simp
    then have "(c # p) @ s \<in> set ws" by (simp only: words)
    then show ?thesis using t g 2 \<open>\<not> schar c < 0\<close> by simp
  qed
qed


lemma suggestion_completes_history_witness:
  "\<exists>t. trieInsertAll trieGetRoot [''ls'', ''ifconfig'', ''logfiles''] = Inr t \<and>
    (case trieSearch t ''l'' of
       Inl f \<Rightarrow> False
     | Inr None \<Rightarrow> \<forall>w \<in> set [''ls'', ''ifconfig'', ''logfiles'']. \<not> prefix ''l'' w
     | Inr (Some s) \<Rightarrow> ''l'' @ s \<in> set [''ls'', ''ifconfig'', ''logfiles''])"
  by (rule suggestion_completes_history)
    (simp_all add: ascii_def schar_def uchar_def ascii_str_def)

text \<open>
  The suggestion follows the most visited commands.  Every character of the suffix is the one
  that most commands of the history continue with at that point (counted up to the saturation
  of the 15-bit counter at 32767), and the suffix stops at the first command it meets.
\<close>

theorem suggestion_most_frequent:
  assumes "trieInsertAll trieGetRoot ws = Inr t" and "ascii_str (c # p)"
    and "trieSearch t (c # p) = Inr (Some s)" and "j < length s"
  shows "(c # p) @ take j s \<notin> set ws \<and>
    min 32767 (visits ws ((c # p) @ take j s @ [d]))
      \<le> min 32767 (visits ws ((c # p) @ take (Suc j) s))"
proof -
  note t = assms(1)
  have inv: "trie_inv t" using trieInsertAll_inv [OF t trie_inv_root] .
  have "isValid trieGetRoot" by (simp add: trieGetRoot_def)
  then obtain g where g: "child t = Some g"
    using trieInsertAll_valid [OF t] by (auto simp: isValid_def)
  have live: "isValid (g c) \<Longrightarrow> isEnd (g c) \<or> mostFrequentlyUsedChar (g c) \<noteq> None" "trie_inv (g c)"
    using inv g by (auto simp: trie_inv_unfold [of t] children_ok_def)
  have p: "ascii_str p" "\<not> schar c < 0" using assms(2) by (auto simp: ascii_def)
  obtain u where u: "node_at (g c) p = Some u" "greedy u s"
    using trieSearch_spec [OF live(2) p(1) live(1)] assms(3) g p by auto
  have at: "is_word t ((c # p) @ q) = is_word u q" "freq_at t ((c # p) @ q) = freq_at u q" for q
    using node_at_append [OF u(1), of q] g by simp_all
  have freq: "freq_at t q = min 32767 (visits ws q)" for q
    using trieInsertAll_freq [OF t, of q] by simp
  note step = greedy_steps [OF u(2) assms(4)]
  have "\<not> is_word t ((c # p) @ take j s)" using step by (simp only: at) simp
  then have "(c # p) @ take j s \<notin> set ws" by (simp only: trieInsertAll_word [OF t]) blast
  moreover have "freq_at t ((c # p) @ take j s @ [d]) \<le> freq_at t ((c # p) @ take (Suc j) s)"
    using step by (simp only: at)
  ultimately show ?thesis by (simp only: freq not_False_eq_True simp_thms)
qed

lemma suggestion_most_frequent_witness:
  "\<exists>t. trieInsertAll trieGetRoot [''ls'', ''ll'', ''ls''] = Inr t \<and>
     trieSearch t ''l'' = Inr (Some ''s'') \<and> visits [''ls'', ''ll'', ''ls''] ''ls'' = 2 \<and>
     min 32767 (visits [''ls'', ''ll'', ''ls''] ''ll'')
       \<le> min 32767 (visits [''ls'', ''ll'', ''ls''] ''ls'')"
proof -
  let ?ws = "[''ls'', ''ll'', ''ls'']"
  have asc: "ascii CHR ''l''" "ascii CHR ''s''" by (simp_all add: ascii_def schar_def uchar_def)
  obtain t where t: "trieInsertAll trieGetRoot ?ws = Inr t"
    using trieInsertAll_total [OF _ trie_inv_root, of ?ws] asc by auto
  have s: "trieSearch t ''l'' = Inr (Some ''s'')"
    using t asc by (auto simp: trieGetRoot_def trieInsert.simps Let_def child_touch ascii_def)
  have "min 32767 (visits ?ws ((CHR ''l'' # []) @ take 0 ''s'' @ [CHR ''l'']))
      \<le> min 32767 (visits ?ws ((CHR ''l'' # []) @ take (Suc 0) ''s''))"
    using suggestion_most_frequent [OF t _ s, of 0] asc by simp
  then show ?thesis using t s by (auto simp: visits_def)
qed

end
