(* ===== verification/TrieFile.thy ===== *)
theory TrieFile
  imports Trie
begin

text \<open>
  The life of the history trie outside a session: \<open>__trieDelete\<close>, \<open>__trieToFile\<close> and
  \<open>__trieFromFile\<close> of \<open>kernel/tree/trie.c\<close>.

  A pointer to a node is the path from the root to it.  A file is the list of its bytes.  The two
  lists of the breadth-first walk (\<open>lists[turn]\<close>, \<open>lists[!turn]\<close>) are \<open>cur\<close>, from the entry at
  \<open>pointer\<close> on, and \<open>nxt\<close>.  \<open>junk u\<close> is the byte found in the field \<open>mostFrequentlyUsedChar\<close>
  of a node whose field was never set.
\<close>

section \<open>The children of a node in index order\<close>

definition all_chars :: "c_char list" where
  "all_chars = map char_of [0..<256::nat]"

definition valid_chars :: "trie \<Rightarrow> c_char list" where
  "valid_chars t = (case child t of None \<Rightarrow> [] | Some g \<Rightarrow> filter (\<lambda>c. isValid (g c)) all_chars)"

definition child_at :: "trie \<Rightarrow> c_char \<Rightarrow> trie" where
  "child_at t c = (case child t of None \<Rightarrow> initialize_trie_node | Some g \<Rightarrow> g c)"

lemma set_all_chars [simp]: "set all_chars = UNIV"
proof -
  have "c \<in> set all_chars" for c
    unfolding all_chars_def using uchar_less [of c]
    by (metis atLeastLessThan_upt atLeast0LessThan char_of_uchar image_eqI lessThan_iff list.set_map)
  then show ?thesis by blast
qed

lemma distinct_all_chars [simp]: "distinct all_chars"
  by (auto simp: all_chars_def distinct_map inj_on_def)

lemma distinct_valid_chars [simp]: "distinct (valid_chars t)"
  by (simp add: valid_chars_def split: option.split)

lemma set_valid_chars: "c \<in> set (valid_chars t) \<longleftrightarrow> isValid (child_at t c)"
  by (auto simp: valid_chars_def child_at_def split: option.split)

section \<open>Deletion\<close>

text \<open>The blocks given back to the heap, in order: child arrays by the path of their owner.\<close>

datatype freed = Child_Array cstring | Root_Block

primrec recursiveDeleteTrie :: "trie \<Rightarrow> cstring list" where
  "recursiveDeleteTrie (TrieNode e f m k ch) =
     (case map_option (\<lambda>g. recursiveDeleteTrie \<circ> g) ch of
        None \<Rightarrow> []
      | Some h \<Rightarrow> concat (map (\<lambda>c. map (Cons c) (h c)) (valid_chars (TrieNode e f m k ch)))) @ [[]]"

definition trieDelete :: "trie \<Rightarrow> freed list" where
  "trieDelete t = map Child_Array (recursiveDeleteTrie t) @ [Root_Block]"

lemma recursiveDelete_set:
  "isValid t \<Longrightarrow> set (recursiveDeleteTrie t) = {p. \<exists>u. node_at t p = Some u \<and> isValid u}"
proof (induction t)
  case (TrieNode e f m k ch)
  then obtain g where ch: "ch = Some g" by auto
  have IH: "isValid (g c) \<Longrightarrow>
      set (recursiveDeleteTrie (g c)) = {p. \<exists>u. node_at (g c) p = Some u \<and> isValid u}" for c
    using TrieNode.IH ch by auto
  show ?case
  proof (rule set_eqI)
    fix p
    have stuck: "\<not> isValid (g c) \<Longrightarrow> node_at (g c) q = Some u \<Longrightarrow> \<not> isValid u" for c q u
      by (cases q) (auto simp: isValid_def)
    show "p \<in> set (recursiveDeleteTrie (TrieNode e f m k ch)) \<longleftrightarrow>
        p \<in> {p. \<exists>u. node_at (TrieNode e f m k ch) p = Some u \<and> isValid u}"
      using ch IH stuck by (cases p) (auto simp: Bex_def set_valid_chars child_at_def, blast)
  qed
qed

lemma recursiveDelete_distinct: "isValid t \<Longrightarrow> distinct (recursiveDeleteTrie t)"
proof (induction t)
  case (TrieNode e f m k ch)
  then obtain g where ch: "ch = Some g" by auto
  let ?cs = "valid_chars (TrieNode e f m k ch)"
  have "distinct (concat (map (\<lambda>c. map (Cons c) (recursiveDeleteTrie (g c))) cs))"
    if "distinct cs" "set cs \<subseteq> set ?cs" for cs
    using that TrieNode.IH ch
    by (induction cs) (auto simp: distinct_map inj_on_def set_valid_chars child_at_def)
  from this [of ?cs] show ?case using ch by auto
qed

lemma recursiveDelete_order:
  "sorted_wrt (\<lambda>p q. \<not> strict_prefix p q) (recursiveDeleteTrie t)"
proof (induction t)
  case (TrieNode e f m k ch)
  show ?case
  proof (cases ch)
    case (Some g)
    let ?cs = "valid_chars (TrieNode e f m k ch)"
    have "sorted_wrt (\<lambda>p q. \<not> strict_prefix p q)
        (concat (map (\<lambda>c. map (Cons c) (recursiveDeleteTrie (g c))) cs))" if "distinct cs" for cs
      using that
    proof (induction cs)
      case (Cons c cs)
      have "sorted_wrt (\<lambda>p q. \<not> strict_prefix p q) (recursiveDeleteTrie (g c))"
        using TrieNode.IH Some by auto
      with Cons show ?case by (auto simp: sorted_wrt_append sorted_wrt_map)
    qed simp
    from this [of ?cs] show ?thesis using Some by (auto simp: sorted_wrt_append)
  qed simp
qed

text \<open>
  \<open>__trieDelete\<close> gives every block back exactly once and never touches a block it has freed:
  the child arrays freed are those of the valid nodes, each once, an array only after the arrays
  below it, and the root block last.
\<close>

theorem trieDelete_frees_once:
  assumes "isValid t"
  shows "distinct (trieDelete t) \<and>
    set (trieDelete t) = {Root_Block} \<union> Child_Array ` {p. \<exists>u. node_at t p = Some u \<and> isValid u} \<and>
    sorted_wrt (\<lambda>a b. \<forall>p q. a = Child_Array p \<and> b = Child_Array q \<longrightarrow> \<not> strict_prefix p q)
      (trieDelete t) \<and> last (trieDelete t) = Root_Block"
  using recursiveDelete_set [OF assms] recursiveDelete_distinct [OF assms]
    recursiveDelete_order [of t]
  by (auto simp: trieDelete_def distinct_map inj_on_def sorted_wrt_append sorted_wrt_map
    elim!: sorted_wrt_mono_rel [rotated])

lemma trieDelete_frees_once_witness:
  "distinct (trieDelete trieGetRoot) \<and>
    set (trieDelete trieGetRoot) =
      {Root_Block} \<union> Child_Array ` {p. \<exists>u. node_at trieGetRoot p = Some u \<and> isValid u} \<and>
    last (trieDelete trieGetRoot) = Root_Block"
  using trieDelete_frees_once [of trieGetRoot] by (simp add: trieGetRoot_def)


section \<open>Writing\<close>

text \<open>The seven bytes written for a valid child, and the byte that ends a node's children.\<close>

definition node_info :: "(trie \<Rightarrow> c_char) \<Rightarrow> c_char \<Rightarrow> trie \<Rightarrow> c_char list" where
  "node_info junk c u =
     [c,
      char_of (of_bool (isEnd u) :: nat),
      char_of (unat (frequence u) mod 256), char_of (unat (frequence u) div 256),
      char_of (unat (maxFrequence u) mod 256), char_of (unat (maxFrequence u) div 256),
      (case mostFrequentlyUsedChar u of None \<Rightarrow> junk u | Some d \<Rightarrow> d)]"

primrec trie_nodes :: "trie \<Rightarrow> nat" where
  "trie_nodes (TrieNode e f m k ch) =
     Suc (case map_option (\<lambda>g. trie_nodes \<circ> g) ch of
            None \<Rightarrow> 0 | Some h \<Rightarrow> sum_list (map h (valid_chars (TrieNode e f m k ch))))"

lemma trie_nodes_unfold:
  "trie_nodes t = Suc (sum_list (map (trie_nodes \<circ> child_at t) (valid_chars t)))"
  by (cases t) (auto simp: valid_chars_def child_at_def comp_def split: option.split)

function saveLevels :: "(trie \<Rightarrow> c_char) \<Rightarrow> trie list \<Rightarrow> trie list \<Rightarrow> c_char list" where
  "saveLevels junk [] [] = []"
| "saveLevels junk [] (v # nxt) = saveLevels junk (v # nxt) []"
| "saveLevels junk (u # cur) nxt =
     concat (map (\<lambda>c. node_info junk c (child_at u c)) (valid_chars u)) @ [EOS] @
     saveLevels junk cur (nxt @ map (child_at u) (valid_chars u))"
  by pat_completeness auto
termination
  by (relation "measures [\<lambda>(j, cur, nxt). sum_list (map trie_nodes cur) + sum_list (map trie_nodes nxt),
        \<lambda>(j, cur, nxt). if cur = [] then 1 else 0]")
    (simp_all add: trie_nodes_unfold [of u for u])

definition trieToFile :: "(trie \<Rightarrow> c_char) \<Rightarrow> trie \<Rightarrow> c_char list" where
  "trieToFile junk t = saveLevels junk [t] []"

section \<open>Reading\<close>

datatype load_status = Load_Done | Load_Eof | Load_Abnormal

fun update_at :: "trie \<Rightarrow> cstring \<Rightarrow> (trie \<Rightarrow> trie) \<Rightarrow> trie" where
  "update_at t [] f = f t"
| "update_at t (c # p) f =
     (case child t of None \<Rightarrow> t
      | Some g \<Rightarrow> TrieNode (isEnd t) (frequence t) (maxFrequence t) (mostFrequentlyUsedChar t)
                    (Some (g(c := update_at (g c) p f))))"

text \<open>The fields set from the six bytes of a record; \<open>buffer\<close> is an array of signed \<open>CHAR\<close>.\<close>

definition set_fields :: "c_char \<Rightarrow> c_char \<Rightarrow> c_char \<Rightarrow> c_char \<Rightarrow> c_char \<Rightarrow> c_char \<Rightarrow> trie \<Rightarrow> trie" where
  "set_fields b0 b1 b2 b3 b4 b5 t =
     TrieNode (odd (schar b0))
       (word_of_int (schar b1 + push_bit 8 (schar b2)))
       (word_of_int (schar b3 + push_bit 8 (schar b4)))
       (Some b5) (child t)"

text \<open>
  The inner loop: the children of the node at \<open>p\<close>.  The status is \<open>None\<close> when the terminator was
  read and the walk goes on.
\<close>

fun loadChildren ::
    "trie \<Rightarrow> cstring \<Rightarrow> cstring list \<Rightarrow> c_char list \<Rightarrow>
     trie_fault + load_status option \<times> trie \<times> cstring list \<times> c_char list" where
  "loadChildren root p nxt [] = Inr (Some Load_Eof, root, nxt, [])"
| "loadChildren root p nxt (b # bytes) =
     (if schar b = -1 then Inr (Some Load_Eof, root, nxt, bytes)
      else if b = EOS then Inr (None, root, nxt, bytes)
      else if schar b < 0 then Inl Negative_Index
      else
        let root1 = update_at root (p @ [b]) trieNodeValidate in
        (case bytes of
           b0 # b1 # b2 # b3 # b4 # b5 # bytes' \<Rightarrow>
             loadChildren (update_at root1 (p @ [b]) (set_fields b0 b1 b2 b3 b4 b5)) p
               (nxt @ [p @ [b]]) bytes'
         | _ \<Rightarrow> Inr (Some Load_Abnormal, root1, nxt, [])))"

lemma loadChildren_shorter:
  "loadChildren root p nxt bytes = Inr (None, root', nxt', bytes') \<Longrightarrow> length bytes' < length bytes"
proof (induction root p nxt bytes rule: loadChildren.induct)
  case (2 root p nxt b bytes)
  then show ?case
    by (fastforce simp: Let_def split: if_splits list.splits)
qed simp

function loadLevels ::
    "trie \<Rightarrow> cstring list \<Rightarrow> cstring list \<Rightarrow> c_char list \<Rightarrow> trie_fault + load_status \<times> trie" where
  "loadLevels root [] [] bytes = Inr (Load_Done, root)"
| "loadLevels root [] (v # nxt) bytes = loadLevels root (v # nxt) [] bytes"
| "loadLevels root (p # cur) nxt bytes =
     (case loadChildren root p nxt bytes of
        Inl f \<Rightarrow> Inl f
      | Inr (Some st, root', nxt', bytes') \<Rightarrow> Inr (st, root')
      | Inr (None, root', nxt', bytes') \<Rightarrow> loadLevels root' cur nxt' bytes')"
  by pat_completeness auto
termination
  by (relation "measures [\<lambda>(r, cur, nxt, bytes). length bytes, \<lambda>(r, cur, nxt, bytes). if cur = [] then 1 else 0]")
    (auto dest: loadChildren_shorter)

definition trieFromFile :: "c_char list \<Rightarrow> trie_fault + load_status \<times> trie" where
  "trieFromFile bytes = loadLevels trieGetRoot [[]] [] bytes"


section \<open>Updates along paths\<close>

lemma update_at_id [simp]: "update_at t p (\<lambda>x. x) = t"
proof (induction p arbitrary: t)
  case (Cons c p)
  then show ?case by (cases t) (auto split: option.split)
qed simp

lemma update_at_append: "update_at t (p @ q) f = update_at t p (\<lambda>x. update_at x q f)"
  by (induction p arbitrary: t) (auto split: option.split)

lemma update_at_compose: "update_at (update_at t p f) p g = update_at t p (g \<circ> f)"
  by (induction p arbitrary: t) (auto split: option.split)

lemma update_at_commute:
  "parallel p q \<Longrightarrow> update_at (update_at t p f) q g = update_at (update_at t q g) p f"
proof (induction p arbitrary: t q)
  case (Cons c p)
  then obtain d q' where q: "q = d # q'" by (cases q) auto
  show ?case
  proof (cases "c = d")
    case True
    with Cons.prems q have "parallel p q'" by (auto simp: parallel_def)
    with Cons.IH q True show ?thesis by (auto split: option.split)
  next
    case False
    with q show ?thesis by (auto simp: fun_upd_twist split: option.split)
  qed
qed (simp add: parallel_def)

lemma fold_update_commute:
  "(\<And>d. d \<in> set ds \<Longrightarrow> parallel (P d) q) \<Longrightarrow>
   fold (\<lambda>d t. update_at t (P d) (F d)) ds (update_at t q f) =
   update_at (fold (\<lambda>d t. update_at t (P d) (F d)) ds t) q f"
proof (induction ds arbitrary: t)
  case (Cons d ds)
  then have "update_at (update_at t q f) (P d) (F d) = update_at (update_at t (P d) (F d)) q f"
    using update_at_commute [of "P d" q] by simp
  with Cons show ?case by simp
qed simp

lemma fold_update_at:
  "fold (\<lambda>d t. update_at t (q @ [d]) (F d)) ds t =
   update_at t q (\<lambda>x. fold (\<lambda>d x. update_at x [d] (F d)) ds x)"
  by (induction ds arbitrary: t) (simp_all add: update_at_append update_at_compose comp_def id_def)

lemma fold_past:
  "(\<And>d x. d \<in> set ds \<Longrightarrow> a (B d x) = B d (a x)) \<Longrightarrow> a (fold B ds x) = fold B ds (a x)"
  by (induction ds arbitrary: x) simp_all

lemma fold_pairs:
  assumes "distinct cs"
    and "\<And>c d t. c \<in> set cs \<Longrightarrow> d \<in> set cs \<Longrightarrow> c \<noteq> d \<Longrightarrow> A c (B d t) = B d (A c t)"
  shows "fold A cs (fold B cs t) = fold (\<lambda>c. A c \<circ> B c) cs t"
  using assms
proof (induction cs arbitrary: t)
  case (Cons c cs)
  have "A c (fold B cs x) = fold B cs (A c x)" for x
    using Cons.prems by (intro fold_past) auto
  with Cons show ?case by simp
qed simp

section \<open>What a file gives back\<close>

text \<open>
  A frequency is read as \<open>buffer[1] + (((int) buffer[2]) << 8)\<close> from signed bytes.
\<close>

definition decode_freq :: "15 word \<Rightarrow> 15 word" where
  "decode_freq f = word_of_int (schar (char_of (unat f mod 256)) +
     push_bit 8 (schar (char_of (unat f div 256))))"

definition stored_char :: "(trie \<Rightarrow> c_char) \<Rightarrow> trie \<Rightarrow> c_char" where
  "stored_char junk u = (case mostFrequentlyUsedChar u of None \<Rightarrow> junk u | Some d \<Rightarrow> d)"

definition load_shallow :: "(trie \<Rightarrow> c_char) \<Rightarrow> trie \<Rightarrow> trie" where
  "load_shallow junk u = TrieNode (isEnd u) (decode_freq (frequence u)) (decode_freq (maxFrequence u))
     (Some (stored_char junk u)) (Some (\<lambda>_. initialize_trie_node))"

primrec reload :: "(trie \<Rightarrow> c_char) \<Rightarrow> trie \<Rightarrow> trie" where
  "reload junk (TrieNode e f m k ch) =
     TrieNode e (decode_freq f) (decode_freq m) (Some (stored_char junk (TrieNode e f m k ch)))
       (Some (case map_option (\<lambda>g. reload junk \<circ> g) ch of
          None \<Rightarrow> (\<lambda>_. initialize_trie_node)
        | Some h \<Rightarrow> (\<lambda>c. if c \<in> set (valid_chars (TrieNode e f m k ch)) then h c
                      else initialize_trie_node)))"

text \<open>The children of the root are restored; the root's own fields are not in the file.\<close>

definition reload_root :: "(trie \<Rightarrow> c_char) \<Rightarrow> trie \<Rightarrow> trie" where
  "reload_root junk t = TrieNode False 0 0 None
     (Some (\<lambda>c. if c \<in> set (valid_chars t) then reload junk (child_at t c) else initialize_trie_node))"

definition finish :: "(trie \<Rightarrow> c_char) \<Rightarrow> cstring \<times> trie \<Rightarrow> trie \<Rightarrow> trie" where
  "finish junk pu t = fold (\<lambda>c t. update_at t (fst pu @ [c]) (\<lambda>_. reload junk (child_at (snd pu) c)))
     (valid_chars (snd pu)) t"

lemma fold_children:
  "fold (\<lambda>c x. update_at x [c] (\<lambda>_. F c)) cs (TrieNode e f m k (Some g)) =
   TrieNode e f m k (Some (\<lambda>c. if c \<in> set cs then F c else g c))"
proof (induction cs arbitrary: g)
  case (Cons c cs)
  have "(\<lambda>d. if d \<in> set cs then F d else (g(c := F c)) d) =
      (\<lambda>d. if d \<in> set (c # cs) then F d else g d)" by auto
  with Cons show ?case by simp
qed simp

lemma reload_finish: "finish junk ([], u) (load_shallow junk u) = reload junk u"
  unfolding finish_def load_shallow_def fst_conv snd_conv append_Nil fold_children
  by (cases u) (auto simp: fun_eq_iff child_at_def valid_chars_def split: option.splits)

lemma finish_child:
  "finish junk (q, v) t = update_at t q (\<lambda>x. finish junk ([], v) x)"
  unfolding finish_def fst_conv snd_conv append_Nil by (rule fold_update_at)

lemma finish_update:
  "parallel p q \<Longrightarrow> finish junk (p, u) (update_at t q f) = update_at (finish junk (p, u) t) q f"
  unfolding finish_child [of junk p u] by (rule update_at_commute) (simp only: parallel_commute)

lemma finish_finish:
  "parallel p q \<Longrightarrow> finish junk (p, u) (finish junk (q, v) t) = finish junk (q, v) (finish junk (p, u) t)"
  by (simp only: finish_child [of junk q v] finish_update)


section \<open>Reading back what was written\<close>

text \<open>
  The characters a trie may hold: an index byte of 0 would end the list of children, and an index
  above 127 is negative when it is read.
\<close>

definition storable :: "c_char \<Rightarrow> bool" where
  "storable c \<longleftrightarrow> ascii c \<and> c \<noteq> EOS"

definition trie_storable :: "trie \<Rightarrow> bool" where
  "trie_storable t \<longleftrightarrow> (\<forall>p u. node_at t p = Some u \<longrightarrow> isValid u \<longrightarrow> list_all storable p)"

lemma trie_storable_child:
  assumes "trie_storable u" and "c \<in> set (valid_chars u)"
  shows "storable c" "trie_storable (child_at u c)"
proof -
  obtain g where g: "child u = Some g" "isValid (g c)"
    using assms(2) by (cases "child u") (auto simp: valid_chars_def)
  have *: "list_all storable (c # p)" if "node_at (g c) p = Some v" "isValid v" for p v
    using assms(1) that g(1) unfolding trie_storable_def by (metis node_at.simps(2) option.simps(5))
  show "storable c" using * [of "[]" "g c"] g by simp
  show "trie_storable (child_at u c)" using * g by (auto simp: trie_storable_def child_at_def)
qed

lemma odd_schar_of_bool: "odd (schar (char_of (of_bool e :: nat))) = e"
  by (cases e) (simp_all add: schar_def)

lemma record_fields:
  assumes "node_info junk c u = [c', b0, b1, b2, b3, b4, b5]"
  shows "set_fields b0 b1 b2 b3 b4 b5 (trieNodeValidate x) = load_shallow junk u"
  using assms
  by (auto simp: node_info_def set_fields_def load_shallow_def decode_freq_def stored_char_def
    odd_schar_of_bool odd_schar_of_bool [of True, simplified])

lemma loadChildren_records:
  "list_all storable cs \<Longrightarrow>
   loadChildren t p nxt (concat (map (\<lambda>c. node_info junk c (child_at u c)) cs) @ EOS # rest) =
   Inr (None, fold (\<lambda>c t. update_at t (p @ [c]) (\<lambda>_. load_shallow junk (child_at u c))) cs t,
        nxt @ map (\<lambda>c. p @ [c]) cs, rest)"
proof (induction cs arbitrary: t nxt)
  case Nil
  then show ?case by (simp add: schar_def EOS_def)
next
  case (Cons c cs)
  then have c: "schar c \<noteq> - 1" "c \<noteq> EOS" "\<not> schar c < 0"
    by (auto simp: storable_def ascii_def)
  obtain b0 b1 b2 b3 b4 b5 where b: "node_info junk c (child_at u c) = [c, b0, b1, b2, b3, b4, b5]"
    by (simp add: node_info_def)
  have step: "update_at (update_at t (p @ [c]) trieNodeValidate) (p @ [c]) (set_fields b0 b1 b2 b3 b4 b5)
      = update_at t (p @ [c]) (\<lambda>_. load_shallow junk (child_at u c))"
    by (simp only: update_at_compose comp_def record_fields [OF b])
  show ?case using Cons c by (simp add: b step Let_def)
qed

lemma finish_children:
  "fold (finish junk) (map (\<lambda>c. (p @ [c], child_at u c)) (valid_chars u))
     (fold (\<lambda>c t. update_at t (p @ [c]) (\<lambda>_. load_shallow junk (child_at u c))) (valid_chars u) t) =
   finish junk (p, u) t"
proof -
  have "fold (\<lambda>c t. finish junk (p @ [c], child_at u c) t) (valid_chars u)
     (fold (\<lambda>c t. update_at t (p @ [c]) (\<lambda>_. load_shallow junk (child_at u c))) (valid_chars u) t) =
   fold (\<lambda>c. (\<lambda>t. finish junk (p @ [c], child_at u c) t) \<circ>
      (\<lambda>t. update_at t (p @ [c]) (\<lambda>_. load_shallow junk (child_at u c)))) (valid_chars u) t"
    by (rule fold_pairs) (auto intro!: finish_update)
  also have "\<dots> = finish junk (p, u) t"
    unfolding finish_def [of junk "(p, u)"] fst_conv snd_conv comp_def
    by (simp only: finish_child [of junk "_ @ _"] update_at_compose comp_def reload_finish)
  finally show ?thesis by (simp only: fold_map comp_def)
qed


lemma loadLevels_saveLevels:
  assumes "\<forall>(p, u) \<in> set (pcur @ pnxt). trie_storable u"
    and "sorted_wrt parallel (map fst (pcur @ pnxt))"
  shows "loadLevels t (map fst pcur) (map fst pnxt) (saveLevels junk (map snd pcur) (map snd pnxt) @ rest)
    = Inr (Load_Done, fold (finish junk) (pcur @ pnxt) t)"
proof -
  have "loadLevels t (map fst pcur) (map fst pnxt) (saveLevels junk cur nxt @ rest)
      = Inr (Load_Done, fold (finish junk) (pcur @ pnxt) t)"
    if "cur = map snd pcur" "nxt = map snd pnxt" for cur nxt
    using assms that
  proof (induction junk cur nxt arbitrary: pcur pnxt t rule: saveLevels.induct)
    case (1 junk)
    then show ?case by simp
  next
    case (2 junk v nxt)
    then obtain p pnxt' where "pnxt = (p, v) # pnxt'" "nxt = map snd pnxt'" by auto
    with 2 show ?case using "2.IH" [of "pnxt" "[]" t] by simp
  next
    case (3 junk u cur nxt)
    then obtain p pcur' where pc: "pcur = (p, u) # pcur'" "cur = map snd pcur'" by auto
    define kids where "kids = map (\<lambda>c. (p @ [c], child_at u c)) (valid_chars u)"
    define t' where "t' =
      fold (\<lambda>c t. update_at t (p @ [c]) (\<lambda>_. load_shallow junk (child_at u c))) (valid_chars u) t"
    have u: "trie_storable u" using "3.prems"(1) pc by simp
    then have cs: "list_all storable (valid_chars u)"
      by (auto simp: list_all_iff trie_storable_child)
    have kids_par: "parallel q (p @ [c])" if "q \<in> set (map fst (pcur' @ pnxt))" for q c
    proof -
      have "parallel q p" using "3.prems"(2) pc that by (auto simp: parallel_commute [of q])
      then show ?thesis using parallel_append [of q p "[]" "[c]"] by simp
    qed
    have "sorted_wrt parallel (map fst kids)"
      unfolding kids_def using distinct_valid_chars [of u]
      by (auto simp: sorted_wrt_map comp_def parallel_def distinct_conv_nth
          sorted_wrt_iff_nth_less)
    then have "sorted_wrt parallel (map fst (pcur' @ pnxt @ kids))"
      using "3.prems"(2) pc kids_par by (auto simp: kids_def sorted_wrt_append)
    moreover have "\<forall>(p, u) \<in> set (pcur' @ pnxt @ kids). trie_storable u"
      using "3.prems"(1) pc u by (auto simp: kids_def trie_storable_child)
    ultimately have "loadLevels t' (map fst pcur') (map fst (pnxt @ kids))
        (saveLevels junk cur (nxt @ map (child_at u) (valid_chars u)) @ rest) =
        Inr (Load_Done, fold (finish junk) (pcur' @ pnxt @ kids) t')"
      using "3.IH" [of pcur' "pnxt @ kids" t'] pc "3.prems"(4) by (simp add: kids_def comp_def)
    moreover have "fold (finish junk) (pcur' @ pnxt @ kids) t' =
        fold (finish junk) (pcur' @ pnxt) (fold (finish junk) kids t')"
    proof -
      have "finish junk pv (fold (finish junk) (pcur' @ pnxt) x) =
          fold (finish junk) (pcur' @ pnxt) (finish junk pv x)" if "pv \<in> set kids" for pv x
        using that kids_par
        by (intro fold_past) (force simp: kids_def parallel_commute intro: finish_finish)
      then have "fold (finish junk) (pcur' @ pnxt) (fold (finish junk) kids t') =
          fold (finish junk) kids (fold (finish junk) (pcur' @ pnxt) t')"
        by (intro fold_past) auto
      then show ?thesis by simp
    qed
    ultimately show ?case
      using cs "3.prems"(3) finish_children [of junk p u t]
      by (simp add: pc loadChildren_records kids_def comp_def t'_def)
  qed
  then show ?thesis by blast
qed

lemma trie_file_roundtrip:
  assumes "trie_storable t"
  shows "trieFromFile (trieToFile junk t @ rest) = Inr (Load_Done, reload_root junk t)"
proof -
  have "trieFromFile (trieToFile junk t @ rest) = Inr (Load_Done, finish junk ([], t) trieGetRoot)"
    using loadLevels_saveLevels [of "[([], t)]" "[]" trieGetRoot junk rest] assms
    by (simp add: trieFromFile_def trieToFile_def)
  also have "finish junk ([], t) trieGetRoot = reload_root junk t"
    by (simp add: finish_def trieGetRoot_def trieNodeValidate_def fold_children reload_root_def
        del: update_at.simps)
  finally show ?thesis .
qed


section \<open>A saved history suggests the same commands\<close>

lemma node_inv:
  "trie_inv t \<Longrightarrow> node_at t (c # p) = Some u \<Longrightarrow> isValid u \<Longrightarrow>
   trie_inv u \<and> (isEnd u \<or> mostFrequentlyUsedChar u \<noteq> None)"
proof (induction p arbitrary: t c)
  case Nil
  then show ?case by (auto simp: trie_inv_unfold [of t] children_ok_def split: option.splits)
next
  case (Cons d p)
  then obtain g where "child t = Some g" "node_at (g c) (d # p) = Some u"
    by (auto split: option.splits)
  with Cons show ?case by (auto simp: trie_inv_unfold [of t])
qed

lemma history_storable:
  assumes "trieInsertAll trieGetRoot ws = Inr t" and "list_all (list_all storable) ws"
  shows "trie_storable t"
  unfolding trie_storable_def
proof (intro allI impI)
  fix p u
  assume u: "node_at t p = Some u" "isValid u"
  show "list_all storable p"
  proof (cases p)
    case (Cons c q)
    have "trie_inv t" using trieInsertAll_inv [OF assms(1) trie_inv_root] .
    with u Cons have "trie_inv u" "isEnd u \<or> mostFrequentlyUsedChar u \<noteq> None"
      using node_inv by blast+
    then obtain s where "greedy u s"
      using trieFollow_greedy [of u 2 "[]"] u(2) by auto
    then have "is_word t (p @ s)" using node_at_append(1) [OF u(1)] greedy_word by simp
    then have "p @ s \<in> set ws" using trieInsertAll_word [OF assms(1), of "p @ s"] by simp
    then show ?thesis using assms(2) by (auto simp: list_all_iff)
  qed simp
qed

lemma reload_simps [simp]:
  "isEnd (reload junk u) = isEnd u" "isValid (reload junk u)"
  "frequence (reload junk u) = decode_freq (frequence u)"
  "mostFrequentlyUsedChar (reload junk u) = Some (stored_char junk u)"
  by (cases u; simp add: isValid_def)+

lemma child_reload:
  "child (reload junk u) = Some (\<lambda>c. if isValid (child_at u c) then reload junk (child_at u c)
     else initialize_trie_node)"
  by (cases u) (auto simp: fun_eq_iff valid_chars_def child_at_def split: option.split)

lemma trieFollow_unfold:
  "trieFollow t bufferLen buf =
     (let bufferLen = (if length buf \<ge> bufferLen - 1 then 3 * bufferLen div 2 else bufferLen) in
      if \<not> length buf < bufferLen then Inl Buffer_Overflow
      else if isEnd t then Inr buf
      else case mostFrequentlyUsedChar t of
        None \<Rightarrow> Inl Uninitialised_Char
      | Some c \<Rightarrow> (case child t of None \<Rightarrow> Inl Invalid_Child
          | Some g \<Rightarrow> if schar c < 0 then Inl Negative_Index
              else trieFollow (g c) bufferLen (buf @ [c])))"
  by (cases t) (auto simp: Let_def split: option.split)

lemma trieFollow_reload:
  "trie_inv u \<Longrightarrow> isValid u \<Longrightarrow> isEnd u \<or> mostFrequentlyUsedChar u \<noteq> None \<Longrightarrow>
   trieFollow (reload junk u) b buf = trieFollow u b buf"
proof (induction u arbitrary: b buf)
  case (TrieNode e f m k ch)
  let ?u = "TrieNode e f m k ch"
  obtain g where g: "ch = Some g" using TrieNode.prems(2) by auto
  show ?case
  proof (cases "e \<or> k = None")
    case True
    with TrieNode.prems(3) have "e" by auto
    then show ?thesis by (simp add: trieFollow_unfold [of "reload junk ?u"] Let_def)
  next
    case False
    then obtain c where c: "k = Some c" by auto
    with TrieNode.prems(1) g have gc: "isValid (g c)" "trie_inv (g c)"
      "isEnd (g c) \<or> mostFrequentlyUsedChar (g c) \<noteq> None" by (auto simp: children_ok_def)
    have "trieFollow (reload junk (g c)) b' buf' = trieFollow (g c) b' buf'" for b' buf'
      using TrieNode.IH [of g "g c"] g gc by simp
    with False c g gc show ?thesis
      unfolding trieFollow_unfold [of "reload junk ?u"] trieFollow_unfold [of ?u]
      by (simp add: child_reload stored_char_def child_at_def Let_def
          del: reload.simps trieFollow.simps)
  qed
qed

lemma trieSearch_reload:
  "trie_inv u \<Longrightarrow> isValid u \<Longrightarrow> isEnd u \<or> mostFrequentlyUsedChar u \<noteq> None \<Longrightarrow>
   trieSearch (reload junk u) p = trieSearch u p"
proof (induction p arbitrary: u)
  case (Cons c p)
  then obtain g where g: "child u = Some g" by (auto simp: isValid_def)
  have "trie_inv (g c)" "isValid (g c) \<Longrightarrow> isEnd (g c) \<or> mostFrequentlyUsedChar (g c) \<noteq> None"
    using Cons.prems(1) g by (auto simp: trie_inv_unfold [of u] children_ok_def)
  moreover have "\<not> isValid (g c) \<Longrightarrow> trieSearch (g c) p = Inr None"
    by (cases p) (auto simp: isValid_def)
  moreover have "trieSearch initialize_trie_node p = Inr None" by (cases p) auto
  ultimately show ?case using Cons.IH [of "g c"] g by (auto simp: child_reload child_at_def)
qed (simp add: trieFollow_reload)

text \<open>
  C37: saving the history and loading it again changes no suggestion.  For every history of
  commands without NUL and non-ASCII characters, reading the bytes that were written ends
  normally, whatever bytes follow, and the search on the new trie gives the answer of the old one
  for every non-empty input.
\<close>

theorem saved_history_suggests_same:
  assumes "trieInsertAll trieGetRoot ws = Inr t" and "list_all (list_all storable) ws"
  shows "\<exists>t'. trieFromFile (trieToFile junk t @ rest) = Inr (Load_Done, t') \<and>
    (\<forall>c p. trieSearch t' (c # p) = trieSearch t (c # p))"
proof -
  have inv: "trie_inv t" using trieInsertAll_inv [OF assms(1) trie_inv_root] .
  have "isValid trieGetRoot" by (simp add: trieGetRoot_def)
  then obtain g where g: "child t = Some g"
    using trieInsertAll_valid [OF assms(1)] by (auto simp: isValid_def)
  have same: "trieSearch (reload_root junk t) (c # p) = trieSearch t (c # p)" for c p
  proof (cases "isValid (g c)")
    case True
    with inv g have "trie_inv (g c)" "isEnd (g c) \<or> mostFrequentlyUsedChar (g c) \<noteq> None"
      by (auto simp: trie_inv_unfold [of t] children_ok_def)
    with True g show ?thesis
      by (simp add: reload_root_def set_valid_chars child_at_def trieSearch_reload)
  next
    case False
    then have "trieSearch (g c) p = Inr None" by (cases p) (auto simp: isValid_def)
    moreover have "trieSearch initialize_trie_node p = Inr None" by (cases p) auto
    ultimately show ?thesis using False g
      by (simp add: reload_root_def set_valid_chars child_at_def)
  qed
  with trie_file_roundtrip [OF history_storable [OF assms]] show ?thesis by blast
qed


lemma saved_history_suggests_same_witness:
  "\<exists>t t'. trieInsertAll trieGetRoot [''ls'', ''logfiles''] = Inr t \<and>
    trieFromFile (trieToFile (\<lambda>_. EOS) t @ []) = Inr (Load_Done, t') \<and>
    trieSearch t' ''l'' = trieSearch t ''l''"
proof -
  let ?ws = "[''ls'', ''logfiles'']"
  have st: "list_all (list_all storable) ?ws"
    by (simp add: storable_def ascii_def schar_def uchar_def EOS_eq)
  then have "list_all ascii_str ?ws"
    by (auto simp: ascii_str_def storable_def)
  then obtain t where t: "trieInsertAll trieGetRoot ?ws = Inr t"
    using trieInsertAll_total [OF _ trie_inv_root] by blast
  from saved_history_suggests_same [OF t st, of "\<lambda>_. EOS" "[]"] t show ?thesis by blast
qed

text \<open>The value a frequency of \<open>n\<close> comes back as: the low byte is read as a signed \<open>CHAR\<close>.\<close>

definition stored_count :: "nat \<Rightarrow> nat" where
  "stored_count n = (if n mod 256 < 128 then n else (n + 32512) mod 32768)"

lemma unat_decode_freq: "unat (decode_freq f) = stored_count (unat f)"
proof -
  define n where "n = unat f"
  have n: "n < 32768" using unsigned_less [of f] by (simp add: n_def)
  then have hi: "n div 256 < 128" by simp
  have high: "push_bit 8 (schar (char_of (n div 256))) = int (n div 256) * 256"
    using hi by (simp add: schar_def push_bit_eq_mult Let_def)
  have split: "int (n mod 256) + int (n div 256) * 256 = int n"
    by (metis add.commute div_mult_mod_eq of_nat_add of_nat_mult of_nat_numeral)
  show ?thesis
  proof (cases "n mod 256 < 128")
    case True
    then have "schar (char_of (n mod 256)) + push_bit 8 (schar (char_of (n div 256))) = int n"
      unfolding high using split by (simp add: schar_def Let_def)
    then have "decode_freq f = word_of_int (int n)"
      unfolding decode_freq_def n_def [symmetric] by simp
    then show ?thesis using True n by (simp add: stored_count_def n_def)
  next
    case False
    then have "schar (char_of (n mod 256)) + push_bit 8 (schar (char_of (n div 256))) = int n - 256"
      unfolding high using split by (simp add: schar_def Let_def)
    then have "decode_freq f = word_of_int (int n - 256)"
      unfolding decode_freq_def n_def [symmetric] by simp
    also have "\<dots> = (word_of_int (int (n + 32512)) :: 15 word)"
    proof -
      have "(int n - 256) mod 32768 = (int n - 256 + 32768) mod 32768" by (simp only: mod_add_self2)
      then show ?thesis by (simp add: word_of_int_eq_iff take_bit_eq_mod)
    qed
    finally have "decode_freq f = of_nat (n + 32512)" by simp
    then show ?thesis using False by (simp add: stored_count_def n_def unat_word_ariths)
  qed
qed

lemma freq_reload: "trie_inv u \<Longrightarrow> isValid u \<Longrightarrow> freq_at (reload junk u) p = stored_count (freq_at u p)"
proof (induction p arbitrary: u)
  case (Cons c p)
  then obtain g where g: "child u = Some g" by (auto simp: isValid_def)
  then have gc: "trie_inv (g c)" using Cons.prems(1) by (auto simp: trie_inv_unfold [of u])
  have "\<not> isValid (g c) \<Longrightarrow> freq_at (g c) p = 0"
    using gc by (cases p) (auto simp: isValid_def trie_inv_unfold [of "g c"] children_ok_def)
  then show ?case using g gc Cons.IH [OF gc]
    by (auto simp: child_reload child_at_def stored_count_def)
qed (simp add: unat_decode_freq)

text \<open>
  What happens to the counters.  A prefix that \<open>k\<close> commands of the history start with has the
  counter \<open>n = min 32767 k\<close>; after saving and loading, the counter is \<open>n\<close> when the low byte of \<open>n\<close>
  is below 128, and \<open>n - 256\<close> modulo \<open>2 ^ 15\<close> otherwise, because the low byte is read into a
  signed \<open>CHAR\<close>.  So counters below 128 survive, and one of 128 comes back as 32640.
\<close>

theorem saved_counters:
  assumes "trieInsertAll trieGetRoot ws = Inr t" and "list_all (list_all storable) ws"
  shows "\<exists>t'. trieFromFile (trieToFile junk t) = Inr (Load_Done, t') \<and>
    (\<forall>c p. freq_at t' (c # p) = stored_count (min 32767 (visits ws (c # p))))"
proof -
  have inv: "trie_inv t" using trieInsertAll_inv [OF assms(1) trie_inv_root] .
  have "isValid trieGetRoot" by (simp add: trieGetRoot_def)
  then obtain g where g: "child t = Some g"
    using trieInsertAll_valid [OF assms(1)] by (auto simp: isValid_def)
  have "freq_at (reload_root junk t) (c # p) = stored_count (freq_at t (c # p))" for c p
  proof -
    have gc: "trie_inv (g c)" using inv g by (auto simp: trie_inv_unfold [of t])
    have "\<not> isValid (g c) \<Longrightarrow> freq_at (g c) p = 0"
      using gc by (cases p) (auto simp: isValid_def trie_inv_unfold [of "g c"] children_ok_def)
    then show ?thesis using g gc freq_reload [OF gc]
      by (auto simp: reload_root_def set_valid_chars child_at_def stored_count_def)
  qed
  moreover have "freq_at t q = min 32767 (visits ws q)" for q
    using trieInsertAll_freq [OF assms(1), of q] by simp
  ultimately have "\<forall>c p. freq_at (reload_root junk t) (c # p) = stored_count (min 32767 (visits ws (c # p)))"
    by (simp only: simp_thms)
  then show ?thesis
    using trie_file_roundtrip [OF history_storable [OF assms], of junk "[]"] by (metis append_Nil2)
qed

lemma saved_counters_witness:
  "\<exists>t t'. trieInsertAll trieGetRoot (replicate 128 ''ls'') = Inr t \<and>
    trieFromFile (trieToFile (\<lambda>_. EOS) t) = Inr (Load_Done, t') \<and> freq_at t' ''ls'' = 32640"
proof -
  let ?ws = "replicate 128 ''ls''"
  have st: "list_all (list_all storable) ?ws"
    by (simp add: list_all_iff storable_def ascii_def schar_def uchar_def EOS_eq)
  then have "list_all ascii_str ?ws" by (auto simp: list_all_iff ascii_str_def storable_def)
  then obtain t where t: "trieInsertAll trieGetRoot ?ws = Inr t"
    using trieInsertAll_total [OF _ trie_inv_root] by blast
  have "visits ?ws ''ls'' = 128" by (simp add: visits_def filter_replicate)
  moreover obtain t' where "trieFromFile (trieToFile (\<lambda>_. EOS) t) = Inr (Load_Done, t')"
    "\<And>c p. freq_at t' (c # p) = stored_count (min 32767 (visits ?ws (c # p)))"
    using saved_counters [OF t st, of "\<lambda>_. EOS"] by blast
  moreover have "stored_count (min 32767 128) = 32640" by (simp add: stored_count_def)
  ultimately show ?thesis using t by metis
qed

end
