(* ===== verification/LineList.thy ===== *)
theory LineList
  imports Prelude
begin

text \<open>
  The intrusive lists of the kernel, \<open>kernel/list/listLink.c\<close> and \<open>listOp.h\<close>: the linear list
  \<open>LW_LIST_LINE\<close> and the free list \<open>LW_LIST_MONO\<close>.

  A node is known by its address; \<open>LW_NULL\<close> is \<open>None\<close>.  The store of the link fields is explicit, so
  an operation is the sequence of assignments of the code.  \<open>line S h xs\<close> says that the list with
  header \<open>h\<close> consists of the nodes \<open>xs\<close>, in order; the refinement lemmas give the effect of each
  operation on \<open>xs\<close>.
\<close>

type_synonym addr = nat

section \<open>Link fields\<close>

record line_store =
  LINE_plistNext :: "addr \<Rightarrow> addr option"
  LINE_plistPrev :: "addr \<Rightarrow> addr option"

definition set_next :: "addr \<Rightarrow> addr option \<Rightarrow> line_store \<Rightarrow> line_store" where
  "set_next a v S = S\<lparr>LINE_plistNext := (LINE_plistNext S)(a := v)\<rparr>"

definition set_prev :: "addr \<Rightarrow> addr option \<Rightarrow> line_store \<Rightarrow> line_store" where
  "set_prev a v S = S\<lparr>LINE_plistPrev := (LINE_plistPrev S)(a := v)\<rparr>"

lemma link_simps [simp]:
  "LINE_plistNext (set_next a v S) = (LINE_plistNext S)(a := v)"
  "LINE_plistPrev (set_next a v S) = LINE_plistPrev S"
  "LINE_plistNext (set_prev a v S) = LINE_plistNext S"
  "LINE_plistPrev (set_prev a v S) = (LINE_plistPrev S)(a := v)"
  by (simp_all add: set_next_def set_prev_def)

section \<open>Operations\<close>

definition List_Line_Add_Ahead ::
    "addr \<Rightarrow> line_store \<times> addr option \<Rightarrow> line_store \<times> addr option" where
  "List_Line_Add_Ahead new Sh =
     (let (S, header) = Sh;
          S = set_next new header S;
          S = set_prev new None S;
          S = (case header of None \<Rightarrow> S | Some h \<Rightarrow> set_prev h (Some new) S)
      in (S, Some new))"

definition List_Line_Add_Tail ::
    "addr \<Rightarrow> line_store \<times> addr option \<Rightarrow> line_store \<times> addr option" where
  "List_Line_Add_Tail new Sh =
     (let (S, header) = Sh in
      case header of
        None \<Rightarrow> (set_next new None (set_prev new None S), Some new)
      | Some h \<Rightarrow>
          (case LINE_plistNext S h of
             Some n \<Rightarrow>
               (let S = set_next new (Some n) S;
                    S = set_prev new (Some h) S;
                    S = set_prev n (Some new) S;
                    S = set_next h (Some new) S
                in (S, header))
           | None \<Rightarrow>
               (let S = set_next h (Some new) S;
                    S = set_prev new (Some h) S;
                    S = set_next new None S
                in (S, header))))"

definition List_Line_Add_Left :: "addr \<Rightarrow> addr \<Rightarrow> line_store \<Rightarrow> line_store" where
  "List_Line_Add_Left new right S =
     (let left = LINE_plistPrev S right;
          S = set_next new (Some right) S;
          S = set_prev new left S;
          S = (case left of None \<Rightarrow> S | Some l \<Rightarrow> set_next l (Some new) S)
      in set_prev right (Some new) S)"

definition List_Line_Add_Right :: "addr \<Rightarrow> addr \<Rightarrow> line_store \<Rightarrow> line_store" where
  "List_Line_Add_Right new left S =
     (let right = LINE_plistNext S left;
          S = set_next new right S;
          S = set_prev new (Some left) S;
          S = (case right of None \<Rightarrow> S | Some r \<Rightarrow> set_prev r (Some new) S)
      in set_next left (Some new) S)"

definition List_Line_Del ::
    "addr \<Rightarrow> line_store \<times> addr option \<Rightarrow> line_store \<times> addr option" where
  "List_Line_Del del Sh =
     (let (S, header) = Sh;
          (S, header) =
            (case LINE_plistPrev S del of
               None \<Rightarrow> (S, LINE_plistNext S del)
             | Some p \<Rightarrow> (set_next p (LINE_plistNext S del) S, header));
          S = (case LINE_plistNext S del of
                 None \<Rightarrow> S | Some n \<Rightarrow> set_prev n (LINE_plistPrev S del) S)
      in (S, header))"

text \<open>
  The loop \<open>for (; p != LW_NULL; p = _list_line_get_next(p)) if (P p) break;\<close> that every search of
  the shell and the kernel is: the node it stops at.  The outer \<open>None\<close> is a loop that never ends.
\<close>

partial_function (option) line_find ::
    "(addr \<Rightarrow> bool) \<Rightarrow> line_store \<Rightarrow> addr option \<Rightarrow> addr option option" where
  "line_find P S p =
     (case p of
        None \<Rightarrow> Some None
      | Some a \<Rightarrow> if P a then Some (Some a) else line_find P S (LINE_plistNext S a))"

text \<open>
  The traversals that collect the nodes: all of them, or the first \<open>m\<close> when the caller's array has
  \<open>m > 0\<close> places (the bound is tested after a node has been stored).
\<close>

partial_function (option) line_list :: "line_store \<Rightarrow> addr option \<Rightarrow> addr list option" where
  "line_list S p =
     (case p of
        None \<Rightarrow> Some []
      | Some a \<Rightarrow> Option.bind (line_list S (LINE_plistNext S a)) (\<lambda>as. Some (a # as)))"

declare line_find.simps [code] line_list.simps [code]

fun line_collect :: "line_store \<Rightarrow> addr option \<Rightarrow> nat \<Rightarrow> addr list" where
  "line_collect S None m = []"
| "line_collect S (Some a) m =
     a # (if m \<le> 1 then [] else line_collect S (LINE_plistNext S a) (m - 1))"

section \<open>The nodes of a list\<close>

fun dseg :: "line_store \<Rightarrow> addr option \<Rightarrow> addr option \<Rightarrow> addr list \<Rightarrow> addr option \<Rightarrow> addr option \<Rightarrow> bool" where
  "dseg S pv p [] l n \<longleftrightarrow> l = pv \<and> p = n"
| "dseg S pv p (x # xs) l n \<longleftrightarrow>
     p = Some x \<and> LINE_plistPrev S x = pv \<and> dseg S (Some x) (LINE_plistNext S x) xs l n"

definition last_opt :: "addr option \<Rightarrow> addr list \<Rightarrow> addr option" where
  "last_opt d xs = (if xs = [] then d else Some (last xs))"

definition line :: "line_store \<Rightarrow> addr option \<Rightarrow> addr list \<Rightarrow> bool" where
  "line S h xs \<longleftrightarrow> distinct xs \<and> dseg S None h xs (last_opt None xs) None"

lemma last_opt_simps [simp]:
  "last_opt d [] = d" "last_opt d (x # xs) = last_opt (Some x) xs"
  "last_opt d (xs @ ys) = last_opt (last_opt d xs) ys"
  by (auto simp: last_opt_def)

lemma dseg_last: "dseg S pv p xs l n \<Longrightarrow> l = last_opt pv xs"
  by (induction xs arbitrary: pv p) auto

lemma dseg_append:
  "dseg S pv p (xs @ ys) l n \<longleftrightarrow> (\<exists>m. dseg S pv p xs (last_opt pv xs) m \<and> dseg S (last_opt pv xs) m ys l n)"
  by (induction xs arbitrary: pv p) auto

lemma dseg_cong:
  "(\<And>x. x \<in> set xs \<Longrightarrow> LINE_plistNext S x = LINE_plistNext S' x \<and> LINE_plistPrev S x = LINE_plistPrev S' x)
   \<Longrightarrow> dseg S pv p xs l n = dseg S' pv p xs l n"
  by (induction xs arbitrary: pv p) auto

lemma dseg_frame [simp]:
  "a \<notin> set xs \<Longrightarrow> dseg (set_next a v S) pv p xs l n = dseg S pv p xs l n"
  "a \<notin> set xs \<Longrightarrow> dseg (set_prev a v S) pv p xs l n = dseg S pv p xs l n"
  by (rule dseg_cong; auto)+

lemma line_Nil [simp]: "line S h [] \<longleftrightarrow> h = None"
  by (auto simp: line_def)

lemma line_hd: "line S h (x # xs) \<Longrightarrow> h = Some x \<and> LINE_plistPrev S x = None"
  by (simp add: line_def)

lemma line_None [simp]: "line S None xs \<longleftrightarrow> xs = []"
  by (cases xs) (auto simp: line_def)

text \<open>Writing the field \<open>prev\<close> of the first node, or \<open>next\<close> of the last, relinks a segment.\<close>

lemma dseg_set_prev_hd:
  "x \<notin> set xs \<Longrightarrow> dseg (set_prev x v S) pv p (x # xs) l n \<longleftrightarrow>
     p = Some x \<and> v = pv \<and> dseg S (Some x) (LINE_plistNext S x) xs l n"
  by auto

lemma dseg_set_next_last:
  "x \<notin> set xs \<Longrightarrow> dseg (set_next x v S) pv p (xs @ [x]) l n \<longleftrightarrow>
     (\<exists>m. dseg S pv p (xs @ [x]) l m) \<and> n = v"
  by (auto simp: dseg_append)


definition same_links :: "addr set \<Rightarrow> line_store \<Rightarrow> line_store \<Rightarrow> bool" where
  "same_links A S S' \<longleftrightarrow>
     (\<forall>x \<in> A. LINE_plistNext S x = LINE_plistNext S' x \<and> LINE_plistPrev S x = LINE_plistPrev S' x)"

lemma line_frame: "same_links (set xs) S S' \<Longrightarrow> line S h xs \<longleftrightarrow> line S' h xs"
  unfolding line_def same_links_def by (metis dseg_cong)

section \<open>What the operations do to the list\<close>

lemma Add_Ahead_line:
  assumes "line S h xs" and "a \<notin> set xs" and "List_Line_Add_Ahead a (S, h) = (S', h')"
  shows "line S' h' (a # xs)" "same_links (- insert a (set xs)) S S'"
  using assms by (cases xs; auto simp: line_def List_Line_Add_Ahead_def same_links_def)+

lemma Add_Tail_line:
  assumes "line S h xs" and "a \<notin> set xs" and "List_Line_Add_Tail a (S, h) = (S', h')"
  shows "line S' h' (case xs of [] \<Rightarrow> [a] | x # ys \<Rightarrow> x # a # ys)"
    "same_links (- insert a (set xs)) S S'"
proof -
  have "line S' h' (case xs of [] \<Rightarrow> [a] | x # ys \<Rightarrow> x # a # ys) \<and>
      same_links (- insert a (set xs)) S S'"
  proof (cases xs)
    case Nil
    with assms show ?thesis by (auto simp: line_def List_Line_Add_Tail_def same_links_def)
  next
    case (Cons x ys)
    with assms show ?thesis
      by (cases ys) (auto simp: line_def List_Line_Add_Tail_def same_links_def)
  qed
  then show "line S' h' (case xs of [] \<Rightarrow> [a] | x # ys \<Rightarrow> x # a # ys)"
    "same_links (- insert a (set xs)) S S'" by blast+
qed

lemma line_snoc_split:
  "line S h (ys @ l # zs) \<longleftrightarrow>
     distinct (ys @ l # zs) \<and> dseg S None h ys (last_opt None ys) (Some l) \<and>
     LINE_plistPrev S l = last_opt None ys \<and>
     dseg S (Some l) (LINE_plistNext S l) zs (last_opt (Some l) zs) None"
  by (auto simp: line_def dseg_append)

lemma Add_Right_line:
  assumes "line S h (ys @ l # zs)" and "a \<notin> set (ys @ l # zs)"
  shows "line (List_Line_Add_Right a l S) h (ys @ l # a # zs)"
    "same_links (- insert a (set (ys @ l # zs))) S (List_Line_Add_Right a l S)"
  using assms
  by (cases zs; auto simp: line_snoc_split List_Line_Add_Right_def same_links_def)+

lemma Add_Left_line:
  assumes "line S h (ys @ r # zs)" and "a \<notin> set (ys @ r # zs)" and "ys \<noteq> []"
  shows "line (List_Line_Add_Left a r S) h (ys @ a # r # zs)"
    "same_links (- insert a (set (ys @ r # zs))) S (List_Line_Add_Left a r S)"
proof -
  obtain xs l where ys: "ys = xs @ [l]" using assms(3) by (metis rev_exhaust)
  show "line (List_Line_Add_Left a r S) h (ys @ a # r # zs)"
    using assms unfolding ys
    by (auto simp: line_def dseg_append List_Line_Add_Left_def)
  show "same_links (- insert a (set (ys @ r # zs))) S (List_Line_Add_Left a r S)"
    using assms unfolding ys
    by (auto simp: line_def dseg_append List_Line_Add_Left_def same_links_def)
qed

lemma Del_line:
  assumes "line S h (ys @ d # zs)" and "List_Line_Del d (S, h) = (S', h')"
  shows "line S' h' (ys @ zs)" "same_links (- set (ys @ zs)) S S'"
proof -
  have "line S' h' (ys @ zs) \<and> same_links (- set (ys @ zs)) S S'"
  proof (cases ys rule: rev_cases)
    case Nil
    with assms show ?thesis
      by (cases zs) (auto simp: line_def List_Line_Del_def same_links_def)
  next
    case (snoc xs l)
    with assms show ?thesis
      by (cases zs) (auto simp: line_def dseg_append List_Line_Del_def same_links_def)
  qed
  then show "line S' h' (ys @ zs)" "same_links (- set (ys @ zs)) S S'" by blast+
qed

lemma line_find_dseg:
  "dseg S pv p xs l None \<Longrightarrow> line_find P S p = Some (find P xs)"
proof (induction xs arbitrary: pv p)
  case Nil
  then show ?case by (subst line_find.simps) simp
next
  case (Cons x xs)
  then show ?case by (subst line_find.simps) auto
qed

lemma line_find_eq: "line S h xs \<Longrightarrow> line_find P S h = Some (find P xs)"
  unfolding line_def by (blast intro: line_find_dseg)

lemma line_list_dseg: "dseg S pv p xs l None \<Longrightarrow> line_list S p = Some xs"
proof (induction xs arbitrary: pv p)
  case Nil
  then show ?case by (subst line_list.simps) simp
next
  case (Cons x xs)
  then show ?case by (subst line_list.simps) auto
qed

lemma line_list_eq: "line S h xs \<Longrightarrow> line_list S h = Some xs"
  unfolding line_def by (blast intro: line_list_dseg)

lemma line_unique: "line S h xs \<Longrightarrow> line S h ys \<Longrightarrow> xs = ys"
  by (metis line_list_eq option.inject)

lemma line_collect_dseg: "dseg S pv p xs l None \<Longrightarrow> 0 < m \<Longrightarrow> line_collect S p m = take m xs"
proof (induction xs arbitrary: pv p m)
  case (Cons x xs)
  then show ?case by (cases m; cases "m - 1") auto
qed simp

lemma line_collect_eq: "line S h xs \<Longrightarrow> 0 < m \<Longrightarrow> line_collect S h m = take m xs"
  unfolding line_def by (blast intro: line_collect_dseg)

text \<open>The list from the successor of a node on, as the calls that continue a listing see it.\<close>

lemma line_after:
  "line S h (xs @ x # ys) \<Longrightarrow> dseg S (Some x) (LINE_plistNext S x) ys (last_opt (Some x) ys) None"
  by (auto simp: line_def dseg_append)

end
