(* ===== verification/RingList.thy ===== *)
theory RingList
  imports LineList
begin

text \<open>
  The circular list \<open>LW_LIST_RING\<close> of \<open>kernel/list/listLink.c\<close> and the free lists
  \<open>LW_LIST_MONO\<close> of \<open>kernel/list/listOp.h\<close>.  A ring node has the two link fields of a line node, so
  the same store type is used; \<open>ring S h xs\<close> says that following the links from the header \<open>h\<close>
  visits \<open>xs\<close> and comes back.  An operation that would follow a null link gives \<open>None\<close>; on a ring
  none does.  \<open>mono N h t xs\<close> is the free list with its tail pointer.
\<close>

type_synonym ring_store = line_store

section \<open>Ring operations\<close>

definition INIT_LIST_RING_HEAD :: "addr \<Rightarrow> ring_store \<Rightarrow> ring_store" where
  "INIT_LIST_RING_HEAD p S = set_prev p None (set_next p None S)"

definition list_ring_next :: "ring_store \<Rightarrow> addr option \<Rightarrow> addr option option" where
  "list_ring_next S header =
     (case header of None \<Rightarrow> None | Some h \<Rightarrow> Some (LINE_plistNext S h))"

definition List_Ring_Add_Ahead ::
    "addr \<Rightarrow> ring_store \<times> addr option \<Rightarrow> (ring_store \<times> addr option) option" where
  "List_Ring_Add_Ahead new Sh =
     (let (S, header) = Sh in
      case header of
        Some h \<Rightarrow>
          (let S = set_next new (Some h) S;
               S = set_prev new (LINE_plistPrev S h) S in
           case LINE_plistPrev S h of
             None \<Rightarrow> None
           | Some p \<Rightarrow>
               (let S = set_next p (Some new) S;
                    S = set_prev h (Some new) S
                in Some (S, Some new)))
      | None \<Rightarrow>
          (let S = set_prev new (Some new) S;
               S = set_next new (Some new) S
           in Some (S, Some new)))"

definition List_Ring_Add_Front ::
    "addr \<Rightarrow> ring_store \<times> addr option \<Rightarrow> (ring_store \<times> addr option) option" where
  "List_Ring_Add_Front new Sh =
     (let (S, header) = Sh in
      case header of
        Some h \<Rightarrow>
          (let S = set_prev new (Some h) S;
               S = set_next new (LINE_plistNext S h) S in
           case LINE_plistNext S h of
             None \<Rightarrow> None
           | Some n \<Rightarrow>
               (let S = set_prev n (Some new) S;
                    S = set_next h (Some new) S
                in Some (S, header)))
      | None \<Rightarrow>
          (let S = set_prev new (Some new) S;
               S = set_next new (Some new) S
           in Some (S, Some new)))"

definition List_Ring_Add_Last ::
    "addr \<Rightarrow> ring_store \<times> addr option \<Rightarrow> (ring_store \<times> addr option) option" where
  "List_Ring_Add_Last new Sh =
     (let (S, header) = Sh in
      case header of
        Some h \<Rightarrow>
          (case LINE_plistPrev S h of
             None \<Rightarrow> None
           | Some p \<Rightarrow>
               (let S = set_next p (Some new) S;
                    S = set_prev new (LINE_plistPrev S h) S;
                    S = set_next new (Some h) S;
                    S = set_prev h (Some new) S
                in Some (S, header)))
      | None \<Rightarrow>
          (let S = set_prev new (Some new) S;
               S = set_next new (Some new) S
           in Some (S, Some new)))"

definition List_Ring_Del ::
    "addr \<Rightarrow> ring_store \<times> addr option \<Rightarrow> (ring_store \<times> addr option) option" where
  "List_Ring_Del del Sh =
     (let (S, header) = Sh in
      if LINE_plistNext S del = Some del then Some (INIT_LIST_RING_HEAD del S, None)
      else
        (let header = (if Some del = header then LINE_plistNext S del else header) in
         case LINE_plistPrev S del of
           None \<Rightarrow> None
         | Some p \<Rightarrow>
             (let S = set_next p (LINE_plistNext S del) S in
              case LINE_plistNext S del of
                None \<Rightarrow> None
              | Some n \<Rightarrow> Some (INIT_LIST_RING_HEAD del (set_prev n (Some p) S), header))))"

section \<open>The nodes of a ring\<close>

definition ring :: "ring_store \<Rightarrow> addr option \<Rightarrow> addr list \<Rightarrow> bool" where
  "ring S h xs \<longleftrightarrow> distinct xs \<and>
     (case xs of [] \<Rightarrow> h = None
      | x # ys \<Rightarrow> dseg S (Some (last xs)) h xs (Some (last xs)) (Some x))"

lemma ring_Nil [simp]: "ring S h [] \<longleftrightarrow> h = None"
  by (simp add: ring_def)

lemma ring_None [simp]: "ring S None xs \<longleftrightarrow> xs = []"
  by (cases xs) (auto simp: ring_def)

lemma ring_single: "ring S h [x] \<longleftrightarrow> h = Some x \<and> LINE_plistNext S x = Some x \<and> LINE_plistPrev S x = Some x"
  by (auto simp: ring_def)

lemma ring_two:
  "ring S h (x # ys @ [z]) \<longleftrightarrow>
     distinct (x # ys @ [z]) \<and> h = Some x \<and> LINE_plistPrev S x = Some z \<and>
     dseg S (Some x) (LINE_plistNext S x) ys (last_opt (Some x) ys) (Some z) \<and>
     LINE_plistPrev S z = last_opt (Some x) ys \<and> LINE_plistNext S z = Some x"
  by (auto simp: ring_def dseg_append)

lemma ring_hd: "ring S h (x # xs) \<Longrightarrow> h = Some x"
  by (simp add: ring_def)

lemma dseg_unique:
  "dseg S a p xs l (Some h) \<Longrightarrow> dseg S b p ys l' (Some h) \<Longrightarrow> h \<notin> set xs \<Longrightarrow> h \<notin> set ys \<Longrightarrow> xs = ys"
proof (induction xs arbitrary: a b p ys)
  case Nil
  then show ?case by (cases ys) auto
next
  case (Cons x xs)
  then obtain zs where "ys = x # zs" by (cases ys) auto
  then show ?case using Cons.prems Cons.IH[of "Some x" "LINE_plistNext S x" "Some x" zs] by simp
qed

lemma ring_unique:
  assumes "ring S h xs" and "ring S h ys"
  shows "xs = ys"
proof (cases xs)
  case Nil
  then show ?thesis using assms by (cases ys) (auto simp: ring_def)
next
  case (Cons x us)
  then obtain ws where ws: "ys = x # ws" using assms by (cases ys) (auto simp: ring_def)
  then show ?thesis
    using assms Cons dseg_unique[of S "Some x" "LINE_plistNext S x" us _ x "Some x" ws] by (auto simp: ring_def)
qed

lemma ring_frame: "same_links (set xs) S S' \<Longrightarrow> ring S h xs \<longleftrightarrow> ring S' h xs"
  unfolding ring_def same_links_def by (cases xs) (simp, metis (no_types, lifting) dseg_cong list.simps(5))

lemma ring_cases:
  obtains "xs = []" | x where "xs = [x]" | x ys z where "xs = x # ys @ [z]"
  by (metis append_butlast_last_id list.exhaust)

text \<open>A ring has no preferred node: moving the header along one link rotates the list.\<close>

lemma ring_rotate: "ring S h (x # xs) \<Longrightarrow> ring S (LINE_plistNext S x) (xs @ [x])"
proof (cases xs rule: rev_cases)
  case (snoc ys z)
  assume r: "ring S h (x # xs)"
  show ?thesis
  proof (cases ys)
    case Nil
    with r snoc show ?thesis by (auto simp: ring_def)
  next
    case (Cons y ws)
    with r snoc show ?thesis by (auto simp: ring_def dseg_append)
  qed
qed (auto simp: ring_def)

lemma list_ring_next_ring:
  "ring S h (x # xs) \<Longrightarrow> \<exists>h'. list_ring_next S h = Some h' \<and> ring S h' (xs @ [x])"
  using ring_rotate ring_hd unfolding list_ring_next_def by fastforce

section \<open>What the operations do to the ring\<close>

lemma Ring_Add_Last_ring:
  assumes "ring S h xs" and "a \<notin> set xs"
  shows "\<exists>S' h'. List_Ring_Add_Last a (S, h) = Some (S', h') \<and> ring S' h' (xs @ [a]) \<and>
     same_links (- insert a (set xs)) S S' \<and> (xs \<noteq> [] \<longrightarrow> h' = h)"
proof (cases xs rule: ring_cases)
  case 3
  then show ?thesis using assms
    by (auto simp: ring_def dseg_append List_Ring_Add_Last_def same_links_def)
qed (use assms in \<open>auto simp: ring_def List_Ring_Add_Last_def same_links_def\<close>)

lemma Ring_Add_Ahead_ring:
  assumes "ring S h xs" and "a \<notin> set xs"
  shows "\<exists>S'. List_Ring_Add_Ahead a (S, h) = Some (S', Some a) \<and> ring S' (Some a) (a # xs) \<and>
     same_links (- insert a (set xs)) S S'"
proof (cases xs rule: ring_cases)
  case 3
  then show ?thesis using assms
    by (auto simp: ring_def dseg_append List_Ring_Add_Ahead_def same_links_def)
qed (use assms in \<open>auto simp: ring_def List_Ring_Add_Ahead_def same_links_def\<close>)

lemma Ring_Add_Front_ring:
  assumes "ring S h xs" and "a \<notin> set xs"
  shows "\<exists>S' h'. List_Ring_Add_Front a (S, h) = Some (S', h') \<and>
     ring S' h' (case xs of [] \<Rightarrow> [a] | x # ys \<Rightarrow> x # a # ys) \<and>
     same_links (- insert a (set xs)) S S' \<and> (xs \<noteq> [] \<longrightarrow> h' = h)"
proof (cases xs rule: ring_cases)
  case (3 x ys z)
  then show ?thesis using assms
    by (cases ys) (auto simp: ring_def dseg_append List_Ring_Add_Front_def same_links_def)
qed (use assms in \<open>auto simp: ring_def List_Ring_Add_Front_def same_links_def\<close>)

lemma Ring_Del_ring:
  assumes "ring S h (ys @ d # zs)"
  shows "\<exists>S' h'. List_Ring_Del d (S, h) = Some (S', h') \<and> ring S' h' (ys @ zs) \<and>
     LINE_plistNext S' d = None \<and> LINE_plistPrev S' d = None \<and>
     same_links (- set (ys @ d # zs)) S S'"
proof (cases ys)
  case Nil
  show ?thesis
  proof (cases zs rule: ring_cases)
    case 3
    with Nil assms show ?thesis
      by (auto simp: ring_def dseg_append List_Ring_Del_def INIT_LIST_RING_HEAD_def same_links_def)
  qed (use Nil assms in \<open>auto simp: ring_def List_Ring_Del_def INIT_LIST_RING_HEAD_def same_links_def\<close>)
next
  case (Cons y ws)
  show ?thesis
  proof (cases ws rule: rev_cases)
    case Nil
    with Cons assms show ?thesis
      by (cases zs) (auto simp: ring_def dseg_append List_Ring_Del_def INIT_LIST_RING_HEAD_def same_links_def)
  next
    case (snoc vs v)
    with Cons assms show ?thesis
      by (cases zs) (auto simp: ring_def dseg_append List_Ring_Del_def INIT_LIST_RING_HEAD_def same_links_def)
  qed
qed

section \<open>Free lists\<close>

type_synonym mono_store = "addr \<Rightarrow> addr option"

definition list_mono_allocate ::
    "mono_store \<Rightarrow> addr option \<Rightarrow> (addr \<times> addr option) option" where
  "list_mono_allocate N head = (case head of None \<Rightarrow> None | Some a \<Rightarrow> Some (a, N a))"

definition list_mono_free ::
    "addr \<Rightarrow> mono_store \<times> addr option \<Rightarrow> mono_store \<times> addr option" where
  "list_mono_free a Nh = (let (N, head) = Nh in (N(a := head), Some a))"

definition list_mono_allocate_seq ::
    "mono_store \<Rightarrow> addr option \<times> addr option \<Rightarrow> (addr \<times> addr option \<times> addr option) option" where
  "list_mono_allocate_seq N ht =
     (let (head, tail) = ht in
      case head of
        None \<Rightarrow> None
      | Some a \<Rightarrow>
          (let tail = (if tail = head then N a else tail)
           in Some (a, N a, tail)))"

definition list_mono_free_seq ::
    "addr \<Rightarrow> mono_store \<times> addr option \<times> addr option \<Rightarrow> mono_store \<times> addr option \<times> addr option" where
  "list_mono_free_seq a Nht =
     (let (N, head, tail) = Nht;
          N = N(a := None);
          (N, head) = (case tail of Some t \<Rightarrow> (N(t := Some a), head) | None \<Rightarrow> (N, Some a))
      in (N, head, Some a))"

fun mseg :: "mono_store \<Rightarrow> addr option \<Rightarrow> addr list \<Rightarrow> addr option \<Rightarrow> bool" where
  "mseg N p [] n \<longleftrightarrow> p = n"
| "mseg N p (x # xs) n \<longleftrightarrow> p = Some x \<and> mseg N (N x) xs n"

definition mono :: "mono_store \<Rightarrow> addr option \<Rightarrow> addr option \<Rightarrow> addr list \<Rightarrow> bool" where
  "mono N h t xs \<longleftrightarrow> distinct xs \<and> mseg N h xs None \<and> t = last_opt None xs"

lemma mseg_append: "mseg N p (xs @ ys) n \<longleftrightarrow> (\<exists>m. mseg N p xs m \<and> mseg N m ys n)"
  by (induction xs arbitrary: p) auto

lemma mseg_frame [simp]: "a \<notin> set xs \<Longrightarrow> mseg (N(a := v)) p xs n = mseg N p xs n"
  by (induction xs arbitrary: p) auto

lemma mono_empty [simp]: "mono N None t xs \<longleftrightarrow> xs = [] \<and> t = None"
  by (cases xs) (auto simp: mono_def)

lemma mono_Nil [simp]: "mono N h t [] \<longleftrightarrow> h = None \<and> t = None"
  by (auto simp: mono_def)

lemma mono_allocate_seq:
  assumes "mono N h t (x # xs)"
  shows "\<exists>h' t'. list_mono_allocate_seq N (h, t) = Some (x, h', t') \<and> mono N h' t' xs"
  using assms by (cases xs) (auto simp: mono_def list_mono_allocate_seq_def last_opt_def split: if_splits)

lemma mono_free_seq:
  assumes "mono N h t xs" and "a \<notin> set xs" and "list_mono_free_seq a (N, h, t) = (N', h', t')"
  shows "mono N' h' t' (xs @ [a])"
  using assms
  by (cases xs rule: rev_cases) (auto simp: mono_def list_mono_free_seq_def mseg_append)

end
