(* ===== verification/HashTable.thy ===== *)
theory HashTable
  imports LibString LineList "HOL-Library.Word"
begin

text \<open>
  The two symbol tables of the shell, the command keywords and the variables, are built alike: every
  node hangs in a management list and in one chain of a hash table, and the chain is chosen by
  \<open>__hashHorner\<close> (\<open>shell/hashLib/hashHorner.c\<close>) of its name.  This theory has the hash function, the
  table with the code's two insertions, two removals and search, and the invariant \<open>table_ok\<close>.
  The locales \<open>symbol_table\<close> and \<open>symbol_table_del\<close> state what their users rely on; they are
  interpreted in the theories of the keywords and of the variables.
\<close>

section \<open>The hash function\<close>

fun horner_loop :: "cstring \<Rightarrow> 32 word \<Rightarrow> 32 word" where
  "horner_loop [] h = h"
| "horner_loop [c] h = push_bit 5 h + of_int (schar c)"
| "horner_loop (c # d # s) h = horner_loop s (push_bit 5 h + of_int (schar c))"

definition hashHorner :: "cstring \<Rightarrow> nat \<Rightarrow> nat" where
  "hashHorner s sz = unat (horner_loop s 0 mod of_nat sz)"

lemma hashHorner_less: "0 < sz \<Longrightarrow> sz < 2 ^ 32 \<Longrightarrow> hashHorner s sz < sz"
  by (simp add: hashHorner_def unat_mod unat_of_nat)

section \<open>The table\<close>

record 'n table =
  tbl_nodes :: "addr \<Rightarrow> 'n option"
  tbl_manage :: line_store
  tbl_header :: "addr option"
  tbl_hash :: line_store
  tbl_heads :: "nat \<Rightarrow> addr option"

definition table_link :: "addr \<Rightarrow> nat \<Rightarrow> ('n, 'a) table_scheme \<Rightarrow> ('n, 'a) table_scheme" where
  "table_link a i t =
     (let (M, h) = List_Line_Add_Ahead a (tbl_manage t, tbl_header t);
          (H, hh) = List_Line_Add_Ahead a (tbl_hash t, tbl_heads t i)
      in t\<lparr>tbl_manage := M, tbl_header := h, tbl_hash := H, tbl_heads := (tbl_heads t)(i := hh)\<rparr>)"

definition table_unlink :: "addr \<Rightarrow> nat \<Rightarrow> ('n, 'a) table_scheme \<Rightarrow> ('n, 'a) table_scheme" where
  "table_unlink a i t =
     (let (M, h) = List_Line_Del a (tbl_manage t, tbl_header t);
          (H, hh) = List_Line_Del a (tbl_hash t, tbl_heads t i)
      in t\<lparr>tbl_manage := M, tbl_header := h, tbl_hash := H, tbl_heads := (tbl_heads t)(i := hh)\<rparr>)"

definition table_search :: "('n \<Rightarrow> bool) \<Rightarrow> nat \<Rightarrow> ('n, 'a) table_scheme \<Rightarrow> addr option option" where
  "table_search P i t =
     line_find (\<lambda>a. case tbl_nodes t a of None \<Rightarrow> False | Some n \<Rightarrow> P n) (tbl_hash t) (tbl_heads t i)"

definition table_list :: "addr option \<Rightarrow> nat \<Rightarrow> ('n, 'a) table_scheme \<Rightarrow> addr list" where
  "table_list start m t =
     line_collect (tbl_manage t)
       (case start of None \<Rightarrow> tbl_header t | Some a \<Rightarrow> LINE_plistNext (tbl_manage t) a) m"

definition table_put :: "addr \<Rightarrow> 'n option \<Rightarrow> ('n, 'a) table_scheme \<Rightarrow> ('n, 'a) table_scheme" where
  "table_put a n t = t\<lparr>tbl_nodes := (tbl_nodes t)(a := n)\<rparr>"

lemma table_put_simps [simp]:
  "tbl_nodes (table_put a n t) = (tbl_nodes t)(a := n)"
  "tbl_manage (table_put a n t) = tbl_manage t" "tbl_header (table_put a n t) = tbl_header t"
  "tbl_hash (table_put a n t) = tbl_hash t" "tbl_heads (table_put a n t) = tbl_heads t"
  by (simp_all add: table_put_def)

lemma table_link_nodes [simp]: "tbl_nodes (table_link a i t) = tbl_nodes t"
  by (simp add: table_link_def split: prod.split)

lemma table_unlink_nodes [simp]: "tbl_nodes (table_unlink a i t) = tbl_nodes t"
  by (simp add: table_unlink_def split: prod.split)

section \<open>The invariant\<close>

definition node_of :: "('n, 'a) table_scheme \<Rightarrow> addr \<Rightarrow> 'n" where
  "node_of t a = the (tbl_nodes t a)"

definition table_ok :: "nat \<Rightarrow> ('n \<Rightarrow> cstring) \<Rightarrow> ('n, 'a) table_scheme \<Rightarrow> addr list \<Rightarrow> bool" where
  "table_ok sz key t as \<longleftrightarrow>
     line (tbl_manage t) (tbl_header t) as \<and> set as \<subseteq> dom (tbl_nodes t) \<and>
     (\<forall>i < sz. line (tbl_hash t) (tbl_heads t i)
        (filter (\<lambda>a. hashHorner (key (node_of t a)) sz = i) as))"

definition entries :: "('n \<Rightarrow> cstring) \<Rightarrow> ('n, 'a) table_scheme \<Rightarrow> (cstring \<times> addr) list" where
  "entries key t =
     map (\<lambda>a. (key (node_of t a), a)) (the (line_list (tbl_manage t) (tbl_header t)))"

lemma table_ok_entries:
  "table_ok sz key t as \<Longrightarrow> entries key t = map (\<lambda>a. (key (node_of t a), a)) as"
proof -
  assume "table_ok sz key t as"
  then have "line (tbl_manage t) (tbl_header t) as" by (simp add: table_ok_def)
  from line_list_eq[OF this] show ?thesis by (simp add: entries_def)
qed

lemma table_ok_distinct: "table_ok sz key t as \<Longrightarrow> distinct as"
  by (simp add: table_ok_def line_def)

lemma table_ok_node: "table_ok sz key t as \<Longrightarrow> a \<in> set as \<Longrightarrow> tbl_nodes t a = Some (node_of t a)"
  by (auto simp: table_ok_def node_of_def)

lemma table_ok_empty:
  "tbl_header t = None \<Longrightarrow> (\<And>i. i < sz \<Longrightarrow> tbl_heads t i = None) \<Longrightarrow> table_ok sz key t []"
  by (simp add: table_ok_def)

lemma find_filter: "(\<And>x. x \<in> set xs \<Longrightarrow> P x \<Longrightarrow> Q x) \<Longrightarrow> find P (filter Q xs) = find P xs"
  by (induction xs) auto

lemma find_cong_set: "(\<And>x. x \<in> set xs \<Longrightarrow> P x = Q x) \<Longrightarrow> find P xs = find Q xs"
  by (induction xs) auto

lemma find_map_of: "find (\<lambda>a. f a = k) xs = map_of (map (\<lambda>a. (f a, a)) xs) k"
  by (induction xs) auto

text \<open>A search by name ends, and finds the newest node of that name.\<close>

lemma table_search_entries:
  assumes "table_ok sz key t as" "0 < sz" "sz < 2 ^ 32" and P: "\<And>n. P n \<longleftrightarrow> key n = k"
  shows "table_search P (hashHorner k sz) t = Some (map_of (entries key t) k)"
proof -
  let ?P = "\<lambda>a. case tbl_nodes t a of None \<Rightarrow> False | Some n \<Rightarrow> key n = k"
  let ?Q = "\<lambda>a. hashHorner (key (node_of t a)) sz = hashHorner k sz"
  have "line (tbl_hash t) (tbl_heads t (hashHorner k sz)) (filter ?Q as)"
    using assms hashHorner_less unfolding table_ok_def by blast
  then have "table_search P (hashHorner k sz) t = Some (find ?P (filter ?Q as))"
    unfolding table_search_def P by (rule line_find_eq)
  also have "find ?P (filter ?Q as) = find ?P as"
    by (rule find_filter) (auto simp: node_of_def split: option.splits)
  also have "\<dots> = find (\<lambda>a. key (node_of t a) = k) as"
    by (rule find_cong_set) (simp add: table_ok_node[OF assms(1)])
  finally show ?thesis using table_ok_entries[OF assms(1)] by (simp add: find_map_of)
qed

lemma table_ok_put:
  assumes "table_ok sz key t as" and "a \<notin> set as"
  shows "table_ok sz key (table_put a n t) as" "entries key (table_put a n t) = entries key t"
proof -
  have eq: "\<And>b. b \<in> set as \<Longrightarrow> node_of (table_put a n t) b = node_of t b"
    using assms(2) by (auto simp: node_of_def)
  then have "filter (\<lambda>b. hashHorner (key (node_of (table_put a n t) b)) sz = i) as =
      filter (\<lambda>b. hashHorner (key (node_of t b)) sz = i) as" for i
    by (intro filter_cong) auto
  with assms show ok: "table_ok sz key (table_put a n t) as" by (auto simp: table_ok_def)
  show "entries key (table_put a n t) = entries key t"
    using table_ok_entries[OF ok] table_ok_entries[OF assms(1)] eq by simp
qed

lemma table_ok_update:
  assumes "table_ok sz key t as" and "a \<in> set as" and "key n = key (node_of t a)"
  shows "table_ok sz key (table_put a (Some n) t) as"
    "entries key (table_put a (Some n) t) = entries key t"
proof -
  have eq: "\<And>b. key (node_of (table_put a (Some n) t) b) = key (node_of t b)"
    using assms(3) by (auto simp: node_of_def)
  with assms show ok: "table_ok sz key (table_put a (Some n) t) as"
    by (auto simp: table_ok_def)
  show "entries key (table_put a (Some n) t) = entries key t"
    using table_ok_entries[OF ok] table_ok_entries[OF assms(1)] eq by simp
qed

lemma node_of_link [simp]: "node_of (table_link a i t) = node_of t"
  by (simp add: node_of_def fun_eq_iff)

lemma node_of_unlink [simp]: "node_of (table_unlink a i t) = node_of t"
  by (simp add: node_of_def fun_eq_iff)

lemma table_ok_link:
  assumes ok: "table_ok sz key t as" and n: "tbl_nodes t a = Some n" and a: "a \<notin> set as"
    and sz: "0 < sz" "sz < 2 ^ 32"
  defines "i \<equiv> hashHorner (key n) sz"
  shows "table_ok sz key (table_link a i t) (a # as)"
proof -
  obtain M h where M: "List_Line_Add_Ahead a (tbl_manage t, tbl_header t) = (M, h)" by fastforce
  obtain H hh where H: "List_Line_Add_Ahead a (tbl_hash t, tbl_heads t i) = (H, hh)" by fastforce
  have t': "table_link a i t =
      t\<lparr>tbl_manage := M, tbl_header := h, tbl_hash := H, tbl_heads := (tbl_heads t)(i := hh)\<rparr>"
    by (simp add: table_link_def M H)
  let ?Q = "\<lambda>j b. hashHorner (key (node_of t b)) sz = j"
  have nd: "node_of t a = n" using n by (simp add: node_of_def)
  have lM: "line M h (a # as)"
    using Add_Ahead_line(1)[OF _ a M] ok by (simp add: table_ok_def)
  have i: "i < sz" using hashHorner_less sz by (simp add: i_def)
  have ai: "a \<notin> set (filter (?Q i) as)" using a by simp
  have li: "line (tbl_hash t) (tbl_heads t i) (filter (?Q i) as)" using ok i by (simp add: table_ok_def)
  have lH: "line H hh (a # filter (?Q i) as)" using Add_Ahead_line(1)[OF li ai H] .
  have fr: "same_links (- insert a (set (filter (?Q i) as))) (tbl_hash t) H"
    using Add_Ahead_line(2)[OF li ai H] .
  have lO: "line H (tbl_heads t j) (filter (?Q j) as)" if "j < sz" "j \<noteq> i" for j
  proof -
    have "set (filter (?Q j) as) \<subseteq> - insert a (set (filter (?Q i) as))" using a that by auto
    then have "same_links (set (filter (?Q j) as)) (tbl_hash t) H"
      using fr unfolding same_links_def by blast
    then show ?thesis using ok that(1) line_frame unfolding table_ok_def by blast
  qed
  have nd': "node_of (t\<lparr>tbl_manage := M, tbl_header := h, tbl_hash := H,
      tbl_heads := (tbl_heads t)(i := hh)\<rparr>) = node_of t"
    by (simp add: node_of_def fun_eq_iff)
  have "line H (((tbl_heads t)(i := hh)) j) (filter (?Q j) (a # as))" if "j < sz" for j
    using lH lO[OF that] nd by (auto simp: i_def)
  with lM ok n show ?thesis unfolding t' by (simp add: table_ok_def nd' domI)
qed

lemma table_ok_unlink:
  assumes ok: "table_ok sz key t (ys @ a # zs)" and sz: "0 < sz" "sz < 2 ^ 32"
  defines "i \<equiv> hashHorner (key (node_of t a)) sz"
  shows "table_ok sz key (table_unlink a i t) (ys @ zs)"
proof -
  obtain M h where M: "List_Line_Del a (tbl_manage t, tbl_header t) = (M, h)" by fastforce
  obtain H hh where H: "List_Line_Del a (tbl_hash t, tbl_heads t i) = (H, hh)" by fastforce
  have t': "table_unlink a i t =
      t\<lparr>tbl_manage := M, tbl_header := h, tbl_hash := H, tbl_heads := (tbl_heads t)(i := hh)\<rparr>"
    by (simp add: table_unlink_def M H)
  let ?Q = "\<lambda>j b. hashHorner (key (node_of t b)) sz = j"
  have d: "distinct (ys @ a # zs)" using table_ok_distinct[OF ok] .
  have lM: "line M h (ys @ zs)" using Del_line(1)[OF _ M] ok by (simp add: table_ok_def)
  have i: "i < sz" using hashHorner_less sz by (simp add: i_def)
  have li: "line (tbl_hash t) (tbl_heads t i) (filter (?Q i) ys @ a # filter (?Q i) zs)"
    using ok i unfolding table_ok_def i_def by force
  have lH: "line H hh (filter (?Q i) ys @ filter (?Q i) zs)" using Del_line(1)[OF li H] .
  have fr: "same_links (- set (filter (?Q i) ys @ filter (?Q i) zs)) (tbl_hash t) H"
    using Del_line(2)[OF li H] .
  have lO: "line H (tbl_heads t j) (filter (?Q j) ys @ filter (?Q j) zs)" if "j < sz" "j \<noteq> i" for j
  proof -
    have "set (filter (?Q j) ys @ filter (?Q j) zs) \<subseteq>
        - set (filter (?Q i) ys @ filter (?Q i) zs)"
      using that by auto
    then have s: "same_links (set (filter (?Q j) ys @ filter (?Q j) zs)) (tbl_hash t) H"
      using fr unfolding same_links_def by blast
    have "line (tbl_hash t) (tbl_heads t j) (filter (?Q j) ys @ filter (?Q j) zs)"
      using ok that by (auto simp: table_ok_def i_def)
    then show ?thesis using line_frame[OF s] by blast
  qed
  have nd': "node_of (t\<lparr>tbl_manage := M, tbl_header := h, tbl_hash := H,
      tbl_heads := (tbl_heads t)(i := hh)\<rparr>) = node_of t"
    by (simp add: node_of_def fun_eq_iff)
  have "line H (((tbl_heads t)(i := hh)) j) (filter (?Q j) (ys @ zs))" if "j < sz" for j
    using lH lO[OF that] by auto
  with lM ok show ?thesis unfolding t' by (auto simp: table_ok_def nd')
qed

lemma entries_link:
  assumes "table_ok sz key t as" "tbl_nodes t a = Some n" "a \<notin> set as" "0 < sz" "sz < 2 ^ 32"
  shows "entries key (table_link a (hashHorner (key n) sz) t) = (key n, a) # entries key t"
  using table_ok_entries[OF table_ok_link[OF assms]] table_ok_entries[OF assms(1)] assms(2)
  by (simp add: node_of_def)

section \<open>What the users of a table rely on\<close>

locale symbol_table =
  fixes tab_ok :: "'t \<Rightarrow> bool"
    and tab_entries :: "'t \<Rightarrow> (cstring \<times> 'v) list"
    and tab_find :: "cstring \<Rightarrow> 't \<Rightarrow> 'v option option"
    and tab_add :: "cstring \<Rightarrow> 'v \<Rightarrow> 't \<Rightarrow> 't \<Rightarrow> bool"
  assumes find_law: "tab_ok t \<Longrightarrow> tab_find k t = Some (map_of (tab_entries t) k)"
    and add_ok_law: "tab_ok t \<Longrightarrow> tab_add k v t u \<Longrightarrow> tab_ok u"
    and add_law: "tab_ok t \<Longrightarrow> tab_add k v t u \<Longrightarrow> tab_entries u = (k, v) # tab_entries t"
begin

lemma find_ends: "tab_ok t \<Longrightarrow> tab_find k t \<noteq> None"
  by (simp add: find_law)

lemma find_new: "tab_ok t \<Longrightarrow> tab_add k v t u \<Longrightarrow> tab_find k u = Some (Some v)"
  by (simp add: find_law add_law add_ok_law)

lemma find_other: "tab_ok t \<Longrightarrow> tab_add k v t u \<Longrightarrow> k' \<noteq> k \<Longrightarrow> tab_find k' u = tab_find k' t"
  by (simp add: find_law add_law add_ok_law)

fun adds :: "(cstring \<times> 'v) list \<Rightarrow> 't \<Rightarrow> 't \<Rightarrow> bool" where
  "adds [] t u \<longleftrightarrow> u = t"
| "adds ((k, v) # kvs) t u \<longleftrightarrow> (\<exists>s. tab_add k v t s \<and> adds kvs s u)"

lemma adds_entries: "tab_ok t \<Longrightarrow> adds kvs t u \<Longrightarrow> tab_ok u \<and> tab_entries u = rev kvs @ tab_entries t"
proof (induction kvs arbitrary: t)
  case (Cons kv kvs)
  obtain k v where kv: "kv = (k, v)" by (cases kv)
  with Cons.prems(2) obtain s where s: "tab_add k v t s" "adds kvs s u" by auto
  with Cons.IH[OF add_ok_law[OF Cons.prems(1) s(1)] s(2)] add_law[OF Cons.prems(1) s(1)] kv
  show ?case by simp
qed simp

lemma find_adds:
  assumes "tab_ok t" "adds kvs t u"
  shows "tab_find k u = (case map_of (rev kvs) k of None \<Rightarrow> tab_find k t | Some v \<Rightarrow> Some (Some v))"
  using adds_entries[OF assms] assms(1) by (auto simp: find_law map_add_def split: option.splits)

end

locale symbol_table_del = symbol_table tab_ok tab_entries tab_find tab_add
  for tab_ok :: "'t \<Rightarrow> bool"
    and tab_entries :: "'t \<Rightarrow> (cstring \<times> 'v) list"
    and tab_find :: "cstring \<Rightarrow> 't \<Rightarrow> 'v option option"
    and tab_add :: "cstring \<Rightarrow> 'v \<Rightarrow> 't \<Rightarrow> 't \<Rightarrow> bool" +
  fixes tab_del :: "cstring \<Rightarrow> 't \<Rightarrow> 't \<Rightarrow> bool"
  assumes del_ok_law: "tab_ok t \<Longrightarrow> tab_del k t u \<Longrightarrow> tab_ok u"
    and del_law: "tab_ok t \<Longrightarrow> tab_del k t u \<Longrightarrow>
      \<exists>xs v ys. tab_entries t = xs @ (k, v) # ys \<and> k \<notin> fst ` set xs \<and> tab_entries u = xs @ ys"
begin

lemma find_other_del:
  assumes "tab_ok t" "tab_del k t u" "k' \<noteq> k"
  shows "tab_find k' u = tab_find k' t"
  using del_law[OF assms(1,2)] assms del_ok_law[OF assms(1,2)]
  by (auto simp: find_law map_add_def split: option.splits)

text \<open>Deleting a name uncovers what it shadowed.\<close>

lemma find_del_add:
  assumes "tab_ok t" "tab_add k v t u" "tab_del k u w"
  shows "tab_find j w = tab_find j t"
proof -
  have u: "tab_ok u" "tab_entries u = (k, v) # tab_entries t"
    using add_ok_law[OF assms(1,2)] add_law[OF assms(1,2)] by simp_all
  obtain xs x ys where d: "tab_entries u = xs @ (k, x) # ys" "k \<notin> fst ` set xs" "tab_entries w = xs @ ys"
    using del_law[OF u(1) assms(3)] by blast
  with u(2) have "xs = []" by (cases xs) auto
  with d u(2) have "tab_entries w = tab_entries t" by simp
  then show ?thesis using find_law[OF del_ok_law[OF u(1) assms(3)]] find_law[OF assms(1)] by simp
qed

lemma distinct_del:
  assumes "tab_ok t" "tab_del k t u" "distinct (map fst (tab_entries t))"
  shows "distinct (map fst (tab_entries u)) \<and> tab_find k u = Some None"
proof -
  obtain xs v ys where "tab_entries t = xs @ (k, v) # ys" "tab_entries u = xs @ ys"
    using del_law[OF assms(1,2)] by blast
  with assms(3) show ?thesis
    using find_law[OF del_ok_law[OF assms(1,2)], of k]
    by (auto simp: map_of_eq_None_iff)
qed

lemma distinct_add:
  "tab_ok t \<Longrightarrow> tab_add k v t u \<Longrightarrow> tab_find k t = Some None \<Longrightarrow> distinct (map fst (tab_entries t)) \<Longrightarrow>
     distinct (map fst (tab_entries u))"
  by (simp add: find_law add_law map_of_eq_None_iff)

end

end
