(* ===== verification/ShellDefs.thy ===== *)
theory ShellDefs
  imports Prelude
begin

text \<open>
  What the theories of the shell share: the constants of \<open>config/shell/shell_cfg.h\<close> and the error
  numbers of \<open>shell/include/ttiny_shell_error.h\<close> and of the kernel that its functions return, kept
  symbolic because only their difference matters.
\<close>

definition LW_CFG_SHELL_MAX_COMMANDLEN :: nat where
  "LW_CFG_SHELL_MAX_COMMANDLEN = 512"

definition LW_CFG_SHELL_MAX_KEYWORDLEN :: nat where
  "LW_CFG_SHELL_MAX_KEYWORDLEN = 64"

definition LW_CFG_SHELL_MAX_PARAMNUM :: nat where
  "LW_CFG_SHELL_MAX_PARAMNUM = 64"

definition LW_CFG_SHELL_KEY_HASH_SIZE :: nat where
  "LW_CFG_SHELL_KEY_HASH_SIZE = 23"

definition LW_CFG_SHELL_VAR_HASH_SIZE :: nat where
  "LW_CFG_SHELL_VAR_HASH_SIZE = 17"

definition LW_CFG_SHELL_MAX_VARNAMELEN :: nat where
  "LW_CFG_SHELL_MAX_VARNAMELEN = 64"

definition NAME_MAX :: nat where
  "NAME_MAX = 512"

text \<open>Characters with a meaning in the shell's syntax.\<close>

abbreviation BLANK :: c_char where "BLANK \<equiv> CHR 0x20"
abbreviation QUOTE :: c_char where "QUOTE \<equiv> CHR 0x22"
abbreviation DOLLAR :: c_char where "DOLLAR \<equiv> CHR 0x24"
abbreviation BSLASH :: c_char where "BSLASH \<equiv> CHR 0x5C"
abbreviation LBRACE :: c_char where "LBRACE \<equiv> CHR 0x7B"
abbreviation RBRACE :: c_char where "RBRACE \<equiv> CHR 0x7D"
abbreviation CR :: c_char where "CR \<equiv> CHR 0x0D"
abbreviation LF :: c_char where "LF \<equiv> CHR 0x0A"
abbreviation TAB :: c_char where "TAB \<equiv> CHR 0x09"

datatype tshell_error =
    ERROR_NONE
  | ERROR_SYSTEM_LOW_MEMORY
  | ERROR_TSHELL_EPARAM
  | ERROR_TSHELL_OVERLAP
  | ERROR_TSHELL_EKEYWORD
  | ERROR_TSHELL_EVAR
  | ERROR_TSHELL_CANNT_OVERWRITE
  | ERROR_TSHELL_ENOUSER
  | ERROR_TSHELL_EUSER
  | ERROR_TSHELL_ELEVEL
  | ERROR_TSHELL_CMDNOTFUND
  | ENOTSUP
  | EINVAL

text \<open>The numbers of the errors, as \<open>__tshellExec\<close> returns them with the opposite sign.\<close>

fun error_number :: "tshell_error \<Rightarrow> int" where
  "error_number ERROR_NONE = 0"
| "error_number ERROR_SYSTEM_LOW_MEMORY = 49500"
| "error_number ERROR_TSHELL_EPARAM = 90000"
| "error_number ERROR_TSHELL_OVERLAP = 90001"
| "error_number ERROR_TSHELL_EKEYWORD = 90002"
| "error_number ERROR_TSHELL_EVAR = 90003"
| "error_number ERROR_TSHELL_CANNT_OVERWRITE = 90004"
| "error_number ERROR_TSHELL_ENOUSER = 90005"
| "error_number ERROR_TSHELL_EUSER = 90006"
| "error_number ERROR_TSHELL_ELEVEL = 90007"
| "error_number ERROR_TSHELL_CMDNOTFUND = 90008"
| "error_number ENOTSUP = 35"
| "error_number EINVAL = 22"

end
