(* ===== verification/Keyword.thy ===== *)
theory Keyword
  imports HashTable ShellDefs
begin

text \<open>
  The command table of the shell: \<open>__tshellKeywordAdd\<close>, \<open>__tshellKeywordFind\<close> and
  \<open>__tshellKeywordList\<close> of \<open>ttinyShell/ttinyShellLib.c\<close>, and the entry points
  \<open>API_TShellKeywordAdd(Ex)\<close>, \<open>API_TShellHelpAdd\<close> and \<open>API_TShellFormatAdd\<close> of
  \<open>ttinyShell/ttinyShell.c\<close>.

  The results of the calls of \<open>__SHEAP_ALLOC\<close> are arguments (the address of a new node, or whether a
  string buffer was given); strings are stored by value.  The result \<open>None\<close> of an addition is a write
  beyond the buffer that was allocated.  \<open>TS_lock\<close> is how often the caller holds the shell's mutex.
\<close>

section \<open>State\<close>

record tshell_keyword =
  SK_pfuncCommand :: addr
  SK_ulOption :: "32 word"
  SK_pcKeyword :: cstring
  SK_pcFormatString :: "cstring option"
  SK_pcHelpString :: "cstring option"

record keyword_state = "tshell_keyword table" +
  TS_lock :: nat

definition TTINY_SHELL_LOCK :: "keyword_state \<Rightarrow> keyword_state" where
  "TTINY_SHELL_LOCK st = st\<lparr>TS_lock := TS_lock st + 1\<rparr>"

definition TTINY_SHELL_UNLOCK :: "keyword_state \<Rightarrow> keyword_state" where
  "TTINY_SHELL_UNLOCK st = st\<lparr>TS_lock := TS_lock st - 1\<rparr>"

section \<open>Operations\<close>

definition tshellKeywordAdd ::
    "addr option \<Rightarrow> bool \<Rightarrow> cstring \<Rightarrow> nat \<Rightarrow> addr \<Rightarrow> 32 word \<Rightarrow> keyword_state \<Rightarrow>
     (tshell_error \<times> keyword_state) option" where
  "tshellKeywordAdd node_alloc str_alloc pcKeyword stStrLen pfuncCommand ulOption st =
     (case node_alloc of
        None \<Rightarrow> Some (ERROR_SYSTEM_LOW_MEMORY, st)
      | Some a \<Rightarrow>
          if \<not> str_alloc then Some (ERROR_SYSTEM_LOW_MEMORY, st)
          else
            (let iHashVal = hashHorner pcKeyword LW_CFG_SHELL_KEY_HASH_SIZE;
                 st = TTINY_SHELL_LOCK st;
                 copied = fst (lib_strlcpy [] pcKeyword (LW_CFG_SHELL_MAX_KEYWORDLEN + 1)) in
             if lib_strlen copied > stStrLen then None
             else
               (let n = \<lparr>SK_pfuncCommand = pfuncCommand, SK_ulOption = ulOption,
                         SK_pcKeyword = copied, SK_pcFormatString = None, SK_pcHelpString = None\<rparr>;
                    st = table_put a (Some n) st;
                    st = table_link a iHashVal st
                in Some (ERROR_NONE, TTINY_SHELL_UNLOCK st))))"

definition tshellKeywordFind :: "cstring \<Rightarrow> keyword_state \<Rightarrow> (tshell_error + addr) option" where
  "tshellKeywordFind pcKeyword st =
     (let iHashVal = hashHorner pcKeyword LW_CFG_SHELL_KEY_HASH_SIZE in
      case table_search (\<lambda>n. lib_strcmp pcKeyword (SK_pcKeyword n) = 0) iHashVal st of
        None \<Rightarrow> None
      | Some None \<Rightarrow> Some (Inl ERROR_TSHELL_EKEYWORD)
      | Some (Some a) \<Rightarrow> Some (Inr a))"

definition tshellKeywordList :: "addr option \<Rightarrow> nat \<Rightarrow> keyword_state \<Rightarrow> addr list" where
  "tshellKeywordList start iMaxCounter st = table_list start iMaxCounter st"

definition TShellKeywordAddEx ::
    "nat \<Rightarrow> addr option \<Rightarrow> bool \<Rightarrow> cstring option \<Rightarrow> addr \<Rightarrow> 32 word \<Rightarrow> keyword_state \<Rightarrow>
     (tshell_error \<times> keyword_state) option" where
  "TShellKeywordAddEx pid node_alloc str_alloc pcKeyword pfuncCommand ulOption st =
     (if pid \<noteq> 0 then Some (ENOTSUP, st)
      else case pcKeyword of
        None \<Rightarrow> Some (ERROR_TSHELL_EPARAM, st)
      | Some kw \<Rightarrow>
          (let stStrLen = lib_strnlen kw LW_CFG_SHELL_MAX_KEYWORDLEN in
           if stStrLen \<ge> LW_CFG_SHELL_MAX_KEYWORDLEN + 1 then Some (ERROR_TSHELL_EPARAM, st)
           else tshellKeywordAdd node_alloc str_alloc kw stStrLen pfuncCommand ulOption st))"

definition TShellKeywordAdd ::
    "nat \<Rightarrow> addr option \<Rightarrow> bool \<Rightarrow> cstring option \<Rightarrow> addr \<Rightarrow> keyword_state \<Rightarrow>
     (tshell_error \<times> keyword_state) option" where
  "TShellKeywordAdd pid node_alloc str_alloc pcKeyword pfuncCommand st =
     TShellKeywordAddEx pid node_alloc str_alloc pcKeyword pfuncCommand 0 st"

text \<open>
  Both functions that attach a text to a keyword are the same code on different fields: \<open>fld\<close> and
  \<open>upd\<close> read and write it.  The outer \<open>None\<close> is a search that does not end.
\<close>

definition attach_string ::
    "(tshell_keyword \<Rightarrow> cstring option) \<Rightarrow> (cstring option \<Rightarrow> tshell_keyword \<Rightarrow> tshell_keyword) \<Rightarrow>
     nat \<Rightarrow> bool \<Rightarrow> cstring option \<Rightarrow> cstring option \<Rightarrow> keyword_state \<Rightarrow>
     (tshell_error \<times> keyword_state) option" where
  "attach_string fld upd pid str_alloc pcKeyword pcText st =
     (if pid \<noteq> 0 then Some (ENOTSUP, st)
      else case pcKeyword of
        None \<Rightarrow> Some (ERROR_TSHELL_EPARAM, st)
      | Some kw \<Rightarrow>
          (case pcText of
             None \<Rightarrow> Some (ERROR_TSHELL_EPARAM, st)
           | Some txt \<Rightarrow>
               if lib_strnlen kw LW_CFG_SHELL_MAX_KEYWORDLEN \<ge> LW_CFG_SHELL_MAX_KEYWORDLEN + 1
               then Some (ERROR_TSHELL_EPARAM, st)
               else (case tshellKeywordFind kw st of
                       None \<Rightarrow> None
                     | Some (Inl e) \<Rightarrow> Some (ERROR_TSHELL_EKEYWORD, st)
                     | Some (Inr a) \<Rightarrow>
                         (let st = TTINY_SHELL_LOCK st; n = node_of st a in
                          if fld n \<noteq> None
                          then Some (ERROR_TSHELL_OVERLAP, TTINY_SHELL_UNLOCK st)
                          else if \<not> str_alloc then Some (ERROR_SYSTEM_LOW_MEMORY, st)
                          else Some (ERROR_NONE,
                                 TTINY_SHELL_UNLOCK (table_put a (Some (upd (Some txt) n)) st))))))"

definition TShellHelpAdd ::
    "nat \<Rightarrow> bool \<Rightarrow> cstring option \<Rightarrow> cstring option \<Rightarrow> keyword_state \<Rightarrow>
     (tshell_error \<times> keyword_state) option" where
  "TShellHelpAdd = attach_string SK_pcHelpString (\<lambda>s n. n\<lparr>SK_pcHelpString := s\<rparr>)"

definition TShellFormatAdd ::
    "nat \<Rightarrow> bool \<Rightarrow> cstring option \<Rightarrow> cstring option \<Rightarrow> keyword_state \<Rightarrow>
     (tshell_error \<times> keyword_state) option" where
  "TShellFormatAdd = attach_string SK_pcFormatString (\<lambda>s n. n\<lparr>SK_pcFormatString := s\<rparr>)"

section \<open>Invariant\<close>

text \<open>
  The nodes \<open>as\<close> of the table, newest first; a node that is allocated is in the table, because
  keywords are never removed.
\<close>

definition keyword_ok :: "keyword_state \<Rightarrow> bool" where
  "keyword_ok st \<longleftrightarrow> (\<exists>as. table_ok LW_CFG_SHELL_KEY_HASH_SIZE SK_pcKeyword st as)"

definition keyword_init :: keyword_state where
  "keyword_init = \<lparr>tbl_nodes = (\<lambda>a. None), tbl_manage = \<lparr>LINE_plistNext = (\<lambda>a. None), LINE_plistPrev = (\<lambda>a. None)\<rparr>,
     tbl_header = None, tbl_hash = \<lparr>LINE_plistNext = (\<lambda>a. None), LINE_plistPrev = (\<lambda>a. None)\<rparr>,
     tbl_heads = (\<lambda>i. None), TS_lock = 0\<rparr>"

abbreviation kw_entries :: "keyword_state \<Rightarrow> (cstring \<times> addr) list" where
  "kw_entries \<equiv> entries SK_pcKeyword"

lemma keyword_init_ok [simp]: "keyword_ok keyword_init" "kw_entries keyword_init = []"
proof -
  have "table_ok LW_CFG_SHELL_KEY_HASH_SIZE SK_pcKeyword keyword_init []"
    by (rule table_ok_empty) (auto simp: keyword_init_def)
  then show "keyword_ok keyword_init" "kw_entries keyword_init = []"
    using table_ok_entries[of _ SK_pcKeyword keyword_init "[]"] by (auto simp: keyword_ok_def)
qed

lemma lock_simps [simp]:
  "tbl_nodes (TTINY_SHELL_LOCK st) = tbl_nodes st" "tbl_nodes (TTINY_SHELL_UNLOCK st) = tbl_nodes st"
  "TS_lock (TTINY_SHELL_LOCK st) = TS_lock st + 1" "TS_lock (TTINY_SHELL_UNLOCK st) = TS_lock st - 1"
  "node_of (TTINY_SHELL_LOCK st) = node_of st" "node_of (TTINY_SHELL_UNLOCK st) = node_of st"
  by (simp_all add: TTINY_SHELL_LOCK_def TTINY_SHELL_UNLOCK_def node_of_def fun_eq_iff)

lemma table_ok_lock [simp]:
  "table_ok z k (TTINY_SHELL_LOCK st) as = table_ok z k st as"
  "table_ok z k (TTINY_SHELL_UNLOCK st) as = table_ok z k st as"
  by (simp_all add: table_ok_def node_of_def TTINY_SHELL_LOCK_def TTINY_SHELL_UNLOCK_def)

lemma entries_lock [simp]:
  "entries k (TTINY_SHELL_LOCK st) = entries k st" "entries k (TTINY_SHELL_UNLOCK st) = entries k st"
  by (simp_all add: entries_def node_of_def TTINY_SHELL_LOCK_def TTINY_SHELL_UNLOCK_def)

lemma lock_table [simp]:
  "TS_lock (table_put a n st) = TS_lock st" "TS_lock (table_link a i st) = TS_lock st"
  by (simp_all add: table_put_def table_link_def split: prod.split)

lemma key_hash_size [simp]: "0 < LW_CFG_SHELL_KEY_HASH_SIZE" "LW_CFG_SHELL_KEY_HASH_SIZE < 2 ^ 32"
  by (simp_all add: LW_CFG_SHELL_KEY_HASH_SIZE_def)

text \<open>The search as a plain lookup: \<open>Some None\<close> is the error \<open>ERROR_TSHELL_EKEYWORD\<close>.\<close>

definition keyword_find :: "cstring \<Rightarrow> keyword_state \<Rightarrow> addr option option" where
  "keyword_find kw st =
     (case tshellKeywordFind kw st of
        None \<Rightarrow> None | Some (Inl e) \<Rightarrow> Some None | Some (Inr a) \<Rightarrow> Some (Some a))"

lemma keyword_search:
  assumes "keyword_ok st"
  shows "table_search (\<lambda>n. lib_strcmp kw (SK_pcKeyword n) = 0)
    (hashHorner kw LW_CFG_SHELL_KEY_HASH_SIZE) st = Some (map_of (kw_entries st) kw)"
proof -
  obtain as where ok: "table_ok LW_CFG_SHELL_KEY_HASH_SIZE SK_pcKeyword st as"
    using assms keyword_ok_def by blast
  show ?thesis by (rule table_search_entries[OF ok key_hash_size]) auto
qed

lemma tshellKeywordFind_entries:
  assumes "keyword_ok st"
  shows "tshellKeywordFind kw st =
     Some (case map_of (kw_entries st) kw of None \<Rightarrow> Inl ERROR_TSHELL_EKEYWORD | Some a \<Rightarrow> Inr a)"
  unfolding tshellKeywordFind_def Let_def keyword_search[OF assms] by (simp split: option.splits)

lemma keyword_find_entries:
  "keyword_ok st \<Longrightarrow> keyword_find kw st = Some (map_of (kw_entries st) kw)"
  by (simp add: keyword_find_def tshellKeywordFind_entries split: option.splits)

text \<open>A successful registration puts one new node in front of the table.\<close>

lemma tshellKeywordAdd_ok:
  assumes ok: "keyword_ok st" and a: "tbl_nodes st a = None"
    and len: "length kw \<le> LW_CFG_SHELL_MAX_KEYWORDLEN" "length kw \<le> n"
    and add: "tshellKeywordAdd (Some a) True kw n f opt st = Some (r, st')"
  shows "r = ERROR_NONE" "keyword_ok st'" "kw_entries st' = (kw, a) # kw_entries st"
    "TS_lock st' = TS_lock st"
    "tbl_nodes st' = (tbl_nodes st)(a \<mapsto> \<lparr>SK_pfuncCommand = f, SK_ulOption = opt,
       SK_pcKeyword = kw, SK_pcFormatString = None, SK_pcHelpString = None\<rparr>)"
proof -
  obtain as where tk: "table_ok LW_CFG_SHELL_KEY_HASH_SIZE SK_pcKeyword st as"
    using ok keyword_ok_def by blast
  have na: "a \<notin> set as" using tk a by (auto simp: table_ok_def)
  let ?n = "\<lparr>SK_pfuncCommand = f, SK_ulOption = opt, SK_pcKeyword = kw,
     SK_pcFormatString = None, SK_pcHelpString = None\<rparr>"
  let ?s = "table_put a (Some ?n) (TTINY_SHELL_LOCK st)"
  let ?u = "table_link a (hashHorner (SK_pcKeyword ?n) LW_CFG_SHELL_KEY_HASH_SIZE) ?s"
  have st': "r = ERROR_NONE" "st' = TTINY_SHELL_UNLOCK ?u"
    using add len by (auto simp: tshellKeywordAdd_def Let_def lib_strlcpy_eq)
  have ts: "table_ok LW_CFG_SHELL_KEY_HASH_SIZE SK_pcKeyword ?s as"
    and es: "kw_entries ?s = kw_entries st"
    using table_ok_put[of _ SK_pcKeyword "TTINY_SHELL_LOCK st" as a "Some ?n"] tk na by simp_all
  have tu: "table_ok LW_CFG_SHELL_KEY_HASH_SIZE SK_pcKeyword ?u (a # as)"
    by (rule table_ok_link[OF ts _ na key_hash_size]) simp
  have eu: "kw_entries ?u = (kw, a) # kw_entries st"
    using entries_link[OF ts _ na key_hash_size, of ?n] es by simp
  show "r = ERROR_NONE" by (fact st'(1))
  show "keyword_ok st'" using tu by (auto simp: keyword_ok_def st')
  show "kw_entries st' = (kw, a) # kw_entries st" using eu by (simp add: st')
  show "TS_lock st' = TS_lock st" by (simp add: st')
  show "tbl_nodes st' = (tbl_nodes st)(a \<mapsto> ?n)" by (simp add: st')
qed

text \<open>
  One call of the registration function that succeeds, as a step between states: \<open>a\<close> is the new
  node, at an address that was free.
\<close>

definition keyword_added :: "cstring \<Rightarrow> addr \<Rightarrow> keyword_state \<Rightarrow> keyword_state \<Rightarrow> bool" where
  "keyword_added kw a st st' \<longleftrightarrow>
     length kw \<le> LW_CFG_SHELL_MAX_KEYWORDLEN \<and> tbl_nodes st a = None \<and>
     (\<exists>f opt. TShellKeywordAddEx 0 (Some a) True (Some kw) f opt st = Some (ERROR_NONE, st'))"

lemma keyword_added_ok:
  assumes "keyword_ok st" and "keyword_added kw a st st'"
  shows "keyword_ok st'" "kw_entries st' = (kw, a) # kw_entries st" "TS_lock st' = TS_lock st"
    "\<exists>n. tbl_nodes st' = (tbl_nodes st)(a \<mapsto> n)"
proof -
  from assms(2) obtain f opt where "length kw \<le> LW_CFG_SHELL_MAX_KEYWORDLEN" "tbl_nodes st a = None"
    "tshellKeywordAdd (Some a) True kw (min LW_CFG_SHELL_MAX_KEYWORDLEN (length kw)) f opt st =
       Some (ERROR_NONE, st')"
    by (auto simp: keyword_added_def TShellKeywordAddEx_def Let_def)
  note add = tshellKeywordAdd_ok[OF assms(1) this(2,1) _ this(3)] this(1)
  show "keyword_ok st'" "kw_entries st' = (kw, a) # kw_entries st" "TS_lock st' = TS_lock st"
    "\<exists>n. tbl_nodes st' = (tbl_nodes st)(a \<mapsto> n)"
    using add by auto
qed

interpretation kw: symbol_table keyword_ok kw_entries keyword_find keyword_added
  by unfold_locales (simp_all add: keyword_find_entries keyword_added_ok)

section \<open>Properties\<close>

text \<open>A boot sequence: the registrations, each of which must succeed.\<close>

record registration =
  rg_name :: cstring
  rg_node :: addr
  rg_func :: addr
  rg_opt :: "32 word"

fun register_all :: "registration list \<Rightarrow> keyword_state \<Rightarrow> keyword_state option" where
  "register_all [] st = Some st"
| "register_all (r # rs) st =
     (case TShellKeywordAddEx 0 (Some (rg_node r)) True (Some (rg_name r)) (rg_func r) (rg_opt r) st of
        Some (ERROR_NONE, st') \<Rightarrow> register_all rs st'
      | _ \<Rightarrow> None)"

lemma AddEx_succeeds:
  assumes "keyword_ok st" "tbl_nodes st a = None" "length k \<le> LW_CFG_SHELL_MAX_KEYWORDLEN"
  obtains st' where "TShellKeywordAddEx 0 (Some a) True (Some k) f opt st = Some (ERROR_NONE, st')"
    "keyword_ok st'" "keyword_added k a st st'" "TS_lock st' = TS_lock st"
    "tbl_nodes st' = (tbl_nodes st)(a \<mapsto> \<lparr>SK_pfuncCommand = f, SK_ulOption = opt, SK_pcKeyword = k,
       SK_pcFormatString = None, SK_pcHelpString = None\<rparr>)"
proof -
  let ?n = "min LW_CFG_SHELL_MAX_KEYWORDLEN (length k)"
  have eq: "TShellKeywordAddEx 0 (Some a) True (Some k) f opt st = tshellKeywordAdd (Some a) True k ?n f opt st"
    by (simp add: TShellKeywordAddEx_def Let_def)
  obtain r st' where r: "tshellKeywordAdd (Some a) True k ?n f opt st = Some (r, st')"
    using assms(3) by (simp add: tshellKeywordAdd_def Let_def lib_strlcpy_eq)
  note ok = tshellKeywordAdd_ok[OF assms(1,2,3) _ r]
  show ?thesis
  proof (rule that)
    show "TShellKeywordAddEx 0 (Some a) True (Some k) f opt st = Some (ERROR_NONE, st')"
      using eq r ok(1) assms(3) by simp
    then show "keyword_added k a st st'" using assms by (auto simp: keyword_added_def)
  qed (use ok assms(3) in auto)
qed

definition rg_pair :: "registration \<Rightarrow> cstring \<times> addr" where
  "rg_pair r = (rg_name r, rg_node r)"

definition rg_done :: "keyword_state \<Rightarrow> registration \<Rightarrow> bool" where
  "rg_done st r \<longleftrightarrow> (\<exists>n. tbl_nodes st (rg_node r) = Some n \<and> SK_pfuncCommand n = rg_func r \<and>
     SK_ulOption n = rg_opt r)"

lemma register_all_adds:
  assumes "keyword_ok st"
    "\<forall>r \<in> set rs. length (rg_name r) \<le> LW_CFG_SHELL_MAX_KEYWORDLEN \<and> tbl_nodes st (rg_node r) = None"
    "distinct (map rg_node rs)"
  shows "\<exists>st'. register_all rs st = Some st' \<and> kw.adds (map rg_pair rs) st st' \<and>
    TS_lock st' = TS_lock st \<and> (\<forall>r \<in> set rs. rg_done st' r) \<and>
    (\<forall>a. a \<notin> rg_node ` set rs \<longrightarrow> tbl_nodes st' a = tbl_nodes st a)"
  using assms
proof (induction rs arbitrary: st)
  case (Cons r rs)
  from Cons.prems have "tbl_nodes st (rg_node r) = None" "length (rg_name r) \<le> LW_CFG_SHELL_MAX_KEYWORDLEN"
    by auto
  from AddEx_succeeds[OF Cons.prems(1) this, of "rg_func r" "rg_opt r"] obtain st1 where s1:
    "TShellKeywordAddEx 0 (Some (rg_node r)) True (Some (rg_name r)) (rg_func r) (rg_opt r) st =
       Some (ERROR_NONE, st1)"
    "keyword_ok st1" "keyword_added (rg_name r) (rg_node r) st st1" "TS_lock st1 = TS_lock st"
    "tbl_nodes st1 = (tbl_nodes st)(rg_node r \<mapsto> \<lparr>SK_pfuncCommand = rg_func r, SK_ulOption = rg_opt r,
       SK_pcKeyword = rg_name r, SK_pcFormatString = None, SK_pcHelpString = None\<rparr>)"
    by blast
  have fresh: "rg_node r \<notin> rg_node ` set rs" using Cons.prems(3) by simp
  have "\<forall>q \<in> set rs. length (rg_name q) \<le> LW_CFG_SHELL_MAX_KEYWORDLEN \<and> tbl_nodes st1 (rg_node q) = None"
    using Cons.prems(2) fresh by (auto simp: s1(5) image_iff)
  from Cons.IH[OF s1(2) this] Cons.prems(3) obtain st' where st':
    "register_all rs st1 = Some st'" "kw.adds (map rg_pair rs) st1 st'" "TS_lock st' = TS_lock st1"
    "\<forall>r \<in> set rs. rg_done st' r" "\<forall>a. a \<notin> rg_node ` set rs \<longrightarrow> tbl_nodes st' a = tbl_nodes st1 a"
    by auto
  have "tbl_nodes st' (rg_node r) = tbl_nodes st1 (rg_node r)" using st'(5) fresh by blast
  then have "rg_done st' r" by (simp add: rg_done_def s1(5))
  moreover have "kw.adds (map rg_pair (r # rs)) st st'" using s1(3) st'(2) by (auto simp: rg_pair_def)
  ultimately show ?case using st' s1 by auto
qed simp

text \<open>
  C28: the command table is the map from names to handlers that the registrations build.  Any sequence
  of \<open>API_TShellKeywordAddEx\<close> calls with names of at most 64 characters and enough memory succeeds;
  after it, looking up a name ends and gives the node of the last registration of that name, with
  its handler and options, or \<open>ERROR_TSHELL_EKEYWORD\<close> when the name was never registered, and the
  mutex is free again.
\<close>

theorem keyword_dispatch:
  assumes "\<forall>r \<in> set regs. length (rg_name r) \<le> LW_CFG_SHELL_MAX_KEYWORDLEN"
    and "distinct (map rg_node regs)"
  shows "\<exists>st. register_all regs keyword_init = Some st \<and> TS_lock st = 0 \<and>
    (\<forall>k. tshellKeywordFind k st =
       Some (case map_of (rev (map rg_pair regs)) k of
               None \<Rightarrow> Inl ERROR_TSHELL_EKEYWORD | Some a \<Rightarrow> Inr a)) \<and>
    (\<forall>r \<in> set regs. SK_pfuncCommand (node_of st (rg_node r)) = rg_func r \<and>
       SK_ulOption (node_of st (rg_node r)) = rg_opt r)"
proof -
  have "\<forall>r \<in> set regs. length (rg_name r) \<le> LW_CFG_SHELL_MAX_KEYWORDLEN \<and>
      tbl_nodes keyword_init (rg_node r) = None"
    using assms(1) by (auto simp: keyword_init_def)
  from register_all_adds[OF _ this assms(2)] obtain st where st:
    "register_all regs keyword_init = Some st" "kw.adds (map rg_pair regs) keyword_init st"
    "TS_lock st = TS_lock keyword_init" "\<forall>r \<in> set regs. rg_done st r"
    by auto
  have "keyword_ok st \<and> kw_entries st = rev (map rg_pair regs)"
    using kw.adds_entries[OF _ st(2)] by simp
  moreover have "\<forall>r \<in> set regs. SK_pfuncCommand (node_of st (rg_node r)) = rg_func r \<and>
      SK_ulOption (node_of st (rg_node r)) = rg_opt r"
    using st(4) by (auto simp: rg_done_def node_of_def)
  ultimately show ?thesis
    using st(1,3) by (simp add: tshellKeywordFind_entries keyword_init_def)
qed

definition demo_regs :: "registration list" where
  "demo_regs =
     [\<lparr>rg_name = ''ls'', rg_node = 1, rg_func = 100, rg_opt = 0\<rparr>,
      \<lparr>rg_name = ''cd'', rg_node = 2, rg_func = 200, rg_opt = 0\<rparr>,
      \<lparr>rg_name = ''ls'', rg_node = 3, rg_func = 300, rg_opt = 4\<rparr>]"

lemma keyword_dispatch_witness:
  "\<exists>st. register_all demo_regs keyword_init = Some st \<and>
     tshellKeywordFind ''ls'' st = Some (Inr 3) \<and> tshellKeywordFind ''cd'' st = Some (Inr 2) \<and>
     tshellKeywordFind ''l'' st = Some (Inl ERROR_TSHELL_EKEYWORD) \<and> SK_pfuncCommand (node_of st 3) = 300"
  using keyword_dispatch[of demo_regs]
  by (auto simp: LW_CFG_SHELL_MAX_KEYWORDLEN_def demo_regs_def rg_pair_def)

text \<open>
  \<open>API_TShellHelpAdd\<close> on every branch.  On a well-formed table and outside a process, with both
  strings given: a name that is not registered is \<open>ERROR_TSHELL_EKEYWORD\<close>; a second text is refused
  with \<open>ERROR_TSHELL_OVERLAP\<close>; when there is no memory the call is \<open>ERROR_SYSTEM_LOW_MEMORY\<close> and
  returns with the shell's mutex still held (the code has no unlock on that path), so the lock
  count is one higher; otherwise the text is stored in that node and nothing else changes.
\<close>

theorem help_add_branches:
  assumes "keyword_ok st"
  shows "TShellHelpAdd 0 mem (Some k) (Some txt) st =
    (case map_of (kw_entries st) k of
       None \<Rightarrow> Some (ERROR_TSHELL_EKEYWORD, st)
     | Some a \<Rightarrow>
         if SK_pcHelpString (node_of st a) \<noteq> None then Some (ERROR_TSHELL_OVERLAP, st)
         else if \<not> mem then Some (ERROR_SYSTEM_LOW_MEMORY, st\<lparr>TS_lock := TS_lock st + 1\<rparr>)
         else Some (ERROR_NONE, st\<lparr>tbl_nodes := (tbl_nodes st)
                (a \<mapsto> (node_of st a)\<lparr>SK_pcHelpString := Some txt\<rparr>)\<rparr>))"
  using tshellKeywordFind_entries[OF assms, of k]
  by (auto simp: TShellHelpAdd_def attach_string_def TTINY_SHELL_LOCK_def TTINY_SHELL_UNLOCK_def
      table_put_def node_of_def Let_def LW_CFG_SHELL_MAX_KEYWORDLEN_def split: option.splits)

lemma help_add_branches_witness:
  "TShellHelpAdd 0 False (Some ''ls'') (Some ''x'') keyword_init = Some (ERROR_TSHELL_EKEYWORD, keyword_init)"
  using help_add_branches[of keyword_init False "''ls''" "''x''"] by simp

text \<open>
  A name of more than 64 characters is lost.  The length test of \<open>API_TShellKeywordAddEx\<close> compares
  the result of \<open>lib_strnlen\<close> with bound 64 against 65, so it never refuses; the table keeps the first
  64 characters in the chain of the whole name, and a search for the name that was registered does
  not find the node.
\<close>

theorem keyword_too_long_lost:
  assumes ok: "keyword_ok st" and a: "tbl_nodes st a = None"
    and len: "LW_CFG_SHELL_MAX_KEYWORDLEN < length k"
    and new: "tshellKeywordFind k st = Some (Inl ERROR_TSHELL_EKEYWORD)"
  shows "\<exists>st'. TShellKeywordAddEx 0 (Some a) True (Some k) f opt st = Some (ERROR_NONE, st') \<and>
    SK_pcKeyword (node_of st' a) = take LW_CFG_SHELL_MAX_KEYWORDLEN k \<and>
    tshellKeywordFind k st' = Some (Inl ERROR_TSHELL_EKEYWORD)"
proof -
  obtain as where tk: "table_ok LW_CFG_SHELL_KEY_HASH_SIZE SK_pcKeyword st as"
    using ok keyword_ok_def by blast
  let ?i = "hashHorner k LW_CFG_SHELL_KEY_HASH_SIZE"
  let ?n = "\<lparr>SK_pfuncCommand = f, SK_ulOption = opt, SK_pcKeyword = take LW_CFG_SHELL_MAX_KEYWORDLEN k,
     SK_pcFormatString = None, SK_pcHelpString = None\<rparr>"
  let ?st' = "TTINY_SHELL_UNLOCK (table_link a ?i (table_put a (Some ?n) (TTINY_SHELL_LOCK st)))"
  let ?bs = "filter (\<lambda>b. hashHorner (SK_pcKeyword (node_of st b)) LW_CFG_SHELL_KEY_HASH_SIZE = ?i) as"
  have call: "TShellKeywordAddEx 0 (Some a) True (Some k) f opt st = Some (ERROR_NONE, ?st')"
    using len by (simp add: TShellKeywordAddEx_def tshellKeywordAdd_def Let_def lib_strlcpy_eq)
  have na: "a \<notin> set ?bs" using tk a by (auto simp: table_ok_def)
  have li: "line (tbl_hash st) (tbl_heads st ?i) ?bs"
    using tk hashHorner_less[OF key_hash_size] unfolding table_ok_def by blast
  obtain H hh where H: "List_Line_Add_Ahead a (tbl_hash st, tbl_heads st ?i) = (H, hh)" by fastforce
  obtain M h where M: "List_Line_Add_Ahead a (tbl_manage st, tbl_header st) = (M, h)" by fastforce
  have flds: "tbl_hash ?st' = H" "tbl_heads ?st' ?i = hh" "tbl_nodes ?st' = (tbl_nodes st)(a \<mapsto> ?n)"
    using H M by (simp_all add: table_link_def table_put_def TTINY_SHELL_LOCK_def TTINY_SHELL_UNLOCK_def)
  let ?P = "\<lambda>t b. case tbl_nodes t b of None \<Rightarrow> False | Some n \<Rightarrow> lib_strcmp k (SK_pcKeyword n) = 0"
  have "table_search (\<lambda>n. lib_strcmp k (SK_pcKeyword n) = 0) ?i st = Some (find (?P st) ?bs)"
    unfolding table_search_def by (rule line_find_eq[OF li])
  then have old: "find (?P st) ?bs = None"
    using new by (auto simp: tshellKeywordFind_def Let_def split: option.splits)
  have "length (take LW_CFG_SHELL_MAX_KEYWORDLEN k) < length k" using len by simp
  then have ne: "k \<noteq> take LW_CFG_SHELL_MAX_KEYWORDLEN k" by (metis less_irrefl)
  have "find (?P ?st') ?bs = find (?P st) ?bs"
  proof (rule find_cong_set)
    fix b assume "b \<in> set ?bs"
    with na have "b \<noteq> a" by blast
    then show "?P ?st' b = ?P st b" unfolding flds by simp
  qed
  moreover have "\<not> ?P ?st' a" unfolding flds using ne by simp
  ultimately have "find (?P ?st') (a # ?bs) = find (?P st) ?bs" by (simp only: find.simps if_False)
  then have "table_search (\<lambda>n. lib_strcmp k (SK_pcKeyword n) = 0) ?i ?st' = Some None"
    unfolding table_search_def flds(1,2)
    using line_find_eq[OF Add_Ahead_line(1)[OF li na H], of "?P ?st'"] old by simp
  then have "tshellKeywordFind k ?st' = Some (Inl ERROR_TSHELL_EKEYWORD)"
    by (simp add: tshellKeywordFind_def Let_def)
  moreover have "SK_pcKeyword (node_of ?st' a) = take LW_CFG_SHELL_MAX_KEYWORDLEN k"
    by (simp add: node_of_def flds)
  ultimately show ?thesis using call by blast
qed

lemma keyword_too_long_lost_witness:
  "\<exists>st'. TShellKeywordAddEx 0 (Some 1) True (Some (replicate 65 CHR ''a'')) 7 0 keyword_init =
     Some (ERROR_NONE, st') \<and>
   tshellKeywordFind (replicate 65 CHR ''a'') st' = Some (Inl ERROR_TSHELL_EKEYWORD)"
proof -
  have "tbl_nodes keyword_init 1 = None" by (simp add: keyword_init_def)
  moreover have "LW_CFG_SHELL_MAX_KEYWORDLEN < length (replicate 65 CHR ''a'')"
    by (simp add: LW_CFG_SHELL_MAX_KEYWORDLEN_def)
  moreover have "tshellKeywordFind (replicate 65 CHR ''a'') keyword_init = Some (Inl ERROR_TSHELL_EKEYWORD)"
    by (simp add: tshellKeywordFind_entries)
  ultimately show ?thesis using keyword_too_long_lost[OF keyword_init_ok(1), of 1 _ 7 0] by blast
qed

end
