(* ===== verification/ShellVar.thy ===== *)
theory ShellVar
  imports HashTable ShellDefs
begin

text \<open>
  The environment variables of the shell: \<open>ttinyVar/ttinyVarLib.c\<close> and the entry points of
  \<open>ttinyVar/ttinyVar.c\<close> (the functions that run shell text, \<open>__tshellVarDefine\<close> and
  \<open>__tshellVarLoad\<close>, are in \<open>VarDefine\<close>).

  A node keeps the address of the buffer of its value, because \<open>__tshellVarGet\<close> hands that pointer
  out and counts the references: \<open>TS_heap\<close> is the contents of the buffers that are allocated.
  \<open>TS_hook\<close> is the callback and \<open>TS_hook_log\<close> its calls, oldest first.  The results of
  \<open>__SHEAP_ALLOC\<close> are arguments.  Each function holds the shell's mutex over its critical section, so
  it is one step.
\<close>

section \<open>State\<close>

record tshell_var =
  SV_pcVarName :: cstring
  SV_pcVarValue :: addr
  SV_ulRefCnt :: "32 word"

record var_state = "tshell_var table" +
  TS_heap :: "addr \<Rightarrow> cstring option"
  TS_hook :: "addr option"
  TS_hook_log :: "(addr \<times> cstring) list"

datatype var_fault = Search_Diverges | Name_Overflow | Bad_Free | Null_String

definition TSHELL_RUN_HOOK :: "cstring \<Rightarrow> var_state \<Rightarrow> var_state" where
  "TSHELL_RUN_HOOK pcVarName st =
     (case TS_hook st of
        None \<Rightarrow> st
      | Some f \<Rightarrow> st\<lparr>TS_hook_log := TS_hook_log st @ [(f, pcVarName)]\<rparr>)"

definition TShellVarHookSet :: "nat \<Rightarrow> addr option \<Rightarrow> var_state \<Rightarrow> addr option \<times> var_state" where
  "TShellVarHookSet pid hook st =
     (if pid \<noteq> 0 then (None, st) else (TS_hook st, st\<lparr>TS_hook := hook\<rparr>))"

definition heap_put :: "addr \<Rightarrow> cstring \<Rightarrow> var_state \<Rightarrow> var_state" where
  "heap_put p s st = st\<lparr>TS_heap := (TS_heap st)(p \<mapsto> s)\<rparr>"

definition heap_free :: "addr \<Rightarrow> var_state \<Rightarrow> var_fault + var_state" where
  "heap_free p st =
     (if TS_heap st p = None then Inl Bad_Free else Inr (st\<lparr>TS_heap := (TS_heap st)(p := None)\<rparr>))"

section \<open>Operations\<close>

definition var_search :: "cstring \<Rightarrow> var_state \<Rightarrow> addr option option" where
  "var_search pcVarName st =
     table_search (\<lambda>n. lib_strcmp pcVarName (SV_pcVarName n) = 0)
       (hashHorner pcVarName LW_CFG_SHELL_VAR_HASH_SIZE) st"

definition tshellVarAdd ::
    "addr option \<Rightarrow> bool \<Rightarrow> addr option \<Rightarrow> cstring \<Rightarrow> cstring option \<Rightarrow> nat \<Rightarrow> var_state \<Rightarrow>
     var_fault + tshell_error \<times> var_state" where
  "tshellVarAdd node_alloc name_alloc value_alloc pcVarName pcVarValue stNameStrLen st =
     (case node_alloc of
        None \<Rightarrow> Inr (ERROR_SYSTEM_LOW_MEMORY, st)
      | Some a \<Rightarrow>
          if \<not> name_alloc then Inr (ERROR_SYSTEM_LOW_MEMORY, st)
          else if lib_strlen pcVarName > stNameStrLen then Inl Name_Overflow
          else
            (case value_alloc of
               None \<Rightarrow> Inr (ERROR_SYSTEM_LOW_MEMORY, st)
             | Some p \<Rightarrow>
                 (let st = heap_put p (case pcVarValue of None \<Rightarrow> [] | Some v \<Rightarrow> v) st;
                      st = table_put a (Some \<lparr>SV_pcVarName = pcVarName, SV_pcVarValue = p,
                             SV_ulRefCnt = 0\<rparr>) st;
                      iHashVal = hashHorner pcVarName LW_CFG_SHELL_VAR_HASH_SIZE;
                      st = table_link a iHashVal st;
                      st = TSHELL_RUN_HOOK pcVarName st
                  in Inr (ERROR_NONE, st))))"

definition tshellVarDelete :: "addr \<Rightarrow> var_state \<Rightarrow> var_fault + tshell_error \<times> var_state" where
  "tshellVarDelete a st =
     (let n = node_of st a;
          iHashVal = hashHorner (SV_pcVarName n) LW_CFG_SHELL_VAR_HASH_SIZE;
          st = table_unlink a iHashVal st;
          st = TSHELL_RUN_HOOK (SV_pcVarName n) st in
      bind_res (if SV_ulRefCnt n = 0 then heap_free (SV_pcVarValue n) st else Inr st)
        (\<lambda>st. Inr (ERROR_NONE, table_put a None st)))"

definition tshellVarDeleteByName :: "cstring \<Rightarrow> var_state \<Rightarrow> var_fault + tshell_error \<times> var_state" where
  "tshellVarDeleteByName pcVarName st =
     (case var_search pcVarName st of
        None \<Rightarrow> Inl Search_Diverges
      | Some None \<Rightarrow> Inr (ERROR_TSHELL_EVAR, st)
      | Some (Some a) \<Rightarrow>
          (let n = node_of st a;
               iHashVal = hashHorner pcVarName LW_CFG_SHELL_VAR_HASH_SIZE;
               st = table_unlink a iHashVal st;
               st = TSHELL_RUN_HOOK (SV_pcVarName n) st in
           bind_res (if SV_ulRefCnt n = 0 then heap_free (SV_pcVarValue n) st else Inr st)
             (\<lambda>st. Inr (ERROR_NONE, table_put a None st))))"

definition tshellVarFind :: "cstring \<Rightarrow> var_state \<Rightarrow> var_fault + (tshell_error + addr)" where
  "tshellVarFind pcVarName st =
     (case var_search pcVarName st of
        None \<Rightarrow> Inl Search_Diverges
      | Some None \<Rightarrow> Inr (Inl ERROR_TSHELL_EVAR)
      | Some (Some a) \<Rightarrow> Inr (Inr a))"

definition tshellVarList :: "addr option \<Rightarrow> nat \<Rightarrow> var_state \<Rightarrow> addr list" where
  "tshellVarList start iMaxCounter st = table_list start iMaxCounter st"

definition var_nodes :: "var_state \<Rightarrow> addr list option" where
  "var_nodes st = line_list (tbl_manage st) (tbl_header st)"

definition tshellVarNum :: "var_state \<Rightarrow> nat option" where
  "tshellVarNum st = map_option (\<lambda>as. length as) (var_nodes st)"

definition var_value :: "var_state \<Rightarrow> addr \<Rightarrow> cstring" where
  "var_value st a = the (TS_heap st (SV_pcVarValue (node_of st a)))"

text \<open>\<open>malloc i\<close> is whether the \<open>i\<close>-th call of the caller's allocation function succeeds.\<close>

fun dup_loop :: "(nat \<Rightarrow> bool) \<Rightarrow> nat \<Rightarrow> nat \<Rightarrow> var_state \<Rightarrow> addr list \<Rightarrow> cstring list" where
  "dup_loop malloc i m st [] = []"
| "dup_loop malloc i m st (a # as) =
     (if i < m then
        if \<not> malloc i then []
        else (SV_pcVarName (node_of st a) @ ''='' @ var_value st a) # dup_loop malloc (Suc i) m st as
      else [])"

definition tshellVarDup :: "(nat \<Rightarrow> bool) \<Rightarrow> nat \<Rightarrow> var_state \<Rightarrow> cstring list option" where
  "tshellVarDup malloc ulMax st = map_option (dup_loop malloc 0 ulMax st) (var_nodes st)"

definition never_saved :: "cstring list" where
  "never_saved = [''SYSTEM'', ''VERSION'', ''LICENSE'', ''TMPDIR'', ''KERN_FLOAT'']"

definition save_line :: "var_state \<Rightarrow> addr \<Rightarrow> char list" where
  "save_line st a =
     (let name = SV_pcVarName (node_of st a) in
      if \<exists>x \<in> set never_saved. lib_strcmp name x = 0 then []
      else name @ ''='' @ [CHR 0x22] @ var_value st a @ [CHR 0x22, CHR 0x0A])"

definition tshellVarSave :: "var_state \<Rightarrow> char list option" where
  "tshellVarSave st =
     map_option (\<lambda>as. ''#sylixos environment variables profile.'' @ [CHR 0x0A] @ concat (map (save_line st) as))
       (var_nodes st)"

text \<open>\<open>buf\<close> is the caller's buffer before the call; the result is the value returned and the buffer.\<close>

definition tshellVarGetRt :: "cstring \<Rightarrow> cstring \<Rightarrow> nat \<Rightarrow> var_state \<Rightarrow> var_fault + int \<times> cstring" where
  "tshellVarGetRt pcVarName buf iMaxLen st =
     (case var_search pcVarName st of
        None \<Rightarrow> Inl Search_Diverges
      | Some None \<Rightarrow> Inr (- 1, buf)
      | Some (Some a) \<Rightarrow>
          (let buf = fst (lib_strlcpy buf (var_value st a) iMaxLen)
           in Inr (int (lib_strlen buf), buf)))"

definition tshellVarGet ::
    "cstring \<Rightarrow> bool \<Rightarrow> var_state \<Rightarrow> var_fault + tshell_error \<times> addr option \<times> var_state" where
  "tshellVarGet pcVarName want st =
     (case var_search pcVarName st of
        None \<Rightarrow> Inl Search_Diverges
      | Some None \<Rightarrow> Inr (ERROR_TSHELL_EVAR, None, st)
      | Some (Some a) \<Rightarrow>
          if want then
            (let n = node_of st a;
                 n' = (if SV_ulRefCnt n \<noteq> - 1 then n\<lparr>SV_ulRefCnt := SV_ulRefCnt n + 1\<rparr> else n)
             in Inr (ERROR_NONE, Some (SV_pcVarValue n), table_put a (Some n') st))
          else Inr (ERROR_NONE, None, st))"

definition tshellVarSet ::
    "addr option \<Rightarrow> cstring \<Rightarrow> cstring option \<Rightarrow> bool \<Rightarrow> var_state \<Rightarrow>
     var_fault + tshell_error \<times> var_state" where
  "tshellVarSet value_alloc pcVarName pcVarValue iIsOverwrite st =
     (case var_search pcVarName st of
        None \<Rightarrow> Inl Search_Diverges
      | Some None \<Rightarrow> Inr (ERROR_TSHELL_EVAR, st)
      | Some (Some a) \<Rightarrow>
          if \<not> iIsOverwrite \<and> lib_strlen (var_value st a) > 0
          then Inr (ERROR_TSHELL_CANNT_OVERWRITE, st)
          else
            (case value_alloc of
               None \<Rightarrow> Inr (ERROR_SYSTEM_LOW_MEMORY, st)
             | Some p \<Rightarrow>
                 (case pcVarValue of
                    None \<Rightarrow> Inl Null_String
                  | Some v \<Rightarrow>
                      (let st = heap_put p v st;
                           n = node_of st a in
                       bind_res (if SV_ulRefCnt n = 0 then heap_free (SV_pcVarValue n) st else Inr st)
                         (\<lambda>st. Inr (ERROR_NONE,
                            TSHELL_RUN_HOOK pcVarName
                              (table_put a (Some (n\<lparr>SV_pcVarValue := p\<rparr>)) st)))))))"

section \<open>Entry points\<close>

definition TShellVarGetRt ::
    "cstring option \<Rightarrow> cstring option \<Rightarrow> nat \<Rightarrow> var_state \<Rightarrow> var_fault + int \<times> cstring option" where
  "TShellVarGetRt pcVarName buf iMaxLen st =
     (case (pcVarName, buf) of
        (Some k, Some b) \<Rightarrow>
          if iMaxLen = 0 then Inr (- 1, buf)
          else bind_res (tshellVarGetRt k b iMaxLen st) (\<lambda>(r, b). Inr (r, Some b))
      | _ \<Rightarrow> Inr (- 1, buf))"

definition TShellVarGet :: "cstring option \<Rightarrow> var_state \<Rightarrow> var_fault + addr option \<times> var_state" where
  "TShellVarGet pcVarName st =
     (case pcVarName of
        None \<Rightarrow> Inr (None, st)
      | Some k \<Rightarrow>
          bind_res (tshellVarGet k True st)
            (\<lambda>(e, p, st). if e \<noteq> ERROR_NONE then Inr (None, st) else Inr (p, st)))"

record var_allocs =
  al_set :: "addr option"
  al_node :: "addr option"
  al_name :: bool
  al_value :: "addr option"

definition TShellVarSet ::
    "var_allocs \<Rightarrow> cstring option \<Rightarrow> cstring option \<Rightarrow> bool \<Rightarrow> var_state \<Rightarrow> var_fault + int \<times> var_state" where
  "TShellVarSet al pcVarName pcVarValue iIsOverwrite st =
     (case pcVarName of
        None \<Rightarrow> Inr (- 1, st)
      | Some k \<Rightarrow>
          bind_res (tshellVarSet (al_set al) k pcVarValue iIsOverwrite st)
            (\<lambda>(e, st).
               bind_res
                 (if e = ERROR_TSHELL_EVAR
                  then tshellVarAdd (al_node al) (al_name al) (al_value al) k pcVarValue (lib_strlen k) st
                  else Inr (e, st))
                 (\<lambda>(e, st). if e \<noteq> ERROR_NONE then Inr (- 1, st) else Inr (0, st))))"

definition TShellVarDelete :: "cstring option \<Rightarrow> var_state \<Rightarrow> var_fault + int \<times> var_state" where
  "TShellVarDelete pcVarName st =
     (case pcVarName of
        None \<Rightarrow> Inr (- 1, st)
      | Some k \<Rightarrow>
          bind_res (tshellVarDeleteByName k st)
            (\<lambda>(e, st). if e \<noteq> ERROR_NONE then Inr (- 1, st) else Inr (0, st)))"

definition TShellVarGetNum :: "var_state \<Rightarrow> nat option" where
  "TShellVarGetNum st = tshellVarNum st"

definition TShellVarDup :: "(nat \<Rightarrow> bool) option \<Rightarrow> nat \<Rightarrow> var_state \<Rightarrow> (int \<times> cstring list) option" where
  "TShellVarDup malloc ulMax st =
     (case malloc of
        None \<Rightarrow> Some (- 1, [])
      | Some f \<Rightarrow>
          if ulMax = 0 then Some (- 1, [])
          else map_option (\<lambda>ls. (int (length ls), ls)) (tshellVarDup f ulMax st))"

definition TShellVarSave :: "bool \<Rightarrow> var_state \<Rightarrow> (int \<times> char list) option" where
  "TShellVarSave opened st =
     (if \<not> opened then Some (- 1, []) else map_option (\<lambda>out. (0, out)) (tshellVarSave st))"

section \<open>The table\<close>

abbreviation var_table :: "var_state \<Rightarrow> addr list \<Rightarrow> bool" where
  "var_table \<equiv> table_ok LW_CFG_SHELL_VAR_HASH_SIZE SV_pcVarName"

abbreviation var_entries :: "var_state \<Rightarrow> (cstring \<times> addr) list" where
  "var_entries \<equiv> entries SV_pcVarName"

definition var_tab_ok :: "var_state \<Rightarrow> bool" where
  "var_tab_ok st \<longleftrightarrow> (\<exists>as. var_table st as)"

lemma var_hash_size [simp]: "0 < LW_CFG_SHELL_VAR_HASH_SIZE" "LW_CFG_SHELL_VAR_HASH_SIZE < 2 ^ 32"
  by (simp_all add: LW_CFG_SHELL_VAR_HASH_SIZE_def)

lemma heap_fields [simp]:
  "tbl_nodes (st\<lparr>TS_heap := h\<rparr>) = tbl_nodes st" "tbl_nodes (st\<lparr>TS_hook_log := l\<rparr>) = tbl_nodes st"
  "node_of (st\<lparr>TS_heap := h\<rparr>) = node_of st" "node_of (st\<lparr>TS_hook_log := l\<rparr>) = node_of st"
  "table_ok z k (st\<lparr>TS_heap := h\<rparr>) as = table_ok z k st as"
  "table_ok z k (st\<lparr>TS_hook_log := l\<rparr>) as = table_ok z k st as"
  "entries k (st\<lparr>TS_heap := h\<rparr>) = entries k st" "entries k (st\<lparr>TS_hook_log := l\<rparr>) = entries k st"
  by (simp_all add: node_of_def table_ok_def entries_def fun_eq_iff)

lemma hook_fields [simp]:
  "tbl_nodes (TSHELL_RUN_HOOK x st) = tbl_nodes st" "node_of (TSHELL_RUN_HOOK x st) = node_of st"
  "table_ok z k (TSHELL_RUN_HOOK x st) as = table_ok z k st as"
  "entries k (TSHELL_RUN_HOOK x st) = entries k st" "TS_heap (TSHELL_RUN_HOOK x st) = TS_heap st"
  "TS_hook (TSHELL_RUN_HOOK x st) = TS_hook st"
  by (simp_all add: TSHELL_RUN_HOOK_def split: option.splits)

lemma heap_put_fields [simp]:
  "tbl_nodes (heap_put p v st) = tbl_nodes st" "node_of (heap_put p v st) = node_of st"
  "table_ok z k (heap_put p v st) as = table_ok z k st as"
  "entries k (heap_put p v st) = entries k st" "TS_heap (heap_put p v st) = (TS_heap st)(p \<mapsto> v)"
  "TS_hook (heap_put p v st) = TS_hook st" "TS_hook_log (heap_put p v st) = TS_hook_log st"
  by (simp_all add: heap_put_def)

lemma table_heap [simp]:
  "TS_heap (table_put a n st) = TS_heap st" "TS_heap (table_link a i st) = TS_heap st"
  "TS_heap (table_unlink a i st) = TS_heap st"
  "TS_hook (table_put a n st) = TS_hook st" "TS_hook (table_link a i st) = TS_hook st"
  "TS_hook (table_unlink a i st) = TS_hook st"
  "TS_hook_log (table_put a n st) = TS_hook_log st" "TS_hook_log (table_link a i st) = TS_hook_log st"
  "TS_hook_log (table_unlink a i st) = TS_hook_log st"
  by (simp_all add: table_put_def table_link_def table_unlink_def split: prod.split)

lemma var_search_entries: "var_table st as \<Longrightarrow> var_search k st = Some (map_of (var_entries st) k)"
  unfolding var_search_def by (rule table_search_entries[OF _ var_hash_size]) auto

lemma entries_found:
  assumes "var_table st as" "map_of (var_entries st) k = Some a"
  shows "\<exists>xs ys. as = xs @ a # ys \<and> SV_pcVarName (node_of st a) = k \<and>
    k \<notin> (\<lambda>b. SV_pcVarName (node_of st b)) ` set xs"
proof -
  have "map_of (map (\<lambda>b. (SV_pcVarName (node_of st b), b)) as) k = Some a"
    using assms table_ok_entries by metis
  then show ?thesis
  proof (induction as)
    case (Cons b as)
    show ?case
    proof (cases "SV_pcVarName (node_of st b) = k")
      case True
      with Cons.prems have "b # as = [] @ a # as \<and> SV_pcVarName (node_of st a) = k" by simp
      then show ?thesis by (metis empty_iff image_empty list.set(1))
    next
      case False
      with Cons obtain xs ys where "as = xs @ a # ys" "SV_pcVarName (node_of st a) = k"
        "k \<notin> (\<lambda>b. SV_pcVarName (node_of st b)) ` set xs" by auto
      with False show ?thesis by (intro exI[of _ "b # xs"] exI[of _ ys]) auto
    qed
  qed simp
qed

text \<open>Removing the node that a search has found.\<close>

lemma var_remove:
  assumes tab: "var_table st as" and fnd: "map_of (var_entries st) k = Some a"
  obtains xs ys where "as = xs @ a # ys" "SV_pcVarName (node_of st a) = k"
    "k \<notin> (\<lambda>b. SV_pcVarName (node_of st b)) ` set xs" "a \<notin> set (xs @ ys)"
    "var_table (table_put a None (table_unlink a (hashHorner k LW_CFG_SHELL_VAR_HASH_SIZE) st)) (xs @ ys)"
proof -
  obtain xs ys where as: "as = xs @ a # ys" and k: "SV_pcVarName (node_of st a) = k"
    and nk: "k \<notin> (\<lambda>b. SV_pcVarName (node_of st b)) ` set xs"
    using entries_found[OF assms] by blast
  have d: "a \<notin> set (xs @ ys)" using table_ok_distinct[OF tab] as by simp
  have "var_table (table_unlink a (hashHorner k LW_CFG_SHELL_VAR_HASH_SIZE) st) (xs @ ys)"
    using table_ok_unlink[OF _ var_hash_size, of SV_pcVarName st xs a ys] tab as k by simp
  from table_ok_put(1)[OF this d] as k nk d that show ?thesis by blast
qed

definition var_added :: "cstring \<Rightarrow> addr \<Rightarrow> var_state \<Rightarrow> var_state \<Rightarrow> bool" where
  "var_added k a st st' \<longleftrightarrow> tbl_nodes st a = None \<and>
     (\<exists>p v. tshellVarAdd (Some a) True (Some p) k v (length k) st = Inr (ERROR_NONE, st'))"

definition var_deleted :: "cstring \<Rightarrow> var_state \<Rightarrow> var_state \<Rightarrow> bool" where
  "var_deleted k st st' \<longleftrightarrow> tshellVarDeleteByName k st = Inr (ERROR_NONE, st')"

lemma tshellVarAdd_ok:
  fixes k :: cstring and p :: addr and v :: "cstring option"
  assumes tab: "var_table st as" and a: "tbl_nodes st a = None"
  defines "n \<equiv> \<lparr>SV_pcVarName = k, SV_pcVarValue = p, SV_ulRefCnt = 0\<rparr>"
  defines "st' \<equiv> TSHELL_RUN_HOOK k (table_link a (hashHorner k LW_CFG_SHELL_VAR_HASH_SIZE)
      (table_put a (Some n) (heap_put p (case v of None \<Rightarrow> [] | Some v \<Rightarrow> v) st)))"
  shows "tshellVarAdd (Some a) True (Some p) k v (length k) st = Inr (ERROR_NONE, st')"
    "var_table st' (a # as)" "var_entries st' = (k, a) # var_entries st"
proof -
  show "tshellVarAdd (Some a) True (Some p) k v (length k) st = Inr (ERROR_NONE, st')"
    by (simp add: tshellVarAdd_def Let_def st'_def n_def)
  have na: "a \<notin> set as" using tab a by (auto simp: table_ok_def)
  let ?h = "heap_put p (case v of None \<Rightarrow> [] | Some v \<Rightarrow> v) st"
  have t: "var_table (table_put a (Some n) ?h) as" "var_entries (table_put a (Some n) ?h) = var_entries st"
    using table_ok_put[of _ SV_pcVarName ?h as a "Some n"] tab na by simp_all
  have k: "SV_pcVarName n = k" by (simp add: n_def)
  have "tbl_nodes (table_put a (Some n) ?h) a = Some n" by simp
  from table_ok_link[OF t(1) this na var_hash_size] entries_link[OF t(1) this na var_hash_size] t(2)
  show "var_table st' (a # as)" "var_entries st' = (k, a) # var_entries st"
    by (simp_all add: st'_def k)
qed

lemma deleteByName_cases:
  assumes "var_table st as"
  shows "map_of (var_entries st) k = None \<Longrightarrow> tshellVarDeleteByName k st = Inr (ERROR_TSHELL_EVAR, st)"
    "map_of (var_entries st) k = Some a \<Longrightarrow> tshellVarDeleteByName k st =
       (let n = node_of st a;
            s = TSHELL_RUN_HOOK (SV_pcVarName n)
                  (table_unlink a (hashHorner k LW_CFG_SHELL_VAR_HASH_SIZE) st) in
        bind_res (if SV_ulRefCnt n = 0 then heap_free (SV_pcVarValue n) s else Inr s)
          (\<lambda>s. Inr (ERROR_NONE, table_put a None s)))"
  using var_search_entries[OF assms, of k] by (simp_all add: tshellVarDeleteByName_def Let_def)

lemma var_deleted_cases:
  assumes tab: "var_table st as" and del: "var_deleted k st st'"
  obtains xs a ys h l where "as = xs @ a # ys" "map_of (var_entries st) k = Some a"
    "k \<notin> (\<lambda>b. SV_pcVarName (node_of st b)) ` set xs" "SV_pcVarName (node_of st a) = k"
    "var_table st' (xs @ ys)" "\<And>b. b \<noteq> a \<Longrightarrow> node_of st' b = node_of st b"
proof -
  obtain a where a: "map_of (var_entries st) k = Some a"
    using del deleteByName_cases(1)[OF tab] by (cases "map_of (var_entries st) k") (auto simp: var_deleted_def)
  obtain xs ys where d: "as = xs @ a # ys" "SV_pcVarName (node_of st a) = k"
    "k \<notin> (\<lambda>b. SV_pcVarName (node_of st b)) ` set xs" "a \<notin> set (xs @ ys)"
    "var_table (table_put a None (table_unlink a (hashHorner k LW_CFG_SHELL_VAR_HASH_SIZE) st)) (xs @ ys)"
    using var_remove[OF tab a] by metis
  let ?u = "table_unlink a (hashHorner k LW_CFG_SHELL_VAR_HASH_SIZE) st"
  obtain s where s: "st' = table_put a None s" "s = TSHELL_RUN_HOOK k ?u \<or>
      (\<exists>h. s = (TSHELL_RUN_HOOK k ?u)\<lparr>TS_heap := h\<rparr>)"
    using del deleteByName_cases(2)[OF tab a] d(2)
    by (auto simp: var_deleted_def Let_def heap_free_def bind_res_Inr split: if_splits)
  have tu: "var_table s (xs @ ys)"
    using s(2) table_ok_unlink[OF _ var_hash_size, of SV_pcVarName st xs a ys] tab d(1,2) by auto
  have "var_table st' (xs @ ys)" using table_ok_put(1)[OF tu d(4)] s(1) by simp
  moreover have "node_of st' b = node_of st b" if "b \<noteq> a" for b
    using s that by (auto simp: node_of_def TSHELL_RUN_HOOK_def split: option.splits)
  ultimately show ?thesis using that a d(1-3) by blast
qed

interpretation var: symbol_table_del var_tab_ok var_entries var_search var_added var_deleted
proof unfold_locales
  fix st st' k a
  assume ok: "var_tab_ok st"
  then obtain as where tab: "var_table st as" by (auto simp: var_tab_ok_def)
  then show "var_search k st = Some (map_of (var_entries st) k)" by (rule var_search_entries)
  assume add: "var_added k a st st'"
  then obtain p v where "tbl_nodes st a = None"
    "tshellVarAdd (Some a) True (Some p) k v (length k) st = Inr (ERROR_NONE, st')"
    by (auto simp: var_added_def)
  with tshellVarAdd_ok[OF tab this(1), where p = p and k = k and v = v]
  show "var_tab_ok st'" "var_entries st' = (k, a) # var_entries st" by (auto simp: var_tab_ok_def)
next
  fix st st' k
  assume ok: "var_tab_ok st" and del: "var_deleted k st st'"
  then obtain as where tab: "var_table st as" by (auto simp: var_tab_ok_def)
  obtain xs a ys where d: "as = xs @ a # ys" "k \<notin> (\<lambda>b. SV_pcVarName (node_of st b)) ` set xs"
    "SV_pcVarName (node_of st a) = k" "var_table st' (xs @ ys)" "\<And>b. b \<noteq> a \<Longrightarrow> node_of st' b = node_of st b"
    using var_deleted_cases[OF tab del] by metis
  then show "var_tab_ok st'" by (auto simp: var_tab_ok_def)
  let ?e = "\<lambda>b. (SV_pcVarName (node_of st b), b)"
  have "a \<notin> set (xs @ ys)" using table_ok_distinct[OF tab] d(1) by simp
  then have "\<forall>b \<in> set (xs @ ys). node_of st' b = node_of st b" using d(5) by metis
  then have "var_entries st' = map ?e xs @ map ?e ys"
    using table_ok_entries[OF d(4)] by simp
  moreover have "var_entries st = map ?e xs @ (k, a) # map ?e ys"
    using table_ok_entries[OF tab] d(1,3) by simp
  ultimately show "\<exists>xs v ys. var_entries st = xs @ (k, v) # ys \<and> k \<notin> fst ` set xs \<and> var_entries st' = xs @ ys"
    using d(2) by (intro exI[of _ "map ?e xs"] exI[of _ a] exI[of _ "map ?e ys"]) (auto simp: image_image)
qed

section \<open>The invariant and the environment it represents\<close>

text \<open>
  Every node in the table is live and has a value buffer of its own that is allocated; names are
  unique.  \<open>env st\<close> is the map that the table stands for.
\<close>

abbreviation name_at :: "var_state \<Rightarrow> addr \<Rightarrow> cstring" where
  "name_at st a \<equiv> SV_pcVarName (node_of st a)"

abbreviation buf_at :: "var_state \<Rightarrow> addr \<Rightarrow> addr" where
  "buf_at st a \<equiv> SV_pcVarValue (node_of st a)"

definition var_ok :: "var_state \<Rightarrow> addr list \<Rightarrow> bool" where
  "var_ok st as \<longleftrightarrow> var_table st as \<and> dom (tbl_nodes st) = set as \<and>
     (\<forall>a \<in> set as. TS_heap st (buf_at st a) \<noteq> None) \<and> inj_on (buf_at st) (set as) \<and>
     inj_on (name_at st) (set as)"

definition var_inv :: "var_state \<Rightarrow> bool" where
  "var_inv st \<longleftrightarrow> (\<exists>as. var_ok st as)"

definition env :: "var_state \<Rightarrow> cstring \<Rightarrow> cstring option" where
  "env st k = (case map_of (var_entries st) k of None \<Rightarrow> None | Some a \<Rightarrow> TS_heap st (buf_at st a))"

definition var_init :: var_state where
  "var_init = \<lparr>tbl_nodes = (\<lambda>a. None), tbl_manage = \<lparr>LINE_plistNext = (\<lambda>a. None), LINE_plistPrev = (\<lambda>a. None)\<rparr>,
     tbl_header = None, tbl_hash = \<lparr>LINE_plistNext = (\<lambda>a. None), LINE_plistPrev = (\<lambda>a. None)\<rparr>,
     tbl_heads = (\<lambda>i. None), TS_heap = (\<lambda>a. None), TS_hook = None, TS_hook_log = []\<rparr>"

lemma var_init_ok: "var_ok var_init []"
proof -
  have "var_table var_init []" by (rule table_ok_empty) (auto simp: var_init_def)
  then show ?thesis by (simp add: var_ok_def) (simp add: var_init_def dom_def)
qed

lemma var_init_inv [simp]: "var_inv var_init" "env var_init = Map.empty"
proof -
  show "var_inv var_init" using var_init_ok var_inv_def by blast
  have "var_entries var_init = []" using var_init_ok table_ok_entries by (fastforce simp: var_ok_def)
  then show "env var_init = Map.empty" by (simp add: env_def fun_eq_iff)
qed

lemma var_found:
  assumes "var_ok st as" "a \<in> set as"
  shows "map_of (var_entries st) (name_at st a) = Some a"
proof -
  have "var_entries st = map (\<lambda>b. (name_at st b, b)) as"
    using assms(1) table_ok_entries by (auto simp: var_ok_def)
  moreover have "distinct as" using assms(1) table_ok_distinct by (auto simp: var_ok_def)
  ultimately have "distinct (map fst (var_entries st))" "(name_at st a, a) \<in> set (var_entries st)"
    using assms by (auto simp: var_ok_def distinct_map comp_def)
  then show ?thesis by (rule map_of_is_SomeI)
qed

lemma var_foundD: "var_ok st as \<Longrightarrow> map_of (var_entries st) k = Some a \<Longrightarrow> a \<in> set as \<and> name_at st a = k"
  using entries_found[of st as k a] by (auto simp: var_ok_def)

lemma env_Some:
  assumes "var_ok st as"
  shows "env st k = Some w \<longleftrightarrow> (\<exists>a \<in> set as. name_at st a = k \<and> TS_heap st (buf_at st a) = Some w)"
proof (cases "map_of (var_entries st) k")
  case None
  then have "a \<in> set as \<Longrightarrow> name_at st a \<noteq> k" for a using var_found[OF assms, of a] by auto
  with None show ?thesis by (auto simp: env_def)
next
  case (Some a)
  then have a: "a \<in> set as" "name_at st a = k" using var_foundD[OF assms] by auto
  have uniq: "b = a" if "b \<in> set as" "name_at st b = k" for b
    using var_found[OF assms that(1)] that(2) Some by simp
  have "env st k = TS_heap st (buf_at st a)" using Some by (simp add: env_def)
  with a uniq show ?thesis by metis
qed

lemma var_okD:
  assumes "var_ok st as"
  shows "var_table st as" "a \<in> set as \<Longrightarrow> tbl_nodes st a = Some (node_of st a)"
    "a \<in> set as \<Longrightarrow> TS_heap st (buf_at st a) \<noteq> None" "tbl_nodes st a = None \<Longrightarrow> a \<notin> set as"
    "tbl_nodes st a = Some n \<Longrightarrow> a \<in> set as"
proof -
  have tab: "var_table st as" and dm: "dom (tbl_nodes st) = set as"
    and hp: "\<forall>a \<in> set as. TS_heap st (buf_at st a) \<noteq> None"
    using assms by (auto simp: var_ok_def)
  show "var_table st as" by (fact tab)
  show "a \<in> set as \<Longrightarrow> tbl_nodes st a = Some (node_of st a)" by (rule table_ok_node[OF tab])
  show "a \<in> set as \<Longrightarrow> TS_heap st (buf_at st a) \<noteq> None" using hp by blast
  show "tbl_nodes st a = None \<Longrightarrow> a \<notin> set as" "tbl_nodes st a = Some n \<Longrightarrow> a \<in> set as"
    using dm by blast+
qed

lemma env_None:
  assumes "var_ok st as"
  shows "env st k = None \<longleftrightarrow> map_of (var_entries st) k = None"
proof (cases "map_of (var_entries st) k")
  case (Some a)
  then have "TS_heap st (buf_at st a) \<noteq> None"
    using var_foundD[OF assms] var_okD(3)[OF assms] by blast
  with Some show ?thesis by (simp add: env_def)
qed (simp add: env_def)

text \<open>Creating a variable.\<close>

lemma VarAdd_ok:
  assumes ok: "var_ok st as" and new: "env st k = None"
    and a: "tbl_nodes st a = None" and p: "TS_heap st p = None"
  obtains st' where "tshellVarAdd (Some a) True (Some p) k v (length k) st = Inr (ERROR_NONE, st')"
    "var_ok st' (a # as)" "env st' = (env st)(k \<mapsto> case v of None \<Rightarrow> [] | Some v \<Rightarrow> v)"
    "TS_heap st' = (TS_heap st)(p \<mapsto> case v of None \<Rightarrow> [] | Some v \<Rightarrow> v)"
    "tbl_nodes st' = (tbl_nodes st)(a \<mapsto> \<lparr>SV_pcVarName = k, SV_pcVarValue = p, SV_ulRefCnt = 0\<rparr>)"
proof -
  let ?n = "\<lparr>SV_pcVarName = k, SV_pcVarValue = p, SV_ulRefCnt = 0\<rparr>"
  let ?v = "case v of None \<Rightarrow> [] | Some v \<Rightarrow> v"
  let ?s = "TSHELL_RUN_HOOK k (table_link a (hashHorner k LW_CFG_SHELL_VAR_HASH_SIZE)
      (table_put a (Some ?n) (heap_put p ?v st)))"
  have add: "tshellVarAdd (Some a) True (Some p) k v (length k) st = Inr (ERROR_NONE, ?s)"
    and tab: "var_table ?s (a # as)"
    using tshellVarAdd_ok[OF var_okD(1)[OF ok] a, where p = p and k = k and v = v] by simp_all
  have na: "a \<notin> set as" using var_okD(4)[OF ok a] .
  have nodes: "tbl_nodes ?s = (tbl_nodes st)(a \<mapsto> ?n)" and heap: "TS_heap ?s = (TS_heap st)(p \<mapsto> ?v)"
    by simp_all
  have na': "node_of ?s a = ?n" using nodes by (simp add: node_of_def)
  have nb: "node_of ?s b = node_of st b" if "b \<in> set as" for b
    using nodes that na by (auto simp: node_of_def)
  have bp: "buf_at st b \<noteq> p" if "b \<in> set as" for b using var_okD(3)[OF ok that] p by metis
  have bk: "name_at st b \<noteq> k" if "b \<in> set as" for b
    using var_found[OF ok that] new env_None[OF ok] by auto
  have ok': "var_ok ?s (a # as)"
  proof -
    have "dom (tbl_nodes ?s) = set (a # as)" using ok nodes by (auto simp: var_ok_def)
    moreover have "\<forall>b \<in> set (a # as). TS_heap ?s (buf_at ?s b) \<noteq> None"
      using heap na' nb var_okD(3)[OF ok] by auto
    moreover have "inj_on (buf_at ?s) (set (a # as))"
      using ok na' nb bp na by (auto simp: var_ok_def inj_on_def)
    moreover have "inj_on (name_at ?s) (set (a # as))"
      using ok na' nb bk na by (auto simp: var_ok_def inj_on_def)
    ultimately show ?thesis using tab by (simp only: var_ok_def)
  qed
  have "env ?s j = Some w \<longleftrightarrow> ((env st)(k \<mapsto> ?v)) j = Some w" for j w
  proof -
    have "(\<exists>b \<in> set as. name_at ?s b = j \<and> TS_heap ?s (buf_at ?s b) = Some w) \<longleftrightarrow> env st j = Some w"
      using nb bp heap by (auto simp: env_Some[OF ok])
    moreover have "\<not> (\<exists>b \<in> set as. name_at ?s b = k \<and> TS_heap ?s (buf_at ?s b) = Some w)"
      using nb bk by auto
    moreover have "name_at ?s a = k" "TS_heap ?s (buf_at ?s a) = Some ?v" using na' heap by simp_all
    ultimately show ?thesis by (auto simp: env_Some[OF ok'])
  qed
  then have "env ?s = (env st)(k \<mapsto> ?v)" by (rule map_ext_Some)
  with add ok' nodes heap that show ?thesis by blast
qed

lemma hook_inv [simp]: "var_ok (TSHELL_RUN_HOOK x st) as = var_ok st as" "env (TSHELL_RUN_HOOK x st) = env st"
  by (simp_all add: var_ok_def env_def fun_eq_iff cong: option.case_cong)

text \<open>Replacing the node of a variable, with or without a new value buffer.\<close>

lemma var_ok_update:
  assumes ok: "var_ok st as" and a: "a \<in> set as" and nm: "SV_pcVarName n = name_at st a"
    and live: "H (SV_pcVarValue n) \<noteq> None"
    and keep: "\<And>b. b \<in> set as \<Longrightarrow> b \<noteq> a \<Longrightarrow> H (buf_at st b) = TS_heap st (buf_at st b) \<and> SV_pcVarValue n \<noteq> buf_at st b"
  defines "st' \<equiv> table_put a (Some n) (st\<lparr>TS_heap := H\<rparr>)"
  shows "var_ok st' as" "env st' = (env st)(name_at st a := H (SV_pcVarValue n))"
proof -
  have na: "node_of st' a = n" and nb: "\<And>b. b \<noteq> a \<Longrightarrow> node_of st' b = node_of st b"
    by (simp_all add: st'_def node_of_def)
  have heap: "TS_heap st' = H" by (simp add: st'_def)
  show ok': "var_ok st' as"
  proof -
    have "var_table (st\<lparr>TS_heap := H\<rparr>) as" using var_okD(1)[OF ok] by simp
    from table_ok_update(1)[OF this a] nm have "var_table st' as" by (simp add: st'_def)
    moreover have "dom (tbl_nodes st') = set as" using ok a by (auto simp: st'_def var_ok_def)
    moreover have "\<forall>b \<in> set as. TS_heap st' (buf_at st' b) \<noteq> None"
      using na nb live keep var_okD(3)[OF ok] heap by metis
    moreover have "inj_on (buf_at st') (set as)"
      unfolding inj_on_def using ok na nb keep a unfolding var_ok_def inj_on_def by metis
    moreover have "inj_on (name_at st') (set as)"
      unfolding inj_on_def using ok na nb nm a unfolding var_ok_def inj_on_def by metis
    ultimately show ?thesis by (simp only: var_ok_def)
  qed
  have uniq: "b = a" if "b \<in> set as" "name_at st b = name_at st a" for b
    using ok that a unfolding var_ok_def inj_on_def by blast
  show "env st' = (env st)(name_at st a := H (SV_pcVarValue n))"
  proof (rule map_ext_Some)
    fix j w
    have "(\<exists>b \<in> set as. name_at st' b = j \<and> TS_heap st' (buf_at st' b) = Some w) \<longleftrightarrow>
      (if j = name_at st a then H (SV_pcVarValue n) = Some w
       else \<exists>b \<in> set as. name_at st b = j \<and> TS_heap st (buf_at st b) = Some w)"
      using na nb nm a uniq keep heap by metis
    then show "env st' j = Some w \<longleftrightarrow> ((env st)(name_at st a := H (SV_pcVarValue n))) j = Some w"
      by (simp add: env_Some[OF ok'] env_Some[OF ok])
  qed
qed

text \<open>Setting a variable that exists.\<close>

definition heap_after_set :: "var_state \<Rightarrow> addr \<Rightarrow> addr \<Rightarrow> cstring \<Rightarrow> addr \<Rightarrow> cstring option" where
  "heap_after_set st a p v =
     (if SV_ulRefCnt (node_of st a) = 0 then ((TS_heap st)(p \<mapsto> v))(buf_at st a := None)
      else (TS_heap st)(p \<mapsto> v))"

lemma VarSet_ok:
  assumes ok: "var_ok st as" and fnd: "map_of (var_entries st) k = Some a"
    and p: "TS_heap st p = None" and ow: "ow \<or> env st k = Some []"
  obtains st' where "tshellVarSet (Some p) k (Some v) ow st = Inr (ERROR_NONE, st')"
    "var_ok st' as" "env st' = (env st)(k \<mapsto> v)" "TS_heap st' = heap_after_set st a p v"
    "tbl_nodes st' = (tbl_nodes st)(a \<mapsto> (node_of st a)\<lparr>SV_pcVarValue := p\<rparr>)"
proof -
  have a: "a \<in> set as" "name_at st a = k" using var_foundD[OF ok fnd] by auto
  obtain u where old: "TS_heap st (buf_at st a) = Some u" using var_okD(3)[OF ok a(1)] by blast
  then have ne: "buf_at st a \<noteq> p" using p by auto
  have ev: "env st k = TS_heap st (buf_at st a)" using fnd by (simp add: env_def)
  let ?n = "(node_of st a)\<lparr>SV_pcVarValue := p\<rparr>"
  let ?H = "heap_after_set st a p v"
  let ?s = "TSHELL_RUN_HOOK k (table_put a (Some ?n) (st\<lparr>TS_heap := ?H\<rparr>))"
  have "\<not> (\<not> ow \<and> lib_strlen (var_value st a) > 0)" using ow ev by (auto simp: var_value_def)
  then have "tshellVarSet (Some p) k (Some v) ow st = Inr (ERROR_NONE, ?s)"
    using var_search_entries[OF var_okD(1)[OF ok], of k] fnd old ne
    by (simp add: tshellVarSet_def Let_def heap_free_def heap_put_def heap_after_set_def)
  moreover have "var_ok ?s as \<and> env ?s = (env st)(k \<mapsto> v)"
  proof -
    have live: "?H (SV_pcVarValue ?n) = Some v" using ne by (simp add: heap_after_set_def)
    have keep: "?H (buf_at st b) = TS_heap st (buf_at st b) \<and> SV_pcVarValue ?n \<noteq> buf_at st b"
      if b: "b \<in> set as" "b \<noteq> a" for b
    proof -
      have "buf_at st b \<noteq> p" using var_okD(3)[OF ok b(1)] p by metis
      moreover have "buf_at st b \<noteq> buf_at st a"
        using ok a(1) b unfolding var_ok_def inj_on_def by blast
      ultimately show ?thesis by (simp add: heap_after_set_def)
    qed
    show ?thesis using var_ok_update[OF ok a(1) _ _ keep] live a(2) by simp
  qed
  ultimately show ?thesis using that by simp
qed

text \<open>Deleting a variable.\<close>

lemma VarDelete_ok:
  assumes ok: "var_ok st as" and fnd: "map_of (var_entries st) k = Some a"
  obtains st' xs ys where "tshellVarDeleteByName k st = Inr (ERROR_NONE, st')" "as = xs @ a # ys"
    "var_ok st' (xs @ ys)" "env st' = (env st)(k := None)"
    "TS_heap st' = (if SV_ulRefCnt (node_of st a) = 0 then (TS_heap st)(buf_at st a := None) else TS_heap st)"
    "tbl_nodes st' = (tbl_nodes st)(a := None)"
proof -
  have a: "a \<in> set as" "name_at st a = k" using var_foundD[OF ok fnd] by auto
  obtain u where old: "TS_heap st (buf_at st a) = Some u" using var_okD(3)[OF ok a(1)] by blast
  let ?H = "if SV_ulRefCnt (node_of st a) = 0 then (TS_heap st)(buf_at st a := None) else TS_heap st"
  let ?u = "TSHELL_RUN_HOOK k (table_unlink a (hashHorner k LW_CFG_SHELL_VAR_HASH_SIZE) st)"
  have u: "TS_heap ?u = TS_heap st" by simp
  define s where "s = table_put a None (?u\<lparr>TS_heap := ?H\<rparr>)"
  have heap: "TS_heap s = ?H" and nodes: "tbl_nodes s = (tbl_nodes st)(a := None)"
    by (simp_all add: s_def)
  have "?u\<lparr>TS_heap := TS_heap st\<rparr> = ?u" using u by (metis (no_types, lifting) var_state.surjective var_state.update_convs(1) var_state.select_convs(1))
  then have call: "tshellVarDeleteByName k st = Inr (ERROR_NONE, s)"
    using deleteByName_cases(2)[OF var_okD(1)[OF ok] fnd] a(2) old
    by (simp add: Let_def heap_free_def s_def)
  then have "var_deleted k st s" by (simp add: var_deleted_def)
  from var_deleted_cases[OF var_okD(1)[OF ok] this] fnd obtain xs ys where
    d: "as = xs @ a # ys" "var_table s (xs @ ys)" by (metis option.inject)
  have fresh: "a \<notin> set (xs @ ys)" using table_ok_distinct[OF var_okD(1)[OF ok]] d(1) by simp
  have nb: "node_of s b = node_of st b" if "b \<in> set (xs @ ys)" for b
    using that fresh nodes by (auto simp: node_of_def)
  have sub: "set (xs @ ys) \<subseteq> set as" using d(1) by auto
  have keep: "TS_heap s (buf_at st b) = TS_heap st (buf_at st b)" if "b \<in> set (xs @ ys)" for b
  proof -
    have "b \<in> set as" "b \<noteq> a" using sub that fresh by auto
    then have "buf_at st b \<noteq> buf_at st a"
      using ok a(1) unfolding var_ok_def inj_on_def by blast
    then show ?thesis using heap by simp
  qed
  have ok': "var_ok s (xs @ ys)"
  proof -
    have "dom (tbl_nodes s) = set (xs @ ys)" using ok d(1) fresh nodes by (auto simp: var_ok_def)
    moreover have "\<forall>b \<in> set (xs @ ys). TS_heap s (buf_at s b) \<noteq> None"
    proof
      fix b assume b: "b \<in> set (xs @ ys)"
      have "TS_heap s (buf_at s b) = TS_heap st (buf_at st b)" using nb[OF b] keep[OF b] by simp
      then show "TS_heap s (buf_at s b) \<noteq> None" using var_okD(3)[OF ok] sub b by auto
    qed
    moreover have "inj_on (buf_at s) (set (xs @ ys))"
    proof -
      have "inj_on (buf_at st) (set (xs @ ys))" using ok sub inj_on_subset unfolding var_ok_def by blast
      then show ?thesis using inj_on_cong[of "set (xs @ ys)" "buf_at s" "buf_at st"] nb by simp
    qed
    moreover have "inj_on (name_at s) (set (xs @ ys))"
    proof -
      have "inj_on (name_at st) (set (xs @ ys))" using ok sub inj_on_subset unfolding var_ok_def by blast
      then show ?thesis using inj_on_cong[of "set (xs @ ys)" "name_at s" "name_at st"] nb by simp
    qed
    ultimately show ?thesis using d(2) by (simp only: var_ok_def)
  qed
  have "env s = (env st)(k := None)"
  proof (rule map_ext_Some)
    fix j w
    have uniq: "b = a" if "b \<in> set as" "name_at st b = k" for b
      using var_found[OF ok that(1)] that(2) fnd by simp
    have "(\<exists>b \<in> set (xs @ ys). name_at s b = j \<and> TS_heap s (buf_at s b) = Some w) \<longleftrightarrow>
      (\<exists>b \<in> set (xs @ ys). name_at st b = j \<and> TS_heap st (buf_at st b) = Some w)"
      using nb keep by (intro bex_cong refl) metis
    also have "\<dots> \<longleftrightarrow> j \<noteq> k \<and> (\<exists>b \<in> set as. name_at st b = j \<and> TS_heap st (buf_at st b) = Some w)"
    proof (cases "j = k")
      case True
      have "name_at st b \<noteq> k" if "b \<in> set (xs @ ys)" for b
        using uniq[of b] that sub fresh by auto
      with True show ?thesis by auto
    next
      case False
      then have "name_at st a \<noteq> j" using a(2) by simp
      with False show ?thesis unfolding d(1) by auto
    qed
    finally have "(\<exists>b \<in> set (xs @ ys). name_at s b = j \<and> TS_heap s (buf_at s b) = Some w) \<longleftrightarrow>
      j \<noteq> k \<and> (\<exists>b \<in> set as. name_at st b = j \<and> TS_heap st (buf_at st b) = Some w)" .
    then show "env s j = Some w \<longleftrightarrow> ((env st)(k := None)) j = Some w"
      using env_Some[OF ok', of j w] env_Some[OF ok, of j w] by simp
  qed
  from that[OF call d(1) ok' this heap nodes] show ?thesis .
qed

text \<open>Handing out the value of a variable.\<close>

lemma VarGet_ok:
  assumes ok: "var_ok st as" and fnd: "map_of (var_entries st) k = Some a"
  obtains st' n where "tshellVarGet k True st = Inr (ERROR_NONE, Some (buf_at st a), st')"
    "var_ok st' as" "env st' = env st" "TS_heap st' = TS_heap st"
    "tbl_nodes st' = (tbl_nodes st)(a \<mapsto> n)" "SV_pcVarValue n = buf_at st a" "SV_ulRefCnt n \<noteq> 0"
    "SV_pcVarName n = k"
proof -
  have a: "a \<in> set as" "name_at st a = k" using var_foundD[OF ok fnd] by auto
  let ?n = "node_of st a"
  define n where "n = (if SV_ulRefCnt ?n \<noteq> - 1 then ?n\<lparr>SV_ulRefCnt := SV_ulRefCnt ?n + 1\<rparr> else ?n)"
  have n: "SV_pcVarName n = k" "SV_pcVarValue n = buf_at st a" "SV_ulRefCnt n \<noteq> 0"
    using a(2) by (auto simp: n_def add_eq_0_iff2)
  have call: "tshellVarGet k True st = Inr (ERROR_NONE, Some (buf_at st a), table_put a (Some n) st)"
    using var_search_entries[OF var_okD(1)[OF ok], of k] fnd by (simp add: tshellVarGet_def n_def Let_def)
  have keep: "TS_heap st (buf_at st b) = TS_heap st (buf_at st b) \<and> SV_pcVarValue n \<noteq> buf_at st b"
    if "b \<in> set as" "b \<noteq> a" for b
    using ok a(1) that unfolding var_ok_def inj_on_def n(2) by blast
  have nm: "SV_pcVarName n = name_at st a" and live: "TS_heap st (SV_pcVarValue n) \<noteq> None"
    using n a var_okD(3)[OF ok a(1)] by simp_all
  have "var_ok (table_put a (Some n) st) as" "env (table_put a (Some n) st) = env st"
    using var_ok_update[OF ok a(1) nm live keep] fnd n(2) a(2) by (simp_all add: env_def fun_eq_iff)
  from that[OF call this _ _ n(2,3,1)] show ?thesis by simp
qed

section \<open>Runs of the entry points\<close>

text \<open>
  A call, with the memory it is given: the addresses of the new blocks must be free, and each
  allocation may also fail.
\<close>

datatype var_op = Op_Set cstring cstring bool var_allocs | Op_Delete cstring | Op_Get cstring

fun var_exec :: "var_op \<Rightarrow> var_state \<Rightarrow> var_fault + int \<times> var_state" where
  "var_exec (Op_Set k v ow al) st = TShellVarSet al (Some k) (Some v) ow st"
| "var_exec (Op_Delete k) st = TShellVarDelete (Some k) st"
| "var_exec (Op_Get k) st = bind_res (TShellVarGet (Some k) st) (\<lambda>(p, st). Inr (0, st))"

fun op_fresh :: "var_state \<Rightarrow> var_op \<Rightarrow> bool" where
  "op_fresh st (Op_Set k v ow al) \<longleftrightarrow>
     (case al_set al of None \<Rightarrow> True | Some p \<Rightarrow> TS_heap st p = None) \<and>
     (case al_value al of None \<Rightarrow> True | Some p \<Rightarrow> TS_heap st p = None) \<and>
     (case al_node al of None \<Rightarrow> True | Some a \<Rightarrow> tbl_nodes st a = None)"
| "op_fresh st (Op_Delete k) \<longleftrightarrow> True"
| "op_fresh st (Op_Get k) \<longleftrightarrow> True"

fun env_exec :: "var_op \<Rightarrow> (cstring \<Rightarrow> cstring option) \<Rightarrow> int \<times> (cstring \<Rightarrow> cstring option)" where
  "env_exec (Op_Set k v ow al) e =
     (case e k of
        None \<Rightarrow> if al_node al = None \<or> \<not> al_name al \<or> al_value al = None then (- 1, e) else (0, e(k \<mapsto> v))
      | Some u \<Rightarrow> if \<not> ow \<and> u \<noteq> [] \<or> al_set al = None then (- 1, e) else (0, e(k \<mapsto> v)))"
| "env_exec (Op_Delete k) e = (case e k of None \<Rightarrow> (- 1, e) | Some u \<Rightarrow> (0, e(k := None)))"
| "env_exec (Op_Get k) e = (0, e)"

text \<open>A buffer whose pointer was handed out: allocated, and no node that counts no reference owns it.\<close>

definition pinned :: "addr \<Rightarrow> cstring \<Rightarrow> var_state \<Rightarrow> bool" where
  "pinned p v st \<longleftrightarrow> TS_heap st p = Some v \<and>
     (\<forall>a n. tbl_nodes st a = Some n \<longrightarrow> SV_pcVarValue n = p \<longrightarrow> SV_ulRefCnt n \<noteq> 0)"

lemma pinnedD: "pinned p v st \<Longrightarrow> tbl_nodes st a = Some n \<Longrightarrow> SV_pcVarValue n = p \<Longrightarrow> SV_ulRefCnt n \<noteq> 0"
  unfolding pinned_def by blast

lemma pinned_step:
  assumes "pinned p v st" "TS_heap st' p = Some v"
    and "\<And>b n. tbl_nodes st' b = Some n \<Longrightarrow> SV_pcVarValue n = p \<Longrightarrow> tbl_nodes st b = Some n \<or> SV_ulRefCnt n \<noteq> 0"
  shows "pinned p v st'"
  using assms unfolding pinned_def by blast

lemma exec_Set_ok:
  assumes ok: "var_ok st as" and fresh: "op_fresh st (Op_Set k v ow al)"
  shows "\<exists>st'. var_exec (Op_Set k v ow al) st = Inr (fst (env_exec (Op_Set k v ow al) (env st)), st') \<and>
    var_inv st' \<and> env st' = snd (env_exec (Op_Set k v ow al) (env st)) \<and>
    (\<forall>p w. pinned p w st \<longrightarrow> pinned p w st')"
proof (cases "map_of (var_entries st) k")
  case None
  then have none: "env st k = None" using env_None[OF ok] by simp
  have set: "tshellVarSet (al_set al) k (Some v) ow st = Inr (ERROR_TSHELL_EVAR, st)"
    using var_search_entries[OF var_okD(1)[OF ok], of k] None by (simp add: tshellVarSet_def)
  show ?thesis
  proof (cases "al_node al = None \<or> \<not> al_name al \<or> al_value al = None")
    case True
    then have "var_exec (Op_Set k v ow al) st = Inr (- 1, st)"
      using set by (auto simp: TShellVarSet_def tshellVarAdd_def split: option.splits)
    with True none ok show ?thesis by (auto simp: var_inv_def)
  next
    case False
    then obtain a p where al: "al_node al = Some a" "al_name al" "al_value al = Some p" by auto
    with fresh have fr: "tbl_nodes st a = None" "TS_heap st p = None" by auto
    obtain st' where st': "tshellVarAdd (Some a) True (Some p) k (Some v) (length k) st = Inr (ERROR_NONE, st')"
      "var_ok st' (a # as)" "env st' = (env st)(k \<mapsto> v)" "TS_heap st' = (TS_heap st)(p \<mapsto> v)"
      "tbl_nodes st' = (tbl_nodes st)(a \<mapsto> \<lparr>SV_pcVarName = k, SV_pcVarValue = p, SV_ulRefCnt = 0\<rparr>)"
      using VarAdd_ok[OF ok none fr, of "Some v"] by (metis option.simps(5))
    have "pinned q w st'" if q: "pinned q w st" for q w
    proof (rule pinned_step[OF q])
      have "q \<noteq> p" using q fr(2) by (auto simp: pinned_def)
      then show "TS_heap st' q = Some w" using q st'(4) by (simp add: pinned_def)
      fix b n assume "tbl_nodes st' b = Some n" "SV_pcVarValue n = q"
      with \<open>q \<noteq> p\<close> show "tbl_nodes st b = Some n \<or> SV_ulRefCnt n \<noteq> 0"
        using st'(5) by (auto split: if_splits)
    qed
    with st' set al none show ?thesis by (auto simp: TShellVarSet_def var_inv_def)
  qed
next
  case (Some a)
  have a: "a \<in> set as" using var_foundD[OF ok Some] by simp
  then obtain u where u: "env st k = Some u" "TS_heap st (buf_at st a) = Some u"
    using Some var_okD(3)[OF ok a] by (auto simp: env_def)
  show ?thesis
  proof (cases "\<not> ow \<and> u \<noteq> [] \<or> al_set al = None")
    case True
    then have "tshellVarSet (al_set al) k (Some v) ow st = Inr (ERROR_TSHELL_CANNT_OVERWRITE, st) \<or>
        tshellVarSet (al_set al) k (Some v) ow st = Inr (ERROR_SYSTEM_LOW_MEMORY, st)"
      using var_search_entries[OF var_okD(1)[OF ok], of k] Some u
      by (auto simp: tshellVarSet_def var_value_def)
    then have "var_exec (Op_Set k v ow al) st = Inr (- 1, st)" by (auto simp: TShellVarSet_def)
    with True u ok show ?thesis by (auto simp: var_inv_def)
  next
    case False
    then obtain p where p: "al_set al = Some p" "TS_heap st p = None" "ow \<or> env st k = Some []"
      using fresh u by auto
    obtain st' where st': "tshellVarSet (Some p) k (Some v) ow st = Inr (ERROR_NONE, st')"
      "var_ok st' as" "env st' = (env st)(k \<mapsto> v)" "TS_heap st' = heap_after_set st a p v"
      "tbl_nodes st' = (tbl_nodes st)(a \<mapsto> (node_of st a)\<lparr>SV_pcVarValue := p\<rparr>)"
      using VarSet_ok[OF ok Some p(2,3)] by metis
    have "pinned q w st'" if q: "pinned q w st" for q w
    proof (rule pinned_step[OF q])
      have qp: "q \<noteq> p" using q p(2) by (auto simp: pinned_def)
      have "SV_ulRefCnt (node_of st a) = 0 \<Longrightarrow> q \<noteq> buf_at st a"
        using pinnedD[OF q var_okD(2)[OF ok a]] by blast
      with qp show "TS_heap st' q = Some w" using q st'(4) by (auto simp: pinned_def heap_after_set_def)
      fix b n assume "tbl_nodes st' b = Some n" "SV_pcVarValue n = q"
      with qp show "tbl_nodes st b = Some n \<or> SV_ulRefCnt n \<noteq> 0"
        using st'(5) by (auto split: if_splits)
    qed
    with st' p u False show ?thesis by (auto simp: TShellVarSet_def var_inv_def)
  qed
qed

lemma exec_Delete_ok:
  assumes ok: "var_ok st as"
  shows "\<exists>st'. var_exec (Op_Delete k) st = Inr (fst (env_exec (Op_Delete k) (env st)), st') \<and>
    var_inv st' \<and> env st' = snd (env_exec (Op_Delete k) (env st)) \<and> (\<forall>p w. pinned p w st \<longrightarrow> pinned p w st')"
proof (cases "map_of (var_entries st) k")
  case None
  with deleteByName_cases(1)[OF var_okD(1)[OF ok], of k] env_None[OF ok, of k] ok
  show ?thesis by (auto simp: TShellVarDelete_def var_inv_def)
next
  case (Some a)
  have a: "a \<in> set as" using var_foundD[OF ok Some] by simp
  have e: "env st k \<noteq> None" using Some env_None[OF ok] by simp
  obtain st' xs ys where st': "tshellVarDeleteByName k st = Inr (ERROR_NONE, st')"
    "var_ok st' (xs @ ys)" "env st' = (env st)(k := None)"
    "TS_heap st' = (if SV_ulRefCnt (node_of st a) = 0 then (TS_heap st)(buf_at st a := None) else TS_heap st)"
    "tbl_nodes st' = (tbl_nodes st)(a := None)"
    using VarDelete_ok[OF ok Some] by metis
  have "pinned q w st'" if q: "pinned q w st" for q w
  proof (rule pinned_step[OF q])
    have "SV_ulRefCnt (node_of st a) = 0 \<Longrightarrow> q \<noteq> buf_at st a"
      using pinnedD[OF q var_okD(2)[OF ok a]] by blast
    then show "TS_heap st' q = Some w" using q st'(4) by (auto simp: pinned_def)
  qed (use st'(5) in \<open>auto split: if_splits\<close>)
  with st' e show ?thesis by (auto simp: TShellVarDelete_def var_inv_def)
qed

lemma exec_Get_ok:
  assumes ok: "var_ok st as"
  shows "\<exists>st'. TShellVarGet (Some k) st = Inr (map_option (buf_at st) (map_of (var_entries st) k), st') \<and>
    var_inv st' \<and> env st' = env st \<and> (\<forall>p w. pinned p w st \<longrightarrow> pinned p w st') \<and>
    (\<forall>a v. map_of (var_entries st) k = Some a \<longrightarrow> env st k = Some v \<longrightarrow> pinned (buf_at st a) v st')"
proof (cases "map_of (var_entries st) k")
  case None
  with var_search_entries[OF var_okD(1)[OF ok], of k] ok
  show ?thesis by (auto simp: TShellVarGet_def tshellVarGet_def var_inv_def)
next
  case (Some a)
  have a: "a \<in> set as" "name_at st a = k" using var_foundD[OF ok Some] by auto
  obtain st' n where st': "tshellVarGet k True st = Inr (ERROR_NONE, Some (buf_at st a), st')"
    "var_ok st' as" "env st' = env st" "TS_heap st' = TS_heap st"
    "tbl_nodes st' = (tbl_nodes st)(a \<mapsto> n)" "SV_pcVarValue n = buf_at st a" "SV_ulRefCnt n \<noteq> 0"
    using VarGet_ok[OF ok Some] by metis
  have keep: "pinned q w st'" if q: "pinned q w st" for q w
    by (rule pinned_step[OF q]) (use q st'(4,5,7) in \<open>auto simp: pinned_def split: if_splits\<close>)
  have "pinned (buf_at st a) v st'" if v: "env st k = Some v" for v
  proof -
    have "TS_heap st' (buf_at st a) = Some v" using v Some st'(4) by (simp add: env_def)
    moreover have "SV_ulRefCnt m \<noteq> 0" if m: "tbl_nodes st' b = Some m" "SV_pcVarValue m = buf_at st a" for b m
    proof (cases "b = a")
      case True
      with m st'(5,7) show ?thesis by simp
    next
      case False
      with m st'(5) have "tbl_nodes st b = Some m" by simp
      then have "b \<in> set as" "buf_at st b = buf_at st a"
        using var_okD(5)[OF ok] m(2) by (auto simp: node_of_def)
      then show ?thesis using ok a(1) False unfolding var_ok_def inj_on_def by blast
    qed
    ultimately show ?thesis unfolding pinned_def by blast
  qed
  with keep st' Some show ?thesis by (auto simp: TShellVarGet_def var_inv_def)
qed

lemma exec_ok:
  assumes "var_inv st" and "op_fresh st opn"
  shows "\<exists>st'. var_exec opn st = Inr (fst (env_exec opn (env st)), st') \<and> var_inv st' \<and>
    env st' = snd (env_exec opn (env st)) \<and> (\<forall>p w. pinned p w st \<longrightarrow> pinned p w st')"
proof -
  obtain as where ok: "var_ok st as" using assms(1) var_inv_def by blast
  show ?thesis
  proof (cases opn)
    case (Op_Set k v ow al)
    with exec_Set_ok[OF ok] assms(2) show ?thesis by blast
  next
    case (Op_Delete k)
    with exec_Delete_ok[OF ok] show ?thesis by blast
  next
    case (Op_Get k)
    then show ?thesis using exec_Get_ok[OF ok, of k] by auto
  qed
qed

inductive var_reach :: "var_state \<Rightarrow> var_state \<Rightarrow> bool" where
  start: "var_reach st st"
| call: "var_reach st t \<Longrightarrow> op_fresh t opn \<Longrightarrow> var_exec opn t = Inr (r, u) \<Longrightarrow> var_reach st u"

lemma var_reach_inv: "var_reach st t \<Longrightarrow> var_inv st \<Longrightarrow> var_inv t \<and> (\<forall>p w. pinned p w st \<longrightarrow> pinned p w t)"
proof (induction rule: var_reach.induct)
  case (call st t opn r u)
  then have "var_inv t" by simp
  from exec_ok[OF this call.hyps(2)] call show ?case by auto
qed simp

section \<open>Properties\<close>


definition demo_allocs :: "addr \<Rightarrow> addr \<Rightarrow> var_allocs" where
  "demo_allocs a p = \<lparr>al_set = Some p, al_node = Some a, al_name = True, al_value = Some p\<rparr>"


text \<open>
  The pointer that \<open>API_TShellVarGet\<close> returns stays valid.  When it has been handed out, the
  buffer keeps its contents, the value at the time of the call, whatever sets, deletions and
  gets, of this or of other variables, follow; and in every state so reached each further call
  returns without a fault.
\<close>

theorem variable_pointer_stable:
  assumes "var_inv st" and "env st k = Some v"
  shows "\<exists>p st1. TShellVarGet (Some k) st = Inr (Some p, st1) \<and>
    (\<forall>st2. var_reach st1 st2 \<longrightarrow> TS_heap st2 p = Some v \<and>
       (\<forall>opn. op_fresh st2 opn \<longrightarrow> (\<exists>r st3. var_exec opn st2 = Inr (r, st3))))"
proof -
  obtain as where ok: "var_ok st as" using assms(1) var_inv_def by blast
  obtain a where a: "map_of (var_entries st) k = Some a"
    using env_None[OF ok, of k] assms(2) by (cases "map_of (var_entries st) k") auto
  from exec_Get_ok[OF ok, of k] a assms(2) obtain st1 where st1:
    "TShellVarGet (Some k) st = Inr (Some (buf_at st a), st1)" "var_inv st1" "pinned (buf_at st a) v st1"
    by auto
  have "TS_heap st2 (buf_at st a) = Some v" "op_fresh st2 opn \<Longrightarrow> \<exists>r st3. var_exec opn st2 = Inr (r, st3)"
    if "var_reach st1 st2" for st2 opn
    using var_reach_inv[OF that st1(2)] st1(3) exec_ok[of st2 opn] by (auto simp: pinned_def)
  with st1(1) show ?thesis by blast
qed

definition demo_env :: var_state where
  "demo_env = snd (projr (var_exec (Op_Set ''HOME'' ''/root'' True (demo_allocs 1 2)) var_init))"

lemma demo_env: "var_inv demo_env \<and> env demo_env = [''HOME'' \<mapsto> ''/root'']"
proof -
  have "op_fresh var_init (Op_Set ''HOME'' ''/root'' True (demo_allocs 1 2))"
    by (simp add: demo_allocs_def) (simp add: var_init_def)
  from exec_ok[OF var_init_inv(1) this] show ?thesis by (auto simp: demo_env_def demo_allocs_def)
qed

lemma variable_pointer_stable_witness:
  "\<exists>p st1. TShellVarGet (Some ''HOME'') demo_env = Inr (Some p, st1) \<and>
    (\<forall>st2. var_reach st1 st2 \<longrightarrow> TS_heap st2 p = Some ''/root'')"
  using variable_pointer_stable[of demo_env "''HOME''" "''/root''"] demo_env by auto

lemma tshellVarGetRt_env:
  assumes "var_inv st" and "0 < m"
  shows "tshellVarGetRt k b m st =
    Inr (case env st k of None \<Rightarrow> (- 1, b)
         | Some v \<Rightarrow> (int (min (m - 1) (length v)), take (m - 1) v))"
proof -
  obtain as where ok: "var_ok st as" using assms(1) var_inv_def by blast
  show ?thesis
  proof (cases "map_of (var_entries st) k")
    case None
    with var_search_entries[OF var_okD(1)[OF ok], of k] env_None[OF ok, of k]
    show ?thesis by (simp add: tshellVarGetRt_def)
  next
    case (Some a)
    then obtain v where v: "env st k = Some v" "TS_heap st (buf_at st a) = Some v"
      using var_foundD[OF ok Some] var_okD(3)[OF ok] by (auto simp: env_def)
    with Some var_search_entries[OF var_okD(1)[OF ok], of k] assms(2)
    show ?thesis
      by (simp add: tshellVarGetRt_def var_value_def lib_strlcpy_eq Let_def min.commute)
  qed
qed

text \<open>
  \<open>API_TShellVarGetRt\<close> copies the value the map has, cut to the caller's buffer of
  \<open>iMaxLen\<close> bytes, and returns the length of what it wrote; for an unknown name it returns
  \<open>PX_ERROR\<close> and leaves the buffer alone.
\<close>

theorem VarGetRt_reads_map:
  assumes "var_inv st" and "0 < iMaxLen"
  shows "TShellVarGetRt (Some k) (Some b) iMaxLen st =
    Inr (case env st k of None \<Rightarrow> (- 1, Some b)
         | Some v \<Rightarrow> (int (min (iMaxLen - 1) (length v)), Some (take (iMaxLen - 1) v)))"
  using tshellVarGetRt_env[OF assms, of k b] assms(2)
  by (simp add: TShellVarGetRt_def split: option.splits)

lemma VarGetRt_reads_map_witness:
  "TShellVarGetRt (Some ''HOME'') (Some ''old'') 4 demo_env = Inr (3, Some ''/ro'')"
  using VarGetRt_reads_map[of demo_env 4 "''HOME''" "''old''"] demo_env by simp

text \<open>
  The table allows one name twice when \<open>__tshellVarAdd\<close> is called directly; then the newer
  node shadows the older, and \<open>__tshellVarDeleteByName\<close> brings the older back, for every name.
\<close>

theorem variable_shadowing:
  assumes "var_tab_ok st" and "var_added k a st st1" and "var_added k b st1 st2" and "var_deleted k st2 st3"
  shows "var_search k st2 = Some (Some b) \<and> var_search k st3 = Some (Some a) \<and>
    (\<forall>j. j \<noteq> k \<longrightarrow> var_search j st3 = var_search j st)"
proof -
  have ok: "var_tab_ok st1" using var.add_ok_law[OF assms(1,2)] .
  have "var_search j st3 = var_search j st1" for j
    using var.find_del_add[OF ok assms(3,4)] .
  then show ?thesis
    using var.find_new[OF ok assms(3)] var.find_new[OF assms(1,2)] var.find_other[OF assms(1,2)] by simp
qed

lemma variable_shadowing_witness:
  "\<exists>s1 s2 s3. var_added ''A'' 1 var_init s1 \<and> var_added ''A'' 2 s1 s2 \<and> var_deleted ''A'' s2 s3 \<and>
     var_search ''A'' s2 = Some (Some 2) \<and> var_search ''A'' s3 = Some (Some 1)"
proof -
  have t0: "var_table var_init []" "tbl_nodes var_init 1 = None"
    using var_okD(1)[OF var_init_ok] by (simp_all add: var_init_def)
  obtain s1 where s1: "tshellVarAdd (Some 1) True (Some 11) ''A'' None (length ''A'') var_init = Inr (ERROR_NONE, s1)"
    "var_table s1 [1]" "tbl_nodes s1 2 = None"
    using tshellVarAdd_ok(1,2)[OF t0, where p = 11 and k = "''A''" and v = None]
    by (force simp: var_init_def)
  obtain s2 where s2: "tshellVarAdd (Some 2) True (Some 12) ''A'' None (length ''A'') s1 = Inr (ERROR_NONE, s2)"
    "var_table s2 [2, 1]" "var_entries s2 = (''A'', 2) # var_entries s1" "TS_heap s2 12 = Some []"
    "tbl_nodes s2 2 = Some \<lparr>SV_pcVarName = ''A'', SV_pcVarValue = 12, SV_ulRefCnt = 0\<rparr>"
    using tshellVarAdd_ok[OF s1(2,3), where p = 12 and k = "''A''" and v = None] by force
  obtain s3 where "tshellVarDeleteByName ''A'' s2 = Inr (ERROR_NONE, s3)"
    using deleteByName_cases(2)[OF s2(2), of "''A''" 2] s2(3-5)
    by (auto simp: Let_def node_of_def heap_free_def)
  moreover have "var_tab_ok var_init" using t0(1) by (auto simp: var_tab_ok_def)
  moreover have "var_added ''A'' 1 var_init s1" "var_added ''A'' 2 s1 s2"
    using s1 s2 t0(2) unfolding var_added_def by blast+
  ultimately show ?thesis using variable_shadowing[of var_init "''A''" 1 s1 2 s2 s3]
    by (auto simp: var_deleted_def)
qed

lemma dup_loop_all:
  "dup_loop (\<lambda>i. True) i m st bs =
     map (\<lambda>(k, v). k @ ''='' @ v) (take (m - i) (map (\<lambda>a. (name_at st a, var_value st a)) bs))"
proof (induction bs arbitrary: i)
  case (Cons b bs)
  show ?case
  proof (cases "i < m")
    case True
    then have "m - i = Suc (m - Suc i)" by simp
    with Cons True show ?thesis by simp
  qed simp
qed simp

lemma save_lines:
  "concat (map (save_line st) bs) =
     concat (map (\<lambda>(k, v). k @ ''='' @ [CHR 0x22] @ v @ [CHR 0x22, CHR 0x0A])
       (filter (\<lambda>(k, v). k \<notin> set never_saved) (map (\<lambda>a. (name_at st a, var_value st a)) bs)))"
  by (induction bs) (auto simp: save_line_def Let_def)

text \<open>
  The snapshot functions see the whole table.  There is a list of the variables, newest first,
  that represents the map with each name once; \<open>API_TShellVarGetNum\<close> is its length,
  \<open>API_TShellVarDup\<close> gives \<open>name=value\<close> for its first \<open>ulMax\<close> entries (when the caller's
  allocator does not fail), and the file that \<open>API_TShellVarSave\<close> writes has the header and one line
  \<open>name="value"\<close> for each variable that is not one of the five of the system.
\<close>

theorem variable_snapshot:
  assumes "var_inv st" and "0 < ulMax"
  shows "\<exists>es. distinct (map fst es) \<and> map_of es = env st \<and> TShellVarGetNum st = Some (length es) \<and>
    TShellVarDup (Some (\<lambda>i. True)) ulMax st =
      Some (int (min ulMax (length es)), map (\<lambda>(k, v). k @ ''='' @ v) (take ulMax es)) \<and>
    TShellVarSave True st = Some (0, ''#sylixos environment variables profile.'' @ [CHR 0x0A] @
      concat (map (\<lambda>(k, v). k @ ''='' @ [CHR 0x22] @ v @ [CHR 0x22, CHR 0x0A])
        (filter (\<lambda>(k, v). k \<notin> set never_saved) es)))"
proof -
  obtain as where ok: "var_ok st as" using assms(1) var_inv_def by blast
  let ?es = "map (\<lambda>a. (name_at st a, var_value st a)) as"
  have nodes: "var_nodes st = Some as"
    using var_okD(1)[OF ok] line_list_eq unfolding var_nodes_def table_ok_def by blast
  have dis: "distinct (map fst ?es)"
    using ok table_ok_distinct[OF var_okD(1)[OF ok]] by (auto simp: var_ok_def distinct_map comp_def)
  have val: "TS_heap st (buf_at st a) = Some (var_value st a)" if "a \<in> set as" for a
    using var_okD(3)[OF ok that] by (auto simp: var_value_def)
  have "map_of ?es = env st"
  proof (rule map_ext_Some)
    fix k v
    have "map_of ?es k = Some v \<longleftrightarrow> (k, v) \<in> set ?es" by (rule map_of_eq_Some_iff[OF dis])
    also have "\<dots> \<longleftrightarrow> (\<exists>a \<in> set as. name_at st a = k \<and> var_value st a = v)" by auto
    also have "\<dots> \<longleftrightarrow> env st k = Some v" using val by (simp add: env_Some[OF ok] cong: bex_cong conj_cong)
    finally show "map_of ?es k = Some v \<longleftrightarrow> env st k = Some v" .
  qed
  moreover have "TShellVarGetNum st = Some (length ?es)"
    by (simp add: TShellVarGetNum_def tshellVarNum_def nodes)
  moreover have "TShellVarDup (Some (\<lambda>i. True)) ulMax st =
      Some (int (min ulMax (length ?es)), map (\<lambda>(k, v). k @ ''='' @ v) (take ulMax ?es))"
    using assms(2) by (simp add: TShellVarDup_def tshellVarDup_def nodes dup_loop_all min.commute)
  moreover have "TShellVarSave True st = Some (0, ''#sylixos environment variables profile.'' @ [CHR 0x0A] @
      concat (map (\<lambda>(k, v). k @ ''='' @ [CHR 0x22] @ v @ [CHR 0x22, CHR 0x0A])
        (filter (\<lambda>(k, v). k \<notin> set never_saved) ?es)))"
    by (simp only: TShellVarSave_def tshellVarSave_def nodes save_lines) simp
  ultimately show ?thesis using dis by blast
qed

lemma variable_snapshot_witness: "\<exists>es. map_of es = [''HOME'' \<mapsto> ''/root''] \<and> TShellVarGetNum demo_env = Some (length es)"
  using variable_snapshot[of demo_env 3] demo_env by auto

end
