(* ===== verification/ShellString.thy ===== *)
theory ShellString
  imports ShellVar
begin

text \<open>
  The text processing of a command line, \<open>ttinyShell/ttinyString.c\<close>: expansion of \<open>$name\<close> and
  \<open>${name}\<close>, removal of the line end, collapsing of blanks, splitting off the keyword and the
  parameters, removal of quotes and escapes.

  The loops share the bookkeeping of two flags, \<open>iTransCharMarks\<close> (an odd number of backslashes
  precedes) and \<open>iQuotationMarks\<close> (inside quotes): \<open>trans_now\<close> and \<open>quote_now\<close> are the flags after
  the tests at the head of an iteration, \<open>trans_next\<close> is the flag after its end.
\<close>

definition trans_now :: "c_char \<Rightarrow> bool \<Rightarrow> bool" where
  "trans_now c t = (if c = BSLASH then \<not> t else t)"

definition trans_next :: "c_char \<Rightarrow> bool \<Rightarrow> bool" where
  "trans_next c t = (if c = BSLASH then t else False)"

definition quote_now :: "c_char \<Rightarrow> bool \<Rightarrow> bool \<Rightarrow> bool" where
  "quote_now c t q = (if c = QUOTE \<and> \<not> t then \<not> q else q)"

section \<open>Expansion of variables\<close>

fun tshellStrSkipLeftBigBracket :: "cstring \<Rightarrow> cstring" where
  "tshellStrSkipLeftBigBracket [] = []"
| "tshellStrSkipLeftBigBracket (c # s) = (if c = LBRACE then tshellStrSkipLeftBigBracket s else c # s)"

fun tshellStrSkipRightBigBracket :: "cstring \<Rightarrow> cstring" where
  "tshellStrSkipRightBigBracket [] = []"
| "tshellStrSkipRightBigBracket (c # s) = (if c = RBRACE then tshellStrSkipRightBigBracket s else c # s)"

definition TTNIYSHELL_SEPARATOR :: cstring where
  "TTNIYSHELL_SEPARATOR =
     ''+-*/%!&|~^()<>=,;: '' @ [QUOTE, BSLASH, RBRACE, CR, LF, TAB]"

definition tshellIsSeparator :: "c_char \<Rightarrow> bool" where
  "tshellIsSeparator c \<longleftrightarrow> lib_index TTNIYSHELL_SEPARATOR c \<noteq> None"

lemma is_cstr_SEPARATOR: "is_cstr TTNIYSHELL_SEPARATOR"
  by (simp add: TTNIYSHELL_SEPARATOR_def EOS_eq)

lemma tshellIsSeparator_iff: "c \<noteq> EOS \<Longrightarrow> tshellIsSeparator c \<longleftrightarrow> c \<in> set TTNIYSHELL_SEPARATOR"
  by (simp add: tshellIsSeparator_def lib_index_None)

text \<open>The text of \<open>sprintf("%d", n)\<close>.\<close>

fun nat_digits :: "nat \<Rightarrow> cstring" where
  "nat_digits n =
     (if n < 10 then [char_of (48 + n)] else nat_digits (n div 10) @ [char_of (48 + n mod 10)])"

declare nat_digits.simps [simp del]

definition int_digits :: "int \<Rightarrow> cstring" where
  "int_digits n = (if n < 0 then ''-'' @ nat_digits (nat (- n)) else nat_digits (nat n))"

text \<open>
  The value that replaces a name: the last return code for \<open>?\<close>, otherwise the variable in quotes.
  \<open>Inr None\<close> is \<open>iVarValueLen <= 0\<close>.
\<close>

definition var_replacement :: "int \<Rightarrow> var_state \<Rightarrow> cstring \<Rightarrow> var_fault + cstring option" where
  "var_replacement last_error st name =
     (if lib_strcmp name ''?'' = 0 then Inr (Some (int_digits last_error))
      else bind_res (tshellVarGetRt name [] (NAME_MAX + 1) st)
        (\<lambda>(len, v). if len \<le> 0 then Inr None else Inr (Some (QUOTE # v @ [QUOTE]))))"

text \<open>
  The end of a name at the current character: what the code does twice, in the loop and after it.
  \<open>out\<close> is the text written so far, of length \<open>iTotalLen\<close>.
\<close>

definition finish_name ::
    "int \<Rightarrow> var_state \<Rightarrow> cstring \<Rightarrow> cstring \<Rightarrow> var_fault + (tshell_error + cstring)" where
  "finish_name last_error st name out =
     (if length name < 1 then Inr (Inl ERROR_TSHELL_EVAR)
      else bind_res (var_replacement last_error st name)
        (\<lambda>r. case r of
           None \<Rightarrow> Inr (Inl ERROR_TSHELL_EVAR)
         | Some v \<Rightarrow>
             if length v + length out \<ge> LW_CFG_SHELL_MAX_COMMANDLEN
             then Inr (Inl ERROR_TSHELL_EPARAM)
             else Inr (Inr (out @ v))))"

lemma skip_left_le: "length (tshellStrSkipLeftBigBracket s) \<le> length s"
  by (induction s) auto

lemma skip_right_le: "length (tshellStrSkipRightBigBracket s) \<le> length s"
  by (induction s) auto

text \<open>
  The loop: the rest of the command, whether a name is being read and its characters, the two
  flags, and the output.  After the end of a name the same character is looked at again, as the
  code steps its pointer back.
\<close>

function convert_loop ::
    "int \<Rightarrow> var_state \<Rightarrow> cstring \<Rightarrow> bool \<Rightarrow> cstring \<Rightarrow> bool \<Rightarrow> bool \<Rightarrow> cstring \<Rightarrow>
     var_fault + tshell_error \<times> cstring" where
  "convert_loop le st [] var name t q out =
     (if var then
        bind_res (finish_name le st name out)
          (\<lambda>r. case r of Inl e \<Rightarrow> Inr (e, out) | Inr out \<Rightarrow> Inr (ERROR_NONE, out))
      else Inr (ERROR_NONE, out))"
| "convert_loop le st (c # s) var name t q out =
     (let q = quote_now c t q; t = trans_now c t; t' = trans_next c t in
      if c \<noteq> DOLLAR then
        if var then
          if \<not> tshellIsSeparator c then
            if length name + 1 \<ge> LW_CFG_SHELL_MAX_VARNAMELEN then Inr (ERROR_TSHELL_EVAR, out)
            else convert_loop le st s True (name @ [c]) t' q out
          else
            bind_res (finish_name le st name out)
              (\<lambda>r. case r of
                 Inl e \<Rightarrow> Inr (e, out)
               | Inr out \<Rightarrow>
                   convert_loop le st (if c = RBRACE then tshellStrSkipRightBigBracket (c # s) else c # s)
                     False name t' q out)
        else if length out < LW_CFG_SHELL_MAX_COMMANDLEN
        then convert_loop le st s False name t' q (out @ [c])
        else Inr (ERROR_TSHELL_EPARAM, out)
      else if \<not> q then
        convert_loop le st (if lib_index s LBRACE = Some 0 then tshellStrSkipLeftBigBracket s else s)
          True [] t' q out
      else if length out < LW_CFG_SHELL_MAX_COMMANDLEN
      then convert_loop le st s var name t' q (out @ [c])
      else Inr (ERROR_TSHELL_EPARAM, out))"
  by pat_completeness auto

termination
  by (relation "measures [\<lambda>(le, st, s, var, name, t, q, out). length s,
      \<lambda>(le, st, s, var, name, t, q, out). if var then 1 else 0]")
    (auto simp: skip_left_le skip_right_le less_Suc_eq_le le_SucI le_neq_implies_less
      intro: le_imp_less_Suc[OF skip_left_le])

definition tshellStrConvertVar :: "int \<Rightarrow> var_state \<Rightarrow> cstring \<Rightarrow> var_fault + tshell_error \<times> cstring" where
  "tshellStrConvertVar last_error st pcCmd = convert_loop last_error st pcCmd False [] False False []"

section \<open>The other passes\<close>

text \<open>
  \<open>__tshellStrDelCRLF\<close> walks back from the end; \<open>None\<close> is a read before the first character, which
  the code does not exclude.
\<close>

fun del_crlf_back :: "cstring \<Rightarrow> cstring option" where
  "del_crlf_back [] = None"
| "del_crlf_back (c # r) = (if c = CR \<or> c = LF \<or> c = BLANK then del_crlf_back r else Some (rev (c # r)))"

definition tshellStrDelCRLF :: "cstring \<Rightarrow> cstring option" where
  "tshellStrDelCRLF pcCmd = del_crlf_back (rev pcCmd)"

fun format_loop :: "bool \<Rightarrow> bool \<Rightarrow> bool \<Rightarrow> cstring \<Rightarrow> cstring" where
  "format_loop t q space [] = []"
| "format_loop t q space (c # s) =
     (let quote = (c = QUOTE \<and> \<not> t); q = quote_now c t q; t' = trans_next c (trans_now c t) in
      if quote then c # format_loop t' q False s
      else if c \<noteq> BLANK \<or> q then c # format_loop t' q False s
      else if \<not> space then c # format_loop t' q True s
      else format_loop t' q True s)"

definition tshellStrFormat :: "cstring \<Rightarrow> cstring" where
  "tshellStrFormat pcCmd = format_loop False False False pcCmd"

fun keyword_loop :: "nat \<Rightarrow> cstring \<Rightarrow> (tshell_error + cstring \<times> cstring)" where
  "keyword_loop n [] = Inr ([], [])"
| "keyword_loop n (c # s) =
     (if c \<noteq> BLANK then
        if n + 1 \<ge> LW_CFG_SHELL_MAX_KEYWORDLEN then Inl ERROR_TSHELL_EKEYWORD
        else (case keyword_loop (n + 1) s of Inl e \<Rightarrow> Inl e | Inr (k, r) \<Rightarrow> Inr (c # k, r))
      else Inr ([], c # s))"

definition tshellStrKeyword :: "cstring \<Rightarrow> tshell_error + cstring \<times> cstring option" where
  "tshellStrKeyword pcCmd =
     (case keyword_loop 0 pcCmd of
        Inl e \<Rightarrow> Inl e
      | Inr (k, []) \<Rightarrow> Inr (k, None)
      | Inr (k, c # r) \<Rightarrow> Inr (k, Some r))"

fun token_loop :: "bool \<Rightarrow> bool \<Rightarrow> cstring \<Rightarrow> cstring \<times> cstring" where
  "token_loop t q [] = ([], [])"
| "token_loop t q (c # s) =
     (let q = quote_now c t q; t' = trans_next c (trans_now c t) in
      if c = BLANK \<and> \<not> q then ([], c # s)
      else (let (tok, r) = token_loop t' q s in (c # tok, r)))"

definition tshellStrGetToken :: "cstring option \<Rightarrow> tshell_error + cstring \<times> cstring option" where
  "tshellStrGetToken pcCmd =
     (case pcCmd of
        None \<Rightarrow> Inl ERROR_TSHELL_EPARAM
      | Some s \<Rightarrow>
          (case token_loop False False s of
             (tok, []) \<Rightarrow> Inr (tok, None)
           | (tok, c # r) \<Rightarrow> Inr (tok, Some r)))"

fun del_trans_loop :: "bool \<Rightarrow> cstring \<Rightarrow> cstring" where
  "del_trans_loop t [] = []"
| "del_trans_loop t (c # s) =
     (if c = BSLASH then
        if t then c # del_trans_loop False s else del_trans_loop True s
      else
        (if c = QUOTE \<and> \<not> t then []
         else if c = CHR ''r'' \<and> t then [CR]
         else if c = CHR ''n'' \<and> t then [LF]
         else [c]) @ del_trans_loop False s)"

definition tshellStrDelTransChar :: "cstring \<Rightarrow> cstring" where
  "tshellStrDelTransChar pcCmd = del_trans_loop False pcCmd"

section \<open>Lemmas\<close>

lemma tshellStrDelCRLF_None:
  "tshellStrDelCRLF s = None \<longleftrightarrow> set s \<subseteq> {CR, LF, BLANK}"
proof -
  have "del_crlf_back r = None \<longleftrightarrow> set r \<subseteq> {CR, LF, BLANK}" for r
    by (induction r rule: del_crlf_back.induct) auto
  then show ?thesis by (simp add: tshellStrDelCRLF_def)
qed

lemma del_crlf_back_append:
  "set bl \<subseteq> {CR, LF, BLANK} \<Longrightarrow> del_crlf_back (bl @ r) = del_crlf_back r"
  by (induction bl) auto

lemma tshellStrDelCRLF_split:
  "set bl \<subseteq> {CR, LF, BLANK} \<Longrightarrow> c \<notin> {CR, LF, BLANK} \<Longrightarrow> tshellStrDelCRLF (s @ c # bl) = Some (s @ [c])"
  using del_crlf_back_append[of "rev bl" "c # rev s"] by (simp add: tshellStrDelCRLF_def)

lemma token_loop_split: "token_loop t q s = (tok, r) \<Longrightarrow> s = tok @ r \<and> (r = [] \<or> hd r = BLANK)"
  by (induction t q s arbitrary: tok r rule: token_loop.induct)
    (auto simp: Let_def split: if_splits prod.splits)

text \<open>The token that a call cuts off and the rest give the line back.\<close>

lemma tshellStrGetToken_split:
  "tshellStrGetToken (Some s) = Inr (tok, next) \<Longrightarrow>
     s = tok @ (case next of None \<Rightarrow> [] | Some r \<Rightarrow> BLANK # r)"
  using token_loop_split[of False False s]
  by (auto simp: tshellStrGetToken_def split: prod.splits list.splits)

lemma GetToken_shorter: "tshellStrGetToken (Some s) = Inr (tok, Some r) \<Longrightarrow> length r < length s"
  using tshellStrGetToken_split[of s tok "Some r"] by simp

lemma del_trans_length: "length (del_trans_loop t s) \<le> length s"
  by (induction t s rule: del_trans_loop.induct) auto

text \<open>
  How a parameter is written so that the shell reads it back: in quotes, with a backslash before each
  backslash and quote.
\<close>

definition escape_char :: "c_char \<Rightarrow> cstring" where
  "escape_char c = (if c = BSLASH \<or> c = QUOTE then [BSLASH, c] else [c])"

definition quote_arg :: "cstring \<Rightarrow> cstring" where
  "quote_arg s = QUOTE # concat (map escape_char s) @ [QUOTE]"

lemma token_loop_escaped:
  "token_loop False True (concat (map escape_char s) @ r) =
     (let (tok, r') = token_loop False True r in (concat (map escape_char s) @ tok, r'))"
  by (induction s)
    (auto simp: escape_char_def Let_def quote_now_def trans_now_def trans_next_def split: prod.splits)

lemma token_loop_quote_arg:
  "r = [] \<or> hd r = BLANK \<Longrightarrow> token_loop False False (quote_arg s @ r) = (quote_arg s, r)"
  by (cases r)
    (auto simp: quote_arg_def token_loop_escaped Let_def quote_now_def trans_now_def trans_next_def)

lemma del_trans_escaped:
  "del_trans_loop False (concat (map escape_char s) @ r) = s @ del_trans_loop False r"
  by (induction s) (auto simp: escape_char_def)

lemma del_trans_quote_arg: "tshellStrDelTransChar (quote_arg s) = s"
  by (simp add: tshellStrDelTransChar_def quote_arg_def del_trans_escaped)

text \<open>A word without quotes, backslashes and blanks needs no quoting.\<close>

definition plain_word :: "cstring \<Rightarrow> bool" where
  "plain_word s \<longleftrightarrow> set s \<inter> {QUOTE, BSLASH, BLANK} = {}"

lemma token_loop_plain:
  "plain_word s \<Longrightarrow> r = [] \<or> hd r = BLANK \<Longrightarrow> token_loop False False (s @ r) = (s, r)"
proof (induction s)
  case Nil
  then show ?case by (cases r) (auto simp: quote_now_def)
next
  case (Cons c s)
  then show ?case
    by (auto simp: plain_word_def quote_now_def trans_now_def trans_next_def Let_def)
qed

lemma del_trans_plain: "plain_word s \<Longrightarrow> tshellStrDelTransChar s = s"
proof -
  have "set s \<inter> {QUOTE, BSLASH, BLANK} = {} \<Longrightarrow> del_trans_loop False s = s"
    by (induction s) auto
  then show "plain_word s \<Longrightarrow> tshellStrDelTransChar s = s"
    by (simp add: plain_word_def tshellStrDelTransChar_def)
qed

lemma format_loop_Cons:
  "format_loop t q space (c # s) =
     (if c = BLANK \<and> \<not> q then
        if space then format_loop False q True s else BLANK # format_loop False q True s
      else c # format_loop (trans_next c (trans_now c t)) (quote_now c t q) False s)"
  by (simp add: Let_def quote_now_def trans_now_def trans_next_def)

lemma format_loop_idem:
  "(t \<longrightarrow> \<not> space) \<Longrightarrow> format_loop t q space (format_loop t q space s) = format_loop t q space s"
proof (induction s arbitrary: t q space)
  case (Cons c s)
  show ?case
  proof (cases "c = BLANK \<and> \<not> q")
    case True
    with Cons.IH[of False True q] Cons.prems show ?thesis
      by (cases space) (simp_all add: format_loop_Cons del: format_loop.simps(2))
  next
    case False
    then have step: "format_loop t q space (c # x) =
        c # format_loop (trans_next c (trans_now c t)) (quote_now c t q) False x" for x
      by (auto simp: format_loop_Cons simp del: format_loop.simps(2))
    show ?thesis unfolding step using Cons.IH[where space = False] by simp
  qed
qed simp

lemma format_length: "length (format_loop t q space s) \<le> length s"
proof (induction s arbitrary: t q space)
  case (Cons c s)
  then show ?case by (auto simp: format_loop_Cons le_SucI simp del: format_loop.simps(2))
qed simp

section \<open>Expansion: lemmas\<close>

definition name_ok :: "cstring \<Rightarrow> bool" where
  "name_ok n \<longleftrightarrow> n \<noteq> [] \<and> length n < LW_CFG_SHELL_MAX_VARNAMELEN \<and> hd n \<noteq> LBRACE \<and> n \<noteq> ''?'' \<and>
     (\<forall>c \<in> set n. \<not> tshellIsSeparator c \<and> c \<noteq> DOLLAR)"

lemma separator_QUOTE_BSLASH: "tshellIsSeparator QUOTE" "tshellIsSeparator BSLASH" "tshellIsSeparator RBRACE"
  by (simp_all add: tshellIsSeparator_iff EOS_eq TTNIYSHELL_SEPARATOR_def)

lemma name_flags:
  assumes "\<not> tshellIsSeparator c"
  shows "quote_now c t q = q" "trans_next c (trans_now c t) = False"
  using assms separator_QUOTE_BSLASH by (auto simp: quote_now_def trans_next_def)

text \<open>Reading a name.\<close>

lemma convert_name:
  "\<forall>c \<in> set n. \<not> tshellIsSeparator c \<and> c \<noteq> DOLLAR \<Longrightarrow> n \<noteq> [] \<Longrightarrow>
     length acc + length n < LW_CFG_SHELL_MAX_VARNAMELEN \<Longrightarrow>
     convert_loop le st (n @ s) True acc t q out = convert_loop le st s True (acc @ n) False q out"
proof (induction n arbitrary: acc t)
  case (Cons c n)
  then show ?case by (cases "n = []") (simp_all add: name_flags)
qed simp

lemma SkipLeft_name: "n \<noteq> [] \<Longrightarrow> hd n \<noteq> LBRACE \<Longrightarrow> tshellStrSkipLeftBigBracket (n @ s) = n @ s"
  by (cases n) auto

lemma convert_dollar:
  assumes "name_ok n"
  shows "convert_loop le st (DOLLAR # n @ s) var nm t False out = convert_loop le st s True n False False out"
    "convert_loop le st (DOLLAR # LBRACE # n @ s) var nm t False out = convert_loop le st s True n False False out"
proof -
  have n: "n \<noteq> []" "hd n \<noteq> LBRACE" "\<forall>c \<in> set n. \<not> tshellIsSeparator c \<and> c \<noteq> DOLLAR"
    "length ([]::cstring) + length n < LW_CFG_SHELL_MAX_VARNAMELEN" using assms by (auto simp: name_ok_def)
  have "lib_index (n @ s) LBRACE \<noteq> Some 0" using n(1,2) by (cases n) auto
  then show "convert_loop le st (DOLLAR # n @ s) var nm t False out = convert_loop le st s True n False False out"
    using convert_name[OF n(3,1,4), of le st s False False out]
    by (simp add: quote_now_def trans_next_def)
  show "convert_loop le st (DOLLAR # LBRACE # n @ s) var nm t False out = convert_loop le st s True n False False out"
    using convert_name[OF n(3,1,4), of le st s False False out] n(1,2)
    by (simp add: quote_now_def trans_next_def SkipLeft_name)
qed

lemma finish_name_value:
  assumes "var_inv st" "name_ok n" "env st n = Some v" "v \<noteq> []" "length v \<le> NAME_MAX"
    "length v + 2 + length out < LW_CFG_SHELL_MAX_COMMANDLEN"
  shows "finish_name le st n out = Inr (Inr (out @ QUOTE # v @ [QUOTE]))"
  using assms tshellVarGetRt_env[OF assms(1), of "NAME_MAX + 1" n "[]"]
  by (cases n) (auto simp: finish_name_def var_replacement_def name_ok_def)

text \<open>Text without special characters.\<close>

definition lit_ok :: "cstring \<Rightarrow> bool" where
  "lit_ok s \<longleftrightarrow> set s \<inter> {DOLLAR, QUOTE, BSLASH, RBRACE} = {}"

lemma convert_lit:
  "lit_ok l \<Longrightarrow> length out + length l \<le> LW_CFG_SHELL_MAX_COMMANDLEN \<Longrightarrow>
     convert_loop le st (l @ s) False nm False False out = convert_loop le st s False nm False False (out @ l)"
proof (induction l arbitrary: out)
  case (Cons c l)
  then have "c \<noteq> DOLLAR" "c \<noteq> QUOTE" "c \<noteq> BSLASH" "lit_ok l" by (auto simp: lit_ok_def)
  with Cons show ?case by (simp add: quote_now_def trans_now_def trans_next_def)
qed simp

text \<open>A command line as a sequence of texts and references \<open>${name}\<close>.\<close>

datatype piece = Lit cstring | Ref cstring

fun piece_text :: "piece \<Rightarrow> cstring" where
  "piece_text (Lit s) = s"
| "piece_text (Ref n) = DOLLAR # LBRACE # n @ [RBRACE]"

fun piece_value :: "(cstring \<Rightarrow> cstring option) \<Rightarrow> piece \<Rightarrow> cstring" where
  "piece_value e (Lit s) = s"
| "piece_value e (Ref n) = QUOTE # the (e n) @ [QUOTE]"

fun piece_ok :: "(cstring \<Rightarrow> cstring option) \<Rightarrow> piece \<Rightarrow> bool" where
  "piece_ok e (Lit s) \<longleftrightarrow> lit_ok s"
| "piece_ok e (Ref n) \<longleftrightarrow> name_ok n \<and> (\<exists>v. e n = Some v \<and> v \<noteq> [])"

definition text_of :: "piece list \<Rightarrow> cstring" where
  "text_of ps = concat (map piece_text ps)"

definition value_of :: "(cstring \<Rightarrow> cstring option) \<Rightarrow> piece list \<Rightarrow> cstring" where
  "value_of e ps = concat (map (piece_value e) ps)"

lemma text_of_hd: "list_all (piece_ok e) ps \<Longrightarrow> text_of ps = [] \<or> hd (text_of ps) \<noteq> RBRACE"
proof (induction ps)
  case (Cons p ps)
  then show ?case
  proof (cases p)
    case (Lit s)
    with Cons show ?thesis by (cases s) (auto simp: text_of_def lit_ok_def)
  qed (simp add: text_of_def)
qed (simp add: text_of_def)

lemma SkipRight_one: "s = [] \<or> hd s \<noteq> RBRACE \<Longrightarrow> tshellStrSkipRightBigBracket (RBRACE # s) = s"
  by (cases s) auto

lemma convert_pieces:
  assumes "var_inv st"
  shows "list_all (piece_ok (env st)) ps \<Longrightarrow>
    length out + length (value_of (env st) ps) < LW_CFG_SHELL_MAX_COMMANDLEN \<Longrightarrow>
    convert_loop le st (text_of ps) False nm False False out =
      Inr (ERROR_NONE, out @ value_of (env st) ps)"
proof (induction ps arbitrary: out nm)
  case Nil
  then show ?case by (simp add: text_of_def value_of_def)
next
  case (Cons p ps)
  have v: "value_of (env st) (p # ps) = piece_value (env st) p @ value_of (env st) ps"
    and t: "text_of (p # ps) = piece_text p @ text_of ps"
    by (simp_all add: value_of_def text_of_def)
  show ?case
  proof (cases p)
    case (Lit l)
    with Cons v t show ?thesis by (simp add: convert_lit)
  next
    case (Ref n)
    with Cons.prems obtain w where w: "name_ok n" "env st n = Some w" "w \<noteq> []" by auto
    have len: "length w \<le> NAME_MAX" "length w + 2 + length out < LW_CFG_SHELL_MAX_COMMANDLEN"
      using Cons.prems(2) Ref w v by (auto simp: LW_CFG_SHELL_MAX_COMMANDLEN_def NAME_MAX_def)
    have hd: "text_of ps = [] \<or> hd (text_of ps) \<noteq> RBRACE" using text_of_hd[of "env st" ps] Cons.prems(1) by simp
    have "convert_loop le st (text_of (p # ps)) False nm False False out =
        convert_loop le st (RBRACE # text_of ps) True n False False out"
      using convert_dollar(2)[OF w(1), of le st "RBRACE # text_of ps"] t Ref by simp
    also have "\<dots> = convert_loop le st (text_of ps) False n False False (out @ QUOTE # w @ [QUOTE])"
      using finish_name_value[OF assms w len, of le] separator_QUOTE_BSLASH(3) SkipRight_one[OF hd]
      by (simp add: quote_now_def trans_next_def del: tshellStrSkipRightBigBracket.simps)
    also have "\<dots> = Inr (ERROR_NONE, (out @ QUOTE # w @ [QUOTE]) @ value_of (env st) ps)"
      using Cons.IH Cons.prems v Ref w(2) by simp
    finally show ?thesis using v Ref w(2) by simp
  qed
qed

text \<open>The bound on the output.\<close>

lemma finish_name_bound:
  "finish_name le st nm out = Inr (Inr out') \<Longrightarrow> length out' < LW_CFG_SHELL_MAX_COMMANDLEN"
  by (auto simp: finish_name_def bind_res_Inr split: if_splits option.splits)

lemma finish_then:
  assumes "bind_res (finish_name le st nm out)
      (\<lambda>r. case r of Inl e \<Rightarrow> Inr (e, out) | Inr out \<Rightarrow> f out) = Inr (e, out')"
  shows "out' = out \<or> (\<exists>w. length w < LW_CFG_SHELL_MAX_COMMANDLEN \<and> f w = Inr (e, out'))"
proof -
  obtain r where "finish_name le st nm out = Inr r"
    "(case r of Inl e \<Rightarrow> Inr (e, out) | Inr out \<Rightarrow> f out) = Inr (e, out')"
    using assms by (auto simp: bind_res_Inr)
  then show ?thesis using finish_name_bound[of le st nm out] by (cases r) auto
qed

lemma convert_loop_bound:
  "convert_loop le st s var nm t q out = Inr (e, out') \<Longrightarrow> length out \<le> LW_CFG_SHELL_MAX_COMMANDLEN \<Longrightarrow>
     length out' \<le> LW_CFG_SHELL_MAX_COMMANDLEN"
proof (induction le st s var nm t q out arbitrary: e out' rule: convert_loop.induct)
  case (1 le st var nm t q out)
  then show ?case
    using finish_then[of le st nm out "\<lambda>w. Inr (ERROR_NONE, w)" e out']
    by (auto split: if_splits)
next
  case (2 le st c s var nm t q out)
  let ?q = "quote_now c t q" and ?t = "trans_next c (trans_now c t)"
  show ?case
  proof (cases "c = DOLLAR")
    case True
    with 2(4,5)[OF refl refl refl] 2(6,7) show ?thesis by (auto simp: Let_def split: if_splits)
  next
    case nd: False
    show ?thesis
    proof (cases "var \<and> tshellIsSeparator c")
      case True
      let ?s = "if c = RBRACE then tshellStrSkipRightBigBracket (c # s) else c # s"
      have "out' = out \<or> (\<exists>w. length w < LW_CFG_SHELL_MAX_COMMANDLEN \<and>
          convert_loop le st ?s False nm ?t ?q w = Inr (e, out'))"
        by (rule finish_then) (use True nd 2(6) in \<open>simp add: Let_def\<close>)
      then show ?thesis using 2(2)[OF refl refl refl nd] True 2(7) by (meson less_imp_le)
    next
      case False
      with nd 2(1,3)[OF refl refl refl] 2(6,7) show ?thesis by (auto simp: Let_def split: if_splits)
    qed
  qed
qed

text \<open>On a well-formed table the expansion always returns.\<close>

lemma finish_name_total: "var_inv st \<Longrightarrow> \<exists>r. finish_name le st nm out = Inr r"
  by (auto simp: finish_name_def var_replacement_def tshellVarGetRt_env split: option.splits)

lemma convert_loop_total:
  assumes "var_inv st" shows "\<exists>e out'. convert_loop le st s var nm t q out = Inr (e, out')"
  using assms
proof (induction le st s var nm t q out rule: convert_loop.induct)
  case (1 le st var nm t q out)
  then show ?case
    using finish_name_total[of st le nm out] by (auto split: sum.splits)
next
  case (2 le st c s var nm t q out)
  obtain r where r: "finish_name le st nm out = Inr r" using finish_name_total[OF 2(6)] by blast
  show ?case
  proof (cases "c = DOLLAR")
    case True
    with 2(4,5)[OF refl refl refl] 2(6) show ?thesis by (auto simp: Let_def split: if_splits)
  next
    case False
    with 2(1-3)[OF refl refl refl] 2(6) r show ?thesis
      by (cases r) (auto simp: Let_def split: if_splits)
  qed
qed

section \<open>Properties\<close>

text \<open>
  C40: expansion is safe and total.  On a well-formed variable table \<open>__tshellStrConvertVar\<close> returns
  for every command line, and never writes more than \<open>LW_CFG_SHELL_MAX_COMMANDLEN\<close> characters
  before the NUL, the size of the caller's buffer less one.
\<close>

theorem convert_var_bounded:
  assumes "var_inv st"
  shows "\<exists>e out. tshellStrConvertVar le st cmd = Inr (e, out) \<and> length out \<le> LW_CFG_SHELL_MAX_COMMANDLEN"
proof -
  obtain e out where r: "convert_loop le st cmd False [] False False [] = Inr (e, out)"
    using convert_loop_total[OF assms] by blast
  then show ?thesis using convert_loop_bound[OF r] by (simp add: tshellStrConvertVar_def)
qed

lemma convert_var_bounded_witness:
  "\<exists>e out. tshellStrConvertVar 0 demo_env ''cd $HOME'' = Inr (e, out) \<and> length out \<le> LW_CFG_SHELL_MAX_COMMANDLEN"
  using convert_var_bounded[of demo_env 0 "''cd $HOME''"] demo_env by blast

text \<open>
  C39: what expansion computes.  A command line made of texts without \<open>$\<close>, quotes, backslashes and
  closing braces, and of references \<open>${name}\<close> to variables that exist with a non-empty value, becomes
  the same line with each reference replaced by the value in double quotes, as long as the result
  stays below \<open>LW_CFG_SHELL_MAX_COMMANDLEN\<close>.
\<close>

theorem convert_var_expands:
  assumes "var_inv st" and "list_all (piece_ok (env st)) ps"
    and "length (value_of (env st) ps) < LW_CFG_SHELL_MAX_COMMANDLEN"
  shows "tshellStrConvertVar le st (text_of ps) = Inr (ERROR_NONE, value_of (env st) ps)"
  using convert_pieces[OF assms(1,2), of "[]" le "[]"] assms(3) by (simp add: tshellStrConvertVar_def)

lemma demo_pieces:
  "list_all (piece_ok [''HOME'' \<mapsto> ''/root'']) [Lit ''ls '', Ref ''HOME'', Lit ''/bin'']"
  by (simp add: lit_ok_def name_ok_def LW_CFG_SHELL_MAX_VARNAMELEN_def tshellIsSeparator_iff EOS_eq
      TTNIYSHELL_SEPARATOR_def)

lemma convert_var_expands_witness:
  "tshellStrConvertVar 0 demo_env ''ls ${HOME}/bin'' =
     Inr (ERROR_NONE, ''ls '' @ QUOTE # ''/root'' @ QUOTE # ''/bin'')"
  using convert_var_expands[of demo_env "[Lit ''ls '', Ref ''HOME'', Lit ''/bin'']" 0] demo_env demo_pieces
  by (simp add: text_of_def value_of_def LW_CFG_SHELL_MAX_COMMANDLEN_def)

text \<open>
  Of two references that follow each other directly, as in \<open>$A$B\<close>, the first vanishes: the
  second \<open>$\<close> starts a new name and the one that was read is dropped, without a value and without
  an error, whatever the variable holds.
\<close>

theorem adjacent_reference_lost:
  assumes "name_ok n" and "name_ok m"
  shows "tshellStrConvertVar le st (DOLLAR # n @ DOLLAR # m) = tshellStrConvertVar le st (DOLLAR # m)"
  using convert_dollar(1)[OF assms(1), of le st "DOLLAR # m"]
    convert_dollar(1)[OF assms(2), of le st "[]"]
  by (simp add: tshellStrConvertVar_def)

lemma adjacent_reference_lost_witness:
  "tshellStrConvertVar 0 demo_env ''$A$HOME'' = tshellStrConvertVar 0 demo_env ''$HOME''"
  using adjacent_reference_lost[of "''A''" "''HOME''" 0 demo_env]
  by (simp add: name_ok_def LW_CFG_SHELL_MAX_VARNAMELEN_def tshellIsSeparator_iff EOS_eq
      TTNIYSHELL_SEPARATOR_def)

text \<open>
  \<open>__tshellStrFormat\<close> collapses runs of blanks and nothing else: it is idempotent, never longer
  than its input, keeps every character that is not a blank, and leaves a quoted parameter as it is.
\<close>

theorem format_normalises:
  "tshellStrFormat (tshellStrFormat s) = tshellStrFormat s \<and> length (tshellStrFormat s) \<le> length s \<and>
   filter (\<lambda>c. c \<noteq> BLANK) (tshellStrFormat s) = filter (\<lambda>c. c \<noteq> BLANK) s \<and>
   tshellStrFormat (quote_arg a) = quote_arg a"
proof -
  have keep: "filter (\<lambda>c. c \<noteq> BLANK) (format_loop t q sp s) = filter (\<lambda>c. c \<noteq> BLANK) s" for t q sp s
  proof (induction s arbitrary: t q sp)
    case (Cons c s)
    then show ?case by (simp add: format_loop_Cons del: format_loop.simps(2))
  qed simp
  have quoted: "format_loop False True sp (concat (map escape_char a) @ r) =
      concat (map escape_char a) @ format_loop False True False r" if "a \<noteq> []" for a r sp
    using that
  proof (induction a arbitrary: sp)
    case (Cons c a)
    then show ?case
      by (cases "a = []")
        (auto simp: escape_char_def Let_def quote_now_def trans_now_def trans_next_def)
  qed simp
  have "tshellStrFormat (quote_arg a) = quote_arg a"
    using quoted[of a False "[QUOTE]"]
    by (cases "a = []") (simp_all add: tshellStrFormat_def quote_arg_def quote_now_def trans_now_def
        trans_next_def Let_def)
  then show ?thesis
    using keep format_loop_idem[of False False False s] format_length
    by (simp add: tshellStrFormat_def)
qed

text \<open>
  Every parameter can be passed.  A parameter written in quotes, with a backslash before each
  quote and backslash of its own, is cut off as one token whatever blanks it contains, the rest of
  the line is the next parameter, and removing quotes and escapes gives the parameter back.
\<close>

theorem quoted_parameter_roundtrip:
  "tshellStrGetToken (Some (quote_arg a @ BLANK # rest)) = Inr (quote_arg a, Some rest) \<and>
   tshellStrGetToken (Some (quote_arg a)) = Inr (quote_arg a, None) \<and>
   tshellStrDelTransChar (quote_arg a) = a"
  using token_loop_quote_arg[of "BLANK # rest" a] token_loop_quote_arg[of "[]" a]
  by (simp add: tshellStrGetToken_def del_trans_quote_arg)

text \<open>
  \<open>__tshellStrDelCRLF\<close> removes exactly the line ends and blanks at the end of a line that has any
  other character; on a line without one, the empty line included, it reads before the buffer.
\<close>

theorem del_crlf_exact:
  "tshellStrDelCRLF s = None \<and> set s \<subseteq> {CR, LF, BLANK} \<or>
   (\<exists>p c bl. s = p @ c # bl \<and> set bl \<subseteq> {CR, LF, BLANK} \<and> c \<notin> {CR, LF, BLANK} \<and>
      tshellStrDelCRLF s = Some (p @ [c]))"
proof (cases "set s \<subseteq> {CR, LF, BLANK}")
  case True
  then show ?thesis using tshellStrDelCRLF_None by blast
next
  case False
  then obtain p c bl where s: "s = p @ c # bl" and c: "c \<notin> {CR, LF, BLANK}"
    and bl: "\<forall>d \<in> set bl. \<not> d \<notin> {CR, LF, BLANK}"
    using split_list_last_prop[of s "\<lambda>c. c \<notin> {CR, LF, BLANK}"] by (metis subsetI)
  have "set bl \<subseteq> {CR, LF, BLANK}" using bl by (metis subsetI)
  with s c tshellStrDelCRLF_split[OF this c, of p] show ?thesis by metis
qed

end
