(* ===== verification/VarDefine.thy ===== *)
theory VarDefine
  imports ShellString
begin

text \<open>
  \<open>__tshellVarDefine\<close> of \<open>ttinyVar/ttinyVarLib.c\<close>: the command \<open>name=value\<close>.  The record \<open>var_allocs\<close>
  is the memory that the calls below it are given.
\<close>

definition var_name_char :: "c_char \<Rightarrow> bool" where
  "var_name_char c \<longleftrightarrow>
     (schar c \<ge> schar CHR ''a'' \<and> schar c \<le> schar CHR ''z'') \<or>
     (schar c \<ge> schar CHR ''A'' \<and> schar c \<le> schar CHR ''Z'') \<or>
     (schar c \<ge> schar CHR ''0'' \<and> schar c \<le> schar CHR ''9'') \<or> c = CHR ''_''"

fun scan_assign :: "cstring \<Rightarrow> cstring \<times> cstring" where
  "scan_assign [] = ([], [])"
| "scan_assign (c # s) =
     (if c = CHR ''='' then ([], c # s) else (let (n, r) = scan_assign s in (c # n, r)))"

definition tshellVarDefine :: "var_allocs \<Rightarrow> cstring \<Rightarrow> var_state \<Rightarrow> var_fault + tshell_error \<times> var_state" where
  "tshellVarDefine al pcCmd st =
     (let (pcVarName, rest) = scan_assign pcCmd in
      case rest of
        [] \<Rightarrow> Inr (ERROR_TSHELL_CMDNOTFUND, st)
      | eq # pcVarValue \<Rightarrow>
          if pcVarName = [] then Inr (ERROR_TSHELL_CMDNOTFUND, st)
          else if \<not> list_all var_name_char pcVarName then Inr (ERROR_TSHELL_EVAR, st)
          else if pcVarValue \<noteq> [] \<and> (hd pcVarValue = BLANK \<or> hd pcVarValue = TAB)
          then Inr (ERROR_TSHELL_EKEYWORD, st)
          else
            (let token = (case tshellStrGetToken (Some pcVarValue) of
                            Inl e \<Rightarrow> pcVarValue | Inr (tok, pcTokenNext) \<Rightarrow> tok);
                 value = tshellStrDelTransChar token in
             bind_res (tshellVarSet (al_set al) pcVarName (Some value) True st)
               (\<lambda>(ulError, st).
                  if ulError = ERROR_TSHELL_EVAR
                  then tshellVarAdd (al_node al) (al_name al) (al_value al) pcVarName (Some value)
                         (lib_strlen pcVarName) st
                  else Inr (ulError, st))))"

lemma scan_assign_split: "CHR ''='' \<notin> set n \<Longrightarrow> scan_assign (n @ CHR ''='' # v) = (n, CHR ''='' # v)"
  by (induction n) auto

lemma scan_assign_none: "CHR ''='' \<notin> set n \<Longrightarrow> scan_assign n = (n, [])"
  by (induction n) auto

lemma schar_eq_sign: "schar CHR ''='' = 61"
  by (simp add: schar_def uchar_def)

lemma var_name_no_eq: "list_all var_name_char n \<Longrightarrow> CHR ''='' \<notin> set n"
  by (auto simp: list_all_iff var_name_char_def schar_def uchar_def)

definition var_name_ok :: "cstring \<Rightarrow> bool" where
  "var_name_ok n \<longleftrightarrow> n \<noteq> [] \<and> list_all var_name_char n"

text \<open>A definition with a readable value is the call of \<open>API_TShellVarSet\<close> with overwriting.\<close>

lemma VarDefine_TShellVarSet:
  assumes n: "var_name_ok n" and tok: "token_loop False False w = (w, [])"
    and hd: "w = [] \<or> hd w \<notin> {BLANK, TAB}"
    and set: "TShellVarSet al (Some n) (Some (tshellStrDelTransChar w)) True st = Inr (0, st')"
  shows "tshellVarDefine al (n @ CHR ''='' # w) st = Inr (ERROR_NONE, st')"
proof -
  have t: "tshellStrGetToken (Some w) = Inr (w, None)" using tok by (simp add: tshellStrGetToken_def)
  have "tshellVarDefine al (n @ CHR ''='' # w) st =
      bind_res (tshellVarSet (al_set al) n (Some (tshellStrDelTransChar w)) True st)
        (\<lambda>(e, st). if e = ERROR_TSHELL_EVAR
          then tshellVarAdd (al_node al) (al_name al) (al_value al) n (Some (tshellStrDelTransChar w)) (lib_strlen n) st
          else Inr (e, st))"
    using n hd t var_name_no_eq by (auto simp: tshellVarDefine_def scan_assign_split var_name_ok_def Let_def)
  also have "\<dots> = Inr (ERROR_NONE, st')"
    using set by (auto simp: TShellVarSet_def bind_res_Inr split: if_splits prod.splits)
  finally show ?thesis .
qed

definition allocs_ok :: "var_allocs \<Rightarrow> var_state \<Rightarrow> bool" where
  "allocs_ok al st \<longleftrightarrow> op_fresh st (Op_Set [] [] True al) \<and> al_set al \<noteq> None \<and> al_node al \<noteq> None \<and>
     al_name al \<and> al_value al \<noteq> None"

lemma VarSet_defines:
  assumes "var_inv st" "allocs_ok al st"
  obtains st' where "TShellVarSet al (Some n) (Some v) True st = Inr (0, st')" "var_inv st'"
    "env st' = (env st)(n \<mapsto> v)"
proof -
  have "op_fresh st (Op_Set n v True al)" using assms(2) by (simp add: allocs_ok_def)
  from exec_ok[OF assms(1) this] assms(2) that show ?thesis
    by (auto simp: allocs_ok_def split: option.splits)
qed

lemma VarDefine_defines:
  assumes "var_inv st" "allocs_ok al st" "var_name_ok n" "token_loop False False w = (w, [])"
    "w = [] \<or> hd w \<notin> {BLANK, TAB}"
  obtains st' where "tshellVarDefine al (n @ CHR ''='' # w) st = Inr (ERROR_NONE, st')" "var_inv st'"
    "env st' = (env st)(n \<mapsto> tshellStrDelTransChar w)"
  using VarSet_defines[OF assms(1,2), of n "tshellStrDelTransChar w"] VarDefine_TShellVarSet[OF assms(3-5)]
  by metis

section \<open>Properties\<close>

text \<open>
  A definition with a quoted value sets the variable to exactly that value, whatever characters
  the value has, and leaves every other variable alone; a line without \<open>=\<close>, or with nothing before it,
  is no definition, and a name with another character than letters, digits and \<open>_\<close> is refused, both
  without any change.
\<close>

theorem VarDefine_spec:
  assumes "var_inv st" and "allocs_ok al st"
  shows "(var_name_ok n \<longrightarrow>
      (\<exists>st'. tshellVarDefine al (n @ CHR ''='' # quote_arg v) st = Inr (ERROR_NONE, st') \<and> var_inv st' \<and>
         env st' = (env st)(n \<mapsto> v))) \<and>
    (CHR ''='' \<notin> set n \<longrightarrow> tshellVarDefine al n st = Inr (ERROR_TSHELL_CMDNOTFUND, st) \<and>
       tshellVarDefine al (CHR ''='' # n) st = Inr (ERROR_TSHELL_CMDNOTFUND, st)) \<and>
    (CHR ''='' \<notin> set n \<and> n \<noteq> [] \<and> \<not> list_all var_name_char n \<longrightarrow>
       tshellVarDefine al (n @ CHR ''='' # w) st = Inr (ERROR_TSHELL_EVAR, st))"
proof (intro conjI impI)
  assume "var_name_ok n"
  moreover have "token_loop False False (quote_arg v) = (quote_arg v, [])"
    using token_loop_quote_arg[of "[]" v] by simp
  moreover have "hd (quote_arg v) \<notin> {BLANK, TAB}" by (simp add: quote_arg_def)
  ultimately show "\<exists>st'. tshellVarDefine al (n @ CHR ''='' # quote_arg v) st = Inr (ERROR_NONE, st') \<and>
      var_inv st' \<and> env st' = (env st)(n \<mapsto> v)"
    using VarDefine_defines[OF assms, of n "quote_arg v"] del_trans_quote_arg by metis
qed (auto simp: tshellVarDefine_def scan_assign_none scan_assign_split)

lemma VarDefine_spec_witness:
  "\<exists>st'. tshellVarDefine (demo_allocs 3 4) (''EDITOR='' @ quote_arg ''vi -R'') demo_env = Inr (ERROR_NONE, st') \<and>
     env st' = [''HOME'' \<mapsto> ''/root'', ''EDITOR'' \<mapsto> ''vi -R'']"
proof -
  have "TS_heap demo_env 4 = None \<and> tbl_nodes demo_env 3 = None" by code_simp
  then have al: "allocs_ok (demo_allocs 3 4) demo_env" by (simp add: allocs_ok_def demo_allocs_def)
  have "var_name_ok ''EDITOR''" by code_simp
  then show ?thesis
    using VarDefine_spec[OF conjunct1[OF demo_env] al, of "''EDITOR''" "''vi -R''" "[]"] demo_env by auto
qed

end
