(* ===== verification/ShellIf.thy ===== *)
theory ShellIf
  imports ShellDefs LibString "HOL-Library.Word"
begin

text \<open>
  The \<open>if\<close> statement of the enhanced shell, \<open>__tshellCheck\<close> and \<open>_tshellIfElse\<close> of
  \<open>ttinyShell/ttinyShellLib.c\<close>.  A pointer into the line is the rest of the line; reading it at the
  end gives NUL, stepping over the NUL is the outcome \<open>If_Overread\<close>.  The function either returns
  76767, which means that the line is no \<open>if\<close> statement (\<open>If_Not\<close>), or the error -2200
  (\<open>If_Error\<close>), or the value of a nested call of \<open>__tshellExec\<close> on the text of a branch
  (\<open>If_Run\<close>); \<open>If_Diverge\<close> is a loop that never ends.
\<close>

section \<open>The program\<close>

fun tshellCheck :: "cstring \<Rightarrow> cstring \<Rightarrow> bool" where
  "tshellCheck s [] = True"
| "tshellCheck [] (d # t) = False"
| "tshellCheck (c # s) (d # t) = (c = d \<and> tshellCheck s t)"

definition deref :: "cstring \<Rightarrow> c_char" where
  "deref p = (case p of [] \<Rightarrow> EOS | c # s \<Rightarrow> c)"

datatype if_outcome = If_Not | If_Error | If_Run cstring | If_Diverge | If_Overread

definition advance :: "nat \<Rightarrow> cstring \<Rightarrow> if_outcome + cstring" where
  "advance n p = (if n \<le> length p then Inr (drop n p) else Inl If_Overread)"

text \<open>
  The local variables.  The two operands are what has been written up to \<open>leftPoint\<close> and
  \<open>rightPoint\<close>.
\<close>

record if_state =
  status :: nat
  left :: cstring
  leftMeet :: nat
  right :: cstring
  rightMeet :: nat
  judge :: int
  answer :: int
  is_string :: bool

definition if_init :: if_state where
  "if_init = \<lparr>status = 0, left = [], leftMeet = 0, right = [], rightMeet = 0, judge = - 1,
     answer = - 1, is_string = False\<rparr>"

text \<open>
  The comparison of two strings: \<open>continue\<close> does not move the pointers, so equal characters at the
  start make the loop endless (\<open>None\<close>).
\<close>

definition compare_strings :: "int \<Rightarrow> cstring \<Rightarrow> cstring \<Rightarrow> int option" where
  "compare_strings old l r =
     (if l \<noteq> [] \<and> r \<noteq> [] then
        (if hd l = hd r then None else if schar (hd l) < schar (hd r) then Some 1 else Some 2)
      else if old = - 1 then (if l \<noteq> [] then Some 2 else if r \<noteq> [] then Some 1 else Some 0)
      else Some old)"

text \<open>The value of an operand, in the 32 bits of an \<open>INT\<close>.\<close>

definition number_of :: "cstring \<Rightarrow> 32 word" where
  "number_of s = foldl (\<lambda>n c. n * 10 + of_int (schar c - 48)) 0 s"

definition compare_numbers :: "cstring \<Rightarrow> cstring \<Rightarrow> int" where
  "compare_numbers l r =
     (if number_of l = number_of r then 0
      else if number_of r <s number_of l then 2 else 1)"

definition step_open :: "if_state \<times> cstring \<Rightarrow> if_outcome + if_state \<times> cstring" where
  "step_open sp =
     (let (st, p) = sp in
      if status st = 0 \<and> deref p = CHR ''['' then
        bind_res (if deref (drop 1 p) = CHR ''['' then bind_res (advance 1 p) (\<lambda>p. Inr (True, p))
                  else Inr (is_string st, p))
          (\<lambda>(str, p). bind_res (advance 1 p) (\<lambda>p. Inr (st\<lparr>status := 1, is_string := str\<rparr>, p)))
      else Inr (st, p))"

definition step_close :: "if_state \<times> cstring \<Rightarrow> if_outcome + if_state \<times> cstring" where
  "step_close sp =
     (let (st, p) = sp in
      if status st = 1 \<and> deref p = CHR '']'' then
        bind_res
          (if is_string st then
             (if deref (drop 1 p) = CHR '']'' then advance 1 p else Inl If_Error)
           else Inr p)
          (\<lambda>p.
             if leftMeet st \<noteq> 2 \<or> rightMeet st \<noteq> 2 \<or> judge st = - 1 then Inl If_Error
             else
               bind_res
                 (if is_string st
                  then (case compare_strings (answer st) (left st) (right st) of
                          None \<Rightarrow> Inl If_Diverge | Some a \<Rightarrow> Inr a)
                  else Inr (compare_numbers (left st) (right st)))
                 (\<lambda>a. bind_res (advance 2 p)
                    (\<lambda>p. Inr (st\<lparr>answer := a, status := (if a = judge st then 2 else 3), leftMeet := 0,
                              rightMeet := 0, judge := - 1, is_string := False\<rparr>, p))))
      else Inr (st, p))"

definition step_then :: "if_state \<times> cstring \<Rightarrow> if_outcome + if_state \<times> cstring" where
  "step_then sp =
     (let (st, p) = sp in
      if status st = 2 \<and> tshellCheck p ''then''
      then bind_res (advance 4 p) (\<lambda>p. Inr (st\<lparr>status := 4\<rparr>, p)) else Inr (st, p))"

definition step_elif :: "if_state \<times> cstring \<Rightarrow> if_outcome + if_state \<times> cstring" where
  "step_elif sp =
     (let (st, p) = sp in
      if status st = 3 \<and> tshellCheck p ''elif''
      then bind_res (advance 4 p) (\<lambda>p. Inr (st\<lparr>left := [], right := [], status := 0\<rparr>, p))
      else Inr (st, p))"

definition step_else :: "if_state \<times> cstring \<Rightarrow> if_outcome + if_state \<times> cstring" where
  "step_else sp =
     (let (st, p) = sp in
      if status st = 3 \<and> tshellCheck p ''else''
      then bind_res (advance 4 p) (\<lambda>p. Inr (st\<lparr>status := 4\<rparr>, p)) else Inr (st, p))"

fun if_body :: "cstring \<Rightarrow> cstring" where
  "if_body [] = []"
| "if_body (c # s) =
     (if tshellCheck (c # s) ''fi'' \<or> tshellCheck (c # s) ''elif'' \<or> tshellCheck (c # s) ''else''
      then [] else c # if_body s)"

definition step_left :: "if_state \<times> cstring \<Rightarrow> if_outcome + if_state \<times> cstring" where
  "step_left sp =
     (let (st, p) = sp; c = deref p; quote = tshellCheck p [QUOTE] in
      if leftMeet st = 1 then
        if c = BLANK then Inr (st\<lparr>leftMeet := 2\<rparr>, p)
        else if quote then Inr (st, p) else Inr (st\<lparr>left := left st @ [c]\<rparr>, p)
      else if leftMeet st = 0 \<and> (c \<noteq> BLANK \<or> quote) then
        if quote then Inr (st, p) else Inr (st\<lparr>leftMeet := 1, left := left st @ [c]\<rparr>, p)
      else if leftMeet st = 2 then
        if tshellCheck p ''=='' then bind_res (advance 1 p) (\<lambda>p. Inr (st\<lparr>judge := 0\<rparr>, p))
        else if tshellCheck p ''< '' then bind_res (advance 1 p) (\<lambda>p. Inr (st\<lparr>judge := 1\<rparr>, p))
        else if tshellCheck p ''> '' then bind_res (advance 1 p) (\<lambda>p. Inr (st\<lparr>judge := 2\<rparr>, p))
        else Inr (st, p)
      else Inr (st, p))"

definition step_right :: "if_state \<times> cstring \<Rightarrow> if_outcome + if_state \<times> cstring" where
  "step_right sp =
     (let (st, p) = sp; c = deref p; quote = tshellCheck p [QUOTE] in
      if rightMeet st = 0 \<and> (c \<noteq> BLANK \<or> quote) then
        if quote then Inr (st, p) else Inr (st\<lparr>rightMeet := 1, right := right st @ [c]\<rparr>, p)
      else if rightMeet st = 1 then
        if c = BLANK then Inr (st\<lparr>rightMeet := 2\<rparr>, p)
        else if quote then Inr (st, p) else Inr (st\<lparr>right := right st @ [c]\<rparr>, p)
      else Inr (st, p))"

definition step_switch :: "if_state \<times> cstring \<Rightarrow> if_outcome + if_state \<times> cstring" where
  "step_switch sp =
     (let (st, p) = sp in
      if status st = 1 then (if judge st = - 1 then step_left (st, p) else step_right (st, p))
      else if status st = 4 then Inl (If_Run (if_body p))
      else Inr (st, p))"

definition if_steps :: "if_state \<times> cstring \<Rightarrow> if_outcome + if_state \<times> cstring" where
  "if_steps sp =
     bind_res (step_open sp) (\<lambda>sp. bind_res (step_close sp) (\<lambda>sp. bind_res (step_then sp)
       (\<lambda>sp. bind_res (step_elif sp) (\<lambda>sp. bind_res (step_else sp) step_switch))))"

definition if_iteration :: "if_state \<times> cstring \<Rightarrow> if_outcome + if_state \<times> cstring" where
  "if_iteration sp = bind_res (if_steps sp) (\<lambda>(st, p). bind_res (advance 1 p) (\<lambda>p. Inr (st, p)))"

lemma advance_Inr: "advance n p = Inr q \<longleftrightarrow> n \<le> length p \<and> q = drop n p"
  by (auto simp: advance_def)

text \<open>A relation that every step keeps between the pointer before and after holds for the sequence.\<close>

definition moves :: "(cstring \<Rightarrow> cstring \<Rightarrow> bool) \<Rightarrow> (if_state \<times> cstring \<Rightarrow> if_outcome + if_state \<times> cstring) \<Rightarrow> bool" where
  "moves R f \<longleftrightarrow> (\<forall>st p st' p'. f (st, p) = Inr (st', p') \<longrightarrow> R p p')"

lemma moves_bind:
  assumes "moves R f" "moves R g" "\<And>x y z. R x y \<Longrightarrow> R y z \<Longrightarrow> R x z"
  shows "moves R (\<lambda>sp. bind_res (f sp) g)"
  using assms unfolding moves_def bind_res_Inr by (metis surj_pair)

lemma step_shorter:
  "moves (\<lambda>p q. length q \<le> length p) step_open"
  "moves (\<lambda>p q. length q \<le> length p) step_close"
  "moves (\<lambda>p q. length q \<le> length p) step_then"
  "moves (\<lambda>p q. length q \<le> length p) step_elif"
  "moves (\<lambda>p q. length q \<le> length p) step_else"
  "moves (\<lambda>p q. length q \<le> length p) step_switch"
  by (auto simp: moves_def step_open_def step_close_def step_then_def step_elif_def step_else_def
      step_switch_def step_left_def step_right_def bind_res_Inr advance_Inr Let_def
      split: if_splits option.splits)

lemma if_steps_shorter: "moves (\<lambda>p q. length q \<le> length p) if_steps"
  unfolding if_steps_def[abs_def]
  by (intro moves_bind step_shorter) (auto intro: order_trans)

lemma if_iteration_shorter:
  assumes "if_iteration (st, p) = Inr (st', p')" shows "length p' < length p"
proof -
  from assms obtain s1 p1 where "if_steps (st, p) = Inr (s1, p1)" "advance 1 p1 = Inr p'"
    by (auto simp: if_iteration_def bind_res_Inr)
  with if_steps_shorter show ?thesis by (fastforce simp: moves_def advance_Inr)
qed

function if_loop :: "if_state \<Rightarrow> cstring \<Rightarrow> if_outcome" where
  "if_loop st [] = If_Not"
| "if_loop st (c # s) =
     (case if_iteration (st, c # s) of Inl r \<Rightarrow> r | Inr (st', p) \<Rightarrow> if_loop st' p)"
  by pat_completeness auto
termination
  by (relation "measure (\<lambda>(st, p). length p)") (auto dest: if_iteration_shorter)

text \<open>
  The tests before the loop.  \<open>before\<close> is the byte in front of the buffer, which the code reads when
  the line has only one character.
\<close>

fun contains_then :: "cstring \<Rightarrow> bool" where
  "contains_then [] = False"
| "contains_then (c # s) = (tshellCheck (c # s) ''then'' \<or> contains_then s)"

fun skip_blanks :: "cstring \<Rightarrow> cstring" where
  "skip_blanks [] = []"
| "skip_blanks (c # s) = (if c = BLANK then skip_blanks s else c # s)"

definition tail2 :: "c_char \<Rightarrow> cstring \<Rightarrow> cstring" where
  "tail2 before line = drop (length line - 1) (before # line)"

definition tshellIfElse :: "c_char \<Rightarrow> cstring \<Rightarrow> if_outcome" where
  "tshellIfElse before line =
     (let p = skip_blanks line in
      if \<not> tshellCheck (tail2 before line) ''fi'' then (if contains_then p then If_Error else If_Not)
      else if tshellCheck p ''if'' then if_loop if_init (drop 2 p)
      else If_Not)"

lemmas if_step_defs = if_iteration_def if_steps_def step_open_def step_close_def step_then_def
  step_elif_def step_else_def step_switch_def step_left_def step_right_def advance_def deref_def Let_def

section \<open>One character at a time\<close>

definition operand_char :: "c_char \<Rightarrow> bool" where
  "operand_char c \<longleftrightarrow> c \<notin> {BLANK, QUOTE, CHR '']''}"

lemma it_skip0: "status st = 0 \<Longrightarrow> c \<noteq> CHR ''['' \<Longrightarrow> if_loop st (c # s) = if_loop st s"
  by (simp add: if_step_defs)

lemma it_open:
  "status st = 0 \<Longrightarrow> leftMeet st = 0 \<Longrightarrow> judge st = - 1 \<Longrightarrow> \<not> is_string st \<Longrightarrow>
     if_loop st (CHR ''['' # BLANK # s) = if_loop (st\<lparr>status := 1, is_string := False\<rparr>) s"
  by (simp add: if_step_defs)

lemma it_left1:
  "status st = 1 \<Longrightarrow> judge st = - 1 \<Longrightarrow> leftMeet st = 0 \<Longrightarrow> operand_char c \<Longrightarrow>
     if_loop st (c # s) = if_loop (st\<lparr>leftMeet := 1, left := left st @ [c]\<rparr>) s"
  by (simp add: if_step_defs operand_char_def)

lemma it_left:
  "status st = 1 \<Longrightarrow> judge st = - 1 \<Longrightarrow> leftMeet st = 1 \<Longrightarrow> operand_char c \<Longrightarrow>
     if_loop st (c # s) = if_loop (st\<lparr>left := left st @ [c]\<rparr>) s"
  by (simp add: if_step_defs operand_char_def)

lemma it_left_end:
  "status st = 1 \<Longrightarrow> judge st = - 1 \<Longrightarrow> leftMeet st = 1 \<Longrightarrow>
     if_loop st (BLANK # s) = if_loop (st\<lparr>leftMeet := 2\<rparr>) s"
  by (simp add: if_step_defs)

lemma it_right1:
  "status st = 1 \<Longrightarrow> judge st \<noteq> - 1 \<Longrightarrow> rightMeet st = 0 \<Longrightarrow> operand_char c \<Longrightarrow>
     if_loop st (c # s) = if_loop (st\<lparr>rightMeet := 1, right := right st @ [c]\<rparr>) s"
  by (simp add: if_step_defs operand_char_def)

lemma it_right:
  "status st = 1 \<Longrightarrow> judge st \<noteq> - 1 \<Longrightarrow> rightMeet st = 1 \<Longrightarrow> operand_char c \<Longrightarrow>
     if_loop st (c # s) = if_loop (st\<lparr>right := right st @ [c]\<rparr>) s"
  by (simp add: if_step_defs operand_char_def)

lemma it_right_end:
  "status st = 1 \<Longrightarrow> judge st \<noteq> - 1 \<Longrightarrow> rightMeet st = 1 \<Longrightarrow>
     if_loop st (BLANK # s) = if_loop (st\<lparr>rightMeet := 2\<rparr>) s"
  by (simp add: if_step_defs)

lemma it_right_blank:
  "status st = 1 \<Longrightarrow> judge st \<noteq> - 1 \<Longrightarrow> rightMeet st = 0 \<Longrightarrow> if_loop st (BLANK # s) = if_loop st s"
  by (simp add: if_step_defs)

lemma it_eq:
  "status st = 1 \<Longrightarrow> judge st = - 1 \<Longrightarrow> leftMeet st = 2 \<Longrightarrow>
     if_loop st (''=='' @ s) = if_loop (st\<lparr>judge := 0\<rparr>) s"
  by (simp add: if_step_defs)

lemma it_lt:
  "status st = 1 \<Longrightarrow> judge st = - 1 \<Longrightarrow> leftMeet st = 2 \<Longrightarrow>
     if_loop st (''< '' @ s) = if_loop (st\<lparr>judge := 1\<rparr>) s"
  by (simp add: if_step_defs)

lemma it_gt:
  "status st = 1 \<Longrightarrow> judge st = - 1 \<Longrightarrow> leftMeet st = 2 \<Longrightarrow>
     if_loop st (''> '' @ s) = if_loop (st\<lparr>judge := 2\<rparr>) s"
  by (simp add: if_step_defs)

lemma it_close:
  "status st = 1 \<Longrightarrow> judge st \<noteq> - 1 \<Longrightarrow> leftMeet st = 2 \<Longrightarrow> rightMeet st = 2 \<Longrightarrow> \<not> is_string st \<Longrightarrow>
     if_loop st (''] then'' @ s) =
       (if compare_numbers (left st) (right st) = judge st then If_Run (if_body s)
        else if_loop (st\<lparr>answer := compare_numbers (left st) (right st), status := 3, leftMeet := 0,
               rightMeet := 0, judge := - 1, is_string := False\<rparr>) (''hen'' @ s))"
  by (simp add: if_step_defs)

lemma it_skip3:
  "status st = 3 \<Longrightarrow> \<not> tshellCheck (c # s) ''elif'' \<Longrightarrow> \<not> tshellCheck (c # s) ''else'' \<Longrightarrow>
     if_loop st (c # s) = if_loop st s"
  by (simp add: if_step_defs del: tshellCheck.simps)

lemma it_elif:
  "status st = 3 \<Longrightarrow> if_loop st (''elif'' @ BLANK # s) = if_loop (st\<lparr>left := [], right := [], status := 0\<rparr>) s"
  by (simp add: if_step_defs)

lemma it_else: "status st = 3 \<Longrightarrow> if_loop st (''else'' @ s) = If_Run (if_body s)"
  by (simp add: if_step_defs)

section \<open>Whole conditions\<close>

definition operand_ok :: "cstring \<Rightarrow> bool" where
  "operand_ok s \<longleftrightarrow> s \<noteq> [] \<and> (\<forall>c \<in> set s. operand_char c)"

lemma read_left_rest:
  "status st = 1 \<Longrightarrow> judge st = - 1 \<Longrightarrow> leftMeet st = 1 \<Longrightarrow> (\<forall>c \<in> set l. operand_char c) \<Longrightarrow>
     if_loop st (l @ BLANK # s) = if_loop (st\<lparr>left := left st @ l, leftMeet := 2\<rparr>) s"
proof (induction l arbitrary: st)
  case (Cons c l)
  have "if_loop st ((c # l) @ BLANK # s) = if_loop (st\<lparr>left := left st @ [c]\<rparr>) (l @ BLANK # s)"
    using Cons.prems by (simp only: append_Cons) (rule it_left, auto)
  also have "\<dots> = if_loop (st\<lparr>left := left st @ c # l, leftMeet := 2\<rparr>) s"
    by (subst Cons.IH) (use Cons.prems in auto)
  finally show ?case .
qed (simp add: it_left_end del: if_loop.simps)

lemma read_left:
  assumes "status st = 1" "judge st = - 1" "leftMeet st = 0" "left st = []" "operand_ok l"
  shows "if_loop st (l @ BLANK # s) = if_loop (st\<lparr>left := l, leftMeet := 2\<rparr>) s"
proof -
  obtain c m where l: "l = c # m" "operand_char c" "\<forall>c \<in> set m. operand_char c"
    using assms(5) by (cases l) (auto simp: operand_ok_def)
  have "if_loop st (l @ BLANK # s) = if_loop (st\<lparr>leftMeet := 1, left := [c]\<rparr>) (m @ BLANK # s)"
    using it_left1[OF assms(1-3) l(2), of "m @ BLANK # s"] assms(4) l(1) by simp
  also have "\<dots> = if_loop (st\<lparr>left := l, leftMeet := 2\<rparr>) s"
    by (subst read_left_rest) (use assms l in auto)
  finally show ?thesis .
qed

lemma read_right_rest:
  "status st = 1 \<Longrightarrow> judge st \<noteq> - 1 \<Longrightarrow> rightMeet st = 1 \<Longrightarrow> (\<forall>c \<in> set l. operand_char c) \<Longrightarrow>
     if_loop st (l @ BLANK # s) = if_loop (st\<lparr>right := right st @ l, rightMeet := 2\<rparr>) s"
proof (induction l arbitrary: st)
  case (Cons c l)
  have "if_loop st ((c # l) @ BLANK # s) = if_loop (st\<lparr>right := right st @ [c]\<rparr>) (l @ BLANK # s)"
    using Cons.prems by (simp only: append_Cons) (rule it_right, auto)
  also have "\<dots> = if_loop (st\<lparr>right := right st @ c # l, rightMeet := 2\<rparr>) s"
    by (subst Cons.IH) (use Cons.prems in auto)
  finally show ?case .
qed (simp add: it_right_end del: if_loop.simps)

lemma read_right:
  assumes "status st = 1" "judge st \<noteq> - 1" "rightMeet st = 0" "right st = []" "operand_ok l"
  shows "if_loop st (l @ BLANK # s) = if_loop (st\<lparr>right := l, rightMeet := 2\<rparr>) s"
proof -
  obtain c m where l: "l = c # m" "operand_char c" "\<forall>c \<in> set m. operand_char c"
    using assms(5) by (cases l) (auto simp: operand_ok_def)
  have "if_loop st (l @ BLANK # s) = if_loop (st\<lparr>rightMeet := 1, right := [c]\<rparr>) (m @ BLANK # s)"
    using it_right1[OF assms(1-3) l(2), of "m @ BLANK # s"] assms(4) l(1) by simp
  also have "\<dots> = if_loop (st\<lparr>right := l, rightMeet := 2\<rparr>) s"
    by (subst read_right_rest) (use assms l in auto)
  finally show ?thesis .
qed

datatype cmp_op = Op_Eq | Op_Lt | Op_Gt

fun op_text :: "cmp_op \<Rightarrow> cstring" where
  "op_text Op_Eq = ''==''"
| "op_text Op_Lt = ''<''"
| "op_text Op_Gt = ''>''"

fun op_code :: "cmp_op \<Rightarrow> int" where
  "op_code Op_Eq = 0"
| "op_code Op_Lt = 1"
| "op_code Op_Gt = 2"

lemma read_op:
  assumes "status st = 1" "judge st = - 1" "leftMeet st = 2" "rightMeet st = 0"
  shows "if_loop st (op_text o1 @ BLANK # s) = if_loop (st\<lparr>judge := op_code o1\<rparr>) s"
proof (cases o1)
  case Op_Eq
  have "if_loop st (''=='' @ BLANK # s) = if_loop (st\<lparr>judge := 0\<rparr>) (BLANK # s)"
    by (rule it_eq) (use assms in auto)
  also have "\<dots> = if_loop (st\<lparr>judge := 0\<rparr>) s" by (rule it_right_blank) (use assms in auto)
  finally show ?thesis using Op_Eq by simp
next
  case Op_Lt
  with it_lt[OF assms(1-3), of s] show ?thesis by simp
next
  case Op_Gt
  with it_gt[OF assms(1-3), of s] show ?thesis by simp
qed

definition fresh :: "if_state \<Rightarrow> bool" where
  "fresh st \<longleftrightarrow> status st = 0 \<and> left st = [] \<and> leftMeet st = 0 \<and> right st = [] \<and> rightMeet st = 0 \<and>
     judge st = - 1 \<and> \<not> is_string st"

definition cond_text :: "cstring \<Rightarrow> cmp_op \<Rightarrow> cstring \<Rightarrow> cstring" where
  "cond_text l o1 r = ''[ '' @ l @ '' '' @ op_text o1 @ '' '' @ r @ '' ] then''"

lemma read_cond:
  assumes st: "fresh st" and ok: "operand_ok l" "operand_ok r"
  shows "\<exists>st'. status st' = 3 \<and> leftMeet st' = 0 \<and> rightMeet st' = 0 \<and> judge st' = - 1 \<and> \<not> is_string st' \<and>
    if_loop st (cond_text l o1 r @ s) =
      (if compare_numbers l r = op_code o1 then If_Run (if_body s) else if_loop st' (''hen'' @ s))"
proof -
  have f: "status st = 0" "left st = []" "leftMeet st = 0" "right st = []" "rightMeet st = 0"
    "judge st = - 1" "\<not> is_string st" using st by (auto simp: fresh_def)
  let ?s1 = "st\<lparr>status := 1, is_string := False\<rparr>"
  let ?s2 = "?s1\<lparr>left := l, leftMeet := 2\<rparr>"
  let ?s3 = "?s2\<lparr>judge := op_code o1\<rparr>"
  let ?s4 = "?s3\<lparr>right := r, rightMeet := 2\<rparr>"
  have j: "op_code o1 \<noteq> - 1" by (cases o1) auto
  have "if_loop st (cond_text l o1 r @ s) =
      if_loop ?s1 (l @ BLANK # op_text o1 @ BLANK # r @ BLANK # ''] then'' @ s)"
    using it_open[OF f(1,3,6,7)] by (simp add: cond_text_def)
  also have "\<dots> = if_loop ?s2 (op_text o1 @ BLANK # r @ BLANK # ''] then'' @ s)"
    by (rule read_left) (use f ok in auto)
  also have "\<dots> = if_loop ?s3 (r @ BLANK # ''] then'' @ s)"
    by (rule read_op) (use f in auto)
  also have "\<dots> = if_loop ?s4 (''] then'' @ s)"
    by (rule read_right) (use f ok j in auto)
  also have "\<dots> = (if compare_numbers l r = op_code o1 then If_Run (if_body s)
        else if_loop (?s4\<lparr>answer := compare_numbers l r, status := 3, leftMeet := 0,
               rightMeet := 0, judge := - 1, is_string := False\<rparr>) (''hen'' @ s))"
    by (subst it_close) (use f j in auto)
  finally show ?thesis
    by (intro exI[of _ "?s4\<lparr>answer := compare_numbers l r, status := 3, leftMeet := 0,
               rightMeet := 0, judge := - 1, is_string := False\<rparr>"]) simp
qed

section \<open>Chains of conditions\<close>

text \<open>\<open>cut_free a t\<close>: in \<open>a\<close> followed by \<open>t\<close> no keyword starts inside \<open>a\<close>.\<close>

definition ends_body :: "cstring \<Rightarrow> bool" where
  "ends_body s \<longleftrightarrow> tshellCheck s ''fi'' \<or> tshellCheck s ''elif'' \<or> tshellCheck s ''else''"

fun cut_free :: "cstring \<Rightarrow> cstring \<Rightarrow> bool" where
  "cut_free [] t = True"
| "cut_free (c # s) t = (\<not> ends_body (c # s @ t) \<and> cut_free s t)"

lemma if_body_cut: "cut_free a t \<Longrightarrow> ends_body t \<Longrightarrow> if_body (a @ t) = a"
proof (induction a)
  case Nil
  then show ?case by (cases t) (auto simp: ends_body_def simp del: tshellCheck.simps)
qed (simp add: ends_body_def del: tshellCheck.simps)

lemma skip3_cut: "status st = 3 \<Longrightarrow> cut_free a t \<Longrightarrow> if_loop st (a @ t) = if_loop st t"
proof (induction a)
  case (Cons c a)
  then show ?case using it_skip3[of st c "a @ t"] by (simp add: ends_body_def del: if_loop.simps tshellCheck.simps)
qed simp

lemma cut_hen: "cut_free a t \<Longrightarrow> cut_free (''hen'' @ a) t"
  by (simp add: ends_body_def)

record clause =
  cl_left :: cstring
  cl_op :: cmp_op
  cl_right :: cstring
  cl_body :: cstring

fun chain_text :: "clause list \<Rightarrow> cstring option \<Rightarrow> cstring" where
  "chain_text [] None = ''fi''"
| "chain_text [] (Some b) = ''else'' @ b @ ''fi''"
| "chain_text (c # cs) e =
     cond_text (cl_left c) (cl_op c) (cl_right c) @ cl_body c @
       (if cs = [] then chain_text [] e else ''elif '' @ chain_text cs e)"

definition if_text :: "clause list \<Rightarrow> cstring option \<Rightarrow> cstring" where
  "if_text cs e = ''if '' @ chain_text cs e"

definition clause_holds :: "clause \<Rightarrow> bool" where
  "clause_holds c \<longleftrightarrow> compare_numbers (cl_left c) (cl_right c) = op_code (cl_op c)"

fun chain_eval :: "clause list \<Rightarrow> cstring option \<Rightarrow> if_outcome" where
  "chain_eval [] None = If_Not"
| "chain_eval [] (Some b) = If_Run b"
| "chain_eval (c # cs) e = (if clause_holds c then If_Run (cl_body c) else chain_eval cs e)"

fun chain_ok :: "clause list \<Rightarrow> cstring option \<Rightarrow> bool" where
  "chain_ok [] None = True"
| "chain_ok [] (Some b) = cut_free b ''fi''"
| "chain_ok (c # cs) e \<longleftrightarrow> operand_ok (cl_left c) \<and> operand_ok (cl_right c) \<and>
     cut_free (cl_body c) (if cs = [] then chain_text [] e else ''elif '' @ chain_text cs e) \<and>
     chain_ok cs e"

lemma ends_chain: "ends_body (chain_text [] e)"
  by (cases e) (simp_all add: ends_body_def)

lemma if_loop_chain:
  "fresh st \<Longrightarrow> chain_ok cs e \<Longrightarrow> cs \<noteq> [] \<Longrightarrow> if_loop st (chain_text cs e) = chain_eval cs e"
proof (induction cs arbitrary: st)
  case (Cons c cs)
  let ?t = "if cs = [] then chain_text [] e else ''elif '' @ chain_text cs e"
  have cut: "cut_free (cl_body c) ?t" and ok: "operand_ok (cl_left c)" "operand_ok (cl_right c)" "chain_ok cs e"
    using Cons.prems by simp_all
  have et: "ends_body ?t" using ends_chain[of e] by (simp add: ends_body_def)
  obtain st' where st': "status st' = 3" "leftMeet st' = 0" "rightMeet st' = 0" "judge st' = - 1" "\<not> is_string st'"
    "if_loop st (chain_text (c # cs) e) =
       (if clause_holds c then If_Run (if_body (cl_body c @ ?t)) else if_loop st' (''hen'' @ cl_body c @ ?t))"
    using read_cond[OF Cons.prems(1) ok(1,2), of "cl_op c" "cl_body c @ ?t"] by (auto simp: clause_holds_def)
  have "if_loop st' (''hen'' @ cl_body c @ ?t) = if_loop st' ?t"
    using skip3_cut[OF st'(1) cut_hen[OF cut]] by simp
  moreover have "if_loop st' ?t = chain_eval cs e"
  proof (cases "cs = []")
    case False
    have "if_loop st' (''elif'' @ BLANK # chain_text cs e) =
        if_loop (st'\<lparr>left := [], right := [], status := 0\<rparr>) (chain_text cs e)"
      by (rule it_elif[OF st'(1)])
    also have "\<dots> = chain_eval cs e"
      by (rule Cons.IH) (use st' ok(3) False in \<open>auto simp: fresh_def\<close>)
    finally show ?thesis using False by simp
  next
    case cs: True
    show ?thesis
    proof (cases e)
      case None
      have "cut_free ''fi'' [] = False" by (simp add: ends_body_def)
      have "if_loop st' ''fi'' = If_Not"
        using it_skip3[OF st'(1), of "CHR ''f''" "''i''"] it_skip3[OF st'(1), of "CHR ''i''" "[]"] by simp
      with cs None show ?thesis by simp
    next
      case (Some b)
      have "if_loop st' (''else'' @ b @ ''fi'') = If_Run (if_body (b @ ''fi''))" by (rule it_else[OF st'(1)])
      also have "if_body (b @ ''fi'') = b"
        using ok(3) Some cs by (intro if_body_cut) (auto simp: ends_body_def)
      finally show ?thesis using cs Some by simp
    qed
  qed
  ultimately show ?case using st'(6) if_body_cut[OF cut et] by simp
qed simp

lemma tail2_fi: "tail2 b (s @ ''fi'') = ''fi''"
  by (simp add: tail2_def)

lemma chain_text_fi: "\<exists>s. chain_text cs e = s @ ''fi''"
proof (induction cs)
  case Nil
  then show ?case by (cases e) auto
next
  case (Cons c cs)
  then obtain s where "chain_text cs e = s @ ''fi''" by blast
  then show ?case by (cases "cs = []") auto
qed

lemma if_text_eval:
  assumes "chain_ok cs e" and "cs \<noteq> []"
  shows "tshellIfElse before (if_text cs e) = chain_eval cs e"
proof -
  obtain s where "chain_text cs e = s @ ''fi''" using chain_text_fi by blast
  then have t: "tail2 before (if_text cs e) = ''fi''"
    using tail2_fi[of before "''if '' @ s"] by (simp add: if_text_def)
  have "fresh if_init" by (simp add: fresh_def if_init_def)
  then have "if_loop if_init (chain_text cs e) = chain_eval cs e" by (rule if_loop_chain[OF _ assms])
  moreover have "if_loop if_init (BLANK # chain_text cs e) = if_loop if_init (chain_text cs e)"
    by (rule it_skip0) (simp_all add: if_init_def)
  ultimately show ?thesis using t
    by (simp add: tshellIfElse_def Let_def if_text_def del: if_loop.simps)
qed

section \<open>Reads stay in the line\<close>

text \<open>The rest of a line that ends in \<open>fi\<close>, before its NUL.\<close>

definition fi_tail :: "cstring \<Rightarrow> bool" where
  "fi_tail p \<longleftrightarrow> p \<noteq> [] \<and> last p = CHR ''i'' \<and> (2 \<le> length p \<longrightarrow> p ! (length p - 2) = CHR ''f'')"

lemma fi_tail_drop: "fi_tail p \<Longrightarrow> n < length p \<Longrightarrow> fi_tail (drop n p)"
  by (auto simp: fi_tail_def)

lemma fi_tail_append: "fi_tail (s @ ''fi'')"
  by (simp add: fi_tail_def nth_append)

lemma fi_tail_long:
  assumes "fi_tail p" "deref p \<noteq> CHR ''f''" "deref p \<noteq> CHR ''i''"
  shows "2 < length p"
proof (cases p)
  case (Cons c q)
  show ?thesis
  proof (cases q)
    case Nil
    with assms Cons show ?thesis by (simp add: fi_tail_def deref_def)
  next
    case (Cons d r)
    with assms \<open>p = c # q\<close> show ?thesis by (cases r) (simp_all add: fi_tail_def deref_def)
  qed
qed (use assms in \<open>simp add: fi_tail_def\<close>)

lemma fi_tail_close: "fi_tail p \<Longrightarrow> deref p = CHR '']'' \<Longrightarrow> 2 < length p"
  by (rule fi_tail_long) simp_all

lemma fi_tail_open: "fi_tail p \<Longrightarrow> deref p = CHR ''['' \<Longrightarrow> 2 < length p"
  by (rule fi_tail_long) simp_all

lemma fi_tail_word: "fi_tail p \<Longrightarrow> tshellCheck p w \<Longrightarrow> w \<noteq> [] \<Longrightarrow> last w \<noteq> CHR ''i'' \<Longrightarrow> length w < length p"
proof -
  assume p: "fi_tail p" "tshellCheck p w" "w \<noteq> []" "last w \<noteq> CHR ''i''"
  have "tshellCheck p w \<Longrightarrow> \<exists>q. p = w @ q"
    by (induction p w rule: tshellCheck.induct) auto
  then obtain q where q: "p = w @ q" using p(2) by blast
  have "q \<noteq> []"
  proof
    assume "q = []"
    then have "last p = last w" using q by simp
    then show False using p(1,4) by (simp add: fi_tail_def)
  qed
  then show ?thesis using q by simp
qed

text \<open>A step that stays inside: no over-read, and the pointer is still before the NUL.\<close>

definition stays :: "(if_state \<times> cstring \<Rightarrow> if_outcome + if_state \<times> cstring) \<Rightarrow> bool" where
  "stays f \<longleftrightarrow> (\<forall>st p. fi_tail p \<longrightarrow>
     (case f (st, p) of Inl r \<Rightarrow> r \<noteq> If_Overread | Inr (st', p') \<Rightarrow> fi_tail p'))"

lemma stays_bind: "stays f \<Longrightarrow> stays g \<Longrightarrow> stays (\<lambda>sp. bind_res (f sp) g)"
  unfolding stays_def
proof (intro allI impI)
  fix st p
  assume f: "\<forall>st p. fi_tail p \<longrightarrow> (case f (st, p) of Inl r \<Rightarrow> r \<noteq> If_Overread | Inr (st', p') \<Rightarrow> fi_tail p')"
    and g: "\<forall>st p. fi_tail p \<longrightarrow> (case g (st, p) of Inl r \<Rightarrow> r \<noteq> If_Overread | Inr (st', p') \<Rightarrow> fi_tail p')"
    and p: "fi_tail p"
  have fp: "case f (st, p) of Inl r \<Rightarrow> r \<noteq> If_Overread | Inr (st', p') \<Rightarrow> fi_tail p'" using f p by blast
  show "case bind_res (f (st, p)) g of Inl r \<Rightarrow> r \<noteq> If_Overread | Inr (st', p') \<Rightarrow> fi_tail p'"
  proof (cases "f (st, p)")
    case (Inr sp)
    obtain st1 p1 where sp: "sp = (st1, p1)" by (cases sp)
    with fp Inr have "fi_tail p1" by simp
    with g Inr sp show ?thesis by simp
  qed (use fp in simp)
qed

lemma advance_stays: "fi_tail p \<Longrightarrow> n < length p \<Longrightarrow> advance n p = Inr (drop n p) \<and> fi_tail (drop n p)"
  by (simp add: advance_def fi_tail_drop)

lemma stays_word:
  "(\<And>p st. fi_tail p \<Longrightarrow> f (st, p) = (if P st \<and> tshellCheck p w then bind_res (advance (length w) p) (\<lambda>p. Inr (g st, p)) else Inr (st, p)))
    \<Longrightarrow> w \<noteq> [] \<Longrightarrow> last w \<noteq> CHR ''i'' \<Longrightarrow> stays f"
  unfolding stays_def using fi_tail_word advance_stays by auto

lemma stays_steps:
  "stays step_open" "stays step_close" "stays step_then" "stays step_elif" "stays step_else" "stays step_switch"
proof -
  show "stays step_open"
    unfolding stays_def
  proof (intro allI impI)
    fix st p assume p: "fi_tail p"
    show "case step_open (st, p) of Inl r \<Rightarrow> r \<noteq> If_Overread | Inr (st', p') \<Rightarrow> fi_tail p'"
      using fi_tail_open[OF p] advance_stays[OF p, of 1] advance_stays[OF fi_tail_drop[OF p, of 1], of 1] p
      by (auto simp: step_open_def)
  qed
  show "stays step_close"
    unfolding stays_def
  proof (intro allI impI)
    fix st p assume p: "fi_tail p"
    show "case step_close (st, p) of Inl r \<Rightarrow> r \<noteq> If_Overread | Inr (st', p') \<Rightarrow> fi_tail p'"
    proof (cases "status st = 1 \<and> deref p = CHR '']''")
      case True
      then have l: "2 < length p" using fi_tail_close[OF p] by simp
      have "deref (drop 1 p) = CHR '']'' \<Longrightarrow> 2 < length (drop 1 p)"
        using fi_tail_close[OF fi_tail_drop[OF p, of 1]] l by simp
      with True l p advance_stays[OF p, of 1] advance_stays[OF p, of 2]
        advance_stays[OF fi_tail_drop[OF p, of 1], of 2]
      show ?thesis by (auto simp: step_close_def split: option.splits)
    qed (use p in \<open>auto simp: step_close_def\<close>)
  qed
  show "stays step_then"
    by (rule stays_word[where w = "''then''" and P = "\<lambda>st. status st = 2" and g = "\<lambda>st. st\<lparr>status := 4\<rparr>"])
      (simp_all add: step_then_def numeral_eq_Suc)
  show "stays step_elif"
    by (rule stays_word[where w = "''elif''" and P = "\<lambda>st. status st = 3" and
          g = "\<lambda>st. st\<lparr>left := [], right := [], status := 0\<rparr>"])
      (simp_all add: step_elif_def numeral_eq_Suc)
  show "stays step_else"
    by (rule stays_word[where w = "''else''" and P = "\<lambda>st. status st = 3" and g = "\<lambda>st. st\<lparr>status := 4\<rparr>"])
      (simp_all add: step_else_def numeral_eq_Suc)
  have two: "tshellCheck p [c, d] \<Longrightarrow> fi_tail p \<Longrightarrow> d \<noteq> CHR ''i'' \<Longrightarrow> 1 < length p" for p c d
    using fi_tail_word[of p "[c, d]"] by simp
  show "stays step_switch"
    unfolding stays_def
  proof (intro allI impI)
    fix st p assume p: "fi_tail p"
    show "case step_switch (st, p) of Inl r \<Rightarrow> r \<noteq> If_Overread | Inr (st', p') \<Rightarrow> fi_tail p'"
      using p advance_stays[OF p, of 1] two[OF _ p]
      by (auto simp: step_switch_def step_left_def step_right_def Let_def simp del: tshellCheck.simps)
  qed
qed

lemma stays_if_steps: "stays if_steps"
  unfolding if_steps_def[abs_def] by (intro stays_bind stays_steps)

lemma if_loop_no_overread: "p = [] \<or> fi_tail p \<Longrightarrow> if_loop st p \<noteq> If_Overread"
proof (induction st p rule: if_loop.induct)
  case (2 st c s)
  then have ft: "fi_tail (c # s)" by simp
  show ?case
  proof (cases "if_steps (st, c # s)")
    case (Inl r)
    have "case if_steps (st, c # s) of Inl r \<Rightarrow> r \<noteq> If_Overread | Inr (st', p') \<Rightarrow> fi_tail p'"
      using stays_if_steps ft unfolding stays_def by blast
    with Inl show ?thesis by (simp add: if_iteration_def)
  next
    case (Inr sp)
    obtain st1 p1 where sp: "sp = (st1, p1)" by (cases sp)
    have "case if_steps (st, c # s) of Inl r \<Rightarrow> r \<noteq> If_Overread | Inr (st', p') \<Rightarrow> fi_tail p'"
      using stays_if_steps ft unfolding stays_def by blast
    then have f1: "fi_tail p1" using Inr sp by simp
    then have it: "if_iteration (st, c # s) = Inr (st1, drop 1 p1)"
      using Inr sp by (cases p1) (auto simp: if_iteration_def advance_def fi_tail_def)
    have "drop 1 p1 = [] \<or> fi_tail (drop 1 p1)" using fi_tail_drop[OF f1, of 1] by (cases "1 < length p1") auto
    with 2(1)[OF it refl] it show ?thesis by simp
  qed
qed simp

lemma skip_blanks_suffix: "\<exists>b. s = b @ skip_blanks s"
proof -
  have "skip_blanks s = dropWhile (\<lambda>c. c = BLANK) s" by (induction s) auto
  then show ?thesis by (metis takeWhile_dropWhile_id)
qed

section \<open>Properties\<close>

text \<open>
  The \<open>if\<close> parser reads inside the line.  For every non-empty line, whatever byte stands before
  the buffer, it never steps over the terminating NUL.
\<close>

theorem if_stays_in_line:
  "tshellIfElse before (c # s) \<noteq> If_Overread"
proof (cases "tshellCheck (tail2 before (c # s)) ''fi'' \<and> tshellCheck (skip_blanks (c # s)) ''if''")
  case True
  let ?l = "c # s" and ?p = "skip_blanks (c # s)"
  obtain b where b: "?l = b @ ?p" using skip_blanks_suffix by blast
  have "\<exists>q. ?p = ''if'' @ q"
    using True by (cases ?p; cases "tl ?p") auto
  then obtain q where q: "?p = ''if'' @ q" by blast
  have len: "2 \<le> length ?l" using b q by (metis append_Nil length_append length_Cons le_add2 le_add1
        One_nat_def Suc_eq_plus1 add.commute list.size(3) one_add_one order_trans trans_le_add2 append_Cons)
  have t2: "tail2 before ?l = drop (length ?l - 2) ?l"
    using len by (cases s) (auto simp: tail2_def Suc_diff_le drop_Cons')
  have "q = [] \<or> fi_tail q"
  proof (cases "q = []")
    case False
    have "\<exists>x. ?l = x @ ''fi''"
    proof -
      have "length (drop (length ?l - 2) ?l) = 2" using len by simp
      moreover have "tshellCheck (drop (length ?l - 2) ?l) ''fi''" using True t2 by simp
      ultimately have "drop (length ?l - 2) ?l = ''fi''"
        by (cases "drop (length ?l - 2) ?l"; cases "tl (drop (length ?l - 2) ?l)") auto
      then show ?thesis by (metis append_take_drop_id)
    qed
    then have "fi_tail ?l" using fi_tail_append by metis
    moreover have "q = drop (length b + 2) ?l" using b q by simp
    moreover have "length b + 2 < length ?l" using b q False by (metis (no_types) append_Nil2 drop_all linorder_not_less calculation(2))
    ultimately show ?thesis using fi_tail_drop by metis
  qed simp
  then have "if_loop if_init q \<noteq> If_Overread" by (rule if_loop_no_overread)
  with True q show ?thesis by (simp add: tshellIfElse_def Let_def)
qed (auto simp: tshellIfElse_def Let_def)


definition demo_chain :: "clause list" where
  "demo_chain =
     [\<lparr>cl_left = ''3'', cl_op = Op_Lt, cl_right = ''2'', cl_body = '' ls ''\<rparr>,
      \<lparr>cl_left = ''12'', cl_op = Op_Eq, cl_right = ''12'', cl_body = '' echo a ''\<rparr>]"

lemma demo_chain_ok: "chain_ok demo_chain (Some '' ps '') \<and> demo_chain \<noteq> []"
  by (simp add: demo_chain_def cond_text_def operand_ok_def operand_char_def ends_body_def)

lemma demo_chain_eval: "chain_eval demo_chain (Some '' ps '') = If_Run '' echo a ''"
  by code_simp


text \<open>
  A comparison of strings never finds them equal.  In \<open>[[ l == r ]]\<close> the loop over the operands
  does not advance, so it never ends when they start with the same character, and the answer is
  never \<open>0\<close> otherwise.
\<close>

theorem string_equality_unreachable:
  assumes "l \<noteq> []" and "r \<noteq> []"
  shows "compare_strings a l r \<noteq> Some 0 \<and> (hd l = hd r \<longleftrightarrow> compare_strings a l r = None)"
  using assms by (simp add: compare_strings_def)

lemma string_equality_unreachable_witness: "compare_strings (- 1) ''abc'' ''abc'' = None"
  using string_equality_unreachable[of "''abc''" "''abc''" "- 1"] by simp

end
