(* ===== verification/ShellExec.thy ===== *)
theory ShellExec
  imports Keyword VarDefine ShellIf
begin

unbundle bit_operations_syntax

text \<open>
  The execution of a command line, \<open>__tshellExec\<close> of \<open>ttinyShell/ttinyShellLib.c\<close>, with the functions it
  uses: \<open>__tshellIsResCmd\<close>, \<open>__tshellCheckFile\<close>, \<open>__tshellUndef\<close>, \<open>__tshellRedir\<close>,
  \<open>__tshellWrapper\<close>, \<open>__tshellPreTreatedBg\<close>.

  What lies outside, the commands themselves, the files, background threads and the memory, is the
  record \<open>os\<close> of functions on the state \<open>shell\<close>.  \<open>__tshellExec\<close> calls itself; the argument of type
  \<open>nat\<close> bounds the depth of the calls, and running out of it is the fault \<open>No_Fuel\<close>.
\<close>

section \<open>State\<close>

record 'w shell =
  sh_keys :: keyword_state
  sh_vars :: var_state
  sh_error :: int
  sh_magic :: addr
  sh_std :: "nat \<Rightarrow> int"
  sh_cleanup :: "int list"
  sh_world :: 'w

datatype exec_fault =
    No_Fuel | If_Loops | If_Reads_Beyond | Line_Underflow | Stack_Overwritten | Argv_Overwritten
  | Search_Endless | Var_Fault var_fault

type_synonym 'w result = "exec_fault + int \<times> 'w shell"

record 'w os =
  os_run :: "addr \<Rightarrow> cstring list \<Rightarrow> 'w shell \<Rightarrow> int \<times> 'w shell"
  os_hook :: "(cstring \<Rightarrow> 'w shell \<Rightarrow> 'w shell) option"
  os_is_file :: "cstring \<Rightarrow> 'w shell \<Rightarrow> bool"
  os_path_mem :: "'w shell \<Rightarrow> bool"
  os_open :: "cstring \<Rightarrow> 16 word \<Rightarrow> 'w shell \<Rightarrow> int \<times> 'w shell"
  os_close :: "int \<Rightarrow> 'w shell \<Rightarrow> 'w shell"
  os_background :: "int \<Rightarrow> cstring \<Rightarrow> 32 word \<Rightarrow> bool \<Rightarrow> addr \<Rightarrow> 'w shell \<Rightarrow> int \<times> 'w shell"
  os_allocs :: "'w shell \<Rightarrow> var_allocs"
  os_before :: c_char

section \<open>Commands that are files\<close>

definition res_buildin_cmd :: "cstring list" where
  "res_buildin_cmd =
     [''help'', ''ts'', ''tp'', ''wjs'', ''ps'', ''modules'', ''ints'', ''cpuus'', ''sem'', ''msgq'']"

definition tshellIsResCmd :: "cstring \<Rightarrow> bool" where
  "tshellIsResCmd pcKeyword \<longleftrightarrow> (\<exists>k \<in> set res_buildin_cmd. lib_strcmp pcKeyword k = 0)"

definition MAX_FILENAME_LENGTH :: nat where
  "MAX_FILENAME_LENGTH = 513"

fun path_loop :: "(cstring \<Rightarrow> bool) \<Rightarrow> cstring \<Rightarrow> cstring \<Rightarrow> cstring \<Rightarrow> bool" where
  "path_loop isf kw dir [] \<longleftrightarrow> isf (take (MAX_FILENAME_LENGTH - 1) (dir @ ''/'' @ kw))"
| "path_loop isf kw dir (c # s) \<longleftrightarrow>
     (if c = CHR '':'' then isf (take (MAX_FILENAME_LENGTH - 1) (dir @ ''/'' @ kw)) \<or> path_loop isf kw [] s
      else path_loop isf kw (dir @ [c]) s)"

definition tshellCheckFile :: "'w os \<Rightarrow> cstring \<Rightarrow> 'w shell \<Rightarrow> exec_fault + bool" where
  "tshellCheckFile os pcKeyword sh =
     (if lib_index pcKeyword CHR ''/'' \<noteq> None then Inr (os_is_file os pcKeyword sh)
      else if \<not> os_path_mem os sh then Inr False
      else case TShellVarGetRt (Some ''PATH'') (Some []) MAX_FILENAME_LENGTH (sh_vars sh) of
          Inl f \<Rightarrow> Inl (Var_Fault f)
        | Inr (r, buf) \<Rightarrow>
            if r < 0 then Inr False
            else Inr (path_loop (\<lambda>f. os_is_file os f sh) pcKeyword [] (case buf of None \<Rightarrow> [] | Some b \<Rightarrow> b)))"

definition tshellUndef :: "'w os \<Rightarrow> cstring \<Rightarrow> 'w shell \<Rightarrow> exec_fault + tshell_error \<times> 'w shell" where
  "tshellUndef os pcCmd sh =
     (case tshellVarDefine (os_allocs os sh) pcCmd (sh_vars sh) of
        Inl f \<Rightarrow> Inl (Var_Fault f)
      | Inr (e, vars) \<Rightarrow> Inr (e, sh\<lparr>sh_vars := vars\<rparr>))"

section \<open>Redirection\<close>

definition O_WRONLY :: "16 word" where "O_WRONLY = 0x0001"
definition O_APPEND :: "16 word" where "O_APPEND = 0x0008"
definition O_CREAT :: "16 word" where "O_CREAT = 0x0200"
definition O_TRUNC :: "16 word" where "O_TRUNC = 0x0400"

definition IoTaskStdSet :: "nat \<Rightarrow> int \<Rightarrow> 'w shell \<Rightarrow> 'w shell" where
  "IoTaskStdSet n fd sh = sh\<lparr>sh_std := (sh_std sh)(n := fd)\<rparr>"

definition set_outputs :: "int \<Rightarrow> int \<Rightarrow> 'w shell \<Rightarrow> 'w shell" where
  "set_outputs iOutOpt iFd sh =
     (let sh = (if iOutOpt AND 1 \<noteq> 0 then IoTaskStdSet 1 iFd sh else sh)
      in if iOutOpt AND 2 \<noteq> 0 then IoTaskStdSet 2 iFd sh else sh)"

text \<open>
  \<open>pre\<close> is the parameter before the redirection character, \<open>redir\<close> the rest from that character on.
  The result is \<open>None\<close> for \<open>PX_ERROR\<close>.
\<close>

definition tshellRedir :: "'w os \<Rightarrow> cstring \<Rightarrow> cstring \<Rightarrow> 'w shell \<Rightarrow> bool \<times> 'w shell" where
  "tshellRedir os pre redir sh =
     (let c = deref redir;
          append = (c = deref (drop 1 redir));
          iFlag = O_CREAT OR O_WRONLY OR (if append then O_APPEND else O_TRUNC);
          pcFile = (if append then drop 2 redir else drop 1 redir);
          pcFile = (if deref pcFile = CHR ''&'' then drop 1 pcFile else pcFile) in
      if pcFile = [] then (False, sh)
      else if c = CHR ''>'' then
        (let iOutOpt = (if pre = [] then 1
                        else if hd pre = CHR ''&'' then 1 OR 2
                        else if hd pre = CHR ''1'' then 1
                        else if hd pre = CHR ''2'' then 2 else 1 :: int) in
         if lib_strlen pcFile = 1 \<and> schar (hd pcFile) \<ge> schar CHR ''0'' \<and> schar (hd pcFile) \<le> schar CHR ''2''
         then (True, set_outputs iOutOpt (sh_std sh (uchar (hd pcFile) - uchar CHR ''0'')) sh)
         else
           (let (iFd, sh) = os_open os pcFile iFlag sh in
            if iFd < 0 then (False, sh)
            else (True, set_outputs iOutOpt iFd (sh\<lparr>sh_cleanup := iFd # sh_cleanup sh\<rparr>))))
      else
        (let iFlag = iFlag AND NOT O_TRUNC;
             (iFd, sh) = os_open os pcFile iFlag sh in
         if iFd < 0 then (False, sh)
         else (True, IoTaskStdSet 0 iFd (sh\<lparr>sh_cleanup := iFd # sh_cleanup sh\<rparr>))))"

definition find_redir :: "cstring \<Rightarrow> nat option" where
  "find_redir arg =
     (case lib_index arg CHR ''<'' of None \<Rightarrow> lib_index arg CHR ''>'' | Some i \<Rightarrow> Some i)"

text \<open>
  The loop over the parameters: \<open>i\<close> is the index, \<open>n\<close> the number of parameters that the command will
  get; the result has \<open>False\<close> when a redirection failed.
\<close>

fun redir_loop :: "'w os \<Rightarrow> nat \<Rightarrow> nat \<Rightarrow> cstring list \<Rightarrow> 'w shell \<Rightarrow> bool \<times> nat \<times> 'w shell" where
  "redir_loop os i n [] sh = (True, n, sh)"
| "redir_loop os i n (arg # args) sh =
     (case find_redir arg of
        None \<Rightarrow> redir_loop os (Suc i) n args sh
      | Some k \<Rightarrow>
          (let (ok, sh) = tshellRedir os (take k arg) (drop k arg) sh in
           if \<not> ok then (False, n, sh)
           else redir_loop os (Suc i) (if n > i then i else n) args sh))"

fun close_redirs :: "'w os \<Rightarrow> nat \<Rightarrow> 'w shell \<Rightarrow> 'w shell" where
  "close_redirs os 0 sh = sh"
| "close_redirs os (Suc n) sh =
     (case sh_cleanup sh of
        [] \<Rightarrow> sh
      | fd # fds \<Rightarrow>
          (let sh = sh\<lparr>sh_cleanup := fds\<rparr>;
               sh = (if fd \<ge> 0 then os_close os fd sh else sh)
           in close_redirs os n sh))"

definition restore_std :: "(nat \<Rightarrow> int) \<Rightarrow> 'w shell \<Rightarrow> 'w shell" where
  "restore_std old sh =
     IoTaskStdSet 2 (old 2) (IoTaskStdSet 1 (old 1) (IoTaskStdSet 0 (old 0) sh))"

text \<open>
  The parameter list has \<open>LW_CFG_SHELL_MAX_PARAMNUM + 1\<close> places, so a NULL may be stored at index
  \<open>LW_CFG_SHELL_MAX_PARAMNUM\<close> at most.
\<close>

definition tshellWrapper :: "'w os \<Rightarrow> addr \<Rightarrow> cstring list \<Rightarrow> 'w shell \<Rightarrow> 'w result" where
  "tshellWrapper os pfuncCommand argv sh =
     (let iArgC = length argv in
      if iArgC < 2 then Inr (os_run os pfuncCommand argv sh)
      else
        (let old = sh_std sh;
             depth = length (sh_cleanup sh);
             (ok, iRealArgc, sh) = redir_loop os 1 iArgC (tl argv) sh;
             iPopCnt = length (sh_cleanup sh) - depth in
         if \<not> ok then Inr (- 1, close_redirs os iPopCnt (restore_std old sh))
         else if iRealArgc > LW_CFG_SHELL_MAX_PARAMNUM then Inl Argv_Overwritten
         else
           (let (iRet, sh) = os_run os pfuncCommand (take iRealArgc argv) sh
            in Inr (iRet, close_redirs os iPopCnt (restore_std old sh)))))"

section \<open>Background marks\<close>

definition TTINY_SHELL_BG_ASYNC :: c_char where "TTINY_SHELL_BG_ASYNC = CHR ''&''"
definition TTINY_SHELL_BG_JOIN :: c_char where "TTINY_SHELL_BG_JOIN = CHR ''^''"

text \<open>The loop that removes the marks at the end; the first character of the line is never removed.\<close>

fun strip_marks :: "cstring \<Rightarrow> cstring" where
  "strip_marks [] = []"
| "strip_marks [c] = [c]"
| "strip_marks (c # d # r) =
     (if c = TTINY_SHELL_BG_JOIN \<or> c = TTINY_SHELL_BG_ASYNC \<or> c = EOS then strip_marks (d # r)
      else c # d # r)"

definition tshellPreTreatedBg :: "cstring \<Rightarrow> (cstring \<times> bool \<times> bool) option" where
  "tshellPreTreatedBg cCommand =
     (case tshellStrDelCRLF cCommand of
        None \<Rightarrow> None
      | Some s \<Rightarrow>
          (let s = tshellStrFormat s in
           if lib_strlen s < 1 then Some (s, False, False)
           else if last s = TTINY_SHELL_BG_JOIN then Some (rev (strip_marks (rev s)), True, False)
           else if last s = TTINY_SHELL_BG_ASYNC then Some (rev (strip_marks (rev s)), False, True)
           else Some (s, False, False)))"

section \<open>Splitting a line at an operator\<close>

text \<open>
  The loop of \<open>__tshellExec\<close> over the line: \<open>i1\<close> and \<open>i2\<close> count consecutive bars and ampersands,
  \<open>pre\<close> is what has been passed (and copied to \<open>firstCmd\<close>).  The result names the operator that ends
  the loop, with the text before it (for a pipe: with the bar) and the text after it.
\<close>

datatype split =
    No_Split
  | Split_Pipe bool cstring cstring
  | Split_Or cstring cstring
  | Split_And cstring cstring
  | Split_Seq cstring cstring

fun scan_line :: "nat \<Rightarrow> nat \<Rightarrow> cstring \<Rightarrow> cstring \<Rightarrow> split" where
  "scan_line i1 i2 pre [] = No_Split"
| "scan_line i1 i2 pre (c # s) =
     (if c \<noteq> CHR ''|'' \<and> i1 = 1 then
        (if c = CHR ''&'' then Split_Pipe True pre s else Split_Pipe False pre (c # s))
      else
        (let i1 = (if c = CHR ''|'' then i1 + 1 else 0) in
         if i1 = 2 then Split_Or (butlast pre) s
         else
           (let i2 = (if c = CHR ''&'' then i2 + 1 else 0) in
            if i2 = 2 then Split_And (butlast pre) s
            else if c = CHR '';'' then Split_Seq pre s
            else scan_line i1 i2 (pre @ [c]) s)))"

definition pipe_first :: "bool \<Rightarrow> cstring \<Rightarrow> cstring" where
  "pipe_first both pre =
     butlast pre @ (if both then ''1>/etc/.log 2>/etc/.log'' else ''>/etc/.log'')"

fun pipe_second :: "bool \<Rightarrow> cstring \<Rightarrow> cstring" where
  "pipe_second pass [] = (if pass then '' /etc/.log'' else [])"
| "pipe_second pass (c # s) =
     (if (c = CHR ''&'' \<and> deref s = CHR ''&'') \<or> c = CHR ''|'' \<or> c = CHR '';''
      then (if pass then '' /etc/.log '' else []) @ c # pipe_second False s
      else c # pipe_second pass s)"

definition rm_cmd :: cstring where
  "rm_cmd = ''rm /etc/.log''"

section \<open>One command\<close>

fun parse_params :: "nat \<Rightarrow> cstring \<Rightarrow> cstring list" where
  "parse_params 0 s = [s]"
| "parse_params (Suc n) s =
     (case tshellStrGetToken (Some s) of
        Inl e \<Rightarrow> [s]
      | Inr (tok, None) \<Rightarrow> [tshellStrDelTransChar tok]
      | Inr (tok, Some r) \<Rightarrow> tshellStrDelTransChar tok # parse_params n r)"

definition is_alpha :: "c_char \<Rightarrow> bool" where
  "is_alpha c \<longleftrightarrow> (65 \<le> uchar c \<and> uchar c \<le> 90) \<or> (97 \<le> uchar c \<and> uchar c \<le> 122)"

definition LW_OPTION_KEYWORD_SYNCBG :: "32 word" where "LW_OPTION_KEYWORD_SYNCBG = 1"
definition LW_OPTION_KEYWORD_ASYNCBG :: "32 word" where "LW_OPTION_KEYWORD_ASYNCBG = 2"

definition call_hook :: "'w os \<Rightarrow> cstring \<Rightarrow> 'w shell \<Rightarrow> 'w shell" where
  "call_hook os cKeyword sh =
     (case os_hook os of
        None \<Rightarrow> sh
      | Some f \<Rightarrow>
          (case dropWhile (\<lambda>c. \<not> is_alpha c) cKeyword of [] \<Rightarrow> sh | c # s \<Rightarrow> f (c # s) sh))"

definition exec_simple :: "'w os \<Rightarrow> cstring \<Rightarrow> 'w shell \<Rightarrow> 'w result" where
  "exec_simple os cCommandBuffer sh =
     (case tshellPreTreatedBg cCommandBuffer of
        None \<Rightarrow> Inl Line_Underflow
      | Some (buf, needJoin, needAsyn) \<Rightarrow>
          (case tshellStrKeyword buf of
             Inl e \<Rightarrow> bind_res (tshellUndef os buf sh) (\<lambda>(e, sh). Inr (- error_number e, sh))
           | Inr (kw, pcParam) \<Rightarrow>
               (let sh = call_hook os kw sh in
                bind_res (if tshellIsResCmd kw then Inr False else tshellCheckFile os kw sh)
                  (\<lambda>isfile.
                     let (kw, pcParam) = (if isfile then (''exec'', Some buf) else (kw, pcParam)) in
                     case tshellKeywordFind kw (sh_keys sh) of
                       None \<Rightarrow> Inl Search_Endless
                     | Some (Inl e) \<Rightarrow>
                         bind_res (tshellUndef os buf sh)
                           (\<lambda>(e, sh). if e \<noteq> ERROR_NONE
                              then Inr (- error_number ERROR_TSHELL_CMDNOTFUND, sh) else Inr (0, sh))
                     | Some (Inr a) \<Rightarrow>
                         (let n = node_of (sh_keys sh) a; opt = SK_ulOption n in
                          if (opt AND LW_OPTION_KEYWORD_SYNCBG \<noteq> 0 \<or> opt AND LW_OPTION_KEYWORD_ASYNCBG \<noteq> 0) \<and>
                             sh_magic sh \<noteq> a
                          then
                            (let bIsJoin = (if needJoin then True else if needAsyn then False
                                            else opt AND LW_OPTION_KEYWORD_SYNCBG \<noteq> 0)
                             in Inr (os_background os (sh_std sh 1) buf opt bIsJoin a sh))
                          else
                            (let sh = sh\<lparr>sh_magic := 0\<rparr> in
                             if needJoin \<or> needAsyn
                             then Inr (os_background os (sh_std sh 1) buf opt needJoin 0 sh)
                             else case pcParam of
                                 None \<Rightarrow> Inr (os_run os (SK_pfuncCommand n) [kw] sh)
                               | Some p \<Rightarrow>
                                   tshellWrapper os (SK_pfuncCommand n)
                                     (kw # parse_params (LW_CFG_SHELL_MAX_PARAMNUM - 1) p) sh))))))"

section \<open>A line\<close>

fun skip_white :: "cstring \<Rightarrow> cstring" where
  "skip_white [] = []"
| "skip_white (c # s) = (if c = BLANK \<or> c = TAB \<or> c = CR \<or> c = LF then skip_white s else c # s)"

text \<open>The part of \<open>__tshellExec\<close> after the check for \<open>if\<close>; \<open>again\<close> stands for the recursive calls.\<close>

definition exec_split ::
    "'w os \<Rightarrow> (cstring \<Rightarrow> 'w shell \<Rightarrow> 'w result) \<Rightarrow> cstring \<Rightarrow> cstring \<Rightarrow> 'w shell \<Rightarrow> 'w result" where
  "exec_split os again pcCmd cCommandBuffer sh =
     (case scan_line 0 0 [] pcCmd of
        No_Split \<Rightarrow> exec_simple os cCommandBuffer sh
      | Split_Or a b \<Rightarrow>
          bind_res (again a sh) (\<lambda>(first, sh). if first < 0 then again b sh else Inr (first, sh))
      | Split_And a b \<Rightarrow>
          bind_res (again a sh) (\<lambda>(first, sh). if first \<ge> 0 then again b sh else Inr (first, sh))
      | Split_Seq a b \<Rightarrow>
          bind_res (again a sh) (\<lambda>(error1, sh).
            bind_res (again b sh) (\<lambda>(error2, sh). Inr (min error1 error2, sh)))
      | Split_Pipe both pre rest \<Rightarrow>
          if both \<and> length pre + 23 > lib_strnlen pcCmd (LW_CFG_SHELL_MAX_COMMANDLEN + 1) + 20
          then Inl Stack_Overwritten
          else
            bind_res (again (pipe_first both pre) sh) (\<lambda>(first, sh).
              if first < 0 \<and> \<not> both
              then bind_res (again rm_cmd sh) (\<lambda>(r, sh). Inr (first, sh))
              else
                bind_res (again (pipe_second True rest) sh) (\<lambda>(second, sh).
                  bind_res (again rm_cmd sh) (\<lambda>(r, sh). Inr (second, sh)))))"

definition exec_step ::
    "'w os \<Rightarrow> (cstring \<Rightarrow> 'w shell \<Rightarrow> 'w result) \<Rightarrow> cstring \<Rightarrow> 'w shell \<Rightarrow> 'w result" where
  "exec_step os again pcCommandExec sh =
     (let pcCmd = skip_white pcCommandExec in
      if pcCmd = [] then Inr (0, sh)
      else if hd pcCmd = CHR ''#'' then Inr (0, sh)
      else
        (let stStrLen = lib_strnlen pcCmd (LW_CFG_SHELL_MAX_COMMANDLEN + 1) in
         if stStrLen > LW_CFG_SHELL_MAX_COMMANDLEN - 1 \<or> stStrLen < 1
         then Inr (- error_number ERROR_TSHELL_EPARAM, sh)
         else
           (case tshellStrConvertVar (sh_error sh) (sh_vars sh) pcCmd of
              Inl f \<Rightarrow> Inl (Var_Fault f)
            | Inr (ulError, cCommandBuffer) \<Rightarrow>
                if ulError \<noteq> ERROR_NONE then Inr (- error_number ulError, sh)
                else
                  (case tshellIfElse (os_before os) cCommandBuffer of
                     If_Not \<Rightarrow> exec_split os again pcCmd cCommandBuffer sh
                   | If_Error \<Rightarrow> Inr (- 2200, sh)
                   | If_Diverge \<Rightarrow> Inl If_Loops
                   | If_Overread \<Rightarrow> Inl If_Reads_Beyond
                   | If_Run body \<Rightarrow>
                       bind_res (again body sh) (\<lambda>(r, sh).
                         if r \<noteq> 76767 then Inr (r, sh)
                         else exec_split os again pcCmd cCommandBuffer sh)))))"

fun tshellExec :: "'w os \<Rightarrow> nat \<Rightarrow> cstring \<Rightarrow> 'w shell \<Rightarrow> 'w result" where
  "tshellExec os 0 pcCommandExec sh = Inl No_Fuel"
| "tshellExec os (Suc n) pcCommandExec sh = exec_step os (tshellExec os n) pcCommandExec sh"

end
