(* ===== verification/ShellFuel.thy ===== *)
theory ShellFuel
  imports ShellExec
begin

text \<open>
  Termination of \<open>__tshellExec\<close>.  Each split at an operator leaves lines with fewer operator
  characters; the branch of an \<open>if\<close> has no \<open>fi\<close> in it, and neither expansion nor splitting makes a
  line that ends in \<open>fi\<close> from one without \<open>fi\<close>, so no \<open>if\<close> runs below an \<open>if\<close>.
\<close>

section \<open>Fuel\<close>

definition op_char :: "c_char \<Rightarrow> bool" where
  "op_char c \<longleftrightarrow> c = CHR ''|'' \<or> c = CHR ''&'' \<or> c = CHR '';''"

definition ops :: "cstring \<Rightarrow> nat" where
  "ops s = length (filter op_char s)"

lemma ops_simps [simp]:
  "ops [] = 0" "ops (c # s) = (if op_char c then Suc (ops s) else ops s)" "ops (s @ t) = ops s + ops t"
  by (simp_all add: ops_def)

lemma ops_length: "ops s \<le> length s"
  by (simp add: ops_def)

lemma ops_pipe_second: "ops (pipe_second pass s) = ops s"
  by (induction pass s rule: pipe_second.induct) (auto simp: op_char_def)

text \<open>What the loop over the line yields.\<close>

definition split_ok :: "cstring \<Rightarrow> cstring \<Rightarrow> split \<Rightarrow> bool" where
  "split_ok pre s r \<longleftrightarrow>
     (case r of
        No_Split \<Rightarrow> True
      | Split_Pipe both a b \<Rightarrow>
          (\<exists>x. a = x @ ''|'' \<and> x @ (if both then ''|&'' else ''|'') @ b = pre @ s)
      | Split_Or a b \<Rightarrow> a @ ''||'' @ b = pre @ s
      | Split_And a b \<Rightarrow> a @ ''&&'' @ b = pre @ s
      | Split_Seq a b \<Rightarrow> a @ '';'' @ b = pre @ s)"

lemma split_ok_shift: "split_ok (pre @ [c]) s r \<Longrightarrow> split_ok pre (c # s) r"
  by (cases r) (simp_all add: split_ok_def)

lemma scan_line_ok:
  "i1 \<le> 1 \<Longrightarrow> i2 \<le> 1 \<Longrightarrow> (i1 = 1 \<Longrightarrow> \<exists>x. pre = x @ ''|'') \<Longrightarrow> (i2 = 1 \<Longrightarrow> \<exists>x. pre = x @ ''&'') \<Longrightarrow>
     split_ok pre s (scan_line i1 i2 pre s)"
proof (induction i1 i2 pre s rule: scan_line.induct)
  case (1 i1 i2 pre)
  then show ?case by (simp add: split_ok_def)
next
  case (2 i1 i2 pre c s)
  show ?case
  proof (cases "c \<noteq> CHR ''|'' \<and> i1 = 1")
    case True
    then obtain x where "pre = x @ ''|''" using 2(4) by blast
    then show ?thesis using True by (simp add: split_ok_def)
  next
    case nosplit: False
    let ?i1 = "if c = CHR ''|'' then i1 + 1 else 0" and ?i2 = "if c = CHR ''&'' then i2 + 1 else 0"
    show ?thesis
    proof (cases "?i1 = 2")
      case True
      then obtain x where "pre = x @ ''|''" using 2(2,4) by (auto split: if_splits)
      moreover have "c = CHR ''|''" using True by (auto split: if_splits)
      ultimately show ?thesis using True nosplit by (simp add: split_ok_def)
    next
      case no1: False
      show ?thesis
      proof (cases "?i2 = 2")
        case True
        then obtain x where "pre = x @ ''&''" using 2(3,5) by (auto split: if_splits)
        moreover have "c = CHR ''&''" using True by (auto split: if_splits)
        ultimately show ?thesis using True nosplit no1 by (simp add: split_ok_def Let_def)
      next
        case no2: False
        show ?thesis
        proof (cases "c = CHR '';''")
          case True
          then show ?thesis using nosplit no1 no2 by (simp add: split_ok_def Let_def)
        next
          case False
          have "split_ok (pre @ [c]) s (scan_line ?i1 ?i2 (pre @ [c]) s)"
            by (rule 2(1)) (use nosplit no1 no2 False 2(2,3) in \<open>auto split: if_splits\<close>)
          then have "split_ok pre (c # s) (scan_line ?i1 ?i2 (pre @ [c]) s)" by (rule split_ok_shift)
          moreover have "scan_line i1 i2 pre (c # s) = scan_line ?i1 ?i2 (pre @ [c]) s"
            using nosplit no1 no2 False unfolding scan_line.simps Let_def by (simp only: if_False)
          ultimately show ?thesis by simp
        qed
      qed
    qed
  qed
qed

lemma scan_line_split: "split_ok [] s (scan_line 0 0 [] s)"
  by (rule scan_line_ok) simp_all

lemma ops_split:
  "scan_line 0 0 [] s = Split_Pipe both a b \<Longrightarrow> ops (pipe_first both a) < ops s \<and> ops (pipe_second True b) < ops s"
  "scan_line 0 0 [] s = Split_Or a b \<Longrightarrow> ops a < ops s \<and> ops b < ops s"
  "scan_line 0 0 [] s = Split_And a b \<Longrightarrow> ops a < ops s \<and> ops b < ops s"
  "scan_line 0 0 [] s = Split_Seq a b \<Longrightarrow> ops a < ops s \<and> ops b < ops s"
proof -
  have cat: "x = y \<Longrightarrow> ops x = ops y" for x y by simp
  show "scan_line 0 0 [] s = Split_Pipe both a b \<Longrightarrow> ops (pipe_first both a) < ops s \<and> ops (pipe_second True b) < ops s"
    using scan_line_split[of s]
    by (auto simp: split_ok_def pipe_first_def op_char_def ops_pipe_second butlast_append dest!: cat)
  show "scan_line 0 0 [] s = Split_Or a b \<Longrightarrow> ops a < ops s \<and> ops b < ops s"
    using scan_line_split[of s] by (auto simp: split_ok_def op_char_def dest!: cat)
  show "scan_line 0 0 [] s = Split_And a b \<Longrightarrow> ops a < ops s \<and> ops b < ops s"
    using scan_line_split[of s] by (auto simp: split_ok_def op_char_def dest!: cat)
  show "scan_line 0 0 [] s = Split_Seq a b \<Longrightarrow> ops a < ops s \<and> ops b < ops s"
    using scan_line_split[of s] by (auto simp: split_ok_def op_char_def dest!: cat)
qed

section \<open>The text of a branch\<close>

definition runs_body :: "(if_state \<times> cstring \<Rightarrow> if_outcome + if_state \<times> cstring) \<Rightarrow> bool" where
  "runs_body f \<longleftrightarrow>
     (\<forall>st p b. f (st, p) = Inl (If_Run b) \<longrightarrow> (\<exists>q. b = if_body q \<and> length q \<le> length p))"

lemma runs_bodyD: "runs_body f \<Longrightarrow> f (st, p) = Inl (If_Run b) \<Longrightarrow> \<exists>q. b = if_body q \<and> length q \<le> length p"
  by (simp add: runs_body_def)

lemma bind_res_Inl: "bind_res x f = Inl e \<longleftrightarrow> x = Inl e \<or> (\<exists>v. x = Inr v \<and> f v = Inl e)"
  by (cases x) simp_all

lemma runs_body_bind:
  assumes f: "runs_body f" "moves (\<lambda>p q. length q \<le> length p) f" and g: "runs_body g"
  shows "runs_body (\<lambda>sp. bind_res (f sp) g)"
  unfolding runs_body_def
proof (intro allI impI)
  fix st p b
  assume "bind_res (f (st, p)) g = Inl (If_Run b)"
  then consider "f (st, p) = Inl (If_Run b)"
    | st' p' where "f (st, p) = Inr (st', p')" "g (st', p') = Inl (If_Run b)"
    by (auto simp: bind_res_Inl)
  then show "\<exists>q. b = if_body q \<and> length q \<le> length p"
  proof cases
    case 2
    then have "length p' \<le> length p" using f(2) by (auto simp: moves_def)
    then show ?thesis using runs_bodyD[OF g 2(2)] order_trans by blast
  qed (use f(1) runs_bodyD in blast)
qed

lemma runs_body_step:
  "runs_body step_open" "runs_body step_close" "runs_body step_then" "runs_body step_elif"
  "runs_body step_else" "runs_body step_switch"
  by (auto simp: runs_body_def step_open_def step_close_def step_then_def step_elif_def step_else_def
      step_switch_def step_left_def step_right_def bind_res_Inl advance_def Let_def
      split: if_splits option.splits)

lemma runs_body_iteration: "runs_body if_iteration"
  unfolding if_iteration_def[abs_def] if_steps_def[abs_def]
  by (intro runs_body_bind runs_body_step step_shorter moves_bind)
    (auto simp: runs_body_def bind_res_Inl advance_def split: if_splits intro: order_trans)

lemma if_loop_body: "if_loop st p = If_Run b \<Longrightarrow> \<exists>q. b = if_body q \<and> length q \<le> length p"
proof (induction st p rule: if_loop.induct)
  case (2 st c s)
  show ?case
  proof (cases "if_iteration (st, c # s)")
    case (Inl r)
    then have "if_iteration (st, c # s) = Inl (If_Run b)" using 2(2) by simp
    then show ?thesis by (rule runs_bodyD[OF runs_body_iteration])
  next
    case (Inr sp)
    obtain st' p' where sp: "sp = (st', p')" by (cases sp)
    have "length p' < length (c # s)" using if_iteration_shorter Inr sp by blast
    moreover have "\<exists>q. b = if_body q \<and> length q \<le> length p'"
      using 2(1)[OF Inr sp[symmetric]] 2(2) Inr sp by simp
    ultimately obtain q where "b = if_body q" "length q \<le> length (c # s)" by force
    then show ?thesis by blast
  qed
qed simp

text \<open>Lines in which \<open>fi\<close> does not occur.\<close>

fun fi_free :: "cstring \<Rightarrow> bool" where
  "fi_free [] = True"
| "fi_free (c # s) \<longleftrightarrow> \<not> (c = CHR ''f'' \<and> deref s = CHR ''i'') \<and> fi_free s"

lemma fi_check: "tshellCheck (c # s) ''fi'' \<longleftrightarrow> c = CHR ''f'' \<and> deref s = CHR ''i''"
  by (cases s) (auto simp: deref_def EOS_eq)

lemma if_body_prefix: "\<exists>r. s = if_body s @ r"
  by (induction s) auto

lemma deref_append: "deref (s @ t) = (if s = [] then deref t else deref s)"
  by (cases s) (simp_all add: deref_def)

lemma fi_free_append: "fi_free (a @ b) \<longleftrightarrow> fi_free a \<and> fi_free b \<and> \<not> (a \<noteq> [] \<and> last a = CHR ''f'' \<and> deref b = CHR ''i'')"
  by (induction a) (auto simp: deref_append deref_def[of "[]"] EOS_eq)

lemma if_body_fi_free: "fi_free (if_body s)"
proof (induction s)
  case (Cons c s)
  have "deref (if_body s) = CHR ''i'' \<Longrightarrow> deref s = CHR ''i''"
    by (cases s) (auto simp: deref_def EOS_eq split: if_splits)
  then show ?case using Cons fi_check[of c s] by (auto simp del: tshellCheck.simps)
qed simp

lemma fi_free_drop: "fi_free (a @ b) \<Longrightarrow> fi_free b"
  by (simp add: fi_free_append)

lemma fi_free_insert:
  "fi_free (a @ b) \<Longrightarrow> fi_free x \<Longrightarrow> x \<noteq> [] \<Longrightarrow> deref x \<noteq> CHR ''i'' \<Longrightarrow> last x \<noteq> CHR ''f'' \<Longrightarrow> fi_free (a @ x @ b)"
  by (auto simp: fi_free_append deref_append)

lemma fi_free_pipe_second: "fi_free s \<Longrightarrow> fi_free (pipe_second pass s) \<and>
    (deref (pipe_second pass s) = CHR ''i'' \<longrightarrow> deref s = CHR ''i'')"
proof (induction pass s rule: pipe_second.induct)
  case (2 pass c s)
  then show ?case
    by (auto simp: deref_def[of "_ # _"] split: if_splits)
qed (simp add: deref_def EOS_eq)

lemma fi_free_pipe_first:
  assumes "fi_free (butlast a)" shows "fi_free (pipe_first both a)"
  using assms by (auto simp: pipe_first_def fi_free_append deref_def)


section \<open>Expansion makes no \<open>fi\<close> at the end\<close>

definition ends_f :: "cstring \<Rightarrow> bool" where
  "ends_f s \<longleftrightarrow> s \<noteq> [] \<and> last s = CHR ''f''"

definition ends_fi :: "cstring \<Rightarrow> bool" where
  "ends_fi s \<longleftrightarrow> s \<noteq> [] \<and> last s = CHR ''i'' \<and> ends_f (butlast s)"

lemma ends_snoc: "ends_f (s @ [c]) \<longleftrightarrow> c = CHR ''f''" "ends_fi (s @ [c]) \<longleftrightarrow> c = CHR ''i'' \<and> ends_f s"
  by (auto simp: ends_f_def ends_fi_def)

lemma digit_chars: "nat_digits n \<noteq> [] \<and> last (nat_digits n) \<noteq> CHR ''f'' \<and> last (nat_digits n) \<noteq> CHR ''i''"
proof -
  have "(char_of (48 + k) :: char) \<noteq> CHR ''f'' \<and> (char_of (48 + k) :: char) \<noteq> CHR ''i''" if "k < 10" for k :: nat
  proof -
    have k: "of_char (char_of (48 + k) :: char) = 48 + k" using that by (simp add: of_char_of)
    have "of_char c = (48 + k :: nat)" if "char_of (48 + k) = c" for c :: char using k that by simp
    from this[of "CHR ''f''"] this[of "CHR ''i''"] show ?thesis using that by auto
  qed
  then have "last [char_of (48 + k) :: char] \<noteq> CHR ''f'' \<and> last [char_of (48 + k) :: char] \<noteq> CHR ''i''" if "k < 10" for k :: nat
    using that by simp
  from this[of n] this[of "n mod 10"] show ?thesis by (subst (1 2 3) nat_digits.simps) simp
qed


lemma int_digits_last: "int_digits n \<noteq> [] \<and> last (int_digits n) \<noteq> CHR ''f'' \<and> last (int_digits n) \<noteq> CHR ''i''"
  using digit_chars by (simp add: int_digits_def)

lemma finish_name_ends:
  assumes "finish_name le st nm out = Inr (Inr out')"
  shows "\<not> ends_f out' \<and> \<not> ends_fi out'"
proof -
  obtain v where v: "out' = out @ v" "var_replacement le st nm = Inr (Some v)"
    using assms by (auto simp: finish_name_def bind_res_Inr split: if_splits option.splits)
  have "v \<noteq> [] \<and> last v \<noteq> CHR ''f'' \<and> last v \<noteq> CHR ''i''"
    using v(2) int_digits_last by (auto simp: var_replacement_def bind_res_Inr split: if_splits)
  then show ?thesis using v(1) by (simp add: ends_f_def ends_fi_def)
qed

lemma skips_suffix: "\<exists>x. s = x @ tshellStrSkipLeftBigBracket s" "\<exists>x. s = x @ tshellStrSkipRightBigBracket s"
  by (induction s) (auto, (metis append_Cons append_Nil)+)

lemma fi_free_skips: "fi_free s \<Longrightarrow> fi_free (tshellStrSkipLeftBigBracket s)"
    "fi_free s \<Longrightarrow> fi_free (tshellStrSkipRightBigBracket s)"
  using skips_suffix[of s] fi_free_drop by metis+

lemma finish_cases:
  assumes "bind_res (finish_name le st nm out)
      (\<lambda>r. case r of Inl e \<Rightarrow> Inr (e, out) | Inr out \<Rightarrow> f out) = Inr (e, out')"
  shows "out' = out \<or> (\<exists>w. finish_name le st nm out = Inr (Inr w) \<and> f w = Inr (e, out'))"
proof -
  obtain r where "finish_name le st nm out = Inr r"
    "(case r of Inl e \<Rightarrow> Inr (e, out) | Inr out \<Rightarrow> f out) = Inr (e, out')"
    using assms by (auto simp: bind_res_Inr)
  then show ?thesis by (cases r) auto
qed

lemma convert_loop_no_fi:
  "convert_loop le st s var nm t q out = Inr (e, out') \<Longrightarrow> fi_free s \<Longrightarrow> \<not> ends_fi out \<Longrightarrow>
     (ends_f out \<and> \<not> var \<Longrightarrow> deref s \<noteq> CHR ''i'') \<Longrightarrow> \<not> ends_fi out'"
proof (induction le st s var nm t q out arbitrary: e out' rule: convert_loop.induct)
  case (1 le st var nm t q out)
  then show ?case
    using finish_cases[of le st nm out "\<lambda>w. Inr (ERROR_NONE, w)" e out'] finish_name_ends
    by (auto split: if_splits)
next
  case (2 le st c s var nm t q out)
  let ?q = "quote_now c t q" and ?t = "trans_next c (trans_now c t)"
  have c: "c = CHR ''f'' \<Longrightarrow> deref s \<noteq> CHR ''i''" "ends_f out \<and> \<not> var \<Longrightarrow> c \<noteq> CHR ''i''" "fi_free s"
    using 2(7,9) by (auto simp: deref_def)
  show ?case
  proof (cases "c = DOLLAR")
    case True
    with 2(4,5)[OF refl refl refl] 2(6,8) c fi_free_skips(1)[OF c(3)] show ?thesis
      by (auto simp: Let_def ends_snoc split: if_splits)
  next
    case nd: False
    show ?thesis
    proof (cases "var \<and> tshellIsSeparator c")
      case True
      let ?s = "if c = RBRACE then tshellStrSkipRightBigBracket (c # s) else c # s"
      have "out' = out \<or> (\<exists>w. finish_name le st nm out = Inr (Inr w) \<and>
          convert_loop le st ?s False nm ?t ?q w = Inr (e, out'))"
        by (rule finish_cases) (use True nd 2(6) in \<open>simp add: Let_def\<close>)
      then show ?thesis
      proof
        assume "\<exists>w. finish_name le st nm out = Inr (Inr w) \<and> convert_loop le st ?s False nm ?t ?q w = Inr (e, out')"
        then obtain w where w: "finish_name le st nm out = Inr (Inr w)"
          "convert_loop le st ?s False nm ?t ?q w = Inr (e, out')" by blast
        have "fi_free ?s" using 2(7) fi_free_skips(2)[OF 2(7)] by presburger
        then show ?thesis
          using 2(2)[OF refl refl refl nd _ _ w(2)] True finish_name_ends[OF w(1)] by blast
      qed (use 2(8) in simp)
    next
      case False
      with nd 2(1,3)[OF refl refl refl] 2(6,8) c show ?thesis
        by (auto simp: Let_def ends_snoc split: if_splits)
    qed
  qed
qed

lemma convert_no_fi:
  "fi_free l \<Longrightarrow> tshellStrConvertVar le st l = Inr (e, out) \<Longrightarrow> \<not> ends_fi out"
  using convert_loop_no_fi[of le st l False "[]" False False "[]" e out]
  by (simp add: tshellStrConvertVar_def ends_fi_def ends_f_def)

lemma if_needs_fi:
  assumes "tshellIfElse before l = If_Run b" shows "ends_fi l"
proof -
  have t: "tshellCheck (tail2 before l) ''fi''" "tshellCheck (skip_blanks l) ''if''"
    using assms by (auto simp: tshellIfElse_def Let_def split: if_splits)
  have "length (skip_blanks l) \<le> length l" by (induction l) auto
  moreover have "2 \<le> length (skip_blanks l)"
    using t(2) by (cases "skip_blanks l" rule: remdups_adj.cases) auto
  ultimately have "2 \<le> length l" by linarith
  then obtain x c d where l: "l = x @ [c, d]"
    by (cases l rule: rev_cases; cases "butlast l" rule: rev_cases) auto
  then have "tail2 before l = [c, d]" by (simp add: tail2_def)
  then show ?thesis using t(1) l by (simp add: ends_fi_def ends_f_def butlast_append)
qed


section \<open>More fuel, same result\<close>

definition more_fuel :: "'w result \<Rightarrow> 'w result \<Rightarrow> bool" where
  "more_fuel x y \<longleftrightarrow> x = Inl No_Fuel \<or> y = x"

lemma more_fuel_refl [simp]: "more_fuel x x"
  by (simp add: more_fuel_def)

lemma more_fuel_bind:
  assumes "more_fuel x y" and "\<And>v. more_fuel (f v) (g v)"
  shows "more_fuel (bind_res x f) (bind_res y g)"
  using assms by (cases x) (auto simp: more_fuel_def)

lemma more_fuel_if: "more_fuel x y \<Longrightarrow> more_fuel x' y' \<Longrightarrow> more_fuel (if P then x else x') (if P then y else y')"
  by simp

lemma more_fuel_split:
  assumes "\<And>l sh. more_fuel (f l sh) (g l sh)"
  shows "more_fuel (exec_split os f cmd buf sh) (exec_split os g cmd buf sh)"
proof -
  have f: "more_fuel (f l sh) (g l sh)" for l sh by (rule assms)
  show ?thesis
    unfolding exec_split_def
    by (cases "scan_line 0 0 [] cmd")
      (auto intro!: more_fuel_bind f)
qed

lemma more_fuel_step:
  assumes "\<And>l sh. more_fuel (f l sh) (g l sh)"
  shows "more_fuel (exec_step os f l sh) (exec_step os g l sh)"
  using more_fuel_split[of f g] assms
  unfolding exec_step_def Let_def
  by (auto intro!: more_fuel_bind split: sum.splits if_outcome.splits prod.splits)

lemma exec_more_fuel: "more_fuel (tshellExec os n l sh) (tshellExec os (n + k) l sh)"
proof (induction n arbitrary: l sh)
  case 0
  then show ?case by (simp add: more_fuel_def)
next
  case (Suc n)
  then show ?case using more_fuel_step[of "tshellExec os n" "tshellExec os (n + k)"] by simp
qed

lemma exec_fuel_irrelevant:
  "tshellExec os n l sh \<noteq> Inl No_Fuel \<Longrightarrow> n \<le> m \<Longrightarrow> tshellExec os m l sh = tshellExec os n l sh"
  using exec_more_fuel[of os n l sh "m - n"] by (simp add: more_fuel_def)

section \<open>Enough fuel\<close>

definition fueled :: "exec_fault + 'a \<Rightarrow> bool" where
  "fueled x \<longleftrightarrow> x \<noteq> Inl No_Fuel"

lemma fueled_Inr: "fueled (Inr v)"
  by (simp add: fueled_def)

lemma fueled_Inl: "f \<noteq> No_Fuel \<Longrightarrow> fueled (Inl f)"
  by (simp add: fueled_def)

lemma fueled_bind: "fueled x \<Longrightarrow> (\<And>v. x = Inr v \<Longrightarrow> fueled (f v)) \<Longrightarrow> fueled (bind_res x f)"
  by (cases x) (auto simp: fueled_def)

lemma fueled_if: "(P \<Longrightarrow> fueled x) \<Longrightarrow> (\<not> P \<Longrightarrow> fueled y) \<Longrightarrow> fueled (if P then x else y)"
  by simp

lemma fueled_option:
  "(x = None \<Longrightarrow> fueled a) \<Longrightarrow> (\<And>v. x = Some v \<Longrightarrow> fueled (f v)) \<Longrightarrow> fueled (case x of None \<Rightarrow> a | Some v \<Rightarrow> f v)"
  by (cases x) simp_all

lemma fueled_sum:
  "(\<And>v. x = Inl v \<Longrightarrow> fueled (f v)) \<Longrightarrow> (\<And>v. x = Inr v \<Longrightarrow> fueled (g v)) \<Longrightarrow>
     fueled (case x of Inl v \<Rightarrow> f v | Inr v \<Rightarrow> g v)"
  by (cases x) simp_all

lemma fueled_prod: "(\<And>a b. x = (a, b) \<Longrightarrow> fueled (f a b)) \<Longrightarrow> fueled (case x of (a, b) \<Rightarrow> f a b)"
  by (cases x) simp

lemmas fueled_intros = fueled_Inr fueled_Inl fueled_bind fueled_if fueled_option fueled_sum fueled_prod

lemma fueled_wrapper: "fueled (tshellWrapper os f argv sh)"
  unfolding tshellWrapper_def Let_def by (intro fueled_intros) simp

lemma fueled_undef: "fueled (tshellUndef os buf sh)"
  unfolding tshellUndef_def by (intro fueled_intros) simp

lemma fueled_file: "fueled (tshellCheckFile os kw sh)"
  unfolding tshellCheckFile_def by (intro fueled_intros) simp

lemma fueled_simple: "fueled (exec_simple os buf sh)"
  unfolding exec_simple_def Let_def
  by (intro fueled_intros fueled_wrapper fueled_undef fueled_file) simp_all

lemma fueled_split:
  assumes "\<And>l sh. ops l < ops cmd \<Longrightarrow> (fi_free cmd \<Longrightarrow> fi_free l) \<Longrightarrow> fueled (f l sh)"
  shows "fueled (exec_split os f cmd buf sh)"
proof (cases "scan_line 0 0 [] cmd")
  case No_Split
  then show ?thesis by (simp add: exec_split_def fueled_simple)
next
  case (Split_Pipe both a b)
  have s: "split_ok [] cmd (Split_Pipe both a b)" using scan_line_split[of cmd] Split_Pipe by simp
  then have o: "0 < ops cmd" using ops_split(1)[OF Split_Pipe] by simp
  from s obtain x where x: "a = x @ ''|''" "x @ (if both then ''|&'' else ''|'') @ b = cmd"
    by (auto simp: split_ok_def)
  have "fi_free (butlast a)" "fi_free b" if "fi_free cmd"
    using that x by (auto simp: fi_free_append)
  then have "fueled (f (pipe_first both a) sh)" "fueled (f (pipe_second True b) sh)" for sh
    using assms ops_split(1)[OF Split_Pipe] fi_free_pipe_first fi_free_pipe_second by blast+
  moreover have "fueled (f rm_cmd sh)" for sh
    by (rule assms) (use o in \<open>simp_all add: rm_cmd_def op_char_def deref_def\<close>)
  ultimately show ?thesis using Split_Pipe by (auto simp: exec_split_def intro!: fueled_intros)
next
  case (Split_Or a b)
  have "a @ ''||'' @ b = cmd" using scan_line_split[of cmd] Split_Or by (simp add: split_ok_def)
  then have "fueled (f a sh)" "fueled (f b sh)" for sh
    using assms ops_split(2)[OF Split_Or] by (auto simp: fi_free_append)
  then show ?thesis using Split_Or by (auto simp: exec_split_def intro!: fueled_intros)
next
  case (Split_And a b)
  have "a @ ''&&'' @ b = cmd" using scan_line_split[of cmd] Split_And by (simp add: split_ok_def)
  then have "fueled (f a sh)" "fueled (f b sh)" for sh
    using assms ops_split(3)[OF Split_And] by (auto simp: fi_free_append)
  then show ?thesis using Split_And by (auto simp: exec_split_def intro!: fueled_intros)
next
  case (Split_Seq a b)
  have "a @ '';'' @ b = cmd" using scan_line_split[of cmd] Split_Seq by (simp add: split_ok_def)
  then have "fueled (f a sh)" "fueled (f b sh)" for sh
    using assms ops_split(4)[OF Split_Seq] by (auto simp: fi_free_append)
  then show ?thesis using Split_Seq by (auto simp: exec_split_def intro!: fueled_intros)
qed

lemma skip_white_split: "\<exists>x. l = x @ skip_white l"
  by (induction l) (auto, (metis append_Cons append_Nil)+)

lemma skip_white_ops: "ops (skip_white l) \<le> ops l" "fi_free l \<Longrightarrow> fi_free (skip_white l)"
  using skip_white_split[of l] fi_free_drop by (metis le_add2 ops_simps(3))+

lemma fueled_step:
  assumes split: "\<And>l' sh. ops l' < ops l \<Longrightarrow> (fi_free l \<Longrightarrow> fi_free l') \<Longrightarrow> fueled (f l' sh)"
    and branch: "\<And>b sh. \<not> fi_free l \<Longrightarrow> fi_free b \<Longrightarrow> ops b \<le> LW_CFG_SHELL_MAX_COMMANDLEN \<Longrightarrow> fueled (f b sh)"
  shows "fueled (exec_step os f l sh)"
proof -
  let ?cmd = "skip_white l"
  have sp: "fueled (exec_split os f ?cmd buf sh)" for buf sh
    by (rule fueled_split, rule split) (use skip_white_ops[of l] in auto)
  have br: "fueled (f b sh)" if "tshellStrConvertVar (sh_error sh') (sh_vars sh') ?cmd = Inr (e, buf)"
      "tshellIfElse before buf = If_Run b" for sh sh' e buf before b
  proof (rule branch)
    have "ends_fi buf" using if_needs_fi that(2) by blast
    then show "\<not> fi_free l" using convert_no_fi that(1) skip_white_ops(2) by blast
    have "if_loop if_init (drop 2 (skip_blanks buf)) = If_Run b"
      using that(2) by (auto simp: tshellIfElse_def Let_def split: if_splits)
    then obtain q where q: "b = if_body q" "length q \<le> length (drop 2 (skip_blanks buf))"
      using if_loop_body by blast
    then show "fi_free b" by (simp add: if_body_fi_free)
    have "length (if_body q) \<le> length q" by (induction q) auto
    moreover have "length (skip_blanks buf) \<le> length buf" by (induction buf) auto
    moreover have "length buf \<le> LW_CFG_SHELL_MAX_COMMANDLEN"
      using convert_loop_bound[of _ _ ?cmd False "[]" False False "[]" e buf] that(1)
      by (simp add: tshellStrConvertVar_def)
    ultimately show "ops b \<le> LW_CFG_SHELL_MAX_COMMANDLEN" using q ops_length[of b] by simp
  qed
  show ?thesis
    unfolding exec_step_def Let_def
    apply (intro fueled_intros)
     apply simp
    subgoal for c e buf
      by (cases "tshellIfElse (os_before os) buf") (auto intro!: fueled_intros sp br)
    done
qed


lemma enough_fi_free: "fi_free l \<Longrightarrow> ops l < n \<Longrightarrow> fueled (tshellExec os n l sh)"
proof (induction n arbitrary: l sh)
  case (Suc n)
  have "fueled (exec_step os (tshellExec os n) l sh)"
    by (rule fueled_step) (use Suc in auto)
  then show ?case by simp
qed simp

lemma enough: "ops l + LW_CFG_SHELL_MAX_COMMANDLEN + 1 < n \<Longrightarrow> fueled (tshellExec os n l sh)"
proof (induction n arbitrary: l sh)
  case (Suc n)
  have "fueled (exec_step os (tshellExec os n) l sh)"
  proof (rule fueled_step)
    show "fueled (tshellExec os n l' sh)" if "ops l' < ops l" for l' sh
      by (rule Suc.IH) (use Suc.prems that in linarith)
    show "fueled (tshellExec os n b sh)" if "fi_free b" "ops b \<le> LW_CFG_SHELL_MAX_COMMANDLEN" for b sh
      by (rule enough_fi_free) (use Suc.prems that in linarith)+
  qed
  then show ?case by simp
qed simp

lemma exec_long: "length (skip_white l) \<ge> LW_CFG_SHELL_MAX_COMMANDLEN \<Longrightarrow> fueled (tshellExec os (Suc n) l sh)"
  by (auto simp: exec_step_def Let_def lib_strnlen_eq LW_CFG_SHELL_MAX_COMMANDLEN_def fueled_def)

lemma enough_any: "2 * LW_CFG_SHELL_MAX_COMMANDLEN + 1 \<le> n \<Longrightarrow> fueled (tshellExec os n l sh)"
proof (cases "length (skip_white l) \<ge> LW_CFG_SHELL_MAX_COMMANDLEN")
  case True
  moreover assume "2 * LW_CFG_SHELL_MAX_COMMANDLEN + 1 \<le> n"
  ultimately show ?thesis using exec_long[of l os "n - 1" sh] by simp
next
  case False
  have "ops (skip_white l) = ops l"
    by (induction l) (auto simp: op_char_def)
  then have "ops l \<le> length (skip_white l)" using ops_length by metis
  moreover assume "2 * LW_CFG_SHELL_MAX_COMMANDLEN + 1 \<le> n"
  ultimately show ?thesis using enough[of l n os sh] False by simp
qed

text \<open>
  C4: executing a line terminates.  The recursion of \<open>__tshellExec\<close>, through \<open>|\<close>, \<open>||\<close>, \<open>&&\<close>,
  \<open>;\<close> and the branches of \<open>if\<close>, ends for every line, every state and every behaviour of the commands:
  above a fixed depth the result does not depend on the fuel and is not the lack of it.  Values
  of variables cannot keep the recursion alive, because expansion never produces a line that ends in
  \<open>fi\<close> from one that has no \<open>fi\<close>.
\<close>

theorem exec_returns:
  "\<exists>r. r \<noteq> Inl No_Fuel \<and> (\<forall>k. tshellExec os (2 * LW_CFG_SHELL_MAX_COMMANDLEN + 1 + k) cmd sh = r)"
proof (intro exI conjI allI)
  let ?m = "2 * LW_CFG_SHELL_MAX_COMMANDLEN + 1"
  show m: "tshellExec os ?m cmd sh \<noteq> Inl No_Fuel" using enough_any[of ?m os cmd sh] by (simp add: fueled_def)
  show "tshellExec os (?m + k) cmd sh = tshellExec os ?m cmd sh" for k
    by (rule exec_fuel_irrelevant[OF m]) simp
qed

end
