(* ===== verification/ShellRun.thy ===== *)
theory ShellRun
  imports ShellFuel "HOL-Library.Multiset"
begin

unbundle bit_operations_syntax

text \<open>
  What \<open>__tshellExec\<close> and \<open>__tshellWrapper\<close> do, as equations over the model of \<open>ShellExec\<close>: the
  operators, the dispatch of one command with its parameters, redirection and the balance of
  descriptors, and the case of a condition that fails.  The witnesses run on small systems
  (\<open>demo_os\<close>, \<open>fd_os\<close>) whose commands record their parameters.
\<close>

section \<open>Operators\<close>

datatype operator = Op_Or | Op_And | Op_Seq | Op_Pipe | Op_Pipe_Err

fun operator_text :: "operator \<Rightarrow> cstring" where
  "operator_text Op_Or = ''||''"
| "operator_text Op_And = ''&&''"
| "operator_text Op_Seq = '';''"
| "operator_text Op_Pipe = ''|''"
| "operator_text Op_Pipe_Err = ''|&''"

text \<open>The meaning of two commands joined by an operator; \<open>run\<close> executes a line.\<close>

fun operator_run :: "operator \<Rightarrow> (cstring \<Rightarrow> 'w shell \<Rightarrow> 'w result) \<Rightarrow> cstring \<Rightarrow> cstring \<Rightarrow> 'w shell \<Rightarrow> 'w result" where
  "operator_run Op_Or run a b sh = bind_res (run a sh) (\<lambda>(r, sh). if r < 0 then run b sh else Inr (r, sh))"
| "operator_run Op_And run a b sh = bind_res (run a sh) (\<lambda>(r, sh). if r \<ge> 0 then run b sh else Inr (r, sh))"
| "operator_run Op_Seq run a b sh =
     bind_res (run a sh) (\<lambda>(r, sh). bind_res (run b sh) (\<lambda>(r', sh). Inr (min r r', sh)))"
| "operator_run Op_Pipe run a b sh =
     bind_res (run (a @ ''>/etc/.log'') sh) (\<lambda>(r, sh).
       if r < 0 then bind_res (run ''rm /etc/.log'' sh) (\<lambda>(_, sh). Inr (r, sh))
       else bind_res (run (b @ '' /etc/.log'') sh) (\<lambda>(r, sh).
              bind_res (run ''rm /etc/.log'' sh) (\<lambda>(_, sh). Inr (r, sh))))"
| "operator_run Op_Pipe_Err run a b sh =
     bind_res (run (a @ ''1>/etc/.log 2>/etc/.log'') sh) (\<lambda>(_, sh).
       bind_res (run (b @ '' /etc/.log'') sh) (\<lambda>(r, sh).
         bind_res (run ''rm /etc/.log'' sh) (\<lambda>(_, sh). Inr (r, sh))))"

definition plain_line :: "'w os \<Rightarrow> cstring \<Rightarrow> 'w shell \<Rightarrow> cstring \<Rightarrow> bool" where
  "plain_line os cmd sh buf \<longleftrightarrow>
     cmd \<noteq> [] \<and> hd cmd \<notin> {BLANK, TAB, CR, LF, CHR ''#''} \<and> length cmd < LW_CFG_SHELL_MAX_COMMANDLEN \<and>
     tshellStrConvertVar (sh_error sh) (sh_vars sh) cmd = Inr (ERROR_NONE, buf) \<and>
     tshellIfElse (os_before os) buf = If_Not"

lemma exec_plain:
  assumes "plain_line os cmd sh buf"
  shows "tshellExec os (Suc n) cmd sh = exec_split os (tshellExec os n) cmd buf sh"
proof -
  have "skip_white cmd = cmd" using assms by (cases cmd) (auto simp: plain_line_def)
  then show ?thesis using assms
    by (auto simp: plain_line_def exec_step_def Let_def lib_strnlen_eq LW_CFG_SHELL_MAX_COMMANDLEN_def)
qed

definition op_free :: "cstring \<Rightarrow> bool" where
  "op_free s \<longleftrightarrow> (\<forall>c \<in> set s. \<not> op_char c)"

lemma scan_line_op_free: "op_free a \<Longrightarrow> scan_line 0 0 pre (a @ s) = scan_line 0 0 (pre @ a) s"
  by (induction a arbitrary: pre) (auto simp: op_free_def op_char_def)

lemma pipe_second_op_free: "op_free b \<Longrightarrow> pipe_second True b = b @ '' /etc/.log''"
  by (induction b) (auto simp: op_free_def op_char_def)


lemma split_operator:
  assumes "op_free a"
  shows "scan_line 0 0 [] (a @ ''||'' @ b) = Split_Or a b"
    "scan_line 0 0 [] (a @ ''&&'' @ b) = Split_And a b"
    "scan_line 0 0 [] (a @ '';'' @ b) = Split_Seq a b"
    "b \<noteq> [] \<Longrightarrow> op_free b \<Longrightarrow> scan_line 0 0 [] (a @ ''|'' @ b) = Split_Pipe False (a @ ''|'') b"
    "scan_line 0 0 [] (a @ ''|&'' @ b) = Split_Pipe True (a @ ''|'') b"
proof -
  note go = scan_line_op_free[OF assms, of "[]"]
  show "scan_line 0 0 [] (a @ ''||'' @ b) = Split_Or a b" by (simp add: go)
  show "scan_line 0 0 [] (a @ ''&&'' @ b) = Split_And a b" by (simp add: go)
  show "scan_line 0 0 [] (a @ '';'' @ b) = Split_Seq a b" by (simp add: go)
  show "scan_line 0 0 [] (a @ ''|&'' @ b) = Split_Pipe True (a @ ''|'') b" by (simp add: go)
  show "b \<noteq> [] \<Longrightarrow> op_free b \<Longrightarrow> scan_line 0 0 [] (a @ ''|'' @ b) = Split_Pipe False (a @ ''|'') b"
    by (cases b) (simp_all add: go op_free_def op_char_def)
qed

text \<open>
  C7: what an operator means.  For a first command without operator characters, \<open>||\<close> runs the second
  command exactly when the first returns a negative value, \<open>&&\<close> exactly when it does not, \<open>;\<close> runs
  both and returns the smaller value; \<open>|\<close> and \<open>|&\<close> run the first command with its output, or its output
  and errors, redirected to \<open>/etc/.log\<close>, the second with that file as its last parameter, and remove
  the file.  The second command of the first three is the whole rest of the line, so that all operators
  associate to the right.
\<close>

theorem operator_meaning:
  assumes "plain_line os (a @ operator_text opr @ b) sh buf" and "op_free a"
    and "opr = Op_Pipe \<or> opr = Op_Pipe_Err \<Longrightarrow> op_free b \<and> 2 \<le> length b"
  shows "tshellExec os (Suc n) (a @ operator_text opr @ b) sh = operator_run opr (tshellExec os n) a b sh"
proof (cases opr)
  case Op_Pipe
  with assms(3) have b: "b \<noteq> []" "op_free b" by auto
  show ?thesis
    using exec_plain[OF assms(1), of n] Op_Pipe split_operator(4)[OF assms(2) b] pipe_second_op_free[OF b(2)]
    by (simp add: exec_split_def pipe_first_def rm_cmd_def cong: if_cong)
next
  case Op_Pipe_Err
  with assms(3) have b: "op_free b" "2 \<le> length b" by auto
  show ?thesis
    using exec_plain[OF assms(1), of n] Op_Pipe_Err split_operator(5)[OF assms(2), of b]
      pipe_second_op_free[OF b(1)] b(2) assms(1)
    by (simp add: exec_split_def pipe_first_def rm_cmd_def plain_line_def LW_CFG_SHELL_MAX_COMMANDLEN_def)
qed (use exec_plain[OF assms(1), of n] split_operator(1-3)[OF assms(2), of b] in \<open>simp_all add: exec_split_def\<close>)

text \<open>
  The buffer for the first command of \<open>|&\<close> is too small when less than two characters follow the
  operator: two redirections are 22 characters, \<open>firstCmd\<close> has 20 more than the line.
\<close>

theorem pipe_err_overflow:
  assumes "plain_line os (a @ ''|&'' @ b) sh buf" and "op_free a" and "length b < 2"
  shows "tshellExec os (Suc n) (a @ ''|&'' @ b) sh = Inl Stack_Overwritten"
  using exec_plain[OF assms(1), of n] split_operator(5)[OF assms(2), of b] assms(1,3)
  by (simp add: exec_split_def plain_line_def LW_CFG_SHELL_MAX_COMMANDLEN_def)

section \<open>One command\<close>

definition command_line :: "cstring \<Rightarrow> cstring list \<Rightarrow> cstring" where
  "command_line kw args = kw @ concat (map (\<lambda>a. BLANK # quote_arg a) args)"

definition keyword_word :: "cstring \<Rightarrow> bool" where
  "keyword_word kw \<longleftrightarrow> kw \<noteq> [] \<and> length kw < LW_CFG_SHELL_MAX_KEYWORDLEN \<and> lit_ok kw \<and> op_free kw \<and>
     plain_word kw \<and> hd kw \<notin> {BLANK, TAB, CR, LF, CHR ''#''}"

lemma convert_escaped:
  "length out + length (concat (map escape_char a)) \<le> LW_CFG_SHELL_MAX_COMMANDLEN \<Longrightarrow>
     convert_loop le st (concat (map escape_char a) @ s) False nm False True out =
     convert_loop le st s False nm False True (out @ concat (map escape_char a))"
proof (induction a arbitrary: out)
  case (Cons c a)
  then show ?case
    by (cases "c = BSLASH \<or> c = QUOTE")
      (auto simp: escape_char_def quote_now_def trans_now_def trans_next_def)
qed simp

lemma convert_quote_arg:
  "length out + length (quote_arg a) \<le> LW_CFG_SHELL_MAX_COMMANDLEN \<Longrightarrow>
     convert_loop le st (quote_arg a @ s) False nm False False out =
     convert_loop le st s False nm False False (out @ quote_arg a)"
  using convert_escaped[of "out @ [QUOTE]" a le st "QUOTE # s" nm]
  by (simp add: quote_arg_def quote_now_def trans_now_def trans_next_def)

lemma convert_args:
  "length out + length (concat (map (\<lambda>a. BLANK # quote_arg a) args)) \<le> LW_CFG_SHELL_MAX_COMMANDLEN \<Longrightarrow>
     convert_loop le st (concat (map (\<lambda>a. BLANK # quote_arg a) args)) False nm False False out =
     Inr (ERROR_NONE, out @ concat (map (\<lambda>a. BLANK # quote_arg a) args))"
proof (induction args arbitrary: out)
  case (Cons a args)
  let ?r = "concat (map (\<lambda>a. BLANK # quote_arg a) args)"
  have "convert_loop le st (BLANK # quote_arg a @ ?r) False nm False False out =
      convert_loop le st (quote_arg a @ ?r) False nm False False (out @ [BLANK])"
    using Cons.prems by (simp add: quote_now_def trans_now_def trans_next_def)
  also have "\<dots> = convert_loop le st ?r False nm False False ((out @ [BLANK]) @ quote_arg a)"
    by (rule convert_quote_arg) (use Cons.prems in simp)
  finally show ?case using Cons.IH[of "(out @ [BLANK]) @ quote_arg a"] Cons.prems by simp
qed simp

lemma convert_command:
  assumes "keyword_word kw" "length (command_line kw args) \<le> LW_CFG_SHELL_MAX_COMMANDLEN"
  shows "tshellStrConvertVar le st (command_line kw args) = Inr (ERROR_NONE, command_line kw args)"
  using assms convert_lit[of kw "[]" le st "concat (map (\<lambda>a. BLANK # quote_arg a) args)" "[]"]
    convert_args[of kw args le st "[]"]
  by (simp add: tshellStrConvertVar_def command_line_def keyword_word_def)

lemma format_quote_arg: "format_loop False False sp (quote_arg a @ s) = quote_arg a @ format_loop False False False s"
proof -
  have quoted: "format_loop False True False (concat (map escape_char a) @ r) =
      concat (map escape_char a) @ format_loop False True False r" for r
    by (induction a) (auto simp: escape_char_def Let_def quote_now_def trans_now_def trans_next_def)
  show ?thesis using quoted[of "QUOTE # s"]
    by (simp add: quote_arg_def Let_def quote_now_def trans_now_def trans_next_def)
qed

lemma format_word: "plain_word w \<Longrightarrow> w \<noteq> [] \<Longrightarrow> format_loop False False sp (w @ s) = w @ format_loop False False False s"
proof (induction w arbitrary: sp)
  case (Cons c w)
  then show ?case
    by (cases "w = []") (auto simp: plain_word_def Let_def quote_now_def trans_now_def trans_next_def)
qed simp

lemma format_args: "format_loop False False False (concat (map (\<lambda>a. BLANK # quote_arg a) args)) =
    concat (map (\<lambda>a. BLANK # quote_arg a) args)"
  by (induction args) (simp_all add: format_quote_arg quote_now_def trans_now_def trans_next_def)

lemma format_command:
  assumes "keyword_word kw" shows "tshellStrFormat (command_line kw args) = command_line kw args"
  using assms format_word[of kw False] format_args[of args]
  by (simp add: tshellStrFormat_def command_line_def keyword_word_def)

lemma last_command: "args \<noteq> [] \<Longrightarrow> last (command_line kw args) = QUOTE"
  by (induction args rule: rev_induct) (simp_all add: command_line_def quote_arg_def)

lemma treated_command:
  assumes "keyword_word kw" "args \<noteq> []"
  shows "tshellPreTreatedBg (command_line kw args) = Some (command_line kw args, False, False)"
proof -
  let ?l = "command_line kw args"
  have ne: "?l \<noteq> []" using assms by (simp add: command_line_def keyword_word_def)
  have "tshellStrDelCRLF ?l = Some ?l"
    using tshellStrDelCRLF_split[of "[]" QUOTE "butlast ?l"] last_command[OF assms(2), of kw]
      append_butlast_last_id[OF ne] by simp
  then show ?thesis
    using format_command[OF assms(1)] last_command[OF assms(2), of kw] ne
    by (simp add: tshellPreTreatedBg_def TTINY_SHELL_BG_JOIN_def TTINY_SHELL_BG_ASYNC_def Let_def)
qed

lemma keyword_loop_word:
  "BLANK \<notin> set w \<Longrightarrow> n + length w < LW_CFG_SHELL_MAX_KEYWORDLEN \<Longrightarrow>
     keyword_loop n (w @ BLANK # s) = Inr (w, BLANK # s)"
  by (induction w arbitrary: n) auto

lemma keyword_command:
  assumes "keyword_word kw"
  shows "tshellStrKeyword (command_line kw (a # args)) =
    Inr (kw, Some (quote_arg a @ concat (map (\<lambda>a. BLANK # quote_arg a) args)))"
  using assms keyword_loop_word[of kw 0]
  by (simp add: tshellStrKeyword_def command_line_def keyword_word_def plain_word_def)

lemma parse_quoted:
  "length args < n \<Longrightarrow> parse_params n (quote_arg a @ concat (map (\<lambda>a. BLANK # quote_arg a) args)) = a # args"
proof (induction args arbitrary: a n)
  case Nil
  then show ?case
    using token_loop_quote_arg[of "[]" a] by (cases n) (simp_all add: tshellStrGetToken_def del_trans_quote_arg)
next
  case (Cons b args)
  then show ?case
    using token_loop_quote_arg[of "BLANK # quote_arg b @ concat (map (\<lambda>a. BLANK # quote_arg a) args)" a]
    by (cases n) (simp_all add: tshellStrGetToken_def del_trans_quote_arg)
qed

definition no_redir :: "cstring \<Rightarrow> bool" where
  "no_redir s \<longleftrightarrow> CHR ''<'' \<notin> set s \<and> CHR ''>'' \<notin> set s"

lemma find_redir_None: "no_redir s \<Longrightarrow> find_redir s = None"
proof -
  assume "no_redir s"
  then have "lib_index s CHR ''<'' = None" "lib_index s CHR ''>'' = None"
    by (simp_all add: no_redir_def lib_index_None EOS_eq)
  then show ?thesis by (simp add: find_redir_def)
qed

lemma redir_loop_none: "list_all no_redir args \<Longrightarrow> redir_loop os i n (args @ rest) sh = redir_loop os (i + length args) n rest sh"
  by (induction args arbitrary: i) (simp_all add: find_redir_None)

lemma wrapper_plain:
  assumes "list_all no_redir args" "args \<noteq> []" "length args < LW_CFG_SHELL_MAX_PARAMNUM"
  shows "tshellWrapper os f (kw # args) sh =
    (let (r, sh') = os_run os f (kw # args) sh in Inr (r, restore_std (sh_std sh) sh'))"
  using assms redir_loop_none[OF assms(1), of os 1 "Suc (length args)" "[]" sh]
  by (cases args) (simp_all add: tshellWrapper_def Let_def)

lemma op_free_append: "op_free (s @ t) \<longleftrightarrow> op_free s \<and> op_free t"
  by (auto simp: op_free_def)

lemma op_free_Cons: "op_free (c # s) \<longleftrightarrow> \<not> op_char c \<and> op_free s" "op_free []"
  by (auto simp: op_free_def)

lemma op_free_quote: "op_free (quote_arg a) \<longleftrightarrow> op_free a"
proof -
  have "op_free (escape_char c) \<longleftrightarrow> \<not> op_char c" for c
    by (auto simp: escape_char_def op_free_def op_char_def)
  then have "op_free (concat (map escape_char a)) \<longleftrightarrow> op_free a"
    by (induction a) (simp_all add: op_free_append op_free_Cons)
  then show ?thesis by (simp add: quote_arg_def op_free_append op_free_Cons op_char_def)
qed

lemma op_free_command: "op_free (command_line kw args) \<longleftrightarrow> op_free kw \<and> list_all op_free args"
proof -
  have "op_free (concat (map (\<lambda>a. BLANK # quote_arg a) args)) \<longleftrightarrow> list_all op_free args"
    by (induction args) (simp_all add: op_free_append op_free_Cons op_char_def op_free_quote)
  then show ?thesis by (simp add: command_line_def op_free_append)
qed

lemma if_not_quote:
  assumes "l = c # d # s" "last l = QUOTE" "c \<noteq> BLANK" "\<not> contains_then l"
  shows "tshellIfElse before l = If_Not"
proof -
  have "l \<noteq> []" "butlast l \<noteq> []" using assms(1) by simp_all
  then have "l = butlast (butlast l) @ [last (butlast l), QUOTE]"
    using assms(2) by (metis append_butlast_last_id append_Cons append_Nil append_assoc)
  then obtain x e where l: "l = x @ [e, QUOTE]" by blast
  have "tail2 before l = [e, QUOTE]" by (simp add: tail2_def l)
  moreover have "skip_blanks l = l" using assms(1,3) by simp
  ultimately show ?thesis using assms(4) by (simp add: tshellIfElse_def Let_def)
qed

lemma plain_command:
  assumes kw: "keyword_word kw" and args: "args \<noteq> []"
    and len: "length (command_line kw args) < LW_CFG_SHELL_MAX_COMMANDLEN"
    and nothen: "\<not> contains_then (command_line kw args)"
  shows "plain_line os (command_line kw args) sh (command_line kw args)"
proof -
  let ?l = "command_line kw args"
  obtain c k a as where ck: "kw = c # k" "args = a # as" "c \<notin> {BLANK, TAB, CR, LF, CHR ''#''}"
    using kw args by (cases kw; cases args) (auto simp: keyword_word_def)
  obtain d s where ds: "?l = c # d # s" by (cases k) (simp_all add: command_line_def ck)
  have "tshellIfElse (os_before os) ?l = If_Not"
    by (rule if_not_quote[OF ds last_command[OF args] _ nothen]) (use ck in simp)
  moreover have "tshellStrConvertVar (sh_error sh) (sh_vars sh) ?l = Inr (ERROR_NONE, ?l)"
    by (rule convert_command[OF kw]) (use len in simp)
  ultimately show ?thesis using len ck(3) by (simp add: plain_line_def ds)
qed

lemma exec_op_free:
  assumes "plain_line os cmd sh buf" "op_free cmd"
  shows "tshellExec os (Suc n) cmd sh = exec_simple os buf sh"
  using exec_plain[OF assms(1), of n] scan_line_op_free[OF assms(2), of "[]" "[]"]
  by (simp add: exec_split_def)

lemma dispatch_runs:
  assumes "keyword_word kw" and "args \<noteq> []" and "length args < LW_CFG_SHELL_MAX_PARAMNUM"
    and "list_all no_redir args" and "list_all op_free args"
    and "length (command_line kw args) < LW_CFG_SHELL_MAX_COMMANDLEN"
    and "\<not> contains_then (command_line kw args)"
    and "os_hook os = None" and "tshellIsResCmd kw \<or> tshellCheckFile os kw sh = Inr False"
    and "tshellKeywordFind kw (sh_keys sh) = Some (Inr a)"
    and "SK_ulOption (node_of (sh_keys sh) a) AND LW_OPTION_KEYWORD_SYNCBG = 0"
    and "SK_ulOption (node_of (sh_keys sh) a) AND LW_OPTION_KEYWORD_ASYNCBG = 0"
  shows "tshellExec os (Suc n) (command_line kw args) sh =
    (let (r, sh') = os_run os (SK_pfuncCommand (node_of (sh_keys sh) a)) (kw # args) (sh\<lparr>sh_magic := 0\<rparr>)
     in Inr (r, restore_std (sh_std sh) sh'))"
proof -
  obtain b as where args: "args = b # as" using assms(2) by (cases args) auto
  have "op_free (command_line kw args)" using assms(1,5) by (simp add: op_free_command keyword_word_def)
  from exec_op_free[OF plain_command[OF assms(1,2,6,7)] this]
  have "tshellExec os (Suc n) (command_line kw args) sh = exec_simple os (command_line kw args) sh" .
  also have "\<dots> = tshellWrapper os (SK_pfuncCommand (node_of (sh_keys sh) a)) (kw # args) (sh\<lparr>sh_magic := 0\<rparr>)"
    using treated_command[OF assms(1,2)] keyword_command[OF assms(1), of b as] assms(3,8-12)
      parse_quoted[of as "LW_CFG_SHELL_MAX_PARAMNUM - 1" b]
    by (auto simp: exec_simple_def args Let_def call_hook_def)
  also have "\<dots> = (let (r, sh') = os_run os (SK_pfuncCommand (node_of (sh_keys sh) a)) (kw # args) (sh\<lparr>sh_magic := 0\<rparr>)
     in Inr (r, restore_std (sh_std sh) sh'))"
    by (subst wrapper_plain[OF assms(4,2,3)]) simp
  finally show ?thesis .
qed

text \<open>
  C6: a command receives exactly its parameters.  The line made of a registered keyword and of up to
  63 parameters, each in quotes with its quotes and backslashes escaped, runs the handler of that
  keyword once, with the keyword and the parameters as its argument vector; the standard files are
  then what they were.  A parameter may hold any character but those the shell interprets even in
  quotes: the redirections and the operators; and \<open>then\<close> may not occur in the line.
\<close>

theorem command_dispatch:
  assumes "keyword_word kw" and "args \<noteq> []" and "length args < LW_CFG_SHELL_MAX_PARAMNUM"
    and "list_all no_redir args" and "list_all op_free args"
    and "length (command_line kw args) < LW_CFG_SHELL_MAX_COMMANDLEN"
    and "\<not> contains_then (command_line kw args)"
    and "os_hook os = None" and "tshellIsResCmd kw \<or> tshellCheckFile os kw sh = Inr False"
    and "tshellKeywordFind kw (sh_keys sh) = Some (Inr a)"
    and "SK_ulOption (node_of (sh_keys sh) a) AND LW_OPTION_KEYWORD_SYNCBG = 0"
    and "SK_ulOption (node_of (sh_keys sh) a) AND LW_OPTION_KEYWORD_ASYNCBG = 0"
  shows "tshellExec os (Suc n) (command_line kw args) sh =
    (let (r, sh') = os_run os (SK_pfuncCommand (node_of (sh_keys sh) a)) (kw # args) (sh\<lparr>sh_magic := 0\<rparr>)
     in Inr (r, restore_std (sh_std sh) sh'))"
  by (rule dispatch_runs[OF assms])

section \<open>Redirection\<close>

text \<open>
  Redirection.  When the last parameter has a \<open>>\<close>, the command gets the parameters before it
  and nothing of that one: the text in front of the \<open>>\<close> is dropped, and only its first character
  counts, as the choice of what is redirected.  The command runs with the file opened for writing,
  created and truncated, as its standard output; afterwards the file is closed and the standard files
  are as before.  As \<open>a|b\<close> without a blank before the bar is run as \<open>a>/etc/.log\<close>, this is also why
  such a pipe loses the last parameter of its first command.
\<close>

theorem redirection:
  assumes "list_all no_redir args" and "no_redir w" and "length args < LW_CFG_SHELL_MAX_PARAMNUM"
    and "no_redir path" and "2 \<le> length path" and "hd path \<noteq> CHR ''&''"
    and "w = [] \<or> hd w \<noteq> CHR ''&'' \<and> hd w \<noteq> CHR ''2''"
    and "os_open os path (O_CREAT OR O_WRONLY OR O_TRUNC) sh = (fd, sh1)" and "0 \<le> fd"
    and "sh_cleanup sh1 = sh_cleanup sh"
    and "os_run os f (kw # args) (sh1\<lparr>sh_cleanup := fd # sh_cleanup sh, sh_std := (sh_std sh1)(1 := fd)\<rparr>) = (r, sh2)"
    and "sh_cleanup sh2 = fd # sh_cleanup sh"
  shows "tshellWrapper os f (kw # args @ [w @ CHR ''>'' # path]) sh =
    Inr (r, os_close os fd ((restore_std (sh_std sh) sh2)\<lparr>sh_cleanup := sh_cleanup sh\<rparr>))"
proof -
  let ?p = "w @ CHR ''>'' # path"
  obtain c d p where path: "path = c # d # p" "c \<noteq> CHR ''>''" "c \<noteq> CHR ''&''"
    using assms(4,5,6) by (cases path; cases "tl path") (auto simp: no_redir_def)
  have "lib_index ?p CHR ''<'' = None"
    using assms(2,4) by (simp add: lib_index_None EOS_eq no_redir_def)
  moreover have "lib_index ?p CHR ''>'' = Some (length w)"
    using assms(2) by (induction w) (auto simp: no_redir_def)
  ultimately have fr: "find_redir ?p = Some (length w)" by (simp add: find_redir_def)
  have redir: "tshellRedir os w (CHR ''>'' # path) sh =
      (True, sh1\<lparr>sh_cleanup := fd # sh_cleanup sh, sh_std := (sh_std sh1)(1 := fd)\<rparr>)"
    using assms(7-10) path by (auto simp: tshellRedir_def deref_def set_outputs_def IoTaskStdSet_def Let_def)
  let ?n = "Suc (Suc (length args))"
  have loop: "redir_loop os 1 ?n (args @ [?p]) sh =
      (True, Suc (length args), sh1\<lparr>sh_cleanup := fd # sh_cleanup sh, sh_std := (sh_std sh1)(1 := fd)\<rparr>)"
    using redir_loop_none[OF assms(1), of os 1 ?n "[?p]" sh] fr redir by simp
  show ?thesis
    using loop assms(3,9-12)
    by (simp add: tshellWrapper_def Let_def restore_std_def IoTaskStdSet_def)
qed
section \<open>Witnesses\<close>

definition demo_keys :: keyword_state where
  "demo_keys = the (register_all demo_regs keyword_init)"

lemma demo_keys:
  "tshellKeywordFind ''cd'' demo_keys = Some (Inr 2)" "tshellKeywordFind ''A=1'' demo_keys = Some (Inl ERROR_TSHELL_EKEYWORD)"
  "SK_pfuncCommand (node_of demo_keys 2) = 200" "SK_ulOption (node_of demo_keys 2) = 0"
  "keyword_ok demo_keys" "kw_entries demo_keys = rev (map rg_pair demo_regs)"
proof -
  have "\<forall>r \<in> set demo_regs. length (rg_name r) \<le> LW_CFG_SHELL_MAX_KEYWORDLEN \<and> tbl_nodes keyword_init (rg_node r) = None"
    by (simp add: demo_regs_def keyword_init_def LW_CFG_SHELL_MAX_KEYWORDLEN_def)
  from register_all_adds[OF _ this] obtain st where st:
    "register_all demo_regs keyword_init = Some st" "kw.adds (map rg_pair demo_regs) keyword_init st"
    "\<forall>r \<in> set demo_regs. rg_done st r"
    by (auto simp: demo_regs_def)
  have e: "keyword_ok st" "kw_entries st = rev (map rg_pair demo_regs)"
    using kw.adds_entries[OF _ st(2)] by simp_all
  have d: "demo_keys = st" by (simp add: demo_keys_def st(1))
  show "tshellKeywordFind ''cd'' demo_keys = Some (Inr 2)" "tshellKeywordFind ''A=1'' demo_keys = Some (Inl ERROR_TSHELL_EKEYWORD)"
    by (simp_all add: d tshellKeywordFind_entries[OF e(1)] e(2) demo_regs_def rg_pair_def)
  show "keyword_ok demo_keys" "kw_entries demo_keys = rev (map rg_pair demo_regs)" using e by (simp_all add: d)
  show "SK_pfuncCommand (node_of demo_keys 2) = 200" "SK_ulOption (node_of demo_keys 2) = 0"
    using st(3) by (auto simp: d demo_regs_def rg_done_def node_of_def)
qed

definition demo_shell :: "cstring list list shell" where
  "demo_shell =
     \<lparr>sh_keys = demo_keys, sh_vars = demo_env, sh_error = 0, sh_magic = 0, sh_std = int, sh_cleanup = [],
      sh_world = []\<rparr>"

text \<open>Commands that record their parameters and return 0, and files that open as descriptor 7.\<close>

definition demo_os :: "cstring list list os" where
  "demo_os =
     \<lparr>os_run = (\<lambda>f argv sh. (0, sh\<lparr>sh_world := argv # sh_world sh\<rparr>)), os_hook = None,
      os_is_file = (\<lambda>f sh. False), os_path_mem = (\<lambda>sh. True), os_open = (\<lambda>p fl sh. (7, sh)),
      os_close = (\<lambda>fd sh. sh), os_background = (\<lambda>fd cmd opt join magic sh. (0, sh)),
      os_allocs = (\<lambda>sh. demo_allocs 10 11), os_before = BLANK\<rparr>"

lemma demo_file: "lib_index kw CHR ''/'' = None \<Longrightarrow> tshellCheckFile demo_os kw demo_shell = Inr False"
  using demo_env tshellVarGetRt_env[of demo_env MAX_FILENAME_LENGTH "''PATH''" "[]"]
  by (simp add: tshellCheckFile_def demo_os_def demo_shell_def TShellVarGetRt_def MAX_FILENAME_LENGTH_def)

lemma command_dispatch_witness:
  "\<exists>sh. tshellExec demo_os 1 (command_line ''cd'' [''a b'', '''']) demo_shell = Inr (0, sh) \<and>
     sh_world sh = [[''cd'', ''a b'', '''']]"
proof -
  have "keyword_word ''cd''"
    by (simp add: keyword_word_def lit_ok_def plain_word_def op_free_Cons op_char_def LW_CFG_SHELL_MAX_KEYWORDLEN_def)
  moreover have "\<not> contains_then (command_line ''cd'' [''a b'', ''''])"
    by (simp add: command_line_def quote_arg_def escape_char_def)
  moreover have "length (command_line ''cd'' [''a b'', '''']) < LW_CFG_SHELL_MAX_COMMANDLEN"
    by (simp add: command_line_def quote_arg_def escape_char_def LW_CFG_SHELL_MAX_COMMANDLEN_def)
  ultimately have "tshellExec demo_os (Suc 0) (command_line ''cd'' [''a b'', '''']) demo_shell =
      (let (r, sh') = os_run demo_os (SK_pfuncCommand (node_of (sh_keys demo_shell) 2)) [''cd'', ''a b'', '''']
         (demo_shell\<lparr>sh_magic := 0\<rparr>) in Inr (r, restore_std (sh_std demo_shell) sh'))"
    using demo_file[of "''cd''"] demo_keys
    by (intro command_dispatch)
      (simp_all add: no_redir_def op_free_Cons op_char_def LW_CFG_SHELL_MAX_PARAMNUM_def demo_os_def demo_shell_def EOS_eq)
  then show ?thesis by (simp add: demo_os_def restore_std_def IoTaskStdSet_def demo_shell_def)
qed

lemma redirection_witness:
  "\<exists>sh. tshellWrapper demo_os 200 [''cd'', ''x'', ''hi>/etc/.log''] demo_shell = Inr (0, sh) \<and>
     sh_world sh = [[''cd'', ''x'']]"
  using redirection[of "[''x'']" "''hi''" "''/etc/.log''" demo_os demo_shell 7 demo_shell 200 "''cd''" 0]
  by (simp add: no_redir_def LW_CFG_SHELL_MAX_PARAMNUM_def demo_os_def demo_shell_def restore_std_def IoTaskStdSet_def)

lemma demo_plain:
  assumes "lit_ok cmd" "cmd \<noteq> []" "hd cmd \<notin> {BLANK, TAB, CR, LF, CHR ''#''}"
    "length cmd < LW_CFG_SHELL_MAX_COMMANDLEN" "tshellIfElse BLANK cmd = If_Not"
  shows "plain_line demo_os cmd demo_shell cmd"
  using assms convert_lit[of cmd "[]" 0 demo_env "[]" "[]"]
  by (simp add: plain_line_def tshellStrConvertVar_def demo_shell_def demo_os_def)

lemma operator_meaning_witness:
  "tshellExec demo_os (Suc (Suc 0)) ''cd&&cd'' demo_shell = operator_run Op_And (tshellExec demo_os (Suc 0)) ''cd'' ''cd'' demo_shell"
  using operator_meaning[of demo_os "''cd''" Op_And "''cd''" demo_shell "''cd&&cd''" "Suc 0"]
    demo_plain[of "''cd&&cd''"]
  by (simp add: lit_ok_def LW_CFG_SHELL_MAX_COMMANDLEN_def tshellIfElse_def tail2_def op_free_Cons op_char_def)

lemma pipe_err_overflow_witness:
  "tshellExec demo_os (Suc 0) ''cd|&'' demo_shell = Inl Stack_Overwritten"
  using pipe_err_overflow[of demo_os "''cd''" "[]" demo_shell "''cd|&''" 0] demo_plain[of "''cd|&''"]
  by (simp add: lit_ok_def LW_CFG_SHELL_MAX_COMMANDLEN_def tshellIfElse_def tail2_def op_free_Cons op_char_def)

section \<open>If\<close>

lemma contains_then_append: "contains_then (a @ ''then'' @ b)"
  by (induction a) auto

lemma exec_if_error:
  assumes "lit_ok cmd" "cmd \<noteq> []" "hd cmd \<notin> {BLANK, TAB, CR, LF, CHR ''#''}" "length cmd < LW_CFG_SHELL_MAX_COMMANDLEN"
    and "tshellIfElse (os_before os) cmd = If_Error"
  shows "tshellExec os (Suc n) cmd sh = Inr (- 2200, sh)"
proof -
  have "skip_white cmd = cmd" using assms(2,3) by (cases cmd) auto
  moreover have "tshellStrConvertVar (sh_error sh) (sh_vars sh) cmd = Inr (ERROR_NONE, cmd)"
    using convert_lit[of cmd "[]" "sh_error sh" "sh_vars sh" "[]" "[]"] assms(1,4) by (simp add: tshellStrConvertVar_def)
  ultimately show ?thesis using assms(2-5)
    by (auto simp: exec_step_def Let_def LW_CFG_SHELL_MAX_COMMANDLEN_def)
qed

lemma tail2_snoc: "tail2 before (s @ [c, d]) = [c, d]"
  by (simp add: tail2_def)

lemma cut_free_no_fi: "cut_free (u @ [c, d]) t \<Longrightarrow> \<not> (c = CHR ''f'' \<and> d = CHR ''i'')"
  by (induction u) (auto simp: ends_body_def)

lemma cut_free_left: "cut_free (a @ b) t \<Longrightarrow> cut_free a (b @ t)"
  by (induction a) auto

lemma lit_ok_append: "lit_ok (a @ b) \<longleftrightarrow> lit_ok a \<and> lit_ok b"
  by (auto simp: lit_ok_def)

lemma half_if_error:
  assumes "cut_free x t"
  shows "tshellIfElse before (''if [ '' @ w @ '' ] then'' @ x) = If_Error"
proof -
  let ?l = "''if [ '' @ w @ '' ] then'' @ x"
  have "\<not> tshellCheck (tail2 before ?l) ''fi''"
  proof (cases x rule: rev_cases)
    case Nil
    then show ?thesis using tail2_snoc[of before "''if [ '' @ w @ '' ] th''" "CHR ''e''" "CHR ''n''"] by simp
  next
    case (snoc y d)
    show ?thesis
    proof (cases y rule: rev_cases)
      case Nil
      then show ?thesis using snoc tail2_snoc[of before "''if [ '' @ w @ '' ] the''" "CHR ''n''" d] by simp
    next
      case y: (snoc z c)
      then have x: "x = z @ [c, d]" using snoc by simp
      have "\<not> (c = CHR ''f'' \<and> d = CHR ''i'')" using cut_free_no_fi assms x by blast
      then show ?thesis using tail2_snoc[of before "''if [ '' @ w @ '' ] then'' @ z" c d] x by auto
    qed
  qed
  moreover have "contains_then (skip_blanks ?l)"
    using contains_then_append[of "''if [ '' @ w @ '' ] ''" x] by simp
  ultimately show ?thesis by (simp add: tshellIfElse_def Let_def)
qed

text \<open>
  A condition that is false does not protect the commands of its branch.  A line
  \<open>if [ l op r ] then x ; y fi\<close> whose condition fails is no \<open>if\<close> statement for \<open>_tshellIfElse\<close>, so it is
  split at the semicolon: the first half is refused with -2200, and the second half, \<open>y fi\<close>, is
  executed.
\<close>

theorem false_if_runs_tail:
  assumes "chain_ok [c] None" and "\<not> clause_holds c" and "cl_body c = x @ '';'' @ y"
    and "lit_ok (if_text [c] None)" and "length (if_text [c] None) < LW_CFG_SHELL_MAX_COMMANDLEN"
    and "op_free (cl_left c)" and "op_free (cl_right c)" and "op_free x"
  shows "tshellExec os (Suc (Suc n)) (if_text [c] None) sh =
    bind_res (tshellExec os (Suc n) (y @ ''fi'') sh) (\<lambda>(r, sh'). Inr (min (- 2200) r, sh'))"
proof -
  define w where "w = cl_left c @ '' '' @ op_text (cl_op c) @ '' '' @ cl_right c"
  define h where "h = ''if [ '' @ w @ '' ] then'' @ x"
  have l: "if_text [c] None = h @ '';'' @ y @ ''fi''"
    by (simp add: if_text_def cond_text_def assms(3) h_def w_def)
  have lit: "lit_ok h" and len: "length h < LW_CFG_SHELL_MAX_COMMANDLEN"
    using assms(4,5) unfolding l by (simp_all add: lit_ok_append)
  have h: "h \<noteq> []" "hd h = CHR ''i''" by (simp_all add: h_def)
  have "op_free w"
    using assms(6,7) by (cases "cl_op c") (simp_all add: w_def op_free_append op_free_Cons op_char_def)
  then have "op_free h" using assms(8) by (simp add: h_def op_free_append op_free_Cons op_char_def)
  have "tshellIfElse (os_before os) (if_text [c] None) = If_Not"
    using if_text_eval[OF assms(1), of "os_before os"] assms(2) by simp
  then have "plain_line os (h @ '';'' @ y @ ''fi'') sh (h @ '';'' @ y @ ''fi'')"
    using convert_lit[of "if_text [c] None" "[]" "sh_error sh" "sh_vars sh" "[]" "[]"] assms(4,5) h
    unfolding l by (simp add: plain_line_def tshellStrConvertVar_def)
  from exec_plain[OF this, of "Suc n"] split_operator(3)[OF \<open>op_free h\<close>, of "y @ ''fi''"]
  have "tshellExec os (Suc (Suc n)) (if_text [c] None) sh =
      bind_res (tshellExec os (Suc n) h sh) (\<lambda>(error1, sh).
        bind_res (tshellExec os (Suc n) (y @ ''fi'') sh) (\<lambda>(error2, sh). Inr (min error1 error2, sh)))"
    unfolding l by (simp add: exec_split_def)
  moreover have "cut_free x ('';'' @ y @ ''fi'')"
    using assms(1) cut_free_left[of x "'';'' @ y" "''fi''"] by (simp add: assms(3))
  then have "tshellIfElse (os_before os) h = If_Error" unfolding h_def by (rule half_if_error)
  then have "tshellExec os (Suc n) h sh = Inr (- 2200, sh)"
    by (intro exec_if_error lit h len) (simp_all add: h)
  ultimately show ?thesis by simp
qed

definition demo_clause :: clause where
  "demo_clause = \<lparr>cl_left = ''1'', cl_op = Op_Eq, cl_right = ''2'', cl_body = '' ls ; cd ''\<rparr>"

lemma false_if_runs_tail_witness:
  "tshellExec demo_os (Suc (Suc 0)) ''if [ 1 == 2 ] then ls ; cd fi'' demo_shell =
     bind_res (tshellExec demo_os (Suc 0) '' cd fi'' demo_shell) (\<lambda>(r, sh'). Inr (min (- 2200) r, sh'))"
proof -
  have "\<not> clause_holds demo_clause" by code_simp
  then show ?thesis
    using false_if_runs_tail[of demo_clause "'' ls ''" "'' cd ''" demo_os 0 demo_shell]
    by (simp add: demo_clause_def if_text_def cond_text_def operand_ok_def operand_char_def ends_body_def lit_ok_def
        LW_CFG_SHELL_MAX_COMMANDLEN_def op_free_Cons op_char_def)
qed

section \<open>Descriptors\<close>

text \<open>
  The system as the wrapper relies on it; \<open>fds\<close> is the multiset of the descriptors that are open.
\<close>

definition fd_laws :: "'w os \<Rightarrow> ('w \<Rightarrow> int multiset) \<Rightarrow> bool" where
  "fd_laws os fds \<longleftrightarrow>
     (\<forall>p fl sh fd sh'. os_open os p fl sh = (fd, sh') \<longrightarrow>
        sh_std sh' = sh_std sh \<and> sh_cleanup sh' = sh_cleanup sh \<and>
        fds (sh_world sh') = (if fd < 0 then fds (sh_world sh) else add_mset fd (fds (sh_world sh)))) \<and>
     (\<forall>fd sh. sh_std (os_close os fd sh) = sh_std sh \<and> sh_cleanup (os_close os fd sh) = sh_cleanup sh \<and>
        fds (sh_world (os_close os fd sh)) = fds (sh_world sh) - {#fd#}) \<and>
     (\<forall>f argv sh r sh'. os_run os f argv sh = (r, sh') \<longrightarrow>
        sh_cleanup sh' = sh_cleanup sh \<and> fds (sh_world sh') = fds (sh_world sh))"

definition redirected :: "('w \<Rightarrow> int multiset) \<Rightarrow> 'w shell \<Rightarrow> 'w shell \<Rightarrow> bool" where
  "redirected fds sh sh' \<longleftrightarrow>
     (\<exists>fs. sh_cleanup sh' = fs @ sh_cleanup sh \<and> (\<forall>fd \<in> set fs. 0 \<le> fd) \<and>
        fds (sh_world sh') = mset fs + fds (sh_world sh))"

lemma redirected_refl: "redirected fds sh sh"
  by (simp add: redirected_def)

lemma redirected_trans: "redirected fds a b \<Longrightarrow> redirected fds b c \<Longrightarrow> redirected fds a c"
proof -
  assume "redirected fds a b" "redirected fds b c"
  then obtain f g where "sh_cleanup b = f @ sh_cleanup a" "\<forall>fd \<in> set f. 0 \<le> fd" "fds (sh_world b) = mset f + fds (sh_world a)"
    "sh_cleanup c = g @ sh_cleanup b" "\<forall>fd \<in> set g. 0 \<le> fd" "fds (sh_world c) = mset g + fds (sh_world b)"
    by (auto simp: redirected_def)
  then show ?thesis unfolding redirected_def by (intro exI[of _ "g @ f"]) auto
qed

lemma set_outputs_simps [simp]:
  "sh_cleanup (set_outputs o1 fd sh) = sh_cleanup sh" "sh_world (set_outputs o1 fd sh) = sh_world sh"
  "sh_cleanup (IoTaskStdSet n fd sh) = sh_cleanup sh" "sh_world (IoTaskStdSet n fd sh) = sh_world sh"
  "sh_cleanup (restore_std old sh) = sh_cleanup sh" "sh_world (restore_std old sh) = sh_world sh"
  by (simp_all add: set_outputs_def IoTaskStdSet_def restore_std_def Let_def)

lemma open_redirected:
  assumes "fd_laws os fds" "os_open os p fl sh = (fd, sh1)"
  shows "fd < 0 \<Longrightarrow> redirected fds sh sh1" "0 \<le> fd \<Longrightarrow> redirected fds sh (sh1\<lparr>sh_cleanup := fd # sh_cleanup sh1\<rparr>)"
proof -
  have o: "sh_cleanup sh1 = sh_cleanup sh"
    "fds (sh_world sh1) = (if fd < 0 then fds (sh_world sh) else add_mset fd (fds (sh_world sh)))"
    using assms by (auto simp: fd_laws_def)
  show "fd < 0 \<Longrightarrow> redirected fds sh sh1" using o by (simp add: redirected_def)
  show "0 \<le> fd \<Longrightarrow> redirected fds sh (sh1\<lparr>sh_cleanup := fd # sh_cleanup sh1\<rparr>)"
    using o by (auto simp: redirected_def intro!: exI[of _ "[fd]"])
qed

lemma redirected_std [simp]:
  "redirected fds sh (set_outputs o1 fd sh') = redirected fds sh sh'"
  "redirected fds sh (IoTaskStdSet n fd sh') = redirected fds sh sh'"
  by (simp_all add: redirected_def)

lemma redir_redirected:
  assumes "fd_laws os fds" "tshellRedir os pre redir sh = (ok, sh')"
  shows "redirected fds sh sh'"
  using assms(2) open_redirected[OF assms(1)]
  by (auto simp: tshellRedir_def Let_def redirected_refl split: if_splits prod.splits)

lemma redir_loop_redirected:
  "fd_laws os fds \<Longrightarrow> redir_loop os i n args sh = (ok, m, sh') \<Longrightarrow> redirected fds sh sh'"
proof (induction args arbitrary: i n sh)
  case (Cons arg args)
  show ?case
  proof (cases "find_redir arg")
    case None
    with Cons show ?thesis by simp
  next
    case (Some k)
    obtain ok1 sh1 where r: "tshellRedir os (take k arg) (drop k arg) sh = (ok1, sh1)" by fastforce
    have one: "redirected fds sh sh1" by (rule redir_redirected[OF Cons.prems(1) r])
    show ?thesis
    proof (cases ok1)
      case True
      then have "redir_loop os (Suc i) (if n > i then i else n) args sh1 = (ok, m, sh')"
        using Cons.prems(2) Some r by simp
      from redirected_trans[OF one Cons.IH[OF Cons.prems(1) this]] show ?thesis .
    next
      case False
      then show ?thesis using Cons.prems(2) Some r one by simp
    qed
  qed
qed (simp add: redirected_refl)

lemma close_redirs_ok:
  assumes "fd_laws os fds"
  shows "sh_cleanup sh = fs @ cl \<Longrightarrow> \<forall>fd \<in> set fs. 0 \<le> fd \<Longrightarrow> fds (sh_world sh) = mset fs + F \<Longrightarrow>
    sh_std (close_redirs os (length fs) sh) = sh_std sh \<and>
    sh_cleanup (close_redirs os (length fs) sh) = cl \<and> fds (sh_world (close_redirs os (length fs) sh)) = F"
proof (induction fs arbitrary: sh)
  case (Cons fd fs)
  let ?s = "os_close os fd (sh\<lparr>sh_cleanup := fs @ cl\<rparr>)"
  have "sh_std ?s = sh_std sh" "sh_cleanup ?s = fs @ cl" "fds (sh_world ?s) = mset fs + F"
    using assms Cons.prems(3) by (auto simp: fd_laws_def)
  with Cons show ?case by (simp add: Let_def)
qed simp

lemma restore_after:
  assumes l: "fd_laws os fds" and r: "redirected fds sh sh1"
    and s: "sh_cleanup sh2 = sh_cleanup sh1" "fds (sh_world sh2) = fds (sh_world sh1)"
    and e: "sh' = close_redirs os (length (sh_cleanup sh1) - length (sh_cleanup sh)) (restore_std (sh_std sh) sh2)"
  shows "sh_cleanup sh' = sh_cleanup sh \<and> fds (sh_world sh') = fds (sh_world sh) \<and>
    (\<forall>i < 3. sh_std sh' i = sh_std sh i)"
proof -
  obtain fs where fs: "sh_cleanup sh1 = fs @ sh_cleanup sh" "\<forall>fd \<in> set fs. 0 \<le> fd"
    "fds (sh_world sh1) = mset fs + fds (sh_world sh)" using r by (auto simp: redirected_def)
  have "\<forall>i < 3. sh_std (restore_std (sh_std sh) sh2) i = sh_std sh i"
    by (auto simp: restore_std_def IoTaskStdSet_def numeral_3_eq_3 numeral_2_eq_2 less_Suc_eq)
  then show ?thesis
    using close_redirs_ok[OF l, of "restore_std (sh_std sh) sh2" fs "sh_cleanup sh" "fds (sh_world sh)"] fs s
    by (simp add: e)
qed


text \<open>A system whose world is the list of the open descriptors.\<close>

definition fd_os :: "int list os" where
  "fd_os =
     \<lparr>os_run = (\<lambda>f argv sh. (0, sh)), os_hook = None, os_is_file = (\<lambda>f sh. False), os_path_mem = (\<lambda>sh. True),
      os_open = (\<lambda>p fl sh. if p = ''/no'' then (- 1, sh) else (7, sh\<lparr>sh_world := 7 # sh_world sh\<rparr>)),
      os_close = (\<lambda>fd sh. sh\<lparr>sh_world := remove1 fd (sh_world sh)\<rparr>),
      os_background = (\<lambda>fd cmd opt join magic sh. (0, sh)), os_allocs = (\<lambda>sh. demo_allocs 10 11), os_before = BLANK\<rparr>"

lemma fd_os: "fd_laws fd_os mset"
  by (auto simp: fd_laws_def fd_os_def split: if_splits)

definition fd_shell :: "int list shell" where
  "fd_shell = \<lparr>sh_keys = keyword_init, sh_vars = var_init, sh_error = 0, sh_magic = 0, sh_std = int, sh_cleanup = [],
     sh_world = [0, 1, 2]\<rparr>"


end
