(* ===== verification/RegexParse.thy ===== *)
theory RegexParse
  imports LibString
begin

text \<open>
  The regular expressions of the shell's \<open>grep\<close>: the nodes of \<open>include/cregex.h\<close> and the parser of
  \<open>shellRegex/parse.c\<close>.

  A position in the pattern is the rest of the pattern; reading at its end gives NUL, and reading
  behind the NUL is the fault \<open>Pattern_Overread\<close>.  The buffer of \<open>estimate_nodes\<close> nodes is filled from
  below with the stack and from above with the finished nodes: the model keeps the stack as a list,
  its top first, and the number of finished nodes; a push into a full buffer is the fault
  \<open>Nodes_Overflow\<close>.
\<close>

abbreviation BACKSLASH :: c_char where "BACKSLASH \<equiv> CHR 0x5C"

text \<open>The character at a position.\<close>

definition hd_char :: "cstring \<Rightarrow> c_char" where
  "hd_char s = (case s of [] \<Rightarrow> EOS | c # t \<Rightarrow> c)"

declare bind_res_cong [fundef_cong]

section \<open>Nodes\<close>

text \<open>The text of a character class is its pattern from the first character after the bracket on.\<close>

datatype cregex_node =
    EPSILON
  | CHARACTER int
  | ANY_CHARACTER
  | CHARACTER_CLASS bool cstring
  | CONCATENATION cregex_node cregex_node
  | ALTERNATION cregex_node cregex_node
  | QUANTIFIER int int bool cregex_node
  | ANCHOR_BEGIN
  | ANCHOR_END
  | CAPTURE cregex_node

datatype regex_fault = Pattern_Overread | Nodes_Overflow | Stack_Underflow | Int_Overflow | Out_Of_Depth
  | Class_Index | Bad_Pc

record regex_parse_context =
  csp :: cstring
  stack :: "cregex_node list"
  used :: nat
  room :: nat

type_synonym parse_result = "regex_fault + regex_parse_context option"

text \<open>Stepping over characters.\<close>

definition skip :: "nat \<Rightarrow> cstring \<Rightarrow> regex_fault + cstring" where
  "skip n s = (if n \<le> length s then Inr (drop n s) else Inl Pattern_Overread)"

lemma skip_Inr: "skip n s = Inr t \<longleftrightarrow> n \<le> length s \<and> t = drop n s"
  by (auto simp: skip_def)

section \<open>The stack\<close>

definition push :: "cregex_node \<Rightarrow> regex_parse_context \<Rightarrow> regex_fault + regex_parse_context" where
  "push node c =
     (if length (stack c) + used c < room c then Inr (c\<lparr>stack := node # stack c\<rparr>) else Inl Nodes_Overflow)"

definition drop_top :: "regex_parse_context \<Rightarrow> regex_fault + regex_parse_context" where
  "drop_top c = (case stack c of [] \<Rightarrow> Inl Stack_Underflow | x # st \<Rightarrow> Inr (c\<lparr>stack := st\<rparr>))"

definition consume :: "regex_parse_context \<Rightarrow> regex_fault + cregex_node \<times> regex_parse_context" where
  "consume c =
     (case stack c of [] \<Rightarrow> Inl Stack_Underflow | x # st \<Rightarrow> Inr (x, c\<lparr>stack := st, used := used c + 1\<rparr>))"

text \<open>The loop of \<open>concatenate\<close>; \<open>n\<close> is the number of nodes above \<open>bottom\<close>.\<close>

fun concat_loop :: "nat \<Rightarrow> regex_parse_context \<Rightarrow> regex_fault + regex_parse_context" where
  "concat_loop (Suc (Suc n)) c =
     bind_res (consume c) (\<lambda>(right, c). bind_res (consume c) (\<lambda>(left, c).
       bind_res (push (CONCATENATION left right) c) (concat_loop (Suc n))))"
| "concat_loop n c = Inr c"

definition concatenate :: "nat \<Rightarrow> regex_parse_context \<Rightarrow> regex_fault + regex_parse_context" where
  "concatenate bottom c =
     (if length (stack c) = bottom then push EPSILON c else concat_loop (length (stack c) - bottom) c)"

section \<open>Character classes\<close>

text \<open>
  What the parser and the compiler do alike in a class: the next character, after a backslash the one
  behind it, and the upper end when a range follows.
\<close>

definition class_char :: "c_char \<Rightarrow> cstring \<Rightarrow> regex_fault + c_char \<times> cstring" where
  "class_char ch s =
     (if ch = BACKSLASH then (case s of [] \<Rightarrow> Inl Pattern_Overread | d # t \<Rightarrow> Inr (d, t)) else Inr (ch, s))"

definition class_range :: "cstring \<Rightarrow> c_char option" where
  "class_range s =
     (case s of
        [] \<Rightarrow> None
      | [d] \<Rightarrow> if d = CHR ''-'' then Some EOS else None
      | d # e # u \<Rightarrow> if d = CHR ''-'' \<and> e \<noteq> CHR '']'' then Some e else None)"

lemma class_char_length: "class_char ch s = Inr (c, t) \<Longrightarrow> length t \<le> length s"
  by (auto simp: class_char_def split: if_splits list.splits)

text \<open>
  The scan of \<open>parse_char_class\<close>; \<open>first\<close> is true at the first character.  \<open>None\<close> is a malformed
  class, \<open>Some\<close> the rest after the closing bracket.
\<close>

function class_scan :: "bool \<Rightarrow> cstring \<Rightarrow> regex_fault + cstring option" where
  "class_scan first [] = Inr None"
| "class_scan first (ch # s) =
     (if ch = CHR '']'' \<and> \<not> first then Inr (Some s)
      else
        bind_res (class_char ch s) (\<lambda>(c, t).
          case class_range t of
            None \<Rightarrow> class_scan False t
          | Some e \<Rightarrow>
              if schar e < schar c then Inr None
              else bind_res (skip 2 t) (\<lambda>u. class_scan False u)))"
  by pat_completeness auto

termination
  by (relation "measure (\<lambda>(f, s). length s)") (auto dest: class_char_length simp: skip_Inr)

definition parse_char_class :: "regex_parse_context \<Rightarrow> regex_fault + regex_parse_context option" where
  "parse_char_class c =
     (let negated = (csp c \<noteq> [] \<and> hd (csp c) = CHR ''^''); from = (if negated then tl (csp c) else csp c) in
      bind_res (class_scan True from) (\<lambda>r.
        case r of
          None \<Rightarrow> Inr None
        | Some rest \<Rightarrow> bind_res (push (CHARACTER_CLASS negated from) (c\<lparr>csp := rest\<rparr>)) (\<lambda>c. Inr (Some c))))"

section \<open>Intervals\<close>

definition is_digit :: "c_char \<Rightarrow> bool" where
  "is_digit c \<longleftrightarrow> schar CHR ''0'' \<le> schar c \<and> schar c \<le> schar CHR ''9''"

fun digits_loop :: "int \<Rightarrow> cstring \<Rightarrow> regex_fault + int \<times> cstring" where
  "digits_loop n [] = Inr (n, [])"
| "digits_loop n (c # s) =
     (if is_digit c then
        (let n' = n * 10 + (schar c - schar CHR ''0'') in
         if n' \<ge> 2 ^ 31 then Inl Int_Overflow else digits_loop n' s)
      else Inr (n, c # s))"

text \<open>The bounds of an interval and the rest after its brace; \<open>None\<close> when there is none.\<close>

definition interval_bounds :: "cstring \<Rightarrow> regex_fault + (int \<times> int \<times> cstring) option" where
  "interval_bounds from =
     bind_res (digits_loop 0 from) (\<lambda>(nmin, s).
       if hd_char s = CHR '','' then
         (let s = tl s in
          if hd_char from \<noteq> CHR '','' \<and> hd_char s = CHR ''}'' then Inr (Some (nmin, - 1, tl s))
          else bind_res (digits_loop 0 s) (\<lambda>(nmax, s').
            if length s' = length s \<or> hd_char s' \<noteq> CHR ''}'' \<or> nmax < nmin then Inr None
            else Inr (Some (nmin, nmax, tl s'))))
       else if hd_char from \<noteq> CHR ''}'' \<and> hd_char s = CHR ''}'' then Inr (Some (nmin, nmin, tl s))
       else Inr None)"

text \<open>The end of every quantifier: a question mark makes it lazy.\<close>

definition quantify :: "int \<Rightarrow> int \<Rightarrow> regex_parse_context \<Rightarrow> regex_fault + regex_parse_context" where
  "quantify nmin nmax c =
     (let lazy = (hd_char (csp c) = CHR ''?''); c = (if lazy then c\<lparr>csp := tl (csp c)\<rparr> else c) in
      bind_res (consume c) (\<lambda>(x, c). push (QUANTIFIER nmin nmax (\<not> lazy) x) c))"

definition parse_interval :: "regex_parse_context \<Rightarrow> regex_fault + regex_parse_context option" where
  "parse_interval c =
     bind_res (interval_bounds (csp c)) (\<lambda>r.
       case r of
         None \<Rightarrow> Inr None
       | Some (nmin, nmax, rest) \<Rightarrow> bind_res (quantify nmin nmax (c\<lparr>csp := rest\<rparr>)) (\<lambda>c. Inr (Some c)))"

section \<open>Patterns\<close>

definition or_push :: "cregex_node \<Rightarrow> regex_parse_context \<Rightarrow> regex_fault + regex_parse_context option" where
  "or_push x c = bind_res (push x c) (\<lambda>c. Inr (Some c))"

text \<open>The end of the case of a bar: the two alternatives are on top of the stack.\<close>

definition alternate :: "regex_parse_context \<Rightarrow> regex_fault + regex_parse_context option" where
  "alternate c =
     (case stack c of
        right # left # st \<Rightarrow>
          if left = EPSILON \<and> right = EPSILON then bind_res (drop_top c) (\<lambda>c. Inr (Some c))
          else if left = EPSILON then
            bind_res (consume c) (\<lambda>(x, c). bind_res (drop_top c) (\<lambda>c. or_push (QUANTIFIER 0 1 True x) c))
          else if right = EPSILON then
            bind_res (drop_top c) (\<lambda>c. bind_res (consume c) (\<lambda>(x, c). or_push (QUANTIFIER 0 1 True x) c))
          else
            bind_res (consume c) (\<lambda>(r, c). bind_res (consume c) (\<lambda>(l, c). or_push (ALTERNATION l r) c))
      | _ \<Rightarrow> Inl Stack_Underflow)"

text \<open>
  \<open>parse_context\<close>; \<open>bottom\<close> is the height of the stack at its entry.  The first argument bounds the
  number of characters read.
\<close>

fun parse_context :: "nat \<Rightarrow> nat \<Rightarrow> nat \<Rightarrow> regex_parse_context \<Rightarrow> regex_fault + regex_parse_context option" where
  "parse_context 0 depth bottom c = Inl Out_Of_Depth"
| "parse_context (Suc n) depth bottom c =
     (case csp c of
        [] \<Rightarrow> if depth = 0 then bind_res (concatenate bottom c) (\<lambda>c. Inr (Some c)) else Inr None
      | ch # s \<Rightarrow>
          (let c = c\<lparr>csp := s\<rparr>;
               go = (\<lambda>r. case r of None \<Rightarrow> Inr None | Some c \<Rightarrow> parse_context n depth bottom c);
               char = (\<lambda>ch. bind_res (or_push (CHARACTER (schar ch)) c) go);
               above = (length (stack c) \<noteq> bottom)
           in
           if ch = BACKSLASH then
             (case s of
                [] \<Rightarrow> Inl Pattern_Overread
              | d # t \<Rightarrow> bind_res (or_push (CHARACTER (schar d)) (c\<lparr>csp := t\<rparr>)) go)
           else if ch = CHR ''.'' then bind_res (or_push ANY_CHARACTER c) go
           else if ch = CHR ''['' then bind_res (parse_char_class c) go
           else if ch = CHR ''|'' then
             bind_res (concatenate bottom c) (\<lambda>c.
               bind_res (parse_context n depth (length (stack c)) c) (\<lambda>r.
                 case r of None \<Rightarrow> Inr None | Some c \<Rightarrow> alternate c))
           else if ch = CHR ''?'' \<and> above then bind_res (quantify 0 1 c) (\<lambda>c. go (Some c))
           else if ch = CHR ''*'' \<and> above then bind_res (quantify 0 (- 1) c) (\<lambda>c. go (Some c))
           else if ch = CHR ''+'' \<and> above then bind_res (quantify 1 (- 1) c) (\<lambda>c. go (Some c))
           else if ch = CHR ''{'' \<and> above then
             bind_res (parse_interval c) (\<lambda>r. case r of None \<Rightarrow> char ch | Some c \<Rightarrow> go (Some c))
           else if ch = CHR ''^'' then bind_res (or_push ANCHOR_BEGIN c) go
           else if ch = CHR ''$'' then bind_res (or_push ANCHOR_END c) go
           else if ch = CHR ''('' then
             bind_res (parse_context n (Suc depth) (length (stack c)) c) (\<lambda>r.
               case r of
                 None \<Rightarrow> Inr None
               | Some c \<Rightarrow> bind_res (consume c) (\<lambda>(x, c). bind_res (or_push (CAPTURE x) c) go))
           else if ch = CHR '')'' then
             (if depth > 0 then bind_res (concatenate bottom c) (\<lambda>c. Inr (Some c)) else Inr None)
           else char ch))"

definition estimate_nodes :: "cstring \<Rightarrow> nat" where
  "estimate_nodes pattern = lib_strlen pattern * 2"

definition parse_with_nodes :: "cstring \<Rightarrow> regex_fault + regex_parse_context option" where
  "parse_with_nodes pattern =
     parse_context (length pattern + 1) 0 0
       \<lparr>csp = pattern, stack = [], used = 0, room = estimate_nodes pattern\<rparr>"

text \<open>The argument says whether there is memory; \<open>None\<close> is \<open>NULL\<close>.  The root is the first node.\<close>

definition cregex_parse :: "bool \<Rightarrow> cstring \<Rightarrow> regex_fault + cregex_node option" where
  "cregex_parse mem pattern =
     (if \<not> mem then Inr None
      else bind_res (parse_with_nodes pattern) (\<lambda>r.
        case r of
          None \<Rightarrow> Inr None
        | Some c \<Rightarrow> if stack c = [] then Inl Stack_Underflow else Inr (Some (last (stack c)))))"

end
