(* ===== verification/RegexCompile.thy ===== *)
theory RegexCompile
  imports RegexParse "HOL-Library.Word"
begin

unbundle bit_operations_syntax

text \<open>
  The compiler of \<open>shellRegex/compile.c\<close>: programs with absolute addresses for the machine of \<open>vm.c\<close>.
  \<open>compile_context\<close> gets the address and the number of captures that \<open>regex_compile_context\<close> holds
  and returns the instructions it emits and the new number of captures; a pointer to an instruction
  is its index in the program.
\<close>

section \<open>Instructions\<close>

datatype cregex_program_instr =
    OP_MATCH
  | OP_CHARACTER int
  | OP_ANY_CHARACTER
  | OP_CHARACTER_CLASS bool "256 word"
  | OP_SPLIT nat nat
  | OP_JUMP nat
  | OP_ASSERT_BEGIN
  | OP_ASSERT_END
  | OP_SAVE nat

text \<open>
  A class is an array of 32 bytes, here one word.  A negative character gives an index before the
  array or a negative shift count: both are the fault \<open>Class_Index\<close>.
\<close>

definition cregex_char_class_contains :: "256 word \<Rightarrow> int \<Rightarrow> regex_fault + bool" where
  "cregex_char_class_contains klass ch = (if ch < 0 then Inl Class_Index else Inr (bit klass (nat ch)))"

definition cregex_char_class_add :: "256 word \<Rightarrow> int \<Rightarrow> regex_fault + 256 word" where
  "cregex_char_class_add klass ch =
     (if ch < 0 then Inl Class_Index else Inr (klass OR push_bit (nat ch) 1))"

fun class_add_all :: "256 word \<Rightarrow> int list \<Rightarrow> regex_fault + 256 word" where
  "class_add_all klass [] = Inr klass"
| "class_add_all klass (ch # chs) = bind_res (cregex_char_class_add klass ch) (\<lambda>klass. class_add_all klass chs)"

function class_compile :: "bool \<Rightarrow> cstring \<Rightarrow> 256 word \<Rightarrow> regex_fault + 256 word" where
  "class_compile first [] klass = Inl Pattern_Overread"
| "class_compile first (ch # s) klass =
     (if ch = CHR '']'' \<and> \<not> first then Inr klass
      else
        bind_res (class_char ch s) (\<lambda>(c, t).
          case class_range t of
            None \<Rightarrow> bind_res (cregex_char_class_add klass (schar c)) (\<lambda>klass. class_compile False t klass)
          | Some e \<Rightarrow>
              bind_res (class_add_all klass [schar c..schar e]) (\<lambda>klass.
                bind_res (skip 2 t) (\<lambda>u. class_compile False u klass))))"
  by pat_completeness auto

termination
  by (relation "measure (\<lambda>(f, s, k). length s)") (auto dest: class_char_length simp: skip_Inr)

definition compile_char_class :: "cstring \<Rightarrow> regex_fault + 256 word" where
  "compile_char_class from = class_compile True from 0"

section \<open>Counting\<close>

primrec count_instructions :: "cregex_node \<Rightarrow> nat" where
  "count_instructions EPSILON = 0"
| "count_instructions (CHARACTER ch) = 1"
| "count_instructions ANY_CHARACTER = 1"
| "count_instructions (CHARACTER_CLASS neg from) = 1"
| "count_instructions (CONCATENATION l r) = count_instructions l + count_instructions r"
| "count_instructions (ALTERNATION l r) = 2 + count_instructions l + count_instructions r"
| "count_instructions (QUANTIFIER nmin nmax g x) =
     (let num = count_instructions x in
      if nmax \<ge> nmin then nat nmin * num + nat (nmax - nmin) * (num + 1)
      else 1 + (if nmin \<noteq> 0 then nat nmin * num else num + 1))"
| "count_instructions ANCHOR_BEGIN = 1"
| "count_instructions ANCHOR_END = 1"
| "count_instructions (CAPTURE x) = 2 + count_instructions x"

primrec node_is_anchored :: "cregex_node \<Rightarrow> bool" where
  "node_is_anchored EPSILON = False"
| "node_is_anchored (CHARACTER ch) = False"
| "node_is_anchored ANY_CHARACTER = False"
| "node_is_anchored (CHARACTER_CLASS neg from) = False"
| "node_is_anchored (CONCATENATION l r) = node_is_anchored l"
| "node_is_anchored (ALTERNATION l r) = (node_is_anchored l \<and> node_is_anchored r)"
| "node_is_anchored (QUANTIFIER nmin nmax g x) = node_is_anchored x"
| "node_is_anchored ANCHOR_BEGIN = True"
| "node_is_anchored ANCHOR_END = False"
| "node_is_anchored (CAPTURE x) = node_is_anchored x"

section \<open>Compilation\<close>

type_synonym program = "cregex_program_instr list"
type_synonym compiled = "regex_fault + program \<times> nat"

text \<open>The mandatory copies; \<open>lastpc\<close> is the address of the last one.\<close>

fun compile_copies :: "(nat \<Rightarrow> nat \<Rightarrow> compiled) \<Rightarrow> nat \<Rightarrow> nat \<Rightarrow> nat \<Rightarrow> nat \<Rightarrow> nat \<Rightarrow> regex_fault + program \<times> nat \<times> nat" where
  "compile_copies f caps 0 pc n lastpc = Inr ([], n, lastpc)"
| "compile_copies f caps (Suc k) pc n lastpc =
     bind_res (f pc caps) (\<lambda>(code, n). bind_res (compile_copies f caps k (pc + length code) n pc)
       (\<lambda>(rest, n, lastpc). Inr (code @ rest, n, lastpc)))"

definition greedy_split :: "bool \<Rightarrow> nat \<Rightarrow> nat \<Rightarrow> cregex_program_instr" where
  "greedy_split greedy a b = (if greedy then OP_SPLIT a b else OP_SPLIT b a)"

text \<open>The optional copies.\<close>

fun compile_options :: "(nat \<Rightarrow> nat \<Rightarrow> compiled) \<Rightarrow> nat \<Rightarrow> bool \<Rightarrow> nat \<Rightarrow> nat \<Rightarrow> nat \<Rightarrow> compiled" where
  "compile_options f caps g 0 pc n = Inr ([], n)"
| "compile_options f caps g (Suc k) pc n =
     bind_res (f (pc + 1) caps) (\<lambda>(code, n).
       bind_res (compile_options f caps g k (pc + 1 + length code) n)
         (\<lambda>(rest, n). Inr (greedy_split g (pc + 1) (pc + 1 + length code) # code @ rest, n)))"

definition compile_quantifier :: "(nat \<Rightarrow> nat \<Rightarrow> compiled) \<Rightarrow> int \<Rightarrow> int \<Rightarrow> bool \<Rightarrow> nat \<Rightarrow> nat \<Rightarrow> compiled" where
  "compile_quantifier f nmin nmax g pc n =
     bind_res (compile_copies f n (nat nmin) pc n 0) (\<lambda>(code, n', lastpc).
       let pc' = pc + length code in
       if nmax > nmin then
         bind_res (compile_options f n g (nat (nmax - nmin)) pc' n') (\<lambda>(rest, n). Inr (code @ rest, n))
       else if nmax = - 1 then
         (if nmin = 0 then
            bind_res (f (pc' + 1) n') (\<lambda>(body, n).
              Inr (code @ greedy_split g (pc' + 1) (pc' + 1 + length body + 1) # body @ [OP_JUMP pc'], n))
          else Inr (code @ [greedy_split g lastpc (pc' + 1)], n'))
       else Inr (code, n'))"

primrec compile_context :: "cregex_node \<Rightarrow> nat \<Rightarrow> nat \<Rightarrow> compiled" where
  "compile_context EPSILON pc n = Inr ([], n)"
| "compile_context (CHARACTER ch) pc n = Inr ([OP_CHARACTER ch], n)"
| "compile_context ANY_CHARACTER pc n = Inr ([OP_ANY_CHARACTER], n)"
| "compile_context (CHARACTER_CLASS neg from) pc n =
     bind_res (compile_char_class from) (\<lambda>klass. Inr ([OP_CHARACTER_CLASS neg klass], n))"
| "compile_context (CONCATENATION l r) pc n =
     bind_res (compile_context l pc n) (\<lambda>(a, n). bind_res (compile_context r (pc + length a) n) (\<lambda>(b, n).
       Inr (a @ b, n)))"
| "compile_context (ALTERNATION l r) pc n =
     bind_res (compile_context l (pc + 1) n) (\<lambda>(a, n).
       bind_res (compile_context r (pc + 2 + length a) n) (\<lambda>(b, n).
         Inr (OP_SPLIT (pc + 1) (pc + 2 + length a) # a @ OP_JUMP (pc + 2 + length a + length b) # b, n)))"
| "compile_context (QUANTIFIER nmin nmax g x) pc n = compile_quantifier (compile_context x) nmin nmax g pc n"
| "compile_context ANCHOR_BEGIN pc n = Inr ([OP_ASSERT_BEGIN], n)"
| "compile_context ANCHOR_END pc n = Inr ([OP_ASSERT_END], n)"
| "compile_context (CAPTURE x) pc n =
     bind_res (compile_context x (pc + 1) (n + 1)) (\<lambda>(a, n').
       Inr (OP_SAVE (n * 2) # a @ [OP_SAVE (n * 2 + 1)], n'))"

definition program_node :: "cregex_node \<Rightarrow> cregex_node" where
  "program_node root =
     (let root = CAPTURE root in
      if \<not> node_is_anchored root then CONCATENATION (QUANTIFIER 0 (- 1) False ANY_CHARACTER) root else root)"

definition compile_node_with_program :: "cregex_node \<Rightarrow> regex_fault + program" where
  "compile_node_with_program root =
     bind_res (compile_context (program_node root) 0 0) (\<lambda>(code, n). Inr (code @ [OP_MATCH]))"

definition estimate_instructions :: "cregex_node \<Rightarrow> nat" where
  "estimate_instructions root =
     count_instructions root + (if \<not> node_is_anchored root then 1 else 0) * 3 + 2 + 1"

definition cregex_compile_node :: "bool \<Rightarrow> cregex_node \<Rightarrow> regex_fault + program option" where
  "cregex_compile_node mem root =
     (if \<not> mem then Inr None else bind_res (compile_node_with_program root) (\<lambda>p. Inr (Some p)))"

end
