(* ===== verification/RegexSem.thy ===== *)
theory RegexSem
  imports RegexCompile
begin

unbundle bit_operations_syntax

text \<open>
  What a pattern means, what the machine of \<open>shellRegex/vm.c\<close> may do as a step relation on
  configurations (instruction, position, captured positions), and the soundness of the compiler: a run
  through the code of a node consumes a part of the string that the node matches.
\<close>

section \<open>What a pattern denotes\<close>

text \<open>The characters of a class.\<close>

function class_set :: "bool \<Rightarrow> cstring \<Rightarrow> int set" where
  "class_set first [] = {}"
| "class_set first (ch # s) =
     (if ch = CHR '']'' \<and> \<not> first then {}
      else
        (case class_char ch s of
           Inl e \<Rightarrow> {}
         | Inr (c, t) \<Rightarrow>
             (case class_range t of
                None \<Rightarrow> insert (schar c) (class_set False t)
              | Some e \<Rightarrow> {schar c..schar e} \<union> class_set False (drop 2 t))))"
  by pat_completeness auto

termination
  by (relation "measure (\<lambda>(f, s). length s)") (auto dest: class_char_length)

primrec rmatch :: "cregex_node \<Rightarrow> cstring \<Rightarrow> nat \<Rightarrow> nat \<Rightarrow> bool" where
  "rmatch EPSILON s i j \<longleftrightarrow> j = i"
| "rmatch (CHARACTER ch) s i j \<longleftrightarrow> i < length s \<and> schar (s ! i) = ch \<and> j = Suc i"
| "rmatch ANY_CHARACTER s i j \<longleftrightarrow> i < length s \<and> j = Suc i"
| "rmatch (CHARACTER_CLASS neg from) s i j \<longleftrightarrow>
     i < length s \<and> (schar (s ! i) \<in> class_set True from) \<noteq> neg \<and> j = Suc i"
| "rmatch (CONCATENATION l r) s i j \<longleftrightarrow> (\<exists>k. rmatch l s i k \<and> rmatch r s k j)"
| "rmatch (ALTERNATION l r) s i j \<longleftrightarrow> rmatch l s i j \<or> rmatch r s i j"
| "rmatch (QUANTIFIER nmin nmax g x) s i j \<longleftrightarrow>
     (\<exists>n. nmin \<le> int n \<and> (nmax = - 1 \<or> int n \<le> nmax) \<and> (rmatch x s ^^ n) i j)"
| "rmatch ANCHOR_BEGIN s i j \<longleftrightarrow> i = 0 \<and> j = i"
| "rmatch ANCHOR_END s i j \<longleftrightarrow> i = length s \<and> j = i"
| "rmatch (CAPTURE x) s i j \<longleftrightarrow> rmatch x s i j"

lemma rmatch_bounds: "rmatch r s i j \<Longrightarrow> i \<le> length s \<Longrightarrow> i \<le> j \<and> j \<le> length s"
proof (induction r arbitrary: i j)
  case (QUANTIFIER nmin nmax g x)
  then obtain n where "(rmatch x s ^^ n) i j" by auto
  then show ?case using QUANTIFIER.IH QUANTIFIER.prems(2)
  proof (induction n arbitrary: j)
    case (Suc n)
    then obtain k where "(rmatch x s ^^ n) i k" "rmatch x s k j" by auto
    then show ?case using Suc.IH[of k] Suc.prems(2)[of k j] Suc.prems(2,3) by force
  qed simp
next
  case (CONCATENATION l r)
  then show ?case by (metis rmatch.simps(5) order_trans)
qed auto

text \<open>The nodes the parser makes: bounds in order, classes that compile, no negative characters.\<close>

primrec node_ok :: "cregex_node \<Rightarrow> bool" where
  "node_ok EPSILON = True"
| "node_ok (CHARACTER ch) = True"
| "node_ok ANY_CHARACTER = True"
| "node_ok (CHARACTER_CLASS neg from) = (\<exists>klass. compile_char_class from = Inr klass)"
| "node_ok (CONCATENATION l r) = (node_ok l \<and> node_ok r)"
| "node_ok (ALTERNATION l r) = (node_ok l \<and> node_ok r)"
| "node_ok (QUANTIFIER nmin nmax g x) = (0 \<le> nmin \<and> (nmax = - 1 \<or> nmin \<le> nmax) \<and> node_ok x)"
| "node_ok ANCHOR_BEGIN = True"
| "node_ok ANCHOR_END = True"
| "node_ok (CAPTURE x) = node_ok x"

section \<open>Classes\<close>

lemma class_add_bit:
  "cregex_char_class_add k c = Inr k' \<Longrightarrow> n < 256 \<Longrightarrow> bit k' n \<longleftrightarrow> bit k n \<or> int n = c"
  by (auto simp: cregex_char_class_add_def bit_or_iff bit_exp_iff possible_bit_word split: if_splits)

lemma class_add_all_bit:
  "class_add_all k cs = Inr k' \<Longrightarrow> n < 256 \<Longrightarrow> bit k' n \<longleftrightarrow> bit k n \<or> int n \<in> set cs"
  by (induction k cs rule: class_add_all.induct) (auto simp: bind_res_Inr class_add_bit)

lemma class_compile_bit:
  "class_compile first s k = Inr k' \<Longrightarrow> n < 256 \<Longrightarrow> bit k' n \<longleftrightarrow> bit k n \<or> int n \<in> class_set first s"
proof (induction first s k rule: class_compile.induct)
  case (2 first ch s k)
  show ?case
  proof (cases "ch = CHR '']'' \<and> \<not> first")
    case False
    then obtain c t where ct: "class_char ch s = Inr (c, t)" using 2(3) by (auto simp: bind_res_Inr)
    show ?thesis
    proof (cases "class_range t")
      case None
      with False ct 2(3) obtain k1 where "cregex_char_class_add k (schar c) = Inr k1" "class_compile False t k1 = Inr k'"
        by (auto simp: bind_res_Inr)
      then show ?thesis using 2(1)[OF False ct refl None, of k1] class_add_bit 2(4) False ct None by auto
    next
      case (Some e)
      with False ct 2(3) obtain k1 where "class_add_all k [schar c..schar e] = Inr k1"
        "class_compile False (drop 2 t) k1 = Inr k'" "skip 2 t = Inr (drop 2 t)"
        by (auto simp: bind_res_Inr skip_Inr)
      then show ?thesis using 2(2)[OF False ct refl Some, of k1 "drop 2 t"] class_add_all_bit 2(4) False ct Some
        by auto
    qed
  qed (use 2 in auto)
qed simp

lemma compile_char_class_bit:
  "compile_char_class from = Inr klass \<Longrightarrow> n < 256 \<Longrightarrow> bit klass n \<longleftrightarrow> int n \<in> class_set True from"
  using class_compile_bit[of True "from" 0 klass n] by (simp add: compile_char_class_def)

lemma class_contains:
  assumes "compile_char_class from = Inr klass" "ascii c"
  shows "cregex_char_class_contains klass (schar c) = Inr (schar c \<in> class_set True from)"
proof -
  have "0 \<le> schar c" "schar c < 256" using assms(2) by (auto simp: ascii_def schar_nonneg_iff schar_eq_uchar)
  then show ?thesis
    using compile_char_class_bit[OF assms(1), of "nat (schar c)"] by (simp add: cregex_char_class_contains_def)
qed

section \<open>The machine as a relation\<close>

type_synonym captures = "nat \<Rightarrow> nat option"
type_synonym config = "nat \<times> nat \<times> captures"

definition save_slot :: "nat \<Rightarrow> nat \<Rightarrow> nat \<Rightarrow> captures \<Rightarrow> captures" where
  "save_slot nm k i m = (if k < nm \<and> k < 20 then m(k := Some i) else m)"

definition char_ok :: "cregex_program_instr \<Rightarrow> c_char \<Rightarrow> bool" where
  "char_ok instr c =
     (case instr of
        OP_CHARACTER ch \<Rightarrow> schar c = ch
      | OP_ANY_CHARACTER \<Rightarrow> True
      | OP_CHARACTER_CLASS neg klass \<Rightarrow> bit klass (nat (schar c)) \<noteq> neg
      | _ \<Rightarrow> False)"

inductive vm_step :: "program \<Rightarrow> cstring \<Rightarrow> nat \<Rightarrow> config \<Rightarrow> config \<Rightarrow> bool" for P s nm where
  step_char: "pc < length P \<Longrightarrow> i < length s \<Longrightarrow> char_ok (P ! pc) (s ! i) \<Longrightarrow>
     vm_step P s nm (pc, i, m) (pc + 1, i + 1, m)"
| step_first: "pc < length P \<Longrightarrow> P ! pc = OP_SPLIT a b \<Longrightarrow> vm_step P s nm (pc, i, m) (a, i, m)"
| step_second: "pc < length P \<Longrightarrow> P ! pc = OP_SPLIT a b \<Longrightarrow> vm_step P s nm (pc, i, m) (b, i, m)"
| step_jump: "pc < length P \<Longrightarrow> P ! pc = OP_JUMP a \<Longrightarrow> vm_step P s nm (pc, i, m) (a, i, m)"
| step_begin: "pc < length P \<Longrightarrow> P ! pc = OP_ASSERT_BEGIN \<Longrightarrow> vm_step P s nm (pc, 0, m) (pc + 1, 0, m)"
| step_end: "pc < length P \<Longrightarrow> P ! pc = OP_ASSERT_END \<Longrightarrow>
     vm_step P s nm (pc, length s, m) (pc + 1, length s, m)"
| step_save: "pc < length P \<Longrightarrow> P ! pc = OP_SAVE k \<Longrightarrow>
     vm_step P s nm (pc, i, m) (pc + 1, i, save_slot nm k i m)"

inductive_cases vm_stepE: "vm_step P s nm (pc, i, m) c"

definition code_at :: "program \<Rightarrow> nat \<Rightarrow> program \<Rightarrow> bool" where
  "code_at P pc code \<longleftrightarrow> (\<exists>a b. P = a @ code @ b \<and> length a = pc)"

lemma code_at_append: "code_at P pc (a @ b) \<longleftrightarrow> code_at P pc a \<and> code_at P (pc + length a) b"
proof
  assume "code_at P pc (a @ b)"
  then obtain x y where "P = x @ (a @ b) @ y" "length x = pc" by (auto simp: code_at_def)
  then have "P = x @ a @ (b @ y)" "P = (x @ a) @ b @ y" "length (x @ a) = pc + length a" by simp_all
  then show "code_at P pc a \<and> code_at P (pc + length a) b" using \<open>length x = pc\<close> unfolding code_at_def by blast
next
  assume "code_at P pc a \<and> code_at P (pc + length a) b"
  then obtain x y u v where P: "P = x @ a @ y" "length x = pc" "P = u @ b @ v" "length u = pc + length a"
    unfolding code_at_def by blast
  then have "x @ a = u \<and> y = b @ v" using append_eq_append_conv[of "x @ a" u y "b @ v"] by simp
  then show "code_at P pc (a @ b)" using P(1,2) unfolding code_at_def by (metis append_assoc)
qed

lemma code_at_Cons: "code_at P pc (x # b) \<longleftrightarrow> pc < length P \<and> P ! pc = x \<and> code_at P (pc + 1) b"
proof -
  have "code_at P pc [x] \<longleftrightarrow> pc < length P \<and> P ! pc = x"
  proof
    assume "pc < length P \<and> P ! pc = x"
    then have "P = take pc P @ [x] @ drop (Suc pc) P" "length (take pc P) = pc"
      by (auto simp: id_take_nth_drop)
    then show "code_at P pc [x]" unfolding code_at_def by blast
  qed (auto simp: code_at_def nth_append)
  then show ?thesis using code_at_append[of P pc "[x]" b] by simp
qed

lemma code_at_Nil: "pc \<le> length P \<Longrightarrow> code_at P pc []"
  unfolding code_at_def by (intro exI[of _ "take pc P"] exI[of _ "drop pc P"]) simp

section \<open>Soundness of a piece of code\<close>

text \<open>
  Every run that starts at the first instruction of the piece \<open>[pc, e)\<close> and leaves it passes through
  its end, after consuming what the relation \<open>R\<close> allows and without touching the slots below \<open>lo\<close>.
\<close>

definition sound :: "program \<Rightarrow> cstring \<Rightarrow> nat \<Rightarrow> nat \<Rightarrow> nat \<Rightarrow> (nat \<Rightarrow> nat \<Rightarrow> bool) \<Rightarrow> nat \<Rightarrow> bool" where
  "sound P s nm pc e R lo \<longleftrightarrow>
     (\<forall>n i m q j mm. (vm_step P s nm ^^ n) (pc, i, m) (q, j, mm) \<and> (q < pc \<or> e \<le> q) \<longrightarrow>
        (\<exists>k n' m'. n' \<le> n \<and> R i k \<and> (vm_step P s nm ^^ n') (e, k, m') (q, j, mm) \<and> (\<forall>x < lo. m' x = m x)))"

lemma soundD:
  assumes "sound P s nm pc e R lo" "(vm_step P s nm ^^ n) (pc, i, m) (q, j, mm)" "q < pc \<or> e \<le> q"
  obtains k n' m' where "n' \<le> n" "R i k" "(vm_step P s nm ^^ n') (e, k, m') (q, j, mm)" "\<forall>x < lo. m' x = m x"
  using assms unfolding sound_def by blast

lemma soundI:
  assumes "\<And>n i m q j mm. (vm_step P s nm ^^ n) (pc, i, m) (q, j, mm) \<Longrightarrow> q < pc \<or> e \<le> q \<Longrightarrow>
    \<exists>k n' m'. n' \<le> n \<and> R i k \<and> (vm_step P s nm ^^ n') (e, k, m') (q, j, mm) \<and> (\<forall>x < lo. m' x = m x)"
  shows "sound P s nm pc e R lo"
  using assms unfolding sound_def by blast

lemma path_first:
  assumes "(R ^^ n) (pc, i, m) (q, j, mm)" "q \<noteq> pc"
  obtains n' pc' i' m' where "n = Suc n'" "R (pc, i, m) (pc', i', m')" "(R ^^ n') (pc', i', m') (q, j, mm)"
proof (cases n)
  case 0
  then show ?thesis using assms by simp
next
  case (Suc n')
  with assms(1) obtain y where "R (pc, i, m) y" "(R ^^ n') y (q, j, mm)" using relpowp_Suc_D2 by metis
  then show ?thesis using that[OF Suc] by (cases y) blast
qed

lemma sound_empty: "sound P s nm pc pc (=) lo"
  by (rule soundI) auto

lemma sound_seq:
  assumes "sound P s nm pc e1 R1 lo" "sound P s nm e1 e R2 lo" "pc \<le> e1" "e1 \<le> e"
  shows "sound P s nm pc e (R1 OO R2) lo"
proof (rule soundI)
  fix n i m q j mm
  assume p: "(vm_step P s nm ^^ n) (pc, i, m) (q, j, mm)" "q < pc \<or> e \<le> q"
  have out: "q < pc \<or> e1 \<le> q" "q < e1 \<or> e \<le> q" using p(2) assms(3,4) by auto
  from soundD[OF assms(1) p(1) out(1)] obtain k n1 m1 where 1: "n1 \<le> n" "R1 i k"
    "(vm_step P s nm ^^ n1) (e1, k, m1) (q, j, mm)" "\<forall>x < lo. m1 x = m x" .
  from soundD[OF assms(2) 1(3) out(2)] obtain k2 n2 m2 where 2: "n2 \<le> n1" "R2 k k2"
    "(vm_step P s nm ^^ n2) (e, k2, m2) (q, j, mm)" "\<forall>x < lo. m2 x = m1 x" .
  show "\<exists>k n' m'. n' \<le> n \<and> (R1 OO R2) i k \<and> (vm_step P s nm ^^ n') (e, k, m') (q, j, mm) \<and> (\<forall>x < lo. m' x = m x)"
    by (intro exI[of _ k2] exI[of _ n2] exI[of _ m2]) (use 1 2 in auto)
qed

lemma sound_weaken: "sound P s nm pc e R lo \<Longrightarrow> R \<le> R' \<Longrightarrow> lo' \<le> lo \<Longrightarrow> sound P s nm pc e R' lo'"
proof (rule soundI)
  fix n i m q j mm
  assume a: "sound P s nm pc e R lo" "R \<le> R'" "lo' \<le> lo"
    and p: "(vm_step P s nm ^^ n) (pc, i, m) (q, j, mm)" "q < pc \<or> e \<le> q"
  from soundD[OF a(1) p] obtain k n1 m1 where 1: "n1 \<le> n" "R i k"
    "(vm_step P s nm ^^ n1) (e, k, m1) (q, j, mm)" "\<forall>x < lo. m1 x = m x" .
  then show "\<exists>k n' m'. n' \<le> n \<and> R' i k \<and> (vm_step P s nm ^^ n') (e, k, m') (q, j, mm) \<and> (\<forall>x < lo'. m' x = m x)"
    by (intro exI[of _ k] exI[of _ n1] exI[of _ m1]) (use a(2,3) in auto)
qed

text \<open>One instruction that only passes control on.\<close>

lemma sound_one:
  assumes "pc < length P"
    and "\<And>i m c. vm_step P s nm (pc, i, m) c \<Longrightarrow> \<exists>k m'. c = (pc + 1, k, m') \<and> R i k \<and> (\<forall>x < lo. m' x = m x)"
  shows "sound P s nm pc (pc + 1) R lo"
proof (rule soundI)
  fix n i m q j mm
  assume p: "(vm_step P s nm ^^ n) (pc, i, m) (q, j, mm)" "q < pc \<or> pc + 1 \<le> q"
  have "q \<noteq> pc" using p(2) by auto
  from path_first[OF p(1) this] obtain n' pc' i' m' where f: "n = Suc n'" "vm_step P s nm (pc, i, m) (pc', i', m')"
    "(vm_step P s nm ^^ n') (pc', i', m') (q, j, mm)" .
  from assms(2)[OF f(2)] f(1,3)
  show "\<exists>k n' m'. n' \<le> n \<and> R i k \<and> (vm_step P s nm ^^ n') (pc + 1, k, m') (q, j, mm) \<and> (\<forall>x < lo. m' x = m x)"
    by (intro exI[of _ i'] exI[of _ n'] exI[of _ m']) auto
qed

text \<open>The two places a split leads to.\<close>

lemma path_split:
  assumes "(vm_step P s nm ^^ n) (pc, i, m) (q, j, mm)" "q \<noteq> pc" "P ! pc = greedy_split g a b"
  obtains n' where "n = Suc n'" "(vm_step P s nm ^^ n') (a, i, m) (q, j, mm) \<or> (vm_step P s nm ^^ n') (b, i, m) (q, j, mm)"
proof -
  from path_first[OF assms(1,2)] obtain n' pc' i' m' where f: "n = Suc n'"
    "vm_step P s nm (pc, i, m) (pc', i', m')" "(vm_step P s nm ^^ n') (pc', i', m') (q, j, mm)" .
  from f(2) have "(pc', i', m') = (a, i, m) \<or> (pc', i', m') = (b, i, m)"
    by (rule vm_stepE) (use assms(3) in \<open>auto simp: greedy_split_def char_ok_def split: if_splits\<close>)
  with f that show ?thesis by auto
qed

lemma path_jump:
  assumes "(vm_step P s nm ^^ n) (pc, i, m) (q, j, mm)" "q \<noteq> pc" "P ! pc = OP_JUMP a"
  obtains n' where "n = Suc n'" "(vm_step P s nm ^^ n') (a, i, m) (q, j, mm)"
proof -
  from path_first[OF assms(1,2)] obtain n' pc' i' m' where f: "n = Suc n'"
    "vm_step P s nm (pc, i, m) (pc', i', m')" "(vm_step P s nm ^^ n') (pc', i', m') (q, j, mm)" .
  from f(2) have "(pc', i', m') = (a, i, m)"
    by (rule vm_stepE) (use assms(3) in \<open>auto simp: char_ok_def\<close>)
  with f that show ?thesis by auto
qed

text \<open>An optional piece.\<close>

lemma sound_option:
  assumes "sound P s nm (pc + 1) e R lo" "P ! pc = greedy_split g (pc + 1) e" "pc + 1 \<le> e"
  shows "sound P s nm pc e (\<lambda>i k. R i k \<or> k = i) lo"
proof (rule soundI)
  fix n i m q j mm
  assume p: "(vm_step P s nm ^^ n) (pc, i, m) (q, j, mm)" "q < pc \<or> e \<le> q"
  have "q \<noteq> pc" using p(2) assms(3) by auto
  from path_split[OF p(1) this assms(2)] obtain n' where n: "n = Suc n'"
    "(vm_step P s nm ^^ n') (pc + 1, i, m) (q, j, mm) \<or> (vm_step P s nm ^^ n') (e, i, m) (q, j, mm)" .
  from n(2) show "\<exists>k n' m'. n' \<le> n \<and> (R i k \<or> k = i) \<and> (vm_step P s nm ^^ n') (e, k, m') (q, j, mm) \<and> (\<forall>x < lo. m' x = m x)"
  proof
    assume run: "(vm_step P s nm ^^ n') (pc + 1, i, m) (q, j, mm)"
    have "q < pc + 1 \<or> e \<le> q" using p(2) by auto
    from soundD[OF assms(1) run this] obtain k n2 m' where "n2 \<le> n'" "R i k"
      "(vm_step P s nm ^^ n2) (e, k, m') (q, j, mm)" "\<forall>x < lo. m' x = m x" .
    then show ?thesis using n(1) by (intro exI[of _ k] exI[of _ n2] exI[of _ m']) auto
  qed (use n(1) in \<open>intro exI[of _ i] exI[of _ n'] exI[of _ m], auto\<close>)
qed

text \<open>
  A loop whose body starts at \<open>a\<close> and ends at the split itself, directly or by a jump: \<open>pc\<close> is the
  split, \<open>e\<close> the way out.
\<close>

lemma loop_paths:
  assumes body: "\<And>n i m. (vm_step P s nm ^^ n) (a, i, m) (q, j, mm) \<Longrightarrow>
      \<exists>k n' m'. n' \<le> n \<and> R i k \<and> (vm_step P s nm ^^ n') (pc, k, m') (q, j, mm) \<and> (\<forall>x < lo. m' x = m x)"
    and split: "P ! pc = greedy_split g a e" and out: "q \<noteq> pc"
  shows "(vm_step P s nm ^^ n) (pc, i, m) (q, j, mm) \<Longrightarrow>
    \<exists>t k n' m'. n' \<le> n \<and> (R ^^ t) i k \<and> (vm_step P s nm ^^ n') (e, k, m') (q, j, mm) \<and> (\<forall>x < lo. m' x = m x)"
proof (induction n arbitrary: i m rule: less_induct)
  case (less n)
  from path_split[OF less.prems out split] obtain n' where n: "n = Suc n'"
    "(vm_step P s nm ^^ n') (a, i, m) (q, j, mm) \<or> (vm_step P s nm ^^ n') (e, i, m) (q, j, mm)" .
  from n(2) show ?case
  proof
    assume "(vm_step P s nm ^^ n') (a, i, m) (q, j, mm)"
    from body[OF this] obtain k n2 m2 where b: "n2 \<le> n'" "R i k" "(vm_step P s nm ^^ n2) (pc, k, m2) (q, j, mm)"
      "\<forall>x < lo. m2 x = m x" by blast
    from less.IH[OF _ b(3)] b(1) n(1) obtain t k3 n3 m3 where t: "n3 \<le> n2" "(R ^^ t) k k3"
      "(vm_step P s nm ^^ n3) (e, k3, m3) (q, j, mm)" "\<forall>x < lo. m3 x = m2 x" by auto
    have "(R ^^ Suc t) i k3" using b(2) t(2) by (rule relpowp_Suc_I2)
    then show ?thesis using t b n(1) by (intro exI[of _ "Suc t"] exI[of _ k3] exI[of _ n3] exI[of _ m3]) auto
  next
    assume "(vm_step P s nm ^^ n') (e, i, m) (q, j, mm)"
    then show ?thesis using n(1) by (intro exI[of _ 0] exI[of _ i] exI[of _ n'] exI[of _ m]) auto
  qed
qed

section \<open>Soundness of the compiler\<close>

definition good :: "program \<Rightarrow> cstring \<Rightarrow> nat \<Rightarrow> (nat \<Rightarrow> nat \<Rightarrow> compiled) \<Rightarrow> (nat \<Rightarrow> nat \<Rightarrow> bool) \<Rightarrow> bool" where
  "good P s nm f R \<longleftrightarrow>
     (\<forall>pc n code n'. f pc n = Inr (code, n') \<and> code_at P pc code \<longrightarrow>
        sound P s nm pc (pc + length code) R (2 * n) \<and> n \<le> n')"

lemma goodD:
  "good P s nm f R \<Longrightarrow> f pc n = Inr (code, n') \<Longrightarrow> code_at P pc code \<Longrightarrow> sound P s nm pc (pc + length code) R (2 * n)"
  "good P s nm f R \<Longrightarrow> f pc n = Inr (code, n') \<Longrightarrow> code_at P pc code \<Longrightarrow> n \<le> n'"
  by (auto simp: good_def)

lemma copies_sound:
  assumes "good P s nm f R"
  shows "compile_copies f caps k pc n l = Inr (code, n', l') \<Longrightarrow> code_at P pc code \<Longrightarrow> caps \<le> n \<Longrightarrow>
    sound P s nm pc (pc + length code) (R ^^ k) (2 * caps) \<and> caps \<le> n' \<and>
    (0 < k \<longrightarrow> (\<exists>body nb. f l' caps = Inr (body, nb) \<and> l' + length body = pc + length code \<and> code_at P l' body))"
proof (induction k arbitrary: pc n l code)
  case 0
  then show ?case using sound_empty by simp
next
  case (Suc k)
  from Suc.prems(1) obtain body nb rest where b: "f pc caps = Inr (body, nb)"
    "compile_copies f caps k (pc + length body) nb pc = Inr (rest, n', l')" "code = body @ rest"
    by (auto simp: bind_res_Inr)
  have at: "code_at P pc body" "code_at P (pc + length body) rest" using Suc.prems(2) b(3) by (auto simp: code_at_append)
  note body = goodD[OF assms b(1) at(1)]
  have IH: "sound P s nm (pc + length body) (pc + length body + length rest) (R ^^ k) (2 * caps)" "caps \<le> n'"
    "0 < k \<longrightarrow> (\<exists>body' nb. f l' caps = Inr (body', nb) \<and> l' + length body' = pc + length body + length rest \<and> code_at P l' body')"
    using Suc.IH[OF b(2) at(2) body(2)] by auto
  have "sound P s nm pc (pc + length body + length rest) (R OO R ^^ k) (2 * caps)"
    by (rule sound_seq[OF body(1) IH(1)]) simp_all
  then have "sound P s nm pc (pc + length code) (R ^^ Suc k) (2 * caps)"
    by (simp add: b(3) relpowp_commute add.assoc)
  moreover have "\<exists>body nb. f l' caps = Inr (body, nb) \<and> l' + length body = pc + length code \<and> code_at P l' body"
  proof (cases k)
    case 0
    then show ?thesis using b at by auto
  qed (use IH(3) b(3) in \<open>auto simp: add.assoc\<close>)
  ultimately show ?case using IH(2) by simp
qed

lemma options_sound:
  assumes "good P s nm f R"
  shows "compile_options f caps g k pc n = Inr (code, n') \<Longrightarrow> code_at P pc code \<Longrightarrow> caps \<le> n \<Longrightarrow>
    sound P s nm pc (pc + length code) (\<lambda>i j. \<exists>t \<le> k. (R ^^ t) i j) (2 * caps) \<and> caps \<le> n'"
proof (induction k arbitrary: pc n code)
  case 0
  then show ?case using sound_empty[of P s nm pc "2 * caps"] by (simp add: eq_commute eq_OO)
next
  case (Suc k)
  from Suc.prems(1) obtain body nb rest where b: "f (pc + 1) caps = Inr (body, nb)"
    "compile_options f caps g k (pc + 1 + length body) nb = Inr (rest, n')"
    "code = greedy_split g (pc + 1) (pc + 1 + length body) # body @ rest"
    by (auto simp: bind_res_Inr)
  have at: "pc < length P" "P ! pc = greedy_split g (pc + 1) (pc + 1 + length body)"
    "code_at P (pc + 1) body" "code_at P (pc + 1 + length body) rest"
    using Suc.prems(2) b(3) by (auto simp: code_at_append code_at_Cons)
  note body = goodD[OF assms b(1) at(3)]
  have o: "sound P s nm pc (pc + 1 + length body) (\<lambda>i k. R i k \<or> k = i) (2 * caps)"
    by (rule sound_option[OF body(1) at(2)]) simp
  have IH: "sound P s nm (pc + 1 + length body) (pc + 1 + length body + length rest) (\<lambda>i j. \<exists>t \<le> k. (R ^^ t) i j) (2 * caps)"
    "caps \<le> n'"
    using Suc.IH[OF b(2) at(4) body(2)] by auto
  have "sound P s nm pc (pc + 1 + length body + length rest)
      ((\<lambda>i k. R i k \<or> k = i) OO (\<lambda>i j. \<exists>t \<le> k. (R ^^ t) i j)) (2 * caps)"
    by (rule sound_seq[OF o IH(1)]) simp_all
  moreover have "(\<lambda>i k. R i k \<or> k = i) OO (\<lambda>i j. \<exists>t \<le> k. (R ^^ t) i j) \<le> (\<lambda>i j. \<exists>t \<le> Suc k. (R ^^ t) i j)"
  proof (rule predicate2I)
    fix i j assume "((\<lambda>i k. R i k \<or> k = i) OO (\<lambda>i j. \<exists>t \<le> k. (R ^^ t) i j)) i j"
    then obtain x t where "R i x \<or> x = i" "t \<le> k" "(R ^^ t) x j" by auto
    then show "\<exists>t \<le> Suc k. (R ^^ t) i j"
      using relpowp_Suc_I2[of R i x t j] by (metis Suc_le_mono le_SucI)
  qed
  ultimately show ?case using sound_weaken IH(2) by (simp add: b(3) add.assoc)
qed

lemma sound_loop:
  assumes body: "sound P s nm a pc R lo" and split: "P ! pc = greedy_split g a e"
    and order: "a \<le> pc" "pc < e" and start: "b \<le> a"
    and before: "sound P s nm b pc R0 lo"
  shows "sound P s nm b e (R0 OO (\<lambda>i j. \<exists>t. (R ^^ t) i j)) lo"
proof (rule soundI)
  fix n i m q j mm
  assume p: "(vm_step P s nm ^^ n) (b, i, m) (q, j, mm)" "q < b \<or> e \<le> q"
  have out: "q < b \<or> pc \<le> q" "q < a \<or> pc \<le> q" "q \<noteq> pc" using p(2) order start by auto
  from soundD[OF before p(1) out(1)] obtain k n1 m1 where 1: "n1 \<le> n" "R0 i k"
    "(vm_step P s nm ^^ n1) (pc, k, m1) (q, j, mm)" "\<forall>x < lo. m1 x = m x" .
  have "\<exists>t k' n' m'. n' \<le> n1 \<and> (R ^^ t) k k' \<and> (vm_step P s nm ^^ n') (e, k', m') (q, j, mm) \<and> (\<forall>x < lo. m' x = m1 x)"
  proof (rule loop_paths[OF _ split out(3) 1(3)])
    fix n i m assume "(vm_step P s nm ^^ n) (a, i, m) (q, j, mm)"
    from soundD[OF body this out(2)]
    show "\<exists>k n' m'. n' \<le> n \<and> R i k \<and> (vm_step P s nm ^^ n') (pc, k, m') (q, j, mm) \<and> (\<forall>x < lo. m' x = m x)"
      by metis
  qed
  then obtain t k' n' m' where "n' \<le> n1" "(R ^^ t) k k'" "(vm_step P s nm ^^ n') (e, k', m') (q, j, mm)"
    "\<forall>x < lo. m' x = m1 x" by blast
  then show "\<exists>k n' m'. n' \<le> n \<and> (R0 OO (\<lambda>i j. \<exists>t. (R ^^ t) i j)) i k \<and>
      (vm_step P s nm ^^ n') (e, k, m') (q, j, mm) \<and> (\<forall>x < lo. m' x = m x)"
    using 1 by (intro exI[of _ k'] exI[of _ n'] exI[of _ m']) auto
qed

lemma sound_star:
  assumes body: "sound P s nm (pc + 1) c R lo" and split: "P ! pc = greedy_split g (pc + 1) (c + 1)"
    and jump: "P ! c = OP_JUMP pc" and order: "pc < c"
  shows "sound P s nm pc (c + 1) (\<lambda>i j. \<exists>t. (R ^^ t) i j) lo"
proof (rule soundI)
  fix n i m q j mm
  assume p: "(vm_step P s nm ^^ n) (pc, i, m) (q, j, mm)" "q < pc \<or> c + 1 \<le> q"
  have out: "q < pc + 1 \<or> c \<le> q" "q \<noteq> pc" "q \<noteq> c" using p(2) order by auto
  have "\<exists>t k n' m'. n' \<le> n \<and> (R ^^ t) i k \<and> (vm_step P s nm ^^ n') (c + 1, k, m') (q, j, mm) \<and> (\<forall>x < lo. m' x = m x)"
  proof (rule loop_paths[OF _ split out(2) p(1)])
    fix n i m assume "(vm_step P s nm ^^ n) (pc + 1, i, m) (q, j, mm)"
    from soundD[OF body this out(1)] obtain k n1 m1 where 1: "n1 \<le> n" "R i k"
      "(vm_step P s nm ^^ n1) (c, k, m1) (q, j, mm)" "\<forall>x < lo. m1 x = m x" .
    from path_jump[OF 1(3) out(3) jump] obtain n2 where "n1 = Suc n2" "(vm_step P s nm ^^ n2) (pc, k, m1) (q, j, mm)" .
    then show "\<exists>k n' m'. n' \<le> n \<and> R i k \<and> (vm_step P s nm ^^ n') (pc, k, m') (q, j, mm) \<and> (\<forall>x < lo. m' x = m x)"
      using 1 by (intro exI[of _ k] exI[of _ n2] exI[of _ m1]) auto
  qed
  then show "\<exists>k n' m'. n' \<le> n \<and> (\<exists>t. (R ^^ t) i k) \<and> (vm_step P s nm ^^ n') (c + 1, k, m') (q, j, mm) \<and> (\<forall>x < lo. m' x = m x)"
    by blast
qed

lemma copies_last: "compile_copies f caps k pc n l = Inr (code, n', l') \<Longrightarrow> 0 < k \<Longrightarrow> pc \<le> l'"
proof (induction k arbitrary: pc n l code)
  case (Suc k)
  from Suc.prems(1) obtain body nb rest where "f pc caps = Inr (body, nb)"
    "compile_copies f caps k (pc + length body) nb pc = Inr (rest, n', l')" "code = body @ rest"
    by (auto simp: bind_res_Inr)
  then show ?case using Suc.IH[of "pc + length body" nb pc rest] Suc.prems(2) by (cases k) auto
qed simp

definition repeats :: "int \<Rightarrow> int \<Rightarrow> (nat \<Rightarrow> nat \<Rightarrow> bool) \<Rightarrow> nat \<Rightarrow> nat \<Rightarrow> bool" where
  "repeats nmin nmax R i j \<longleftrightarrow> (\<exists>n. nmin \<le> int n \<and> (nmax = - 1 \<or> int n \<le> nmax) \<and> (R ^^ n) i j)"

lemma repeats_seq:
  assumes "(R ^^ a) i k" "(R ^^ b) k j" shows "(R ^^ (a + b)) i j"
  using assms by (auto simp: relpowp_add)

lemma quantifier_good:
  assumes f: "good P s nm f R" and ok: "0 \<le> nmin" "nmax = - 1 \<or> nmin \<le> nmax"
  shows "good P s nm (compile_quantifier f nmin nmax g) (repeats nmin nmax R)"
  unfolding good_def
proof (intro allI impI, elim conjE)
  fix pc n code n'
  assume q: "compile_quantifier f nmin nmax g pc n = Inr (code, n')" and at: "code_at P pc code"
  obtain cc nc l where c: "compile_copies f n (nat nmin) pc n 0 = Inr (cc, nc, l)"
    using q by (auto simp: compile_quantifier_def bind_res_Inr)
  let ?pc = "pc + length cc"
  obtain rest where code: "code = cc @ rest"
    using q c by (auto simp: compile_quantifier_def bind_res_Inr Let_def split: if_splits)
  have atc: "code_at P pc cc" "code_at P ?pc rest" using at code by (auto simp: code_at_append)
  note cp = copies_sound[OF f c atc(1) order_refl]
  have int: "int (nat nmin) = nmin" using ok by simp
  consider (opt) "nmax > nmin" | (star) "nmax = - 1" "nmin = 0" | (plus) "nmax = - 1" "nmin > 0" | (exact) "nmax = nmin"
    using ok by linarith
  then show "sound P s nm pc (pc + length code) (repeats nmin nmax R) (2 * n) \<and> n \<le> n'"
  proof cases
    case opt
    then have o: "compile_options f n g (nat (nmax - nmin)) ?pc nc = Inr (rest, n')"
      using q c code by (auto simp: compile_quantifier_def bind_res_Inr Let_def)
    note os = options_sound[OF f o atc(2)]
    have "sound P s nm pc (?pc + length rest) ((R ^^ nat nmin) OO (\<lambda>i j. \<exists>t \<le> nat (nmax - nmin). (R ^^ t) i j)) (2 * n)"
      by (rule sound_seq) (use cp os in auto)
    moreover have "(R ^^ nat nmin) OO (\<lambda>i j. \<exists>t \<le> nat (nmax - nmin). (R ^^ t) i j) \<le> repeats nmin nmax R"
    proof (rule predicate2I)
      fix i j assume "((R ^^ nat nmin) OO (\<lambda>i j. \<exists>t \<le> nat (nmax - nmin). (R ^^ t) i j)) i j"
      then obtain k t where "(R ^^ nat nmin) i k" "t \<le> nat (nmax - nmin)" "(R ^^ t) k j" by auto
      then show "repeats nmin nmax R i j"
        using repeats_seq[of "nat nmin" R i k t j] ok opt unfolding repeats_def
        by (intro exI[of _ "nat nmin + t"]) auto
    qed
    ultimately have "sound P s nm pc (pc + length code) (repeats nmin nmax R) (2 * n)"
      using sound_weaken[OF _ _ order_refl] by (simp add: code add.assoc)
    then show ?thesis using os cp by simp
  next
    case star
    then have e: "cc = []" "nc = n" using c by auto
    then obtain body where b: "f (pc + 1) n = Inr (body, n')"
      "rest = greedy_split g (pc + 1) (pc + 1 + length body + 1) # body @ [OP_JUMP pc]"
      using q c code star by (auto simp: compile_quantifier_def bind_res_Inr Let_def)
    have at': "P ! pc = greedy_split g (pc + 1) (pc + 1 + length body + 1)" "code_at P (pc + 1) body"
      "P ! (pc + 1 + length body) = OP_JUMP pc"
      using atc(2) e by (auto simp: b(2) code_at_Cons code_at_append)
    note body = goodD[OF f b(1) at'(2)]
    have "sound P s nm pc (pc + 1 + length body + 1) (\<lambda>i j. \<exists>t. (R ^^ t) i j) (2 * n)"
      by (rule sound_star[OF body(1) at'(1,3)]) simp
    moreover have "repeats nmin nmax R = (\<lambda>i j. \<exists>t. (R ^^ t) i j)"
      using star by (auto simp: repeats_def fun_eq_iff)
    ultimately show ?thesis using body(2) by (simp add: code e b(2) add.assoc)
  next
    case plus
    then have r: "rest = [greedy_split g l (?pc + 1)]" "n' = nc"
      using q c code by (auto simp: compile_quantifier_def bind_res_Inr Let_def)
    obtain body nb where b: "f l n = Inr (body, nb)" "l + length body = ?pc" "code_at P l body"
      using cp plus by auto
    have split: "P ! ?pc = greedy_split g l (?pc + 1)" using atc(2) by (simp add: r code_at_Cons)
    have "sound P s nm l ?pc R (2 * n)" using goodD(1)[OF f b(1,3)] b(2) by simp
    then have "sound P s nm pc (?pc + 1) ((R ^^ nat nmin) OO (\<lambda>i j. \<exists>t. (R ^^ t) i j)) (2 * n)"
      by (rule sound_loop[OF _ split]) (use b(2) cp copies_last[OF c] plus in auto)
    moreover have "(R ^^ nat nmin) OO (\<lambda>i j. \<exists>t. (R ^^ t) i j) \<le> repeats nmin nmax R"
    proof (rule predicate2I)
      fix i j assume "((R ^^ nat nmin) OO (\<lambda>i j. \<exists>t. (R ^^ t) i j)) i j"
      then obtain k t where "(R ^^ nat nmin) i k" "(R ^^ t) k j" by auto
      then show "repeats nmin nmax R i j"
        using repeats_seq[of "nat nmin" R i k t j] ok plus unfolding repeats_def
        by (intro exI[of _ "nat nmin + t"]) auto
    qed
    ultimately have "sound P s nm pc (pc + length code) (repeats nmin nmax R) (2 * n)"
      using sound_weaken[OF _ _ order_refl] by (simp add: code r add.assoc)
    then show ?thesis using cp r by simp
  next
    case exact
    then have r: "rest = []" "n' = nc"
      using q c code ok by (auto simp: compile_quantifier_def bind_res_Inr Let_def)
    have "R ^^ nat nmin \<le> repeats nmin nmax R"
      using ok exact unfolding repeats_def by (intro predicate2I exI[of _ "nat nmin"]) auto
    with cp have "sound P s nm pc (?pc) (repeats nmin nmax R) (2 * n)"
      using sound_weaken[OF _ _ order_refl] by blast
    then have "sound P s nm pc (pc + length code) (repeats nmin nmax R) (2 * n)" by (simp add: code r)
    then show ?thesis using cp r by simp
  qed
qed

lemma good_one:
  assumes "\<And>pc n code n'. f pc n = Inr (code, n') \<Longrightarrow> code = [x] \<and> n' = n"
    and "\<And>pc i m c. vm_step P s nm (pc, i, m) c \<Longrightarrow> P ! pc = x \<Longrightarrow> \<exists>k. c = (pc + 1, k, m) \<and> R i k"
  shows "good P s nm f R"
  unfolding good_def
proof (intro allI impI, elim conjE)
  fix pc n code n'
  assume "f pc n = Inr (code, n')" "code_at P pc code"
  moreover from this have "code = [x] \<and> n' = n" using assms(1) by blast
  ultimately have c: "code = [x]" "n' = n" "pc < length P" "P ! pc = x" by (auto simp: code_at_Cons)
  have "sound P s nm pc (pc + 1) R (2 * n)"
    by (rule sound_one[OF c(3)]) (use assms(2) c(4) in blast)
  then show "sound P s nm pc (pc + length code) R (2 * n) \<and> n \<le> n'" by (simp add: c(1,2))
qed

lemma compile_good: "node_ok r \<Longrightarrow> ascii_str s \<Longrightarrow> good P s nm (compile_context r) (rmatch r s)"
proof (induction r)
  case EPSILON
  show ?case using sound_empty[of P s nm] by (auto simp: good_def eq_commute fun_eq_iff)
next
  case (CHARACTER ch)
  show ?case by (rule good_one[where x = "OP_CHARACTER ch"]) (auto elim!: vm_stepE simp: char_ok_def)
next
  case ANY_CHARACTER
  show ?case by (rule good_one[where x = OP_ANY_CHARACTER]) (auto elim!: vm_stepE simp: char_ok_def)
next
  case (CHARACTER_CLASS neg cls)
  then obtain klass where k: "compile_char_class cls = Inr klass" by auto
  show ?case
  proof (rule good_one[where x = "OP_CHARACTER_CLASS neg klass"])
    fix pc i m c assume "vm_step P s nm (pc, i, m) c" "P ! pc = OP_CHARACTER_CLASS neg klass"
    then have i: "i < length s" "bit klass (nat (schar (s ! i))) \<noteq> neg" "c = (pc + 1, i + 1, m)"
      by (auto elim!: vm_stepE simp: char_ok_def)
    have "ascii (s ! i)" using CHARACTER_CLASS(2) i(1) by (simp add: ascii_str_def list_all_length)
    then have "bit klass (nat (schar (s ! i))) \<longleftrightarrow> schar (s ! i) \<in> class_set True cls"
      using class_contains[OF k, of "s ! i"] by (auto simp: cregex_char_class_contains_def split: if_splits)
    then show "\<exists>k. c = (pc + 1, k, m) \<and> rmatch (CHARACTER_CLASS neg cls) s i k" using i by simp
  qed (use k in auto)
next
  case (CONCATENATION l r)
  then have l: "good P s nm (compile_context l) (rmatch l s)" and r: "good P s nm (compile_context r) (rmatch r s)" by auto
  show ?case
    unfolding good_def
  proof (intro allI impI, elim conjE)
    fix pc n code n'
    assume c: "compile_context (CONCATENATION l r) pc n = Inr (code, n')" and at: "code_at P pc code"
    from c obtain a n1 b where ab: "compile_context l pc n = Inr (a, n1)"
      "compile_context r (pc + length a) n1 = Inr (b, n')" "code = a @ b" by (auto simp: bind_res_Inr)
    have ca: "code_at P pc a" "code_at P (pc + length a) b" using at ab(3) by (auto simp: code_at_append)
    note gl = goodD[OF l ab(1) ca(1)] and gr = goodD[OF r ab(2) ca(2)]
    have "sound P s nm (pc + length a) (pc + length a + length b) (rmatch r s) (2 * n)"
      by (rule sound_weaken[OF gr(1)]) (use gl(2) in auto)
    from sound_seq[OF gl(1) this] have "sound P s nm pc (pc + length code) (rmatch l s OO rmatch r s) (2 * n)"
      by (simp add: ab(3) add.assoc)
    moreover have "rmatch l s OO rmatch r s = rmatch (CONCATENATION l r) s" by (auto simp: fun_eq_iff)
    ultimately show "sound P s nm pc (pc + length code) (rmatch (CONCATENATION l r) s) (2 * n) \<and> n \<le> n'"
      using gl(2) gr(2) by simp
  qed
next
  case (ALTERNATION l r)
  then have l: "good P s nm (compile_context l) (rmatch l s)" and r: "good P s nm (compile_context r) (rmatch r s)" by auto
  show ?case
    unfolding good_def
  proof (intro allI impI, elim conjE)
    fix pc n code n'
    assume c: "compile_context (ALTERNATION l r) pc n = Inr (code, n')" and at: "code_at P pc code"
    from c obtain a n1 b where ab: "compile_context l (pc + 1) n = Inr (a, n1)"
      "compile_context r (pc + 2 + length a) n1 = Inr (b, n')"
      "code = OP_SPLIT (pc + 1) (pc + 2 + length a) # a @ OP_JUMP (pc + 2 + length a + length b) # b"
      by (auto simp: bind_res_Inr)
    let ?j = "pc + 1 + length a" and ?e = "pc + 2 + length a + length b"
    have ca: "P ! pc = greedy_split True (pc + 1) (pc + 2 + length a)" "code_at P (pc + 1) a" "P ! ?j = OP_JUMP ?e"
      "code_at P (pc + 2 + length a) b"
      using at ab(3) by (auto simp: code_at_append code_at_Cons greedy_split_def)
    note gl = goodD[OF l ab(1) ca(2)] and gr = goodD[OF r ab(2) ca(4)]
    have "sound P s nm pc ?e (rmatch (ALTERNATION l r) s) (2 * n)"
    proof (rule soundI)
      fix k i m q j mm
      assume p: "(vm_step P s nm ^^ k) (pc, i, m) (q, j, mm)" "q < pc \<or> ?e \<le> q"
      have out: "q \<noteq> pc" "q < pc + 1 \<or> pc + 1 + length a \<le> q" "q \<noteq> ?j" "q < pc + 2 + length a \<or> ?e \<le> q"
        using p(2) by auto
      from path_split[OF p(1) out(1) ca(1)] obtain k1 where k: "k = Suc k1"
        "(vm_step P s nm ^^ k1) (pc + 1, i, m) (q, j, mm) \<or> (vm_step P s nm ^^ k1) (pc + 2 + length a, i, m) (q, j, mm)" .
      from k(2) show "\<exists>k' n' m'. n' \<le> k \<and> rmatch (ALTERNATION l r) s i k' \<and>
          (vm_step P s nm ^^ n') (?e, k', m') (q, j, mm) \<and> (\<forall>x < 2 * n. m' x = m x)"
      proof
        assume "(vm_step P s nm ^^ k1) (pc + 1, i, m) (q, j, mm)"
        from soundD[OF gl(1) this out(2)] obtain x n2 m2 where 2: "n2 \<le> k1" "rmatch l s i x"
          "(vm_step P s nm ^^ n2) (pc + 1 + length a, x, m2) (q, j, mm)" "\<forall>y < 2 * n. m2 y = m y" .
        from path_jump[OF 2(3) out(3) ca(3)] obtain n3 where "n2 = Suc n3" "(vm_step P s nm ^^ n3) (?e, x, m2) (q, j, mm)" .
        then show ?thesis using 2 k(1) by (intro exI[of _ x] exI[of _ n3] exI[of _ m2]) auto
      next
        assume "(vm_step P s nm ^^ k1) (pc + 2 + length a, i, m) (q, j, mm)"
        from soundD[OF gr(1) this out(4)] obtain x n2 m2 where "n2 \<le> k1" "rmatch r s i x"
          "(vm_step P s nm ^^ n2) (?e, x, m2) (q, j, mm)" "\<forall>y < 2 * n1. m2 y = m y" .
        then show ?thesis using k(1) gl(2) by (intro exI[of _ x] exI[of _ n2] exI[of _ m2]) auto
      qed
    qed
    then show "sound P s nm pc (pc + length code) (rmatch (ALTERNATION l r) s) (2 * n) \<and> n \<le> n'"
      using gl(2) gr(2) by (simp add: ab(3) add.assoc)
  qed
next
  case (QUANTIFIER nmin nmax g x)
  have rm: "rmatch (QUANTIFIER nmin nmax g x) s = repeats nmin nmax (rmatch x s)"
    by (simp add: repeats_def fun_eq_iff)
  have cc: "compile_context (QUANTIFIER nmin nmax g x) = compile_quantifier (compile_context x) nmin nmax g"
    by (simp add: fun_eq_iff)
  show ?case unfolding rm cc by (rule quantifier_good) (use QUANTIFIER in auto)
next
  case ANCHOR_BEGIN
  show ?case by (rule good_one[where x = OP_ASSERT_BEGIN]) (auto elim!: vm_stepE simp: char_ok_def)
next
  case ANCHOR_END
  show ?case by (rule good_one[where x = OP_ASSERT_END]) (auto elim!: vm_stepE simp: char_ok_def)
next
  case (CAPTURE x)
  then have x: "good P s nm (compile_context x) (rmatch x s)" by auto
  show ?case
    unfolding good_def
  proof (intro allI impI, elim conjE)
    fix pc n code n'
    assume c: "compile_context (CAPTURE x) pc n = Inr (code, n')" and at: "code_at P pc code"
    from c obtain a where a: "compile_context x (pc + 1) (n + 1) = Inr (a, n')"
      "code = OP_SAVE (n * 2) # a @ [OP_SAVE (n * 2 + 1)]" by (auto simp: bind_res_Inr)
    have ca: "pc < length P" "P ! pc = OP_SAVE (n * 2)" "code_at P (pc + 1) a"
      "pc + 1 + length a < length P" "P ! (pc + 1 + length a) = OP_SAVE (n * 2 + 1)"
      using at a(2) by (auto simp: code_at_append code_at_Cons)
    note gx = goodD[OF x a(1) ca(3)]
    have save: "sound P s nm q (q + 1) (=) (2 * n)" if "q < length P" "P ! q = OP_SAVE y" "2 * n \<le> y" for q y
      by (rule sound_one[OF that(1)]) (use that in \<open>auto elim!: vm_stepE simp: char_ok_def save_slot_def\<close>)
    have "sound P s nm (pc + 1) (pc + 1 + length a) (rmatch x s) (2 * n)"
      by (rule sound_weaken[OF gx(1)]) auto
    from sound_seq[OF sound_seq[OF save[OF ca(1,2)] this] save[OF ca(4,5)]]
    have "sound P s nm pc (pc + 1 + length a + 1) (((=) OO rmatch x s) OO (=)) (2 * n)" by simp
    moreover have "((=) OO rmatch x s) OO (=) = rmatch (CAPTURE x) s" by (auto simp: fun_eq_iff)
    ultimately show "sound P s nm pc (pc + length code) (rmatch (CAPTURE x) s) (2 * n) \<and> n \<le> n'"
      using gx(2) by (simp add: a(2) add.assoc)
  qed
qed

end
