(* ===== verification/RegexComplete.thy ===== *)
theory RegexComplete
  imports RegexSem
begin

text \<open>
  Completeness of the compiler: for every way in which a node matches a part of the string there is a
  run of its code over that part.
\<close>

definition complete :: "program \<Rightarrow> cstring \<Rightarrow> nat \<Rightarrow> nat \<Rightarrow> nat \<Rightarrow> (nat \<Rightarrow> nat \<Rightarrow> bool) \<Rightarrow> bool" where
  "complete P s nm pc e R \<longleftrightarrow> (\<forall>i j m. R i j \<longrightarrow> (\<exists>m'. (vm_step P s nm)\<^sup>*\<^sup>* (pc, i, m) (e, j, m')))"

lemma completeI: "(\<And>i j m. R i j \<Longrightarrow> \<exists>m'. (vm_step P s nm)\<^sup>*\<^sup>* (pc, i, m) (e, j, m')) \<Longrightarrow> complete P s nm pc e R"
  by (simp add: complete_def)

lemma completeD:
  assumes "complete P s nm pc e R" "R i j"
  obtains m' where "(vm_step P s nm)\<^sup>*\<^sup>* (pc, i, m) (e, j, m')"
  using assms unfolding complete_def by blast

lemma complete_seq:
  assumes "complete P s nm pc e1 R1" "complete P s nm e1 e R2"
  shows "complete P s nm pc e (R1 OO R2)"
proof (rule completeI)
  fix i j m assume "(R1 OO R2) i j"
  then obtain k where k: "R1 i k" "R2 k j" by auto
  from completeD[OF assms(1) k(1)] obtain m1 where "(vm_step P s nm)\<^sup>*\<^sup>* (pc, i, m) (e1, k, m1)" .
  moreover from completeD[OF assms(2) k(2)] obtain m2 where "(vm_step P s nm)\<^sup>*\<^sup>* (e1, k, m1) (e, j, m2)" .
  ultimately show "\<exists>m'. (vm_step P s nm)\<^sup>*\<^sup>* (pc, i, m) (e, j, m')" by (meson rtranclp_trans)
qed

lemma complete_mono: "complete P s nm pc e R \<Longrightarrow> R' \<le> R \<Longrightarrow> complete P s nm pc e R'"
  unfolding complete_def by (meson predicate2D)

lemma complete_empty: "complete P s nm pc pc (=)"
  by (auto simp: complete_def)

lemma complete_step:
  assumes "\<And>i j m. R i j \<Longrightarrow> \<exists>m'. vm_step P s nm (pc, i, m) (e, j, m')"
  shows "complete P s nm pc e R"
  using assms unfolding complete_def by (meson r_into_rtranclp)

lemma split_steps:
  assumes "pc < length P" "P ! pc = greedy_split g a b"
  shows "complete P s nm pc a (=)" "complete P s nm pc b (=)"
  using assms by (auto intro!: complete_step exI step_first step_second simp: greedy_split_def split: if_splits)

lemma jump_step: "pc < length P \<Longrightarrow> P ! pc = OP_JUMP a \<Longrightarrow> complete P s nm pc a (=)"
  by (auto intro!: complete_step exI step_jump)

definition full :: "program \<Rightarrow> cstring \<Rightarrow> nat \<Rightarrow> (nat \<Rightarrow> nat \<Rightarrow> compiled) \<Rightarrow> (nat \<Rightarrow> nat \<Rightarrow> bool) \<Rightarrow> bool" where
  "full P s nm f R \<longleftrightarrow>
     (\<forall>pc n code n'. f pc n = Inr (code, n') \<and> code_at P pc code \<longrightarrow> complete P s nm pc (pc + length code) R)"

lemma fullD: "full P s nm f R \<Longrightarrow> f pc n = Inr (code, n') \<Longrightarrow> code_at P pc code \<Longrightarrow>
    complete P s nm pc (pc + length code) R"
  by (auto simp: full_def)

lemma copies_complete:
  assumes "full P s nm f R"
  shows "compile_copies f caps k pc n l = Inr (code, n', l') \<Longrightarrow> code_at P pc code \<Longrightarrow>
    complete P s nm pc (pc + length code) (R ^^ k) \<and>
    (0 < k \<longrightarrow> (\<exists>body nb. f l' caps = Inr (body, nb) \<and> l' + length body = pc + length code \<and> code_at P l' body))"
proof (induction k arbitrary: pc n l code)
  case 0
  then show ?case using complete_empty by simp
next
  case (Suc k)
  from Suc.prems(1) obtain body nb rest where b: "f pc caps = Inr (body, nb)"
    "compile_copies f caps k (pc + length body) nb pc = Inr (rest, n', l')" "code = body @ rest"
    by (auto simp: bind_res_Inr)
  have at: "code_at P pc body" "code_at P (pc + length body) rest" using Suc.prems(2) b(3) by (auto simp: code_at_append)
  have IH: "complete P s nm (pc + length body) (pc + length body + length rest) (R ^^ k)"
    "0 < k \<longrightarrow> (\<exists>body' nb. f l' caps = Inr (body', nb) \<and> l' + length body' = pc + length body + length rest \<and> code_at P l' body')"
    using Suc.IH[OF b(2) at(2)] by auto
  have "complete P s nm pc (pc + length code) (R ^^ Suc k)"
    using complete_seq[OF fullD[OF assms b(1) at(1)] IH(1)] by (simp add: b(3) relpowp_commute add.assoc)
  moreover have "\<exists>body nb. f l' caps = Inr (body, nb) \<and> l' + length body = pc + length code \<and> code_at P l' body"
  proof (cases k)
    case 0
    then show ?thesis using b at by auto
  qed (use IH(2) b(3) in \<open>auto simp: add.assoc\<close>)
  ultimately show ?case by simp
qed

lemma options_complete:
  assumes "full P s nm f R"
  shows "compile_options f caps g k pc n = Inr (code, n') \<Longrightarrow> code_at P pc code \<Longrightarrow>
    complete P s nm pc (pc + length code) (\<lambda>i j. \<exists>t \<le> k. (R ^^ t) i j)"
proof (induction k arbitrary: pc n code)
  case 0
  then show ?case using complete_mono[OF complete_empty] by (simp add: le_fun_def)
next
  case (Suc k)
  from Suc.prems(1) obtain body nb rest where b: "f (pc + 1) caps = Inr (body, nb)"
    "compile_options f caps g k (pc + 1 + length body) nb = Inr (rest, n')"
    "code = greedy_split g (pc + 1) (pc + 1 + length body) # body @ rest"
    by (auto simp: bind_res_Inr)
  let ?m = "pc + 1 + length body" and ?S = "\<lambda>i j. \<exists>t \<le> k. (R ^^ t) i j"
  have at: "pc < length P" "P ! pc = greedy_split g (pc + 1) ?m" "code_at P (pc + 1) body" "code_at P ?m rest"
    using Suc.prems(2) b(3) by (auto simp: code_at_append code_at_Cons)
  have IH: "complete P s nm ?m (?m + length rest) ?S" by (rule Suc.IH[OF b(2) at(4)])
  have yes: "complete P s nm pc (?m + length rest) (((=) OO R) OO ?S)"
    by (rule complete_seq[OF complete_seq[OF split_steps(1)[OF at(1,2)] fullD[OF assms b(1) at(3)]] IH])
  have no: "complete P s nm pc (?m + length rest) ((=) OO ?S)"
    by (rule complete_seq[OF split_steps(2)[OF at(1,2)] IH])
  have "complete P s nm pc (?m + length rest) (\<lambda>i j. \<exists>t \<le> Suc k. (R ^^ t) i j)"
  proof (rule completeI)
    fix i j m assume "\<exists>t \<le> Suc k. (R ^^ t) i j"
    then obtain t where t: "t \<le> Suc k" "(R ^^ t) i j" by blast
    show "\<exists>m'. (vm_step P s nm)\<^sup>*\<^sup>* (pc, i, m) (?m + length rest, j, m')"
    proof (cases t)
      case 0
      then have "((=) OO ?S) i j" using t(2) by (intro relcomppI[of _ i i]) (auto intro!: exI[of _ 0])
      then show ?thesis using no unfolding complete_def by blast
    next
      case (Suc u)
      then obtain x where "R i x" "(R ^^ u) x j" using t(2) relpowp_Suc_D2 by metis
      then have "(((=) OO R) OO ?S) i j" using t(1) Suc by auto
      then show ?thesis using yes unfolding complete_def by blast
    qed
  qed
  then show ?case by (simp add: b(3) add.assoc)
qed

text \<open>Going round a loop whose split is at \<open>pc\<close>.\<close>

lemma loop_complete:
  assumes "complete P s nm pc pc R" "complete P s nm pc e (=)"
  shows "complete P s nm pc e (\<lambda>i j. \<exists>t. (R ^^ t) i j)"
proof -
  have "complete P s nm pc pc (R ^^ t)" for t
  proof (induction t)
    case 0
    then show ?case using complete_empty by simp
  next
    case (Suc t)
    then show ?case using complete_seq[OF Suc assms(1)] by simp
  qed
  from complete_seq[OF this assms(2)] have c: "complete P s nm pc e (R ^^ t OO (=))" for t .
  show ?thesis
  proof (rule completeI)
    fix i j m assume "\<exists>t. (R ^^ t) i j"
    then obtain t where "(R ^^ t OO (=)) i j" by auto
    then show "\<exists>m'. (vm_step P s nm)\<^sup>*\<^sup>* (pc, i, m) (e, j, m')" using c unfolding complete_def by blast
  qed
qed

lemma repeats_split:
  assumes "repeats nmin nmax R i j" "0 \<le> nmin"
  obtains k t where "(R ^^ nat nmin) i k" "(R ^^ t) k j" "nmax = - 1 \<or> int t \<le> nmax - nmin"
proof -
  obtain n where n: "nmin \<le> int n" "nmax = - 1 \<or> int n \<le> nmax" "(R ^^ n) i j" using assms(1) by (auto simp: repeats_def)
  have "n = nat nmin + (n - nat nmin)" using n(1) assms(2) by auto
  then have "(R ^^ nat nmin OO R ^^ (n - nat nmin)) i j" using n(3) by (metis relpowp_add)
  then obtain k where "(R ^^ nat nmin) i k" "(R ^^ (n - nat nmin)) k j" by auto
  then show ?thesis by (rule that) (use n(1,2) assms(2) in auto)
qed

lemma quantifier_full:
  assumes f: "full P s nm f R" and ok: "0 \<le> nmin" "nmax = - 1 \<or> nmin \<le> nmax"
  shows "full P s nm (compile_quantifier f nmin nmax g) (repeats nmin nmax R)"
  unfolding full_def
proof (intro allI impI, elim conjE)
  fix pc n code n'
  assume q: "compile_quantifier f nmin nmax g pc n = Inr (code, n')" and at: "code_at P pc code"
  obtain cc nc l where c: "compile_copies f n (nat nmin) pc n 0 = Inr (cc, nc, l)"
    using q by (auto simp: compile_quantifier_def bind_res_Inr)
  let ?pc = "pc + length cc"
  obtain rest where code: "code = cc @ rest"
    using q c by (auto simp: compile_quantifier_def bind_res_Inr Let_def split: if_splits)
  have atc: "code_at P pc cc" "code_at P ?pc rest" using at code by (auto simp: code_at_append)
  note cp = copies_complete[OF f c atc(1)]
  have two: "complete P s nm ?pc (?pc + length rest) S \<Longrightarrow> (R ^^ nat nmin) OO S \<ge> repeats nmin nmax R \<Longrightarrow>
      complete P s nm pc (pc + length code) (repeats nmin nmax R)" for S
    using complete_mono[OF complete_seq[of P s nm pc ?pc "R ^^ nat nmin" _ S]] cp by (simp add: code add.assoc)
  consider (opt) "nmax > nmin" | (star) "nmax = - 1" "nmin = 0" | (plus) "nmax = - 1" "nmin > 0" | (exact) "nmax = nmin"
    using ok by linarith
  then show "complete P s nm pc (pc + length code) (repeats nmin nmax R)"
  proof cases
    case opt
    then have o: "compile_options f n g (nat (nmax - nmin)) ?pc nc = Inr (rest, n')"
      using q c code by (auto simp: compile_quantifier_def bind_res_Inr Let_def)
    show ?thesis
    proof (rule two[OF options_complete[OF f o atc(2)]], rule predicate2I)
      fix i j assume "repeats nmin nmax R i j"
      then obtain k t where "(R ^^ nat nmin) i k" "(R ^^ t) k j" "nmax = - 1 \<or> int t \<le> nmax - nmin"
        using repeats_split ok(1) by metis
      then show "((R ^^ nat nmin) OO (\<lambda>i j. \<exists>t \<le> nat (nmax - nmin). (R ^^ t) i j)) i j"
        using opt ok(1) by (intro relcomppI[of _ i k]) (auto intro!: exI[of _ t])
    qed
  next
    case star
    then have e: "cc = []" "nc = n" using c by auto
    then obtain body where b: "f (pc + 1) n = Inr (body, n')"
      "rest = greedy_split g (pc + 1) (pc + 1 + length body + 1) # body @ [OP_JUMP pc]"
      using q c code star by (auto simp: compile_quantifier_def bind_res_Inr Let_def)
    let ?e = "pc + 1 + length body"
    have at': "pc < length P" "P ! pc = greedy_split g (pc + 1) (?e + 1)" "code_at P (pc + 1) body"
      "?e < length P" "P ! ?e = OP_JUMP pc"
      using atc(2) e by (auto simp: b(2) code_at_Cons code_at_append)
    have "complete P s nm pc pc (((=) OO R) OO (=))"
      by (rule complete_seq[OF complete_seq[OF split_steps(1)[OF at'(1,2)] fullD[OF f b(1) at'(3)]] jump_step[OF at'(4,5)]])
    then have "complete P s nm pc pc R" by (simp add: eq_OO OO_eq)
    from loop_complete[OF this split_steps(2)[OF at'(1,2)]]
    have "complete P s nm pc (?e + 1) (\<lambda>i j. \<exists>t. (R ^^ t) i j)" .
    moreover have "repeats nmin nmax R \<le> (\<lambda>i j. \<exists>t. (R ^^ t) i j)" by (auto simp: repeats_def)
    ultimately have "complete P s nm pc (?e + 1) (repeats nmin nmax R)" by (rule complete_mono)
    then show ?thesis by (simp add: code e b(2) add.assoc)
  next
    case plus
    then have r: "rest = [greedy_split g l (?pc + 1)]" "n' = nc"
      using q c code by (auto simp: compile_quantifier_def bind_res_Inr Let_def)
    obtain body nb where b: "f l n = Inr (body, nb)" "l + length body = ?pc" "code_at P l body"
      using cp plus by auto
    have split: "?pc < length P" "P ! ?pc = greedy_split g l (?pc + 1)" using atc(2) by (simp_all add: r code_at_Cons)
    have "complete P s nm ?pc ?pc ((=) OO R)"
      using complete_seq[OF split_steps(1)[OF split] fullD[OF f b(1,3)]] b(2) by simp
    then have "complete P s nm ?pc ?pc R" by (simp add: eq_OO)
    from loop_complete[OF this split_steps(2)[OF split]]
    have l: "complete P s nm ?pc (?pc + length rest) (\<lambda>i j. \<exists>t. (R ^^ t) i j)" by (simp add: r)
    show ?thesis
    proof (rule two[OF l], rule predicate2I)
      fix i j assume "repeats nmin nmax R i j"
      then obtain k t where "(R ^^ nat nmin) i k" "(R ^^ t) k j" using repeats_split ok(1) by metis
      then show "((R ^^ nat nmin) OO (\<lambda>i j. \<exists>t. (R ^^ t) i j)) i j" by (intro relcomppI[of _ i k]) auto
    qed
  next
    case exact
    then have r: "rest = []" using q c code ok by (auto simp: compile_quantifier_def bind_res_Inr Let_def)
    have "repeats nmin nmax R \<le> R ^^ nat nmin" using ok exact by (auto simp: repeats_def le_fun_def)
    with cp have "complete P s nm pc ?pc (repeats nmin nmax R)" using complete_mono by blast
    then show ?thesis by (simp add: code r)
  qed
qed

lemma full_one:
  assumes "\<And>pc n code n'. f pc n = Inr (code, n') \<Longrightarrow> code = [x]"
    and "\<And>pc i m j. R i j \<Longrightarrow> pc < length P \<Longrightarrow> P ! pc = x \<Longrightarrow> vm_step P s nm (pc, i, m) (pc + 1, j, m)"
  shows "full P s nm f R"
  unfolding full_def
proof (intro allI impI, elim conjE)
  fix pc n code n'
  assume a: "f pc n = Inr (code, n')" "code_at P pc code"
  then have "code = [x]" using assms(1) by blast
  moreover from this a have "pc < length P" "P ! pc = x" by (auto simp: code_at_Cons)
  then have "complete P s nm pc (pc + 1) R" using assms(2) by (intro complete_step) blast
  ultimately show "complete P s nm pc (pc + length code) R" by simp
qed

lemma compile_full: "node_ok r \<Longrightarrow> ascii_str s \<Longrightarrow> full P s nm (compile_context r) (rmatch r s)"
proof (induction r)
  case EPSILON
  have "rmatch EPSILON s = (=)" by (auto simp: fun_eq_iff)
  then show ?case using complete_empty[of P s nm] by (auto simp: full_def)
next
  case (CHARACTER ch)
  show ?case by (rule full_one[where x = "OP_CHARACTER ch"]) (auto intro!: step_char[simplified] simp: char_ok_def)
next
  case ANY_CHARACTER
  show ?case by (rule full_one[where x = OP_ANY_CHARACTER]) (auto intro!: step_char[simplified] simp: char_ok_def)
next
  case (CHARACTER_CLASS neg cls)
  then obtain klass where k: "compile_char_class cls = Inr klass" by auto
  show ?case
  proof (rule full_one[where x = "OP_CHARACTER_CLASS neg klass"])
    fix pc i m j assume r: "rmatch (CHARACTER_CLASS neg cls) s i j" "pc < length P" "P ! pc = OP_CHARACTER_CLASS neg klass"
    then have "ascii (s ! i)" using CHARACTER_CLASS(2) by (simp add: ascii_str_def list_all_length)
    then have "bit klass (nat (schar (s ! i))) \<longleftrightarrow> schar (s ! i) \<in> class_set True cls"
      using class_contains[OF k, of "s ! i"] by (auto simp: cregex_char_class_contains_def split: if_splits)
    then show "vm_step P s nm (pc, i, m) (pc + 1, j, m)"
      using r step_char[OF r(2), of i s nm m] by (auto simp: char_ok_def)
  qed (use k in auto)
next
  case (CONCATENATION l r)
  then have l: "full P s nm (compile_context l) (rmatch l s)" and r: "full P s nm (compile_context r) (rmatch r s)" by auto
  show ?case
    unfolding full_def
  proof (intro allI impI, elim conjE)
    fix pc n code n'
    assume c: "compile_context (CONCATENATION l r) pc n = Inr (code, n')" and at: "code_at P pc code"
    from c obtain a n1 b where ab: "compile_context l pc n = Inr (a, n1)"
      "compile_context r (pc + length a) n1 = Inr (b, n')" "code = a @ b" by (auto simp: bind_res_Inr)
    have ca: "code_at P pc a" "code_at P (pc + length a) b" using at ab(3) by (auto simp: code_at_append)
    have "rmatch (CONCATENATION l r) s = rmatch l s OO rmatch r s" by (auto simp: fun_eq_iff)
    then show "complete P s nm pc (pc + length code) (rmatch (CONCATENATION l r) s)"
      using complete_seq[OF fullD[OF l ab(1) ca(1)] fullD[OF r ab(2) ca(2)]] by (simp add: ab(3) add.assoc)
  qed
next
  case (ALTERNATION l r)
  then have l: "full P s nm (compile_context l) (rmatch l s)" and r: "full P s nm (compile_context r) (rmatch r s)" by auto
  show ?case
    unfolding full_def
  proof (intro allI impI, elim conjE)
    fix pc n code n'
    assume c: "compile_context (ALTERNATION l r) pc n = Inr (code, n')" and at: "code_at P pc code"
    from c obtain a n1 b where ab: "compile_context l (pc + 1) n = Inr (a, n1)"
      "compile_context r (pc + 2 + length a) n1 = Inr (b, n')"
      "code = OP_SPLIT (pc + 1) (pc + 2 + length a) # a @ OP_JUMP (pc + 2 + length a + length b) # b"
      by (auto simp: bind_res_Inr)
    let ?j = "pc + 1 + length a" and ?r = "pc + 2 + length a" and ?e = "pc + 2 + length a + length b"
    have ca: "pc < length P" "P ! pc = greedy_split True (pc + 1) ?r" "code_at P (pc + 1) a"
      "?j < length P" "P ! ?j = OP_JUMP ?e" "code_at P ?r b"
      using at ab(3) by (auto simp: code_at_append code_at_Cons greedy_split_def)
    have "complete P s nm pc ?e (rmatch l s)"
      using complete_seq[OF complete_seq[OF split_steps(1)[OF ca(1,2)] fullD[OF l ab(1) ca(3)]] jump_step[OF ca(4,5)]]
      by (simp add: eq_OO OO_eq)
    moreover have "complete P s nm pc ?e (rmatch r s)"
      using complete_seq[OF split_steps(2)[OF ca(1,2)] fullD[OF r ab(2) ca(6)]] by (simp add: eq_OO)
    ultimately have "complete P s nm pc ?e (rmatch (ALTERNATION l r) s)" unfolding complete_def rmatch.simps by blast
    then show "complete P s nm pc (pc + length code) (rmatch (ALTERNATION l r) s)" by (simp add: ab(3) add.assoc)
  qed
next
  case (QUANTIFIER nmin nmax g x)
  have rm: "rmatch (QUANTIFIER nmin nmax g x) s = repeats nmin nmax (rmatch x s)"
    by (simp add: repeats_def fun_eq_iff)
  have cc: "compile_context (QUANTIFIER nmin nmax g x) = compile_quantifier (compile_context x) nmin nmax g"
    by (simp add: fun_eq_iff)
  show ?case unfolding rm cc by (rule quantifier_full) (use QUANTIFIER in auto)
next
  case ANCHOR_BEGIN
  show ?case by (rule full_one[where x = OP_ASSERT_BEGIN]) (auto intro!: step_begin[simplified])
next
  case ANCHOR_END
  show ?case by (rule full_one[where x = OP_ASSERT_END]) (auto intro!: step_end[simplified])
next
  case (CAPTURE x)
  then have x: "full P s nm (compile_context x) (rmatch x s)" by auto
  show ?case
    unfolding full_def
  proof (intro allI impI, elim conjE)
    fix pc n code n'
    assume c: "compile_context (CAPTURE x) pc n = Inr (code, n')" and at: "code_at P pc code"
    from c obtain a where a: "compile_context x (pc + 1) (n + 1) = Inr (a, n')"
      "code = OP_SAVE (n * 2) # a @ [OP_SAVE (n * 2 + 1)]" by (auto simp: bind_res_Inr)
    have ca: "pc < length P" "P ! pc = OP_SAVE (n * 2)" "code_at P (pc + 1) a"
      "pc + 1 + length a < length P" "P ! (pc + 1 + length a) = OP_SAVE (n * 2 + 1)"
      using at a(2) by (auto simp: code_at_append code_at_Cons)
    have save: "complete P s nm q (q + 1) (=)" if "q < length P" "P ! q = OP_SAVE y" for q y
      by (rule complete_step) (use that step_save in blast)
    from complete_seq[OF complete_seq[OF save[OF ca(1,2)] fullD[OF x a(1) ca(3)]] save[OF ca(4,5)]]
    have "complete P s nm pc (pc + 1 + length a + 1) (rmatch x s)" by (simp add: eq_OO OO_eq)
    moreover have "rmatch (CAPTURE x) s = rmatch x s" by (auto simp: fun_eq_iff)
    ultimately show "complete P s nm pc (pc + length code) (rmatch (CAPTURE x) s)" by (simp add: a(2) add.assoc)
  qed
qed

end
