(* ===== verification/RegexVM.thy ===== *)
theory RegexVM
  imports RegexComplete
begin

text \<open>
  The machine of \<open>shellRegex/vm.c\<close>.  A thread list holds, per instruction, the mark of the last
  position at which it was visited, and the threads themselves with their captured positions.
  \<open>None\<close> stands for a call that does not return: an address outside of the program, the call of
  \<open>abort\<close>, or endless recursion.
\<close>

section \<open>The program\<close>

definition REGEX_VM_MAX_MATCHES :: nat where
  "REGEX_VM_MAX_MATCHES = 20"

record vm_thread_list =
  visited :: "nat \<Rightarrow> nat"
  threads :: "(nat \<times> captures) list"

text \<open>The string, its NUL, and the byte behind it.\<close>

definition vm_char :: "cstring \<Rightarrow> c_char \<Rightarrow> nat \<Rightarrow> c_char" where
  "vm_char s beyond i = (if i < length s then s ! i else if i = length s then EOS else beyond)"

definition copy_matches :: "nat \<Rightarrow> captures \<Rightarrow> captures \<Rightarrow> captures" where
  "copy_matches nmatches src dst = (\<lambda>k. if k < min nmatches REGEX_VM_MAX_MATCHES then src k else dst k)"

partial_function (option) vm_add_thread ::
    "program \<Rightarrow> cstring \<Rightarrow> c_char \<Rightarrow> nat \<Rightarrow> nat \<Rightarrow> nat \<Rightarrow> captures \<Rightarrow> vm_thread_list \<Rightarrow> vm_thread_list option" where
  "vm_add_thread P s beyond nmatches pc sp m l =
     (if pc \<ge> length P then None
      else if visited l pc = sp + 1 then Some l
      else
        (let l = l\<lparr>visited := (visited l)(pc := sp + 1)\<rparr> in
         case P ! pc of
           OP_SPLIT a b \<Rightarrow>
             Option.bind (vm_add_thread P s beyond nmatches a sp m l) (\<lambda>l. vm_add_thread P s beyond nmatches b sp m l)
         | OP_JUMP a \<Rightarrow> vm_add_thread P s beyond nmatches a sp m l
         | OP_ASSERT_BEGIN \<Rightarrow>
             if sp = 0 then vm_add_thread P s beyond nmatches (pc + 1) sp m l else Some l
         | OP_ASSERT_END \<Rightarrow>
             if vm_char s beyond sp = EOS then vm_add_thread P s beyond nmatches (pc + 1) sp m l else Some l
         | OP_SAVE k \<Rightarrow>
             vm_add_thread P s beyond nmatches (pc + 1) sp
               (if k < nmatches \<and> k < REGEX_VM_MAX_MATCHES then m(k := Some sp) else m) l
         | _ \<Rightarrow> Some (l\<lparr>threads := threads l @ [(pc, copy_matches nmatches m (\<lambda>k. None))]\<rparr>)))"

text \<open>The loop over the current threads.\<close>

fun vm_threads ::
    "program \<Rightarrow> cstring \<Rightarrow> c_char \<Rightarrow> nat \<Rightarrow> nat \<Rightarrow> (nat \<times> captures) list \<Rightarrow> vm_thread_list \<Rightarrow> bool \<Rightarrow> captures \<Rightarrow>
     (vm_thread_list \<times> bool \<times> captures) option" where
  "vm_threads P s beyond nmatches sp [] next matched m = Some (next, matched, m)"
| "vm_threads P s beyond nmatches sp ((pc, tm) # ts) next matched m =
     (let c = vm_char s beyond sp;
          skip = vm_threads P s beyond nmatches sp ts next matched m;
          advance = Option.bind (vm_add_thread P s beyond nmatches (pc + 1) (sp + 1) tm next)
            (\<lambda>next. vm_threads P s beyond nmatches sp ts next matched m)
      in
      case P ! pc of
        OP_MATCH \<Rightarrow> Some (next, True, copy_matches nmatches tm m)
      | OP_CHARACTER ch \<Rightarrow> if schar c = ch then advance else skip
      | OP_ANY_CHARACTER \<Rightarrow> if c \<noteq> EOS then advance else skip
      | OP_CHARACTER_CLASS neg klass \<Rightarrow>
          (case cregex_char_class_contains klass (schar c) of
             Inl e \<Rightarrow> None
           | Inr r \<Rightarrow> if r \<noteq> neg then advance else skip)
      | _ \<Rightarrow> None)"

text \<open>The loop over the string; \<open>rest\<close> is the string from position \<open>sp\<close> on.\<close>

fun vm_loop ::
    "program \<Rightarrow> cstring \<Rightarrow> c_char \<Rightarrow> nat \<Rightarrow> nat \<Rightarrow> cstring \<Rightarrow> vm_thread_list \<Rightarrow> vm_thread_list \<Rightarrow> bool \<Rightarrow> captures \<Rightarrow>
     (bool \<times> captures) option" where
  "vm_loop P s beyond nmatches sp [] current next matched m =
     Option.bind (vm_threads P s beyond nmatches sp (threads current) next matched m)
       (\<lambda>(next, matched, m). Some (matched, m))"
| "vm_loop P s beyond nmatches sp (c # rest) current next matched m =
     Option.bind (vm_threads P s beyond nmatches sp (threads current) next matched m)
       (\<lambda>(next, matched, m).
          if threads next = [] then Some (matched, m)
          else vm_loop P s beyond nmatches (sp + 1) rest next (current\<lparr>threads := []\<rparr>) matched m)"

definition vm_run_with_threads ::
    "program \<Rightarrow> cstring \<Rightarrow> c_char \<Rightarrow> captures \<Rightarrow> nat \<Rightarrow> (bool \<times> captures) option" where
  "vm_run_with_threads P s beyond m nmatches =
     (let empty = \<lparr>visited = (\<lambda>pc. 0), threads = []\<rparr> in
      Option.bind (vm_add_thread P s beyond nmatches 0 0 m empty)
        (\<lambda>current. vm_loop P s beyond nmatches 0 s current empty False m))"

definition cregex_program_run ::
    "bool \<Rightarrow> program \<Rightarrow> cstring \<Rightarrow> c_char \<Rightarrow> captures \<Rightarrow> nat \<Rightarrow> (int \<times> captures) option" where
  "cregex_program_run mem P s beyond m nmatches =
     (if \<not> mem then Some (- 1, m)
      else map_option (\<lambda>(matched, m). (of_bool matched, m)) (vm_run_with_threads P s beyond m nmatches))"

declare vm_add_thread.simps [code]

section \<open>Adding a thread\<close>

definition targets_ok :: "nat \<Rightarrow> nat \<Rightarrow> cregex_program_instr \<Rightarrow> bool" where
  "targets_ok n pc x \<longleftrightarrow>
     (case x of OP_MATCH \<Rightarrow> True | OP_SPLIT a b \<Rightarrow> a < n \<and> b < n | OP_JUMP a \<Rightarrow> a < n | _ \<Rightarrow> pc + 1 < n)"

definition program_ok :: "program \<Rightarrow> bool" where
  "program_ok P \<longleftrightarrow> P \<noteq> [] \<and> (\<forall>pc < length P. targets_ok (length P) pc (P ! pc))"

lemma program_okD: "program_ok P \<Longrightarrow> pc < length P \<Longrightarrow> targets_ok (length P) pc (P ! pc)"
  by (simp add: program_ok_def)

definition consuming :: "cregex_program_instr \<Rightarrow> bool" where
  "consuming x \<longleftrightarrow>
     (case x of OP_MATCH \<Rightarrow> True | OP_CHARACTER c \<Rightarrow> True | OP_ANY_CHARACTER \<Rightarrow> True
      | OP_CHARACTER_CLASS n k \<Rightarrow> True | _ \<Rightarrow> False)"

definition take_slots :: "nat \<Rightarrow> captures \<Rightarrow> captures" where
  "take_slots nm m = copy_matches nm m (\<lambda>k. None)"

lemma take_slots_save:
  "take_slots nm (save_slot nm k i m) = save_slot nm k i (take_slots nm m)"
  "k < nm \<and> k < 20 \<Longrightarrow> take_slots nm (m(k := Some i)) = save_slot nm k i (take_slots nm m)"
  "\<not> (k < nm \<and> k < 20) \<Longrightarrow> take_slots nm m = save_slot nm k i (take_slots nm m)"
  by (auto simp: take_slots_def copy_matches_def save_slot_def REGEX_VM_MAX_MATCHES_def fun_eq_iff)

lemma take_slots_idem [simp]: "take_slots nm (take_slots nm m) = take_slots nm m"
  by (auto simp: take_slots_def copy_matches_def fun_eq_iff)

text \<open>A step that stays at its position.\<close>

definition estep :: "program \<Rightarrow> cstring \<Rightarrow> nat \<Rightarrow> config \<Rightarrow> config \<Rightarrow> bool" where
  "estep P s nm c c' \<longleftrightarrow> vm_step P s nm c c' \<and> fst (snd c') = fst (snd c)"

definition eps_succ :: "program \<Rightarrow> cstring \<Rightarrow> nat \<Rightarrow> nat \<Rightarrow> nat \<Rightarrow> nat \<Rightarrow> bool" where
  "eps_succ P s nm sp v w \<longleftrightarrow> (\<exists>m m'. vm_step P s nm (v, sp, m) (w, sp, m'))"

definition marked :: "nat \<Rightarrow> vm_thread_list \<Rightarrow> nat set" where
  "marked sp l = {q. visited l q = sp + 1}"

text \<open>
  What happens to a list while threads are added from the configuration \<open>c\<close>; the instructions of
  \<open>X\<close> are marked but their successors need not be.
\<close>

definition found :: "program \<Rightarrow> cstring \<Rightarrow> nat \<Rightarrow> nat \<Rightarrow> config \<Rightarrow> nat set \<Rightarrow> (nat \<times> captures) list \<Rightarrow> bool" where
  "found P s nm sp c V new \<longleftrightarrow>
     (\<forall>q tm. (q, tm) \<in> set new \<longrightarrow> q \<in> V \<and> consuming (P ! q) \<and> (estep P s nm)\<^sup>*\<^sup>* c (q, sp, tm) \<and> take_slots nm tm = tm) \<and>
     distinct (map fst new)"

definition explored :: "program \<Rightarrow> cstring \<Rightarrow> nat \<Rightarrow> nat \<Rightarrow> config \<Rightarrow> nat set \<Rightarrow> vm_thread_list \<Rightarrow> vm_thread_list \<Rightarrow> bool" where
  "explored P s nm sp c X l l' \<longleftrightarrow>
     (\<forall>q. visited l' q = visited l q \<or> q < length P \<and> visited l' q = sp + 1) \<and>
     (\<forall>v \<in> marked sp l' - marked sp l - X. \<forall>w. eps_succ P s nm sp v w \<longrightarrow> w \<in> marked sp l') \<and>
     (\<exists>new. threads l' = threads l @ new \<and> found P s nm sp c (marked sp l' - marked sp l) new \<and>
        (\<forall>q \<in> marked sp l' - marked sp l - X. consuming (P ! q) \<longrightarrow> q \<in> fst ` set new))"

lemma exploredE:
  assumes "explored P s nm sp c X l l'"
  obtains new where "\<And>q. visited l' q = visited l q \<or> q < length P \<and> visited l' q = sp + 1"
    "\<And>v w. v \<in> marked sp l' - marked sp l - X \<Longrightarrow> eps_succ P s nm sp v w \<Longrightarrow> w \<in> marked sp l'"
    "threads l' = threads l @ new" "found P s nm sp c (marked sp l' - marked sp l) new"
    "\<And>q. q \<in> marked sp l' - marked sp l - X \<Longrightarrow> consuming (P ! q) \<Longrightarrow> q \<in> fst ` set new"
  using assms unfolding explored_def by blast

lemma exploredI:
  assumes "\<And>q. visited l' q = visited l q \<or> q < length P \<and> visited l' q = sp + 1"
    "\<And>v w. v \<in> marked sp l' - marked sp l - X \<Longrightarrow> eps_succ P s nm sp v w \<Longrightarrow> w \<in> marked sp l'"
    "threads l' = threads l @ new" "found P s nm sp c (marked sp l' - marked sp l) new"
    "\<And>q. q \<in> marked sp l' - marked sp l - X \<Longrightarrow> consuming (P ! q) \<Longrightarrow> q \<in> fst ` set new"
  shows "explored P s nm sp c X l l'"
  using assms unfolding explored_def by blast

lemma explored_marks: "explored P s nm sp c X l l' \<Longrightarrow> marked sp l \<subseteq> marked sp l'"
proof -
  assume "explored P s nm sp c X l l'"
  then have "visited l' q = visited l q \<or> visited l' q = sp + 1" for q using exploredE by metis
  then show ?thesis unfolding marked_def by force
qed

lemma explored_refl: "explored P s nm sp c X l l"
  by (rule exploredI[where new = "[]"]) (auto simp: found_def)

lemma explored_start:
  assumes "estep P s nm c c'" "explored P s nm sp c' X l l'"
  shows "explored P s nm sp c X l l'"
proof -
  from assms(2) show ?thesis
  proof (rule exploredE)
    fix new
    assume f: "found P s nm sp c' (marked sp l' - marked sp l) new"
    have "(estep P s nm)\<^sup>*\<^sup>* c' d \<Longrightarrow> (estep P s nm)\<^sup>*\<^sup>* c d" for d
      using assms(1) by (rule converse_rtranclp_into_rtranclp)
    then have "found P s nm sp c (marked sp l' - marked sp l) new" using f unfolding found_def by blast
    then show "(\<And>q. visited l' q = visited l q \<or> q < length P \<and> visited l' q = sp + 1) \<Longrightarrow>
      (\<And>v w. v \<in> marked sp l' - marked sp l - X \<Longrightarrow> eps_succ P s nm sp v w \<Longrightarrow> w \<in> marked sp l') \<Longrightarrow>
      threads l' = threads l @ new \<Longrightarrow>
      (\<And>q. q \<in> marked sp l' - marked sp l - X \<Longrightarrow> consuming (P ! q) \<Longrightarrow> q \<in> fst ` set new) \<Longrightarrow> ?thesis"
      by (intro exploredI)
  qed
qed

lemma found_append:
  assumes "found P s nm sp c V1 n1" "found P s nm sp c V2 n2" "V1 \<inter> V2 = {}"
  shows "found P s nm sp c (V1 \<union> V2) (n1 @ n2)"
proof -
  have "fst ` set n1 \<subseteq> V1" "fst ` set n2 \<subseteq> V2" using assms(1,2) by (auto simp: found_def)
  then have "fst ` set n1 \<inter> fst ` set n2 = {}" using assms(3) by blast
  then show ?thesis using assms(1,2) unfolding found_def by auto
qed

lemma explored_trans:
  assumes a: "explored P s nm sp c X l l1" and b: "explored P s nm sp c {} l1 l2"
  shows "explored P s nm sp c X l l2"
proof -
  have m: "marked sp l \<subseteq> marked sp l1" "marked sp l1 \<subseteq> marked sp l2" using explored_marks a b by blast+
  then have u: "marked sp l2 - marked sp l = (marked sp l1 - marked sp l) \<union> (marked sp l2 - marked sp l1)" by blast
  from a obtain n1 where 1: "\<And>q. visited l1 q = visited l q \<or> q < length P \<and> visited l1 q = sp + 1"
    "\<And>v w. v \<in> marked sp l1 - marked sp l - X \<Longrightarrow> eps_succ P s nm sp v w \<Longrightarrow> w \<in> marked sp l1"
    "threads l1 = threads l @ n1" "found P s nm sp c (marked sp l1 - marked sp l) n1"
    "\<And>q. q \<in> marked sp l1 - marked sp l - X \<Longrightarrow> consuming (P ! q) \<Longrightarrow> q \<in> fst ` set n1"
    by (elim exploredE) blast
  from b obtain n2 where 2: "\<And>q. visited l2 q = visited l1 q \<or> q < length P \<and> visited l2 q = sp + 1"
    "\<And>v w. v \<in> marked sp l2 - marked sp l1 - {} \<Longrightarrow> eps_succ P s nm sp v w \<Longrightarrow> w \<in> marked sp l2"
    "threads l2 = threads l1 @ n2" "found P s nm sp c (marked sp l2 - marked sp l1) n2"
    "\<And>q. q \<in> marked sp l2 - marked sp l1 - {} \<Longrightarrow> consuming (P ! q) \<Longrightarrow> q \<in> fst ` set n2"
    by (elim exploredE) blast
  show ?thesis
  proof (rule exploredI)
    show "visited l2 q = visited l q \<or> q < length P \<and> visited l2 q = sp + 1" for q using 1(1)[of q] 2(1)[of q] by auto
    show "w \<in> marked sp l2" if "v \<in> marked sp l2 - marked sp l - X" "eps_succ P s nm sp v w" for v w
      using 1(2)[of v w] 2(2)[of v w] that m by blast
    show "threads l2 = threads l @ n1 @ n2" using 1(3) 2(3) by simp
    show "found P s nm sp c (marked sp l2 - marked sp l) (n1 @ n2)"
      unfolding u by (rule found_append[OF 1(4) 2(4)]) blast
    show "q \<in> fst ` set (n1 @ n2)" if "q \<in> marked sp l2 - marked sp l - X" "consuming (P ! q)" for q
      using 1(5)[of q] 2(5)[of q] that by auto
  qed
qed

lemma explored_mark:
  assumes "pc < length P" "pc \<notin> marked sp l"
  shows "explored P s nm sp c {pc} l (l\<lparr>visited := (visited l)(pc := sp + 1)\<rparr>)"
  by (rule exploredI[where new = "[]"]) (use assms in \<open>auto simp: marked_def found_def split: if_splits\<close>)

text \<open>The exempt instruction is done once its successors are marked.\<close>

lemma explored_done:
  assumes "explored P s nm sp c {pc} l l'" "\<And>w. eps_succ P s nm sp pc w \<Longrightarrow> w \<in> marked sp l'"
    and "\<not> consuming (P ! pc)"
  shows "explored P s nm sp c {} l l'"
  using assms(1)
proof (rule exploredE)
  fix new
  assume 1: "\<And>q. visited l' q = visited l q \<or> q < length P \<and> visited l' q = sp + 1"
    "\<And>v w. v \<in> marked sp l' - marked sp l - {pc} \<Longrightarrow> eps_succ P s nm sp v w \<Longrightarrow> w \<in> marked sp l'"
    "threads l' = threads l @ new" "found P s nm sp c (marked sp l' - marked sp l) new"
    "\<And>q. q \<in> marked sp l' - marked sp l - {pc} \<Longrightarrow> consuming (P ! q) \<Longrightarrow> q \<in> fst ` set new"
  show ?thesis
    by (rule exploredI[OF 1(1) _ 1(3,4)]) (use 1(2,5) assms(2,3) in blast)+
qed

lemma vm_char_EOS: "is_cstr s \<Longrightarrow> sp \<le> length s \<Longrightarrow> vm_char s beyond sp = EOS \<longleftrightarrow> sp = length s"
  by (auto simp: vm_char_def is_cstr_def in_set_conv_nth)

lemma marked_mark: "marked sp (l\<lparr>visited := (visited l)(pc := Suc sp)\<rparr>) = insert pc (marked sp l)"
  by (auto simp: marked_def)

lemma add_thread_ok:
  assumes P: "program_ok P" and s: "is_cstr s" "sp \<le> length s"
  shows "pc < length P \<Longrightarrow> \<exists>l'. vm_add_thread P s beyond nm pc sp m l = Some l' \<and>
    explored P s nm sp (pc, sp, take_slots nm m) {} l l' \<and> pc \<in> marked sp l'"
proof (induction "card ({..<length P} - marked sp l)" arbitrary: pc m l rule: less_induct)
  case less
  show ?case
  proof (cases "pc \<in> marked sp l")
    case True
    then show ?thesis using less.prems explored_refl
      by (subst vm_add_thread.simps) (auto simp: marked_def)
  next
    case False
    let ?c = "(pc, sp, take_slots nm m)" and ?lm = "l\<lparr>visited := (visited l)(pc := sp + 1)\<rparr>"
    have mark: "explored P s nm sp ?c {pc} l ?lm" by (rule explored_mark[OF less.prems False])
    have sub: "card ({..<length P} - marked sp l2) < card ({..<length P} - marked sp l)"
      if "explored P s nm sp c X ?lm l2" for l2 c X
    proof (rule psubset_card_mono)
      have "insert pc (marked sp l) \<subseteq> marked sp l2" using explored_marks[OF that] by (simp add: marked_mark)
      then show "{..<length P} - marked sp l2 \<subset> {..<length P} - marked sp l" using less.prems False by blast
    qed simp
    have one: "\<exists>l'. vm_add_thread P s beyond nm t sp m' l1 = Some l' \<and> explored P s nm sp ?c {pc} l l' \<and>
        explored P s nm sp ?c {} ?lm l' \<and> t \<in> marked sp l' \<and> marked sp l1 \<subseteq> marked sp l'"
      if "t < length P" "estep P s nm ?c (t, sp, take_slots nm m')" "explored P s nm sp ?c {} ?lm l1" for t m' l1
    proof -
      from less.hyps[OF sub[OF that(3)] that(1), of m'] obtain l' where
        l': "vm_add_thread P s beyond nm t sp m' l1 = Some l'"
        "explored P s nm sp (t, sp, take_slots nm m') {} l1 l'" "t \<in> marked sp l'" by blast
      have e: "explored P s nm sp ?c {} l1 l'" by (rule explored_start[OF that(2) l'(2)])
      show ?thesis
        using l' explored_trans[OF that(3) e] explored_trans[OF explored_trans[OF mark that(3)] e] explored_marks[OF e]
        by blast
    qed
    have tok: "targets_ok (length P) pc (P ! pc)" by (rule program_okD[OF P less.prems])
    have pcm: "pc \<in> marked sp l'" if "explored P s nm sp c X ?lm l'" for l' c X
      using explored_marks[OF that] by (auto simp: marked_mark)
    have unfold: "vm_add_thread P s beyond nm pc sp m l =
        (case P ! pc of
           OP_SPLIT a b \<Rightarrow> Option.bind (vm_add_thread P s beyond nm a sp m ?lm) (\<lambda>l. vm_add_thread P s beyond nm b sp m l)
         | OP_JUMP a \<Rightarrow> vm_add_thread P s beyond nm a sp m ?lm
         | OP_ASSERT_BEGIN \<Rightarrow> if sp = 0 then vm_add_thread P s beyond nm (pc + 1) sp m ?lm else Some ?lm
         | OP_ASSERT_END \<Rightarrow> if vm_char s beyond sp = EOS then vm_add_thread P s beyond nm (pc + 1) sp m ?lm else Some ?lm
         | OP_SAVE k \<Rightarrow> vm_add_thread P s beyond nm (pc + 1) sp
               (if k < nm \<and> k < REGEX_VM_MAX_MATCHES then m(k := Some sp) else m) ?lm
         | _ \<Rightarrow> Some (?lm\<lparr>threads := threads l @ [(pc, take_slots nm m)]\<rparr>))"
      using less.prems False
      by (subst vm_add_thread.simps) (auto simp: marked_def Let_def take_slots_def split: cregex_program_instr.splits)
    have next_one: ?thesis if "vm_add_thread P s beyond nm pc sp m l = vm_add_thread P s beyond nm t sp m' ?lm"
        "t < length P" "estep P s nm ?c (t, sp, take_slots nm m')" "\<not> consuming (P ! pc)"
        "\<And>w. eps_succ P s nm sp pc w \<Longrightarrow> w = t" for t m'
    proof -
      from one[OF that(2,3) explored_refl] obtain l' where l': "vm_add_thread P s beyond nm t sp m' ?lm = Some l'"
        "explored P s nm sp ?c {pc} l l'" "explored P s nm sp ?c {} ?lm l'" "t \<in> marked sp l'" by blast
      have "explored P s nm sp ?c {} l l'" using explored_done[OF l'(2) _ that(4)] that(5) l'(4) by blast
      then show ?thesis using that(1) l'(1) pcm[OF l'(3)] by auto
    qed
    have stop: "vm_add_thread P s beyond nm pc sp m l = Some ?lm \<Longrightarrow> \<not> consuming (P ! pc) \<Longrightarrow>
        (\<And>w. \<not> eps_succ P s nm sp pc w) \<Longrightarrow> ?thesis"
      using explored_done[OF mark] pcm[OF explored_refl] by blast
    have thread: "vm_add_thread P s beyond nm pc sp m l = Some (?lm\<lparr>threads := threads l @ [(pc, take_slots nm m)]\<rparr>) \<Longrightarrow>
        consuming (P ! pc) \<Longrightarrow> (\<And>w. \<not> eps_succ P s nm sp pc w) \<Longrightarrow> ?thesis"
    proof -
      let ?l' = "?lm\<lparr>threads := threads l @ [(pc, take_slots nm m)]\<rparr>"
      assume a: "vm_add_thread P s beyond nm pc sp m l = Some ?l'" "consuming (P ! pc)" "\<And>w. \<not> eps_succ P s nm sp pc w"
      have m: "marked sp ?l' - marked sp l = {pc}" using False by (auto simp: marked_def)
      have "explored P s nm sp ?c {} l ?l'"
      proof (rule exploredI[where new = "[(pc, take_slots nm m)]"])
        show "w \<in> marked sp ?l'" if "v \<in> marked sp ?l' - marked sp l - {}" "eps_succ P s nm sp v w" for v w
        proof -
          have "v = pc" using that(1) unfolding m by simp
          then show ?thesis using a(3) that(2) by simp
        qed
        show "found P s nm sp ?c (marked sp ?l' - marked sp l) [(pc, take_slots nm m)]"
          unfolding m by (simp add: found_def a(2))
        show "q \<in> fst ` set [(pc, take_slots nm m)]" if "q \<in> marked sp ?l' - marked sp l - {}" for q
          using that unfolding m by simp
      qed (use less.prems in auto)
      moreover have "pc \<in> marked sp ?l'" using m by blast
      ultimately show ?thesis using a(1) by auto
    qed
    show ?thesis
    proof (cases "P ! pc")
      case (OP_SPLIT a b)
      then have ab: "a < length P" "b < length P" using tok by (simp_all add: targets_ok_def)
      have st: "estep P s nm ?c (a, sp, take_slots nm m)" "estep P s nm ?c (b, sp, take_slots nm m)"
        using OP_SPLIT less.prems by (auto simp: estep_def intro: step_first step_second)
      from one[OF ab(1) st(1) explored_refl] obtain l1 where l1: "vm_add_thread P s beyond nm a sp m ?lm = Some l1"
        "explored P s nm sp ?c {} ?lm l1" "a \<in> marked sp l1" by blast
      from one[OF ab(2) st(2) l1(2)] obtain l2 where l2: "vm_add_thread P s beyond nm b sp m l1 = Some l2"
        "explored P s nm sp ?c {pc} l l2" "explored P s nm sp ?c {} ?lm l2" "b \<in> marked sp l2" "marked sp l1 \<subseteq> marked sp l2"
        by blast
      have "eps_succ P s nm sp pc w \<Longrightarrow> w = a \<or> w = b" for w
        using OP_SPLIT by (auto simp: eps_succ_def char_ok_def elim!: vm_stepE)
      then have "explored P s nm sp ?c {} l l2"
        using explored_done[OF l2(2)] l1(3) l2(4,5) OP_SPLIT by (auto simp: consuming_def)
      then show ?thesis using unfold OP_SPLIT l1(1) l2(1) pcm[OF l2(3)] by auto
    next
      case (OP_JUMP a)
      show ?thesis
        by (rule next_one[of a m])
          (use OP_JUMP tok unfold step_jump[OF less.prems OP_JUMP, of s nm] in
            \<open>auto simp: targets_ok_def estep_def consuming_def eps_succ_def char_ok_def elim!: vm_stepE\<close>)
    next
      case OP_ASSERT_BEGIN
      then show ?thesis
      proof (cases "sp = 0")
        case True
        show ?thesis
          by (rule next_one[of "pc + 1" m])
            (use OP_ASSERT_BEGIN True less.prems unfold tok step_begin[of pc P s nm] in
              \<open>auto simp: targets_ok_def estep_def consuming_def eps_succ_def char_ok_def elim!: vm_stepE\<close>)
      next
        case False
        show ?thesis
          by (rule stop) (use OP_ASSERT_BEGIN False unfold in
              \<open>auto simp: consuming_def eps_succ_def char_ok_def elim!: vm_stepE\<close>)
      qed
    next
      case OP_ASSERT_END
      then show ?thesis
      proof (cases "sp = length s")
        case True
        show ?thesis
          by (rule next_one[of "pc + 1" m])
            (use OP_ASSERT_END True less.prems unfold tok step_end[of pc P s nm] vm_char_EOS[OF s] in
              \<open>auto simp: targets_ok_def estep_def consuming_def eps_succ_def char_ok_def elim!: vm_stepE\<close>)
      next
        case False
        show ?thesis
          by (rule stop) (use OP_ASSERT_END False unfold vm_char_EOS[OF s] in
              \<open>auto simp: consuming_def eps_succ_def char_ok_def elim!: vm_stepE\<close>)
      qed
    next
      case (OP_SAVE k)
      let ?m = "if k < nm \<and> k < REGEX_VM_MAX_MATCHES then m(k := Some sp) else m"
      have "take_slots nm ?m = save_slot nm k sp (take_slots nm m)"
        using take_slots_save(2,3)[of k nm] by (auto simp: REGEX_VM_MAX_MATCHES_def)
      then have "estep P s nm ?c (pc + 1, sp, take_slots nm ?m)"
        using step_save[OF less.prems OP_SAVE, of s nm sp "take_slots nm m"] by (simp add: estep_def)
      then show ?thesis
        by (intro next_one[of "pc + 1" ?m])
          (use OP_SAVE unfold tok in \<open>auto simp: targets_ok_def consuming_def eps_succ_def char_ok_def elim!: vm_stepE\<close>)
    qed (rule thread;
        use unfold in \<open>auto simp: consuming_def eps_succ_def char_ok_def elim!: vm_stepE\<close>)+
  qed
qed

end
