(* ===== verification/RegexMatch.thy ===== *)
theory RegexMatch
  imports RegexVM
begin

text \<open>
  What a run of the machine finds: it ends, its verdict is whether the relation \<open>vm_step\<close> reaches an
  \<open>OP_MATCH\<close>, and the positions it reports are those of such a run.
\<close>

section \<open>The loop over the threads\<close>

abbreviation reached :: "program \<Rightarrow> cstring \<Rightarrow> nat \<Rightarrow> config \<Rightarrow> config \<Rightarrow> bool" where
  "reached P s nm \<equiv> (vm_step P s nm)\<^sup>*\<^sup>*"

definition advances :: "cregex_program_instr \<Rightarrow> c_char \<Rightarrow> bool" where
  "advances x c \<longleftrightarrow> char_ok x c \<and> (x = OP_ANY_CHARACTER \<longrightarrow> c \<noteq> EOS)"

lemma vm_threads_step:
  assumes "consuming (P ! pc)" "0 \<le> schar (vm_char s beyond sp)"
  shows "vm_threads P s beyond nm sp ((pc, tm) # ts) next matched m =
    (if P ! pc = OP_MATCH then Some (next, True, copy_matches nm tm m)
     else if advances (P ! pc) (vm_char s beyond sp) then
       Option.bind (vm_add_thread P s beyond nm (pc + 1) (sp + 1) tm next)
         (\<lambda>next. vm_threads P s beyond nm sp ts next matched m)
     else vm_threads P s beyond nm sp ts next matched m)"
  using assms
  by (cases "P ! pc")
    (simp_all add: Let_def consuming_def advances_def char_ok_def cregex_char_class_contains_def)

definition matching :: "program \<Rightarrow> (nat \<times> captures) list \<Rightarrow> bool" where
  "matching P ts \<longleftrightarrow> (\<exists>t \<in> set ts. P ! fst t = OP_MATCH)"

lemma vm_threads_ok:
  assumes c: "0 \<le> schar (vm_char s beyond sp)"
    and add: "\<And>pc tm l. (pc, tm) \<in> set ts \<Longrightarrow> I l \<Longrightarrow> advances (P ! pc) (vm_char s beyond sp) \<Longrightarrow>
      \<exists>l'. vm_add_thread P s beyond nm (pc + 1) (sp + 1) tm l = Some l' \<and> I l' \<and>
        pc + 1 \<in> marked (sp + 1) l' \<and> marked (sp + 1) l \<subseteq> marked (sp + 1) l'"
  shows "\<forall>t \<in> set ts. consuming (P ! fst t) \<Longrightarrow> I next \<Longrightarrow>
    \<exists>next' matched' m'. vm_threads P s beyond nm sp ts next matched m = Some (next', matched', m') \<and> I next' \<and>
      marked (sp + 1) next \<subseteq> marked (sp + 1) next' \<and>
      (if matching P ts
       then matched' \<and> (\<exists>t \<in> set ts. P ! fst t = OP_MATCH \<and> m' = copy_matches nm (snd t) m)
       else matched' = matched \<and> m' = m \<and>
         (\<forall>t \<in> set ts. advances (P ! fst t) (vm_char s beyond sp) \<longrightarrow> fst t + 1 \<in> marked (sp + 1) next'))"
  using add
proof (induction ts arbitrary: "next")
  case (Cons t ts)
  obtain pc tm where t: "t = (pc, tm)" by (cases t)
  have step: "vm_threads P s beyond nm sp (t # ts) next matched m =
    (if P ! pc = OP_MATCH then Some (next, True, copy_matches nm tm m)
     else if advances (P ! pc) (vm_char s beyond sp) then
       Option.bind (vm_add_thread P s beyond nm (pc + 1) (sp + 1) tm next)
         (\<lambda>next. vm_threads P s beyond nm sp ts next matched m)
     else vm_threads P s beyond nm sp ts next matched m)"
    unfolding t by (rule vm_threads_step[OF _ c]) (use Cons.prems(1) t in simp)
  have con: "\<forall>t \<in> set ts. consuming (P ! fst t)" using Cons.prems(1) by simp
  have add': "\<And>pc tm l. (pc, tm) \<in> set ts \<Longrightarrow> I l \<Longrightarrow> advances (P ! pc) (vm_char s beyond sp) \<Longrightarrow>
      \<exists>l'. vm_add_thread P s beyond nm (pc + 1) (sp + 1) tm l = Some l' \<and> I l' \<and>
        pc + 1 \<in> marked (sp + 1) l' \<and> marked (sp + 1) l \<subseteq> marked (sp + 1) l'"
    using Cons.prems(3) by simp
  note IH = Cons.IH[OF con _ add']
  consider (match) "P ! pc = OP_MATCH" | (adv) "P ! pc \<noteq> OP_MATCH" "advances (P ! pc) (vm_char s beyond sp)"
    | (skip) "P ! pc \<noteq> OP_MATCH" "\<not> advances (P ! pc) (vm_char s beyond sp)" by blast
  then show ?case
  proof cases
    case match
    then show ?thesis unfolding step using Cons.prems(2) by (auto simp: matching_def t)
  next
    case adv
    from Cons.prems(3)[of pc tm, OF _ Cons.prems(2) adv(2)] obtain l' where
      l': "vm_add_thread P s beyond nm (pc + 1) (sp + 1) tm next = Some l'" "I l'"
      "pc + 1 \<in> marked (sp + 1) l'" "marked (sp + 1) next \<subseteq> marked (sp + 1) l'" by (auto simp: t)
    from IH[OF l'(2)] obtain next' matched' m' where r:
      "vm_threads P s beyond nm sp ts l' matched m = Some (next', matched', m')" "I next'"
      "marked (sp + 1) l' \<subseteq> marked (sp + 1) next'"
      "if matching P ts
       then matched' \<and> (\<exists>t \<in> set ts. P ! fst t = OP_MATCH \<and> m' = copy_matches nm (snd t) m)
       else matched' = matched \<and> m' = m \<and>
         (\<forall>t \<in> set ts. advances (P ! fst t) (vm_char s beyond sp) \<longrightarrow> fst t + 1 \<in> marked (sp + 1) next')" by blast
    show ?thesis
      unfolding step using adv l' r by (auto simp: matching_def t split: if_splits)
  next
    case skip
    from IH[OF Cons.prems(2)] skip show ?thesis unfolding step by (auto simp: matching_def t split: if_splits)
  qed
qed (simp add: matching_def)

section \<open>A thread list at a position\<close>

text \<open>
  All marked instructions have marked successors, and the threads are the marked instructions that
  consume, each with the captures of a run that ends there.
\<close>

definition closed :: "program \<Rightarrow> cstring \<Rightarrow> nat \<Rightarrow> config \<Rightarrow> nat \<Rightarrow> vm_thread_list \<Rightarrow> bool" where
  "closed P s nm c0 i l \<longleftrightarrow>
     (\<forall>q. visited l q \<le> i + 1) \<and> distinct (map fst (threads l)) \<and>
     (\<forall>v \<in> marked i l. \<forall>w. eps_succ P s nm i v w \<longrightarrow> w \<in> marked i l) \<and>
     (\<forall>q \<in> marked i l. consuming (P ! q) \<longrightarrow> q \<in> fst ` set (threads l)) \<and>
     (\<forall>(q, tm) \<in> set (threads l).
        q < length P \<and> q \<in> marked i l \<and> consuming (P ! q) \<and> reached P s nm c0 (q, i, tm) \<and> take_slots nm tm = tm)"

lemma estep_reached: "(estep P s nm)\<^sup>*\<^sup>* c d \<Longrightarrow> reached P s nm c d"
  by (induction rule: rtranclp_induct) (auto simp: estep_def intro: rtranclp.rtrancl_into_rtrancl)

lemma closed_fresh: "threads l = [] \<Longrightarrow> \<forall>q. visited l q \<le> i \<Longrightarrow> closed P s nm c0 i l"
proof -
  assume a: "threads l = []" "\<forall>q. visited l q \<le> i"
  then have "marked i l = {}" by (auto simp: marked_def) (metis Suc_n_not_le_n)
  then show ?thesis using a by (auto simp: closed_def le_SucI)
qed

lemma closed_add:
  assumes cl: "closed P s nm c0 i l" and P: "program_ok P" and s: "is_cstr s" "i \<le> length s" and pc: "pc < length P"
    and r: "reached P s nm c0 (pc, i, take_slots nm m)"
  shows "\<exists>l'. vm_add_thread P s beyond nm pc i m l = Some l' \<and> closed P s nm c0 i l' \<and>
    pc \<in> marked i l' \<and> marked i l \<subseteq> marked i l'"
proof -
  from add_thread_ok[OF P s pc] obtain l' where l': "vm_add_thread P s beyond nm pc i m l = Some l'"
    "explored P s nm i (pc, i, take_slots nm m) {} l l'" "pc \<in> marked i l'" by blast
  from l'(2) obtain new where n: "\<And>q. visited l' q = visited l q \<or> q < length P \<and> visited l' q = i + 1"
    "\<And>v w. v \<in> marked i l' - marked i l - {} \<Longrightarrow> eps_succ P s nm i v w \<Longrightarrow> w \<in> marked i l'"
    "threads l' = threads l @ new" "found P s nm i (pc, i, take_slots nm m) (marked i l' - marked i l) new"
    "\<And>q. q \<in> marked i l' - marked i l - {} \<Longrightarrow> consuming (P ! q) \<Longrightarrow> q \<in> fst ` set new"
    by (elim exploredE) blast
  have sub: "marked i l \<subseteq> marked i l'" by (rule explored_marks[OF l'(2)])
  have old: "q < length P \<and> q \<in> marked i l \<and> consuming (P ! q) \<and> reached P s nm c0 (q, i, tm) \<and> take_slots nm tm = tm"
    if "(q, tm) \<in> set (threads l)" for q tm using cl that unfolding closed_def by blast
  have len: "q < length P" if "q \<in> marked i l' - marked i l" for q
    using n(1)[of q] that by (auto simp: marked_def)
  have fresh: "q \<in> marked i l' - marked i l \<and> consuming (P ! q) \<and> reached P s nm c0 (q, i, tm) \<and> take_slots nm tm = tm"
    if "(q, tm) \<in> set new" for q tm
    using n(4) that rtranclp_trans[OF r estep_reached] unfolding found_def by metis
  have "closed P s nm c0 i l'"
    unfolding closed_def
  proof (intro conjI ballI allI impI)
    show "visited l' q \<le> i + 1" for q using n(1)[of q] cl by (auto simp: closed_def)
    have "fst ` set (threads l) \<subseteq> marked i l" "fst ` set new \<subseteq> marked i l' - marked i l"
      using old fresh by force+
    then show "distinct (map fst (threads l'))"
      using cl n(3,4) by (auto simp: closed_def found_def)
    show "w \<in> marked i l'" if "v \<in> marked i l'" "eps_succ P s nm i v w" for v w
      using n(2)[of v w] that sub cl unfolding closed_def by blast
    show "q \<in> fst ` set (threads l')" if "q \<in> marked i l'" "consuming (P ! q)" for q
    proof -
      have "q \<in> marked i l \<Longrightarrow> q \<in> fst ` set (threads l)" using cl that(2) unfolding closed_def by blast
      then show ?thesis using n(5)[of q] that unfolding n(3) set_append image_Un by blast
    qed
    show "case t of (q, tm) \<Rightarrow> q < length P \<and> q \<in> marked i l' \<and> consuming (P ! q) \<and> reached P s nm c0 (q, i, tm) \<and> take_slots nm tm = tm"
      if "t \<in> set (threads l')" for t
    proof -
      obtain q tm where q: "t = (q, tm)" by (cases t)
      with that have "(q, tm) \<in> set (threads l) \<or> (q, tm) \<in> set new" unfolding n(3) by simp
      then show ?thesis unfolding q using old[of q tm] fresh[of q tm] len[of q] sub by blast
    qed
  qed
  then show ?thesis using l' sub by blast
qed

text \<open>Behind the end of the string only the return matters.\<close>

lemma add_thread_ends:
  assumes P: "program_ok P"
  shows "pc < length P \<Longrightarrow> \<exists>l'. vm_add_thread P s beyond nm pc sp m l = Some l' \<and>
    pc \<in> marked sp l' \<and> marked sp l \<subseteq> marked sp l'"
proof (induction "card ({..<length P} - marked sp l)" arbitrary: pc m l rule: less_induct)
  case less
  show ?case
  proof (cases "pc \<in> marked sp l")
    case True
    then show ?thesis using less.prems by (subst vm_add_thread.simps) (auto simp: marked_def)
  next
    case False
    let ?lm = "l\<lparr>visited := (visited l)(pc := sp + 1)\<rparr>"
    have one: "\<exists>l'. vm_add_thread P s beyond nm t sp m' l1 = Some l' \<and> pc \<in> marked sp l' \<and> marked sp l1 \<subseteq> marked sp l'"
      if "t < length P" "insert pc (marked sp l) \<subseteq> marked sp l1" for t m' l1
    proof -
      have "{..<length P} - marked sp l1 \<subset> {..<length P} - marked sp l" using less.prems False that(2) by blast
      then have "card ({..<length P} - marked sp l1) < card ({..<length P} - marked sp l)" by (intro psubset_card_mono) auto
      from less.hyps[OF this that(1)] show ?thesis using that(2) by blast
    qed
    have lm: "insert pc (marked sp l) = marked sp ?lm" by (auto simp: marked_def)
    have tok: "targets_ok (length P) pc (P ! pc)" by (rule program_okD[OF P less.prems])
    note unfold = vm_add_thread.simps[of P s beyond nm pc sp m l]
    have nv: "visited l pc \<noteq> sp + 1" using False by (simp add: marked_def)
    have onm: "\<exists>l'. vm_add_thread P s beyond nm t sp m' ?lm = Some l' \<and> pc \<in> marked sp l' \<and> marked sp l \<subseteq> marked sp l'"
      if "t < length P" for t m' using one[OF that, of ?lm m'] lm by blast
    have stop: "\<exists>l'. Some (?lm\<lparr>threads := x\<rparr>) = Some l' \<and> pc \<in> marked sp l' \<and> marked sp l \<subseteq> marked sp l'" for x
      by (auto simp: marked_def)
    have stop': "\<exists>l'. Some ?lm = Some l' \<and> pc \<in> marked sp l' \<and> marked sp l \<subseteq> marked sp l'"
      using lm by blast
    show ?thesis
    proof (cases "P ! pc")
      case (OP_SPLIT a b)
      then have ab: "a < length P" "b < length P" using tok by (simp_all add: targets_ok_def)
      from onm[OF ab(1), of m] obtain l1 where l1: "vm_add_thread P s beyond nm a sp m ?lm = Some l1"
        "pc \<in> marked sp l1" "marked sp l \<subseteq> marked sp l1" by blast
      from one[OF ab(2), of l1 m] l1(2,3) obtain l2 where "vm_add_thread P s beyond nm b sp m l1 = Some l2"
        "pc \<in> marked sp l2" "marked sp l1 \<subseteq> marked sp l2" by blast
      then show ?thesis using unfold nv OP_SPLIT l1 less.prems by (auto simp: Let_def)
    qed (use unfold nv less.prems tok onm stop stop' in
        \<open>auto simp: Let_def targets_ok_def split: if_splits\<close>)
  qed
qed

section \<open>Runs and positions\<close>

lemma reached_length: "reached P s nm (0, 0, m0) (q, i, m) \<Longrightarrow> i \<le> length s"
  by (induction "(q, i, m)" arbitrary: q i m rule: rtranclp_induct) (auto elim!: vm_stepE)

lemma vm_step_moves:
  "vm_step P s nm (q1, i1, m1) (q, i, m) \<Longrightarrow>
    i = i1 + 1 \<and> q1 < length P \<and> i1 < length s \<and> char_ok (P ! q1) (s ! i1) \<and> q = q1 + 1 \<or> i = i1"
  by (erule vm_stepE) auto

lemma reached_cross:
  "reached P s nm (0, 0, m0) (q, i, m) \<Longrightarrow> j < i \<Longrightarrow>
    \<exists>pc tm. reached P s nm (0, 0, m0) (pc, j, tm) \<and> pc < length P \<and> char_ok (P ! pc) (s ! j) \<and> j < length s"
proof (induction "(q, i, m)" arbitrary: q i m rule: rtranclp_induct)
  case (step y)
  obtain q1 i1 m1 where y: "y = (q1, i1, m1)" by (cases y) auto
  from vm_step_moves[OF step.hyps(2)[unfolded y]] show ?case
  proof
    assume m: "i = i1 + 1 \<and> q1 < length P \<and> i1 < length s \<and> char_ok (P ! q1) (s ! i1) \<and> q = q1 + 1"
    show ?thesis
    proof (cases "j < i1")
      case False
      then have "j = i1" using step.prems m by simp
      then show ?thesis using step.hyps(1) m unfolding y by blast
    qed (use step.hyps(3)[OF y] in blast)
  qed (use step.hyps(3)[OF y] step.prems in auto)
qed simp

definition complete_at :: "program \<Rightarrow> cstring \<Rightarrow> nat \<Rightarrow> config \<Rightarrow> nat \<Rightarrow> vm_thread_list \<Rightarrow> bool" where
  "complete_at P s nm c0 i l \<longleftrightarrow> (\<forall>q m. reached P s nm c0 (q, i, m) \<longrightarrow> q \<in> marked i l)"

lemma char_ok_consuming: "char_ok x c \<Longrightarrow> consuming x"
  by (auto simp: char_ok_def consuming_def split: cregex_program_instr.splits)

lemma complete_start:
  assumes "closed P s nm (0, 0, m0) 0 l" "0 \<in> marked 0 l"
  shows "complete_at P s nm (0, 0, m0) 0 l"
proof -
  have "reached P s nm (0, 0, m0) (q, i, m) \<Longrightarrow> i = 0 \<longrightarrow> q \<in> marked 0 l" for q i m
  proof (induction "(q, i, m)" arbitrary: q i m rule: rtranclp_induct)
    case (step y)
    obtain q1 i1 m1 where y: "y = (q1, i1, m1)" by (cases y) auto
    show ?case
    proof
      assume i: "i = 0"
      then have "i1 = 0" using vm_step_moves[OF step.hyps(2)[unfolded y]] by auto
      then have "eps_succ P s nm 0 q1 q" "q1 \<in> marked 0 l" using step.hyps(2) step.hyps(3)[OF y] i
        unfolding y eps_succ_def by auto
      then show "q \<in> marked 0 l" using assms(1) unfolding closed_def by blast
    qed
  qed (use assms(2) in simp)
  then show ?thesis unfolding complete_at_def by blast
qed

lemma complete_next:
  assumes co: "complete_at P s nm (0, 0, m0) i l" and l: "closed P s nm (0, 0, m0) i l"
    and l': "closed P s nm (0, 0, m0) (i + 1) l'"
    and adv: "\<And>q. q \<in> fst ` set (threads l) \<Longrightarrow> char_ok (P ! q) (s ! i) \<Longrightarrow> i < length s \<Longrightarrow> q + 1 \<in> marked (i + 1) l'"
  shows "complete_at P s nm (0, 0, m0) (i + 1) l'"
proof -
  have "reached P s nm (0, 0, m0) (q, k, m) \<Longrightarrow> k = i + 1 \<longrightarrow> q \<in> marked (i + 1) l'" for q k m
  proof (induction "(q, k, m)" arbitrary: q k m rule: rtranclp_induct)
    case (step y)
    obtain q1 i1 m1 where y: "y = (q1, i1, m1)" by (cases y) auto
    show ?case
    proof
      assume k: "k = i + 1"
      show "q \<in> marked (i + 1) l'"
      proof (cases "i1 = i + 1")
        case True
        then have "eps_succ P s nm (i + 1) q1 q" "q1 \<in> marked (i + 1) l'"
          using step.hyps(2) step.hyps(3)[OF y] k unfolding y eps_succ_def by auto
        then show ?thesis using l' unfolding closed_def by blast
      next
        case False
        then have s: "i1 = i" "q = q1 + 1" "char_ok (P ! q1) (s ! i)" "i < length s"
          using vm_step_moves[OF step.hyps(2)[unfolded y]] k by auto
        then have "q1 \<in> marked i l" using step.hyps(1) co unfolding y complete_at_def by blast
        then have "q1 \<in> fst ` set (threads l)" using l char_ok_consuming[OF s(3)] unfolding closed_def by blast
        then show ?thesis using adv s by blast
      qed
    qed
  qed simp
  then show ?thesis unfolding complete_at_def by blast
qed

text \<open>What is known once a match has been seen.\<close>

definition accepted :: "program \<Rightarrow> cstring \<Rightarrow> nat \<Rightarrow> config \<Rightarrow> nat \<Rightarrow> nat \<Rightarrow> captures \<Rightarrow> bool" where
  "accepted P s nm c0 q i tm \<longleftrightarrow> reached P s nm c0 (q, i, tm) \<and> q < length P \<and> P ! q = OP_MATCH"

definition seen :: "program \<Rightarrow> cstring \<Rightarrow> nat \<Rightarrow> config \<Rightarrow> captures \<Rightarrow> bool" where
  "seen P s nm c0 m \<longleftrightarrow> (\<exists>q i tm. accepted P s nm c0 q i tm \<and> (\<forall>k < min nm REGEX_VM_MAX_MATCHES. m k = tm k))"

definition progress :: "program \<Rightarrow> cstring \<Rightarrow> nat \<Rightarrow> config \<Rightarrow> nat \<Rightarrow> bool \<Rightarrow> captures \<Rightarrow> bool" where
  "progress P s nm c0 i matched m \<longleftrightarrow>
     (if matched then seen P s nm c0 m else (\<forall>q k tm. accepted P s nm c0 q k tm \<longrightarrow> i \<le> k))"

lemma closed_thread:
  assumes "closed P s nm c0 i l" "t \<in> set (threads l)"
  shows "fst t < length P" "consuming (P ! fst t)" "reached P s nm c0 (fst t, i, snd t)" "take_slots nm (snd t) = snd t"
proof -
  have "case t of (q, tm) \<Rightarrow> q < length P \<and> q \<in> marked i l \<and> consuming (P ! q) \<and> reached P s nm c0 (q, i, tm) \<and> take_slots nm tm = tm"
    using assms unfolding closed_def by blast
  then show "fst t < length P" "consuming (P ! fst t)" "reached P s nm c0 (fst t, i, snd t)" "take_slots nm (snd t) = snd t"
    by (simp_all add: split_beta)
qed

lemma no_match_here:
  assumes "closed P s nm c0 i l" "complete_at P s nm c0 i l" "\<not> matching P (threads l)"
  shows "\<not> accepted P s nm c0 q i tm"
proof
  assume a: "accepted P s nm c0 q i tm"
  then have "q \<in> marked i l" "consuming (P ! q)"
    using assms(2) unfolding accepted_def complete_at_def by (blast, simp add: consuming_def)
  then have "q \<in> fst ` set (threads l)" using assms(1) unfolding closed_def by blast
  then show False using a assms(3) unfolding accepted_def matching_def by auto
qed

lemma progress_threads:
  assumes cl: "closed P s nm c0 i l" and pr: "progress P s nm c0 i matched m"
    and co: "\<not> matched \<Longrightarrow> complete_at P s nm c0 i l"
    and r: "if matching P (threads l)
      then matched' \<and> (\<exists>t \<in> set (threads l). P ! fst t = OP_MATCH \<and> m' = copy_matches nm (snd t) m)
      else matched' = matched \<and> m' = m \<and> X"
  shows "progress P s nm c0 (i + 1) matched' m'"
proof (cases "matching P (threads l)")
  case True
  with r obtain t where t: "matched'" "t \<in> set (threads l)" "P ! fst t = OP_MATCH" "m' = copy_matches nm (snd t) m" by auto
  then have "accepted P s nm c0 (fst t) i (snd t)" using closed_thread[OF cl t(2)] by (simp add: accepted_def)
  moreover have "\<forall>k < min nm REGEX_VM_MAX_MATCHES. m' k = snd t k" using t(4) by (simp add: copy_matches_def)
  ultimately show ?thesis using t(1) unfolding progress_def seen_def by auto
next
  case False
  with r have m: "matched' = matched" "m' = m" by auto
  show ?thesis
  proof (cases matched)
    case F: False
    have "i + 1 \<le> k" if "accepted P s nm c0 q k tm" for q k tm
      using no_match_here[OF cl co[OF F] False, of q tm] pr that F unfolding progress_def
      by (metis Suc_eq_plus1 le_neq_implies_less not_less_eq_eq not_le)
    then show ?thesis using F m by (simp add: progress_def)
  qed (use pr m in \<open>simp add: progress_def\<close>)
qed

lemma nonneg_char: "ascii_str s \<Longrightarrow> i \<le> length s \<Longrightarrow> 0 \<le> schar (vm_char s beyond i)"
  by (auto simp: vm_char_def ascii_str_def list_all_length ascii_def) (simp add: schar_def)

lemma after_advance:
  assumes "program_ok P" "closed P s nm c0 i l" "t \<in> set (threads l)" "advances (P ! fst t) c"
  shows "fst t + 1 < length P"
  using program_okD[OF assms(1) closed_thread(1)[OF assms(2,3)]] assms(4)
  by (auto simp: targets_ok_def advances_def char_ok_def split: cregex_program_instr.splits)

lemma vm_loop_ok:
  assumes P: "program_ok P" and s: "is_cstr s" "ascii_str s" and c0: "c0 = (0, 0, m0)"
  shows "sp \<le> length s \<Longrightarrow> rest = drop sp s \<Longrightarrow> closed P s nm c0 sp current \<Longrightarrow> threads next = [] \<Longrightarrow>
    \<forall>q. visited next q \<le> sp + 1 \<Longrightarrow> progress P s nm c0 sp matched m \<Longrightarrow>
    (\<not> matched \<Longrightarrow> complete_at P s nm c0 sp current) \<Longrightarrow>
    \<exists>mt m'. vm_loop P s beyond nm sp rest current next matched m = Some (mt, m') \<and>
      (mt \<longleftrightarrow> (\<exists>q i tm. accepted P s nm c0 q i tm)) \<and> (mt \<longrightarrow> seen P s nm c0 m')"
proof (induction rest arbitrary: sp current "next" matched m)
  case Nil
  have con: "\<forall>t \<in> set (threads current). consuming (P ! fst t)" using closed_thread(2)[OF Nil.prems(3)] by blast
  have sp: "sp = length s" using Nil.prems(1,2) by simp
  from vm_threads_ok[where I = "\<lambda>l. True", OF nonneg_char[OF s(2) Nil.prems(1)] _ con]
    add_thread_ends[OF P after_advance[OF P Nil.prems(3)]]
  obtain next' matched' m' where r: "vm_threads P s beyond nm sp (threads current) next matched m = Some (next', matched', m')"
    "if matching P (threads current)
      then matched' \<and> (\<exists>t \<in> set (threads current). P ! fst t = OP_MATCH \<and> m' = copy_matches nm (snd t) m)
      else matched' = matched \<and> m' = m \<and>
        (\<forall>t \<in> set (threads current). advances (P ! fst t) (vm_char s beyond sp) \<longrightarrow> fst t + 1 \<in> marked (sp + 1) next')"
    by (metis (no_types, lifting) fst_conv)
  have pr: "progress P s nm c0 (sp + 1) matched' m'" by (rule progress_threads[OF Nil.prems(3,6,7) r(2)])
  have "accepted P s nm c0 q i tm \<Longrightarrow> i \<le> sp" for q i tm using reached_length sp unfolding accepted_def c0 by blast
  then have "matched' \<longleftrightarrow> (\<exists>q i tm. accepted P s nm c0 q i tm)" "matched' \<longrightarrow> seen P s nm c0 m'"
    using pr unfolding progress_def seen_def by (metis Suc_eq_plus1 not_less_eq_eq)+
  then show ?case using r(1) by simp
next
  case (Cons c rest)
  have sp: "sp < length s" using Cons.prems(2) by (metis drop_all list.distinct(1) not_le)
  have con: "\<forall>t \<in> set (threads current). consuming (P ! fst t)" using closed_thread(2)[OF Cons.prems(3)] by blast
  have add: "\<exists>l'. vm_add_thread P s beyond nm (pc + 1) (sp + 1) tm l = Some l' \<and> closed P s nm c0 (sp + 1) l' \<and>
        pc + 1 \<in> marked (sp + 1) l' \<and> marked (sp + 1) l \<subseteq> marked (sp + 1) l'"
    if t: "(pc, tm) \<in> set (threads current)" and l: "closed P s nm c0 (sp + 1) l"
      and adv: "advances (P ! pc) (vm_char s beyond sp)" for pc tm l
  proof -
    have "vm_step P s nm (pc, sp, tm) (pc + 1, sp + 1, tm)"
      using closed_thread(1)[OF Cons.prems(3) t] sp adv by (intro step_char) (auto simp: advances_def vm_char_def)
    then have "reached P s nm c0 (pc + 1, sp + 1, take_slots nm tm)"
      using closed_thread(3,4)[OF Cons.prems(3) t] by (auto intro: rtranclp.rtrancl_into_rtrancl)
    then show ?thesis
      using closed_add[OF l P s(1) _ after_advance[OF P Cons.prems(3) t, of "vm_char s beyond sp"]] sp adv by auto
  qed
  have fresh: "closed P s nm c0 (sp + 1) next" by (rule closed_fresh[OF Cons.prems(4,5)])
  from vm_threads_ok[where I = "closed P s nm c0 (sp + 1)", OF nonneg_char[OF s(2) Cons.prems(1)] add con fresh]
  obtain next' matched' m' where r: "vm_threads P s beyond nm sp (threads current) next matched m = Some (next', matched', m')"
    "closed P s nm c0 (sp + 1) next'"
    "if matching P (threads current)
      then matched' \<and> (\<exists>t \<in> set (threads current). P ! fst t = OP_MATCH \<and> m' = copy_matches nm (snd t) m)
      else matched' = matched \<and> m' = m \<and>
        (\<forall>t \<in> set (threads current). advances (P ! fst t) (vm_char s beyond sp) \<longrightarrow> fst t + 1 \<in> marked (sp + 1) next')"
    by blast
  have pr: "progress P s nm c0 (sp + 1) matched' m'" by (rule progress_threads[OF Cons.prems(3,6,7) r(3)])
  have co: "complete_at P s nm c0 (sp + 1) next'" if "\<not> matched'"
  proof -
    from that r(3) have n: "\<not> matched" "\<And>t. t \<in> set (threads current) \<Longrightarrow> advances (P ! fst t) (vm_char s beyond sp) \<Longrightarrow>
      fst t + 1 \<in> marked (sp + 1) next'" by (auto split: if_splits)
    have "s ! sp \<noteq> EOS" using s(1) sp by (auto simp: is_cstr_def in_set_conv_nth)
    then show ?thesis
      using complete_next[OF Cons.prems(7)[OF n(1), unfolded c0] Cons.prems(3)[unfolded c0] r(2)[unfolded c0]] n(2) sp
      unfolding c0 by (fastforce simp: advances_def vm_char_def)
  qed
  show ?case
  proof (cases "threads next' = []")
    case True
    have "False" if "\<not> matched'" "accepted P s nm c0 q i tm" for q i tm
    proof -
      have nc: "\<not> consuming (P ! pc)" if "reached P s nm c0 (pc, sp + 1, m1)" for pc m1
        using r(2) co[OF \<open>\<not> matched'\<close>] that True unfolding closed_def complete_at_def by fastforce
      have "sp + 1 \<le> i" using pr that by (auto simp: progress_def)
      moreover have "i \<noteq> sp + 1" using nc[of q tm] that(2) by (auto simp: accepted_def consuming_def)
      ultimately have "sp + 1 < i" by simp
      then show False using reached_cross[of P s nm m0 q i tm "sp + 1"] that(2) nc char_ok_consuming
        unfolding accepted_def c0 by blast
    qed
    then have "matched' \<longleftrightarrow> (\<exists>q i tm. accepted P s nm c0 q i tm)" "matched' \<longrightarrow> seen P s nm c0 m'"
      using pr unfolding progress_def seen_def by metis+
    then show ?thesis using r(1) True by simp
  next
    case False
    have "rest = drop (sp + 1) s" using Cons.prems(2) by (metis Suc_eq_plus1 drop_Suc list.sel(3) tl_drop)
    moreover have "\<forall>q. visited (current\<lparr>threads := []\<rparr>) q \<le> sp + 1 + 1"
      using Cons.prems(3) unfolding closed_def by (auto intro: le_SucI)
    ultimately show ?thesis
      using Cons.IH[of "sp + 1" next' "current\<lparr>threads := []\<rparr>" matched' m'] sp r(1,2) pr co False by auto
  qed
qed

end
