(* ===== verification/RegexRun.thy ===== *)
theory RegexRun
  imports RegexMatch
begin

text \<open>
  Compiled patterns run by the machine: the code of a node fits the estimate of the compiler, stays
  inside of the program, and a run of it answers whether the pattern matches somewhere in the string.
\<close>

section \<open>Every node that parses compiles\<close>

definition jumps_to :: "nat \<Rightarrow> cregex_program_instr \<Rightarrow> bool" where
  "jumps_to e x \<longleftrightarrow>
     (case x of OP_MATCH \<Rightarrow> False | OP_SPLIT a b \<Rightarrow> a \<le> e \<and> b \<le> e | OP_JUMP a \<Rightarrow> a \<le> e | _ \<Rightarrow> True)"

lemma jumps_to_simps [simp]:
  "\<not> jumps_to e OP_MATCH" "jumps_to e (OP_CHARACTER c)" "jumps_to e OP_ANY_CHARACTER"
  "jumps_to e (OP_CHARACTER_CLASS neg k)" "jumps_to e (OP_SPLIT a b) \<longleftrightarrow> a \<le> e \<and> b \<le> e"
  "jumps_to e (OP_JUMP a) \<longleftrightarrow> a \<le> e" "jumps_to e OP_ASSERT_BEGIN" "jumps_to e OP_ASSERT_END" "jumps_to e (OP_SAVE i)"
  "jumps_to e (greedy_split g a b) \<longleftrightarrow> a \<le> e \<and> b \<le> e"
  by (auto simp: jumps_to_def greedy_split_def)

lemma jumps_to_mono: "jumps_to e x \<Longrightarrow> e \<le> e' \<Longrightarrow> jumps_to e' x"
  by (auto simp: jumps_to_def split: cregex_program_instr.splits)

lemma jumps_all_mono: "list_all (jumps_to e) c \<Longrightarrow> e \<le> e' \<Longrightarrow> list_all (jumps_to e') c"
  using jumps_to_mono by (auto simp: list_all_iff)

text \<open>A piece of code of fixed length that stays inside of itself.\<close>

definition emits :: "(nat \<Rightarrow> nat \<Rightarrow> compiled) \<Rightarrow> nat \<Rightarrow> bool" where
  "emits f num \<longleftrightarrow> (\<forall>pc n. \<exists>code n'. f pc n = Inr (code, n') \<and> length code = num \<and> list_all (jumps_to (pc + num)) code)"

lemma emitsE:
  assumes "emits f num"
  obtains code n' where "f pc n = Inr (code, n')" "length code = num" "list_all (jumps_to (pc + num)) code"
  using assms unfolding emits_def by blast

lemma emits_one: "(\<And>pc n. f pc n = Inr ([x], n)) \<Longrightarrow> (\<And>e. jumps_to e x) \<Longrightarrow> emits f 1"
  by (auto simp: emits_def)

lemma copies_emit:
  assumes "emits f num"
  shows "\<exists>code n' l'. compile_copies f caps k pc n l = Inr (code, n', l') \<and> length code = k * num \<and>
    list_all (jumps_to (pc + k * num)) code \<and> l' \<le> max l (pc + k * num)"
proof (induction k arbitrary: pc n l)
  case (Suc k)
  obtain body nb where b: "f pc caps = Inr (body, nb)" "length body = num" "list_all (jumps_to (pc + num)) body"
    using emitsE[OF assms] .
  from Suc[of "pc + num" nb pc] obtain rest n' l' where r: "compile_copies f caps k (pc + num) nb pc = Inr (rest, n', l')"
    "length rest = k * num" "list_all (jumps_to (pc + num + k * num)) rest" "l' \<le> max pc (pc + num + k * num)" by blast
  have "list_all (jumps_to (pc + num + k * num)) body" by (rule jumps_all_mono[OF b(3)]) simp
  then show ?case using b r by (auto simp: add.assoc)
qed auto

lemma options_emit:
  assumes "emits f num"
  shows "\<exists>code n'. compile_options f caps g k pc n = Inr (code, n') \<and> length code = k * (num + 1) \<and>
    list_all (jumps_to (pc + k * (num + 1))) code"
proof (induction k arbitrary: pc n)
  case (Suc k)
  obtain body nb where b: "f (pc + 1) caps = Inr (body, nb)" "length body = num" "list_all (jumps_to (pc + 1 + num)) body"
    using emitsE[OF assms] .
  from Suc[of "pc + 1 + num" nb] obtain rest n' where r: "compile_options f caps g k (pc + 1 + num) nb = Inr (rest, n')"
    "length rest = k * (num + 1)" "list_all (jumps_to (pc + 1 + num + k * (num + 1))) rest" by blast
  have "list_all (jumps_to (pc + 1 + num + k * (num + 1))) body" by (rule jumps_all_mono[OF b(3)]) simp
  then show ?case using b r by (auto simp: algebra_simps)
qed simp

lemma quantifier_emits:
  assumes f: "emits f num" and q: "0 \<le> nmin" "nmax = - 1 \<or> nmin \<le> nmax"
  shows "emits (compile_quantifier f nmin nmax g)
    (if nmax \<ge> nmin then nat nmin * num + nat (nmax - nmin) * (num + 1)
     else 1 + (if nmin \<noteq> 0 then nat nmin * num else num + 1))"
  unfolding emits_def
proof (intro allI)
  fix pc n
  let ?num = "if nmax \<ge> nmin then nat nmin * num + nat (nmax - nmin) * (num + 1)
     else 1 + (if nmin \<noteq> 0 then nat nmin * num else num + 1)"
  obtain code n' l' where c: "compile_copies f n (nat nmin) pc n 0 = Inr (code, n', l')" "length code = nat nmin * num"
    "list_all (jumps_to (pc + nat nmin * num)) code" "l' \<le> pc + nat nmin * num"
    using copies_emit[OF f, of n "nat nmin" pc n 0] by auto
  have c': "list_all (jumps_to (pc + ?num)) code" by (rule jumps_all_mono[OF c(3)]) (use q in auto)
  show "\<exists>code n'. compile_quantifier f nmin nmax g pc n = Inr (code, n') \<and> length code = ?num \<and>
      list_all (jumps_to (pc + ?num)) code"
  proof (cases "nmax = - 1")
    case inf: True
    show ?thesis
    proof (cases "nmin = 0")
      case True
      obtain body nb where b: "f (pc + 1) n' = Inr (body, nb)" "length body = num" "list_all (jumps_to (pc + 1 + num)) body"
        using emitsE[OF f] .
      have "list_all (jumps_to (pc + 1 + num + 1)) body" by (rule jumps_all_mono[OF b(3)]) simp
      then show ?thesis using c b True inf by (auto simp: compile_quantifier_def Let_def)
    next
      case False
      then show ?thesis using c c' q inf by (auto simp: compile_quantifier_def Let_def)
    qed
  next
    case False
    then have le: "nmin \<le> nmax" using q by simp
    show ?thesis
    proof (cases "nmax = nmin")
      case True
      then show ?thesis using c c' False by (simp add: compile_quantifier_def Let_def)
    next
      case ne: False
      from options_emit[OF f, of n g "nat (nmax - nmin)" "pc + nat nmin * num" n'] obtain rest nr where
        r: "compile_options f n g (nat (nmax - nmin)) (pc + nat nmin * num) n' = Inr (rest, nr)"
        "length rest = nat (nmax - nmin) * (num + 1)"
        "list_all (jumps_to (pc + nat nmin * num + nat (nmax - nmin) * (num + 1))) rest" by blast
      then show ?thesis using c c' le ne by (simp add: compile_quantifier_def Let_def add.assoc)
    qed
  qed
qed

lemma compile_emits: "node_ok r \<Longrightarrow> emits (compile_context r) (count_instructions r)"
proof (induction r)
  case (CHARACTER_CLASS neg cls)
  then show ?case by (auto simp: emits_def)
next
  case (CONCATENATION l r)
  then have l: "emits (compile_context l) (count_instructions l)" and r: "emits (compile_context r) (count_instructions r)" by auto
  show ?case
    unfolding emits_def
  proof (intro allI)
    fix pc n
    obtain a na where a: "compile_context l pc n = Inr (a, na)" "length a = count_instructions l"
      "list_all (jumps_to (pc + count_instructions l)) a" using emitsE[OF l] .
    obtain b nb where b: "compile_context r (pc + length a) na = Inr (b, nb)" "length b = count_instructions r"
      "list_all (jumps_to (pc + length a + count_instructions r)) b" using emitsE[OF r] .
    have "list_all (jumps_to (pc + length a + count_instructions r)) a" by (rule jumps_all_mono[OF a(3)]) (simp add: a(2))
    then show "\<exists>code n'. compile_context (CONCATENATION l r) pc n = Inr (code, n') \<and>
        length code = count_instructions (CONCATENATION l r) \<and>
        list_all (jumps_to (pc + count_instructions (CONCATENATION l r))) code"
      using a b by (auto simp: add.assoc)
  qed
next
  case (ALTERNATION l r)
  then have l: "emits (compile_context l) (count_instructions l)" and r: "emits (compile_context r) (count_instructions r)" by auto
  show ?case
    unfolding emits_def
  proof (intro allI)
    fix pc n
    obtain a na where a: "compile_context l (pc + 1) n = Inr (a, na)" "length a = count_instructions l"
      "list_all (jumps_to (pc + 1 + count_instructions l)) a" using emitsE[OF l] .
    obtain b nb where b: "compile_context r (pc + 2 + length a) na = Inr (b, nb)" "length b = count_instructions r"
      "list_all (jumps_to (pc + 2 + length a + count_instructions r)) b" using emitsE[OF r] .
    have "list_all (jumps_to (pc + 2 + length a + count_instructions r)) a"
      by (rule jumps_all_mono[OF a(3)]) (simp add: a(2))
    then show "\<exists>code n'. compile_context (ALTERNATION l r) pc n = Inr (code, n') \<and>
        length code = count_instructions (ALTERNATION l r) \<and>
        list_all (jumps_to (pc + count_instructions (ALTERNATION l r))) code"
      using a b by (auto simp: add.assoc)
  qed
next
  case (QUANTIFIER nmin nmax g x)
  have "compile_context (QUANTIFIER nmin nmax g x) = compile_quantifier (compile_context x) nmin nmax g"
    by (simp add: fun_eq_iff)
  then show ?case using quantifier_emits[of "compile_context x" "count_instructions x" nmin nmax g] QUANTIFIER
    by (simp add: Let_def)
next
  case (CAPTURE x)
  then have x: "emits (compile_context x) (count_instructions x)" by simp
  show ?case
    unfolding emits_def
  proof (intro allI)
    fix pc n
    obtain a na where a: "compile_context x (pc + 1) (n + 1) = Inr (a, na)" "length a = count_instructions x"
      "list_all (jumps_to (pc + 1 + count_instructions x)) a" using emitsE[OF x] .
    have "list_all (jumps_to (pc + (2 + count_instructions x))) a" by (rule jumps_all_mono[OF a(3)]) simp
    then show "\<exists>code n'. compile_context (CAPTURE x) pc n = Inr (code, n') \<and>
        length code = count_instructions (CAPTURE x) \<and> list_all (jumps_to (pc + count_instructions (CAPTURE x))) code"
      using a by auto
  qed
qed (auto simp: emits_def)

section \<open>The whole program\<close>

lemma node_ok_program [simp]: "node_ok (program_node root) \<longleftrightarrow> node_ok root"
  by (auto simp: program_node_def Let_def)

lemma count_program_node: "count_instructions (program_node root) + 1 = estimate_instructions root"
  by (auto simp: program_node_def estimate_instructions_def Let_def)

lemma compiled_program:
  assumes "node_ok root" "compile_node_with_program root = Inr P"
  obtains code n where "compile_context (program_node root) 0 0 = Inr (code, n)" "P = code @ [OP_MATCH]"
    "list_all (jumps_to (length code)) code" "length P = estimate_instructions root"
proof -
  obtain code n where c: "compile_context (program_node root) 0 0 = Inr (code, n)"
    "length code = count_instructions (program_node root)"
    "list_all (jumps_to (0 + count_instructions (program_node root))) code"
    using compile_emits[OF node_ok_program[THEN iffD2, OF assms(1)]] unfolding emits_def by blast
  then have P: "P = code @ [OP_MATCH]" using assms(2) by (simp add: compile_node_with_program_def)
  show thesis by (rule that[OF c(1) P]) (use c P count_program_node[of root] in simp_all)
qed

lemma program_ok_compiled:
  assumes "list_all (jumps_to (length code)) code"
  shows "program_ok (code @ [OP_MATCH])"
  unfolding program_ok_def
proof (intro conjI allI impI)
  fix pc assume "pc < length (code @ [OP_MATCH])"
  then consider "pc < length code" | "pc = length code" by fastforce
  then show "targets_ok (length (code @ [OP_MATCH])) pc ((code @ [OP_MATCH]) ! pc)"
  proof cases
    case 1
    then have "jumps_to (length code) (code ! pc)" using assms by (simp add: list_all_length)
    then show ?thesis using 1 by (auto simp: nth_append targets_ok_def jumps_to_def split: cregex_program_instr.splits)
  qed (simp add: targets_ok_def)
qed simp

lemma accepts_at_end:
  assumes "list_all (jumps_to (length code)) code" "accepted (code @ [OP_MATCH]) s nm c0 q i tm"
  shows "q = length code"
proof (rule ccontr)
  assume "q \<noteq> length code"
  then have "q < length code" using assms(2) by (simp add: accepted_def)
  then have "jumps_to (length code) OP_MATCH" using assms by (metis accepted_def list_all_length nth_append)
  then show False by simp
qed

lemma rmatch_prefix: "i \<le> length s \<Longrightarrow> rmatch (QUANTIFIER 0 (- 1) False ANY_CHARACTER) s 0 i"
proof -
  have "i \<le> length s \<Longrightarrow> (rmatch ANY_CHARACTER s ^^ i) 0 i"
    by (induction i) (auto intro!: relcomppI)
  then show "i \<le> length s \<Longrightarrow> ?thesis" by auto
qed

text \<open>An anchored pattern is tried at the start of the string only.\<close>

definition tried_at :: "cregex_node \<Rightarrow> nat \<Rightarrow> bool" where
  "tried_at root i \<longleftrightarrow> node_is_anchored root \<longrightarrow> i = 0"

lemma rmatch_program_node:
  "(\<exists>j. rmatch (program_node root) s 0 j) \<longleftrightarrow> (\<exists>i j. i \<le> length s \<and> tried_at root i \<and> rmatch root s i j)"
proof (cases "node_is_anchored root")
  case False
  have "rmatch (program_node root) s 0 j \<longleftrightarrow> (\<exists>i \<le> length s. rmatch root s i j)" for j
    using False rmatch_bounds[of "QUANTIFIER 0 (- 1) False ANY_CHARACTER" s 0] rmatch_prefix
    by (auto simp: program_node_def Let_def simp del: rmatch.simps(7))
  then show ?thesis using False by (auto simp: tried_at_def)
qed (auto simp: program_node_def tried_at_def)

lemma run_verdict:
  assumes ok: "node_ok root" and c: "compile_node_with_program root = Inr P" and s: "is_cstr s" "ascii_str s"
  shows "(\<exists>q i tm. accepted P s nm (0, 0, m0) q i tm) \<longleftrightarrow> (\<exists>i j. i \<le> length s \<and> tried_at root i \<and> rmatch root s i j)"
proof -
  obtain code n where p: "compile_context (program_node root) 0 0 = Inr (code, n)" "P = code @ [OP_MATCH]"
    "list_all (jumps_to (length code)) code" using compiled_program[OF ok c] by metis
  have at: "code_at P 0 code" unfolding code_at_def p(2) by (intro exI[of _ "[]"] exI[of _ "[OP_MATCH]"]) simp
  have so: "sound P s nm 0 (length code) (rmatch (program_node root) s) 0"
    using goodD(1)[OF compile_good p(1) at, of s nm] ok s(2) by simp
  have co: "complete P s nm 0 (length code) (rmatch (program_node root) s)"
    using fullD[OF compile_full p(1) at, of s nm] ok s(2) by simp
  have stuck: "\<not> vm_step P s nm (length code, k, m) c" for k m c
    using p(2) by (auto elim!: vm_stepE simp: char_ok_def)
  show ?thesis
    unfolding rmatch_program_node[symmetric]
  proof
    assume "\<exists>q i tm. accepted P s nm (0, 0, m0) q i tm"
    then obtain q i tm where a: "accepted P s nm (0, 0, m0) q i tm" by blast
    then have q: "q = length code" using accepts_at_end p(2,3) by metis
    from a obtain k where "(vm_step P s nm ^^ k) (0, 0, m0) (q, i, tm)"
      unfolding accepted_def by (auto dest: rtranclp_imp_relpowp)
    from soundD[OF so this] q show "\<exists>j. rmatch (program_node root) s 0 j" by blast
  next
    assume "\<exists>j. rmatch (program_node root) s 0 j"
    then obtain j where "rmatch (program_node root) s 0 j" ..
    from completeD[OF co this] obtain m' where "reached P s nm (0, 0, m0) (length code, j, m')" .
    then have "accepted P s nm (0, 0, m0) (length code) j m'" by (simp add: accepted_def p(2))
    then show "\<exists>q i tm. accepted P s nm (0, 0, m0) q i tm" by blast
  qed
qed

text \<open>The two slots of the whole match.\<close>

lemma program_node_code:
  assumes "compile_context (program_node root) 0 0 = Inr (code, n)" "ascii_str s"
  obtains pre R a where "code = pre @ OP_SAVE 0 # a @ [OP_SAVE 1]" "compile_context root (length pre + 1) 1 = Inr (a, n)"
    "\<And>P. code_at P 0 pre \<Longrightarrow> length pre \<le> length P \<Longrightarrow> sound P s nm 0 (length pre) R 0"
    "\<And>i. R 0 i \<Longrightarrow> i \<le> length s \<and> tried_at root i"
proof (cases "node_is_anchored root")
  case True
  then have "compile_context (CAPTURE root) 0 0 = Inr (code, n)" using assms(1) by (simp add: program_node_def)
  then obtain a where a: "code = [] @ OP_SAVE 0 # a @ [OP_SAVE 1]" "compile_context root (length ([] :: program) + 1) 1 = Inr (a, n)"
    by (auto simp: bind_res_Inr)
  show thesis by (rule that[OF a, of "(=)"]) (auto simp: sound_empty tried_at_def)
next
  case False
  let ?Q = "QUANTIFIER 0 (- 1) False ANY_CHARACTER"
  have "compile_context (CONCATENATION ?Q (CAPTURE root)) 0 0 = Inr (code, n)" using assms(1) False
    by (simp add: program_node_def Let_def)
  then obtain pre n1 b where b: "compile_context ?Q 0 0 = Inr (pre, n1)"
    "compile_context (CAPTURE root) (length pre) n1 = Inr (b, n)" "code = pre @ b" by (auto simp: bind_res_Inr)
  have "n1 = 0" using b(1) by (auto simp: compile_quantifier_def bind_res_Inr)
  with b(2,3) obtain a where a: "code = pre @ OP_SAVE 0 # a @ [OP_SAVE 1]" "compile_context root (length pre + 1) 1 = Inr (a, n)"
    by (auto simp: bind_res_Inr)
  have so: "sound P s nm 0 (length pre) (rmatch ?Q s) 0" if "code_at P 0 pre" for P
    using goodD(1)[OF compile_good[of ?Q s] b(1) that] assms(2) by simp
  have "rmatch ?Q s 0 i \<Longrightarrow> i \<le> length s \<and> tried_at root i" for i
    using rmatch_bounds[of ?Q s 0 i] False by (auto simp: tried_at_def)
  then show thesis by (intro that[OF a, of "rmatch ?Q s"] so) auto
qed

lemma accepted_captures:
  assumes ok: "node_ok root" and c: "compile_node_with_program root = Inr P" and s: "ascii_str s"
    and acc: "accepted P s nm (0, 0, m0) q e tm" and nm: "2 \<le> nm"
  shows "\<exists>i j. i \<le> length s \<and> tried_at root i \<and> rmatch root s i j \<and> tm 0 = Some i \<and> tm 1 = Some j"
proof -
  obtain code n where p: "compile_context (program_node root) 0 0 = Inr (code, n)" "P = code @ [OP_MATCH]"
    "list_all (jumps_to (length code)) code" using compiled_program[OF ok c] by metis
  obtain pre R a where pr: "code = pre @ OP_SAVE 0 # a @ [OP_SAVE 1]" "compile_context root (length pre + 1) 1 = Inr (a, n)"
    "\<And>P. code_at P 0 pre \<Longrightarrow> length pre \<le> length P \<Longrightarrow> sound P s nm 0 (length pre) R 0"
    "\<And>i. R 0 i \<Longrightarrow> i \<le> length s \<and> tried_at root i" using program_node_code[OF p(1) s, of nm] by metis
  let ?x = "length pre" and ?y = "length pre + 1 + length a"
  have at: "code_at P 0 (pre @ OP_SAVE 0 # a @ [OP_SAVE 1])"
    unfolding code_at_def p(2) pr(1) by (intro exI[of _ "[]"] exI[of _ "[OP_MATCH]"]) simp
  have P: "code_at P 0 pre" "?x < length P" "P ! ?x = OP_SAVE 0" "code_at P (?x + 1) a" "P ! ?y = OP_SAVE 1"
    using at by (auto simp: code_at_append code_at_Cons)
  have q: "q = ?y + 1" using accepts_at_end[OF p(3)] acc p(2) pr(1) by auto
  have out: "q < 0 \<or> ?x \<le> q" "q \<noteq> ?x" "q < ?x + 1 \<or> ?y \<le> q" "q \<noteq> ?y" using q by simp_all
  from acc obtain k where k: "(vm_step P s nm ^^ k) (0, 0, m0) (q, e, tm)"
    unfolding accepted_def by (auto dest: rtranclp_imp_relpowp)
  from soundD[OF pr(3)[OF P(1) less_imp_le[OF P(2)]] k out(1)] obtain i k1 m1 where 1: "R 0 i"
    "(vm_step P s nm ^^ k1) (?x, i, m1) (q, e, tm)" .
  from path_first[OF 1(2) out(2)] obtain k2 pc2 i2 m2 where 2: "vm_step P s nm (?x, i, m1) (pc2, i2, m2)"
    "(vm_step P s nm ^^ k2) (pc2, i2, m2) (q, e, tm)" .
  from 2(1) P(3) have m2: "pc2 = ?x + 1" "i2 = i" "m2 = save_slot nm 0 i m1"
    by (auto elim!: vm_stepE simp: char_ok_def)
  have so: "sound P s nm (?x + 1) ?y (rmatch root s) 2"
    using goodD(1)[OF compile_good[OF ok s] pr(2) P(4), of nm] by simp
  from soundD[OF so 2(2)[unfolded m2(1,2)] out(3)] obtain j k3 m3 where 3: "rmatch root s i j"
    "(vm_step P s nm ^^ k3) (?y, j, m3) (q, e, tm)" "\<forall>x < 2. m3 x = m2 x" .
  from path_first[OF 3(2) out(4)] obtain k4 pc4 i4 m4 where 4: "vm_step P s nm (?y, j, m3) (pc4, i4, m4)"
    "(vm_step P s nm ^^ k4) (pc4, i4, m4) (q, e, tm)" .
  from 4(1) P(5) have m4: "pc4 = ?y + 1" "i4 = j" "m4 = save_slot nm 1 j m3"
    by (auto elim!: vm_stepE simp: char_ok_def)
  have "P ! (?y + 1) = OP_MATCH" using p(2) pr(1) by (simp add: nth_append)
  then have "\<not> vm_step P s nm (?y + 1, j', m') c'" for j' m' c' by (auto elim!: vm_stepE simp: char_ok_def)
  then have "k4 = 0" using 4(2) unfolding m4(1) by (metis relpowp_E2)
  then have tm: "tm = m4" using 4(2) by simp
  have "m4 0 = Some i" "m4 1 = Some j" using m4(3) 3(3) m2(3) nm by (auto simp: save_slot_def)
  then show ?thesis using pr(4)[OF 1(1)] 3(1) tm by blast
qed

end
