(* ===== verification/RegexNodes.thy ===== *)
theory RegexNodes
  imports RegexSem
begin

text \<open>
  What the parser makes: the recursion of \<open>parse_context\<close> is bounded by the length of the pattern, and
  every node it builds has bounds in order and classes that compile.
\<close>

section \<open>Results that keep a property\<close>

definition avoids :: "regex_fault set \<Rightarrow> ('a \<Rightarrow> bool) \<Rightarrow> regex_fault + 'a \<Rightarrow> bool" where
  "avoids B Q r \<longleftrightarrow> (case r of Inl e \<Rightarrow> e \<notin> B | Inr x \<Rightarrow> Q x)"

abbreviation keeps :: "('a \<Rightarrow> bool) \<Rightarrow> regex_fault + 'a \<Rightarrow> bool" where
  "keeps \<equiv> avoids {Out_Of_Depth}"

lemma avoids_simps [simp]: "avoids B Q (Inr x) \<longleftrightarrow> Q x" "avoids B Q (Inl e) \<longleftrightarrow> e \<notin> B"
  by (simp_all add: avoids_def)

lemma keeps_bind: "avoids B Q r \<Longrightarrow> (\<And>x. Q x \<Longrightarrow> avoids B R (f x)) \<Longrightarrow> avoids B R (bind_res r f)"
  by (cases r) simp_all

lemma keeps_mono: "avoids B Q r \<Longrightarrow> (\<And>x. Q x \<Longrightarrow> R x) \<Longrightarrow> avoids B R r"
  by (cases r) simp_all

lemma keeps_if: "(b \<Longrightarrow> avoids B Q x) \<Longrightarrow> (\<not> b \<Longrightarrow> avoids B Q y) \<Longrightarrow> avoids B Q (if b then x else y)"
  by simp

section \<open>Classes\<close>

lemma class_char_keeps:
  "ascii ch \<Longrightarrow> ascii_str s \<Longrightarrow> class_char ch s = Inr (c, t) \<Longrightarrow> ascii c \<and> ascii_str t \<and> (\<exists>k. t = drop k s)"
  by (auto simp: class_char_def split: if_splits list.splits intro: exI[of _ 0] exI[of _ 1])

lemma class_add_ok: "ascii c \<Longrightarrow> \<exists>k'. cregex_char_class_add k (schar c) = Inr k'"
  by (simp add: cregex_char_class_add_def ascii_def)

lemma class_add_all_ok: "\<forall>x \<in> set xs. 0 \<le> x \<Longrightarrow> \<exists>k'. class_add_all k xs = Inr k'"
  by (induction k xs rule: class_add_all.induct) (auto simp: cregex_char_class_add_def)

lemma ascii_str_drop: "ascii_str s \<Longrightarrow> ascii_str (drop k s)"
  by (simp add: ascii_str_def list_all_iff) (meson in_set_dropD)

lemma class_scan_compiles:
  "class_scan first s = Inr (Some rest) \<Longrightarrow> ascii_str s \<Longrightarrow> \<exists>k'. class_compile first s k = Inr k'"
proof (induction first s arbitrary: k rule: class_scan.induct)
  case (2 first ch s)
  show ?case
  proof (cases "ch = CHR '']'' \<and> \<not> first")
    case False
    then obtain c t where ct: "class_char ch s = Inr (c, t)" using 2(3) by (auto simp: bind_res_Inr)
    have a: "ascii c" "ascii_str t" using class_char_keeps[of ch s c t] 2(4) ct by auto
    show ?thesis
    proof (cases "class_range t")
      case None
      obtain k1 where k1: "cregex_char_class_add k (schar c) = Inr k1" using class_add_ok[OF a(1)] by blast
      have "class_scan False t = Inr (Some rest)" using 2(3) False ct None by auto
      then obtain k2 where "class_compile False t k1 = Inr k2" using 2(1)[OF False ct refl None] a(2) by blast
      then show ?thesis using False ct None k1 by auto
    next
      case (Some e)
      then have le: "\<not> schar e < schar c" using 2(3) False ct by auto
      with 2(3) False ct Some obtain u where u: "skip 2 t = Inr u" "class_scan False u = Inr (Some rest)"
        by (auto simp: bind_res_Inr)
      have au: "ascii_str u" using u(1) ascii_str_drop[OF a(2)] by (auto simp: skip_Inr)
      have "\<forall>x \<in> set [schar c..schar e]. 0 \<le> x" using a(1) by (auto simp: ascii_def)
      then obtain k1 where k1: "class_add_all k [schar c..schar e] = Inr k1" using class_add_all_ok by blast
      obtain k2 where "class_compile False u k1 = Inr k2" using 2(2)[OF False ct refl Some le u(1,2) au] by blast
      then show ?thesis using False ct Some k1 u by auto
    qed
  qed simp
qed simp

lemma class_scan_rest:
  "Pattern_Overread \<notin> B \<Longrightarrow>
    avoids B (\<lambda>r. \<forall>t. r = Some t \<longrightarrow> (ascii_str s \<longrightarrow> ascii_str t) \<and> length t < length s) (class_scan first s)"
proof (induction first s rule: class_scan.induct)
  case (2 first ch s)
  show ?case
  proof (cases "ch = CHR '']'' \<and> \<not> first")
    case False
    show ?thesis
    proof (cases "class_char ch s")
      case (Inl e)
      then show ?thesis using False 2(3) by (auto simp: class_char_def split: if_splits list.splits)
    next
      case (Inr ct)
      then obtain c t where ct: "class_char ch s = Inr (c, t)" by (cases ct) auto
      have a: "ascii_str s \<longrightarrow> ascii_str t" "length t \<le> length s"
        using ct by (auto simp: class_char_def split: if_splits list.splits)
      show ?thesis
      proof (cases "class_range t")
        case None
        then show ?thesis using 2(1)[OF False ct refl None 2(3)] a False ct
          by (auto elim!: keeps_mono simp del: class_scan.simps(1))
      next
        case (Some e)
        show ?thesis
        proof (cases "schar e < schar c \<or> length t < 2")
          case True
          then show ?thesis using False ct Some 2(3) by (auto simp: skip_def)
        next
          case le: False
          have "avoids B (\<lambda>r. \<forall>t'. r = Some t' \<longrightarrow> (ascii_str (drop 2 t) \<longrightarrow> ascii_str t') \<and> length t' < length (drop 2 t))
              (class_scan False (drop 2 t))"
            using 2(2)[OF False ct refl Some _ _ 2(3), of "drop 2 t"] le by (simp add: skip_def)
          then show ?thesis using le False ct Some a ascii_str_drop[of t 2]
            by (auto simp: skip_def elim!: keeps_mono)
        qed
      qed
    qed
  qed (use 2 in simp)
qed simp

section \<open>Contexts\<close>

definition okc :: "nat \<Rightarrow> regex_parse_context \<Rightarrow> bool" where
  "okc k c \<longleftrightarrow> ascii_str (csp c) \<and> length (csp c) \<le> k \<and> list_all node_ok (stack c)"

lemma okc_mono: "okc k c \<Longrightarrow> k \<le> k' \<Longrightarrow> okc k' c"
  by (simp add: okc_def)

lemma okc_csp: "okc k c \<Longrightarrow> ascii_str s \<Longrightarrow> length s \<le> k' \<Longrightarrow> okc k' (c\<lparr>csp := s\<rparr>)"
  by (simp add: okc_def)

abbreviation okr :: "nat \<Rightarrow> regex_parse_context option \<Rightarrow> bool" where
  "okr k r \<equiv> \<forall>c. r = Some c \<longrightarrow> okc k c"

abbreviation okx :: "nat \<Rightarrow> cregex_node \<times> regex_parse_context \<Rightarrow> bool" where
  "okx k p \<equiv> node_ok (fst p) \<and> okc k (snd p)"

lemma push_keeps: "okc k c \<Longrightarrow> node_ok x \<Longrightarrow> keeps (okc k) (push x c)"
  by (simp add: push_def okc_def)

lemma or_push_keeps: "okc k c \<Longrightarrow> node_ok x \<Longrightarrow> keeps (okr k) (or_push x c)"
  unfolding or_push_def by (rule keeps_bind[OF push_keeps]) auto

lemma drop_top_keeps: "okc k c \<Longrightarrow> keeps (okc k) (drop_top c)"
  by (auto simp: drop_top_def okc_def split: list.splits)

lemma consume_keeps: "okc k c \<Longrightarrow> keeps (okx k) (consume c)"
  by (auto simp: consume_def okc_def split: list.splits)

lemma concat_loop_keeps: "okc k c \<Longrightarrow> keeps (okc k) (concat_loop n c)"
proof (induction n arbitrary: c)
  case (Suc n)
  show ?case
  proof (cases n)
    case (Suc m)
    have "keeps (okc k) (bind_res (push (CONCATENATION l r) c2) (concat_loop n))"
      if "node_ok r" "node_ok l" "okc k c2" for r l c2
      by (rule keeps_bind[OF push_keeps[OF that(3)]]) (use that Suc.IH in auto)
    then show ?thesis
      using Suc.prems unfolding Suc concat_loop.simps
      by (intro keeps_bind[OF consume_keeps]) (auto intro!: keeps_bind[OF consume_keeps])
  qed (use Suc.prems in simp)
qed simp

lemma concatenate_keeps: "okc k c \<Longrightarrow> keeps (okc k) (concatenate bottom c)"
  by (simp add: concatenate_def push_keeps concat_loop_keeps)

lemma parse_char_class_keeps:
  assumes "okc k c"
  shows "keeps (okr k) (parse_char_class c)"
proof -
  let ?neg = "csp c \<noteq> [] \<and> hd (csp c) = CHR ''^''"
  let ?s = "if ?neg then tl (csp c) else csp c"
  have a: "ascii_str ?s" "length ?s \<le> k" using assms by (cases "csp c"; auto simp: okc_def)+
  show ?thesis
  proof (cases "class_scan True ?s")
    case (Inl e)
    then have "e \<noteq> Out_Of_Depth" using class_scan_rest[of "{Out_Of_Depth}" ?s True] by simp
    then show ?thesis using Inl by (simp add: parse_char_class_def Let_def)
  next
    case (Inr r)
    show ?thesis
    proof (cases r)
      case (Some rest)
      have rest: "ascii_str rest" "length rest \<le> k"
        using class_scan_rest[of "{Out_Of_Depth}" ?s True] Inr Some a by auto
      have "node_ok (CHARACTER_CLASS ?neg ?s)"
        using class_scan_compiles[OF Inr[unfolded Some] a(1)] by (simp add: compile_char_class_def)
      then have "keeps (okc k) (push (CHARACTER_CLASS ?neg ?s) (c\<lparr>csp := rest\<rparr>))"
        using okc_csp[OF assms rest] by (intro push_keeps)
      then show ?thesis using Inr Some
        by (auto simp: parse_char_class_def Let_def intro!: keeps_bind[where Q = "okc k"])
    qed (use Inr in \<open>simp add: parse_char_class_def Let_def\<close>)
  qed
qed

lemma digits_loop_keeps:
  "0 \<le> n \<Longrightarrow> Int_Overflow \<notin> B \<Longrightarrow> avoids B (\<lambda>(v, t). 0 \<le> v \<and> (\<exists>k. t = drop k s)) (digits_loop n s)"
proof (induction n s rule: digits_loop.induct)
  case (2 n c s)
  show ?case
  proof (cases "is_digit c \<and> n * 10 + (schar c - schar CHR ''0'') < 2 ^ 31")
    case True
    have "0 \<le> n * 10 + (schar c - schar CHR ''0'')" using 2(2) True by (simp add: is_digit_def)
    then have "avoids B (\<lambda>(v, t). 0 \<le> v \<and> (\<exists>k. t = drop k s)) (digits_loop (n * 10 + (schar c - schar CHR ''0'')) s)"
      using 2(1) 2(3) True by simp
    then have "avoids B (\<lambda>(v, t). 0 \<le> v \<and> (\<exists>k. t = drop k (c # s))) (digits_loop (n * 10 + (schar c - schar CHR ''0'')) s)"
      by (rule keeps_mono) (auto intro: exI[of _ "Suc _"])
    then show ?thesis using True by (simp add: Let_def)
  qed (use 2(2,3) in \<open>auto simp: Let_def intro: exI[of _ 0]\<close>)
qed (auto intro: exI[of _ 0])

lemma interval_bounds_keeps:
  "Int_Overflow \<notin> B \<Longrightarrow> avoids B (\<lambda>r. \<forall>nmin nmax t. r = Some (nmin, nmax, t) \<longrightarrow> 0 \<le> nmin \<and> (nmax = - 1 \<or> nmin \<le> nmax) \<and> (\<exists>k. t = drop k s))
     (interval_bounds s)"
  unfolding interval_bounds_def
proof (rule keeps_bind[OF digits_loop_keeps], simp, assumption, clarify)
  fix nmin :: int and k
  let ?s = "drop k s"
  assume B: "Int_Overflow \<notin> B" and nmin: "0 \<le> nmin"
  have d: "\<exists>k'. tl (drop j s) = drop k' s" "\<exists>k'. tl (tl (drop j s)) = drop k' s" "\<exists>k'. drop l (drop j s) = drop k' s" for j l
    by (auto simp: tl_drop drop_Suc[symmetric])
  have part: "avoids B (\<lambda>r. \<forall>nmin nmax t. r = Some (nmin, nmax, t) \<longrightarrow> 0 \<le> nmin \<and> (nmax = - 1 \<or> nmin \<le> nmax) \<and> (\<exists>k. t = drop k s))
    (bind_res (digits_loop 0 (tl ?s)) (\<lambda>(nmax, t).
       if length t = length (tl ?s) \<or> hd_char t \<noteq> CHR ''}'' \<or> nmax < nmin then Inr None
       else Inr (Some (nmin, nmax, tl t))))"
    by (rule keeps_bind[OF digits_loop_keeps]) (use nmin B in \<open>auto simp: tl_drop drop_Suc[symmetric]\<close>)
  show "avoids B (\<lambda>r. \<forall>nmin nmax t. r = Some (nmin, nmax, t) \<longrightarrow> 0 \<le> nmin \<and> (nmax = - 1 \<or> nmin \<le> nmax) \<and> (\<exists>k. t = drop k s))
    (if hd_char ?s = CHR '','' then
         (let s' = tl ?s in
          if hd_char s \<noteq> CHR '','' \<and> hd_char s' = CHR ''}'' then Inr (Some (nmin, - 1, tl s'))
          else bind_res (digits_loop 0 s') (\<lambda>(nmax, t).
            if length t = length s' \<or> hd_char t \<noteq> CHR ''}'' \<or> nmax < nmin then Inr None
            else Inr (Some (nmin, nmax, tl t))))
       else if hd_char s \<noteq> CHR ''}'' \<and> hd_char ?s = CHR ''}'' then Inr (Some (nmin, nmin, tl ?s))
       else Inr None)"
    unfolding Let_def by (intro keeps_if part) (use nmin d in auto)
qed

lemma quantify_keeps:
  assumes "okc k c" "0 \<le> nmin" "nmax = - 1 \<or> nmin \<le> nmax"
  shows "keeps (okc k) (quantify nmin nmax c)"
proof -
  have "okc k (if hd_char (csp c) = CHR ''?'' then c\<lparr>csp := tl (csp c)\<rparr> else c)"
    using assms(1) by (cases "csp c") (auto simp: okc_def)
  from consume_keeps[OF this] show ?thesis
    unfolding quantify_def Let_def by (rule keeps_bind) (use assms(2,3) in \<open>auto intro!: push_keeps\<close>)
qed

lemma parse_interval_keeps:
  assumes "okc k c"
  shows "keeps (okr k) (parse_interval c)"
  unfolding parse_interval_def
proof (rule keeps_bind[OF interval_bounds_keeps], simp, split option.split, intro conjI allI impI, simp, clarify)
  fix nmin nmax :: int and t
  assume "\<forall>a b t'. Some (nmin, nmax, t) = Some (a, b, t') \<longrightarrow> 0 \<le> a \<and> (b = - 1 \<or> a \<le> b) \<and> (\<exists>k. t' = drop k (csp c))"
  then obtain d where d: "0 \<le> nmin" "nmax = - 1 \<or> nmin \<le> nmax" "t = drop d (csp c)" by blast
  have "okc k (c\<lparr>csp := t\<rparr>)" using assms d(3) by (auto simp: okc_def ascii_str_drop)
  from quantify_keeps[OF this d(1,2)]
  show "keeps (okr k) (bind_res (quantify nmin nmax (c\<lparr>csp := t\<rparr>)) (\<lambda>c. Inr (Some c)))"
    by (rule keeps_bind) simp
qed

lemma alternate_keeps:
  assumes "okc k c"
  shows "keeps (okr k) (alternate c)"
proof (cases "stack c")
  case (Cons right st)
  show ?thesis
  proof (cases st)
    case (Cons left st')
    have some: "keeps (okr k) (bind_res r (\<lambda>c. Inr (Some c)))" if "keeps (okc k) r" for r
      by (rule keeps_bind[OF that]) simp
    show ?thesis
      unfolding alternate_def \<open>stack c = right # st\<close> Cons list.case
    proof (intro keeps_if some drop_top_keeps[OF assms])
      show "keeps (okr k) (bind_res (consume c) (\<lambda>(x, c). bind_res (drop_top c) (\<lambda>c. or_push (QUANTIFIER 0 1 True x) c)))"
        by (rule keeps_bind[OF consume_keeps[OF assms]])
          (auto intro!: keeps_bind[OF drop_top_keeps] or_push_keeps)
      show "keeps (okr k) (bind_res (drop_top c) (\<lambda>c. bind_res (consume c) (\<lambda>(x, c). or_push (QUANTIFIER 0 1 True x) c)))"
        by (rule keeps_bind[OF drop_top_keeps[OF assms]])
          (auto intro!: keeps_bind[OF consume_keeps] or_push_keeps)
      show "keeps (okr k) (bind_res (consume c) (\<lambda>(r, c). bind_res (consume c) (\<lambda>(l, c). or_push (ALTERNATION l r) c)))"
        by (rule keeps_bind[OF consume_keeps[OF assms]])
          (auto intro!: keeps_bind[OF consume_keeps] or_push_keeps)
    qed
  qed (use Cons in \<open>simp add: alternate_def\<close>)
qed (simp add: alternate_def)

lemma parse_context_keeps: "okc k c \<Longrightarrow> k < n \<Longrightarrow> keeps (okr k) (parse_context n depth bottom c)"
proof (induction n arbitrary: k depth bottom c)
  case (Suc n)
  have some: "keeps (okr k) (bind_res r (\<lambda>c. Inr (Some c)))" if "keeps (okc k) r" for r
    by (rule keeps_bind[OF that]) simp
  show ?case
  proof (cases "csp c")
    case Nil
    then show ?thesis using some[OF concatenate_keeps[OF Suc.prems(1)]] by simp
  next
    case (Cons ch s)
    let ?c = "c\<lparr>csp := s\<rparr>" and ?k = "length s"
    have k: "?k < k" "?k < n" using Suc.prems Cons by (auto simp: okc_def)
    have c: "okc ?k ?c" using Suc.prems(1) Cons by (simp add: okc_def)
    have rec: "keeps (okr k) (parse_context n d b x)" if "okc ?k x" for d b x
      by (rule keeps_mono[OF Suc.IH[OF that k(2)]]) (use k(1) in \<open>auto intro: okc_mono\<close>)
    let ?go = "\<lambda>r. case r of None \<Rightarrow> Inr None | Some x \<Rightarrow> parse_context n depth bottom x"
    have go: "keeps (okr k) (?go r)" if "okr ?k r" for r using that rec by (cases r) auto
    have push: "keeps (okr k) (bind_res (or_push x y) ?go)" if "node_ok x" "okc ?k y" for x y
      by (rule keeps_bind[OF or_push_keeps[OF that(2,1)]]) (rule go)
    have quant: "keeps (okr k) (bind_res (quantify a b ?c) (\<lambda>c. ?go (Some c)))" if "0 \<le> a" "b = - 1 \<or> a \<le> b" for a b
      by (rule keeps_bind[OF quantify_keeps[OF c that]]) (simp add: rec)
    have bar: "keeps (okr k) (bind_res (concatenate bottom ?c) (\<lambda>c.
               bind_res (parse_context n depth (length (stack c)) c) (\<lambda>r.
                 case r of None \<Rightarrow> Inr None | Some c \<Rightarrow> alternate c)))"
    proof (rule keeps_bind[OF concatenate_keeps[OF c]], rule keeps_bind[OF rec], assumption)
      fix r assume "okr k r"
      then show "keeps (okr k) (case r of None \<Rightarrow> Inr None | Some c \<Rightarrow> alternate c)"
        using alternate_keeps by (cases r) auto
    qed
    have group: "keeps (okr k) (bind_res (parse_context n (Suc depth) (length (stack ?c)) ?c) (\<lambda>r.
               case r of
                 None \<Rightarrow> Inr None
               | Some c \<Rightarrow> bind_res (consume c) (\<lambda>(x, c). bind_res (or_push (CAPTURE x) c) ?go)))"
    proof (rule keeps_bind[OF Suc.IH[OF c k(2)]])
      fix r assume r: "okr ?k r"
      show "keeps (okr k) (case r of
                 None \<Rightarrow> Inr None
               | Some c \<Rightarrow> bind_res (consume c) (\<lambda>(x, c). bind_res (or_push (CAPTURE x) c) ?go))"
      proof (cases r)
        case (Some y)
        then have "keeps (okx ?k) (consume y)" using r consume_keeps by simp
        then have "keeps (okr k) (bind_res (consume y) (\<lambda>(x, c). bind_res (or_push (CAPTURE x) c) ?go))"
          by (rule keeps_bind) (use push in auto)
        then show ?thesis using Some by simp
      qed simp
    qed
    have klass: "keeps (okr k) (bind_res (parse_char_class ?c) ?go)"
      by (rule keeps_bind[OF parse_char_class_keeps[OF c]]) (rule go)
    have interval: "keeps (okr k) (bind_res (parse_interval ?c) (\<lambda>r.
        case r of None \<Rightarrow> bind_res (or_push (CHARACTER (schar ch)) ?c) ?go | Some c \<Rightarrow> ?go (Some c)))"
      by (rule keeps_bind[OF parse_interval_keeps[OF c]]) (auto simp: push c rec split: option.split)
    have backslash: "keeps (okr k) (case s of [] \<Rightarrow> Inl Pattern_Overread
        | d # t \<Rightarrow> bind_res (or_push (CHARACTER (schar d)) (?c\<lparr>csp := t\<rparr>)) ?go)"
    proof (cases s)
      case (Cons d t)
      then show ?thesis using c push[of "CHARACTER (schar d)" "?c\<lparr>csp := t\<rparr>"] by (simp add: okc_def)
    qed simp
    have close: "keeps (okr k) (bind_res (concatenate bottom ?c) (\<lambda>c. Inr (Some c)))"
      by (rule keeps_bind[OF concatenate_keeps[OF c]]) (use k(1) in \<open>auto intro: okc_mono\<close>)
    show ?thesis
      unfolding parse_context.simps Cons list.case Let_def
      by (intro keeps_if backslash klass bar group interval close push quant c) simp_all
  qed
qed simp

theorem parsed_nodes:
  assumes "ascii_str p"
  shows "cregex_parse mem p \<noteq> Inl Out_Of_Depth" "cregex_parse mem p = Inr (Some root) \<Longrightarrow> node_ok root"
proof -
  let ?c = "\<lparr>csp = p, stack = [], used = 0, room = estimate_nodes p\<rparr>"
  have "keeps (okr (length p)) (parse_with_nodes p)"
    unfolding parse_with_nodes_def by (rule parse_context_keeps) (use assms in \<open>auto simp: okc_def\<close>)
  then have "keeps (\<lambda>r. \<forall>root. r = Some root \<longrightarrow> node_ok root) (cregex_parse mem p)"
    unfolding cregex_parse_def
    by (intro keeps_if keeps_bind[where Q = "okr (length p)"])
      (auto split: option.split simp: okc_def list_all_iff)
  then show "cregex_parse mem p \<noteq> Inl Out_Of_Depth" "cregex_parse mem p = Inr (Some root) \<Longrightarrow> node_ok root"
    by (auto simp: avoids_def split: sum.splits)
qed

section \<open>The buffer of nodes\<close>

text \<open>
  The nodes still needed with \<open>k\<close> nodes above the bottom of the stack and \<open>n\<close> characters left, and
  the nodes a context holds.
\<close>

definition needed :: "nat \<Rightarrow> nat \<Rightarrow> nat" where
  "needed k n = (if k = 0 then max 1 (2 * n) else 2 * n + k - 1)"

definition nodes :: "regex_parse_context \<Rightarrow> nat" where
  "nodes c = length (stack c) + used c"

abbreviation fits :: "('a \<Rightarrow> bool) \<Rightarrow> regex_fault + 'a \<Rightarrow> bool" where
  "fits \<equiv> avoids {Nodes_Overflow, Stack_Underflow}"

text \<open>A context of the buffer of size \<open>N\<close> with \<open>h\<close> nodes on the stack, \<open>t\<close> nodes in all and \<open>n\<close> characters.\<close>

definition sized :: "nat \<Rightarrow> nat \<Rightarrow> nat \<Rightarrow> nat \<Rightarrow> regex_parse_context \<Rightarrow> bool" where
  "sized N h t n c \<longleftrightarrow> room c = N \<and> length (stack c) = h \<and> nodes c = t \<and> length (csp c) \<le> n"

lemma sized_mono: "sized N h t n c \<Longrightarrow> n \<le> n' \<Longrightarrow> sized N h t n' c"
  by (simp add: sized_def)

lemma push_fits: "sized N h t n c \<Longrightarrow> t < N \<Longrightarrow> fits (sized N (Suc h) (Suc t) n) (push x c)"
  by (auto simp: push_def sized_def nodes_def)

lemma or_push_fits: "sized N h t n c \<Longrightarrow> t < N \<Longrightarrow> fits (\<lambda>r. \<exists>c. r = Some c \<and> sized N (Suc h) (Suc t) n c) (or_push x c)"
  unfolding or_push_def by (rule keeps_bind[OF push_fits]) auto

lemma consume_fits: "sized N (Suc h) t n c \<Longrightarrow> fits (\<lambda>(x, c). sized N h t n c) (consume c)"
  by (auto simp: consume_def sized_def nodes_def split: list.splits)

lemma drop_top_fits: "sized N (Suc h) t n c \<Longrightarrow> fits (sized N h (t - 1) n) (drop_top c)"
  by (auto simp: drop_top_def sized_def nodes_def split: list.splits)

lemma concat_loop_fits: "sized N (h + Suc k) t n c \<Longrightarrow> t + k \<le> N \<Longrightarrow> fits (sized N (Suc h) (t + k) n) (concat_loop (Suc k) c)"
proof (induction k arbitrary: c t)
  case (Suc k)
  have two: "fits (sized N (Suc h) (t + Suc k) n) (bind_res (push (CONCATENATION l r) c2) (concat_loop (Suc k)))"
    if "sized N (h + k) t n c2" for l r c2
    by (rule keeps_bind[OF push_fits[OF that]]) (use Suc.IH[of "Suc t"] Suc.prems(2) in auto)
  show ?case
    unfolding concat_loop.simps
    by (rule keeps_bind[OF consume_fits[of N "h + Suc k" t n]])
      (use Suc.prems(1) two in \<open>auto intro!: keeps_bind[OF consume_fits[of N "h + k" t n]]\<close>)
qed simp

lemma concatenate_fits:
  assumes "sized N (h + k) t n c" "t + needed k 0 \<le> N"
  shows "fits (sized N (Suc h) (t + needed k 0) n) (concatenate h c)"
proof (cases k)
  case 0
  then show ?thesis using assms push_fits[of N h t n c EPSILON] by (auto simp: concatenate_def sized_def needed_def)
next
  case (Suc j)
  then show ?thesis using assms concat_loop_fits[of N h j t n c] by (auto simp: concatenate_def sized_def needed_def)
qed


lemma interval_length:
  assumes "interval_bounds s = Inr (Some (nmin, nmax, t))"
  shows "length t \<le> length s"
  using interval_bounds_keeps[of "{}" s] assms by auto

lemma pushed_fits:
  assumes "sized N h t n c" "t < N"
  shows "fits (\<lambda>r. \<forall>c. r = Some c \<longrightarrow> sized N (Suc h) (Suc t) n c) (bind_res (push x c) (\<lambda>c. Inr (Some c)))"
  by (rule keeps_bind[OF push_fits[OF assms]]) simp

lemma sized_csp: "sized N h t n c \<Longrightarrow> length s \<le> n' \<Longrightarrow> sized N h t n' (c\<lparr>csp := s\<rparr>)"
  by (simp add: sized_def nodes_def)

lemma parse_char_class_fits:
  assumes "sized N h t n c" "t < N"
  shows "fits (\<lambda>r. \<forall>c. r = Some c \<longrightarrow> sized N (Suc h) (Suc t) n c) (parse_char_class c)"
proof -
  let ?neg = "csp c \<noteq> [] \<and> hd (csp c) = CHR ''^''"
  let ?s = "if ?neg then tl (csp c) else csp c"
  have scan: "fits (\<lambda>r. \<forall>rest. r = Some rest \<longrightarrow> length rest \<le> n) (class_scan True ?s)"
    by (rule keeps_mono[OF class_scan_rest]) (use assms(1) in \<open>auto simp: sized_def split: if_splits\<close>)
  show ?thesis
    unfolding parse_char_class_def Let_def
  proof (rule keeps_bind[OF scan])
    fix r :: "cstring option" assume "\<forall>rest. r = Some rest \<longrightarrow> length rest \<le> n"
    then show "fits (\<lambda>r. \<forall>c. r = Some c \<longrightarrow> sized N (Suc h) (Suc t) n c)
      (case r of None \<Rightarrow> Inr None | Some rest \<Rightarrow>
         bind_res (push (CHARACTER_CLASS ?neg ?s) (c\<lparr>csp := rest\<rparr>)) (\<lambda>c. Inr (Some c)))"
      using pushed_fits[OF sized_csp[OF assms(1)] assms(2)] by (cases r) auto
  qed
qed

lemma quantify_fits:
  assumes "sized N (Suc h) t n c" "t < N"
  shows "fits (sized N (Suc h) (Suc t) n) (quantify nmin nmax c)"
proof -
  have "sized N (Suc h) t n (if hd_char (csp c) = CHR ''?'' then c\<lparr>csp := tl (csp c)\<rparr> else c)"
    using assms(1) by (auto simp: sized_def nodes_def)
  from consume_fits[OF this] show ?thesis
    unfolding quantify_def Let_def by (rule keeps_bind) (use push_fits assms(2) in auto)
qed

lemma parse_interval_fits:
  assumes "sized N (Suc h) t n c" "t < N"
  shows "fits (\<lambda>r. \<forall>c. r = Some c \<longrightarrow> sized N (Suc h) (Suc t) n c) (parse_interval c)"
proof -
  have "length (csp c) \<le> n" using assms(1) by (simp add: sized_def)
  then have b: "fits (\<lambda>r. \<forall>a b rest. r = Some (a, b, rest) \<longrightarrow> length rest \<le> n) (interval_bounds (csp c))"
    by (intro keeps_mono[OF interval_bounds_keeps[of "{Nodes_Overflow, Stack_Underflow}" "csp c"]]) auto
  have one: "fits (\<lambda>r. \<forall>c. r = Some c \<longrightarrow> sized N (Suc h) (Suc t) n c)
     (bind_res (quantify a b (c\<lparr>csp := rest\<rparr>)) (\<lambda>c. Inr (Some c)))" if "length rest \<le> n" for a b rest
    by (rule keeps_bind[OF quantify_fits[OF sized_csp[OF assms(1) that] assms(2)]]) simp
  show ?thesis
    unfolding parse_interval_def by (rule keeps_bind[OF b]) (auto split: option.split intro!: one)
qed

text \<open>The result of a context that started with \<open>t\<close> nodes and \<open>n\<close> characters at height \<open>h\<close>.\<close>

definition parsed :: "nat \<Rightarrow> nat \<Rightarrow> nat \<Rightarrow> nat \<Rightarrow> nat \<Rightarrow> regex_parse_context option \<Rightarrow> bool" where
  "parsed N h b n depth r \<longleftrightarrow>
     (\<forall>c. r = Some c \<longrightarrow> sized N (Suc h) (nodes c) n c \<and> nodes c + 2 * length (csp c) \<le> b \<and>
        (0 < depth \<longrightarrow> length (csp c) < n))"

lemma alternate_fits:
  assumes "sized N (Suc (Suc h)) t n c" "t < N"
  shows "fits (\<lambda>r. \<exists>c. r = Some c \<and> (\<exists>t' \<le> Suc t. sized N (Suc h) t' n c)) (alternate c)"
proof -
  obtain right left st where st: "stack c = right # left # st"
    using assms(1) by (cases "stack c"; cases "tl (stack c)") (auto simp: sized_def)
  have drop: "fits (\<lambda>r. \<exists>c. r = Some c \<and> (\<exists>t' \<le> Suc t. sized N (Suc h) t' n c)) (bind_res (drop_top c) (\<lambda>c. Inr (Some c)))"
    by (rule keeps_bind[OF drop_top_fits[OF assms(1)]]) (auto intro: exI[of _ "t - Suc 0"])
  have quant: "fits (\<lambda>r. \<exists>c. r = Some c \<and> (\<exists>t' \<le> Suc t. sized N (Suc h) t' n c)) (or_push x y)"
    if "sized N h (t - 1) n y" for x y
  proof (rule keeps_mono[OF or_push_fits[OF that]])
    fix r assume "\<exists>c. r = Some c \<and> sized N (Suc h) (Suc (t - 1)) n c"
    moreover have "Suc (t - 1) \<le> Suc t" by simp
    ultimately show "\<exists>c. r = Some c \<and> (\<exists>t' \<le> Suc t. sized N (Suc h) t' n c)" by blast
  qed (use assms(2) in simp)
  have alt: "fits (\<lambda>r. \<exists>c. r = Some c \<and> (\<exists>t' \<le> Suc t. sized N (Suc h) t' n c)) (or_push x y)"
    if "sized N h t n y" for x y
    by (rule keeps_mono[OF or_push_fits[OF that assms(2)]]) auto
  show ?thesis
    unfolding alternate_def st list.case
  proof (intro keeps_if drop)
    show "fits (\<lambda>r. \<exists>c. r = Some c \<and> (\<exists>t' \<le> Suc t. sized N (Suc h) t' n c))
       (bind_res (consume c) (\<lambda>(x, c). bind_res (drop_top c) (\<lambda>c. or_push (QUANTIFIER 0 1 True x) c)))"
      by (rule keeps_bind[OF consume_fits[OF assms(1)]]) (auto intro!: keeps_bind[OF drop_top_fits] quant)
    show "fits (\<lambda>r. \<exists>c. r = Some c \<and> (\<exists>t' \<le> Suc t. sized N (Suc h) t' n c))
       (bind_res (drop_top c) (\<lambda>c. bind_res (consume c) (\<lambda>(x, c). or_push (QUANTIFIER 0 1 True x) c)))"
      by (rule keeps_bind[OF drop_top_fits[OF assms(1)]]) (auto intro!: keeps_bind[OF consume_fits] quant)
    show "fits (\<lambda>r. \<exists>c. r = Some c \<and> (\<exists>t' \<le> Suc t. sized N (Suc h) t' n c))
       (bind_res (consume c) (\<lambda>(r, c). bind_res (consume c) (\<lambda>(l, c). or_push (ALTERNATION l r) c)))"
      by (rule keeps_bind[OF consume_fits[OF assms(1)]]) (auto intro!: keeps_bind[OF consume_fits] alt)
  qed
qed

text \<open>A bar with nothing before it and nothing behind it.\<close>

lemma lone_bar_fits:
  assumes c: "sized N h t 0 c" "t + 2 \<le> N"
  shows "fits (parsed N h (t + 2) 0 0) (bind_res (concatenate h c) (\<lambda>c.
               bind_res (parse_context (Suc n) 0 (length (stack c)) c) (\<lambda>r.
                 case r of None \<Rightarrow> Inr None | Some c \<Rightarrow> alternate c)))"
proof -
  have 1: "concatenate h c = Inr (c\<lparr>stack := EPSILON # stack c\<rparr>)"
    using c by (auto simp: concatenate_def push_def sized_def nodes_def)
  have 2: "concatenate (Suc h) (c\<lparr>stack := EPSILON # stack c\<rparr>) = Inr (c\<lparr>stack := EPSILON # EPSILON # stack c\<rparr>)"
    using c by (auto simp: concatenate_def push_def sized_def nodes_def)
  show ?thesis using c 1 2
    by (auto simp: sized_def nodes_def alternate_def drop_top_def parsed_def)
qed

lemma parsed_mono:
  "parsed N h b n depth r \<Longrightarrow> b \<le> b' \<Longrightarrow> n \<le> n' \<Longrightarrow> parsed N h b' n' depth r"
  unfolding parsed_def by (auto intro: sized_mono)

lemma parsed_shorter: "parsed N h b n depth r \<Longrightarrow> b \<le> b' \<Longrightarrow> n < n' \<Longrightarrow> parsed N h b' n' depth' r"
  unfolding parsed_def by (auto intro: sized_mono simp: sized_def)

lemma parse_context_fits:
  "sized N (h + k) t L c \<Longrightarrow> t + needed k L \<le> N \<Longrightarrow> L < n \<Longrightarrow>
    fits (parsed N h (t + needed k L) L depth) (parse_context n depth h c)"
proof (induction n arbitrary: h k t L depth c)
  case (Suc n)
  show ?case
  proof (cases "csp c")
    case Nil
    have "t + needed k 0 \<le> N" "needed k 0 \<le> needed k L" using Suc.prems(2) by (auto simp: needed_def)
    then have "fits (parsed N h (t + needed k L) L 0) (bind_res (concatenate h c) (\<lambda>c. Inr (Some c)))"
      using Suc.prems(1) Nil
      by (intro keeps_bind[OF concatenate_fits[of N h k t 0]]) (auto simp: sized_def parsed_def)
    then show ?thesis using Nil by (cases "depth = 0") (simp, simp add: parsed_def)
  next
    case (Cons ch s)
    then obtain M where L: "L = Suc M" using Suc.prems(1) by (cases L) (auto simp: sized_def)
    let ?c = "c\<lparr>csp := s\<rparr>" and ?post = "parsed N h (t + needed k L) L depth"
    have c: "sized N (h + k) t M ?c" using Suc.prems(1) Cons L by (simp add: sized_def nodes_def)
    have M: "M < n" using Suc.prems(3) L by simp
    have tN: "t < N" using Suc.prems(2) L by (auto simp: needed_def split: if_splits)
    have rec: "fits ?post (parse_context n depth h x)" if "sized N (h + k') t' M x" "t' + needed k' M \<le> t + needed k L" for k' t' x
      by (rule keeps_mono[OF Suc.IH[OF that(1) _ M]]) (use that(2) Suc.prems(2) L in \<open>auto intro: parsed_shorter\<close>)
    let ?go = "\<lambda>r. case r of None \<Rightarrow> Inr None | Some x \<Rightarrow> parse_context n depth h x"
    have leaf: "fits ?post (?go r)" if "\<forall>c. r = Some c \<longrightarrow> sized N (Suc (h + k)) (Suc t) M c" for r
    proof (cases r)
      case (Some x)
      have "Suc t + needed (k + 1) M \<le> t + needed k L" using L by (auto simp: needed_def)
      then show ?thesis using that Some rec[of "k + 1" "Suc t" x] by simp
    qed (simp add: parsed_def)
    have push: "fits ?post (bind_res (or_push x y) ?go)" if "sized N (h + k) t M y" for x y
      by (rule keeps_bind[OF or_push_fits[OF that tN]]) (use leaf in auto)
    have same: "fits ?post (parse_context n depth h x)" if "0 < k" "sized N (h + k) (Suc t) M x" for x
      by (rule rec[OF that(2)]) (use L that(1) in \<open>auto simp: needed_def\<close>)
    have above: "0 < k \<and> h + k = Suc (h + k - 1)" if "length (stack ?c) \<noteq> h"
      using c that by (cases k) (auto simp: sized_def)
    have quant: "fits ?post (bind_res (quantify a b ?c) (\<lambda>c. ?go (Some c)))" if "length (stack ?c) \<noteq> h" for a b
      using above[OF that] quantify_fits[of N "h + k - 1" t M ?c a b] c tN
      by (intro keeps_bind[where Q = "sized N (h + k) (Suc t) M"]) (auto intro: same)
    have bar: "fits ?post (bind_res (concatenate h ?c) (\<lambda>c.
               bind_res (parse_context n depth (length (stack c)) c) (\<lambda>r.
                 case r of None \<Rightarrow> Inr None | Some c \<Rightarrow> alternate c)))" (is "fits ?post ?bar")
    proof (cases "k = 0 \<and> M = 0 \<and> depth = 0")
      case True
      then obtain n' where "n = Suc n'" using M by (cases n) auto
      then have "fits (parsed N h (t + 2) 0 0) ?bar"
        using lone_bar_fits[of N h t ?c n'] c Suc.prems(2) L True by (simp add: needed_def)
      then show ?thesis by (rule keeps_mono) (use True L in \<open>auto simp: needed_def intro: parsed_shorter\<close>)
    next
      case False
      let ?t = "t + needed k 0"
      have t0: "?t \<le> N" using Suc.prems(2) by (auto simp: needed_def split: if_splits)
      have b: "?t + needed 0 M \<le> N" using Suc.prems(2) L by (auto simp: needed_def split: if_splits)
      have fin: "M \<noteq> 0 \<or> k \<noteq> 0 \<Longrightarrow> Suc (?t + needed 0 M) \<le> t + needed k L" using L by (auto simp: needed_def)
      show ?thesis
      proof (rule keeps_bind[OF concatenate_fits[OF c t0]])
        fix y assume y: "sized N (Suc h) ?t M y"
        then have len: "length (stack y) = Suc h" by (simp add: sized_def)
        show "fits ?post (bind_res (parse_context n depth (length (stack y)) y)
            (\<lambda>r. case r of None \<Rightarrow> Inr None | Some c \<Rightarrow> alternate c))"
          unfolding len
        proof (rule keeps_bind[OF Suc.IH[of "Suc h" 0 ?t M y depth]])
          fix r assume r: "parsed N (Suc h) (?t + needed 0 M) M depth r"
          show "fits ?post (case r of None \<Rightarrow> Inr None | Some c \<Rightarrow> alternate c)"
          proof (cases r)
            case (Some z)
            have z: "sized N (Suc (Suc h)) (nodes z) (length (csp z)) z" "nodes z + 2 * length (csp z) \<le> ?t + needed 0 M"
              "length (csp z) \<le> M" "0 < depth \<Longrightarrow> length (csp z) < M"
              using r Some by (auto simp: parsed_def sized_def)
            have ne: "M \<noteq> 0 \<or> k \<noteq> 0" using False z(4) by auto
            have "nodes z < N" using z(2) fin[OF ne] Suc.prems(2) by simp
            from keeps_mono[OF alternate_fits[OF z(1) this], of ?post] show ?thesis
              using Some fin[OF ne] z(2,3) L by (fastforce simp: parsed_def sized_def)
          qed (simp add: parsed_def)
        qed (use y b M in auto)
      qed
    qed
    have hk: "length (stack ?c) = h + k" using c by (simp add: sized_def)
    have group: "fits ?post (bind_res (parse_context n (Suc depth) (length (stack ?c)) ?c) (\<lambda>r.
               case r of
                 None \<Rightarrow> Inr None
               | Some c \<Rightarrow> bind_res (consume c) (\<lambda>(x, c). bind_res (or_push (CAPTURE x) c) ?go)))"
      unfolding hk
    proof (rule keeps_bind[OF Suc.IH[of "h + k" 0 t M ?c "Suc depth"]])
      fix r assume r: "parsed N (h + k) (t + needed 0 M) M (Suc depth) r"
      show "fits ?post (case r of
                 None \<Rightarrow> Inr None
               | Some c \<Rightarrow> bind_res (consume c) (\<lambda>(x, c). bind_res (or_push (CAPTURE x) c) ?go))"
      proof (cases r)
        case (Some z)
        have z: "sized N (Suc (h + k)) (nodes z) (length (csp z)) z" "nodes z + 2 * length (csp z) \<le> t + needed 0 M"
            "length (csp z) < M"
          using r Some by (auto simp: parsed_def sized_def)
        have need: "Suc (nodes z) + needed (k + 1) (length (csp z)) \<le> t + needed k L" "nodes z < N"
          using z(2,3) L Suc.prems(2) by (auto simp: needed_def split: if_splits)
        have "fits ?post (bind_res (or_push (CAPTURE x) y) ?go)" if "sized N (h + k) (nodes z) (length (csp z)) y" for x y
        proof (rule keeps_bind[OF or_push_fits[OF that need(2)]])
          fix r assume "\<exists>c. r = Some c \<and> sized N (Suc (h + k)) (Suc (nodes z)) (length (csp z)) c"
          then obtain w where w: "r = Some w" "sized N (h + (k + 1)) (Suc (nodes z)) (length (csp z)) w" by auto
          have "fits (parsed N h (Suc (nodes z) + needed (k + 1) (length (csp z))) (length (csp z)) depth) (parse_context n depth h w)"
            by (rule Suc.IH[OF w(2)]) (use need Suc.prems(2) z(3) M in auto)
          then have "fits ?post (parse_context n depth h w)"
            by (rule keeps_mono) (use need(1) z(3) L in \<open>auto intro: parsed_shorter\<close>)
          then show "fits ?post (?go r)" using w(1) by simp
        qed
        then show ?thesis using Some by (auto intro!: keeps_bind[OF consume_fits[OF z(1)]])
      qed (simp add: parsed_def)
    qed (use c Suc.prems(2) L M in \<open>auto simp: sized_def needed_def split: if_splits\<close>)
    have klass: "fits ?post (bind_res (parse_char_class ?c) ?go)"
      by (rule keeps_bind[OF parse_char_class_fits[OF c tN]]) (rule leaf, simp)
    have interval: "fits ?post (bind_res (parse_interval ?c) (\<lambda>r.
        case r of None \<Rightarrow> bind_res (or_push (CHARACTER (schar ch)) ?c) ?go | Some c \<Rightarrow> ?go (Some c)))"
      if "length (stack ?c) \<noteq> h"
    proof (rule keeps_bind[OF parse_interval_fits[of N "h + k - 1" t M]])
      fix r assume "\<forall>c. r = Some c \<longrightarrow> sized N (Suc (h + k - 1)) (Suc t) M c"
      then show "fits ?post (case r of None \<Rightarrow> bind_res (or_push (CHARACTER (schar ch)) ?c) ?go | Some c \<Rightarrow> ?go (Some c))"
        using above[OF that] same push[OF c] by (cases r) auto
    qed (use above[OF that] c tN in auto)
    have backslash: "fits ?post (case s of [] \<Rightarrow> Inl Pattern_Overread
        | d # t \<Rightarrow> bind_res (or_push (CHARACTER (schar d)) (?c\<lparr>csp := t\<rparr>)) ?go)"
    proof (cases s)
      case (Cons d v)
      have "sized N (h + k) t M (?c\<lparr>csp := v\<rparr>)" using c Cons by (simp add: sized_def nodes_def)
      then show ?thesis using push[of "?c\<lparr>csp := v\<rparr>" "CHARACTER (schar d)"] Cons by simp
    qed simp
    have close: "fits ?post (bind_res (concatenate h ?c) (\<lambda>c. Inr (Some c)))"
    proof (rule keeps_bind[OF concatenate_fits[OF c]])
      show "t + needed k 0 \<le> N" using Suc.prems(2) by (auto simp: needed_def split: if_splits)
      fix y assume "sized N (Suc h) (t + needed k 0) M y"
      then show "fits ?post (Inr (Some y))" using L by (auto simp: parsed_def sized_def needed_def split: if_splits)
    qed
    show ?thesis
      unfolding parse_context.simps Cons list.case Let_def
      by (intro keeps_if backslash klass bar group interval close push quant c)
        (simp_all add: parsed_def)
  qed
qed simp

lemma parse_fits:
  assumes "p \<noteq> []"
  shows "fits (\<lambda>r. True) (cregex_parse mem p)"
proof -
  let ?c = "\<lparr>csp = p, stack = [], used = 0, room = estimate_nodes p\<rparr>"
  have f: "fits (parsed (estimate_nodes p) 0 (0 + needed 0 (length p)) (length p) 0) (parse_with_nodes p)"
    unfolding parse_with_nodes_def
    by (rule parse_context_fits[where k = 0])
      (use assms in \<open>auto simp: sized_def nodes_def needed_def estimate_nodes_def Suc_le_eq\<close>)
  show ?thesis
    unfolding cregex_parse_def
    by (intro keeps_if keeps_bind[OF f]) (auto split: option.split simp: parsed_def sized_def)
qed

end
