(* ===== verification/RegexSearch.thy ===== *)
theory RegexSearch
  imports RegexRun RegexNodes
begin

text \<open>
  From a pattern to an answer: what \<open>cregex_parse\<close>, \<open>cregex_compile_node\<close> and \<open>cregex_program_run\<close> do
  together, and the patterns without special characters, for which they search for a substring.
\<close>

section \<open>Any pattern\<close>

lemma ascii_str_nth: "ascii_str s \<Longrightarrow> i < length s \<Longrightarrow> ascii (s ! i)"
  by (simp add: ascii_str_def list_all_length)

lemma compile_total:
  assumes "node_ok root"
  obtains P where "cregex_compile_node True root = Inr (Some P)" "compile_node_with_program root = Inr P"
    "length P = estimate_instructions root" "program_ok P"
proof -
  obtain code n where "compile_context (program_node root) 0 0 = Inr (code, n)"
    using compile_emits[OF node_ok_program[THEN iffD2, OF assms]] unfolding emits_def by blast
  then have c: "compile_node_with_program root = Inr (code @ [OP_MATCH])" by (simp add: compile_node_with_program_def)
  from compiled_program[OF assms c] have "length (code @ [OP_MATCH]) = estimate_instructions root"
    "program_ok (code @ [OP_MATCH])" using program_ok_compiled by (metis)+
  then show thesis using that[of "code @ [OP_MATCH]"] c by (simp add: cregex_compile_node_def)
qed

lemma run_result:
  assumes "program_ok P" "is_cstr s" "ascii_str s"
  shows "\<exists>mt m'. vm_run_with_threads P s beyond m nm = Some (mt, m') \<and>
    (mt \<longleftrightarrow> (\<exists>q i tm. accepted P s nm (0, 0, take_slots nm m) q i tm)) \<and>
    (mt \<longrightarrow> seen P s nm (0, 0, take_slots nm m) m')"
proof -
  let ?e = "\<lparr>visited = (\<lambda>pc. 0), threads = []\<rparr>" and ?c = "(0, 0, take_slots nm m)"
  have P: "0 < length P" using assms(1) by (simp add: program_ok_def)
  have e: "closed P s nm ?c 0 ?e" by (rule closed_fresh) simp_all
  from closed_add[OF e assms(1,2) _ P, of m beyond] obtain l where l: "vm_add_thread P s beyond nm 0 0 m ?e = Some l"
    "closed P s nm ?c 0 l" "0 \<in> marked 0 l" by auto
  have co: "complete_at P s nm ?c 0 l" by (rule complete_start[OF l(2,3)])
  have pr: "progress P s nm ?c 0 False m" by (simp add: progress_def)
  from vm_loop_ok[OF assms refl, of 0 s nm "take_slots nm m" l ?e False m beyond] l(1,2) co pr
  show ?thesis by (simp add: vm_run_with_threads_def)
qed


definition demo_node :: cregex_node where
  "demo_node = CONCATENATION (CHARACTER 97) (CONCATENATION
     (QUANTIFIER 0 (- 1) True (CAPTURE (ALTERNATION (CHARACTER 98) (CHARACTER 99)))) (CHARACTER 100))"

lemma demo_parse: "cregex_parse True ''a(b|c)*d'' = Inr (Some demo_node)"
  by code_simp


text \<open>
  When a run answers 1 and has room for two positions, the first two are the start and the end
  of a match of the pattern in the string.
\<close>

theorem regex_positions_ok:
  assumes p: "cregex_parse True p = Inr (Some root)" "ascii_str p" and s: "is_cstr s" "ascii_str s"
    and c: "cregex_compile_node True root = Inr (Some P)" and nm: "2 \<le> nm"
    and r: "cregex_program_run True P s beyond m nm = Some (1, m')"
  shows "\<exists>i j. m' 0 = Some i \<and> m' 1 = Some j \<and> i \<le> j \<and> j \<le> length s \<and> tried_at root i \<and> rmatch root s i j"
proof -
  have ok: "node_ok root" by (rule parsed_nodes(2)[OF p(2,1)])
  have c': "compile_node_with_program root = Inr P"
    using c by (auto simp: cregex_compile_node_def bind_res_Inr)
  have P: "program_ok P" using compile_total[OF ok] c' by (metis Inr_inject)
  from run_result[OF P s, of beyond m nm] r have "seen P s nm (0, 0, take_slots nm m) m'"
    by (auto simp: cregex_program_run_def of_bool_def split: if_splits)
  then obtain q e tm where a: "accepted P s nm (0, 0, take_slots nm m) q e tm"
    "\<forall>k < min nm REGEX_VM_MAX_MATCHES. m' k = tm k" unfolding seen_def by blast
  from accepted_captures[OF ok c' s(2) a(1) nm] obtain i j where
    ij: "i \<le> length s" "tried_at root i" "rmatch root s i j" "tm 0 = Some i" "tm 1 = Some j" by blast
  have "m' 0 = Some i" "m' 1 = Some j" using a(2) ij(4,5) nm by (auto simp: REGEX_VM_MAX_MATCHES_def)
  then show ?thesis using ij rmatch_bounds[OF ij(3,1)] by blast
qed

lemma regex_positions_ok_witness:
  "\<exists>m' i j. cregex_program_run True [OP_SPLIT 3 1, OP_ANY_CHARACTER, OP_JUMP 0, OP_SAVE 0, OP_CHARACTER 97,
      OP_CHARACTER 98, OP_SAVE 1, OP_MATCH] ''xab'' EOS (\<lambda>k. None) 20 = Some (1, m') \<and>
    m' 0 = Some i \<and> m' 1 = Some j \<and> i \<le> j \<and> j \<le> 3 \<and> rmatch (CONCATENATION (CHARACTER 97) (CHARACTER 98)) ''xab'' i j"
proof -
  let ?P = "[OP_SPLIT 3 1, OP_ANY_CHARACTER, OP_JUMP 0, OP_SAVE 0, OP_CHARACTER 97, OP_CHARACTER 98, OP_SAVE 1, OP_MATCH]"
  let ?root = "CONCATENATION (CHARACTER 97) (CHARACTER 98)"
  have p: "cregex_parse True ''ab'' = Inr (Some ?root)" by code_simp
  have s: "ascii_str ''ab''" "is_cstr ''xab''" "ascii_str ''xab''" by code_simp+
  have c: "cregex_compile_node True ?root = Inr (Some ?P)" by code_simp
  have "map_option fst (cregex_program_run True ?P ''xab'' EOS (\<lambda>k. None) 20) = Some 1" by code_simp
  then obtain m' where m': "cregex_program_run True ?P ''xab'' EOS (\<lambda>k. None) 20 = Some (1, m')" by auto
  from regex_positions_ok[OF p s c _ m'] show ?thesis using m' by fastforce
qed

text \<open>
  A pattern of at least one character takes at most the nodes that \<open>estimate_nodes\<close> counts, never
  takes a node from an empty stack, and is read by a recursion bounded by its length.
\<close>

theorem parse_nodes_fit:
  assumes "p \<noteq> []" "ascii_str p"
  shows "cregex_parse mem p \<notin> {Inl Nodes_Overflow, Inl Stack_Underflow, Inl Out_Of_Depth}"
  using parse_fits[OF assms(1), of mem] parsed_nodes(1)[OF assms(2), of mem] by auto

lemma parse_nodes_fit_witness:
  "cregex_parse True ''(a|)+x{2}|'' \<notin> {Inl Nodes_Overflow, Inl Stack_Underflow, Inl Out_Of_Depth}"
  by (rule parse_nodes_fit) (simp, code_simp)

text \<open>
  An anchor inside of an optional part anchors the whole pattern: \<open>(^a)?b\<close> matches in \<open>xb\<close>, but the
  search is tried at the start of the string only and answers 0.
\<close>

theorem optional_anchor_missed:
  "\<exists>root P m'. cregex_parse True ''(^a)?b'' = Inr (Some root) \<and> rmatch root ''xb'' 1 2 \<and>
    cregex_compile_node True root = Inr (Some P) \<and> cregex_program_run True P ''xb'' EOS (\<lambda>k. None) 20 = Some (0, m')"
proof -
  let ?q = "QUANTIFIER 0 1 True (CAPTURE (CONCATENATION ANCHOR_BEGIN (CHARACTER 97)))"
  let ?root = "CONCATENATION ?q (CHARACTER 98)"
  let ?P = "[OP_SAVE 0, OP_SPLIT 2 6, OP_SAVE 2, OP_ASSERT_BEGIN, OP_CHARACTER 97, OP_SAVE 3, OP_CHARACTER 98, OP_SAVE 1, OP_MATCH]"
  have p: "cregex_parse True ''(^a)?b'' = Inr (Some ?root)" by code_simp
  have c: "cregex_compile_node True ?root = Inr (Some ?P)" by code_simp
  have "map_option fst (cregex_program_run True ?P ''xb'' EOS (\<lambda>k. None) 20) = Some 0" by code_simp
  then obtain m' where r: "cregex_program_run True ?P ''xb'' EOS (\<lambda>k. None) 20 = Some (0, m')" by auto
  have "rmatch ?q ''xb'' 1 1" unfolding rmatch.simps by (rule exI[of _ 0]) simp
  moreover have "rmatch (CHARACTER 98) ''xb'' 1 2" by (simp add: schar_def uchar_def)
  ultimately have "rmatch ?root ''xb'' 1 2" unfolding rmatch.simps by blast
  then show ?thesis using p c r by blast
qed

section \<open>Patterns without special characters\<close>

definition plain_char :: "c_char \<Rightarrow> bool" where
  "plain_char c \<longleftrightarrow> c \<notin> set ''.[|?*+{^$()'' \<and> c \<noteq> BACKSLASH"

fun literal :: "cstring \<Rightarrow> cregex_node" where
  "literal [] = EPSILON"
| "literal [c] = CHARACTER (schar c)"
| "literal (c # d # w) = CONCATENATION (CHARACTER (schar c)) (literal (d # w))"

lemma literal_Cons: "w \<noteq> [] \<Longrightarrow> literal (c # w) = CONCATENATION (CHARACTER (schar c)) (literal w)"
  by (cases w) auto

lemma parse_plain:
  "list_all plain_char w \<Longrightarrow> length w < n \<Longrightarrow> length (stack c) + used c + length w \<le> room c \<Longrightarrow>
    csp c = w \<Longrightarrow>
    parse_context n 0 bottom c =
      bind_res (concatenate bottom (c\<lparr>csp := [], stack := rev (map (\<lambda>ch. CHARACTER (schar ch)) w) @ stack c\<rparr>)) (\<lambda>c. Inr (Some c))"
proof (induction w arbitrary: n c)
  case Nil
  then show ?case by (cases n; cases c) auto
next
  case (Cons ch w)
  then obtain n' where n: "n = Suc n'" by (cases n) auto
  let ?c = "c\<lparr>csp := w, stack := CHARACTER (schar ch) # stack c\<rparr>"
  have "parse_context n 0 bottom c = parse_context n' 0 bottom ?c"
    using Cons.prems n by (auto simp: plain_char_def or_push_def push_def Let_def)
  then show ?case using Cons.IH[of n' ?c] Cons.prems n by simp
qed

lemma concat_literal:
  "v \<noteq> [] \<Longrightarrow> stack c = literal v # rev (map (\<lambda>ch. CHARACTER (schar ch)) w) \<Longrightarrow> used c + 2 * length w < room c \<Longrightarrow>
    \<exists>c'. concat_loop (Suc (length w)) c = Inr c' \<and> stack c' = [literal (w @ v)]"
proof (induction w arbitrary: v c rule: rev_induct)
  case (snoc x w)
  let ?c = "c\<lparr>used := used c + 2, stack := literal (x # v) # rev (map (\<lambda>ch. CHARACTER (schar ch)) w)\<rparr>"
  have "concat_loop (Suc (length (w @ [x]))) c = concat_loop (Suc (length w)) ?c"
    using snoc.prems by (simp add: consume_def push_def literal_Cons)
  then show ?case using snoc.IH[of "x # v" ?c] snoc.prems by simp
qed simp

lemma parse_literal:
  assumes "list_all plain_char w" "w \<noteq> []"
  shows "cregex_parse True w = Inr (Some (literal w))"
proof -
  obtain u x where w: "w = u @ [x]" using assms(2) by (cases w rule: rev_cases) auto
  let ?c = "\<lparr>csp = w, stack = [], used = 0, room = estimate_nodes w\<rparr>"
  let ?d = "?c\<lparr>csp := [], stack := rev (map (\<lambda>ch. CHARACTER (schar ch)) w)\<rparr>"
  have "parse_with_nodes w = bind_res (concatenate 0 ?d) (\<lambda>c. Inr (Some c))"
    unfolding parse_with_nodes_def using parse_plain[OF assms(1), of "length w + 1" ?c 0] by (simp add: estimate_nodes_def)
  moreover obtain c' where "concat_loop (Suc (length u)) ?d = Inr c'" "stack c' = [literal (u @ [x])]"
    using concat_literal[of "[x]" ?d u] w by (auto simp: estimate_nodes_def)
  ultimately show ?thesis using w by (simp add: cregex_parse_def concatenate_def)
qed

lemma schar_inject: "schar c = schar d \<longleftrightarrow> c = d"
proof
  assume "schar c = schar d"
  then have "uchar c = uchar d" using uchar_less[of c] uchar_less[of d]
    by (auto simp: schar_def Let_def split: if_splits)
  then show "c = d" by simp
qed simp

lemma occurs_at_Cons: "occurs_at (c # w) s i \<longleftrightarrow> i < length s \<and> s ! i = c \<and> (w = [] \<or> occurs_at w s (Suc i))"
proof (cases "i < length s")
  case True
  then show ?thesis by (auto simp: occurs_at_def Cons_nth_drop_Suc[symmetric])
qed (use occurs_at_hd in blast)

lemma rmatch_literal: "w \<noteq> [] \<Longrightarrow> rmatch (literal w) s i j \<longleftrightarrow> j = i + length w \<and> occurs_at w s i"
proof (induction w arbitrary: i rule: literal.induct)
  case (3 c d w)
  then show ?case using occurs_at_Cons[of c "d # w" s i] by (auto simp: schar_inject)
qed (auto simp: occurs_at_Cons schar_inject)

lemma literal_not_anchored: "\<not> node_is_anchored (literal w)"
  by (induction w rule: literal.induct) auto

lemma node_ok_literal: "node_ok (literal w)"
  by (induction w rule: literal.induct) auto

text \<open>
  For a pattern without special characters the three functions together are the substring search
  \<open>lib_strstr\<close>.
\<close>

theorem regex_literal_ok:
  assumes w: "w \<noteq> []" "list_all plain_char w" "is_cstr w" and s: "is_cstr s" "ascii_str s"
  shows "\<exists>root P m'. cregex_parse True w = Inr (Some root) \<and> cregex_compile_node True root = Inr (Some P) \<and>
    cregex_program_run True P s beyond m nm = Some (if lib_strstr s w \<noteq> None then 1 else 0, m')"
proof -
  from compile_total[OF node_ok_literal] obtain P where P: "cregex_compile_node True (literal w) = Inr (Some P)"
    "compile_node_with_program (literal w) = Inr P" "program_ok P" by metis
  from run_result[OF P(3) s, of beyond m nm] obtain mt m' where r: "vm_run_with_threads P s beyond m nm = Some (mt, m')"
    "mt \<longleftrightarrow> (\<exists>q i tm. accepted P s nm (0, 0, take_slots nm m) q i tm)" by blast
  have "mt \<longleftrightarrow> (\<exists>i. occurs_at w s i)"
    unfolding r(2) run_verdict[OF node_ok_literal P(2) s]
    using literal_not_anchored[of w] by (auto simp: tried_at_def rmatch_literal[OF w(1)] occurs_at_def)
  also have "\<dots> \<longleftrightarrow> lib_strstr s w \<noteq> None"
    using w(1,3) s(1) strstr_loop_spec[of s "hd w" "tl w"] by (cases w) (auto simp: lib_strstr_def split: option.splits)
  finally have "cregex_program_run True P s beyond m nm = Some (if lib_strstr s w \<noteq> None then 1 else 0, m')"
    by (simp add: cregex_program_run_def r(1))
  then show ?thesis using P(1) parse_literal[OF w(2,1)] by blast
qed

lemma regex_literal_ok_witness:
  "\<exists>root P m'. cregex_parse True ''ab'' = Inr (Some root) \<and> cregex_compile_node True root = Inr (Some P) \<and>
    cregex_program_run True P ''xab'' EOS (\<lambda>k. None) 20 = Some (if lib_strstr ''xab'' ''ab'' \<noteq> None then 1 else 0, m')"
  by (rule regex_literal_ok) (simp, code_simp, code_simp, code_simp, code_simp)

section \<open>Patterns that the parser does not survive\<close>

lemma plain_backslash:
  "list_all plain_char w \<Longrightarrow> length w < n \<Longrightarrow> length (stack c) + used c + length w \<le> room c \<Longrightarrow> csp c = w @ [BACKSLASH] \<Longrightarrow>
    parse_context n 0 bottom c = Inl Pattern_Overread"
proof (induction w arbitrary: n c)
  case Nil
  then show ?case by (cases n) auto
next
  case (Cons ch w)
  then obtain n' where n: "n = Suc n'" by (cases n) auto
  let ?c = "c\<lparr>csp := w @ [BACKSLASH], stack := CHARACTER (schar ch) # stack c\<rparr>"
  have "parse_context n 0 bottom c = parse_context n' 0 bottom ?c"
    using Cons.prems n by (auto simp: plain_char_def or_push_def push_def Let_def)
  then show ?case using Cons.IH[of n' ?c] Cons.prems n by simp
qed

text \<open>
  The empty pattern writes a node behind a buffer of no nodes, and a pattern of plain characters
  that ends with a backslash is read behind its end.
\<close>

theorem parse_faults:
  assumes w: "list_all plain_char w"
  shows "cregex_parse True [] = Inl Nodes_Overflow \<and> cregex_parse True (w @ [BACKSLASH]) = Inl Pattern_Overread"
proof
  show "cregex_parse True [] = Inl Nodes_Overflow" by code_simp
  have "parse_with_nodes (w @ [BACKSLASH]) = Inl Pattern_Overread"
    unfolding parse_with_nodes_def by (rule plain_backslash[OF w]) (auto simp: estimate_nodes_def)
  then show "cregex_parse True (w @ [BACKSLASH]) = Inl Pattern_Overread" by (simp add: cregex_parse_def)
qed

lemma parse_faults_witness:
  "cregex_parse True [] = Inl Nodes_Overflow \<and> cregex_parse True (''ab'' @ [BACKSLASH]) = Inl Pattern_Overread"
  by (rule parse_faults) code_simp

end
