(* ===== verification/Grep.thy ===== *)
theory Grep
  imports RegexSearch "HOL-Library.Sublist"
begin

text \<open>
  The \<open>grep\<close> of \<open>shell/ttinyShell/ttinyShellSysCmd.c\<close>: the fixed-string search of \<open>pre\<close> and \<open>find\<close>, the
  loop \<open>getMatchesRegex\<close> around the regular expressions, and the command itself, whose output is the
  list of the calls it makes to \<open>API_TShellColorStart2\<close>, \<open>API_TShellColorEnd\<close>, \<open>printf\<close> and \<open>putchar\<close>.

  The arrays on the stack have the sizes of the code: \<open>next\<close> 1000, \<open>positionsBuffer\<close> and
  \<open>lengthBuffer\<close> 100.  Going behind or before them is a fault; so is a loop that does not end.
\<close>

datatype grep_fault = Next_Overflow | Next_Underflow | Positions_Overflow | Uninitialised | Endless
  | Null_Node | Regex_Fault regex_fault | No_Return

definition NEXT_SIZE :: nat where "NEXT_SIZE = 1000"

definition POSITIONS_SIZE :: nat where "POSITIONS_SIZE = 100"

section \<open>Fixed strings\<close>

definition char_at :: "cstring \<Rightarrow> nat \<Rightarrow> c_char" where
  "char_at t i = (if i < length t then t ! i else EOS)"

text \<open>The inner loop; the first argument bounds its iterations.\<close>

fun kmp_back :: "nat \<Rightarrow> cstring \<Rightarrow> nat list \<Rightarrow> c_char \<Rightarrow> nat \<Rightarrow> grep_fault + nat" where
  "kmp_back 0 target buf c index = Inl Endless"
| "kmp_back (Suc n) target buf c index =
     (if index = 0 \<or> c = char_at target index then Inr index
      else if index - 1 < length buf then kmp_back n target buf c (buf ! (index - 1))
      else Inl Uninitialised)"

text \<open>The entries of \<open>buf\<close> written so far, the next character is the one at \<open>i = length buf\<close>.\<close>

fun pre_loop :: "cstring \<Rightarrow> cstring \<Rightarrow> nat \<Rightarrow> nat list \<Rightarrow> grep_fault + nat list" where
  "pre_loop target [] index buf = Inr buf"
| "pre_loop target (c # cs) index buf =
     bind_res (kmp_back (Suc (length buf)) target buf c index) (\<lambda>index.
       let index = (if char_at target index = c then index + 1 else index) in
       pre_loop target cs index (buf @ [index]))"

definition pre :: "cstring \<Rightarrow> grep_fault + nat list" where
  "pre target = pre_loop target (tl target) 0 [0]"

fun find_loop :: "cstring \<Rightarrow> nat list \<Rightarrow> cstring \<Rightarrow> nat \<Rightarrow> nat \<Rightarrow> nat list \<Rightarrow> grep_fault + nat list" where
  "find_loop target nxt [] i index pos = Inr pos"
| "find_loop target nxt (c # cs) i index pos =
     bind_res (kmp_back (Suc (length target)) target nxt c index) (\<lambda>index.
       let index = (if char_at target index = c then index + 1 else index) in
       if index = length target then
         (if index = 0 then Inl Next_Underflow
          else if length pos \<ge> POSITIONS_SIZE then Inl Positions_Overflow
          else find_loop target nxt cs (i + 1) (nxt ! (index - 1)) (pos @ [i + 1 - length target]))
       else find_loop target nxt cs (i + 1) index pos)"

definition find_all :: "cstring \<Rightarrow> cstring \<Rightarrow> grep_fault + nat list" where
  "find_all list target =
     (if length target > NEXT_SIZE then Inl Next_Overflow
      else bind_res (pre target) (\<lambda>nxt. find_loop target nxt list 0 0 []))"

subsection \<open>The table and the search are right\<close>

text \<open>\<open>k\<close> is the length, at most \<open>b\<close>, of the longest start of the target that ends the text \<open>u\<close>.\<close>

definition best :: "cstring \<Rightarrow> cstring \<Rightarrow> nat \<Rightarrow> nat \<Rightarrow> bool" where
  "best t u b k \<longleftrightarrow> k \<le> b \<and> suffix (take k t) u \<and> (\<forall>j \<le> b. suffix (take j t) u \<longrightarrow> j \<le> k)"

definition table_ok :: "cstring \<Rightarrow> nat list \<Rightarrow> bool" where
  "table_ok t buf \<longleftrightarrow> (\<forall>j < length buf. best t (take (Suc j) t) j (buf ! j))"

lemma kmp_back_ok:
  "k < n \<Longrightarrow> k \<le> b \<Longrightarrow> b < length t \<Longrightarrow> k \<le> length buf \<Longrightarrow> table_ok t buf \<Longrightarrow> suffix (take k t) u \<Longrightarrow>
    \<forall>j \<le> b. suffix (take j t) u \<and> t ! j = c \<longrightarrow> j \<le> k \<Longrightarrow>
    \<exists>r. kmp_back n t buf c k = Inr r \<and> r \<le> k \<and> suffix (take r t) u \<and> (r = 0 \<or> t ! r = c) \<and>
      (\<forall>j \<le> b. suffix (take j t) u \<and> t ! j = c \<longrightarrow> j \<le> r)"
proof (induction n arbitrary: k)
  case (Suc n)
  show ?case
  proof (cases "k = 0 \<or> c = t ! k")
    case True
    then show ?thesis using Suc.prems by (auto simp: char_at_def)
  next
    case False
    let ?k = "buf ! (k - 1)"
    have b: "best t (take k t) (k - 1) ?k"
      using Suc.prems(4,5) False unfolding table_ok_def by (metis Suc_pred' Suc_le_eq neq0_conv)
    have "suffix (take ?k t) u" using b Suc.prems(6) suffix_order.trans unfolding best_def by blast
    moreover have "\<forall>j \<le> b. suffix (take j t) u \<and> t ! j = c \<longrightarrow> j \<le> ?k"
    proof (intro allI impI)
      fix j assume j: "j \<le> b" "suffix (take j t) u \<and> t ! j = c"
      then have "j \<le> k" "j \<noteq> k" using Suc.prems(7) False by auto
      then have "j \<le> k - 1" by simp
      moreover have "suffix (take j t) (take k t)"
        using j(2) Suc.prems(6) \<open>j \<le> k\<close> by (auto intro: suffix_length_suffix)
      ultimately show "j \<le> ?k" using b unfolding best_def by blast
    qed
    moreover have "?k < n" "?k \<le> b" "?k \<le> length buf" using b Suc.prems(1,2,4) False unfolding best_def by auto
    ultimately have "\<exists>r. kmp_back n t buf c ?k = Inr r \<and> r \<le> ?k \<and> suffix (take r t) u \<and> (r = 0 \<or> t ! r = c) \<and>
      (\<forall>j \<le> b. suffix (take j t) u \<and> t ! j = c \<longrightarrow> j \<le> r)" using Suc.IH[of ?k] Suc.prems(3,5) by blast
    then show ?thesis using False Suc.prems b unfolding best_def by (auto simp: char_at_def)
  qed
qed simp

lemma suffix_snoc_take:
  "m < length t \<Longrightarrow> suffix (take (Suc m) t) (u @ [c]) \<longleftrightarrow> suffix (take m t) u \<and> t ! m = c"
  by (auto simp: take_Suc_conv_app_nth)

lemma kmp_step:
  assumes "best t u b k" "b < length t" "k \<le> length buf" "k < n" "table_ok t buf"
  shows "\<exists>r. kmp_back n t buf c k = Inr r \<and>
    best t (u @ [c]) (Suc b) (if char_at t r = c then r + 1 else r)"
proof -
  from kmp_back_ok[of k n b t buf u c] assms obtain r where r: "kmp_back n t buf c k = Inr r" "r \<le> k"
    "suffix (take r t) u" "r = 0 \<or> t ! r = c" "\<forall>j \<le> b. suffix (take j t) u \<and> t ! j = c \<longrightarrow> j \<le> r"
    unfolding best_def by auto
  have rb: "r \<le> b" using r(2) assms(1) by (simp add: best_def)
  then have at: "char_at t r = t ! r" using assms(2) by (simp add: char_at_def)
  have "j \<le> (if t ! r = c then r + 1 else r)" if j: "j \<le> Suc b" "suffix (take j t) (u @ [c])" for j
  proof (cases j)
    case (Suc m)
    then have "suffix (take m t) u \<and> t ! m = c" using suffix_snoc_take[of m t u c] j assms(2) by auto
    then have "m \<le> r" using r(5) j(1) Suc by auto
    then show ?thesis using r(4) \<open>suffix (take m t) u \<and> t ! m = c\<close> Suc by auto
  qed simp
  moreover have "suffix (take (if t ! r = c then r + 1 else r) t) (u @ [c])"
    using suffix_snoc_take[of r t u c] r(3,4) rb assms(2) by auto
  ultimately have "best t (u @ [c]) (Suc b) (if t ! r = c then r + 1 else r)"
    using rb unfolding best_def by (intro conjI allI impI) simp_all
  then show ?thesis using r(1) at by auto
qed

lemma pre_loop_ok:
  "buf \<noteq> [] \<Longrightarrow> cs = drop (length buf) t \<Longrightarrow> length buf \<le> length t \<Longrightarrow> table_ok t buf \<Longrightarrow>
    best t (take (length buf) t) (length buf - 1) k \<Longrightarrow>
    \<exists>nxt. pre_loop t cs k buf = Inr nxt \<and> length nxt = length t \<and> table_ok t nxt"
proof (induction cs arbitrary: buf k)
  case (Cons c cs)
  let ?i = "length buf"
  have i1: "?i < length t" using Cons.prems(2) by (cases "?i < length t") auto
  have i: "t ! ?i = c" "cs = drop (Suc ?i) t" using Cons.prems(2) Cons_nth_drop_Suc[OF i1] by (metis list.inject)+
  have b: "?i - 1 < length t" "k \<le> ?i" "k < Suc ?i" "Suc (?i - 1) = ?i"
    using i1 Cons.prems(1,5) by (auto simp: best_def)
  from kmp_step[OF Cons.prems(5) b(1,2,3) Cons.prems(4), of c] obtain r where r: "kmp_back (Suc ?i) t buf c k = Inr r"
    "best t (take (Suc ?i) t) ?i (if char_at t r = c then r + 1 else r)"
    using b(4) i1 i(1) by (auto simp: take_Suc_conv_app_nth)
  let ?k = "if char_at t r = c then r + 1 else r"
  have "table_ok t (buf @ [?k])" using Cons.prems(4) r(2) by (auto simp: table_ok_def nth_append less_Suc_eq)
  then have "\<exists>nxt. pre_loop t cs ?k (buf @ [?k]) = Inr nxt \<and> length nxt = length t \<and> table_ok t nxt"
    using Cons.IH[of "buf @ [?k]" ?k] i1 i(2) r(2) by simp
  then show ?case using r(1) by (simp add: Let_def)
qed simp

lemma pre_ok: "t \<noteq> [] \<Longrightarrow> \<exists>nxt. pre t = Inr nxt \<and> length nxt = length t \<and> table_ok t nxt"
  unfolding pre_def by (rule pre_loop_ok) (auto simp: table_ok_def best_def drop_Suc Suc_le_eq)

lemma suffix_drop_eq: "suffix t u \<longleftrightarrow> length t \<le> length u \<and> drop (length u - length t) u = t"
  by (auto simp: suffix_def) (metis append_take_drop_id)

lemma occurs_at_suffix:
  "i < length s \<Longrightarrow> length t \<le> Suc i \<Longrightarrow> occurs_at t s (Suc i - length t) \<longleftrightarrow> suffix t (take (Suc i) s)"
  unfolding occurs_at_def suffix_drop_eq by (auto simp: take_drop)

lemma positions_Suc:
  "i < length s \<Longrightarrow> filter (occurs_at t s) [0..<Suc (Suc i) - length t] =
     filter (occurs_at t s) [0..<Suc i - length t] @ (if suffix t (take (Suc i) s) then [Suc i - length t] else [])"
proof (cases "length t \<le> Suc i")
  case True
  assume "i < length s"
  with True show ?thesis by (simp add: Suc_diff_le occurs_at_suffix)
qed (auto simp: suffix_drop_eq)

lemma best_all: "best t u (length t) k \<Longrightarrow> k = length t \<longleftrightarrow> suffix t u"
  unfolding best_def by (metis le_refl nle_le take_all)

lemma best_fallback:
  assumes "t \<noteq> []" "table_ok t nxt" "length nxt = length t" "suffix t u"
  shows "best t u (length t - 1) (nxt ! (length t - 1))"
proof -
  have b: "best t t (length t - 1) (nxt ! (length t - 1))"
    using assms(1-3) unfolding table_ok_def by (metis Suc_pred' diff_less length_greater_0_conv order_refl take_all zero_less_one)
  have "suffix (take j t) t" if "suffix (take j t) u" for j
    by (rule suffix_length_suffix[OF that assms(4)]) simp
  then show ?thesis using b assms(4) suffix_order.trans unfolding best_def by blast
qed

lemma find_loop_ok:
  assumes t: "t \<noteq> []" and nxt: "length nxt = length t" "table_ok t nxt"
    and few: "length (filter (occurs_at t s) [0..<length s]) \<le> POSITIONS_SIZE"
  shows "i \<le> length s \<Longrightarrow> cs = drop i s \<Longrightarrow> best t (take i s) (length t - 1) k \<Longrightarrow>
    pos = filter (occurs_at t s) [0..<Suc i - length t] \<Longrightarrow>
    find_loop t nxt cs i k pos = Inr (filter (occurs_at t s) [0..<Suc (length s) - length t])"
proof (induction cs arbitrary: i k pos)
  case Nil
  then show ?case by simp
next
  case (Cons c cs)
  let ?n = "length t"
  have i1: "i < length s" using Cons.prems(2) by (cases "i < length s") auto
  have i: "s ! i = c" "cs = drop (Suc i) s" using Cons.prems(2) Cons_nth_drop_Suc[OF i1] by (metis list.inject)+
  have n: "?n - 1 < ?n" "Suc (?n - 1) = ?n" using t by auto
  have k: "k \<le> length nxt" "k < Suc ?n" using Cons.prems(3) nxt(1) n unfolding best_def by auto
  from kmp_step[OF Cons.prems(3) n(1) k nxt(2), of c] obtain r where r: "kmp_back (Suc ?n) t nxt c k = Inr r"
    "best t (take (Suc i) s) ?n (if char_at t r = c then r + 1 else r)"
    using i1 i(1) n(2) by (auto simp: take_Suc_conv_app_nth)
  let ?k = "if char_at t r = c then r + 1 else r"
  have pos: "filter (occurs_at t s) [0..<Suc (Suc i) - ?n] = pos @ (if ?k = ?n then [i + 1 - ?n] else [])"
    using positions_Suc[OF i1, of t] Cons.prems(4) best_all[OF r(2)] by simp
  have le: "Suc i \<le> length s" using i1 by simp
  show ?case
  proof (cases "?k = ?n")
    case True
    have "length (filter (occurs_at t s) [0..<Suc (Suc i) - ?n]) \<le> length (filter (occurs_at t s) [0..<length s])"
    proof -
      have "Suc (Suc i) - ?n \<le> length s" using i1 n by simp
      then obtain d where d: "length s = Suc (Suc i) - ?n + d" using le_Suc_ex by blast
      have "[0..<length s] = [0..<Suc (Suc i) - ?n] @ [Suc (Suc i) - ?n..<length s]"
        unfolding d by (rule upt_add_eq_append) simp
      then show ?thesis by simp
    qed
    then have room: "\<not> length pos \<ge> POSITIONS_SIZE" using few pos True by simp
    have "best t (take (Suc i) s) (?n - 1) (nxt ! (?n - 1))"
      using best_fallback[OF t nxt(2,1)] best_all[OF r(2)] True by simp
    from Cons.IH[OF le i(2) this pos[symmetric]] show ?thesis
      using r(1) True room t by (simp add: Let_def)
  next
    case False
    then have "best t (take (Suc i) s) (?n - 1) ?k" using r(2) n unfolding best_def by auto
    from Cons.IH[OF le i(2) this pos[symmetric]] show ?thesis using r(1) False by (simp add: Let_def)
  qed
qed

lemma filter_upt_eq:
  assumes "\<And>j. m \<le> j \<Longrightarrow> \<not> Q j" "m \<le> n"
  shows "filter Q [0..<n] = filter Q [0..<m]"
proof -
  have "[0..<n] = [0..<m] @ [m..<n]" using assms(2) by (metis le_add_diff_inverse upt_add_eq_append zero_le)
  moreover have "filter Q [m..<n] = []" using assms(1) by (simp add: filter_empty_conv)
  ultimately show ?thesis by simp
qed

lemma find_all_ok:
  assumes t: "t \<noteq> []" "length t \<le> NEXT_SIZE" and few: "length (filter (occurs_at t s) [0..<length s]) \<le> POSITIONS_SIZE"
  shows "find_all s t = Inr (filter (occurs_at t s) [0..<length s])"
proof -
  obtain nxt where nxt: "pre t = Inr nxt" "length nxt = length t" "table_ok t nxt" using pre_ok[OF t(1)] by blast
  have "best t (take 0 s) (length t - 1) 0" by (auto simp: best_def)
  from find_loop_ok[OF t(1) nxt(2,3) few _ _ this, of s "[]"] t(1)
  have r: "find_loop t nxt s 0 0 [] = Inr (filter (occurs_at t s) [0..<Suc (length s) - length t])"
    by (simp add: Suc_le_eq)
  have "\<not> occurs_at t s j" if "Suc (length s) - length t \<le> j" for j
  proof
    assume "occurs_at t s j"
    then have o: "j \<le> length s" "take (length t) (drop j s) = t" unfolding occurs_at_def by simp_all
    then have "length t = min (length t) (length s - j)" by (metis length_drop length_take min.commute)
    then have "j + length t \<le> length s" using o(1) by simp
    then show False using that t(1) by simp
  qed
  moreover have "Suc (length s) - length t \<le> length s" using t(1) by (cases t) auto
  ultimately have "filter (occurs_at t s) [0..<length s] = filter (occurs_at t s) [0..<Suc (length s) - length t]"
    by (intro filter_upt_eq)
  then show ?thesis using t(2) nxt(1) r by (simp add: find_all_def)
qed

section \<open>Regular expressions\<close>

text \<open>
  The pointers of \<open>matches\<close> as positions in the target.  A run that starts at \<open>target + shift\<close> reports
  positions from there; a slot that it does not set keeps the pointer of an earlier run.
\<close>

definition MATCHES :: nat where "MATCHES = 20"

definition shifted :: "nat \<Rightarrow> captures \<Rightarrow> captures \<Rightarrow> captures" where
  "shifted shift new old = (\<lambda>k. case new k of Some i \<Rightarrow> Some (shift + i) | None \<Rightarrow> old k)"

definition last_match :: "captures \<Rightarrow> nat" where
  "last_match matches = fold (\<lambda>i n. if matches i \<noteq> None then i else n) [0..<MATCHES] 0"

text \<open>The loop over the groups; the position and the length of every group that is set are stored.\<close>

fun record_groups :: "captures \<Rightarrow> nat list \<Rightarrow> nat \<Rightarrow> (int \<times> int) list \<Rightarrow> grep_fault + nat \<times> (int \<times> int) list" where
  "record_groups matches [] shift stored = Inr (shift, stored)"
| "record_groups matches (i # is) shift stored =
     (case (matches i, matches (i + 1)) of
        (Some a, Some b) \<Rightarrow>
          if length stored \<ge> POSITIONS_SIZE then Inl Positions_Overflow
          else record_groups matches is b (stored @ [(int a, int b - int a)])
      | _ \<Rightarrow> record_groups matches is shift stored)"

text \<open>The loop of \<open>getMatchesRegex\<close>; the first argument bounds its iterations.\<close>

fun matches_loop ::
    "nat \<Rightarrow> bool \<Rightarrow> program \<Rightarrow> cstring \<Rightarrow> c_char \<Rightarrow> captures \<Rightarrow> nat \<Rightarrow> (int \<times> int) list \<Rightarrow> grep_fault + (int \<times> int) list" where
  "matches_loop 0 mem P target beyond matches shift stored = Inl Endless"
| "matches_loop (Suc n) mem P target beyond matches shift stored =
     (case cregex_program_run mem P (drop shift target) beyond (\<lambda>k. None) MATCHES of
        None \<Rightarrow> Inl No_Return
      | Some (r, new) \<Rightarrow>
          if r > 0 then
            (let matches = shifted shift new matches in
             bind_res (record_groups matches (filter even [0..<Suc (last_match matches)]) shift stored)
               (\<lambda>(shift, stored). matches_loop n mem P target beyond matches shift stored))
          else Inr stored)"

definition getMatchesRegex :: "bool \<Rightarrow> cstring \<Rightarrow> cstring \<Rightarrow> c_char \<Rightarrow> grep_fault + (int \<times> int) list" where
  "getMatchesRegex mem target pattern beyond =
     (case cregex_parse mem pattern of
        Inl f \<Rightarrow> Inl (Regex_Fault f)
      | Inr None \<Rightarrow> Inl Null_Node
      | Inr (Some node) \<Rightarrow>
          (case cregex_compile_node mem node of
             Inl f \<Rightarrow> Inl (Regex_Fault f)
           | Inr None \<Rightarrow> Inl Null_Node
           | Inr (Some program) \<Rightarrow>
               matches_loop (POSITIONS_SIZE + 2) mem program target beyond (\<lambda>k. None) 0 []))"

subsection \<open>Every run that matches stores a position\<close>

lemma record_groups_grows:
  "(case record_groups m is shift stored of
      Inl e \<Rightarrow> e = Positions_Overflow
    | Inr (shift', stored') \<Rightarrow> length stored \<le> length stored' \<and> (length stored \<le> POSITIONS_SIZE \<longrightarrow> length stored' \<le> POSITIONS_SIZE))"
proof (induction "is" arbitrary: shift stored)
  case (Cons i "is")
  show ?case
  proof (cases "m i = None \<or> m (i + 1) = None")
    case True
    then show ?thesis using Cons[of stored shift] by (auto split: option.splits)
  next
    case False
    then obtain a b where ab: "m i = Some a" "m (i + 1) = Some b" by auto
    show ?thesis
    proof (cases "length stored \<ge> POSITIONS_SIZE")
      case True
      then show ?thesis using ab by simp
    next
      case False
      have "case record_groups m is b (stored @ [(int a, int b - int a)]) of
          Inl e \<Rightarrow> e = Positions_Overflow | Inr (shift', stored') \<Rightarrow> length (stored @ [(int a, int b - int a)]) \<le> length stored' \<and>
            (length (stored @ [(int a, int b - int a)]) \<le> POSITIONS_SIZE \<longrightarrow> length stored' \<le> POSITIONS_SIZE)"
        by (rule Cons)
      then show ?thesis using ab False by (auto split: sum.splits)
    qed
  qed
qed simp

lemma record_match_grows:
  assumes "m 0 = Some a" "m 1 = Some b" "length stored < POSITIONS_SIZE"
  shows "(case record_groups m (filter even [0..<Suc n]) shift stored of
      Inl e \<Rightarrow> e = Positions_Overflow
    | Inr (shift', stored') \<Rightarrow> length stored < length stored' \<and> length stored' \<le> POSITIONS_SIZE)"
proof -
  have l: "filter even [0..<Suc n] = 0 # filter even [1..<Suc n]" by (simp add: upt_conv_Cons del: upt_Suc)
  then show ?thesis
    using record_groups_grows[of "stored @ [(int a, int b - int a)]" m "filter even [1..<Suc n]" b] assms
    unfolding l by (auto split: sum.splits)
qed

text \<open>The state of every run: the two slots of the match are set.\<close>

lemma run_sets_match:
  assumes ok: "node_ok root" "compile_node_with_program root = Inr P" and s: "is_cstr s" "ascii_str s"
    and m: "\<exists>i j. i \<le> length s \<and> tried_at root i \<and> rmatch root s i j"
  obtains m' i j where "cregex_program_run True P s beyond m0 MATCHES = Some (1, m')" "m' 0 = Some i" "m' 1 = Some j"
    "i \<le> length s" "rmatch root s i j" "seen P s MATCHES (0, 0, take_slots MATCHES m0) m'"
proof -
  have P: "program_ok P" using compile_total[OF ok(1)] ok(2) by (metis Inr_inject)
  from run_result[OF P s, of beyond m0 MATCHES] obtain mt m' where r: "vm_run_with_threads P s beyond m0 MATCHES = Some (mt, m')"
    "mt \<longleftrightarrow> (\<exists>q i tm. accepted P s MATCHES (0, 0, take_slots MATCHES m0) q i tm)"
    "mt \<longrightarrow> seen P s MATCHES (0, 0, take_slots MATCHES m0) m'" by blast
  then have mt: mt using run_verdict[OF ok s, of MATCHES] m by blast
  with r(3) obtain q e tm where a: "accepted P s MATCHES (0, 0, take_slots MATCHES m0) q e tm"
    "\<forall>k < min MATCHES REGEX_VM_MAX_MATCHES. m' k = tm k" unfolding seen_def by blast
  from accepted_captures[OF ok s(2) a(1)] obtain i j where
    "i \<le> length s" "rmatch root s i j" "tm 0 = Some i" "tm 1 = Some j" by (auto simp: MATCHES_def)
  moreover have "m' 0 = tm 0" "m' 1 = tm 1" using a(2) by (simp_all add: MATCHES_def REGEX_VM_MAX_MATCHES_def)
  moreover have "cregex_program_run True P s beyond m0 MATCHES = Some (1, m')"
    using r(1) mt by (simp add: cregex_program_run_def)
  moreover have "seen P s MATCHES (0, 0, take_slots MATCHES m0) m'" using r(3) mt by simp
  ultimately show thesis by (intro that[of m' i j]) simp_all
qed

lemma always_match_overflows:
  assumes ok: "node_ok root" "compile_node_with_program root = Inr P" and s: "is_cstr s" "ascii_str s"
    and m: "\<And>k. \<exists>i j. i \<le> length (drop k s) \<and> tried_at root i \<and> rmatch root (drop k s) i j"
  shows "length stored \<le> POSITIONS_SIZE \<Longrightarrow> POSITIONS_SIZE - length stored < n \<Longrightarrow>
    matches_loop n True P s beyond matches shift stored = Inl Positions_Overflow"
proof (induction n arbitrary: matches shift stored)
  case (Suc n)
  have d: "is_cstr (drop shift s)" "ascii_str (drop shift s)"
    using s by (auto simp: is_cstr_def ascii_str_drop dest: in_set_dropD)
  from run_sets_match[OF ok d m] obtain new i j where r:
    "cregex_program_run True P (drop shift s) beyond (\<lambda>k. None) MATCHES = Some (1, new)" "new 0 = Some i" "new 1 = Some j" by metis
  let ?m = "shifted shift new matches"
  have sl: "?m 0 = Some (shift + i)" "?m 1 = Some (shift + j)" using r by (simp_all add: shifted_def)
  let ?rec = "record_groups ?m (filter even [0..<Suc (last_match ?m)]) shift stored"
  show ?case
  proof (cases "length stored < POSITIONS_SIZE")
    case True
    note grow = record_match_grows[OF sl True, of "last_match ?m" shift]
    show ?thesis
    proof (cases ?rec)
      case (Inl e)
      then show ?thesis using grow r(1) by (simp add: Let_def del: upt_Suc)
    next
      case (Inr p)
      obtain sh fo where p: "p = (sh, fo)" by (cases p)
      have "length stored < length fo \<and> length fo \<le> POSITIONS_SIZE" using grow Inr p by (simp del: upt_Suc)
      then have "matches_loop n True P s beyond ?m sh fo = Inl Positions_Overflow"
        using Suc.prems(2) by (intro Suc.IH) linarith+
      then show ?thesis using r(1) Inr p by (simp add: Let_def del: upt_Suc)
    qed
  next
    case False
    have "?rec = Inl Positions_Overflow" using sl False by (simp add: upt_conv_Cons del: upt_Suc)
    then show ?thesis using r(1) by (simp add: Let_def del: upt_Suc)
  qed
qed simp

subsection \<open>Literal patterns\<close>

lemma slots_kept:
  "reached P s nm c d \<Longrightarrow> OP_SAVE k \<notin> set P \<Longrightarrow> snd (snd d) k = snd (snd c) k"
proof (induction rule: rtranclp_induct)
  case (step d e)
  obtain pc i m where d: "d = (pc, i, m)" by (cases d)
  have "snd (snd e) k = m k"
    using step.hyps(2) step.prems unfolding d
    by (auto elim!: vm_stepE simp: save_slot_def in_set_conv_nth)
  then show ?case using step d by simp
qed simp

lemma compile_literal: "compile_context (literal w) pc n = Inr (map (\<lambda>c. OP_CHARACTER (schar c)) w, n)"
  by (induction w arbitrary: pc rule: literal.induct) auto

lemma literal_saves: "compile_node_with_program (literal w) = Inr P \<Longrightarrow> OP_SAVE k \<in> set P \<Longrightarrow> k < 2"
  by (auto simp: compile_node_with_program_def program_node_def literal_not_anchored compile_literal
      compile_quantifier_def Let_def bind_res_Inr greedy_split_def split: if_splits)

lemma literal_last_match:
  assumes "m 0 \<noteq> None" "m 1 \<noteq> None" "\<forall>k \<in> {2..<MATCHES}. m k = None"
  shows "last_match m = 1"
proof -
  have l: "[0..<MATCHES] = [0, 1] @ [2..<MATCHES]" by (simp add: MATCHES_def upt_conv_Cons)
  have "fold (\<lambda>i n. if m i \<noteq> None then i else n) xs n = n" if "\<forall>k \<in> set xs. m k = None" for xs n
    using that by (induction xs) auto
  from this[of "[2..<MATCHES]"] show ?thesis using assms unfolding last_match_def l by simp
qed

fun spans :: "cstring \<Rightarrow> cstring \<Rightarrow> nat \<Rightarrow> (int \<times> int) list \<Rightarrow> bool" where
  "spans w s start [] \<longleftrightarrow> (\<forall>k \<ge> start. \<not> occurs_at w s k)"
| "spans w s start ((p, l) # rest) \<longleftrightarrow>
     (\<exists>k \<ge> start. p = int k \<and> l = int (length w) \<and> occurs_at w s k \<and> spans w s (k + length w) rest)"

lemma literal_loop:
  assumes w: "w \<noteq> []" "compile_node_with_program (literal w) = Inr P" and s: "is_cstr s" "ascii_str s"
  shows "shift \<le> length s \<Longrightarrow> \<forall>k \<in> {2..<MATCHES}. m k = None \<Longrightarrow>
    length stored + (length s - shift) div length w \<le> POSITIONS_SIZE \<Longrightarrow> (length s - shift) div length w < n \<Longrightarrow>
    \<exists>new. matches_loop n True P s beyond m shift stored = Inr (stored @ new) \<and> spans w s shift new"
proof (induction n arbitrary: m shift stored)
  case (Suc n)
  let ?s = "drop shift s" and ?d = "length w"
  have d: "is_cstr ?s" "ascii_str ?s"
    using s by (auto simp: is_cstr_def ascii_str_drop dest: in_set_dropD)
  have P: "program_ok P" using compile_total[OF node_ok_literal] w(2) by (metis Inr_inject)
  have verdict: "(\<exists>i j. i \<le> length ?s \<and> tried_at (literal w) i \<and> rmatch (literal w) ?s i j) \<longleftrightarrow> (\<exists>i. occurs_at w ?s i)"
    using literal_not_anchored[of w] by (auto simp: tried_at_def rmatch_literal[OF w(1)] occurs_at_def)
  show ?case
  proof (cases "\<exists>i. occurs_at w ?s i")
    case False
    from run_result[OF P d, of beyond "\<lambda>k. None" MATCHES] run_verdict[OF node_ok_literal w(2) d, of MATCHES] verdict False
    obtain m' where "vm_run_with_threads P ?s beyond (\<lambda>k. None) MATCHES = Some (False, m')" by auto
    moreover have "\<not> occurs_at w s k" if "k \<ge> shift" for k
      using occurs_at_drop[OF Suc.prems(1), of w "k - shift"] False that by simp
    ultimately show ?thesis by (intro exI[of _ "[]"]) (simp add: cregex_program_run_def)
  next
    case True
    then have hit: "\<exists>i j. i \<le> length ?s \<and> tried_at (literal w) i \<and> rmatch (literal w) ?s i j" using verdict by blast
    from run_sets_match[OF node_ok_literal w(2) d hit, of beyond "\<lambda>k. None"] obtain new i j where
      r: "cregex_program_run True P ?s beyond (\<lambda>k. None) MATCHES = Some (1, new)" "new 0 = Some i" "new 1 = Some j"
        "rmatch (literal w) ?s i j" "seen P ?s MATCHES (0, 0, take_slots MATCHES (\<lambda>k. None)) new" by metis
    from r(4) have ij: "j = i + ?d" "occurs_at w ?s i" using rmatch_literal[OF w(1)] by auto
    then have at: "occurs_at w s (shift + i)" using occurs_at_drop[OF Suc.prems(1)] by simp
    have len: "shift + i + ?d \<le> length s"
    proof -
      have "length (take ?d (drop (shift + i) s)) = ?d" "shift + i \<le> length s" using at unfolding occurs_at_def by simp_all
      then show ?thesis by simp
    qed
    have none: "new k = None" if k: "k \<in> {2..<MATCHES}" for k
    proof -
      obtain q e tm where a: "accepted P ?s MATCHES (0, 0, take_slots MATCHES (\<lambda>k. None)) q e tm"
        "\<forall>k < min MATCHES REGEX_VM_MAX_MATCHES. new k = tm k" using r(5) unfolding seen_def by blast
      have "OP_SAVE k \<notin> set P" using literal_saves[OF w(2), of k] k by auto
      then have "tm k = take_slots MATCHES (\<lambda>k. None) k"
        using slots_kept[of P ?s MATCHES "(0, 0, take_slots MATCHES (\<lambda>k. None))" "(q, e, tm)" k] a(1)
        unfolding accepted_def by simp
      then show ?thesis using a(2) k by (simp add: take_slots_def copy_matches_def MATCHES_def REGEX_VM_MAX_MATCHES_def)
    qed
    let ?m = "shifted shift new m"
    have sl: "?m 0 = Some (shift + i)" "?m 1 = Some (shift + j)" "\<forall>k \<in> {2..<MATCHES}. ?m k = None"
      using r(2,3) none Suc.prems(2) by (simp_all add: shifted_def)
    have lm: "last_match ?m = 1" by (rule literal_last_match) (use sl in auto)
    have fall: "(length s - (shift + j)) div ?d < (length s - shift) div ?d"
    proof -
      have "(length s - (shift + j)) div ?d \<le> (length s - shift - ?d) div ?d"
        by (intro div_le_mono) (simp add: ij(1))
      moreover have "(length s - shift) div ?d = Suc ((length s - shift - ?d) div ?d)"
        using w(1) len by (intro le_div_geq) auto
      ultimately show ?thesis by simp
    qed
    have room: "length stored < POSITIONS_SIZE" using fall Suc.prems(3) by simp
    let ?st = "stored @ [(int (shift + i), int (shift + j) - int (shift + i))]"
    have rec: "record_groups ?m (filter even [0..<Suc (last_match ?m)]) shift stored = Inr (shift + j, ?st)"
      unfolding lm using sl room by simp
    obtain rest where rest: "matches_loop n True P s beyond ?m (shift + j) ?st = Inr (?st @ rest)" "spans w s (shift + j) rest"
      using Suc.IH[of "shift + j" ?m ?st] len ij(1) sl(3) fall Suc.prems(3,4) by auto
    have "spans w s shift ((int (shift + i), int (shift + j) - int (shift + i)) # rest)"
      unfolding spans.simps using at rest(2) ij(1) by (intro exI[of _ "shift + i"]) (simp add: add.assoc)
    then show ?thesis
      using r(1) rec rest(1)
      by (intro exI[of _ "(int (shift + i), int (shift + j) - int (shift + i)) # rest"]) (simp add: Let_def del: upt_Suc)
  qed
qed simp

end
