(* ===== verification/GrepCommand.thy ===== *)
theory GrepCommand
  imports Grep
begin

text \<open>
  The command \<open>__tshellSysCmdGrep\<close>: its arguments, the lines it reads with \<open>fgets\<close> and what it prints.
  The parameters are the memory of the regular expressions, the byte behind the NUL of every line, and
  the contents of the files.
\<close>

section \<open>Arguments\<close>

definition is_space :: "c_char \<Rightarrow> bool" where
  "is_space c \<longleftrightarrow> uchar c = 32 \<or> 9 \<le> uchar c \<and> uchar c \<le> 13"

text \<open>\<open>strtol\<close> with base 10 and a \<open>long\<close> of 32 bits: out of range values are the bounds.\<close>

definition strtol10 :: "cstring \<Rightarrow> int" where
  "strtol10 s =
     (let s = dropWhile is_space s;
          neg = (hd_char s = CHR ''-'');
          s = (if hd_char s = CHR ''-'' \<or> hd_char s = CHR ''+'' then tl s else s);
          acc = foldl (\<lambda>acc c. acc * 10 + (schar c - schar CHR ''0'')) 0 (takeWhile is_digit s)
      in if neg then max (- acc) (- (2 ^ 31)) else min acc (2 ^ 31 - 1))"

definition lib_atoi :: "cstring \<Rightarrow> int" where
  "lib_atoi s = strtol10 s"

record grep_options =
  A_choice :: bool
  n_choice :: bool
  N_choice :: bool
  ANumber :: int
  pattern :: "cstring option"
  path :: "cstring option"
  A_phase :: bool

definition no_options :: grep_options where
  "no_options = \<lparr>A_choice = False, n_choice = False, N_choice = False, ANumber = 0, pattern = None, path = None,
     A_phase = False\<rparr>"

definition grep_argument :: "grep_options \<Rightarrow> cstring \<Rightarrow> grep_options" where
  "grep_argument g arg =
     (if lib_strcmp arg ''-A'' = 0 then g\<lparr>A_choice := True, A_phase := True\<rparr>
      else if A_phase g then g\<lparr>ANumber := lib_atoi arg, A_phase := False\<rparr>
      else if lib_strcmp arg ''-n'' = 0 then g\<lparr>n_choice := True\<rparr>
      else if lib_strcmp arg ''-N'' = 0 then g\<lparr>N_choice := True\<rparr>
      else if pattern g = None then g\<lparr>pattern := Some arg\<rparr>
      else if path g = None then g\<lparr>path := Some arg\<rparr>
      else g)"

section \<open>Output\<close>

datatype tshell_color = LIGHT_GREEN | LIGHT_BLUE | RED

datatype grep_out = ColorStart tshell_color | ColorEnd | Print cstring | PrintInt int | PrintErr cstring

text \<open>
  The loop that prints a line; \<open>i\<close> is the index of the next character and \<open>occ\<close> the occurrence it is
  compared with.
\<close>

fun paint :: "(int \<times> int) list \<Rightarrow> int \<Rightarrow> nat \<Rightarrow> cstring \<Rightarrow> grep_out list" where
  "paint marks i occ [] = []"
| "paint marks i occ (c # rest) =
     (let occ = (if occ < length marks \<and> i > fst (marks ! occ) + snd (marks ! occ) - 1 then occ + 1 else occ);
          inside = (occ < length marks \<and> i \<ge> fst (marks ! occ) \<and> i - fst (marks ! occ) + 1 \<le> snd (marks ! occ))
      in (if inside then ColorStart RED else ColorEnd) # Print [c] # paint marks (i + 1) occ rest)"

definition numbered :: "grep_options \<Rightarrow> int \<Rightarrow> cstring \<Rightarrow> grep_out list" where
  "numbered g n mark =
     (if n_choice g then [ColorStart LIGHT_GREEN, PrintInt n, ColorEnd, ColorStart LIGHT_BLUE, Print mark, ColorEnd] else [])"

section \<open>Lines\<close>

record grep_state =
  currentLine :: int
  lastMatched :: int

definition line_matches :: "bool \<Rightarrow> c_char \<Rightarrow> grep_options \<Rightarrow> cstring \<Rightarrow> cstring \<Rightarrow> grep_fault + (int \<times> int) list" where
  "line_matches mem beyond g pat rtn =
     (if N_choice g then bind_res (find_all rtn pat) (\<lambda>ps. Inr (map (\<lambda>p. (int p, int (lib_strlen pat))) ps))
      else getMatchesRegex mem rtn pat beyond)"

definition grep_line ::
    "bool \<Rightarrow> (int \<Rightarrow> c_char) \<Rightarrow> grep_options \<Rightarrow> cstring \<Rightarrow> cstring \<Rightarrow> grep_state \<Rightarrow> grep_fault + grep_out list \<times> grep_state" where
  "grep_line mem beyond g pat rtn st =
     (let n = currentLine st + 1; st = st\<lparr>currentLine := n\<rparr> in
      bind_res (line_matches mem (beyond n) g pat rtn) (\<lambda>marks.
        if marks = [] then
          Inr
           (if A_choice g then
              (if n - lastMatched st \<le> ANumber g then numbered g n ''-'' @ [Print rtn]
               else if n - lastMatched st = ANumber g + 1 then
                 [ColorStart LIGHT_BLUE, Print (''--'' @ [CHR 0x0A]), ColorEnd]
               else [])
            else [], st)
        else Inr (numbered g n '':'' @ paint marks 0 0 rtn @ [ColorEnd], st\<lparr>lastMatched := n\<rparr>)))"

fun grep_lines ::
    "bool \<Rightarrow> (int \<Rightarrow> c_char) \<Rightarrow> grep_options \<Rightarrow> cstring \<Rightarrow> cstring list \<Rightarrow> grep_state \<Rightarrow> grep_fault + grep_out list" where
  "grep_lines mem beyond g pat [] st = Inr []"
| "grep_lines mem beyond g pat (l # ls) st =
     bind_res (grep_line mem beyond g pat l st) (\<lambda>(out, st).
       bind_res (grep_lines mem beyond g pat ls st) (\<lambda>rest. Inr (out @ rest)))"

text \<open>\<open>fgets\<close> with a buffer of \<open>n\<close> bytes: a line with its newline, or as much of it as fits.\<close>

fun lib_fgets :: "nat \<Rightarrow> cstring \<Rightarrow> cstring" where
  "lib_fgets (Suc (Suc n)) (c # s) = c # (if c = CHR 0x0A then [] else lib_fgets (Suc n) s)"
| "lib_fgets n s = []"

definition LINE_SIZE :: nat where "LINE_SIZE = 1000"

function all_lines :: "cstring \<Rightarrow> cstring list" where
  "all_lines [] = []"
| "all_lines (c # s) =
     (let l = lib_fgets LINE_SIZE (c # s) in l # all_lines (drop (length l) (c # s)))"
  by pat_completeness auto

termination
  by (relation "measure length") (auto simp: LINE_SIZE_def numeral_eq_Suc)

definition tshellSysCmdGrep ::
    "bool \<Rightarrow> (int \<Rightarrow> c_char) \<Rightarrow> (cstring \<Rightarrow> cstring option) \<Rightarrow> cstring list \<Rightarrow> grep_fault + int \<times> grep_out list" where
  "tshellSysCmdGrep mem beyond files argv =
     (if length argv < 3 then Inr (- 1, [PrintErr (''Too little argument!.'' @ [CHR 0x0A])])
      else
        (let g = foldl grep_argument no_options (tl argv) in
         case (pattern g, Option.bind (path g) files) of
           (Some pat, Some content) \<Rightarrow>
             bind_res (grep_lines mem beyond g pat (all_lines content) \<lparr>currentLine = 0, lastMatched = - 100000\<rparr>)
               (\<lambda>out. Inr (0, out))
         | _ \<Rightarrow> Inr (2, [Print (''No such file!'' @ [CHR 0x0A])])))"

section \<open>What is painted\<close>

definition painted :: "(nat \<Rightarrow> bool) \<Rightarrow> nat \<Rightarrow> cstring \<Rightarrow> grep_out list" where
  "painted red i s = concat (map (\<lambda>k. [if red (i + k) then ColorStart RED else ColorEnd, Print [s ! k]]) [0..<length s])"

lemma painted_simps [simp]:
  "painted red i [] = []"
  "painted red i (c # s) = (if red i then ColorStart RED else ColorEnd) # Print [c] # painted red (i + 1) s"
  by (simp_all add: painted_def upt_conv_Cons map_Suc_upt[symmetric] comp_def del: upt_Suc)

lemma paint_ok:
  assumes "sorted_wrt (<) ps" "0 < len"
  shows "(\<forall>j < occ. j < length ps \<longrightarrow> ps ! j + len \<le> i) \<Longrightarrow> (occ < length ps \<longrightarrow> i \<le> ps ! occ + len) \<Longrightarrow>
    paint (map (\<lambda>p. (int p, int len)) ps) (int i) occ s = painted (\<lambda>k. \<exists>p \<in> set ps. p \<le> k \<and> k < p + len) i s"
proof (induction s arbitrary: i occ)
  case (Cons c s)
  let ?occ = "if occ < length ps \<and> ps ! occ + len \<le> i then occ + 1 else occ"
  have mono: "ps ! j < ps ! k" if "j < k" "k < length ps" for j k
    using assms(1) that by (simp add: sorted_wrt_iff_nth_less)
  obtain k where k: "k = ?occ" by simp
  have before: "\<forall>j < k. j < length ps \<longrightarrow> ps ! j + len \<le> i"
    using Cons.prems(1) by (auto simp: k less_Suc_eq)
  have here: "k < length ps \<longrightarrow> i < ps ! k + len"
    using Cons.prems(2) mono[of occ "Suc occ"] by (auto simp: k)
  have red: "(\<exists>p \<in> set ps. p \<le> i \<and> i < p + len) \<longleftrightarrow> k < length ps \<and> ps ! k \<le> i"
  proof
    assume "\<exists>p \<in> set ps. p \<le> i \<and> i < p + len"
    then obtain j where j: "j < length ps" "ps ! j \<le> i" "i < ps ! j + len" by (metis in_set_conv_nth)
    then have le: "k \<le> j" using before by (metis not_le)
    then have "ps ! k \<le> ps ! j" using mono[of k j] j(1) by (cases "k = j") auto
    then show "k < length ps \<and> ps ! k \<le> i" using j(1,2) le by simp
  next
    assume o: "k < length ps \<and> ps ! k \<le> i"
    then show "\<exists>p \<in> set ps. p \<le> i \<and> i < p + len" using here nth_mem by blast
  qed
  have rest: "paint (map (\<lambda>p. (int p, int len)) ps) (int (i + 1)) k s =
      painted (\<lambda>k. \<exists>p \<in> set ps. p \<le> k \<and> k < p + len) (i + 1) s"
    by (rule Cons.IH) (use before here in \<open>auto intro: le_SucI\<close>)
  have o: "(if occ < length (map (\<lambda>p. (int p, int len)) ps) \<and>
      int i > fst (map (\<lambda>p. (int p, int len)) ps ! occ) + snd (map (\<lambda>p. (int p, int len)) ps ! occ) - 1
      then occ + 1 else occ) = k" by (auto simp: k)
  have ins: "(k < length (map (\<lambda>p. (int p, int len)) ps) \<and> int i \<ge> fst (map (\<lambda>p. (int p, int len)) ps ! k) \<and>
      int i - fst (map (\<lambda>p. (int p, int len)) ps ! k) + 1 \<le> snd (map (\<lambda>p. (int p, int len)) ps ! k)) \<longleftrightarrow>
      k < length ps \<and> ps ! k \<le> i" using here by auto
  show ?case
    unfolding paint.simps Let_def o ins painted_simps red using rest by (simp add: add.commute)
qed simp

section \<open>Fixed strings\<close>

lemma sorted_positions: "sorted_wrt (<) (filter Q [0..<n])"
  by (simp add: sorted_wrt_filter sorted_wrt_upt)

lemma few_positions_le: "length (filter Q [0..<n]) \<le> n"
  using length_filter_le[of Q "[0..<n]"] by simp

text \<open>
  C32: \<open>find\<close> returns exactly the positions at which the string occurs, overlapping ones included, in
  increasing order, for strings that fit the table and lines whose occurrences fit the buffer.
\<close>

theorem find_exact:
  assumes "t \<noteq> []" "length t \<le> NEXT_SIZE" "length (filter (occurs_at t s) [0..<length s]) \<le> POSITIONS_SIZE"
  shows "find_all s t = Inr (filter (occurs_at t s) [0..<length s])"
  by (rule find_all_ok[OF assms])

lemma find_exact_witness:
  "find_all ''aaabaa'' ''aa'' = Inr (filter (occurs_at ''aa'' ''aaabaa'') [0..<length ''aaabaa''])"
  by (rule find_exact) (simp, code_simp, code_simp)

text \<open>
  With \<open>-N\<close> a line in which the string occurs is printed with exactly the characters of its
  occurrences in red, and becomes the last matched line.
\<close>

theorem grep_paints_occurrences:
  assumes g: "N_choice g" and t: "t \<noteq> []" "length t \<le> NEXT_SIZE"
    and few: "length (filter (occurs_at t s) [0..<length s]) \<le> POSITIONS_SIZE" and occ: "occurs_at t s p"
  shows "grep_line mem beyond g t s st =
    Inr (numbered g (currentLine st + 1) '':'' @
         painted (\<lambda>k. \<exists>p. occurs_at t s p \<and> p \<le> k \<and> k < p + length t) 0 s @ [ColorEnd],
         st\<lparr>currentLine := currentLine st + 1, lastMatched := currentLine st + 1\<rparr>)"
proof -
  let ?ps = "filter (occurs_at t s) [0..<length s]"
  have mem: "q \<in> set ?ps \<longleftrightarrow> occurs_at t s q" for q
    using t(1) occurs_at_hd[of "hd t" "tl t" s q] by auto
  have ne: "?ps \<noteq> []" using mem[of p] occ by (metis empty_iff empty_set)
  have m: "line_matches mem b g t s = Inr (map (\<lambda>p. (int p, int (length t))) ?ps)" for b
    using g find_all_ok[OF t few] by (simp add: line_matches_def)
  have "paint (map (\<lambda>p. (int p, int (length t))) ?ps) (int 0) 0 s =
      painted (\<lambda>k. \<exists>p \<in> set ?ps. p \<le> k \<and> k < p + length t) 0 s"
    by (rule paint_ok) (use sorted_positions t(1) in auto)
  then have "paint (map (\<lambda>p. (int p, int (length t))) ?ps) 0 0 s =
      painted (\<lambda>k. \<exists>p. occurs_at t s p \<and> p \<le> k \<and> k < p + length t) 0 s"
    unfolding Bex_def mem by simp
  then show ?thesis using ne m by (simp add: grep_line_def Let_def)
qed

lemma grep_paints_occurrences_witness:
  "grep_line True (\<lambda>n. EOS) (no_options\<lparr>N_choice := True\<rparr>) ''aa'' ''baaa'' \<lparr>currentLine = 4, lastMatched = - 100000\<rparr> =
    Inr ([ColorEnd, Print ''b'', ColorStart RED, Print ''a'', ColorStart RED, Print ''a'', ColorStart RED, Print ''a'', ColorEnd],
      \<lparr>currentLine = 5, lastMatched = 5\<rparr>)"
proof -
  have occ: "occurs_at ''aa'' ''baaa'' p \<longleftrightarrow> p = 1 \<or> p = 2" for p
    by (auto simp: occurs_at_Cons less_Suc_eq numeral_eq_Suc)
  have "grep_line True (\<lambda>n. EOS) (no_options\<lparr>N_choice := True\<rparr>) ''aa'' ''baaa'' \<lparr>currentLine = 4, lastMatched = - 100000\<rparr> =
    Inr (numbered (no_options\<lparr>N_choice := True\<rparr>) (4 + 1) '':'' @
         painted (\<lambda>k. \<exists>p. occurs_at ''aa'' ''baaa'' p \<and> p \<le> k \<and> k < p + length ''aa'') 0 ''baaa'' @ [ColorEnd],
         \<lparr>currentLine = 4 + 1, lastMatched = 4 + 1\<rparr>)"
    using grep_paints_occurrences[of "no_options\<lparr>N_choice := True\<rparr>" "''aa''" "''baaa''" 1 True "\<lambda>n. EOS"
      "\<lparr>currentLine = 4, lastMatched = - 100000\<rparr>"] occ by (simp add: NEXT_SIZE_def POSITIONS_SIZE_def)
  also have "painted (\<lambda>k. \<exists>p. occurs_at ''aa'' ''baaa'' p \<and> p \<le> k \<and> k < p + length ''aa'') 0 ''baaa'' =
    [ColorEnd, Print ''b'', ColorStart RED, Print ''a'', ColorStart RED, Print ''a'', ColorStart RED, Print ''a'']"
    unfolding occ by (auto simp: ex_disj_distrib conj_disj_distribR)
  finally show ?thesis by (simp add: numbered_def no_options_def)
qed

section \<open>Regular expressions\<close>

text \<open>
  For a pattern without special characters \<open>getMatchesRegex\<close> ends, without a fault, and returns
  occurrences of it, each behind the one before, with no occurrence behind the last, provided the line
  has no room for more than 100 of them.
\<close>

theorem matches_of_literal:
  assumes w: "w \<noteq> []" "list_all plain_char w" and s: "is_cstr s" "ascii_str s" and few: "length s div length w \<le> POSITIONS_SIZE"
  shows "\<exists>new. getMatchesRegex True s w beyond = Inr new \<and> spans w s 0 new"
proof -
  from compile_total[OF node_ok_literal] obtain P where P: "cregex_compile_node True (literal w) = Inr (Some P)"
    "compile_node_with_program (literal w) = Inr P" by metis
  obtain new where "matches_loop (POSITIONS_SIZE + 2) True P s beyond (\<lambda>k. None) 0 [] = Inr ([] @ new)" "spans w s 0 new"
    using literal_loop[OF w(1) P(2) s, of 0 "\<lambda>k. None" "[]" "POSITIONS_SIZE + 2" beyond] few by auto
  then show ?thesis using parse_literal[OF w(2,1)] P(1) by (simp add: getMatchesRegex_def)
qed

lemma matches_of_literal_witness:
  "\<exists>new. getMatchesRegex True ''xabcab'' ''ab'' EOS = Inr new \<and> spans ''ab'' ''xabcab'' 0 new"
  by (rule matches_of_literal) (simp, code_simp, code_simp, code_simp, code_simp)

text \<open>
  A pattern that may be repeated no times, such as \<open>a*\<close>, runs \<open>getMatchesRegex\<close> over the end of its
  buffers on every line.
\<close>

theorem optional_pattern_overflows:
  assumes p: "cregex_parse True p = Inr (Some (QUANTIFIER 0 nmax g x))" "ascii_str p" "\<not> node_is_anchored x"
    and s: "is_cstr s" "ascii_str s"
  shows "getMatchesRegex True s p beyond = Inl Positions_Overflow"
proof -
  let ?root = "QUANTIFIER 0 nmax g x"
  have ok: "node_ok ?root" by (rule parsed_nodes(2)[OF p(2,1)])
  from compile_total[OF ok] obtain P where P: "cregex_compile_node True ?root = Inr (Some P)"
    "compile_node_with_program ?root = Inr P" by metis
  have "rmatch ?root (drop k s) 0 0" for k
    unfolding rmatch.simps using ok by (intro exI[of _ 0]) auto
  then have "\<exists>i j. i \<le> length (drop k s) \<and> tried_at ?root i \<and> rmatch ?root (drop k s) i j" for k
    using p(3) by (intro exI[of _ 0]) (auto simp: tried_at_def simp del: rmatch.simps)
  from always_match_overflows[OF ok P(2) s this, of "[]" "POSITIONS_SIZE + 2" beyond "\<lambda>k. None" 0]
  show ?thesis using p(1) P(1) by (simp add: getMatchesRegex_def)
qed

lemma optional_pattern_overflows_witness: "getMatchesRegex True ''ba'' ''a*'' EOS = Inl Positions_Overflow"
proof -
  have p: "cregex_parse True ''a*'' = Inr (Some (QUANTIFIER 0 (- 1) True (CHARACTER 97)))" by code_simp
  show ?thesis by (rule optional_pattern_overflows[OF p]) (code_simp, simp, code_simp, code_simp)
qed

end
