(* ===== verification/LibMemory.thy ===== *)
theory LibMemory
  imports LineList
begin

text \<open>
  The memory copy of the C library, \<open>lib_memcpy\<close> and \<open>lib_memcpy_32\<close> of
  \<open>lib/libc/string/lib_memcpy.c\<close>, in the generic form that is compiled when the architecture has no
  \<open>__ARCH_MEMCPY\<close>.  The memory is a function from addresses to characters; the loops move two
  pointers, by bytes or by words, upwards or downwards.

  The name promises no more than \<open>memcpy\<close> does, but the line editor moves overlapping parts of its
  buffer with it: \<open>lib_memcpy_eq\<close> shows that the result is the one of \<open>memmove\<close>, whatever the
  overlap, the alignment and the word length.
\<close>

section \<open>The steps\<close>

record copy_state =
  cp_mem :: "addr \<Rightarrow> c_char"
  cp_dest :: addr
  cp_src :: addr

text \<open>A word of \<open>k\<close> bytes is read as a whole before it is written.\<close>

definition store_word :: "nat \<Rightarrow> addr \<Rightarrow> addr \<Rightarrow> (addr \<Rightarrow> c_char) \<Rightarrow> addr \<Rightarrow> c_char" where
  "store_word k d s m = (\<lambda>a. if d \<le> a \<and> a < d + k then m (s + (a - d)) else m a)"

text \<open>\<open>*pucDest++ = *pucSrc++\<close> and \<open>*--pucDest = *--pucSrc\<close>, on items of \<open>k\<close> bytes.\<close>

definition copy_up :: "nat \<Rightarrow> copy_state \<Rightarrow> copy_state" where
  "copy_up k st =
     \<lparr>cp_mem = store_word k (cp_dest st) (cp_src st) (cp_mem st),
      cp_dest = cp_dest st + k, cp_src = cp_src st + k\<rparr>"

definition copy_down :: "nat \<Rightarrow> copy_state \<Rightarrow> copy_state" where
  "copy_down k st =
     \<lparr>cp_mem = store_word k (cp_dest st - k) (cp_src st - k) (cp_mem st),
      cp_dest = cp_dest st - k, cp_src = cp_src st - k\<rparr>"

fun exc_tiny_loop :: "nat \<Rightarrow> (copy_state \<Rightarrow> copy_state) \<Rightarrow> copy_state \<Rightarrow> copy_state" where
  "exc_tiny_loop 0 s st = st"
| "exc_tiny_loop (Suc cnt) s st = exc_tiny_loop cnt s (s st)"

fun exc_block_loop :: "nat \<Rightarrow> (copy_state \<Rightarrow> copy_state) \<Rightarrow> copy_state \<Rightarrow> nat \<times> copy_state" where
  "exc_block_loop cnt s st =
     (if 16 \<le> cnt
      then exc_block_loop (cnt - 16) s
             (s (s (s (s (s (s (s (s (s (s (s (s (s (s (s (s st))))))))))))))))
      else (cnt, st))"

declare exc_block_loop.simps [simp del]

section \<open>The copies\<close>

text \<open>The part that both functions share: \<open>stCount / size\<close> words, then the bytes that are left.\<close>

definition copy_words :: "nat \<Rightarrow> (nat \<Rightarrow> copy_state \<Rightarrow> copy_state) \<Rightarrow> nat \<Rightarrow> copy_state \<Rightarrow> copy_state" where
  "copy_words w s stCount st =
     (let (ulLoop, st) = exc_block_loop (stCount div w) (s w) st;
          st = exc_tiny_loop ulLoop (s w) st
      in exc_tiny_loop (stCount mod w) (s 1) st)"

definition lib_memcpy_32 :: "nat \<Rightarrow> copy_state \<Rightarrow> copy_state" where
  "lib_memcpy_32 stCount st =
     (if cp_dest st < cp_src st then
        (let aligned = cp_src st mod 4 = 0 \<and> cp_dest st mod 4 = 0;
             ulLoop = (if aligned then 0
                       else if cp_src st mod 4 \<noteq> cp_dest st mod 4 then stCount
                       else 4 - cp_src st mod 4);
             st = exc_tiny_loop ulLoop (copy_up 1) st
         in copy_words 4 copy_up (stCount - ulLoop) st)
      else
        (let st = st\<lparr>cp_src := cp_src st + stCount, cp_dest := cp_dest st + stCount\<rparr>;
             aligned = cp_src st mod 4 = 0 \<and> cp_dest st mod 4 = 0;
             ulLoop = (if aligned then 0
                       else if cp_src st mod 4 \<noteq> cp_dest st mod 4 then stCount
                       else cp_src st mod 4);
             st = exc_tiny_loop ulLoop (copy_down 1) st
         in copy_words 4 copy_down (stCount - ulLoop) st))"

definition lib_memcpy :: "bool \<Rightarrow> (addr \<Rightarrow> c_char) \<Rightarrow> addr \<Rightarrow> addr \<Rightarrow> nat \<Rightarrow> addr \<Rightarrow> c_char" where
  "lib_memcpy cpu64 m pvDest pvSrc stCount =
     (let w = (if cpu64 then 8 else 4);
          st = \<lparr>cp_mem = m, cp_dest = pvDest, cp_src = pvSrc\<rparr> in
      if stCount = 0 \<or> pvDest = pvSrc then m
      else if pvDest < pvSrc then
        (if pvSrc mod w = 0 \<and> pvDest mod w = 0 then cp_mem (copy_words w copy_up stCount st)
         else if stCount < w - 1 then
           cp_mem (copy_words w copy_up 0 (exc_tiny_loop stCount (copy_up 1) st))
         else if pvSrc mod w \<noteq> pvDest mod w then
           (if cpu64 then cp_mem (lib_memcpy_32 stCount st)
            else cp_mem (copy_words w copy_up 0 (exc_tiny_loop stCount (copy_up 1) st)))
         else
           (let ulLoop = w - pvSrc mod w;
                st = exc_tiny_loop ulLoop (copy_up 1) st
            in cp_mem (copy_words w copy_up (stCount - ulLoop) st)))
      else
        (let st' = st\<lparr>cp_src := pvSrc + stCount, cp_dest := pvDest + stCount\<rparr> in
         if cp_src st' mod w = 0 \<and> cp_dest st' mod w = 0 then cp_mem (copy_words w copy_down stCount st')
         else if stCount < w - 1 then
           cp_mem (copy_words w copy_down 0 (exc_tiny_loop stCount (copy_down 1) st'))
         else if cp_src st' mod w \<noteq> cp_dest st' mod w then
           (if cpu64 then cp_mem (lib_memcpy_32 stCount st)
            else cp_mem (copy_words w copy_down 0 (exc_tiny_loop stCount (copy_down 1) st')))
         else
           (let ulLoop = cp_src st' mod w;
                st' = exc_tiny_loop ulLoop (copy_down 1) st'
            in cp_mem (copy_words w copy_down (stCount - ulLoop) st'))))"

section \<open>What a run of steps does\<close>

lemma store_word_0 [simp]: "store_word 0 d s m = m"
  by (rule ext) (auto simp: store_word_def)

lemma store_word_up:
  "d < s \<Longrightarrow> store_word j (d + k) (s + k) (store_word k d s m) = store_word (k + j) d s m"
  by (rule ext) (auto simp: store_word_def)

lemma store_word_down:
  "s < d \<Longrightarrow> store_word j d s (store_word k (d + j) (s + j) m) = store_word (j + k) d s m"
  by (rule ext) (auto simp: store_word_def)

text \<open>
  Both directions obey the same law: steps add up, as long as the state \<open>ok\<close>s the whole way.  The
  loops are treated once, for a step with that law.
\<close>

locale copy_step =
  fixes s :: "nat \<Rightarrow> copy_state \<Rightarrow> copy_state"
    and ok :: "copy_state \<Rightarrow> nat \<Rightarrow> bool"
  assumes step_0: "s 0 st = st"
    and step_add: "ok st (k + j) \<Longrightarrow> s j (s k st) = s (k + j) st"
    and step_ok: "ok st (k + j) \<Longrightarrow> ok (s k st) j"
    and ok_le: "ok st k \<Longrightarrow> j \<le> k \<Longrightarrow> ok st j"
begin

lemma tiny: "ok st (n * k) \<Longrightarrow> exc_tiny_loop n (s k) st = s (n * k) st"
proof (induction n arbitrary: st)
  case (Suc n)
  then show ?case using Suc.IH[of "s k st"] step_ok step_add by simp
qed (simp add: step_0)

lemma sixteen:
  "ok st (16 * k) \<Longrightarrow>
   s k (s k (s k (s k (s k (s k (s k (s k (s k (s k (s k (s k (s k (s k (s k (s k st))))))))))))))) =
     s (16 * k) st"
  using tiny[of st 16 k] by (simp add: eval_nat_numeral)

lemma block: "ok st (n * k) \<Longrightarrow> exc_block_loop n (s k) st = (n mod 16, s ((n - n mod 16) * k) st)"
proof (induction n arbitrary: st rule: less_induct)
  case (less n)
  show ?case
  proof (cases "16 \<le> n")
    case True
    then obtain m where n: "n = 16 + m" by (auto simp: le_iff_add)
    have ok: "ok st (16 * k + m * k)" using less.prems n by (simp add: algebra_simps)
    have 1: "ok (s (16 * k) st) (m * k)" by (rule step_ok[OF ok])
    have le: "m mod 16 \<le> m" by simp
    have "ok st (16 * k + (m - m mod 16) * k)"
      by (rule ok_le[OF ok]) simp
    then have 2: "s ((m - m mod 16) * k) (s (16 * k) st) = s ((n - n mod 16) * k) st"
      using step_add[of st "16 * k" "(m - m mod 16) * k"] n le
      by (simp add: algebra_simps)
    have 3: "ok st (16 * k)" by (rule ok_le[OF ok]) simp
    show ?thesis
      using less.IH[OF _ 1] 2 sixteen[OF 3] n by (subst exc_block_loop.simps) simp
  next
    case False
    then show ?thesis by (subst exc_block_loop.simps) (simp add: step_0)
  qed
qed

lemma words: "ok st n \<Longrightarrow> 0 < w \<Longrightarrow> copy_words w s n st = s n st"
proof -
  assume ok: "ok st n" and w: "0 < w"
  let ?q = "n div w"
  have q: "?q * w \<le> n" by (simp add: mult.commute)
  have okq: "ok st (?q * w)" by (rule ok_le[OF ok q])
  have split: "(?q - ?q mod 16) * w + (?q mod 16) * w = ?q * w"
    by (simp add: diff_mult_distrib)
  then have ok1: "ok st ((?q - ?q mod 16) * w + (?q mod 16) * w)" using okq by simp
  have 1: "exc_tiny_loop (?q mod 16) (s w) (s ((?q - ?q mod 16) * w) st) = s (?q * w) st"
    using tiny[OF step_ok[OF ok1]] step_add[OF ok1] split by simp
  have ok2: "ok st (?q * w + (n mod w) * 1)" using ok by simp
  have 2: "exc_tiny_loop (n mod w) (s 1) (s (?q * w) st) = s n st"
    using tiny[OF step_ok[OF ok2]] step_add[OF ok2] by simp
  show ?thesis unfolding copy_words_def block[OF okq] using 1 2 by simp
qed

lemma bytes_then_words:
  "ok st n \<Longrightarrow> 0 < w \<Longrightarrow> b \<le> n \<Longrightarrow> copy_words w s (n - b) (exc_tiny_loop b (s 1) st) = s n st"
  using tiny[of st b 1] words[of "s b st" "n - b" w] step_ok[of st b "n - b"] step_add[of st b "n - b"]
    ok_le[of st n b] by simp

end

lemma store_up_id: "cp_dest st < cp_src st \<Longrightarrow> copy_up j (copy_up k st) = copy_up (k + j) st"
  by (simp add: copy_up_def store_word_up)

interpretation up: copy_step copy_up "\<lambda>st n. cp_dest st < cp_src st"
  by unfold_locales (auto simp: store_up_id, auto simp: copy_up_def)

interpretation down: copy_step copy_down "\<lambda>st n. n \<le> cp_src st \<and> cp_src st < cp_dest st"
proof unfold_locales
  fix st :: copy_state and k j
  assume ok: "k + j \<le> cp_src st \<and> cp_src st < cp_dest st"
  let ?s = "cp_src st - k - j" and ?d = "cp_dest st - k - j"
  have "cp_dest st - k = ?d + j" "cp_src st - k = ?s + j" "?s < ?d" using ok by auto
  then show "copy_down j (copy_down k st) = copy_down (k + j) st"
    using store_word_down[of ?s ?d j k "cp_mem st"] by (simp add: copy_down_def add.commute)
qed (auto simp: copy_down_def)

section \<open>The copy is a move\<close>

lemma copy_up_mem [simp]: "cp_mem (copy_up n st) = store_word n (cp_dest st) (cp_src st) (cp_mem st)"
  by (simp add: copy_up_def)

lemma memcpy_32_up:
  assumes "cp_dest st < cp_src st" "4 \<le> n"
  shows "lib_memcpy_32 n st = copy_up n st"
proof -
  define l where "l = (if cp_src st mod 4 = 0 \<and> cp_dest st mod 4 = 0 then 0
                       else if cp_src st mod 4 \<noteq> cp_dest st mod 4 then n else 4 - cp_src st mod 4)"
  have "lib_memcpy_32 n st = copy_words 4 copy_up (n - l) (exc_tiny_loop l (copy_up 1) st)"
    using assms by (simp add: lib_memcpy_32_def l_def Let_def)
  also have "\<dots> = copy_up n st"
    by (rule up.bytes_then_words) (use assms in \<open>auto simp: l_def\<close>)
  finally show ?thesis .
qed

lemma memcpy_32_down:
  assumes "cp_src st < cp_dest st" "4 \<le> n"
  shows "cp_mem (lib_memcpy_32 n st) = store_word n (cp_dest st) (cp_src st) (cp_mem st)"
proof -
  let ?st = "st\<lparr>cp_src := cp_src st + n, cp_dest := cp_dest st + n\<rparr>"
  have le: "cp_src ?st mod 4 \<le> n" using assms mod_less_divisor[of 4 "cp_src ?st"] by linarith
  have "lib_memcpy_32 n st = copy_down n ?st"
    using assms le down.bytes_then_words[where st = ?st and n = n and w = 4]
    by (auto simp: lib_memcpy_32_def Let_def)
  then show ?thesis by (simp add: copy_down_def)
qed

lemma lib_memcpy_eq: "lib_memcpy cpu64 m d s n = store_word n d s m"
proof -
  define w where "w = (if cpu64 then 8 else 4 :: nat)"
  have w: "0 < w" "\<And>x. x mod w < w" "4 \<le> w" by (auto simp: w_def)
  let ?st = "\<lparr>cp_mem = m, cp_dest = d, cp_src = s\<rparr>"
  let ?sd = "\<lparr>cp_mem = m, cp_dest = d + n, cp_src = s + n\<rparr>"
  consider "n = 0 \<or> d = s" | "0 < n" "d < s" | "0 < n" "s < d" by linarith
  then show ?thesis
  proof cases
    case 1
    then show ?thesis by (intro ext) (auto simp: lib_memcpy_def Let_def store_word_def)
  next
    case 2
    have u: "copy_words w copy_up (n - b) (exc_tiny_loop b (copy_up 1) ?st) = copy_up n ?st" if "b \<le> n" for b
      using up.bytes_then_words[where st = ?st and n = n and w = w and b = b] 2 w that by simp
    have b: "s mod w \<noteq> 0 \<Longrightarrow> w - 1 \<le> n \<Longrightarrow> w - s mod w \<le> n" by linarith
    have r: "cpu64 \<Longrightarrow> w - 1 \<le> n \<Longrightarrow> lib_memcpy_32 n ?st = copy_up n ?st"
      by (rule memcpy_32_up) (use 2 in \<open>auto simp: w_def\<close>)
    show ?thesis
      using 2 u[of 0] u[of n] u[of "w - s mod w"] b r
      unfolding lib_memcpy_def w_def[symmetric] Let_def
      by (auto simp: not_less)
  next
    case 3
    have u: "copy_words w copy_down (n - b) (exc_tiny_loop b (copy_down 1) ?sd) = copy_down n ?sd" if "b \<le> n" for b
      using down.bytes_then_words[where st = ?sd and n = n and w = w and b = b] 3 w that by simp
    have b: "w - 1 \<le> n \<Longrightarrow> (s + n) mod w \<le> n" using w(2)[of "s + n"] by linarith
    have r: "cpu64 \<Longrightarrow> w - 1 \<le> n \<Longrightarrow> cp_mem (lib_memcpy_32 n ?st) = store_word n d s m"
      using memcpy_32_down[of ?st n] 3 by (auto simp: w_def)
    have c: "cp_mem (copy_down n ?sd) = store_word n d s m" by (simp add: copy_down_def)
    show ?thesis
      using 3 u[of 0] u[of n] u[of "(s + n) mod w"] b r c
      unfolding lib_memcpy_def w_def[symmetric] Let_def
      by (auto simp: not_less)
  qed
qed

end
