(* ===== verification/TrieUse.thy ===== *)
theory TrieUse
  imports TrieFile
begin

text \<open>
  What a history trie needs for its searches, also after it was saved and loaded: the counters may be
  wrong (\<open>TrieFile\<close>), but from every node in use the stored characters lead to the end of a command.
  \<open>trie_use\<close> is the invariant, for characters of a set \<open>P\<close>; insertion, saving and loading keep it, and
  under it every search answers with the rest of a recorded command.
\<close>

section \<open>The invariant\<close>

text \<open>A node from which a search can go on.\<close>

definition live :: "(c_char \<Rightarrow> bool) \<Rightarrow> trie \<Rightarrow> bool" where
  "live P t \<longleftrightarrow> isEnd t \<or>
     (case mostFrequentlyUsedChar t of None \<Rightarrow> False
      | Some d \<Rightarrow> P d \<and> (case child t of None \<Rightarrow> False | Some g \<Rightarrow> isValid (g d)))"

definition node_use ::
    "(c_char \<Rightarrow> bool) \<Rightarrow> bool \<Rightarrow> 15 word \<Rightarrow> (c_char \<Rightarrow> trie) option \<Rightarrow> bool" where
  "node_use P e m ch =
     (case ch of None \<Rightarrow> \<not> e \<and> m = 0 | Some g \<Rightarrow> \<forall>c. isValid (g c) \<longrightarrow> P c \<and> live P (g c))"

primrec trie_use :: "(c_char \<Rightarrow> bool) \<Rightarrow> trie \<Rightarrow> bool" where
  "trie_use P (TrieNode e f m k ch) =
     (node_use P e m ch \<and>
      (case map_option (\<lambda>g. trie_use P \<circ> g) ch of None \<Rightarrow> True | Some h \<Rightarrow> \<forall>c. h c))"

lemma trie_use_unfold:
  "trie_use P t \<longleftrightarrow>
     node_use P (isEnd t) (maxFrequence t) (child t) \<and>
     (\<forall>g. child t = Some g \<longrightarrow> (\<forall>c. trie_use P (g c)))"
  by (cases t) (auto split: option.splits)

lemma trie_use_init [simp]: "trie_use P initialize_trie_node"
  by (simp add: trie_use_unfold[of P initialize_trie_node] node_use_def)

lemma trie_use_root [simp]: "trie_use P trieGetRoot"
  by (simp add: trieGetRoot_def trie_use_unfold[of P "trieNodeValidate _"] node_use_def)

lemma live_mono: "live P t \<Longrightarrow> (\<And>c. P c \<Longrightarrow> Q c) \<Longrightarrow> live Q t"
  by (auto simp: live_def split: option.splits)

lemma trie_use_child:
  assumes "trie_use P t" "child t = Some g"
  shows "trie_use P (g c)" "isValid (g c) \<Longrightarrow> P c \<and> live P (g c)"
  using assms by (auto simp: trie_use_unfold[of P t] node_use_def)

lemma trie_use_mono: "trie_use P t \<Longrightarrow> (\<And>c. P c \<Longrightarrow> Q c) \<Longrightarrow> trie_use Q t"
proof (induction t)
  case (TrieNode e f m k ch)
  show ?case
  proof (cases ch)
    case (Some g)
    then have "trie_use Q (g c)" for c
      using TrieNode.IH[of g "g c"] TrieNode.prems(2) trie_use_child(1)[OF TrieNode.prems(1), of g c] by simp
    then show ?thesis
      using TrieNode.prems Some by (auto simp: node_use_def fun_eq_iff intro: live_mono[of P _ Q])
  qed (use TrieNode.prems in \<open>simp add: node_use_def\<close>)
qed

section \<open>Insertion\<close>

lemma trie_use_touch:
  assumes "trie_use P t" "child (trieTouch t) = Some g"
  shows "trie_use P (g c)" "isValid (g c) \<Longrightarrow> P c \<and> live P (g c)"
  using assms by (auto simp: child_touch trie_use_child split: option.splits)

lemma trieInsert_use:
  "trieInsert t s = Inr u \<Longrightarrow> trie_use P t \<Longrightarrow> list_all P s \<Longrightarrow>
   trie_use P u \<and> (live P t \<or> \<not> isValid t \<longrightarrow> live P u)"
proof (induction s arbitrary: t u)
  case Nil
  obtain g where g: "child (trieTouch t) = Some g" by (simp add: child_touch)
  from Nil.prems(1) have "isEnd u" "child u = Some g" by (auto simp: Let_def g)
  then show ?case
    using trie_use_touch[OF Nil.prems(2) g] by (auto simp: trie_use_unfold[of P u] node_use_def live_def)
next
  case (Cons c s)
  from Cons.prems(1) obtain g v where g: "child (trieTouch t) = Some g"
    and v: "trieInsert (g c) s = Inr v" and u: "child u = Some (g(c := v))" "isEnd u = isEnd t"
      "mostFrequentlyUsedChar u =
         (if maxFrequence t \<le> frequence v then Some c else mostFrequentlyUsedChar t)"
    by (elim trieInsert_ConsE) auto
  have c: "P c" "list_all P s" using Cons.prems(3) by auto
  note touch = trie_use_touch[OF Cons.prems(2) g]
  have valid: "isValid v" using v by (rule trieInsert_valid)
  have IH: "trie_use P v" "live P v"
    using Cons.IH[OF v touch(1) c(2)] touch(2)[of c] by blast+
  have "trie_use P u"
    using touch IH c(1) by (auto simp: trie_use_unfold[of P u] node_use_def u(1))
  moreover have "live P u" if l: "live P t \<or> \<not> isValid t"
  proof (cases "maxFrequence t \<le> frequence v")
    case True
    then show ?thesis using valid c(1) by (simp add: live_def u)
  next
    case False
    have "isValid t"
    proof (rule ccontr)
      assume "\<not> isValid t"
      then have "maxFrequence t = 0" using Cons.prems(2) by (auto simp: trie_use_unfold[of P t] node_use_def isValid_def)
      then show False using False by simp
    qed
    then have "live P t" "child t = Some g" using l g by (auto simp: isValid_def child_touch)
    then show ?thesis using False valid by (auto simp: live_def u split: option.splits)
  qed
  ultimately show ?case by blast
qed

lemma trieInsertAll_use:
  "trieInsertAll t ws = Inr u \<Longrightarrow> trie_use P t \<Longrightarrow> list_all (list_all P) ws \<Longrightarrow> trie_use P u"
  by (induction ws arbitrary: t) (auto simp: bind_res_Inr dest: trieInsert_use)

section \<open>Search\<close>

lemma trieFollow_use:
  "trie_use P t \<Longrightarrow> live P t \<Longrightarrow> isValid t \<Longrightarrow> (\<And>c. P c \<Longrightarrow> ascii c) \<Longrightarrow>
   2 \<le> bufferLen \<Longrightarrow> length buf < bufferLen \<Longrightarrow>
   \<exists>s. trieFollow t bufferLen buf = Inr (buf @ s) \<and> is_word t s \<and> list_all P s"
proof (induction t arbitrary: bufferLen buf)
  case (TrieNode e f m k ch)
  let ?t = "TrieNode e f m k ch"
  define b where "b = (if length buf \<ge> bufferLen - 1 then 3 * bufferLen div 2 else bufferLen)"
  have b: "2 \<le> b" "length buf + 1 < b" using TrieNode.prems(5,6) by (auto simp: b_def)
  have step: "trieFollow ?t bufferLen buf =
    (if e then Inr buf else case k of None \<Rightarrow> Inl Uninitialised_Char
     | Some c \<Rightarrow> (case ch of None \<Rightarrow> Inl Invalid_Child
         | Some g \<Rightarrow> if schar c < 0 then Inl Negative_Index else trieFollow (g c) b (buf @ [c])))"
    using b unfolding b_def by (auto simp: Let_def split: option.splits)
  show ?case
  proof (cases e)
    case True
    then show ?thesis unfolding step by (intro exI[of _ "[]"]) simp
  next
    case False
    with TrieNode.prems(2) obtain c g where cg: "k = Some c" "ch = Some g" "P c" "isValid (g c)"
      by (auto simp: live_def split: option.splits)
    have gc: "trie_use P (g c)" "live P (g c)"
      using trie_use_child[OF TrieNode.prems(1), of g c] cg by auto
    obtain s where "trieFollow (g c) b (buf @ [c]) = Inr ((buf @ [c]) @ s)" "is_word (g c) s" "list_all P s"
      using TrieNode.IH[of g "g c" b "buf @ [c]"] cg gc b TrieNode.prems(4) by auto
    with False cg show ?thesis
      using TrieNode.prems(4)[of c] unfolding step
      by (intro exI[of _ "c # s"]) (auto simp: ascii_def)
  qed
qed

lemma invalid_init: "trie_use P t \<Longrightarrow> \<not> isValid t \<Longrightarrow> \<not> is_word t q \<and> trieSearch t q = Inr None"
  by (cases q) (auto simp: trie_use_unfold[of P t] node_use_def isValid_def)

lemma trieSearch_use:
  assumes "trie_use P t" "live P t \<or> \<not> isValid t \<or> p \<noteq> []" "\<And>c. P c \<Longrightarrow> ascii c" "ascii_str p"
  shows "(trieSearch t p = Inr None \<and> (\<forall>q. \<not> is_word t (p @ q))) \<or>
    (\<exists>s. trieSearch t p = Inr (Some s) \<and> is_word t (p @ s) \<and> list_all P s)"
  using assms
proof (induction t p rule: trieSearch.induct)
  case (1 t)
  show ?case
  proof (cases "isValid t")
    case True
    with 1 trieFollow_use[of P t 10 "[]"] show ?thesis by auto
  next
    case False
    then show ?thesis using invalid_init[OF "1.prems"(1)] by auto
  qed
next
  case (2 t c s)
  show ?case
  proof (cases "child t")
    case (Some g)
    have c: "ascii c" "ascii_str s" using "2.prems"(4) by auto
    then have c0: "\<not> schar c < 0" by (simp add: ascii_def)
    have "live P (g c) \<or> \<not> isValid (g c) \<or> s \<noteq> []"
      using trie_use_child(2)[OF "2.prems"(1) Some, of c] by blast
    from "2.IH"[OF Some c0 trie_use_child(1)[OF "2.prems"(1) Some] this "2.prems"(3) c(2)]
    show ?thesis using Some c by (auto simp: ascii_def)
  qed simp
qed

section \<open>Saving and loading\<close>

lemma live_reload: "live P u \<Longrightarrow> live P (reload junk u)"
  by (auto simp: live_def child_reload stored_char_def child_at_def split: option.splits)

lemma reload_use: "trie_use P u \<Longrightarrow> trie_use P (reload junk u)"
proof (induction u)
  case (TrieNode e f m k ch)
  let ?u = "TrieNode e f m k ch"
  show ?case
  proof (cases ch)
    case None
    then show ?thesis
      by (subst trie_use_unfold) (simp add: child_reload node_use_def child_at_def del: reload.simps)
  next
    case (Some g)
    have "trie_use P (reload junk (g c))" for c
      using TrieNode.IH[of g "g c"] Some trie_use_child(1)[OF TrieNode.prems, of g c] by auto
    moreover have "P c \<and> live P (reload junk (g c))" if "isValid (g c)" for c
      using trie_use_child(2)[OF TrieNode.prems, of g c] Some that live_reload by auto
    ultimately show ?thesis
      using Some by (subst trie_use_unfold) (simp add: child_reload node_use_def child_at_def del: reload.simps)
  qed
qed

lemma reload_root_use:
  assumes "trie_use P t"
  shows "trie_use P (reload_root junk t)" "isValid (reload_root junk t)"
proof -
  have kid: "trie_use P (child_at t c)" "isValid (child_at t c) \<Longrightarrow> P c \<and> live P (child_at t c)" for c
    using trie_use_child[OF assms] by (auto simp: child_at_def split: option.splits)
  then show "trie_use P (reload_root junk t)"
    by (auto simp: reload_root_def node_use_def set_valid_chars reload_use live_reload)
qed (simp add: reload_root_def isValid_def)

lemma is_word_reload: "trie_use P u \<Longrightarrow> is_word (reload junk u) w = is_word u w"
proof (induction w arbitrary: u)
  case (Cons c w)
  have kid: "trie_use P (child_at u c)"
    using trie_use_child[OF Cons.prems] by (auto simp: child_at_def split: option.splits)
  have word: "is_word u (c # w) = is_word (child_at u c) w"
    by (cases w) (auto simp: child_at_def split: option.splits)
  show ?case
    using Cons.IH[OF kid] invalid_init[OF kid, of w]
    unfolding word by (cases w) (auto simp: child_reload simp del: reload.simps)
qed simp

lemma is_word_reload_root:
  assumes "trie_use P t"
  shows "is_word (reload_root junk t) (c # w) = is_word t (c # w)"
proof -
  have kid: "trie_use P (child_at t c)"
    using trie_use_child[OF assms] by (auto simp: child_at_def split: option.splits)
  have word: "is_word t (c # w) = is_word (child_at t c) w"
    by (cases w) (auto simp: child_at_def split: option.splits)
  show ?thesis
    using is_word_reload[OF kid, of junk w] invalid_init[OF kid, of w] unfolding word
    by (cases w) (auto simp: reload_root_def set_valid_chars)
qed

lemma use_storable: "trie_use P t \<Longrightarrow> (\<And>c. P c \<Longrightarrow> storable c) \<Longrightarrow> trie_storable t"
proof -
  assume P: "\<And>c. P c \<Longrightarrow> storable c"
  have "list_all storable p" if "trie_use P t" "node_at t p = Some u" "isValid u" for t p u
    using that
  proof (induction p arbitrary: t)
    case (Cons c p)
    then obtain g where g: "child t = Some g" "node_at (g c) p = Some u" by (auto split: option.splits)
    have "isValid (g c)"
    proof (cases p)
      case Nil
      then show ?thesis using g Cons.prems(3) by simp
    next
      case (Cons d q)
      then show ?thesis using g by (auto simp: isValid_def split: option.splits)
    qed
    then show ?case using Cons g P trie_use_child[OF Cons.prems(1) g(1), of c] by auto
  qed simp
  then show "trie_use P t \<Longrightarrow> trie_storable t" unfolding trie_storable_def by blast
qed

lemma saved_trie_loads:
  assumes "trie_use storable t"
  shows "trieFromFile (trieToFile junk t) = Inr (Load_Done, reload_root junk t)"
  using trie_file_roundtrip[OF use_storable[OF assms], of junk "[]"] by simp

text \<open>A trie that was saved and loaded answers every search as before.\<close>

lemma trieFollow_reload_use:
  "trie_use P u \<Longrightarrow> live P u \<Longrightarrow> trieFollow (reload junk u) b buf = trieFollow u b buf"
proof (induction u arbitrary: b buf)
  case (TrieNode e f m k ch)
  let ?u = "TrieNode e f m k ch"
  show ?case
  proof (cases e)
    case True
    then show ?thesis by (simp add: trieFollow_unfold[of "reload junk ?u"] Let_def)
  next
    case False
    with TrieNode.prems(2) obtain c g where cg: "k = Some c" "ch = Some g" "isValid (g c)"
      by (auto simp: live_def split: option.splits)
    have "trie_use P (g c)" "live P (g c)"
      using trie_use_child[OF TrieNode.prems(1), of g c] cg by auto
    then have "trieFollow (reload junk (g c)) b' buf' = trieFollow (g c) b' buf'" for b' buf'
      using TrieNode.IH[of g "g c"] cg by simp
    with False cg show ?thesis
      unfolding trieFollow_unfold[of "reload junk ?u"] trieFollow_unfold[of ?u]
      by (simp add: child_reload stored_char_def child_at_def Let_def
          del: reload.simps trieFollow.simps)
  qed
qed

lemma trieSearch_reload_use:
  "trie_use P u \<Longrightarrow> live P u \<Longrightarrow> isValid u \<Longrightarrow> trieSearch (reload junk u) p = trieSearch u p"
proof (induction p arbitrary: u)
  case (Cons c p)
  then obtain g where g: "child u = Some g" by (auto simp: isValid_def)
  note gc = trie_use_child[OF Cons.prems(1) g, of c]
  show ?case
    using Cons.IH[OF gc(1)] gc(2) invalid_init[OF gc(1), of p] invalid_init[OF trie_use_init, of p] g
    by (auto simp: child_reload child_at_def simp del: reload.simps)
qed (simp add: trieFollow_reload_use)

lemma reload_root_search:
  assumes "trie_use P t" "isValid t"
  shows "trieSearch (reload_root junk t) (c # p) = trieSearch t (c # p)"
proof -
  obtain g where g: "child t = Some g" using assms(2) by (auto simp: isValid_def)
  note gc = trie_use_child[OF assms(1) g, of c]
  show ?thesis
    using trieSearch_reload_use[OF gc(1)] gc(2) invalid_init[OF gc(1), of p] invalid_init[OF trie_use_init, of p] g
    by (auto simp: reload_root_def set_valid_chars child_at_def)
qed

end
