(* ===== verification/LineEdit.thy ===== *)
theory LineEdit
  imports LibMemory LibString ShellDefs Trie ShellVar
begin

text \<open>
  The line editor of the shell, first part of \<open>ttinyShell/ttinyShellReadline.c\<close>: the input context,
  the suggestion taken from the history trie, and the function of every editing key.

  The state is the structure \<open>__SHELL_INPUT_CTX\<close> with the globals \<open>_historyTrieRoot\<close>, \<open>_lastMatch\<close>
  and \<open>_lastMatchLength\<close>, and \<open>ed_tty\<close>, the calls that write to the terminal, in their order.
  \<open>_lastMatch\<close> owns a heap string: \<open>Match_Live\<close> has its characters, \<open>Match_Freed\<close> is a pointer that was
  freed and not cleared.  The lengths are kept as \<open>nat\<close>: \<open>edit_ok\<close> bounds them by the size of the
  buffer, so no \<open>UINT\<close> wraps.  \<open>ed_cpu64\<close> and \<open>ed_addr\<close> are the word length of the processor and the
  address of the buffer, which \<open>lib_memcpy\<close> looks at.  Allocations are taken to succeed, and the
  terminal to be a VT100, for which the colour calls flush \<open>stdout\<close>.
\<close>

section \<open>State\<close>

datatype match_ptr = Match_Null | Match_Live cstring | Match_Freed

datatype tty_color = Dary_Gray | Green | Of_Mode

datatype tty_out =
    Tty_Write "c_char list" | Tty_Print cstring
  | Tty_Key_Left | Tty_Key_Right | Tty_Left nat | Tty_Right nat | Tty_Clear_End
  | Tty_Color_Start tty_color | Tty_Color_End | Tty_Prompt

datatype edit_fault =
    Buffer_Bounds | Buffer_Unterminated | Match_Bounds | Use_After_Free | Double_Free
  | Null_Trie | Negative_Length | Array_Underflow | Listing_Endless
  | Trie_Fault trie_fault | Convert_Fault var_fault

record edit_state =
  SIC_uiCursor :: nat
  SIC_uiTotalLen :: nat
  SIC_cInputBuffer :: "c_char list"
  historyTrieRoot :: "trie option"
  lastMatch :: match_ptr
  lastMatchLength :: int
  ed_tty :: "tty_out list"
  ed_cpu64 :: bool
  ed_addr :: addr

type_synonym edit_result = "edit_fault + edit_state"

definition tty_put :: "tty_out \<Rightarrow> edit_state \<Rightarrow> edit_state" where
  "tty_put e st = st\<lparr>ed_tty := ed_tty st @ [e]\<rparr>"

section \<open>The buffer\<close>

text \<open>An assignment \<open>CTX_BUFFER[i] = c\<close>.\<close>

definition buf_set :: "nat \<Rightarrow> c_char \<Rightarrow> edit_state \<Rightarrow> edit_result" where
  "buf_set i c st =
     (if i < length (SIC_cInputBuffer st)
      then Inr (st\<lparr>SIC_cInputBuffer := (SIC_cInputBuffer st)[i := c]\<rparr>)
      else Inl Buffer_Bounds)"

text \<open>\<open>lib_memcpy(&CTX_BUFFER[d], &CTX_BUFFER[s], n)\<close>.\<close>

definition buf_memcpy :: "nat \<Rightarrow> nat \<Rightarrow> nat \<Rightarrow> edit_state \<Rightarrow> edit_result" where
  "buf_memcpy d s n st =
     (let buf = SIC_cInputBuffer st; a = ed_addr st in
      if d + n \<le> length buf \<and> s + n \<le> length buf
      then Inr (st\<lparr>SIC_cInputBuffer :=
             map (lib_memcpy (ed_cpu64 st) (\<lambda>x. buf ! (x - a)) (a + d) (a + s) n) [a..<a + length buf]\<rparr>)
      else Inl Buffer_Bounds)"

text \<open>The \<open>n\<close> characters at \<open>&CTX_BUFFER[i]\<close>, as a call reads them.\<close>

definition buf_read :: "nat \<Rightarrow> nat \<Rightarrow> edit_state \<Rightarrow> edit_fault + c_char list" where
  "buf_read i n st =
     (if i + n \<le> length (SIC_cInputBuffer st) then Inr (take n (drop i (SIC_cInputBuffer st)))
      else Inl Buffer_Bounds)"

text \<open>The string that the buffer holds, and a string copied to its start.\<close>

definition buf_str :: "edit_state \<Rightarrow> edit_fault + cstring" where
  "buf_str st =
     (if EOS \<in> set (SIC_cInputBuffer st) then Inr (takeWhile (\<lambda>c. c \<noteq> EOS) (SIC_cInputBuffer st))
      else Inl Buffer_Unterminated)"

definition buf_put_str :: "cstring \<Rightarrow> edit_state \<Rightarrow> edit_result" where
  "buf_put_str s st =
     (if length s < length (SIC_cInputBuffer st)
      then Inr (st\<lparr>SIC_cInputBuffer := s @ EOS # drop (Suc (length s)) (SIC_cInputBuffer st)\<rparr>)
      else Inl Buffer_Bounds)"

definition tty_write_buf :: "nat \<Rightarrow> nat \<Rightarrow> edit_state \<Rightarrow> edit_result" where
  "tty_write_buf i n st = bind_res (buf_read i n st) (\<lambda>cs. Inr (tty_put (Tty_Write cs) st))"

section \<open>Spaces and backspaces\<close>

definition REPEAT_BUFFER_LEN :: nat where
  "REPEAT_BUFFER_LEN = 20"

definition KEY_BS :: c_char where
  "KEY_BS = CHR 0x08"

definition spaceBuffer :: "c_char list" where
  "spaceBuffer = replicate REPEAT_BUFFER_LEN BLANK"

definition backspaceBuffer :: "c_char list" where
  "backspaceBuffer = replicate REPEAT_BUFFER_LEN KEY_BS"

function fillRepeatBackspace :: "nat \<Rightarrow> edit_state \<Rightarrow> edit_state" where
  "fillRepeatBackspace stLen st =
     (if stLen > REPEAT_BUFFER_LEN
      then fillRepeatBackspace (stLen - REPEAT_BUFFER_LEN) (tty_put (Tty_Write backspaceBuffer) st)
      else tty_put (Tty_Write (take stLen backspaceBuffer)) st)"
  by pat_completeness auto

termination
  by (relation "measure fst") (auto simp: REPEAT_BUFFER_LEN_def)

function fillRepeatSpace :: "nat \<Rightarrow> edit_state \<Rightarrow> edit_state" where
  "fillRepeatSpace stLen st =
     (if stLen > REPEAT_BUFFER_LEN
      then fillRepeatSpace (stLen - REPEAT_BUFFER_LEN) (tty_put (Tty_Write spaceBuffer) st)
      else tty_put (Tty_Write (take stLen spaceBuffer)) st)"
  by pat_completeness auto

termination
  by (relation "measure fst") (auto simp: REPEAT_BUFFER_LEN_def)

declare fillRepeatBackspace.simps [simp del] fillRepeatSpace.simps [simp del]

section \<open>The suggestion\<close>

text \<open>The conversion of the \<open>int\<close> \<open>_lastMatchLength\<close> to the \<open>size_t\<close> of the fill functions.\<close>

definition match_len :: "edit_state \<Rightarrow> edit_fault + nat" where
  "match_len st =
     (if lastMatchLength st < 0 then Inl Negative_Length else Inr (nat (lastMatchLength st)))"

definition tshellClearHistorySuggestion :: "edit_state \<Rightarrow> edit_result" where
  "tshellClearHistorySuggestion st =
     bind_res (match_len st) (\<lambda>n. Inr (fillRepeatBackspace n (fillRepeatSpace n st)))"

text \<open>
  A search that leaves the trie inside the buffer reads no further than that, whatever length it is
  given; one that matches the whole buffer and was promised more reads behind it.
\<close>

definition tshellPrintHistorySuggestion :: "edit_state \<Rightarrow> edit_result" where
  "tshellPrintHistorySuggestion st =
     (if SIC_uiTotalLen st > 0 \<and> SIC_uiCursor st = SIC_uiTotalLen st then
        if lastMatch st = Match_Freed then Inl Double_Free
        else case historyTrieRoot st of
          None \<Rightarrow> Inl Null_Trie
        | Some root \<Rightarrow>
            (case trieSearch root (take (SIC_uiTotalLen st) (SIC_cInputBuffer st)) of
               Inl e \<Rightarrow> Inl (Trie_Fault e)
             | Inr None \<Rightarrow> Inr (st\<lparr>lastMatch := Match_Null, lastMatchLength := 0\<rparr>)
             | Inr (Some m) \<Rightarrow>
                 if SIC_uiTotalLen st > length (SIC_cInputBuffer st) then Inl Buffer_Bounds
                 else
                   (let m = takeWhile (\<lambda>c. c \<noteq> EOS) m;
                        st = st\<lparr>lastMatch := Match_Live m, lastMatchLength := int (lib_strlen m)\<rparr>;
                        st = tty_put (Tty_Color_Start Dary_Gray) st;
                        st = tty_put (Tty_Print m) st;
                        st = tty_put Tty_Color_End st
                    in Inr (fillRepeatBackspace (lib_strlen m) st)))
      else Inr st)"

section \<open>The keys\<close>

definition tshellCharLeft :: "edit_state \<Rightarrow> edit_state" where
  "tshellCharLeft st =
     (if SIC_uiCursor st > 0 then tty_put Tty_Key_Left (st\<lparr>SIC_uiCursor := SIC_uiCursor st - 1\<rparr>)
      else st)"

text \<open>
  The new string of \<open>__tshellCharRight\<close> has \<open>_lastMatchLength\<close> bytes, read before the decrement;
  \<open>strcpy\<close> writes the rest of the match and its terminator into it.
\<close>

definition tshellCharRight :: "edit_state \<Rightarrow> edit_result" where
  "tshellCharRight st =
     (if SIC_uiCursor st < SIC_uiTotalLen st then
        Inr (tty_put Tty_Key_Right (st\<lparr>SIC_uiCursor := SIC_uiCursor st + 1\<rparr>))
      else case lastMatch st of
        Match_Null \<Rightarrow> Inr st
      | Match_Freed \<Rightarrow> Inl Use_After_Free
      | Match_Live [] \<Rightarrow> Inr st
      | Match_Live (c # m) \<Rightarrow>
          bind_res (buf_set (SIC_uiTotalLen st) c st) (\<lambda>st.
            let st = st\<lparr>SIC_uiTotalLen := SIC_uiTotalLen st + 1\<rparr>;
                new_size = lastMatchLength st;
                st = st\<lparr>lastMatchLength := lastMatchLength st - 1\<rparr> in
            if new_size < int (lib_strlen m) + 1 then Inl Match_Bounds
            else Inr (tty_put Tty_Key_Right
                   (st\<lparr>lastMatch := Match_Live m, SIC_uiCursor := SIC_uiCursor st + 1\<rparr>))))"

definition tshellCharBackspace :: "edit_state \<Rightarrow> edit_result" where
  "tshellCharBackspace st =
     (let cur = SIC_uiCursor st; tot = SIC_uiTotalLen st in
      if cur = 0 then Inr st
      else if cur = tot then
        bind_res (tshellClearHistorySuggestion st) (\<lambda>st.
          tshellPrintHistorySuggestion
            ((tty_put (Tty_Write [KEY_BS, BLANK, KEY_BS]) st)
               \<lparr>SIC_uiCursor := SIC_uiCursor st - 1, SIC_uiTotalLen := SIC_uiTotalLen st - 1\<rparr>))
      else if cur < tot then
        (let st = tty_put (Tty_Write [KEY_BS]) st in
         bind_res (buf_memcpy (cur - 1) cur (tot - cur) st) (\<lambda>st.
         bind_res (buf_set (tot - 1) BLANK st) (\<lambda>st.
           let st = st\<lparr>SIC_uiCursor := cur - 1\<rparr> in
           bind_res (tty_write_buf (cur - 1) (tot - (cur - 1)) st) (\<lambda>st.
             Inr ((tty_put (Tty_Left (tot - (cur - 1))) st)\<lparr>SIC_uiTotalLen := tot - 1\<rparr>)))))
      else Inr st)"

definition tshellCharDelete :: "edit_state \<Rightarrow> edit_result" where
  "tshellCharDelete st =
     (let cur = SIC_uiCursor st; tot = SIC_uiTotalLen st in
      if cur < tot then
        bind_res (buf_memcpy cur (cur + 1) (tot - cur) st) (\<lambda>st.
        bind_res (buf_set (tot - 1) BLANK st) (\<lambda>st.
        bind_res (tty_write_buf cur (tot - cur) st) (\<lambda>st.
          Inr ((tty_put (Tty_Left (tot - cur)) st)\<lparr>SIC_uiTotalLen := tot - 1\<rparr>))))
      else Inr st)"

definition tshellCharHome :: "edit_state \<Rightarrow> edit_state" where
  "tshellCharHome st =
     (if SIC_uiCursor st > 0 then (tty_put (Tty_Left (SIC_uiCursor st)) st)\<lparr>SIC_uiCursor := 0\<rparr> else st)"

definition tshellCharEnd :: "edit_state \<Rightarrow> edit_state" where
  "tshellCharEnd st =
     (if SIC_uiCursor st < SIC_uiTotalLen st
      then (tty_put (Tty_Right (SIC_uiTotalLen st - SIC_uiCursor st)) st)
             \<lparr>SIC_uiCursor := SIC_uiTotalLen st\<rparr>
      else st)"

definition tshellCharInster :: "c_char \<Rightarrow> edit_state \<Rightarrow> edit_result" where
  "tshellCharInster cChar st =
     bind_res (tshellClearHistorySuggestion st) (\<lambda>st.
       let cur = SIC_uiCursor st; tot = SIC_uiTotalLen st in
       bind_res
         (if cur = tot then
            bind_res (buf_set cur cChar (tty_put (Tty_Write [cChar]) st)) (\<lambda>st.
              Inr (st\<lparr>SIC_uiCursor := cur + 1, SIC_uiTotalLen := tot + 1\<rparr>))
          else if cur < tot then
            bind_res (buf_memcpy (cur + 1) cur (tot - cur) st) (\<lambda>st.
            bind_res (buf_set cur cChar st) (\<lambda>st.
              let st = st\<lparr>SIC_uiTotalLen := tot + 1\<rparr> in
              bind_res (tty_write_buf cur (tot + 1 - cur) st) (\<lambda>st.
                let st = st\<lparr>SIC_uiCursor := cur + 1\<rparr> in
                Inr (tty_put (Tty_Left (tot + 1 - (cur + 1))) st))))
          else Inr st)
         tshellPrintHistorySuggestion)"

end
