(* ===== verification/EditSpec.thy ===== *)
theory EditSpec
  imports LineEdit TrieUse
begin

text \<open>
  What the editing keys do: the invariant \<open>edit_ok\<close> of the editor, its abstraction to a line with a
  cursor (\<open>line_view\<close>: the text before the cursor, the text after it, the suggestion that is waiting)
  and one refinement lemma per key.
\<close>

section \<open>The primitive operations\<close>

text \<open>What the fill functions write: blocks of twenty, then the rest.\<close>

function fill_out :: "c_char \<Rightarrow> nat \<Rightarrow> tty_out list" where
  "fill_out c n =
     (if n > REPEAT_BUFFER_LEN
      then Tty_Write (replicate REPEAT_BUFFER_LEN c) # fill_out c (n - REPEAT_BUFFER_LEN)
      else [Tty_Write (replicate n c)])"
  by pat_completeness auto

termination
  by (relation "measure snd") (auto simp: REPEAT_BUFFER_LEN_def)

declare fill_out.simps [simp del]

lemma edit_state_tty [simp]: "st\<lparr>ed_tty := ed_tty st\<rparr> = st"
  by simp

lemma fillRepeatSpace_eq: "fillRepeatSpace n st = st\<lparr>ed_tty := ed_tty st @ fill_out BLANK n\<rparr>"
  by (induction n st rule: fillRepeatSpace.induct)
    (subst fillRepeatSpace.simps, subst fill_out.simps, auto simp: tty_put_def spaceBuffer_def min_def)

lemma fillRepeatBackspace_eq:
  "fillRepeatBackspace n st = st\<lparr>ed_tty := ed_tty st @ fill_out KEY_BS n\<rparr>"
  by (induction n st rule: fillRepeatBackspace.induct)
    (subst fillRepeatBackspace.simps, subst fill_out.simps, auto simp: tty_put_def backspaceBuffer_def min_def)

lemma tty_put_simps [simp]:
  "SIC_uiCursor (tty_put e st) = SIC_uiCursor st" "SIC_uiTotalLen (tty_put e st) = SIC_uiTotalLen st"
  "SIC_cInputBuffer (tty_put e st) = SIC_cInputBuffer st"
  "historyTrieRoot (tty_put e st) = historyTrieRoot st" "lastMatch (tty_put e st) = lastMatch st"
  "lastMatchLength (tty_put e st) = lastMatchLength st" "ed_tty (tty_put e st) = ed_tty st @ [e]"
  "ed_cpu64 (tty_put e st) = ed_cpu64 st" "ed_addr (tty_put e st) = ed_addr st"
  by (simp_all add: tty_put_def)

lemma buf_memcpy_eq:
  assumes "d + n \<le> length (SIC_cInputBuffer st)" "s + n \<le> length (SIC_cInputBuffer st)"
  shows "buf_memcpy d s n st =
    Inr (st\<lparr>SIC_cInputBuffer := take d (SIC_cInputBuffer st) @
       take n (drop s (SIC_cInputBuffer st)) @ drop (d + n) (SIC_cInputBuffer st)\<rparr>)"
proof -
  define buf where "buf = SIC_cInputBuffer st"
  define a where "a = ed_addr st"
  have "map (lib_memcpy (ed_cpu64 st) (\<lambda>x. buf ! (x - a)) (a + d) (a + s) n) [a..<a + length buf]
      = take d buf @ take n (drop s buf) @ drop (d + n) buf" (is "?l = ?r")
  proof (rule nth_equalityI)
    show "length ?l = length ?r" using assms by (simp add: buf_def)
    show "?l ! i = ?r ! i" if "i < length ?l" for i
      using that assms by (auto simp: buf_def[symmetric] lib_memcpy_eq store_word_def nth_append)
  qed
  then show ?thesis using assms by (simp add: buf_memcpy_def Let_def buf_def a_def)
qed

lemma buf_set_eq:
  "i < length (SIC_cInputBuffer st) \<Longrightarrow>
   buf_set i c st = Inr (st\<lparr>SIC_cInputBuffer := (SIC_cInputBuffer st)[i := c]\<rparr>)"
  by (simp add: buf_set_def)

lemma buf_read_eq:
  "i + n \<le> length (SIC_cInputBuffer st) \<Longrightarrow> buf_read i n st = Inr (take n (drop i (SIC_cInputBuffer st)))"
  by (simp add: buf_read_def)

lemma tty_write_buf_eq:
  "i + n \<le> length (SIC_cInputBuffer st) \<Longrightarrow>
   tty_write_buf i n st = Inr (tty_put (Tty_Write (take n (drop i (SIC_cInputBuffer st)))) st)"
  by (simp add: tty_write_buf_def buf_read_eq)

lemmas buf_eqs = buf_memcpy_eq buf_set_eq buf_read_eq tty_write_buf_eq

section \<open>The invariant and the abstraction\<close>

definition edit_text :: "edit_state \<Rightarrow> cstring" where
  "edit_text st = take (SIC_uiTotalLen st) (SIC_cInputBuffer st)"

definition trie_ok :: "trie option \<Rightarrow> bool" where
  "trie_ok r \<longleftrightarrow> (\<exists>t. r = Some t \<and> trie_use ascii t \<and> isValid t)"

definition match_ok :: "match_ptr \<Rightarrow> int \<Rightarrow> bool" where
  "match_ok p n \<longleftrightarrow>
     (case p of Match_Null \<Rightarrow> n = 0 | Match_Live m \<Rightarrow> n = int (length m) \<and> is_cstr m \<and> ascii_str m | Match_Freed \<Rightarrow> False)"

definition edit_ok :: "edit_state \<Rightarrow> bool" where
  "edit_ok st \<longleftrightarrow>
     length (SIC_cInputBuffer st) = LW_CFG_SHELL_MAX_COMMANDLEN + 1 \<and>
     SIC_uiCursor st \<le> SIC_uiTotalLen st \<and> SIC_uiTotalLen st \<le> LW_CFG_SHELL_MAX_COMMANDLEN \<and>
     ascii_str (edit_text st) \<and> trie_ok (historyTrieRoot st) \<and> match_ok (lastMatch st) (lastMatchLength st)"

datatype line_view = Line (lv_left: cstring) (lv_right: cstring) (lv_pending: cstring)

definition view :: "edit_state \<Rightarrow> line_view" where
  "view st = Line (take (SIC_uiCursor st) (edit_text st)) (drop (SIC_uiCursor st) (edit_text st))
     (case lastMatch st of Match_Live m \<Rightarrow> m | _ \<Rightarrow> [])"

section \<open>The line editor that is meant\<close>

text \<open>What the trie suggests after \<open>p\<close>; an empty line asks for nothing and keeps what is pending.\<close>

definition suggest :: "trie option \<Rightarrow> cstring \<Rightarrow> cstring" where
  "suggest r p =
     (case r of None \<Rightarrow> [] | Some t \<Rightarrow>
       (case trieSearch t p of Inr (Some m) \<Rightarrow> takeWhile (\<lambda>c. c \<noteq> EOS) m | _ \<Rightarrow> []))"

definition ask :: "trie option \<Rightarrow> line_view \<Rightarrow> line_view" where
  "ask r v = (if lv_left v \<noteq> [] \<and> lv_right v = [] then Line (lv_left v) [] (suggest r (lv_left v)) else v)"

fun line_left :: "line_view \<Rightarrow> line_view" where
  "line_left (Line l r p) = (if l = [] then Line l r p else Line (butlast l) (last l # r) p)"

fun line_right :: "line_view \<Rightarrow> line_view" where
  "line_right (Line l (c # r) p) = Line (l @ [c]) r p"
| "line_right (Line l [] (c # p)) = Line (l @ [c]) [] p"
| "line_right (Line l [] []) = Line l [] []"

fun line_home :: "line_view \<Rightarrow> line_view" where
  "line_home (Line l r p) = Line [] (l @ r) p"

fun line_end :: "line_view \<Rightarrow> line_view" where
  "line_end (Line l r p) = Line (l @ r) [] p"

fun line_delete :: "line_view \<Rightarrow> line_view" where
  "line_delete (Line l r p) = Line l (tl r) p"

fun line_backspace :: "trie option \<Rightarrow> line_view \<Rightarrow> line_view" where
  "line_backspace root (Line l r p) = (if l = [] then Line l r p else ask root (Line (butlast l) r p))"

fun line_insert :: "trie option \<Rightarrow> c_char \<Rightarrow> line_view \<Rightarrow> line_view" where
  "line_insert root c (Line l r p) = ask root (Line (l @ [c]) r p)"

section \<open>The suggestion\<close>

lemma trieSearch_total:
  assumes "trie_use ascii t" "ascii_str p" "p \<noteq> []"
  shows "\<exists>r. trieSearch t p = Inr r \<and> (\<forall>m. r = Some m \<longrightarrow> ascii_str m \<and> is_word t (p @ m))"
  using trieSearch_use[OF assms(1), of p] assms(2,3) by (auto simp: ascii_str_def)

lemma ascii_takeWhile: "ascii_str m \<Longrightarrow> ascii_str (takeWhile P m)"
  by (auto simp: ascii_str_def list_all_iff dest: set_takeWhileD)

lemma is_cstr_takeWhile: "is_cstr (takeWhile (\<lambda>c. c \<noteq> EOS) m)"
  by (auto simp: is_cstr_def dest: set_takeWhileD)

lemma edit_text_length: "edit_ok st \<Longrightarrow> length (edit_text st) = SIC_uiTotalLen st"
  by (simp add: edit_ok_def edit_text_def)

lemma view_left_Nil: "edit_ok st \<Longrightarrow> lv_left (view st) = [] \<longleftrightarrow> SIC_uiCursor st = 0"
  using edit_text_length[of st] by (auto simp: view_def edit_ok_def)

lemma view_right_Nil: "edit_ok st \<Longrightarrow> lv_right (view st) = [] \<longleftrightarrow> SIC_uiCursor st = SIC_uiTotalLen st"
  using edit_text_length[of st] by (auto simp: view_def edit_ok_def)

lemma PrintHistorySuggestion_refines:
  assumes ok: "edit_ok st"
  shows "\<exists>st'. tshellPrintHistorySuggestion st = Inr st' \<and> edit_ok st' \<and>
    historyTrieRoot st' = historyTrieRoot st \<and> view st' = ask (historyTrieRoot st) (view st)"
proof (cases "SIC_uiTotalLen st > 0 \<and> SIC_uiCursor st = SIC_uiTotalLen st")
  case True
  obtain t where t: "historyTrieRoot st = Some t" "trie_use ascii t" "isValid t"
    using ok by (auto simp: edit_ok_def trie_ok_def)
  have ne: "edit_text st \<noteq> []" using True edit_text_length[OF ok] by auto
  have asc: "ascii_str (edit_text st)" using ok by (simp add: edit_ok_def)
  obtain r where r: "trieSearch t (edit_text st) = Inr r" "\<And>m. r = Some m \<Longrightarrow> ascii_str m"
    using trieSearch_total[OF t(2) asc ne] by blast
  have rd: "take (SIC_uiTotalLen st) (SIC_cInputBuffer st) = edit_text st"
    "\<not> SIC_uiTotalLen st > length (SIC_cInputBuffer st)"
    using ok by (simp_all add: edit_ok_def edit_text_def)
  have m: "lastMatch st \<noteq> Match_Freed" using ok by (auto simp: edit_ok_def match_ok_def)
  have left: "take (SIC_uiTotalLen st) (edit_text st) = edit_text st" by (simp add: edit_text_def)
  have right: "drop (SIC_uiTotalLen st) (edit_text st) = []" by (simp add: edit_text_def)
  have v: "ask (historyTrieRoot st) (view st) = Line (edit_text st) [] (suggest (historyTrieRoot st) (edit_text st))"
    using True ne by (simp add: ask_def view_def left right)
  define st' where "st' = (case r of
      None \<Rightarrow> st\<lparr>lastMatch := Match_Null, lastMatchLength := 0\<rparr>
    | Some m \<Rightarrow> st\<lparr>lastMatch := Match_Live (takeWhile (\<lambda>c. c \<noteq> EOS) m),
          lastMatchLength := int (length (takeWhile (\<lambda>c. c \<noteq> EOS) m)),
          ed_tty := ed_tty st @ [Tty_Color_Start Dary_Gray, Tty_Print (takeWhile (\<lambda>c. c \<noteq> EOS) m), Tty_Color_End] @
            fill_out KEY_BS (length (takeWhile (\<lambda>c. c \<noteq> EOS) m))\<rparr>)"
  have "tshellPrintHistorySuggestion st = Inr st'"
    using True t(1) r(1) rd m
    by (simp add: tshellPrintHistorySuggestion_def st'_def Let_def fillRepeatBackspace_eq tty_put_def split: option.split)
  moreover have "edit_ok st'"
    using ok r(2) by (simp add: edit_ok_def match_ok_def edit_text_def st'_def ascii_takeWhile is_cstr_takeWhile split: option.split)
  moreover have "historyTrieRoot st' = historyTrieRoot st" by (simp add: st'_def split: option.split)
  moreover have "view st' = ask (historyTrieRoot st) (view st)"
    unfolding v using True t(1) r(1) left right
    by (simp add: view_def suggest_def st'_def edit_text_def split: option.split)
  ultimately show ?thesis by blast
next
  case False
  then have "tshellPrintHistorySuggestion st = Inr st" by (auto simp: tshellPrintHistorySuggestion_def)
  moreover have "ask (historyTrieRoot st) (view st) = view st"
    using False ok view_left_Nil[OF ok] view_right_Nil[OF ok] by (auto simp: ask_def edit_ok_def)
  ultimately show ?thesis using ok by simp
qed

section \<open>The keys\<close>

lemma edit_ok_simps:
  "edit_ok st \<Longrightarrow> length (SIC_cInputBuffer st) = LW_CFG_SHELL_MAX_COMMANDLEN + 1"
  "edit_ok st \<Longrightarrow> SIC_uiCursor st \<le> SIC_uiTotalLen st"
  "edit_ok st \<Longrightarrow> SIC_uiTotalLen st \<le> LW_CFG_SHELL_MAX_COMMANDLEN"
  "edit_ok st \<Longrightarrow> ascii_str (edit_text st)"
  "edit_ok st \<Longrightarrow> match_ok (lastMatch st) (lastMatchLength st)"
  by (simp_all add: edit_ok_def)

lemma ClearHistorySuggestion_eq:
  assumes "edit_ok st"
  obtains es where "tshellClearHistorySuggestion st = Inr (st\<lparr>ed_tty := ed_tty st @ es\<rparr>)"
    "es = fill_out BLANK (nat (lastMatchLength st)) @ fill_out KEY_BS (nat (lastMatchLength st))"
proof -
  have "0 \<le> lastMatchLength st"
    using edit_ok_simps(5)[OF assms] by (auto simp: match_ok_def split: match_ptr.splits)
  then show ?thesis
    using that by (simp add: tshellClearHistorySuggestion_def match_len_def fillRepeatSpace_eq fillRepeatBackspace_eq)
qed

lemma edit_ok_tty [simp]: "edit_ok (st\<lparr>ed_tty := t\<rparr>) = edit_ok st"
  by (simp add: edit_ok_def edit_text_def)

lemma edit_ok_tty_cursor [simp]:
  "edit_ok (st\<lparr>ed_tty := t, SIC_uiCursor := i\<rparr>) = edit_ok (st\<lparr>SIC_uiCursor := i\<rparr>)"
  by (simp add: edit_ok_def edit_text_def)

lemma edit_text_tty [simp]: "edit_text (st\<lparr>ed_tty := t\<rparr>) = edit_text st"
  by (simp add: edit_text_def)

lemma edit_text_cursor [simp]: "edit_text (st\<lparr>SIC_uiCursor := i\<rparr>) = edit_text st"
  by (simp add: edit_text_def)

lemma view_tty [simp]: "view (st\<lparr>ed_tty := t\<rparr>) = view st"
  by (simp add: view_def)

text \<open>Moving the cursor.\<close>

lemma edit_ok_cursor: "edit_ok st \<Longrightarrow> i \<le> SIC_uiTotalLen st \<Longrightarrow> edit_ok (st\<lparr>SIC_uiCursor := i\<rparr>)"
  by (simp add: edit_ok_def edit_text_def)

lemma CharLeft_refines:
  assumes ok: "edit_ok st"
  shows "edit_ok (tshellCharLeft st) \<and> historyTrieRoot (tshellCharLeft st) = historyTrieRoot st \<and>
    view (tshellCharLeft st) = line_left (view st)"
proof (cases "SIC_uiCursor st")
  case 0
  then show ?thesis using ok by (simp add: tshellCharLeft_def view_def)
next
  case (Suc i)
  have i: "i < length (edit_text st)" using edit_ok_simps(2)[OF ok] edit_text_length[OF ok] Suc by simp
  have "take (Suc i) (edit_text st) = take i (edit_text st) @ [edit_text st ! i]"
    using i by (rule take_Suc_conv_app_nth)
  moreover have "drop i (edit_text st) = edit_text st ! i # drop (Suc i) (edit_text st)"
    using i by (rule Cons_nth_drop_Suc[symmetric])
  ultimately show ?thesis
    using ok Suc edit_ok_cursor[OF ok, of i] edit_ok_simps(2)[OF ok]
    by (simp add: tshellCharLeft_def tty_put_def view_def)
qed

lemma CharHome_refines:
  assumes ok: "edit_ok st"
  shows "edit_ok (tshellCharHome st) \<and> historyTrieRoot (tshellCharHome st) = historyTrieRoot st \<and>
    view (tshellCharHome st) = line_home (view st)"
  using ok edit_ok_cursor[OF ok, of 0] by (simp add: tshellCharHome_def tty_put_def view_def)

lemma CharEnd_refines:
  assumes ok: "edit_ok st"
  shows "edit_ok (tshellCharEnd st) \<and> historyTrieRoot (tshellCharEnd st) = historyTrieRoot st \<and>
    view (tshellCharEnd st) = line_end (view st)"
  using ok edit_ok_cursor[OF ok, of "SIC_uiTotalLen st"] edit_text_length[OF ok] edit_ok_simps(2)[OF ok]
  by (simp add: tshellCharEnd_def tty_put_def view_def)

text \<open>
  The right arrow inside the line moves, and at its end takes the next character of the suggestion:
  there must be room for it.
\<close>

lemma CharRight_refines:
  assumes ok: "edit_ok st" and room: "SIC_uiTotalLen st < LW_CFG_SHELL_MAX_COMMANDLEN"
  shows "\<exists>st'. tshellCharRight st = Inr st' \<and> edit_ok st' \<and>
    historyTrieRoot st' = historyTrieRoot st \<and> view st' = line_right (view st)"
proof (cases "SIC_uiCursor st < SIC_uiTotalLen st")
  case True
  let ?i = "SIC_uiCursor st"
  have i: "?i < length (edit_text st)" using True edit_text_length[OF ok] by simp
  have "take (Suc ?i) (edit_text st) = take ?i (edit_text st) @ [edit_text st ! ?i]"
    using i by (rule take_Suc_conv_app_nth)
  moreover have "drop ?i (edit_text st) = edit_text st ! ?i # drop (Suc ?i) (edit_text st)"
    using i by (rule Cons_nth_drop_Suc[symmetric])
  ultimately show ?thesis
    using True edit_ok_cursor[OF ok, of "Suc ?i"]
    by (simp add: tshellCharRight_def tty_put_def view_def)
next
  case False
  then have cur: "SIC_uiCursor st = SIC_uiTotalLen st" using edit_ok_simps(2)[OF ok] by simp
  consider "lastMatch st = Match_Null \<or> lastMatch st = Match_Live []"
    | c m where "lastMatch st = Match_Live (c # m)" "lastMatchLength st = int (length m) + 1"
        "is_cstr m" "ascii c" "ascii_str m"
    using edit_ok_simps(5)[OF ok] by (auto simp: match_ok_def split: match_ptr.splits list.splits elim: list.exhaust)
  then show ?thesis
  proof cases
    case 1
    then show ?thesis
      using ok cur edit_text_length[OF ok] by (auto simp: tshellCharRight_def view_def)
  next
    case 2
    let ?t = "SIC_uiTotalLen st" and ?b = "SIC_cInputBuffer st"
    have len: "?t < length ?b" "length ?b = LW_CFG_SHELL_MAX_COMMANDLEN + 1"
      using ok room by (simp_all add: edit_ok_def)
    define st' where "st' = st\<lparr>SIC_uiCursor := ?t + 1, SIC_uiTotalLen := ?t + 1, SIC_cInputBuffer := ?b[?t := c],
      lastMatch := Match_Live m, lastMatchLength := int (length m), ed_tty := ed_tty st @ [Tty_Key_Right]\<rparr>"
    have tx: "edit_text st' = edit_text st @ [c]"
      using len by (simp add: st'_def edit_text_def take_Suc_conv_app_nth)
    have "tshellCharRight st = Inr st'"
      using 2 cur len(1) by (simp add: tshellCharRight_def buf_set_eq tty_put_def Let_def st'_def)
    moreover have "edit_ok st'"
      using ok room 2 len tx unfolding edit_ok_def by (simp add: match_ok_def) (simp add: st'_def)
    moreover have "view st' = line_right (view st)"
      using 2 cur edit_text_length[OF ok] tx by (simp add: view_def) (simp add: st'_def)
    ultimately show ?thesis by (simp add: st'_def)
  qed
qed

text \<open>Deleting inside the line: the copy closes the gap, a blank fills the last column.\<close>

definition close_gap :: "nat \<Rightarrow> edit_state \<Rightarrow> edit_state" where
  "close_gap i st = st\<lparr>SIC_cInputBuffer :=
     take i (edit_text st) @ drop (Suc i) (edit_text st) @ BLANK # drop (SIC_uiTotalLen st) (SIC_cInputBuffer st)\<rparr>"

lemma close_gap_simps [simp]:
  "SIC_uiCursor (close_gap i st) = SIC_uiCursor st" "SIC_uiTotalLen (close_gap i st) = SIC_uiTotalLen st"
  "historyTrieRoot (close_gap i st) = historyTrieRoot st" "lastMatch (close_gap i st) = lastMatch st"
  "lastMatchLength (close_gap i st) = lastMatchLength st" "ed_tty (close_gap i st) = ed_tty st"
  by (simp_all add: close_gap_def)

lemma shift_blank:
  assumes "i < n" "n < length b" "m = n - i \<or> m = n - Suc i"
  shows "(take i b @ take m (drop (Suc i) b) @ drop (i + m) b)[n - Suc 0 := x] =
    take i b @ drop (Suc i) (take n b) @ x # drop n b" (is "?l = ?r")
proof (rule nth_equalityI)
  show "length ?l = length ?r" using assms by auto
  show "?l ! k = ?r ! k" if "k < length ?l" for k
  proof -
    have k: "k < length b" using that assms by auto
    consider "k < i" | "i \<le> k" "k < n - 1" | "k = n - 1" | "n \<le> k" by linarith
    then show ?thesis
    proof cases
      case 1
      then show ?thesis using assms k by (auto simp: nth_append nth_list_update)
    next
      case 2
      then show ?thesis using assms k by (auto simp: nth_append nth_list_update)
    next
      case 3
      then show ?thesis using assms k by (auto simp: nth_append nth_list_update)
    next
      case 4
      then have "Suc (k - Suc n) = k - n" if "k \<noteq> n" using that by linarith
      then show ?thesis using assms k 4
        by (cases "k = n") (auto simp: nth_append nth_list_update nth_Cons' )
    qed
  qed
qed

lemma gap_closed:
  assumes ok: "edit_ok st" and i: "i < SIC_uiTotalLen st"
    and m: "m = SIC_uiTotalLen st - i \<or> m = SIC_uiTotalLen st - Suc i"
  shows "bind_res (buf_memcpy i (Suc i) m st) (buf_set (SIC_uiTotalLen st - Suc 0) BLANK) = Inr (close_gap i st)"
proof -
  let ?n = "SIC_uiTotalLen st" and ?b = "SIC_cInputBuffer st"
  have len: "?n < length ?b" using ok by (simp add: edit_ok_def)
  let ?c = "take i ?b @ take m (drop (Suc i) ?b) @ drop (i + m) ?b"
  have cl: "length ?c = length ?b" using len i m by auto
  have "buf_memcpy i (Suc i) m st = Inr (st\<lparr>SIC_cInputBuffer := ?c\<rparr>)"
    using len i m by (intro buf_memcpy_eq) auto
  moreover have "buf_set (?n - Suc 0) BLANK (st\<lparr>SIC_cInputBuffer := ?c\<rparr>) =
      Inr (st\<lparr>SIC_cInputBuffer := ?c[?n - Suc 0 := BLANK]\<rparr>)"
    using cl len by (simp add: buf_set_def del: length_append)
  ultimately show ?thesis
    using shift_blank[OF i len m] i by (simp add: close_gap_def edit_text_def min_def)
qed

lemma close_gap_text:
  assumes ok: "edit_ok st" and i: "i < SIC_uiTotalLen st"
  shows "take (SIC_uiTotalLen st - Suc 0) (SIC_cInputBuffer (close_gap i st)) =
      take i (edit_text st) @ drop (Suc i) (edit_text st)"
    "length (SIC_cInputBuffer (close_gap i st)) = length (SIC_cInputBuffer st)"
    "take (SIC_uiTotalLen st) (SIC_cInputBuffer (close_gap i st)) =
      take i (edit_text st) @ drop (Suc i) (edit_text st) @ [BLANK]"
  using edit_text_length[OF ok] i edit_ok_simps(1,3)[OF ok]
  by (cases "i = SIC_uiTotalLen st - Suc 0"; auto simp: close_gap_def min_def)+

lemma ascii_take_drop: "ascii_str s \<Longrightarrow> ascii_str (take i s)" "ascii_str s \<Longrightarrow> ascii_str (drop i s)"
  by (auto simp: ascii_str_def list_all_iff dest: in_set_takeD in_set_dropD)

text \<open>The state after the gap before column \<open>i\<close> is closed and the cursor stands there.\<close>

definition shorten :: "nat \<Rightarrow> tty_out list \<Rightarrow> edit_state \<Rightarrow> edit_state" where
  "shorten i t st = (close_gap i st)\<lparr>SIC_uiCursor := i, SIC_uiTotalLen := SIC_uiTotalLen st - 1, ed_tty := t\<rparr>"

lemma shorten_ok:
  assumes ok: "edit_ok st" and i: "i < SIC_uiTotalLen st"
  shows "edit_ok (shorten i t st)" "historyTrieRoot (shorten i t st) = historyTrieRoot st"
    "view (shorten i t st) =
       Line (take i (edit_text st)) (drop (Suc i) (edit_text st)) (lv_pending (view st))"
proof -
  have tx: "edit_text (shorten i t st) = take i (edit_text st) @ drop (Suc i) (edit_text st)"
    using close_gap_text(1)[OF ok i] by (simp add: shorten_def edit_text_def)
  show "edit_ok (shorten i t st)"
    using ok i tx close_gap_text(2)[OF ok i] unfolding edit_ok_def
    by (auto simp: ascii_take_drop) (auto simp: shorten_def)
  show "historyTrieRoot (shorten i t st) = historyTrieRoot st" by (simp add: shorten_def)
  show "view (shorten i t st) =
       Line (take i (edit_text st)) (drop (Suc i) (edit_text st)) (lv_pending (view st))"
    using tx edit_text_length[OF ok] i unfolding view_def by simp (simp add: shorten_def)
qed

lemma CharDelete_eq:
  assumes ok: "edit_ok st" and i: "SIC_uiCursor st < SIC_uiTotalLen st"
  shows "tshellCharDelete st = Inr (shorten (SIC_uiCursor st)
    (ed_tty st @ [Tty_Write (drop (Suc (SIC_uiCursor st)) (edit_text st) @ [BLANK]),
       Tty_Left (SIC_uiTotalLen st - SIC_uiCursor st)]) st)"
proof -
  let ?i = "SIC_uiCursor st" and ?n = "SIC_uiTotalLen st"
  have w: "take (?n - ?i) (drop ?i (SIC_cInputBuffer (close_gap ?i st))) =
      drop (Suc ?i) (edit_text st) @ [BLANK]"
    using close_gap_text(3)[OF ok i] i edit_text_length[OF ok] by (simp add: take_drop)
  have len: "?i + (?n - ?i) \<le> length (SIC_cInputBuffer (close_gap ?i st))"
    using ok i close_gap_text(2)[OF ok i] by (simp add: edit_ok_def)
  have "bind_res (buf_memcpy ?i (Suc ?i) (?n - ?i) st) (\<lambda>st. bind_res (buf_set (?n - Suc 0) BLANK st) f) =
      f (close_gap ?i st)" for f :: "edit_state \<Rightarrow> edit_result"
    using gap_closed[OF ok i, of "?n - ?i"] by (cases "buf_memcpy ?i (Suc ?i) (?n - ?i) st") auto
  then show ?thesis
    using i len w by (simp add: tshellCharDelete_def Let_def tty_write_buf_eq tty_put_def shorten_def)
qed

lemma CharDelete_refines:
  assumes ok: "edit_ok st"
  shows "\<exists>st'. tshellCharDelete st = Inr st' \<and> edit_ok st' \<and>
    historyTrieRoot st' = historyTrieRoot st \<and> view st' = line_delete (view st)"
proof (cases "SIC_uiCursor st < SIC_uiTotalLen st")
  case True
  with CharDelete_eq[OF ok True] shorten_ok[OF ok True] show ?thesis
    by (auto simp: view_def tl_drop drop_Suc)
next
  case False
  then show ?thesis using ok edit_text_length[OF ok] by (simp add: tshellCharDelete_def view_def)
qed

lemma take_Suc_diff: "0 < i \<Longrightarrow> i \<le> length s \<Longrightarrow> take (i - Suc 0) s = butlast (take i s)"
  by (simp add: butlast_take)

lemma CharBackspace_eq:
  assumes ok: "edit_ok st" and c: "0 < SIC_uiCursor st" "SIC_uiCursor st < SIC_uiTotalLen st"
  shows "tshellCharBackspace st = Inr (shorten (SIC_uiCursor st - 1)
    (ed_tty st @ [Tty_Write [KEY_BS], Tty_Write (drop (SIC_uiCursor st) (edit_text st) @ [BLANK]),
       Tty_Left (SIC_uiTotalLen st - (SIC_uiCursor st - 1))]) st)"
proof -
  let ?st = "tty_put (Tty_Write [KEY_BS]) st"
  obtain i where i: "SIC_uiCursor st = Suc i" using c(1) by (cases "SIC_uiCursor st") auto
  let ?n = "SIC_uiTotalLen st"
  have ok': "edit_ok ?st" "edit_text ?st = edit_text st" using ok by (simp_all add: tty_put_def)
  have lt: "i < SIC_uiTotalLen ?st" using c(2) i by simp
  have w: "take (?n - i) (drop i (SIC_cInputBuffer (close_gap i ?st))) = drop (Suc i) (edit_text st) @ [BLANK]"
    using close_gap_text(3)[OF ok'(1) lt] lt edit_text_length[OF ok] ok' by (simp add: take_drop)
  have len: "i + (?n - i) \<le> length (SIC_cInputBuffer (close_gap i ?st))"
    using ok c i close_gap_text(2)[OF ok'(1) lt] by (simp add: edit_ok_def)
  have "bind_res (buf_memcpy i (Suc i) (?n - Suc i) ?st) (\<lambda>st. bind_res (buf_set (?n - Suc 0) BLANK st) f) =
      f (close_gap i ?st)" for f :: "edit_state \<Rightarrow> edit_result"
    using gap_closed[OF ok'(1) lt, of "?n - Suc i"] by (cases "buf_memcpy i (Suc i) (?n - Suc i) ?st") auto
  moreover have "close_gap i ?st = (close_gap i st)\<lparr>ed_tty := ed_tty st @ [Tty_Write [KEY_BS]]\<rparr>"
    by (simp add: close_gap_def tty_put_def)
  ultimately show ?thesis
    using c i len w by (simp add: tshellCharBackspace_def Let_def tty_write_buf_eq tty_put_def shorten_def)
qed

lemma CharBackspace_refines:
  assumes ok: "edit_ok st"
  shows "\<exists>st'. tshellCharBackspace st = Inr st' \<and> edit_ok st' \<and>
    historyTrieRoot st' = historyTrieRoot st \<and> view st' = line_backspace (historyTrieRoot st) (view st)"
proof -
  let ?i = "SIC_uiCursor st" and ?n = "SIC_uiTotalLen st"
  have len: "length (edit_text st) = ?n" "?i \<le> ?n" using edit_text_length[OF ok] edit_ok_simps(2)[OF ok] .
  consider "?i = 0" | "0 < ?i" "?i < ?n" | "0 < ?i" "?i = ?n" using len by linarith
  then show ?thesis
  proof cases
    case 1
    then show ?thesis using ok by (simp add: tshellCharBackspace_def view_def)
  next
    case 2
    with CharBackspace_eq[OF ok 2] shorten_ok[OF ok, of "?i - 1"] len show ?thesis
      by (auto simp: view_def take_Suc_diff ask_def)
  next
    case 3
    obtain es where cl: "tshellClearHistorySuggestion st = Inr (st\<lparr>ed_tty := ed_tty st @ es\<rparr>)"
      using ClearHistorySuggestion_eq[OF ok] by metis
    define st1 where "st1 = (tty_put (Tty_Write [KEY_BS, BLANK, KEY_BS]) (st\<lparr>ed_tty := ed_tty st @ es\<rparr>))
        \<lparr>SIC_uiCursor := ?i - 1, SIC_uiTotalLen := ?n - 1\<rparr>"
    have tx: "edit_text st1 = butlast (edit_text st)"
      using 3 edit_ok_simps(1,3)[OF ok] by (simp add: st1_def edit_text_def butlast_take)
    have ok1: "edit_ok st1"
      using ok 3 tx ascii_take_drop(1)[of "edit_text st" "?n - 1"] len(1) unfolding edit_ok_def
      by (simp add: butlast_conv_take) (auto simp: st1_def)
    have "view st1 = Line (butlast (take ?i (edit_text st))) (drop ?i (edit_text st)) (lv_pending (view st))"
      unfolding view_def tx using 3 len by (simp add: st1_def)
    then have v: "ask (historyTrieRoot st) (view st1) = line_backspace (historyTrieRoot st) (view st)"
      using 3 len by (auto simp: view_def)
    have "tshellCharBackspace st = tshellPrintHistorySuggestion st1"
      using 3 cl by (simp add: tshellCharBackspace_def st1_def Let_def)
    then show ?thesis
      using PrintHistorySuggestion_refines[OF ok1] v by (simp add: st1_def)
  qed
qed

text \<open>A character at the cursor: the copy opens a gap.\<close>

definition lengthen :: "c_char \<Rightarrow> tty_out list \<Rightarrow> edit_state \<Rightarrow> edit_state" where
  "lengthen c t st = st\<lparr>SIC_cInputBuffer := take (SIC_uiCursor st) (edit_text st) @ c #
       drop (SIC_uiCursor st) (edit_text st) @ drop (SIC_uiTotalLen st + 1) (SIC_cInputBuffer st),
     SIC_uiTotalLen := SIC_uiTotalLen st + 1, SIC_uiCursor := SIC_uiCursor st + 1, ed_tty := t\<rparr>"

lemma lengthen_ok:
  assumes ok: "edit_ok st" and room: "SIC_uiTotalLen st < LW_CFG_SHELL_MAX_COMMANDLEN" and c: "ascii c"
  shows "edit_ok (lengthen c t st)" "historyTrieRoot (lengthen c t st) = historyTrieRoot st"
    "view (lengthen c t st) =
       Line (lv_left (view st) @ [c]) (lv_right (view st)) (lv_pending (view st))"
proof -
  have len: "length (edit_text st) = SIC_uiTotalLen st" "SIC_uiCursor st \<le> SIC_uiTotalLen st"
    using edit_text_length[OF ok] edit_ok_simps(2)[OF ok] .
  have tx: "edit_text (lengthen c t st) =
      take (SIC_uiCursor st) (edit_text st) @ c # drop (SIC_uiCursor st) (edit_text st)"
    using len unfolding edit_text_def[of "lengthen c t st"] by (simp add: lengthen_def Suc_diff_le)
  show "edit_ok (lengthen c t st)"
    using ok c room tx len unfolding edit_ok_def
    by (simp add: ascii_take_drop) (simp add: lengthen_def)
  show "historyTrieRoot (lengthen c t st) = historyTrieRoot st" by (simp add: lengthen_def)
  show "view (lengthen c t st) =
       Line (lv_left (view st) @ [c]) (lv_right (view st)) (lv_pending (view st))"
    using tx len unfolding view_def by simp (simp add: lengthen_def)
qed

definition insert_out :: "c_char \<Rightarrow> edit_state \<Rightarrow> tty_out list" where
  "insert_out c st =
     fill_out BLANK (nat (lastMatchLength st)) @ fill_out KEY_BS (nat (lastMatchLength st)) @
     (if SIC_uiCursor st = SIC_uiTotalLen st then [Tty_Write [c]]
      else [Tty_Write (c # drop (SIC_uiCursor st) (edit_text st)),
            Tty_Left (SIC_uiTotalLen st - SIC_uiCursor st)])"

lemma CharInster_eq:
  assumes ok: "edit_ok st" and room: "SIC_uiTotalLen st < LW_CFG_SHELL_MAX_COMMANDLEN"
  shows "tshellCharInster c st =
    tshellPrintHistorySuggestion (lengthen c (ed_tty st @ insert_out c st) st)"
proof -
  let ?i = "SIC_uiCursor st" and ?n = "SIC_uiTotalLen st" and ?b = "SIC_cInputBuffer st"
  have len: "?i \<le> ?n" "?n < length ?b" "Suc ?n \<le> length ?b" using ok room by (auto simp: edit_ok_def)
  obtain es where cl: "tshellClearHistorySuggestion st = Inr (st\<lparr>ed_tty := ed_tty st @ es\<rparr>)"
    and es: "es = fill_out BLANK (nat (lastMatchLength st)) @ fill_out KEY_BS (nat (lastMatchLength st))"
    using ClearHistorySuggestion_eq[OF ok] by metis
  show ?thesis
  proof (cases "?i = ?n")
    case True
    have "?b[?n := c] = take ?n ?b @ c # drop (Suc ?n) ?b" using len by (simp add: upd_conv_take_nth_drop)
    with True have b: "?b[?n := c] = take ?i (edit_text st) @ c # drop ?i (edit_text st) @ drop (Suc ?n) ?b"
      by (simp add: edit_text_def)
    have "tty_put (Tty_Write [c]) (st\<lparr>ed_tty := ed_tty st @ es\<rparr>)
        \<lparr>SIC_cInputBuffer := ?b[?n := c], SIC_uiCursor := ?i + 1, SIC_uiTotalLen := ?n + 1\<rparr> =
      lengthen c (ed_tty st @ insert_out c st) st"
      using True es b by (simp add: tty_put_def lengthen_def insert_out_def)
    then show ?thesis
      unfolding tshellCharInster_def cl using True len by (simp add: Let_def buf_set_eq)
  next
    case False
    with len have lt: "?i < ?n" by simp
    let ?c = "take (Suc ?i) ?b @ take (?n - ?i) (drop ?i ?b) @ drop (Suc ?n) ?b"
    let ?d = "take ?i ?b @ c # take (?n - ?i) (drop ?i ?b) @ drop (Suc ?n) ?b"
    have cd: "?c[?i := c] = ?d" using len lt by (simp add: list_update_append upd_conv_take_nth_drop)
    have d: "take (Suc ?n - ?i) (drop ?i ?d) = c # take (?n - ?i) (drop ?i ?b)" "length ?d = length ?b"
      using len lt by (auto simp: Suc_diff_le)
    let ?s = "st\<lparr>ed_tty := ed_tty st @ es\<rparr>"
    have 1: "buf_memcpy (Suc ?i) ?i (?n - ?i) ?s = Inr (?s\<lparr>SIC_cInputBuffer := ?c\<rparr>)"
      using len lt by (subst buf_memcpy_eq) auto
    have 2: "buf_set ?i c (?s\<lparr>SIC_cInputBuffer := ?c\<rparr>) = Inr (?s\<lparr>SIC_cInputBuffer := ?d\<rparr>)"
      using len lt cd by (simp add: buf_set_def)
    have dd: "take (?n - ?i) (drop ?i ?b) = drop ?i (edit_text st)" using lt by (simp add: edit_text_def take_drop)
    have 3: "tty_write_buf ?i (Suc ?n - ?i) (?s\<lparr>SIC_cInputBuffer := ?d, SIC_uiTotalLen := Suc ?n\<rparr>) =
       Inr (tty_put (Tty_Write (c # drop ?i (edit_text st))) (?s\<lparr>SIC_cInputBuffer := ?d, SIC_uiTotalLen := Suc ?n\<rparr>))"
      using len lt d dd by (subst tty_write_buf_eq) (auto simp del: append.simps)
    show ?thesis
      using lt cl 1 2 3 dd es
      by (simp add: tshellCharInster_def Let_def tty_put_def lengthen_def insert_out_def edit_text_def)
  qed
qed

lemma CharInster_refines:
  assumes ok: "edit_ok st" and room: "SIC_uiTotalLen st < LW_CFG_SHELL_MAX_COMMANDLEN" and c: "ascii c"
  shows "\<exists>st'. tshellCharInster c st = Inr st' \<and> edit_ok st' \<and>
    historyTrieRoot st' = historyTrieRoot st \<and> view st' = line_insert (historyTrieRoot st) c (view st)"
  unfolding CharInster_eq[OF ok room]
  using PrintHistorySuggestion_refines[OF lengthen_ok(1)[OF ok room c]] lengthen_ok(2,3)[OF ok room c]
  by (cases "view st") simp

end
