(* ===== verification/Terminal.thy ===== *)
theory Terminal
  imports EditSpec
begin

text \<open>
  What the user sees: a terminal that carries out the calls recorded in \<open>ed_tty\<close>, and lemmas that the
  row after the prompt shows the line being edited, with the cursor in its place.

  The terminal has one row without an end; \<open>put_char\<close> is what a printable character, a backspace and a
  line feed do, the other calls are the VT100 sequences the editor sends.
\<close>

section \<open>The terminal\<close>

record term_state =
  tm_cells :: "nat \<Rightarrow> c_char"
  tm_col :: nat

definition printable :: "c_char \<Rightarrow> bool" where
  "printable c \<longleftrightarrow> 32 \<le> uchar c \<and> uchar c < 127"

definition put_char :: "c_char \<Rightarrow> term_state \<Rightarrow> term_state" where
  "put_char c t =
     (if c = KEY_BS then t\<lparr>tm_col := tm_col t - 1\<rparr>
      else if c = LF then \<lparr>tm_cells = (\<lambda>_. BLANK), tm_col = 0\<rparr>
      else \<lparr>tm_cells = (tm_cells t)(tm_col t := c), tm_col = tm_col t + 1\<rparr>)"

fun term_step :: "tty_out \<Rightarrow> term_state \<Rightarrow> term_state" where
  "term_step (Tty_Write cs) t = fold put_char cs t"
| "term_step (Tty_Print cs) t = fold put_char cs t"
| "term_step Tty_Key_Left t = t\<lparr>tm_col := tm_col t - 1\<rparr>"
| "term_step Tty_Key_Right t = t\<lparr>tm_col := tm_col t + 1\<rparr>"
| "term_step (Tty_Left n) t = t\<lparr>tm_col := tm_col t - n\<rparr>"
| "term_step (Tty_Right n) t = t\<lparr>tm_col := tm_col t + n\<rparr>"
| "term_step Tty_Clear_End t = t\<lparr>tm_cells := \<lambda>i. if i < tm_col t then tm_cells t i else BLANK\<rparr>"
| "term_step Tty_Prompt t = \<lparr>tm_cells = (\<lambda>_. BLANK), tm_col = 0\<rparr>"
| "term_step (Tty_Color_Start _) t = t"
| "term_step Tty_Color_End t = t"

definition screen :: "term_state \<Rightarrow> edit_state \<Rightarrow> term_state" where
  "screen t0 st = fold term_step (ed_tty st) t0"

text \<open>The row shows the text and the cursor; \<open>hint_shown\<close>: behind the text it shows the suggestion.\<close>

definition line_shown :: "term_state \<Rightarrow> edit_state \<Rightarrow> bool" where
  "line_shown t st \<longleftrightarrow> tm_col t = SIC_uiCursor st \<and>
     (\<forall>i < SIC_uiTotalLen st. tm_cells t i = SIC_cInputBuffer st ! i)"

definition hint_shown :: "term_state \<Rightarrow> edit_state \<Rightarrow> bool" where
  "hint_shown t st \<longleftrightarrow>
     (case lastMatch st of Match_Live m \<Rightarrow> \<forall>i < length m. tm_cells t (SIC_uiTotalLen st + i) = m ! i
      | _ \<Rightarrow> True)"

section \<open>Writing\<close>

lemma printable_not: "printable c \<Longrightarrow> c \<noteq> KEY_BS \<and> c \<noteq> LF"
  by (auto simp: printable_def KEY_BS_def uchar_def)

lemma printable_BLANK [simp]: "printable BLANK"
  by (simp add: printable_def uchar_def)

lemma fold_put_char:
  "list_all printable cs \<Longrightarrow> fold put_char cs t =
     \<lparr>tm_cells = (\<lambda>i. if tm_col t \<le> i \<and> i < tm_col t + length cs then cs ! (i - tm_col t) else tm_cells t i),
      tm_col = tm_col t + length cs\<rparr>"
proof (induction cs arbitrary: t)
  case (Cons c cs)
  then show ?case
    using printable_not[of c] by (auto simp: put_char_def nth_Cons' intro!: ext)
qed (auto intro!: term_state.equality ext)

lemma fold_put_bs: "fold put_char (replicate n KEY_BS) t = t\<lparr>tm_col := tm_col t - n\<rparr>"
proof -
  have *: "(put_char KEY_BS ^^ n) u = u\<lparr>tm_col := tm_col u - n\<rparr>" for u
    by (induction n) (auto simp: put_char_def comp_def)
  show ?thesis unfolding fold_replicate by (rule *)
qed

lemma fold_fill: "fold term_step (fill_out c n) t = fold put_char (replicate n c) t"
proof (induction c n arbitrary: t rule: fill_out.induct)
  case (1 c n)
  show ?case
  proof (cases "n > REPEAT_BUFFER_LEN")
    case True
    then have "replicate n c = replicate REPEAT_BUFFER_LEN c @ replicate (n - REPEAT_BUFFER_LEN) c"
      by (simp add: replicate_add[symmetric])
    then show ?thesis using True 1 by (subst fill_out.simps) simp
  qed (subst fill_out.simps, simp)
qed

lemma fill_blank:
  "fold term_step (fill_out BLANK n) t =
     \<lparr>tm_cells = (\<lambda>i. if tm_col t \<le> i \<and> i < tm_col t + n then BLANK else tm_cells t i), tm_col = tm_col t + n\<rparr>"
  using fold_put_char[of "replicate n BLANK" t] by (auto simp: fold_fill list_all_iff intro!: ext)

lemma fill_back: "fold term_step (fill_out KEY_BS n) t = t\<lparr>tm_col := tm_col t - n\<rparr>"
  unfolding fold_fill by (rule fold_put_bs)

section \<open>The suggestion\<close>

lemma Print_shown:
  assumes ok: "edit_ok st" and t: "line_shown (screen t0 st) st"
    and pr: "\<And>m. trieSearch (the (historyTrieRoot st)) (edit_text st) = Inr (Some m) \<Longrightarrow> list_all printable m"
    and r: "tshellPrintHistorySuggestion st = Inr st'"
  shows "line_shown (screen t0 st') st'"
    "0 < SIC_uiCursor st \<Longrightarrow> SIC_uiCursor st = SIC_uiTotalLen st \<Longrightarrow> hint_shown (screen t0 st') st'"
proof -
  have rd: "take (SIC_uiTotalLen st) (SIC_cInputBuffer st) = edit_text st"
    "\<not> SIC_uiTotalLen st > length (SIC_cInputBuffer st)"
    using ok by (simp_all add: edit_ok_def edit_text_def)
  let ?T = "screen t0 st"
  have "line_shown (screen t0 st') st' \<and>
    (0 < SIC_uiCursor st \<and> SIC_uiCursor st = SIC_uiTotalLen st \<longrightarrow> hint_shown (screen t0 st') st')"
  proof (cases "SIC_uiTotalLen st > 0 \<and> SIC_uiCursor st = SIC_uiTotalLen st")
    case True
    then obtain x where x: "trieSearch (the (historyTrieRoot st)) (edit_text st) = Inr x"
      and st': "st' = (case x of None \<Rightarrow> st\<lparr>lastMatch := Match_Null, lastMatchLength := 0\<rparr>
        | Some m \<Rightarrow> (let m = takeWhile (\<lambda>c. c \<noteq> EOS) m in
           st\<lparr>lastMatch := Match_Live m, lastMatchLength := int (length m),
             ed_tty := ed_tty st @ [Tty_Color_Start Dary_Gray, Tty_Print m, Tty_Color_End] @ fill_out KEY_BS (length m)\<rparr>))"
      using r rd by (auto simp: tshellPrintHistorySuggestion_def Let_def tty_put_def fillRepeatBackspace_eq
          split: if_splits option.splits sum.splits)
    show ?thesis
    proof (cases x)
      case None
      then show ?thesis using st' t True by (simp add: line_shown_def hint_shown_def screen_def)
    next
      case (Some s)
      define m where "m = takeWhile (\<lambda>c. c \<noteq> EOS) s"
      have "list_all printable m" using pr[of s] x Some by (auto simp: m_def list_all_iff dest: set_takeWhileD)
      then have "screen t0 st' = \<lparr>tm_cells = (\<lambda>i. if tm_col ?T \<le> i \<and> i < tm_col ?T + length m
           then m ! (i - tm_col ?T) else tm_cells ?T i), tm_col = tm_col ?T\<rparr>"
        using st' Some unfolding screen_def by (simp add: m_def[symmetric] fold_put_char fill_back)
      then show ?thesis using st' Some t True by (simp add: line_shown_def hint_shown_def m_def[symmetric])
    qed
  next
    case False
    then have "st' = st" using r by (auto simp: tshellPrintHistorySuggestion_def)
    then show ?thesis using t False by auto
  qed
  then show "line_shown (screen t0 st') st'"
    "0 < SIC_uiCursor st \<Longrightarrow> SIC_uiCursor st = SIC_uiTotalLen st \<Longrightarrow> hint_shown (screen t0 st') st'" by auto
qed

section \<open>The keys\<close>

text \<open>How the row changes when the calls \<open>es\<close> follow.\<close>

lemma screen_append:
  "ed_tty st' = ed_tty st @ es \<Longrightarrow> screen t0 st' = fold term_step es (screen t0 st)"
  by (simp add: screen_def)

lemma text_nth: "i < SIC_uiTotalLen st \<Longrightarrow> SIC_cInputBuffer st ! i = edit_text st ! i"
  by (simp add: edit_text_def)

lemma line_shown_text:
  "line_shown t st \<longleftrightarrow> tm_col t = SIC_uiCursor st \<and> (\<forall>i < SIC_uiTotalLen st. tm_cells t i = edit_text st ! i)"
  by (simp add: line_shown_def text_nth)

lemma CharLeft_shown:
  assumes "line_shown (screen t0 st) st"
  shows "line_shown (screen t0 (tshellCharLeft st)) (tshellCharLeft st)"
    "hint_shown (screen t0 st) st \<Longrightarrow> hint_shown (screen t0 (tshellCharLeft st)) (tshellCharLeft st)"
  using assms by (auto simp: tshellCharLeft_def tty_put_def screen_def line_shown_def hint_shown_def split: match_ptr.splits)

lemma CharHome_shown:
  assumes "line_shown (screen t0 st) st"
  shows "line_shown (screen t0 (tshellCharHome st)) (tshellCharHome st)"
    "hint_shown (screen t0 st) st \<Longrightarrow> hint_shown (screen t0 (tshellCharHome st)) (tshellCharHome st)"
  using assms by (auto simp: tshellCharHome_def tty_put_def screen_def line_shown_def hint_shown_def split: match_ptr.splits)

lemma CharEnd_shown:
  assumes "line_shown (screen t0 st) st"
  shows "line_shown (screen t0 (tshellCharEnd st)) (tshellCharEnd st)"
    "hint_shown (screen t0 st) st \<Longrightarrow> hint_shown (screen t0 (tshellCharEnd st)) (tshellCharEnd st)"
  using assms by (auto simp: tshellCharEnd_def tty_put_def screen_def line_shown_def hint_shown_def split: match_ptr.splits)

text \<open>
  The right arrow sends only the sequence that moves the cursor: what the row shows in the new column
  must already be the character that is taken over.
\<close>

lemma CharRight_shown:
  assumes ok: "edit_ok st" and t: "line_shown (screen t0 st) st" and r: "tshellCharRight st = Inr st'"
    and h: "SIC_uiCursor st = SIC_uiTotalLen st \<Longrightarrow> hint_shown (screen t0 st) st"
  shows "line_shown (screen t0 st') st'"
    "hint_shown (screen t0 st) st \<Longrightarrow> hint_shown (screen t0 st') st'"
proof -
  have "line_shown (screen t0 st') st' \<and> (hint_shown (screen t0 st) st \<longrightarrow> hint_shown (screen t0 st') st')"
  proof (cases "SIC_uiCursor st < SIC_uiTotalLen st")
    case True
    then have st': "st' = tty_put Tty_Key_Right (st\<lparr>SIC_uiCursor := SIC_uiCursor st + 1\<rparr>)"
      using r by (simp add: tshellCharRight_def)
    show ?thesis
      using t unfolding st' by (auto simp: tty_put_def screen_def line_shown_def hint_shown_def split: match_ptr.splits)
  next
    case False
    then have cur: "SIC_uiCursor st = SIC_uiTotalLen st" using ok by (simp add: edit_ok_def)
    show ?thesis
    proof (cases "\<exists>c m. lastMatch st = Match_Live (c # m)")
      case True
      then obtain c m where m: "lastMatch st = Match_Live (c # m)" by blast
      let ?n = "SIC_uiTotalLen st" and ?b = "SIC_cInputBuffer st"
      have st': "st' = tty_put Tty_Key_Right (st\<lparr>SIC_cInputBuffer := ?b[?n := c], SIC_uiTotalLen := ?n + 1,
          lastMatchLength := lastMatchLength st - 1, lastMatch := Match_Live m, SIC_uiCursor := ?n + 1\<rparr>)"
        and lt: "?n < length ?b"
        using r m cur by (auto simp: tshellCharRight_def buf_set_def Let_def split: if_splits)
      have hh: "\<forall>i < length (c # m). tm_cells (screen t0 st) (?n + i) = (c # m) ! i"
        using h[OF cur] m by (simp add: hint_shown_def)
      have c: "tm_cells (screen t0 st) ?n = c"
        using hh[rule_format, of 0] by simp
      have m': "tm_cells (screen t0 st) (Suc (?n + i)) = m ! i" if "i < length m" for i
        using hh[rule_format, of "Suc i"] that by simp
      show ?thesis
        using t lt c m' cur unfolding st'
        by (auto simp: tty_put_def screen_def line_shown_def hint_shown_def less_Suc_eq)
    next
      case False
      then have "st' = st"
        using r cur by (auto simp: tshellCharRight_def split: match_ptr.splits list.splits)
      then show ?thesis using t by simp
    qed
  qed
  then show "line_shown (screen t0 st') st'"
    "hint_shown (screen t0 st) st \<Longrightarrow> hint_shown (screen t0 st') st'" by auto
qed

text \<open>Closing a gap: the rest of the line is written again, with a blank behind it.\<close>

lemma shorten_shown:
  assumes ok: "edit_ok st" and i: "i < SIC_uiTotalLen st" and pr: "list_all printable (edit_text st)"
    and t: "\<And>k. k < i \<Longrightarrow> tm_cells (screen t0 st) k = edit_text st ! k"
    and col: "tm_col (fold term_step es (screen t0 st)) = i"
      "tm_cells (fold term_step es (screen t0 st)) = tm_cells (screen t0 st)"
  shows "line_shown (screen t0
     (shorten i (ed_tty st @ es @ [Tty_Write (drop (Suc i) (edit_text st) @ [BLANK]), Tty_Left (SIC_uiTotalLen st - i)]) st))
     (shorten i (ed_tty st @ es @ [Tty_Write (drop (Suc i) (edit_text st) @ [BLANK]), Tty_Left (SIC_uiTotalLen st - i)]) st)"
    (is "line_shown (screen t0 ?s) ?s")
proof -
  let ?T = "screen t0 st" and ?n = "SIC_uiTotalLen st"
  have len: "length (edit_text st) = ?n" by (rule edit_text_length[OF ok])
  have tx: "edit_text ?s = take i (edit_text st) @ drop (Suc i) (edit_text st)"
    using close_gap_text(1)[OF ok i] by (simp add: shorten_def edit_text_def)
  define cs where "cs = drop (Suc i) (edit_text st) @ [BLANK]"
  have cs: "list_all printable cs" "length cs = ?n - i"
    using pr len i by (auto simp: cs_def list_all_iff dest: in_set_dropD)
  have scr: "screen t0 ?s = \<lparr>tm_cells = (\<lambda>k. if i \<le> k \<and> k < ?n then cs ! (k - i)
      else tm_cells ?T k), tm_col = i\<rparr>"
    unfolding cs_def[symmetric] using i col cs
    by (subst screen_append[of _ st]) (auto simp: shorten_def fold_put_char intro!: ext)
  show ?thesis
    unfolding line_shown_text scr tx using t i len by (auto simp: nth_append shorten_def cs_def)
qed

lemma CharDelete_shown:
  assumes ok: "edit_ok st" and t: "line_shown (screen t0 st) st" and pr: "list_all printable (edit_text st)"
    and r: "tshellCharDelete st = Inr st'"
  shows "line_shown (screen t0 st') st'"
proof (cases "SIC_uiCursor st < SIC_uiTotalLen st")
  case True
  then show ?thesis
    using shorten_shown[OF ok True pr, of t0 "[]"] t r CharDelete_eq[OF ok True]
    by (auto simp: line_shown_text)
next
  case False
  then show ?thesis using r t by (simp add: tshellCharDelete_def)
qed

lemma CharBackspace_shown:
  assumes ok: "edit_ok st" and t: "line_shown (screen t0 st) st" and pr: "list_all printable (edit_text st)"
    and sg: "\<And>m. trieSearch (the (historyTrieRoot st)) (butlast (edit_text st)) = Inr (Some m) \<Longrightarrow> list_all printable m"
    and r: "tshellCharBackspace st = Inr st'"
  shows "line_shown (screen t0 st') st'"
    "1 < SIC_uiCursor st \<Longrightarrow> SIC_uiCursor st = SIC_uiTotalLen st \<Longrightarrow> hint_shown (screen t0 st') st'"
proof -
  let ?i = "SIC_uiCursor st" and ?n = "SIC_uiTotalLen st" and ?T = "screen t0 st"
  have len: "length (edit_text st) = ?n" "?i \<le> ?n" using edit_text_length[OF ok] edit_ok_simps(2)[OF ok] .
  consider "?i = 0" | "0 < ?i" "?i < ?n" | "0 < ?i" "?i = ?n" using len by linarith
  then have "line_shown (screen t0 st') st' \<and> (1 < ?i \<and> ?i = ?n \<longrightarrow> hint_shown (screen t0 st') st')"
  proof cases
    case 1
    then show ?thesis using t r by (simp add: tshellCharBackspace_def)
  next
    case 2
    then have lt: "?i - 1 < ?n" by simp
    show ?thesis
      using 2 shorten_shown[OF ok lt pr, of t0 "[Tty_Write [KEY_BS]]"] t r CharBackspace_eq[OF ok 2]
      by (auto simp: line_shown_text put_char_def)
  next
    case 3
    obtain es where cl: "tshellClearHistorySuggestion st = Inr (st\<lparr>ed_tty := ed_tty st @ es\<rparr>)"
      and es: "es = fill_out BLANK (nat (lastMatchLength st)) @ fill_out KEY_BS (nat (lastMatchLength st))"
      using ClearHistorySuggestion_eq[OF ok] by metis
    define st1 where "st1 = (tty_put (Tty_Write [KEY_BS, BLANK, KEY_BS]) (st\<lparr>ed_tty := ed_tty st @ es\<rparr>))
        \<lparr>SIC_uiCursor := ?i - 1, SIC_uiTotalLen := ?n - 1\<rparr>"
    have tx: "edit_text st1 = butlast (edit_text st)"
      using 3 edit_ok_simps(1,3)[OF ok] by (simp add: st1_def edit_text_def butlast_take)
    have ok1: "edit_ok st1"
      using ok 3 tx ascii_take_drop(1)[of "edit_text st" "?n - 1"] len(1) unfolding edit_ok_def
      by (simp add: butlast_conv_take) (auto simp: st1_def)
    have "screen t0 st1 = \<lparr>tm_cells = (\<lambda>k. if ?i - 1 \<le> k \<and> k < ?i + nat (lastMatchLength st) then BLANK else tm_cells ?T k),
        tm_col = ?i - 1\<rparr>"
      using t 3 by (subst screen_append[of _ st "es @ [Tty_Write [KEY_BS, BLANK, KEY_BS]]"])
        (use printable_not[OF printable_BLANK] in
          \<open>auto simp: st1_def es fill_blank fill_back line_shown_def put_char_def intro!: ext\<close>)
    then have sh: "line_shown (screen t0 st1) st1"
      using t 3 by (auto simp: line_shown_def st1_def)
    have "tshellPrintHistorySuggestion st1 = Inr st'"
      using 3 cl r by (simp add: tshellCharBackspace_def st1_def Let_def)
    from Print_shown[OF ok1 sh _ this] sg tx 3 show ?thesis by (auto simp: st1_def)
  qed
  then show "line_shown (screen t0 st') st'"
    "1 < ?i \<Longrightarrow> ?i = ?n \<Longrightarrow> hint_shown (screen t0 st') st'" by auto
qed

lemma CharInster_shown:
  assumes ok: "edit_ok st" and room: "SIC_uiTotalLen st < LW_CFG_SHELL_MAX_COMMANDLEN" and c: "ascii c" "printable c"
    and t: "line_shown (screen t0 st) st" and pr: "list_all printable (edit_text st)"
    and sg: "\<And>m. trieSearch (the (historyTrieRoot st)) (edit_text st @ [c]) = Inr (Some m) \<Longrightarrow> list_all printable m"
    and r: "tshellCharInster c st = Inr st'"
  shows "line_shown (screen t0 st') st'"
    "SIC_uiCursor st = SIC_uiTotalLen st \<Longrightarrow> hint_shown (screen t0 st') st'"
proof -
  let ?i = "SIC_uiCursor st" and ?n = "SIC_uiTotalLen st" and ?T = "screen t0 st"
  let ?s = "lengthen c (ed_tty st @ insert_out c st) st"
  have len: "length (edit_text st) = ?n" "?i \<le> ?n" using edit_text_length[OF ok] edit_ok_simps(2)[OF ok] .
  have tx: "edit_text ?s = take ?i (edit_text st) @ c # drop ?i (edit_text st)"
    using len unfolding edit_text_def[of ?s] by (simp add: lengthen_def Suc_diff_le)
  define cs where "cs = c # drop ?i (edit_text st)"
  have cs: "list_all printable cs" "length cs = ?n - ?i + 1"
    using c pr len by (auto simp: cs_def list_all_iff dest: in_set_dropD)
  have end_cs: "cs = [c]" if "?i = ?n" using that len by (simp add: cs_def)
  let ?q = "nat (lastMatchLength st)"
  have scr: "screen t0 ?s = \<lparr>tm_cells = (\<lambda>k. if ?i \<le> k \<and> k < ?n + 1 then cs ! (k - ?i)
      else if ?i \<le> k \<and> k < ?i + ?q then BLANK else tm_cells ?T k), tm_col = ?i + 1\<rparr>"
    using t len cs end_cs unfolding line_shown_def
    by (subst screen_append[of _ st "insert_out c st"])
      (auto simp: lengthen_def insert_out_def fill_blank fill_back fold_put_char cs_def[symmetric] c
        put_char_def dest: printable_not intro!: ext)
  have sh: "line_shown (screen t0 ?s) ?s"
    unfolding line_shown_text scr tx using t len by (auto simp: nth_append line_shown_text cs_def lengthen_def)
  have pr': "tshellPrintHistorySuggestion ?s = Inr st'" using r CharInster_eq[OF ok room] by simp
  have cur: "SIC_uiCursor ?s = ?i + 1" "SIC_uiTotalLen ?s = ?n + 1" "historyTrieRoot ?s = historyTrieRoot st"
    by (simp_all add: lengthen_def)
  have *: "line_shown (screen t0 st') st' \<and> (?i = ?n \<longrightarrow> hint_shown (screen t0 st') st')"
  proof (cases "?i = ?n")
    case True
    have "edit_text ?s = edit_text st @ [c]" using tx True len by simp
    with Print_shown[OF lengthen_ok(1)[OF ok room c(1)] sh _ pr'] sg cur True show ?thesis by simp
  next
    case False
    then have "st' = ?s" using pr' cur by (simp add: tshellPrintHistorySuggestion_def)
    with False sh show ?thesis by simp
  qed
  then show "line_shown (screen t0 st') st'" "?i = ?n \<Longrightarrow> hint_shown (screen t0 st') st'" by auto
qed

end
