(* ===== verification/History.thy ===== *)
theory History
  imports Terminal RingList
begin

text \<open>
  The input history of \<open>ttinyShell/ttinyShellReadline.c\<close>: \<open>__tshellHistorySave\<close> keeps the last twenty
  different lines in a ring, the newest at the header; \<open>__tshellHistoryGet\<close> walks it for the arrow keys.

  \<open>SIH_cInputSave\<close> is the heap of history entries: \<open>None\<close> is an address that was freed or never
  allocated.  The address that \<open>__SHEAP_ALLOC\<close> gives for a new entry is an argument.  A search that
  does not come back to the header, or a null link, gives \<open>None\<close>; \<open>history_ok\<close> excludes both.
\<close>

section \<open>State\<close>

record history_ctx =
  SIHC_ring :: ring_store
  SIHC_pringHeader :: "addr option"
  SIHC_uiCounter :: nat
  SIHC_bNeedBackup :: bool
  SIHC_ulId :: nat
  SIH_cInputSave :: "addr \<Rightarrow> cstring option"

definition INPUT_SAVE_MAX :: nat where
  "INPUT_SAVE_MAX = 20"

section \<open>Saving a line\<close>

text \<open>The \<open>while (pring)\<close> loop: the entry that holds \<open>s\<close>, if there is one.\<close>

partial_function (option) history_search ::
    "history_ctx \<Rightarrow> cstring \<Rightarrow> addr option \<Rightarrow> addr option option" where
  "history_search h s pring =
     (case pring of
        None \<Rightarrow> Some None
      | Some a \<Rightarrow>
          (case SIH_cInputSave h a of
             None \<Rightarrow> None
           | Some e \<Rightarrow>
               if lib_strcmp e s = 0 then Some (Some a)
               else if LINE_plistNext (SIHC_ring h) a = SIHC_pringHeader h then Some None
               else history_search h s (LINE_plistNext (SIHC_ring h) a)))"

definition tshellHistorySave :: "addr option \<Rightarrow> cstring \<Rightarrow> history_ctx \<Rightarrow> history_ctx option" where
  "tshellHistorySave alloc s h =
     (case history_search h s (SIHC_pringHeader h) of
        None \<Rightarrow> None
      | Some (Some a) \<Rightarrow>
          (if Some a = SIHC_pringHeader h then Some h
           else case List_Ring_Del a (SIHC_ring h, SIHC_pringHeader h) of
             None \<Rightarrow> None
           | Some rh \<Rightarrow>
               (case List_Ring_Add_Ahead a rh of
                  None \<Rightarrow> None
                | Some (R, hdr) \<Rightarrow> Some (h\<lparr>SIHC_ring := R, SIHC_pringHeader := hdr\<rparr>)))
      | Some None \<Rightarrow>
          (case alloc of
             None \<Rightarrow> Some h
           | Some a \<Rightarrow>
               (case List_Ring_Add_Ahead a (SIHC_ring h, SIHC_pringHeader h) of
                  None \<Rightarrow> None
                | Some (R, hdr) \<Rightarrow>
                    (let h = h\<lparr>SIHC_ring := R, SIHC_pringHeader := hdr, SIHC_uiCounter := SIHC_uiCounter h + 1,
                           SIH_cInputSave := (SIH_cInputSave h)(a := Some s)\<rparr> in
                     if SIHC_uiCounter h > INPUT_SAVE_MAX then
                       (case (case hdr of None \<Rightarrow> None | Some x \<Rightarrow> LINE_plistPrev R x) of
                          None \<Rightarrow> None
                        | Some p \<Rightarrow>
                            (case List_Ring_Del p (R, hdr) of
                               None \<Rightarrow> None
                             | Some (R, hdr) \<Rightarrow>
                                 Some (h\<lparr>SIHC_ring := R, SIHC_pringHeader := hdr, SIHC_uiCounter := SIHC_uiCounter h - 1,
                                   SIH_cInputSave := (SIH_cInputSave h)(p := None)\<rparr>)))
                     else Some h))))"

section \<open>The invariant and the lines\<close>

definition history_ok :: "history_ctx \<Rightarrow> addr list \<Rightarrow> bool" where
  "history_ok h as \<longleftrightarrow>
     ring (SIHC_ring h) (SIHC_pringHeader h) as \<and> SIHC_uiCounter h = length as \<and>
     length as \<le> INPUT_SAVE_MAX \<and> set as = dom (SIH_cInputSave h) \<and>
     distinct (map (\<lambda>a. the (SIH_cInputSave h a)) as)"

definition history_lines :: "history_ctx \<Rightarrow> addr list \<Rightarrow> cstring list" where
  "history_lines h as = map (\<lambda>a. the (SIH_cInputSave h a)) as"

text \<open>What a history of at most twenty different lines does with a line.\<close>

definition remember :: "cstring \<Rightarrow> cstring list \<Rightarrow> cstring list" where
  "remember s hs = take INPUT_SAVE_MAX (s # filter (\<lambda>x. x \<noteq> s) hs)"

lemma ring_next_nth:
  assumes "ring S h xs" "i < length xs"
  shows "LINE_plistNext S (xs ! i) = Some (xs ! (Suc i mod length xs))"
    "LINE_plistPrev S (xs ! (Suc i mod length xs)) = Some (xs ! i)"
proof -
  have rot: "\<exists>h'. ring S h' (rotate k xs)" for k
  proof (induction k)
    case (Suc k)
    then obtain h' where r: "ring S h' (rotate k xs)" by blast
    show ?case
    proof (cases "rotate k xs")
      case Nil
      then show ?thesis using r by (simp del: rotate_is_Nil_conv)
    next
      case (Cons x ys)
      then show ?thesis using ring_rotate[of S h' x ys] r by (auto simp: rotate_Suc)
    qed
  qed (use assms(1) in auto)
  have ne: "xs \<noteq> []" using assms(2) by auto
  obtain y ys where y: "rotate i xs = y # ys" using ne by (cases "rotate i xs") auto
  obtain h' where r: "ring S h' (y # ys)" using rot[of i] y by auto
  have yi: "y = xs ! i" using hd_rotate_conv_nth[OF ne, of i] y assms(2) by simp
  obtain z zs where z: "ys @ [y] = z # zs" by (cases "ys @ [y]") auto
  have "rotate (Suc i) xs = z # zs" using y z by (simp add: rotate_Suc)
  then have zi: "z = xs ! (Suc i mod length xs)" using hd_rotate_conv_nth[OF ne, of "Suc i"] by simp
  have r2: "ring S (LINE_plistNext S y) (z # zs)" using ring_rotate[OF r] z by simp
  then show "LINE_plistNext S (xs ! i) = Some (xs ! (Suc i mod length xs))"
    using ring_hd[OF r2] yi zi by simp
  have "last (z # zs) = y" using z by (metis last_snoc)
  then have "LINE_plistPrev S z = Some y" using r2 unfolding ring_def by (auto split: if_splits)
  then show "LINE_plistPrev S (xs ! (Suc i mod length xs)) = Some (xs ! i)" using yi zi by simp
qed

lemma history_entry: "history_ok h as \<Longrightarrow> a \<in> set as \<Longrightarrow> SIH_cInputSave h a = Some (the (SIH_cInputSave h a))"
  by (auto simp: history_ok_def)

lemma history_search_from:
  assumes ok: "history_ok h as" and i: "i < length as"
  shows "history_search h s (Some (as ! i)) =
    Some (find (\<lambda>a. the (SIH_cInputSave h a) = s) (drop i as))"
  using i
proof (induction "length as - i" arbitrary: i)
  case (Suc k)
  let ?P = "\<lambda>a. the (SIH_cInputSave h a) = s"
  have r: "ring (SIHC_ring h) (SIHC_pringHeader h) as" using ok by (simp add: history_ok_def)
  obtain v where e: "SIH_cInputSave h (as ! i) = Some v"
    using history_entry[OF ok nth_mem[OF Suc.prems]] by blast
  have d: "drop i as = as ! i # drop (Suc i) as" using Suc.prems by (rule Cons_nth_drop_Suc[symmetric])
  have nx: "LINE_plistNext (SIHC_ring h) (as ! i) = Some (as ! (Suc i mod length as))"
    by (rule ring_next_nth(1)[OF r Suc.prems])
  have hdr: "SIHC_pringHeader h = Some (as ! 0)" "distinct as"
    using r Suc.prems by (cases as; auto simp: ring_def)+
  show ?case
  proof (cases "?P (as ! i)")
    case True
    then show ?thesis using e d by (subst history_search.simps) simp
  next
    case False
    show ?thesis
    proof (cases "Suc i < length as")
      case True
      have "as ! Suc i \<noteq> as ! 0" using nth_eq_iff_index_eq[OF hdr(2) True, of 0] True by fastforce
      moreover have "history_search h s (Some (as ! Suc i)) = Some (find ?P (drop (Suc i) as))"
        by (rule Suc.hyps(1)) (use Suc.hyps(2) True in simp_all)
      ultimately show ?thesis
        using False e d nx hdr(1) True by (subst history_search.simps) simp
    next
      case last: False
      then have "Suc i = length as" using Suc.prems by linarith
      then have "Suc i mod length as = 0" by simp
      then show ?thesis using False e d nx hdr last by (subst history_search.simps) simp
    qed
  qed
qed simp

lemma history_search_eq:
  assumes ok: "history_ok h as"
  shows "history_search h s (SIHC_pringHeader h) = Some (find (\<lambda>a. the (SIH_cInputSave h a) = s) as)"
proof (cases as)
  case Nil
  with ok have "SIHC_pringHeader h = None" by (simp add: history_ok_def)
  then show ?thesis using Nil by (subst history_search.simps) simp
next
  case (Cons a bs)
  then have "SIHC_pringHeader h = Some (as ! 0)" using ok by (auto simp: history_ok_def dest: ring_hd)
  then show ?thesis using history_search_from[OF ok, of 0 s] Cons by simp
qed

lemma find_split:
  "find P xs = Some b \<Longrightarrow> \<exists>ys zs. xs = ys @ b # zs \<and> P b \<and> (\<forall>x \<in> set ys. \<not> P x)"
proof (induction xs)
  case (Cons x xs)
  show ?case
  proof (cases "P x")
    case True
    then have "x # xs = [] @ b # xs \<and> P b \<and> (\<forall>x \<in> set []. \<not> P x)" using Cons.prems by simp
    then show ?thesis by blast
  next
    case False
    then obtain ys zs where "xs = ys @ b # zs" "P b" "\<forall>x \<in> set ys. \<not> P x" using Cons by auto
    then show ?thesis using False by (intro exI[of _ "x # ys"] exI[of _ zs]) auto
  qed
qed simp

lemma filter_all: "(\<And>x. x \<in> set xs \<Longrightarrow> P x) \<Longrightarrow> filter P xs = xs"
  by (induction xs) auto

text \<open>A line that is there moves to the front.\<close>

lemma remember_old:
  assumes "distinct (xs @ s # ys)" "length (xs @ s # ys) \<le> INPUT_SAVE_MAX"
  shows "remember s (xs @ s # ys) = s # xs @ ys"
proof -
  have "filter (\<lambda>x. x \<noteq> s) xs = xs" "filter (\<lambda>x. x \<noteq> s) ys = ys"
    using assms(1) by (auto intro!: filter_all)
  then show ?thesis using assms(2) by (simp add: remember_def)
qed

text \<open>A new line is put in front, and the oldest leaves a full history.\<close>

lemma remember_new:
  assumes "s \<notin> set hs" "length hs \<le> INPUT_SAVE_MAX"
  shows "remember s hs = s # (if length hs < INPUT_SAVE_MAX then hs else butlast hs)"
proof -
  have "filter (\<lambda>x. x \<noteq> s) hs = hs" using assms(1) by (intro filter_all) auto
  then show ?thesis
    using assms(2) by (cases "length hs = INPUT_SAVE_MAX") (auto simp: remember_def butlast_conv_take take_Cons' INPUT_SAVE_MAX_def)
qed

text \<open>Saving a line keeps the history in order, and refines \<open>remember\<close>.\<close>

lemma HistorySave_old:
  assumes ok: "history_ok h as" and b: "find (\<lambda>a. the (SIH_cInputSave h a) = s) as = Some b"
  shows "\<exists>h' as'. tshellHistorySave alloc s h = Some h' \<and> history_ok h' as' \<and>
    history_lines h' as' = remember s (history_lines h as) \<and> set as' = set as"
proof -
  let ?key = "\<lambda>a. the (SIH_cInputSave h a)"
  have r: "ring (SIHC_ring h) (SIHC_pringHeader h) as" and dis: "distinct (map ?key as)"
    and len: "length as \<le> INPUT_SAVE_MAX" using ok by (simp_all add: history_ok_def)
  obtain ys zs where as: "as = ys @ b # zs" and key: "?key b = s"
    using find_split[OF b] by auto
  have srch: "history_search h s (SIHC_pringHeader h) = Some (Some b)"
    using history_search_eq[OF ok, of s] b by simp
  have rm: "remember s (history_lines h as) = map ?key (b # ys @ zs)"
    using remember_old[of "map ?key ys" s "map ?key zs"] dis len as key by (auto simp: history_lines_def)
  show ?thesis
  proof (cases ys)
    case Nil
    then have "SIHC_pringHeader h = Some b" using r as ring_hd by force
    then have "tshellHistorySave alloc s h = Some h" using srch by (simp add: tshellHistorySave_def)
    then show ?thesis using ok rm Nil as
      by (intro exI[of _ h] exI[of _ as]) (simp add: history_lines_def)
  next
    case (Cons y ws)
    have nh: "Some b \<noteq> SIHC_pringHeader h" using r as Cons by (auto simp: ring_def)
    obtain R1 h1 where d: "List_Ring_Del b (SIHC_ring h, SIHC_pringHeader h) = Some (R1, h1)" "ring R1 h1 (ys @ zs)"
      using Ring_Del_ring[of "SIHC_ring h" "SIHC_pringHeader h" ys b zs] r as by auto
    have nb: "b \<notin> set (ys @ zs)" using r as by (auto simp: ring_def)
    obtain R2 where e: "List_Ring_Add_Ahead b (R1, h1) = Some (R2, Some b)" "ring R2 (Some b) (b # ys @ zs)"
      using Ring_Add_Ahead_ring[OF d(2) nb] by auto
    let ?h = "h\<lparr>SIHC_ring := R2, SIHC_pringHeader := Some b\<rparr>"
    have "tshellHistorySave alloc s h = Some ?h" using srch nh d(1) e(1) by (simp add: tshellHistorySave_def)
    moreover have "history_ok ?h (b # ys @ zs)" using ok e(2) as by (auto simp: history_ok_def)
    ultimately show ?thesis using rm as
      by (intro exI[of _ ?h] exI[of _ "b # ys @ zs"]) (auto simp: history_lines_def)
  qed
qed

lemma HistorySave_new:
  assumes ok: "history_ok h as" and n: "find (\<lambda>a. the (SIH_cInputSave h a) = s) as = None" and a: "a \<notin> set as"
  shows "\<exists>h' as'. tshellHistorySave (Some a) s h = Some h' \<and> history_ok h' as' \<and>
    history_lines h' as' = remember s (history_lines h as) \<and> set as' \<subseteq> insert a (set as)"
proof -
  let ?key = "\<lambda>a. the (SIH_cInputSave h a)"
  have r: "ring (SIHC_ring h) (SIHC_pringHeader h) as" and dis: "distinct (map ?key as)" "distinct as"
    and len: "length as \<le> INPUT_SAVE_MAX" and cnt: "SIHC_uiCounter h = length as"
    and dom: "set as = dom (SIH_cInputSave h)" using ok by (auto simp: history_ok_def ring_def)
  have srch: "history_search h s (SIHC_pringHeader h) = Some None"
    using history_search_eq[OF ok, of s] n by simp
  have new: "s \<notin> set (history_lines h as)" using n by (auto simp: find_None_iff history_lines_def)
  obtain R1 where e: "List_Ring_Add_Ahead a (SIHC_ring h, SIHC_pringHeader h) = Some (R1, Some a)" "ring R1 (Some a) (a # as)"
    using Ring_Add_Ahead_ring[OF r a] by auto
  let ?h1 = "h\<lparr>SIHC_ring := R1, SIHC_pringHeader := Some a, SIHC_uiCounter := SIHC_uiCounter h + 1,
     SIH_cInputSave := (SIH_cInputSave h)(a := Some s)\<rparr>"
  have keep: "map (\<lambda>x. the (((SIH_cInputSave h)(a := Some s)) x)) xs = map ?key xs" if "a \<notin> set xs" for xs
    using that by (auto intro!: map_cong)
  show ?thesis
  proof (cases "length as < INPUT_SAVE_MAX")
    case True
    have "tshellHistorySave (Some a) s h = Some ?h1"
      using srch e(1) cnt True by (simp add: tshellHistorySave_def Let_def)
    moreover have mp: "map (\<lambda>x. the (SIH_cInputSave ?h1 x)) (a # as) = s # map ?key as"
      using keep[OF a] by simp
    have "distinct (map (\<lambda>x. the (SIH_cInputSave ?h1 x)) (a # as))"
      unfolding mp using dis(1) new by (simp add: history_lines_def)
    then have "history_ok ?h1 (a # as)"
      unfolding history_ok_def using e(2) cnt True dom by (intro conjI) auto
    ultimately show ?thesis
      using remember_new[OF new] True keep[OF a]
      by (intro exI[of _ ?h1] exI[of _ "a # as"]) (auto simp: history_lines_def)
  next
    case False
    then have full: "length as = INPUT_SAVE_MAX" using len by simp
    then obtain bs p where as: "as = bs @ [p]"
      by (cases as rule: rev_cases) (auto simp: INPUT_SAVE_MAX_def)
    have pv: "LINE_plistPrev R1 a = Some p" using e(2) as unfolding ring_def by auto
    obtain R2 h2 where d: "List_Ring_Del p (R1, Some a) = Some (R2, h2)" "ring R2 h2 (a # bs)"
      using Ring_Del_ring[of R1 "Some a" "a # bs" p "[]"] e(2) as by auto
    let ?h2 = "h\<lparr>SIHC_ring := R2, SIHC_pringHeader := h2,
      SIH_cInputSave := ((SIH_cInputSave h)(a := Some s))(p := None)\<rparr>"
    have pa: "p \<noteq> a" "p \<notin> set bs" "a \<notin> set bs" using a dis(2) as by auto
    have "tshellHistorySave (Some a) s h = Some ?h2"
      using srch e(1) cnt full pv d(1) by (simp add: tshellHistorySave_def Let_def)
    moreover have keys: "map (\<lambda>x. the ((((SIH_cInputSave h)(a := Some s))(p := None)) x)) (a # bs) = s # map ?key bs"
      using pa by (auto intro!: map_cong)
    moreover have "distinct (map (\<lambda>x. the (SIH_cInputSave ?h2 x)) (a # bs))"
      using keys dis(1) new as by (simp add: history_lines_def del: list.map map_eq_conv)
    then have "history_ok ?h2 (a # bs)"
      unfolding history_ok_def using d(2) cnt full as dom pa by (intro conjI) auto
    ultimately show ?thesis
      using remember_new[OF new] full as pa
      by (intro exI[of _ ?h2] exI[of _ "a # bs"]) (auto simp: history_lines_def)
  qed
qed

lemma HistorySave_refines:
  assumes ok: "history_ok h as" and a: "a \<notin> set as"
  shows "\<exists>h' as'. tshellHistorySave (Some a) s h = Some h' \<and> history_ok h' as' \<and>
    history_lines h' as' = remember s (history_lines h as) \<and> set as' \<subseteq> insert a (set as)"
  using HistorySave_old[OF ok] HistorySave_new[OF ok _ a]
  by (cases "find (\<lambda>a. the (SIH_cInputSave h a) = s) as") fastforce+

section \<open>Walking through the history\<close>

text \<open>
  The TCB's pointer to the history may be null.  A cookie is the entry that was shown last; reading an
  entry that is not there is \<open>Use_After_Free\<close>.
\<close>

definition tshellHistoryGet ::
    "bool \<Rightarrow> history_ctx option \<Rightarrow> addr option \<Rightarrow> edit_state \<Rightarrow>
     edit_fault + bool \<times> addr option \<times> edit_state" where
  "tshellHistoryGet bNext psihc cookie st =
     (case psihc of
        None \<Rightarrow> Inr (False, cookie, st)
      | Some h \<Rightarrow>
          if SIHC_pringHeader h = None then Inr (False, cookie, st)
          else
            (let pringGet = (case cookie of
                 None \<Rightarrow> SIHC_pringHeader h
               | Some a \<Rightarrow> if bNext then LINE_plistNext (SIHC_ring h) a else LINE_plistPrev (SIHC_ring h) a) in
             case pringGet of
               None \<Rightarrow> Inl Use_After_Free
             | Some a \<Rightarrow>
                 (case SIH_cInputSave h a of
                    None \<Rightarrow> Inl Use_After_Free
                  | Some e \<Rightarrow>
                      bind_res (buf_put_str (fst (lib_strlcpy [] e LW_CFG_SHELL_MAX_COMMANDLEN)) st)
                        (\<lambda>st. Inr (True, Some a, st)))))"

definition show_history :: "bool \<times> addr option \<times> edit_state \<Rightarrow> edit_fault + addr option \<times> edit_state" where
  "show_history r =
     (case r of (bGetOk, cookie, st) \<Rightarrow>
        if bGetOk then
          (let st = (if SIC_uiCursor st > 0 then tty_put (Tty_Left (SIC_uiCursor st)) st else st);
               st = tty_put Tty_Clear_End st in
           bind_res (buf_str st) (\<lambda>s.
             let st = st\<lparr>SIC_uiTotalLen := lib_strlen s\<rparr> in
             bind_res (tty_write_buf 0 (SIC_uiTotalLen st) st) (\<lambda>st.
               Inr (cookie, st\<lparr>SIC_uiCursor := SIC_uiTotalLen st\<rparr>))))
        else Inr (cookie, st))"

definition tshellCharUp :: "history_ctx option \<Rightarrow> addr option \<Rightarrow> edit_state \<Rightarrow> edit_fault + addr option \<times> edit_state" where
  "tshellCharUp psihc cookie st = bind_res (tshellHistoryGet True psihc cookie st) show_history"

definition tshellCharDown :: "history_ctx option \<Rightarrow> addr option \<Rightarrow> edit_state \<Rightarrow> edit_fault + addr option \<times> edit_state" where
  "tshellCharDown psihc cookie st = bind_res (tshellHistoryGet False psihc cookie st) show_history"

text \<open>
  The position in a history of \<open>n\<close> lines: \<open>None\<close> before the first arrow key, which shows the newest line
  whichever arrow it is; then the keys go round.
\<close>

definition nav_up :: "nat \<Rightarrow> nat option \<Rightarrow> nat" where
  "nav_up n p = (case p of None \<Rightarrow> 0 | Some i \<Rightarrow> (i + 1) mod n)"

definition nav_down :: "nat \<Rightarrow> nat option \<Rightarrow> nat" where
  "nav_down n p = (case p of None \<Rightarrow> 0 | Some i \<Rightarrow> (i + n - 1) mod n)"

text \<open>A recalled line is the saved one, up to the size that \<open>lib_strlcpy\<close> is given.\<close>

definition recalled :: "cstring \<Rightarrow> cstring" where
  "recalled s = take (LW_CFG_SHELL_MAX_COMMANDLEN - 1) s"

definition entry_ok :: "cstring \<Rightarrow> bool" where
  "entry_ok s \<longleftrightarrow> is_cstr s \<and> ascii_str s"

lemma show_put:
  assumes ok: "edit_ok st" and s: "entry_ok s" "length s \<le> LW_CFG_SHELL_MAX_COMMANDLEN"
  shows "\<exists>st'. bind_res (bind_res (buf_put_str s st) (\<lambda>st. Inr (True, cookie, st))) show_history =
      Inr (cookie, st') \<and> edit_ok st' \<and> historyTrieRoot st' = historyTrieRoot st \<and>
      view st' = Line s [] (lv_pending (view st)) \<and>
      ed_tty st' = ed_tty st @ (if SIC_uiCursor st > 0 then [Tty_Left (SIC_uiCursor st)] else []) @
        [Tty_Clear_End, Tty_Write s]"
proof -
  let ?b = "s @ EOS # drop (Suc (length s)) (SIC_cInputBuffer st)"
  have len: "length (SIC_cInputBuffer st) = LW_CFG_SHELL_MAX_COMMANDLEN + 1" using ok by (simp add: edit_ok_def)
  have tw: "takeWhile (\<lambda>c. c \<noteq> EOS) ?b = s"
    using s(1) by (subst takeWhile_append2) (auto simp: entry_ok_def is_cstr_def)
  define st' where "st' = st\<lparr>SIC_cInputBuffer := ?b, SIC_uiTotalLen := length s, SIC_uiCursor := length s,
      ed_tty := ed_tty st @ (if SIC_uiCursor st > 0 then [Tty_Left (SIC_uiCursor st)] else []) @
        [Tty_Clear_End, Tty_Write s]\<rparr>"
  have "bind_res (bind_res (buf_put_str s st) (\<lambda>st. Inr (True, cookie, st))) show_history = Inr (cookie, st')"
    using s len tw by (simp add: buf_put_str_def show_history_def Let_def buf_str_def tty_put_def tty_write_buf_eq st'_def)
  moreover have "edit_ok st'"
    using ok s len by (auto simp: edit_ok_def edit_text_def st'_def entry_ok_def)
  moreover have "view st' = Line s [] (lv_pending (view st))" by (simp add: view_def edit_text_def st'_def)
  ultimately show ?thesis by (simp add: st'_def)
qed

text \<open>The cookie points at a line of the history.\<close>

definition cookie_at :: "addr list \<Rightarrow> nat option \<Rightarrow> addr option \<Rightarrow> bool" where
  "cookie_at as p cookie \<longleftrightarrow>
     (case p of None \<Rightarrow> cookie = None | Some i \<Rightarrow> i < length as \<and> cookie = Some (as ! i))"

lemma HistoryGet_at:
  assumes h: "history_ok h as" "as \<noteq> []" and ck: "cookie_at as p cookie"
    and q: "q = (if b then nav_up (length as) p else nav_down (length as) p)"
  shows "q < length as"
    "tshellHistoryGet b (Some h) cookie st =
      bind_res (buf_put_str (recalled (history_lines h as ! q)) st) (\<lambda>st. Inr (True, Some (as ! q), st))"
proof -
  let ?n = "length as"
  have r: "ring (SIHC_ring h) (SIHC_pringHeader h) as" using h(1) by (simp add: history_ok_def)
  have n: "0 < ?n" using h(2) by simp
  show lt: "q < ?n" unfolding q nav_up_def nav_down_def using n by (auto split: option.split)
  have hdr: "SIHC_pringHeader h = Some (as ! 0)" using r h(2) by (cases as) (auto dest: ring_hd)
  have get: "(case cookie of None \<Rightarrow> SIHC_pringHeader h
      | Some a \<Rightarrow> if b then LINE_plistNext (SIHC_ring h) a else LINE_plistPrev (SIHC_ring h) a) = Some (as ! q)"
  proof (cases p)
    case None
    then show ?thesis using ck hdr q by (simp add: cookie_at_def nav_up_def nav_down_def)
  next
    case (Some i)
    then have i: "i < ?n" "cookie = Some (as ! i)" using ck by (auto simp: cookie_at_def)
    show ?thesis
    proof (cases b)
      case True
      then show ?thesis using ring_next_nth(1)[OF r i(1)] i Some q by (simp add: nav_up_def)
    next
      case False
      have "Suc ((i + ?n - 1) mod ?n) mod ?n = Suc (i + ?n - 1) mod ?n" by (rule mod_Suc_eq)
      also have "Suc (i + ?n - 1) = i + ?n" using n by simp
      also have "(i + ?n) mod ?n = i" using i(1) by simp
      finally have "Suc q mod ?n = i" using False Some q by (simp add: nav_down_def)
      then show ?thesis using ring_next_nth(2)[OF r lt] i False by simp
    qed
  qed
  obtain e where e: "SIH_cInputSave h (as ! q) = Some e"
    using history_entry[OF h(1) nth_mem[OF lt]] by blast
  have "fst (lib_strlcpy [] e LW_CFG_SHELL_MAX_COMMANDLEN) = recalled (history_lines h as ! q)"
    using e lt by (simp add: lib_strlcpy_eq LW_CFG_SHELL_MAX_COMMANDLEN_def recalled_def history_lines_def)
  then show "tshellHistoryGet b (Some h) cookie st =
      bind_res (buf_put_str (recalled (history_lines h as ! q)) st) (\<lambda>st. Inr (True, Some (as ! q), st))"
    using hdr get e by (simp add: tshellHistoryGet_def Let_def)
qed

lemma recalled_ok: "entry_ok s \<Longrightarrow> entry_ok (recalled s) \<and> length (recalled s) \<le> LW_CFG_SHELL_MAX_COMMANDLEN"
  by (auto simp: entry_ok_def recalled_def ascii_take_drop is_cstr_def dest: in_set_takeD)

lemma CharUp_refines:
  assumes ok: "edit_ok st" and h: "history_ok h as" "as \<noteq> []" "list_all entry_ok (history_lines h as)"
    and ck: "cookie_at as p cookie" and q: "q = nav_up (length as) p"
  shows "\<exists>st'. tshellCharUp (Some h) cookie st = Inr (Some (as ! q), st') \<and> cookie_at as (Some q) (Some (as ! q)) \<and>
    edit_ok st' \<and> historyTrieRoot st' = historyTrieRoot st \<and>
    view st' = Line (recalled (history_lines h as ! q)) [] (lv_pending (view st))"
proof -
  have lt: "q < length as" by (rule HistoryGet_at(1)[OF h(1,2) ck, where b = True]) (simp add: q)
  note get = HistoryGet_at(2)[OF h(1,2) ck, where b = True and q = q and st = st]
  have "entry_ok (history_lines h as ! q)" using h(3) lt by (simp add: list_all_length history_lines_def)
  from show_put[OF ok conjunct1[OF recalled_ok[OF this]] conjunct2[OF recalled_ok[OF this]], of "Some (as ! q)"]
  show ?thesis using get q lt by (auto simp: tshellCharUp_def cookie_at_def)
qed

lemma CharDown_refines:
  assumes ok: "edit_ok st" and h: "history_ok h as" "as \<noteq> []" "list_all entry_ok (history_lines h as)"
    and ck: "cookie_at as p cookie" and q: "q = nav_down (length as) p"
  shows "\<exists>st'. tshellCharDown (Some h) cookie st = Inr (Some (as ! q), st') \<and> cookie_at as (Some q) (Some (as ! q)) \<and>
    edit_ok st' \<and> historyTrieRoot st' = historyTrieRoot st \<and>
    view st' = Line (recalled (history_lines h as ! q)) [] (lv_pending (view st))"
proof -
  have lt: "q < length as" by (rule HistoryGet_at(1)[OF h(1,2) ck, where b = False]) (simp add: q)
  note get = HistoryGet_at(2)[OF h(1,2) ck, where b = False and q = q and st = st]
  have "entry_ok (history_lines h as ! q)" using h(3) lt by (simp add: list_all_length history_lines_def)
  from show_put[OF ok conjunct1[OF recalled_ok[OF this]] conjunct2[OF recalled_ok[OF this]], of "Some (as ! q)"]
  show ?thesis using get q lt by (auto simp: tshellCharDown_def cookie_at_def)
qed

lemma CharUp_empty: "psihc = None \<or> (\<exists>h. psihc = Some h \<and> SIHC_pringHeader h = None) \<Longrightarrow>
  tshellCharUp psihc cookie st = Inr (cookie, st) \<and> tshellCharDown psihc cookie st = Inr (cookie, st)"
  by (auto simp: tshellCharUp_def tshellCharDown_def tshellHistoryGet_def show_history_def)

end
