(* ===== verification/TabComplete.thy ===== *)
theory TabComplete
  imports Terminal ShellExec
begin

text \<open>
  Completion with the tab key: \<open>__similarLen\<close>, \<open>__tshellKeywordMatch\<close>, \<open>__tshellFileMatch\<close> and
  \<open>__tshellCharTab\<close> of \<open>ttinyShell/ttinyShellReadline.c\<close>.

  What they read is the record \<open>tab_env\<close>: the keyword table and the variables of the shell, the width
  of the terminal (\<open>None\<close> if the \<open>ioctl\<close> fails), the home directory, the entries that \<open>opendir\<close> and
  \<open>readdir\<close> give for a path (\<open>None\<close> if it cannot be opened; the empty path never can), and which paths
  \<open>stat\<close> says to be directories.  \<open>Array_Underflow\<close> is the read of \<open>pskwNode[ulGetNum - 1]\<close> when no
  keyword was returned.
\<close>

section \<open>The environment\<close>

record tab_env =
  te_keys :: keyword_state
  te_vars :: var_state
  te_error :: int
  te_width :: "nat option"
  te_home :: "cstring option"
  te_dir :: "cstring \<Rightarrow> cstring list option"
  te_is_dir :: "cstring \<Rightarrow> bool"

definition BYTES_PERLINE :: nat where
  "BYTES_PERLINE = 80"

definition BYTES_PERFILE :: nat where
  "BYTES_PERFILE = 16"

definition ws_col :: "tab_env \<Rightarrow> nat" where
  "ws_col te = (case te_width te of None \<Rightarrow> BYTES_PERLINE | Some w \<Rightarrow> w - w mod BYTES_PERFILE)"

section \<open>The common prefix\<close>

fun similarLen :: "cstring \<Rightarrow> cstring \<Rightarrow> nat" where
  "similarLen (c # s) (d # t) = (if c = d then similarLen s t + 1 else 0)"
| "similarLen _ _ = 0"

section \<open>Printing the candidates\<close>

text \<open>\<open>printf("%-15s ", s)\<close> and the padding to a multiple of sixteen columns; the new \<open>stTotalLen\<close>.\<close>

definition print_cell :: "cstring \<Rightarrow> nat \<times> edit_state \<Rightarrow> nat \<times> edit_state" where
  "print_cell s x =
     (let (stTotalLen, st) = x;
          stPrintLen = max 15 (length s) + 1;
          st = tty_put (Tty_Print (s @ replicate (15 - length s) BLANK @ [BLANK])) st in
      if stPrintLen > BYTES_PERFILE then
        (let stPad = (stPrintLen + (BYTES_PERFILE - 1)) div BYTES_PERFILE * BYTES_PERFILE - stPrintLen
         in (stTotalLen + stPrintLen + stPad, fillRepeatSpace stPad st))
      else (stTotalLen + stPrintLen, st))"

definition end_row :: "nat \<Rightarrow> nat \<times> edit_state \<Rightarrow> nat \<times> edit_state" where
  "end_row width x =
     (let (stTotalLen, st) = x in
      if stTotalLen \<ge> width then (0, tty_put (Tty_Print [LF]) st) else (stTotalLen, st))"

text \<open>\<open>lib_strlcat(CTX_BUFFER, s, LW_CFG_SHELL_MAX_COMMANDLEN)\<close>.\<close>

definition buf_strlcat :: "cstring \<Rightarrow> edit_state \<Rightarrow> edit_result" where
  "buf_strlcat s st =
     bind_res (buf_str st) (\<lambda>d.
       if lib_strnlen d LW_CFG_SHELL_MAX_COMMANDLEN = LW_CFG_SHELL_MAX_COMMANDLEN then Inr st
       else buf_put_str (fst (lib_strlcat d s LW_CFG_SHELL_MAX_COMMANDLEN)) st)"

section \<open>Keywords\<close>

definition KEYWORD_BUFF_SIZE :: nat where
  "KEYWORD_BUFF_SIZE = 20"

record kw_scan =
  ks_num :: nat
  ks_first :: cstring
  ks_min :: nat
  ks_min_kw :: cstring
  ks_print_first :: bool
  ks_total :: nat

definition kw_step :: "nat \<Rightarrow> cstring \<Rightarrow> cstring \<Rightarrow> kw_scan \<times> edit_state \<Rightarrow> kw_scan \<times> edit_state" where
  "kw_step width pcKeyword k x =
     (let (ks, st) = x in
      if similarLen pcKeyword k = lib_strlen pcKeyword then
        (if ks_num ks = 0 then
           (ks\<lparr>ks_num := 1, ks_first := k, ks_min := lib_strlen k, ks_min_kw := k\<rparr>, st)
         else
           (let ks = ks\<lparr>ks_num := ks_num ks + 1\<rparr>;
                st = (if ks_num ks = 2 then tty_put (Tty_Print [LF]) st else st);
                tempSimilar = similarLen (ks_min_kw ks) k;
                ks = (if tempSimilar < ks_min ks then ks\<lparr>ks_min := tempSimilar, ks_min_kw := k\<rparr> else ks);
                (total, st) = end_row width (print_cell k (ks_total ks, st));
                ks = ks\<lparr>ks_total := total\<rparr> in
            if ks_num ks = 2 \<and> \<not> ks_print_first ks then
              (let (total, st) = end_row width (print_cell (ks_first ks) (ks_total ks, st))
               in (ks\<lparr>ks_print_first := True, ks_total := total\<rparr>, st))
            else (ks, st)))
      else (ks, st))"

definition keyword_at :: "keyword_state \<Rightarrow> addr \<Rightarrow> cstring" where
  "keyword_at keys a = SK_pcKeyword (node_of keys a)"

partial_function (option) kw_pages ::
    "keyword_state \<Rightarrow> nat \<Rightarrow> cstring \<Rightarrow> addr option \<Rightarrow> kw_scan \<times> edit_state \<Rightarrow>
     (edit_fault + kw_scan \<times> edit_state) option" where
  "kw_pages keys width pcKeyword pskwNodeStart x =
     (let as = tshellKeywordList pskwNodeStart KEYWORD_BUFF_SIZE keys;
          x = fold (kw_step width pcKeyword) (map (keyword_at keys) as) x in
      if as = [] then Some (Inl Array_Underflow)
      else if length as = KEYWORD_BUFF_SIZE then kw_pages keys width pcKeyword (Some (last as)) x
      else Some (Inr x))"

definition kw_init :: kw_scan where
  "kw_init = \<lparr>ks_num = 0, ks_first = [], ks_min = 0, ks_min_kw = [], ks_print_first = False, ks_total = 0\<rparr>"

definition tshellKeywordMatch :: "tab_env \<Rightarrow> cstring \<Rightarrow> edit_state \<Rightarrow> edit_result" where
  "tshellKeywordMatch te pcKeyword st =
     (let currentLen = lib_strlen pcKeyword in
      case kw_pages (te_keys te) (ws_col te) pcKeyword None (kw_init, tty_put (Tty_Color_Start Green) st) of
        None \<Rightarrow> Inl Listing_Endless
      | Some r \<Rightarrow>
          bind_res r (\<lambda>(ks, st).
            let st = tty_put Tty_Color_End st in
            bind_res
              (if ks_num ks = 1 then
                 bind_res (tshellClearHistorySuggestion st) (\<lambda>st.
                   let cat = drop currentLen (ks_first ks);
                       st = tty_put (Tty_Write cat) st in
                   bind_res (buf_strlcat cat st) (\<lambda>st.
                     let st = st\<lparr>SIC_uiTotalLen := SIC_uiTotalLen st + lib_strlen cat\<rparr>
                     in Inr (st\<lparr>SIC_uiCursor := SIC_uiTotalLen st\<rparr>)))
               else if ks_num ks > 1 then
                 (let st = (if ks_total ks \<noteq> 0 then tty_put (Tty_Print [LF]) st else st);
                      st = tty_put Tty_Prompt st in
                  bind_res
                    (if ks_min ks > currentLen then
                       bind_res (buf_put_str (ks_min_kw ks) st) (\<lambda>st.
                       bind_res (buf_set (ks_min ks) EOS st) (\<lambda>st.
                         Inr (st\<lparr>SIC_uiTotalLen := ks_min ks, SIC_uiCursor := ks_min ks\<rparr>)))
                     else Inr st)
                    (\<lambda>st. tty_write_buf 0 (SIC_uiTotalLen st) st))
               else Inr st)
              (\<lambda>st. if ks_num ks \<noteq> 0 then tshellPrintHistorySuggestion st else Inr st)))"

section \<open>Files\<close>

record fm_scan =
  fm_num :: nat
  fm_match :: cstring
  fm_min :: nat
  fm_print :: bool
  fm_total :: nat

text \<open>\<open>snprintf(cStat, MAX_FILENAME_LENGTH, ...)\<close> and \<open>lib_strlcat(name, "/", MAX_FILENAME_LENGTH)\<close>.\<close>

definition stat_path :: "cstring \<Rightarrow> cstring \<Rightarrow> cstring" where
  "stat_path pcDir name =
     take (MAX_FILENAME_LENGTH - 1) (if last pcDir \<noteq> CHR ''/'' then pcDir @ ''/'' @ name else pcDir @ name)"

definition mark_dir :: "tab_env \<Rightarrow> cstring \<Rightarrow> cstring \<Rightarrow> cstring" where
  "mark_dir te pcDir name =
     (if te_is_dir te (stat_path pcDir name) then fst (lib_strlcat name ''/'' MAX_FILENAME_LENGTH) else name)"

text \<open>From the label \<open>__print_dirent\<close> on: the name as it is printed, the column and the output.\<close>

definition print_dirent ::
    "tab_env \<Rightarrow> cstring \<Rightarrow> cstring \<Rightarrow> nat \<times> edit_state \<Rightarrow> cstring \<times> nat \<times> edit_state" where
  "print_dirent te pcDir name x =
     (let name = mark_dir te pcDir name;
          (total, st) = x;
          (total, st) = print_cell name (total, tty_put (Tty_Color_Start Of_Mode) st);
          (total, st) = end_row (ws_col te) (total, tty_put Tty_Color_End st)
      in (name, total, st))"

definition fm_step ::
    "tab_env \<Rightarrow> cstring \<Rightarrow> cstring \<Rightarrow> cstring \<Rightarrow> fm_scan \<times> edit_state \<Rightarrow> fm_scan \<times> edit_state" where
  "fm_step te pcDir pcFileName name x =
     (let (fm, st) = x; stFileNameLen = lib_strlen pcFileName in
      if stFileNameLen = 0 \<or> lib_strncmp pcFileName name stFileNameLen = 0 then
        (let fm = fm\<lparr>fm_num := fm_num fm + 1\<rparr> in
         if fm_num fm > 1 then
           (let st = (if fm_num fm = 2 then tty_put (Tty_Print [LF]) st else st);
                stSimilar = similarLen (fm_match fm) name;
                fm = (if stSimilar < fm_min fm then fm\<lparr>fm_min := stSimilar\<rparr> else fm);
                (name, total, st) = print_dirent te pcDir name (fm_total fm, st) in
            if \<not> fm_print fm then
              (let (match, total, st) = print_dirent te pcDir (fm_match fm) (total, st)
               in (fm\<lparr>fm_print := True, fm_match := match, fm_total := total\<rparr>, st))
            else (fm\<lparr>fm_match := name, fm_total := total\<rparr>, st))
         else (fm\<lparr>fm_match := name, fm_min := lib_strlen name\<rparr>, st))
      else (fm, st))"

definition fm_init :: fm_scan where
  "fm_init = \<lparr>fm_num = 0, fm_match = [], fm_min = 0, fm_print = False, fm_total = 0\<rparr>"

definition tshellFileMatch :: "tab_env \<Rightarrow> cstring \<Rightarrow> cstring \<Rightarrow> edit_state \<Rightarrow> edit_result" where
  "tshellFileMatch te pcDir pcFileName st =
     (let stFileNameLen = lib_strlen pcFileName;
          pcDir = (if lib_index pcDir CHR ''~'' = Some 0 then
                     (case te_home te of None \<Rightarrow> pcDir
                      | Some home \<Rightarrow> fst (lib_strlcat home (tl pcDir) MAX_FILENAME_LENGTH))
                   else pcDir) in
      case (if pcDir = [] then None else te_dir te pcDir) of
        None \<Rightarrow> Inr st
      | Some names \<Rightarrow>
          (let (fm, st) = fold (fm_step te pcDir pcFileName) names (fm_init, st) in
           if fm_num fm > 1 then
             (let st = (if fm_total fm \<noteq> 0 then tty_put (Tty_Print [LF]) st else st);
                  st = tty_put Tty_Prompt st in
              bind_res
                (if fm_min fm > stFileNameLen then
                   bind_res (buf_strlcat (drop stFileNameLen (take (fm_min fm) (fm_match fm))) st) (\<lambda>st.
                   bind_res (buf_str st) (\<lambda>s.
                     Inr (st\<lparr>SIC_uiTotalLen := lib_strlen s, SIC_uiCursor := lib_strlen s\<rparr>)))
                 else Inr st)
                (\<lambda>st. tty_write_buf 0 (SIC_uiTotalLen st) st))
           else if fm_num fm = 1 then
             (let name = mark_dir te pcDir (fm_match fm);
                  cat = drop stFileNameLen name;
                  st = tty_put (Tty_Write cat) st in
              bind_res (buf_strlcat cat st) (\<lambda>st.
                let st = st\<lparr>SIC_uiTotalLen := SIC_uiTotalLen st + lib_strlen cat\<rparr>
                in Inr (st\<lparr>SIC_uiCursor := SIC_uiTotalLen st\<rparr>)))
           else Inr st))"

section \<open>The tab key\<close>

definition tab_file :: "tab_env \<Rightarrow> cstring \<Rightarrow> edit_state \<Rightarrow> edit_result" where
  "tab_file te param st =
     (if lib_strlen param = 0 then tshellFileMatch te ''.'' [] st
      else case lib_rindex param CHR ''/'' of
        None \<Rightarrow> tshellFileMatch te ''.'' param st
      | Some k \<Rightarrow>
          if k = 0 then tshellFileMatch te ''/'' (drop 1 param) st
          else tshellFileMatch te (take k param) (drop (k + 1) param) st)"

definition tshellCharTab :: "tab_env \<Rightarrow> edit_state \<Rightarrow> edit_result" where
  "tshellCharTab te st =
     (let st = (if SIC_uiCursor st < SIC_uiTotalLen st
                then (tty_put (Tty_Right (SIC_uiTotalLen st - SIC_uiCursor st)) st)
                       \<lparr>SIC_uiCursor := SIC_uiTotalLen st\<rparr>
                else st) in
      bind_res (buf_set (SIC_uiTotalLen st) EOS st) (\<lambda>st.
      bind_res (buf_str st) (\<lambda>line.
        let pcCmd = skip_white line in
        if pcCmd = [] \<or> hd pcCmd = CHR ''#'' then Inr st
        else
          (let stStrLen = lib_strnlen pcCmd (LW_CFG_SHELL_MAX_COMMANDLEN + 1) in
           if stStrLen > LW_CFG_SHELL_MAX_COMMANDLEN - 1 \<or> stStrLen < 1 then Inr st
           else case tshellStrConvertVar (te_error te) (te_vars te) pcCmd of
             Inl f \<Rightarrow> Inl (Convert_Fault f)
           | Inr (ulError, cCommandBuffer) \<Rightarrow>
               if ulError \<noteq> ERROR_NONE then Inr st
               else
                 (let params = parse_params LW_CFG_SHELL_MAX_PARAMNUM (tshellStrFormat cCommandBuffer) in
                  bind_res (tshellClearHistorySuggestion st) (\<lambda>st.
                    bind_res
                      (if length params = 1 then tshellKeywordMatch te (last params) st
                       else tab_file te (last params) st)
                      tshellPrintHistorySuggestion))))))"

end
