(* ===== verification/Readline.thy ===== *)
theory Readline
  imports History TabComplete
begin

text \<open>
  Reading a line, \<open>__tshellReadline\<close> of \<open>ttinyShell/ttinyShellReadline.c\<close>: the loop that decodes the
  bytes from the terminal into keys and calls their functions.

  The bytes the calls of \<open>read\<close> deliver are a list, and at its end \<open>read\<close> returns 0.  \<open>key_step\<close> is the
  body from the label \<open>__re_check_key\<close> to the next jump, and \<open>key_next\<close> says which jump: back to the
  loop, to the label with the character in \<open>cRead\<close>, out of the loop by \<open>break\<close>, or to \<open>__out\<close>.
\<close>

section \<open>The keys\<close>

definition KEY_ESC :: c_char where "KEY_ESC = char_of (27 :: nat)"
definition KEY_EOT :: c_char where "KEY_EOT = char_of (4 :: nat)"
definition KEY_DEL :: c_char where "KEY_DEL = char_of (127 :: nat)"
definition KEY_TILDE :: c_char where "KEY_TILDE = char_of (126 :: nat)"
definition KEY_BRACKET :: c_char where "KEY_BRACKET = char_of (91 :: nat)"
definition FUNC_KEY_LEFT :: c_char where "FUNC_KEY_LEFT = char_of (68 :: nat)"
definition FUNC_KEY_UP :: c_char where "FUNC_KEY_UP = char_of (65 :: nat)"
definition FUNC_KEY_RIGHT :: c_char where "FUNC_KEY_RIGHT = char_of (67 :: nat)"
definition FUNC_KEY_DOWN :: c_char where "FUNC_KEY_DOWN = char_of (66 :: nat)"
definition FUNC_KEY_HOME :: c_char where "FUNC_KEY_HOME = char_of (49 :: nat)"
definition FUNC_KEY_DELETE :: c_char where "FUNC_KEY_DELETE = char_of (51 :: nat)"
definition FUNC_KEY_END :: c_char where "FUNC_KEY_END = char_of (52 :: nat)"

lemmas key_defs = KEY_ESC_def KEY_EOT_def KEY_DEL_def KEY_TILDE_def KEY_BRACKET_def FUNC_KEY_LEFT_def
  FUNC_KEY_UP_def FUNC_KEY_RIGHT_def FUNC_KEY_DOWN_def FUNC_KEY_HOME_def FUNC_KEY_DELETE_def
  FUNC_KEY_END_def KEY_BS_def

text \<open>\<open>__TTINY_SHELL_FORCE_ABORT\<close> of \<open>ttinyShellLib.h\<close>.\<close>

definition FORCE_ABORT :: cstring where
  "FORCE_ABORT = ''`${@_force_'' @ map char_of [130, 147, 164, 224 :: nat] @ ''_abort_@}$`''"

datatype key_next = Next_Loop | Next_Check c_char | Next_Break | Next_Out

type_synonym read_state = "addr option \<times> edit_state \<times> c_char list"

text \<open>Home, delete and end: a fourth byte must follow, and one that is not \<open>~\<close> is looked at again.\<close>

definition after_func_key :: "addr option \<Rightarrow> edit_state \<Rightarrow> c_char list \<Rightarrow> key_next \<times> read_state" where
  "after_func_key cookie st bs =
     (case bs of
        [] \<Rightarrow> (Next_Out, cookie, st, [])
      | c # bs \<Rightarrow> (if c \<noteq> KEY_TILDE then Next_Check c else Next_Loop, cookie, st, bs))"

definition func_key ::
    "history_ctx option \<Rightarrow> c_char \<Rightarrow> read_state \<Rightarrow> edit_fault + key_next \<times> read_state" where
  "func_key psihc c x =
     (let (cookie, st, bs) = x in
      if c = FUNC_KEY_LEFT then Inr (Next_Loop, cookie, tshellCharLeft st, bs)
      else if c = FUNC_KEY_UP then
        bind_res (tshellCharUp psihc cookie st) (\<lambda>(cookie, st). Inr (Next_Loop, cookie, st, bs))
      else if c = FUNC_KEY_RIGHT then
        bind_res (tshellCharRight st) (\<lambda>st. Inr (Next_Loop, cookie, st, bs))
      else if c = FUNC_KEY_DOWN then
        bind_res (tshellCharDown psihc cookie st) (\<lambda>(cookie, st). Inr (Next_Loop, cookie, st, bs))
      else if c = FUNC_KEY_HOME then Inr (after_func_key cookie (tshellCharHome st) bs)
      else if c = FUNC_KEY_DELETE then
        bind_res (tshellCharDelete st) (\<lambda>st. Inr (after_func_key cookie st bs))
      else if c = FUNC_KEY_END then Inr (after_func_key cookie (tshellCharEnd st) bs)
      else Inr (Next_Loop, cookie, st, bs))"

definition key_step ::
    "tab_env \<Rightarrow> history_ctx option \<Rightarrow> c_char \<Rightarrow> read_state \<Rightarrow> edit_fault + key_next \<times> read_state" where
  "key_step te psihc c x =
     (let (cookie, st, bs) = x in
      if c = KEY_ESC then
        (case bs of
           [] \<Rightarrow> Inr (Next_Out, cookie, st, [])
         | c2 # bs \<Rightarrow>
             if c2 = KEY_BRACKET then
               (case bs of
                  [] \<Rightarrow> Inr (Next_Out, cookie, st, [])
                | c3 # bs \<Rightarrow> func_key psihc c3 (cookie, st, bs))
             else Inr (Next_Check c2, cookie, st, bs))
      else if c = TAB then bind_res (tshellCharTab te st) (\<lambda>st. Inr (Next_Loop, cookie, st, bs))
      else if c = KEY_DEL \<or> c = KEY_BS then
        bind_res (tshellCharBackspace st) (\<lambda>st. Inr (Next_Loop, cookie, st, bs))
      else if c = LF then Inr (Next_Break, cookie, tty_put (Tty_Write [c]) st, bs)
      else if c = KEY_EOT then
        bind_res (buf_put_str FORCE_ABORT st) (\<lambda>st.
          Inr (Next_Break, cookie, st\<lparr>SIC_uiTotalLen := lib_strlen FORCE_ABORT\<rparr>, bs))
      else bind_res (tshellCharInster c st) (\<lambda>st. Inr (Next_Loop, cookie, st, bs)))"

section \<open>The loop\<close>

lemma after_func_key_length:
  "after_func_key cookie st bs = (next, cookie', st', bs') \<Longrightarrow>
   length bs' \<le> length bs \<and> (\<forall>d. next = Next_Check d \<longrightarrow> length bs' < length bs)"
  by (cases bs) (auto simp: after_func_key_def split: if_splits)

lemma func_key_length:
  "func_key psihc c (cookie, st, bs) = Inr (next, cookie', st', bs') \<Longrightarrow>
   length bs' \<le> length bs \<and> (\<forall>d. next = Next_Check d \<longrightarrow> length bs' < length bs)"
  by (auto simp: func_key_def bind_res_Inr dest: after_func_key_length split: if_splits)

lemma key_step_length:
  assumes "key_step te psihc c (cookie, st, bs) = Inr (next, cookie', st', bs')"
  shows "length bs' \<le> length bs \<and> (\<forall>d. next = Next_Check d \<longrightarrow> length bs' < length bs)"
proof (cases "c = KEY_ESC")
  case True
  then show ?thesis
    using assms by (auto simp: key_step_def dest!: func_key_length split: list.splits if_splits)
next
  case False
  then show ?thesis using assms by (auto simp: key_step_def bind_res_Inr split: if_splits)
qed

text \<open>
  \<open>pend\<close> is the character to look at again.  The result is the jump that ended the loop
  (\<open>False\<close> for \<open>goto __out\<close>) and the state.
\<close>

function readline_loop ::
    "tab_env \<Rightarrow> history_ctx option \<Rightarrow> c_char option \<Rightarrow> read_state \<Rightarrow> edit_fault + bool \<times> read_state" where
  "readline_loop te psihc pend (cookie, st, bs) =
     (case pend of
        None \<Rightarrow>
          if SIC_uiTotalLen st < LW_CFG_SHELL_MAX_COMMANDLEN then
            (case bs of
               [] \<Rightarrow> Inr (False, cookie, st, [])
             | c # bs \<Rightarrow> readline_loop te psihc (Some c) (cookie, st, bs))
          else Inr (True, cookie, st, bs)
      | Some c \<Rightarrow>
          (case key_step te psihc c (cookie, st, bs) of
             Inl f \<Rightarrow> Inl f
           | Inr (next, cookie, st, bs) \<Rightarrow>
               (case next of
                  Next_Loop \<Rightarrow> readline_loop te psihc None (cookie, st, bs)
                | Next_Check d \<Rightarrow> readline_loop te psihc (Some d) (cookie, st, bs)
                | Next_Break \<Rightarrow> Inr (True, cookie, st, bs)
                | Next_Out \<Rightarrow> Inr (False, cookie, st, bs))))"
  by pat_completeness auto

termination
proof (relation "measure (\<lambda>(te, psihc, pend, cookie, st, bs). 2 * length bs + (if pend = None then 0 else 1))",
    goal_cases)
  case (3 te psihc pend cookie st bs c x nx y cookie' y' st' bs')
  then show ?case using key_step_length[of te psihc c cookie st bs nx cookie' st' bs'] by auto
next
  case (4 te psihc pend cookie st bs c x nx y cookie' y' st' bs' d)
  then show ?case using key_step_length[of te psihc c cookie st bs nx cookie' st' bs'] by auto
qed auto

declare readline_loop.simps [simp del]

section \<open>Reading a line\<close>

text \<open>
  \<open>st\<close> brings the globals and an input buffer with any contents; \<open>alloc\<close> is the address of a new
  history entry.  The result has the string stored in the caller's buffer of \<open>stSize\<close> bytes, the length
  that is returned, the history, the state and the bytes not read.
\<close>

definition readline_start :: "edit_state \<Rightarrow> edit_result" where
  "readline_start st = buf_set 0 EOS (st\<lparr>SIC_uiCursor := 0, SIC_uiTotalLen := 0\<rparr>)"

definition readline_save ::
    "addr option \<Rightarrow> history_ctx option \<Rightarrow> edit_state \<Rightarrow> edit_fault + history_ctx option \<times> edit_state" where
  "readline_save alloc psihc st =
     bind_res (buf_set (SIC_uiTotalLen st) EOS st) (\<lambda>st.
     bind_res (buf_str st) (\<lambda>s.
       if lib_strlen s \<noteq> 0 then
         (case psihc of
            None \<Rightarrow> Inr (None, st)
          | Some h \<Rightarrow>
              (case tshellHistorySave alloc s h of
                 None \<Rightarrow> Inl Listing_Endless
               | Some h \<Rightarrow> Inr (Some h, st)))
       else Inr (psihc, st)))"

definition tshellReadline ::
    "tab_env \<Rightarrow> addr option \<Rightarrow> nat \<Rightarrow> history_ctx option \<Rightarrow> edit_state \<Rightarrow> c_char list \<Rightarrow>
     edit_fault + cstring \<times> nat \<times> history_ctx option \<times> edit_state \<times> c_char list" where
  "tshellReadline te alloc stSize psihc st bs =
     bind_res (readline_start st) (\<lambda>st.
     bind_res (readline_loop te psihc None (None, st, bs)) (\<lambda>(over, cookie, st, bs).
     bind_res (if over then readline_save alloc psihc st else Inr (psihc, st)) (\<lambda>(psihc, st).
     bind_res (buf_str st) (\<lambda>s.
       Inr (fst (lib_strlcpy [] s stSize), SIC_uiTotalLen st, psihc, st, bs)))))"

end
