(* ===== verification/ReadlineSpec.thy ===== *)
theory ReadlineSpec
  imports Readline
begin

text \<open>
  The key loop against the editor that is meant: \<open>edit_step\<close> is what a key does to a line, to the
  position in the history and to the waiting suggestion; a terminal sends a key as \<open>key_bytes\<close>.  The
  loop decodes the bytes of any sequence of keys and carries out their steps, and whatever ASCII bytes
  come it never leaves its buffer.
\<close>

section \<open>Keys\<close>

datatype edit_key =
  K_Char c_char | K_Left | K_Right | K_Up | K_Down | K_Home | K_End | K_Delete | K_Backspace

definition plain :: "c_char \<Rightarrow> bool" where
  "plain c \<longleftrightarrow> ascii c \<and> c \<notin> {EOS, KEY_ESC, TAB, KEY_DEL, KEY_BS, LF, KEY_EOT}"

fun key_ok :: "edit_key \<Rightarrow> bool" where
  "key_ok (K_Char c) = plain c"
| "key_ok _ = True"

fun key_bytes :: "edit_key \<Rightarrow> c_char list" where
  "key_bytes (K_Char c) = [c]"
| "key_bytes K_Left = [KEY_ESC, KEY_BRACKET, FUNC_KEY_LEFT]"
| "key_bytes K_Right = [KEY_ESC, KEY_BRACKET, FUNC_KEY_RIGHT]"
| "key_bytes K_Up = [KEY_ESC, KEY_BRACKET, FUNC_KEY_UP]"
| "key_bytes K_Down = [KEY_ESC, KEY_BRACKET, FUNC_KEY_DOWN]"
| "key_bytes K_Home = [KEY_ESC, KEY_BRACKET, FUNC_KEY_HOME, KEY_TILDE]"
| "key_bytes K_Delete = [KEY_ESC, KEY_BRACKET, FUNC_KEY_DELETE, KEY_TILDE]"
| "key_bytes K_End = [KEY_ESC, KEY_BRACKET, FUNC_KEY_END, KEY_TILDE]"
| "key_bytes K_Backspace = [KEY_DEL]"

type_synonym edit_view = "line_view \<times> nat option"

definition show_at :: "cstring list \<Rightarrow> nat \<Rightarrow> line_view \<Rightarrow> edit_view" where
  "show_at hs q v = (Line (recalled (hs ! q)) [] (lv_pending v), Some q)"

fun edit_step :: "trie option \<Rightarrow> cstring list \<Rightarrow> edit_key \<Rightarrow> edit_view \<Rightarrow> edit_view" where
  "edit_step root hs (K_Char c) (v, p) = (line_insert root c v, p)"
| "edit_step root hs K_Left (v, p) = (line_left v, p)"
| "edit_step root hs K_Right (v, p) = (line_right v, p)"
| "edit_step root hs K_Up (v, p) = (if hs = [] then (v, p) else show_at hs (nav_up (length hs) p) v)"
| "edit_step root hs K_Down (v, p) = (if hs = [] then (v, p) else show_at hs (nav_down (length hs) p) v)"
| "edit_step root hs K_Home (v, p) = (line_home v, p)"
| "edit_step root hs K_End (v, p) = (line_end v, p)"
| "edit_step root hs K_Delete (v, p) = (line_delete v, p)"
| "edit_step root hs K_Backspace (v, p) = (line_backspace root v, p)"

definition edit_keys :: "trie option \<Rightarrow> cstring list \<Rightarrow> edit_key list \<Rightarrow> edit_view \<Rightarrow> edit_view" where
  "edit_keys root hs ks x = fold (edit_step root hs) ks x"

definition view_text :: "line_view \<Rightarrow> cstring" where
  "view_text v = lv_left v @ lv_right v"

text \<open>The line is not full before any of the keys.\<close>

fun room :: "trie option \<Rightarrow> cstring list \<Rightarrow> edit_key list \<Rightarrow> edit_view \<Rightarrow> bool" where
  "room root hs [] x = True"
| "room root hs (k # ks) x =
     (length (view_text (fst x)) < LW_CFG_SHELL_MAX_COMMANDLEN \<and> room root hs ks (edit_step root hs k x))"

section \<open>One key\<close>

lemma view_text_view: "edit_ok st \<Longrightarrow> view_text (view st) = edit_text st"
  by (simp add: view_text_def view_def)

lemma view_text_length: "edit_ok st \<Longrightarrow> length (view_text (view st)) = SIC_uiTotalLen st"
  by (simp add: view_text_view edit_text_length)

definition hist_ok :: "history_ctx \<Rightarrow> addr list \<Rightarrow> bool" where
  "hist_ok h as \<longleftrightarrow> history_ok h as \<and> list_all entry_ok (history_lines h as)"

lemma hist_empty: "history_ok h as \<Longrightarrow> history_lines h as = [] \<longleftrightarrow> SIHC_pringHeader h = None"
  by (cases as) (auto simp: history_ok_def history_lines_def dest: ring_hd)

lemma hist_length [simp]: "length (history_lines h as) = length as"
  by (simp add: history_lines_def)

text \<open>The keys all keep the invariant, the root and the place in the history, and do their step.\<close>

definition key_done ::
    "history_ctx \<Rightarrow> addr list \<Rightarrow> edit_key \<Rightarrow> nat option \<Rightarrow> edit_state \<Rightarrow> read_state \<Rightarrow> c_char list \<Rightarrow> bool" where
  "key_done h as k p st x bs \<longleftrightarrow>
     (\<exists>cookie' st' p'. x = (cookie', st', bs) \<and> edit_ok st' \<and> cookie_at as p' cookie' \<and>
        historyTrieRoot st' = historyTrieRoot st \<and>
        (view st', p') = edit_step (historyTrieRoot st) (history_lines h as) k (view st, p))"

lemma key_doneI:
  "edit_ok st' \<Longrightarrow> cookie_at as p' cookie' \<Longrightarrow> historyTrieRoot st' = historyTrieRoot st \<Longrightarrow>
   edit_step (historyTrieRoot st) (history_lines h as) k (view st, p) = (view st', p') \<Longrightarrow>
   key_done h as k p st (cookie', st', bs) bs"
  by (auto simp: key_done_def)

lemma key_distinct [simp]:
  "KEY_ESC \<noteq> TAB" "KEY_ESC \<noteq> KEY_DEL" "KEY_DEL \<noteq> KEY_ESC" "KEY_DEL \<noteq> TAB"
  "FUNC_KEY_UP \<noteq> FUNC_KEY_LEFT" "FUNC_KEY_RIGHT \<noteq> FUNC_KEY_LEFT" "FUNC_KEY_RIGHT \<noteq> FUNC_KEY_UP"
  "FUNC_KEY_DOWN \<noteq> FUNC_KEY_LEFT" "FUNC_KEY_DOWN \<noteq> FUNC_KEY_UP" "FUNC_KEY_DOWN \<noteq> FUNC_KEY_RIGHT"
  "FUNC_KEY_HOME \<noteq> FUNC_KEY_LEFT" "FUNC_KEY_HOME \<noteq> FUNC_KEY_UP" "FUNC_KEY_HOME \<noteq> FUNC_KEY_RIGHT"
  "FUNC_KEY_HOME \<noteq> FUNC_KEY_DOWN"
  "FUNC_KEY_DELETE \<noteq> FUNC_KEY_LEFT" "FUNC_KEY_DELETE \<noteq> FUNC_KEY_UP" "FUNC_KEY_DELETE \<noteq> FUNC_KEY_RIGHT"
  "FUNC_KEY_DELETE \<noteq> FUNC_KEY_DOWN" "FUNC_KEY_DELETE \<noteq> FUNC_KEY_HOME"
  "FUNC_KEY_END \<noteq> FUNC_KEY_LEFT" "FUNC_KEY_END \<noteq> FUNC_KEY_UP" "FUNC_KEY_END \<noteq> FUNC_KEY_RIGHT"
  "FUNC_KEY_END \<noteq> FUNC_KEY_DOWN" "FUNC_KEY_END \<noteq> FUNC_KEY_HOME" "FUNC_KEY_END \<noteq> FUNC_KEY_DELETE"
  by (simp_all add: key_defs uchar_inject[symmetric] uchar_def del: uchar_inject)

lemma Up_done:
  assumes ok: "edit_ok st" and h: "hist_ok h as" and ck: "cookie_at as p cookie"
  shows "\<exists>cookie' st'. tshellCharUp (Some h) cookie st = Inr (cookie', st') \<and>
    key_done h as K_Up p st (cookie', st', bs) bs"
proof (cases "as = []")
  case True
  then have "SIHC_pringHeader h = None" "history_lines h as = []"
    using h hist_empty[of h as] by (auto simp: hist_ok_def history_lines_def)
  then show ?thesis using CharUp_empty[of "Some h" cookie st] ok ck by (auto intro!: key_doneI)
next
  case False
  then have "history_lines h as \<noteq> []" by (simp add: history_lines_def)
  then show ?thesis
    using CharUp_refines[OF ok _ False _ ck refl] h unfolding hist_ok_def
    by (force intro!: key_doneI simp: show_at_def)
qed

lemma Down_done:
  assumes ok: "edit_ok st" and h: "hist_ok h as" and ck: "cookie_at as p cookie"
  shows "\<exists>cookie' st'. tshellCharDown (Some h) cookie st = Inr (cookie', st') \<and>
    key_done h as K_Down p st (cookie', st', bs) bs"
proof (cases "as = []")
  case True
  then have "SIHC_pringHeader h = None" "history_lines h as = []"
    using h hist_empty[of h as] by (auto simp: hist_ok_def history_lines_def)
  then show ?thesis using CharUp_empty[of "Some h" cookie st] ok ck by (auto intro!: key_doneI)
next
  case False
  then have "history_lines h as \<noteq> []" by (simp add: history_lines_def)
  then show ?thesis
    using CharDown_refines[OF ok _ False _ ck refl] h unfolding hist_ok_def
    by (force intro!: key_doneI simp: show_at_def)
qed

lemma key_step_done:
  assumes ok: "edit_ok st" and h: "hist_ok h as" and ck: "cookie_at as p cookie"
    and room: "SIC_uiTotalLen st < LW_CFG_SHELL_MAX_COMMANDLEN" and k: "key_ok k"
  shows "\<exists>b bs' x. key_bytes k = b # bs' \<and> key_step te (Some h) b (cookie, st, bs' @ bs) = Inr (Next_Loop, x) \<and>
    key_done h as k p st x bs"
proof (cases k)
  case (K_Char c)
  then have c: "ascii c" "c \<notin> {EOS, KEY_ESC, TAB, KEY_DEL, KEY_BS, LF, KEY_EOT}" using k by (auto simp: plain_def)
  show ?thesis
    using CharInster_refines[OF ok room c(1)] c(2) ck unfolding K_Char
    by (auto simp: key_step_def intro!: key_doneI)
next
  case K_Left
  show ?thesis
    using CharLeft_refines[OF ok] ck unfolding K_Left by (auto simp: key_step_def func_key_def intro!: key_doneI)
next
  case K_Right
  show ?thesis
    using CharRight_refines[OF ok room] ck unfolding K_Right by (auto simp: key_step_def func_key_def intro!: key_doneI)
next
  case K_Up
  show ?thesis
    using Up_done[OF ok h ck, of bs] unfolding K_Up by (auto simp: key_step_def func_key_def)
next
  case K_Down
  show ?thesis
    using Down_done[OF ok h ck, of bs] unfolding K_Down by (auto simp: key_step_def func_key_def)
next
  case K_Home
  show ?thesis
    using CharHome_refines[OF ok] ck unfolding K_Home
    by (auto simp: key_step_def func_key_def after_func_key_def intro!: key_doneI)
next
  case K_End
  show ?thesis
    using CharEnd_refines[OF ok] ck unfolding K_End
    by (auto simp: key_step_def func_key_def after_func_key_def intro!: key_doneI)
next
  case K_Delete
  show ?thesis
    using CharDelete_refines[OF ok] ck unfolding K_Delete
    by (auto simp: key_step_def func_key_def after_func_key_def intro!: key_doneI)
next
  case K_Backspace
  show ?thesis
    using CharBackspace_refines[OF ok] ck unfolding K_Backspace
    by (auto simp: key_step_def intro!: key_doneI)
qed

section \<open>Many keys\<close>

lemma readline_loop_key:
  assumes ok: "edit_ok st" and h: "hist_ok h as" and ck: "cookie_at as p cookie"
    and room: "SIC_uiTotalLen st < LW_CFG_SHELL_MAX_COMMANDLEN" and k: "key_ok k"
  shows "\<exists>cookie' st' p'. edit_ok st' \<and> cookie_at as p' cookie' \<and> historyTrieRoot st' = historyTrieRoot st \<and>
    (view st', p') = edit_step (historyTrieRoot st) (history_lines h as) k (view st, p) \<and>
    readline_loop te (Some h) None (cookie, st, key_bytes k @ bs) =
      readline_loop te (Some h) None (cookie', st', bs)"
proof -
  obtain b bs' x where b: "key_bytes k = b # bs'"
    and x: "key_step te (Some h) b (cookie, st, bs' @ bs) = Inr (Next_Loop, x)" "key_done h as k p st x bs"
    using key_step_done[OF assms] by blast
  from x(2) obtain cookie' st' p' where st': "x = (cookie', st', bs)" "edit_ok st'" "cookie_at as p' cookie'"
      "historyTrieRoot st' = historyTrieRoot st"
      "(view st', p') = edit_step (historyTrieRoot st) (history_lines h as) k (view st, p)"
    unfolding key_done_def by blast
  have "readline_loop te (Some h) None (cookie, st, key_bytes k @ bs) =
      readline_loop te (Some h) (Some b) (cookie, st, bs' @ bs)"
    using b room by (subst readline_loop.simps) simp
  also have "\<dots> = readline_loop te (Some h) None (cookie', st', bs)"
    using x(1) st'(1) by (subst readline_loop.simps) simp
  finally show ?thesis using st' by blast
qed

lemma readline_loop_keys:
  assumes "edit_ok st" "hist_ok h as" "cookie_at as p cookie" "list_all key_ok ks"
    "room (historyTrieRoot st) (history_lines h as) ks (view st, p)"
  shows "\<exists>cookie' st' p'. edit_ok st' \<and> cookie_at as p' cookie' \<and> historyTrieRoot st' = historyTrieRoot st \<and>
    (view st', p') = edit_keys (historyTrieRoot st) (history_lines h as) ks (view st, p) \<and>
    readline_loop te (Some h) None (cookie, st, concat (map key_bytes ks) @ bs) =
      readline_loop te (Some h) None (cookie', st', bs)"
  using assms
proof (induction ks arbitrary: st p cookie)
  case Nil
  then show ?case by (auto simp: edit_keys_def)
next
  case (Cons k ks)
  have lt: "SIC_uiTotalLen st < LW_CFG_SHELL_MAX_COMMANDLEN"
    using Cons.prems(1,5) view_text_length by simp
  obtain cookie1 st1 p1 where s1: "edit_ok st1" "cookie_at as p1 cookie1" "historyTrieRoot st1 = historyTrieRoot st"
      "(view st1, p1) = edit_step (historyTrieRoot st) (history_lines h as) k (view st, p)"
    and run: "readline_loop te (Some h) None (cookie, st, key_bytes k @ (concat (map key_bytes ks) @ bs)) =
      readline_loop te (Some h) None (cookie1, st1, concat (map key_bytes ks) @ bs)"
    using readline_loop_key[OF Cons.prems(1,2,3) lt, of k te "concat (map key_bytes ks) @ bs"] Cons.prems(4) by auto
  have "room (historyTrieRoot st1) (history_lines h as) ks (view st1, p1)"
    using Cons.prems(5) s1(3,4) by simp
  from Cons.IH[OF s1(1) Cons.prems(2) s1(2) _ this] Cons.prems(4) s1(3,4) run
  show ?case by (auto simp: edit_keys_def)
qed

section \<open>The text of the line\<close>

definition view_ok :: "line_view \<Rightarrow> bool" where
  "view_ok v \<longleftrightarrow> entry_ok (lv_left v) \<and> entry_ok (lv_right v) \<and> entry_ok (lv_pending v)"

lemma entry_ok_simps [simp]:
  "entry_ok []" "entry_ok (c # s) \<longleftrightarrow> ascii c \<and> c \<noteq> EOS \<and> entry_ok s" "entry_ok (s @ t) \<longleftrightarrow> entry_ok s \<and> entry_ok t"
  by (auto simp: entry_ok_def)

lemma entry_ok_butlast: "entry_ok s \<Longrightarrow> entry_ok (butlast s)"
  by (auto simp: entry_ok_def is_cstr_def ascii_str_def list_all_iff dest: in_set_butlastD)

lemma entry_ok_last: "entry_ok s \<Longrightarrow> s \<noteq> [] \<Longrightarrow> ascii (last s) \<and> last s \<noteq> EOS"
  by (induction s) auto

lemma entry_ok_tl: "entry_ok s \<Longrightarrow> entry_ok (tl s)"
  by (cases s) auto

lemma suggest_ok:
  assumes "trie_ok r" "ascii_str p" "p \<noteq> []"
  shows "entry_ok (suggest r p)"
proof -
  obtain t where t: "r = Some t" "trie_use ascii t" using assms(1) by (auto simp: trie_ok_def)
  obtain x where "trieSearch t p = Inr x" "\<forall>m. x = Some m \<longrightarrow> ascii_str m"
    using trieSearch_total[OF t(2) assms(2,3)] by blast
  then show ?thesis
    using t(1) by (auto simp: suggest_def entry_ok_def is_cstr_takeWhile ascii_takeWhile split: option.split)
qed

lemma ask_ok: "trie_ok r \<Longrightarrow> view_ok v \<Longrightarrow> view_ok (ask r v)"
  using suggest_ok[of r "lv_left v"] by (auto simp: ask_def view_ok_def entry_ok_def)

lemma edit_step_ok:
  assumes r: "trie_ok r" and hs: "list_all entry_ok hs" and k: "key_ok k" and v: "view_ok v"
    and p: "\<forall>i. p = Some i \<longrightarrow> i < length hs"
  shows "view_ok (fst (edit_step r hs k (v, p)))"
proof -
  obtain l rt pe where vv: "v = Line l rt pe" by (cases v)
  have lrp: "entry_ok l" "entry_ok rt" "entry_ok pe" using v vv by (auto simp: view_ok_def)
  have up: "entry_ok (recalled (hs ! i))" if "i < length hs" for i
    using recalled_ok[of "hs ! i"] hs that by (simp add: list_all_length)
  have nav: "nav_up (length hs) p < length hs" "nav_down (length hs) p < length hs" if "hs \<noteq> []"
    using that p by (auto simp: nav_up_def nav_down_def split: option.split)
  show ?thesis
  proof (cases k)
    case (K_Char c)
    then show ?thesis using k ask_ok[OF r, of "Line (l @ [c]) rt pe"] lrp vv
      by (simp add: view_ok_def plain_def)
  next
    case K_Left
    then show ?thesis using lrp vv by (auto simp: view_ok_def entry_ok_butlast dest: entry_ok_last)
  next
    case K_Right
    then show ?thesis using lrp vv by (cases rt; cases pe) (auto simp: view_ok_def)
  next
    case K_Backspace
    then show ?thesis using ask_ok[OF r, of "Line (butlast l) rt pe"] lrp vv
      by (auto simp: view_ok_def entry_ok_butlast)
  next
    case K_Up
    then show ?thesis using nav up lrp vv by (auto simp: view_ok_def show_at_def)
  next
    case K_Down
    then show ?thesis using nav up lrp vv by (auto simp: view_ok_def show_at_def)
  qed (use lrp vv in \<open>auto simp: view_ok_def entry_ok_tl\<close>)
qed

lemma edit_step_pos:
  "\<forall>i. p = Some i \<longrightarrow> i < length hs \<Longrightarrow> \<forall>i. snd (edit_step r hs k (v, p)) = Some i \<longrightarrow> i < length hs"
  by (cases k) (auto simp: show_at_def nav_up_def nav_down_def split: option.split)

lemma edit_keys_ok:
  assumes "trie_ok r" "list_all entry_ok hs" "list_all key_ok ks" "view_ok v" "\<forall>i. p = Some i \<longrightarrow> i < length hs"
  shows "view_ok (fst (edit_keys r hs ks (v, p)))"
  using assms(3-5)
proof (induction ks arbitrary: v p)
  case (Cons k ks)
  obtain v1 p1 where 1: "edit_step r hs k (v, p) = (v1, p1)" by (cases "edit_step r hs k (v, p)")
  have "view_ok v1" using edit_step_ok[OF assms(1,2), of k v p] Cons.prems 1 by simp
  moreover have "\<forall>i. p1 = Some i \<longrightarrow> i < length hs" using edit_step_pos[of p hs r k v] Cons.prems(3) 1 by simp
  ultimately show ?case using Cons.IH[of v1 p1] Cons.prems(1) 1 by (simp add: edit_keys_def)
qed (simp add: edit_keys_def)

section \<open>Reading a line\<close>

text \<open>What the globals must be when a line is read; the buffer may hold anything.\<close>

definition read_ok :: "edit_state \<Rightarrow> bool" where
  "read_ok st \<longleftrightarrow> length (SIC_cInputBuffer st) = LW_CFG_SHELL_MAX_COMMANDLEN + 1 \<and>
     trie_ok (historyTrieRoot st) \<and> match_ok (lastMatch st) (lastMatchLength st)"

definition pending :: "edit_state \<Rightarrow> cstring" where
  "pending st = (case lastMatch st of Match_Live m \<Rightarrow> m | _ \<Rightarrow> [])"

lemma pending_ok: "match_ok (lastMatch st) n \<Longrightarrow> entry_ok (pending st)"
  by (auto simp: match_ok_def pending_def entry_ok_def split: match_ptr.splits)

lemma readline_start_ok:
  assumes "read_ok st"
  obtains st' where "readline_start st = Inr st'" "edit_ok st'" "view st' = Line [] [] (pending st)"
    "historyTrieRoot st' = historyTrieRoot st" "SIC_uiTotalLen st' = 0"
  using assms that
  by (auto simp: readline_start_def buf_set_eq read_ok_def edit_ok_def edit_text_def view_def pending_def)

text \<open>The end of a line: the buffer is terminated, and a line that is not empty is remembered.\<close>

definition saved :: "cstring \<Rightarrow> cstring list \<Rightarrow> cstring list" where
  "saved s hs = (if s = [] then hs else remember s hs)"

lemma remember_set: "x \<in> set (remember s hs) \<Longrightarrow> x = s \<or> x \<in> set hs"
  by (auto simp: remember_def dest: in_set_takeD)

lemma readline_save_ok:
  assumes ok: "edit_ok st" and s: "is_cstr (edit_text st)" and h: "history_ok h as" and a: "a \<notin> set as"
  shows "\<exists>h' as' st'. readline_save (Some a) (Some h) st = Inr (Some h', st') \<and> history_ok h' as' \<and>
    history_lines h' as' = saved (edit_text st) (history_lines h as) \<and> set as' \<subseteq> insert a (set as) \<and>
    buf_str st' = Inr (edit_text st) \<and> edit_ok st' \<and> st' = st\<lparr>SIC_cInputBuffer := SIC_cInputBuffer st'\<rparr>"
proof -
  let ?n = "SIC_uiTotalLen st" and ?b = "SIC_cInputBuffer st"
  have n: "?n < length ?b" using ok by (simp add: edit_ok_def)
  define st' where "st' = st\<lparr>SIC_cInputBuffer := ?b[?n := EOS]\<rparr>"
  have b: "?b[?n := EOS] = edit_text st @ EOS # drop (Suc ?n) ?b"
    using n by (simp add: upd_conv_take_nth_drop edit_text_def)
  have str: "buf_str st' = Inr (edit_text st)"
    unfolding buf_str_def st'_def using s b by (auto simp: is_cstr_def takeWhile_append2 takeWhile_tail)
  have ok': "edit_ok st'" using ok by (simp add: edit_ok_def st'_def edit_text_def)
  have set: "buf_set ?n EOS st = Inr st'" using n by (simp add: buf_set_eq st'_def)
  show ?thesis
  proof (cases "edit_text st = []")
    case True
    then show ?thesis using set str ok' h
      by (intro exI[of _ h] exI[of _ as] exI[of _ st']) (auto simp: readline_save_def saved_def st'_def)
  next
    case False
    obtain h' as' where "tshellHistorySave (Some a) (edit_text st) h = Some h'" "history_ok h' as'"
      "history_lines h' as' = remember (edit_text st) (history_lines h as)" "set as' \<subseteq> insert a (set as)"
      using HistorySave_refines[OF h a] by blast
    then show ?thesis using set str ok' False
      by (intro exI[of _ h'] exI[of _ as'] exI[of _ st']) (auto simp: readline_save_def saved_def st'_def)
  qed
qed

text \<open>The line that a sequence of keys makes.\<close>

definition typed :: "edit_state \<Rightarrow> cstring list \<Rightarrow> edit_key list \<Rightarrow> cstring" where
  "typed st hs ks = view_text (fst (edit_keys (historyTrieRoot st) hs ks (Line [] [] (pending st), None)))"

lemma readline_run:
  assumes ready: "read_ok st" and h: "hist_ok h as" and ks: "list_all key_ok ks"
    and rm: "room (historyTrieRoot st) (history_lines h as) ks (Line [] [] (pending st), None)"
  shows "\<exists>st0 cookie1 st1. readline_start st = Inr st0 \<and> edit_ok st1 \<and>
    historyTrieRoot st1 = historyTrieRoot st \<and> edit_text st1 = typed st (history_lines h as) ks \<and>
    entry_ok (edit_text st1) \<and>
    readline_loop te (Some h) None (None, st0, concat (map key_bytes ks) @ bs) =
      readline_loop te (Some h) None (cookie1, st1, bs)"
proof -
  let ?hs = "history_lines h as" and ?root = "historyTrieRoot st"
  obtain st0 where st0: "readline_start st = Inr st0" "edit_ok st0" "view st0 = Line [] [] (pending st)"
    "historyTrieRoot st0 = ?root" using readline_start_ok[OF ready] by metis
  have ck: "cookie_at as None None" by (simp add: cookie_at_def)
  have rm0: "room (historyTrieRoot st0) ?hs ks (view st0, None)" using rm st0 by simp
  obtain cookie1 st1 p1 where st1: "edit_ok st1" "historyTrieRoot st1 = ?root"
      "(view st1, p1) = edit_keys ?root ?hs ks (Line [] [] (pending st), None)"
    and run: "readline_loop te (Some h) None (None, st0, concat (map key_bytes ks) @ bs) =
      readline_loop te (Some h) None (cookie1, st1, bs)"
    using readline_loop_keys[OF st0(2) h ck ks rm0, of te bs] st0(3,4) by metis
  have "view_ok (fst (edit_keys ?root ?hs ks (Line [] [] (pending st), None)))"
    by (rule edit_keys_ok) (use ready h ks pending_ok in \<open>auto simp: read_ok_def hist_ok_def view_ok_def\<close>)
  then have v1: "view_ok (view st1)" using st1(3) by (metis fst_conv)
  have line: "edit_text st1 = typed st ?hs ks"
    using st1(3) view_text_view[OF st1(1)] unfolding typed_def by (metis fst_conv)
  have "entry_ok (view_text (view st1))" using v1 by (simp add: view_ok_def view_text_def)
  then have "entry_ok (edit_text st1)" by (simp only: view_text_view[OF st1(1)])
  then show ?thesis using st0(1) st1(1,2) line run by blast
qed

lemma readline_finish:
  assumes st0: "readline_start st = Inr st0"
    and run: "readline_loop te (Some h) None (None, st0, inp) = Inr (True, cookie, st2, bs)"
    and ok2: "edit_ok st2" and eo: "entry_ok (edit_text st2)"
    and h: "hist_ok h as" and a: "a \<notin> set as" and n: "0 < n"
  shows "\<exists>h' as' st'. tshellReadline te (Some a) n (Some h) st inp =
      Inr (take (n - 1) (edit_text st2), length (edit_text st2), Some h', st', bs) \<and>
    hist_ok h' as' \<and> history_lines h' as' = saved (edit_text st2) (history_lines h as) \<and>
    set as' \<subseteq> insert a (set as) \<and> read_ok st' \<and> historyTrieRoot st' = historyTrieRoot st2"
proof -
  have "is_cstr (edit_text st2)" using eo by (simp add: entry_ok_def)
  then obtain h' as' st' where sv: "readline_save (Some a) (Some h) st2 = Inr (Some h', st')" "history_ok h' as'"
    "history_lines h' as' = saved (edit_text st2) (history_lines h as)" "set as' \<subseteq> insert a (set as)"
    "buf_str st' = Inr (edit_text st2)" "edit_ok st'" "st' = st2\<lparr>SIC_cInputBuffer := SIC_cInputBuffer st'\<rparr>"
    using readline_save_ok[OF ok2 _ _ a] h unfolding hist_ok_def by blast
  have "SIC_uiTotalLen st' = length (edit_text st2)" "historyTrieRoot st' = historyTrieRoot st2"
    by (subst sv(7), simp add: edit_text_length[OF ok2])+
  moreover have "tshellReadline te (Some a) n (Some h) st inp =
      Inr (take (n - 1) (edit_text st2), SIC_uiTotalLen st', Some h', st', bs)"
    using st0 run sv(1,5) n by (simp add: tshellReadline_def lib_strlcpy_eq)
  moreover have "list_all entry_ok (history_lines h' as')"
    using sv(3) eo h remember_set unfolding hist_ok_def list_all_iff saved_def by (auto split: if_splits)
  moreover have "read_ok st'" using sv(6) by (simp add: read_ok_def edit_ok_def)
  ultimately show ?thesis using sv(2,3,4) by (auto simp: hist_ok_def)
qed

text \<open>A line ends with a line feed, or with the character that fills the buffer.\<close>

lemma LF_distinct [simp]: "LF \<noteq> KEY_ESC" "LF \<noteq> KEY_DEL" "LF \<noteq> KEY_BS"
  by (simp_all add: key_defs uchar_inject[symmetric] uchar_def del: uchar_inject)

lemma readline_loop_LF:
  "SIC_uiTotalLen st < LW_CFG_SHELL_MAX_COMMANDLEN \<Longrightarrow>
   readline_loop te psihc None (cookie, st, LF # bs) = Inr (True, cookie, tty_put (Tty_Write [LF]) st, bs)"
  by (subst readline_loop.simps, simp, subst readline_loop.simps) (simp add: key_step_def)

lemma readline_loop_full:
  "SIC_uiTotalLen st = LW_CFG_SHELL_MAX_COMMANDLEN \<Longrightarrow>
   readline_loop te psihc None (cookie, st, bs) = Inr (True, cookie, st, bs)"
  by (subst readline_loop.simps) simp

lemma readline_keys:
  assumes ready: "read_ok st" and h: "hist_ok h as" and a: "a \<notin> set as" and ks: "list_all key_ok ks"
    and rm: "room (historyTrieRoot st) (history_lines h as) ks (Line [] [] (pending st), None)"
    and n: "0 < n" and ln: "ln = typed st (history_lines h as) ks"
    and ends: "length ln < LW_CFG_SHELL_MAX_COMMANDLEN \<and> ends = [LF] \<or>
      length ln = LW_CFG_SHELL_MAX_COMMANDLEN \<and> ends = []"
  shows "\<exists>h' as' st'. tshellReadline te (Some a) n (Some h) st (concat (map key_bytes ks) @ ends @ bs) =
      Inr (take (n - 1) ln, length ln, Some h', st', bs) \<and>
    hist_ok h' as' \<and> history_lines h' as' = saved ln (history_lines h as) \<and>
    set as' \<subseteq> insert a (set as) \<and> read_ok st' \<and> historyTrieRoot st' = historyTrieRoot st"
proof -
  obtain st0 cookie1 st1 where st0: "readline_start st = Inr st0"
    and st1: "edit_ok st1" "historyTrieRoot st1 = historyTrieRoot st" "edit_text st1 = ln" "entry_ok ln"
    and run: "readline_loop te (Some h) None (None, st0, concat (map key_bytes ks) @ ends @ bs) =
      readline_loop te (Some h) None (cookie1, st1, ends @ bs)"
    using readline_run[OF ready h ks rm, of te "ends @ bs"] ln by metis
  have len: "SIC_uiTotalLen st1 = length ln" using edit_text_length[OF st1(1)] st1(3) by simp
  obtain st2 where st2: "readline_loop te (Some h) None (cookie1, st1, ends @ bs) = Inr (True, cookie1, st2, bs)"
      "edit_ok st2" "edit_text st2 = ln" "historyTrieRoot st2 = historyTrieRoot st"
    using ends len st1 readline_loop_LF readline_loop_full by (fastforce simp: tty_put_def)
  show ?thesis
    using readline_finish[OF st0 _ st2(2) _ h a n, of te _ cookie1 bs] run st1(4) st2 by simp
qed

section \<open>Typed characters\<close>

lemma insert_chars:
  "fst (edit_keys r hs (map K_Char w) (Line l [] q, p)) = Line (l @ w) [] (lv_pending (fst (edit_keys r hs (map K_Char w) (Line l [] q, p))))"
proof (induction w arbitrary: l q)
  case (Cons c w)
  have "line_insert r c (Line l [] q) = Line (l @ [c]) [] (suggest r (l @ [c]))" by (simp add: ask_def)
  then show ?case using Cons[of "l @ [c]" "suggest r (l @ [c])"] by (simp add: edit_keys_def)
qed (simp add: edit_keys_def)

lemma typed_chars: "typed st hs (map K_Char w) = w"
proof -
  obtain q where "fst (edit_keys (historyTrieRoot st) hs (map K_Char w) (Line [] [] (pending st), None)) = Line w [] q"
    using insert_chars[of "historyTrieRoot st" hs w "[]" "pending st" None] by simp
  then show ?thesis by (simp add: typed_def view_text_def)
qed

lemma room_chars:
  "length l + length w \<le> LW_CFG_SHELL_MAX_COMMANDLEN \<Longrightarrow> room r hs (map K_Char w) (Line l [] q, p)"
proof (induction w arbitrary: l q)
  case (Cons c w)
  have "line_insert r c (Line l [] q) = Line (l @ [c]) [] (suggest r (l @ [c]))" by (simp add: ask_def)
  then show ?case using Cons.IH[of "l @ [c]" "suggest r (l @ [c])"] Cons.prems by (simp add: view_text_def)
qed simp

lemma key_bytes_chars: "concat (map key_bytes (map K_Char w)) = w"
  by (induction w) auto

section \<open>Any bytes\<close>

definition byte_ok :: "c_char \<Rightarrow> bool" where
  "byte_ok c \<longleftrightarrow> ascii c \<and> c \<noteq> TAB"

text \<open>What holds at each jump of the loop body.\<close>

definition jump_ok :: "history_ctx \<Rightarrow> addr list \<Rightarrow> trie option \<Rightarrow> key_next \<times> read_state \<Rightarrow> bool" where
  "jump_ok h as root r =
     (case r of (nx, cookie, st, bs) \<Rightarrow> list_all byte_ok bs \<and> historyTrieRoot st = root \<and>
        (case nx of
           Next_Break \<Rightarrow> read_ok st \<and> SIC_uiTotalLen st \<le> LW_CFG_SHELL_MAX_COMMANDLEN
         | Next_Check d \<Rightarrow> byte_ok d \<and> edit_ok st \<and> (\<exists>p. cookie_at as p cookie) \<and>
             SIC_uiTotalLen st < LW_CFG_SHELL_MAX_COMMANDLEN
         | _ \<Rightarrow> edit_ok st \<and> (\<exists>p. cookie_at as p cookie)))"

lemma after_func_key_ok:
  assumes "edit_ok st" "cookie_at as p cookie" "SIC_uiTotalLen st < LW_CFG_SHELL_MAX_COMMANDLEN"
    "historyTrieRoot st = root" "list_all byte_ok bs"
  shows "jump_ok h as root (after_func_key cookie st bs)"
  using assms by (cases bs) (auto simp: after_func_key_def jump_ok_def)

lemma CharDelete_total:
  "tshellCharDelete st = Inr st' \<Longrightarrow> SIC_uiTotalLen st' \<le> SIC_uiTotalLen st"
  by (auto simp: tshellCharDelete_def Let_def bind_res_Inr buf_memcpy_def buf_set_def tty_write_buf_def split: if_splits)

lemma jump_loop:
  "edit_ok st' \<Longrightarrow> cookie_at as p cookie \<Longrightarrow> historyTrieRoot st' = root \<Longrightarrow> list_all byte_ok bs \<Longrightarrow>
   jump_ok h as root (Next_Loop, cookie, st', bs)"
  by (auto simp: jump_ok_def)

lemma key_done_jump:
  "key_done h as k p st x bs \<Longrightarrow> list_all byte_ok bs \<Longrightarrow> jump_ok h as (historyTrieRoot st) (Next_Loop, x)"
  by (auto simp: key_done_def jump_ok_def)

lemma func_key_safe:
  assumes ok: "edit_ok st" and h: "hist_ok h as" and ck: "cookie_at as p cookie"
    and room: "SIC_uiTotalLen st < LW_CFG_SHELL_MAX_COMMANDLEN" and bs: "list_all byte_ok bs"
  shows "\<exists>r. func_key (Some h) c (cookie, st, bs) = Inr r \<and> jump_ok h as (historyTrieRoot st) r"
proof -
  note jump = jump_loop[OF _ ck _ bs]
  have left: "jump_ok h as (historyTrieRoot st) (Next_Loop, cookie, tshellCharLeft st, bs)"
    using CharLeft_refines[OF ok] jump by blast
  obtain sr where right: "tshellCharRight st = Inr sr" "jump_ok h as (historyTrieRoot st) (Next_Loop, cookie, sr, bs)"
    using CharRight_refines[OF ok room] jump by blast
  obtain cu su where up: "tshellCharUp (Some h) cookie st = Inr (cu, su)"
      "jump_ok h as (historyTrieRoot st) (Next_Loop, cu, su, bs)"
    using Up_done[OF ok h ck, of bs] key_done_jump[OF _ bs] by blast
  obtain cd sd where down: "tshellCharDown (Some h) cookie st = Inr (cd, sd)"
      "jump_ok h as (historyTrieRoot st) (Next_Loop, cd, sd, bs)"
    using Down_done[OF ok h ck, of bs] key_done_jump[OF _ bs] by blast
  have hm: "jump_ok h as (historyTrieRoot st) (after_func_key cookie (tshellCharHome st) bs)"
    using CharHome_refines[OF ok] room by (intro after_func_key_ok[OF _ ck _ _ bs]) (auto simp: tshellCharHome_def)
  have en: "jump_ok h as (historyTrieRoot st) (after_func_key cookie (tshellCharEnd st) bs)"
    using CharEnd_refines[OF ok] room by (intro after_func_key_ok[OF _ ck _ _ bs]) (auto simp: tshellCharEnd_def)
  obtain sx where dl: "tshellCharDelete st = Inr sx" "edit_ok sx" "historyTrieRoot sx = historyTrieRoot st"
    using CharDelete_refines[OF ok] by blast
  have de: "jump_ok h as (historyTrieRoot st) (after_func_key cookie sx bs)"
    using CharDelete_total[OF dl(1)] dl room by (intro after_func_key_ok[OF _ ck _ _ bs]) auto
  have same: "jump_ok h as (historyTrieRoot st) (Next_Loop, cookie, st, bs)" using jump ok by blast
  show ?thesis
    unfolding func_key_def using left right up down hm en dl(1) de same by (simp del: split_paired_Ex)
qed

lemma key_step_safe:
  assumes ok: "edit_ok st" and h: "hist_ok h as" and ck: "cookie_at as p cookie"
    and room: "SIC_uiTotalLen st < LW_CFG_SHELL_MAX_COMMANDLEN" and bs: "list_all byte_ok bs" and c: "byte_ok c"
  shows "\<exists>r. key_step te (Some h) c (cookie, st, bs) = Inr r \<and> jump_ok h as (historyTrieRoot st) r"
proof -
  have c': "ascii c" "c \<noteq> TAB" using c by (simp_all add: byte_ok_def)
  consider "c = KEY_ESC" | "c \<noteq> KEY_ESC" "c = KEY_DEL \<or> c = KEY_BS" | "c = LF"
    | "c \<noteq> KEY_ESC" "\<not> (c = KEY_DEL \<or> c = KEY_BS)" "c \<noteq> LF" "c = KEY_EOT"
    | "c \<noteq> KEY_ESC" "\<not> (c = KEY_DEL \<or> c = KEY_BS)" "c \<noteq> LF" "c \<noteq> KEY_EOT" by blast
  then show ?thesis
  proof cases
    case 1
    show ?thesis
    proof (cases bs)
      case Nil
      then show ?thesis using 1 ok ck by (auto simp: key_step_def jump_ok_def)
    next
      case (Cons c2 b2)
      note bs2 = Cons
      then have b2: "list_all byte_ok b2" "byte_ok c2" using bs by auto
      show ?thesis
      proof (cases "c2 = KEY_BRACKET")
        case True
        show ?thesis
        proof (cases b2)
          case Nil
          then show ?thesis using 1 bs2 True ok ck by (auto simp: key_step_def jump_ok_def)
        next
          case (Cons c3 b3)
          then show ?thesis
            using func_key_safe[OF ok h ck room, of b3 c3] 1 bs2 True b2 by (simp add: key_step_def)
        qed
      next
        case False
        then show ?thesis using 1 bs2 ok ck room b2 by (auto simp: key_step_def jump_ok_def)
      qed
    qed
  next
    case 2
    then show ?thesis
      using CharBackspace_refines[OF ok] jump_loop[OF _ ck _ bs] c' by (auto simp: key_step_def)
  next
    case 3
    then show ?thesis
      using ok bs room by (simp add: key_step_def jump_ok_def tty_put_def read_ok_def edit_ok_def)
  next
    case 4
    have "length FORCE_ABORT < LW_CFG_SHELL_MAX_COMMANDLEN" by (simp add: FORCE_ABORT_def LW_CFG_SHELL_MAX_COMMANDLEN_def)
    then show ?thesis
      using 4 c' ok bs by (auto simp: key_step_def jump_ok_def buf_put_str_def read_ok_def edit_ok_def)
  next
    case 5
    then show ?thesis
      using CharInster_refines[OF ok room c'(1)] jump_loop[OF _ ck _ bs] c' by (auto simp: key_step_def)
  qed
qed

lemma readline_loop_safe:
  assumes "edit_ok st" "hist_ok h as" "cookie_at as p cookie" "list_all byte_ok bs"
    "pend = None \<or> (\<exists>c. pend = Some c \<and> byte_ok c) \<and> SIC_uiTotalLen st < LW_CFG_SHELL_MAX_COMMANDLEN"
  shows "\<exists>over cookie' st' bs'. readline_loop te (Some h) pend (cookie, st, bs) = Inr (over, cookie', st', bs') \<and>
    read_ok st' \<and> SIC_uiTotalLen st' \<le> LW_CFG_SHELL_MAX_COMMANDLEN \<and> historyTrieRoot st' = historyTrieRoot st"
  using assms
proof (induction te "Some h" pend "(cookie, st, bs)" arbitrary: cookie st bs p rule: readline_loop.induct)
  case (1 te pend cookie st bs)
  have rd: "edit_ok s \<Longrightarrow> read_ok s \<and> SIC_uiTotalLen s \<le> LW_CFG_SHELL_MAX_COMMANDLEN" for s
    by (simp add: edit_ok_def read_ok_def)
  show ?case
  proof (cases pend)
    case None
    show ?thesis
    proof (cases "SIC_uiTotalLen st < LW_CFG_SHELL_MAX_COMMANDLEN \<and> bs \<noteq> []")
      case True
      then obtain c bs' where bs: "bs = c # bs'" by (cases bs) auto
      show ?thesis
        using "1.hyps"(1)[OF None _ bs] "1.prems" True bs None by (subst readline_loop.simps) auto
    next
      case False
      then show ?thesis using None "1.prems"(1) rd by (subst readline_loop.simps) (auto split: list.split)
    qed
  next
    case (Some c)
    then have room: "SIC_uiTotalLen st < LW_CFG_SHELL_MAX_COMMANDLEN" and c: "byte_ok c" using "1.prems"(5) by auto
    obtain nx cookie1 st1 bs1 where s: "key_step te (Some h) c (cookie, st, bs) = Inr (nx, cookie1, st1, bs1)"
      and j: "jump_ok h as (historyTrieRoot st) (nx, cookie1, st1, bs1)"
      using key_step_safe[OF "1.prems"(1,2,3) room "1.prems"(4) c, of te] by (metis prod_cases4)
    show ?thesis
    proof (cases nx)
      case Next_Loop
      then obtain p1 where "cookie_at as p1 cookie1" "edit_ok st1" "list_all byte_ok bs1" "historyTrieRoot st1 = historyTrieRoot st"
        using j by (auto simp: jump_ok_def)
      then show ?thesis
        using "1.hyps"(2)[OF Some s refl refl refl Next_Loop] "1.prems"(2) Some s Next_Loop
        by (subst readline_loop.simps) auto
    next
      case (Next_Check d)
      then obtain p1 where "cookie_at as p1 cookie1" "edit_ok st1" "list_all byte_ok bs1" "byte_ok d"
          "historyTrieRoot st1 = historyTrieRoot st" "SIC_uiTotalLen st1 < LW_CFG_SHELL_MAX_COMMANDLEN"
        using j by (auto simp: jump_ok_def)
      then show ?thesis
        using "1.hyps"(3)[OF Some s refl refl refl Next_Check] "1.prems"(2) Some s Next_Check
        by (subst readline_loop.simps) auto
    next
      case Next_Break
      then show ?thesis using Some s j by (subst readline_loop.simps) (auto simp: jump_ok_def)
    next
      case Next_Out
      then show ?thesis using Some s j rd by (subst readline_loop.simps) (auto simp: jump_ok_def)
    qed
  qed
qed

lemma readline_any:
  assumes ready: "read_ok st" and h: "hist_ok h as" and a: "a \<notin> set as" and bs: "list_all byte_ok bs"
  shows "case tshellReadline te (Some a) n (Some h) st bs of
      Inl f \<Rightarrow> f = Buffer_Unterminated
    | Inr (s, len, h', st', rest) \<Rightarrow> len \<le> LW_CFG_SHELL_MAX_COMMANDLEN \<and> read_ok st' \<and>
        historyTrieRoot st' = historyTrieRoot st \<and> (\<exists>h1 as1. h' = Some h1 \<and> history_ok h1 as1)"
proof -
  obtain st0 where st0: "readline_start st = Inr st0" "edit_ok st0" "historyTrieRoot st0 = historyTrieRoot st"
    using readline_start_ok[OF ready] by metis
  obtain over cookie st1 rest where run: "readline_loop te (Some h) None (None, st0, bs) = Inr (over, cookie, st1, rest)"
    and st1: "read_ok st1" "SIC_uiTotalLen st1 \<le> LW_CFG_SHELL_MAX_COMMANDLEN" "historyTrieRoot st1 = historyTrieRoot st"
    using readline_loop_safe[OF st0(2) h _ bs, of None None None te] st0(3) by (auto simp: cookie_at_def)
  have ho: "history_ok h as" using h by (simp add: hist_ok_def)
  show ?thesis
  proof (cases over)
    case True
    let ?st2 = "st1\<lparr>SIC_cInputBuffer := (SIC_cInputBuffer st1)[SIC_uiTotalLen st1 := EOS]\<rparr>"
    have n: "SIC_uiTotalLen st1 < length (SIC_cInputBuffer st1)" using st1 by (simp add: read_ok_def)
    then obtain s where s: "buf_str ?st2 = Inr s" by (auto simp: buf_str_def set_update_memI)
    obtain h1 as1 where "tshellHistorySave (Some a) s h = Some h1" "history_ok h1 as1"
      using HistorySave_refines[OF ho a] by blast
    then show ?thesis
      using st0(1) run True n s st1 ho
      by (auto simp: tshellReadline_def readline_save_def buf_set_eq read_ok_def)
  next
    case False
    then show ?thesis
      using st0(1) run st1 ho by (auto simp: tshellReadline_def buf_str_def)
  qed
qed

end
