(* ===== verification/TabSpec.thy ===== *)
theory TabSpec
  imports ReadlineSpec
begin

text \<open>
  What the tab key completes: the word on the line becomes the longest common prefix of the candidates
  that start with it, the commands of the keyword table for the first word and the entries of a
  directory for the others.
\<close>

section \<open>Common prefixes\<close>

lemma similarLen_le: "similarLen s t \<le> length s" "similarLen s t \<le> length t"
  by (induction s t rule: similarLen.induct) auto

lemma similarLen_take: "take (similarLen s t) s = take (similarLen s t) t"
  by (induction s t rule: similarLen.induct) auto

lemma similarLen_prefix: "prefix q s \<Longrightarrow> prefix q t \<Longrightarrow> length q \<le> similarLen s t"
proof (induction s t arbitrary: q rule: similarLen.induct)
  case (1 c s d t)
  then show ?case by (cases q) auto
qed auto

lemma similarLen_full: "similarLen s k = length s \<longleftrightarrow> prefix s k"
proof
  assume "similarLen s k = length s"
  then have "s = take (length s) k" using similarLen_take[of s k] by simp
  then show "prefix s k" by (metis take_is_prefix)
next
  assume "prefix s k"
  then show "similarLen s k = length s"
    using similarLen_prefix[of s s k] similarLen_le(1)[of s k] by simp
qed

definition is_lcp :: "cstring \<Rightarrow> cstring set \<Rightarrow> bool" where
  "is_lcp p S \<longleftrightarrow> (\<forall>w \<in> S. prefix p w) \<and> (\<forall>q. (\<forall>w \<in> S. prefix q w) \<longrightarrow> prefix q p)"

lemma is_lcp_single [simp]: "is_lcp w {w}"
  by (simp add: is_lcp_def)

lemma is_lcp_unique: "is_lcp p S \<Longrightarrow> is_lcp q S \<Longrightarrow> p = q"
  by (meson is_lcp_def prefix_order.antisym)

text \<open>One more candidate: the scan compares it with one it has, and cuts there if they part earlier.\<close>

lemma is_lcp_insert:
  assumes p: "is_lcp p S" and m: "prefix p m" and t: "\<And>q. prefix q p \<Longrightarrow> length q \<le> similarLen m k \<longleftrightarrow> prefix q k"
  shows "is_lcp (take (similarLen m k) p) (insert k S)"
  unfolding is_lcp_def
proof (intro conjI ballI allI impI)
  fix w assume "w \<in> insert k S"
  then consider "w = k" | "w \<in> S" by blast
  then show "prefix (take (similarLen m k) p) w"
  proof cases
    case 1
    then show ?thesis using t[of "take (similarLen m k) p"] take_is_prefix by fastforce
  next
    case 2
    then show ?thesis using p take_is_prefix prefix_order.trans unfolding is_lcp_def by blast
  qed
next
  fix q assume q: "\<forall>w \<in> insert k S. prefix q w"
  then have "prefix q p" "prefix q k" using p by (auto simp: is_lcp_def)
  then have "length q \<le> similarLen m k" "prefix q p" using t by auto
  then show "prefix q (take (similarLen m k) p)" by (metis prefix_def take_all take_append append_take_drop_id prefixI)
qed

lemma similar_cut:
  assumes "prefix p m" "prefix q p"
  shows "length q \<le> similarLen m k \<longleftrightarrow> prefix q k"
proof
  assume "length q \<le> similarLen m k"
  moreover have "prefix q m" using assms prefix_order.trans by blast
  then have "q = take (length q) m" by (auto simp: prefix_def)
  ultimately have "q = take (length q) k"
    using similarLen_take[of m k] by (metis min.absorb1 take_take)
  then show "prefix q k" by (metis take_is_prefix)
next
  assume "prefix q k"
  then show "length q \<le> similarLen m k" using assms prefix_order.trans similarLen_prefix by blast
qed

lemmas is_lcp_step = is_lcp_insert[OF _ _ similar_cut]

section \<open>The scan of the keywords\<close>

text \<open>Only the terminal changes while the candidates are printed.\<close>

definition only_tty :: "edit_state \<Rightarrow> edit_state \<Rightarrow> bool" where
  "only_tty st st' \<longleftrightarrow> (\<exists>t. st' = st\<lparr>ed_tty := t\<rparr>)"

lemma only_tty_refl [simp]: "only_tty st st"
  unfolding only_tty_def by (intro exI[of _ "ed_tty st"]) simp

lemma only_tty_upd [simp]: "only_tty st (st\<lparr>ed_tty := t\<rparr>)"
  unfolding only_tty_def by blast

lemma only_tty_trans: "only_tty st st' \<Longrightarrow> only_tty st' st'' \<Longrightarrow> only_tty st st''"
  by (auto simp: only_tty_def)

lemma only_tty_put [simp]: "only_tty st (tty_put e st') \<longleftrightarrow> only_tty st st'"
proof
  assume "only_tty st (tty_put e st')"
  then obtain t where t: "tty_put e st' = st\<lparr>ed_tty := t\<rparr>" by (auto simp: only_tty_def)
  have "st' = (tty_put e st')\<lparr>ed_tty := ed_tty st'\<rparr>" by (simp add: tty_put_def)
  then show "only_tty st st'" unfolding t only_tty_def by (intro exI[of _ "ed_tty st'"]) simp
qed (auto simp: only_tty_def tty_put_def)

lemma only_tty_print_cell: "only_tty st st' \<Longrightarrow> only_tty st (snd (print_cell s (n, st')))"
proof -
  have "only_tty st u \<Longrightarrow> only_tty st (fillRepeatSpace k u)" for k u
    by (auto simp: fillRepeatSpace_eq only_tty_def)
  then show "only_tty st st' \<Longrightarrow> only_tty st (snd (print_cell s (n, st')))" by (simp add: print_cell_def Let_def)
qed

lemma only_tty_end_row: "only_tty st (snd x) \<Longrightarrow> only_tty st (snd (end_row w x))"
  by (cases x) (simp add: end_row_def)

definition kw_inv :: "kw_scan \<Rightarrow> cstring list \<Rightarrow> bool" where
  "kw_inv ks ws \<longleftrightarrow> ks_num ks = length ws \<and>
     (ws \<noteq> [] \<longrightarrow> ks_first ks = hd ws \<and> ks_min ks \<le> length (ks_min_kw ks) \<and> ks_min_kw ks \<in> set ws \<and>
        is_lcp (take (ks_min ks) (ks_min_kw ks)) (set ws))"

lemma kw_step_skip: "\<not> prefix pc k \<Longrightarrow> kw_step w pc k (ks, st) = (ks, st)"
  by (simp add: kw_step_def similarLen_full)

lemma kw_step_take:
  assumes k: "prefix pc k" and inv: "kw_inv ks ws"
  shows "\<exists>ks' st'. kw_step w pc k (ks, st) = (ks', st') \<and> kw_inv ks' (ws @ [k]) \<and> only_tty st st'"
proof (cases "ws = []")
  case True
  then show ?thesis using k inv by (simp add: kw_step_def similarLen_full kw_inv_def)
next
  case False
  define m where "m = ks_min_kw ks"
  define n where "n = ks_min ks"
  have num: "ks_num ks = length ws" "length ws \<noteq> 0" and f: "ks_first ks = hd ws" "n \<le> length m" "m \<in> set ws"
    and l: "is_lcp (take n m) (set ws)"
    using inv False by (simp_all add: kw_inv_def m_def n_def)
  have l': "is_lcp (take (similarLen m k) (take n m)) (insert k (set ws))"
    by (rule is_lcp_step[OF l]) (simp_all add: take_is_prefix)
  define n' where "n' = min n (similarLen m k)"
  define m' where "m' = (if similarLen m k < n then k else m)"
  have lcp: "is_lcp (take n' m') (insert k (set ws))"
    using l' similarLen_take[of m k] by (auto simp: n'_def m'_def min_def split: if_splits)
  have le: "n' \<le> length m'" "m' \<in> insert k (set ws)"
    using f similarLen_le[of m k] by (auto simp: n'_def m'_def)
  define ks1 where "ks1 = ks\<lparr>ks_num := ks_num ks + 1, ks_min := n', ks_min_kw := m'\<rparr>"
  have ks1: "(let ks = ks\<lparr>ks_num := ks_num ks + 1\<rparr> in
      if similarLen (ks_min_kw ks) k < ks_min ks then ks\<lparr>ks_min := similarLen (ks_min_kw ks) k, ks_min_kw := k\<rparr> else ks) = ks1"
    by (auto simp: ks1_def n'_def m'_def m_def n_def Let_def)
  have inv1: "kw_inv (ks1\<lparr>ks_total := t\<rparr>) (ws @ [k])" "kw_inv (ks1\<lparr>ks_total := t, ks_print_first := b\<rparr>) (ws @ [k])"
      "kw_inv (ks1\<lparr>ks_print_first := b, ks_total := t\<rparr>) (ws @ [k])" for t b
    using num f lcp le by (auto simp: kw_inv_def ks1_def hd_append)
  define st1 where "st1 = (if ks_num ks1 = 2 then tty_put (Tty_Print [LF]) st else st)"
  obtain t2 st2 where r2: "end_row w (print_cell k (ks_total ks1, st1)) = (t2, st2)" by fastforce
  have o2: "only_tty st st2"
    using only_tty_end_row[OF only_tty_print_cell[of st st1 k "ks_total ks1"], of w] r2 by (simp add: st1_def)
  obtain t3 st3 where r3: "end_row w (print_cell (ks_first ks1) (t2, st2)) = (t3, st3)" by fastforce
  have o3: "only_tty st st3"
    using only_tty_end_row[OF only_tty_print_cell[OF o2, of "ks_first ks1" t2], of w] r3 by simp
  have "kw_step w pc k (ks, st) =
      (if ks_num ks1 = 2 \<and> \<not> ks_print_first ks1
       then (ks1\<lparr>ks_total := t2, ks_print_first := True, ks_total := t3\<rparr>, st3) else (ks1\<lparr>ks_total := t2\<rparr>, st2))"
    using k num ks1 r2 r3
    by (simp add: kw_step_def similarLen_full Let_def st1_def[symmetric] ks1_def st1_def split: if_splits)
  then show ?thesis using inv1 o2 o3 by (auto split: if_splits)
qed

lemma kw_fold:
  "kw_inv ks ws \<Longrightarrow> \<exists>ks' st'. fold (kw_step w pc) xs (ks, st) = (ks', st') \<and>
     kw_inv ks' (ws @ filter (prefix pc) xs) \<and> only_tty st st'"
proof (induction xs arbitrary: ks st ws)
  case (Cons x xs)
  show ?case
  proof (cases "prefix pc x")
    case True
    obtain ks1 st1 where 1: "kw_step w pc x (ks, st) = (ks1, st1)" "kw_inv ks1 (ws @ [x])" "only_tty st st1"
      using kw_step_take[OF True Cons.prems, of w st] by blast
    from Cons.IH[OF 1(2), of st1] 1 True show ?thesis by (auto intro: only_tty_trans)
  next
    case False
    then show ?thesis using Cons.IH[OF Cons.prems, of st] by (simp add: kw_step_skip)
  qed
qed (auto intro: only_tty_refl)

text \<open>The pages of twenty keywords: together they are all, but a last page that is empty is read before its start.\<close>

definition page_start :: "addr list \<Rightarrow> nat \<Rightarrow> addr option" where
  "page_start as i = (if i = 0 then None else Some (as ! (i - 1)))"

lemma KeywordList_page:
  assumes ok: "table_ok z SK_pcKeyword keys as" and i: "i \<le> length as"
  shows "tshellKeywordList (page_start as i) KEYWORD_BUFF_SIZE keys = take KEYWORD_BUFF_SIZE (drop i as)"
proof (cases i)
  case 0
  then show ?thesis
    using ok line_collect_eq[of "tbl_manage keys" "tbl_header keys" as KEYWORD_BUFF_SIZE]
    by (simp add: tshellKeywordList_def table_list_def page_start_def table_ok_def KEYWORD_BUFF_SIZE_def)
next
  case (Suc j)
  then have "as = take j as @ as ! j # drop i as" using i id_take_nth_drop[of j as] by simp
  then have "line (tbl_manage keys) (tbl_header keys) (take j as @ as ! j # drop i as)"
    using ok by (simp add: table_ok_def)
  from line_collect_dseg[OF line_after[OF this], of KEYWORD_BUFF_SIZE] Suc show ?thesis
    by (simp add: tshellKeywordList_def table_list_def page_start_def KEYWORD_BUFF_SIZE_def)
qed

lemma kw_pages_eq:
  assumes ok: "table_ok z SK_pcKeyword keys as" and i: "i \<le> length as"
  shows "kw_pages keys w pc (page_start as i) x =
    Some (if (length as - i) mod KEYWORD_BUFF_SIZE = 0 then Inl Array_Underflow
          else Inr (fold (kw_step w pc) (map (keyword_at keys) (drop i as)) x))"
  using i
proof (induction "length as - i" arbitrary: i x rule: less_induct)
  case less
  let ?B = KEYWORD_BUFF_SIZE
  let ?page = "take ?B (drop i as)"
  have B: "?B = 20" by (simp add: KEYWORD_BUFF_SIZE_def)
  note pg = KeywordList_page[OF ok less.prems]
  show ?case
  proof (cases "length as - i < ?B")
    case True
    then have "?page = drop i as" "(length as - i) mod ?B = length as - i" by simp_all
    then show ?thesis using True pg by (subst kw_pages.simps) (auto simp: Let_def)
  next
    case False
    then have len: "length ?page = ?B" by simp
    have le: "i + ?B \<le> length as" using False less.prems by linarith
    have "last ?page = as ! (i + ?B - 1)"
      using len B le by (subst last_conv_nth) auto
    then have st: "Some (last ?page) = page_start as (i + ?B)" using B by (simp add: page_start_def)
    have md: "(length as - i) mod ?B = (length as - (i + ?B)) mod ?B"
      using le mod_add_self2[of "length as - (i + ?B)" ?B] by (simp add: add.commute)
    have dr: "drop i as = ?page @ drop (i + ?B) as" by (simp add: add.commute flip: drop_drop)
    let ?x = "fold (kw_step w pc) (map (keyword_at keys) ?page) x"
    have "kw_pages keys w pc (page_start as i) x = kw_pages keys w pc (Some (last ?page)) ?x"
      using pg len B by (subst kw_pages.simps) (auto simp: Let_def)
    also have "\<dots> = Some (if (length as - (i + ?B)) mod ?B = 0 then Inl Array_Underflow
        else Inr (fold (kw_step w pc) (map (keyword_at keys) (drop (i + ?B) as)) ?x))"
      unfolding st by (rule less.hyps) (use B le in auto)
    also have "fold (kw_step w pc) (map (keyword_at keys) (drop (i + ?B) as)) ?x =
        fold (kw_step w pc) (map (keyword_at keys) (drop i as)) x"
      by (subst (2) dr) simp
    finally show ?thesis using md by simp
  qed
qed

lemmas kw_pages_all = kw_pages_eq[where i = 0, unfolded page_start_def, simplified]

section \<open>Completing a keyword\<close>

text \<open>The tab key has gone to the end of the line and terminated it.\<close>

definition at_end :: "edit_state \<Rightarrow> bool" where
  "at_end st \<longleftrightarrow> edit_ok st \<and> entry_ok (edit_text st) \<and> SIC_uiCursor st = SIC_uiTotalLen st \<and>
     SIC_cInputBuffer st ! SIC_uiTotalLen st = EOS"

lemma at_end_tty [simp]: "at_end (st\<lparr>ed_tty := t\<rparr>) = at_end st"
  by (simp add: at_end_def)

lemma only_tty_at_end: "only_tty st st' \<Longrightarrow> at_end st \<Longrightarrow> at_end st' \<and> view st' = view st \<and>
    historyTrieRoot st' = historyTrieRoot st \<and> edit_text st' = edit_text st"
  by (auto simp: only_tty_def)

lemma at_end_view: "at_end st \<Longrightarrow> view st = Line (edit_text st) [] (lv_pending (view st))"
  using edit_text_length[of st] by (simp add: at_end_def view_def)

lemma at_end_str:
  assumes "at_end st"
  shows "buf_str st = Inr (edit_text st)"
proof -
  let ?n = "SIC_uiTotalLen st" and ?b = "SIC_cInputBuffer st"
  have n: "?n < length ?b" "?b ! ?n = EOS" and e: "EOS \<notin> set (edit_text st)"
    using assms by (auto simp: at_end_def edit_ok_def entry_ok_def is_cstr_def)
  have "?b = edit_text st @ EOS # drop (Suc ?n) ?b"
    using n id_take_nth_drop[of ?n ?b] by (simp add: edit_text_def)
  then have "takeWhile (\<lambda>c. c \<noteq> EOS) ?b = edit_text st"
    using e by (metis (mono_tags, lifting) takeWhile_append2 takeWhile.simps(2) append_Nil2)
  moreover have "EOS \<in> set ?b" using n nth_mem by metis
  ultimately show ?thesis by (simp add: buf_str_def)
qed

text \<open>Appending the rest of the only candidate: the buffer takes it as long as it fits.\<close>

lemma append_fits:
  assumes st: "at_end st" and s: "entry_ok s" and fit: "length (edit_text st) + length s < LW_CFG_SHELL_MAX_COMMANDLEN"
  shows "\<exists>st'. buf_strlcat s st = Inr st' \<and>
    (let st2 = st'\<lparr>SIC_uiTotalLen := SIC_uiTotalLen st' + length s, SIC_uiCursor := SIC_uiTotalLen st' + length s\<rparr>
     in at_end st2 \<and> edit_text st2 = edit_text st @ s \<and> historyTrieRoot st2 = historyTrieRoot st \<and>
        lv_pending (view st2) = lv_pending (view st) \<and> lastMatch st2 = lastMatch st)"
proof -
  let ?t = "edit_text st" and ?b = "SIC_cInputBuffer st"
  have ok: "edit_ok st" and e: "entry_ok ?t" using st by (auto simp: at_end_def)
  have len: "length ?t = SIC_uiTotalLen st" "length ?b = LW_CFG_SHELL_MAX_COMMANDLEN + 1"
    using edit_text_length[OF ok] ok by (auto simp: edit_ok_def)
  have cat: "fst (lib_strlcat ?t s LW_CFG_SHELL_MAX_COMMANDLEN) = ?t @ s"
    using fit by (simp add: lib_strlcat_def Let_def strlcpy_loop_eq)
  define st' where "st' = st\<lparr>SIC_cInputBuffer := (?t @ s) @ EOS # drop (Suc (length (?t @ s))) ?b\<rparr>"
  have r: "buf_strlcat s st = Inr st'"
    using at_end_str[OF st] fit len cat by (simp add: buf_strlcat_def buf_put_str_def st'_def)
  define st2 where "st2 = st'\<lparr>SIC_uiTotalLen := SIC_uiTotalLen st' + length s, SIC_uiCursor := SIC_uiTotalLen st' + length s\<rparr>"
  have tx: "edit_text st2 = ?t @ s" using len by (simp add: edit_text_def st2_def st'_def)
  have "edit_ok st2" using ok s fit len tx unfolding edit_ok_def
    by (simp add: entry_ok_def) (simp add: st2_def st'_def)
  then have "at_end st2" using tx e s len by (simp add: at_end_def) (simp add: st2_def st'_def nth_append)
  then show ?thesis using r tx
    by (intro exI[of _ st']) (simp add: Let_def st2_def[symmetric], simp add: st2_def st'_def view_def)
qed

lemma ask_ask [simp]: "ask r (ask r v) = ask r v"
  by (cases v) (simp add: ask_def)

lemma at_end_ok: "at_end st \<Longrightarrow> edit_ok st"
  by (simp add: at_end_def)

text \<open>The line after the scan of the candidates \<open>ws\<close> for the word \<open>pc\<close> on the line \<open>t\<close>.\<close>

definition completed :: "cstring \<Rightarrow> cstring list \<Rightarrow> cstring \<Rightarrow> cstring \<Rightarrow> bool" where
  "completed pc ws t t' \<longleftrightarrow>
     (case ws of
        [] \<Rightarrow> t' = t
      | [k] \<Rightarrow> t' = t @ drop (length pc) k
      | _ \<Rightarrow> (\<exists>p. is_lcp p (set ws) \<and> t' = (if length pc < length p then p else t)))"

lemma KeywordMatch_one:
  assumes st: "at_end st" and k: "entry_ok k" and fit: "length (edit_text st) + length (drop (length pc) k) < LW_CFG_SHELL_MAX_COMMANDLEN"
    and scan: "kw_pages (te_keys te) (ws_col te) pc None (kw_init, tty_put (Tty_Color_Start Green) st) = Some (Inr (ks, st1))"
    and ks: "kw_inv ks [k]" "only_tty st st1"
  shows "\<exists>st'. tshellKeywordMatch te pc st = Inr st' \<and> edit_ok st' \<and> historyTrieRoot st' = historyTrieRoot st \<and>
    view st' = ask (historyTrieRoot st) (Line (edit_text st @ drop (length pc) k) [] (lv_pending (view st)))"
proof -
  let ?cat = "drop (length pc) k"
  have num: "ks_num ks = 1" "ks_first ks = k" using ks(1) by (simp_all add: kw_inv_def)
  let ?st1 = "tty_put Tty_Color_End st1"
  have a1: "at_end ?st1" "view ?st1 = view st" "historyTrieRoot ?st1 = historyTrieRoot st" "edit_text ?st1 = edit_text st"
    using only_tty_at_end[of st ?st1] ks(2) st by simp_all
  obtain es where cl: "tshellClearHistorySuggestion ?st1 = Inr (?st1\<lparr>ed_tty := ed_tty ?st1 @ es\<rparr>)"
    using ClearHistorySuggestion_eq[OF at_end_ok[OF a1(1)]] by metis
  define st2 where "st2 = tty_put (Tty_Write ?cat) (?st1\<lparr>ed_tty := ed_tty ?st1 @ es\<rparr>)"
  have a2: "at_end st2" "view st2 = view st" "historyTrieRoot st2 = historyTrieRoot st" "edit_text st2 = edit_text st"
    using only_tty_at_end[OF _ a1(1), of st2] a1 unfolding st2_def by simp_all
  have cat: "entry_ok ?cat" using k by (metis append_take_drop_id entry_ok_simps(3))
  obtain st3 where st3: "buf_strlcat ?cat st2 = Inr st3" and
    "let st4 = st3\<lparr>SIC_uiTotalLen := SIC_uiTotalLen st3 + length ?cat, SIC_uiCursor := SIC_uiTotalLen st3 + length ?cat\<rparr>
     in at_end st4 \<and> edit_text st4 = edit_text st2 @ ?cat \<and> historyTrieRoot st4 = historyTrieRoot st2 \<and>
        lv_pending (view st4) = lv_pending (view st2) \<and> lastMatch st4 = lastMatch st2"
    using append_fits[OF a2(1) cat] fit a2(4) by metis
  moreover define st4 where "st4 = st3\<lparr>SIC_uiTotalLen := SIC_uiTotalLen st3 + length ?cat, SIC_uiCursor := SIC_uiTotalLen st3 + length ?cat\<rparr>"
  ultimately have a4: "at_end st4" "edit_text st4 = edit_text st @ ?cat" "historyTrieRoot st4 = historyTrieRoot st"
    "lv_pending (view st4) = lv_pending (view st)" using a2 by (simp_all add: Let_def)
  have "tshellKeywordMatch te pc st = tshellPrintHistorySuggestion st4"
    using scan num cl st3 by (simp add: tshellKeywordMatch_def Let_def st2_def st4_def)
  then show ?thesis
    using PrintHistorySuggestion_refines[OF at_end_ok[OF a4(1)]] a4 at_end_view[OF a4(1)] by metis
qed

lemma KeywordMatch_many:
  assumes st: "at_end st" and ws: "list_all entry_ok ws" "\<forall>k \<in> set ws. length k \<le> LW_CFG_SHELL_MAX_COMMANDLEN" "2 \<le> length ws"
    and scan: "kw_pages (te_keys te) (ws_col te) pc None (kw_init, tty_put (Tty_Color_Start Green) st) = Some (Inr (ks, st1))"
    and ks: "kw_inv ks ws" "only_tty st st1" and p: "is_lcp p (set ws)"
  shows "\<exists>st'. tshellKeywordMatch te pc st = Inr st' \<and> edit_ok st' \<and> historyTrieRoot st' = historyTrieRoot st \<and>
    view st' = ask (historyTrieRoot st) (Line (if length pc < length p then p else edit_text st) [] (lv_pending (view st)))"
proof -
  define m where "m = ks_min_kw ks"
  define n where "n = ks_min ks"
  have ne: "ws \<noteq> []" using ws(3) by auto
  have num: "1 < ks_num ks" and n: "n \<le> length m" "m \<in> set ws" "is_lcp (take n m) (set ws)"
    using ks(1) ws(3) ne by (auto simp: kw_inv_def m_def n_def)
  have pm: "p = take n m" using is_lcp_unique[OF p n(3)] .
  have m: "entry_ok m" "length m \<le> LW_CFG_SHELL_MAX_COMMANDLEN" using n(2) ws by (auto simp: list_all_iff)
  have pe: "entry_ok p" "length p = n" using m(1) n(1) unfolding pm by (metis append_take_drop_id entry_ok_simps(3), simp)
  define st2 where "st2 = tty_put Tty_Prompt (if ks_total ks \<noteq> 0 then tty_put (Tty_Print [LF]) (tty_put Tty_Color_End st1)
      else tty_put Tty_Color_End st1)"
  have a2: "at_end st2" "view st2 = view st" "historyTrieRoot st2 = historyTrieRoot st" "edit_text st2 = edit_text st"
    using only_tty_at_end[of st st2] ks(2) st by (simp_all add: st2_def)
  define t' where "t' = (if length pc < length p then p else edit_text st)"
  have "\<exists>st3. (if length pc < n then bind_res (buf_put_str m st2) (\<lambda>st. bind_res (buf_set n EOS st) (\<lambda>st.
        Inr (st\<lparr>SIC_uiTotalLen := n, SIC_uiCursor := n\<rparr>))) else Inr st2) = Inr st3 \<and>
      edit_ok st3 \<and> historyTrieRoot st3 = historyTrieRoot st \<and> view st3 = Line t' [] (lv_pending (view st))"
  proof (cases "length pc < n")
    case True
    let ?b = "SIC_cInputBuffer st2"
    have len: "length ?b = LW_CFG_SHELL_MAX_COMMANDLEN + 1" using a2(1) by (simp add: at_end_def edit_ok_def)
    let ?b' = "(m @ EOS # drop (Suc (length m)) ?b)[n := EOS]"
    define st3 where "st3 = st2\<lparr>SIC_cInputBuffer := ?b', SIC_uiTotalLen := n, SIC_uiCursor := n\<rparr>"
    have tk: "take n ?b' = p" using n(1) pm by simp
    have tx: "edit_text st3 = p" using tk by (simp add: edit_text_def st3_def)
    have "edit_ok st3"
      using a2(1) m n(1) tx pe len unfolding at_end_def edit_ok_def
      by (simp add: entry_ok_def) (simp add: st3_def)
    moreover have "view st3 = Line p [] (lv_pending (view st))"
      using tx pe a2(2) unfolding view_def[of st3] by (simp add: st3_def) (simp add: view_def)
    ultimately show ?thesis
      using True m len n(1) pe a2(3)
      by (intro exI[of _ st3]) (auto simp: buf_put_str_def buf_set_def st3_def t'_def)
  next
    case False
    then show ?thesis using a2 at_end_view[OF a2(1)] at_end_ok[OF a2(1)] pe
      by (intro exI[of _ st2]) (simp add: t'_def)
  qed
  then obtain st3 where st3: "(if length pc < n then bind_res (buf_put_str m st2) (\<lambda>st. bind_res (buf_set n EOS st) (\<lambda>st.
        Inr (st\<lparr>SIC_uiTotalLen := n, SIC_uiCursor := n\<rparr>))) else Inr st2) = Inr st3"
      "edit_ok st3" "historyTrieRoot st3 = historyTrieRoot st" "view st3 = Line t' [] (lv_pending (view st))" by blast
  have w: "tty_write_buf 0 (SIC_uiTotalLen st3) st3 = Inr (tty_put (Tty_Write (edit_text st3)) st3)"
    using st3(2) by (simp add: tty_write_buf_eq edit_ok_def edit_text_def)
  let ?st4 = "tty_put (Tty_Write (edit_text st3)) st3"
  have a4: "edit_ok ?st4" "view ?st4 = view st3" using st3(2) by (simp_all add: tty_put_def)
  have "tshellKeywordMatch te pc st = bind_res (bind_res (if length pc < n then bind_res (buf_put_str m st2)
        (\<lambda>st. bind_res (buf_set n EOS st) (\<lambda>st. Inr (st\<lparr>SIC_uiTotalLen := n, SIC_uiCursor := n\<rparr>))) else Inr st2)
      (\<lambda>st. tty_write_buf 0 (SIC_uiTotalLen st) st)) tshellPrintHistorySuggestion"
    using scan num by (simp add: tshellKeywordMatch_def Let_def st2_def m_def n_def)
  also have "\<dots> = tshellPrintHistorySuggestion ?st4" by (simp only: st3(1) bind_res_simps w)
  finally have "tshellKeywordMatch te pc st = tshellPrintHistorySuggestion ?st4" .
  then show ?thesis
    using PrintHistorySuggestion_refines[OF a4(1)] a4 st3 by (simp add: t'_def)
qed

lemma KeywordMatch_none:
  assumes "kw_pages (te_keys te) (ws_col te) pc None (kw_init, tty_put (Tty_Color_Start Green) st) = Some (Inr (ks, st1))"
    and "kw_inv ks []"
  shows "tshellKeywordMatch te pc st = Inr (tty_put Tty_Color_End st1)"
  using assms by (simp add: tshellKeywordMatch_def kw_inv_def)

text \<open>All the cases: the candidates are the keywords that start with the word.\<close>

definition candidates :: "cstring \<Rightarrow> keyword_state \<Rightarrow> cstring list" where
  "candidates pc keys = filter (prefix pc) (map fst (kw_entries keys))"

lemma kw_entries_at: "table_ok z SK_pcKeyword keys as \<Longrightarrow> map fst (kw_entries keys) = map (keyword_at keys) as"
  using table_ok_entries[of z SK_pcKeyword keys as] by (simp add: keyword_at_def)

lemma KeywordMatch_completes:
  assumes st: "at_end st" and keys: "keyword_ok (te_keys te)" "length (kw_entries (te_keys te)) mod KEYWORD_BUFF_SIZE \<noteq> 0"
    and ws: "list_all entry_ok (candidates pc (te_keys te))"
      "\<forall>k \<in> set (candidates pc (te_keys te)). length (edit_text st) + length k < LW_CFG_SHELL_MAX_COMMANDLEN"
  shows "\<exists>st' t'. tshellKeywordMatch te pc st = Inr st' \<and> edit_ok st' \<and> historyTrieRoot st' = historyTrieRoot st \<and>
    completed pc (candidates pc (te_keys te)) (edit_text st) t' \<and>
    (if candidates pc (te_keys te) = [] then view st' = view st
     else view st' = ask (historyTrieRoot st) (Line t' [] (lv_pending (view st))))"
proof -
  let ?ws = "candidates pc (te_keys te)"
  obtain as where ok: "table_ok LW_CFG_SHELL_KEY_HASH_SIZE SK_pcKeyword (te_keys te) as"
    using keys(1) by (auto simp: keyword_ok_def)
  have as: "map fst (kw_entries (te_keys te)) = map (keyword_at (te_keys te)) as" by (rule kw_entries_at[OF ok])
  then have len: "length as mod KEYWORD_BUFF_SIZE \<noteq> 0" using keys(2) by (metis length_map)
  obtain ks st1 where fold: "fold (kw_step (ws_col te) pc) (map (keyword_at (te_keys te)) as)
      (kw_init, tty_put (Tty_Color_Start Green) st) = (ks, st1)"
    and inv: "kw_inv ks ?ws" and tty: "only_tty (tty_put (Tty_Color_Start Green) st) st1"
    using kw_fold[of kw_init "[]" "ws_col te" pc "map (keyword_at (te_keys te)) as" "tty_put (Tty_Color_Start Green) st"] as
    by (auto simp: kw_inv_def kw_init_def candidates_def)
  have scan: "kw_pages (te_keys te) (ws_col te) pc None (kw_init, tty_put (Tty_Color_Start Green) st) = Some (Inr (ks, st1))"
    using kw_pages_all[OF ok] len fold by simp
  have o: "only_tty st st1" using tty only_tty_trans[of st "tty_put (Tty_Color_Start Green) st"] by simp
  consider "?ws = []" | k where "?ws = [k]" | "2 \<le> length ?ws"
    by (cases ?ws; cases "tl ?ws") (auto simp: Suc_le_eq)
  then show ?thesis
  proof cases
    case 1
    then show ?thesis
      using KeywordMatch_none[OF scan] inv only_tty_at_end[of st "tty_put Tty_Color_End st1"] o st at_end_ok
      by (auto simp: completed_def)
  next
    case 2
    then have "entry_ok k" "length (edit_text st) + length (drop (length pc) k) < LW_CFG_SHELL_MAX_COMMANDLEN"
      using ws by auto
    from KeywordMatch_one[OF st this scan _ o] inv 2 show ?thesis by (auto simp: completed_def)
  next
    case 3
    then have ne: "?ws \<noteq> []" by auto
    then have p: "is_lcp (take (ks_min ks) (ks_min_kw ks)) (set ?ws)" using inv by (simp add: kw_inv_def)
    have c: "completed pc ?ws (edit_text st) t' \<longleftrightarrow>
        (\<exists>p. is_lcp p (set ?ws) \<and> t' = (if length pc < length p then p else edit_text st))" for t'
      using 3 by (cases ?ws; cases "tl ?ws") (auto simp: completed_def)
    have "\<forall>k \<in> set ?ws. length k \<le> LW_CFG_SHELL_MAX_COMMANDLEN" using ws(2) by fastforce
    note many = KeywordMatch_many[OF st ws(1) this 3 scan inv o p]
    have "completed pc ?ws (edit_text st) (if length pc < length (take (ks_min ks) (ks_min_kw ks))
        then take (ks_min ks) (ks_min_kw ks) else edit_text st)" unfolding c using p by blast
    with many ne show ?thesis by auto
  qed
qed

section \<open>The tab key on the first word\<close>

text \<open>A word that the passes over the command line leave as it is.\<close>

definition white :: "c_char set" where
  "white = {BLANK, TAB, CR, LF}"

definition word_ok :: "cstring \<Rightarrow> bool" where
  "word_ok w \<longleftrightarrow> w \<noteq> [] \<and> hd w \<noteq> CHR ''#'' \<and> set w \<inter> (white \<union> {DOLLAR, QUOTE, BSLASH, RBRACE}) = {}"

lemma skip_white_word: "set l \<subseteq> white \<Longrightarrow> w = [] \<or> hd w \<notin> white \<Longrightarrow> skip_white (l @ w) = w"
  by (induction l; cases w) (auto simp: white_def)

lemma format_bare: "set w \<inter> {QUOTE, BSLASH, BLANK} = {} \<Longrightarrow> format_loop False False sp w = w"
  by (induction w arbitrary: sp) (auto simp: quote_now_def trans_now_def trans_next_def)

lemma token_word: "set w \<inter> {QUOTE, BSLASH, BLANK} = {} \<Longrightarrow> token_loop False False w = (w, [])"
  by (induction w) (auto simp: quote_now_def trans_now_def trans_next_def)

lemma del_trans_word: "set w \<inter> {QUOTE, BSLASH} = {} \<Longrightarrow> del_trans_loop False w = w"
  by (induction w) auto

lemma convert_word:
  assumes "lit_ok w" "length w \<le> LW_CFG_SHELL_MAX_COMMANDLEN"
  shows "tshellStrConvertVar le vars w = Inr (ERROR_NONE, w)"
  using convert_lit[of w "[]" le vars "[]" "[]"] assms by (simp add: tshellStrConvertVar_def)

lemma params_word:
  assumes "word_ok w"
  shows "parse_params LW_CFG_SHELL_MAX_PARAMNUM (tshellStrFormat w) = [w]"
proof -
  have "set w \<inter> {QUOTE, BSLASH, BLANK} = {}" using assms by (auto simp: word_ok_def white_def)
  then show ?thesis
    using format_bare[of w False] token_word[of w] del_trans_word[of w]
    by (simp add: LW_CFG_SHELL_MAX_PARAMNUM_def tshellStrFormat_def tshellStrGetToken_def tshellStrDelTransChar_def
        numeral_eq_Suc)
qed

text \<open>The start of \<open>__tshellCharTab\<close>: to the end of the line, which is terminated.\<close>

definition tab_start :: "edit_state \<Rightarrow> edit_result" where
  "tab_start st =
     (let st = (if SIC_uiCursor st < SIC_uiTotalLen st
        then (tty_put (Tty_Right (SIC_uiTotalLen st - SIC_uiCursor st)) st)\<lparr>SIC_uiCursor := SIC_uiTotalLen st\<rparr>
        else st) in buf_set (SIC_uiTotalLen st) EOS st)"

lemma tab_start_ok:
  assumes ok: "edit_ok st" and e: "entry_ok (edit_text st)"
  obtains st' where "tab_start st = Inr st'" "at_end st'" "edit_text st' = edit_text st"
    "historyTrieRoot st' = historyTrieRoot st" "lv_pending (view st') = lv_pending (view st)"
proof -
  let ?n = "SIC_uiTotalLen st" and ?b = "SIC_cInputBuffer st"
  have n: "?n < length ?b" using ok by (simp add: edit_ok_def)
  define st' where "st' = (if SIC_uiCursor st < ?n
      then (tty_put (Tty_Right (?n - SIC_uiCursor st)) st)\<lparr>SIC_uiCursor := ?n\<rparr> else st)\<lparr>SIC_cInputBuffer := ?b[?n := EOS]\<rparr>"
  have sel: "SIC_uiCursor st' = ?n" "SIC_uiTotalLen st' = ?n" "SIC_cInputBuffer st' = ?b[?n := EOS]"
      "historyTrieRoot st' = historyTrieRoot st" "lastMatch st' = lastMatch st" "lastMatchLength st' = lastMatchLength st"
    using edit_ok_simps(2)[OF ok] by (auto simp: st'_def)
  have tx: "edit_text st' = edit_text st" using sel by (simp add: edit_text_def)
  have "at_end st'" using ok e n sel tx by (simp add: at_end_def edit_ok_def)
  moreover have "tab_start st = Inr st'" using n by (auto simp: tab_start_def buf_set_def st'_def)
  ultimately show ?thesis using that sel tx by (simp add: view_def)
qed

lemma CharTab_start:
  "tshellCharTab te st = bind_res (tab_start st) (\<lambda>st. bind_res (buf_str st) (\<lambda>line.
     let pcCmd = skip_white line in
     if pcCmd = [] \<or> hd pcCmd = CHR ''#'' then Inr st
     else if lib_strnlen pcCmd (LW_CFG_SHELL_MAX_COMMANDLEN + 1) > LW_CFG_SHELL_MAX_COMMANDLEN - 1 \<or>
        lib_strnlen pcCmd (LW_CFG_SHELL_MAX_COMMANDLEN + 1) < 1 then Inr st
     else case tshellStrConvertVar (te_error te) (te_vars te) pcCmd of
       Inl f \<Rightarrow> Inl (Convert_Fault f)
     | Inr (ulError, cmd) \<Rightarrow>
         if ulError \<noteq> ERROR_NONE then Inr st
         else let params = parse_params LW_CFG_SHELL_MAX_PARAMNUM (tshellStrFormat cmd) in
           bind_res (tshellClearHistorySuggestion st) (\<lambda>st.
             bind_res (if length params = 1 then tshellKeywordMatch te (last params) st
                       else tab_file te (last params) st) tshellPrintHistorySuggestion)))"
  unfolding tshellCharTab_def tab_start_def Let_def by (rule refl)

lemma CharTab_keyword:
  assumes ok: "edit_ok st" and e: "entry_ok (edit_text st)" and len: "length (edit_text st) < LW_CFG_SHELL_MAX_COMMANDLEN"
    and tx: "edit_text st = pre @ w" "set pre \<subseteq> white" "word_ok w"
    and keys: "keyword_ok (te_keys te)" "length (kw_entries (te_keys te)) mod KEYWORD_BUFF_SIZE \<noteq> 0"
    and ws: "list_all entry_ok (candidates w (te_keys te))"
      "\<forall>k \<in> set (candidates w (te_keys te)). length (edit_text st) + length k < LW_CFG_SHELL_MAX_COMMANDLEN"
  shows "\<exists>st' t'. tshellCharTab te st = Inr st' \<and> edit_ok st' \<and> historyTrieRoot st' = historyTrieRoot st \<and>
    completed w (candidates w (te_keys te)) (edit_text st) t' \<and>
    view st' = ask (historyTrieRoot st) (Line t' [] (lv_pending (view st)))"
proof -
  obtain st1 where st1: "tab_start st = Inr st1" "at_end st1" "edit_text st1 = edit_text st"
    "historyTrieRoot st1 = historyTrieRoot st" "lv_pending (view st1) = lv_pending (view st)"
    using tab_start_ok[OF ok e] by metis
  have "hd w \<in> set w" "set w \<inter> white = {}" using tx(3) by (auto simp: word_ok_def)
  then have w: "skip_white (edit_text st) = w"
    unfolding tx(1) by (intro skip_white_word[OF tx(2)]) blast
  have lw: "length w < LW_CFG_SHELL_MAX_COMMANDLEN" "w \<noteq> []" "hd w \<noteq> CHR ''#''"
    "\<not> LW_CFG_SHELL_MAX_COMMANDLEN - Suc 0 < length w"
    using len tx by (auto simp: word_ok_def)
  have cv: "tshellStrConvertVar (te_error te) (te_vars te) w = Inr (ERROR_NONE, w)"
    by (rule convert_word) (use tx(3) lw in \<open>auto simp: word_ok_def lit_ok_def\<close>)
  obtain es where cl: "tshellClearHistorySuggestion st1 = Inr (st1\<lparr>ed_tty := ed_tty st1 @ es\<rparr>)"
    using ClearHistorySuggestion_eq[OF at_end_ok[OF st1(2)]] by metis
  let ?st2 = "st1\<lparr>ed_tty := ed_tty st1 @ es\<rparr>"
  have st2: "at_end ?st2" "edit_text ?st2 = edit_text st" "view ?st2 = view st1" using st1 by simp_all
  obtain st3 t' where st3: "tshellKeywordMatch te w ?st2 = Inr st3" "edit_ok st3" "historyTrieRoot st3 = historyTrieRoot st"
    and t': "completed w (candidates w (te_keys te)) (edit_text st) t'"
    and v3: "if candidates w (te_keys te) = [] then view st3 = view st1
      else view st3 = ask (historyTrieRoot st) (Line t' [] (lv_pending (view st)))"
    using KeywordMatch_completes[OF st2(1) keys ws(1)] ws(2) st1 st2 by auto
  have "tshellCharTab te st = tshellPrintHistorySuggestion st3"
    using st1(1) at_end_str[OF st1(2)] st1(3) w lw cv params_word[OF tx(3)] cl st3(1)
    by (simp add: CharTab_start)
  moreover have "ask (historyTrieRoot st) (view st3) = ask (historyTrieRoot st) (Line t' [] (lv_pending (view st)))"
    using v3 t' at_end_view[OF st1(2)] st1(3,5) by (auto simp: completed_def split: if_splits)
  ultimately show ?thesis
    using PrintHistorySuggestion_refines[OF st3(2)] st3(3) t' by auto
qed

end
