(* ===== verification/FileSpec.thy ===== *)
theory FileSpec
  imports TabSpec
begin

text \<open>
  Completion of a file name: the scan of \<open>__tshellFileMatch\<close> over the entries of a directory finds the
  longest common prefix of those that start with the name, although it compares each entry only with
  the one it remembers, and marks directories with a slash on the way.
\<close>

section \<open>Marks\<close>

abbreviation SLASH :: c_char where "SLASH \<equiv> CHR ''/''"

lemma similarLen_mark: "c \<notin> set k \<Longrightarrow> similarLen (m @ [c]) k = similarLen m k"
  by (induction m k rule: similarLen.induct) (auto, metis list.exhaust list.set_intros(1) similarLen.simps)

lemma SLASH_ok [simp]: "ascii SLASH" "SLASH \<noteq> EOS"
  by (simp add: ascii_uchar uchar_def) (simp add: uchar_inject[symmetric] uchar_def EOS_def del: uchar_inject)

lemma mark_dir_cases: "mark_dir te dir name = name \<or> mark_dir te dir name = name @ [SLASH]"
  by (auto simp: mark_dir_def lib_strlcat_def Let_def strlcpy_loop_eq min_def MAX_FILENAME_LENGTH_def)

text \<open>The entry that is remembered, with or without its mark.\<close>

definition remembers :: "cstring \<Rightarrow> cstring \<Rightarrow> bool" where
  "remembers m w \<longleftrightarrow> m = w \<or> m = w @ [SLASH]"

lemma remembers_similar: "remembers m w \<Longrightarrow> SLASH \<notin> set k \<Longrightarrow> similarLen m k = similarLen w k"
  by (auto simp: remembers_def similarLen_mark)

definition fm_inv :: "fm_scan \<Rightarrow> cstring list \<Rightarrow> bool" where
  "fm_inv fm ws \<longleftrightarrow> fm_num fm = length ws \<and> (fm_print fm \<longleftrightarrow> 2 \<le> length ws) \<and>
     (length ws = 1 \<longrightarrow> fm_match fm = hd ws) \<and>
     (ws \<noteq> [] \<longrightarrow> (\<exists>w \<in> set ws. remembers (fm_match fm) w \<and> fm_min fm \<le> length w \<and>
        is_lcp (take (fm_min fm) w) (set ws)))"

lemma only_tty_print_dirent:
  assumes "only_tty st st'"
  obtains t st'' where "print_dirent te dir name (n, st') = (mark_dir te dir name, t, st'')" "only_tty st st''"
proof -
  obtain t1 s1 where 1: "print_cell (mark_dir te dir name) (n, tty_put (Tty_Color_Start Of_Mode) st') = (t1, s1)" by fastforce
  have o1: "only_tty st s1"
    using only_tty_print_cell[of st "tty_put (Tty_Color_Start Of_Mode) st'" "mark_dir te dir name" n] 1 assms by simp
  obtain t2 s2 where 2: "end_row (ws_col te) (t1, tty_put Tty_Color_End s1) = (t2, s2)" by fastforce
  have "only_tty st s2" using only_tty_end_row[of st "(t1, tty_put Tty_Color_End s1)" "ws_col te"] 2 o1 by simp
  moreover have "print_dirent te dir name (n, st') = (mark_dir te dir name, t2, s2)"
    using 1 2 by (simp add: print_dirent_def Let_def)
  ultimately show ?thesis using that by blast
qed

lemma strncmp_prefix: "is_cstr f \<Longrightarrow> is_cstr k \<Longrightarrow> length f = 0 \<or> lib_strncmp f k (length f) = 0 \<longleftrightarrow> prefix f k"
  using lib_strncmp_0[of f k "length f"] by (auto simp: prefix_def) (metis append_take_drop_id)+

lemma fm_step_take:
  assumes k: "prefix f k" "is_cstr f" "is_cstr k" "SLASH \<notin> set k" and inv: "fm_inv fm ws"
  shows "\<exists>fm' st'. fm_step te dir f k (fm, st) = (fm', st') \<and> fm_inv fm' (ws @ [k]) \<and> only_tty st st'"
proof (cases "ws = []")
  case True
  then show ?thesis using k inv strncmp_prefix[of f k]
    by (auto simp: fm_step_def fm_inv_def remembers_def)
next
  case False
  obtain w where w: "w \<in> set ws" "remembers (fm_match fm) w" "fm_min fm \<le> length w"
      "is_lcp (take (fm_min fm) w) (set ws)" using inv False by (auto simp: fm_inv_def)
  let ?t = "similarLen w k"
  have sim: "similarLen (fm_match fm) k = ?t" by (rule remembers_similar[OF w(2) k(4)])
  define n' where "n' = min (fm_min fm) ?t"
  have "is_lcp (take ?t (take (fm_min fm) w)) (insert k (set ws))"
    by (rule is_lcp_step[OF w(4)]) (simp_all add: take_is_prefix)
  then have lw: "is_lcp (take n' w) (insert k (set ws))" by (simp add: n'_def min.commute)
  have "take n' w = take n' k" using similarLen_take[of w k] unfolding n'_def by (metis min.commute take_take)
  then have lk: "is_lcp (take n' k) (insert k (set ws))" using lw by simp
  have le: "n' \<le> length w" "n' \<le> length k" using w(3) similarLen_le[of w k] by (auto simp: n'_def)
  define st1 where "st1 = (if length ws = 1 then tty_put (Tty_Print [LF]) st else st)"
  have o1: "only_tty st st1" by (simp add: st1_def)
  obtain t2 st2 where r2: "print_dirent te dir k (fm_total fm, st1) = (mark_dir te dir k, t2, st2)" "only_tty st st2"
    using only_tty_print_dirent[OF o1] by blast
  obtain t3 st3 where r3: "print_dirent te dir (fm_match fm) (t2, st2) = (mark_dir te dir (fm_match fm), t3, st3)" "only_tty st st3"
    using only_tty_print_dirent[OF r2(2)] by blast
  define fm1 where "fm1 = fm\<lparr>fm_num := Suc (length ws), fm_min := n'\<rparr>"
  have num: "fm_num fm = length ws" "length ws \<noteq> 0" using inv False by (auto simp: fm_inv_def)
  have fm1: "(if similarLen (fm_match fm) k < fm_min fm then (fm\<lparr>fm_num := fm_num fm + 1\<rparr>)\<lparr>fm_min := similarLen (fm_match fm) k\<rparr>
      else fm\<lparr>fm_num := fm_num fm + 1\<rparr>) = fm1"
    using num sim by (auto simp: fm1_def n'_def)
  have step: "fm_step te dir f k (fm, st) =
      (if \<not> fm_print fm then (fm1\<lparr>fm_print := True, fm_match := mark_dir te dir (fm_match fm), fm_total := t3\<rparr>, st3)
       else (fm1\<lparr>fm_match := mark_dir te dir k, fm_total := t2\<rparr>, st2))"
    using k strncmp_prefix[of f k] num fm1 r2(1) r3(1)
    by (simp add: fm_step_def Let_def st1_def[symmetric] fm1_def st1_def split: if_splits)
  show ?thesis
  proof (cases "fm_print fm")
    case False
    then have "\<not> 2 \<le> length ws" using inv by (simp add: fm_inv_def)
    then have len: "length ws = 1" using num by linarith
    then obtain v where "ws = [v]" by (auto simp: length_Suc_conv)
    then have one: "length ws = 1" "fm_match fm = w" using inv w(1) len by (auto simp: fm_inv_def)
    have "remembers (mark_dir te dir w) w" using mark_dir_cases[of te dir w] by (simp add: remembers_def)
    then have "fm_inv (fm1\<lparr>fm_print := True, fm_match := mark_dir te dir (fm_match fm), fm_total := t3\<rparr>) (ws @ [k])"
      using one w(1) lw le by (auto simp: fm_inv_def fm1_def)
    then show ?thesis using step False r3(2) by auto
  next
    case True
    have "remembers (mark_dir te dir k) k" using mark_dir_cases[of te dir k] by (simp add: remembers_def)
    then have "fm_inv (fm1\<lparr>fm_match := mark_dir te dir k, fm_total := t2\<rparr>) (ws @ [k])"
      using True inv lk le by (auto simp: fm_inv_def fm1_def)
    then show ?thesis using step True r2(2) by auto
  qed
qed

lemma fm_fold:
  assumes "is_cstr f" "\<forall>k \<in> set xs. is_cstr k \<and> SLASH \<notin> set k" "fm_inv fm ws"
  shows "\<exists>fm' st'. fold (fm_step te dir f) xs (fm, st) = (fm', st') \<and>
     fm_inv fm' (ws @ filter (prefix f) xs) \<and> only_tty st st'"
  using assms(2,3)
proof (induction xs arbitrary: fm st ws)
  case (Cons x xs)
  show ?case
  proof (cases "prefix f x")
    case True
    obtain fm1 st1 where 1: "fm_step te dir f x (fm, st) = (fm1, st1)" "fm_inv fm1 (ws @ [x])" "only_tty st st1"
      using fm_step_take[OF True assms(1) _ _ Cons.prems(2), of te dir st] Cons.prems(1) by auto
    from Cons.IH[OF _ 1(2), of st1] Cons.prems(1) 1 True show ?thesis by (auto intro: only_tty_trans)
  next
    case False
    then have "fm_step te dir f x (fm, st) = (fm, st)"
      using strncmp_prefix[OF assms(1), of x] Cons.prems(1) by (auto simp: fm_step_def)
    then show ?thesis using Cons.IH[OF _ Cons.prems(2), of st] Cons.prems(1) False by simp
  qed
qed (auto intro: only_tty_refl)

section \<open>Completing a name\<close>

text \<open>The directory that is read: the home directory for a tilde.\<close>

definition real_dir :: "tab_env \<Rightarrow> cstring \<Rightarrow> cstring" where
  "real_dir te dir =
     (if lib_index dir CHR ''~'' = Some 0 then
        (case te_home te of None \<Rightarrow> dir | Some home \<Rightarrow> fst (lib_strlcat home (tl dir) MAX_FILENAME_LENGTH))
      else dir)"

text \<open>What is appended to the line: the rest of the only entry with its mark, or of the common prefix.\<close>

definition file_rest :: "tab_env \<Rightarrow> cstring \<Rightarrow> cstring \<Rightarrow> cstring list \<Rightarrow> cstring \<Rightarrow> bool" where
  "file_rest te dir f ws s \<longleftrightarrow>
     (case ws of
        [] \<Rightarrow> s = []
      | [k] \<Rightarrow> s = drop (length f) (mark_dir te dir k)
      | _ \<Rightarrow> (\<exists>p. is_lcp p (set ws) \<and> s = drop (length f) p))"

lemma entry_ok_drop: "entry_ok s \<Longrightarrow> entry_ok (drop i s)" "entry_ok s \<Longrightarrow> entry_ok (take i s)"
  by (metis append_take_drop_id entry_ok_simps(3))+

lemma at_end_put [simp]: "at_end (tty_put e st) = at_end st"
  by (simp add: tty_put_def)

lemma view_put [simp]: "view (tty_put e st) = view st"
  by (simp add: tty_put_def)

lemma text_put [simp]: "edit_text (tty_put e st) = edit_text st"
  by (simp add: tty_put_def)

lemma FileMatch_one:
  assumes st1: "at_end st1" and s: "entry_ok s" and fit: "length (edit_text st1) + length s < LW_CFG_SHELL_MAX_COMMANDLEN"
  shows "\<exists>st'. bind_res (buf_strlcat s (tty_put (Tty_Write s) st1)) (\<lambda>st. let st = st\<lparr>SIC_uiTotalLen := SIC_uiTotalLen st + lib_strlen s\<rparr>
        in Inr (st\<lparr>SIC_uiCursor := SIC_uiTotalLen st\<rparr>)) = Inr st' \<and> at_end st' \<and>
     historyTrieRoot st' = historyTrieRoot st1 \<and> edit_text st' = edit_text st1 @ s \<and> lv_pending (view st') = lv_pending (view st1)"
proof -
  obtain st3 where st3: "buf_strlcat s (tty_put (Tty_Write s) st1) = Inr st3" and
    "let st4 = st3\<lparr>SIC_uiTotalLen := SIC_uiTotalLen st3 + length s, SIC_uiCursor := SIC_uiTotalLen st3 + length s\<rparr>
     in at_end st4 \<and> edit_text st4 = edit_text st1 @ s \<and> historyTrieRoot st4 = historyTrieRoot st1 \<and>
        lv_pending (view st4) = lv_pending (view st1) \<and> lastMatch st4 = lastMatch st1"
    using append_fits[of "tty_put (Tty_Write s) st1" s] st1 s fit by auto
  then show ?thesis by (simp add: Let_def)
qed

lemma FileMatch_many:
  assumes st1: "at_end st1" and s: "entry_ok s" and fit: "length (edit_text st1) + length s < LW_CFG_SHELL_MAX_COMMANDLEN"
    and none: "\<not> f < n \<Longrightarrow> s = []"
  shows "\<exists>st'. bind_res (if f < n then bind_res (buf_strlcat s st1) (\<lambda>st. bind_res (buf_str st) (\<lambda>s.
        Inr (st\<lparr>SIC_uiTotalLen := lib_strlen s, SIC_uiCursor := lib_strlen s\<rparr>))) else Inr st1)
      (\<lambda>st. tty_write_buf 0 (SIC_uiTotalLen st) st) = Inr st' \<and> at_end st' \<and>
     historyTrieRoot st' = historyTrieRoot st1 \<and> edit_text st' = edit_text st1 @ s \<and> lv_pending (view st') = lv_pending (view st1)"
proof -
  have "\<exists>st2. (if f < n then bind_res (buf_strlcat s st1) (\<lambda>st. bind_res (buf_str st) (\<lambda>s.
        Inr (st\<lparr>SIC_uiTotalLen := lib_strlen s, SIC_uiCursor := lib_strlen s\<rparr>))) else Inr st1) = Inr st2 \<and> at_end st2 \<and>
     historyTrieRoot st2 = historyTrieRoot st1 \<and> edit_text st2 = edit_text st1 @ s \<and> lv_pending (view st2) = lv_pending (view st1)"
  proof (cases "f < n")
    case True
    obtain st3 where st3: "buf_strlcat s st1 = Inr st3" and
      l: "let st4 = st3\<lparr>SIC_uiTotalLen := SIC_uiTotalLen st3 + length s, SIC_uiCursor := SIC_uiTotalLen st3 + length s\<rparr>
       in at_end st4 \<and> edit_text st4 = edit_text st1 @ s \<and> historyTrieRoot st4 = historyTrieRoot st1 \<and>
        lv_pending (view st4) = lv_pending (view st1) \<and> lastMatch st4 = lastMatch st1"
      using append_fits[OF st1 s fit] by blast
    define st4 where "st4 = st3\<lparr>SIC_uiTotalLen := SIC_uiTotalLen st3 + length s, SIC_uiCursor := SIC_uiTotalLen st3 + length s\<rparr>"
    have a4: "at_end st4" "edit_text st4 = edit_text st1 @ s" "historyTrieRoot st4 = historyTrieRoot st1"
      "lv_pending (view st4) = lv_pending (view st1)" using l by (simp_all add: Let_def st4_def)
    have "buf_str st3 = buf_str st4" by (simp add: buf_str_def st4_def)
    then have str: "buf_str st3 = Inr (edit_text st4)" using at_end_str[OF a4(1)] by simp
    have "st3\<lparr>SIC_uiTotalLen := length (edit_text st4), SIC_uiCursor := length (edit_text st4)\<rparr> = st4"
      using edit_text_length[OF at_end_ok[OF a4(1)]] by (simp add: st4_def)
    then show ?thesis using True st3 str a4 by simp
  next
    case False
    then show ?thesis using st1 none by simp
  qed
  then obtain st2 where st2: "(if f < n then bind_res (buf_strlcat s st1) (\<lambda>st. bind_res (buf_str st) (\<lambda>s.
        Inr (st\<lparr>SIC_uiTotalLen := lib_strlen s, SIC_uiCursor := lib_strlen s\<rparr>))) else Inr st1) = Inr st2"
     and a2: "at_end st2" "historyTrieRoot st2 = historyTrieRoot st1" "edit_text st2 = edit_text st1 @ s"
      "lv_pending (view st2) = lv_pending (view st1)" by blast
  have "tty_write_buf 0 (SIC_uiTotalLen st2) st2 = Inr (tty_put (Tty_Write (edit_text st2)) st2)"
    using a2(1) by (simp add: tty_write_buf_eq at_end_def edit_ok_def edit_text_def)
  then show ?thesis using st2 a2 by simp
qed

text \<open>The result in terms of the scan of the names.\<close>

definition file_result :: "tab_env \<Rightarrow> cstring \<Rightarrow> cstring \<Rightarrow> fm_scan \<Rightarrow> edit_state \<Rightarrow> edit_result" where
  "file_result te d f fm st1 =
     (if fm_num fm > 1 then
        (let st = tty_put Tty_Prompt (if fm_total fm \<noteq> 0 then tty_put (Tty_Print [LF]) st1 else st1) in
         bind_res (if length f < fm_min fm then bind_res (buf_strlcat (drop (length f) (take (fm_min fm) (fm_match fm))) st)
             (\<lambda>st. bind_res (buf_str st) (\<lambda>s. Inr (st\<lparr>SIC_uiTotalLen := lib_strlen s, SIC_uiCursor := lib_strlen s\<rparr>))) else Inr st)
           (\<lambda>st. tty_write_buf 0 (SIC_uiTotalLen st) st))
      else if fm_num fm = 1 then
        (let cat = drop (length f) (mark_dir te d (fm_match fm)) in
         bind_res (buf_strlcat cat (tty_put (Tty_Write cat) st1)) (\<lambda>st.
           let st = st\<lparr>SIC_uiTotalLen := SIC_uiTotalLen st + lib_strlen cat\<rparr> in Inr (st\<lparr>SIC_uiCursor := SIC_uiTotalLen st\<rparr>)))
      else Inr st1)"

lemma FileMatch_scan:
  assumes dir: "real_dir te dir \<noteq> []" "te_dir te (real_dir te dir) = Some names"
    and names: "\<forall>k \<in> set names. entry_ok k \<and> SLASH \<notin> set k" and f: "is_cstr f"
  obtains fm st1 where "fm_inv fm (filter (prefix f) names)" "only_tty st st1"
    "tshellFileMatch te dir f st = file_result te (real_dir te dir) f fm st1"
proof -
  let ?d = "real_dir te dir" and ?ws = "filter (prefix f) names"
  obtain fm st1 where fold: "fold (fm_step te ?d f) names (fm_init, st) = (fm, st1)"
    and inv: "fm_inv fm ?ws" "only_tty st st1"
    using fm_fold[OF f, of names fm_init "[]" te ?d st] names by (auto simp: fm_inv_def fm_init_def entry_ok_def)
  have "tshellFileMatch te dir f st = file_result te ?d f fm st1"
    using dir fold by (simp add: tshellFileMatch_def file_result_def real_dir_def[symmetric] Let_def)
  then show ?thesis using inv that by blast
qed

lemma FileMatch_completes:
  assumes st: "at_end st" and dir: "real_dir te dir \<noteq> []" "te_dir te (real_dir te dir) = Some names"
    and names: "\<forall>k \<in> set names. entry_ok k \<and> SLASH \<notin> set k" and f: "is_cstr f"
    and fit: "\<forall>k \<in> set names. prefix f k \<longrightarrow> length (edit_text st) + length k + 1 < LW_CFG_SHELL_MAX_COMMANDLEN"
  shows "\<exists>st' s. tshellFileMatch te dir f st = Inr st' \<and> at_end st' \<and> historyTrieRoot st' = historyTrieRoot st \<and>
    file_rest te (real_dir te dir) f (filter (prefix f) names) s \<and> edit_text st' = edit_text st @ s \<and>
    lv_pending (view st') = lv_pending (view st)"
proof -
  let ?d = "real_dir te dir" and ?ws = "filter (prefix f) names"
  obtain fm st1 where inv: "fm_inv fm ?ws" and o: "only_tty st st1" and FM0: "tshellFileMatch te dir f st = file_result te ?d f fm st1"
    using FileMatch_scan[OF dir names f] by blast
  have st1: "at_end st1" "view st1 = view st" "historyTrieRoot st1 = historyTrieRoot st" "edit_text st1 = edit_text st"
    using only_tty_at_end[OF o st] by simp_all
  note FM = FM0[unfolded file_result_def]
  consider "?ws = []" | k where "?ws = [k]" | "2 \<le> length ?ws"
    by (cases ?ws; cases "tl ?ws") (auto simp: Suc_le_eq)
  then show ?thesis
  proof cases
    case 1
    then have "tshellFileMatch te dir f st = Inr st1" using inv by (simp add: FM fm_inv_def)
    then show ?thesis using st1 1 by (auto simp: file_rest_def)
  next
    case 2
    then have k: "k \<in> set names" "prefix f k" "fm_num fm = 1" "fm_match fm = k"
      using inv by (auto simp: fm_inv_def filter_eq_Cons_iff)
    let ?s = "drop (length f) (mark_dir te ?d k)"
    have s: "entry_ok ?s" "length (edit_text st1) + length ?s < LW_CFG_SHELL_MAX_COMMANDLEN"
      using mark_dir_cases[of te ?d k] names fit k st1(4)
      by (auto intro!: entry_ok_drop)
    from FileMatch_one[OF st1(1) s] k FM 2 st1 show ?thesis
      by (auto simp: file_rest_def Let_def)
  next
    case 3
    then have ne: "?ws \<noteq> []" by auto
    obtain w where w: "w \<in> set ?ws" "remembers (fm_match fm) w" "fm_min fm \<le> length w"
      "is_lcp (take (fm_min fm) w) (set ?ws)" using inv ne unfolding fm_inv_def by blast
    let ?p = "take (fm_min fm) w"
    have tk: "take (fm_min fm) (fm_match fm) = ?p" using w(2,3) by (auto simp: remembers_def)
    let ?s = "drop (length f) ?p"
    have "entry_ok w" "length (edit_text st1) + length w < LW_CFG_SHELL_MAX_COMMANDLEN" using w(1) names fit st1(4) by auto
    then have s: "entry_ok ?s" "length (edit_text st1) + length ?s < LW_CFG_SHELL_MAX_COMMANDLEN"
      by (auto intro!: entry_ok_drop)
    let ?st2 = "tty_put Tty_Prompt (if fm_total fm \<noteq> 0 then tty_put (Tty_Print [LF]) st1 else st1)"
    have st2: "at_end ?st2" "edit_text ?st2 = edit_text st" "view ?st2 = view st" "historyTrieRoot ?st2 = historyTrieRoot st"
      using st1 by auto
    have c: "file_rest te ?d f ?ws ?s"
      using 3 w(4) by (cases ?ws; cases "tl ?ws") (auto simp: file_rest_def)
    have many: "1 < fm_num fm" using inv 3 by (simp add: fm_inv_def)
    have none: "\<not> length f < fm_min fm \<Longrightarrow> ?s = []" by simp
    obtain st' where st': "bind_res (if length f < fm_min fm then bind_res (buf_strlcat ?s ?st2) (\<lambda>st. bind_res (buf_str st) (\<lambda>s.
        Inr (st\<lparr>SIC_uiTotalLen := lib_strlen s, SIC_uiCursor := lib_strlen s\<rparr>))) else Inr ?st2)
        (\<lambda>st. tty_write_buf 0 (SIC_uiTotalLen st) st) = Inr st'" "at_end st'"
      "historyTrieRoot st' = historyTrieRoot st" "edit_text st' = edit_text st @ ?s" "lv_pending (view st') = lv_pending (view st)"
      using FileMatch_many[OF st2(1) s(1) _ none] s(2) st1(4) st2 by auto
    have "tshellFileMatch te dir f st = Inr st'"
      unfolding FM Let_def tk if_P[OF many] by (rule st'(1))
    then show ?thesis using st' c by blast
  qed
qed

section \<open>The tab key on an argument\<close>

text \<open>The directory and the name that an argument is split into, at its last slash.\<close>

definition tab_dir :: "cstring \<Rightarrow> cstring" where
  "tab_dir w = (case lib_rindex w SLASH of None \<Rightarrow> ''.'' | Some k \<Rightarrow> if k = 0 then [SLASH] else take k w)"

definition tab_name :: "cstring \<Rightarrow> cstring" where
  "tab_name w = (case lib_rindex w SLASH of None \<Rightarrow> w | Some k \<Rightarrow> drop (Suc k) w)"

lemma tab_file_split: "tab_file te w st = tshellFileMatch te (tab_dir w) (tab_name w) st"
proof (cases "w = []")
  case True
  then show ?thesis by (simp add: tab_file_def tab_dir_def tab_name_def lib_rindex_def)
next
  case False
  then show ?thesis by (auto simp: tab_file_def tab_dir_def tab_name_def split: option.split)
qed

text \<open>A word that may be empty, as the last one on a line.\<close>

definition bare_word :: "cstring \<Rightarrow> bool" where
  "bare_word w \<longleftrightarrow> set w \<inter> (white \<union> {DOLLAR, QUOTE, BSLASH, RBRACE}) = {}"

lemma format_two:
  "set w \<inter> {QUOTE, BSLASH, BLANK} = {} \<Longrightarrow> set v \<inter> {QUOTE, BSLASH, BLANK} = {} \<Longrightarrow>
   w \<noteq> [] \<or> \<not> sp \<Longrightarrow> format_loop False False sp (w @ BLANK # v) = w @ BLANK # v"
proof (induction w arbitrary: sp)
  case Nil
  then show ?case using format_bare[of v True] by (simp add: quote_now_def trans_now_def trans_next_def)
next
  case (Cons c w)
  then show ?case using Cons.IH[of False] by (auto simp: quote_now_def trans_now_def trans_next_def)
qed

lemma token_two:
  "set w \<inter> {QUOTE, BSLASH, BLANK} = {} \<Longrightarrow> token_loop False False (w @ BLANK # v) = (w, BLANK # v)"
  by (induction w) (auto simp: quote_now_def trans_now_def trans_next_def)

lemma params_two:
  assumes "word_ok w" "bare_word v"
  shows "parse_params LW_CFG_SHELL_MAX_PARAMNUM (tshellStrFormat (w @ BLANK # v)) = [w, v]"
proof -
  have w: "set w \<inter> {QUOTE, BSLASH, BLANK} = {}" and v: "set v \<inter> {QUOTE, BSLASH, BLANK} = {}"
    using assms by (auto simp: word_ok_def bare_word_def white_def)
  then show ?thesis
    using format_two[OF w v, of False] token_two[OF w, of v] token_word[OF v] del_trans_word[of w] del_trans_word[of v]
    by (auto simp: LW_CFG_SHELL_MAX_PARAMNUM_def tshellStrFormat_def tshellStrGetToken_def tshellStrDelTransChar_def
        numeral_eq_Suc)
qed

lemma CharTab_call:
  assumes ok: "edit_ok st" and e: "entry_ok (edit_text st)" and len: "length (edit_text st) < LW_CFG_SHELL_MAX_COMMANDLEN"
    and tx: "edit_text st = pre @ w @ BLANK # v" "set pre \<subseteq> white" "word_ok w" "bare_word v"
  obtains st2 where "at_end st2" "edit_text st2 = edit_text st" "historyTrieRoot st2 = historyTrieRoot st"
    "lv_pending (view st2) = lv_pending (view st)"
    "tshellCharTab te st = bind_res (tshellFileMatch te (tab_dir v) (tab_name v) st2) tshellPrintHistorySuggestion"
proof -
  let ?w = "w @ BLANK # v"
  obtain st1 where st1: "tab_start st = Inr st1" "at_end st1" "edit_text st1 = edit_text st"
    "historyTrieRoot st1 = historyTrieRoot st" "lv_pending (view st1) = lv_pending (view st)"
    using tab_start_ok[OF ok e] by metis
  have "w \<noteq> []" "set w \<inter> white = {}" using tx(3) by (auto simp: word_ok_def)
  then have hd: "hd w \<notin> white" using hd_in_set by blast
  have w: "skip_white (edit_text st) = ?w"
    unfolding tx(1) by (rule skip_white_word[OF tx(2)]) (use hd \<open>w \<noteq> []\<close> in auto)
  have lw: "length ?w < LW_CFG_SHELL_MAX_COMMANDLEN" "?w \<noteq> []" "hd ?w \<noteq> CHR ''#''"
      "\<not> LW_CFG_SHELL_MAX_COMMANDLEN - Suc 0 < length ?w"
    using len tx by (auto simp: word_ok_def)
  have cv: "tshellStrConvertVar (te_error te) (te_vars te) ?w = Inr (ERROR_NONE, ?w)"
    by (rule convert_word) (use tx(3,4) lw in \<open>auto simp: word_ok_def bare_word_def lit_ok_def\<close>)
  obtain es where cl: "tshellClearHistorySuggestion st1 = Inr (st1\<lparr>ed_tty := ed_tty st1 @ es\<rparr>)"
    using ClearHistorySuggestion_eq[OF at_end_ok[OF st1(2)]] by metis
  let ?st2 = "st1\<lparr>ed_tty := ed_tty st1 @ es\<rparr>"
  have st2: "at_end ?st2" "edit_text ?st2 = edit_text st" "view ?st2 = view st1" using st1 by simp_all
  have "tshellCharTab te st = bind_res (tshellFileMatch te (tab_dir v) (tab_name v) ?st2) tshellPrintHistorySuggestion"
    using st1(1) at_end_str[OF st1(2)] st1(3) w lw cv params_two[OF tx(3,4)] cl
    by (simp add: CharTab_start tab_file_split)
  then show ?thesis using that[OF st2(1,2)] st1(4,5) st2(3) by simp
qed

lemma tab_name_cstr:
  assumes "entry_ok t" "t = pre @ w @ BLANK # v"
  shows "is_cstr (tab_name v)"
proof -
  have "EOS \<notin> set v" using assms by (simp add: entry_ok_def is_cstr_def)
  then show ?thesis by (auto simp: tab_name_def is_cstr_def dest: in_set_dropD split: option.split)
qed

lemma CharTab_file:
  assumes ok: "edit_ok st" and e: "entry_ok (edit_text st)" and len: "length (edit_text st) < LW_CFG_SHELL_MAX_COMMANDLEN"
    and tx: "edit_text st = pre @ w @ BLANK # v" "set pre \<subseteq> white" "word_ok w" "bare_word v"
    and dir: "real_dir te (tab_dir v) \<noteq> []" "te_dir te (real_dir te (tab_dir v)) = Some names"
    and names: "\<forall>k \<in> set names. entry_ok k \<and> SLASH \<notin> set k"
    and fit: "\<forall>k \<in> set names. prefix (tab_name v) k \<longrightarrow> length (edit_text st) + length k + 1 < LW_CFG_SHELL_MAX_COMMANDLEN"
  shows "\<exists>st' s. tshellCharTab te st = Inr st' \<and> edit_ok st' \<and> historyTrieRoot st' = historyTrieRoot st \<and>
    file_rest te (real_dir te (tab_dir v)) (tab_name v) (filter (prefix (tab_name v)) names) s \<and>
    view st' = ask (historyTrieRoot st) (Line (edit_text st @ s) [] (lv_pending (view st)))"
proof -
  obtain st2 where st2: "at_end st2" "edit_text st2 = edit_text st" "historyTrieRoot st2 = historyTrieRoot st"
      "lv_pending (view st2) = lv_pending (view st)"
    and tab: "tshellCharTab te st = bind_res (tshellFileMatch te (tab_dir v) (tab_name v) st2) tshellPrintHistorySuggestion"
    using CharTab_call[OF ok e len tx] by blast
  obtain st3 s where st3: "tshellFileMatch te (tab_dir v) (tab_name v) st2 = Inr st3" "at_end st3"
      "historyTrieRoot st3 = historyTrieRoot st" "edit_text st3 = edit_text st @ s" "lv_pending (view st3) = lv_pending (view st)"
    and s: "file_rest te (real_dir te (tab_dir v)) (tab_name v) (filter (prefix (tab_name v)) names) s"
    using FileMatch_completes[OF st2(1) dir names tab_name_cstr[OF e tx(1)]] fit st2 by auto
  show ?thesis
    using tab PrintHistorySuggestion_refines[OF at_end_ok[OF st3(2)]] st3 s at_end_view[OF st3(2)] by auto
qed

end
