(* ===== verification/Session.thy ===== *)
theory Session
  imports Readline TrieUse ShellExec
begin

text \<open>
  The life of the line editor and the loop of the shell thread: the rest of
  \<open>ttinyShell/ttinyShellReadline.c\<close> (its start, its end and the work around a command), the commands
  \<open>clearhistory\<close> and \<open>loadhistory\<close> of \<open>ttinyShellSysCmd.c\<close>, and the body of the endless loop of
  \<open>__tshellThread\<close> in \<open>ttinyShellLib.c\<close>, from reading a line to the return value of its command.

  The globals of the editor are shared by all shell threads: \<open>ss_edit\<close>, \<open>ss_bufs\<close> (the two buffers of
  blanks and backspaces are allocated), \<open>_K_plineShellHisc\<close>.  What belongs to a thread is indexed by
  its identifier.  \<open>ss_file\<close> is the history file of the user, \<open>None\<close> if it does not exist, and
  \<open>ss_writable\<close> says whether \<open>fopen\<close> can open it for writing.  \<open>junk\<close> is the byte that the field
  \<open>mostFrequentlyUsedChar\<close> of a node holds before it is set.
\<close>

section \<open>State\<close>

datatype session_fault = Edit_Fault edit_fault | Exec_Fault exec_fault | Recv_Bounds

record 'w session =
  ss_edit :: edit_state
  ss_bufs :: bool
  ss_his :: "nat \<Rightarrow> addr option"
  ss_ctxs :: "addr \<Rightarrow> history_ctx option"
  ss_lines :: line_store
  ss_hisc :: "addr option"
  ss_file :: "c_char list option"
  ss_mode :: nat
  ss_writable :: bool
  ss_shell :: "'w shell"

definition on_edit :: "(edit_state \<Rightarrow> edit_result) \<Rightarrow> 'w session \<Rightarrow> edit_fault + 'w session" where
  "on_edit f s = bind_res (f (ss_edit s)) (\<lambda>st. Inr (s\<lparr>ss_edit := st\<rparr>))"

section \<open>The history trie\<close>

definition tshellInitHistoryTrie :: "'w session \<Rightarrow> edit_fault + 'w session" where
  "tshellInitHistoryTrie s =
     (if historyTrieRoot (ss_edit s) \<noteq> None then Inr s
      else
        bind_res
          (case ss_file s of
             None \<Rightarrow> Inr trieGetRoot
           | Some bytes \<Rightarrow>
               (case trieFromFile bytes of Inl f \<Rightarrow> Inl (Trie_Fault f) | Inr (e, t) \<Rightarrow> Inr t))
          (\<lambda>t. Inr (s\<lparr>ss_edit := (ss_edit s)
             \<lparr>historyTrieRoot := Some t, lastMatchLength := 0, lastMatch := Match_Null\<rparr>\<rparr>)))"

definition tshellBackupHistoryTrie :: "(trie \<Rightarrow> c_char) \<Rightarrow> 'w session \<Rightarrow> edit_fault + 'w session" where
  "tshellBackupHistoryTrie junk s =
     (case historyTrieRoot (ss_edit s) of
        None \<Rightarrow> Inl Null_Trie
      | Some t \<Rightarrow>
          (let s = (if ss_writable s then s\<lparr>ss_file := Some (trieToFile junk t)\<rparr> else s);
               s = s\<lparr>ss_mode := 600\<rparr>
           in Inr (s\<lparr>ss_edit := (ss_edit s)\<lparr>historyTrieRoot := None\<rparr>\<rparr>)))"

section \<open>End and start of the line editor\<close>

text \<open>The loop that frees the entries of a history; freeing an address twice does not return.\<close>

partial_function (option) history_free :: "history_ctx \<Rightarrow> history_ctx option" where
  "history_free h =
     (case SIHC_pringHeader h of
        None \<Rightarrow> Some h
      | Some a \<Rightarrow>
          (case List_Ring_Del a (SIHC_ring h, SIHC_pringHeader h) of
             None \<Rightarrow> None
           | Some (R, hdr) \<Rightarrow>
               if SIH_cInputSave h a = None then None
               else history_free (h\<lparr>SIHC_ring := R, SIHC_pringHeader := hdr,
                      SIH_cInputSave := (SIH_cInputSave h)(a := None)\<rparr>)))"

definition tshellReadlineClean ::
    "(trie \<Rightarrow> c_char) \<Rightarrow> nat \<Rightarrow> 'w session \<Rightarrow> edit_fault + 'w session" where
  "tshellReadlineClean junk ulId s =
     (case ss_his s ulId of
        None \<Rightarrow> Inr s
      | Some psihc \<Rightarrow>
          (case ss_ctxs s psihc of
             None \<Rightarrow> Inl Use_After_Free
           | Some h \<Rightarrow>
               bind_res
                 (if SIHC_bNeedBackup h then
                    (let (S, hdr) = List_Line_Add_Ahead psihc (ss_lines s, ss_hisc s) in
                     Inr (s\<lparr>ss_lines := S, ss_hisc := hdr,
                            ss_ctxs := (ss_ctxs s)(psihc := Some (h\<lparr>SIHC_bNeedBackup := False\<rparr>)),
                            ss_his := (ss_his s)(ulId := None)\<rparr>))
                  else
                    (case history_free h of
                       None \<Rightarrow> Inl Listing_Endless
                     | Some h' \<Rightarrow>
                         Inr (s\<lparr>ss_ctxs := (ss_ctxs s)(psihc := None), ss_his := (ss_his s)(ulId := None)\<rparr>)))
                 (\<lambda>s. if \<not> ss_bufs s then Inl Double_Free
                      else tshellBackupHistoryTrie junk (s\<lparr>ss_bufs := False\<rparr>))))"

text \<open>A context filled with zero bytes.\<close>

definition history_zero :: history_ctx where
  "history_zero = \<lparr>SIHC_ring = \<lparr>LINE_plistNext = (\<lambda>_. None), LINE_plistPrev = (\<lambda>_. None)\<rparr>,
     SIHC_pringHeader = None, SIHC_uiCounter = 0, SIHC_bNeedBackup = False, SIHC_ulId = 0,
     SIH_cInputSave = (\<lambda>_. None)\<rparr>"

definition history_of :: "'w session \<Rightarrow> nat \<Rightarrow> addr \<Rightarrow> bool" where
  "history_of s ulId a = (case ss_ctxs s a of None \<Rightarrow> False | Some h \<Rightarrow> SIHC_ulId h = ulId)"

definition attach_history ::
    "addr option \<Rightarrow> nat \<Rightarrow> 'w session \<Rightarrow> edit_fault + int \<times> 'w session" where
  "attach_history alloc ulId s =
     (case line_find (history_of s ulId) (ss_lines s) (ss_hisc s) of
        None \<Rightarrow> Inl Listing_Endless
      | Some (Some a) \<Rightarrow>
          (let (S, hdr) = List_Line_Del a (ss_lines s, ss_hisc s) in
           Inr (0, s\<lparr>ss_lines := S, ss_hisc := hdr,
             ss_ctxs := (ss_ctxs s)(a := map_option (\<lambda>h. h\<lparr>SIHC_bNeedBackup := False\<rparr>) (ss_ctxs s a)),
             ss_his := (ss_his s)(ulId := Some a)\<rparr>))
      | Some None \<Rightarrow>
          (case alloc of
             None \<Rightarrow> Inr (-1, s)
           | Some a \<Rightarrow>
               Inr (0, s\<lparr>ss_ctxs := (ss_ctxs s)(a := Some (history_zero\<lparr>SIHC_ulId := ulId\<rparr>)),
                 ss_his := (ss_his s)(ulId := Some a)\<rparr>)))"

definition tshellReadlineInit ::
    "addr option \<Rightarrow> nat \<Rightarrow> 'w session \<Rightarrow> edit_fault + int \<times> 'w session" where
  "tshellReadlineInit alloc ulId s =
     bind_res
       (if ss_his s ulId = None
        then bind_res (attach_history alloc ulId s) (\<lambda>(e, s).
               Inr (e, if e < 0 then s else s\<lparr>ss_bufs := True\<rparr>))
        else Inr (0, s))
       (\<lambda>(e, s). if e < 0 then Inr (e, s)
                 else bind_res (tshellInitHistoryTrie s) (\<lambda>s. Inr (0, s)))"

definition tshellHistoryBackup :: "nat \<Rightarrow> 'w session \<Rightarrow> 'w session" where
  "tshellHistoryBackup ulId s =
     (case ss_his s ulId of
        None \<Rightarrow> s
      | Some a \<Rightarrow>
          s\<lparr>ss_ctxs := (ss_ctxs s)(a := map_option (\<lambda>h. h\<lparr>SIHC_bNeedBackup := True\<rparr>) (ss_ctxs s a))\<rparr>)"

section \<open>Around a command\<close>

definition tshellBeforeExecution :: "edit_state \<Rightarrow> edit_result" where
  "tshellBeforeExecution st =
     bind_res
       (if lastMatch st \<noteq> Match_Null then
          bind_res (tshellClearHistorySuggestion st) (\<lambda>st.
            if lastMatch st = Match_Freed then Inl Double_Free
            else Inr (st\<lparr>lastMatch := Match_Null\<rparr>))
        else Inr st)
       (\<lambda>st. Inr (st\<lparr>lastMatchLength := 0\<rparr>))"

text \<open>\<open>buf\<close> is the buffer of the caller, of which \<open>stSize\<close> characters are recorded.\<close>

definition tshellAfterExecution :: "c_char list \<Rightarrow> nat \<Rightarrow> int \<Rightarrow> edit_state \<Rightarrow> edit_result" where
  "tshellAfterExecution buf stSize returnValue st =
     (if returnValue = 0 then
        (case historyTrieRoot st of
           None \<Rightarrow> Inl Null_Trie
         | Some t \<Rightarrow>
             if stSize > length buf then Inl Buffer_Bounds
             else
               (case trieInsert t (take stSize buf) of
                  Inl f \<Rightarrow> Inl (Trie_Fault f)
                | Inr t \<Rightarrow> Inr (st\<lparr>historyTrieRoot := Some t\<rparr>)))
      else Inr st)"

text \<open>\<open>__SHEAP_FREE(_lastMatch)\<close> without setting the pointer, and \<open>_lastMatchLength = 0\<close>.\<close>

definition free_last_match :: "edit_state \<Rightarrow> edit_result" where
  "free_last_match st =
     (case lastMatch st of
        Match_Null \<Rightarrow> Inr (st\<lparr>lastMatchLength := 0\<rparr>)
      | Match_Live m \<Rightarrow> Inr (st\<lparr>lastMatch := Match_Freed, lastMatchLength := 0\<rparr>)
      | Match_Freed \<Rightarrow> Inl Double_Free)"

definition tshellRefreshHistoryTrie :: "'w session \<Rightarrow> edit_fault + 'w session" where
  "tshellRefreshHistoryTrie s =
     (let s = s\<lparr>ss_file := None\<rparr> in
      if historyTrieRoot (ss_edit s) = None then Inl Null_Trie
      else on_edit (\<lambda>st. free_last_match (st\<lparr>historyTrieRoot := Some trieGetRoot\<rparr>)) s)"

definition thsellLoadHistoryTrie :: "c_char list \<Rightarrow> edit_state \<Rightarrow> edit_result" where
  "thsellLoadHistoryTrie bytes st =
     (if historyTrieRoot st = None then Inl Null_Trie
      else bind_res (free_last_match st) (\<lambda>st.
        case trieFromFile bytes of
          Inl f \<Rightarrow> Inl (Trie_Fault f)
        | Inr (e, t) \<Rightarrow> Inr (st\<lparr>historyTrieRoot := Some t\<rparr>)))"

text \<open>The two commands; \<open>fopen\<close> gives the contents of a file.\<close>

definition tshellFsCmdClearhistory :: "'w session \<Rightarrow> edit_fault + int \<times> 'w session" where
  "tshellFsCmdClearhistory s =
     bind_res (tshellRefreshHistoryTrie s) (\<lambda>s.
     bind_res (on_edit (\<lambda>st. Inr (tty_put (Tty_Print (''clear history successfully!'' @ [LF])) st)) s)
       (\<lambda>s. Inr (0, s)))"

definition tshellFsCmdLoadhistory ::
    "(cstring \<Rightarrow> c_char list option) \<Rightarrow> cstring list \<Rightarrow> 'w session \<Rightarrow> edit_fault + int \<times> 'w session" where
  "tshellFsCmdLoadhistory fopen argv s =
     (if length argv = 1 then
        bind_res (on_edit (\<lambda>st. Inr (tty_put (Tty_Print (''you should input the file name.'' @ [LF])) st)) s)
          (\<lambda>s. Inr (0, s))
      else
        (case fopen (argv ! 1) of
           Some bytes \<Rightarrow>
             bind_res (on_edit (\<lambda>st. bind_res (thsellLoadHistoryTrie bytes st) (\<lambda>st.
               Inr (tty_put (Tty_Print (''load history file successfully!'' @ [LF])) st))) s)
               (\<lambda>s. Inr (0, s))
         | None \<Rightarrow>
             bind_res (on_edit (\<lambda>st. Inr (tty_put (Tty_Print (''cannot open file!.'' @ [LF])) st)) s)
               (\<lambda>s. Inr (0, s))))"

section \<open>The loop of the shell thread\<close>

text \<open>The variables of \<open>__tshellThread\<close> that live across the iterations.\<close>

record recv_state =
  rv_buffer :: "c_char list"
  rv_total :: nat
  rv_over :: bool

text \<open>
  What one iteration reads: \<open>__tshellReadline\<close> with its initialisation.  A buffer \<open>i\<close> characters into
  \<open>cRecvBuffer\<close> is filled; without memory for a history the editor returns 0 and leaves it alone.
\<close>

definition session_tab :: "tab_env \<Rightarrow> 'w shell \<Rightarrow> tab_env" where
  "session_tab te sh = te\<lparr>te_keys := sh_keys sh, te_vars := sh_vars sh, te_error := sh_error sh\<rparr>"

definition recv_put :: "nat \<Rightarrow> cstring \<Rightarrow> recv_state \<Rightarrow> edit_fault + recv_state" where
  "recv_put i str rv =
     (if i + length str < length (rv_buffer rv)
      then Inr (rv\<lparr>rv_buffer := take i (rv_buffer rv) @ str @ EOS # drop (i + Suc (length str)) (rv_buffer rv)\<rparr>)
      else Inl Buffer_Bounds)"

definition session_readline ::
    "tab_env \<Rightarrow> addr option \<Rightarrow> addr option \<Rightarrow> nat \<Rightarrow> 'w session \<Rightarrow> recv_state \<Rightarrow> c_char list \<Rightarrow>
     edit_fault + nat \<times> 'w session \<times> recv_state \<times> c_char list" where
  "session_readline te alloc alloc' ulId s rv bs =
     bind_res (tshellReadlineInit alloc ulId s) (\<lambda>(e, s).
       if e < 0 then Inr (0, s, rv, bs)
       else
         (case ss_his s ulId of
            None \<Rightarrow> Inl Use_After_Free
          | Some a \<Rightarrow>
              bind_res (tshellReadline (session_tab te (ss_shell s)) alloc'
                  (LW_CFG_SHELL_MAX_COMMANDLEN - rv_total rv) (ss_ctxs s a) (ss_edit s) bs)
                (\<lambda>(str, n, h, st, bs).
              bind_res (recv_put (rv_total rv) str rv) (\<lambda>rv.
                Inr (n, s\<lparr>ss_edit := st, ss_ctxs := (ss_ctxs s)(a := h)\<rparr>, rv, bs)))))"

text \<open>
  From the return of the editor to the decision what to do: the result is whether more has to be read.
  A negative index or one behind \<open>cRecvBuffer\<close> is the fault \<open>Recv_Bounds\<close>.
\<close>

definition recv_at :: "nat \<Rightarrow> recv_state \<Rightarrow> session_fault + c_char" where
  "recv_at i rv = (if 0 < i \<and> i \<le> length (rv_buffer rv) then Inr (rv_buffer rv ! (i - 1)) else Inl Recv_Bounds)"

definition recv_cut :: "recv_state \<Rightarrow> recv_state" where
  "recv_cut rv = rv\<lparr>rv_buffer := (rv_buffer rv)[rv_total rv - 1 := EOS], rv_total := rv_total rv - 1\<rparr>"

definition recv_line :: "nat \<Rightarrow> recv_state \<Rightarrow> session_fault + bool \<times> recv_state" where
  "recv_line iReadNum rv =
     (if iReadNum > 0 then
        (let rv = rv\<lparr>rv_total := rv_total rv + iReadNum\<rparr> in
         bind_res (recv_at (rv_total rv) rv) (\<lambda>c.
         bind_res
           (if c = LF then
              (let rv = recv_cut rv in
               bind_res (recv_at (rv_total rv) rv) (\<lambda>c. Inr (if c = CR then recv_cut rv else rv)))
            else Inr rv)
           (\<lambda>rv.
         bind_res (recv_at (rv_total rv) rv) (\<lambda>c.
           if c = BSLASH then
             (let rv = rv\<lparr>rv_total := rv_total rv - 1, rv_over := False\<rparr> in
              if LW_CFG_SHELL_MAX_COMMANDLEN - rv_total rv \<le> 1
              then Inr (False, rv\<lparr>rv_total := 0, rv_over := True\<rparr>)
              else Inr (True, rv))
           else Inr (False, rv)))))
      else Inr (False, rv))"

definition EXEC_DEPTH :: nat where
  "EXEC_DEPTH = 2 * LW_CFG_SHELL_MAX_COMMANDLEN + 1"

datatype turn = Turn_More | Turn_Abort | Turn_Ready "int option"

text \<open>
  Running what was received.  \<open>hook\<close> is \<open>_G_pfuncShellHook\<close>.  The messages for error numbers and the
  terminal options are left out.
\<close>

definition run_line ::
    "'w os \<Rightarrow> (cstring \<Rightarrow> 'w shell \<Rightarrow> int \<times> 'w shell) option \<Rightarrow> recv_state \<Rightarrow> 'w session \<Rightarrow>
     session_fault + turn \<times> 'w session" where
  "run_line os hook rv s =
     (if rv_total rv > 0 then
        (let cmd = takeWhile (\<lambda>c. c \<noteq> EOS) (rv_buffer rv) in
         if lib_strstr cmd FORCE_ABORT \<noteq> None then Inr (Turn_Abort, s)
         else
           bind_res (map_sum Edit_Fault id (on_edit tshellBeforeExecution s)) (\<lambda>s.
           bind_res (map_sum Exec_Fault id (tshellExec os EXEC_DEPTH cmd (ss_shell s))) (\<lambda>(iRetValue, sh).
           bind_res (map_sum Edit_Fault id
               (on_edit (tshellAfterExecution (rv_buffer rv) (rv_total rv) iRetValue) (s\<lparr>ss_shell := sh\<rparr>))) (\<lambda>s.
             let (iRetValue, sh) =
               (if iRetValue = - error_number ERROR_TSHELL_CMDNOTFUND
                then (case hook of None \<Rightarrow> (iRetValue, ss_shell s) | Some f \<Rightarrow> f cmd (ss_shell s))
                else (iRetValue, ss_shell s))
             in Inr (Turn_Ready (Some iRetValue), s\<lparr>ss_shell := sh\<lparr>sh_error := iRetValue\<rparr>\<rparr>)))))
      else Inr (Turn_Ready None, s))"

definition shell_turn ::
    "tab_env \<Rightarrow> 'w os \<Rightarrow> (cstring \<Rightarrow> 'w shell \<Rightarrow> int \<times> 'w shell) option \<Rightarrow> addr option \<Rightarrow> addr option \<Rightarrow>
     nat \<Rightarrow> 'w session \<times> recv_state \<times> c_char list \<Rightarrow>
     session_fault + turn \<times> 'w session \<times> recv_state \<times> c_char list" where
  "shell_turn te os hook alloc alloc' ulId x =
     (let (s, rv, bs) = x in
      bind_res (map_sum Edit_Fault id (session_readline te alloc alloc' ulId s rv bs)) (\<lambda>(n, s, rv, bs).
      bind_res (recv_line n rv) (\<lambda>(more, rv).
        if more then Inr (Turn_More, s, rv, bs)
        else
          bind_res (run_line os hook rv s) (\<lambda>(t, s).
            Inr (t, s, rv\<lparr>rv_total := 0, rv_over := True\<rparr>, bs)))))"

text \<open>
  The loop \<open>for (;;)\<close>, one iteration for every address that the heap gives for a history entry; it is
  left by \<open>break\<close> when the line holds the abort string.
\<close>

fun shell_turns ::
    "tab_env \<Rightarrow> 'w os \<Rightarrow> (cstring \<Rightarrow> 'w shell \<Rightarrow> int \<times> 'w shell) option \<Rightarrow> nat \<Rightarrow> addr list \<Rightarrow>
     'w session \<times> recv_state \<times> c_char list \<Rightarrow>
     session_fault + turn list \<times> 'w session \<times> recv_state \<times> c_char list" where
  "shell_turns te os hook ulId [] x = Inr ([], x)"
| "shell_turns te os hook ulId (a # allocs) x =
     bind_res (shell_turn te os hook None (Some a) ulId x) (\<lambda>(t, x).
       if t = Turn_Abort then Inr ([t], x)
       else bind_res (shell_turns te os hook ulId allocs x) (\<lambda>(ts, x). Inr (t # ts, x)))"

end
