(* ===== verification/SessionSpec.thy ===== *)
theory SessionSpec
  imports Session ReadlineSpec
begin

text \<open>
  What the life cycle of the line editor guarantees: the end of a shell frees its history or keeps it
  for the restart, the suggestions survive in the file, and one turn of the shell thread executes the
  line that was typed and records it.
\<close>

section \<open>Freeing a history\<close>

lemma history_free_ring:
  assumes "ring (SIHC_ring h) (SIHC_pringHeader h) as" "dom (SIH_cInputSave h) = set as"
  shows "\<exists>h'. history_free h = Some h' \<and> SIHC_pringHeader h' = None \<and> SIH_cInputSave h' = (\<lambda>_. None)"
  using assms
proof (induction as arbitrary: h)
  case Nil
  then show ?case by (subst history_free.simps) simp
next
  case (Cons a as)
  have hd: "SIHC_pringHeader h = Some a" using Cons.prems(1) by (rule ring_hd)
  have dist: "a \<notin> set as" using Cons.prems(1) by (simp add: ring_def)
  have old: "SIH_cInputSave h a \<noteq> None" using Cons.prems(2) by auto
  obtain R hdr where d: "List_Ring_Del a (SIHC_ring h, SIHC_pringHeader h) = Some (R, hdr)" "ring R hdr as"
    using Ring_Del_ring[of "SIHC_ring h" "SIHC_pringHeader h" "[]" a as] Cons.prems(1) by auto
  let ?h = "h\<lparr>SIHC_ring := R, SIHC_pringHeader := hdr, SIH_cInputSave := (SIH_cInputSave h)(a := None)\<rparr>"
  have "dom (SIH_cInputSave ?h) = set as" using Cons.prems(2) dist by auto
  moreover have "ring (SIHC_ring ?h) (SIHC_pringHeader ?h) as" using d(2) by simp
  ultimately obtain h' where "history_free ?h = Some h'" "SIHC_pringHeader h' = None" "SIH_cInputSave h' = (\<lambda>_. None)"
    using Cons.IH[of ?h] by blast
  then show ?case using d(1) hd old by (subst history_free.simps) auto
qed

lemma history_free_ok:
  "history_ok h as \<Longrightarrow> \<exists>h'. history_free h = Some h' \<and> SIHC_pringHeader h' = None \<and> SIH_cInputSave h' = (\<lambda>_. None)"
  using history_free_ring by (auto simp: history_ok_def)

section \<open>The end of a shell and its next start\<close>

text \<open>
  A shell thread \<open>t\<close> that is reading lines: its context \<open>h\<close> at \<open>a\<close>, the contexts \<open>xs\<close> kept of other
  threads, the trie in use, and the two buffers.
\<close>

definition running ::
    "'w session \<Rightarrow> nat \<Rightarrow> addr \<Rightarrow> history_ctx \<Rightarrow> addr list \<Rightarrow> addr list \<Rightarrow> trie \<Rightarrow> bool" where
  "running s t a h as xs root \<longleftrightarrow>
     ss_his s t = Some a \<and> ss_ctxs s a = Some h \<and> SIHC_ulId h = t \<and> hist_ok h as \<and>
     line (ss_lines s) (ss_hisc s) xs \<and> a \<notin> set xs \<and> list_all (\<lambda>x. \<not> history_of s t x) xs \<and>
     historyTrieRoot (ss_edit s) = Some root \<and> trie_use storable root \<and> isValid root \<and> ss_bufs s"

lemma find_none: "list_all (\<lambda>x. \<not> P x) xs \<Longrightarrow> find P xs = None"
  by (induction xs) auto

lemma Backup_loads:
  assumes "historyTrieRoot (ss_edit s) = Some root" "trie_use storable root" "ss_writable s"
  shows "\<exists>s'. tshellBackupHistoryTrie junk s = Inr s' \<and> ss_file s' = Some (trieToFile junk root) \<and>
    s' = s\<lparr>ss_file := ss_file s', ss_mode := 600, ss_edit := (ss_edit s)\<lparr>historyTrieRoot := None\<rparr>\<rparr>"
  using assms by (simp add: tshellBackupHistoryTrie_def)

lemma Init_loads:
  assumes "historyTrieRoot (ss_edit s) = None" "ss_file s = Some (trieToFile junk root)" "trie_use storable root"
  shows "tshellInitHistoryTrie s = Inr (s\<lparr>ss_edit := (ss_edit s)
     \<lparr>historyTrieRoot := Some (reload_root junk root), lastMatchLength := 0, lastMatch := Match_Null\<rparr>\<rparr>)"
  using assms by (simp add: tshellInitHistoryTrie_def saved_trie_loads)

lemma hist_ok_mark [simp]: "hist_ok (h\<lparr>SIHC_bNeedBackup := b\<rparr>) as = hist_ok h as"
  by (simp add: hist_ok_def history_ok_def history_lines_def)

text \<open>A restart: the history is marked, the hook of the deletion runs, the next line is read.\<close>

lemma restart_keeps:
  assumes r: "running s t a h as xs root" and w: "ss_writable s"
  shows "\<exists>s1 s2. tshellReadlineClean junk t (tshellHistoryBackup t s) = Inr s1 \<and>
    ss_his s1 t = None \<and> line (ss_lines s1) (ss_hisc s1) (a # xs) \<and>
    tshellReadlineInit alloc t s1 = Inr (0, s2) \<and>
    running s2 t a (h\<lparr>SIHC_bNeedBackup := False\<rparr>) as xs (reload_root junk root)"
proof -
  let ?h1 = "h\<lparr>SIHC_bNeedBackup := False\<rparr>"
  obtain S hdr where ah: "List_Line_Add_Ahead a (ss_lines s, ss_hisc s) = (S, hdr)" "line S hdr (a # xs)"
    using Add_Ahead_line(1)[of "ss_lines s" "ss_hisc s" xs a] r unfolding running_def by (metis surj_pair)
  define s1 where "s1 = s\<lparr>ss_lines := S, ss_hisc := hdr, ss_ctxs := (ss_ctxs s)(a := Some ?h1),
    ss_his := (ss_his s)(t := None), ss_bufs := False, ss_file := Some (trieToFile junk root), ss_mode := 600,
    ss_edit := (ss_edit s)\<lparr>historyTrieRoot := None\<rparr>\<rparr>"
  have clean: "tshellReadlineClean junk t (tshellHistoryBackup t s) = Inr s1"
    using r w ah(1)
    by (simp add: running_def tshellReadlineClean_def tshellHistoryBackup_def tshellBackupHistoryTrie_def s1_def)
  have mine: "history_of s1 t a" using r by (simp add: history_of_def s1_def running_def)
  have find: "line_find (history_of s1 t) (ss_lines s1) (ss_hisc s1) = Some (Some a)"
    using line_find_eq[OF ah(2)] mine by (simp add: s1_def)
  obtain S2 hdr2 where dl: "List_Line_Del a (S, hdr) = (S2, hdr2)" by (cases "List_Line_Del a (S, hdr)")
  have l2: "line S2 hdr2 xs" using Del_line(1)[of S hdr "[]" a xs] ah(2) dl by simp
  define s2 where "s2 = s1\<lparr>ss_lines := S2, ss_hisc := hdr2, ss_his := (ss_his s1)(t := Some a), ss_bufs := True,
    ss_edit := (ss_edit s1)\<lparr>historyTrieRoot := Some (reload_root junk root), lastMatchLength := 0, lastMatch := Match_Null\<rparr>\<rparr>"
  have init: "tshellReadlineInit alloc t s1 = Inr (0, s2)"
    using find dl r
    by (simp add: tshellReadlineInit_def attach_history_def tshellInitHistoryTrie_def s1_def s2_def saved_trie_loads
        running_def fun_upd_idem)
  have "history_of s2 t x = history_of s t x" if "x \<in> set xs" for x
    using that r by (auto simp: history_of_def s2_def s1_def running_def)
  then have "list_all (\<lambda>x. \<not> history_of s2 t x) xs" using r by (simp add: running_def list_all_iff)
  then have "running s2 t a ?h1 as xs (reload_root junk root)"
    using r l2 reload_root_use[of storable root junk] by (simp add: running_def s2_def s1_def)
  then show ?thesis
    using clean init ah(2) by (intro exI[of _ s1] exI[of _ s2]) (simp add: s1_def)
qed

text \<open>The end of a shell: its history is freed, and a new shell starts with an empty one.\<close>

lemma logout_frees:
  assumes r: "running s t a h as xs root" and w: "ss_writable s" and n: "\<not> SIHC_bNeedBackup h"
    and b: "b \<notin> set xs" and t': "ss_his s t' = None" "list_all (\<lambda>x. \<not> history_of s t' x) xs" "t' \<noteq> t"
  shows "\<exists>s1 s2 h2. tshellReadlineClean junk t s = Inr s1 \<and> ss_his s1 t = None \<and> ss_ctxs s1 a = None \<and>
    tshellReadlineInit (Some b) t' s1 = Inr (0, s2) \<and> running s2 t' b h2 [] xs (reload_root junk root)"
proof -
  obtain h' where f: "history_free h = Some h'" using history_free_ok[of h as] r by (auto simp: running_def hist_ok_def)
  define s1 where "s1 = s\<lparr>ss_ctxs := (ss_ctxs s)(a := None), ss_his := (ss_his s)(t := None), ss_bufs := False,
    ss_file := Some (trieToFile junk root), ss_mode := 600, ss_edit := (ss_edit s)\<lparr>historyTrieRoot := None\<rparr>\<rparr>"
  have clean: "tshellReadlineClean junk t s = Inr s1"
    using r w n f by (simp add: running_def tshellReadlineClean_def tshellBackupHistoryTrie_def s1_def)
  have none: "list_all (\<lambda>x. \<not> history_of s1 t' x) xs"
    using t'(2) r by (auto simp: list_all_iff history_of_def s1_def running_def)
  then have find: "line_find (history_of s1 t') (ss_lines s1) (ss_hisc s1) = Some None"
    using line_find_eq[of "ss_lines s" "ss_hisc s" xs] r find_none[OF none] by (simp add: s1_def running_def)
  let ?h2 = "history_zero\<lparr>SIHC_ulId := t'\<rparr>"
  define s2 where "s2 = s1\<lparr>ss_ctxs := (ss_ctxs s1)(b := Some ?h2), ss_his := (ss_his s1)(t' := Some b), ss_bufs := True,
    ss_edit := (ss_edit s1)\<lparr>historyTrieRoot := Some (reload_root junk root), lastMatchLength := 0, lastMatch := Match_Null\<rparr>\<rparr>"
  have init: "tshellReadlineInit (Some b) t' s1 = Inr (0, s2)"
    using find r t'(1,3)
    by (simp add: tshellReadlineInit_def attach_history_def tshellInitHistoryTrie_def s1_def s2_def saved_trie_loads running_def)
  have "list_all (\<lambda>x. \<not> history_of s2 t' x) xs"
    using none b by (auto simp: list_all_iff history_of_def s2_def)
  then have "running s2 t' b ?h2 [] xs (reload_root junk root)"
    using r b reload_root_use[of storable root junk]
    by (simp add: running_def s2_def s1_def hist_ok_def history_ok_def history_zero_def history_lines_def)
  then show ?thesis using clean init by (intro exI[of _ s1] exI[of _ s2]) (auto simp: s1_def)
qed

section \<open>One turn of the shell thread\<close>

lemma no_force_abort:
  assumes "entry_ok s"
  shows "lib_strstr s FORCE_ABORT = None"
proof (cases "lib_strstr s FORCE_ABORT")
  case (Some i)
  obtain c f where f: "FORCE_ABORT = c # f" by (simp add: FORCE_ABORT_def)
  have x: "char_of (130 :: nat) \<in> set FORCE_ABORT" "\<not> ascii (char_of (130 :: nat))"
    by (simp_all add: FORCE_ABORT_def ascii_def schar_def)
  have s: "is_cstr s" "ascii_str s" using assms by (simp_all add: entry_ok_def)
  have "is_cstr FORCE_ABORT" by (simp add: FORCE_ABORT_def is_cstr_def EOS_eq uchar_inject[symmetric] uchar_def del: uchar_inject)
  then have "occurs_at FORCE_ABORT s i"
    using Some strstr_loop_spec[OF s(1), of c f] unfolding lib_strstr_def f by (auto split: if_splits)
  then have "FORCE_ABORT = take (length FORCE_ABORT) (drop i s)" by (simp add: occurs_at_def)
  then have "set FORCE_ABORT \<subseteq> set s" by (metis set_take_subset set_drop_subset subset_trans)
  then have "ascii (char_of (130 :: nat))" using x(1) s(2) by (auto simp: ascii_str_def list_all_iff)
  then show ?thesis using x(2) by simp
qed

lemma BeforeExecution_ok:
  assumes "read_ok st"
  shows "\<exists>st'. tshellBeforeExecution st = Inr st' \<and> read_ok st' \<and> pending st' = [] \<and>
    historyTrieRoot st' = historyTrieRoot st"
proof -
  have m: "match_ok (lastMatch st) (lastMatchLength st)" using assms by (simp add: read_ok_def)
  show ?thesis
  proof (cases "lastMatch st")
    case Match_Null
    then show ?thesis using assms by (auto simp: tshellBeforeExecution_def read_ok_def match_ok_def pending_def)
  next
    case (Match_Live w)
    then have "0 \<le> lastMatchLength st" using m by (simp add: match_ok_def)
    then show ?thesis
      using Match_Live assms
      by (auto simp: tshellBeforeExecution_def tshellClearHistorySuggestion_def match_len_def fillRepeatSpace_eq
          fillRepeatBackspace_eq read_ok_def match_ok_def pending_def)
  next
    case Match_Freed
    then show ?thesis using m by (simp add: match_ok_def)
  qed
qed

text \<open>What the executed line does to the trie: it is recorded when the command returned 0.\<close>

definition recorded :: "int \<Rightarrow> cstring \<Rightarrow> trie \<Rightarrow> trie \<Rightarrow> bool" where
  "recorded r s t t' \<longleftrightarrow> (if r = 0 then trieInsert t s = Inr t' else t' = t)"

lemma AfterExecution_ok:
  assumes "read_ok st" "historyTrieRoot st = Some t" "trie_use P t" "isValid t" "list_all P s"
    "\<And>c. P c \<Longrightarrow> ascii c" "take n buf = s" "n \<le> length buf"
  shows "\<exists>t'. tshellAfterExecution buf n r st = Inr (st\<lparr>historyTrieRoot := Some t'\<rparr>) \<and> recorded r s t t' \<and>
    trie_use P t' \<and> isValid t'"
proof (cases "r = 0")
  case True
  have "ascii_str s" using assms(5,6) by (auto simp: ascii_str_def list_all_iff)
  then obtain t' where t': "trieInsert t s = Inr t'" using trieInsert_total by blast
  then show ?thesis
    using True assms trieInsert_use[OF t' assms(3,5)] trieInsert_valid[OF t']
    by (auto simp: tshellAfterExecution_def recorded_def)
next
  case False
  have "st\<lparr>historyTrieRoot := Some t\<rparr> = st" using assms(2) by simp
  then show ?thesis using False assms by (auto simp: tshellAfterExecution_def recorded_def)
qed

text \<open>The receive buffer of a thread that waits for a new command.\<close>

definition recv_ready :: "recv_state \<Rightarrow> bool" where
  "recv_ready rv \<longleftrightarrow> rv_total rv = 0 \<and> length (rv_buffer rv) = LW_CFG_SHELL_MAX_COMMANDLEN + 1"

lemma recv_put_ready:
  assumes "recv_ready rv" "length s < LW_CFG_SHELL_MAX_COMMANDLEN"
  obtains b where "recv_put 0 s rv = Inr (rv\<lparr>rv_buffer := s @ EOS # b\<rparr>)"
    "length (s @ EOS # b) = LW_CFG_SHELL_MAX_COMMANDLEN + 1"
  using assms that by (simp add: recv_put_def recv_ready_def)

lemma recv_line_ready:
  assumes "rv_total rv = 0" "rv_buffer rv = s @ EOS # b" "s \<noteq> []" "last s \<noteq> LF" "last s \<noteq> BSLASH"
  shows "recv_line (length s) rv = Inr (False, rv\<lparr>rv_total := length s\<rparr>)"
  using assms by (simp add: recv_line_def recv_at_def nth_append last_conv_nth Let_def)

lemma HistorySave_id:
  "tshellHistorySave alloc s h = Some h' \<Longrightarrow> SIHC_ulId h' = SIHC_ulId h \<and> SIHC_bNeedBackup h' = SIHC_bNeedBackup h"
  by (auto simp: tshellHistorySave_def Let_def split: option.splits if_splits)

lemma readline_save_id:
  assumes "readline_save alloc (Some h) st = Inr (h', st')"
  shows "\<exists>h1. h' = Some h1 \<and> SIHC_ulId h1 = SIHC_ulId h \<and> SIHC_bNeedBackup h1 = SIHC_bNeedBackup h"
proof -
  obtain st1 s where "buf_str st1 = Inr s" and r: "(if lib_strlen s \<noteq> 0 then
      (case tshellHistorySave alloc s h of None \<Rightarrow> Inl Listing_Endless | Some h \<Rightarrow> Inr (Some h, st1))
      else Inr (Some h, st1)) = Inr (h', st')"
    using assms unfolding readline_save_def bind_res_Inr option.case by blast
  show ?thesis
  proof (cases "tshellHistorySave alloc s h")
    case None
    then show ?thesis using r by (auto split: if_splits)
  next
    case (Some h1)
    then have "h' = Some h1 \<or> h' = Some h" using r by (simp split: if_splits)
    then show ?thesis using HistorySave_id[OF Some] by blast
  qed
qed

lemma Readline_id:
  "tshellReadline te alloc n (Some h) st bs = Inr (s, len, h', st', bs') \<Longrightarrow>
   \<exists>h1. h' = Some h1 \<and> SIHC_ulId h1 = SIHC_ulId h \<and> SIHC_bNeedBackup h1 = SIHC_bNeedBackup h"
  by (auto simp: tshellReadline_def bind_res_Inr dest!: readline_save_id split: if_splits)

text \<open>A thread that waits for a new command.\<close>

definition waiting ::
    "'w session \<Rightarrow> recv_state \<Rightarrow> nat \<Rightarrow> addr \<Rightarrow> history_ctx \<Rightarrow> addr list \<Rightarrow> addr list \<Rightarrow> trie \<Rightarrow> bool" where
  "waiting s rv t a h as xs root \<longleftrightarrow>
     running s t a h as xs root \<and> read_ok (ss_edit s) \<and> recv_ready rv"

lemma entry_storable: "entry_ok s \<longleftrightarrow> list_all storable s"
  by (auto simp: entry_ok_def is_cstr_def ascii_str_def list_all_iff storable_def)

lemma session_readline_ready:
  assumes w: "waiting s rv t a h as xs root" and b: "b \<notin> set as" and ks: "list_all key_ok ks"
    and rm: "room (Some root) (history_lines h as) ks (Line [] [] (pending (ss_edit s)), None)"
    and ln: "ln = typed (ss_edit s) (history_lines h as) ks" "length ln < LW_CFG_SHELL_MAX_COMMANDLEN" "ln \<noteq> []"
  shows "\<exists>s' rv' h' as' r0. session_readline te al (Some b) t s rv (concat (map key_bytes ks) @ LF # bs) =
      Inr (length ln, s', rv', bs) \<and>
    running s' t a h' as' xs root \<and> read_ok (ss_edit s') \<and> ss_shell s' = ss_shell s \<and>
    history_lines h' as' = remember ln (history_lines h as) \<and> set as' \<subseteq> insert b (set as) \<and>
    rv_total rv' = 0 \<and> rv_buffer rv' = ln @ EOS # r0 \<and> length (rv_buffer rv') = LW_CFG_SHELL_MAX_COMMANDLEN + 1 \<and>
    rv_over rv' = rv_over rv \<and> SIHC_bNeedBackup h' = SIHC_bNeedBackup h"
proof -
  let ?te = "session_tab te (ss_shell s)"
  have run: "running s t a h as xs root" and rd: "read_ok (ss_edit s)" and rv: "recv_ready rv"
    using w by (simp_all add: waiting_def)
  have root: "historyTrieRoot (ss_edit s) = Some root" and h: "hist_ok h as" using run by (simp_all add: running_def)
  have init: "tshellReadlineInit al t s = Inr (0, s)"
    using run by (simp add: running_def tshellReadlineInit_def tshellInitHistoryTrie_def)
  obtain h' as' st' where r: "tshellReadline ?te (Some b) LW_CFG_SHELL_MAX_COMMANDLEN (Some h) (ss_edit s)
        (concat (map key_bytes ks) @ [LF] @ bs) =
      Inr (take (LW_CFG_SHELL_MAX_COMMANDLEN - 1) ln, length ln, Some h', st', bs)"
    and p: "hist_ok h' as'" "history_lines h' as' = saved ln (history_lines h as)" "set as' \<subseteq> insert b (set as)"
      "read_ok st'" "historyTrieRoot st' = historyTrieRoot (ss_edit s)"
    using readline_keys[OF rd h b ks, of LW_CFG_SHELL_MAX_COMMANDLEN ln "[LF]" ?te bs] rm root ln(1,2)
    by (auto simp: LW_CFG_SHELL_MAX_COMMANDLEN_def)
  have id: "SIHC_ulId h' = SIHC_ulId h" "SIHC_bNeedBackup h' = SIHC_bNeedBackup h"
    using Readline_id[OF r] by auto
  obtain r0 where put: "recv_put 0 ln rv = Inr (rv\<lparr>rv_buffer := ln @ EOS # r0\<rparr>)"
    "length (ln @ EOS # r0) = LW_CFG_SHELL_MAX_COMMANDLEN + 1"
    using recv_put_ready[OF rv ln(2)] by blast
  let ?s = "s\<lparr>ss_edit := st', ss_ctxs := (ss_ctxs s)(a := Some h')\<rparr>"
  have "session_readline te al (Some b) t s rv (concat (map key_bytes ks) @ LF # bs) =
      Inr (length ln, ?s, rv\<lparr>rv_buffer := ln @ EOS # r0\<rparr>, bs)"
    using init run r put(1) rv ln(2) by (simp add: session_readline_def running_def recv_ready_def)
  moreover have "running ?s t a h' as' xs root"
    using run p id(1) root by (auto simp: running_def list_all_iff history_of_def)
  ultimately show ?thesis
    using p put(2) rv ln(3) id(2)
    by (intro exI[of _ ?s] exI[of _ "rv\<lparr>rv_buffer := ln @ EOS # r0\<rparr>"] exI[of _ h'] exI[of _ as'] exI[of _ r0])
      (simp add: saved_def recv_ready_def)
qed

text \<open>
  One turn: the line is executed once, remembered, and recorded if it returned 0.  A hook for unknown
  commands changes only what is reported.
\<close>

lemma turn_runs_line:
  assumes w: "waiting s rv t a h as xs root" and b: "b \<notin> set as" and ks: "list_all key_ok ks"
    and rm: "room (Some root) (history_lines h as) ks (Line [] [] (pending (ss_edit s)), None)"
    and ln: "ln = typed (ss_edit s) (history_lines h as) ks" "length ln < LW_CFG_SHELL_MAX_COMMANDLEN" "ln \<noteq> []"
      "entry_ok ln" "last ln \<noteq> LF" "last ln \<noteq> BSLASH"
    and ex: "tshellExec os EXEC_DEPTH ln (ss_shell s) = Inr (r, sh)"
    and hk: "hook = None \<or> r \<noteq> - error_number ERROR_TSHELL_CMDNOTFUND"
  shows "\<exists>s' rv' h' as' root'.
    shell_turn te os hook al (Some b) t (s, rv, concat (map key_bytes ks) @ LF # bs) =
      Inr (Turn_Ready (Some r), s', rv', bs) \<and>
    waiting s' rv' t a h' as' xs root' \<and> ss_shell s' = sh\<lparr>sh_error := r\<rparr> \<and> recorded r ln root root' \<and>
    history_lines h' as' = remember ln (history_lines h as) \<and> set as' \<subseteq> insert b (set as) \<and>
    pending (ss_edit s') = [] \<and> rv_over rv' \<and> SIHC_bNeedBackup h' = SIHC_bNeedBackup h"
proof -
  obtain s1 rv1 h' as' r0 where rd: "session_readline te al (Some b) t s rv (concat (map key_bytes ks) @ LF # bs) =
      Inr (length ln, s1, rv1, bs)"
    and s1: "running s1 t a h' as' xs root" "read_ok (ss_edit s1)" "ss_shell s1 = ss_shell s"
      "history_lines h' as' = remember ln (history_lines h as)" "set as' \<subseteq> insert b (set as)"
      "SIHC_bNeedBackup h' = SIHC_bNeedBackup h"
    and rv1: "rv_total rv1 = 0" "rv_buffer rv1 = ln @ EOS # r0" "length (rv_buffer rv1) = LW_CFG_SHELL_MAX_COMMANDLEN + 1"
    using session_readline_ready[OF w b ks rm ln(1-3), of te al bs] by blast
  let ?rv = "rv1\<lparr>rv_total := length ln\<rparr>"
  have rl: "recv_line (length ln) rv1 = Inr (False, ?rv)" using recv_line_ready[OF rv1(1,2)] ln(3,5,6) by simp
  have cs: "EOS \<notin> set ln" using ln(4) by (simp add: entry_ok_def is_cstr_def)
  have "takeWhile (\<lambda>c. c \<noteq> EOS) (ln @ EOS # r0) = ln"
    using cs by (subst takeWhile_append2) auto
  then have cmd: "takeWhile (\<lambda>c. c \<noteq> EOS) (rv_buffer ?rv) = ln" using rv1(2) by simp
  obtain st2 where st2: "tshellBeforeExecution (ss_edit s1) = Inr st2" "read_ok st2" "pending st2 = []"
    "historyTrieRoot st2 = Some root"
    using BeforeExecution_ok[OF s1(2)] s1(1) by (auto simp: running_def)
  have use: "trie_use storable root" "isValid root" using s1(1) by (simp_all add: running_def)
  obtain root' where root': "tshellAfterExecution (rv_buffer ?rv) (length ln) r st2 = Inr (st2\<lparr>historyTrieRoot := Some root'\<rparr>)"
    "recorded r ln root root'" "trie_use storable root'" "isValid root'"
    using AfterExecution_ok[OF st2(2,4) use, of ln "length ln" "rv_buffer ?rv" r] ln(4) rv1(2)
    by (auto simp: entry_storable storable_def)
  let ?s = "s1\<lparr>ss_edit := st2\<lparr>historyTrieRoot := Some root'\<rparr>, ss_shell := sh\<lparr>sh_error := r\<rparr>\<rparr>"
  have "run_line os hook ?rv s1 = Inr (Turn_Ready (Some r), ?s)"
    using cmd no_force_abort[OF ln(4)] ln(3) st2(1) ex root'(1) hk s1(3)
    by (auto simp: run_line_def on_edit_def)
  then have turn: "shell_turn te os hook al (Some b) t (s, rv, concat (map key_bytes ks) @ LF # bs) =
      Inr (Turn_Ready (Some r), ?s, ?rv\<lparr>rv_total := 0, rv_over := True\<rparr>, bs)"
    using rd rl by (simp add: shell_turn_def)
  have "trie_use ascii root'" by (rule trie_use_mono[OF root'(3)]) (simp add: storable_def)
  then have ed: "read_ok (st2\<lparr>historyTrieRoot := Some root'\<rparr>)" "pending (st2\<lparr>historyTrieRoot := Some root'\<rparr>) = []"
    using st2(2,3) root'(4) by (simp_all add: read_ok_def trie_ok_def pending_def)
  have "running ?s t a h' as' xs root'"
    using s1(1) root'(3,4) by (auto simp: running_def list_all_iff history_of_def)
  then have "waiting ?s (?rv\<lparr>rv_total := 0, rv_over := True\<rparr>) t a h' as' xs root'"
    using ed rv1(3) by (simp add: waiting_def recv_ready_def)
  then show ?thesis
    using turn ed root'(2) s1(4-6)
    by (intro exI[of _ ?s] exI[of _ "?rv\<lparr>rv_total := 0, rv_over := True\<rparr>"] exI[of _ h'] exI[of _ as'] exI[of _ root']) simp
qed

section \<open>A session\<close>

text \<open>What lines of text mean: each is executed in the state that the one before left.\<close>

fun session_meaning :: "'w os \<Rightarrow> cstring list \<Rightarrow> 'w shell \<Rightarrow> exec_fault + (cstring \<times> int) list \<times> 'w shell" where
  "session_meaning os [] sh = Inr ([], sh)"
| "session_meaning os (l # ls) sh =
     bind_res (tshellExec os EXEC_DEPTH l sh) (\<lambda>(r, sh).
     bind_res (session_meaning os ls (sh\<lparr>sh_error := r\<rparr>)) (\<lambda>(rs, sh). Inr ((l, r) # rs, sh)))"

definition command_text :: "cstring \<Rightarrow> bool" where
  "command_text l \<longleftrightarrow> l \<noteq> [] \<and> list_all plain l \<and> length l < LW_CFG_SHELL_MAX_COMMANDLEN \<and> last l \<noteq> BSLASH"

lemma plain_entry: "list_all plain l \<Longrightarrow> entry_ok l"
  by (auto simp: entry_storable list_all_iff plain_def storable_def)

lemma turn_runs_text:
  assumes w: "waiting s rv t a h as xs root" and b: "b \<notin> set as" and l: "command_text l"
    and ex: "tshellExec os EXEC_DEPTH l (ss_shell s) = Inr (r, sh)"
  shows "\<exists>s' rv' h' as' root'.
    shell_turn te os None al (Some b) t (s, rv, l @ LF # bs) = Inr (Turn_Ready (Some r), s', rv', bs) \<and>
    waiting s' rv' t a h' as' xs root' \<and> ss_shell s' = sh\<lparr>sh_error := r\<rparr> \<and> recorded r l root root' \<and>
    history_lines h' as' = remember l (history_lines h as) \<and> set as' \<subseteq> insert b (set as)"
proof -
  have k: "list_all key_ok (map K_Char l)" using l by (simp add: command_text_def list_all_iff)
  have rm: "room (Some root) (history_lines h as) (map K_Char l) (Line [] [] (pending (ss_edit s)), None)"
    by (rule room_chars) (use l in \<open>simp add: command_text_def\<close>)
  have "last l \<noteq> LF"
    using l last_in_set[of l] unfolding command_text_def list_all_iff plain_def by blast
  then show ?thesis
    using turn_runs_line[OF w b k rm typed_chars[symmetric] _ _ plain_entry _ _ ex, of None te al bs,
        unfolded key_bytes_chars] l
    unfolding command_text_def by blast
qed

lemma recorded_words: "recorded r l t t' \<Longrightarrow> is_word t' w \<longleftrightarrow> is_word t w \<or> r = 0 \<and> w = l"
  by (auto simp: recorded_def trieInsert_word split: if_splits)

lemma turns_run_lines:
  assumes "waiting s rv t a h as xs root" "list_all command_text ls" "length bs = length ls"
    "distinct bs" "set bs \<inter> set as = {}" "session_meaning os ls (ss_shell s) = Inr (rs, sh)"
  shows "\<exists>s' rv' h' as' root'.
    shell_turns te os None t bs (s, rv, concat (map (\<lambda>l. l @ [LF]) ls) @ inp) =
      Inr (map (\<lambda>(l, r). Turn_Ready (Some r)) rs, s', rv', inp) \<and>
    waiting s' rv' t a h' as' xs root' \<and> ss_shell s' = sh \<and>
    history_lines h' as' = fold remember ls (history_lines h as) \<and>
    (\<forall>w. is_word root' w \<longleftrightarrow> is_word root w \<or> (w, 0) \<in> set rs)"
  using assms
proof (induction ls arbitrary: s rv h as root bs rs)
  case Nil
  then show ?case by fastforce
next
  case (Cons l ls)
  obtain b bs' where bs: "bs = b # bs'" using Cons.prems(3) by (cases bs) auto
  obtain r sh1 rs' where ex: "tshellExec os EXEC_DEPTH l (ss_shell s) = Inr (r, sh1)"
    and rest: "session_meaning os ls (sh1\<lparr>sh_error := r\<rparr>) = Inr (rs', sh)" and rs: "rs = (l, r) # rs'"
    using Cons.prems(6) by (auto simp: bind_res_Inr)
  have l: "command_text l" and b: "b \<notin> set as" using Cons.prems(2,5) bs by auto
  obtain s1 rv1 h1 as1 root1 where
    turn: "shell_turn te os None None (Some b) t (s, rv, l @ LF # (concat (map (\<lambda>l. l @ [LF]) ls) @ inp)) =
      Inr (Turn_Ready (Some r), s1, rv1, concat (map (\<lambda>l. l @ [LF]) ls) @ inp)"
    and s1: "waiting s1 rv1 t a h1 as1 xs root1" "ss_shell s1 = sh1\<lparr>sh_error := r\<rparr>" "recorded r l root root1"
      "history_lines h1 as1 = remember l (history_lines h as)" "set as1 \<subseteq> insert b (set as)"
    using turn_runs_text[OF Cons.prems(1) b l ex, of te None "concat (map (\<lambda>l. l @ [LF]) ls) @ inp"] by blast
  have "set bs' \<inter> set as1 = {}" using Cons.prems(4,5) bs s1(5) by auto
  from Cons.IH[OF s1(1) _ _ _ this, of rs'] Cons.prems(2-4) bs rest s1(2)
  obtain s' rv' h' as' root' where run:
    "shell_turns te os None t bs' (s1, rv1, concat (map (\<lambda>l. l @ [LF]) ls) @ inp) =
      Inr (map (\<lambda>(l, r). Turn_Ready (Some r)) rs', s', rv', inp)"
    and s': "waiting s' rv' t a h' as' xs root'" "ss_shell s' = sh"
      "history_lines h' as' = fold remember ls (history_lines h1 as1)"
      "\<forall>w. is_word root' w \<longleftrightarrow> is_word root1 w \<or> (w, 0) \<in> set rs'"
    by auto
  have "shell_turns te os None t bs (s, rv, concat (map (\<lambda>l. l @ [LF]) (l # ls)) @ inp) =
      Inr (map (\<lambda>(l, r). Turn_Ready (Some r)) rs, s', rv', inp)"
    using turn run by (simp add: bs rs)
  moreover have "\<forall>w. is_word root' w \<longleftrightarrow> is_word root w \<or> (w, 0) \<in> set rs"
    using s'(4) recorded_words[OF s1(3)] rs by auto
  ultimately show ?case using s' s1(4) by (intro exI[of _ s'] exI[of _ rv'] exI[of _ h'] exI[of _ as'] exI[of _ root']) simp
qed

end
