(* ===== verification/ReadlineLive.thy ===== *)
theory ReadlineLive
  imports ReadlineSpec
begin

text \<open>
  A line can always be ended.  Whatever ASCII bytes came before, and even in the middle of an escape
  sequence, two line feeds finish the reading: the first can at most be taken as the end of the
  sequence.
\<close>

section \<open>A line feed comes\<close>

text \<open>The input is about to end the line: a line feed, or two of them behind other bytes.\<close>

definition ends_soon :: "c_char list \<Rightarrow> bool" where
  "ends_soon bs \<longleftrightarrow> (\<exists>u r. list_all byte_ok u \<and> bs = u @ LF # LF # r) \<or> (\<exists>r. bs = LF # r)"

lemma ends_soon_cases:
  assumes "ends_soon bs"
  obtains r where "bs = LF # r" | c u r where "bs = c # u @ LF # LF # r" "byte_ok c" "list_all byte_ok u"
  using assms unfolding ends_soon_def by (metis append_Nil list.exhaust list.pred_inject(2) append_Cons)

lemma ends_soon_two: "list_all byte_ok u \<Longrightarrow> ends_soon (u @ LF # LF # r)"
  by (auto simp: ends_soon_def)

lemma ends_soon_one: "ends_soon (LF # r)"
  by (auto simp: ends_soon_def)

lemma LF_keys [simp]:
  "LF \<noteq> KEY_BRACKET" "LF \<noteq> KEY_TILDE" "LF \<noteq> FUNC_KEY_LEFT" "LF \<noteq> FUNC_KEY_UP" "LF \<noteq> FUNC_KEY_RIGHT"
  "LF \<noteq> FUNC_KEY_DOWN" "LF \<noteq> FUNC_KEY_HOME" "LF \<noteq> FUNC_KEY_DELETE" "LF \<noteq> FUNC_KEY_END"
  by (simp_all add: key_defs uchar_inject[symmetric] uchar_def del: uchar_inject)

lemma byte_ok_LF [simp]: "byte_ok LF"
  by (simp add: byte_ok_def ascii_def schar_def uchar_def)

text \<open>The jumps that keep the promise.\<close>

fun jump_ends :: "key_next \<times> read_state \<Rightarrow> bool" where
  "jump_ends (Next_Break, x) = True"
| "jump_ends (Next_Out, x) = False"
| "jump_ends (Next_Loop, cookie, st, bs) = ends_soon bs"
| "jump_ends (Next_Check d, cookie, st, bs) = (d = LF \<or> (byte_ok d \<and> (\<exists>u r. list_all byte_ok u \<and> bs = u @ LF # LF # r)))"

lemma jump_ends_check:
  "byte_ok d \<Longrightarrow> list_all byte_ok u \<Longrightarrow> jump_ends (Next_Check d, cookie, st, u @ LF # LF # r)"
  by auto

lemma after_func_key_ends:
  assumes "list_all byte_ok u"
  shows "jump_ends (after_func_key cookie st (u @ LF # LF # r))"
proof (cases u)
  case Nil
  then show ?thesis by (simp add: after_func_key_def)
next
  case (Cons c v)
  then show ?thesis using assms ends_soon_two[of v r] by (auto simp: after_func_key_def)
qed

lemma func_key_ends:
  assumes f: "func_key psihc c (cookie, st, bs) = Inr x"
    and e: "(\<exists>u r. list_all byte_ok u \<and> bs = u @ LF # LF # r) \<or> c = LF \<and> (\<exists>r. bs = LF # r)"
  shows "jump_ends x"
proof -
  have soon: "ends_soon bs" using e by (auto simp: ends_soon_def)
  show ?thesis
  proof (cases "c = LF")
    case True
    then show ?thesis using f soon by (auto simp: func_key_def)
  next
    case False
    then obtain u r where "list_all byte_ok u" "bs = u @ LF # LF # r" using e by auto
    then show ?thesis
      using f soon after_func_key_ends[of u] by (auto simp: func_key_def bind_res_Inr split: if_splits)
  qed
qed

lemma key_step_ends:
  assumes s: "key_step te psihc c (cookie, st, bs) = Inr x"
    and e: "c = LF \<or> (\<exists>u r. list_all byte_ok u \<and> bs = u @ LF # LF # r)"
  shows "jump_ends x"
proof (cases "c = KEY_ESC")
  case False
  show ?thesis
  proof (cases "c = LF")
    case False
    then have "ends_soon bs" using e by (auto simp: ends_soon_def)
    then show ?thesis using s \<open>c \<noteq> KEY_ESC\<close> False by (auto simp: key_step_def bind_res_Inr split: if_splits)
  qed (use s \<open>c \<noteq> KEY_ESC\<close> in \<open>auto simp: key_step_def\<close>)
next
  case True
  then obtain u r where u: "list_all byte_ok u" "bs = u @ LF # LF # r" using e LF_distinct(1) by metis
  show ?thesis
  proof (cases u)
    case Nil
    then show ?thesis using s True u by (auto simp: key_step_def)
  next
    case (Cons c2 v)
    note u2 = this
    show ?thesis
    proof (cases "c2 = KEY_BRACKET")
      case False
      then have "x = (Next_Check c2, cookie, st, v @ LF # LF # r)" using s True u u2 by (simp add: key_step_def)
      then show ?thesis using jump_ends_check u u2 by (simp only: list.pred_inject)
    next
      case br: True
      show ?thesis
      proof (cases v)
        case Nil
        then show ?thesis
          using s True u u2 br func_key_ends[of psihc LF cookie st "LF # r" x] by (simp add: key_step_def)
      next
        case (Cons c3 w)
        then show ?thesis
          using s True u u2 br func_key_ends[of psihc c3 cookie st "w @ LF # LF # r" x] by (auto simp: key_step_def)
      qed
    qed
  qed
qed

section \<open>The loop ends\<close>

lemma readline_loop_ends:
  assumes "readline_loop te psihc pend (cookie, st, bs) = Inr (over, y)"
    "case pend of None \<Rightarrow> ends_soon bs | Some d \<Rightarrow> jump_ends (Next_Check d, cookie, st, bs)"
  shows "over"
  using assms
proof (induction te psihc pend "(cookie, st, bs)" arbitrary: cookie st bs rule: readline_loop.induct)
  case (1 te psihc pend cookie st bs)
  show ?case
  proof (cases pend)
    case None
    show ?thesis
    proof (cases "SIC_uiTotalLen st < LW_CFG_SHELL_MAX_COMMANDLEN")
      case False
      then show ?thesis using "1.prems"(1) None by (simp add: readline_loop.simps[of _ _ None])
    next
      case True
      have "ends_soon bs" using "1.prems"(2) None by simp
      then obtain c bs' where bs: "bs = c # bs'" "c = LF \<or> byte_ok c \<and> (\<exists>u r. list_all byte_ok u \<and> bs' = u @ LF # LF # r)"
        by (cases rule: ends_soon_cases) auto
      have "readline_loop te psihc (Some c) (cookie, st, bs') = Inr (over, y)"
        using "1.prems"(1) None True bs(1) by (simp add: readline_loop.simps[of _ _ None])
      then show ?thesis using "1.hyps"(1)[OF None True bs(1)] bs(2) by simp
    qed
  next
    case (Some c)
    obtain nx cookie1 st1 bs1 where s: "key_step te psihc c (cookie, st, bs) = Inr (nx, cookie1, st1, bs1)"
      using "1.prems"(1) Some
      by (cases "key_step te psihc c (cookie, st, bs)") (auto simp: readline_loop.simps[of _ _ "Some c"])
    have j: "jump_ends (nx, cookie1, st1, bs1)"
      by (rule key_step_ends[OF s]) (use "1.prems"(2) Some in auto)
    have run: "(case nx of
        Next_Loop \<Rightarrow> readline_loop te psihc None (cookie1, st1, bs1)
      | Next_Check d \<Rightarrow> readline_loop te psihc (Some d) (cookie1, st1, bs1)
      | Next_Break \<Rightarrow> Inr (True, cookie1, st1, bs1)
      | Next_Out \<Rightarrow> Inr (False, cookie1, st1, bs1)) = Inr (over, y)"
      using "1.prems"(1) Some s by (simp add: readline_loop.simps[of _ _ "Some c"])
    show ?thesis
    proof (cases nx)
      case Next_Loop
      then show ?thesis using "1.hyps"(2)[OF Some s refl refl refl Next_Loop] run j by simp
    next
      case (Next_Check d)
      then show ?thesis using "1.hyps"(3)[OF Some s refl refl refl Next_Check] run j by simp
    qed (use run j in auto)
  qed
qed

lemma readline_ends:
  assumes ready: "read_ok st" and h: "hist_ok h as" and a: "a \<notin> set as" and bs: "list_all byte_ok bs"
    and rest: "list_all byte_ok rest"
  shows "\<exists>s len h1 as1 st' bs'.
    tshellReadline te (Some a) n (Some h) st (bs @ LF # LF # rest) = Inr (s, len, Some h1, st', bs') \<and>
    len \<le> LW_CFG_SHELL_MAX_COMMANDLEN \<and> read_ok st' \<and> history_ok h1 as1 \<and> historyTrieRoot st' = historyTrieRoot st"
proof -
  let ?inp = "bs @ LF # LF # rest"
  have inp: "list_all byte_ok ?inp" using bs rest by simp
  obtain st0 where st0: "readline_start st = Inr st0" "edit_ok st0" "historyTrieRoot st0 = historyTrieRoot st"
    using readline_start_ok[OF ready] by metis
  obtain over cookie st1 bs' where run: "readline_loop te (Some h) None (None, st0, ?inp) = Inr (over, cookie, st1, bs')"
    and st1: "read_ok st1" "SIC_uiTotalLen st1 \<le> LW_CFG_SHELL_MAX_COMMANDLEN"
    using readline_loop_safe[OF st0(2) h _ inp, of None None None te] by (auto simp: cookie_at_def)
  have over: "over" using readline_loop_ends[OF run] bs ends_soon_two by simp
  have n: "SIC_uiTotalLen st1 < length (SIC_cInputBuffer st1)" using st1 by (simp add: read_ok_def)
  obtain s where s: "buf_str (st1\<lparr>SIC_cInputBuffer := (SIC_cInputBuffer st1)[SIC_uiTotalLen st1 := EOS]\<rparr>) = Inr s"
    using n by (auto simp: buf_str_def set_update_memI)
  have "history_ok h as" using h by (simp add: hist_ok_def)
  then obtain h1 as1 where "tshellHistorySave (Some a) s h = Some h1" "history_ok h1 as1"
    using HistorySave_refines a by blast
  then have "\<exists>r. tshellReadline te (Some a) n (Some h) st ?inp = Inr r"
    using st0(1) run over n s by (auto simp: tshellReadline_def readline_save_def buf_set_eq)
  then show ?thesis
    using readline_any[OF ready h a inp, of te n] by (auto split: sum.splits)
qed

end
