(* ===== verification/RecallSpec.thy ===== *)
theory RecallSpec
  imports SessionSpec
begin

text \<open>
  Two ways to get a line back without typing it: the right arrow takes over the suggestion, and the up
  arrow walks through the history.
\<close>

section \<open>Taking over the suggestion\<close>

lemma chars_pending:
  assumes "w \<noteq> []"
  shows "fst (edit_keys r hs (map K_Char w) (Line [] [] q, p)) = Line w [] (suggest r w)"
  using assms
proof (induction w rule: rev_induct)
  case (snoc c w)
  obtain v p1 where 1: "edit_keys r hs (map K_Char w) (Line [] [] q, p) = (v, p1)" by fastforce
  obtain q1 where "v = Line w [] q1" using insert_chars[of r hs w "[]" q p] 1 by auto
  then show ?case using 1 by (simp add: edit_keys_def ask_def)
qed simp

lemma edit_keys_append: "edit_keys r hs (ks @ ls) x = edit_keys r hs ls (edit_keys r hs ks x)"
  by (simp add: edit_keys_def)

lemma room_append: "room r hs (ks @ ls) x \<longleftrightarrow> room r hs ks x \<and> room r hs ls (edit_keys r hs ks x)"
  by (induction ks arbitrary: x) (auto simp: edit_keys_def)

lemma rights_take_over:
  "edit_keys r hs (replicate (length m) K_Right) (Line l [] m, p) = (Line (l @ m) [] [], p)"
  by (induction m arbitrary: l) (simp_all add: edit_keys_def)

lemma room_rights:
  "length l + length m \<le> LW_CFG_SHELL_MAX_COMMANDLEN \<Longrightarrow> room r hs (replicate (length m) K_Right) (Line l [] m, p)"
  by (induction m arbitrary: l) (simp_all add: view_text_def)

text \<open>What is suggested for the start of a recorded command is the rest of a recorded command.\<close>

lemma suggest_word:
  assumes t: "trie_use storable t" and p: "p \<noteq> []" "list_all storable p" and w: "is_word t (p @ q)"
  shows "is_word t (p @ suggest (Some t) p) \<and> list_all storable (suggest (Some t) p)"
proof -
  have "ascii_str p" using p(2) by (auto simp: ascii_str_def list_all_iff storable_def)
  then obtain s where s: "trieSearch t p = Inr (Some s)" "is_word t (p @ s)" "list_all storable s"
    using trieSearch_use[OF t, of p] p(1) w by (auto simp: storable_def)
  have "takeWhile (\<lambda>c. c \<noteq> EOS) s = s" using s(3) by (auto simp: list_all_iff storable_def)
  then have "suggest (Some t) p = s" using s(1) by (simp add: suggest_def del: takeWhile_eq_all_conv)
  then show ?thesis using s by simp
qed

lemma accept_typed:
  assumes "historyTrieRoot st = Some t" "p \<noteq> []"
  shows "typed st hs (map K_Char p @ replicate (length (suggest (Some t) p)) K_Right) = p @ suggest (Some t) p"
proof -
  obtain v i where 1: "edit_keys (Some t) hs (map K_Char p) (Line [] [] (pending st), None) = (v, i)" by fastforce
  then have "v = Line p [] (suggest (Some t) p)"
    using chars_pending[OF assms(2), of "Some t" hs "pending st" None] by simp
  then show ?thesis
    using 1 assms(1) by (simp add: typed_def edit_keys_append rights_take_over view_text_def)
qed

lemma accept_room:
  assumes "p \<noteq> []" "length p + length (suggest (Some t) p) \<le> LW_CFG_SHELL_MAX_COMMANDLEN"
  shows "room (Some t) hs (map K_Char p @ replicate (length (suggest (Some t) p)) K_Right) (Line [] [] q, None)"
proof -
  obtain v i where 1: "edit_keys (Some t) hs (map K_Char p) (Line [] [] q, None) = (v, i)" by fastforce
  then have "v = Line p [] (suggest (Some t) p)" using chars_pending[OF assms(1), of "Some t" hs q None] by simp
  then show ?thesis
    using 1 room_chars[of "[]" p "Some t" hs q None] room_rights[of p "suggest (Some t) p" "Some t" hs i] assms
    by (simp add: room_append)
qed

section \<open>Walking through the history\<close>

lemma ups_show:
  assumes "k < length hs"
  shows "edit_keys r hs (replicate (Suc k) K_Up) (Line [] [] q, None) = (Line (recalled (hs ! k)) [] q, Some k)"
  using assms
proof (induction k)
  case 0
  then show ?case by (auto simp: edit_keys_def show_at_def nav_up_def)
next
  case (Suc k)
  have e: "replicate (Suc (Suc k)) K_Up = replicate (Suc k) K_Up @ [K_Up]" by (simp add: replicate_append_same)
  have "edit_keys r hs (replicate (Suc (Suc k)) K_Up) (Line [] [] q, None) =
      edit_step r hs K_Up (edit_keys r hs (replicate (Suc k) K_Up) (Line [] [] q, None))"
    unfolding e edit_keys_append by (simp add: edit_keys_def del: replicate.simps)
  also have "\<dots> = edit_step r hs K_Up (Line (recalled (hs ! k)) [] q, Some k)" using Suc by simp
  also have "\<dots> = (Line (recalled (hs ! Suc k)) [] q, Some (Suc k))"
    using Suc.prems by (auto simp: show_at_def nav_up_def)
  finally show ?case .
qed

lemma up_typed:
  "k < length hs \<Longrightarrow> typed st hs (replicate (Suc k) K_Up) = recalled (hs ! k)"
  using ups_show[of k hs "historyTrieRoot st" "pending st"] by (simp add: typed_def view_text_def del: replicate.simps)

lemma room_ups:
  "length (view_text v) < LW_CFG_SHELL_MAX_COMMANDLEN \<Longrightarrow> room r hs (replicate k K_Up) (v, p)"
proof (induction k arbitrary: v p)
  case (Suc k)
  have "length (recalled s) < LW_CFG_SHELL_MAX_COMMANDLEN" for s
    by (simp add: recalled_def LW_CFG_SHELL_MAX_COMMANDLEN_def)
  then show ?case using Suc by (cases "hs = []") (simp_all add: show_at_def view_text_def)
qed simp

end
