(* ===== verification/LineFaults.thy ===== *)
theory LineFaults
  imports SessionSpec FileSpec
begin

text \<open>
  Where the line editor and the shell thread go wrong: a completion that is longer than the buffer, a
  continued line that is longer than the buffer of the thread, and a shell that ends while another one
  is running.
\<close>

section \<open>A completion that does not fit\<close>

lemma PrintHistorySuggestion_keeps:
  "tshellPrintHistorySuggestion st = Inr st' \<Longrightarrow>
   SIC_uiTotalLen st' = SIC_uiTotalLen st \<and> SIC_cInputBuffer st' = SIC_cInputBuffer st"
  by (auto simp: tshellPrintHistorySuggestion_def Let_def fillRepeatBackspace_eq
      split: if_splits option.splits sum.splits match_ptr.splits)

lemma buf_put_str_keeps:
  "buf_put_str s st = Inr st' \<Longrightarrow>
   SIC_uiTotalLen st' = SIC_uiTotalLen st \<and> length (SIC_cInputBuffer st') = length (SIC_cInputBuffer st)"
  by (auto simp: buf_put_str_def split: if_splits)

lemma buf_strlcat_keeps:
  "buf_strlcat s st = Inr st' \<Longrightarrow>
   SIC_uiTotalLen st' = SIC_uiTotalLen st \<and> length (SIC_cInputBuffer st') = length (SIC_cInputBuffer st)"
  by (auto simp: buf_strlcat_def bind_res_Inr dest: buf_put_str_keeps split: if_splits)

text \<open>The length of the line grows by what was to be appended, whatever the buffer could take.\<close>

lemma FileMatch_overruns:
  assumes st: "at_end st" and dir: "real_dir te dir \<noteq> []" "te_dir te (real_dir te dir) = Some names"
    and names: "\<forall>k \<in> set names. entry_ok k \<and> SLASH \<notin> set k" and f: "is_cstr f"
    and one: "filter (prefix f) names = [k]"
    and r: "tshellFileMatch te dir f st = Inr st'"
  shows "SIC_uiTotalLen st' = length (edit_text st) + length (drop (length f) (mark_dir te (real_dir te dir) k))"
    "length (SIC_cInputBuffer st') = LW_CFG_SHELL_MAX_COMMANDLEN + 1"
proof -
  obtain fm st1 where inv: "fm_inv fm [k]" and o: "only_tty st st1"
    and FM: "tshellFileMatch te dir f st = file_result te (real_dir te dir) f fm st1"
    using FileMatch_scan[OF dir names f] one by metis
  have st1: "at_end st1" "edit_text st1 = edit_text st" using only_tty_at_end[OF o st] by simp_all
  have "fm_num fm = 1" "fm_match fm = k" using inv by (simp_all add: fm_inv_def)
  then obtain st2 where "buf_strlcat (drop (length f) (mark_dir te (real_dir te dir) k))
      (tty_put (Tty_Write (drop (length f) (mark_dir te (real_dir te dir) k))) st1) = Inr st2"
    and st': "SIC_uiTotalLen st' = SIC_uiTotalLen st2 + length (drop (length f) (mark_dir te (real_dir te dir) k))"
      "SIC_cInputBuffer st' = SIC_cInputBuffer st2"
    using r FM by (auto simp: file_result_def Let_def bind_res_Inr)
  then have "SIC_uiTotalLen st2 = SIC_uiTotalLen st1" "length (SIC_cInputBuffer st2) = length (SIC_cInputBuffer st1)"
    using buf_strlcat_keeps by fastforce+
  moreover have "SIC_uiTotalLen st1 = length (edit_text st)" "length (SIC_cInputBuffer st1) = LW_CFG_SHELL_MAX_COMMANDLEN + 1"
    using st1 edit_text_length[of st1] by (auto simp: at_end_def edit_ok_def)
  ultimately show "SIC_uiTotalLen st' = length (edit_text st) + length (drop (length f) (mark_dir te (real_dir te dir) k))"
    "length (SIC_cInputBuffer st') = LW_CFG_SHELL_MAX_COMMANDLEN + 1" using st' by simp_all
qed

lemma readline_save_overruns:
  "length (SIC_cInputBuffer st) \<le> SIC_uiTotalLen st \<Longrightarrow> readline_save alloc psihc st = Inl Buffer_Bounds"
  by (simp add: readline_save_def buf_set_def)

lemma tab_overruns:
  assumes ok: "edit_ok st" and e: "entry_ok (edit_text st)" and len: "length (edit_text st) < LW_CFG_SHELL_MAX_COMMANDLEN"
    and tx: "edit_text st = pre @ w @ BLANK # v" "set pre \<subseteq> white" "word_ok w" "bare_word v"
    and dir: "real_dir te (tab_dir v) \<noteq> []" "te_dir te (real_dir te (tab_dir v)) = Some names"
    and names: "\<forall>k \<in> set names. entry_ok k \<and> SLASH \<notin> set k"
    and one: "filter (prefix (tab_name v)) names = [k]"
    and big: "LW_CFG_SHELL_MAX_COMMANDLEN < length (edit_text st) +
      length (drop (length (tab_name v)) (mark_dir te (real_dir te (tab_dir v)) k))"
  shows "\<exists>f. bind_res (tshellCharTab te st) (readline_save alloc psihc) = Inl f"
proof (cases "tshellCharTab te st")
  case (Inr st')
  obtain st2 where st2: "at_end st2" "edit_text st2 = edit_text st"
    and tab: "tshellCharTab te st = bind_res (tshellFileMatch te (tab_dir v) (tab_name v) st2) tshellPrintHistorySuggestion"
    using CharTab_call[OF ok e len tx] by blast
  obtain st3 where st3: "tshellFileMatch te (tab_dir v) (tab_name v) st2 = Inr st3" "tshellPrintHistorySuggestion st3 = Inr st'"
    using Inr tab by (auto simp: bind_res_Inr)
  show ?thesis
    using FileMatch_overruns[OF st2(1) dir names tab_name_cstr[OF e tx(1)] one st3(1)]
      PrintHistorySuggestion_keeps[OF st3(2)] readline_save_overruns[of st' alloc psihc] big Inr st2(2)
    by simp
qed simp

section \<open>A shell that ends while another one runs\<close>

lemma exit_breaks_others:
  assumes r: "running s t a h as xs root" and w: "ss_writable s" "\<not> SIHC_bNeedBackup h"
    and o: "ss_his s t2 = Some a2" "ss_ctxs s a2 = Some h2" "history_ok h2 as2" "t2 \<noteq> t" "a2 \<noteq> a"
  shows "\<exists>s1 s2. tshellReadlineClean junk t s = Inr s1 \<and>
    on_edit (tshellAfterExecution buf n 0) s1 = Inl Null_Trie \<and>
    tshellReadlineInit al t2 s1 = Inr (0, s2) \<and> tshellReadlineClean junk t2 s2 = Inl Double_Free"
proof -
  obtain h' where f: "history_free h = Some h'" using history_free_ok[of h as] r by (auto simp: running_def hist_ok_def)
  obtain h2' where f2: "history_free h2 = Some h2'" using history_free_ok[OF o(3)] by blast
  define s1 where "s1 = s\<lparr>ss_ctxs := (ss_ctxs s)(a := None), ss_his := (ss_his s)(t := None), ss_bufs := False,
    ss_file := Some (trieToFile junk root), ss_mode := 600, ss_edit := (ss_edit s)\<lparr>historyTrieRoot := None\<rparr>\<rparr>"
  have clean: "tshellReadlineClean junk t s = Inr s1"
    using r w f by (simp add: running_def tshellReadlineClean_def tshellBackupHistoryTrie_def s1_def)
  define s2 where "s2 = s1\<lparr>ss_edit := (ss_edit s1)\<lparr>historyTrieRoot := Some (reload_root junk root),
    lastMatchLength := 0, lastMatch := Match_Null\<rparr>\<rparr>"
  have init: "tshellReadlineInit al t2 s1 = Inr (0, s2)"
    using r o by (simp add: tshellReadlineInit_def tshellInitHistoryTrie_def saved_trie_loads running_def s1_def s2_def)
  have "tshellReadlineClean junk t2 s2 = Inl Double_Free"
    using o f2 by (simp add: tshellReadlineClean_def s2_def s1_def Let_def split_def)
  moreover have "on_edit (tshellAfterExecution buf n 0) s1 = Inl Null_Trie"
    by (simp add: on_edit_def tshellAfterExecution_def s1_def)
  ultimately show ?thesis using clean init by blast
qed

section \<open>A continued line that is too long\<close>

lemma recv_put_more:
  assumes "length (rv_buffer rv) = LW_CFG_SHELL_MAX_COMMANDLEN + 1" "i + length s \<le> LW_CFG_SHELL_MAX_COMMANDLEN"
  obtains rv' where "recv_put i s rv = Inr rv'" "length (rv_buffer rv') = LW_CFG_SHELL_MAX_COMMANDLEN + 1"
    "rv_total rv' = rv_total rv"
  using assms that by (simp add: recv_put_def)

lemma continuation_overruns:
  assumes r: "running s t a h as xs root" and rd: "read_ok (ss_edit s)"
    and rv: "length (rv_buffer rv) = LW_CFG_SHELL_MAX_COMMANDLEN + 1" "rv_total rv + 1 < LW_CFG_SHELL_MAX_COMMANDLEN"
    and b: "b \<notin> set as" and ln: "list_all plain ln" "length ln < LW_CFG_SHELL_MAX_COMMANDLEN"
    and big: "LW_CFG_SHELL_MAX_COMMANDLEN + 1 < rv_total rv + length ln"
  shows "shell_turn te os hook al (Some b) t (s, rv, ln @ LF # bs) = Inl Recv_Bounds"
proof -
  let ?te = "session_tab te (ss_shell s)" and ?n = "LW_CFG_SHELL_MAX_COMMANDLEN - rv_total rv"
  have root: "historyTrieRoot (ss_edit s) = Some root" and h: "hist_ok h as" using r by (simp_all add: running_def)
  have init: "tshellReadlineInit al t s = Inr (0, s)"
    using r by (simp add: running_def tshellReadlineInit_def tshellInitHistoryTrie_def)
  have k: "list_all key_ok (map K_Char ln)" using ln by (simp add: list_all_iff)
  have rm: "room (historyTrieRoot (ss_edit s)) (history_lines h as) (map K_Char ln) (Line [] [] (pending (ss_edit s)), None)"
    by (rule room_chars) (use ln in simp)
  have n: "0 < ?n" using rv(2) by simp
  obtain h' st' where rl: "tshellReadline ?te (Some b) ?n (Some h) (ss_edit s) (ln @ [LF] @ bs) =
      Inr (take (?n - 1) ln, length ln, Some h', st', bs)"
    using readline_keys[OF rd h b k rm n typed_chars[symmetric], of "[LF]" ?te bs, unfolded key_bytes_chars] ln(2) by blast
  have fits: "rv_total rv + length (take (?n - 1) ln) \<le> LW_CFG_SHELL_MAX_COMMANDLEN" using rv(2) by simp
  obtain rv' where rv': "recv_put (rv_total rv) (take (?n - 1) ln) rv = Inr rv'"
    "length (rv_buffer rv') = LW_CFG_SHELL_MAX_COMMANDLEN + 1" "rv_total rv' = rv_total rv"
    using recv_put_more[OF rv(1) fits] by blast
  have "session_readline te al (Some b) t s rv (ln @ LF # bs) =
      Inr (length ln, s\<lparr>ss_edit := st', ss_ctxs := (ss_ctxs s)(a := Some h')\<rparr>, rv', bs)"
    using init r rl rv'(1) by (simp add: session_readline_def running_def)
  moreover have "recv_line (length ln) rv' = Inl Recv_Bounds"
    using rv'(2,3) big rv(2) by (auto simp: recv_line_def recv_at_def Let_def)
  ultimately show ?thesis by (simp add: shell_turn_def)
qed

section \<open>A suggestion of a line that is gone\<close>

lemma stale_pending:
  assumes "suggest (historyTrieRoot st) [c] = d # m"
  shows "typed st hs [K_Char c, K_Backspace, K_Right] = [d]"
  using assms by (simp add: typed_def edit_keys_def ask_def view_text_def)

end
