(* ===== verification/LineDemo.thy ===== *)
theory LineDemo
  imports LineFaults RecallSpec ReadlineLive ShellRun
begin

text \<open>
  A concrete shell session, for the witnesses of \<open>LineProps\<close>: thread 5, whose history holds the line
  \<open>ls\<close> at address 2 and whose trie has recorded \<open>ls\<close>, and thread 6 with an empty history.
\<close>

definition demo_root :: trie where
  "demo_root = (case trieInsert trieGetRoot ''ls'' of Inl f \<Rightarrow> trieGetRoot | Inr t \<Rightarrow> t)"

lemma storable_letters [simp]: "list_all storable ''ls''"
  by (simp add: storable_def ascii_def schar_def uchar_def EOS_eq)

lemma demo_root:
  "trieInsert trieGetRoot ''ls'' = Inr demo_root" "trie_use storable demo_root" "trie_use ascii demo_root"
  "isValid demo_root" "is_word demo_root w \<longleftrightarrow> w = ''ls''"
proof -
  have "ascii_str ''ls''" by (simp add: ascii_def schar_def uchar_def)
  then obtain t where t: "trieInsert trieGetRoot ''ls'' = Inr t" using trieInsert_total by blast
  then have d: "demo_root = t" by (simp add: demo_root_def)
  then show "trieInsert trieGetRoot ''ls'' = Inr demo_root" "isValid demo_root" "is_word demo_root w \<longleftrightarrow> w = ''ls''"
    using t trieInsert_valid[OF t] trieInsert_word[OF t] by simp_all
  show s: "trie_use storable demo_root" using trieInsert_use[OF t trie_use_root storable_letters] d by simp
  show "trie_use ascii demo_root" by (rule trie_use_mono[OF s]) (simp add: storable_def)
qed

definition demo_edit :: edit_state where
  "demo_edit = \<lparr>SIC_uiCursor = 0, SIC_uiTotalLen = 0,
     SIC_cInputBuffer = replicate (LW_CFG_SHELL_MAX_COMMANDLEN + 1) EOS, historyTrieRoot = Some demo_root,
     lastMatch = Match_Null, lastMatchLength = 0, ed_tty = [], ed_cpu64 = False, ed_addr = 0\<rparr>"

lemma demo_edit [simp]:
  "read_ok demo_edit" "edit_ok demo_edit" "historyTrieRoot demo_edit = Some demo_root" "pending demo_edit = []"
  "edit_text demo_edit = []" "view demo_edit = Line [] [] []" "SIC_uiTotalLen demo_edit = 0"
  using demo_root(3,4)
  by (simp_all add: read_ok_def edit_ok_def demo_edit_def trie_ok_def match_ok_def pending_def edit_text_def view_def)

definition demo_hist :: history_ctx where
  "demo_hist = \<lparr>SIHC_ring = \<lparr>LINE_plistNext = [2 \<mapsto> 2], LINE_plistPrev = [2 \<mapsto> 2]\<rparr>, SIHC_pringHeader = Some 2,
     SIHC_uiCounter = 1, SIHC_bNeedBackup = False, SIHC_ulId = 5, SIH_cInputSave = [2 \<mapsto> ''ls'']\<rparr>"

lemma demo_hist [simp]:
  "history_ok demo_hist [2]" "hist_ok demo_hist [2]" "history_lines demo_hist [2] = [''ls'']"
  "SIHC_ulId demo_hist = 5" "\<not> SIHC_bNeedBackup demo_hist"
proof -
  show h: "history_ok demo_hist [2]" by (simp add: history_ok_def demo_hist_def ring_single INPUT_SAVE_MAX_def)
  show l: "history_lines demo_hist [2] = [''ls'']" by (simp add: history_lines_def demo_hist_def)
  have "entry_ok ''ls''" unfolding entry_storable by (rule storable_letters)
  then show "hist_ok demo_hist [2]" using h l by (simp add: hist_ok_def del: entry_ok_simps)
qed (simp_all add: demo_hist_def)

lemma zero_hist [simp]: "history_ok (history_zero\<lparr>SIHC_ulId := t\<rparr>) []" "hist_ok (history_zero\<lparr>SIHC_ulId := t\<rparr>) []"
  by (simp_all add: hist_ok_def history_ok_def history_zero_def history_lines_def INPUT_SAVE_MAX_def)

definition demo_session :: "cstring list list session" where
  "demo_session = \<lparr>ss_edit = demo_edit, ss_bufs = True, ss_his = [5 \<mapsto> 0, 6 \<mapsto> 7],
     ss_ctxs = [0 \<mapsto> demo_hist, 7 \<mapsto> history_zero\<lparr>SIHC_ulId := 6\<rparr>],
     ss_lines = \<lparr>LINE_plistNext = (\<lambda>_. None), LINE_plistPrev = (\<lambda>_. None)\<rparr>, ss_hisc = None, ss_file = None,
     ss_mode = 0, ss_writable = True, ss_shell = demo_shell\<rparr>"

definition demo_recv :: recv_state where
  "demo_recv = \<lparr>rv_buffer = replicate (LW_CFG_SHELL_MAX_COMMANDLEN + 1) EOS, rv_total = 0, rv_over = True\<rparr>"

lemma demo_session [simp]:
  "running demo_session 5 0 demo_hist [2] [] demo_root" "waiting demo_session demo_recv 5 0 demo_hist [2] [] demo_root"
  "ss_shell demo_session = demo_shell" "ss_writable demo_session" "ss_edit demo_session = demo_edit"
  "ss_his demo_session 6 = Some 7" "ss_his demo_session 9 = None"
  "ss_ctxs demo_session 7 = Some (history_zero\<lparr>SIHC_ulId := 6\<rparr>)"
proof -
  show "running demo_session 5 0 demo_hist [2] [] demo_root"
    using demo_root demo_hist demo_edit by (simp add: running_def demo_session_def)
  then show "waiting demo_session demo_recv 5 0 demo_hist [2] [] demo_root"
    by (simp add: waiting_def recv_ready_def demo_recv_def demo_session_def)
qed (simp_all add: demo_session_def)

lemma demo_suggest: "suggest (Some demo_root) ''l'' = ''s''"
proof -
  have "list_all storable ''l''" "''l'' \<noteq> []" by (simp_all add: storable_def ascii_def schar_def uchar_def EOS_eq)
  then have "is_word demo_root (''l'' @ suggest (Some demo_root) ''l'')"
    using suggest_word[OF demo_root(2), of "''l''" "''s''"] demo_root(5) by (simp del: is_word_simps)
  then show ?thesis using demo_root(5) by (simp del: is_word_simps)
qed

lemma plain_letters [simp]: "list_all plain ''ls''" "list_all plain ''l''" "plain CHR ''l''"
  by (simp_all add: plain_def ascii_def schar_def uchar_def EOS_eq key_defs uchar_inject[symmetric] del: uchar_inject)

definition demo_tab :: tab_env where
  "demo_tab = \<lparr>te_keys = demo_keys, te_vars = demo_env, te_error = 0, te_width = None, te_home = None,
     te_dir = (\<lambda>d. if d = ''.'' then Some [''main.c.backup'', ''notes''] else None), te_is_dir = (\<lambda>p. False)\<rparr>"

text \<open>The editor with a line in it and the cursor at its end.\<close>

definition demo_line :: "cstring \<Rightarrow> edit_state" where
  "demo_line s = demo_edit\<lparr>SIC_uiCursor := length s, SIC_uiTotalLen := length s,
     SIC_cInputBuffer := s @ replicate (LW_CFG_SHELL_MAX_COMMANDLEN + 1 - length s) EOS\<rparr>"

lemma demo_line:
  assumes "entry_ok s" "length s \<le> 512"
  shows "edit_ok (demo_line s)" "edit_text (demo_line s) = s" "historyTrieRoot (demo_line s) = Some demo_root"
    "lv_pending (view (demo_line s)) = []"
proof -
  show tx: "edit_text (demo_line s) = s" by (simp add: demo_line_def edit_text_def)
  have "edit_ok demo_edit" by simp
  then show "edit_ok (demo_line s)" unfolding edit_ok_def tx using assms
    by (simp add: demo_line_def entry_ok_def LW_CFG_SHELL_MAX_COMMANDLEN_def)
  show "historyTrieRoot (demo_line s) = Some demo_root" by (simp add: demo_line_def)
  show "lv_pending (view (demo_line s)) = []" by (simp add: demo_line_def view_def demo_edit_def)
qed

end
