(* ===== verification/LineProps.thy ===== *)
theory LineProps
  imports LineDemo
begin

text \<open>
  The properties of the line editor and of the loop of the shell thread, with their witnesses on the
  session of \<open>LineDemo\<close>.
\<close>

section \<open>The shell thread\<close>


lemma demo_comment [simp]:
  "tshellExec os EXEC_DEPTH ''#a'' sh = Inr (0, sh)" "tshellExec os EXEC_DEPTH ''#b'' sh = Inr (0, sh)"
  by (simp_all add: EXEC_DEPTH_def exec_step_def)

lemma demo_text [simp]: "command_text ''#a''" "command_text ''#b''"
  by (simp_all add: command_text_def plain_def ascii_def schar_def uchar_def EOS_eq key_defs uchar_inject[symmetric]
      LW_CFG_SHELL_MAX_COMMANDLEN_def del: uchar_inject)


text \<open>
  C5: from the keyboard to the handler.  Typing a registered keyword and its quoted parameters and
  pressing Enter runs the handler of the keyword exactly once, with exactly these parameters, restores
  the standard files, records the line in the trie if the handler returned 0 and puts it in front of
  the history.
\<close>

theorem typed_command_runs:
  assumes "waiting s rv t a h as xs root" and "b \<notin> set as" and "command_text (command_line kw args)"
    and "keyword_word kw" and "args \<noteq> []" and "length args < LW_CFG_SHELL_MAX_PARAMNUM"
    and "list_all no_redir args" and "list_all op_free args" and "\<not> contains_then (command_line kw args)"
    and "os_hook os = None" and "tshellIsResCmd kw \<or> tshellCheckFile os kw (ss_shell s) = Inr False"
    and "tshellKeywordFind kw (sh_keys (ss_shell s)) = Some (Inr k)"
    and "SK_ulOption (node_of (sh_keys (ss_shell s)) k) AND LW_OPTION_KEYWORD_SYNCBG = 0"
    and "SK_ulOption (node_of (sh_keys (ss_shell s)) k) AND LW_OPTION_KEYWORD_ASYNCBG = 0"
    and "os_run os (SK_pfuncCommand (node_of (sh_keys (ss_shell s)) k)) (kw # args) ((ss_shell s)\<lparr>sh_magic := 0\<rparr>) = (r, sh)"
  shows "\<exists>s' rv' h' as' root'.
    shell_turn te os None al (Some b) t (s, rv, command_line kw args @ LF # bs) = Inr (Turn_Ready (Some r), s', rv', bs) \<and>
    waiting s' rv' t a h' as' xs root' \<and>
    ss_shell s' = (restore_std (sh_std (ss_shell s)) sh)\<lparr>sh_error := r\<rparr> \<and>
    recorded r (command_line kw args) root root' \<and>
    history_lines h' as' = remember (command_line kw args) (history_lines h as)"
proof -
  have len: "length (command_line kw args) < LW_CFG_SHELL_MAX_COMMANDLEN" using assms(3) by (simp add: command_text_def)
  have "tshellExec os EXEC_DEPTH (command_line kw args) (ss_shell s) = Inr (r, restore_std (sh_std (ss_shell s)) sh)"
    using dispatch_runs[OF assms(4-8) len assms(9-14), of "2 * LW_CFG_SHELL_MAX_COMMANDLEN"] assms(15)
    by (simp add: EXEC_DEPTH_def)
  from turn_runs_text[OF assms(1-3) this, of te al bs] show ?thesis by blast
qed

lemma typed_command_runs_witness:
  "\<exists>s' rv' h' as' root'.
    shell_turn demo_tab demo_os None None (Some 11) 5 (demo_session, demo_recv, ''cd \"x\"'' @ LF # []) =
      Inr (Turn_Ready (Some 0), s', rv', []) \<and>
    sh_world (ss_shell s') = [[''cd'', ''x'']] \<and> history_lines h' as' = [''cd \"x\"'', ''ls''] \<and> recorded 0 ''cd \"x\"'' demo_root root'"
proof -
  have l: "command_line ''cd'' [''x''] = ''cd \"x\"''" by (simp add: command_line_def quote_arg_def escape_char_def)
  have kw: "keyword_word ''cd''"
    by (simp add: keyword_word_def lit_ok_def plain_word_def op_free_Cons op_char_def LW_CFG_SHELL_MAX_KEYWORDLEN_def)
  have tx: "command_text (command_line ''cd'' [''x''])" unfolding l
    by (simp add: command_text_def plain_def ascii_def schar_def uchar_def EOS_eq key_defs uchar_inject[symmetric]
        LW_CFG_SHELL_MAX_COMMANDLEN_def del: uchar_inject)
  have run: "os_run demo_os (SK_pfuncCommand (node_of (sh_keys (ss_shell demo_session)) 2)) [''cd'', ''x'']
      ((ss_shell demo_session)\<lparr>sh_magic := 0\<rparr>) = (0, demo_shell\<lparr>sh_magic := 0, sh_world := [[''cd'', ''x'']]\<rparr>)"
    by (simp add: demo_os_def) (simp add: demo_shell_def)
  have nt: "\<not> contains_then (command_line ''cd'' [''x''])" unfolding l by simp
  have no: "list_all no_redir [''x'']" "list_all op_free [''x'']"
    by (simp_all add: no_redir_def op_free_Cons op_char_def EOS_eq)
  have keys: "tshellKeywordFind ''cd'' (sh_keys (ss_shell demo_session)) = Some (Inr 2)"
      "SK_ulOption (node_of (sh_keys (ss_shell demo_session)) 2) = 0"
    using demo_keys by (simp_all add: demo_shell_def)
  have nofile: "tshellIsResCmd ''cd'' \<or> tshellCheckFile demo_os ''cd'' (ss_shell demo_session) = Inr False"
    using demo_file[of "''cd''"] by simp
  have r: "remember ''cd \"x\"'' [''ls''] = [''cd \"x\"'', ''ls'']" by (simp add: remember_def INPUT_SAVE_MAX_def)
  from typed_command_runs[OF demo_session(2) _ tx kw _ _ no nt _ nofile keys(1) _ _ run, of 11 demo_tab None "[]"] keys(2) r
  show ?thesis
    unfolding l by (fastforce simp: LW_CFG_SHELL_MAX_PARAMNUM_def demo_os_def restore_std_def IoTaskStdSet_def simp del: shell_turn_def)
qed

section \<open>Reading a line\<close>

text \<open>
  C2: the line editor refines the editor that is meant.  For every sequence of keys (characters,
  arrows, Home, End, Delete, Backspace) the bytes a terminal sends for them, followed by a line feed, or
  by nothing when the buffer is full, make \<open>__tshellReadline\<close> return the line that the abstract editor
  \<open>edit_step\<close> makes of the keys, cut to the buffer of the caller, and its length; the bytes behind it
  stay unread; the history has the line in front; the state is again one a line can be read in.
\<close>

theorem readline_refines_editor:
  assumes "read_ok st" and "hist_ok h as" and "a \<notin> set as" and "list_all key_ok ks"
    and "room (historyTrieRoot st) (history_lines h as) ks (Line [] [] (pending st), None)"
    and "0 < n" and "ln = typed st (history_lines h as) ks"
    and "length ln < LW_CFG_SHELL_MAX_COMMANDLEN \<and> ends = [LF] \<or> length ln = LW_CFG_SHELL_MAX_COMMANDLEN \<and> ends = []"
  shows "\<exists>h' as' st'. tshellReadline te (Some a) n (Some h) st (concat (map key_bytes ks) @ ends @ bs) =
      Inr (take (n - 1) ln, length ln, Some h', st', bs) \<and>
    hist_ok h' as' \<and> history_lines h' as' = (if ln = [] then history_lines h as else remember ln (history_lines h as)) \<and>
    read_ok st' \<and> historyTrieRoot st' = historyTrieRoot st"
  using readline_keys[OF assms, of te bs] unfolding saved_def by blast

lemma readline_refines_editor_witness:
  "\<exists>h' st'. tshellReadline demo_tab (Some 11) 512 (Some demo_hist) demo_edit
      (''s'' @ [KEY_ESC, KEY_BRACKET, FUNC_KEY_LEFT] @ ''l'' @ LF # ''rest'') = Inr (''ls'', 2, Some h', st', ''rest'')"
proof -
  let ?ks = "[K_Char CHR ''s'', K_Left, K_Char CHR ''l'']"
  have ty: "''ls'' = typed demo_edit (history_lines demo_hist [2]) ?ks"
    by (simp add: typed_def edit_keys_def ask_def view_text_def)
  have rm: "room (historyTrieRoot demo_edit) (history_lines demo_hist [2]) ?ks (Line [] [] (pending demo_edit), None)"
    by (simp add: view_text_def ask_def LW_CFG_SHELL_MAX_COMMANDLEN_def)
  have k: "list_all key_ok ?ks" using plain_letters(1) by simp
  from readline_refines_editor[OF demo_edit(1) demo_hist(2) _ k rm _ ty, of 11 512 "[LF]" demo_tab "''rest''"]
  show ?thesis by (auto simp: LW_CFG_SHELL_MAX_COMMANDLEN_def)
qed

text \<open>
  C36: every pass of the key loop keeps the types.  From a well-formed state, with room in the buffer,
  the body of the loop looks at any ASCII byte but a tab, reads what belongs to it, and comes to its
  jump without a fault; what it leaves is again well-formed (\<open>jump_ok\<close>): cursor and length in the buffer,
  the text ASCII, the suggestion as long as its length says, the place in the history valid.
\<close>

theorem key_step_keeps_state:
  assumes "edit_ok st" and "hist_ok h as" and "cookie_at as p cookie"
    and "SIC_uiTotalLen st < LW_CFG_SHELL_MAX_COMMANDLEN" and "list_all byte_ok bs" and "byte_ok c"
  shows "\<exists>r. key_step te (Some h) c (cookie, st, bs) = Inr r \<and> jump_ok h as (historyTrieRoot st) r"
  by (rule key_step_safe[OF assms])

lemma byte_letters [simp]: "byte_ok CHR ''l''" "byte_ok KEY_ESC" "byte_ok KEY_BRACKET" "byte_ok FUNC_KEY_RIGHT"
  by (simp_all add: byte_ok_def ascii_def schar_def uchar_def key_defs uchar_inject[symmetric] del: uchar_inject)

lemma key_step_keeps_state_witness:
  "\<exists>r. key_step demo_tab (Some demo_hist) KEY_ESC (None, demo_edit, [KEY_BRACKET, FUNC_KEY_RIGHT]) = Inr r \<and>
     jump_ok demo_hist [2] (Some demo_root) r"
  using key_step_keeps_state[of demo_edit demo_hist "[2]" None None "[KEY_BRACKET, FUNC_KEY_RIGHT]" KEY_ESC demo_tab]
  by (simp add: cookie_at_def LW_CFG_SHELL_MAX_COMMANDLEN_def)

text \<open>
  C8: no ASCII input breaks the editor.  Whatever ASCII bytes but tabs arrive, complete keys or not,
  \<open>__tshellReadline\<close> stays inside its buffer and its strings; the only fault there can be is that the
  input ends in the middle of a line, because the buffer is then copied without a terminator.
  Otherwise the length is at most the size of the buffer, and the globals and the history are
  well-formed.
\<close>

theorem readline_safe:
  assumes "read_ok st" and "hist_ok h as" and "a \<notin> set as" and "list_all byte_ok bs"
  shows "case tshellReadline te (Some a) n (Some h) st bs of
      Inl f \<Rightarrow> f = Buffer_Unterminated
    | Inr (s, len, h', st', rest) \<Rightarrow> len \<le> LW_CFG_SHELL_MAX_COMMANDLEN \<and> read_ok st' \<and>
        historyTrieRoot st' = historyTrieRoot st \<and> (\<exists>h1 as1. h' = Some h1 \<and> history_ok h1 as1)"
  by (rule readline_any[OF assms])

lemma readline_safe_witness:
  "case tshellReadline demo_tab (Some 11) 512 (Some demo_hist) demo_edit [CHR ''l'', KEY_ESC, LF] of
      Inl f \<Rightarrow> f = Buffer_Unterminated
    | Inr (s, len, h', st', rest) \<Rightarrow> len \<le> LW_CFG_SHELL_MAX_COMMANDLEN \<and> read_ok st' \<and>
        historyTrieRoot st' = historyTrieRoot demo_edit \<and> (\<exists>h1 as1. h' = Some h1 \<and> history_ok h1 as1)"
  by (rule readline_safe[of demo_edit demo_hist "[2]"]) simp_all

text \<open>
  C35: a line can always be ended.  After any ASCII bytes but tabs, even in the middle of an escape
  sequence, two line feeds make \<open>__tshellReadline\<close> return; the first one can at most be taken as the end
  of the sequence.
\<close>

theorem enter_ends_line:
  assumes "read_ok st" and "hist_ok h as" and "a \<notin> set as" and "list_all byte_ok bs" and "list_all byte_ok rest"
  shows "\<exists>s len h1 as1 st' bs'.
    tshellReadline te (Some a) n (Some h) st (bs @ LF # LF # rest) = Inr (s, len, Some h1, st', bs') \<and>
    len \<le> LW_CFG_SHELL_MAX_COMMANDLEN \<and> read_ok st' \<and> history_ok h1 as1 \<and> historyTrieRoot st' = historyTrieRoot st"
  by (rule readline_ends[OF assms])

lemma enter_ends_line_witness:
  "\<exists>s len h1 st' bs'.
    tshellReadline demo_tab (Some 11) 512 (Some demo_hist) demo_edit ([CHR ''l'', KEY_ESC, KEY_BRACKET] @ LF # LF # []) =
      Inr (s, len, Some h1, st', bs')"
  using enter_ends_line[of demo_edit demo_hist "[2]" 11 "[CHR ''l'', KEY_ESC, KEY_BRACKET]" "[]" demo_tab 512]
  by auto

text \<open>
  C9: the suggestion completes a recorded command.  When the typed text starts a recorded command, as
  many right arrows as the suggestion has characters, and Enter, return a recorded command that starts
  with the text.  This holds for a trie that was loaded from a file as well.
\<close>

theorem suggestion_accepted:
  assumes "read_ok st" and "hist_ok h as" and "a \<notin> set as"
    and "historyTrieRoot st = Some t" and "trie_use storable t" and "\<forall>w. is_word t w \<longrightarrow> length w < LW_CFG_SHELL_MAX_COMMANDLEN"
    and "p \<noteq> []" and "list_all plain p" and "is_word t (p @ q)"
  shows "\<exists>m h' st'. is_word t (p @ m) \<and>
    tshellReadline te (Some a) LW_CFG_SHELL_MAX_COMMANDLEN (Some h) st
      (p @ concat (replicate (length m) [KEY_ESC, KEY_BRACKET, FUNC_KEY_RIGHT]) @ LF # bs) =
      Inr (p @ m, length (p @ m), Some h', st', bs)"
proof -
  let ?m = "suggest (Some t) p" and ?hs = "history_lines h as"
  let ?ks = "map K_Char p @ replicate (length ?m) K_Right"
  have "list_all storable p" using assms(8) by (auto simp: list_all_iff plain_def storable_def)
  then have w: "is_word t (p @ ?m)" using suggest_word[OF assms(5,7) _ assms(9)] by blast
  then have len: "length (p @ ?m) < LW_CFG_SHELL_MAX_COMMANDLEN" using assms(6) by blast
  have k: "list_all key_ok ?ks" using assms(8) by (auto simp: list_all_iff)
  have rm: "room (historyTrieRoot st) ?hs ?ks (Line [] [] (pending st), None)"
    unfolding assms(4) by (rule accept_room[OF assms(7)]) (use len in simp)
  have b: "concat (map key_bytes ?ks) = p @ concat (replicate (length ?m) [KEY_ESC, KEY_BRACKET, FUNC_KEY_RIGHT])"
    using key_bytes_chars[of p] by simp
  have t: "take (LW_CFG_SHELL_MAX_COMMANDLEN - 1) (p @ ?m) = p @ ?m" by (rule take_all) (use len in linarith)
  obtain h' st' where "tshellReadline te (Some a) LW_CFG_SHELL_MAX_COMMANDLEN (Some h) st
      (concat (map key_bytes ?ks) @ [LF] @ bs) =
      Inr (take (LW_CFG_SHELL_MAX_COMMANDLEN - 1) (p @ ?m), length (p @ ?m), Some h', st', bs)"
    using readline_keys[OF assms(1-3) k rm _ accept_typed[OF assms(4,7), symmetric], of LW_CFG_SHELL_MAX_COMMANDLEN "[LF]" te bs] len
    by (auto simp: LW_CFG_SHELL_MAX_COMMANDLEN_def)
  then show ?thesis using w unfolding b t by (intro exI[of _ ?m] exI[of _ h'] exI[of _ st']) simp
qed

lemma suggestion_accepted_witness:
  "\<exists>h' st'. tshellReadline demo_tab (Some 11) LW_CFG_SHELL_MAX_COMMANDLEN (Some demo_hist) demo_edit
      (''l'' @ [KEY_ESC, KEY_BRACKET, FUNC_KEY_RIGHT] @ LF # []) = Inr (''ls'', 2, Some h', st', [])"
proof -
  have short: "\<forall>w. is_word demo_root w \<longrightarrow> length w < LW_CFG_SHELL_MAX_COMMANDLEN"
    using demo_root(5) by (simp add: LW_CFG_SHELL_MAX_COMMANDLEN_def)
  have w: "is_word demo_root (''l'' @ ''s'')" by (simp add: demo_root(5) del: is_word_simps)
  from suggestion_accepted[OF demo_edit(1) demo_hist(2) _ demo_edit(3) demo_root(2) short _ plain_letters(2) w, of 11 demo_tab "[]"]
  show ?thesis by (auto simp: demo_root(5) simp del: is_word_simps)
qed

section \<open>The history and the display\<close>

text \<open>
  C31: the up arrow walks through the history.  Pressed \<open>k + 1\<close> times and followed by Enter it returns
  the \<open>k\<close>-th newest line, which moves to the front; no line is lost or doubled, and the history never
  holds more than twenty.
\<close>

theorem history_recall:
  assumes "read_ok st" and "hist_ok h as" and "a \<notin> set as" and "k < length as"
    and "ln = history_lines h as ! k" and "ln \<noteq> []" and "length ln < LW_CFG_SHELL_MAX_COMMANDLEN"
  shows "\<exists>h' as' st'. tshellReadline te (Some a) LW_CFG_SHELL_MAX_COMMANDLEN (Some h) st
      (concat (replicate (Suc k) [KEY_ESC, KEY_BRACKET, FUNC_KEY_UP]) @ LF # bs) = Inr (ln, length ln, Some h', st', bs) \<and>
    history_ok h' as' \<and> history_lines h' as' = remember ln (history_lines h as)"
proof -
  let ?hs = "history_lines h as" and ?ks = "replicate (Suc k) K_Up"
  have rc: "recalled ln = ln" unfolding recalled_def by (rule take_all) (use assms(7) in linarith)
  have k: "k < length ?hs" using assms(4) by simp
  have ty: "ln = typed st ?hs ?ks" using up_typed[OF k] assms(5) rc by simp
  have rm: "room (historyTrieRoot st) ?hs ?ks (Line [] [] (pending st), None)"
    by (rule room_ups) (simp add: view_text_def LW_CFG_SHELL_MAX_COMMANDLEN_def)
  have b: "concat (map key_bytes ?ks) = concat (replicate (Suc k) [KEY_ESC, KEY_BRACKET, FUNC_KEY_UP])"
    by (simp only: map_replicate key_bytes.simps)
  have t: "take (LW_CFG_SHELL_MAX_COMMANDLEN - 1) ln = ln" by (rule take_all) (use assms(7) in linarith)
  have n: "0 < LW_CFG_SHELL_MAX_COMMANDLEN" by (simp add: LW_CFG_SHELL_MAX_COMMANDLEN_def)
  have "list_all key_ok ?ks" by (simp add: list_all_iff)
  from readline_keys[OF assms(1-3) this rm n ty, of "[LF]" te bs] assms(6,7)
  show ?thesis unfolding b t by (auto simp: saved_def hist_ok_def simp del: replicate.simps)
qed

lemma history_recall_witness:
  "\<exists>h' st'. tshellReadline demo_tab (Some 11) LW_CFG_SHELL_MAX_COMMANDLEN (Some demo_hist) demo_edit
      ([KEY_ESC, KEY_BRACKET, FUNC_KEY_UP] @ LF # []) = Inr (''ls'', 2, Some h', st', [])"
  using history_recall[of demo_edit demo_hist "[2]" 11 0 "''ls''" demo_tab "[]"]
  by (auto simp: LW_CFG_SHELL_MAX_COMMANDLEN_def)



section \<open>The tab key\<close>

text \<open>
  C33: Tab completes a keyword.  On the first word of a line the tab key moves to the end of the line
  and leaves, for no keyword that starts with the word, the line as it is; for one keyword the line
  completed by the rest of the keyword; for several, whose list it prints, the longest common prefix of
  the keywords if that is longer than the word.  Then the suggestion for the new line is asked for.
  The number of all keywords must not be a multiple of 20.
\<close>

theorem tab_completes_keyword:
  assumes "edit_ok st" and "entry_ok (edit_text st)" and "length (edit_text st) < LW_CFG_SHELL_MAX_COMMANDLEN"
    and "edit_text st = pre @ w" and "set pre \<subseteq> white" and "word_ok w"
    and "keyword_ok (te_keys te)" and "length (kw_entries (te_keys te)) mod KEYWORD_BUFF_SIZE \<noteq> 0"
    and "list_all entry_ok (candidates w (te_keys te))"
    and "\<forall>k \<in> set (candidates w (te_keys te)). length (edit_text st) + length k < LW_CFG_SHELL_MAX_COMMANDLEN"
  shows "\<exists>st' t'. tshellCharTab te st = Inr st' \<and> edit_ok st' \<and> historyTrieRoot st' = historyTrieRoot st \<and>
    completed w (candidates w (te_keys te)) (edit_text st) t' \<and>
    view st' = ask (historyTrieRoot st) (Line t' [] (lv_pending (view st)))"
  by (rule CharTab_keyword[OF assms])

lemma letters_ok [simp]:
  "entry_ok ''c''" "entry_ok ''cd''" "entry_ok ''cat no''" "entry_ok ''main.c.backup''" "entry_ok ''notes''"
  by (simp_all add: ascii_def schar_def uchar_def EOS_eq)

lemma tab_completes_keyword_witness:
  "\<exists>st' p. tshellCharTab demo_tab (demo_line ''c'') = Inr st' \<and> view st' = Line ''cd'' [] p"
proof -
  have one: "candidates ''c'' (te_keys demo_tab) = [''cd'']"
    by (simp add: candidates_def demo_tab_def demo_keys(6) demo_regs_def rg_pair_def)
  have n: "length (kw_entries (te_keys demo_tab)) mod KEYWORD_BUFF_SIZE \<noteq> 0"
    by (simp add: demo_tab_def demo_keys(6) demo_regs_def KEYWORD_BUFF_SIZE_def)
  have k: "keyword_ok (te_keys demo_tab)" by (simp add: demo_tab_def demo_keys(5))
  have "length ''c'' \<le> 512" by simp
  note l = demo_line[OF letters_ok(1) this]
  have w: "word_ok ''c''" by (simp add: word_ok_def white_def)
  have "edit_ok (demo_line ''c'')" "edit_text (demo_line ''c'') = [] @ ''c''" using l by simp_all
  from tab_completes_keyword[OF this(1) _ _ this(2) _ w k n] one l
  show ?thesis
    by (auto simp: completed_def ask_def LW_CFG_SHELL_MAX_COMMANDLEN_def ascii_def schar_def uchar_def EOS_eq)
qed

text \<open>
  Tab completes a file name.  On the second word of a line the name behind its last slash is
  looked for in the directory before it (the home directory for a tilde).  No entry leaves the line as
  it is, one entry completes it, with a slash if the entry is a directory, and several complete it to
  their longest common prefix.
\<close>

theorem tab_completes_file:
  assumes "edit_ok st" and "entry_ok (edit_text st)" and "length (edit_text st) < LW_CFG_SHELL_MAX_COMMANDLEN"
    and "edit_text st = pre @ w @ BLANK # v" and "set pre \<subseteq> white" and "word_ok w" and "bare_word v"
    and "real_dir te (tab_dir v) \<noteq> []" and "te_dir te (real_dir te (tab_dir v)) = Some names"
    and "\<forall>k \<in> set names. entry_ok k \<and> SLASH \<notin> set k"
    and "\<forall>k \<in> set names. prefix (tab_name v) k \<longrightarrow> length (edit_text st) + length k + 1 < LW_CFG_SHELL_MAX_COMMANDLEN"
  shows "\<exists>st' s. tshellCharTab te st = Inr st' \<and> edit_ok st' \<and> historyTrieRoot st' = historyTrieRoot st \<and>
    file_rest te (real_dir te (tab_dir v)) (tab_name v) (filter (prefix (tab_name v)) names) s \<and>
    view st' = ask (historyTrieRoot st) (Line (edit_text st @ s) [] (lv_pending (view st)))"
  by (rule CharTab_file[OF assms])

lemma demo_dir [simp]:
  "real_dir demo_tab (tab_dir ''no'') = ''.''" "tab_name ''no'' = ''no''"
  "real_dir demo_tab (tab_dir ''ma'') = ''.''" "tab_name ''ma'' = ''ma''"
  "te_dir demo_tab ''.'' = Some [''main.c.backup'', ''notes'']" "mark_dir demo_tab d f = f"
  by (simp_all add: real_dir_def tab_dir_def tab_name_def lib_rindex_def demo_tab_def mark_dir_def)

lemma tab_completes_file_witness:
  "\<exists>st' p. tshellCharTab demo_tab (demo_line ''cat no'') = Inr st' \<and> view st' = Line ''cat notes'' [] p"
proof -
  have "length ''cat no'' \<le> 512" by simp
  note l = demo_line[OF letters_ok(3) this]
  have w: "word_ok ''cat''" "bare_word ''no''" by (simp_all add: word_ok_def bare_word_def white_def)
  have "edit_ok (demo_line ''cat no'')" "edit_text (demo_line ''cat no'') = [] @ ''cat'' @ BLANK # ''no''" using l by simp_all
  from tab_completes_file[OF this(1) _ _ this(2) _ w, of demo_tab "[''main.c.backup'', ''notes'']"] l
  show ?thesis
    by (auto simp: file_rest_def ask_def LW_CFG_SHELL_MAX_COMMANDLEN_def ascii_def schar_def uchar_def EOS_eq)
qed

text \<open>
  A completion overruns the input buffer.  When the only entry that matches makes the line longer
  than \<open>LW_CFG_SHELL_MAX_COMMANDLEN\<close>, the characters are cut to the buffer but the length counts all of
  them; the loop of \<open>__tshellReadline\<close> then ends, and either the search for a suggestion reads behind
  the buffer or the terminator is written behind it.
\<close>

theorem tab_overruns_buffer:
  assumes "edit_ok st" and "entry_ok (edit_text st)" and "length (edit_text st) < LW_CFG_SHELL_MAX_COMMANDLEN"
    and "edit_text st = pre @ w @ BLANK # v" and "set pre \<subseteq> white" and "word_ok w" and "bare_word v"
    and "real_dir te (tab_dir v) \<noteq> []" and "te_dir te (real_dir te (tab_dir v)) = Some names"
    and "\<forall>k \<in> set names. entry_ok k \<and> SLASH \<notin> set k"
    and "filter (prefix (tab_name v)) names = [k]"
    and "LW_CFG_SHELL_MAX_COMMANDLEN < length (edit_text st) +
      length (drop (length (tab_name v)) (mark_dir te (real_dir te (tab_dir v)) k))"
  shows "\<exists>f. bind_res (tshellCharTab te st) (readline_save alloc psihc) = Inl f"
  by (rule tab_overruns[OF assms])

lemma tab_overruns_buffer_witness:
  "\<exists>f. bind_res (tshellCharTab demo_tab (demo_line (replicate 500 CHR ''a'' @ '' ma''))) (readline_save None None) = Inl f"
proof -
  let ?w = "replicate 500 CHR ''a''" and ?s = "replicate 500 CHR ''a'' @ '' ma''"
  have a: "ascii CHR ''a''" "CHR ''a'' \<noteq> EOS" by (simp_all add: ascii_def schar_def uchar_def EOS_eq)
  then have e: "entry_ok ?s"
    unfolding entry_storable by (auto simp: list_all_iff storable_def ascii_def schar_def uchar_def EOS_eq)
  have "length ?s \<le> 512" by simp
  note l = demo_line[OF e this]
  have w: "word_ok ?w" "bare_word ''ma''" by (auto simp: word_ok_def bare_word_def white_def)
  have t: "edit_text (demo_line ?s) = [] @ ?w @ BLANK # ''ma''" using l(2) by simp
  show ?thesis
    by (rule tab_overruns_buffer[OF l(1) _ _ t _ w, of demo_tab "[''main.c.backup'', ''notes'']" "''main.c.backup''"])
      (use l(2) e in \<open>simp_all add: LW_CFG_SHELL_MAX_COMMANDLEN_def ascii_def schar_def uchar_def EOS_eq\<close>)
qed

section \<open>The life of a shell\<close>

text \<open>
  C30: Ctrl-C keeps everything.  When a shell thread is restarted, the history is marked
  (\<open>__tshellHistoryBackup\<close>), put aside by the hook of the deletion (\<open>__tshellReadlineClean\<close>, which also
  writes the trie to the file and frees it) and found again by the first line that is read
  (\<open>__tshellReadlineInit\<close>): the same context with the same lines, the contexts of other threads as they
  were, and a trie that has the same commands and gives the same suggestion for every text.
\<close>

theorem restart_roundtrip:
  assumes "running s t a h as xs root" and "ss_writable s"
  shows "\<exists>s1 s2 root'. tshellReadlineClean junk t (tshellHistoryBackup t s) = Inr s1 \<and> ss_his s1 t = None \<and>
    tshellReadlineInit alloc t s1 = Inr (0, s2) \<and>
    running s2 t a (h\<lparr>SIHC_bNeedBackup := False\<rparr>) as xs root' \<and>
    (\<forall>c p. trieSearch root' (c # p) = trieSearch root (c # p) \<and> is_word root' (c # p) = is_word root (c # p))"
proof -
  have root: "trie_use storable root" "isValid root" using assms(1) by (simp_all add: running_def)
  show ?thesis
    using restart_keeps[OF assms, of junk alloc] reload_root_search[OF root, of junk] is_word_reload_root[OF root(1), of junk]
    by metis
qed

lemma restart_roundtrip_witness:
  "\<exists>s1 s2 root'. tshellReadlineClean (\<lambda>_. EOS) 5 (tshellHistoryBackup 5 demo_session) = Inr s1 \<and>
    tshellReadlineInit None 5 s1 = Inr (0, s2) \<and> ss_his s2 5 = Some 0 \<and> is_word root' ''ls''"
proof -
  obtain s1 s2 root' where "tshellReadlineClean (\<lambda>_. EOS) 5 (tshellHistoryBackup 5 demo_session) = Inr s1"
    "tshellReadlineInit None 5 s1 = Inr (0, s2)" "running s2 5 0 (demo_hist\<lparr>SIHC_bNeedBackup := False\<rparr>) [2] [] root'"
    "is_word root' ''ls''"
    using restart_roundtrip[OF demo_session(1,4), of "\<lambda>_. EOS" None] demo_root(5)[of "''ls''"] by metis
  then show ?thesis unfolding running_def by blast
qed

text \<open>
  The end of a shell leaves nothing behind.  When a thread ends without a restart, every entry of
  its history is freed exactly once and the context with them; the trie is written and freed; the next
  shell starts with an empty history, its own buffers and the suggestions of the file.
\<close>

theorem logout_frees_history:
  assumes "running s t a h as xs root" and "ss_writable s" and "\<not> SIHC_bNeedBackup h" and "b \<notin> set xs"
    and "ss_his s t' = None" and "list_all (\<lambda>x. \<not> history_of s t' x) xs" and "t' \<noteq> t"
  shows "(\<exists>h'. history_free h = Some h' \<and> SIHC_pringHeader h' = None \<and> SIH_cInputSave h' = (\<lambda>_. None)) \<and>
    (\<exists>s1 s2 h2. tshellReadlineClean junk t s = Inr s1 \<and> ss_his s1 t = None \<and> ss_ctxs s1 a = None \<and>
      tshellReadlineInit (Some b) t' s1 = Inr (0, s2) \<and> running s2 t' b h2 [] xs (reload_root junk root))"
proof (rule conjI)
  have "history_ok h as" using assms(1) by (simp add: running_def hist_ok_def)
  then show "\<exists>h'. history_free h = Some h' \<and> SIHC_pringHeader h' = None \<and> SIH_cInputSave h' = (\<lambda>_. None)"
    by (rule history_free_ok)
qed (rule logout_frees[OF assms])

lemma logout_frees_history_witness:
  "\<exists>s1 s2 h2. tshellReadlineClean (\<lambda>_. EOS) 5 demo_session = Inr s1 \<and> ss_ctxs s1 0 = None \<and>
     tshellReadlineInit (Some 20) 9 s1 = Inr (0, s2) \<and> running s2 9 20 h2 [] [] (reload_root (\<lambda>_. EOS) demo_root)"
  using logout_frees_history[OF demo_session(1,4), of 20 9 "\<lambda>_. EOS"] by auto

text \<open>
  The end of one shell breaks the others.  The trie and the two buffers belong to all shell
  threads, but \<open>__tshellReadlineClean\<close> frees them for any thread that ends.  If another shell is then
  executing a command that returns 0, \<open>__tshellAfterExecution\<close> inserts into a null trie; if it reads
  a further line and ends, it frees the buffers a second time.
\<close>

theorem shell_exit_breaks_others:
  assumes "running s t a h as xs root" and "ss_writable s" and "\<not> SIHC_bNeedBackup h"
    and "ss_his s t2 = Some a2" and "ss_ctxs s a2 = Some h2" and "history_ok h2 as2" and "t2 \<noteq> t" and "a2 \<noteq> a"
  shows "\<exists>s1 s2. tshellReadlineClean junk t s = Inr s1 \<and>
    on_edit (tshellAfterExecution buf n 0) s1 = Inl Null_Trie \<and>
    tshellReadlineInit al t2 s1 = Inr (0, s2) \<and> tshellReadlineClean junk t2 s2 = Inl Double_Free"
  by (rule exit_breaks_others[OF assms])

lemma shell_exit_breaks_others_witness:
  "\<exists>s1 s2. tshellReadlineClean (\<lambda>_. EOS) 5 demo_session = Inr s1 \<and>
    on_edit (tshellAfterExecution ''ls'' 2 0) s1 = Inl Null_Trie \<and>
    tshellReadlineInit None 6 s1 = Inr (0, s2) \<and> tshellReadlineClean (\<lambda>_. EOS) 6 s2 = Inl Double_Free"
  by (rule shell_exit_breaks_others[OF demo_session(1,4) _ demo_session(6,8) zero_hist(1)]) simp_all

text \<open>
  A continued line overruns the receive buffer.  After a line that ends with a backslash the next
  one is read behind it; the editor returns the length of the line that was typed, not the length that
  was copied, so that the two lengths may add up to more than the buffer, which the thread then
  indexes with their sum.
\<close>

theorem continued_line_overruns:
  assumes "running s t a h as xs root" and "read_ok (ss_edit s)"
    and "length (rv_buffer rv) = LW_CFG_SHELL_MAX_COMMANDLEN + 1" and "rv_total rv + 1 < LW_CFG_SHELL_MAX_COMMANDLEN"
    and "b \<notin> set as" and "list_all plain ln" and "length ln < LW_CFG_SHELL_MAX_COMMANDLEN"
    and "LW_CFG_SHELL_MAX_COMMANDLEN + 1 < rv_total rv + length ln"
  shows "shell_turn te os hook al (Some b) t (s, rv, ln @ LF # bs) = Inl Recv_Bounds"
  by (rule continuation_overruns[OF assms])

lemma continued_line_overruns_witness:
  "shell_turn demo_tab demo_os None None (Some 11) 5
     (demo_session, demo_recv\<lparr>rv_total := 400\<rparr>, replicate 200 CHR ''l'' @ LF # []) = Inl Recv_Bounds"
  using continued_line_overruns[OF demo_session(1), of "demo_recv\<lparr>rv_total := 400\<rparr>" 11 "replicate 200 CHR ''l''"]
    plain_letters(3)
  by (simp add: demo_recv_def LW_CFG_SHELL_MAX_COMMANDLEN_def list_all_iff)

text \<open>
  A suggestion outlives its line.  When the only character of a line is deleted, the suggestion
  that was asked for with it is not dropped; the right arrow on the empty line takes over its first
  character, which then is what Enter returns.
\<close>

theorem stale_suggestion:
  assumes "read_ok st" and "hist_ok h as" and "a \<notin> set as" and "historyTrieRoot st = Some root"
    and "plain c" and "suggest (Some root) [c] = d # m" and "1 < n"
  shows "\<exists>h' st'. tshellReadline te (Some a) n (Some h) st
      ([c, KEY_DEL, KEY_ESC, KEY_BRACKET, FUNC_KEY_RIGHT, LF] @ bs) = Inr ([d], 1, Some h', st', bs)"
proof -
  let ?ks = "[K_Char c, K_Backspace, K_Right]"
  have ty: "[d] = typed st (history_lines h as) ?ks" using stale_pending[of st c d m] assms(4,6) by simp
  have rm: "room (historyTrieRoot st) (history_lines h as) ?ks (Line [] [] (pending st), None)"
    using assms(4,6) by (simp add: view_text_def ask_def LW_CFG_SHELL_MAX_COMMANDLEN_def)
  have k: "list_all key_ok ?ks" using assms(5) by simp
  have n: "0 < n" using assms(7) by simp
  from readline_keys[OF assms(1-3) k rm n ty, of "[LF]" te bs] assms(7)
  show ?thesis by (auto simp: LW_CFG_SHELL_MAX_COMMANDLEN_def take_Cons' )
qed

lemma stale_suggestion_witness:
  "\<exists>h' st'. tshellReadline demo_tab (Some 11) 512 (Some demo_hist) demo_edit
      ([CHR ''l'', KEY_DEL, KEY_ESC, KEY_BRACKET, FUNC_KEY_RIGHT, LF] @ []) = Inr (''s'', 1, Some h', st', [])"
  by (rule stale_suggestion[OF demo_edit(1) demo_hist(2) _ demo_edit(3) plain_letters(3) demo_suggest]) simp_all

section \<open>Copying\<close>

text \<open>
  \<open>lib_memcpy\<close> copies overlapping blocks.  For either word length, every alignment and every
  overlap the copy of \<open>n\<close> bytes from \<open>s\<close> to \<open>d\<close> puts at \<open>d + i\<close> what was at \<open>s + i\<close> before and changes no
  other byte; this is what the editing keys rely on when they move the rest of a line.
\<close>

theorem memcpy_moves:
  "lib_memcpy cpu64 m d s n = (\<lambda>x. if d \<le> x \<and> x < d + n then m (s + (x - d)) else m x)"
  by (auto simp: lib_memcpy_eq store_word_def fun_eq_iff)

end
