(* ===== verification/Bitmap.thy ===== *)
theory Bitmap
  imports Prelude
begin

text \<open>
  The bitmap of priorities of \<open>kernel/core/_BitmapLib.c\<close>, from which the scheduler, the ready tables and
  the message queues take the most urgent entry, and the search for the lowest bit set of a word,
  \<open>archFindLsb\<close>, in the table driven version of \<open>arch/sparc/common/sparcLib.c\<close> (the versions for MIPS and
  ARM are the same).  Priority 0 is the most urgent one.  A bitmap with its invariant is a set of
  priorities, and \<open>_BitmapHigh\<close> is its minimum.
\<close>

type_synonym u8 = "8 word"
type_synonym u16 = "16 word"
type_synonym u32 = "32 word"

section \<open>The lowest bit\<close>

definition ucLsbBitmap :: "nat list" where
  "ucLsbBitmap =
   [0, 0, 1, 0, 2, 0, 1, 0, 3, 0, 1, 0, 2, 0, 1, 0, 4, 0, 1, 0, 2, 0, 1, 0, 3, 0, 1, 0, 2, 0, 1, 0,
    5, 0, 1, 0, 2, 0, 1, 0, 3, 0, 1, 0, 2, 0, 1, 0, 4, 0, 1, 0, 2, 0, 1, 0, 3, 0, 1, 0, 2, 0, 1, 0,
    6, 0, 1, 0, 2, 0, 1, 0, 3, 0, 1, 0, 2, 0, 1, 0, 4, 0, 1, 0, 2, 0, 1, 0, 3, 0, 1, 0, 2, 0, 1, 0,
    5, 0, 1, 0, 2, 0, 1, 0, 3, 0, 1, 0, 2, 0, 1, 0, 4, 0, 1, 0, 2, 0, 1, 0, 3, 0, 1, 0, 2, 0, 1, 0,
    7, 0, 1, 0, 2, 0, 1, 0, 3, 0, 1, 0, 2, 0, 1, 0, 4, 0, 1, 0, 2, 0, 1, 0, 3, 0, 1, 0, 2, 0, 1, 0,
    5, 0, 1, 0, 2, 0, 1, 0, 3, 0, 1, 0, 2, 0, 1, 0, 4, 0, 1, 0, 2, 0, 1, 0, 3, 0, 1, 0, 2, 0, 1, 0,
    6, 0, 1, 0, 2, 0, 1, 0, 3, 0, 1, 0, 2, 0, 1, 0, 4, 0, 1, 0, 2, 0, 1, 0, 3, 0, 1, 0, 2, 0, 1, 0,
    5, 0, 1, 0, 2, 0, 1, 0, 3, 0, 1, 0, 2, 0, 1, 0, 4, 0, 1, 0, 2, 0, 1, 0, 3, 0, 1, 0, 2, 0, 1, 0]"

definition archFindLsb :: "u32 \<Rightarrow> nat" where
  "archFindLsb ui32 =
     (let usMsw = (ucast (drop_bit 16 ui32) :: u16);
          usLsw = (ucast (ui32 AND 0xffff) :: u16) in
      if ui32 = 0 then 0
      else if usLsw \<noteq> 0 then
        (let ucByte = (ucast (usLsw AND 0xff) :: u8) in
         if ucByte \<noteq> 0 then ucLsbBitmap ! unat ucByte + 1
         else ucLsbBitmap ! unat (ucast (drop_bit 8 usLsw) :: u8) + 8 + 1)
      else
        (let ucByte = (ucast (usMsw AND 0xff) :: u8) in
         if ucByte \<noteq> 0 then ucLsbBitmap ! unat ucByte + 16 + 1
         else ucLsbBitmap ! unat (ucast (drop_bit 8 usMsw) :: u8) + 24 + 1))"

text \<open>\<open>k\<close> is the place of the lowest bit of \<open>n\<close>.\<close>

definition lowest_bit :: "nat \<Rightarrow> nat \<Rightarrow> bool" where
  "lowest_bit n k \<longleftrightarrow> n mod 2 ^ Suc k = 2 ^ k"

lemma lowest_bit_iff: "lowest_bit n k \<longleftrightarrow> bit n k \<and> (\<forall>j < k. \<not> bit n j)"
proof -
  have "lowest_bit n k \<longleftrightarrow> take_bit (Suc k) n = 2 ^ k" by (simp add: lowest_bit_def take_bit_eq_mod)
  also have "\<dots> \<longleftrightarrow> bit n k \<and> (\<forall>j < k. \<not> bit n j)"
    unfolding bit_eq_iff by (auto simp: bit_take_bit_iff bit_exp_iff less_Suc_eq)
  finally show ?thesis .
qed

lemma lowest_bit_unique: "lowest_bit n k \<Longrightarrow> lowest_bit n j \<Longrightarrow> k = j"
  unfolding lowest_bit_iff by (meson linorder_neqE_nat)

lemma table_rows: "list_all (\<lambda>(n, k). lowest_bit n k) (zip [1..<256] (tl ucLsbBitmap))"
  by code_simp

lemma table_lowest: "(b :: u8) \<noteq> 0 \<Longrightarrow> lowest_bit (unat b) (ucLsbBitmap ! unat b)"
proof -
  assume b: "b \<noteq> 0"
  define n where "n = unat b - 1"
  have "unat b < 2 ^ LENGTH(8)" by (rule unsigned_less)
  then have n: "unat b = Suc n" "n < 255" using b unat_gt_0[of b] by (auto simp: n_def)
  have "length ucLsbBitmap = 256" by (simp add: ucLsbBitmap_def)
  then have "zip [1..<256] (tl ucLsbBitmap) ! n = (Suc n, ucLsbBitmap ! Suc n)" "n < length (zip [1..<256] (tl ucLsbBitmap))"
    using n by (simp_all add: nth_tl)
  then show ?thesis using table_rows n by (fastforce simp: list_all_length)
qed

text \<open>A byte of a word whose lower bits are clear holds its lowest bit.\<close>

lemma lowest_bit_byte:
  assumes "b = (ucast (drop_bit s w) :: u8)" and "b \<noteq> 0" and "\<forall>j < s. \<not> bit w j"
  shows "lowest_bit (unat (w :: u32)) (ucLsbBitmap ! unat b + s)"
proof -
  let ?k = "ucLsbBitmap ! unat b"
  have k: "bit b ?k" "\<forall>j < ?k. \<not> bit b j"
    using table_lowest[OF assms(2)] by (simp_all add: lowest_bit_iff bit_unsigned_iff)
  have b: "bit b j \<longleftrightarrow> j < 8 \<and> bit w (s + j)" for j
    by (simp add: assms(1) bit_ucast_iff bit_drop_bit_eq)
  have "?k < 8" "bit w (?k + s)" using k(1) b by (auto simp: add.commute)
  moreover have "\<not> bit w j" if "j < ?k + s" for j
  proof (cases "j < s")
    case False
    then show ?thesis using k(2) b[of "j - s"] that \<open>?k < 8\<close> by auto
  qed (use assms(3) in blast)
  ultimately show ?thesis by (simp add: lowest_bit_iff bit_unsigned_iff)
qed

lemma byte_0:
  assumes "(ucast (drop_bit s w) :: u8) = 0" and "\<forall>j < s. \<not> bit (w :: u32) j"
  shows "\<forall>j < s + 8. \<not> bit w j"
proof (intro allI impI)
  fix j assume "j < s + 8"
  show "\<not> bit w j"
  proof (cases "j < s")
    case False
    then have "bit (ucast (drop_bit s w) :: u8) (j - s) \<longleftrightarrow> bit w j"
      using \<open>j < s + 8\<close> by (auto simp: bit_ucast_iff bit_drop_bit_eq)
    then show ?thesis using assms(1) by simp
  qed (use assms(2) in blast)
qed

lemma archFindLsb_bytes:
  "archFindLsb w =
     (let byte = \<lambda>s. (ucast (drop_bit s w) :: u8) in
      if w = 0 then 0 else if byte 0 \<noteq> 0 then ucLsbBitmap ! unat (byte 0) + 1
      else if byte 8 \<noteq> 0 then ucLsbBitmap ! unat (byte 8) + 8 + 1
      else if byte 16 \<noteq> 0 then ucLsbBitmap ! unat (byte 16) + 16 + 1
      else ucLsbBitmap ! unat (byte 24) + 24 + 1)"
proof -
  have m: "(0xff :: u16) = mask 8" "(0xffff :: u32) = mask 16" by (simp_all add: mask_eq_exp_minus_1)
  have low: "(ucast (w AND 0xffff) :: u16) = ucast w"
    unfolding m by (rule bit_word_eqI) (simp add: bit_simps)
  have "(ucast ((ucast w :: u16) AND 0xff) :: u8) = ucast (drop_bit 0 w)"
    "(ucast (drop_bit 8 (ucast w :: u16)) :: u8) = ucast (drop_bit 8 w)"
    "(ucast ((ucast (drop_bit 16 w) :: u16) AND 0xff) :: u8) = ucast (drop_bit 16 w)"
    "(ucast (drop_bit 8 (ucast (drop_bit 16 w) :: u16)) :: u8) = ucast (drop_bit 24 w)"
    unfolding m by (rule bit_word_eqI, simp add: bit_simps add.commute, (linarith)?)+
  moreover have "(ucast w :: u16) = 0 \<longleftrightarrow> (ucast (drop_bit 0 w) :: u8) = 0 \<and> (ucast (drop_bit 8 w) :: u8) = 0"
  proof
    assume "(ucast w :: u16) = 0"
    then have z: "bit (ucast w :: u16) j = False" for j by simp
    then have "j < 16 \<Longrightarrow> \<not> bit w j" for j using z[of j] by (simp add: bit_ucast_iff)
    then show "(ucast (drop_bit 0 w) :: u8) = 0 \<and> (ucast (drop_bit 8 w) :: u8) = 0"
      by (auto simp: bit_eq_iff bit_simps)
  next
    assume a: "(ucast (drop_bit 0 w) :: u8) = 0 \<and> (ucast (drop_bit 8 w) :: u8) = 0"
    have "\<forall>j < 8. \<not> bit w j" using byte_0[of 0 w] a by simp
    then have "\<forall>j < 16. \<not> bit w j" using byte_0[of 8 w] a by simp
    then show "(ucast w :: u16) = 0" by (auto simp: bit_eq_iff bit_simps)
  qed
  ultimately show ?thesis unfolding archFindLsb_def Let_def low by auto
qed

lemma archFindLsb_eq:
  assumes "w \<noteq> 0"
  obtains k where "archFindLsb w = Suc k" "lowest_bit (unat w) k"
proof -
  let ?b = "\<lambda>s. (ucast (drop_bit s w) :: u8)"
  note eq = archFindLsb_bytes[of w, unfolded Let_def]
  show thesis
  proof (cases "?b 0 = 0")
    case False
    then show thesis using eq assms that[of "ucLsbBitmap ! unat (?b 0)"] lowest_bit_byte[OF refl False] by simp
  next
    case b0: True
    then have l0: "\<forall>j < 8. \<not> bit w j" using byte_0[of 0 w] by simp
    show thesis
    proof (cases "?b 8 = 0")
      case False
      then show thesis using eq b0 assms that[of "ucLsbBitmap ! unat (?b 8) + 8"] lowest_bit_byte[OF refl False l0] by simp
    next
      case b8: True
      then have l8: "\<forall>j < 16. \<not> bit w j" using byte_0[of 8 w] l0 by simp
      show thesis
      proof (cases "?b 16 = 0")
        case False
        then show thesis using eq b0 b8 assms that[of "ucLsbBitmap ! unat (?b 16) + 16"] lowest_bit_byte[OF refl False l8] by simp
      next
        case b16: True
        then have l16: "\<forall>j < 24. \<not> bit w j" using byte_0[of 16 w] l8 by simp
        have "?b 24 \<noteq> 0"
        proof
          assume "?b 24 = 0"
          then have "\<forall>j < 32. \<not> bit w j" using byte_0[of 24 w] l16 by simp
          then have "w = 0" by (auto simp: bit_eq_iff dest: bit_imp_le_length)
          then show False using assms by simp
        qed
        then show thesis using eq b0 b8 b16 assms that[of "ucLsbBitmap ! unat (?b 24) + 24"] lowest_bit_byte[OF refl _ l16] by simp
      qed
    qed
  qed
qed

section \<open>Bitmaps\<close>

record bmap =
  BMAP_uiMap :: u32
  BMAP_uiSubMap :: "u32 list"

definition BitmapInit :: bmap where
  "BitmapInit = \<lparr>BMAP_uiMap = 0, BMAP_uiSubMap = replicate 8 0\<rparr>"

text \<open>The expression \<open>1 << n\<close>.\<close>

definition shl1 :: "nat \<Rightarrow> u32" where
  "shl1 n = push_bit n 1"

definition BitmapAdd :: "bmap \<Rightarrow> u8 \<Rightarrow> bmap" where
  "BitmapAdd pbmap ucPriority =
     (let hi = unat (drop_bit 5 ucPriority);
          lo = unat (ucPriority AND 0x1f) in
      pbmap\<lparr>BMAP_uiMap := BMAP_uiMap pbmap OR shl1 hi,
            BMAP_uiSubMap := (BMAP_uiSubMap pbmap)[hi := (BMAP_uiSubMap pbmap ! hi) OR shl1 lo]\<rparr>)"

definition BitmapDel :: "bmap \<Rightarrow> u8 \<Rightarrow> bmap" where
  "BitmapDel pbmap ucPriority =
     (let hi = unat (drop_bit 5 ucPriority);
          lo = unat (ucPriority AND 0x1f);
          sub = (BMAP_uiSubMap pbmap ! hi) AND NOT (shl1 lo);
          pbmap = pbmap\<lparr>BMAP_uiSubMap := (BMAP_uiSubMap pbmap)[hi := sub]\<rparr> in
      if sub = 0 then pbmap\<lparr>BMAP_uiMap := BMAP_uiMap pbmap AND NOT (shl1 hi)\<rparr> else pbmap)"

definition BitmapHigh :: "bmap \<Rightarrow> u8" where
  "BitmapHigh pbmap =
     (let uiHigh = archFindLsb (BMAP_uiMap pbmap) in
      if uiHigh = 0 then 0
      else
        (let uiHigh = uiHigh - 1;
             uiLow = archFindLsb (BMAP_uiSubMap pbmap ! uiHigh) - 1
         in (push_bit 5 (of_nat uiHigh)) OR of_nat uiLow))"

definition BitmapIsEmpty :: "bmap \<Rightarrow> bool" where
  "BitmapIsEmpty pbmap \<longleftrightarrow> BMAP_uiMap pbmap = 0"

text \<open>The set of priorities, and what every bitmap built by the operations satisfies.\<close>

definition prio_word :: "u8 \<Rightarrow> nat" where
  "prio_word p = unat p div 32"

definition prio_bit :: "u8 \<Rightarrow> nat" where
  "prio_bit p = unat p mod 32"

definition bmap_prios :: "bmap \<Rightarrow> u8 set" where
  "bmap_prios b = {p. bit (BMAP_uiSubMap b ! prio_word p) (prio_bit p)}"

definition bmap_ok :: "bmap \<Rightarrow> bool" where
  "bmap_ok b \<longleftrightarrow> length (BMAP_uiSubMap b) = 8 \<and>
     (\<forall>i. bit (BMAP_uiMap b) i \<longleftrightarrow> i < 8 \<and> BMAP_uiSubMap b ! i \<noteq> 0)"

lemma prio_index: "unat (drop_bit 5 p) = prio_word p" "unat (p AND 0x1f) = prio_bit p"
proof -
  have m: "(0x1f :: u8) = mask 5" by (simp add: mask_eq_exp_minus_1)
  show "unat (drop_bit 5 p) = prio_word p" unfolding prio_word_def unat_drop_bit_eq by (simp add: drop_bit_eq_div)
  show "unat (p AND 0x1f) = prio_bit p"
    unfolding m prio_bit_def take_bit_eq_mask[symmetric] unsigned_take_bit_eq by (simp add: take_bit_eq_mod)
qed

lemma prio_bound [simp]: "prio_word p < 8" "prio_bit p < 32"
proof -
  have "unat p < 2 ^ LENGTH(8)" by (rule unsigned_less)
  then show "prio_word p < 8" "prio_bit p < 32" by (simp_all add: prio_word_def prio_bit_def)
qed

lemma prio_unat: "unat p = 32 * prio_word p + prio_bit p"
  by (simp add: prio_word_def prio_bit_def)

lemma prio_eq: "p = q \<longleftrightarrow> prio_word p = prio_word q \<and> prio_bit p = prio_bit q"
  by (metis prio_unat unsigned_word_eqI)

lemma bit_shl1 [simp]: "bit (shl1 n) j \<longleftrightarrow> j = n \<and> n < 32"
  by (auto simp: shl1_def bit_simps)

lemma or_shl1_0: "n < 32 \<Longrightarrow> w OR shl1 n \<noteq> 0"
  by (metis bit_0_eq bit_or_iff bit_shl1 bot_apply bot_bool_def)

lemma Init_ok [simp]: "bmap_ok BitmapInit"
  by (simp add: bmap_ok_def BitmapInit_def)

lemma Init_prios [simp]: "bmap_prios BitmapInit = {}"
  by (simp add: bmap_prios_def BitmapInit_def)

lemma sub_Add:
  assumes "length (BMAP_uiSubMap b) = 8"
  shows "BMAP_uiSubMap (BitmapAdd b p) ! i =
    (if i = prio_word p then BMAP_uiSubMap b ! i OR shl1 (prio_bit p) else BMAP_uiSubMap b ! i)"
  using assms by (simp add: BitmapAdd_def prio_index Let_def)

lemma sub_Del:
  assumes "length (BMAP_uiSubMap b) = 8"
  shows "BMAP_uiSubMap (BitmapDel b p) ! i =
    (if i = prio_word p then BMAP_uiSubMap b ! i AND NOT (shl1 (prio_bit p)) else BMAP_uiSubMap b ! i)"
  using assms by (simp add: BitmapDel_def prio_index Let_def)

lemma Add_prios:
  assumes "bmap_ok b"
  shows "bmap_prios (BitmapAdd b p) = insert p (bmap_prios b)"
proof (rule set_eqI)
  fix q
  have "q \<in> bmap_prios (BitmapAdd b p) \<longleftrightarrow> q \<in> bmap_prios b \<or> prio_word q = prio_word p \<and> prio_bit q = prio_bit p"
    using assms prio_bound[of p] by (simp add: bmap_prios_def bmap_ok_def sub_Add bit_or_iff)
  then show "q \<in> bmap_prios (BitmapAdd b p) \<longleftrightarrow> q \<in> insert p (bmap_prios b)" using prio_eq[of q p] by blast
qed

lemma Add_ok:
  assumes "bmap_ok b"
  shows "bmap_ok (BitmapAdd b p)"
proof -
  have "bit (BMAP_uiMap (BitmapAdd b p)) i \<longleftrightarrow> bit (BMAP_uiMap b) i \<or> i = prio_word p" for i
    using prio_bound(1)[of p] by (auto simp: BitmapAdd_def prio_index Let_def bit_or_iff simp del: prio_bound)
  moreover have "length (BMAP_uiSubMap (BitmapAdd b p)) = length (BMAP_uiSubMap b)" by (simp add: BitmapAdd_def Let_def)
  ultimately show ?thesis using assms by (auto simp: bmap_ok_def sub_Add or_shl1_0)
qed

lemma Del_prios:
  assumes "bmap_ok b"
  shows "bmap_prios (BitmapDel b p) = bmap_prios b - {p}"
proof (rule set_eqI)
  fix q
  have "q \<in> bmap_prios (BitmapDel b p) \<longleftrightarrow> q \<in> bmap_prios b \<and> \<not> (prio_word q = prio_word p \<and> prio_bit q = prio_bit p)"
    using assms prio_bound[of q] by (simp add: bmap_prios_def bmap_ok_def sub_Del bit_and_iff bit_not_iff)
  then show "q \<in> bmap_prios (BitmapDel b p) \<longleftrightarrow> q \<in> bmap_prios b - {p}" using prio_eq[of q p] by blast
qed

lemma Del_ok:
  assumes "bmap_ok b"
  shows "bmap_ok (BitmapDel b p)"
proof -
  have l: "length (BMAP_uiSubMap b) = 8" using assms by (simp add: bmap_ok_def)
  have "bit (BMAP_uiMap (BitmapDel b p)) i \<longleftrightarrow>
      bit (BMAP_uiMap b) i \<and> (i = prio_word p \<longrightarrow> BMAP_uiSubMap (BitmapDel b p) ! i \<noteq> 0)" for i
    using prio_bound(1)[of p] l
    by (auto simp: BitmapDel_def prio_index Let_def bit_and_iff bit_not_iff dest: bit_imp_le_length simp del: prio_bound)
  moreover have "length (BMAP_uiSubMap (BitmapDel b p)) = 8" using l by (simp add: BitmapDel_def Let_def)
  moreover have "BMAP_uiSubMap (BitmapDel b p) ! i = BMAP_uiSubMap b ! i" if "i \<noteq> prio_word p" for i
    using that l by (simp add: sub_Del)
  moreover have "BMAP_uiSubMap b ! i \<noteq> 0" if "BMAP_uiSubMap (BitmapDel b p) ! i \<noteq> 0" for i
  proof
    assume "BMAP_uiSubMap b ! i = 0"
    then show False using that l sub_Del[of b p i] by (simp split: if_splits)
  qed
  ultimately show ?thesis using assms unfolding bmap_ok_def by metis
qed

lemma unat_u8: "n < 256 \<Longrightarrow> unat (of_nat n :: u8) = n"
  by (simp add: unsigned_of_nat take_bit_eq_mod)

lemma prio_of: "i < 8 \<Longrightarrow> j < 32 \<Longrightarrow> \<exists>p. prio_word p = i \<and> prio_bit p = j"
  by (rule exI[of _ "of_nat (32 * i + j)"]) (simp only: prio_word_def prio_bit_def unat_u8[of "32 * i + j"], simp)

lemma IsEmpty_iff:
  assumes "bmap_ok b"
  shows "BitmapIsEmpty b \<longleftrightarrow> bmap_prios b = {}"
proof
  assume "BitmapIsEmpty b"
  then have "BMAP_uiSubMap b ! i = 0" if "i < 8" for i
    using assms that by (simp add: BitmapIsEmpty_def bmap_ok_def)
  then show "bmap_prios b = {}" by (auto simp: bmap_prios_def)
next
  assume none: "bmap_prios b = {}"
  have "BMAP_uiSubMap b ! i = 0" if i: "i < 8" for i
  proof (rule bit_word_eqI)
    fix n assume "n < LENGTH(32)"
    then obtain p where "prio_word p = i" "prio_bit p = n" using prio_of[OF i] by auto
    then show "bit (BMAP_uiSubMap b ! i) n = bit (0 :: u32) n" using none by (auto simp: bmap_prios_def)
  qed
  then have "\<not> bit (BMAP_uiMap b) i" for i using assms by (simp add: bmap_ok_def)
  then show "BitmapIsEmpty b" by (auto simp: BitmapIsEmpty_def bit_eq_iff)
qed

text \<open>\<open>_BitmapHigh\<close> is the most urgent priority.\<close>

lemma High_parts:
  assumes "bmap_ok b" and "\<not> BitmapIsEmpty b"
  obtains i j where "unat (BitmapHigh b) = 32 * i + j" "i < 8" "j < 32"
    "lowest_bit (unat (BMAP_uiMap b)) i" "lowest_bit (unat (BMAP_uiSubMap b ! i)) j"
proof -
  obtain i where i: "archFindLsb (BMAP_uiMap b) = Suc i" "lowest_bit (unat (BMAP_uiMap b)) i"
    using assms(2) archFindLsb_eq by (auto simp: BitmapIsEmpty_def)
  then have "bit (BMAP_uiMap b) i" by (simp add: lowest_bit_iff bit_unsigned_iff)
  then have i8: "i < 8" and sub: "BMAP_uiSubMap b ! i \<noteq> 0" using assms(1) by (simp_all add: bmap_ok_def)
  obtain j where j: "archFindLsb (BMAP_uiSubMap b ! i) = Suc j" "lowest_bit (unat (BMAP_uiSubMap b ! i)) j"
    using sub archFindLsb_eq by blast
  then have j32: "j < 32" by (auto simp: lowest_bit_iff bit_unsigned_iff dest: bit_imp_le_length)
  have "(push_bit 5 (of_nat i) OR of_nat j :: u8) = of_nat (push_bit 5 i OR j)"
    by (simp add: of_nat_or_eq push_bit_of_nat)
  also have "push_bit 5 i OR j = 32 * i + j"
  proof -
    have "take_bit 5 j = j" by (rule take_bit_nat_eq_self) (use j32 in simp)
    then have "bit j n \<longleftrightarrow> n < 5 \<and> bit j n" for n using bit_take_bit_iff[of 5 j n] by simp
    then have "\<not> bit (push_bit 5 i AND j) n" for n by (cases "n < 5") (auto simp: bit_and_iff bit_push_bit_iff)
    then have "push_bit 5 i AND j = 0" by (simp add: bit_eq_iff)
    then have "push_bit 5 i + j = push_bit 5 i OR j" by (rule disjunctive_add_eq_or)
    moreover have "push_bit 5 i = 32 * i" by (simp add: push_bit_eq_mult mult.commute)
    ultimately show ?thesis by (simp only:)
  qed
  finally have "BitmapHigh b = of_nat (32 * i + j)" using i j by (simp add: BitmapHigh_def)
  then have "unat (BitmapHigh b) = 32 * i + j" using i8 j32 unat_u8[of "32 * i + j"] by simp
  then show thesis using that i8 j32 i(2) j(2) by blast
qed

lemma High_Min:
  assumes "bmap_ok b" and "bmap_prios b \<noteq> {}"
  shows "BitmapHigh b \<in> bmap_prios b" "\<forall>p \<in> bmap_prios b. BitmapHigh b \<le> p"
proof -
  obtain i j where h: "unat (BitmapHigh b) = 32 * i + j" and i8: "i < 8" and j32: "j < 32"
    and i: "lowest_bit (unat (BMAP_uiMap b)) i" and j: "lowest_bit (unat (BMAP_uiSubMap b ! i)) j"
    using High_parts[OF assms(1)] assms IsEmpty_iff by metis
  then have "bit (BMAP_uiSubMap b ! i) j" by (simp add: lowest_bit_iff bit_unsigned_iff)
  then show "BitmapHigh b \<in> bmap_prios b" using h j32 by (simp add: bmap_prios_def prio_word_def prio_bit_def)
  show "\<forall>p \<in> bmap_prios b. BitmapHigh b \<le> p"
  proof
    fix p assume "p \<in> bmap_prios b"
    then have p: "bit (BMAP_uiSubMap b ! prio_word p) (prio_bit p)" by (simp add: bmap_prios_def)
    then have "BMAP_uiSubMap b ! prio_word p \<noteq> 0" by auto
    then have "bit (BMAP_uiMap b) (prio_word p)" using assms(1) unfolding bmap_ok_def by simp
    then have "bit (unat (BMAP_uiMap b)) (prio_word p)" by (simp add: bit_unsigned_iff)
    then have le: "i \<le> prio_word p" using i unfolding lowest_bit_iff by (meson leI)
    have "j \<le> prio_bit p" if "i = prio_word p"
    proof -
      have "bit (unat (BMAP_uiSubMap b ! i)) (prio_bit p)" using p that by (simp add: bit_unsigned_iff)
      then show ?thesis using j unfolding lowest_bit_iff by (meson leI)
    qed
    then have "32 * i + j \<le> unat p" using le j32 unfolding prio_unat by (cases "i = prio_word p") linarith+
    then show "BitmapHigh b \<le> p" using h by (simp add: word_le_nat_alt)
  qed
qed

end
