(* ===== verification/KernelHeap.thy ===== *)
theory KernelHeap
  imports RingList
begin

text \<open>
  The memory heap of \<open>kernel/core/_HeapLib.c\<close>, from which \<open>malloc\<close> and the kernel take their memory,
  on a machine with 32-bit words.  A segment is known by the address of its control block; its data
  follow the block.  All segments are linked as neighbours (\<open>SEGMENT_lineManage\<close>), and the free ones are
  on the ring \<open>SEGMENT_ringFreeList\<close>: a segment with a null link in that ring is in use.

  \<open>hp_word\<close> holds the words that the heap itself writes outside of the links and sizes: the magic number,
  which is the last word of a control block, and the mark at the end of a block that is checked for
  overruns.  \<open>hp_lockerr\<close> is what locking the heap returns.  \<open>None\<close> is a null link that is followed.
  Requested sizes are reduced modulo the word size; the other sizes and addresses lie in the heap.
\<close>

section \<open>State\<close>

definition SIZE_MOD :: nat where
  "SIZE_MOD = 2 ^ 32"

definition SIZEOF_WORD :: nat where
  "SIZEOF_WORD = 4"

definition LW_CFG_HEAP_ALIGNMENT :: nat where
  "LW_CFG_HEAP_ALIGNMENT = 8"

definition LW_CFG_HEAP_SEG_MIN_SIZE :: nat where
  "LW_CFG_HEAP_SEG_MIN_SIZE = 16"

definition SEGMENT_BLOCK_SIZE_ALIGN :: nat where
  "SEGMENT_BLOCK_SIZE_ALIGN = 24"

definition LW_SEG_MAGIC_REAL :: nat where
  "LW_SEG_MAGIC_REAL = 0xffffffff"

definition HEAP_SEGMENT_MARK_FLAG :: nat where
  "HEAP_SEGMENT_MARK_FLAG = 0xA5A54321"

definition ROUND_UP :: "nat \<Rightarrow> nat \<Rightarrow> nat" where
  "ROUND_UP x align = (x + (align - 1)) mod SIZE_MOD div align * align"

definition ROUND_DOWN :: "nat \<Rightarrow> nat \<Rightarrow> nat" where
  "ROUND_DOWN x align = x div align * align"

record heap =
  hp_line :: line_store
  hp_ring :: ring_store
  SEGMENT_stByteSize :: "addr \<Rightarrow> nat"
  hp_word :: "addr \<Rightarrow> nat"
  HEAP_pringFreeSegment :: "addr option"
  HEAP_pvStartAddress :: addr
  HEAP_stTotalByteSize :: nat
  HEAP_ulSegmentCounter :: nat
  HEAP_stUsedByteSize :: nat
  HEAP_stFreeByteSize :: nat
  HEAP_stMaxUsedByteSize :: nat
  hp_lockerr :: nat
  hp_crossbord :: bool

definition HEAP_SEGMENT_DATA_PTR :: "addr \<Rightarrow> addr" where
  "HEAP_SEGMENT_DATA_PTR seg = seg + SEGMENT_BLOCK_SIZE_ALIGN"

definition HEAP_SEGMENT_NEXT_PTR :: "heap \<Rightarrow> addr \<Rightarrow> addr" where
  "HEAP_SEGMENT_NEXT_PTR h seg = HEAP_SEGMENT_DATA_PTR seg + SEGMENT_stByteSize h seg"

definition HEAP_SEGMENT_IS_USED :: "heap \<Rightarrow> addr \<Rightarrow> bool" where
  "HEAP_SEGMENT_IS_USED h seg \<longleftrightarrow> LINE_plistPrev (hp_ring h) seg = None"

text \<open>The place of the magic number, the last word of the control block.\<close>

definition magic_at :: "addr \<Rightarrow> addr" where
  "magic_at seg = HEAP_SEGMENT_DATA_PTR seg - SIZEOF_WORD"

definition HEAP_SEGMENT_IS_REAL :: "heap \<Rightarrow> addr \<Rightarrow> bool" where
  "HEAP_SEGMENT_IS_REAL h seg \<longleftrightarrow> hp_word h (magic_at seg) = LW_SEG_MAGIC_REAL"

definition heap_crossbord_size :: "heap \<Rightarrow> nat \<Rightarrow> nat" where
  "heap_crossbord_size h stSize =
     (if hp_crossbord h then (stSize + SIZEOF_WORD) mod SIZE_MOD else stSize)"

definition heap_crossbord_mark :: "addr \<Rightarrow> heap \<Rightarrow> heap" where
  "heap_crossbord_mark seg h =
     (if hp_crossbord h
      then h\<lparr>hp_word := (hp_word h)(HEAP_SEGMENT_NEXT_PTR h seg - SIZEOF_WORD := HEAP_SEGMENT_MARK_FLAG)\<rparr>
      else h)"

text \<open>The check only prints a message.\<close>

definition heap_crossbord_check :: "addr \<Rightarrow> heap \<Rightarrow> bool" where
  "heap_crossbord_check seg h \<longleftrightarrow>
     (hp_crossbord h \<longrightarrow> hp_word h (HEAP_SEGMENT_NEXT_PTR h seg - SIZEOF_WORD) = HEAP_SEGMENT_MARK_FLAG)"

definition HEAP_UPDATA_MAX_USED :: "heap \<Rightarrow> heap" where
  "HEAP_UPDATA_MAX_USED h =
     (if HEAP_stMaxUsedByteSize h < HEAP_stUsedByteSize h
      then h\<lparr>HEAP_stMaxUsedByteSize := HEAP_stUsedByteSize h\<rparr> else h)"

section \<open>Links\<close>

text \<open>The ring operations on the free list, and those on the neighbours.\<close>

definition free_list_del :: "addr \<Rightarrow> heap \<Rightarrow> heap option" where
  "free_list_del seg h =
     (case List_Ring_Del seg (hp_ring h, HEAP_pringFreeSegment h) of
        None \<Rightarrow> None
      | Some (R, hdr) \<Rightarrow> Some (h\<lparr>hp_ring := R, HEAP_pringFreeSegment := hdr\<rparr>))"

definition HEAP_ADD_NEW_SEG_TO_FREELIST :: "addr \<Rightarrow> heap \<Rightarrow> heap option" where
  "HEAP_ADD_NEW_SEG_TO_FREELIST seg h =
     (case (if LINE_plistNext (hp_line h) seg \<noteq> None
            then List_Ring_Add_Ahead seg (hp_ring h, HEAP_pringFreeSegment h)
            else List_Ring_Add_Last seg (hp_ring h, HEAP_pringFreeSegment h)) of
        None \<Rightarrow> None
      | Some (R, hdr) \<Rightarrow> Some (h\<lparr>hp_ring := R, HEAP_pringFreeSegment := hdr\<rparr>))"

definition neighbour_add :: "addr \<Rightarrow> addr \<Rightarrow> heap \<Rightarrow> heap" where
  "neighbour_add new seg h = h\<lparr>hp_line := fst (List_Line_Add_Tail new (hp_line h, Some seg))\<rparr>"

definition neighbour_del :: "addr \<Rightarrow> heap \<Rightarrow> heap" where
  "neighbour_del seg h = h\<lparr>hp_line := fst (List_Line_Del seg (hp_line h, None))\<rparr>"

definition seg_init :: "addr \<Rightarrow> nat \<Rightarrow> heap \<Rightarrow> heap" where
  "seg_init seg stByteSize h =
     h\<lparr>SEGMENT_stByteSize := (SEGMENT_stByteSize h)(seg := stByteSize),
       hp_word := (hp_word h)(magic_at seg := LW_SEG_MAGIC_REAL)\<rparr>"

section \<open>Construction\<close>

definition HeapCtorEx :: "heap \<Rightarrow> addr \<Rightarrow> nat \<Rightarrow> heap option" where
  "HeapCtorEx h pvStartAddress stByteSize =
     (let ulStartAlign = ROUND_UP pvStartAddress LW_CFG_HEAP_ALIGNMENT;
          stByteSize = (if ulStartAlign > pvStartAddress
                        then stByteSize - (ulStartAlign - pvStartAddress) else stByteSize);
          stByteSize = ROUND_DOWN stByteSize LW_CFG_HEAP_ALIGNMENT;
          seg = ulStartAlign;
          h = h\<lparr>hp_line := set_next seg None (set_prev seg None (hp_line h)),
                hp_ring := INIT_LIST_RING_HEAD seg (hp_ring h)\<rparr>;
          h = seg_init seg (stByteSize - SEGMENT_BLOCK_SIZE_ALIGN) h in
      case List_Ring_Add_Ahead seg (hp_ring h, None) of
        None \<Rightarrow> None
      | Some (R, hdr) \<Rightarrow>
          Some (h\<lparr>hp_ring := R, HEAP_pringFreeSegment := hdr, HEAP_pvStartAddress := ulStartAlign,
            HEAP_ulSegmentCounter := 1, HEAP_stTotalByteSize := stByteSize,
            HEAP_stUsedByteSize := SEGMENT_BLOCK_SIZE_ALIGN,
            HEAP_stFreeByteSize := stByteSize - SEGMENT_BLOCK_SIZE_ALIGN,
            HEAP_stMaxUsedByteSize := SEGMENT_BLOCK_SIZE_ALIGN\<rparr>))"

section \<open>Allocation\<close>

text \<open>The \<open>do ... while\<close> loop over the free list.\<close>

partial_function (option) first_fit ::
    "(addr \<Rightarrow> bool) \<Rightarrow> heap \<Rightarrow> addr option \<Rightarrow> addr option option" where
  "first_fit P h p =
     (case p of
        None \<Rightarrow> None
      | Some a \<Rightarrow>
          if P a then Some (Some a)
          else if LINE_plistNext (hp_ring h) a = HEAP_pringFreeSegment h then Some None
          else first_fit P h (LINE_plistNext (hp_ring h) a))"

text \<open>Cutting what is not needed off the segment that was taken, and the accounts.\<close>

definition heap_split :: "addr \<Rightarrow> nat \<Rightarrow> heap \<Rightarrow> heap option" where
  "heap_split seg stSize h =
     (if SEGMENT_stByteSize h seg - stSize > SEGMENT_BLOCK_SIZE_ALIGN + LW_CFG_HEAP_SEG_MIN_SIZE then
        (let stNewSegSize = SEGMENT_stByteSize h seg - stSize;
             h = h\<lparr>SEGMENT_stByteSize := (SEGMENT_stByteSize h)(seg := stSize)\<rparr>;
             new = HEAP_SEGMENT_DATA_PTR seg + stSize;
             h = seg_init new (stNewSegSize - SEGMENT_BLOCK_SIZE_ALIGN) h;
             h = neighbour_add new seg h in
         case HEAP_ADD_NEW_SEG_TO_FREELIST new h of
           None \<Rightarrow> None
         | Some h \<Rightarrow>
             Some (h\<lparr>HEAP_ulSegmentCounter := HEAP_ulSegmentCounter h + 1,
               HEAP_stUsedByteSize := HEAP_stUsedByteSize h + (stSize + SEGMENT_BLOCK_SIZE_ALIGN),
               HEAP_stFreeByteSize := HEAP_stFreeByteSize h - (stSize + SEGMENT_BLOCK_SIZE_ALIGN)\<rparr>))
      else
        Some (h\<lparr>HEAP_stUsedByteSize := HEAP_stUsedByteSize h + SEGMENT_stByteSize h seg,
          HEAP_stFreeByteSize := HEAP_stFreeByteSize h - SEGMENT_stByteSize h seg\<rparr>))"

definition HeapAllocate :: "nat \<Rightarrow> heap \<Rightarrow> (addr option \<times> heap) option" where
  "HeapAllocate stByteSize h =
     (let stSize = ROUND_UP (heap_crossbord_size h stByteSize) LW_CFG_HEAP_SEG_MIN_SIZE in
      if HEAP_stFreeByteSize h < stSize then Some (None, h)
      else if hp_lockerr h \<noteq> 0 then Some (None, h)
      else if HEAP_pringFreeSegment h = None then Some (None, h)
      else
        (case first_fit (\<lambda>a. SEGMENT_stByteSize h a \<ge> stSize) h (HEAP_pringFreeSegment h) of
           None \<Rightarrow> None
         | Some None \<Rightarrow> Some (None, h)
         | Some (Some seg) \<Rightarrow>
             Option.bind (free_list_del seg h) (\<lambda>h.
             Option.bind (heap_split seg stSize h) (\<lambda>h.
               Some (Some (HEAP_SEGMENT_DATA_PTR seg), heap_crossbord_mark seg (HEAP_UPDATA_MAX_USED h))))))"

section \<open>Release\<close>

text \<open>\<open>_HeapVerify\<close>: the used segment that an address belongs to, if there is one.\<close>

definition HeapVerify :: "heap \<Rightarrow> addr \<Rightarrow> addr option option" where
  "HeapVerify h pv =
     (if pv < HEAP_pvStartAddress h \<or> pv \<ge> HEAP_pvStartAddress h + HEAP_stTotalByteSize h then Some None
      else
        (case line_find (\<lambda>seg. pv > seg \<and> pv \<le> HEAP_SEGMENT_NEXT_PTR h seg) (hp_line h)
                (Some (HEAP_pvStartAddress h)) of
           None \<Rightarrow> None
         | Some None \<Rightarrow> Some None
         | Some (Some seg) \<Rightarrow> Some (if HEAP_SEGMENT_IS_USED h seg then Some seg else None)))"

text \<open>The segment that is to be released, with or without the check.\<close>

definition heap_lookup :: "bool \<Rightarrow> addr \<Rightarrow> heap \<Rightarrow> addr option option" where
  "heap_lookup bIsNeedVerify pv h =
     (if bIsNeedVerify then HeapVerify h pv
      else
        (let seg = pv - SEGMENT_BLOCK_SIZE_ALIGN;
             seg = (if HEAP_SEGMENT_IS_REAL h seg then seg else hp_word h (pv - SIZEOF_WORD)) in
         Some (if HEAP_SEGMENT_IS_REAL h seg \<and> HEAP_SEGMENT_IS_USED h seg then Some seg else None)))"

definition heap_account :: "nat \<Rightarrow> heap \<Rightarrow> heap" where
  "heap_account n h =
     h\<lparr>HEAP_stUsedByteSize := HEAP_stUsedByteSize h - n, HEAP_stFreeByteSize := HEAP_stFreeByteSize h + n\<rparr>"

text \<open>Up to the label \<open>__merge_right\<close>: whether the segment was joined to its left neighbour.\<close>

definition heap_merge_left :: "addr \<Rightarrow> heap \<Rightarrow> (bool \<times> addr \<times> heap) option" where
  "heap_merge_left seg h =
     (let plineLeft = LINE_plistPrev (hp_line h) seg;
          plineRight = LINE_plistNext (hp_line h) seg;
          stFree = SEGMENT_stByteSize h seg in
      case plineLeft of
        None \<Rightarrow> Some (False, seg, h)
      | Some left \<Rightarrow>
          if HEAP_SEGMENT_IS_USED h left \<or> HEAP_SEGMENT_NEXT_PTR h left \<noteq> seg then Some (False, seg, h)
          else
            (let h = h\<lparr>SEGMENT_stByteSize := (SEGMENT_stByteSize h)
                        (left := SEGMENT_stByteSize h left + (stFree + SEGMENT_BLOCK_SIZE_ALIGN))\<rparr>;
                 h = neighbour_del seg h;
                 h = heap_account (SEGMENT_BLOCK_SIZE_ALIGN + stFree)
                       (h\<lparr>HEAP_ulSegmentCounter := HEAP_ulSegmentCounter h - 1\<rparr>) in
             if plineRight = None then
               Option.bind (free_list_del left h) (\<lambda>h.
               Option.bind (HEAP_ADD_NEW_SEG_TO_FREELIST left h) (\<lambda>h. Some (True, left, h)))
             else Some (True, left, h)))"

text \<open>From there on; \<open>plineRight\<close> and the size were read before the left merge.\<close>

definition heap_merge_right :: "addr option \<Rightarrow> nat \<Rightarrow> bool \<times> addr \<times> heap \<Rightarrow> heap option" where
  "heap_merge_right plineRight stFree x =
     (let (bIsMergeOk, seg, h) = x;
          fail = (if bIsMergeOk then Some h
                  else Option.bind (HEAP_ADD_NEW_SEG_TO_FREELIST seg h) (\<lambda>h. Some (heap_account stFree h))) in
      case plineRight of
        None \<Rightarrow> fail
      | Some right \<Rightarrow>
          if HEAP_SEGMENT_IS_USED h right \<or> HEAP_SEGMENT_NEXT_PTR h seg \<noteq> right then fail
          else
            (let h = h\<lparr>SEGMENT_stByteSize := (SEGMENT_stByteSize h)
                        (seg := SEGMENT_stByteSize h seg + (SEGMENT_stByteSize h right + SEGMENT_BLOCK_SIZE_ALIGN))\<rparr> in
             Option.bind (free_list_del right h) (\<lambda>h.
               let h = neighbour_del right h;
                   h = h\<lparr>HEAP_ulSegmentCounter := HEAP_ulSegmentCounter h - 1\<rparr> in
               if \<not> bIsMergeOk then
                 Option.bind (HEAP_ADD_NEW_SEG_TO_FREELIST seg h) (\<lambda>h.
                   Some (heap_account (SEGMENT_BLOCK_SIZE_ALIGN + stFree) h))
               else
                 Option.bind
                   (if LINE_plistNext (hp_line h) seg = None
                    then Option.bind (free_list_del seg h) (HEAP_ADD_NEW_SEG_TO_FREELIST seg)
                    else Some h)
                   (\<lambda>h. Some (heap_account SEGMENT_BLOCK_SIZE_ALIGN h)))))"

definition heap_release :: "addr \<Rightarrow> heap \<Rightarrow> heap option" where
  "heap_release seg h =
     Option.bind (heap_merge_left seg h)
       (heap_merge_right (LINE_plistNext (hp_line h) seg) (SEGMENT_stByteSize h seg))"

text \<open>The result is the null pointer, 0, or the address that was not released.\<close>

definition HeapFree :: "addr \<Rightarrow> bool \<Rightarrow> heap \<Rightarrow> (addr \<times> heap) option" where
  "HeapFree pv bIsNeedVerify h =
     (if pv = 0 then Some (pv, h)
      else if hp_lockerr h \<noteq> 0 then Some (pv, h)
      else
        (case heap_lookup bIsNeedVerify pv h of
           None \<Rightarrow> None
         | Some None \<Rightarrow> Some (pv, h)
         | Some (Some seg) \<Rightarrow> Option.bind (heap_release seg h) (\<lambda>h. Some (0, h))))"

declare first_fit.simps [code]

end
