(* ===== verification/HeapLayout.thy ===== *)
theory HeapLayout
  imports KernelHeap
begin

text \<open>
  The invariant of the memory heap and what the changes of links and sizes do to it: the segments tile the
  memory in the order of the neighbour list, the ring holds the free ones, and the counters are exact.
\<close>

section \<open>The layout of the memory\<close>

text \<open>\<open>chain sz xs a e\<close>: the segments \<open>xs\<close> of sizes \<open>sz\<close> fill the addresses from \<open>a\<close> to \<open>e\<close> without a gap.\<close>

abbreviation BLK :: nat where
  "BLK \<equiv> SEGMENT_BLOCK_SIZE_ALIGN"

fun chain :: "(addr \<Rightarrow> nat) \<Rightarrow> addr list \<Rightarrow> addr \<Rightarrow> addr \<Rightarrow> bool" where
  "chain sz [] a e \<longleftrightarrow> a = e"
| "chain sz (s # xs) a e \<longleftrightarrow> s = a \<and> chain sz xs (s + BLK + sz s) e"

lemma BLK_pos [simp]: "0 < BLK"
  by (simp add: SEGMENT_BLOCK_SIZE_ALIGN_def)

lemma BLK_not0 [simp]: "BLK \<noteq> 0"
  by (simp add: SEGMENT_BLOCK_SIZE_ALIGN_def)

lemma chain_append: "chain sz (xs @ ys) a e \<longleftrightarrow> (\<exists>m. chain sz xs a m \<and> chain sz ys m e)"
  by (induction xs arbitrary: a) auto

lemma chain_cong: "(\<And>x. x \<in> set xs \<Longrightarrow> sz x = sz' x) \<Longrightarrow> chain sz xs a e = chain sz' xs a e"
  by (induction xs arbitrary: a) auto

lemma chain_le: "chain sz xs a e \<Longrightarrow> a \<le> e"
  by (induction xs arbitrary: a) fastforce+

lemma chain_mem: "chain sz xs a e \<Longrightarrow> x \<in> set xs \<Longrightarrow> a \<le> x \<and> x + BLK + sz x \<le> e"
proof (induction xs arbitrary: a)
  case (Cons s xs)
  then show ?case using chain_le[of sz xs "s + BLK + sz s" e] by fastforce
qed simp

lemma chain_distinct: "chain sz xs a e \<Longrightarrow> distinct xs"
proof (induction xs arbitrary: a)
  case (Cons s xs)
  have "s \<notin> set xs"
  proof
    assume "s \<in> set xs"
    then have "s + BLK + sz s \<le> s" using chain_mem[of sz xs "s + BLK + sz s" e s] Cons.prems by auto
    then show False using BLK_pos by linarith
  qed
  then show ?case using Cons by auto
qed simp

lemma chain_total: "chain sz xs a e \<Longrightarrow> e = a + (\<Sum>s \<leftarrow> xs. BLK + sz s)"
proof (induction xs arbitrary: a)
  case (Cons s xs)
  then have "s = a" "chain sz xs (s + BLK + sz s) e" unfolding chain.simps by blast+
  from Cons.IH[OF this(2)] this(1) show ?case by simp
qed simp

text \<open>Two segments do not overlap.\<close>

lemma chain_apart:
  assumes "chain sz xs a e" and "x \<in> set xs" and "y \<in> set xs" and "x < y"
  shows "x + BLK + sz x \<le> y"
proof -
  obtain us vs where xs: "xs = us @ x # vs" using assms(2) by (auto simp: in_set_conv_decomp)
  obtain m where m: "chain sz us a m" "x = m" "chain sz vs (x + BLK + sz x) e" using assms(1) by (auto simp: xs chain_append)
  have "y \<in> set vs" using assms(3,4) chain_mem[OF m(1), of y] m(2) by (auto simp: xs)
  then show ?thesis using chain_mem[OF m(3)] by blast
qed

text \<open>Splitting and joining.\<close>

lemma chain_split:
  assumes "chain sz (xs @ s # ys) a e" and "n + BLK \<le> sz s" and "new = s + BLK + n"
  shows "new \<notin> set (xs @ s # ys)" "chain (sz(s := n, new := sz s - n - BLK)) (xs @ s # new # ys) a e"
proof -
  obtain m where m: "chain sz xs a s" "chain sz ys (s + BLK + sz s) e" using assms(1) by (auto simp: chain_append)
  have "x < s" if "x \<in> set xs" for x using chain_mem[OF m(1) that] BLK_pos by linarith
  moreover have "new < y" if "y \<in> set ys" for y using chain_mem[OF m(2) that] assms(2,3) BLK_pos by linarith
  moreover have "s < new" using assms(3) BLK_pos by linarith
  ultimately have x: "\<forall>x \<in> set xs. x < s" "\<forall>y \<in> set ys. new < y" "s < new" by blast+
  then show "new \<notin> set (xs @ s # ys)" by force
  let ?sz = "sz(s := n, new := sz s - n - BLK)"
  have "chain ?sz xs a s = chain sz xs a s" by (rule chain_cong) (use x in auto)
  moreover have "chain ?sz ys (s + BLK + sz s) e = chain sz ys (s + BLK + sz s) e"
  proof (rule chain_cong)
    fix y assume "y \<in> set ys"
    then have "new < y" using x(2) by blast
    then show "?sz y = sz y" using x(3) by simp
  qed
  moreover have "new + BLK + (sz s - n - BLK) = s + BLK + sz s" using assms(2,3) by simp
  ultimately show "chain (sz(s := n, new := sz s - n - BLK)) (xs @ s # new # ys) a e"
    using x(3) m assms(3) BLK_pos unfolding chain_append by (intro exI[of _ s]) (simp add: add.assoc)
qed

lemma chain_join:
  assumes "chain sz (xs @ s # r # ys) a e"
  shows "r = s + BLK + sz s" "chain (sz(s := sz s + (sz r + BLK))) (xs @ s # ys) a e"
proof -
  have d: "s \<notin> set xs" "s \<notin> set ys" using chain_distinct[OF assms] by auto
  show r: "r = s + BLK + sz s" using assms by (auto simp: chain_append)
  have "chain (sz(s := sz s + (sz r + BLK))) xs a m = chain sz xs a m" for m by (rule chain_cong) (use d in auto)
  moreover have "chain (sz(s := sz s + (sz r + BLK))) ys m e = chain sz ys m e" for m by (rule chain_cong) (use d in auto)
  ultimately show "chain (sz(s := sz s + (sz r + BLK))) (xs @ s # ys) a e"
    using assms r by (auto simp: chain_append add.assoc add.commute add.left_commute)
qed

section \<open>Well-formed heaps\<close>

text \<open>
  \<open>heap_ok h xs fs\<close>: the segments of the heap are \<open>xs\<close>, in the order of their addresses, and the free ones
  are \<open>fs\<close>, in the order of the free list.
\<close>

definition free_bytes :: "heap \<Rightarrow> addr list \<Rightarrow> nat" where
  "free_bytes h fs = (\<Sum>s \<leftarrow> fs. SEGMENT_stByteSize h s)"

definition heap_links :: "heap \<Rightarrow> addr list \<Rightarrow> addr list \<Rightarrow> bool" where
  "heap_links h xs fs \<longleftrightarrow>
     line (hp_line h) (Some (HEAP_pvStartAddress h)) xs \<and>
     ring (hp_ring h) (HEAP_pringFreeSegment h) fs \<and> set fs \<subseteq> set xs \<and>
     (\<forall>s \<in> set xs - set fs. HEAP_SEGMENT_IS_USED h s)"

definition heap_layout :: "heap \<Rightarrow> addr list \<Rightarrow> bool" where
  "heap_layout h xs \<longleftrightarrow>
     chain (SEGMENT_stByteSize h) xs (HEAP_pvStartAddress h) (HEAP_pvStartAddress h + HEAP_stTotalByteSize h) \<and>
     0 < HEAP_pvStartAddress h \<and> LW_CFG_HEAP_ALIGNMENT dvd HEAP_pvStartAddress h \<and>
     HEAP_pvStartAddress h + HEAP_stTotalByteSize h < SIZE_MOD \<and>
     (\<forall>s \<in> set xs. LW_CFG_HEAP_ALIGNMENT dvd SEGMENT_stByteSize h s \<and> HEAP_SEGMENT_IS_REAL h s)"

definition heap_counts :: "heap \<Rightarrow> addr list \<Rightarrow> addr list \<Rightarrow> bool" where
  "heap_counts h xs fs \<longleftrightarrow>
     HEAP_ulSegmentCounter h = length xs \<and> HEAP_stFreeByteSize h = free_bytes h fs \<and>
     HEAP_stUsedByteSize h + HEAP_stFreeByteSize h = HEAP_stTotalByteSize h"

definition heap_ok :: "heap \<Rightarrow> addr list \<Rightarrow> addr list \<Rightarrow> bool" where
  "heap_ok h xs fs \<longleftrightarrow> heap_links h xs fs \<and> heap_layout h xs \<and> heap_counts h xs fs"

text \<open>No two neighbours are both free.\<close>

definition coalesced :: "addr set \<Rightarrow> addr list \<Rightarrow> bool" where
  "coalesced F = successively (\<lambda>s r. \<not> (s \<in> F \<and> r \<in> F))"

text \<open>The blocks in use: the address of the data and the size.\<close>

definition heap_live :: "heap \<Rightarrow> addr list \<Rightarrow> addr list \<Rightarrow> addr \<rightharpoonup> nat" where
  "heap_live h xs fs p =
     (if BLK \<le> p \<and> p - BLK \<in> set xs - set fs then Some (SEGMENT_stByteSize h (p - BLK)) else None)"

lemma ring_used:
  assumes "ring S h fs" and "x \<in> set fs"
  shows "LINE_plistPrev S x \<noteq> None"
  using assms
proof (cases fs rule: ring_cases)
  case (3 a ys z)
  have "LINE_plistPrev S x \<noteq> None" if "dseg S (Some p) q ys l n" "x \<in> set ys" for p q l n
    using that by (induction ys arbitrary: p q) auto
  then show ?thesis using 3 assms by (auto simp: ring_two last_opt_def dest: dseg_last)
qed (auto simp: ring_single)

lemma used_iff:
  assumes "heap_links h xs fs" and "s \<in> set xs"
  shows "HEAP_SEGMENT_IS_USED h s \<longleftrightarrow> s \<notin> set fs"
  using assms ring_used[of "hp_ring h" "HEAP_pringFreeSegment h" fs s]
  by (auto simp: heap_links_def HEAP_SEGMENT_IS_USED_def)

lemma first_fit_ring:
  assumes "ring (hp_ring h) (HEAP_pringFreeSegment h) fs" and "fs \<noteq> []"
  shows "first_fit P h (HEAP_pringFreeSegment h) = Some (find P fs)"
proof -
  let ?S = "hp_ring h" and ?hd = "HEAP_pringFreeSegment h"
  obtain x ys where fs: "fs = x # ys" using assms(2) by (cases fs) auto
  have hd: "?hd = Some x" "x \<notin> set ys" using assms(1) fs by (auto simp: ring_def)
  have run: "first_fit P h p = Some (find P zs)"
    if "dseg ?S pv p zs l ?hd" "zs \<noteq> []" "x \<notin> set (tl zs)" for pv p zs l
    using that
  proof (induction zs arbitrary: pv p)
    case (Cons z zs)
    show ?case
    proof (cases zs)
      case Nil
      then show ?thesis using Cons.prems by (subst first_fit.simps) auto
    next
      case (Cons w ws)
      then have "LINE_plistNext ?S z \<noteq> ?hd" using Cons.prems hd(1) by auto
      moreover have "first_fit P h (LINE_plistNext ?S z) = Some (find P zs)"
        using Cons.IH[of "Some z" "LINE_plistNext ?S z"] Cons.prems Cons by auto
      ultimately show ?thesis using Cons.prems by (subst first_fit.simps) auto
    qed
  qed simp
  have "dseg ?S (Some (last fs)) ?hd fs (Some (last fs)) ?hd" using assms(1) fs hd(1) by (simp add: ring_def)
  from run[OF this assms(2)] show ?thesis using hd(2) fs by simp
qed

section \<open>The links under the operations\<close>

text \<open>The segments not on the free list are marked as used, but for \<open>s\<close>, which is being set up.\<close>

definition heap_links_but :: "addr \<Rightarrow> heap \<Rightarrow> addr list \<Rightarrow> addr list \<Rightarrow> bool" where
  "heap_links_but s h xs fs \<longleftrightarrow>
     line (hp_line h) (Some (HEAP_pvStartAddress h)) xs \<and>
     ring (hp_ring h) (HEAP_pringFreeSegment h) fs \<and> set fs \<subseteq> set xs \<and>
     (\<forall>t \<in> set xs - set fs - {s}. HEAP_SEGMENT_IS_USED h t)"

lemma links_but: "heap_links h xs fs \<Longrightarrow> heap_links_but s h xs fs"
  by (auto simp: heap_links_def heap_links_but_def)

lemma free_list_del_ok:
  assumes "heap_links h xs (us @ s # vs)"
  obtains R hdr where "free_list_del s h = Some (h\<lparr>hp_ring := R, HEAP_pringFreeSegment := hdr\<rparr>)"
    "heap_links (h\<lparr>hp_ring := R, HEAP_pringFreeSegment := hdr\<rparr>) xs (us @ vs)" "s \<notin> set (us @ vs)"
proof -
  have r: "ring (hp_ring h) (HEAP_pringFreeSegment h) (us @ s # vs)" using assms by (simp add: heap_links_def)
  then have d: "s \<notin> set (us @ vs)" by (cases us) (auto simp: ring_def)
  obtain R hdr where R: "List_Ring_Del s (hp_ring h, HEAP_pringFreeSegment h) = Some (R, hdr)"
    "ring R hdr (us @ vs)" "LINE_plistPrev R s = None" "same_links (- set (us @ s # vs)) (hp_ring h) R"
    using Ring_Del_ring[OF r] by blast
  have "LINE_plistPrev R t = None" if "t \<in> set xs - set (us @ vs)" for t
    using that R(3,4) assms by (cases "t = s") (auto simp: same_links_def heap_links_def HEAP_SEGMENT_IS_USED_def)
  then have "heap_links (h\<lparr>hp_ring := R, HEAP_pringFreeSegment := hdr\<rparr>) xs (us @ vs)"
    using R(2) assms by (auto simp: heap_links_def HEAP_SEGMENT_IS_USED_def)
  then show thesis using that R(1) d by (simp add: free_list_del_def)
qed

lemma free_list_add_ok:
  assumes "heap_links_but s h xs fs" and "s \<in> set xs" and "s \<notin> set fs"
  obtains R hdr fs' where
    "HEAP_ADD_NEW_SEG_TO_FREELIST s h = Some (h\<lparr>hp_ring := R, HEAP_pringFreeSegment := hdr\<rparr>)"
    "heap_links (h\<lparr>hp_ring := R, HEAP_pringFreeSegment := hdr\<rparr>) xs fs'" "fs' = s # fs \<or> fs' = fs @ [s]"
proof -
  have r: "ring (hp_ring h) (HEAP_pringFreeSegment h) fs" using assms(1) by (simp add: heap_links_but_def)
  have links: "heap_links (h\<lparr>hp_ring := R, HEAP_pringFreeSegment := hdr\<rparr>) xs fs'"
    if "ring R hdr fs'" "set fs' = insert s (set fs)" "same_links (- insert s (set fs)) (hp_ring h) R" for R hdr fs'
    using that assms by (auto simp: heap_links_def heap_links_but_def HEAP_SEGMENT_IS_USED_def same_links_def)
  show thesis
  proof (cases "LINE_plistNext (hp_line h) s = None")
    case True
    obtain R hdr where R: "List_Ring_Add_Last s (hp_ring h, HEAP_pringFreeSegment h) = Some (R, hdr)"
      "ring R hdr (fs @ [s])" "same_links (- insert s (set fs)) (hp_ring h) R"
      using Ring_Add_Last_ring[OF r assms(3)] by blast
    then show thesis
      using that[where R = R and hdr = hdr and fs' = "fs @ [s]"] links[of R hdr "fs @ [s]"] True by (simp add: HEAP_ADD_NEW_SEG_TO_FREELIST_def)
  next
    case False
    obtain R where R: "List_Ring_Add_Ahead s (hp_ring h, HEAP_pringFreeSegment h) = Some (R, Some s)"
      "ring R (Some s) (s # fs)" "same_links (- insert s (set fs)) (hp_ring h) R"
      using Ring_Add_Ahead_ring[OF r assms(3)] by blast
    then show thesis
      using that[where R = R and hdr = "Some s" and fs' = "s # fs"] links[of R "Some s" "s # fs"] False by (simp add: HEAP_ADD_NEW_SEG_TO_FREELIST_def)
  qed
qed

lemma Add_Tail_Right:
  "new \<noteq> l \<Longrightarrow> fst (List_Line_Add_Tail new (S, Some l)) = List_Line_Add_Right new l S"
  by (auto simp: List_Line_Add_Tail_def List_Line_Add_Right_def set_next_def set_prev_def fun_eq_iff split: option.splits)

lemma neighbour_add_ok:
  assumes "heap_links h (xs @ s # ys) fs" and "new \<notin> set (xs @ s # ys)"
  shows "heap_links_but new (neighbour_add new s h) (xs @ s # new # ys) fs"
  using assms Add_Right_line(1)[of "hp_line h" "Some (HEAP_pvStartAddress h)" xs s ys new]
  by (auto simp: heap_links_def heap_links_but_def neighbour_add_def Add_Tail_Right HEAP_SEGMENT_IS_USED_def)

lemma Del_any_header: "fst (List_Line_Del d (S, h)) = fst (List_Line_Del d (S, h'))"
  by (auto simp: List_Line_Del_def split: option.splits)

lemma neighbour_del_ok:
  assumes "heap_links h (xs @ s # ys) fs" and "xs \<noteq> []" and "s \<notin> set fs"
  shows "heap_links (neighbour_del s h) (xs @ ys) fs"
proof -
  let ?hd = "Some (HEAP_pvStartAddress h)"
  have l: "line (hp_line h) ?hd (xs @ s # ys)" using assms(1) by (simp add: heap_links_def)
  obtain S' h' where d: "List_Line_Del s (hp_line h, ?hd) = (S', h')" by fastforce
  have "line S' h' (xs @ ys)" using Del_line(1)[OF l d] .
  moreover have "h' = ?hd"
  proof -
    have "LINE_plistPrev (hp_line h) s \<noteq> None" using l assms(2) by (cases xs rule: rev_cases) (auto simp: line_def dseg_append)
    then show ?thesis using d by (auto simp: List_Line_Del_def split: option.splits)
  qed
  moreover have "hp_line (neighbour_del s h) = S'"
    using d Del_any_header[of s "hp_line h" None ?hd] by (simp add: neighbour_del_def)
  ultimately show ?thesis
    using assms by (auto simp: heap_links_def neighbour_del_def HEAP_SEGMENT_IS_USED_def)
qed

lemma neighbours:
  assumes "heap_links h (xs @ s # ys) fs"
  shows "LINE_plistPrev (hp_line h) s = last_opt None xs"
    "LINE_plistNext (hp_line h) s = (case ys of [] \<Rightarrow> None | r # _ \<Rightarrow> Some r)"
  using assms by (cases ys; auto simp: heap_links_def line_snoc_split)+

text \<open>Fields that the parts of the invariant do not read.\<close>

lemma links_fields [simp]:
  "heap_links (h\<lparr>SEGMENT_stByteSize := f\<rparr>) xs fs = heap_links h xs fs"
  "heap_links (h\<lparr>hp_word := f\<rparr>) xs fs = heap_links h xs fs"
  "heap_links (h\<lparr>HEAP_ulSegmentCounter := n\<rparr>) xs fs = heap_links h xs fs"
  "heap_links (h\<lparr>HEAP_stUsedByteSize := n\<rparr>) xs fs = heap_links h xs fs"
  "heap_links (h\<lparr>HEAP_stFreeByteSize := n\<rparr>) xs fs = heap_links h xs fs"
  "heap_links (h\<lparr>HEAP_stMaxUsedByteSize := n\<rparr>) xs fs = heap_links h xs fs"
  by (simp_all add: heap_links_def HEAP_SEGMENT_IS_USED_def)

lemma layout_fields [simp]:
  "heap_layout (h\<lparr>hp_line := S\<rparr>) xs = heap_layout h xs"
  "heap_layout (h\<lparr>hp_ring := S\<rparr>) xs = heap_layout h xs"
  "heap_layout (h\<lparr>HEAP_pringFreeSegment := p\<rparr>) xs = heap_layout h xs"
  "heap_layout (h\<lparr>HEAP_ulSegmentCounter := n\<rparr>) xs = heap_layout h xs"
  "heap_layout (h\<lparr>HEAP_stUsedByteSize := n\<rparr>) xs = heap_layout h xs"
  "heap_layout (h\<lparr>HEAP_stFreeByteSize := n\<rparr>) xs = heap_layout h xs"
  "heap_layout (h\<lparr>HEAP_stMaxUsedByteSize := n\<rparr>) xs = heap_layout h xs"
  by (simp_all add: heap_layout_def HEAP_SEGMENT_IS_REAL_def)

lemma free_bytes_fields [simp]:
  "free_bytes (h\<lparr>hp_line := S\<rparr>) xs = free_bytes h xs"
  "free_bytes (h\<lparr>hp_ring := S\<rparr>) xs = free_bytes h xs"
  "free_bytes (h\<lparr>hp_word := f\<rparr>) xs = free_bytes h xs"
  "free_bytes (h\<lparr>HEAP_pringFreeSegment := p\<rparr>) xs = free_bytes h xs"
  "free_bytes (h\<lparr>HEAP_ulSegmentCounter := n\<rparr>) xs = free_bytes h xs"
  "free_bytes (h\<lparr>HEAP_stUsedByteSize := n\<rparr>) xs = free_bytes h xs"
  "free_bytes (h\<lparr>HEAP_stFreeByteSize := n\<rparr>) xs = free_bytes h xs"
  "free_bytes (h\<lparr>HEAP_stMaxUsedByteSize := n\<rparr>) xs = free_bytes h xs"
  by (simp_all add: free_bytes_def)

end
