(* ===== verification/HeapSpec.thy ===== *)
theory HeapSpec
  imports HeapLayout
begin

text \<open>
  What the operations of the memory heap do to its blocks: an allocation adds one block and a release
  removes one, the invariant of \<open>HeapLayout\<close> is kept, and no two neighbours are free.
\<close>

section \<open>Allocation\<close>

text \<open>What no operation changes.\<close>

definition heap_frame :: "heap \<Rightarrow> heap \<Rightarrow> bool" where
  "heap_frame h h' \<longleftrightarrow> HEAP_pvStartAddress h' = HEAP_pvStartAddress h \<and> HEAP_stTotalByteSize h' = HEAP_stTotalByteSize h \<and>
     hp_lockerr h' = hp_lockerr h \<and> hp_crossbord h' = hp_crossbord h"

lemma heap_frame_refl [simp]: "heap_frame h h"
  by (simp add: heap_frame_def)

text \<open>The segment \<open>s\<close> is off the free list, but the accounts do not know yet.\<close>

definition heap_taken :: "addr \<Rightarrow> heap \<Rightarrow> addr list \<Rightarrow> addr list \<Rightarrow> bool" where
  "heap_taken s h xs fs \<longleftrightarrow> heap_links h xs fs \<and> heap_layout h xs \<and> s \<in> set xs \<and> s \<notin> set fs \<and>
     HEAP_ulSegmentCounter h = length xs \<and> HEAP_stFreeByteSize h = free_bytes h fs + SEGMENT_stByteSize h s \<and>
     HEAP_stUsedByteSize h + HEAP_stFreeByteSize h = HEAP_stTotalByteSize h"

lemma free_bytes_simps [simp]:
  "free_bytes h [] = 0" "free_bytes h (s # fs) = SEGMENT_stByteSize h s + free_bytes h fs"
  "free_bytes h (fs @ gs) = free_bytes h fs + free_bytes h gs"
  by (simp_all add: free_bytes_def)

lemma free_bytes_cong:
  "(\<And>s. s \<in> set fs \<Longrightarrow> SEGMENT_stByteSize h s = SEGMENT_stByteSize h' s) \<Longrightarrow> free_bytes h fs = free_bytes h' fs"
  by (simp add: free_bytes_def cong: map_cong)

lemma free_bytes_mem: "s \<in> set fs \<Longrightarrow> SEGMENT_stByteSize h s \<le> free_bytes h fs"
  by (induction fs) auto

lemma take_ok:
  assumes "heap_ok h xs (us @ s # vs)"
  obtains R hdr where "free_list_del s h = Some (h\<lparr>hp_ring := R, HEAP_pringFreeSegment := hdr\<rparr>)"
    "heap_taken s (h\<lparr>hp_ring := R, HEAP_pringFreeSegment := hdr\<rparr>) xs (us @ vs)"
proof -
  have l: "heap_links h xs (us @ s # vs)" using assms by (simp add: heap_ok_def)
  obtain R hdr where R: "free_list_del s h = Some (h\<lparr>hp_ring := R, HEAP_pringFreeSegment := hdr\<rparr>)"
    "heap_links (h\<lparr>hp_ring := R, HEAP_pringFreeSegment := hdr\<rparr>) xs (us @ vs)" "s \<notin> set (us @ vs)"
    by (rule free_list_del_ok[OF l])
  have "s \<in> set xs" using l by (auto simp: heap_links_def)
  then have "heap_taken s (h\<lparr>hp_ring := R, HEAP_pringFreeSegment := hdr\<rparr>) xs (us @ vs)"
    using R(2,3) assms
    by (simp add: heap_taken_def heap_ok_def heap_counts_def)
  with R(1) that show thesis by blast
qed

lemma magic_at_inject [simp]: "magic_at s = magic_at t \<longleftrightarrow> s = t"
  by (simp add: magic_at_def HEAP_SEGMENT_DATA_PTR_def SIZEOF_WORD_def SEGMENT_BLOCK_SIZE_ALIGN_def)

lemma layout_distinct:
  assumes "heap_layout h xs"
  shows "distinct xs"
proof -
  have "chain (SEGMENT_stByteSize h) xs (HEAP_pvStartAddress h) (HEAP_pvStartAddress h + HEAP_stTotalByteSize h)"
    using assms by (simp add: heap_layout_def)
  then show ?thesis by (rule chain_distinct)
qed

lemma layout_split:
  assumes "heap_layout h (xs @ s # ys)" and "n + BLK \<le> SEGMENT_stByteSize h s" and "LW_CFG_HEAP_ALIGNMENT dvd n"
    and "new = HEAP_SEGMENT_DATA_PTR s + n"
  shows "new \<notin> set (xs @ s # ys)"
    "heap_layout (seg_init new (SEGMENT_stByteSize h s - n - BLK)
       (h\<lparr>SEGMENT_stByteSize := (SEGMENT_stByteSize h)(s := n)\<rparr>)) (xs @ s # new # ys)"
proof -
  have new: "new = s + BLK + n" using assms(4) by (simp add: HEAP_SEGMENT_DATA_PTR_def)
  have c: "chain (SEGMENT_stByteSize h) (xs @ s # ys) (HEAP_pvStartAddress h) (HEAP_pvStartAddress h + HEAP_stTotalByteSize h)"
    using assms(1) by (simp add: heap_layout_def)
  note split = chain_split[OF c assms(2) new]
  show "new \<notin> set (xs @ s # ys)" by (rule split(1))
  have "LW_CFG_HEAP_ALIGNMENT dvd BLK" by (simp add: LW_CFG_HEAP_ALIGNMENT_def SEGMENT_BLOCK_SIZE_ALIGN_def)
  then have "LW_CFG_HEAP_ALIGNMENT dvd SEGMENT_stByteSize h s - n - BLK"
    using assms(1,3) by (simp add: heap_layout_def)
  then show "heap_layout (seg_init new (SEGMENT_stByteSize h s - n - BLK)
       (h\<lparr>SEGMENT_stByteSize := (SEGMENT_stByteSize h)(s := n)\<rparr>)) (xs @ s # new # ys)"
    using assms(1,3) split by (auto simp: heap_layout_def seg_init_def HEAP_SEGMENT_IS_REAL_def)
qed

text \<open>What cutting a segment leaves: the segment alone, or with a new free one behind it.\<close>

definition split_to :: "addr list \<Rightarrow> addr list \<Rightarrow> addr list \<Rightarrow> addr list \<Rightarrow> bool" where
  "split_to ys fs ys' fs' \<longleftrightarrow> ys' = ys \<and> fs' = fs \<or>
     (\<exists>new. ys' = new # ys \<and> new \<notin> set ys \<and> (fs' = new # fs \<or> fs' = fs @ [new]))"

lemma heap_split_ok:
  assumes t: "heap_taken s h (xs @ s # ys) fs" and n: "n \<le> SEGMENT_stByteSize h s" "LW_CFG_HEAP_ALIGNMENT dvd n"
  obtains h' ys' fs' where "heap_split s n h = Some h'" "heap_ok h' (xs @ s # ys') fs'" "s \<notin> set fs'"
    "n \<le> SEGMENT_stByteSize h' s" "\<forall>t \<in> set (xs @ ys). SEGMENT_stByteSize h' t = SEGMENT_stByteSize h t"
    "split_to ys fs ys' fs'" "set ys' - set ys \<subseteq> - set xs" "heap_frame h h'"
proof (cases "SEGMENT_stByteSize h s - n > BLK + LW_CFG_HEAP_SEG_MIN_SIZE")
  case False
  have s: "heap_split s n h = Some (h\<lparr>HEAP_stUsedByteSize := HEAP_stUsedByteSize h + SEGMENT_stByteSize h s,
      HEAP_stFreeByteSize := HEAP_stFreeByteSize h - SEGMENT_stByteSize h s\<rparr>)" (is "_ = Some ?h'")
    using False by (simp add: heap_split_def)
  have "heap_ok ?h' (xs @ s # ys) fs" using t by (simp add: heap_taken_def heap_ok_def heap_counts_def)
  then show thesis
    by (intro that[where h' = ?h' and ys' = ys and fs' = fs])
      (use s t n in \<open>simp_all add: split_to_def heap_frame_def heap_taken_def\<close>)
next
  case True
  let ?new = "HEAP_SEGMENT_DATA_PTR s + n" and ?m = "SEGMENT_stByteSize h s - n - BLK"
  let ?h1 = "seg_init ?new ?m (h\<lparr>SEGMENT_stByteSize := (SEGMENT_stByteSize h)(s := n)\<rparr>)"
  let ?h2 = "neighbour_add ?new s ?h1"
  have nb: "n + BLK \<le> SEGMENT_stByteSize h s" using True by linarith
  have lay: "heap_layout h (xs @ s # ys)" using t by (simp add: heap_taken_def)
  note sp = layout_split[OF lay nb n(2) refl]
  have "heap_links ?h1 (xs @ s # ys) fs" using t by (simp add: heap_taken_def seg_init_def)
  note l2 = neighbour_add_ok[OF this sp(1)]
  have fs: "set fs \<subseteq> set (xs @ s # ys)" using t by (simp add: heap_taken_def heap_links_def)
  then have nfs: "?new \<notin> set fs" using sp(1) by blast
  obtain R hdr fs' where R: "HEAP_ADD_NEW_SEG_TO_FREELIST ?new ?h2 = Some (?h2\<lparr>hp_ring := R, HEAP_pringFreeSegment := hdr\<rparr>)"
    "heap_links (?h2\<lparr>hp_ring := R, HEAP_pringFreeSegment := hdr\<rparr>) (xs @ s # ?new # ys) fs'" "fs' = ?new # fs \<or> fs' = fs @ [?new]"
    by (rule free_list_add_ok[OF l2 _ nfs]) simp_all
  define h' where "h' = ?h2\<lparr>hp_ring := R, HEAP_pringFreeSegment := hdr, HEAP_ulSegmentCounter := HEAP_ulSegmentCounter h + 1,
      HEAP_stUsedByteSize := HEAP_stUsedByteSize h + (n + BLK), HEAP_stFreeByteSize := HEAP_stFreeByteSize h - (n + BLK)\<rparr>"
  have s: "heap_split s n h = Some h'"
    using True R(1) by (simp add: heap_split_def Let_def h'_def seg_init_def neighbour_add_def)
  have sz: "SEGMENT_stByteSize h' = (SEGMENT_stByteSize h)(s := n, ?new := ?m)"
    by (simp add: h'_def neighbour_add_def seg_init_def)
  have new: "?new \<noteq> s" "\<forall>t \<in> set (xs @ ys). t \<noteq> ?new" using sp(1) by auto
  have "distinct (xs @ s # ys)" by (rule layout_distinct[OF lay])
  then have same: "\<forall>t \<in> set (xs @ ys). SEGMENT_stByteSize h' t = SEGMENT_stByteSize h t" using sz new by auto
  have sfs: "s \<notin> set fs" using t by (simp add: heap_taken_def)
  have "free_bytes h' fs = free_bytes h fs" by (rule free_bytes_cong) (use same fs sfs in auto)
  then have fb: "free_bytes h' fs' = free_bytes h fs + ?m" using R(3) sz new(1) by auto
  have "heap_links h' (xs @ s # ?new # ys) fs'"
    using R(2) by (simp add: h'_def)
  moreover have "heap_layout h' (xs @ s # ?new # ys)"
    using sp(2) by (simp add: h'_def neighbour_add_def)
  moreover have "heap_counts h' (xs @ s # ?new # ys) fs'"
    using t fb nb by (auto simp: heap_counts_def heap_taken_def h'_def neighbour_add_def seg_init_def)
  ultimately have ok: "heap_ok h' (xs @ s # ?new # ys) fs'" by (simp add: heap_ok_def)
  have fr: "heap_frame h h'" by (simp add: heap_frame_def h'_def neighbour_add_def seg_init_def)
  have to: "split_to ys fs (?new # ys) fs'" using R(3) sp(1) by (auto simp: split_to_def)
  have sf: "s \<notin> set fs'" using R(3) sfs new(1) by auto
  have sn: "n \<le> SEGMENT_stByteSize h' s" using sz new(1) by simp
  have di: "set (?new # ys) - set ys \<subseteq> - set xs" using new(2) by auto
  show thesis by (rule that[OF s ok sf sn same to di fr])
qed

text \<open>The overrun mark lies in the data of its own segment.\<close>

lemma mark_layout:
  assumes "heap_layout h xs" and "s \<in> set xs" and "hp_crossbord h \<Longrightarrow> SIZEOF_WORD \<le> SEGMENT_stByteSize h s"
  shows "heap_layout (heap_crossbord_mark s h) xs"
proof (cases "hp_crossbord h")
  case True
  let ?m = "HEAP_SEGMENT_NEXT_PTR h s - SIZEOF_WORD"
  have c: "chain (SEGMENT_stByteSize h) xs (HEAP_pvStartAddress h) (HEAP_pvStartAddress h + HEAP_stTotalByteSize h)"
    using assms(1) by (simp add: heap_layout_def)
  have "magic_at t \<noteq> ?m" if "t \<in> set xs" for t
    using chain_apart[OF c assms(2) that] chain_apart[OF c that assms(2)] assms(3)[OF True]
    by (cases s t rule: linorder_cases)
      (auto simp: magic_at_def HEAP_SEGMENT_NEXT_PTR_def HEAP_SEGMENT_DATA_PTR_def SIZEOF_WORD_def SEGMENT_BLOCK_SIZE_ALIGN_def)
  then show ?thesis
    using assms(1) by (auto simp: heap_crossbord_mark_def heap_layout_def HEAP_SEGMENT_IS_REAL_def)
qed (use assms in \<open>simp add: heap_crossbord_mark_def\<close>)

lemma mark_fields [simp]:
  "heap_links (heap_crossbord_mark s h) xs fs = heap_links h xs fs"
  "heap_counts (heap_crossbord_mark s h) xs fs = heap_counts h xs fs"
  "SEGMENT_stByteSize (heap_crossbord_mark s h) = SEGMENT_stByteSize h"
  "heap_frame g (heap_crossbord_mark s h) = heap_frame g h"
  by (simp_all add: heap_crossbord_mark_def heap_counts_def heap_frame_def)

lemma max_used_fields [simp]:
  "heap_ok (HEAP_UPDATA_MAX_USED h) xs fs = heap_ok h xs fs"
  "SEGMENT_stByteSize (HEAP_UPDATA_MAX_USED h) = SEGMENT_stByteSize h"
  "heap_frame g (HEAP_UPDATA_MAX_USED h) = heap_frame g h"
  "hp_crossbord (HEAP_UPDATA_MAX_USED h) = hp_crossbord h"
  by (simp_all add: HEAP_UPDATA_MAX_USED_def heap_ok_def heap_counts_def heap_frame_def)

lemma mark_ok:
  assumes "heap_ok h xs fs" and "s \<in> set xs" and "hp_crossbord h \<Longrightarrow> SIZEOF_WORD \<le> SEGMENT_stByteSize h s"
  shows "heap_ok (heap_crossbord_mark s h) xs fs"
  using assms mark_layout by (simp add: heap_ok_def)

text \<open>Taking a segment leaves no two free neighbours.\<close>

lemma coalesced_Cons:
  "coalesced F (s # ys) \<longleftrightarrow> (\<forall>r zs. ys = r # zs \<longrightarrow> \<not> (s \<in> F \<and> r \<in> F)) \<and> coalesced F ys"
  by (cases ys) (auto simp: coalesced_def)

lemma coalesced_mid:
  "coalesced F (xs @ s # ys) \<longleftrightarrow>
     coalesced F xs \<and> coalesced F (s # ys) \<and> (xs \<noteq> [] \<longrightarrow> \<not> (last xs \<in> F \<and> s \<in> F))"
  by (auto simp: coalesced_def successively_append_iff)

lemma coalesced_mono: "coalesced F xs \<Longrightarrow> (\<And>s. s \<in> set xs \<Longrightarrow> s \<in> G \<Longrightarrow> s \<in> F) \<Longrightarrow> coalesced G xs"
  by (auto simp: coalesced_def intro: successively_mono elim!: successively_mono)

lemma coalesced_split:
  assumes c: "coalesced F (xs @ s # ys)" and s: "s \<in> F" and d: "distinct (xs @ s # ys)"
    and new: "new \<notin> set (xs @ s # ys)"
  shows "coalesced (insert new (F - {s})) (xs @ s # new # ys)"
proof -
  let ?G = "insert new (F - {s})"
  have "coalesced ?G xs" "coalesced ?G ys"
    using c new by (auto simp: coalesced_mid coalesced_Cons intro: coalesced_mono)
  moreover have "r \<notin> ?G" if "ys = r # zs" for r zs
    using c s that new by (auto simp: coalesced_mid coalesced_Cons)
  moreover have "s \<notin> ?G" using new by auto
  ultimately show "coalesced ?G (xs @ s # new # ys)"
    by (auto simp: coalesced_mid coalesced_Cons)
qed

text \<open>A state of the heap between two calls.\<close>

definition heap_good :: "heap \<Rightarrow> addr list \<Rightarrow> addr list \<Rightarrow> bool" where
  "heap_good h xs fs \<longleftrightarrow> heap_ok h xs fs \<and> coalesced (set fs) xs"

lemma free_distinct: "heap_links h xs fs \<Longrightarrow> distinct fs"
  by (auto simp: heap_links_def ring_def)

lemma heap_live_take:
  assumes sz: "\<forall>t \<in> set (xs @ ys). SEGMENT_stByteSize h' t = SEGMENT_stByteSize h t"
    and fs: "s \<in> set fs" "s \<notin> set fs'" and to: "split_to ys gs ys' fs'" "set ys' - set ys \<subseteq> - set xs"
    and gs: "set gs = set fs - {s}" and sub: "set fs \<subseteq> set (xs @ s # ys)" and d: "distinct (xs @ s # ys)"
  shows "heap_live h' (xs @ s # ys') fs' = (heap_live h (xs @ s # ys) fs)(HEAP_SEGMENT_DATA_PTR s \<mapsto> SEGMENT_stByteSize h' s)"
proof
  fix p
  show "heap_live h' (xs @ s # ys') fs' p =
    ((heap_live h (xs @ s # ys) fs)(HEAP_SEGMENT_DATA_PTR s \<mapsto> SEGMENT_stByteSize h' s)) p"
  proof (cases "p = HEAP_SEGMENT_DATA_PTR s")
    case True
    then show ?thesis using fs(2) by (simp add: heap_live_def HEAP_SEGMENT_DATA_PTR_def)
  next
    case False
    then have "p - BLK \<noteq> s" if "BLK \<le> p" using that by (auto simp: HEAP_SEGMENT_DATA_PTR_def)
    moreover have "t \<in> set (xs @ s # ys') - set fs' \<longleftrightarrow> t \<in> set (xs @ s # ys) - set fs" if "t \<noteq> s" for t
      using that to gs sub by (auto simp: split_to_def)
    moreover have "SEGMENT_stByteSize h' t = SEGMENT_stByteSize h t" if "t \<in> set (xs @ s # ys)" "t \<noteq> s" for t
      using that sz by auto
    ultimately show ?thesis using False by (cases "BLK \<le> p") (auto simp: heap_live_def)
  qed
qed

lemma coalesced_take:
  assumes "coalesced (set fs) (xs @ s # ys)" "s \<in> set fs" "distinct (xs @ s # ys)"
    and to: "split_to ys gs ys' fs'" "set ys' - set ys \<subseteq> - set xs" and gs: "set gs = set fs - {s}" and s: "s \<notin> set fs'"
  shows "coalesced (set fs') (xs @ s # ys')"
proof (cases "ys' = ys \<and> fs' = gs")
  case True
  then show ?thesis using coalesced_mono[OF assms(1), of "set fs - {s}"] gs by simp
next
  case False
  then obtain new where n: "ys' = new # ys" "new \<notin> set ys" "fs' = new # gs \<or> fs' = gs @ [new]"
    using to(1) by (auto simp: split_to_def)
  have "new \<in> set fs'" using n(3) by auto
  then have "new \<noteq> s" using s by blast
  moreover have "new \<in> set ys' - set ys" using n(1,2) by simp
  then have "new \<notin> set xs" using to(2) by blast
  ultimately have "new \<notin> set (xs @ s # ys)" using n(2) by simp
  moreover have "set fs' = insert new (set fs - {s})" using n(3) by (rule disjE) (simp_all add: gs)
  ultimately show ?thesis using coalesced_split[OF assms(1-3)] n(1) by simp
qed

theorem HeapAllocate_ok:
  assumes g: "heap_good h xs fs" and sz: "stSize = ROUND_UP (heap_crossbord_size h n) LW_CFG_HEAP_SEG_MIN_SIZE"
    and cb: "hp_crossbord h \<Longrightarrow> 0 < stSize"
  obtains (none) "HeapAllocate n h = Some (None, h)" "hp_lockerr h \<noteq> 0 \<or> (\<forall>s \<in> set fs. SEGMENT_stByteSize h s < stSize)"
  | (some) p h' xs' fs' k where "HeapAllocate n h = Some (Some p, h')" "heap_good h' xs' fs'" "heap_frame h h'"
      "heap_live h xs fs p = None" "heap_live h' xs' fs' = (heap_live h xs fs)(p \<mapsto> k)" "stSize \<le> k" "p \<noteq> 0" "hp_lockerr h = 0"
proof -
  have ok: "heap_ok h xs fs" and co: "coalesced (set fs) xs" using g by (simp_all add: heap_good_def)
  have r: "ring (hp_ring h) (HEAP_pringFreeSegment h) fs" and sub: "set fs \<subseteq> set xs"
    using ok by (auto simp: heap_ok_def heap_links_def)
  have lay: "heap_layout h xs" using ok by (simp add: heap_ok_def)
  have al: "LW_CFG_HEAP_ALIGNMENT dvd stSize"
    by (simp add: sz ROUND_UP_def LW_CFG_HEAP_ALIGNMENT_def LW_CFG_HEAP_SEG_MIN_SIZE_def)
  have pos: "hp_crossbord h \<Longrightarrow> SIZEOF_WORD \<le> stSize"
    using cb al by (auto simp: SIZEOF_WORD_def LW_CFG_HEAP_ALIGNMENT_def)
  let ?P = "\<lambda>a. stSize \<le> SEGMENT_stByteSize h a"
  consider (no_room) "HEAP_stFreeByteSize h < stSize" | (locked) "stSize \<le> HEAP_stFreeByteSize h" "hp_lockerr h \<noteq> 0"
    | (no_free) "stSize \<le> HEAP_stFreeByteSize h" "hp_lockerr h = 0" "fs = []"
    | (search) "stSize \<le> HEAP_stFreeByteSize h" "hp_lockerr h = 0" "fs \<noteq> []" by fastforce
  then show thesis
  proof cases
    case no_room
    have "SEGMENT_stByteSize h s < stSize" if "s \<in> set fs" for s
      using free_bytes_mem[OF that, of h] no_room ok by (simp add: heap_ok_def heap_counts_def)
    then show thesis using no_room by (intro none) (auto simp: HeapAllocate_def Let_def sz)
  next
    case locked
    then show thesis by (intro none) (auto simp: HeapAllocate_def Let_def sz)
  next
    case no_free
    then show thesis using r by (intro none) (auto simp: HeapAllocate_def Let_def sz)
  next
    case search
    have hd: "HEAP_pringFreeSegment h \<noteq> None" using r search(3) by (cases fs) (auto dest: ring_hd)
    note ff = first_fit_ring[OF r search(3), of ?P]
    show thesis
    proof (cases "find ?P fs")
      case None
      then have "\<forall>s \<in> set fs. SEGMENT_stByteSize h s < stSize" by (simp add: find_None_iff not_le)
      moreover have "HeapAllocate n h = Some (None, h)"
        using search hd ff None by (simp add: HeapAllocate_def Let_def flip: sz)
      ultimately show thesis by (intro none) simp_all
    next
      case (Some s)
      have s: "s \<in> set fs" "?P s" using Some by (auto simp: find_Some_iff)
      obtain us vs where fs: "fs = us @ s # vs" using s(1) by (auto simp: in_set_conv_decomp)
      obtain as bs where xs: "xs = as @ s # bs" using s(1) sub by (metis in_mono in_set_conv_decomp)
      obtain R hdr where R: "free_list_del s h = Some (h\<lparr>hp_ring := R, HEAP_pringFreeSegment := hdr\<rparr>)"
        "heap_taken s (h\<lparr>hp_ring := R, HEAP_pringFreeSegment := hdr\<rparr>) xs (us @ vs)"
        using take_ok[of h xs us s vs] ok fs by metis
      let ?h1 = "h\<lparr>hp_ring := R, HEAP_pringFreeSegment := hdr\<rparr>"
      have t: "heap_taken s ?h1 (as @ s # bs) (us @ vs)" "stSize \<le> SEGMENT_stByteSize ?h1 s" using R(2) s(2) xs by simp_all
      obtain h2 ys' fs' where h2: "heap_split s stSize ?h1 = Some h2" "heap_ok h2 (as @ s # ys') fs'" "s \<notin> set fs'"
        "stSize \<le> SEGMENT_stByteSize h2 s" "\<forall>t \<in> set (as @ bs). SEGMENT_stByteSize h2 t = SEGMENT_stByteSize ?h1 t"
        "split_to bs (us @ vs) ys' fs'" "set ys' - set bs \<subseteq> - set as" "heap_frame ?h1 h2"
        by (rule heap_split_ok[OF t al])
      define h' where "h' = heap_crossbord_mark s (HEAP_UPDATA_MAX_USED h2)"
      have dis: "distinct (as @ s # bs)" using layout_distinct[OF lay] xs by simp
      have gs: "set (us @ vs) = set fs - {s}" using free_distinct[of h xs fs] ok fs by (auto simp: heap_ok_def)
      have fr: "heap_frame h h'" using h2(8) by (simp add: h'_def) (simp add: heap_frame_def)
      have "hp_crossbord h2 = hp_crossbord h" using h2(8) by (simp add: heap_frame_def)
      then have "heap_ok h' (as @ s # ys') fs'"
        unfolding h'_def using h2(2,4) pos by (intro mark_ok) auto
      moreover have "coalesced (set fs') (as @ s # ys')"
        using coalesced_take[OF _ s(1) dis h2(6,7) gs h2(3)] co xs by simp
      ultimately have good: "heap_good h' (as @ s # ys') fs'" by (simp add: heap_good_def)
      have same: "\<forall>t \<in> set (as @ bs). SEGMENT_stByteSize h' t = SEGMENT_stByteSize h t"
        using h2(5) by (simp add: h'_def)
      have live: "heap_live h' (as @ s # ys') fs' = (heap_live h xs fs)(HEAP_SEGMENT_DATA_PTR s \<mapsto> SEGMENT_stByteSize h' s)"
        unfolding xs by (rule heap_live_take[OF same s(1) h2(3,6,7) gs _ dis]) (use sub xs in simp)
      have before: "heap_live h xs fs (HEAP_SEGMENT_DATA_PTR s) = None"
        using s(1) by (simp add: heap_live_def HEAP_SEGMENT_DATA_PTR_def)
      have size: "stSize \<le> SEGMENT_stByteSize h' s" using h2(4) by (simp add: h'_def)
      have all: "HeapAllocate n h = Some (Some (HEAP_SEGMENT_DATA_PTR s), h')"
        using search hd ff Some R(1) h2(1) by (simp add: HeapAllocate_def Let_def h'_def flip: sz)
      have "HEAP_SEGMENT_DATA_PTR s \<noteq> 0" by (simp add: HEAP_SEGMENT_DATA_PTR_def)
      with all good fr before live size search(2) show thesis by (intro some) simp_all
    qed
  qed
qed

section \<open>Release\<close>

lemma account_fields [simp]:
  "heap_links (heap_account n h) xs fs = heap_links h xs fs"
  "heap_layout (heap_account n h) xs = heap_layout h xs"
  "SEGMENT_stByteSize (heap_account n h) = SEGMENT_stByteSize h"
  "heap_frame g (heap_account n h) = heap_frame g h"
  by (simp_all add: heap_account_def heap_frame_def)

lemma frame_fields [simp]:
  "heap_frame g (h\<lparr>HEAP_ulSegmentCounter := n\<rparr>) = heap_frame g h"
  "heap_frame g (h\<lparr>hp_ring := R\<rparr>) = heap_frame g h"
  "heap_frame g (h\<lparr>HEAP_pringFreeSegment := p\<rparr>) = heap_frame g h"
  by (simp_all add: heap_frame_def)

text \<open>What is counted as used: all the control blocks, and the data of the segments in use.\<close>

lemma used_bytes:
  assumes "heap_ok h xs fs"
  shows "HEAP_stUsedByteSize h = length xs * BLK + (\<Sum>s \<in> set xs - set fs. SEGMENT_stByteSize h s)"
proof -
  have links: "heap_links h xs fs" and lay: "heap_layout h xs" and cnt: "heap_counts h xs fs"
    using assms by (simp_all add: heap_ok_def)
  have c: "chain (SEGMENT_stByteSize h) xs (HEAP_pvStartAddress h) (HEAP_pvStartAddress h + HEAP_stTotalByteSize h)"
    using lay by (simp add: heap_layout_def)
  have "HEAP_stTotalByteSize h = (\<Sum>s \<leftarrow> xs. BLK + SEGMENT_stByteSize h s)"
    using chain_total[OF c] by simp
  also have "\<dots> = length xs * BLK + (\<Sum>s \<leftarrow> xs. SEGMENT_stByteSize h s)"
    by (simp add: sum_list_addf sum_list_triv)
  also have "(\<Sum>s \<leftarrow> xs. SEGMENT_stByteSize h s) = (\<Sum>s \<in> set xs. SEGMENT_stByteSize h s)"
    using layout_distinct[OF lay] by (simp add: sum_list_distinct_conv_sum_set)
  also have "\<dots> = (\<Sum>s \<in> set xs - set fs. SEGMENT_stByteSize h s) + (\<Sum>s \<in> set fs. SEGMENT_stByteSize h s)"
    using links by (intro sum.subset_diff) (auto simp: heap_links_def)
  finally show ?thesis
    using cnt free_distinct[OF links] by (simp add: heap_counts_def free_bytes_def sum_list_distinct_conv_sum_set)
qed

lemma used_bytes_seg:
  assumes "heap_ok h xs fs" and "s \<in> set xs" and "s \<notin> set fs"
  shows "BLK + SEGMENT_stByteSize h s \<le> HEAP_stUsedByteSize h"
proof -
  have "SEGMENT_stByteSize h s \<le> (\<Sum>s \<in> set xs - set fs. SEGMENT_stByteSize h s)"
    using assms(2,3) by (intro member_le_sum) auto
  moreover have "BLK \<le> length xs * BLK" using assms(2) by (cases xs) auto
  ultimately show ?thesis using used_bytes[OF assms(1)] by linarith
qed

lemma next_ptr:
  assumes "heap_layout h (as @ l # r # bs)"
  shows "HEAP_SEGMENT_NEXT_PTR h l = r"
proof -
  have "chain (SEGMENT_stByteSize h) (as @ l # r # bs) (HEAP_pvStartAddress h) (HEAP_pvStartAddress h + HEAP_stTotalByteSize h)"
    using assms by (simp add: heap_layout_def)
  from chain_join(1)[OF this] show ?thesis by (simp add: HEAP_SEGMENT_NEXT_PTR_def HEAP_SEGMENT_DATA_PTR_def)
qed

text \<open>A segment swallows its right neighbour.\<close>

definition heap_join :: "addr \<Rightarrow> addr \<Rightarrow> heap \<Rightarrow> heap" where
  "heap_join l r h = neighbour_del r (h\<lparr>SEGMENT_stByteSize := (SEGMENT_stByteSize h)
     (l := SEGMENT_stByteSize h l + (SEGMENT_stByteSize h r + BLK))\<rparr>)"

lemma join_fields [simp]:
  "hp_ring (heap_join l r h) = hp_ring h" "hp_word (heap_join l r h) = hp_word h"
  "HEAP_pringFreeSegment (heap_join l r h) = HEAP_pringFreeSegment h"
  "HEAP_stUsedByteSize (heap_join l r h) = HEAP_stUsedByteSize h"
  "HEAP_stFreeByteSize (heap_join l r h) = HEAP_stFreeByteSize h"
  "HEAP_stTotalByteSize (heap_join l r h) = HEAP_stTotalByteSize h"
  "HEAP_ulSegmentCounter (heap_join l r h) = HEAP_ulSegmentCounter h"
  "SEGMENT_stByteSize (heap_join l r h) =
     (SEGMENT_stByteSize h)(l := SEGMENT_stByteSize h l + (SEGMENT_stByteSize h r + BLK))"
  "heap_frame g (heap_join l r h) = heap_frame g h"
  by (simp_all add: heap_join_def neighbour_del_def heap_frame_def)

lemma join_ok:
  assumes "heap_links h (as @ l # r # bs) fs" and "heap_layout h (as @ l # r # bs)" and "r \<notin> set fs"
  shows "heap_links (heap_join l r h) (as @ l # bs) fs" "heap_layout (heap_join l r h) (as @ l # bs)"
proof -
  let ?g = "h\<lparr>SEGMENT_stByteSize := (SEGMENT_stByteSize h)(l := SEGMENT_stByteSize h l + (SEGMENT_stByteSize h r + BLK))\<rparr>"
  have "heap_links ?g ((as @ [l]) @ r # bs) fs" using assms(1) by simp
  from neighbour_del_ok[OF this] show "heap_links (heap_join l r h) (as @ l # bs) fs"
    using assms(3) by (simp add: heap_join_def)
  have c: "chain (SEGMENT_stByteSize h) (as @ l # r # bs) (HEAP_pvStartAddress h) (HEAP_pvStartAddress h + HEAP_stTotalByteSize h)"
    using assms(2) by (simp add: heap_layout_def)
  have "LW_CFG_HEAP_ALIGNMENT dvd BLK" by (simp add: LW_CFG_HEAP_ALIGNMENT_def SEGMENT_BLOCK_SIZE_ALIGN_def)
  then have "heap_layout ?g (as @ l # bs)"
    using chain_join(2)[OF c] assms(2) by (auto simp: heap_layout_def HEAP_SEGMENT_IS_REAL_def)
  then show "heap_layout (heap_join l r h) (as @ l # bs)" by (simp add: heap_join_def neighbour_del_def)
qed

text \<open>A free segment is taken off the free list and put back, at the right end of the list.\<close>

lemma free_bytes_set: "distinct fs \<Longrightarrow> free_bytes h fs = (\<Sum>s \<in> set fs. SEGMENT_stByteSize h s)"
  by (simp add: free_bytes_def sum_list_distinct_conv_sum_set)

lemma free_bytes_same: "distinct fs \<Longrightarrow> distinct gs \<Longrightarrow> set fs = set gs \<Longrightarrow> free_bytes h fs = free_bytes h gs"
  by (simp add: free_bytes_set)

lemma relist_ok:
  assumes "heap_links h xs fs" and "s \<in> set fs"
  obtains R hdr fs' where
    "Option.bind (free_list_del s h) (HEAP_ADD_NEW_SEG_TO_FREELIST s) = Some (h\<lparr>hp_ring := R, HEAP_pringFreeSegment := hdr\<rparr>)"
    "heap_links (h\<lparr>hp_ring := R, HEAP_pringFreeSegment := hdr\<rparr>) xs fs'" "set fs' = set fs"
proof -
  obtain us vs where fs: "fs = us @ s # vs" using assms(2) by (auto simp: in_set_conv_decomp)
  have s: "s \<in> set xs" using assms by (auto simp: heap_links_def)
  obtain R0 hdr0 where d: "free_list_del s h = Some (h\<lparr>hp_ring := R0, HEAP_pringFreeSegment := hdr0\<rparr>)"
    "heap_links (h\<lparr>hp_ring := R0, HEAP_pringFreeSegment := hdr0\<rparr>) xs (us @ vs)" "s \<notin> set (us @ vs)"
    using free_list_del_ok[of h xs us s vs] assms(1) fs by metis
  obtain R hdr fs' where a:
    "HEAP_ADD_NEW_SEG_TO_FREELIST s (h\<lparr>hp_ring := R0, HEAP_pringFreeSegment := hdr0\<rparr>) =
       Some (h\<lparr>hp_ring := R0, HEAP_pringFreeSegment := hdr0\<rparr>\<lparr>hp_ring := R, HEAP_pringFreeSegment := hdr\<rparr>)"
    "heap_links (h\<lparr>hp_ring := R0, HEAP_pringFreeSegment := hdr0\<rparr>\<lparr>hp_ring := R, HEAP_pringFreeSegment := hdr\<rparr>) xs fs'"
    "fs' = s # (us @ vs) \<or> fs' = (us @ vs) @ [s]"
    by (rule free_list_add_ok[OF links_but[OF d(2), of s] s d(3)])
  have "set fs' = set fs" using a(3) fs by auto
  then show thesis using that[where R = R and hdr = hdr and fs' = fs'] d(1) a(1,2) by simp
qed

text \<open>The two merges.\<close>

lemma merge_left_skip:
  assumes "heap_links h (as @ s # bs) fs" and "as \<noteq> [] \<Longrightarrow> last as \<notin> set fs"
  shows "heap_merge_left s h = Some (False, s, h)"
proof (cases as rule: rev_cases)
  case Nil
  then show ?thesis using neighbours(1)[OF assms(1)] by (simp add: heap_merge_left_def last_opt_def)
next
  case (snoc as' l)
  then have "HEAP_SEGMENT_IS_USED h l" using assms used_iff[OF assms(1), of l] by simp
  then show ?thesis using neighbours(1)[OF assms(1)] snoc by (simp add: heap_merge_left_def last_opt_def Let_def)
qed

lemma merge_left_join:
  assumes ok: "heap_ok h (as @ l # s # bs) fs" and l: "l \<in> set fs" and s: "s \<notin> set fs"
  obtains h1 fs1 where "heap_merge_left s h = Some (True, l, h1)" "heap_ok h1 (as @ l # bs) fs1" "set fs1 = set fs"
    "heap_frame h h1" "SEGMENT_stByteSize h1 = SEGMENT_stByteSize (heap_join l s h)"
proof -
  have links: "heap_links h (as @ l # s # bs) fs" and lay: "heap_layout h (as @ l # s # bs)"
    and cnt: "heap_counts h (as @ l # s # bs) fs" using ok by (simp_all add: heap_ok_def)
  have links': "heap_links h ((as @ [l]) @ s # bs) fs" using links by simp
  note nb = neighbours[OF links']
  have sub: "set fs \<subseteq> set (as @ l # s # bs)" using links by (simp add: heap_links_def)
  have dis: "distinct fs" using free_distinct[OF links] .
  have ls: "l \<noteq> s" using layout_distinct[OF lay] by auto
  define h1 where "h1 = heap_account (BLK + SEGMENT_stByteSize h s)
      ((heap_join l s h)\<lparr>HEAP_ulSegmentCounter := HEAP_ulSegmentCounter (heap_join l s h) - 1\<rparr>)"
  note j = join_ok[OF links lay s]
  have links1: "heap_links h1 (as @ l # bs) fs" and lay1: "heap_layout h1 (as @ l # bs)"
    and fr: "heap_frame h h1" and sz: "SEGMENT_stByteSize h1 = SEGMENT_stByteSize (heap_join l s h)"
    using j by (simp_all add: h1_def)
  have fb: "free_bytes h1 fs = free_bytes h fs + (BLK + SEGMENT_stByteSize h s)"
  proof -
    have "(\<Sum>t \<in> set fs. SEGMENT_stByteSize h1 t) = SEGMENT_stByteSize h1 l + (\<Sum>t \<in> set fs - {l}. SEGMENT_stByteSize h1 t)"
      using l by (simp add: sum.remove)
    also have "(\<Sum>t \<in> set fs - {l}. SEGMENT_stByteSize h1 t) = (\<Sum>t \<in> set fs - {l}. SEGMENT_stByteSize h t)"
      by (rule sum.cong) (simp_all add: sz)
    finally show ?thesis using l by (simp add: free_bytes_set[OF dis] sz sum.remove)
  qed
  have used: "BLK + SEGMENT_stByteSize h s \<le> HEAP_stUsedByteSize h"
    using used_bytes_seg[OF ok, of s] s by simp
  have cnt1: "heap_counts h1 (as @ l # bs) fs"
    using cnt fb used by (simp add: heap_counts_def h1_def heap_account_def)
  have left: "\<not> HEAP_SEGMENT_IS_USED h l" "HEAP_SEGMENT_NEXT_PTR h l = s"
    using used_iff[OF links, of l] l next_ptr[OF lay] by simp_all
  have eq: "heap_merge_left s h =
      (if LINE_plistNext (hp_line h) s = None
       then Option.bind (Option.bind (free_list_del l h1) (HEAP_ADD_NEW_SEG_TO_FREELIST l)) (\<lambda>h. Some (True, l, h))
       else Some (True, l, h1))"
    using nb(1) left by (simp add: heap_merge_left_def last_opt_def Let_def h1_def heap_join_def)
  show thesis
  proof (cases bs)
    case Nil
    obtain R hdr fs1 where r:
      "Option.bind (free_list_del l h1) (HEAP_ADD_NEW_SEG_TO_FREELIST l) = Some (h1\<lparr>hp_ring := R, HEAP_pringFreeSegment := hdr\<rparr>)"
      "heap_links (h1\<lparr>hp_ring := R, HEAP_pringFreeSegment := hdr\<rparr>) (as @ l # bs) fs1" "set fs1 = set fs"
      using relist_ok[OF links1 l] by metis
    have "distinct fs1" using free_distinct[OF r(2)] .
    then have "free_bytes h1 fs1 = free_bytes h1 fs" using dis r(3) by (intro free_bytes_same)
    then have "heap_ok (h1\<lparr>hp_ring := R, HEAP_pringFreeSegment := hdr\<rparr>) (as @ l # bs) fs1"
      using r(2) lay1 cnt1 by (simp add: heap_ok_def heap_counts_def)
    moreover have "heap_merge_left s h = Some (True, l, h1\<lparr>hp_ring := R, HEAP_pringFreeSegment := hdr\<rparr>)"
      using eq nb(2) Nil r(1) by simp
    ultimately show thesis using that[OF _ _ r(3)] fr sz by (simp add: heap_frame_def)
  next
    case (Cons r bs')
    have "heap_merge_left s h = Some (True, l, h1)" using eq nb(2) Cons by simp
    then show thesis using that[of h1 fs] links1 lay1 cnt1 fr sz by (simp add: heap_ok_def)
  qed
qed

lemma join_right:
  assumes links: "heap_links h (as @ l # r # bs) fs" and lay: "heap_layout h (as @ l # r # bs)" and r: "r \<in> set fs"
  obtains g h2 gs where
    "free_list_del r (h\<lparr>SEGMENT_stByteSize := (SEGMENT_stByteSize h)(l := SEGMENT_stByteSize h l + (SEGMENT_stByteSize h r + BLK))\<rparr>) = Some g"
    "neighbour_del r g = h2" "heap_links h2 (as @ l # bs) gs" "set gs = set fs - {r}" "heap_layout h2 (as @ l # bs)"
    "SEGMENT_stByteSize h2 = SEGMENT_stByteSize (heap_join l r h)" "heap_frame h h2"
    "HEAP_ulSegmentCounter h2 = HEAP_ulSegmentCounter h" "HEAP_stUsedByteSize h2 = HEAP_stUsedByteSize h"
    "HEAP_stFreeByteSize h2 = HEAP_stFreeByteSize h"
proof -
  let ?f = "(SEGMENT_stByteSize h)(l := SEGMENT_stByteSize h l + (SEGMENT_stByteSize h r + BLK))"
  obtain us vs where fs: "fs = us @ r # vs" using r by (auto simp: in_set_conv_decomp)
  obtain R hdr where d: "free_list_del r h = Some (h\<lparr>hp_ring := R, HEAP_pringFreeSegment := hdr\<rparr>)"
    "heap_links (h\<lparr>hp_ring := R, HEAP_pringFreeSegment := hdr\<rparr>) (as @ l # r # bs) (us @ vs)" "r \<notin> set (us @ vs)"
    using free_list_del_ok[of h "as @ l # r # bs" us r vs] links fs by metis
  let ?k = "h\<lparr>hp_ring := R, HEAP_pringFreeSegment := hdr\<rparr>"
  let ?g = "?k\<lparr>SEGMENT_stByteSize := ?f\<rparr>"
  have lk: "heap_layout ?k (as @ l # r # bs)" using lay by simp
  note j = join_ok[OF d(2) lk d(3)]
  have g: "free_list_del r (h\<lparr>SEGMENT_stByteSize := ?f\<rparr>) = Some ?g"
    using d(1) by (cases h) (auto simp: free_list_del_def split: option.splits prod.splits)
  have n: "neighbour_del r ?g = heap_join l r ?k" by (simp add: heap_join_def)
  have "distinct fs" using free_distinct[OF links] .
  then have gs: "set (us @ vs) = set fs - {r}" using fs by auto
  show thesis
    by (rule that[OF g n j(1) gs j(2)]) simp_all
qed

lemma free_bytes_insert:
  assumes "distinct fs" "distinct gs" "set gs = insert s (set fs)" "s \<notin> set fs"
    and "\<And>t. t \<in> set fs \<Longrightarrow> SEGMENT_stByteSize h' t = SEGMENT_stByteSize h t"
  shows "free_bytes h' gs = SEGMENT_stByteSize h' s + free_bytes h fs"
  using assms by (simp add: free_bytes_set)

lemma merge_right_none:
  assumes ok: "heap_ok h (as @ s # bs) fs" and s: "s \<notin> set fs" and r: "bs \<noteq> [] \<Longrightarrow> hd bs \<notin> set fs"
  obtains h' fs' where
    "heap_merge_right (LINE_plistNext (hp_line h) s) (SEGMENT_stByteSize h s) (False, s, h) = Some h'"
    "heap_ok h' (as @ s # bs) fs'" "set fs' = insert s (set fs)" "heap_frame h h'" "SEGMENT_stByteSize h' = SEGMENT_stByteSize h"
proof -
  let ?xs = "as @ s # bs"
  have links: "heap_links h ?xs fs" and lay: "heap_layout h ?xs" and cnt: "heap_counts h ?xs fs" using ok by (simp_all add: heap_ok_def)
  obtain R hdr fs' where a: "HEAP_ADD_NEW_SEG_TO_FREELIST s h = Some (h\<lparr>hp_ring := R, HEAP_pringFreeSegment := hdr\<rparr>)"
    "heap_links (h\<lparr>hp_ring := R, HEAP_pringFreeSegment := hdr\<rparr>) ?xs fs'" "fs' = s # fs \<or> fs' = fs @ [s]"
    by (rule free_list_add_ok[OF links_but[OF links] _ s]) simp_all
  define h' where "h' = heap_account (SEGMENT_stByteSize h s) (h\<lparr>hp_ring := R, HEAP_pringFreeSegment := hdr\<rparr>)"
  have set: "set fs' = insert s (set fs)" using a(3) by auto
  have "heap_merge_right (LINE_plistNext (hp_line h) s) (SEGMENT_stByteSize h s) (False, s, h) = Some h'"
  proof (cases bs)
    case (Cons x xs)
    then have "HEAP_SEGMENT_IS_USED h x" using used_iff[OF links, of x] r by simp
    then show ?thesis using neighbours(2)[OF links] Cons a(1) by (simp add: heap_merge_right_def h'_def)
  qed (use neighbours(2)[OF links] a(1) in \<open>simp add: heap_merge_right_def h'_def\<close>)
  moreover have "heap_ok h' ?xs fs'"
  proof -
    have "free_bytes h' fs' = SEGMENT_stByteSize h s + free_bytes h fs"
      using free_bytes_insert[OF free_distinct[OF links] free_distinct[OF a(2)] set s, of h' h] by (simp add: h'_def)
    moreover have "BLK + SEGMENT_stByteSize h s \<le> HEAP_stUsedByteSize h" using used_bytes_seg[OF ok _ s] by simp
    ultimately have "heap_counts h' ?xs fs'" using cnt by (simp add: heap_counts_def h'_def heap_account_def)
    then show ?thesis using a(2) lay by (simp add: heap_ok_def h'_def)
  qed
  ultimately show thesis using that[OF _ _ set] by (simp add: h'_def)
qed

lemma merge_right_merged:
  assumes links: "heap_links h (as @ l # bs) fs" and r: "bs \<noteq> [] \<Longrightarrow> hd bs \<notin> set fs"
  shows "heap_merge_right (LINE_plistNext (hp_line h) l) n (True, l, h) = Some h"
proof (cases bs)
  case (Cons x xs)
  then have "HEAP_SEGMENT_IS_USED h x" using used_iff[OF links, of x] r by simp
  then show ?thesis using neighbours(2)[OF links] Cons by (simp add: heap_merge_right_def)
qed (use neighbours(2)[OF links] in \<open>simp add: heap_merge_right_def\<close>)

lemma merge_right_join:
  assumes ok: "heap_ok h (as @ s # r # bs) fs" and s: "s \<notin> set fs" and r: "r \<in> set fs"
  obtains h' fs' where
    "heap_merge_right (LINE_plistNext (hp_line h) s) (SEGMENT_stByteSize h s) (False, s, h) = Some h'"
    "heap_ok h' (as @ s # bs) fs'" "set fs' = insert s (set fs - {r})" "heap_frame h h'"
    "SEGMENT_stByteSize h' = SEGMENT_stByteSize (heap_join s r h)"
proof -
  let ?xs = "as @ s # r # bs"
  have links: "heap_links h ?xs fs" and lay: "heap_layout h ?xs" and cnt: "heap_counts h ?xs fs" using ok by (simp_all add: heap_ok_def)
  obtain g h2 gs where g:
    "free_list_del r (h\<lparr>SEGMENT_stByteSize := (SEGMENT_stByteSize h)(s := SEGMENT_stByteSize h s + (SEGMENT_stByteSize h r + BLK))\<rparr>) = Some g"
    "neighbour_del r g = h2" "heap_links h2 (as @ s # bs) gs" "set gs = set fs - {r}" "heap_layout h2 (as @ s # bs)"
    "SEGMENT_stByteSize h2 = SEGMENT_stByteSize (heap_join s r h)" "heap_frame h h2"
    "HEAP_ulSegmentCounter h2 = HEAP_ulSegmentCounter h" "HEAP_stUsedByteSize h2 = HEAP_stUsedByteSize h"
    "HEAP_stFreeByteSize h2 = HEAP_stFreeByteSize h"
    by (rule join_right[OF links lay r])
  let ?h3 = "h2\<lparr>HEAP_ulSegmentCounter := HEAP_ulSegmentCounter h2 - 1\<rparr>"
  have l3: "heap_links ?h3 (as @ s # bs) gs" and sg: "s \<notin> set gs" using g(3,4) s by simp_all
  obtain R hdr fs' where a: "HEAP_ADD_NEW_SEG_TO_FREELIST s ?h3 = Some (?h3\<lparr>hp_ring := R, HEAP_pringFreeSegment := hdr\<rparr>)"
    "heap_links (?h3\<lparr>hp_ring := R, HEAP_pringFreeSegment := hdr\<rparr>) (as @ s # bs) fs'" "fs' = s # gs \<or> fs' = gs @ [s]"
    by (rule free_list_add_ok[OF links_but[OF l3] _ sg]) simp_all
  define h' where "h' = heap_account (BLK + SEGMENT_stByteSize h s) (?h3\<lparr>hp_ring := R, HEAP_pringFreeSegment := hdr\<rparr>)"
  have set: "set fs' = insert s (set gs)" using a(3) by auto
  have right: "\<not> HEAP_SEGMENT_IS_USED h r" "HEAP_SEGMENT_NEXT_PTR h s = r" "LINE_plistNext (hp_line h) s = Some r"
    using used_iff[OF links, of r] r next_ptr[OF lay] neighbours(2)[OF links] by simp_all
  have run: "heap_merge_right (LINE_plistNext (hp_line h) s) (SEGMENT_stByteSize h s) (False, s, h) = Some h'"
    using right g(1,2) a(1) by (simp add: heap_merge_right_def Let_def h'_def)
  have sz: "SEGMENT_stByteSize h' = SEGMENT_stByteSize (heap_join s r h)" using g(6) by (simp add: h'_def)
  have d: "distinct gs" "distinct fs'" "distinct fs" using free_distinct g(3) a(2) links by blast+
  have "free_bytes h' fs' = SEGMENT_stByteSize h' s + free_bytes h gs"
    using s g(4) by (intro free_bytes_insert[OF d(1,2) set sg]) (auto simp: sz)
  moreover have "free_bytes h fs = SEGMENT_stByteSize h r + free_bytes h gs"
    using r g(4) d by (simp add: free_bytes_set sum.remove)
  ultimately have "free_bytes h' fs' = free_bytes h fs + (BLK + SEGMENT_stByteSize h s)" by (simp add: sz)
  moreover have "BLK + SEGMENT_stByteSize h s \<le> HEAP_stUsedByteSize h" using used_bytes_seg[OF ok _ s] by simp
  ultimately have "heap_counts h' (as @ s # bs) fs'"
    using cnt g(7-10) by (simp add: heap_counts_def h'_def heap_account_def heap_frame_def)
  then have ok': "heap_ok h' (as @ s # bs) fs'" using a(2) g(5) by (simp add: heap_ok_def h'_def)
  have fr: "heap_frame h h'" using g(7) by (simp add: h'_def)
  show thesis by (rule that[OF run ok' _ fr sz]) (simp add: set g(4))
qed

lemma merge_right_both:
  assumes ok: "heap_ok h (as @ l # r # bs) fs" and l: "l \<in> set fs" and r: "r \<in> set fs"
  obtains h' fs' where
    "heap_merge_right (LINE_plistNext (hp_line h) l) n (True, l, h) = Some h'"
    "heap_ok h' (as @ l # bs) fs'" "set fs' = set fs - {r}" "heap_frame h h'"
    "SEGMENT_stByteSize h' = SEGMENT_stByteSize (heap_join l r h)"
proof -
  let ?xs = "as @ l # r # bs"
  have links: "heap_links h ?xs fs" and lay: "heap_layout h ?xs" and cnt: "heap_counts h ?xs fs" using ok by (simp_all add: heap_ok_def)
  have lr: "l \<noteq> r" using layout_distinct[OF lay] by auto
  obtain g h2 gs where g:
    "free_list_del r (h\<lparr>SEGMENT_stByteSize := (SEGMENT_stByteSize h)(l := SEGMENT_stByteSize h l + (SEGMENT_stByteSize h r + BLK))\<rparr>) = Some g"
    "neighbour_del r g = h2" "heap_links h2 (as @ l # bs) gs" "set gs = set fs - {r}" "heap_layout h2 (as @ l # bs)"
    "SEGMENT_stByteSize h2 = SEGMENT_stByteSize (heap_join l r h)" "heap_frame h h2"
    "HEAP_ulSegmentCounter h2 = HEAP_ulSegmentCounter h" "HEAP_stUsedByteSize h2 = HEAP_stUsedByteSize h"
    "HEAP_stFreeByteSize h2 = HEAP_stFreeByteSize h"
    by (rule join_right[OF links lay r])
  let ?h3 = "h2\<lparr>HEAP_ulSegmentCounter := HEAP_ulSegmentCounter h2 - 1\<rparr>"
  have l3: "heap_links ?h3 (as @ l # bs) gs" and lg: "l \<in> set gs" using g(3,4) l lr by simp_all
  have right: "\<not> HEAP_SEGMENT_IS_USED h r" "HEAP_SEGMENT_NEXT_PTR h l = r" "LINE_plistNext (hp_line h) l = Some r"
    using used_iff[OF links, of r] r next_ptr[OF lay] neighbours(2)[OF links] by simp_all
  define again where "again = (if LINE_plistNext (hp_line ?h3) l = None
      then Option.bind (free_list_del l ?h3) (HEAP_ADD_NEW_SEG_TO_FREELIST l) else Some ?h3)"
  have run: "heap_merge_right (LINE_plistNext (hp_line h) l) n (True, l, h) = Option.bind again (\<lambda>h. Some (heap_account BLK h))"
    using right g(1,2) by (simp add: heap_merge_right_def Let_def again_def)
  obtain R hdr gs' where a: "again = Some (?h3\<lparr>hp_ring := R, HEAP_pringFreeSegment := hdr\<rparr>)"
    "heap_links (?h3\<lparr>hp_ring := R, HEAP_pringFreeSegment := hdr\<rparr>) (as @ l # bs) gs'" "set gs' = set gs"
  proof (cases "LINE_plistNext (hp_line ?h3) l = None")
    case True
    then show thesis using relist_ok[OF l3 lg] that unfolding again_def by (metis (no_types))
  next
    case False
    then show thesis using that[where R = "hp_ring ?h3" and hdr = "HEAP_pringFreeSegment ?h3" and gs' = gs] l3 by (auto simp: again_def)
  qed
  define h' where "h' = heap_account BLK (?h3\<lparr>hp_ring := R, HEAP_pringFreeSegment := hdr\<rparr>)"
  have sz: "SEGMENT_stByteSize h' = SEGMENT_stByteSize (heap_join l r h)" using g(6) by (simp add: h'_def)
  have d: "distinct gs'" "distinct fs" using free_distinct a(2) links by blast+
  have "free_bytes h' gs' = SEGMENT_stByteSize h' l + (\<Sum>t \<in> set gs - {l}. SEGMENT_stByteSize h' t)"
    using lg a(3) d(1) by (simp add: free_bytes_set sum.remove)
  also have "(\<Sum>t \<in> set gs - {l}. SEGMENT_stByteSize h' t) = (\<Sum>t \<in> set gs - {l}. SEGMENT_stByteSize h t)"
    by (rule sum.cong) (simp_all add: sz)
  also have "SEGMENT_stByteSize h' l + \<dots> = BLK + SEGMENT_stByteSize h r + (SEGMENT_stByteSize h l + (\<Sum>t \<in> set gs - {l}. SEGMENT_stByteSize h t))"
    by (simp add: sz)
  also have "SEGMENT_stByteSize h l + (\<Sum>t \<in> set gs - {l}. SEGMENT_stByteSize h t) = (\<Sum>t \<in> set gs. SEGMENT_stByteSize h t)"
    using lg by (simp add: sum.remove)
  also have "BLK + SEGMENT_stByteSize h r + \<dots> = BLK + free_bytes h fs"
    using r g(4) d(2) by (simp add: free_bytes_set sum.remove)
  finally have fb: "free_bytes h' gs' = BLK + free_bytes h fs" .
  have "BLK \<le> HEAP_stUsedByteSize h" using used_bytes[OF ok] by simp
  then have "heap_counts h' (as @ l # bs) gs'"
    using cnt g(7-10) fb by (simp add: heap_counts_def h'_def heap_account_def heap_frame_def)
  then have ok': "heap_ok h' (as @ l # bs) gs'" using a(2) g(5) by (simp add: heap_ok_def h'_def)
  have fr: "heap_frame h h'" using g(7) by (simp add: h'_def)
  have run': "heap_merge_right (LINE_plistNext (hp_line h) l) n (True, l, h) = Some h'" using run a(1) by (simp add: h'_def)
  show thesis by (rule that[OF run' ok' _ fr sz]) (simp add: a(3) g(4))
qed

text \<open>A release as a whole: four cases, by whether the neighbours are free.\<close>

lemma heap_live_drop:
  assumes "set xs' - set fs' = set xs - set fs - {s}"
    and "\<And>t. t \<in> set xs - set fs - {s} \<Longrightarrow> SEGMENT_stByteSize h' t = SEGMENT_stByteSize h t"
  shows "heap_live h' xs' fs' = (heap_live h xs fs)(HEAP_SEGMENT_DATA_PTR s := None)"
proof
  fix p
  show "heap_live h' xs' fs' p = ((heap_live h xs fs)(HEAP_SEGMENT_DATA_PTR s := None)) p"
  proof (cases "BLK \<le> p")
    case True
    then have "p = HEAP_SEGMENT_DATA_PTR s \<longleftrightarrow> p - BLK = s" by (auto simp: HEAP_SEGMENT_DATA_PTR_def)
    then show ?thesis using assms(1) assms(2)[of "p - BLK"] True by (auto simp: heap_live_def)
  qed (auto simp: heap_live_def)
qed

lemma ok_distinct: "heap_ok h xs fs \<Longrightarrow> distinct xs"
  unfolding heap_ok_def by (blast intro: layout_distinct)

definition released :: "addr \<Rightarrow> heap \<Rightarrow> addr list \<Rightarrow> addr list \<Rightarrow> heap \<Rightarrow> bool" where
  "released s h xs fs h' \<longleftrightarrow> heap_frame h h' \<and>
     (\<exists>xs' fs'. heap_good h' xs' fs' \<and>
        heap_live h' xs' fs' = (heap_live h xs fs)(HEAP_SEGMENT_DATA_PTR s := None))"

lemma releasedI:
  assumes "heap_ok h' xs' fs'" "coalesced (set fs') xs'" "heap_frame h h'" "set xs' - set fs' = set xs - set fs - {s}"
    "\<And>t. t \<in> set xs - set fs - {s} \<Longrightarrow> SEGMENT_stByteSize h' t = SEGMENT_stByteSize h t"
  shows "released s h xs fs h'"
  using assms(1-3) heap_live_drop[OF assms(4,5)] unfolding released_def heap_good_def by blast

lemma release_kept_left:
  assumes g: "heap_good h (as @ s # bs) fs" and s: "s \<notin> set fs" and l: "as \<noteq> [] \<Longrightarrow> last as \<notin> set fs"
  obtains h' where "heap_release s h = Some h'" "released s h (as @ s # bs) fs h'"
proof -
  have ok: "heap_ok h (as @ s # bs) fs" and co: "coalesced (set fs) (as @ s # bs)" using g by (simp_all add: heap_good_def)
  have links: "heap_links h (as @ s # bs) fs" using ok by (simp add: heap_ok_def)
  have d: "distinct (as @ s # bs)" by (rule ok_distinct[OF ok])
  note ml = merge_left_skip[OF links l]
  show thesis
  proof (cases "bs \<noteq> [] \<and> hd bs \<in> set fs")
    case False
    then have r: "bs \<noteq> [] \<Longrightarrow> hd bs \<notin> set fs" by blast
    obtain h' fs' where m: "heap_merge_right (LINE_plistNext (hp_line h) s) (SEGMENT_stByteSize h s) (False, s, h) = Some h'"
      "heap_ok h' (as @ s # bs) fs'" "set fs' = insert s (set fs)" "heap_frame h h'" "SEGMENT_stByteSize h' = SEGMENT_stByteSize h"
      by (rule merge_right_none[OF ok s r])
    have "coalesced (insert s (set fs)) as" "coalesced (insert s (set fs)) bs"
      using co d by (auto simp: coalesced_mid coalesced_Cons intro: coalesced_mono)
    then have "coalesced (set fs') (as @ s # bs)"
      using l r d m(3) by (cases as rule: rev_cases; cases bs) (auto simp: coalesced_mid coalesced_Cons)
    then have "released s h (as @ s # bs) fs h'"
      by (rule releasedI[OF m(2) _ m(4)]) (auto simp: m(3,5))
    then show thesis using that[of h'] ml m(1) by (simp add: heap_release_def)
  next
    case True
    then obtain r bs' where bs: "bs = r # bs'" "r \<in> set fs" by (cases bs) auto
    have ok': "heap_ok h (as @ s # r # bs') fs" using ok bs by simp
    obtain h' fs' where m: "heap_merge_right (LINE_plistNext (hp_line h) s) (SEGMENT_stByteSize h s) (False, s, h) = Some h'"
      "heap_ok h' (as @ s # bs') fs'" "set fs' = insert s (set fs - {r})" "heap_frame h h'"
      "SEGMENT_stByteSize h' = SEGMENT_stByteSize (heap_join s r h)"
      by (rule merge_right_join[OF ok' s bs(2)])
    have "coalesced (insert s (set fs - {r})) as" "coalesced (insert s (set fs - {r})) bs'"
      using co d bs by (auto simp: coalesced_mid coalesced_Cons intro: coalesced_mono)
    moreover have "bs' \<noteq> [] \<Longrightarrow> hd bs' \<notin> set fs" using co bs by (cases bs') (auto simp: coalesced_mid coalesced_Cons)
    ultimately have "coalesced (set fs') (as @ s # bs')"
      using l d m(3) bs by (cases as rule: rev_cases; cases bs') (auto simp: coalesced_mid coalesced_Cons)
    then have "released s h (as @ s # bs) fs h'"
      by (rule releasedI[OF m(2) _ m(4)]) (use d bs in \<open>auto simp: m(3,5)\<close>)
    then show thesis using that[of h'] ml m(1) by (simp add: heap_release_def)
  qed
qed

lemma release_into_left:
  assumes g: "heap_good h (as @ l # s # bs) fs" and s: "s \<notin> set fs" and l: "l \<in> set fs"
  obtains h' where "heap_release s h = Some h'" "released s h (as @ l # s # bs) fs h'"
proof -
  let ?xs = "as @ l # s # bs"
  have ok: "heap_ok h ?xs fs" and co: "coalesced (set fs) ?xs" using g by (simp_all add: heap_good_def)
  have links: "heap_links h ((as @ [l]) @ s # bs) fs" using ok by (simp add: heap_ok_def)
  have d: "distinct ?xs" by (rule ok_distinct[OF ok])
  obtain h1 fs1 where m: "heap_merge_left s h = Some (True, l, h1)" "heap_ok h1 (as @ l # bs) fs1" "set fs1 = set fs"
    "heap_frame h h1" "SEGMENT_stByteSize h1 = SEGMENT_stByteSize (heap_join l s h)"
    by (rule merge_left_join[OF ok l s])
  have links1: "heap_links h1 (as @ l # bs) fs1" using m(2) by (simp add: heap_ok_def)
  have nx: "LINE_plistNext (hp_line h) s = LINE_plistNext (hp_line h1) l"
    using neighbours(2)[OF links] neighbours(2)[OF links1] by simp
  have cs: "coalesced (set fs) as" "coalesced (set fs) bs" "as \<noteq> [] \<Longrightarrow> last as \<notin> set fs"
    using co l by (auto simp: coalesced_mid coalesced_Cons)
  show thesis
  proof (cases "bs \<noteq> [] \<and> hd bs \<in> set fs")
    case False
    then have r: "bs \<noteq> [] \<Longrightarrow> hd bs \<notin> set fs" by blast
    have "coalesced (set fs1) (as @ l # bs)"
      using cs r m(3) by (cases as rule: rev_cases; cases bs) (auto simp: coalesced_mid coalesced_Cons)
    then have "released s h ?xs fs h1"
      by (rule releasedI[OF m(2) _ m(4)]) (use d l in \<open>auto simp: m(3,5)\<close>)
    then show thesis using that[of h1] m(1) nx merge_right_merged[OF links1] r m(3) by (simp add: heap_release_def)
  next
    case True
    then obtain r bs' where bs: "bs = r # bs'" "r \<in> set fs" by (cases bs) auto
    have ok1: "heap_ok h1 (as @ l # r # bs') fs1" and lr: "l \<in> set fs1" "r \<in> set fs1" using m(2,3) bs l by simp_all
    obtain h' fs' where m': "heap_merge_right (LINE_plistNext (hp_line h1) l) (SEGMENT_stByteSize h s) (True, l, h1) = Some h'"
      "heap_ok h' (as @ l # bs') fs'" "set fs' = set fs1 - {r}" "heap_frame h1 h'"
      "SEGMENT_stByteSize h' = SEGMENT_stByteSize (heap_join l r h1)"
      by (rule merge_right_both[OF ok1 lr])
    have "coalesced (set fs - {r}) as" "coalesced (set fs - {r}) bs'"
      using cs d bs by (auto simp: coalesced_Cons intro: coalesced_mono)
    moreover have "bs' \<noteq> [] \<Longrightarrow> hd bs' \<notin> set fs" using cs(2) bs by (cases bs') (auto simp: coalesced_Cons)
    ultimately have "coalesced (set fs') (as @ l # bs')"
      using cs(3) m(3) m'(3) bs by (cases as rule: rev_cases; cases bs') (auto simp: coalesced_mid coalesced_Cons)
    moreover have "heap_frame h h'" using m(4) m'(4) by (simp add: heap_frame_def)
    ultimately have "released s h ?xs fs h'"
      by (rule releasedI[OF m'(2)]) (use d l bs in \<open>auto simp: m(3,5) m'(3,5)\<close>)
    then show thesis using that[of h'] m(1) m'(1) nx by (simp add: heap_release_def)
  qed
qed

lemma heap_release_ok:
  assumes g: "heap_good h xs fs" and s: "s \<in> set xs" "s \<notin> set fs"
  obtains h' where "heap_release s h = Some h'" "released s h xs fs h'"
proof -
  obtain as bs where xs: "xs = as @ s # bs" using s(1) by (auto simp: in_set_conv_decomp)
  show thesis
  proof (cases "as \<noteq> [] \<and> last as \<in> set fs")
    case True
    then obtain as' l where as: "as = as' @ [l]" "l \<in> set fs" by (cases as rule: rev_cases) auto
    then show thesis using release_into_left[of h as' l s bs fs] that g s xs by auto
  next
    case False
    then show thesis using release_kept_left[of h as s bs fs] that g s xs by blast
  qed
qed

text \<open>The segment of an address.\<close>

lemma ok_chain:
  "heap_ok h xs fs \<Longrightarrow>
   chain (SEGMENT_stByteSize h) xs (HEAP_pvStartAddress h) (HEAP_pvStartAddress h + HEAP_stTotalByteSize h)"
  by (simp add: heap_ok_def heap_layout_def)

lemma HeapVerify_eq:
  assumes ok: "heap_ok h xs fs"
  shows "HeapVerify h p = Some (if p < HEAP_pvStartAddress h \<or> p \<ge> HEAP_pvStartAddress h + HEAP_stTotalByteSize h then None
    else case find (\<lambda>s. p > s \<and> p \<le> HEAP_SEGMENT_NEXT_PTR h s) xs of
      None \<Rightarrow> None | Some s \<Rightarrow> if s \<in> set fs then None else Some s)"
proof -
  have links: "heap_links h xs fs" using ok by (simp add: heap_ok_def)
  have "line (hp_line h) (Some (HEAP_pvStartAddress h)) xs" using links by (simp add: heap_links_def)
  note f = line_find_eq[OF this, of "\<lambda>s. p > s \<and> p \<le> HEAP_SEGMENT_NEXT_PTR h s"]
  have "HEAP_SEGMENT_IS_USED h s \<longleftrightarrow> s \<notin> set fs"
    if "find (\<lambda>s. p > s \<and> p \<le> HEAP_SEGMENT_NEXT_PTR h s) xs = Some s" for s
    using used_iff[OF links, of s] that by (metis find_Some_iff nth_mem)
  then show ?thesis unfolding HeapVerify_def f by (simp split: option.split)
qed

lemma find_seg:
  assumes ok: "heap_ok h xs fs" and s: "s \<in> set xs" "s < p" "p \<le> s + BLK + SEGMENT_stByteSize h s"
  shows "find (\<lambda>s. p > s \<and> p \<le> HEAP_SEGMENT_NEXT_PTR h s) xs = Some s"
proof -
  let ?P = "\<lambda>s. p > s \<and> p \<le> HEAP_SEGMENT_NEXT_PTR h s"
  have P: "?P t \<longleftrightarrow> t = s" if "t \<in> set xs" for t
    using chain_apart[OF ok_chain[OF ok] that s(1)] chain_apart[OF ok_chain[OF ok] s(1) that] s(2,3)
    by (cases s t rule: linorder_cases) (auto simp: HEAP_SEGMENT_NEXT_PTR_def HEAP_SEGMENT_DATA_PTR_def)
  show ?thesis
  proof (cases "find ?P xs")
    case None
    then have "\<not> ?P s" using s(1) by (simp add: find_None_iff)
    then show ?thesis using P[OF s(1)] by blast
  next
    case (Some t)
    then have "t \<in> set xs" "?P t" by (auto simp: find_Some_iff)
    then show ?thesis using P Some by simp
  qed
qed

lemma live_seg:
  assumes "heap_live h xs fs p = Some k"
  obtains s where "p = HEAP_SEGMENT_DATA_PTR s" "s \<in> set xs" "s \<notin> set fs" "k = SEGMENT_stByteSize h s"
  using assms that[of "p - BLK"] by (auto simp: heap_live_def HEAP_SEGMENT_DATA_PTR_def split: if_splits)

lemma heap_lookup_live:
  assumes ok: "heap_ok h xs fs" and s: "s \<in> set xs" "s \<notin> set fs" and v: "v \<Longrightarrow> 0 < SEGMENT_stByteSize h s"
  shows "heap_lookup v (HEAP_SEGMENT_DATA_PTR s) h = Some (Some s)"
proof -
  have links: "heap_links h xs fs" and real: "HEAP_SEGMENT_IS_REAL h s" using ok s by (simp_all add: heap_ok_def heap_layout_def)
  have used: "HEAP_SEGMENT_IS_USED h s" using used_iff[OF links s(1)] s(2) by simp
  show ?thesis
  proof (cases v)
    case True
    have "find (\<lambda>t. HEAP_SEGMENT_DATA_PTR s > t \<and> HEAP_SEGMENT_DATA_PTR s \<le> HEAP_SEGMENT_NEXT_PTR h t) xs = Some s"
      by (rule find_seg[OF ok s(1)]) (simp_all add: HEAP_SEGMENT_DATA_PTR_def)
    moreover have "HEAP_pvStartAddress h \<le> HEAP_SEGMENT_DATA_PTR s"
      "HEAP_SEGMENT_DATA_PTR s < HEAP_pvStartAddress h + HEAP_stTotalByteSize h"
      using chain_mem[OF ok_chain[OF ok] s(1)] v[OF True] by (simp_all add: HEAP_SEGMENT_DATA_PTR_def)
    ultimately show ?thesis using True s(2) by (simp add: heap_lookup_def HeapVerify_eq[OF ok])
  next
    case False
    then show ?thesis using real used by (simp add: heap_lookup_def HEAP_SEGMENT_DATA_PTR_def)
  qed
qed

lemma HeapFree_live:
  assumes g: "heap_good h xs fs" and live: "heap_live h xs fs p = Some k" and lock: "hp_lockerr h = 0" and v: "v \<Longrightarrow> 0 < k"
  obtains h' xs' fs' where "HeapFree p v h = Some (0, h')" "heap_frame h h'" "heap_good h' xs' fs'"
    "heap_live h' xs' fs' = (heap_live h xs fs)(p := None)"
proof -
  obtain s where s: "p = HEAP_SEGMENT_DATA_PTR s" "s \<in> set xs" "s \<notin> set fs" "k = SEGMENT_stByteSize h s"
    by (rule live_seg[OF live])
  have ok: "heap_ok h xs fs" using g by (simp add: heap_good_def)
  have look: "heap_lookup v p h = Some (Some s)" using heap_lookup_live[OF ok s(2,3), of v] v s(1,4) by simp
  obtain h' where r: "heap_release s h = Some h'" "released s h xs fs h'" by (rule heap_release_ok[OF g s(2,3)])
  have "p \<noteq> 0" using s(1) by (simp add: HEAP_SEGMENT_DATA_PTR_def)
  then have "HeapFree p v h = Some (0, h')" using lock look r(1) by (simp add: HeapFree_def)
  then show thesis using that r(2) s(1) by (auto simp: released_def)
qed

text \<open>With the check, an address that is in no block in use is refused.\<close>

lemma HeapFree_refused:
  assumes g: "heap_good h xs fs" and out: "\<And>q k. heap_live h xs fs q = Some k \<Longrightarrow> \<not> (q < p + BLK \<and> p \<le> q + k)"
  shows "HeapFree p True h = Some (p, h)"
proof -
  have ok: "heap_ok h xs fs" using g by (simp add: heap_good_def)
  have "s \<in> set fs" if f: "find (\<lambda>s. p > s \<and> p \<le> HEAP_SEGMENT_NEXT_PTR h s) xs = Some s" for s
  proof (rule ccontr)
    assume "s \<notin> set fs"
    moreover have "s \<in> set xs" "p > s" "p \<le> HEAP_SEGMENT_NEXT_PTR h s" using f by (auto simp: find_Some_iff)
    ultimately show False
      using out[of "HEAP_SEGMENT_DATA_PTR s" "SEGMENT_stByteSize h s"]
      by (simp add: heap_live_def HEAP_SEGMENT_NEXT_PTR_def HEAP_SEGMENT_DATA_PTR_def)
  qed
  then have "heap_lookup True p h = Some None"
    unfolding heap_lookup_def HeapVerify_eq[OF ok] by (auto split: option.split)
  then show ?thesis by (simp add: HeapFree_def)
qed

text \<open>Blocks in use are apart, aligned and inside of the heap.\<close>

lemma data_aligned:
  assumes "chain sz xs a e" "c dvd a" "c dvd BLK" "\<forall>s \<in> set xs. c dvd sz s" "x \<in> set xs"
  shows "(c::nat) dvd x"
  using assms by (induction xs arbitrary: a) auto

lemma live_blocks:
  assumes ok: "heap_ok h xs fs" and live: "heap_live h xs fs p = Some k"
  shows "HEAP_pvStartAddress h + BLK \<le> p" "p + k \<le> HEAP_pvStartAddress h + HEAP_stTotalByteSize h"
    "LW_CFG_HEAP_ALIGNMENT dvd p" "heap_live h xs fs q = Some l \<Longrightarrow> p < q \<Longrightarrow> p + k + BLK \<le> q"
proof -
  obtain s where s: "p = s + BLK" "s \<in> set xs" "k = SEGMENT_stByteSize h s"
    using live_seg[OF live] by (metis HEAP_SEGMENT_DATA_PTR_def)
  note c = ok_chain[OF ok]
  show "HEAP_pvStartAddress h + BLK \<le> p" "p + k \<le> HEAP_pvStartAddress h + HEAP_stTotalByteSize h"
    using chain_mem[OF c s(2)] s(1,3) by simp_all
  have b: "LW_CFG_HEAP_ALIGNMENT dvd BLK" by (simp add: LW_CFG_HEAP_ALIGNMENT_def SEGMENT_BLOCK_SIZE_ALIGN_def)
  have "LW_CFG_HEAP_ALIGNMENT dvd s"
    by (rule data_aligned[OF c _ b _ s(2)]) (use ok in \<open>auto simp: heap_ok_def heap_layout_def\<close>)
  then show "LW_CFG_HEAP_ALIGNMENT dvd p" using b s(1) by simp
  assume l: "heap_live h xs fs q = Some l" "p < q"
  obtain t where t: "q = t + BLK" "t \<in> set xs" using live_seg[OF l(1)] by (metis HEAP_SEGMENT_DATA_PTR_def)
  then show "p + k + BLK \<le> q" using chain_apart[OF c s(2) t(2)] l(2) s(1,3) by simp
qed

text \<open>When nothing is in use, all of the memory is one free segment.\<close>

lemma nothing_live:
  assumes g: "heap_good h xs fs" and none: "heap_live h xs fs = Map.empty"
  shows "xs = [HEAP_pvStartAddress h]" "set fs = {HEAP_pvStartAddress h}"
    "HEAP_ulSegmentCounter h = 1" "HEAP_stFreeByteSize h = HEAP_stTotalByteSize h - BLK" "HEAP_stUsedByteSize h = BLK"
proof -
  have ok: "heap_ok h xs fs" and co: "coalesced (set fs) xs" using g by (simp_all add: heap_good_def)
  have links: "heap_links h xs fs" and cnt: "heap_counts h xs fs" using ok by (simp_all add: heap_ok_def)
  have "s \<in> set fs" if "s \<in> set xs" for s
    using fun_cong[OF none, of "HEAP_SEGMENT_DATA_PTR s"] that by (simp add: heap_live_def HEAP_SEGMENT_DATA_PTR_def split: if_splits)
  then have all: "set fs = set xs" using links by (auto simp: heap_links_def)
  obtain x ys where xs: "xs = x # ys" "x = HEAP_pvStartAddress h" using links by (cases xs) (auto simp: heap_links_def line_def)
  have "ys = []" using co all xs(1) by (cases ys) (auto simp: coalesced_Cons)
  then show one: "xs = [HEAP_pvStartAddress h]" using xs by simp
  then show "set fs = {HEAP_pvStartAddress h}" "HEAP_ulSegmentCounter h = 1" using all cnt by (simp_all add: heap_counts_def)
  show used: "HEAP_stUsedByteSize h = BLK" using used_bytes[OF ok] one all by simp
  have "HEAP_stUsedByteSize h + HEAP_stFreeByteSize h = HEAP_stTotalByteSize h" using cnt by (simp add: heap_counts_def)
  then show "HEAP_stFreeByteSize h = HEAP_stTotalByteSize h - BLK" using used by linarith
qed

section \<open>Construction\<close>

lemma ROUND_UP_exact:
  assumes "c dvd x" "0 < c" "x + (c - 1) < SIZE_MOD"
  shows "ROUND_UP x c = x"
proof -
  obtain d where d: "x = c * d" using assms(1) by auto
  have "(c * d + (c - 1)) div c = d" using assms(2) by (intro div_nat_eqI) (auto simp: algebra_simps)
  then show ?thesis using assms d by (simp add: ROUND_UP_def)
qed

lemma ROUND_UP_bounds:
  assumes "0 < c" "x + (c - 1) < SIZE_MOD"
  shows "x \<le> ROUND_UP x c" "ROUND_UP x c < x + c" "c dvd ROUND_UP x c"
proof -
  have r: "ROUND_UP x c = (x + (c - 1)) div c * c" using assms(2) by (simp add: ROUND_UP_def)
  have m: "(x + (c - 1)) div c * c + (x + (c - 1)) mod c = x + (c - 1)" by (rule div_mult_mod_eq)
  have "(x + (c - 1)) mod c < c" using assms(1) by simp
  then show "x \<le> ROUND_UP x c" "ROUND_UP x c < x + c" using r m by linarith+
  show "c dvd ROUND_UP x c" by (simp add: ROUND_UP_def)
qed

lemma HeapCtorEx_ok:
  assumes a: "0 < a" "LW_CFG_HEAP_ALIGNMENT dvd a" and n: "LW_CFG_HEAP_ALIGNMENT dvd n" "BLK \<le> n" "a + n + 7 < SIZE_MOD"
  obtains h' where "HeapCtorEx h a n = Some h'" "heap_good h' [a] [a]" "heap_live h' [a] [a] = Map.empty"
    "HEAP_pvStartAddress h' = a" "HEAP_stTotalByteSize h' = n" "hp_lockerr h' = hp_lockerr h" "hp_crossbord h' = hp_crossbord h"
proof -
  have up: "ROUND_UP a LW_CFG_HEAP_ALIGNMENT = a"
    using a(2) n(3) by (intro ROUND_UP_exact) (simp_all add: LW_CFG_HEAP_ALIGNMENT_def)
  have down: "ROUND_DOWN n LW_CFG_HEAP_ALIGNMENT = n" using n(1) by (simp add: ROUND_DOWN_def)
  let ?h1 = "seg_init a (n - BLK) (h\<lparr>hp_line := set_next a None (set_prev a None (hp_line h)),
    hp_ring := INIT_LIST_RING_HEAD a (hp_ring h)\<rparr>)"
  obtain R where R: "List_Ring_Add_Ahead a (hp_ring ?h1, None) = Some (R, Some a)" "ring R (Some a) [a]"
    using Ring_Add_Ahead_ring[of "hp_ring ?h1" None "[]" a] by auto
  let ?h' = "?h1\<lparr>hp_ring := R, HEAP_pringFreeSegment := Some a, HEAP_pvStartAddress := a,
    HEAP_ulSegmentCounter := 1, HEAP_stTotalByteSize := n, HEAP_stUsedByteSize := BLK,
    HEAP_stFreeByteSize := n - BLK, HEAP_stMaxUsedByteSize := BLK\<rparr>"
  have run: "HeapCtorEx h a n = Some ?h'"
    using up down R(1) by (simp add: HeapCtorEx_def Let_def)
  have links: "heap_links ?h' [a] [a]"
    using R(2) by (simp add: heap_links_def line_def last_opt_def seg_init_def set_next_def set_prev_def)
  have "LW_CFG_HEAP_ALIGNMENT dvd BLK" by (simp add: LW_CFG_HEAP_ALIGNMENT_def SEGMENT_BLOCK_SIZE_ALIGN_def)
  then have lay: "heap_layout ?h' [a]"
    using a n by (simp add: heap_layout_def seg_init_def HEAP_SEGMENT_IS_REAL_def)
  have cnt: "heap_counts ?h' [a] [a]" using n(2) by (simp add: heap_counts_def seg_init_def)
  have good: "heap_good ?h' [a] [a]" using links lay cnt by (simp add: heap_good_def heap_ok_def coalesced_def)
  have live: "heap_live ?h' [a] [a] = Map.empty" by (simp add: heap_live_def fun_eq_iff)
  show thesis by (rule that[OF run good live]) (simp_all add: seg_init_def)
qed

section \<open>All the states that a heap can reach\<close>

text \<open>
  \<open>heap_reach h L\<close>: \<open>h\<close> is a state after the construction and any calls of a client that releases only
  blocks it holds, and \<open>L\<close> are the blocks it holds.  Requests stay 19 bytes below the size of the word, so
  that rounding does not wrap.
\<close>

inductive heap_reach :: "heap \<Rightarrow> addr set \<Rightarrow> bool" where
  created: "hp_lockerr h = 0 \<Longrightarrow> 0 < a \<Longrightarrow> LW_CFG_HEAP_ALIGNMENT dvd a \<Longrightarrow> LW_CFG_HEAP_ALIGNMENT dvd n \<Longrightarrow> BLK \<le> n \<Longrightarrow>
    a + n + 7 < SIZE_MOD \<Longrightarrow> HeapCtorEx h a n = Some h' \<Longrightarrow> heap_reach h' {}"
| allocated: "heap_reach h L \<Longrightarrow> 0 < n \<Longrightarrow> n + 19 < SIZE_MOD \<Longrightarrow> HeapAllocate n h = Some (Some p, h') \<Longrightarrow> heap_reach h' (insert p L)"
| no_memory: "heap_reach h L \<Longrightarrow> 0 < n \<Longrightarrow> n + 19 < SIZE_MOD \<Longrightarrow> HeapAllocate n h = Some (None, h') \<Longrightarrow> heap_reach h' L"
| freed: "heap_reach h L \<Longrightarrow> p \<in> L \<Longrightarrow> HeapFree p v h = Some (r, h') \<Longrightarrow> heap_reach h' (L - {p})"

lemma request_size:
  assumes "0 < n" "n + 19 < SIZE_MOD"
  shows "n \<le> ROUND_UP (heap_crossbord_size h n) LW_CFG_HEAP_SEG_MIN_SIZE"
    "hp_crossbord h \<Longrightarrow> n + SIZEOF_WORD \<le> ROUND_UP (heap_crossbord_size h n) LW_CFG_HEAP_SEG_MIN_SIZE"
proof -
  have s: "heap_crossbord_size h n = (if hp_crossbord h then n + SIZEOF_WORD else n)"
    using assms(2) by (simp add: heap_crossbord_size_def SIZEOF_WORD_def)
  have "heap_crossbord_size h n \<le> ROUND_UP (heap_crossbord_size h n) LW_CFG_HEAP_SEG_MIN_SIZE"
    using assms(2) by (intro ROUND_UP_bounds) (auto simp: s SIZEOF_WORD_def LW_CFG_HEAP_SEG_MIN_SIZE_def)
  then show "n \<le> ROUND_UP (heap_crossbord_size h n) LW_CFG_HEAP_SEG_MIN_SIZE"
    "hp_crossbord h \<Longrightarrow> n + SIZEOF_WORD \<le> ROUND_UP (heap_crossbord_size h n) LW_CFG_HEAP_SEG_MIN_SIZE"
    by (auto simp: s split: if_splits)
qed

definition heap_state :: "heap \<Rightarrow> addr set \<Rightarrow> bool" where
  "heap_state h L \<longleftrightarrow> hp_lockerr h = 0 \<and>
     (\<exists>xs fs. heap_good h xs fs \<and> dom (heap_live h xs fs) = L \<and> (\<forall>k \<in> ran (heap_live h xs fs). 0 < k))"

lemma state_allocate:
  assumes st: "heap_state h L" and n: "0 < n" "n + 19 < SIZE_MOD"
  shows "HeapAllocate n h = Some (None, h) \<or>
    (\<exists>p h'. HeapAllocate n h = Some (Some p, h') \<and> p \<notin> L \<and> heap_state h' (insert p L))"
proof -
  obtain xs fs where h: "hp_lockerr h = 0" "heap_good h xs fs" "dom (heap_live h xs fs) = L" "\<forall>k \<in> ran (heap_live h xs fs). 0 < k"
    using st by (auto simp: heap_state_def)
  let ?n = "ROUND_UP (heap_crossbord_size h n) LW_CFG_HEAP_SEG_MIN_SIZE"
  have pos: "0 < ?n" using request_size(1)[OF n, of h] n(1) by linarith
  show ?thesis
  proof (rule HeapAllocate_ok[OF h(2) refl pos])
    fix p h' xs' fs' k
    assume a: "HeapAllocate n h = Some (Some p, h')" "heap_good h' xs' fs'" "heap_frame h h'" "heap_live h xs fs p = None"
      "heap_live h' xs' fs' = (heap_live h xs fs)(p \<mapsto> k)" "?n \<le> k"
    have "0 < k" using a(6) pos by linarith
    then have "\<forall>l \<in> ran (heap_live h' xs' fs'). 0 < l" using h(4) a(4,5) by (auto simp: ran_def)
    then have "heap_state h' (insert p L)"
      using a(2,3,5) h(1,3) unfolding heap_state_def heap_frame_def by (intro conjI exI) auto
    then show ?thesis using a(1,4) h(3) by blast
  qed simp_all
qed

lemma state_free:
  assumes st: "heap_state h L" and p: "p \<in> L"
  shows "\<exists>h'. HeapFree p v h = Some (0, h') \<and> heap_state h' (L - {p})"
proof -
  obtain xs fs where h: "hp_lockerr h = 0" "heap_good h xs fs" "dom (heap_live h xs fs) = L" "\<forall>k \<in> ran (heap_live h xs fs). 0 < k"
    using st by (auto simp: heap_state_def)
  obtain k where k: "heap_live h xs fs p = Some k" using h(3) p by auto
  then have "0 < k" using h(4) by (auto simp: ran_def)
  obtain h' xs' fs' where f: "HeapFree p v h = Some (0, h')" "heap_frame h h'" "heap_good h' xs' fs'"
    "heap_live h' xs' fs' = (heap_live h xs fs)(p := None)"
    by (rule HeapFree_live[OF h(2) k h(1) \<open>0 < k\<close>])
  have "\<forall>l \<in> ran (heap_live h' xs' fs'). 0 < l" using h(4) f(4) by (auto simp: ran_def split: if_splits)
  moreover have "dom (heap_live h' xs' fs') = L - {p}" using f(4) h(3) by (auto split: if_splits)
  moreover have "hp_lockerr h' = 0" using f(2) h(1) by (simp add: heap_frame_def)
  ultimately have "heap_state h' (L - {p})" using f(3) unfolding heap_state_def by blast
  with f(1) show ?thesis by blast
qed

lemma reach_state: "heap_reach h L \<Longrightarrow> heap_state h L"
proof (induction rule: heap_reach.induct)
  case (created h a n h')
  then obtain g where "HeapCtorEx h a n = Some g" "heap_good g [a] [a]" "heap_live g [a] [a] = Map.empty" "hp_lockerr g = hp_lockerr h"
    using HeapCtorEx_ok[of a n h] by metis
  then show ?case using created unfolding heap_state_def by (intro conjI exI[of _ "[a]"]) auto
next
  case (allocated h L n p h')
  then show ?case using state_allocate[OF allocated.IH allocated.hyps(2,3)] by auto
next
  case (no_memory h L n h')
  then show ?case using state_allocate[OF no_memory.IH no_memory.hyps(2,3)] by auto
next
  case (freed h L p v r h')
  then show ?case using state_free[OF freed.IH freed.hyps(2), of v] by auto
qed

end
