(* ===== verification/HeapProps.thy ===== *)
theory HeapProps
  imports HeapSpec
begin

text \<open>
  What the clients of the memory heap rely on: the interface of an allocator of blocks, its interpretation
  on the heap, and the properties of the heap in all the states it can reach.
\<close>

section \<open>Allocators of blocks\<close>

text \<open>A series of requests, of which some may fail, and a series of releases.\<close>

fun alloc_seq :: "(nat \<Rightarrow> 'h \<Rightarrow> ('p option \<times> 'h) option) \<Rightarrow> nat list \<Rightarrow> 'h \<Rightarrow> ('p list \<times> 'h) option" where
  "alloc_seq al [] h = Some ([], h)"
| "alloc_seq al (n # ns) h =
     Option.bind (al n h) (\<lambda>(p, h).
     Option.bind (alloc_seq al ns h) (\<lambda>(ps, h).
       Some (case p of None \<Rightarrow> ps | Some a \<Rightarrow> a # ps, h)))"

fun free_seq :: "('p \<Rightarrow> 'h \<Rightarrow> ('r \<times> 'h) option) \<Rightarrow> 'p list \<Rightarrow> 'h \<Rightarrow> 'h option" where
  "free_seq fr [] h = Some h"
| "free_seq fr (p # ps) h = Option.bind (fr p h) (\<lambda>(r, h). free_seq fr ps h)"

locale block_allocator =
  fixes alive :: "'h \<Rightarrow> 'p set \<Rightarrow> bool"
    and al :: "nat \<Rightarrow> 'h \<Rightarrow> ('p option \<times> 'h) option"
    and fr :: "'p \<Rightarrow> 'h \<Rightarrow> ('r \<times> 'h) option"
    and fits :: "nat \<Rightarrow> bool"
  assumes al_ok: "alive h L \<Longrightarrow> fits n \<Longrightarrow>
      (\<exists>h'. al n h = Some (None, h') \<and> alive h' L) \<or>
      (\<exists>p h'. al n h = Some (Some p, h') \<and> p \<notin> L \<and> alive h' (insert p L))"
    and fr_ok: "alive h L \<Longrightarrow> p \<in> L \<Longrightarrow> \<exists>r h'. fr p h = Some (r, h') \<and> alive h' (L - {p})"
begin

lemma alloc_seq_ok:
  "alive h L \<Longrightarrow> list_all fits ns \<Longrightarrow>
   \<exists>ps h'. alloc_seq al ns h = Some (ps, h') \<and> distinct ps \<and> set ps \<inter> L = {} \<and> alive h' (L \<union> set ps)"
proof (induction ns arbitrary: h L)
  case (Cons n ns)
  have n: "fits n" "list_all fits ns" using Cons.prems(2) by simp_all
  from al_ok[OF Cons.prems(1) n(1)] show ?case
  proof (elim disjE exE conjE)
    fix h' assume a: "al n h = Some (None, h')" "alive h' L"
    from Cons.IH[OF a(2) n(2)] show ?thesis using a(1) by auto
  next
    fix p h' assume a: "al n h = Some (Some p, h')" "p \<notin> L" "alive h' (insert p L)"
    from Cons.IH[OF a(3) n(2)] obtain ps h'' where
      "alloc_seq al ns h' = Some (ps, h'')" "distinct ps" "set ps \<inter> insert p L = {}" "alive h'' (insert p L \<union> set ps)"
      by blast
    then show ?thesis using a(1,2) by (intro exI[of _ "p # ps"] exI[of _ h'']) auto
  qed
qed auto

lemma free_seq_ok:
  "alive h (L \<union> set ps) \<Longrightarrow> distinct ps \<Longrightarrow> set ps \<inter> L = {} \<Longrightarrow> \<exists>h'. free_seq fr ps h = Some h' \<and> alive h' L"
proof (induction ps arbitrary: h)
  case (Cons p ps)
  have "p \<in> L \<union> set (p # ps)" by simp
  from fr_ok[OF Cons.prems(1) this] obtain r h' where f: "fr p h = Some (r, h')" "alive h' (L \<union> set (p # ps) - {p})" by blast
  have "L \<union> set (p # ps) - {p} = L \<union> set ps" using Cons.prems(2,3) by auto
  then show ?case using Cons.IH[of h'] f Cons.prems(2,3) by auto
qed auto

text \<open>Whatever a client requests and then releases, in any order, leaves the blocks as they were.\<close>

lemma alloc_free_seq:
  assumes "alive h L" "list_all fits ns"
  obtains ps h' where "alloc_seq al ns h = Some (ps, h')" "distinct ps" "set ps \<inter> L = {}"
    "\<And>qs. distinct qs \<Longrightarrow> set qs = set ps \<Longrightarrow> \<exists>h''. free_seq fr qs h' = Some h'' \<and> alive h'' L"
  using alloc_seq_ok[OF assms] free_seq_ok by (metis (no_types, lifting))

end

definition request_fits :: "nat \<Rightarrow> bool" where
  "request_fits n \<longleftrightarrow> 0 < n \<and> n + 19 < SIZE_MOD"

interpretation kheap: block_allocator heap_reach HeapAllocate "\<lambda>p. HeapFree p v" request_fits for v
proof unfold_locales
  fix h L n
  assume h: "heap_reach h L" "request_fits n"
  then show "(\<exists>h'. HeapAllocate n h = Some (None, h') \<and> heap_reach h' L) \<or>
    (\<exists>p h'. HeapAllocate n h = Some (Some p, h') \<and> p \<notin> L \<and> heap_reach h' (insert p L))"
    using state_allocate[OF reach_state[OF h(1)], of n] heap_reach.allocated[OF h(1), of n] heap_reach.no_memory[OF h(1), of n]
    unfolding request_fits_def by metis
next
  fix h L p
  assume h: "heap_reach h L" "p \<in> L"
  then show "\<exists>r h'. HeapFree p v h = Some (r, h') \<and> heap_reach h' (L - {p})"
    using state_free[OF reach_state[OF h(1)] h(2), of v] heap_reach.freed[OF h] by metis
qed

section \<open>Lemmas for the reachable states\<close>

lemma live_size: "heap_live h xs fs p = Some k \<Longrightarrow> k = SEGMENT_stByteSize h (p - BLK)"
  by (simp add: heap_live_def split: if_splits)

lemma reach_good:
  assumes "heap_reach h L"
  obtains xs fs where "heap_good h xs fs" "heap_ok h xs fs" "dom (heap_live h xs fs) = L" "hp_lockerr h = 0"
    "\<forall>p \<in> L. heap_live h xs fs p = Some (SEGMENT_stByteSize h (p - BLK))"
    "\<forall>p \<in> L. 0 < SEGMENT_stByteSize h (p - BLK)"
proof -
  obtain xs fs where h: "hp_lockerr h = 0" "heap_good h xs fs" "dom (heap_live h xs fs) = L" "\<forall>k \<in> ran (heap_live h xs fs). 0 < k"
    using reach_state[OF assms] by (auto simp: heap_state_def)
  have live: "heap_live h xs fs p = Some (SEGMENT_stByteSize h (p - BLK))" if "p \<in> L" for p
    using that h(3) live_size[of h xs fs p] by fastforce
  then have pos: "0 < SEGMENT_stByteSize h (p - BLK)" if "p \<in> L" for p using that h(4) by (auto simp: ran_def)
  have ok: "heap_ok h xs fs" using h(2) by (simp add: heap_good_def)
  show thesis using that[OF h(2) ok h(3,1)] live pos by blast
qed

lemma links_unique: "heap_links h xs fs \<Longrightarrow> heap_links h xs' fs' \<Longrightarrow> xs = xs'"
  unfolding heap_links_def by (blast intro: line_unique)

lemma links_free: "heap_links h xs fs \<Longrightarrow> set fs = {s \<in> set xs. \<not> HEAP_SEGMENT_IS_USED h s}"
  using used_iff[of h xs fs] by (auto simp: heap_links_def)

section \<open>A concrete heap\<close>

definition empty_heap :: heap where
  "empty_heap = \<lparr>hp_line = \<lparr>LINE_plistNext = (\<lambda>_. None), LINE_plistPrev = (\<lambda>_. None)\<rparr>,
     hp_ring = \<lparr>LINE_plistNext = (\<lambda>_. None), LINE_plistPrev = (\<lambda>_. None)\<rparr>,
     SEGMENT_stByteSize = (\<lambda>_. 0), hp_word = (\<lambda>_. 0), HEAP_pringFreeSegment = None,
     HEAP_pvStartAddress = 0, HEAP_stTotalByteSize = 0, HEAP_ulSegmentCounter = 0, HEAP_stUsedByteSize = 0,
     HEAP_stFreeByteSize = 0, HEAP_stMaxUsedByteSize = 0, hp_lockerr = 0, hp_crossbord = False\<rparr>"

lemmas heap_eval = HeapCtorEx_def Let_def ROUND_UP_def ROUND_DOWN_def SIZE_MOD_def LW_CFG_HEAP_ALIGNMENT_def SIZEOF_WORD_def
  LW_CFG_HEAP_SEG_MIN_SIZE_def SEGMENT_BLOCK_SIZE_ALIGN_def set_next_def set_prev_def INIT_LIST_RING_HEAD_def seg_init_def
  List_Ring_Add_Ahead_def List_Ring_Add_Last_def List_Ring_Del_def List_Line_Add_Tail_def List_Line_Del_def
  free_list_del_def HEAP_ADD_NEW_SEG_TO_FREELIST_def neighbour_add_def neighbour_del_def heap_split_def HEAP_UPDATA_MAX_USED_def
  heap_crossbord_mark_def heap_crossbord_size_def HEAP_SEGMENT_DATA_PTR_def HEAP_SEGMENT_NEXT_PTR_def HEAP_SEGMENT_IS_USED_def
  HEAP_SEGMENT_IS_REAL_def magic_at_def HeapAllocate_def first_fit.simps HeapFree_def heap_lookup_def heap_release_def
  heap_merge_left_def heap_merge_right_def heap_account_def LW_SEG_MAGIC_REAL_def empty_heap_def

definition demo_heap :: heap where
  "demo_heap = the (HeapCtorEx empty_heap 4096 1024)"

definition demo_used :: heap where
  "demo_used = snd (the (HeapAllocate 40 demo_heap))"

lemma demo_heap_reach: "heap_reach demo_heap {}"
proof (rule heap_reach.created[of empty_heap 4096 1024])
  show "HeapCtorEx empty_heap 4096 1024 = Some demo_heap" unfolding demo_heap_def by (simp add: heap_eval)
qed (simp_all add: heap_eval)

lemma demo_used_reach: "heap_reach demo_used {4120}"
proof -
  have "HeapAllocate 40 demo_heap = Some (Some 4120, demo_used)"
    unfolding demo_used_def demo_heap_def by (simp add: heap_eval)
  from heap_reach.allocated[OF demo_heap_reach _ _ this] show ?thesis by (simp add: SIZE_MOD_def)
qed

lemma demo_used_size: "SEGMENT_stByteSize demo_used 4096 = 48" "hp_crossbord demo_used = False"
  unfolding demo_used_def demo_heap_def by (simp_all add: heap_eval)

section \<open>Properties\<close>

text \<open>
  C12: In every reachable state the segments tile the memory of the heap without a gap, the neighbour list
  holds them in the order of their addresses, the free list holds exactly those not handed out, no two
  neighbours are free, and the counters are exact.
\<close>

theorem heap_invariant:
  assumes "heap_reach h L"
  shows "\<exists>xs fs. line (hp_line h) (Some (HEAP_pvStartAddress h)) xs \<and>
     chain (SEGMENT_stByteSize h) xs (HEAP_pvStartAddress h) (HEAP_pvStartAddress h + HEAP_stTotalByteSize h) \<and>
     ring (hp_ring h) (HEAP_pringFreeSegment h) fs \<and> HEAP_SEGMENT_DATA_PTR ` (set xs - set fs) = L \<and>
     successively (\<lambda>s r. s \<notin> set fs \<or> r \<notin> set fs) xs \<and> HEAP_ulSegmentCounter h = length xs \<and>
     HEAP_stFreeByteSize h = (\<Sum>s \<leftarrow> fs. SEGMENT_stByteSize h s) \<and>
     HEAP_stUsedByteSize h + HEAP_stFreeByteSize h = HEAP_stTotalByteSize h"
proof -
  obtain xs fs where h: "heap_good h xs fs" "heap_ok h xs fs" "dom (heap_live h xs fs) = L" by (rule reach_good[OF assms])
  have "HEAP_SEGMENT_DATA_PTR ` (set xs - set fs) = dom (heap_live h xs fs)"
    by (force simp: heap_live_def HEAP_SEGMENT_DATA_PTR_def image_iff split: if_splits)
  then show ?thesis
    using h by (intro exI[of _ xs] exI[of _ fs])
      (simp add: heap_good_def heap_ok_def heap_links_def heap_layout_def heap_counts_def coalesced_def free_bytes_def)
qed

theorem heap_invariant_witness:
  "\<exists>xs. chain (SEGMENT_stByteSize demo_used) xs (HEAP_pvStartAddress demo_used)
     (HEAP_pvStartAddress demo_used + HEAP_stTotalByteSize demo_used)"
  using heap_invariant[OF demo_used_reach] by blast

text \<open>
  C13: A request is answered with a block that was not handed out before and holds at least the bytes asked
  for, with the mark behind them; the other blocks keep their place and size.  It is refused, without any
  change, only when no free segment is large enough.
\<close>

theorem heap_allocate_correct:
  assumes "heap_reach h L" and "0 < n" and "n + 19 < SIZE_MOD"
  shows "(\<exists>p h'. HeapAllocate n h = Some (Some p, h') \<and> p \<notin> L \<and> heap_reach h' (insert p L) \<and>
       n + (if hp_crossbord h then SIZEOF_WORD else 0) \<le> SEGMENT_stByteSize h' (p - SEGMENT_BLOCK_SIZE_ALIGN) \<and>
       (\<forall>q \<in> L. SEGMENT_stByteSize h' (q - SEGMENT_BLOCK_SIZE_ALIGN) = SEGMENT_stByteSize h (q - SEGMENT_BLOCK_SIZE_ALIGN))) \<or>
     HeapAllocate n h = Some (None, h) \<and>
       (\<forall>xs fs. heap_good h xs fs \<longrightarrow>
          (\<forall>s \<in> set fs. SEGMENT_stByteSize h s < ROUND_UP (heap_crossbord_size h n) LW_CFG_HEAP_SEG_MIN_SIZE))"
proof -
  obtain xs fs where h: "heap_good h xs fs" "heap_ok h xs fs" "dom (heap_live h xs fs) = L" "hp_lockerr h = 0"
    and live: "\<forall>p \<in> L. heap_live h xs fs p = Some (SEGMENT_stByteSize h (p - BLK))"
    by (rule reach_good[OF assms(1)])
  let ?n = "ROUND_UP (heap_crossbord_size h n) LW_CFG_HEAP_SEG_MIN_SIZE"
  note size = request_size[OF assms(2,3), of h]
  have pos: "0 < ?n" using size(1) assms(2) by linarith
  show ?thesis
  proof (rule HeapAllocate_ok[OF h(1) refl pos])
    assume n: "HeapAllocate n h = Some (None, h)" "hp_lockerr h \<noteq> 0 \<or> (\<forall>s \<in> set fs. SEGMENT_stByteSize h s < ?n)"
    have "set fs' = set fs" if "heap_good h xs' fs'" for xs' fs'
      using that h(2) links_unique[of h xs fs xs' fs'] links_free by (metis heap_good_def heap_ok_def)
    then show ?thesis using n h(4) by blast
  next
    fix p h' xs' fs' k
    assume a: "HeapAllocate n h = Some (Some p, h')" "heap_good h' xs' fs'" "heap_frame h h'" "heap_live h xs fs p = None"
      "heap_live h' xs' fs' = (heap_live h xs fs)(p \<mapsto> k)" "?n \<le> k"
    have new: "p \<notin> L" using a(4) h(3) by blast
    have "k = SEGMENT_stByteSize h' (p - BLK)" using live_size[of h' xs' fs' p k] a(5) by simp
    moreover have "SEGMENT_stByteSize h' (q - BLK) = SEGMENT_stByteSize h (q - BLK)" if "q \<in> L" for q
    proof -
      have "q \<noteq> p" using that new by blast
      then have "heap_live h' xs' fs' q = Some (SEGMENT_stByteSize h (q - BLK))" using a(5) bspec[OF live that] by simp
      from live_size[OF this] show ?thesis by simp
    qed
    moreover have "heap_reach h' (insert p L)" by (rule heap_reach.allocated[OF assms a(1)])
    ultimately show ?thesis using a(1,6) size new by (intro disjI1 exI[of _ p] exI[of _ h']) auto
  qed
qed

theorem heap_allocate_correct_witness:
  "(\<exists>p h'. HeapAllocate 100 demo_used = Some (Some p, h') \<and> p \<noteq> 4120) \<or> HeapAllocate 100 demo_used = Some (None, demo_used)"
  using heap_allocate_correct[OF demo_used_reach, of 100] by (auto simp: SIZE_MOD_def)

text \<open>
  C16: Blocks that are handed out are aligned, lie inside of the heap behind their control block, and no two
  of them overlap.
\<close>

theorem heap_blocks_apart:
  assumes "heap_reach h L" and "p \<in> L"
  shows "LW_CFG_HEAP_ALIGNMENT dvd p \<and> HEAP_pvStartAddress h + SEGMENT_BLOCK_SIZE_ALIGN \<le> p \<and>
    p + SEGMENT_stByteSize h (p - SEGMENT_BLOCK_SIZE_ALIGN) \<le> HEAP_pvStartAddress h + HEAP_stTotalByteSize h \<and>
    (\<forall>q \<in> L. p < q \<longrightarrow> p + SEGMENT_stByteSize h (p - SEGMENT_BLOCK_SIZE_ALIGN) + SEGMENT_BLOCK_SIZE_ALIGN \<le> q)"
proof -
  obtain xs fs where h: "heap_ok h xs fs" and live: "\<forall>p \<in> L. heap_live h xs fs p = Some (SEGMENT_stByteSize h (p - BLK))"
    by (rule reach_good[OF assms(1)])
  note l = bspec[OF live assms(2)]
  show ?thesis using live_blocks(1-3)[OF h l] live_blocks(4)[OF h l bspec[OF live]] by blast
qed

theorem heap_blocks_apart_witness: "LW_CFG_HEAP_ALIGNMENT dvd (4120 :: nat)"
  using heap_blocks_apart[OF demo_used_reach, of 4120] by simp

text \<open>
  C15: Releasing a block that is handed out succeeds, with and without the check, takes that block away and
  leaves the other blocks alone.
\<close>

theorem heap_free_correct:
  assumes "heap_reach h L" and "p \<in> L"
  shows "\<exists>h'. HeapFree p v h = Some (0, h') \<and> heap_reach h' (L - {p}) \<and>
    (\<forall>q \<in> L - {p}. SEGMENT_stByteSize h' (q - SEGMENT_BLOCK_SIZE_ALIGN) = SEGMENT_stByteSize h (q - SEGMENT_BLOCK_SIZE_ALIGN))"
proof -
  obtain xs fs where h: "heap_good h xs fs" "heap_ok h xs fs" "dom (heap_live h xs fs) = L" "hp_lockerr h = 0"
    and live: "\<forall>p \<in> L. heap_live h xs fs p = Some (SEGMENT_stByteSize h (p - BLK))"
    and pos: "\<forall>p \<in> L. 0 < SEGMENT_stByteSize h (p - BLK)"
    by (rule reach_good[OF assms(1)])
  obtain h' xs' fs' where f: "HeapFree p v h = Some (0, h')" "heap_good h' xs' fs'"
    "heap_live h' xs' fs' = (heap_live h xs fs)(p := None)"
    by (rule HeapFree_live[OF h(1) bspec[OF live assms(2)] h(4) bspec[OF pos assms(2)]])
  have "SEGMENT_stByteSize h' (q - BLK) = SEGMENT_stByteSize h (q - BLK)" if "q \<in> L - {p}" for q
  proof -
    have "heap_live h' xs' fs' q = Some (SEGMENT_stByteSize h (q - BLK))" using f(3) live that by simp
    from live_size[OF this] show ?thesis by simp
  qed
  moreover have "heap_reach h' (L - {p})" by (rule heap_reach.freed[OF assms f(1)])
  ultimately show ?thesis using f(1) by blast
qed

theorem heap_free_correct_witness: "\<exists>h'. HeapFree 4120 False demo_used = Some (0, h') \<and> heap_reach h' {}"
  using heap_free_correct[OF demo_used_reach, of 4120 False] by auto

text \<open>
  C25: Whatever a client requests from a fresh heap and then releases, in any order, the heap ends as one
  free segment with all of its bytes.
\<close>

theorem heap_returns_to_one_segment:
  assumes "heap_reach h {}" and "list_all request_fits ns"
  shows "\<exists>ps h'. alloc_seq HeapAllocate ns h = Some (ps, h') \<and> distinct ps \<and>
    (\<forall>qs. distinct qs \<longrightarrow> set qs = set ps \<longrightarrow>
       (\<exists>h''. free_seq (\<lambda>p. HeapFree p v) qs h' = Some h'' \<and> HEAP_ulSegmentCounter h'' = 1 \<and>
          HEAP_pringFreeSegment h'' = Some (HEAP_pvStartAddress h'') \<and>
          HEAP_stFreeByteSize h'' = HEAP_stTotalByteSize h'' - SEGMENT_BLOCK_SIZE_ALIGN))"
proof -
  have one: "HEAP_ulSegmentCounter g = 1 \<and> HEAP_pringFreeSegment g = Some (HEAP_pvStartAddress g) \<and>
      HEAP_stFreeByteSize g = HEAP_stTotalByteSize g - BLK" if r: "heap_reach g {}" for g
  proof -
    obtain xs fs where g: "heap_good g xs fs" "dom (heap_live g xs fs) = {}" by (rule reach_good[OF r])
    have n: "heap_live g xs fs = Map.empty" using g(2) by simp
    note e = nothing_live[OF g(1) n]
    have "ring (hp_ring g) (HEAP_pringFreeSegment g) fs" using g(1) by (simp add: heap_good_def heap_ok_def heap_links_def)
    then have "HEAP_pringFreeSegment g = Some (HEAP_pvStartAddress g)"
      using e(2) ring_hd[of "hp_ring g" "HEAP_pringFreeSegment g"] by (cases fs) auto
    then show ?thesis using e by simp
  qed
  show ?thesis
    by (rule kheap.alloc_free_seq[OF assms, of v]) (use one in blast)
qed

theorem heap_returns_to_one_segment_witness:
  "\<exists>ps h'. alloc_seq HeapAllocate [10, 300, 5000] demo_heap = Some (ps, h') \<and> distinct ps"
  using heap_returns_to_one_segment[OF demo_heap_reach, of "[10, 300, 5000]" False] by (auto simp: request_fits_def SIZE_MOD_def)



text \<open>
  Without the check a block that is released twice is not noticed when it was joined to a free left
  neighbour: the second call succeeds, and the heap then hands out a block of 80 bytes at 4120 and one at
  4176 that lies inside of it.
\<close>

theorem double_release_overlaps:
  "Option.bind (HeapCtorEx empty_heap 4096 1024) (\<lambda>h.
   Option.bind (alloc_seq HeapAllocate [32, 32, 32] h) (\<lambda>(ps, h).
   Option.bind (HeapFree 4120 False h) (\<lambda>(r1, h).
   Option.bind (HeapFree 4176 False h) (\<lambda>(r2, h).
   Option.bind (HeapFree 4176 False h) (\<lambda>(r3, h).
   Option.bind (HeapAllocate 80 h) (\<lambda>(p, h).
   Option.bind (HeapAllocate 900 h) (\<lambda>(big, h).
   Option.bind (HeapAllocate 32 h) (\<lambda>(q, h).
     Some (ps, [r1, r2, r3], p, big, q))))))))) =
   Some ([4120, 4176, 4232], [0, 0, 0], Some 4120, None, Some 4176)"
  by (simp add: heap_eval)

text \<open>
  A request of nearly the whole address range wraps to a size of 0 when it is rounded, and is answered
  with a block although no heap can hold it.
\<close>

theorem huge_request_granted:
  assumes "heap_reach h L" and "HEAP_pringFreeSegment h \<noteq> None" and "\<not> hp_crossbord h"
    and "SIZE_MOD - 15 \<le> n" and "n < SIZE_MOD"
  shows "\<exists>p h'. HeapAllocate n h = Some (Some p, h') \<and> SEGMENT_stByteSize h' (p - SEGMENT_BLOCK_SIZE_ALIGN) < n"
proof -
  obtain xs fs where h: "heap_good h xs fs" "heap_ok h xs fs" "hp_lockerr h = 0" by (rule reach_good[OF assms(1)])
  have wrap: "(n + 15) mod SIZE_MOD = n + 15 - SIZE_MOD" using assms(4,5) by (simp add: SIZE_MOD_def le_mod_geq)
  have zero: "0 = ROUND_UP (heap_crossbord_size h n) LW_CFG_HEAP_SEG_MIN_SIZE"
    using assms(3-5) wrap by (simp add: heap_crossbord_size_def ROUND_UP_def LW_CFG_HEAP_SEG_MIN_SIZE_def SIZE_MOD_def)
  have fs: "fs \<noteq> []" using h(2) assms(2) by (auto simp: heap_ok_def heap_links_def)
  show ?thesis
  proof (rule HeapAllocate_ok[OF h(1) zero])
    assume "hp_lockerr h \<noteq> 0 \<or> (\<forall>s \<in> set fs. SEGMENT_stByteSize h s < 0)"
    then show ?thesis using h(3) fs by (cases fs) auto
  next
    fix p h' xs' fs' k
    assume a: "HeapAllocate n h = Some (Some p, h')" "heap_good h' xs' fs'" "heap_live h' xs' fs' = (heap_live h xs fs)(p \<mapsto> k)"
    have ok: "heap_ok h' xs' fs'" using a(2) by (simp add: heap_good_def)
    have live: "heap_live h' xs' fs' p = Some k" using a(3) by simp
    have "HEAP_pvStartAddress h' + HEAP_stTotalByteSize h' < SIZE_MOD" using ok by (simp add: heap_ok_def heap_layout_def)
    then have "k < n" using live_blocks(1,2)[OF ok live] assms(4) unfolding SEGMENT_BLOCK_SIZE_ALIGN_def by linarith
    then show ?thesis using a(1) live_size[OF live] by blast
  qed (use assms(3) in simp)
qed

theorem huge_request_granted_witness: "\<exists>p h'. HeapAllocate 4294967288 demo_heap = Some (Some p, h')"
  using huge_request_granted[OF demo_heap_reach, of 4294967288]
  by (simp add: demo_heap_def heap_eval)

end
