(* ===== verification/Sched.thy ===== *)
theory Sched
  imports Bitmap RingList
begin

text \<open>
  The scheduler of the kernel as it is built for one processor (\<open>LW_CFG_SMP_EN\<close> is 0): the ready rings of
  \<open>kernel/core/_ReadyRing.c\<close>, the ready table of \<open>_ReadyTableLib.c\<close>, the table of the candidate of
  \<open>_CandTable.c\<close>, and \<open>_SchedCand.c\<close> and \<open>_SchedSetPrio\<close>, which use them.

  A thread is known by the address of its control block.  The ring of a priority holds the ready threads
  of this priority, without the candidate, which is the thread that runs next; a bit of the bitmap is set
  when the ring of its priority is not empty.  Smaller numbers are more urgent.  \<open>None\<close> is a null pointer
  that is followed.
\<close>

section \<open>State\<close>

definition LW_OPTION_SCHED_FIFO :: nat where "LW_OPTION_SCHED_FIFO = 1"
definition LW_OPTION_SCHED_RR :: nat where "LW_OPTION_SCHED_RR = 0"
definition LW_OPTION_RESPOND_IMMIEDIA :: nat where "LW_OPTION_RESPOND_IMMIEDIA = 0"
definition LW_OPTION_RESPOND_STANDARD :: nat where "LW_OPTION_RESPOND_STANDARD = 1"
definition LW_SCHED_ACT_OTHER :: nat where "LW_SCHED_ACT_OTHER = 1"
definition LW_THREAD_STATUS_RDY :: nat where "LW_THREAD_STATUS_RDY = 0"

record tcb =
  TCB_bIsCand :: bool
  TCB_usStatus :: nat
  TCB_ucSchedPolicy :: nat
  TCB_ucSchedActivate :: nat
  TCB_ucSchedActivateMode :: nat
  TCB_usSchedSlice :: u16
  TCB_usSchedCounter :: u16
  TCB_ucPriority :: u8
  TCB_ulThreadLockCounter :: nat

record sched =
  sc_tcb :: "addr \<Rightarrow> tcb"
  sc_ring :: ring_store
  PCBM_bmap :: bmap
  PCB_pringReadyHeader :: "u8 \<Rightarrow> addr option"
  CAND_ptcbCand :: "addr option"
  CAND_bNeedRotate :: bool
  CPU_active :: bool
  CPU_ptcbTCBCur :: addr
  CPU_ulInterNesting :: nat
  CPU_iKernelCounter :: nat

definition tcb_upd :: "addr \<Rightarrow> (tcb \<Rightarrow> tcb) \<Rightarrow> sched \<Rightarrow> sched" where
  "tcb_upd t f S = S\<lparr>sc_tcb := (sc_tcb S)(t := f (sc_tcb S t))\<rparr>"

text \<open>The priority control block of a thread is the one of its priority.\<close>

definition GetPcb :: "addr \<Rightarrow> sched \<Rightarrow> u8" where
  "GetPcb ptcb S = TCB_ucPriority (sc_tcb S ptcb)"

definition PcbIsEmpty :: "u8 \<Rightarrow> sched \<Rightarrow> bool" where
  "PcbIsEmpty ppcb S \<longleftrightarrow> PCB_pringReadyHeader S ppcb = None"

definition PcbIsOne :: "u8 \<Rightarrow> sched \<Rightarrow> bool" where
  "PcbIsOne ppcb S \<longleftrightarrow>
     (case PCB_pringReadyHeader S ppcb of
        None \<Rightarrow> False
      | Some h \<Rightarrow> Some h = LINE_plistNext (sc_ring S) h)"

section \<open>Ready rings and ready table\<close>

definition ring_op ::
    "(addr \<Rightarrow> ring_store \<times> addr option \<Rightarrow> (ring_store \<times> addr option) option) \<Rightarrow> addr \<Rightarrow> u8 \<Rightarrow> sched \<Rightarrow> sched option" where
  "ring_op f ptcb ppcb S =
     (case f ptcb (sc_ring S, PCB_pringReadyHeader S ppcb) of
        None \<Rightarrow> None
      | Some (R, h) \<Rightarrow> Some (S\<lparr>sc_ring := R, PCB_pringReadyHeader := (PCB_pringReadyHeader S)(ppcb := h)\<rparr>))"

definition AddTCBToReadyRing :: "addr \<Rightarrow> u8 \<Rightarrow> bool \<Rightarrow> sched \<Rightarrow> sched option" where
  "AddTCBToReadyRing ptcb ppcb bIsHeader S =
     (let T = sc_tcb S ptcb in
      if bIsHeader then ring_op List_Ring_Add_Ahead ptcb ppcb S
      else if TCB_ucSchedPolicy T = LW_OPTION_SCHED_FIFO then ring_op List_Ring_Add_Last ptcb ppcb S
      else if TCB_ucSchedActivateMode T = LW_OPTION_RESPOND_IMMIEDIA then ring_op List_Ring_Add_Front ptcb ppcb S
      else if TCB_ucSchedActivateMode T = LW_OPTION_RESPOND_STANDARD then ring_op List_Ring_Add_Last ptcb ppcb S
      else if TCB_ucSchedActivate T = LW_SCHED_ACT_OTHER then ring_op List_Ring_Add_Last ptcb ppcb S
      else ring_op List_Ring_Add_Front ptcb ppcb S)"

definition DelTCBFromReadyRing :: "addr \<Rightarrow> u8 \<Rightarrow> sched \<Rightarrow> sched option" where
  "DelTCBFromReadyRing ptcb ppcb S = ring_op List_Ring_Del ptcb ppcb S"

definition ReadyTableAdd :: "addr \<Rightarrow> sched \<Rightarrow> sched" where
  "ReadyTableAdd ptcb S = S\<lparr>PCBM_bmap := BitmapAdd (PCBM_bmap S) (TCB_ucPriority (sc_tcb S ptcb))\<rparr>"

definition ReadyTableDel :: "addr \<Rightarrow> sched \<Rightarrow> sched" where
  "ReadyTableDel ptcb S = S\<lparr>PCBM_bmap := BitmapDel (PCBM_bmap S) (TCB_ucPriority (sc_tcb S ptcb))\<rparr>"

section \<open>The candidate\<close>

definition CandTableSeek :: "sched \<Rightarrow> u8 option" where
  "CandTableSeek S = (if BitmapIsEmpty (PCBM_bmap S) then None else Some (BitmapHigh (PCBM_bmap S)))"

definition CandTableNext :: "u8 \<Rightarrow> sched \<Rightarrow> (addr \<times> sched) option" where
  "CandTableNext ucPriority S =
     (case PCB_pringReadyHeader S ucPriority of
        None \<Rightarrow> None
      | Some ptcb \<Rightarrow>
          if TCB_usSchedCounter (sc_tcb S ptcb) = 0 then
            (let S = tcb_upd ptcb (\<lambda>T. T\<lparr>TCB_usSchedCounter := TCB_usSchedSlice T\<rparr>) S in
             case list_ring_next (sc_ring S) (Some ptcb) of
               Some (Some u) \<Rightarrow>
                 Some (u, S\<lparr>PCB_pringReadyHeader := (PCB_pringReadyHeader S)(ucPriority := Some u)\<rparr>)
             | _ \<Rightarrow> None)
          else Some (ptcb, S))"

definition CandTableResel :: "u8 \<Rightarrow> sched \<Rightarrow> sched option" where
  "CandTableResel ucPriority S =
     Option.bind (CandTableNext ucPriority S) (\<lambda>(ptcb, S).
       let S = S\<lparr>CAND_ptcbCand := Some ptcb\<rparr>;
           S = tcb_upd ptcb (\<lambda>T. T\<lparr>TCB_bIsCand := True\<rparr>) S in
       Option.bind (DelTCBFromReadyRing ptcb ucPriority S) (\<lambda>S.
         Some (if PcbIsEmpty ucPriority S then ReadyTableDel ptcb S else S)))"

text \<open>There is always a ready thread, the idle thread; without one the code stops.\<close>

definition CandTableFill :: "sched \<Rightarrow> sched option" where
  "CandTableFill S =
     (case CandTableSeek S of None \<Rightarrow> None | Some ucPriority \<Rightarrow> CandTableResel ucPriority S)"

definition CandTableEmpty :: "sched \<Rightarrow> sched option" where
  "CandTableEmpty S =
     (case CAND_ptcbCand S of
        None \<Rightarrow> None
      | Some ptcb \<Rightarrow>
          (let ppcb = GetPcb ptcb S;
               S = tcb_upd ptcb (\<lambda>T. T\<lparr>TCB_bIsCand := False\<rparr>) S in
           Option.bind (AddTCBToReadyRing ptcb ppcb True S) (\<lambda>S.
             Some ((if PcbIsOne ppcb S then ReadyTableAdd ptcb S else S)\<lparr>CAND_ptcbCand := None\<rparr>))))"

definition CandTableTryAdd :: "addr \<Rightarrow> u8 \<Rightarrow> sched \<Rightarrow> (bool \<times> sched) option" where
  "CandTableTryAdd ptcb ppcb S =
     (let can_cand = \<lambda>S. Some (True, tcb_upd ptcb (\<lambda>T. T\<lparr>TCB_bIsCand := True\<rparr>) (S\<lparr>CAND_ptcbCand := Some ptcb\<rparr>));
          can_not_cand = \<lambda>S. Some (False, if PcbIsEmpty ppcb S then ReadyTableAdd ptcb S else S) in
      if \<not> CPU_active S then can_not_cand S
      else
        (case CAND_ptcbCand S of
           None \<Rightarrow> can_cand S
         | Some ptcbCand \<Rightarrow>
             if TCB_ucPriority (sc_tcb S ptcb) < TCB_ucPriority (sc_tcb S ptcbCand) then
               (if TCB_ulThreadLockCounter (sc_tcb S ptcbCand) \<noteq> 0
                then can_not_cand (S\<lparr>CAND_bNeedRotate := True\<rparr>)
                else Option.bind (CandTableEmpty S) can_cand)
             else can_not_cand S))"

definition CandTableTryDel :: "addr \<Rightarrow> u8 \<Rightarrow> sched \<Rightarrow> sched option" where
  "CandTableTryDel ptcb ppcb S =
     (if CAND_ptcbCand S = Some ptcb then
        Option.bind (CandTableFill (tcb_upd ptcb (\<lambda>T. T\<lparr>TCB_bIsCand := False\<rparr>) S)) (\<lambda>S.
          Some (S\<lparr>CAND_bNeedRotate := False\<rparr>))
      else Some (if PcbIsEmpty ppcb S then ReadyTableDel ptcb S else S))"

definition CandTableUpdate :: "sched \<Rightarrow> sched option" where
  "CandTableUpdate S =
     (let done = \<lambda>S. Some (S\<lparr>CAND_bNeedRotate := False\<rparr>) in
      if \<not> CPU_active S then Some S
      else
        (case CAND_ptcbCand S of
           None \<Rightarrow> Option.bind (CandTableFill S) done
         | Some ptcbCand \<Rightarrow>
             (case CandTableSeek S of
                None \<Rightarrow> done S
              | Some ucPriority \<Rightarrow>
                  (let C = sc_tcb S ptcbCand;
                       bNeedRotate = (if TCB_usSchedCounter C = 0 then ucPriority \<le> TCB_ucPriority C
                                      else ucPriority < TCB_ucPriority C) in
                   if bNeedRotate
                   then Option.bind (CandTableEmpty S) (\<lambda>S. Option.bind (CandTableResel ucPriority S) done)
                   else done S))))"

section \<open>What the rest of the kernel calls\<close>

definition ADD_TO_READY_RING :: "addr \<Rightarrow> u8 \<Rightarrow> sched \<Rightarrow> sched option" where
  "ADD_TO_READY_RING ptcb ppcb S =
     Option.bind (CandTableTryAdd ptcb ppcb S) (\<lambda>(b, S).
       if b then Some S else AddTCBToReadyRing ptcb ppcb False S)"

definition DEL_FROM_READY_RING :: "addr \<Rightarrow> u8 \<Rightarrow> sched \<Rightarrow> sched option" where
  "DEL_FROM_READY_RING ptcb ppcb S =
     Option.bind (if \<not> TCB_bIsCand (sc_tcb S ptcb) then DelTCBFromReadyRing ptcb ppcb S else Some S)
       (CandTableTryDel ptcb ppcb)"

definition LW_THREAD_IS_READY :: "addr \<Rightarrow> sched \<Rightarrow> bool" where
  "LW_THREAD_IS_READY ptcb S \<longleftrightarrow> TCB_usStatus (sc_tcb S ptcb) = LW_THREAD_STATUS_RDY"

definition can_preemptive :: "nat \<Rightarrow> sched \<Rightarrow> bool" where
  "can_preemptive ulMaxLockCounter S \<longleftrightarrow>
     \<not> (CPU_ulInterNesting S \<noteq> 0 \<or> CPU_iKernelCounter S \<noteq> 0) \<and>
     \<not> (TCB_ulThreadLockCounter (sc_tcb S (CPU_ptcbTCBCur S)) > ulMaxLockCounter \<and>
        LW_THREAD_IS_READY (CPU_ptcbTCBCur S) S)"

definition SchedGetCand :: "nat \<Rightarrow> sched \<Rightarrow> (addr option \<times> sched) option" where
  "SchedGetCand ulCurMaxLock S =
     (if \<not> can_preemptive ulCurMaxLock S then Some (Some (CPU_ptcbTCBCur S), S)
      else
        Option.bind (if CAND_bNeedRotate S then CandTableUpdate S else Some S)
          (\<lambda>S. Some (CAND_ptcbCand S, S)))"

definition SchedTick :: "sched \<Rightarrow> sched" where
  "SchedTick S =
     (if CPU_active S then
        (let ptcb = CPU_ptcbTCBCur S; T = sc_tcb S ptcb in
         if TCB_ucSchedPolicy T = LW_OPTION_SCHED_RR then
           (if TCB_usSchedCounter T = 0 then S\<lparr>CAND_bNeedRotate := True\<rparr>
            else tcb_upd ptcb (\<lambda>T. T\<lparr>TCB_usSchedCounter := TCB_usSchedCounter T - 1\<rparr>) S)
         else S)
      else S)"

definition SchedYield :: "addr \<Rightarrow> sched \<Rightarrow> sched" where
  "SchedYield ptcb S =
     (if CPU_ptcbTCBCur S = ptcb
      then (tcb_upd ptcb (\<lambda>T. T\<lparr>TCB_usSchedCounter := 0\<rparr>) S)\<lparr>CAND_bNeedRotate := True\<rparr>
      else S)"

definition SchedSetPrio :: "addr \<Rightarrow> u8 \<Rightarrow> sched \<Rightarrow> sched option" where
  "SchedSetPrio ptcb ucPriority S =
     (let ppcbFrom = GetPcb ptcb S;
          ppcbTo = ucPriority;
          set_prio = tcb_upd ptcb (\<lambda>T. T\<lparr>TCB_ucPriority := ucPriority\<rparr>) in
      if LW_THREAD_IS_READY ptcb S then
        (if TCB_bIsCand (sc_tcb S ptcb) then Some (set_prio (S\<lparr>CAND_bNeedRotate := True\<rparr>))
         else Option.bind (DEL_FROM_READY_RING ptcb ppcbFrom S) (\<lambda>S. ADD_TO_READY_RING ptcb ppcbTo (set_prio S)))
      else Some (set_prio S))"

text \<open>Entering the scheduler, and the choice at the exit of the kernel with the switch it leads to.\<close>

definition CpuActive :: "sched \<Rightarrow> (int \<times> sched) option" where
  "CpuActive S =
     (if CPU_active S then Some (-1, S)
      else
        Option.bind (CandTableUpdate (S\<lparr>CPU_active := True\<rparr>)) (\<lambda>S.
          case CAND_ptcbCand S of None \<Rightarrow> None | Some ptcb \<Rightarrow> Some (0, S\<lparr>CPU_ptcbTCBCur := ptcb\<rparr>)))"

definition Schedule :: "sched \<Rightarrow> sched option" where
  "Schedule S =
     Option.bind (SchedGetCand 1 S) (\<lambda>(ptcbCand, S).
       case ptcbCand of None \<Rightarrow> None | Some ptcb \<Rightarrow> Some (S\<lparr>CPU_ptcbTCBCur := ptcb\<rparr>))"

end
