(* ===== verification/SchedSpec.thy ===== *)
theory SchedSpec
  imports Sched
begin

text \<open>
  What the scheduler promises: the ready rings hold the ready threads in order, the bitmap tells which rings
  are not empty, and the candidate is always a most urgent ready thread, unless a rotation is pending.
  The queues \<open>q\<close> of the priorities are the abstract state of the rings.
\<close>

section \<open>Queues\<close>

definition prio :: "sched \<Rightarrow> addr \<Rightarrow> u8" where
  "prio S t = TCB_ucPriority (sc_tcb S t)"

definition rings_ok :: "sched \<Rightarrow> (u8 \<Rightarrow> addr list) \<Rightarrow> bool" where
  "rings_ok S q \<longleftrightarrow>
     (\<forall>p. ring (sc_ring S) (PCB_pringReadyHeader S p) (q p) \<and> (\<forall>t \<in> set (q p). prio S t = p))"

definition queued :: "(u8 \<Rightarrow> addr list) \<Rightarrow> addr set" where
  "queued q = (\<Union>p. set (q p))"

lemma queued_upd: "queued (q(p := xs)) = (\<Union>p' \<in> - {p}. set (q p')) \<union> set xs"
  by (auto simp: queued_def split: if_splits)

lemma queued_prio: "rings_ok S q \<Longrightarrow> t \<in> queued q \<longleftrightarrow> t \<in> set (q (prio S t))"
  by (auto simp: rings_ok_def queued_def)

text \<open>Where a thread goes in the ring of its priority.\<close>

definition ready_insert :: "tcb \<Rightarrow> bool \<Rightarrow> addr \<Rightarrow> addr list \<Rightarrow> addr list" where
  "ready_insert T bIsHeader t xs =
     (if bIsHeader then t # xs
      else if TCB_ucSchedPolicy T = LW_OPTION_SCHED_FIFO \<or> TCB_ucSchedActivateMode T = LW_OPTION_RESPOND_STANDARD \<or>
        TCB_ucSchedActivateMode T \<noteq> LW_OPTION_RESPOND_IMMIEDIA \<and> TCB_ucSchedActivate T = LW_SCHED_ACT_OTHER
      then xs @ [t]
      else (case xs of [] \<Rightarrow> [t] | x # ys \<Rightarrow> x # t # ys))"

lemma set_ready_insert [simp]: "set (ready_insert T b t xs) = insert t (set xs)"
  by (auto simp: ready_insert_def split: list.splits)

lemma ready_insert_not_Nil [simp]: "ready_insert T b t xs \<noteq> []"
  by (auto simp: ready_insert_def split: list.splits)

text \<open>A change of one ring does not touch the others, as their threads have another priority.\<close>

lemma rings_ok_change:
  assumes ok: "rings_ok S q" and r: "ring R h xs" and s: "same_links (- insert t (set (q p))) (sc_ring S) R"
    and t: "prio S t = p" and xs: "set xs \<subseteq> insert t (set (q p))"
  shows "rings_ok (S\<lparr>sc_ring := R, PCB_pringReadyHeader := (PCB_pringReadyHeader S)(p := h)\<rparr>) (q(p := xs))"
proof -
  have pr: "prio S u = p'" if "u \<in> set (q p')" for u p' using ok that by (auto simp: rings_ok_def)
  have "ring R (PCB_pringReadyHeader S p') (q p')" if "p' \<noteq> p" for p'
  proof -
    have "u \<notin> insert t (set (q p))" if "u \<in> set (q p')" for u
      using pr[OF that] pr[of u p] t \<open>p' \<noteq> p\<close> by auto
    then have "same_links (set (q p')) (sc_ring S) R" using s by (auto simp: same_links_def)
    then show ?thesis using ok ring_frame unfolding rings_ok_def by blast
  qed
  moreover have "prio S u = p" if "u \<in> set xs" for u using that xs t pr[of u p] by auto
  ultimately show ?thesis using r pr by (auto simp: rings_ok_def prio_def)
qed

text \<open>What the ring operations do not change.\<close>

definition same_but_ring :: "sched \<Rightarrow> sched \<Rightarrow> bool" where
  "same_but_ring S S' \<longleftrightarrow> (\<exists>R H. S' = S\<lparr>sc_ring := R, PCB_pringReadyHeader := H\<rparr>)"

lemma same_but_ring_fields:
  "same_but_ring S S' \<Longrightarrow> sc_tcb S' = sc_tcb S \<and> PCBM_bmap S' = PCBM_bmap S \<and> CAND_ptcbCand S' = CAND_ptcbCand S \<and>
     CAND_bNeedRotate S' = CAND_bNeedRotate S \<and> CPU_active S' = CPU_active S \<and> CPU_ptcbTCBCur S' = CPU_ptcbTCBCur S \<and>
     CPU_ulInterNesting S' = CPU_ulInterNesting S \<and> CPU_iKernelCounter S' = CPU_iKernelCounter S"
  by (auto simp: same_but_ring_def)

lemma ring_op_same: "ring_op f t p S = Some S' \<Longrightarrow> same_but_ring S S'"
  by (auto simp: ring_op_def same_but_ring_def split: option.splits prod.splits)

lemma ring_op_ok:
  assumes "rings_ok S q" and "f t (sc_ring S, PCB_pringReadyHeader S p) = Some (R, h)" and "ring R h xs"
    and "same_links (- insert t (set (q p))) (sc_ring S) R" and "prio S t = p" and "set xs \<subseteq> insert t (set (q p))"
  shows "\<exists>S'. ring_op f t p S = Some S' \<and> same_but_ring S S' \<and> rings_ok S' (q(p := xs))"
  using rings_ok_change[OF assms(1,3-6)] assms(2) unfolding ring_op_def same_but_ring_def by fastforce

lemma Add_ring_ok:
  assumes ok: "rings_ok S q" and t: "t \<notin> set (q p)" "prio S t = p"
  obtains S' where "AddTCBToReadyRing t p b S = Some S'" "same_but_ring S S'"
    "rings_ok S' (q(p := ready_insert (sc_tcb S t) b t (q p)))"
proof -
  let ?xs = "ready_insert (sc_tcb S t) b t (q p)"
  have r: "ring (sc_ring S) (PCB_pringReadyHeader S p) (q p)" using ok by (simp add: rings_ok_def)
  have "AddTCBToReadyRing t p b S = ring_op List_Ring_Add_Ahead t p S \<and> ?xs = t # q p \<or>
    AddTCBToReadyRing t p b S = ring_op List_Ring_Add_Last t p S \<and> ?xs = q p @ [t] \<or>
    AddTCBToReadyRing t p b S = ring_op List_Ring_Add_Front t p S \<and> ?xs = (case q p of [] \<Rightarrow> [t] | x # ys \<Rightarrow> x # t # ys)"
    unfolding AddTCBToReadyRing_def ready_insert_def Let_def LW_OPTION_RESPOND_IMMIEDIA_def LW_OPTION_RESPOND_STANDARD_def
    by (cases b; cases "TCB_ucSchedPolicy (sc_tcb S t) = LW_OPTION_SCHED_FIFO"; cases "TCB_ucSchedActivateMode (sc_tcb S t) = 0";
      cases "TCB_ucSchedActivateMode (sc_tcb S t) = 1"; cases "TCB_ucSchedActivate (sc_tcb S t) = LW_SCHED_ACT_OTHER"; simp)
  then have "\<exists>S'. AddTCBToReadyRing t p b S = Some S' \<and> same_but_ring S S' \<and> rings_ok S' (q(p := ?xs))"
  proof (elim disjE conjE)
    assume x: "?xs = t # q p" "AddTCBToReadyRing t p b S = ring_op List_Ring_Add_Ahead t p S"
    show ?thesis unfolding x using ring_op_ok[OF ok, where f = List_Ring_Add_Ahead] Ring_Add_Ahead_ring[OF r t(1)] t(2) by fastforce
  next
    assume x: "?xs = q p @ [t]" "AddTCBToReadyRing t p b S = ring_op List_Ring_Add_Last t p S"
    show ?thesis unfolding x using ring_op_ok[OF ok, where f = List_Ring_Add_Last] Ring_Add_Last_ring[OF r t(1)] t(2) by fastforce
  next
    assume x: "?xs = (case q p of [] \<Rightarrow> [t] | x # ys \<Rightarrow> x # t # ys)" "AddTCBToReadyRing t p b S = ring_op List_Ring_Add_Front t p S"
    obtain R h where "List_Ring_Add_Front t (sc_ring S, PCB_pringReadyHeader S p) = Some (R, h)"
      "ring R h (case q p of [] \<Rightarrow> [t] | x # ys \<Rightarrow> x # t # ys)" "same_links (- insert t (set (q p))) (sc_ring S) R"
      using Ring_Add_Front_ring[OF r t(1)] by blast
    from ring_op_ok[where f = List_Ring_Add_Front, OF ok this t(2)] show ?thesis unfolding x by (cases "q p") auto
  qed
  then show thesis using that by blast
qed

lemma Del_ring_ok:
  assumes ok: "rings_ok S q" and t: "q p = ys @ t # zs"
  obtains S' where "DelTCBFromReadyRing t p S = Some S'" "same_but_ring S S'" "rings_ok S' (q(p := ys @ zs))"
proof -
  have "ring (sc_ring S) (PCB_pringReadyHeader S p) (ys @ t # zs)" using ok t by (metis rings_ok_def)
  from Ring_Del_ring[OF this] obtain R h where d: "List_Ring_Del t (sc_ring S, PCB_pringReadyHeader S p) = Some (R, h)"
    "ring R h (ys @ zs)" "same_links (- set (ys @ t # zs)) (sc_ring S) R" by blast
  have "same_links (- insert t (set (q p))) (sc_ring S) R" using d(3) t by (simp add: insert_absorb)
  moreover have "prio S t = p" using ok t by (simp add: rings_ok_def)
  ultimately have "\<exists>S'. DelTCBFromReadyRing t p S = Some S' \<and> same_but_ring S S' \<and> rings_ok S' (q(p := ys @ zs))"
    unfolding DelTCBFromReadyRing_def by (intro ring_op_ok[where f = List_Ring_Del, OF ok d(1,2)]) (auto simp: t)
  then show thesis using that by blast
qed

text \<open>The test of the priority control blocks.\<close>

lemma PcbIsEmpty_eq:
  assumes "rings_ok S q"
  shows "PcbIsEmpty p S \<longleftrightarrow> q p = []"
proof -
  have "ring (sc_ring S) (PCB_pringReadyHeader S p) (q p)" using assms by (simp add: rings_ok_def)
  then show ?thesis by (cases "q p") (auto simp: PcbIsEmpty_def dest: ring_hd)
qed

lemma PcbIsOne_eq:
  assumes "rings_ok S q"
  shows "PcbIsOne p S \<longleftrightarrow> length (q p) = 1"
proof -
  have r: "ring (sc_ring S) (PCB_pringReadyHeader S p) (q p)" using assms by (simp add: rings_ok_def)
  show ?thesis
  proof (cases "q p" rule: ring_cases)
    case (3 x ys z)
    have two: "distinct (x # ys @ [z])" "PCB_pringReadyHeader S p = Some x"
      "dseg (sc_ring S) (Some x) (LINE_plistNext (sc_ring S) x) ys (last_opt (Some x) ys) (Some z)"
      using r unfolding 3 ring_two by blast+
    have "LINE_plistNext (sc_ring S) x \<noteq> Some x" using two(1,3) by (cases ys) auto
    then show ?thesis using two(2) 3 by (auto simp: PcbIsOne_def)
  qed (use r in \<open>auto simp: PcbIsOne_def ring_single\<close>)
qed

section \<open>The tables\<close>

definition tables_ok :: "sched \<Rightarrow> (u8 \<Rightarrow> addr list) \<Rightarrow> bool" where
  "tables_ok S q \<longleftrightarrow> rings_ok S q \<and> bmap_ok (PCBM_bmap S) \<and> bmap_prios (PCBM_bmap S) = {p. q p \<noteq> []} \<and>
     (\<forall>t \<in> queued q. \<not> TCB_bIsCand (sc_tcb S t))"

lemma tcb_upd_simps [simp]:
  "sc_tcb (tcb_upd t f S) = (sc_tcb S)(t := f (sc_tcb S t))"
  "sc_ring (tcb_upd t f S) = sc_ring S" "PCBM_bmap (tcb_upd t f S) = PCBM_bmap S"
  "PCB_pringReadyHeader (tcb_upd t f S) = PCB_pringReadyHeader S" "CAND_ptcbCand (tcb_upd t f S) = CAND_ptcbCand S"
  "CAND_bNeedRotate (tcb_upd t f S) = CAND_bNeedRotate S" "CPU_active (tcb_upd t f S) = CPU_active S"
  "CPU_ptcbTCBCur (tcb_upd t f S) = CPU_ptcbTCBCur S" "CPU_ulInterNesting (tcb_upd t f S) = CPU_ulInterNesting S"
  "CPU_iKernelCounter (tcb_upd t f S) = CPU_iKernelCounter S"
  by (simp_all add: tcb_upd_def)

lemma rings_ok_cong:
  assumes "sc_ring S' = sc_ring S" "PCB_pringReadyHeader S' = PCB_pringReadyHeader S" "\<And>t. t \<in> queued q \<Longrightarrow> prio S' t = prio S t"
  shows "rings_ok S' q \<longleftrightarrow> rings_ok S q"
proof -
  have "prio S' t = prio S t" if "t \<in> set (q p)" for t p using assms(3)[of t] that unfolding queued_def by blast
  then show ?thesis using assms(1,2) unfolding rings_ok_def by metis
qed

lemma tables_ok_cong:
  assumes "sc_ring S' = sc_ring S" "PCB_pringReadyHeader S' = PCB_pringReadyHeader S" "PCBM_bmap S' = PCBM_bmap S"
    "\<And>t. t \<in> queued q \<Longrightarrow> prio S' t = prio S t \<and> TCB_bIsCand (sc_tcb S' t) = TCB_bIsCand (sc_tcb S t)"
  shows "tables_ok S' q \<longleftrightarrow> tables_ok S q"
  unfolding tables_ok_def using rings_ok_cong[of S' S q] assms by auto

lemma Seek_None: "tables_ok S q \<Longrightarrow> CandTableSeek S = None \<longleftrightarrow> queued q = {}"
  using IsEmpty_iff[of "PCBM_bmap S"] by (auto simp: CandTableSeek_def tables_ok_def queued_def)

lemma Seek_Some:
  assumes "tables_ok S q" and "CandTableSeek S = Some p"
  shows "q p \<noteq> []" "q p' \<noteq> [] \<Longrightarrow> p \<le> p'"
proof -
  have b: "bmap_ok (PCBM_bmap S)" "bmap_prios (PCBM_bmap S) = {p. q p \<noteq> []}" "p = BitmapHigh (PCBM_bmap S)"
    "bmap_prios (PCBM_bmap S) \<noteq> {}"
    using assms IsEmpty_iff[of "PCBM_bmap S"] by (auto simp: CandTableSeek_def tables_ok_def split: if_splits)
  from High_Min[OF b(1,4)] show "q p \<noteq> []" "q p' \<noteq> [] \<Longrightarrow> p \<le> p'" using b(2,3) by auto
qed

text \<open>Fields that only the candidate table and the processor have.\<close>

definition same_cpu :: "sched \<Rightarrow> sched \<Rightarrow> bool" where
  "same_cpu S S' \<longleftrightarrow> CAND_bNeedRotate S' = CAND_bNeedRotate S \<and> CPU_active S' = CPU_active S \<and>
     CPU_ptcbTCBCur S' = CPU_ptcbTCBCur S \<and> CPU_ulInterNesting S' = CPU_ulInterNesting S \<and>
     CPU_iKernelCounter S' = CPU_iKernelCounter S"

lemma same_cpu_trans: "same_cpu S T \<Longrightarrow> same_cpu T U \<Longrightarrow> same_cpu S U"
  by (simp add: same_cpu_def)

lemma same_but_ring_cpu: "same_but_ring S S' \<Longrightarrow> same_cpu S S'"
  by (auto simp: same_but_ring_def same_cpu_def)

text \<open>The thread that is picked from a ring, and the rest of the ring; a thread without time gets new time
  and has to wait behind the others.\<close>

fun pick :: "(addr \<Rightarrow> tcb) \<Rightarrow> addr list \<Rightarrow> addr \<times> addr list" where
  "pick T [] = (0, [])"
| "pick T (t # ts) = (if TCB_usSchedCounter (T t) = 0 then (hd (ts @ [t]), tl (ts @ [t])) else (t, ts))"

definition refill :: "addr \<Rightarrow> (addr \<Rightarrow> tcb) \<Rightarrow> addr \<Rightarrow> tcb" where
  "refill t T = (if TCB_usSchedCounter (T t) = 0 then T(t := (T t)\<lparr>TCB_usSchedCounter := TCB_usSchedSlice (T t)\<rparr>) else T)"

definition mark_cand :: "bool \<Rightarrow> addr \<Rightarrow> (addr \<Rightarrow> tcb) \<Rightarrow> addr \<Rightarrow> tcb" where
  "mark_cand b u T = T(u := (T u)\<lparr>TCB_bIsCand := b\<rparr>)"

lemma mark_simps [simp]:
  "TCB_ucPriority (mark_cand b u T t) = TCB_ucPriority (T t)" "TCB_usStatus (mark_cand b u T t) = TCB_usStatus (T t)"
  "TCB_bIsCand (mark_cand b u T t) = (if t = u then b else TCB_bIsCand (T t))"
  "TCB_usSchedCounter (mark_cand b u T t) = TCB_usSchedCounter (T t)"
  "TCB_ucPriority (refill v T t) = TCB_ucPriority (T t)" "TCB_usStatus (refill v T t) = TCB_usStatus (T t)"
  "TCB_bIsCand (refill v T t) = TCB_bIsCand (T t)"
  by (simp_all add: mark_cand_def refill_def)

lemma pick_set: "xs \<noteq> [] \<Longrightarrow> pick T xs = (u, us) \<Longrightarrow> set xs = insert u (set us)"
  by (cases xs; cases "tl xs") (auto split: if_splits)

lemma Next_ok:
  assumes ok: "rings_ok S q" and q: "q p = t # ts" and d: "pick (sc_tcb S) (q p) = (u, us)"
  obtains S' where "CandTableNext p S = Some (u, S')" "rings_ok S' (q(p := u # us))"
    "sc_tcb S' = refill t (sc_tcb S)" "PCBM_bmap S' = PCBM_bmap S" "CAND_ptcbCand S' = CAND_ptcbCand S" "same_cpu S S'"
proof (cases "TCB_usSchedCounter (sc_tcb S t) = 0")
  case True
  have r: "ring (sc_ring S) (PCB_pringReadyHeader S p) (t # ts)" using ok q by (metis rings_ok_def)
  then have hd: "PCB_pringReadyHeader S p = Some t" by (rule ring_hd)
  have rot: "ts @ [t] = u # us" using True d q by (cases ts) auto
  then have r': "ring (sc_ring S) (Some u) (u # us)" using ring_rotate[OF r] ring_hd by metis
  have n: "list_ring_next (sc_ring S) (Some t) = Some (Some u)"
    using ring_rotate[OF r] ring_hd rot by (metis list_ring_next_def option.simps(5))
  let ?S = "tcb_upd t (\<lambda>T. T\<lparr>TCB_usSchedCounter := TCB_usSchedSlice T\<rparr>) S"
  let ?S' = "?S\<lparr>PCB_pringReadyHeader := (PCB_pringReadyHeader ?S)(p := Some u)\<rparr>"
  have "set (u # us) = set (t # ts)" using rot by (metis Un_commute set_append append_Cons append_Nil)
  then have "rings_ok ?S' (q(p := u # us))"
    using ok r' q unfolding rings_ok_def by (auto simp: prio_def)
  then show thesis
    using that[of ?S'] True hd n by (simp add: CandTableNext_def Let_def refill_def same_cpu_def)
next
  case False
  have "ring (sc_ring S) (PCB_pringReadyHeader S p) (t # ts)" using ok q by (metis rings_ok_def)
  then have hd: "PCB_pringReadyHeader S p = Some t" by (rule ring_hd)
  have u: "u = t" "us = ts" using False d q by simp_all
  then have "rings_ok S (q(p := u # us))" using ok q by (metis fun_upd_triv)
  then show thesis using that[of S] False hd u by (simp add: CandTableNext_def refill_def same_cpu_def)
qed

text \<open>The bit of a ring from which a thread was taken.\<close>

lemma tables_after_del:
  assumes r: "rings_ok S (q(p := us))" and b: "bmap_ok (PCBM_bmap S)" "bmap_prios (PCBM_bmap S) = {p. q p \<noteq> []}"
    and p: "q p \<noteq> []" "prio S u = p" and c: "\<forall>t \<in> queued (q(p := us)). \<not> TCB_bIsCand (sc_tcb S t)"
  shows "tables_ok (if PcbIsEmpty p S then ReadyTableDel u S else S) (q(p := us))"
proof -
  have e: "PcbIsEmpty p S \<longleftrightarrow> us = []" using PcbIsEmpty_eq[OF r, of p] by simp
  have "bmap_prios (PCBM_bmap (ReadyTableDel u S)) = {p'. (q(p := us)) p' \<noteq> []}" if "us = []"
    using b p that by (auto simp: ReadyTableDel_def Del_prios prio_def[symmetric])
  moreover have "rings_ok (ReadyTableDel u S) (q(p := us))"
    using r rings_ok_cong[of "ReadyTableDel u S" S "q(p := us)"] by (simp add: ReadyTableDel_def prio_def)
  moreover have "bmap_ok (PCBM_bmap (ReadyTableDel u S))" "sc_tcb (ReadyTableDel u S) = sc_tcb S"
    using Del_ok[OF b(1)] by (simp_all add: ReadyTableDel_def)
  moreover have "{p. q p \<noteq> []} = {p'. (q(p := us)) p' \<noteq> []}" if "us \<noteq> []" using that p(1) by auto
  ultimately show ?thesis using e r b c by (auto simp: tables_ok_def)
qed

lemma Resel_ok:
  assumes ok: "tables_ok S q" and q: "q p = t # ts" and d: "pick (sc_tcb S) (q p) = (u, us)"
  obtains S' where "CandTableResel p S = Some S'" "tables_ok S' (q(p := us))" "CAND_ptcbCand S' = Some u"
    "sc_tcb S' = mark_cand True u (refill t (sc_tcb S))" "same_cpu S S'"
proof -
  have r: "rings_ok S q" and b: "bmap_ok (PCBM_bmap S)" "bmap_prios (PCBM_bmap S) = {p. q p \<noteq> []}"
    and c: "\<forall>t \<in> queued q. \<not> TCB_bIsCand (sc_tcb S t)" using ok by (simp_all add: tables_ok_def)
  obtain S1 where n: "CandTableNext p S = Some (u, S1)" "rings_ok S1 (q(p := u # us))" "sc_tcb S1 = refill t (sc_tcb S)"
    "PCBM_bmap S1 = PCBM_bmap S" "CAND_ptcbCand S1 = CAND_ptcbCand S" "same_cpu S S1"
    by (rule Next_ok[OF r q d])
  let ?S2 = "tcb_upd u (\<lambda>T. T\<lparr>TCB_bIsCand := True\<rparr>) (S1\<lparr>CAND_ptcbCand := Some u\<rparr>)"
  have r2: "rings_ok ?S2 (q(p := u # us))" using n(2) rings_ok_cong[of ?S2 S1 "q(p := u # us)"] by (simp add: prio_def)
  obtain S3 where dl: "DelTCBFromReadyRing u p ?S2 = Some S3" "same_but_ring ?S2 S3" "rings_ok S3 (q(p := us))"
    using Del_ring_ok[OF r2, of p "[]" u us] by auto
  note f = same_but_ring_fields[OF dl(2)]
  have tcb: "sc_tcb S3 = mark_cand True u (refill t (sc_tcb S))" using f n(3) by (simp add: mark_cand_def)
  have pu: "prio S3 u = p" using r2 f by (auto simp: rings_ok_def prio_def split: if_splits)
  have "distinct (u # us)" using n(2) by (auto simp: rings_ok_def ring_def split: if_splits)
  moreover have "u \<in> set (q p)" using pick_set[OF _ d] q by auto
  ultimately have "u \<notin> queued (q(p := us))"
    using queued_prio[OF dl(3), of u] pu by simp
  moreover have "set us \<subseteq> set (q p)" using pick_set[OF _ d] q by auto
  then have "queued (q(p := us)) \<subseteq> queued q" unfolding queued_upd by (auto simp: queued_def)
  ultimately have "\<forall>t \<in> queued (q(p := us)). \<not> TCB_bIsCand (sc_tcb S3 t)" using c tcb by auto
  then have t3: "tables_ok (if PcbIsEmpty p S3 then ReadyTableDel u S3 else S3) (q(p := us))"
    using tables_after_del[OF dl(3), of u] b f n(4) q pu by simp
  let ?S' = "if PcbIsEmpty p S3 then ReadyTableDel u S3 else S3"
  have run: "CandTableResel p S = Some ?S'" using n(1) dl(1) by (simp add: CandTableResel_def Let_def)
  have rest: "CAND_ptcbCand ?S' = Some u" "sc_tcb ?S' = mark_cand True u (refill t (sc_tcb S))" "same_cpu S ?S'"
    using f tcb n(6) by (auto simp: ReadyTableDel_def same_cpu_def)
  show thesis by (rule that[OF run t3 rest])
qed

lemma Fill_ok:
  assumes ok: "tables_ok S q" and ne: "queued q \<noteq> {}"
  obtains p t ts u us S' where "CandTableFill S = Some S'" "q p = t # ts" "\<forall>v \<in> queued q. p \<le> prio S v"
    "pick (sc_tcb S) (q p) = (u, us)" "tables_ok S' (q(p := us))" "CAND_ptcbCand S' = Some u"
    "sc_tcb S' = mark_cand True u (refill t (sc_tcb S))" "same_cpu S S'"
proof -
  obtain p where p: "CandTableSeek S = Some p" using Seek_None[OF ok] ne by auto
  obtain t ts where t: "q p = t # ts" using Seek_Some(1)[OF ok p] by (cases "q p") auto
  obtain u us where d: "pick (sc_tcb S) (q p) = (u, us)" by fastforce
  have le: "\<forall>v \<in> queued q. p \<le> prio S v"
  proof
    fix v assume "v \<in> queued q"
    then have "v \<in> set (q (prio S v))" using ok queued_prio[of S q v] by (simp add: tables_ok_def)
    then have "q (prio S v) \<noteq> []" by (cases "q (prio S v)") auto
    then show "p \<le> prio S v" by (rule Seek_Some(2)[OF ok p])
  qed
  obtain S' where r: "CandTableResel p S = Some S'" "tables_ok S' (q(p := us))" "CAND_ptcbCand S' = Some u"
    "sc_tcb S' = mark_cand True u (refill t (sc_tcb S))" "same_cpu S S'" by (rule Resel_ok[OF ok t d])
  have run: "CandTableFill S = Some S'" using p r(1) by (simp add: CandTableFill_def)
  show thesis by (rule that[OF run t le d r(2-5)])
qed

text \<open>A thread is added, and its bit is set when its ring was empty.\<close>

lemma tables_add:
  assumes ok: "tables_ok S q" and xs: "set xs = insert t (set (q p))" and t: "prio S t = p" "\<not> TCB_bIsCand (sc_tcb S t)"
    and r: "rings_ok S' (q(p := xs))" and s: "sc_tcb S' = sc_tcb S"
    and b: "PCBM_bmap S' = (if q p = [] then BitmapAdd (PCBM_bmap S) p else PCBM_bmap S)"
  shows "tables_ok S' (q(p := xs))"
proof -
  have bm: "bmap_ok (PCBM_bmap S)" "bmap_prios (PCBM_bmap S) = {p. q p \<noteq> []}"
    and c: "\<forall>t \<in> queued q. \<not> TCB_bIsCand (sc_tcb S t)" using ok by (simp_all add: tables_ok_def)
  have "xs \<noteq> []" using xs by auto
  then have "bmap_prios (PCBM_bmap S') = {p'. (q(p := xs)) p' \<noteq> []}" using b bm by (auto simp: Add_prios)
  moreover have "queued (q(p := xs)) \<subseteq> insert t (queued q)" using xs unfolding queued_upd by (auto simp: queued_def)
  ultimately show ?thesis using r s b bm c t(2) Add_ok by (auto simp: tables_ok_def)
qed

lemma Empty_ok:
  assumes ok: "tables_ok S q" and c: "CAND_ptcbCand S = Some c" "c \<notin> queued q" "prio S c = p"
  obtains S' where "CandTableEmpty S = Some S'" "tables_ok S' (q(p := c # q p))" "CAND_ptcbCand S' = None"
    "sc_tcb S' = mark_cand False c (sc_tcb S)" "same_cpu S S'"
proof -
  let ?S1 = "tcb_upd c (\<lambda>T. T\<lparr>TCB_bIsCand := False\<rparr>) S"
  have "t \<noteq> c" if "t \<in> queued q" for t using c(2) that by blast
  then have ok1: "tables_ok ?S1 q" using ok tables_ok_cong[of ?S1 S q] by (simp add: prio_def)
  then have r1: "rings_ok ?S1 q" by (simp add: tables_ok_def)
  have n1: "c \<notin> set (q p)" "prio ?S1 c = p" "\<not> TCB_bIsCand (sc_tcb ?S1 c)" using c(2,3) by (auto simp: queued_def prio_def)
  obtain S2 where a: "AddTCBToReadyRing c p True ?S1 = Some S2" "same_but_ring ?S1 S2"
    "rings_ok S2 (q(p := ready_insert (sc_tcb ?S1 c) True c (q p)))" by (rule Add_ring_ok[OF r1 n1(1,2)])
  note f = same_but_ring_fields[OF a(2)]
  have r2: "rings_ok S2 (q(p := c # q p))" using a(3) by (simp add: ready_insert_def)
  let ?S' = "(if PcbIsOne p S2 then ReadyTableAdd c S2 else S2)\<lparr>CAND_ptcbCand := None\<rparr>"
  have one: "PcbIsOne p S2 \<longleftrightarrow> q p = []" using PcbIsOne_eq[OF r2, of p] by simp
  have tcb: "sc_tcb ?S' = mark_cand False c (sc_tcb S)" using f by (simp add: ReadyTableAdd_def mark_cand_def)
  have "rings_ok ?S' (q(p := c # q p))"
    using r2 rings_ok_cong[of ?S' S2 "q(p := c # q p)"] by (simp add: prio_def ReadyTableAdd_def)
  moreover have "PCBM_bmap ?S' = (if q p = [] then BitmapAdd (PCBM_bmap ?S1) p else PCBM_bmap ?S1)"
    using one f c(3) by (simp add: ReadyTableAdd_def prio_def)
  ultimately have t: "tables_ok ?S' (q(p := c # q p))"
    using f by (intro tables_add[OF ok1 _ n1(2,3)]) (simp_all add: ReadyTableAdd_def)
  have run: "CandTableEmpty S = Some ?S'" using c(1,3) a(1) by (simp add: CandTableEmpty_def GetPcb_def prio_def Let_def)
  have cpu: "same_cpu S ?S'" "CAND_ptcbCand ?S' = None" using f by (simp_all add: same_cpu_def ReadyTableAdd_def)
  show thesis by (rule that[OF run t cpu(2) tcb cpu(1)])
qed

text \<open>A thread that does not become the candidate.\<close>

lemma Add_not_cand:
  assumes ok: "tables_ok S q" and t: "t \<notin> queued q" "prio S t = p" "\<not> TCB_bIsCand (sc_tcb S t)"
  obtains S' where "AddTCBToReadyRing t p False (if PcbIsEmpty p S then ReadyTableAdd t S else S) = Some S'"
    "tables_ok S' (q(p := ready_insert (sc_tcb S t) False t (q p)))" "sc_tcb S' = sc_tcb S"
    "CAND_ptcbCand S' = CAND_ptcbCand S" "same_cpu S S'"
proof -
  have r: "rings_ok S q" using ok by (simp add: tables_ok_def)
  let ?S1 = "if PcbIsEmpty p S then ReadyTableAdd t S else S"
  have r1: "rings_ok ?S1 q" using r rings_ok_cong[of ?S1 S q] by (simp add: ReadyTableAdd_def prio_def)
  have n1: "t \<notin> set (q p)" "prio ?S1 t = p" using t by (auto simp: queued_def prio_def ReadyTableAdd_def)
  obtain S2 where a: "AddTCBToReadyRing t p False ?S1 = Some S2" "same_but_ring ?S1 S2"
    "rings_ok S2 (q(p := ready_insert (sc_tcb ?S1 t) False t (q p)))" by (rule Add_ring_ok[OF r1 n1])
  note f = same_but_ring_fields[OF a(2)]
  have tcb: "sc_tcb ?S1 = sc_tcb S" by (simp add: ReadyTableAdd_def)
  have "PCBM_bmap S2 = (if q p = [] then BitmapAdd (PCBM_bmap S) p else PCBM_bmap S)"
    using PcbIsEmpty_eq[OF r, of p] f t(2) by (simp add: ReadyTableAdd_def prio_def)
  then have t2: "tables_ok S2 (q(p := ready_insert (sc_tcb S t) False t (q p)))"
    using a(3) f tcb by (intro tables_add[OF ok _ t(2,3)]) simp_all
  have rest: "sc_tcb S2 = sc_tcb S" "CAND_ptcbCand S2 = CAND_ptcbCand S" "same_cpu S S2"
    using f tcb by (simp_all add: same_cpu_def ReadyTableAdd_def)
  show thesis by (rule that[OF a(1) t2 rest])
qed

section \<open>The invariant\<close>

definition active_set :: "sched \<Rightarrow> (u8 \<Rightarrow> addr list) \<Rightarrow> addr set" where
  "active_set S q = queued q \<union> set_option (CAND_ptcbCand S)"

text \<open>Unless a rotation is pending, the candidate is at least as urgent as every thread that waits.\<close>

definition cand_top :: "sched \<Rightarrow> (u8 \<Rightarrow> addr list) \<Rightarrow> bool" where
  "cand_top S q \<longleftrightarrow>
     (\<forall>c. CAND_ptcbCand S = Some c \<longrightarrow> \<not> CAND_bNeedRotate S \<longrightarrow> (\<forall>t \<in> queued q. prio S c \<le> prio S t))"

definition sched_core :: "sched \<Rightarrow> (u8 \<Rightarrow> addr list) \<Rightarrow> bool" where
  "sched_core S q \<longleftrightarrow> tables_ok S q \<and> (\<forall>t. TCB_bIsCand (sc_tcb S t) \<longleftrightarrow> CAND_ptcbCand S = Some t) \<and>
     (CPU_active S \<longleftrightarrow> CAND_ptcbCand S \<noteq> None) \<and> cand_top S q"

definition thr :: "tcb \<Rightarrow> tcb" where
  "thr T = T\<lparr>TCB_bIsCand := False, TCB_usSchedCounter := 0\<rparr>"

definition same_thr :: "sched \<Rightarrow> sched \<Rightarrow> bool" where
  "same_thr S S' \<longleftrightarrow> (\<forall>u. thr (sc_tcb S' u) = thr (sc_tcb S u))"

lemma thr_fields:
  "thr T = thr U \<Longrightarrow> TCB_ucPriority T = TCB_ucPriority U \<and> TCB_usStatus T = TCB_usStatus U \<and>
     TCB_ulThreadLockCounter T = TCB_ulThreadLockCounter U"
  by (cases T; cases U) (simp add: thr_def)

lemma same_thrD:
  assumes "same_thr S S'"
  shows "prio S' t = prio S t" "TCB_usStatus (sc_tcb S' t) = TCB_usStatus (sc_tcb S t)"
    "TCB_ulThreadLockCounter (sc_tcb S' t) = TCB_ulThreadLockCounter (sc_tcb S t)"
  using assms thr_fields[of "sc_tcb S' t" "sc_tcb S t"] by (simp_all add: same_thr_def prio_def)

lemma same_thr_refl: "sc_tcb S' = sc_tcb S \<Longrightarrow> same_thr S S'"
  by (simp add: same_thr_def)

lemma same_thr_trans: "same_thr S T \<Longrightarrow> same_thr T U \<Longrightarrow> same_thr S U"
  by (simp add: same_thr_def)

lemma same_thr_mark: "sc_tcb S' = mark_cand b u (sc_tcb S) \<Longrightarrow> same_thr S S'"
  by (simp add: same_thr_def mark_cand_def thr_def)

lemma same_thr_refill: "sc_tcb S' = refill t (sc_tcb S) \<Longrightarrow> same_thr S S'"
  by (simp add: same_thr_def refill_def thr_def)

lemma same_thr_pick:
  assumes "sc_tcb S' = mark_cand b u (refill t (sc_tcb S))"
  shows "same_thr S S'"
  using same_thr_refill[of "S\<lparr>sc_tcb := refill t (sc_tcb S)\<rparr>" t S] same_thr_mark[of S' b u "S\<lparr>sc_tcb := refill t (sc_tcb S)\<rparr>"] assms
  by (auto intro: same_thr_trans)

lemma queued_remove:
  assumes "rings_ok S q" "set (q p) = insert u (set us)" "u \<notin> set us"
  shows "queued (q(p := us)) = queued q - {u}"
proof -
  have "prio S u = p" using assms(1,2) by (auto simp: rings_ok_def)
  then have u: "u \<notin> set (q p')" if "p' \<noteq> p" for p' using assms(1) that by (auto simp: rings_ok_def)
  have "v \<in> queued (q(p := us)) \<longleftrightarrow> v \<in> queued q - {u}" for v
  proof (cases "v \<in> set (q p)")
    case True
    then show ?thesis using assms(2,3) u unfolding queued_upd by (auto simp: queued_def)
  next
    case False
    then show ?thesis using assms(2) unfolding queued_upd by (auto simp: queued_def)
  qed
  then show ?thesis by blast
qed

lemma queued_insert:
  assumes "set xs = insert t (set (q p))"
  shows "queued (q(p := xs)) = insert t (queued q)"
  using assms unfolding queued_upd by (auto simp: queued_def)

lemma pick_distinct:
  "distinct xs \<Longrightarrow> xs \<noteq> [] \<Longrightarrow> pick T xs = (u, us) \<Longrightarrow> set xs = insert u (set us) \<and> u \<notin> set us"
  by (cases xs; cases "tl xs") (auto split: if_splits)

lemma ring_distinct: "rings_ok S q \<Longrightarrow> distinct (q p)"
  by (auto simp: rings_ok_def ring_def)

lemma coreD:
  assumes "sched_core S q"
  shows "tables_ok S q" "rings_ok S q" "\<And>t. TCB_bIsCand (sc_tcb S t) \<longleftrightarrow> CAND_ptcbCand S = Some t"
    "CPU_active S \<longleftrightarrow> CAND_ptcbCand S \<noteq> None" "cand_top S q" "\<And>c. CAND_ptcbCand S = Some c \<Longrightarrow> c \<notin> queued q"
  using assms by (auto simp: sched_core_def tables_ok_def)

section \<open>The operations keep the invariant\<close>

text \<open>Choosing a new candidate when there is none.\<close>

lemma Fill_core:
  assumes ok: "tables_ok S q" and none: "\<forall>t. \<not> TCB_bIsCand (sc_tcb S t)" and act: "CPU_active S" and ne: "queued q \<noteq> {}"
  obtains S' q' where "CandTableFill S = Some S'" "\<And>r. sched_core (S'\<lparr>CAND_bNeedRotate := r\<rparr>) q'"
    "active_set S' q' = queued q" "same_thr S S'" "same_cpu S S'"
proof -
  obtain p t ts u us S' where f: "CandTableFill S = Some S'" "q p = t # ts" "\<forall>v \<in> queued q. p \<le> prio S v"
    "pick (sc_tcb S) (q p) = (u, us)" "tables_ok S' (q(p := us))" "CAND_ptcbCand S' = Some u"
    "sc_tcb S' = mark_cand True u (refill t (sc_tcb S))" "same_cpu S S'" by (rule Fill_ok[OF ok ne])
  have r: "rings_ok S q" using ok by (simp add: tables_ok_def)
  have pk: "set (q p) = insert u (set us)" "u \<notin> set us" using pick_distinct[OF ring_distinct[OF r], of p] f(2,4) by auto
  have qd: "queued (q(p := us)) = queued q - {u}" by (rule queued_remove[OF r pk])
  have th: "same_thr S S'" by (rule same_thr_pick[OF f(7)])
  have u: "u \<in> queued q" "prio S u = p" using pk r by (auto simp: queued_def rings_ok_def)
  have "cand_top (S'\<lparr>CAND_bNeedRotate := b\<rparr>) (q(p := us))" for b
    using f(3,6) u same_thrD(1)[OF th] qd by (auto simp: cand_top_def prio_def)
  moreover have "tables_ok (S'\<lparr>CAND_bNeedRotate := b\<rparr>) (q(p := us))" for b
    using f(5) tables_ok_cong[of "S'\<lparr>CAND_bNeedRotate := b\<rparr>" S' "q(p := us)"] by (simp add: prio_def)
  moreover have "CPU_active S'" using f(8) act by (simp add: same_cpu_def)
  ultimately have core: "sched_core (S'\<lparr>CAND_bNeedRotate := b\<rparr>) (q(p := us))" for b
    using f(6,7) none by (auto simp: sched_core_def)
  have "active_set S' (q(p := us)) = queued q" using qd u(1) f(6) by (auto simp: active_set_def)
  then show thesis using that[OF f(1) core _ th f(8)] by blast
qed

text \<open>Entering and leaving the set of the ready threads.\<close>

lemma Add_core:
  assumes core: "sched_core S q" and t: "t \<notin> active_set S q" "prio S t = p"
  obtains S' q' where "ADD_TO_READY_RING t p S = Some S'" "sched_core S' q'" "active_set S' q' = insert t (active_set S q)"
    "same_thr S S'" "CPU_active S' = CPU_active S" "CPU_ptcbTCBCur S' = CPU_ptcbTCBCur S"
proof -
  note result = that
  note c = coreD[OF core]
  have tq: "t \<notin> queued q" "\<not> TCB_bIsCand (sc_tcb S t)" using t(1) c(3) by (auto simp: active_set_def)
  let ?can = "\<lambda>S. Some (True, tcb_upd t (\<lambda>T. T\<lparr>TCB_bIsCand := True\<rparr>) (S\<lparr>CAND_ptcbCand := Some t\<rparr>))"
  let ?cannot = "\<lambda>S. Some (False, if PcbIsEmpty p S then ReadyTableAdd t S else S)"
  have wait: thesis if tr: "CandTableTryAdd t p S = ?cannot (S\<lparr>CAND_bNeedRotate := b\<rparr>)"
    and b: "\<And>d. CAND_ptcbCand S = Some d \<Longrightarrow> \<not> b \<Longrightarrow> prio S d \<le> prio S t \<and> \<not> CAND_bNeedRotate S" for b
  proof -
    let ?S = "S\<lparr>CAND_bNeedRotate := b\<rparr>"
    have ok: "tables_ok ?S q" using c(1) tables_ok_cong[of ?S S q] by (simp add: prio_def)
    obtain S' where a: "AddTCBToReadyRing t p False (if PcbIsEmpty p ?S then ReadyTableAdd t ?S else ?S) = Some S'"
      "tables_ok S' (q(p := ready_insert (sc_tcb ?S t) False t (q p)))" "sc_tcb S' = sc_tcb ?S"
      "CAND_ptcbCand S' = CAND_ptcbCand ?S" "same_cpu ?S S'"
      using Add_not_cand[OF ok tq(1), of p] t(2) tq(2) by (auto simp: prio_def)
    let ?q = "q(p := ready_insert (sc_tcb ?S t) False t (q p))"
    have qd: "queued ?q = insert t (queued q)" by (rule queued_insert) simp
    have "cand_top S' ?q"
      using c(5) b a(3-5) qd unfolding cand_top_def same_cpu_def by (auto simp: prio_def)
    then have core': "sched_core S' ?q"
      using a(2-5) c(3,4) by (simp add: sched_core_def same_cpu_def)
    have "ADD_TO_READY_RING t p S = Some S'" using tr a(1) by (simp add: ADD_TO_READY_RING_def)
    moreover have "active_set S' ?q = insert t (active_set S q)" using qd a(4) by (auto simp: active_set_def)
    moreover have "same_thr S S'" using a(3) by (simp add: same_thr_refl)
    ultimately show thesis using result[of S' ?q] core' a(5) by (simp add: same_cpu_def)
  qed
  show thesis
  proof (cases "CAND_ptcbCand S")
    case None
    then have "CandTableTryAdd t p S = ?cannot S" using c(4) by (simp add: CandTableTryAdd_def)
    then show thesis using wait[of "CAND_bNeedRotate S"] None by simp
  next
    case (Some d)
    then have act: "CPU_active S" using c(4) by simp
    show thesis
    proof (cases "prio S t < prio S d")
      case False
      then have "CandTableTryAdd t p S = ?cannot S" using act Some by (simp add: CandTableTryAdd_def prio_def)
      then show thesis using wait[of "CAND_bNeedRotate S"] False Some by simp
    next
      case less: True
      show thesis
      proof (cases "TCB_ulThreadLockCounter (sc_tcb S d) = 0")
        case False
        then have "CandTableTryAdd t p S = ?cannot (S\<lparr>CAND_bNeedRotate := True\<rparr>)"
          using act Some less by (simp add: CandTableTryAdd_def prio_def)
        then show thesis using wait[of True] by simp
      next
        case True
        obtain S1 where e: "CandTableEmpty S = Some S1" "tables_ok S1 (q(prio S d := d # q (prio S d)))" "CAND_ptcbCand S1 = None"
          "sc_tcb S1 = mark_cand False d (sc_tcb S)" "same_cpu S S1"
          by (rule Empty_ok[OF c(1) Some c(6)[OF Some] refl])
        let ?q = "q(prio S d := d # q (prio S d))"
        let ?S' = "tcb_upd t (\<lambda>T. T\<lparr>TCB_bIsCand := True\<rparr>) (S1\<lparr>CAND_ptcbCand := Some t\<rparr>)"
        have qd: "queued ?q = insert d (queued q)" by (rule queued_insert) simp
        have td: "t \<noteq> d" using t(1) Some by (auto simp: active_set_def)
        have run: "ADD_TO_READY_RING t p S = Some ?S'"
          using act Some less True e(1) by (simp add: ADD_TO_READY_RING_def CandTableTryAdd_def prio_def)
        have tcb: "sc_tcb ?S' = mark_cand True t (mark_cand False d (sc_tcb S))" using e(4) by (simp add: mark_cand_def)
        have th: "same_thr S ?S'" unfolding same_thr_def tcb by (simp add: mark_cand_def thr_def)
        have "v \<noteq> t" if "v \<in> queued ?q" for v using that qd tq(1) td by auto
        then have tab: "tables_ok ?S' ?q" using e(2) tables_ok_cong[of ?S' S1 ?q] by (simp add: prio_def)
        have "prio S t \<le> prio S v" if "v \<in> queued ?q" "\<not> CAND_bNeedRotate S" for v
        proof (cases "v = d")
          case False
          then have "prio S d \<le> prio S v" using that qd c(5) Some by (auto simp: cand_top_def)
          then show ?thesis using less by simp
        qed (use less in simp)
        then have "cand_top ?S' ?q"
          using same_thrD(1)[OF th] e(5) by (auto simp: cand_top_def same_cpu_def)
        then have core': "sched_core ?S' ?q"
          using tab tcb e(5) act c(3) Some by (auto simp: sched_core_def same_cpu_def)
        have "active_set ?S' ?q = insert t (active_set S q)" using qd Some by (auto simp: active_set_def)
        then show thesis using that[of ?S' ?q] run core' th e(5) by (simp add: same_cpu_def)
      qed
    qed
  qed
qed

lemma in_queue_split:
  assumes "rings_ok S q" "t \<in> queued q" "prio S t = p"
  obtains ys zs where "q p = ys @ t # zs"
  using assms queued_prio[of S q t] by (auto simp: in_set_conv_decomp)

lemma Del_core:
  assumes core: "sched_core S q" and t: "t \<in> active_set S q" "prio S t = p"
    and idle: "CAND_ptcbCand S = Some t \<Longrightarrow> queued q \<noteq> {}"
  obtains S' q' where "DEL_FROM_READY_RING t p S = Some S'" "sched_core S' q'" "active_set S' q' = active_set S q - {t}"
    "same_thr S S'" "CPU_active S' = CPU_active S" "CPU_ptcbTCBCur S' = CPU_ptcbTCBCur S"
proof -
  note c = coreD[OF core]
  show thesis
  proof (cases "CAND_ptcbCand S = Some t")
    case True
    let ?S1 = "tcb_upd t (\<lambda>T. T\<lparr>TCB_bIsCand := False\<rparr>) S"
    have "v \<noteq> t" if "v \<in> queued q" for v using that c(6)[OF True] by blast
    then have ok1: "tables_ok ?S1 q" using c(1) tables_ok_cong[of ?S1 S q] by (simp add: prio_def)
    have none: "\<forall>v. \<not> TCB_bIsCand (sc_tcb ?S1 v)" using c(3) True by auto
    have act: "CPU_active ?S1" using c(4) True by simp
    obtain S2 q2 where f: "CandTableFill ?S1 = Some S2" "\<And>r. sched_core (S2\<lparr>CAND_bNeedRotate := r\<rparr>) q2"
      "active_set S2 q2 = queued q" "same_thr ?S1 S2" "same_cpu ?S1 S2"
      using Fill_core[OF ok1 none act idle[OF True]] by blast
    let ?S' = "S2\<lparr>CAND_bNeedRotate := False\<rparr>"
    have run: "DEL_FROM_READY_RING t p S = Some ?S'"
      using True c(3) f(1) by (simp add: DEL_FROM_READY_RING_def CandTableTryDel_def)
    have act': "active_set ?S' q2 = active_set S q - {t}"
      using f(3) True c(6)[OF True] by (auto simp: active_set_def)
    have th: "same_thr S ?S'" using f(4) by (simp add: same_thr_def thr_def)
    show thesis by (rule that[OF run f(2) act' th]) (use f(5) in \<open>simp_all add: same_cpu_def\<close>)
  next
    case False
    then have tq: "t \<in> queued q" "\<not> TCB_bIsCand (sc_tcb S t)" using t(1) c(3) by (auto simp: active_set_def)
    obtain ys zs where q: "q p = ys @ t # zs" by (rule in_queue_split[OF c(2) tq(1) t(2)])
    obtain S1 where d: "DelTCBFromReadyRing t p S = Some S1" "same_but_ring S S1" "rings_ok S1 (q(p := ys @ zs))"
      by (rule Del_ring_ok[OF c(2) q])
    note g = same_but_ring_fields[OF d(2)]
    let ?q = "q(p := ys @ zs)" and ?S' = "if PcbIsEmpty p S1 then ReadyTableDel t S1 else S1"
    have "distinct (ys @ t # zs)" using ring_distinct[OF c(2), of p] q by simp
    then have qd: "queued ?q = queued q - {t}" using queued_remove[OF c(2), of p t "ys @ zs"] q by auto
    have t1: "tables_ok ?S' ?q"
      by (rule tables_after_del[OF d(3)]) (use c(1) g q t(2) qd in \<open>auto simp: tables_ok_def prio_def\<close>)
    have run: "DEL_FROM_READY_RING t p S = Some ?S'"
      using False tq(2) d(1) g by (simp add: DEL_FROM_READY_RING_def CandTableTryDel_def)
    have tcb: "sc_tcb ?S' = sc_tcb S" using g by (simp add: ReadyTableDel_def)
    have flds: "CAND_ptcbCand ?S' = CAND_ptcbCand S" "CAND_bNeedRotate ?S' = CAND_bNeedRotate S" "CPU_active ?S' = CPU_active S"
      "CPU_ptcbTCBCur ?S' = CPU_ptcbTCBCur S" using g by (simp_all add: ReadyTableDel_def)
    have "cand_top ?S' ?q" using c(5) qd tcb flds by (simp add: cand_top_def prio_def)
    then have core': "sched_core ?S' ?q" using t1 tcb flds c(3,4) by (simp add: sched_core_def)
    have act': "active_set ?S' ?q = active_set S q - {t}" using qd flds(1) False by (auto simp: active_set_def)
    show thesis by (rule that[OF run core' act' same_thr_refl[OF tcb] flds(3,4)])
  qed
qed

text \<open>The update of the candidate, when a rotation is pending.\<close>

lemma Rotate_ok:
  assumes core: "sched_core S q" and cand: "CAND_ptcbCand S = Some c" "prio S c = pc"
    and seek: "CandTableSeek S = Some p" "p \<le> pc"
  obtains S1 S' q1 u us t ts where "CandTableEmpty S = Some S1" "CandTableResel p S1 = Some S'"
    "q1 = q(pc := c # q pc)" "q1 p = t # ts" "pick (mark_cand False c (sc_tcb S)) (q1 p) = (u, us)"
    "CAND_ptcbCand S' = Some u" "tables_ok S' (q1(p := us))"
    "sc_tcb S' = mark_cand True u (refill t (mark_cand False c (sc_tcb S)))" "same_cpu S S'"
    "queued (q1(p := us)) = insert c (queued q) - {u}" "u \<in> insert c (queued q)" "prio S u = p"
proof -
  note c = coreD[OF core]
  obtain S1 where e: "CandTableEmpty S = Some S1" "tables_ok S1 (q(pc := c # q pc))" "CAND_ptcbCand S1 = None"
    "sc_tcb S1 = mark_cand False c (sc_tcb S)" "same_cpu S S1"
    by (rule Empty_ok[OF c(1) cand(1) c(6)[OF cand(1)] cand(2)])
  let ?q = "q(pc := c # q pc)"
  have "q p \<noteq> []" by (rule Seek_Some(1)[OF c(1) seek(1)])
  then obtain t ts where t: "?q p = t # ts" by (cases "?q p") (auto split: if_splits)
  obtain u us where d: "pick (sc_tcb S1) (?q p) = (u, us)" by fastforce
  obtain S' where r: "CandTableResel p S1 = Some S'" "tables_ok S' (?q(p := us))" "CAND_ptcbCand S' = Some u"
    "sc_tcb S' = mark_cand True u (refill t (sc_tcb S1))" "same_cpu S1 S'" by (rule Resel_ok[OF e(2) t d])
  have r1: "rings_ok S1 ?q" using e(2) by (simp add: tables_ok_def)
  have pk: "set (?q p) = insert u (set us)" "u \<notin> set us" using pick_distinct[OF ring_distinct[OF r1] _ d] t by auto
  have q1: "queued ?q = insert c (queued q)" by (rule queued_insert) simp
  have qd: "queued (?q(p := us)) = insert c (queued q) - {u}" using queued_remove[OF r1 pk] q1 by (simp only:)
  have "u \<in> set (?q p)" using pk by blast
  then have u: "u \<in> insert c (queued q)" "prio S1 u = p" using q1 r1 unfolding rings_ok_def queued_def by blast+
  have "prio S u = p" using u(2) e(4) by (simp add: prio_def)
  then show thesis
    using that[OF e(1) r(1) refl t _ r(3,2) _ same_cpu_trans[OF e(5) r(5)] qd u(1)] d r(4) e(4) by simp
qed

lemma Update_core:
  assumes core: "sched_core S q" and act: "CPU_active S"
  obtains S' q' where "CandTableUpdate S = Some S'" "sched_core S' q'" "active_set S' q' = active_set S q"
    "same_thr S S'" "\<not> CAND_bNeedRotate S'" "CPU_active S'" "CPU_ptcbTCBCur S' = CPU_ptcbTCBCur S"
proof -
  note result = that
  note c = coreD[OF core]
  obtain d where d: "CAND_ptcbCand S = Some d" using c(4) act by auto
  have keep: thesis if run: "CandTableUpdate S = Some (S\<lparr>CAND_bNeedRotate := False\<rparr>)"
    and top: "\<forall>t \<in> queued q. prio S d \<le> prio S t"
  proof -
    let ?S' = "S\<lparr>CAND_bNeedRotate := False\<rparr>"
    have tab: "tables_ok ?S' q" using c(1) tables_ok_cong[of ?S' S q] by (simp add: prio_def)
    have "cand_top ?S' q" using top d by (simp add: cand_top_def prio_def)
    then have "sched_core ?S' q" using tab c(3,4) by (simp add: sched_core_def)
    then show thesis using result[OF run, of q] act by (simp add: active_set_def same_thr_refl)
  qed
  show thesis
  proof (cases "CandTableSeek S")
    case None
    then have "queued q = {}" using Seek_None[OF c(1)] by simp
    then show thesis using keep act d None by (simp add: CandTableUpdate_def)
  next
    case (Some p)
    have le: "p \<le> prio S v" if "v \<in> queued q" for v
      using that Seek_Some(2)[OF c(1) Some, of "prio S v"] queued_prio[OF c(2), of v] by (cases "q (prio S v)") auto
    show thesis
    proof (cases "if TCB_usSchedCounter (sc_tcb S d) = 0 then p \<le> prio S d else p < prio S d")
      case False
      then have "prio S d \<le> p" by (auto split: if_splits)
      then have "\<forall>t \<in> queued q. prio S d \<le> prio S t" using le by force
      moreover have "CandTableUpdate S = Some (S\<lparr>CAND_bNeedRotate := False\<rparr>)"
        using act d Some False unfolding CandTableUpdate_def Let_def prio_def by simp
      ultimately show thesis using keep by blast
    next
      case True
      then have pd: "p \<le> prio S d" by (auto split: if_splits)
      obtain S1 S2 q1 u us t ts where r: "CandTableEmpty S = Some S1" "CandTableResel p S1 = Some S2"
        "q1 = q(prio S d := d # q (prio S d))" "q1 p = t # ts" "pick (mark_cand False d (sc_tcb S)) (q1 p) = (u, us)"
        "CAND_ptcbCand S2 = Some u" "tables_ok S2 (q1(p := us))"
        "sc_tcb S2 = mark_cand True u (refill t (mark_cand False d (sc_tcb S)))" "same_cpu S S2"
        "queued (q1(p := us)) = insert d (queued q) - {u}" "u \<in> insert d (queued q)" "prio S u = p"
        by (rule Rotate_ok[OF core d refl Some pd])
      let ?S' = "S2\<lparr>CAND_bNeedRotate := False\<rparr>" and ?q = "q1(p := us)"
      have run: "CandTableUpdate S = Some ?S'"
        using act d Some True r(1,2) unfolding CandTableUpdate_def Let_def prio_def by simp
      have tcb: "prio ?S' v = prio S v" for v using r(8) by (simp add: prio_def)
      have th: "same_thr S ?S'" unfolding same_thr_def using r(8) by (simp add: mark_cand_def refill_def thr_def)
      have tab: "tables_ok ?S' ?q" using r(7) tables_ok_cong[of ?S' S2 ?q] by (simp add: prio_def)
      have "cand_top ?S' ?q"
        using r(6,10,12) le pd tcb by (auto simp: cand_top_def)
      then have "sched_core ?S' ?q"
        using tab r(6,8,9) act c(3) d by (auto simp: sched_core_def same_cpu_def)
      moreover have "active_set ?S' ?q = active_set S q" using r(6,10,11) d by (auto simp: active_set_def)
      ultimately show thesis using result[OF run _ _ th] act r(9) by (simp add: same_cpu_def)
    qed
  qed
qed

section \<open>All the states that the scheduler can reach\<close>

text \<open>The set of the ready threads is the one the statuses tell.\<close>

definition sched_ok :: "sched \<Rightarrow> (u8 \<Rightarrow> addr list) \<Rightarrow> bool" where
  "sched_ok S q \<longleftrightarrow> sched_core S q \<and> (\<forall>t. LW_THREAD_IS_READY t S \<longleftrightarrow> t \<in> active_set S q)"

definition set_status :: "addr \<Rightarrow> nat \<Rightarrow> sched \<Rightarrow> sched" where
  "set_status t st = tcb_upd t (\<lambda>T. T\<lparr>TCB_usStatus := st\<rparr>)"

text \<open>
  A system starts with no thread and an inactive processor.  Threads become ready and stop being ready, the
  last one never: that is the idle thread.  The processor is made active once, when a thread is ready.
\<close>

inductive sched_reach :: "sched \<Rightarrow> bool" where
  boot: "\<forall>t. \<not> LW_THREAD_IS_READY t S \<and> \<not> TCB_bIsCand (sc_tcb S t) \<Longrightarrow> PCBM_bmap S = BitmapInit \<Longrightarrow>
    \<forall>p. PCB_pringReadyHeader S p = None \<Longrightarrow> CAND_ptcbCand S = None \<Longrightarrow> \<not> CPU_active S \<Longrightarrow> sched_reach S"
| start: "sched_reach S \<Longrightarrow> LW_THREAD_IS_READY i S \<Longrightarrow> CpuActive S = Some (r, S') \<Longrightarrow> sched_reach S'"
| wake: "sched_reach S \<Longrightarrow> \<not> LW_THREAD_IS_READY t S \<Longrightarrow>
    ADD_TO_READY_RING t (GetPcb t S) (set_status t LW_THREAD_STATUS_RDY S) = Some S' \<Longrightarrow> sched_reach S'"
| block: "sched_reach S \<Longrightarrow> LW_THREAD_IS_READY t S \<Longrightarrow> LW_THREAD_IS_READY i S \<Longrightarrow> i \<noteq> t \<Longrightarrow> st \<noteq> LW_THREAD_STATUS_RDY \<Longrightarrow>
    DEL_FROM_READY_RING t (GetPcb t S) S = Some S1 \<Longrightarrow> sched_reach (set_status t st S1)"
| set_prio: "sched_reach S \<Longrightarrow> SchedSetPrio t p S = Some S' \<Longrightarrow> sched_reach S'"
| tick: "sched_reach S \<Longrightarrow> sched_reach (SchedTick S)"
| yield: "sched_reach S \<Longrightarrow> sched_reach (SchedYield t S)"
| dispatch: "sched_reach S \<Longrightarrow> CPU_active S \<Longrightarrow> Schedule S = Some S' \<Longrightarrow> sched_reach S'"
| kernel: "sched_reach S \<Longrightarrow> sched_reach (S\<lparr>CPU_ulInterNesting := n, CPU_iKernelCounter := k\<rparr>)"
| lock: "sched_reach S \<Longrightarrow> sched_reach (tcb_upd t (\<lambda>T. T\<lparr>TCB_ulThreadLockCounter := n\<rparr>) S)"

lemma sched_ok_cong:
  assumes ok: "sched_ok S q"
    and f: "sc_ring S' = sc_ring S" "PCB_pringReadyHeader S' = PCB_pringReadyHeader S" "PCBM_bmap S' = PCBM_bmap S"
      "CAND_ptcbCand S' = CAND_ptcbCand S" "CPU_active S' = CPU_active S" "CAND_bNeedRotate S \<Longrightarrow> CAND_bNeedRotate S'"
    and t: "\<And>t. TCB_usStatus (sc_tcb S' t) = TCB_usStatus (sc_tcb S t) \<and> TCB_bIsCand (sc_tcb S' t) = TCB_bIsCand (sc_tcb S t) \<and>
        prio S' t = prio S t"
  shows "sched_ok S' q"
proof -
  have "tables_ok S' q" using ok tables_ok_cong[of S' S q] f t by (simp add: sched_ok_def sched_core_def)
  moreover have "cand_top S' q" using ok f t by (auto simp: sched_ok_def sched_core_def cand_top_def)
  ultimately show ?thesis using ok f t by (simp add: sched_ok_def sched_core_def active_set_def LW_THREAD_IS_READY_def)
qed

lemma sched_okI:
  assumes "sched_core S' q'" "active_set S' q' = A" "\<And>t. LW_THREAD_IS_READY t S' \<longleftrightarrow> t \<in> A"
  shows "sched_ok S' q'"
  using assms by (simp add: sched_ok_def)

lemma ready_same: "same_thr S S' \<Longrightarrow> LW_THREAD_IS_READY t S' \<longleftrightarrow> LW_THREAD_IS_READY t S"
  using same_thrD(2) by (simp add: LW_THREAD_IS_READY_def)

lemma set_status_core:
  assumes "sched_core S q"
  shows "sched_core (set_status t st S) q" "active_set (set_status t st S) q = active_set S q"
proof -
  have "tables_ok (set_status t st S) q"
    using assms tables_ok_cong[of "set_status t st S" S q] by (simp add: sched_core_def set_status_def prio_def)
  then show "sched_core (set_status t st S) q" "active_set (set_status t st S) q = active_set S q"
    using assms by (simp_all add: sched_core_def cand_top_def set_status_def prio_def active_set_def)
qed

lemma set_status_simps [simp]:
  "prio (set_status t st S) u = prio S u"
  "LW_THREAD_IS_READY u (set_status t st S) \<longleftrightarrow> (if u = t then st = LW_THREAD_STATUS_RDY else LW_THREAD_IS_READY u S)"
  by (simp_all add: set_status_def prio_def LW_THREAD_IS_READY_def)

lemma Wake_ok:
  assumes ok: "sched_ok S q" and t: "\<not> LW_THREAD_IS_READY t S"
  obtains S' q' where "ADD_TO_READY_RING t (GetPcb t S) (set_status t LW_THREAD_STATUS_RDY S) = Some S'" "sched_ok S' q'"
    "\<And>u. LW_THREAD_IS_READY u S' \<longleftrightarrow> u = t \<or> LW_THREAD_IS_READY u S"
proof -
  let ?S = "set_status t LW_THREAD_STATUS_RDY S"
  have core: "sched_core S q" and rdy: "\<And>u. LW_THREAD_IS_READY u S \<longleftrightarrow> u \<in> active_set S q" using ok by (simp_all add: sched_ok_def)
  note c = set_status_core[OF core, of t LW_THREAD_STATUS_RDY]
  have n: "t \<notin> active_set ?S q" "prio ?S t = GetPcb t S" using t rdy c(2) by (simp_all add: GetPcb_def prio_def[of S])
  obtain S' q' where a: "ADD_TO_READY_RING t (GetPcb t S) ?S = Some S'" "sched_core S' q'"
    "active_set S' q' = insert t (active_set ?S q)" "same_thr ?S S'"
    by (rule Add_core[OF c(1) n])
  have r: "LW_THREAD_IS_READY u S' \<longleftrightarrow> u = t \<or> LW_THREAD_IS_READY u S" for u using ready_same[OF a(4)] by simp
  have "sched_ok S' q'" by (rule sched_okI[OF a(2,3)]) (use r rdy c(2) in auto)
  then show thesis using that a(1) r by blast
qed

lemma Block_ok:
  assumes ok: "sched_ok S q" and t: "LW_THREAD_IS_READY t S" "LW_THREAD_IS_READY i S" "i \<noteq> t" and st: "st \<noteq> LW_THREAD_STATUS_RDY"
  obtains S1 q' where "DEL_FROM_READY_RING t (GetPcb t S) S = Some S1" "sched_ok (set_status t st S1) q'"
    "\<And>u. LW_THREAD_IS_READY u (set_status t st S1) \<longleftrightarrow> u \<noteq> t \<and> LW_THREAD_IS_READY u S"
proof -
  have core: "sched_core S q" and rdy: "\<And>u. LW_THREAD_IS_READY u S \<longleftrightarrow> u \<in> active_set S q" using ok by (simp_all add: sched_ok_def)
  have n: "t \<in> active_set S q" "prio S t = GetPcb t S" using t rdy by (simp_all add: GetPcb_def prio_def)
  have idle: "CAND_ptcbCand S = Some t \<Longrightarrow> queued q \<noteq> {}" using t(2,3) rdy[of i] by (auto simp: active_set_def)
  obtain S1 q' where d: "DEL_FROM_READY_RING t (GetPcb t S) S = Some S1" "sched_core S1 q'" "active_set S1 q' = active_set S q - {t}"
    "same_thr S S1" by (rule Del_core[OF core n idle])
  note c = set_status_core[OF d(2), of t st]
  have r: "LW_THREAD_IS_READY u (set_status t st S1) \<longleftrightarrow> u \<noteq> t \<and> LW_THREAD_IS_READY u S" for u
    using ready_same[OF d(4)] st by simp
  have "sched_ok (set_status t st S1) q'" by (rule sched_okI[OF c(1) c(2)[unfolded d(3)]]) (use r rdy in auto)
  then show thesis using that d(1) r by blast
qed

lemma prio_core:
  assumes core: "sched_core S q" and t: "t \<notin> queued q" "CAND_ptcbCand S = Some t \<Longrightarrow> CAND_bNeedRotate S"
  shows "sched_core (tcb_upd t (\<lambda>T. T\<lparr>TCB_ucPriority := p\<rparr>) S) q" (is "sched_core ?S q")
proof -
  have n: "v \<noteq> t" if "v \<in> queued q" for v using t(1) that by blast
  have "tables_ok ?S q" using core n tables_ok_cong[of ?S S q] by (simp add: sched_core_def prio_def)
  moreover have "cand_top ?S q" using core t(2) n by (auto simp: sched_core_def cand_top_def prio_def)
  ultimately show ?thesis using core by (simp add: sched_core_def)
qed

lemma SetPrio_ok:
  assumes ok: "sched_ok S q"
  obtains S' q' where "SchedSetPrio t p S = Some S'" "sched_ok S' q'" "prio S' t = p" "\<And>u. u \<noteq> t \<Longrightarrow> prio S' u = prio S u"
    "\<And>u. LW_THREAD_IS_READY u S' \<longleftrightarrow> LW_THREAD_IS_READY u S"
proof -
  have core: "sched_core S q" and rdy: "\<And>u. LW_THREAD_IS_READY u S \<longleftrightarrow> u \<in> active_set S q" using ok by (simp_all add: sched_ok_def)
  note c = coreD[OF core]
  let ?f = "\<lambda>T :: tcb. T\<lparr>TCB_ucPriority := p\<rparr>"
  have r: "LW_THREAD_IS_READY u (tcb_upd t ?f S) \<longleftrightarrow> LW_THREAD_IS_READY u S" for u S by (simp add: LW_THREAD_IS_READY_def)
  have pr: "prio (tcb_upd t ?f S) u = (if u = t then p else prio S u)" for u S by (simp add: prio_def)
  consider (idle) "\<not> LW_THREAD_IS_READY t S" | (cand) "CAND_ptcbCand S = Some t" | (wait) "t \<in> queued q" "CAND_ptcbCand S \<noteq> Some t"
    using rdy[of t] by (auto simp: active_set_def)
  then show thesis
  proof cases
    case idle
    then have n: "t \<notin> queued q" "CAND_ptcbCand S \<noteq> Some t" using rdy[of t] by (auto simp: active_set_def)
    have core': "sched_core (tcb_upd t ?f S) q" by (rule prio_core[OF core n(1)]) (use n(2) in blast)
    have "sched_ok (tcb_upd t ?f S) q"
      by (rule sched_okI[OF core' refl]) (simp add: r rdy active_set_def)
    then show thesis using that[of "tcb_upd t ?f S" q] idle r pr by (simp add: SchedSetPrio_def Let_def)
  next
    case cand
    let ?S = "S\<lparr>CAND_bNeedRotate := True\<rparr>"
    have ok1: "sched_ok ?S q" by (rule sched_ok_cong[OF ok]) (simp_all add: prio_def)
    then have core1: "sched_core ?S q" by (simp add: sched_ok_def)
    have core': "sched_core (tcb_upd t ?f ?S) q" by (rule prio_core[OF core1 c(6)[OF cand]]) simp
    have rS: "LW_THREAD_IS_READY u ?S \<longleftrightarrow> LW_THREAD_IS_READY u S" "prio ?S u = prio S u" for u by (simp_all add: LW_THREAD_IS_READY_def prio_def)
    have ok': "sched_ok (tcb_upd t ?f ?S) q"
      by (rule sched_okI[OF core' refl]) (simp add: r rS rdy active_set_def)
    have "SchedSetPrio t p S = Some (tcb_upd t ?f ?S)"
      using cand rdy[of t] c(3)[of t] by (simp add: SchedSetPrio_def Let_def active_set_def)
    then show thesis using that[of "tcb_upd t ?f ?S" q] ok' r rS pr by simp
  next
    case wait
    have n: "t \<in> active_set S q" "prio S t = GetPcb t S" using wait by (simp_all add: GetPcb_def prio_def active_set_def)
    have nc: "CAND_ptcbCand S = Some t \<Longrightarrow> queued q \<noteq> {}" using wait by blast
    obtain S1 q1 where d: "DEL_FROM_READY_RING t (GetPcb t S) S = Some S1" "sched_core S1 q1" "active_set S1 q1 = active_set S q - {t}"
      "same_thr S S1" by (rule Del_core[OF core n nc])
    let ?S2 = "tcb_upd t ?f S1"
    have n1: "t \<notin> queued q1" "CAND_ptcbCand S1 \<noteq> Some t" using d(3) by (auto simp: active_set_def)
    have core2: "sched_core ?S2 q1" by (rule prio_core[OF d(2) n1(1)]) (use n1(2) in blast)
    have as2: "active_set ?S2 q1 = active_set S q - {t}" using d(3) by (simp add: active_set_def)
    then have n2: "t \<notin> active_set ?S2 q1" "prio ?S2 t = p" by (simp_all add: prio_def)
    obtain S' q' where a: "ADD_TO_READY_RING t p ?S2 = Some S'" "sched_core S' q'" "active_set S' q' = insert t (active_set ?S2 q1)"
      "same_thr ?S2 S'" by (rule Add_core[OF core2 n2])
    have run: "SchedSetPrio t p S = Some S'"
      using wait rdy[of t] c(3)[of t] d(1) a(1) by (simp add: SchedSetPrio_def Let_def active_set_def)
    have rr: "LW_THREAD_IS_READY u S' \<longleftrightarrow> LW_THREAD_IS_READY u S" for u
      using ready_same[OF a(4)] ready_same[OF d(4)] r by simp
    have "sched_ok S' q'" by (rule sched_okI[OF a(2,3)]) (use rr rdy as2 n(1) in auto)
    moreover have "prio S' u = (if u = t then p else prio S u)" for u using same_thrD(1)[OF a(4)] same_thrD(1)[OF d(4)] pr by simp
    ultimately show thesis using that[OF run] rr by simp
  qed
qed

text \<open>Choosing the thread to run.\<close>

lemma GetCand_ok:
  assumes ok: "sched_ok S q" and act: "CPU_active S" and pre: "can_preemptive k S"
  obtains c S' q' where "SchedGetCand k S = Some (Some c, S')" "sched_ok S' q'" "CPU_active S'" "CAND_ptcbCand S' = Some c"
    "LW_THREAD_IS_READY c S" "CAND_bNeedRotate S \<or> S' = S" "same_thr S S'" "\<And>t. LW_THREAD_IS_READY t S \<Longrightarrow> prio S c \<le> prio S t"
proof -
  have core: "sched_core S q" and rdy: "\<And>u. LW_THREAD_IS_READY u S \<longleftrightarrow> u \<in> active_set S q" using ok by (simp_all add: sched_ok_def)
  have top: "LW_THREAD_IS_READY c T \<and> (\<forall>t. LW_THREAD_IS_READY t T \<longrightarrow> prio T c \<le> prio T t)"
    if "sched_ok T q'" "CAND_ptcbCand T = Some c" "\<not> CAND_bNeedRotate T" for T c q'
    using that by (auto simp: sched_ok_def sched_core_def cand_top_def active_set_def)
  show thesis
  proof (cases "CAND_bNeedRotate S")
    case False
    obtain c where c: "CAND_ptcbCand S = Some c" using core act by (auto simp: sched_core_def)
    then have "SchedGetCand k S = Some (Some c, S)" using pre False by (simp add: SchedGetCand_def)
    then show thesis using that[of c S q] ok act c top[OF ok c False] by (simp add: same_thr_refl)
  next
    case True
    obtain S' q' where u: "CandTableUpdate S = Some S'" "sched_core S' q'" "active_set S' q' = active_set S q" "same_thr S S'"
      "\<not> CAND_bNeedRotate S'" "CPU_active S'" by (rule Update_core[OF core act])
    have ok': "sched_ok S' q'" by (rule sched_okI[OF u(2,3)]) (use ready_same[OF u(4)] rdy in simp)
    obtain c where c: "CAND_ptcbCand S' = Some c" using u(2,6) by (auto simp: sched_core_def)
    have "SchedGetCand k S = Some (Some c, S')" using pre True u(1) c by (simp add: SchedGetCand_def)
    then show thesis
      using that[of c S' q'] ok' u(4,6) c True top[OF ok' c u(5)] ready_same[OF u(4)] same_thrD(1)[OF u(4)] by simp
  qed
qed

lemma CpuActive_ok:
  assumes ok: "sched_ok S q" and i: "LW_THREAD_IS_READY i S"
  obtains r S' q' where "CpuActive S = Some (r, S')" "sched_ok S' q'" "CPU_active S'"
proof (cases "CPU_active S")
  case True
  then show thesis using that[of "-1" S q] ok by (simp add: CpuActive_def)
next
  case False
  have core: "sched_core S q" and rdy: "\<And>u. LW_THREAD_IS_READY u S \<longleftrightarrow> u \<in> active_set S q" using ok by (simp_all add: sched_ok_def)
  have none: "CAND_ptcbCand S = None" using core False by (simp add: sched_core_def)
  then have n: "\<forall>t. \<not> TCB_bIsCand (sc_tcb S t)" "queued q \<noteq> {}" using core rdy[of i] i by (auto simp: sched_core_def active_set_def)
  let ?S = "S\<lparr>CPU_active := True\<rparr>"
  have tab: "tables_ok ?S q" using core tables_ok_cong[of ?S S q] by (simp add: sched_core_def prio_def)
  obtain S1 q1 where f: "CandTableFill ?S = Some S1" "\<And>r. sched_core (S1\<lparr>CAND_bNeedRotate := r\<rparr>) q1" "active_set S1 q1 = queued q"
    "same_thr ?S S1" "same_cpu ?S S1"
    using Fill_core[OF tab _ _ n(2)] n(1) by auto
  let ?S1 = "S1\<lparr>CAND_bNeedRotate := False\<rparr>"
  have act: "CPU_active ?S1" using f(5) by (simp add: same_cpu_def)
  obtain c where c: "CAND_ptcbCand ?S1 = Some c" using f(2)[of False] act by (auto simp: sched_core_def)
  let ?S' = "?S1\<lparr>CPU_ptcbTCBCur := c\<rparr>"
  have up: "CandTableUpdate ?S = Some ?S1" using none f(1) by (simp add: CandTableUpdate_def)
  then have run: "CpuActive S = Some (0, ?S')" using False c by (simp add: CpuActive_def)
  have "LW_THREAD_IS_READY u ?S1 \<longleftrightarrow> u \<in> queued q" for u
    using ready_same[OF f(4), of u] rdy[of u] none by (simp add: LW_THREAD_IS_READY_def active_set_def)
  then have "sched_ok ?S1 q1" using f(2)[of False] f(3) by (simp add: sched_ok_def active_set_def)
  then have "sched_ok ?S' q1" by (rule sched_ok_cong) (simp_all add: prio_def)
  then show thesis using that[OF run] act by simp
qed

lemma reach_ok: "sched_reach S \<Longrightarrow> \<exists>q. sched_ok S q"
proof (induction rule: sched_reach.induct)
  case (boot S)
  have "tables_ok S (\<lambda>_. [])" using boot by (simp add: tables_ok_def rings_ok_def queued_def)
  then have "sched_ok S (\<lambda>_. [])"
    using boot by (simp add: sched_ok_def sched_core_def cand_top_def active_set_def queued_def)
  then show ?case by blast
next
  case (start S i r S')
  then obtain q where "sched_ok S q" by blast
  then show ?case using CpuActive_ok[of S q i] start.hyps(2,3) by (metis option.inject prod.inject)
next
  case (wake S t S')
  then obtain q where "sched_ok S q" by blast
  then show ?case using Wake_ok[of S q t] wake.hyps(2,3) by (metis option.inject)
next
  case (block S t i st S1)
  then obtain q where q: "sched_ok S q" by blast
  show ?case using Block_ok[OF q block.hyps(2-5)] block.hyps(6) by (metis option.inject)
next
  case (set_prio S t p S')
  then obtain q where "sched_ok S q" by blast
  then show ?case using SetPrio_ok[of S q t p] set_prio.hyps(2) by (metis option.inject)
next
  case (tick S)
  then obtain q where q: "sched_ok S q" by blast
  have "sched_ok (SchedTick S) q" by (rule sched_ok_cong[OF q]) (simp_all add: SchedTick_def Let_def prio_def)
  then show ?case by blast
next
  case (yield S t)
  then obtain q where q: "sched_ok S q" by blast
  have "sched_ok (SchedYield t S) q" by (rule sched_ok_cong[OF q]) (simp_all add: SchedYield_def prio_def)
  then show ?case by blast
next
  case (dispatch S S')
  then obtain q where q: "sched_ok S q" by blast
  show ?case
  proof (cases "can_preemptive 1 S")
    case True
    obtain c T q' where g: "SchedGetCand 1 S = Some (Some c, T)" "sched_ok T q'"
      by (rule GetCand_ok[OF q dispatch.hyps(2) True]) blast
    then have "S' = T\<lparr>CPU_ptcbTCBCur := c\<rparr>" using dispatch.hyps(3) by (simp add: Schedule_def)
    then have "sched_ok S' q'" using sched_ok_cong[OF g(2), of S'] by (simp add: prio_def)
    then show ?thesis by blast
  next
    case False
    then have "S' = S" using dispatch.hyps(3) by (simp add: Schedule_def SchedGetCand_def)
    then show ?thesis using q by blast
  qed
next
  case (kernel S k n)
  then obtain q where q: "sched_ok S q" by blast
  have "sched_ok (S\<lparr>CPU_ulInterNesting := n, CPU_iKernelCounter := k\<rparr>) q" by (rule sched_ok_cong[OF q]) (simp_all add: prio_def)
  then show ?case by blast
next
  case (lock S t n)
  then obtain q where q: "sched_ok S q" by blast
  have "sched_ok (tcb_upd t (\<lambda>T. T\<lparr>TCB_ulThreadLockCounter := n\<rparr>) S) q" by (rule sched_ok_cong[OF q]) (simp_all add: prio_def)
  then show ?case by blast
qed

end
