(* ===== verification/SchedProps.thy ===== *)
theory SchedProps
  imports SchedSpec
begin

text \<open>
  The properties of the scheduler in all the states it can reach, and a small system in which they are
  applied: an idle thread and two threads of the same priority.
\<close>

section \<open>A concrete system\<close>

definition demo_tcb :: "u8 \<Rightarrow> tcb" where
  "demo_tcb p = \<lparr>TCB_bIsCand = False, TCB_usStatus = 1, TCB_ucSchedPolicy = LW_OPTION_SCHED_RR, TCB_ucSchedActivate = 1,
     TCB_ucSchedActivateMode = LW_OPTION_RESPOND_STANDARD, TCB_usSchedSlice = 5, TCB_usSchedCounter = 5,
     TCB_ucPriority = p, TCB_ulThreadLockCounter = 0\<rparr>"

definition demo_boot :: sched where
  "demo_boot = \<lparr>sc_tcb = (\<lambda>t. if t = 1 then demo_tcb 255 else demo_tcb 100),
     sc_ring = \<lparr>LINE_plistNext = (\<lambda>_. None), LINE_plistPrev = (\<lambda>_. None)\<rparr>, PCBM_bmap = BitmapInit,
     PCB_pringReadyHeader = (\<lambda>_. None), CAND_ptcbCand = None, CAND_bNeedRotate = False, CPU_active = False,
     CPU_ptcbTCBCur = 0, CPU_ulInterNesting = 0, CPU_iKernelCounter = 0\<rparr>"

definition demo_idle :: sched where
  "demo_idle = the (ADD_TO_READY_RING 1 255 (set_status 1 LW_THREAD_STATUS_RDY demo_boot))"

definition demo_run :: sched where
  "demo_run = snd (the (CpuActive demo_idle))"

definition demo_two :: sched where
  "demo_two = the (ADD_TO_READY_RING 2 100 (set_status 2 LW_THREAD_STATUS_RDY demo_run))"

definition demo_three :: sched where
  "demo_three = the (ADD_TO_READY_RING 3 100 (set_status 3 LW_THREAD_STATUS_RDY demo_two))"

definition demo_sched :: sched where
  "demo_sched = the (Schedule demo_three)"

lemmas sched_eval = demo_boot_def demo_tcb_def set_status_def tcb_upd_def ADD_TO_READY_RING_def CandTableTryAdd_def
  AddTCBToReadyRing_def ring_op_def List_Ring_Add_Ahead_def List_Ring_Add_Last_def List_Ring_Del_def set_next_def set_prev_def
  INIT_LIST_RING_HEAD_def list_ring_next_def ReadyTableAdd_def ReadyTableDel_def PcbIsEmpty_def PcbIsOne_def GetPcb_def
  CpuActive_def CandTableUpdate_def CandTableFill_def CandTableSeek_def CandTableResel_def CandTableNext_def CandTableEmpty_def
  DelTCBFromReadyRing_def Schedule_def SchedGetCand_def can_preemptive_def LW_THREAD_IS_READY_def
  LW_THREAD_STATUS_RDY_def LW_OPTION_SCHED_RR_def LW_OPTION_SCHED_FIFO_def LW_OPTION_RESPOND_STANDARD_def
  LW_OPTION_RESPOND_IMMIEDIA_def Let_def

lemma bmap_idle: "BitmapAdd BitmapInit 255 = \<lparr>BMAP_uiMap = 128, BMAP_uiSubMap = [0, 0, 0, 0, 0, 0, 0, 2147483648]\<rparr>"
  by code_simp

lemma bmap_eval:
  "BitmapHigh \<lparr>BMAP_uiMap = 128, BMAP_uiSubMap = [0, 0, 0, 0, 0, 0, 0, 2147483648]\<rparr> = 255"
  "BitmapDel \<lparr>BMAP_uiMap = 128, BMAP_uiSubMap = [0, 0, 0, 0, 0, 0, 0, 2147483648]\<rparr> 255 = BitmapInit"
  "BitmapIsEmpty BitmapInit"
  "\<not> BitmapIsEmpty \<lparr>BMAP_uiMap = 128, BMAP_uiSubMap = [0, 0, 0, 0, 0, 0, 0, 2147483648]\<rparr>"
  by code_simp+

lemma demo_steps:
  "ADD_TO_READY_RING 1 (GetPcb 1 demo_boot) (set_status 1 LW_THREAD_STATUS_RDY demo_boot) = Some demo_idle"
  "CpuActive demo_idle = Some (0, demo_run)"
  "ADD_TO_READY_RING 2 (GetPcb 2 demo_run) (set_status 2 LW_THREAD_STATUS_RDY demo_run) = Some demo_two"
  "ADD_TO_READY_RING 3 (GetPcb 3 demo_two) (set_status 3 LW_THREAD_STATUS_RDY demo_two) = Some demo_three"
  "Schedule demo_three = Some demo_sched"
  unfolding demo_sched_def demo_three_def demo_two_def demo_run_def demo_idle_def by (simp_all add: sched_eval bmap_idle bmap_eval)

lemma demo_ready:
  "\<not> LW_THREAD_IS_READY 1 demo_boot" "LW_THREAD_IS_READY 1 demo_idle" "\<not> LW_THREAD_IS_READY 2 demo_run"
  "\<not> LW_THREAD_IS_READY 3 demo_two" "CPU_active demo_three"
  unfolding demo_sched_def demo_three_def demo_two_def demo_run_def demo_idle_def by (simp_all add: sched_eval bmap_idle bmap_eval)

lemma demo_reach: "sched_reach demo_sched" "sched_reach demo_three" "sched_reach demo_run"
proof -
  have "sched_reach demo_boot" by (rule sched_reach.boot) (simp_all add: sched_eval)
  from sched_reach.wake[OF this demo_ready(1) demo_steps(1)] have "sched_reach demo_idle" .
  from sched_reach.start[OF this demo_ready(2) demo_steps(2)] show run: "sched_reach demo_run" .
  from sched_reach.wake[OF run demo_ready(3) demo_steps(3)] have "sched_reach demo_two" .
  from sched_reach.wake[OF this demo_ready(4) demo_steps(4)] show three: "sched_reach demo_three" .
  from sched_reach.dispatch[OF three demo_ready(5) demo_steps(5)] show "sched_reach demo_sched" .
qed

lemma demo_facts:
  "CPU_active demo_sched" "\<not> CAND_bNeedRotate demo_sched" "CAND_ptcbCand demo_sched = Some 2" "CPU_ptcbTCBCur demo_sched = 2"
  "can_preemptive 1 demo_sched" "LW_THREAD_IS_READY 2 demo_sched" "prio demo_sched 2 = 100"
  "ring (sc_ring demo_sched) (PCB_pringReadyHeader demo_sched 100) [3]"
  unfolding demo_sched_def demo_three_def demo_two_def demo_run_def demo_idle_def
  by (simp_all add: sched_eval bmap_idle bmap_eval prio_def ring_single)

section \<open>Properties\<close>

text \<open>
  C11: When no rotation is pending, the candidate is a ready thread and no ready thread is more urgent; the
  ready threads are exactly the candidate and those in the rings, each in the ring of its priority, and a
  bit of the bitmap is set for exactly the rings that are not empty.
\<close>

theorem scheduler_invariant:
  assumes "sched_reach S"
  shows "\<exists>q. (\<forall>p. ring (sc_ring S) (PCB_pringReadyHeader S p) (q p) \<and> (\<forall>t \<in> set (q p). TCB_ucPriority (sc_tcb S t) = p)) \<and>
     bmap_prios (PCBM_bmap S) = {p. q p \<noteq> []} \<and>
     (\<forall>t. LW_THREAD_IS_READY t S \<longleftrightarrow> CAND_ptcbCand S = Some t \<or> (\<exists>p. t \<in> set (q p))) \<and>
     (\<forall>c p. CAND_ptcbCand S = Some c \<longrightarrow> c \<notin> set (q p)) \<and>
     (CPU_active S \<longrightarrow> \<not> CAND_bNeedRotate S \<longrightarrow>
        (\<exists>c. CAND_ptcbCand S = Some c \<and> LW_THREAD_IS_READY c S \<and> (\<forall>t. LW_THREAD_IS_READY t S \<longrightarrow> prio S c \<le> prio S t)))"
proof -
  obtain q where q: "sched_ok S q" using reach_ok[OF assms] by blast
  then have core: "sched_core S q" and rdy: "\<And>t. LW_THREAD_IS_READY t S \<longleftrightarrow> t \<in> active_set S q" by (simp_all add: sched_ok_def)
  note c = coreD[OF core]
  have "\<exists>c. CAND_ptcbCand S = Some c \<and> LW_THREAD_IS_READY c S \<and> (\<forall>t. LW_THREAD_IS_READY t S \<longrightarrow> prio S c \<le> prio S t)"
    if "CPU_active S" "\<not> CAND_bNeedRotate S"
    using that c(4,5) rdy by (auto simp: cand_top_def active_set_def)
  moreover have "LW_THREAD_IS_READY t S \<longleftrightarrow> CAND_ptcbCand S = Some t \<or> (\<exists>p. t \<in> set (q p))" for t
    using rdy[of t] by (auto simp: active_set_def queued_def)
  ultimately show ?thesis
    using c(1,2,6) by (intro exI[of _ q]) (auto simp: tables_ok_def rings_ok_def prio_def queued_def)
qed

theorem scheduler_invariant_witness:
  "\<exists>c. CAND_ptcbCand demo_sched = Some c \<and> (\<forall>t. LW_THREAD_IS_READY t demo_sched \<longrightarrow> prio demo_sched c \<le> prio demo_sched t)"
  using scheduler_invariant[OF demo_reach(1)] demo_facts(1,2) by blast

text \<open>
  C14: Whenever the running thread can be preempted, the scheduler chooses a ready thread of the most urgent
  priority, also when a rotation is pending, and only a pending rotation changes its tables.
\<close>

theorem most_urgent_runs:
  assumes "sched_reach S" and "CPU_active S" and "can_preemptive k S"
  shows "\<exists>c S'. SchedGetCand k S = Some (Some c, S') \<and> LW_THREAD_IS_READY c S \<and>
    (\<forall>t. LW_THREAD_IS_READY t S \<longrightarrow> prio S c \<le> prio S t) \<and> (CAND_bNeedRotate S \<or> S' = S)"
proof -
  obtain q where q: "sched_ok S q" using reach_ok[OF assms(1)] by blast
  show ?thesis by (rule GetCand_ok[OF q assms(2,3)]) blast
qed

theorem most_urgent_runs_witness: "\<exists>c S'. SchedGetCand 1 demo_sched = Some (Some c, S') \<and> prio demo_sched c \<le> 100"
  using most_urgent_runs[OF demo_reach(1) demo_facts(1,5)] demo_facts(6,7) by metis

text \<open>
  C23: A thread that yields is put behind the threads of its priority that are ready, gets new time, and the
  first of them runs next.
\<close>

theorem yield_gives_way:
  assumes "sched_reach S" and "CPU_active S" and "\<not> CAND_bNeedRotate S" and "can_preemptive 1 S"
    and "CAND_ptcbCand S = Some c" and "CPU_ptcbTCBCur S = c"
    and "ring (sc_ring S) (PCB_pringReadyHeader S (prio S c)) (d # ds)"
  shows "\<exists>S'. Schedule (SchedYield c S) = Some S' \<and> CPU_ptcbTCBCur S' = d \<and> CAND_ptcbCand S' = Some d \<and>
    ring (sc_ring S') (PCB_pringReadyHeader S' (prio S c)) (ds @ [c]) \<and>
    TCB_usSchedCounter (sc_tcb S' c) = TCB_usSchedSlice (sc_tcb S c)"
proof -
  obtain q where q: "sched_ok S q" using reach_ok[OF assms(1)] by blast
  let ?Y = "SchedYield c S" and ?p = "prio S c"
  have Y: "sc_tcb ?Y = (sc_tcb S)(c := (sc_tcb S c)\<lparr>TCB_usSchedCounter := 0\<rparr>)" "CAND_bNeedRotate ?Y" "CAND_ptcbCand ?Y = Some c"
    "CPU_active ?Y" "PCBM_bmap ?Y = PCBM_bmap S" "prio ?Y t = prio S t" for t
    using assms(2,5,6) by (simp_all add: SchedYield_def prio_def)
  have pre: "can_preemptive 1 ?Y" using assms(4,6) by (auto simp: can_preemptive_def SchedYield_def LW_THREAD_IS_READY_def)
  have "sched_ok ?Y q" by (rule sched_ok_cong[OF q]) (simp_all add: SchedYield_def prio_def)
  then have core: "sched_core ?Y q" by (simp add: sched_ok_def)
  note cY = coreD[OF core]
  have r: "rings_ok S q" using q by (simp add: sched_ok_def sched_core_def tables_ok_def)
  have qp: "q ?p = d # ds"
  proof -
    have "ring (sc_ring S) (PCB_pringReadyHeader S ?p) (q ?p)" using r by (simp add: rings_ok_def)
    then show ?thesis using assms(7) ring_unique by blast
  qed
  obtain p where p: "CandTableSeek ?Y = Some p" using Seek_None[OF cY(1)] qp by (force simp: queued_def)
  have "q p \<noteq> []" by (rule Seek_Some(1)[OF cY(1) p])
  then obtain v where v: "v \<in> set (q p)" by (cases "q p") auto
  then have "v \<in> queued q" "prio S v = p" using r by (auto simp: rings_ok_def queued_def)
  moreover have "cand_top S q" using q by (simp add: sched_ok_def sched_core_def)
  ultimately have "?p \<le> p" using assms(3,5) unfolding cand_top_def by blast
  moreover have "p \<le> ?p" using Seek_Some(2)[OF cY(1) p, of ?p] qp by simp
  ultimately have pe: "p = ?p" by simp
  obtain S1 S2 q1 u us t ts where m: "CandTableEmpty ?Y = Some S1" "CandTableResel p S1 = Some S2"
    "q1 = q(?p := c # q ?p)" "q1 p = t # ts" "pick (mark_cand False c (sc_tcb ?Y)) (q1 p) = (u, us)"
    "CAND_ptcbCand S2 = Some u" "tables_ok S2 (q1(p := us))"
    "sc_tcb S2 = mark_cand True u (refill t (mark_cand False c (sc_tcb ?Y)))" "same_cpu ?Y S2"
    by (rule Rotate_ok[OF core Y(3) Y(6) p]) (use pe in simp)
  have "q1 p = c # d # ds" using m(3) qp pe by simp
  then have u: "t = c" "u = d" "us = ds @ [c]" using m(4,5) Y(1) by (auto simp: mark_cand_def)
  have "CandTableUpdate ?Y = Some (S2\<lparr>CAND_bNeedRotate := False\<rparr>)"
    using Y(1,3,4) p pe m(1,2) by (simp add: CandTableUpdate_def prio_def)
  then have run: "Schedule ?Y = Some (S2\<lparr>CAND_bNeedRotate := False, CPU_ptcbTCBCur := d\<rparr>)"
    using pre Y(2) m(6) u(2) by (simp add: Schedule_def SchedGetCand_def)
  have "ring (sc_ring S2) (PCB_pringReadyHeader S2 ?p) (ds @ [c])"
    using m(7) u(3) pe by (auto simp: tables_ok_def rings_ok_def split: if_splits)
  moreover have "TCB_usSchedCounter (sc_tcb S2 c) = TCB_usSchedSlice (sc_tcb S c)"
    using m(8) u(1) Y(1) by (simp add: mark_cand_def refill_def)
  ultimately show ?thesis using run m(6) u(2) by simp
qed

theorem yield_gives_way_witness:
  "\<exists>S'. Schedule (SchedYield 2 demo_sched) = Some S' \<and> CPU_ptcbTCBCur S' = 3"
  using yield_gives_way[OF demo_reach(1) demo_facts(1,2,5,3,4), of 3 "[]"] demo_facts(7,8) by auto

text \<open>
  C24: Waking, blocking and changing the priority of a thread never follow a null pointer, and they change
  the set of the ready threads and the priorities in the way they say, and no other thread's.
\<close>

theorem thread_operations:
  assumes "sched_reach S" and "LW_THREAD_IS_READY i S"
  shows "(\<not> LW_THREAD_IS_READY t S \<longrightarrow>
      (\<exists>S'. ADD_TO_READY_RING t (GetPcb t S) (set_status t LW_THREAD_STATUS_RDY S) = Some S' \<and>
         (\<forall>u. LW_THREAD_IS_READY u S' \<longleftrightarrow> u = t \<or> LW_THREAD_IS_READY u S))) \<and>
    (LW_THREAD_IS_READY t S \<longrightarrow> t \<noteq> i \<longrightarrow>
      (\<exists>S'. DEL_FROM_READY_RING t (GetPcb t S) S = Some S' \<and>
         (\<forall>u. LW_THREAD_IS_READY u (set_status t 1 S') \<longleftrightarrow> u \<noteq> t \<and> LW_THREAD_IS_READY u S))) \<and>
    (\<exists>S'. SchedSetPrio t p S = Some S' \<and> prio S' t = p \<and>
       (\<forall>u. LW_THREAD_IS_READY u S' = LW_THREAD_IS_READY u S \<and> (u \<noteq> t \<longrightarrow> prio S' u = prio S u)))"
proof (intro conjI impI)
  obtain q where q: "sched_ok S q" using reach_ok[OF assms(1)] by blast
  show "\<exists>S'. ADD_TO_READY_RING t (GetPcb t S) (set_status t LW_THREAD_STATUS_RDY S) = Some S' \<and>
      (\<forall>u. LW_THREAD_IS_READY u S' \<longleftrightarrow> u = t \<or> LW_THREAD_IS_READY u S)" if "\<not> LW_THREAD_IS_READY t S"
    by (rule Wake_ok[OF q that]) blast
  show "\<exists>S'. DEL_FROM_READY_RING t (GetPcb t S) S = Some S' \<and>
      (\<forall>u. LW_THREAD_IS_READY u (set_status t 1 S') \<longleftrightarrow> u \<noteq> t \<and> LW_THREAD_IS_READY u S)"
    if a: "LW_THREAD_IS_READY t S" "t \<noteq> i"
  proof -
    have one: "(1 :: nat) \<noteq> LW_THREAD_STATUS_RDY" by (simp add: LW_THREAD_STATUS_RDY_def)
    show ?thesis by (rule Block_ok[OF q a(1) assms(2) a(2)[symmetric] one]) blast
  qed
  show "\<exists>S'. SchedSetPrio t p S = Some S' \<and> prio S' t = p \<and>
      (\<forall>u. LW_THREAD_IS_READY u S' = LW_THREAD_IS_READY u S \<and> (u \<noteq> t \<longrightarrow> prio S' u = prio S u))"
  proof (rule SetPrio_ok[OF q])
    fix S' q'
    assume "SchedSetPrio t p S = Some S'" "prio S' t = p" "\<And>u. u \<noteq> t \<Longrightarrow> prio S' u = prio S u"
      "\<And>u. LW_THREAD_IS_READY u S' \<longleftrightarrow> LW_THREAD_IS_READY u S"
    then show ?thesis by (intro exI[of _ S']) simp
  qed
qed

theorem thread_operations_witness: "\<exists>S'. SchedSetPrio 3 50 demo_sched = Some S' \<and> prio S' 3 = 50"
  using thread_operations[OF demo_reach(1) demo_facts(6), of 3 50, THEN conjunct2, THEN conjunct2] by blast

end
