(* ===== verification/EventQueue.thy ===== *)
theory EventQueue
  imports Sched
begin

text \<open>
  The queues of threads that wait for an event, \<open>kernel/core/_EventQueue.c\<close> and
  \<open>kernel/inline/inlSearchEventQueue.h\<close>.  A queue in FIFO order is one ring; a queue in the order of the
  priorities has eight rings, for 32 priorities each (in the code the two share a union).  The priorities
  of the threads are an argument \<open>pr\<close>, as they belong to the threads.
\<close>

section \<open>Operations\<close>

definition EVENT_Q_SIZE :: nat where "EVENT_Q_SIZE = 8"
definition EVENT_Q_SHIFT :: nat where "EVENT_Q_SHIFT = 5"

record wait_queue =
  wq_ring :: ring_store
  WL_pringFifo :: "addr option"
  WL_pringPrio :: "addr option list"
  WQ_usNum :: u16

definition AddTCBToEventFifo :: "addr \<Rightarrow> wait_queue \<Rightarrow> wait_queue option" where
  "AddTCBToEventFifo ptcb W =
     Option.bind (List_Ring_Add_Ahead ptcb (wq_ring W, WL_pringFifo W)) (\<lambda>(R, h).
       Some (W\<lparr>wq_ring := R, WL_pringFifo := h, WQ_usNum := WQ_usNum W + 1\<rparr>))"

definition DelTCBFromEventFifo :: "addr \<Rightarrow> wait_queue \<Rightarrow> wait_queue option" where
  "DelTCBFromEventFifo ptcb W =
     Option.bind (List_Ring_Del ptcb (wq_ring W, WL_pringFifo W)) (\<lambda>(R, h).
       Some (W\<lparr>wq_ring := R, WL_pringFifo := h, WQ_usNum := WQ_usNum W - 1\<rparr>))"

text \<open>The ring of a priority, the loop over a ring, which stops at its header, and the insertion.\<close>

definition EVENT_INDEX_Q_PRIORITY :: "u8 \<Rightarrow> nat" where
  "EVENT_INDEX_Q_PRIORITY ucPriority = unat (drop_bit EVENT_Q_SHIFT ucPriority)"

partial_function (option) prio_seek ::
    "(addr \<Rightarrow> bool) \<Rightarrow> ring_store \<Rightarrow> addr option \<Rightarrow> addr option \<Rightarrow> addr option option" where
  "prio_seek P S header p =
     (if p = header then Some p
      else
        (case p of
           None \<Rightarrow> None
         | Some a \<Rightarrow> if P a then Some p else prio_seek P S header (LINE_plistNext S a)))"

declare prio_seek.simps [code]

definition AddTCBToEventPriority :: "(addr \<Rightarrow> u8) \<Rightarrow> addr \<Rightarrow> nat \<Rightarrow> wait_queue \<Rightarrow> wait_queue option" where
  "AddTCBToEventPriority pr ptcb i W =
     (let S = wq_ring W; header = WL_pringPrio W ! i;
          done = \<lambda>R h. Some (W\<lparr>wq_ring := R, WL_pringPrio := (WL_pringPrio W)[i := h], WQ_usNum := WQ_usNum W + 1\<rparr>) in
      case header of
        None \<Rightarrow> Option.bind (List_Ring_Add_Ahead ptcb (S, header)) (\<lambda>(R, h). done R h)
      | Some a \<Rightarrow>
          if pr ptcb < pr a then Option.bind (List_Ring_Add_Ahead ptcb (S, header)) (\<lambda>(R, h). done R h)
          else
            Option.bind (prio_seek (\<lambda>b. pr ptcb < pr b) S header (LINE_plistNext S a)) (\<lambda>p.
            Option.bind (List_Ring_Add_Last ptcb (S, p)) (\<lambda>(R, _). done R header)))"

definition DelTCBFromEventPriority :: "addr \<Rightarrow> nat \<Rightarrow> wait_queue \<Rightarrow> wait_queue option" where
  "DelTCBFromEventPriority ptcb i W =
     Option.bind (List_Ring_Del ptcb (wq_ring W, WL_pringPrio W ! i)) (\<lambda>(R, h).
       Some (W\<lparr>wq_ring := R, WL_pringPrio := (WL_pringPrio W)[i := h], WQ_usNum := WQ_usNum W - 1\<rparr>))"

text \<open>Which ring a thread is taken from: the first that is not empty; and which thread it is.\<close>

fun EVENT_DEL_Q_PRIORITY :: "addr option list \<Rightarrow> nat \<Rightarrow> nat" where
  "EVENT_DEL_Q_PRIORITY [] i = i"
| "EVENT_DEL_Q_PRIORITY (h # hs) i = (if h \<noteq> None then i else EVENT_DEL_Q_PRIORITY hs (i + 1))"

definition EventQGetTcbFifo :: "wait_queue \<Rightarrow> addr option" where
  "EventQGetTcbFifo W = (case WL_pringFifo W of None \<Rightarrow> None | Some a \<Rightarrow> LINE_plistPrev (wq_ring W) a)"

definition EventQGetTcbPriority :: "nat \<Rightarrow> wait_queue \<Rightarrow> addr option" where
  "EventQGetTcbPriority i W = (if i < length (WL_pringPrio W) then WL_pringPrio W ! i else None)"

text \<open>
  The part of \<open>_EventReadyFifoLowLevel\<close> and \<open>_EventReadyPriorityLowLevel\<close> (\<open>kernel/core/_EventHighLevel.c\<close>) that
  takes a thread out of the queue.
\<close>

definition EventReadyFifoLowLevel :: "wait_queue \<Rightarrow> (addr \<times> wait_queue) option" where
  "EventReadyFifoLowLevel W =
     (case EventQGetTcbFifo W of
        None \<Rightarrow> None
      | Some ptcb \<Rightarrow> Option.bind (DelTCBFromEventFifo ptcb W) (\<lambda>W. Some (ptcb, W)))"

definition EventReadyPriorityLowLevel :: "nat \<Rightarrow> wait_queue \<Rightarrow> (addr \<times> wait_queue) option" where
  "EventReadyPriorityLowLevel i W =
     (case EventQGetTcbPriority i W of
        None \<Rightarrow> None
      | Some ptcb \<Rightarrow> Option.bind (DelTCBFromEventPriority ptcb i W) (\<lambda>W. Some (ptcb, W)))"

text \<open>
  The priority of the owner of a mutex, \<open>_EventPrioTryBoost\<close> and \<open>_EventPrioTryResume\<close>: \<open>deleting\<close> is
  \<open>TCB_iDeleteProcStatus\<close> of the owner, \<open>inherit\<close> the option of the mutex.
\<close>

definition EventPrioTryBoost :: "bool \<Rightarrow> bool \<Rightarrow> u8 \<Rightarrow> addr \<Rightarrow> addr \<Rightarrow> sched \<Rightarrow> sched option" where
  "EventPrioTryBoost deleting inherit ucCeilingPriority ptcbOwner ptcbCur S =
     (let owner = TCB_ucPriority (sc_tcb S ptcbOwner); cur = TCB_ucPriority (sc_tcb S ptcbCur) in
      if deleting then Some S
      else if cur < owner then
        (if inherit then SchedSetPrio ptcbOwner cur S
         else if ucCeilingPriority < owner then SchedSetPrio ptcbOwner ucCeilingPriority S
         else Some S)
      else Some S)"

definition EventPrioTryResume :: "u8 \<Rightarrow> addr \<Rightarrow> sched \<Rightarrow> sched option" where
  "EventPrioTryResume ucPriorityOld ptcbCur S =
     (if TCB_ucPriority (sc_tcb S ptcbCur) \<noteq> ucPriorityOld then SchedSetPrio ptcbCur ucPriorityOld S else Some S)"

section \<open>Rings\<close>

lemma ring_rotate_to:
  "ring S h (xs @ ys) \<Longrightarrow> ys \<noteq> [] \<Longrightarrow> ring S (Some (hd ys)) (ys @ xs)"
proof (induction xs arbitrary: h ys)
  case Nil
  then show ?case by (cases ys) (auto dest: ring_hd)
next
  case (Cons x xs)
  then have "ring S h (x # (xs @ ys))" by simp
  from ring_rotate[OF this] have "ring S (LINE_plistNext S x) (xs @ (ys @ [x]))" by simp
  from Cons.IH[OF this] Cons.prems(2) show ?case by simp
qed

lemma Add_Last_inside:
  assumes r: "ring S h (xs @ y # ys)" and x: "xs \<noteq> []" and t: "t \<notin> set (xs @ y # ys)"
  shows "\<exists>S' p. List_Ring_Add_Last t (S, Some y) = Some (S', p) \<and> ring S' h (xs @ t # y # ys) \<and>
    same_links (- insert t (set (xs @ y # ys))) S S'"
proof -
  have "ring S (Some y) (y # ys @ xs)" using ring_rotate_to[of S h xs "y # ys"] r by simp
  from Ring_Add_Last_ring[OF this, of t] t obtain S' p where
    a: "List_Ring_Add_Last t (S, Some y) = Some (S', p)" "ring S' p ((y # ys) @ xs @ [t])"
      "same_links (- insert t (set (y # ys @ xs))) S S'" by auto
  have "h = Some (hd xs)" using r x by (cases xs) (auto dest: ring_hd)
  then have "ring S' h (xs @ t # y # ys)"
    using ring_rotate_to[of S' p "y # ys" "xs @ [t]"] a(2) x by simp
  moreover have "insert t (set (y # ys @ xs)) = insert t (set (xs @ y # ys))" by auto
  ultimately show ?thesis using a(1,3) by metis
qed

text \<open>The loop finds the first thread behind the header that satisfies \<open>P\<close>, or the header again.\<close>

lemma prio_seek_ring:
  assumes "ring S h (x # ys)"
  shows "prio_seek P S h (LINE_plistNext S x) = Some (case dropWhile (\<lambda>b. \<not> P b) ys of [] \<Rightarrow> h | y # _ \<Rightarrow> Some y)"
proof -
  have h: "h = Some x" "x \<notin> set ys" using assms by (auto simp: ring_def)
  have run: "prio_seek P S h p = Some (case dropWhile (\<lambda>b. \<not> P b) zs of [] \<Rightarrow> h | y # _ \<Rightarrow> Some y)"
    if "dseg S q p zs l h" "x \<notin> set zs" for q p zs l
    using that
  proof (induction zs arbitrary: q p)
    case Nil
    then show ?case by (subst prio_seek.simps) simp
  next
    case (Cons z zs)
    have "p = Some z" "p \<noteq> h" using Cons.prems h(1) by auto
    then show ?case using Cons by (subst prio_seek.simps) auto
  qed
  have "dseg S (Some x) (LINE_plistNext S x) ys (Some (last (x # ys))) h" using assms h(1) by (auto simp: ring_def)
  from run[OF this h(2)] show ?thesis .
qed

text \<open>Insertion behind all threads that are at least as urgent.\<close>

definition prio_insert :: "(addr \<Rightarrow> u8) \<Rightarrow> addr \<Rightarrow> addr list \<Rightarrow> addr list" where
  "prio_insert pr t xs = takeWhile (\<lambda>b. pr b \<le> pr t) xs @ t # dropWhile (\<lambda>b. pr b \<le> pr t) xs"

lemma set_prio_insert [simp]: "set (prio_insert pr t xs) = insert t (set xs)"
  unfolding prio_insert_def by (metis (no_types) Un_insert_right list.simps(15) set_append takeWhile_dropWhile_id)

lemma length_prio_insert [simp]: "length (prio_insert pr t xs) = Suc (length xs)"
  unfolding prio_insert_def by (metis add_Suc_right length_Cons length_append takeWhile_dropWhile_id)

end
