(* ===== verification/EventSpec.thy ===== *)
theory EventSpec
  imports EventQueue "HOL-Library.Multiset"
begin

text \<open>
  The two kinds of waiting queues as lists of threads in the order in which they are woken, the interface
  they share, and its two interpretations: threads leave a FIFO queue in the order of their arrival, and a
  priority queue in the order of their priorities, equal ones in the order of their arrival.
\<close>

section \<open>The FIFO queue\<close>

definition fifo_ok :: "wait_queue \<Rightarrow> addr list \<Rightarrow> bool" where
  "fifo_ok W xs \<longleftrightarrow> ring (wq_ring W) (WL_pringFifo W) (rev xs) \<and> WQ_usNum W = of_nat (length xs)"

lemma fifo_add:
  assumes "fifo_ok W xs" and "t \<notin> set xs"
  shows "\<exists>W'. AddTCBToEventFifo t W = Some W' \<and> fifo_ok W' (xs @ [t])"
proof -
  obtain R where "List_Ring_Add_Ahead t (wq_ring W, WL_pringFifo W) = Some (R, Some t)" "ring R (Some t) (t # rev xs)"
    using Ring_Add_Ahead_ring[of "wq_ring W" "WL_pringFifo W" "rev xs" t] assms by (auto simp: fifo_ok_def)
  then show ?thesis using assms(1) by (simp add: AddTCBToEventFifo_def fifo_ok_def)
qed

lemma fifo_del:
  assumes "fifo_ok W (xs @ t # ys)"
  shows "\<exists>W'. DelTCBFromEventFifo t W = Some W' \<and> fifo_ok W' (xs @ ys)"
proof -
  obtain R h where "List_Ring_Del t (wq_ring W, WL_pringFifo W) = Some (R, h)" "ring R h (rev ys @ rev xs)"
    using Ring_Del_ring[of "wq_ring W" "WL_pringFifo W" "rev ys" t "rev xs"] assms by (auto simp: fifo_ok_def)
  then show ?thesis using assms by (simp add: DelTCBFromEventFifo_def fifo_ok_def)
qed

lemma fifo_get:
  assumes "fifo_ok W xs"
  shows "EventQGetTcbFifo W = (case xs of [] \<Rightarrow> None | t # _ \<Rightarrow> Some t)"
proof (cases xs)
  case Nil
  then show ?thesis using assms by (simp add: fifo_ok_def EventQGetTcbFifo_def)
next
  case (Cons t us)
  have r: "ring (wq_ring W) (WL_pringFifo W) (rev us @ [t])" using assms Cons by (simp add: fifo_ok_def)
  then obtain z zs where z: "rev us @ [t] = z # zs" "WL_pringFifo W = Some z" by (cases "rev us @ [t]") (auto dest: ring_hd)
  have "LINE_plistPrev (wq_ring W) z = Some (last (z # zs))" using r unfolding z(1) by (simp add: ring_def split: if_splits)
  moreover have "last (z # zs) = t" by (simp flip: z(1))
  ultimately show ?thesis using z(2) Cons by (simp add: EventQGetTcbFifo_def)
qed

section \<open>The priority queue\<close>

definition prio_ok :: "(addr \<Rightarrow> u8) \<Rightarrow> wait_queue \<Rightarrow> addr list list \<Rightarrow> bool" where
  "prio_ok pr W rs \<longleftrightarrow> length rs = EVENT_Q_SIZE \<and> length (WL_pringPrio W) = EVENT_Q_SIZE \<and> distinct (concat rs) \<and>
     (\<forall>i < EVENT_Q_SIZE. ring (wq_ring W) (WL_pringPrio W ! i) (rs ! i) \<and> sorted (map pr (rs ! i)) \<and>
        (\<forall>t \<in> set (rs ! i). EVENT_INDEX_Q_PRIORITY (pr t) = i)) \<and>
     WQ_usNum W = of_nat (length (concat rs))"

lemma index_eq: "EVENT_INDEX_Q_PRIORITY p = prio_word p"
  using prio_index(1)[of p] by (simp add: EVENT_INDEX_Q_PRIORITY_def EVENT_Q_SHIFT_def)

lemma index_bound [simp]: "EVENT_INDEX_Q_PRIORITY p < EVENT_Q_SIZE"
  by (simp add: index_eq EVENT_Q_SIZE_def)

lemma index_less: "EVENT_INDEX_Q_PRIORITY p < EVENT_INDEX_Q_PRIORITY q \<Longrightarrow> p < q"
proof -
  assume l: "EVENT_INDEX_Q_PRIORITY p < EVENT_INDEX_Q_PRIORITY q"
  have "prio_bit p < 32" by (rule prio_bound)
  then have "unat p < unat q" using l prio_unat[of p] prio_unat[of q] unfolding index_eq by linarith
  then show "p < q" by (simp add: word_less_nat_alt)
qed

text \<open>One ring.\<close>

lemma ring_prio_insert:
  assumes r: "ring (wq_ring W) (WL_pringPrio W ! i) xs" and t: "t \<notin> set xs" and i: "i < length (WL_pringPrio W)"
  obtains R h where "AddTCBToEventPriority pr t i W =
      Some (W\<lparr>wq_ring := R, WL_pringPrio := (WL_pringPrio W)[i := h], WQ_usNum := WQ_usNum W + 1\<rparr>)"
    "ring R h (prio_insert pr t xs)" "same_links (- insert t (set xs)) (wq_ring W) R"
proof -
  let ?S = "wq_ring W" and ?h = "WL_pringPrio W ! i"
  obtain A where a: "List_Ring_Add_Ahead t (?S, ?h) = Some (A, Some t)" "ring A (Some t) (t # xs)"
    "same_links (- insert t (set xs)) ?S A" using Ring_Add_Ahead_ring[OF r t] by blast
  show thesis
  proof (cases xs)
    case Nil
    then show thesis using that[where R = A and h = "Some t"] a r by (simp add: AddTCBToEventPriority_def prio_insert_def)
  next
    case (Cons x ys)
    then have h: "?h = Some x" using r ring_hd by blast
    show thesis
    proof (cases "pr t < pr x")
      case True
      then have "prio_insert pr t xs = t # xs" using Cons by (simp add: prio_insert_def not_le[symmetric])
      then show thesis using that[where R = A and h = "Some t"] a h True by (simp add: AddTCBToEventPriority_def)
    next
      case False
      have seek: "prio_seek (\<lambda>b. pr t < pr b) ?S ?h (LINE_plistNext ?S x) =
          Some (case dropWhile (\<lambda>b. pr b \<le> pr t) ys of [] \<Rightarrow> ?h | y # _ \<Rightarrow> Some y)"
        using prio_seek_ring[of ?S ?h x ys "\<lambda>b. pr t < pr b"] r Cons by (simp add: not_less)
      let ?us = "x # takeWhile (\<lambda>b. pr b \<le> pr t) ys" and ?vs = "dropWhile (\<lambda>b. pr b \<le> pr t) ys"
      have "pr x \<le> pr t" using False by (simp add: not_less)
      then have ins: "prio_insert pr t xs = ?us @ t # ?vs" using Cons by (simp add: prio_insert_def)
      have xs: "xs = ?us @ ?vs" using Cons by simp
      have "\<exists>R p. List_Ring_Add_Last t (?S, case ?vs of [] \<Rightarrow> ?h | y # _ \<Rightarrow> Some y) = Some (R, p) \<and>
          ring R ?h (?us @ t # ?vs) \<and> same_links (- insert t (set xs)) ?S R"
      proof (cases ?vs)
        case Nil
        then have eq: "?us @ t # ?vs = xs @ [t]" using xs by simp
        obtain R where "List_Ring_Add_Last t (?S, ?h) = Some (R, ?h)" "ring R ?h (xs @ [t])" "same_links (- insert t (set xs)) ?S R"
          using Ring_Add_Last_ring[OF r t] Cons by auto
        then show ?thesis unfolding eq unfolding Nil by auto
      next
        case (Cons y vs)
        have "ring ?S ?h (?us @ y # vs)" "t \<notin> set (?us @ y # vs)" using r t xs Cons by simp_all
        from Add_Last_inside[OF this(1) _ this(2)] show ?thesis using Cons xs by simp
      qed
      then obtain R p where "List_Ring_Add_Last t (?S, case ?vs of [] \<Rightarrow> ?h | y # _ \<Rightarrow> Some y) = Some (R, p)"
        "ring R ?h (?us @ t # ?vs)" "same_links (- insert t (set xs)) ?S R" by blast
      then show thesis using that[where R = R and h = ?h] seek h False ins by (simp add: AddTCBToEventPriority_def)
    qed
  qed
qed

lemma mset_prio_insert: "mset (prio_insert pr t xs) = add_mset t (mset xs)"
proof -
  have "mset (takeWhile P xs) + mset (dropWhile P xs) = mset xs" for P by (metis mset_append takeWhile_dropWhile_id)
  then show ?thesis by (simp add: prio_insert_def)
qed

lemma prio_insert_low: "(\<And>x. x \<in> set xs \<Longrightarrow> pr x \<le> pr t) \<Longrightarrow> prio_insert pr t (xs @ ys) = xs @ prio_insert pr t ys"
  by (simp add: prio_insert_def)

lemma prio_insert_high: "(\<And>z. z \<in> set zs \<Longrightarrow> pr t < pr z) \<Longrightarrow> prio_insert pr t (ys @ zs) = prio_insert pr t ys @ zs"
proof (induction ys)
  case Nil
  show ?case
  proof (cases zs)
    case (Cons z us)
    then have "\<not> pr z \<le> pr t" using Nil by (simp add: not_le)
    then show ?thesis using Cons by (simp add: prio_insert_def)
  qed (simp add: prio_insert_def)
qed (simp add: prio_insert_def)

lemma sorted_prio_insert: "sorted (map pr xs) \<Longrightarrow> sorted (map pr (prio_insert pr t xs))"
proof (induction xs)
  case (Cons x xs)
  then have IH: "sorted (map pr (prio_insert pr t xs))" by simp
  show ?case
  proof (cases "pr x \<le> pr t")
    case True
    then have "prio_insert pr t (x # xs) = x # prio_insert pr t xs" by (simp add: prio_insert_def)
    then show ?thesis using IH True Cons.prems by auto
  next
    case False
    then have "prio_insert pr t (x # xs) = t # x # xs" by (simp add: prio_insert_def)
    then show ?thesis using False Cons.prems by auto
  qed
qed (simp add: prio_insert_def)

text \<open>All rings.\<close>

lemma concat_split:
  assumes "i < length rs"
  shows "concat rs = concat (take i rs) @ rs ! i @ concat (drop (Suc i) rs)"
    "concat (rs[i := xs]) = concat (take i rs) @ xs @ concat (drop (Suc i) rs)"
  using assms by (metis concat.simps(2) concat_append id_take_nth_drop) (simp add: upd_conv_take_nth_drop assms)

lemma in_concat_take: "x \<in> set (concat (take i rs)) \<Longrightarrow> i \<le> length rs \<Longrightarrow> \<exists>j < i. x \<in> set (rs ! j)"
  by (auto simp: in_set_conv_nth) (metis less_le_trans nth_mem)

lemma in_concat_drop: "x \<in> set (concat (drop (Suc i) rs)) \<Longrightarrow> \<exists>j < length rs. i < j \<and> x \<in> set (rs ! j)"
proof -
  assume "x \<in> set (concat (drop (Suc i) rs))"
  then obtain xs where "xs \<in> set (drop (Suc i) rs)" "x \<in> set xs" by auto
  then obtain k where "k < length (drop (Suc i) rs)" "x \<in> set (drop (Suc i) rs ! k)" by (metis in_set_conv_nth)
  then show ?thesis by (intro exI[of _ "Suc i + k"]) auto
qed

lemma prio_add:
  assumes ok: "prio_ok pr W rs" and t: "t \<notin> set (concat rs)"
  shows "\<exists>W' rs'. AddTCBToEventPriority pr t (EVENT_INDEX_Q_PRIORITY (pr t)) W = Some W' \<and> prio_ok pr W' rs' \<and>
    concat rs' = prio_insert pr t (concat rs)"
proof -
  define i where "i = EVENT_INDEX_Q_PRIORITY (pr t)"
  have len: "length rs = EVENT_Q_SIZE" "length (WL_pringPrio W) = EVENT_Q_SIZE" and i: "i < EVENT_Q_SIZE"
    using ok by (simp_all add: prio_ok_def i_def)
  have rg: "ring (wq_ring W) (WL_pringPrio W ! j) (rs ! j)" "sorted (map pr (rs ! j))"
    "\<And>u. u \<in> set (rs ! j) \<Longrightarrow> EVENT_INDEX_Q_PRIORITY (pr u) = j" if "j < EVENT_Q_SIZE" for j
    using ok that by (simp_all add: prio_ok_def)
  have sub: "set (rs ! j) \<subseteq> set (concat rs)" if "j < EVENT_Q_SIZE" for j 
  proof -
    have "rs ! j \<in> set rs" using that len(1) by (metis nth_mem)
    then show ?thesis by auto
  qed
  have ti: "t \<notin> set (rs ! i)" using t sub[OF i] by blast
  have il: "i < length (WL_pringPrio W)" using i len(2) by simp
  obtain R h where a: "AddTCBToEventPriority pr t i W =
      Some (W\<lparr>wq_ring := R, WL_pringPrio := (WL_pringPrio W)[i := h], WQ_usNum := WQ_usNum W + 1\<rparr>)" (is "_ = Some ?W'")
    "ring R h (prio_insert pr t (rs ! i))" "same_links (- insert t (set (rs ! i))) (wq_ring W) R"
    by (rule ring_prio_insert[OF rg(1)[OF i] ti il])
  let ?rs = "rs[i := prio_insert pr t (rs ! i)]"
  have ir: "i < length rs" using i len(1) by simp
  note cs = concat_split[OF ir]
  have "concat ?rs = prio_insert pr t (concat rs)"
  proof -
    have low: "pr x \<le> pr t" if x: "x \<in> set (concat (take i rs))" for x
    proof -
      obtain j where "j < i" "x \<in> set (rs ! j)" using in_concat_take[OF x] ir by auto
      then have "EVENT_INDEX_Q_PRIORITY (pr x) < EVENT_INDEX_Q_PRIORITY (pr t)" using rg(3)[of j x] less_trans[OF _ i, of j] by (simp add: i_def)
      then show ?thesis using index_less less_imp_le by blast
    qed
    have high: "pr t < pr x" if x: "x \<in> set (concat (drop (Suc i) rs))" for x
    proof -
      obtain j where "j < length rs" "i < j" "x \<in> set (rs ! j)" using in_concat_drop[OF x] by blast
      then have "EVENT_INDEX_Q_PRIORITY (pr t) < EVENT_INDEX_Q_PRIORITY (pr x)" using rg(3)[of j x] len(1) by (simp add: i_def)
      then show ?thesis using index_less by blast
    qed
    have "prio_insert pr t (concat rs) = concat (take i rs) @ prio_insert pr t (rs ! i @ concat (drop (Suc i) rs))"
      unfolding cs(1) by (rule prio_insert_low, rule low)
    also have "prio_insert pr t (rs ! i @ concat (drop (Suc i) rs)) = prio_insert pr t (rs ! i) @ concat (drop (Suc i) rs)"
      by (rule prio_insert_high, rule high)
    finally show ?thesis unfolding cs(2) by simp
  qed
  then have eq: "concat ?rs = prio_insert pr t (concat rs)" .
  have "distinct (concat ?rs)"
  proof -
    have m: "mset (concat ?rs) = mset (t # concat rs)" unfolding eq mset_prio_insert by simp
    have "distinct (t # concat rs)" using ok t by (simp add: prio_ok_def)
    then show ?thesis using mset_eq_imp_distinct_iff[OF m] by simp
  qed
  moreover have "ring (wq_ring ?W') (WL_pringPrio ?W' ! j) (?rs ! j) \<and> sorted (map pr (?rs ! j)) \<and>
      (\<forall>u \<in> set (?rs ! j). EVENT_INDEX_Q_PRIORITY (pr u) = j)" if j: "j < EVENT_Q_SIZE" for j
  proof (cases "j = i")
    case True
    then show ?thesis using a(2) len i rg(2,3)[OF i] by (auto simp: sorted_prio_insert i_def)
  next
    case False
    have "u \<notin> insert t (set (rs ! i))" if "u \<in> set (rs ! j)" for u
      using that rg(3)[OF j] rg(3)[OF i] False t sub[OF j] by auto
    then have "same_links (set (rs ! j)) (wq_ring W) R" using a(3) by (auto simp: same_links_def)
    then have "ring R (WL_pringPrio W ! j) (rs ! j)" using rg(1)[OF j] ring_frame by blast
    then show ?thesis using rg(2,3)[OF j] False by simp
  qed
  ultimately have "prio_ok pr ?W' ?rs"
    using ok len eq by (simp add: prio_ok_def)
  then show ?thesis using a(1) eq i_def by blast
qed

lemma prio_del:
  assumes ok: "prio_ok pr W rs" and t: "t \<in> set (concat rs)"
  shows "\<exists>W' rs'. DelTCBFromEventPriority t (EVENT_INDEX_Q_PRIORITY (pr t)) W = Some W' \<and> prio_ok pr W' rs' \<and>
    concat rs' = remove1 t (concat rs)"
proof -
  define i where "i = EVENT_INDEX_Q_PRIORITY (pr t)"
  have len: "length rs = EVENT_Q_SIZE" "length (WL_pringPrio W) = EVENT_Q_SIZE" and i: "i < EVENT_Q_SIZE"
    and dis: "distinct (concat rs)" using ok by (simp_all add: prio_ok_def i_def)
  have rg: "ring (wq_ring W) (WL_pringPrio W ! j) (rs ! j)" "sorted (map pr (rs ! j))"
    "\<And>u. u \<in> set (rs ! j) \<Longrightarrow> EVENT_INDEX_Q_PRIORITY (pr u) = j" if "j < EVENT_Q_SIZE" for j
    using ok that by (simp_all add: prio_ok_def)
  have ir: "i < length rs" using i len(1) by simp
  note cs = concat_split[OF ir]
  obtain ys where "ys \<in> set rs" "t \<in> set ys" using t by auto
  then obtain j where "j < length rs" "t \<in> set (rs ! j)" by (metis in_set_conv_nth)
  then have "t \<in> set (rs ! i)" using rg(3)[of j t] len(1) by (simp add: i_def)
  then obtain us vs where uv: "rs ! i = us @ t # vs" by (auto simp: in_set_conv_decomp)
  obtain R h where d: "List_Ring_Del t (wq_ring W, WL_pringPrio W ! i) = Some (R, h)" "ring R h (us @ vs)"
    "same_links (- set (us @ t # vs)) (wq_ring W) R"
    using Ring_Del_ring[of "wq_ring W" "WL_pringPrio W ! i" us t vs] rg(1)[OF i] uv by auto
  let ?W' = "W\<lparr>wq_ring := R, WL_pringPrio := (WL_pringPrio W)[i := h], WQ_usNum := WQ_usNum W - 1\<rparr>"
  let ?rs = "rs[i := us @ vs]"
  have "distinct (concat (take i rs) @ (us @ t # vs) @ concat (drop (Suc i) rs))" using dis unfolding cs uv .
  then have eq: "concat ?rs = remove1 t (concat rs)" unfolding cs uv by (simp add: remove1_append)
  have "ring (wq_ring ?W') (WL_pringPrio ?W' ! j) (?rs ! j) \<and> sorted (map pr (?rs ! j)) \<and>
      (\<forall>u \<in> set (?rs ! j). EVENT_INDEX_Q_PRIORITY (pr u) = j)" if j: "j < EVENT_Q_SIZE" for j
  proof (cases "j = i")
    case True
    then show ?thesis using d(2) len i rg(2,3)[OF i] uv by (auto simp: sorted_append)
  next
    case False
    have "u \<notin> set (us @ t # vs)" if "u \<in> set (rs ! j)" for u
      using that rg(3)[OF j] rg(3)[OF i] False uv by auto
    then have "same_links (set (rs ! j)) (wq_ring W) R" using d(3) by (auto simp: same_links_def)
    then have "ring R (WL_pringPrio W ! j) (rs ! j)" using rg(1)[OF j] ring_frame by blast
    then show ?thesis using rg(2,3)[OF j] False by simp
  qed
  moreover have "length (concat rs) = Suc (length (concat ?rs))"
    unfolding eq using length_remove1[of t "concat rs"] t by (cases "concat rs") auto
  ultimately have "prio_ok pr ?W' ?rs"
    using ok len eq by (simp add: prio_ok_def distinct_remove1)
  moreover have "DelTCBFromEventPriority t i W = Some ?W'" using d(1) by (simp add: DelTCBFromEventPriority_def)
  ultimately show ?thesis using eq i_def by blast
qed

lemma DEL_Q_eq: "EVENT_DEL_Q_PRIORITY hs i = i + length (takeWhile (\<lambda>h. h = None) hs)"
  by (induction hs i rule: EVENT_DEL_Q_PRIORITY.induct) auto

lemma prio_get:
  assumes ok: "prio_ok pr W rs" and q: "concat rs = t # ts"
  shows "EVENT_DEL_Q_PRIORITY (WL_pringPrio W) 0 = EVENT_INDEX_Q_PRIORITY (pr t)"
    "EventQGetTcbPriority (EVENT_DEL_Q_PRIORITY (WL_pringPrio W) 0) W = Some t"
proof -
  define i where "i = EVENT_DEL_Q_PRIORITY (WL_pringPrio W) 0"
  have len: "length rs = EVENT_Q_SIZE" "length (WL_pringPrio W) = EVENT_Q_SIZE" using ok by (simp_all add: prio_ok_def)
  have rg: "ring (wq_ring W) (WL_pringPrio W ! j) (rs ! j)"
    "\<And>u. u \<in> set (rs ! j) \<Longrightarrow> EVENT_INDEX_Q_PRIORITY (pr u) = j" if "j < EVENT_Q_SIZE" for j
    using ok that by (simp_all add: prio_ok_def)
  have it: "i = length (takeWhile (\<lambda>h. h = None) (WL_pringPrio W))" by (simp add: i_def DEL_Q_eq)
  have before: "rs ! j = []" if "j < i" for j
  proof -
    have "WL_pringPrio W ! j = None" using that it nth_mem[of j "takeWhile (\<lambda>h. h = None) (WL_pringPrio W)"]
      by (auto simp: takeWhile_nth dest: set_takeWhileD)
    moreover have "j < EVENT_Q_SIZE" using that it len(2) length_takeWhile_le[of "\<lambda>h. h = None" "WL_pringPrio W"] by simp
    ultimately show ?thesis using rg(1)[of j] by simp
  qed
  have "i < EVENT_Q_SIZE"
  proof (rule ccontr)
    assume "\<not> i < EVENT_Q_SIZE"
    then have "rs ! j = []" if "j < length rs" for j using before[of j] that len(1) by simp
    then have "ys = []" if "ys \<in> set rs" for ys using that by (metis in_set_conv_nth)
    then show False using q by (metis concat_eq_Nil_conv list.distinct(1))
  qed
  then have i: "i < EVENT_Q_SIZE" "i < length rs" "i < length (WL_pringPrio W)" using len by simp_all
  have "WL_pringPrio W ! i \<noteq> None" using i(3) it nth_length_takeWhile[of "\<lambda>h. h = None" "WL_pringPrio W"] by simp
  then obtain u us where u: "rs ! i = u # us" using rg(1)[OF i(1)] by (cases "rs ! i") auto
  have none: "concat (take i rs) = []"
  proof -
    have "ys = []" if "ys \<in> set (take i rs)" for ys using that before by (metis in_set_conv_nth length_take min_less_iff_conj nth_take)
    then show ?thesis by (simp add: concat_eq_Nil_conv)
  qed
  have "u = t" using concat_split(1)[OF i(2)] q unfolding none u by simp
  then show "EVENT_DEL_Q_PRIORITY (WL_pringPrio W) 0 = EVENT_INDEX_Q_PRIORITY (pr t)"
    "EventQGetTcbPriority (EVENT_DEL_Q_PRIORITY (WL_pringPrio W) 0) W = Some t"
    using rg[OF i(1)] u i(3) ring_hd[of "wq_ring W" "WL_pringPrio W ! i" u us] by (simp_all add: EventQGetTcbPriority_def flip: i_def)
qed

section \<open>Waiting disciplines\<close>

fun add_seq :: "('t \<Rightarrow> 'w \<Rightarrow> 'w option) \<Rightarrow> 't list \<Rightarrow> 'w \<Rightarrow> 'w option" where
  "add_seq ad [] W = Some W"
| "add_seq ad (t # ts) W = Option.bind (ad t W) (add_seq ad ts)"

fun take_seq :: "('w \<Rightarrow> ('t \<times> 'w) option) \<Rightarrow> nat \<Rightarrow> 'w \<Rightarrow> ('t list \<times> 'w) option" where
  "take_seq tk 0 W = Some ([], W)"
| "take_seq tk (Suc n) W =
     Option.bind (tk W) (\<lambda>(t, W). Option.bind (take_seq tk n W) (\<lambda>(ts, W). Some (t # ts, W)))"

locale wait_discipline =
  fixes waits :: "'w \<Rightarrow> addr list \<Rightarrow> bool"
    and ad :: "addr \<Rightarrow> 'w \<Rightarrow> 'w option"
    and tk :: "'w \<Rightarrow> (addr \<times> 'w) option"
    and place :: "addr \<Rightarrow> addr list \<Rightarrow> addr list"
  assumes ad_ok: "waits W xs \<Longrightarrow> t \<notin> set xs \<Longrightarrow> \<exists>W'. ad t W = Some W' \<and> waits W' (place t xs)"
    and tk_ok: "waits W (t # xs) \<Longrightarrow> \<exists>W'. tk W = Some (t, W') \<and> waits W' xs"
    and set_place: "set (place t xs) = insert t (set xs)"
    and length_place: "length (place t xs) = Suc (length xs)"
begin

lemma add_all:
  "waits W xs \<Longrightarrow> distinct ts \<Longrightarrow> set ts \<inter> set xs = {} \<Longrightarrow> \<exists>W'. add_seq ad ts W = Some W' \<and> waits W' (fold place ts xs)"
proof (induction ts arbitrary: W xs)
  case (Cons t ts)
  obtain W1 where w: "ad t W = Some W1" "waits W1 (place t xs)"
    using ad_ok[OF Cons.prems(1), of t] Cons.prems(3) by auto
  have "set ts \<inter> set (place t xs) = {}" using Cons.prems(2,3) set_place by auto
  from Cons.IH[OF w(2) _ this] show ?case using Cons.prems(2) w(1) by simp
qed simp

lemma take_all: "waits W xs \<Longrightarrow> \<exists>W'. take_seq tk (length xs) W = Some (xs, W') \<and> waits W' []"
proof (induction xs arbitrary: W)
  case (Cons t xs)
  then obtain W1 where "tk W = Some (t, W1)" "waits W1 xs" using tk_ok by blast
  with Cons.IH show ?case by fastforce
qed simp

lemma length_fold_place: "length (fold place ts xs) = length ts + length xs"
  by (induction ts arbitrary: xs) (simp_all add: length_place)

text \<open>Threads that wait and are then woken one after the other, from an empty queue to an empty queue.\<close>

lemma wait_and_wake:
  assumes "waits W []" "distinct ts"
  shows "\<exists>W1 W2. add_seq ad ts W = Some W1 \<and> take_seq tk (length ts) W1 = Some (fold place ts [], W2) \<and> waits W2 []"
proof -
  obtain W1 where w: "add_seq ad ts W = Some W1" "waits W1 (fold place ts [])" using add_all[OF assms] by auto
  from take_all[OF w(2)] show ?thesis using w(1) length_fold_place[of ts "[]"] by auto
qed

end

definition prio_waits :: "(addr \<Rightarrow> u8) \<Rightarrow> wait_queue \<Rightarrow> addr list \<Rightarrow> bool" where
  "prio_waits pr W xs \<longleftrightarrow> (\<exists>rs. prio_ok pr W rs \<and> concat rs = xs)"

interpretation fifo_q: wait_discipline fifo_ok AddTCBToEventFifo EventReadyFifoLowLevel "\<lambda>t xs. xs @ [t]"
proof unfold_locales
  fix W t xs assume w: "fifo_ok W (t # xs)"
  then show "\<exists>W'. EventReadyFifoLowLevel W = Some (t, W') \<and> fifo_ok W' xs"
    using fifo_get[OF w] fifo_del[of W "[]" t xs] by (auto simp: EventReadyFifoLowLevel_def)
qed (auto simp: fifo_add)

interpretation prio_q: wait_discipline "prio_waits pr"
  "\<lambda>t. AddTCBToEventPriority pr t (EVENT_INDEX_Q_PRIORITY (pr t))"
  "\<lambda>W. EventReadyPriorityLowLevel (EVENT_DEL_Q_PRIORITY (WL_pringPrio W) 0) W" "prio_insert pr" for pr
proof unfold_locales
  fix W t xs assume "prio_waits pr W (t # xs)"
  then obtain rs where r: "prio_ok pr W rs" "concat rs = t # xs" by (auto simp: prio_waits_def)
  have "t \<in> set (concat rs)" using r(2) by simp
  from prio_del[OF r(1) this] prio_get[OF r]
  show "\<exists>W'. EventReadyPriorityLowLevel (EVENT_DEL_Q_PRIORITY (WL_pringPrio W) 0) W = Some (t, W') \<and> prio_waits pr W' xs"
    using r(2) by (auto simp: EventReadyPriorityLowLevel_def prio_waits_def)
next
  fix W xs t assume "prio_waits pr W xs" "t \<notin> set xs"
  then show "\<exists>W'. AddTCBToEventPriority pr t (EVENT_INDEX_Q_PRIORITY (pr t)) W = Some W' \<and> prio_waits pr W' (prio_insert pr t xs)"
    using prio_add unfolding prio_waits_def by blast
qed simp_all

end
