(* ===== verification/EventProps.thy ===== *)
theory EventProps
  imports EventSpec SchedProps
begin

text \<open>
  The order in which waiting threads are woken, and the priority of the owner of a mutex.
\<close>

lemma fold_prio_insert_sorted: "sorted (map pr xs) \<Longrightarrow> sorted (map pr (fold (prio_insert pr) ts xs))"
  by (induction ts arbitrary: xs) (simp_all add: sorted_prio_insert)

lemma fold_prio_insert_mset: "mset (fold (prio_insert pr) ts xs) = mset ts + mset xs"
  by (induction ts arbitrary: xs) (simp_all add: mset_prio_insert)

text \<open>Equal priorities keep their order.\<close>

lemma filter_prio_insert:
  assumes "sorted (map pr xs)"
  shows "filter (\<lambda>x. k = pr x) (prio_insert pr t xs) = filter (\<lambda>x. k = pr x) (xs @ [t])"
proof -
  have split: "filter (\<lambda>x. k = pr x) xs =
      filter (\<lambda>x. k = pr x) (takeWhile (\<lambda>b. pr b \<le> pr t) xs) @ filter (\<lambda>x. k = pr x) (dropWhile (\<lambda>b. pr b \<le> pr t) xs)"
    by (metis filter_append takeWhile_dropWhile_id)
  show ?thesis
  proof (cases "k = pr t")
    case True
    have gone: "\<not> k = pr x" if "x \<in> set (dropWhile (\<lambda>b. pr b \<le> pr t) xs)" for x
    proof (cases "dropWhile (\<lambda>b. pr b \<le> pr t) xs")
      case Nil
      show ?thesis using that unfolding Nil by simp
    next
      case (Cons y ys)
      have "sorted (map pr (y # ys))" using assms Cons sorted_dropWhile by (metis map_append sorted_append takeWhile_dropWhile_id)
      moreover have "\<not> pr y \<le> pr t" using Cons by (metis dropWhile_eq_Cons_conv)
      ultimately show ?thesis using that Cons True by auto
    qed
    have "filter (\<lambda>x. k = pr x) (dropWhile (\<lambda>b. pr b \<le> pr t) xs) = []" using gone by (simp add: filter_empty_conv)
    then show ?thesis using split True by (simp add: prio_insert_def)
  next
    case False
    then show ?thesis using split by (simp add: prio_insert_def)
  qed
qed

lemma fold_prio_insert_filter:
  "sorted (map pr xs) \<Longrightarrow>
   filter (\<lambda>x. k = pr x) (fold (prio_insert pr) ts xs) = filter (\<lambda>x. k = pr x) (xs @ ts)"
proof (induction ts arbitrary: xs)
  case (Cons t ts)
  have "filter (\<lambda>x. k = pr x) (fold (prio_insert pr) (t # ts) xs) = filter (\<lambda>x. k = pr x) (prio_insert pr t xs @ ts)"
    using Cons.IH[OF sorted_prio_insert[OF Cons.prems]] by simp
  also have "\<dots> = filter (\<lambda>x. k = pr x) (xs @ t # ts)" using filter_prio_insert[OF Cons.prems, of k t] by simp
  finally show ?case .
qed simp

lemma fold_prio_insert_sort: "fold (prio_insert pr) ts [] = sort_key pr ts"
  by (rule properties_for_sort_key[symmetric])
    (simp_all add: fold_prio_insert_mset fold_prio_insert_sorted fold_prio_insert_filter)

definition demo_queue :: wait_queue where
  "demo_queue = \<lparr>wq_ring = \<lparr>LINE_plistNext = (\<lambda>_. None), LINE_plistPrev = (\<lambda>_. None)\<rparr>, WL_pringFifo = None,
     WL_pringPrio = replicate 8 None, WQ_usNum = 0\<rparr>"

definition demo_pr :: "addr \<Rightarrow> u8" where
  "demo_pr t = of_nat (7 - t)"

lemma demo_queue_ok: "fifo_ok demo_queue []" "prio_ok pr demo_queue (replicate 8 [])"
  by (simp_all add: demo_queue_def fifo_ok_def prio_ok_def EVENT_Q_SIZE_def)

section \<open>Properties\<close>

text \<open>
  C17: Threads that wait in an empty queue and are woken one after the other leave a FIFO queue in the order
  of their arrival, and a priority queue sorted by their priorities, those of equal priority in the order of
  their arrival; the queue is then empty again and its counter is 0.
\<close>

theorem wake_order:
  assumes "distinct ts" and "fifo_ok W []" and "prio_ok pr V (replicate 8 [])"
  shows "\<exists>W1 W2 V1 V2.
    add_seq AddTCBToEventFifo ts W = Some W1 \<and>
    take_seq EventReadyFifoLowLevel (length ts) W1 = Some (ts, W2) \<and> WQ_usNum W2 = 0 \<and>
    add_seq (\<lambda>t. AddTCBToEventPriority pr t (EVENT_INDEX_Q_PRIORITY (pr t))) ts V = Some V1 \<and>
    take_seq (\<lambda>V. EventReadyPriorityLowLevel (EVENT_DEL_Q_PRIORITY (WL_pringPrio V) 0) V) (length ts) V1 =
      Some (sort_key pr ts, V2) \<and> WQ_usNum V2 = 0"
proof -
  have f: "fold (\<lambda>t xs. xs @ [t]) ts xs = xs @ ts" for xs :: "addr list" by (induction ts arbitrary: xs) simp_all
  have "prio_waits pr V []" using assms(3) by (auto simp: prio_waits_def)
  from prio_q.wait_and_wake[OF this assms(1)] obtain V1 V2 where v:
    "add_seq (\<lambda>t. AddTCBToEventPriority pr t (EVENT_INDEX_Q_PRIORITY (pr t))) ts V = Some V1"
    "take_seq (\<lambda>V. EventReadyPriorityLowLevel (EVENT_DEL_Q_PRIORITY (WL_pringPrio V) 0) V) (length ts) V1 = Some (sort_key pr ts, V2)"
    "prio_waits pr V2 []" unfolding fold_prio_insert_sort by blast
  obtain rs where rs: "prio_ok pr V2 rs" "concat rs = []" using v(3) by (auto simp: prio_waits_def)
  have num: "WQ_usNum V2 = 0" using rs(1) unfolding prio_ok_def rs(2) by simp
  from fifo_q.wait_and_wake[OF assms(2,1)] obtain W1 W2 where w: "add_seq AddTCBToEventFifo ts W = Some W1"
    "take_seq EventReadyFifoLowLevel (length ts) W1 = Some (ts, W2)" "fifo_ok W2 []" unfolding f by auto
  then have "WQ_usNum W2 = 0" by (simp add: fifo_ok_def)
  then show ?thesis using v(1,2) w(1,2) num by blast
qed

theorem wake_order_witness:
  "\<exists>V1 V2. add_seq (\<lambda>t. AddTCBToEventPriority demo_pr t (EVENT_INDEX_Q_PRIORITY (demo_pr t))) [3, 5] demo_queue = Some V1 \<and>
     take_seq (\<lambda>V. EventReadyPriorityLowLevel (EVENT_DEL_Q_PRIORITY (WL_pringPrio V) 0) V) (length [3, 5 :: addr]) V1 = Some ([5, 3], V2)"
proof -
  have s: "sort_key demo_pr [3, 5] = [5, 3]" by (simp add: demo_pr_def)
  have "distinct [3, 5 :: addr]" by simp
  from wake_order[OF this demo_queue_ok, of demo_pr] show ?thesis unfolding s by blast
qed

text \<open>
  C18: When a thread waits for a mutex with priority inheritance, its owner gets at least the priority of the
  thread, no other priority changes, and when the owner gives the mutex back all priorities are as before;
  the scheduler stays in a state in which its properties hold.
\<close>

theorem priority_inheritance:
  assumes "sched_reach S"
  shows "\<exists>S1 S2. EventPrioTryBoost False True ceiling owner cur S = Some S1 \<and> sched_reach S1 \<and>
     prio S1 owner \<le> prio S1 cur \<and> prio S1 owner = min (prio S owner) (prio S cur) \<and>
     (\<forall>u. u \<noteq> owner \<longrightarrow> prio S1 u = prio S u) \<and>
     EventPrioTryResume (prio S owner) owner S1 = Some S2 \<and> sched_reach S2 \<and> (\<forall>u. prio S2 u = prio S u)"
proof -
  have set: "\<exists>T'. SchedSetPrio t p T = Some T' \<and> sched_reach T' \<and> prio T' t = p \<and> (\<forall>u. u \<noteq> t \<longrightarrow> prio T' u = prio T u)"
    if r: "sched_reach T" for T t p
  proof -
    obtain q where q: "sched_ok T q" using reach_ok[OF r] by blast
    obtain T' q' where "SchedSetPrio t p T = Some T'" "sched_ok T' q'" "prio T' t = p" "\<And>u. u \<noteq> t \<Longrightarrow> prio T' u = prio T u"
      using SetPrio_ok[OF q, of t p] by metis
    then show ?thesis using sched_reach.set_prio[OF r] by blast
  qed
  obtain S1 where s1: "EventPrioTryBoost False True ceiling owner cur S = Some S1" "sched_reach S1"
    "prio S1 owner = min (prio S owner) (prio S cur)" "\<forall>u. u \<noteq> owner \<longrightarrow> prio S1 u = prio S u"
  proof (cases "prio S cur < prio S owner")
    case True
    then have "min (prio S owner) (prio S cur) = prio S cur" by (simp add: min_absorb2 less_imp_le)
    moreover have "EventPrioTryBoost False True ceiling owner cur S = SchedSetPrio owner (prio S cur) S"
      using True by (simp add: EventPrioTryBoost_def prio_def)
    ultimately show thesis using that set[OF assms, of owner "prio S cur"] by metis
  next
    case False
    then have "prio S owner \<le> prio S cur" by (simp add: not_less)
    then show thesis using that[of S] assms False by (simp add: EventPrioTryBoost_def prio_def min_absorb1)
  qed
  obtain S2 where s2: "EventPrioTryResume (prio S owner) owner S1 = Some S2" "sched_reach S2" "\<forall>u. prio S2 u = prio S u"
  proof (cases "prio S1 owner = prio S owner")
    case True
    then show thesis using that[of S1] s1(2,4) by (metis EventPrioTryResume_def prio_def)
  next
    case False
    then show thesis using that set[OF s1(2), of owner "prio S owner"] s1(4) unfolding EventPrioTryResume_def
      by (metis prio_def)
  qed
  have "prio S1 owner \<le> prio S1 cur"
    using s1(3,4) by (cases "cur = owner") auto
  then show ?thesis using s1 s2 by blast
qed

theorem priority_inheritance_witness:
  "\<exists>S1. EventPrioTryBoost False True 0 1 2 demo_sched = Some S1 \<and> prio S1 1 \<le> prio S1 2"
  using priority_inheritance[OF demo_reach(1), of 0 1 2] by blast

end
