(* ===== verification/Wakeup.thy ===== *)
theory Wakeup
  imports Bitmap LineList
begin

text \<open>
  The queue of timeouts, \<open>kernel/core/_WakeupLine.c\<close> and \<open>kernel/include/k_scanlink.h\<close>: a list in which each
  node holds the time from the node before it to its own.  Threads that sleep, timers and watchdogs wait in
  such queues.  \<open>ULONG\<close> has 32 bit; the system time, an \<open>INT64\<close>, is an argument of the operations that read
  it.  \<open>wakeup_ok W q\<close> says that the queue holds the nodes of \<open>q\<close> with the times after which they are due.
\<close>

section \<open>Operations\<close>

type_synonym i64 = "64 word"

text \<open>
  \<open>LW_CLASS_WAKEUP\<close> with the fields of its nodes.  Of the function to call when the first time changes, only
  whether there is one matters here.
\<close>

record wakeup =
  wu_line :: line_store
  WUN_bInQ :: "addr \<Rightarrow> bool"
  WUN_ulCounter :: "addr \<Rightarrow> u32"
  WU_plineHeader :: "addr option"
  WU_plineOp :: "addr option"
  WU_i64LastTime :: i64
  WU_pfuncWakeup :: bool

definition set_counter :: "addr \<Rightarrow> u32 \<Rightarrow> wakeup \<Rightarrow> wakeup" where
  "set_counter a c W = W\<lparr>WUN_ulCounter := (WUN_ulCounter W)(a := c)\<rparr>"

definition set_in_queue :: "addr \<Rightarrow> bool \<Rightarrow> wakeup \<Rightarrow> wakeup" where
  "set_in_queue a b W = W\<lparr>WUN_bInQ := (WUN_bInQ W)(a := b)\<rparr>"

definition WAKEUP_INIT :: "bool \<Rightarrow> wakeup \<Rightarrow> wakeup" where
  "WAKEUP_INIT f W = W\<lparr>WU_plineHeader := None, WU_plineOp := None, WU_pfuncWakeup := f\<rparr>"

definition WAKEUP_NODE_INIT :: "addr \<Rightarrow> wakeup \<Rightarrow> wakeup" where
  "WAKEUP_NODE_INIT a W =
     set_counter a 0 (set_in_queue a False (W\<lparr>wu_line := set_prev a None (set_next a None (wu_line W))\<rparr>))"

text \<open>The time since the last change is taken off the first node that stays.\<close>

definition elapsed :: "i64 \<Rightarrow> wakeup \<Rightarrow> u32" where
  "elapsed i64CurTime W = ucast (i64CurTime - WU_i64LastTime W)"

definition wakeup_elapse :: "i64 \<Rightarrow> addr option \<Rightarrow> wakeup \<Rightarrow> wakeup" where
  "wakeup_elapse i64CurTime p W =
     (let ulCounter = elapsed i64CurTime W;
          W = W\<lparr>WU_i64LastTime := i64CurTime\<rparr> in
      case p of
        None \<Rightarrow> W
      | Some a \<Rightarrow>
          set_counter a (if WUN_ulCounter W a > ulCounter then WUN_ulCounter W a - ulCounter else 0) W)"

text \<open>
  The loop of \<open>_WakeupAdd\<close> up to the place of the node: the node behind it or \<open>LW_NULL\<close>, and the last
  node that was looked at.
\<close>

partial_function (option) wakeup_seek ::
    "addr \<Rightarrow> addr option \<Rightarrow> addr option \<Rightarrow> wakeup \<Rightarrow> (addr option \<times> addr option \<times> wakeup) option" where
  "wakeup_seek pwun plineTemp pwunTemp W =
     (case plineTemp of
        None \<Rightarrow> Some (None, pwunTemp, W)
      | Some a \<Rightarrow>
          if WUN_ulCounter W pwun \<ge> WUN_ulCounter W a then
            wakeup_seek pwun (LINE_plistNext (wu_line W) a) (Some a)
              (set_counter pwun (WUN_ulCounter W pwun - WUN_ulCounter W a) W)
          else Some (Some a, Some a, W))"

definition add_ahead :: "addr \<Rightarrow> wakeup \<Rightarrow> wakeup" where
  "add_ahead a W =
     (let (S, h) = List_Line_Add_Ahead a (wu_line W, WU_plineHeader W) in W\<lparr>wu_line := S, WU_plineHeader := h\<rparr>)"

text \<open>The node is put in front of the node the loop has stopped at, or at the end of the list.\<close>

definition wakeup_place :: "addr \<Rightarrow> addr option \<Rightarrow> addr option \<Rightarrow> wakeup \<Rightarrow> wakeup" where
  "wakeup_place pwun plineTemp pwunTemp W =
     (case plineTemp of
        Some a \<Rightarrow>
          (let W = (if plineTemp = WU_plineHeader W then add_ahead pwun W
                    else W\<lparr>wu_line := List_Line_Add_Left pwun a (wu_line W)\<rparr>) in
           set_counter a (WUN_ulCounter W a - WUN_ulCounter W pwun) W)
      | None \<Rightarrow>
          if WU_plineHeader W = None then add_ahead pwun W
          else W\<lparr>wu_line := List_Line_Add_Right pwun (the pwunTemp) (wu_line W)\<rparr>)"

text \<open>The result says whether the function of the queue is called.\<close>

definition WakeupAdd :: "i64 \<Rightarrow> addr \<Rightarrow> bool \<Rightarrow> wakeup \<Rightarrow> (bool \<times> wakeup) option" where
  "WakeupAdd i64CurTime pwun bProcTime W =
     (let W = (if bProcTime \<and> WU_plineHeader W \<noteq> None \<and> WU_pfuncWakeup W
               then wakeup_elapse i64CurTime (WU_plineHeader W) W else W) in
      Option.bind (wakeup_seek pwun (WU_plineHeader W) None W) (\<lambda>(plineTemp, pwunTemp, W).
        let bSaveTime = (plineTemp = None \<and> WU_plineHeader W = None);
            W = wakeup_place pwun plineTemp pwunTemp W;
            W = set_in_queue pwun True W;
            W = (if bProcTime \<and> WU_pfuncWakeup W \<and> bSaveTime then W\<lparr>WU_i64LastTime := i64CurTime\<rparr> else W) in
        Some (bProcTime \<and> WU_pfuncWakeup W, W)))"

definition WakeupDel :: "i64 \<Rightarrow> addr \<Rightarrow> bool \<Rightarrow> wakeup \<Rightarrow> wakeup" where
  "WakeupDel i64CurTime pwun bProcTime W =
     (let W = (if WU_plineOp W = Some pwun then W\<lparr>WU_plineOp := LINE_plistNext (wu_line W) pwun\<rparr> else W);
          plineRight = LINE_plistNext (wu_line W) pwun;
          W = (case plineRight of None \<Rightarrow> W | Some r \<Rightarrow> set_counter r (WUN_ulCounter W r + WUN_ulCounter W pwun) W);
          W = (if bProcTime \<and> LINE_plistPrev (wu_line W) pwun = None \<and> WU_pfuncWakeup W
               then wakeup_elapse i64CurTime plineRight W else W);
          (S, h) = List_Line_Del pwun (wu_line W, WU_plineHeader W) in
      set_in_queue pwun False (W\<lparr>wu_line := S, WU_plineHeader := h\<rparr>))"

partial_function (option) wakeup_sum :: "addr \<Rightarrow> addr option \<Rightarrow> u32 \<Rightarrow> wakeup \<Rightarrow> u32 option option" where
  "wakeup_sum pwun plineTemp ulCounter W =
     (case plineTemp of
        None \<Rightarrow> Some None
      | Some a \<Rightarrow>
          (let ulCounter = ulCounter + WUN_ulCounter W a in
           if a = pwun then Some (Some ulCounter)
           else wakeup_sum pwun (LINE_plistNext (wu_line W) a) ulCounter W))"

definition WakeupStatus :: "i64 \<Rightarrow> addr \<Rightarrow> wakeup \<Rightarrow> u32 option" where
  "WakeupStatus i64CurTime pwun W =
     Option.bind (wakeup_sum pwun (WU_plineHeader W) 0 W) (\<lambda>r.
       Some (case r of
               None \<Rightarrow> 0
             | Some ulCounter \<Rightarrow>
                 if WU_i64LastTime W \<noteq> 0 then
                   (let ulDelta = elapsed i64CurTime W in if ulCounter > ulDelta then ulCounter - ulDelta else 0)
                 else ulCounter))"

text \<open>
  The loop that the macros \<open>__WAKEUP_PASS_FIRST\<close>, \<open>__WAKEUP_PASS_SECOND\<close> and \<open>__WAKEUP_PASS_END\<close> write around
  what is done with a node that is due.  The queue is a part of a state, with \<open>get\<close> and \<open>put\<close>.
\<close>

partial_function (option) pass_loop ::
    "('s \<Rightarrow> wakeup) \<Rightarrow> (wakeup \<Rightarrow> 's \<Rightarrow> 's) \<Rightarrow> (addr \<Rightarrow> 's \<Rightarrow> 's option) \<Rightarrow> u32 \<Rightarrow> 's \<Rightarrow> 's option" where
  "pass_loop get put act ulCounter s =
     (let W = get s in
      case WU_plineOp W of
        None \<Rightarrow> Some s
      | Some pwun \<Rightarrow>
          (let W = W\<lparr>WU_plineOp := LINE_plistNext (wu_line W) pwun\<rparr> in
           if WUN_ulCounter W pwun > ulCounter
           then Some (put (set_counter pwun (WUN_ulCounter W pwun - ulCounter) W) s)
           else
             Option.bind (act pwun (put (set_counter pwun 0 W) s))
               (pass_loop get put act (ulCounter - WUN_ulCounter W pwun))))"

definition WAKEUP_PASS ::
    "('s \<Rightarrow> wakeup) \<Rightarrow> (wakeup \<Rightarrow> 's \<Rightarrow> 's) \<Rightarrow> (addr \<Rightarrow> 's \<Rightarrow> 's option) \<Rightarrow> u32 \<Rightarrow> 's \<Rightarrow> 's option" where
  "WAKEUP_PASS get put act ulCounter s =
     pass_loop get put act ulCounter (put ((get s)\<lparr>WU_plineOp := WU_plineHeader (get s)\<rparr>) s)"

definition WAKEUP_GET_FIRST :: "wakeup \<Rightarrow> addr option" where
  "WAKEUP_GET_FIRST W = WU_plineHeader W"

declare wakeup_seek.simps [code] wakeup_sum.simps [code] pass_loop.simps [code]

end
