(* ===== verification/WakeupSpec.thy ===== *)
theory WakeupSpec
  imports Wakeup
begin

text \<open>
  What the operations of a queue of timeouts do to the times after which its nodes are due.
\<close>

section \<open>Times of the nodes\<close>

lemma unat_u32: "unat (c :: u32) < 2 ^ 32"
  using unsigned_less[of c, where ?'a = nat] by simp

definition span :: "(addr \<Rightarrow> u32) \<Rightarrow> addr list \<Rightarrow> nat" where
  "span c xs = (\<Sum>a \<leftarrow> xs. unat (c a))"

fun dues :: "(addr \<Rightarrow> u32) \<Rightarrow> nat \<Rightarrow> addr list \<Rightarrow> (addr \<times> nat) list" where
  "dues c k [] = []"
| "dues c k (a # as) = (a, k + unat (c a)) # dues c (k + unat (c a)) as"

lemma span_simps [simp]:
  "span c [] = 0" "span c (a # xs) = unat (c a) + span c xs" "span c (xs @ ys) = span c xs + span c ys"
  by (simp_all add: span_def)

lemma dues_fst [simp]: "map fst (dues c k xs) = xs"
  by (induction xs arbitrary: k) simp_all

lemma dues_append [simp]: "dues c k (xs @ ys) = dues c k xs @ dues c (k + span c xs) ys"
  by (induction xs arbitrary: k) (simp_all add: add.assoc)

lemma dues_cong: "(\<And>a. a \<in> set xs \<Longrightarrow> c a = c' a) \<Longrightarrow> dues c k xs = dues c' k xs"
  by (induction xs arbitrary: k) simp_all

lemma span_cong: "(\<And>a. a \<in> set xs \<Longrightarrow> c a = c' a) \<Longrightarrow> span c xs = span c' xs"
  by (induction xs) simp_all

lemma span_upd [simp]: "a \<notin> set xs \<Longrightarrow> span (c(a := v)) xs = span c xs"
  by (rule span_cong) auto

lemma dues_upd [simp]: "a \<notin> set xs \<Longrightarrow> dues (c(a := v)) k xs = dues c k xs"
  by (rule dues_cong) auto

lemma dues_bounds: "(a, d) \<in> set (dues c k xs) \<Longrightarrow> k \<le> d \<and> d \<le> k + span c xs"
  by (induction xs arbitrary: k) fastforce+

lemma dues_minus: "n \<le> k \<Longrightarrow> dues c (k - n) xs = map (\<lambda>(a, d). (a, d - n)) (dues c k xs)"
proof (induction xs arbitrary: k)
  case (Cons a xs)
  have "n \<le> k + unat (c a)" using Cons.prems by simp
  from Cons.IH[OF this] show ?case using Cons.prems by simp
qed simp

lemma dues_sorted: "sorted (map snd (dues c k xs))"
  by (induction xs arbitrary: k) (auto dest: dues_bounds)

section \<open>Well-formed queues\<close>

definition wakeup_ok :: "wakeup \<Rightarrow> (addr \<times> nat) list \<Rightarrow> bool" where
  "wakeup_ok W q \<longleftrightarrow> line (wu_line W) (WU_plineHeader W) (map fst q) \<and>
     q = dues (WUN_ulCounter W) 0 (map fst q) \<and> span (WUN_ulCounter W) (map fst q) < 2 ^ 32 \<and>
     (\<forall>a. WUN_bInQ W a \<longleftrightarrow> a \<in> fst ` set q)"

lemma wakeup_okI:
  assumes "line (wu_line W) (WU_plineHeader W) xs" "span (WUN_ulCounter W) xs < 2 ^ 32"
    "\<And>a. WUN_bInQ W a \<longleftrightarrow> a \<in> set xs" "q = dues (WUN_ulCounter W) 0 xs"
  shows "wakeup_ok W q"
proof -
  have "map fst q = xs" using assms(4) by simp
  then show ?thesis using assms by (simp add: wakeup_ok_def flip: set_map)
qed

lemma wakeup_okE:
  assumes "wakeup_ok W q"
  obtains xs where "line (wu_line W) (WU_plineHeader W) xs" "span (WUN_ulCounter W) xs < 2 ^ 32" "distinct xs"
    "\<And>a. WUN_bInQ W a \<longleftrightarrow> a \<in> set xs" "q = dues (WUN_ulCounter W) 0 xs" "map fst q = xs"
  using assms that[of "map fst q"] by (simp add: wakeup_ok_def line_def)

lemma wakeup_sorted: "wakeup_ok W q \<Longrightarrow> sorted (map snd q)"
  using dues_sorted by (metis wakeup_ok_def)

lemma wakeup_distinct: "wakeup_ok W q \<Longrightarrow> distinct (map fst q)"
  by (simp add: wakeup_ok_def line_def)

lemma wakeup_bound: "wakeup_ok W q \<Longrightarrow> (a, d) \<in> set q \<Longrightarrow> d < 2 ^ 32"
  using dues_bounds[of a d "WUN_ulCounter W" 0 "map fst q"] by (auto simp: wakeup_ok_def)

definition due_insert :: "addr \<Rightarrow> nat \<Rightarrow> (addr \<times> nat) list \<Rightarrow> (addr \<times> nat) list" where
  "due_insert a m q = takeWhile (\<lambda>x. snd x \<le> m) q @ (a, m) # dropWhile (\<lambda>x. snd x \<le> m) q"

lemma due_insert_set [simp]: "set (due_insert a m q) = insert (a, m) (set q)"
  unfolding due_insert_def by (metis Un_insert_right list.simps(15) set_append takeWhile_dropWhile_id)

lemma due_insert_fst: "fst ` set (due_insert a m q) = insert a (fst ` set q)"
  by simp

lemma due_insert_append:
  "\<forall>x \<in> set p. snd x \<le> m \<Longrightarrow> r \<noteq> [] \<Longrightarrow> m < snd (hd r) \<Longrightarrow> due_insert a m (p @ r) = p @ (a, m) # r"
  "\<forall>x \<in> set p. snd x \<le> m \<Longrightarrow> due_insert a m p = p @ [(a, m)]"
  unfolding due_insert_def by (cases r; simp)+

lemma map_of_due_insert: "a \<notin> fst ` set q \<Longrightarrow> map_of (due_insert a m q) = (map_of q)(a \<mapsto> m)"
proof -
  assume a: "a \<notin> fst ` set q"
  have s: "takeWhile (\<lambda>x. snd x \<le> m) q @ dropWhile (\<lambda>x. snd x \<le> m) q = q" by simp
  have n: "map_of (takeWhile (\<lambda>x. snd x \<le> m) q) a = None"
    using a by (auto simp: map_of_eq_None_iff dest: set_takeWhileD)
  have "map_of q = map_of (dropWhile (\<lambda>x. snd x \<le> m) q) ++ map_of (takeWhile (\<lambda>x. snd x \<le> m) q)"
    by (metis map_of_append s)
  then show ?thesis unfolding due_insert_def using n by (auto simp: map_add_def fun_eq_iff split: option.splits)
qed

section \<open>The place of a node\<close>

lemma set_counter_simps [simp]:
  "wu_line (set_counter a c W) = wu_line W" "WUN_bInQ (set_counter a c W) = WUN_bInQ W"
  "WUN_ulCounter (set_counter a c W) = (WUN_ulCounter W)(a := c)" "WU_plineHeader (set_counter a c W) = WU_plineHeader W"
  "WU_plineOp (set_counter a c W) = WU_plineOp W" "WU_i64LastTime (set_counter a c W) = WU_i64LastTime W"
  "WU_pfuncWakeup (set_counter a c W) = WU_pfuncWakeup W" "set_counter a c (set_counter a d W) = set_counter a c W"
  by (simp_all add: set_counter_def)

lemma set_in_queue_simps [simp]:
  "wu_line (set_in_queue a b W) = wu_line W" "WUN_bInQ (set_in_queue a b W) = (WUN_bInQ W)(a := b)"
  "WUN_ulCounter (set_in_queue a b W) = WUN_ulCounter W" "WU_plineHeader (set_in_queue a b W) = WU_plineHeader W"
  "WU_plineOp (set_in_queue a b W) = WU_plineOp W" "WU_i64LastTime (set_in_queue a b W) = WU_i64LastTime W"
  "WU_pfuncWakeup (set_in_queue a b W) = WU_pfuncWakeup W"
  by (simp_all add: set_in_queue_def)

lemma add_ahead_simps [simp]:
  "WUN_bInQ (add_ahead a W) = WUN_bInQ W" "WUN_ulCounter (add_ahead a W) = WUN_ulCounter W"
  "WU_plineOp (add_ahead a W) = WU_plineOp W" "WU_i64LastTime (add_ahead a W) = WU_i64LastTime W"
  "WU_pfuncWakeup (add_ahead a W) = WU_pfuncWakeup W"
  by (simp_all add: add_ahead_def split: prod.splits)

definition hd_opt :: "addr list \<Rightarrow> addr option" where
  "hd_opt xs = (case xs of [] \<Rightarrow> None | x # _ \<Rightarrow> Some x)"

lemma hd_opt_simps [simp]: "hd_opt [] = None" "hd_opt (x # xs) = Some x"
  by (simp_all add: hd_opt_def)

lemma line_header: "line S h xs \<Longrightarrow> h = hd_opt xs"
  by (cases xs) (simp_all add: line_def)

lemma set_counter_id [simp]: "set_counter a (WUN_ulCounter W a) W = W"
  by (simp add: set_counter_def)

lemma seek_ok:
  assumes "dseg (wu_line W) pv p xs l None" and "n \<notin> set xs"
  shows "\<exists>ys zs m. xs = ys @ zs \<and> span (WUN_ulCounter W) ys + unat m = unat (WUN_ulCounter W n) \<and>
     (\<forall>z zs'. zs = z # zs' \<longrightarrow> m < WUN_ulCounter W z) \<and>
     wakeup_seek n p t W = Some (hd_opt zs, if zs = [] then last_opt t ys else hd_opt zs, set_counter n m W)"
  using assms
proof (induction xs arbitrary: pv p t W)
  case Nil
  then show ?case by (intro exI[of _ "[]"] exI[of _ "WUN_ulCounter W n"]) (simp add: wakeup_seek.simps)
next
  case (Cons x xs)
  have x: "p = Some x" "dseg (wu_line W) (Some x) (LINE_plistNext (wu_line W) x) xs l None" "x \<noteq> n" "n \<notin> set xs"
    using Cons.prems by auto
  show ?case
  proof (cases "WUN_ulCounter W x \<le> WUN_ulCounter W n")
    case True
    let ?W = "set_counter n (WUN_ulCounter W n - WUN_ulCounter W x) W"
    have d: "dseg (wu_line ?W) (Some x) (LINE_plistNext (wu_line W) x) xs l None" using x(2) by simp
    from Cons.IH[OF this x(4), of "Some x"] obtain ys zs m where IH: "xs = ys @ zs"
      "span (WUN_ulCounter ?W) ys + unat m = unat (WUN_ulCounter ?W n)"
      "\<forall>z zs'. zs = z # zs' \<longrightarrow> m < WUN_ulCounter ?W z"
      "wakeup_seek n (LINE_plistNext (wu_line W) x) (Some x) ?W =
         Some (hd_opt zs, if zs = [] then last_opt (Some x) ys else hd_opt zs, set_counter n m ?W)" by blast
    have sub: "unat (WUN_ulCounter W n - WUN_ulCounter W x) + unat (WUN_ulCounter W x) = unat (WUN_ulCounter W n)"
      using True by (simp add: unat_sub word_le_nat_alt)
    have ys: "n \<notin> set ys" using x(4) IH(1) by simp
    have m: "m < WUN_ulCounter W z" if "zs = z # zs'" for z zs' using IH(3) that x(4) IH(1) by auto
    have "wakeup_seek n p t W = Some (hd_opt zs, if zs = [] then last_opt t (x # ys) else hd_opt zs, set_counter n m W)"
      by (subst wakeup_seek.simps) (use True x(1) IH(4) in simp)
    moreover have "span (WUN_ulCounter W) (x # ys) + unat m = unat (WUN_ulCounter W n)" using IH(2) sub ys by simp
    ultimately show ?thesis using IH(1) m by (intro exI[of _ "x # ys"] exI[of _ zs] exI[of _ m]) simp
  next
    case False
    then have "wakeup_seek n p t W = Some (Some x, Some x, W)" by (subst wakeup_seek.simps) (simp add: x(1))
    then show ?thesis using False
      by (intro exI[of _ "[]"] exI[of _ "x # xs"] exI[of _ "WUN_ulCounter W n"]) (simp add: not_le)
  qed
qed

lemma insert_dues:
  assumes "distinct (ys @ zs)" "n \<notin> set (ys @ zs)" "span c ys + unat m = unat (c n)"
    and z: "\<And>z zs'. zs = z # zs' \<Longrightarrow> m < c z"
    and c': "c' = (case zs of [] \<Rightarrow> c(n := m) | z # _ \<Rightarrow> c(n := m, z := c z - m))"
  shows "dues c' 0 (ys @ n # zs) = due_insert n (unat (c n)) (dues c 0 (ys @ zs))"
    and "span c' (ys @ n # zs) \<le> max (unat (c n)) (span c (ys @ zs))"
proof -
  have ys: "\<forall>x \<in> set (dues c 0 ys). snd x \<le> unat (c n)" using dues_bounds[of _ _ c 0 ys] assms(3) by fastforce
  have "dues c' 0 (ys @ n # zs) = due_insert n (unat (c n)) (dues c 0 (ys @ zs)) \<and>
    span c' (ys @ n # zs) \<le> max (unat (c n)) (span c (ys @ zs))"
  proof (cases zs)
    case Nil
    then show ?thesis using assms(2,3) c' due_insert_append(2)[OF ys] by simp
  next
    case (Cons z zs')
    have n: "n \<notin> set ys" "n \<noteq> z" "n \<notin> set zs'" "z \<notin> set ys" "z \<notin> set zs'" using assms(1,2) Cons by auto
    have m: "m < c z" by (rule z[OF Cons])
    then have sub: "unat m + unat (c z - m) = unat (c z)"
      by (simp add: unat_sub word_less_nat_alt less_imp_le)
    have "unat m < unat (c z)" using m by (simp add: word_less_nat_alt)
    then have "unat (c n) < span c ys + unat (c z)" using assms(3) by simp
    then have "due_insert n (unat (c n)) (dues c 0 ys @ dues c (span c ys) zs) = dues c 0 ys @ (n, unat (c n)) # dues c (span c ys) zs"
      by (intro due_insert_append(1)[OF ys]) (simp_all add: Cons)
    moreover have e: "unat (c n) + unat (c z - m) = span c ys + unat (c z)" using assms(3) sub by linarith
    moreover have "dues c (unat (c n) + unat (c z - m)) zs' = dues c (span c ys + unat (c z)) zs'" by (simp only: e)
    ultimately show ?thesis using n c' Cons assms(3) sub by simp
  qed
  then show "dues c' 0 (ys @ n # zs) = due_insert n (unat (c n)) (dues c 0 (ys @ zs))"
    "span c' (ys @ n # zs) \<le> max (unat (c n)) (span c (ys @ zs))" by blast+
qed

section \<open>Operations on well-formed queues\<close>

definition same_wakeup :: "wakeup \<Rightarrow> wakeup \<Rightarrow> bool" where
  "same_wakeup W W' \<longleftrightarrow> WU_plineOp W' = WU_plineOp W \<and> WU_i64LastTime W' = WU_i64LastTime W \<and> WU_pfuncWakeup W' = WU_pfuncWakeup W"

lemma add_ahead_line: "line (wu_line W) (WU_plineHeader W) xs \<Longrightarrow> n \<notin> set xs \<Longrightarrow>
    line (wu_line (add_ahead n W)) (WU_plineHeader (add_ahead n W)) (n # xs)"
  using Add_Ahead_line(1) by (auto simp: add_ahead_def split: prod.splits)

lemma WakeupAdd_ok:
  assumes ok: "wakeup_ok W q" and n: "n \<notin> fst ` set q"
  obtains W' where "WakeupAdd now n False W = Some (False, W')" "same_wakeup W W'"
    "wakeup_ok W' (due_insert n (unat (WUN_ulCounter W n)) q)"
proof -
  let ?c = "WUN_ulCounter W"
  obtain xs where xs: "line (wu_line W) (WU_plineHeader W) xs" "span ?c xs < 2 ^ 32" "distinct xs"
    "\<And>a. WUN_bInQ W a \<longleftrightarrow> a \<in> set xs" "q = dues ?c 0 xs" "map fst q = xs" by (rule wakeup_okE[OF ok]) blast
  have nx: "n \<notin> set xs" using n xs(6) by (metis list.set_map)
  have h: "WU_plineHeader W = hd_opt xs" by (rule line_header[OF xs(1)])
  have "dseg (wu_line W) None (WU_plineHeader W) xs (last_opt None xs) None" using xs(1) by (simp add: line_def)
  from seek_ok[OF this nx, of None] obtain ys zs m where s: "xs = ys @ zs" "span ?c ys + unat m = unat (?c n)"
    "\<forall>z zs'. zs = z # zs' \<longrightarrow> m < ?c z"
    "wakeup_seek n (WU_plineHeader W) None W = Some (hd_opt zs, if zs = [] then last_opt None ys else hd_opt zs, set_counter n m W)"
    by blast
  let ?c' = "case zs of [] \<Rightarrow> ?c(n := m) | z # _ \<Rightarrow> ?c(n := m, z := ?c z - m)"
  have d: "distinct (ys @ zs)" "n \<notin> set (ys @ zs)" using xs(3) nx s(1) by simp_all
  have z: "\<And>z zs'. zs = z # zs' \<Longrightarrow> m < ?c z" using s(3) by blast
  note ins = insert_dues[OF d s(2) z refl]
  have "max (unat (?c n)) (span ?c (ys @ zs)) < 2 ^ 32" using xs(2) s(1) unat_u32[of "?c n"] by simp
  with ins(2) have "span ?c' (ys @ n # zs) < 2 ^ 32" by (rule le_less_trans)
  obtain W' where W': "WakeupAdd now n False W = Some (False, W')" "same_wakeup W W'" "WUN_ulCounter W' = ?c'"
    "WUN_bInQ W' = (WUN_bInQ W)(n := True)" "line (wu_line W') (WU_plineHeader W') (ys @ n # zs)"
  proof (cases zs)
    case Nil
    show thesis
    proof (cases "ys = []")
      case True
      then show thesis using that s(1,4) Nil h xs(1) nx add_ahead_line[of "set_counter n m W" xs n]
        by (simp add: WakeupAdd_def wakeup_place_def same_wakeup_def Let_def)
    next
      case False
      then obtain vs v where v: "ys = vs @ [v]" by (metis rev_exhaust)
      then have "line (List_Line_Add_Right n v (wu_line W)) (WU_plineHeader W) (ys @ [n])"
        using Add_Right_line(1)[of "wu_line W" "WU_plineHeader W" vs v "[]" n] xs(1) nx s(1) Nil by simp
      moreover obtain y where "hd_opt (vs @ [v]) = Some y" by (cases vs) simp_all
      ultimately show thesis using that s(1,4) Nil h v by (simp add: WakeupAdd_def wakeup_place_def same_wakeup_def Let_def)
    qed
  next
    case (Cons z zs')
    have nz: "n \<noteq> z" using nx s(1) Cons by auto
    show thesis
    proof (cases "ys = []")
      case True
      then show thesis using that s(1,4) Cons h xs(1) nx nz add_ahead_line[of "set_counter n m W" xs n]
        by (simp add: WakeupAdd_def wakeup_place_def same_wakeup_def Let_def)
    next
      case False
      then obtain y ys' where y: "ys = y # ys'" by (cases ys) auto
      then have "y \<noteq> z" using d(1) Cons by auto
      moreover have "line (List_Line_Add_Left n z (wu_line W)) (WU_plineHeader W) (ys @ n # zs)"
        using Add_Left_line(1)[of "wu_line W" "WU_plineHeader W" ys z zs' n] xs(1) nx s(1) Cons False by simp
      ultimately show thesis using that s(1,4) Cons h y nz by (simp add: WakeupAdd_def wakeup_place_def same_wakeup_def Let_def)
    qed
  qed
  have "wakeup_ok W' (due_insert n (unat (?c n)) q)"
  proof (rule wakeup_okI[OF W'(5)])
    show "span (WUN_ulCounter W') (ys @ n # zs) < 2 ^ 32" unfolding W'(3) by fact
    show "WUN_bInQ W' a \<longleftrightarrow> a \<in> set (ys @ n # zs)" for a using W'(4) xs(4) s(1) by auto
    show "due_insert n (unat (?c n)) q = dues (WUN_ulCounter W') 0 (ys @ n # zs)" unfolding W'(3) xs(5) s(1) by (rule ins(1)[symmetric])
  qed
  then show thesis using that W'(1,2) by blast
qed

definition due_delete :: "addr \<Rightarrow> (addr \<times> nat) list \<Rightarrow> (addr \<times> nat) list" where
  "due_delete a q = filter (\<lambda>x. fst x \<noteq> a) q"

lemma due_delete_fst [simp]: "fst ` set (due_delete a q) = fst ` set q - {a}"
  by (auto simp: due_delete_def)

lemma map_of_due_delete: "map_of (due_delete a q) = (map_of q)(a := None)"
  unfolding due_delete_def by (induction q) auto

lemma delete_dues: "a \<notin> set ys \<Longrightarrow> a \<notin> set zs \<Longrightarrow>
    due_delete a (dues c k (ys @ a # zs)) = dues c k ys @ dues c (k + span c ys + unat (c a)) zs"
proof -
  have f: "filter (\<lambda>x. fst x \<noteq> a) (dues c j xs) = dues c j xs" if "a \<notin> set xs" for xs j
    using that by (induction xs arbitrary: j) auto
  show "a \<notin> set ys \<Longrightarrow> a \<notin> set zs \<Longrightarrow> ?thesis" by (simp add: due_delete_def f)
qed

text \<open>The pointer of a pass that stands on the node moves on.\<close>

definition same_times :: "wakeup \<Rightarrow> wakeup \<Rightarrow> bool" where
  "same_times W W' \<longleftrightarrow> WU_i64LastTime W' = WU_i64LastTime W \<and> WU_pfuncWakeup W' = WU_pfuncWakeup W"

lemma WakeupDel_ok:
  assumes ok: "wakeup_ok W q" and a: "a \<in> fst ` set q"
  shows "wakeup_ok (WakeupDel now a False W) (due_delete a q)" "same_times W (WakeupDel now a False W)"
    "WU_plineOp (WakeupDel now a False W) =
       (if WU_plineOp W = Some a then LINE_plistNext (wu_line W) a else WU_plineOp W)"
    "\<exists>ys zs. map fst q = ys @ a # zs \<and> WUN_ulCounter (WakeupDel now a False W) =
       (case zs of [] \<Rightarrow> WUN_ulCounter W | r # _ \<Rightarrow> (WUN_ulCounter W)(r := WUN_ulCounter W r + WUN_ulCounter W a))"
proof -
  let ?c = "WUN_ulCounter W" and ?D = "WakeupDel now a False W"
  obtain xs where xs: "line (wu_line W) (WU_plineHeader W) xs" "span ?c xs < 2 ^ 32" "distinct xs"
    "\<And>a. WUN_bInQ W a \<longleftrightarrow> a \<in> set xs" "q = dues ?c 0 xs" "map fst q = xs" by (rule wakeup_okE[OF ok]) blast
  have "a \<in> set xs" using a xs(6) by (metis list.set_map)
  then obtain ys zs where s: "xs = ys @ a # zs" by (meson split_list)
  have nxt: "LINE_plistNext (wu_line W) a = hd_opt zs" using xs(1) s by (cases zs) (simp_all add: line_def dseg_append)
  let ?c' = "case zs of [] \<Rightarrow> ?c | r # _ \<Rightarrow> ?c(r := ?c r + ?c a)"
  have D: "WUN_ulCounter ?D = ?c'" "WUN_bInQ ?D = (WUN_bInQ W)(a := False)"
    "(wu_line ?D, WU_plineHeader ?D) = List_Line_Del a (wu_line W, WU_plineHeader W)"
    "WU_i64LastTime ?D = WU_i64LastTime W" "WU_pfuncWakeup ?D = WU_pfuncWakeup W"
    "WU_plineOp ?D = (if WU_plineOp W = Some a then LINE_plistNext (wu_line W) a else WU_plineOp W)"
    using nxt by (cases zs; simp add: WakeupDel_def Let_def split: prod.splits)+
  have li: "line (wu_line ?D) (WU_plineHeader ?D) (ys @ zs)" using Del_line(1)[OF xs(1)[unfolded s] D(3)[symmetric]] .
  have dues: "dues ?c' 0 (ys @ zs) = due_delete a q \<and> span ?c' (ys @ zs) \<le> span ?c xs"
  proof (cases zs)
    case Nil
    have n: "a \<notin> set ys" "a \<notin> set zs" using xs(3) s by auto
    show ?thesis unfolding xs(5) s delete_dues[OF n] using Nil by simp
  next
    case (Cons r rs)
    have n: "r \<notin> set ys" "r \<notin> set rs" "a \<notin> set ys" "a \<notin> set zs" using xs(3) s Cons by auto
    have "unat (?c r) + unat (?c a) < 2 ^ 32" using xs(2) s Cons by simp
    then have u: "unat (?c r + ?c a) = unat (?c r) + unat (?c a)" by (simp add: unat_word_ariths)
    show ?thesis unfolding xs(5) s delete_dues[OF n(3,4)] using n(1,2) u Cons by (simp add: ac_simps)
  qed
  show "wakeup_ok ?D (due_delete a q)"
  proof (rule wakeup_okI[OF li])
    show "span (WUN_ulCounter ?D) (ys @ zs) < 2 ^ 32" unfolding D(1) using dues xs(2) by linarith
    show "due_delete a q = dues (WUN_ulCounter ?D) 0 (ys @ zs)" unfolding D(1) using dues by simp
    show "WUN_bInQ ?D b \<longleftrightarrow> b \<in> set (ys @ zs)" for b using D(2) xs(3,4) s by auto
  qed
  show "same_times W ?D" using D(4,5) by (simp add: same_times_def)
  show "WU_plineOp ?D = (if WU_plineOp W = Some a then LINE_plistNext (wu_line W) a else WU_plineOp W)" by (rule D(6))
  show "\<exists>ys zs. map fst q = ys @ a # zs \<and> WUN_ulCounter ?D =
       (case zs of [] \<Rightarrow> ?c | r # _ \<Rightarrow> ?c(r := ?c r + ?c a))" using D(1) s xs(6) by blast
qed

lemma sum_ok:
  "dseg (wu_line W) pv p xs l None \<Longrightarrow> unat k + span (WUN_ulCounter W) xs < 2 ^ 32 \<Longrightarrow>
   wakeup_sum a p k W = Some (map_option of_nat (map_of (dues (WUN_ulCounter W) (unat k) xs) a))"
proof (induction xs arbitrary: pv p k)
  case Nil
  then show ?case by (simp add: wakeup_sum.simps)
next
  case (Cons x xs)
  let ?c = "WUN_ulCounter W"
  have u: "unat (k + ?c x) = unat k + unat (?c x)" using Cons.prems(2) by (simp add: unat_word_ariths)
  have "p = Some x" "dseg (wu_line W) (Some x) (LINE_plistNext (wu_line W) x) xs l None" using Cons.prems(1) by auto
  then show ?case using Cons.IH[of "Some x" "LINE_plistNext (wu_line W) x" "k + ?c x"] Cons.prems(2) u
    by (subst wakeup_sum.simps) (simp add: Let_def)
qed

lemma WakeupStatus_ok:
  assumes ok: "wakeup_ok W q" and now: "WU_i64LastTime W = 0 \<or> WU_i64LastTime W = now"
  shows "WakeupStatus now a W = Some (case map_of q a of None \<Rightarrow> 0 | Some d \<Rightarrow> of_nat d)"
proof -
  obtain xs where xs: "line (wu_line W) (WU_plineHeader W) xs" "span (WUN_ulCounter W) xs < 2 ^ 32"
    "q = dues (WUN_ulCounter W) 0 xs" by (rule wakeup_okE[OF ok]) blast
  then have s: "wakeup_sum a (WU_plineHeader W) 0 W = Some (map_option of_nat (map_of q a))"
    using sum_ok[of W None "WU_plineHeader W" xs "last_opt None xs" 0 a] by (simp add: line_def)
  have z: "(if 0 < c then c - 0 else 0) = c" for c :: u32 using word_gt_0[of c] by auto
  have "WU_i64LastTime W \<noteq> 0 \<Longrightarrow> elapsed now W = 0" using now by (simp add: elapsed_def)
  then show ?thesis using s z by (auto simp: WakeupStatus_def Let_def split: option.splits)
qed

lemma wakeup_ok_counter: "wakeup_ok W q \<Longrightarrow> a \<notin> fst ` set q \<Longrightarrow> wakeup_ok (set_counter a c W) q"
  by (simp add: wakeup_ok_def flip: set_map)

section \<open>Passes\<close>

lemma wakeup_ok_op [simp]: "wakeup_ok (W\<lparr>WU_plineOp := p\<rparr>) q = wakeup_ok W q"
  by (simp add: wakeup_ok_def)

lemma zeros_first: "sorted (map snd q) \<Longrightarrow> filter (\<lambda>x. snd x = 0) q @ filter (\<lambda>x. 0 < snd x) q = (q :: (addr \<times> nat) list)"
proof (induction q)
  case (Cons x q)
  show ?case
  proof (cases "snd x = 0")
    case False
    then have "filter (\<lambda>x. snd x = 0) q = []" "filter (\<lambda>x. 0 < snd x) q = q"
      using Cons.prems by (auto simp: filter_empty_conv filter_id_conv)
    then show ?thesis using False by simp
  qed (use Cons in simp)
qed simp

lemma head_of: "wakeup_ok W q \<Longrightarrow> WU_plineHeader W = hd_opt (map fst q)"
  by (rule line_header[of "wu_line W"]) (simp add: wakeup_ok_def)

lemma next_of: "wakeup_ok W (x # q) \<Longrightarrow> LINE_plistNext (wu_line W) (fst x) = hd_opt (map fst q)"
  by (cases q) (auto simp: wakeup_ok_def line_def)

lemma counter_of:
  "wakeup_ok W ((a, d) # q) \<Longrightarrow> unat (WUN_ulCounter W a) = d"
  "wakeup_ok W ((a, d) # (b, e) # q) \<Longrightarrow> unat (WUN_ulCounter W b) = e - d"
  by (auto simp: wakeup_ok_def)

lemma wakeup_minus:
  assumes ok: "wakeup_ok W ((a, d) # q)" and n: "unat n \<le> d"
  shows "wakeup_ok (set_counter a (WUN_ulCounter W a - n) W) ((a, d - unat n) # map (\<lambda>(b, e). (b, e - unat n)) q)"
proof (rule wakeup_okI)
  let ?c = "WUN_ulCounter W"
  have q: "q = dues ?c d (map fst q)" "a \<notin> set (map fst q)" and d: "unat (?c a) = d" and sp: "span ?c (a # map fst q) < 2 ^ 32"
    using ok unfolding wakeup_ok_def by (simp_all add: line_def)
  have s: "unat (?c a - n) = d - unat n" using n d by (simp add: unat_sub word_le_nat_alt)
  show "line (wu_line (set_counter a (?c a - n) W)) (WU_plineHeader (set_counter a (?c a - n) W)) (a # map fst q)"
    using ok by (simp add: wakeup_ok_def)
  show "WUN_bInQ (set_counter a (?c a - n) W) b \<longleftrightarrow> b \<in> set (a # map fst q)" for b using ok by (simp add: wakeup_ok_def)
  show "span (WUN_ulCounter (set_counter a (?c a - n) W)) (a # map fst q) < 2 ^ 32" using q(2) s sp d by simp
  have "dues (?c(a := ?c a - n)) (d - unat n) (map fst q) = map (\<lambda>(b, e). (b, e - unat n)) q"
    using dues_minus[OF n, of ?c "map fst q"] q by simp
  then show "(a, d - unat n) # map (\<lambda>(b, e). (b, e - unat n)) q = dues (WUN_ulCounter (set_counter a (?c a - n) W)) 0 (a # map fst q)"
    using s by simp
qed

text \<open>The operations that take the time since the last change into account.\<close>

lemma shift_fst: "fst ` set (map (\<lambda>(b, e). (b, e - k)) q) = fst ` set (q :: (addr \<times> nat) list)"
  by force

lemma elapse_ok:
  assumes "wakeup_ok W q"
  shows "\<exists>k. wakeup_ok (wakeup_elapse now (WU_plineHeader W) W) (map (\<lambda>(b, e). (b, e - k)) q) \<and> k \<le> unat (elapsed now W) \<and>
    (\<forall>x \<in> set q. k \<le> snd x)"
proof (cases q)
  case Nil
  then show ?thesis using assms by (auto simp: wakeup_elapse_def wakeup_ok_def Let_def)
next
  case (Cons x q1)
  obtain a d where x: "x = (a, d)" by (cases x)
  let ?V = "W\<lparr>WU_i64LastTime := now\<rparr>"
  define n where "n = min (WUN_ulCounter W a) (elapsed now W)"
  have ok: "wakeup_ok W ((a, d) # q1)" using assms Cons x by simp
  have h: "WU_plineHeader W = Some a" using head_of[OF ok] by simp
  have ca: "unat (WUN_ulCounter W a) = d" by (rule counter_of(1)[OF ok])
  have nd: "unat n \<le> d" "unat n \<le> unat (elapsed now W)"
    unfolding ca[symmetric] n_def by (simp_all add: min_def word_le_nat_alt)
  have "wakeup_ok ?V ((a, d) # q1)" using ok by (simp add: wakeup_ok_def)
  from wakeup_minus[OF this nd(1)] have "wakeup_ok (set_counter a (WUN_ulCounter W a - n) ?V) (map (\<lambda>(b, e). (b, e - unat n)) q)"
    using Cons x by simp
  moreover have "wakeup_elapse now (WU_plineHeader W) W = set_counter a (WUN_ulCounter W a - n) ?V"
    using h by (auto simp: wakeup_elapse_def n_def min_def Let_def)
  moreover have "\<forall>y \<in> set q. unat n \<le> snd y" using wakeup_sorted[OF assms] nd(1) Cons x by auto
  ultimately show ?thesis using nd(2) by auto
qed

lemma seek_shape:
  assumes "wakeup_ok W q" "n \<notin> fst ` set q"
  shows "\<exists>p t m. wakeup_seek n (WU_plineHeader W) None W = Some (p, t, set_counter n m W) \<and>
    (WU_plineHeader W = None \<longrightarrow> p = None)"
proof -
  have "dseg (wu_line W) None (WU_plineHeader W) (map fst q) (last_opt None (map fst q)) None" "n \<notin> set (map fst q)"
    using assms by (simp_all add: wakeup_ok_def line_def)
  from seek_ok[OF this, of None] obtain ys zs m where "map fst q = ys @ zs"
    "wakeup_seek n (WU_plineHeader W) None W = Some (hd_opt zs, if zs = [] then last_opt None ys else hd_opt zs, set_counter n m W)"
    by blast
  then show ?thesis using head_of[OF assms(1)] by (cases zs; cases ys) auto
qed

lemma WakeupAdd_seek:
  assumes "(if b \<and> WU_plineHeader W \<noteq> None \<and> WU_pfuncWakeup W then wakeup_elapse now (WU_plineHeader W) W else W) = E"
    and "wakeup_seek n (WU_plineHeader E) None E = Some (p, t, V)"
  shows "WakeupAdd now n b W = Some (b \<and> WU_pfuncWakeup (set_in_queue n True (wakeup_place n p t V)),
    if b \<and> WU_pfuncWakeup (set_in_queue n True (wakeup_place n p t V)) \<and> p = None \<and> WU_plineHeader V = None
    then (set_in_queue n True (wakeup_place n p t V))\<lparr>WU_i64LastTime := now\<rparr> else set_in_queue n True (wakeup_place n p t V))"
  by (simp only: WakeupAdd_def Let_def assms bind.simps prod.case) simp

lemma WakeupAdd_proc:
  assumes ok: "wakeup_ok W q" and n: "n \<notin> fst ` set q"
  shows "\<exists>b W' q'. WakeupAdd now n True W = Some (b, W') \<and> wakeup_ok W' q' \<and> fst ` set q' = insert n (fst ` set q) \<and>
    WU_pfuncWakeup W' = WU_pfuncWakeup W"
proof -
  define E where "E = (if WU_plineHeader W \<noteq> None \<and> WU_pfuncWakeup W then wakeup_elapse now (WU_plineHeader W) W else W)"
  have e: "WU_pfuncWakeup E = WU_pfuncWakeup W" "WU_plineHeader E = WU_plineHeader W"
    by (simp_all add: E_def wakeup_elapse_def Let_def split: option.splits)
  obtain r where r: "wakeup_ok E r" "fst ` set r = fst ` set q"
  proof (cases "WU_plineHeader W \<noteq> None \<and> WU_pfuncWakeup W")
    case True
    then obtain k where "wakeup_ok E (map (\<lambda>(b, e). (b, e - k)) q)" using elapse_ok[OF ok, of now] unfolding E_def by auto
    moreover note shift_fst[of k q]
    ultimately show thesis using that by blast
  next
    case False
    then show thesis using that ok unfolding E_def by auto
  qed
  have nr: "n \<notin> fst ` set r" using n r(2) by simp
  obtain p t m where s: "wakeup_seek n (WU_plineHeader E) None E = Some (p, t, set_counter n m E)"
    "WU_plineHeader E = None \<longrightarrow> p = None" using seek_shape[OF r(1) nr] by metis
  obtain V where V: "WakeupAdd now n False E = Some (False, V)" "same_wakeup E V"
    "wakeup_ok V (due_insert n (unat (WUN_ulCounter E n)) r)" by (rule WakeupAdd_ok[OF r(1) nr])
  have "\<exists>b. WakeupAdd now n True W = Some (b, if WU_pfuncWakeup W \<and> WU_plineHeader W = None then V\<lparr>WU_i64LastTime := now\<rparr> else V)"
  proof -
    let ?P = "wakeup_place n p t (set_counter n m E)"
    have "WakeupAdd now n True W = Some (WU_pfuncWakeup ?P,
        if WU_pfuncWakeup ?P \<and> p = None \<and> WU_plineHeader E = None then (set_in_queue n True ?P)\<lparr>WU_i64LastTime := now\<rparr>
        else set_in_queue n True ?P)"
      using WakeupAdd_seek[OF _ s(1), of True W now] by (simp add: E_def cong: if_cong)
    moreover have "V = set_in_queue n True ?P" using V(1) WakeupAdd_seek[OF _ s(1), of False E now] by simp
    moreover have "WU_pfuncWakeup ?P = WU_pfuncWakeup W"
      using e(1) by (simp add: wakeup_place_def Let_def split: option.splits)
    ultimately show ?thesis using e(2) s(2) by auto
  qed
  moreover have "fst ` set (due_insert n (unat (WUN_ulCounter E n)) r) = insert n (fst ` set q)" using r(2) by simp
  with V(3) obtain q' where "wakeup_ok V q'" "fst ` set q' = insert n (fst ` set q)" by blast
  moreover from this have "wakeup_ok (V\<lparr>WU_i64LastTime := now\<rparr>) q'" by (simp add: wakeup_ok_def)
  moreover have "WU_pfuncWakeup V = WU_pfuncWakeup W" "WU_pfuncWakeup (V\<lparr>WU_i64LastTime := now\<rparr>) = WU_pfuncWakeup W"
    using V(2) e(1) by (simp_all add: same_wakeup_def)
  ultimately show ?thesis by (cases "WU_pfuncWakeup W \<and> WU_plineHeader W = None") auto
qed

lemma WakeupDel_proc:
  assumes ok: "wakeup_ok W q" and a: "a \<in> fst ` set q"
  shows "\<exists>q'. wakeup_ok (WakeupDel now a True W) q' \<and> fst ` set q' = fst ` set q - {a} \<and>
    WU_pfuncWakeup (WakeupDel now a True W) = WU_pfuncWakeup W"
proof -
  let ?D = "WakeupDel now a False W"
  note d = WakeupDel_ok[OF ok a, of now]
  obtain S h where L: "List_Line_Del a (wu_line W, WU_plineHeader W) = (S, h)" by (cases "List_Line_Del a (wu_line W, WU_plineHeader W)")
  have hd: "h = LINE_plistNext (wu_line W) a" if "LINE_plistPrev (wu_line W) a = None"
    using L that by (auto simp: List_Line_Del_def Let_def)
  have "WakeupDel now a True W = (if LINE_plistPrev (wu_line W) a = None \<and> WU_pfuncWakeup W
      then wakeup_elapse now (WU_plineHeader ?D) ?D else ?D)"
    using L hd by (cases "LINE_plistNext (wu_line W) a"; cases "WU_plineOp W = Some a")
      (simp_all add: WakeupDel_def Let_def wakeup_elapse_def elapsed_def set_counter_def set_in_queue_def)
  moreover obtain k where "wakeup_ok (wakeup_elapse now (WU_plineHeader ?D) ?D) (map (\<lambda>(b, e). (b, e - k)) (due_delete a q))"
    using elapse_ok[OF d(1), of now] by blast
  then obtain q' where "wakeup_ok (wakeup_elapse now (WU_plineHeader ?D) ?D) q'" "fst ` set q' = fst ` set q - {a}"
    using shift_fst[of k "due_delete a q"] unfolding due_delete_fst by blast
  moreover obtain q'' where "wakeup_ok ?D q''" "fst ` set q'' = fst ` set q - {a}" using d(1) due_delete_fst by blast
  moreover have "WU_pfuncWakeup (wakeup_elapse now (WU_plineHeader ?D) ?D) = WU_pfuncWakeup ?D"
    by (simp add: wakeup_elapse_def Let_def split: option.splits)
  ultimately show ?thesis using d(2)
    by (cases "LINE_plistPrev (wu_line W) a = None \<and> WU_pfuncWakeup W") (auto simp: same_times_def)
qed

text \<open>
  The interface of a client that scans the queue: what is done with a node that is due takes it out and, for
  a node with a period, puts it in again; \<open>I cs\<close> is what holds when the nodes \<open>cs\<close> have been taken, \<open>Q\<close> the
  nodes that wait.
\<close>

locale tick_client =
  fixes get :: "'s \<Rightarrow> wakeup" and put :: "wakeup \<Rightarrow> 's \<Rightarrow> 's" and act :: "addr \<Rightarrow> 's \<Rightarrow> 's option"
    and per :: "addr \<Rightarrow> nat option" and I :: "addr list \<Rightarrow> 's \<Rightarrow> bool" and Q :: "addr set"
  assumes get_put [simp]: "get (put W s) = W"
    and put_put: "put V (put W s) = put V s"
    and I_put: "I cs s \<Longrightarrow> I cs (put W s)"
    and act_ok: "I cs s \<Longrightarrow> wakeup_ok (get s) ((a, 0) # q) \<Longrightarrow> a \<in> Q \<Longrightarrow> a \<notin> set cs \<Longrightarrow> WU_plineOp (get s) \<noteq> Some a \<Longrightarrow>
      \<exists>s'. act a s = Some s' \<and> I (cs @ [a]) s' \<and> WU_plineOp (get s') = WU_plineOp (get s) \<and>
        same_times (get s) (get s') \<and> wakeup_ok (get s') (case per a of None \<Rightarrow> q | Some p \<Rightarrow> due_insert a p q)"
    and per_pos: "per a = Some p \<Longrightarrow> 0 < p"
begin

lemma zeros_pass:
  assumes "wakeup_ok (get s) (zs @ rs)" "I cs s" "\<forall>z \<in> set zs. snd z = 0" "\<forall>r \<in> set rs. 0 < snd r"
    and "fst ` set zs \<subseteq> Q - set cs"
    and "zs \<noteq> [] \<Longrightarrow> WU_plineOp (get s) = Some (fst (hd zs))"
    and "zs = [] \<Longrightarrow> \<forall>b. WU_plineOp (get s) = Some b \<longrightarrow> WUN_ulCounter (get s) b \<noteq> 0"
  shows "\<exists>s' q'. pass_loop get put act 0 s = Some s' \<and> I (cs @ map fst zs) s' \<and> wakeup_ok (get s') q' \<and>
    same_times (get s) (get s') \<and>
    map_of q' = (\<lambda>x. if x \<in> fst ` set zs then per x else map_of rs x)"
  using assms
proof (induction zs arbitrary: s cs rs)
  case Nil
  show ?case
  proof (cases "WU_plineOp (get s)")
    case None
    then have "pass_loop get put act 0 s = Some s" by (subst pass_loop.simps) simp
    then show ?thesis using Nil.prems(1,2) by (auto simp: same_times_def)
  next
    case (Some c)
    let ?W = "(get s)\<lparr>WU_plineOp := LINE_plistNext (wu_line (get s)) c\<rparr>"
    have W: "set_counter c (WUN_ulCounter (get s) c) ?W = ?W" using set_counter_id[of c ?W] by simp
    have "0 < WUN_ulCounter (get s) c" using Nil.prems(7) Some by (simp add: word_gt_0)
    then have "pass_loop get put act 0 s = Some (put ?W s)" using Some by (subst pass_loop.simps) (simp add: Let_def W)
    then show ?thesis using Nil.prems(1,2) I_put by (auto simp: same_times_def)
  qed
next
  case (Cons z zs)
  obtain a where a: "z = (a, 0)" using Cons.prems(3) by (cases z) auto
  let ?W = "(get s)\<lparr>WU_plineOp := LINE_plistNext (wu_line (get s)) a\<rparr>"
  have op: "WU_plineOp (get s) = Some a" using Cons.prems(6) a by simp
  have ok: "wakeup_ok (get s) ((a, 0) # zs @ rs)" using Cons.prems(1) a by simp
  have c0: "WUN_ulCounter (get s) a = 0" using counter_of(1)[OF ok] by (simp add: unat_eq_0)
  have W: "set_counter a 0 ?W = ?W" using set_counter_id[of a ?W] c0 by simp
  have nxt: "WU_plineOp ?W = hd_opt (map fst (zs @ rs))" using next_of[OF ok] by simp
  have dist: "a \<notin> fst ` set zs" "a \<notin> fst ` set rs" using wakeup_distinct[OF ok] by auto
  have opn: "WU_plineOp ?W \<noteq> Some a" unfolding nxt using dist by (cases "zs @ rs") (auto simp: append_eq_Cons_conv)
  have okW: "wakeup_ok (get (put ?W s)) ((a, 0) # zs @ rs)" using ok by simp
  have mem: "a \<in> Q" "a \<notin> set cs" using Cons.prems(5) a by auto
  obtain t where t: "act a (put ?W s) = Some t" "I (cs @ [a]) t" "WU_plineOp (get t) = WU_plineOp ?W"
    "wakeup_ok (get t) (case per a of None \<Rightarrow> zs @ rs | Some p \<Rightarrow> due_insert a p (zs @ rs))" "same_times (get s) (get t)"
    using act_ok[OF I_put[OF Cons.prems(2)] okW mem] opn by (auto simp: same_times_def)
  define rs' where "rs' = (case per a of None \<Rightarrow> rs | Some p \<Rightarrow> due_insert a p rs)"
  have z0: "\<forall>z \<in> set zs. snd z = 0" using Cons.prems(3) by simp
  have "due_insert a p (zs @ rs) = zs @ due_insert a p rs" for p using z0 by (simp add: due_insert_def)
  then have okt: "wakeup_ok (get t) (zs @ rs')" using t(4) by (simp add: rs'_def split: option.splits)
  have pos: "\<forall>r \<in> set rs'. 0 < snd r"
    using Cons.prems(4) per_pos[of a] unfolding rs'_def by (auto split: option.splits)
  have sub: "fst ` set zs \<subseteq> Q - set (cs @ [a])" using Cons.prems(5) dist(1) by auto
  have stop: "\<forall>c. WU_plineOp (get t) = Some c \<longrightarrow> WUN_ulCounter (get t) c \<noteq> 0" if e1: "zs = []"
  proof (intro allI impI)
    fix c assume e2: "WU_plineOp (get t) = Some c"
    note e = e1 e2
    obtain d rs1 where rs: "rs = (c, d) # rs1" using nxt t(3) e by (cases rs) auto
    then have d: "0 < d" using Cons.prems(4) by simp
    have okr: "wakeup_ok (get t) rs'" using okt e(1) by simp
    consider (first) rs2 where "rs' = (c, d) # rs2" | (second) p where "rs' = (a, p) # (c, d) # rs1" "p < d"
    proof (cases "per a")
      case None
      then show thesis using first rs by (simp add: rs'_def)
    next
      case (Some p)
      then show thesis using first second by (cases "d \<le> p") (simp_all add: rs'_def rs due_insert_def not_le)
    qed
    then have "unat (WUN_ulCounter (get t) c) \<noteq> 0" by cases (use counter_of okr d in fastforce)+
    then show "WUN_ulCounter (get t) c \<noteq> 0" by (simp add: unat_eq_0)
  qed
  have first: "WU_plineOp (get t) = Some (fst (hd zs))" if "zs \<noteq> []"
    using nxt t(3) that by (cases zs) simp_all
  from Cons.IH[OF okt t(2) z0 pos sub first stop] obtain s' q' where IH:
    "pass_loop get put act 0 t = Some s'" "I ((cs @ [a]) @ map fst zs) s'" "wakeup_ok (get s') q'" "same_times (get t) (get s')"
    "map_of q' = (\<lambda>x. if x \<in> fst ` set zs then per x else map_of rs' x)" by blast
  have "pass_loop get put act 0 s = Some s'" using op c0 t(1) IH(1) by (subst pass_loop.simps) (simp add: Let_def W)
  moreover have "map_of rs' = (map_of rs)(a := per a)"
    using dist(2) map_of_due_insert[of a rs] unfolding rs'_def
    by (auto split: option.splits simp: fun_eq_iff map_of_eq_None_iff)
  then have "map_of q' = (\<lambda>x. if x \<in> fst ` set (z # zs) then per x else map_of rs x)"
    using IH(5) a by (auto simp: fun_eq_iff)
  moreover have "same_times (get s) (get s')" using t(5) IH(4) by (simp add: same_times_def)
  ultimately show ?case using IH(2,3) a by auto
qed

text \<open>
  A pass that is not late: every node is due after at least the time that has passed.  Those due now are
  taken in the order of the queue, the others come closer.
\<close>

lemma pass_ok:
  assumes ok: "wakeup_ok (get s) q" and I: "I [] s" and Q: "fst ` set q \<subseteq> Q"
    and early: "\<forall>x \<in> set q. unat n \<le> snd x"
  shows "\<exists>s' q'. WAKEUP_PASS get put act n s = Some s' \<and> I (map fst (filter (\<lambda>x. snd x = unat n) q)) s' \<and>
    wakeup_ok (get s') q' \<and> same_times (get s) (get s') \<and>
    map_of q' = (\<lambda>a. case map_of q a of None \<Rightarrow> None | Some d \<Rightarrow> if d = unat n then per a else Some (d - unat n))"
proof (cases q)
  case Nil
  let ?s = "put ((get s)\<lparr>WU_plineOp := WU_plineHeader (get s)\<rparr>) s"
  have "WU_plineOp (get ?s) = None" using head_of[OF ok] Nil by simp
  then have "WAKEUP_PASS get put act n s = Some ?s" unfolding WAKEUP_PASS_def by (subst pass_loop.simps) simp
  then show ?thesis using ok I I_put Nil by (intro exI[of _ ?s] exI[of _ "[]"]) (simp add: same_times_def)
next
  case (Cons x q1)
  obtain a d where x: "x = (a, d)" by (cases x)
  let ?n = "unat n" and ?V = "(get s)\<lparr>WU_plineOp := WU_plineHeader (get s)\<rparr>"
  let ?W = "(get s)\<lparr>WU_plineOp := LINE_plistNext (wu_line (get s)) a\<rparr>" and ?m = "map (\<lambda>(b, e). (b, e - unat n))"
  have okc: "wakeup_ok (get s) ((a, d) # q1)" using ok Cons x by simp
  have ca: "unat (WUN_ulCounter (get s) a) = d" by (rule counter_of(1)[OF okc])
  have op: "WU_plineHeader (get s) = Some a" using head_of[OF okc] by simp
  have nd: "?n \<le> d" using early Cons x by simp
  have okW: "wakeup_ok ?W ((a, d) # q1)" using okc by simp
  note minus = wakeup_minus[OF okW nd]
  have dist: "distinct (map fst q)" by (rule wakeup_distinct[OF ok])
  have mp: "map_of (?m r) b = map_option (\<lambda>e. e - ?n) (map_of r b)" for r b by (induction r) auto
  show ?thesis
  proof (cases "?n < d")
    case True
    let ?t = "put (set_counter a (WUN_ulCounter (get s) a - n) ?W) s"
    have "\<forall>y \<in> set q. ?n < snd y" using wakeup_sorted[OF ok] Cons x True by auto
    then have f: "filter (\<lambda>y. snd y = ?n) q = []" by (fastforce simp: filter_empty_conv)
    have m: "e \<noteq> ?n" if "map_of q b = Some e" for b e
      using \<open>\<forall>y \<in> set q. ?n < snd y\<close> map_of_SomeD[OF that] by auto
    have "n < WUN_ulCounter (get s) a" using True ca by (simp add: word_less_nat_alt)
    then have "WAKEUP_PASS get put act n s = Some ?t"
      unfolding WAKEUP_PASS_def by (subst pass_loop.simps) (simp add: Let_def op put_put)
    moreover have "wakeup_ok (get ?t) (?m q)" using minus Cons x by simp
    moreover have "map_of (?m q) = (\<lambda>a. case map_of q a of None \<Rightarrow> None | Some d \<Rightarrow> if d = ?n then per a else Some (d - ?n))"
      using mp[of q] m by (auto simp: fun_eq_iff split: option.splits)
    moreover have "same_times (get s) (get ?t)" by (simp add: same_times_def)
    ultimately show ?thesis using I I_put f by auto
  next
    case False
    then have dn: "d = ?n" using nd by simp
    then have cn: "WUN_ulCounter (get s) a = n" using ca by (simp add: word_unat_eq_iff)
    let ?s = "put (set_counter a 0 ?V) s" and ?q = "?m q"
    define zs rs where "zs = filter (\<lambda>x. snd x = 0) ?q" and "rs = filter (\<lambda>x. 0 < snd x) ?q"
    have "sorted (map snd q)" by (rule wakeup_sorted[OF ok])
    then have "sorted (map snd ?q)" by (auto simp: sorted_iff_nth_mono split_beta intro: diff_le_mono)
    then have split: "zs @ rs = ?q" unfolding zs_def rs_def by (rule zeros_first)
    have s0: "set_counter a (WUN_ulCounter (get s) a - n) ?V = set_counter a 0 ?V" using cn by simp
    have ok1: "wakeup_ok (get ?s) (zs @ rs)"
      using wakeup_minus[of ?V a d q1 n] okc nd s0 Cons x split by simp
    have zs: "map fst zs = map fst (filter (\<lambda>y. snd y = ?n) q)"
      using early unfolding zs_def by (induction q) (auto split: prod.splits)
    have z0: "\<forall>z \<in> set zs. snd z = 0" "\<forall>r \<in> set rs. 0 < snd r" by (simp_all add: zs_def rs_def)
    have hd: "zs = (a, 0) # tl zs" unfolding zs_def using Cons x dn by simp
    have sub: "fst ` set zs \<subseteq> Q - set []" using Q unfolding zs_def by fastforce
    have "WU_plineOp (get ?s) = Some a" using op by simp
    then have op1: "zs \<noteq> [] \<Longrightarrow> WU_plineOp (get ?s) = Some (fst (hd zs))"
      by (subst hd) simp
    have op2: "zs = [] \<Longrightarrow> \<forall>b. WU_plineOp (get ?s) = Some b \<longrightarrow> WUN_ulCounter (get ?s) b \<noteq> 0" using hd by simp
    from zeros_pass[OF ok1 I_put[OF I] z0 sub op1 op2] obtain s' q' where r: "pass_loop get put act 0 ?s = Some s'"
      "I (map fst (filter (\<lambda>y. snd y = ?n) q)) s'"
      "wakeup_ok (get s') q'" "same_times (get ?s) (get s')" "map_of q' = (\<lambda>x. if x \<in> fst ` set zs then per x else map_of rs x)"
      using zs by auto
    have "pass_loop get put act 0 ?s = Option.bind (act a (put (set_counter a 0 ?W) s)) (pass_loop get put act 0)"
      by (subst pass_loop.simps) (simp add: Let_def op put_put set_counter_def)
    moreover have "WAKEUP_PASS get put act n s = Option.bind (act a (put (set_counter a 0 ?W) s)) (pass_loop get put act 0)"
      unfolding WAKEUP_PASS_def by (subst pass_loop.simps) (simp add: Let_def op cn put_put)
    ultimately have "WAKEUP_PASS get put act n s = Some s'" using r(1) by simp
    moreover have "map_of q' = (\<lambda>a. case map_of q a of None \<Rightarrow> None | Some d \<Rightarrow> if d = ?n then per a else Some (d - ?n))"
    proof
      fix b
      have mb: "map_option (\<lambda>e. e - ?n) (map_of q b) = (case map_of zs b of None \<Rightarrow> map_of rs b | Some e \<Rightarrow> Some e)"
        unfolding mp[symmetric] split[symmetric] by (simp add: map_add_def map_of_append split: option.splits)
      have "b \<in> fst ` set zs \<longleftrightarrow> map_of q b = Some ?n"
      proof
        assume "b \<in> fst ` set zs"
        then obtain e where "(b, e) \<in> set q" "e \<le> ?n" unfolding zs_def by auto
        then have "(b, ?n) \<in> set q" using early by fastforce
        then show "map_of q b = Some ?n" using dist by simp
      next
        assume "map_of q b = Some ?n"
        then have "(b, ?n) \<in> set q" by (rule map_of_SomeD)
        then show "b \<in> fst ` set zs" unfolding zs_def by force
      qed
      then show "map_of q' b = (case map_of q b of None \<Rightarrow> None | Some d \<Rightarrow> if d = ?n then per b else Some (d - ?n))"
        using r(5) mb by (auto simp: map_of_eq_None_iff[symmetric] split: option.splits)
    qed
    moreover have "same_times (get s) (get s')" using r(4) by (simp add: same_times_def)
    ultimately show ?thesis using r(2,3) by blast
  qed
qed

end

end
