(* ===== verification/Timer.thy ===== *)
theory Timer
  imports WakeupSpec
begin

text \<open>
  Timers, \<open>kernel/interface/TimerCreate.c\<close>, \<open>TimerStart.c\<close>, \<open>TimerCancel.c\<close>, \<open>TimerReset.c\<close>, \<open>TimerStatus.c\<close>,
  \<open>TimerHTicks.c\<close> and \<open>kernel/core/_ITimerThread.c\<close>.  A timer is known by its index in \<open>_K_tmrBuffer\<close>, which
  is also the address of its node in the queue of its type.  Routines and their arguments are numbers; what a
  routine does is an argument of the models, a function on the timers and the rest of the world.
\<close>

section \<open>Constants and handles\<close>

definition LW_CFG_MAX_TIMERS :: nat where "LW_CFG_MAX_TIMERS = 50"
definition OBJECT_TIMER :: u32 where "OBJECT_TIMER = 14"
definition LW_TYPE_TIMER_UNUSED :: nat where "LW_TYPE_TIMER_UNUSED = 0"
definition LW_TYPE_TIMER_ITIMER :: nat where "LW_TYPE_TIMER_ITIMER = 1"
definition LW_TYPE_TIMER_HTIMER :: nat where "LW_TYPE_TIMER_HTIMER = 2"
definition LW_TIMER_STATUS_RUNNING :: nat where "LW_TIMER_STATUS_RUNNING = 1"
definition LW_TIMER_STATUS_STOP :: nat where "LW_TIMER_STATUS_STOP = 0"
definition LW_OPTION_AUTO_RESTART :: u32 where "LW_OPTION_AUTO_RESTART = 1"
definition ERROR_KERNEL_HANDLE_NULL :: nat where "ERROR_KERNEL_HANDLE_NULL = 303"
definition ERROR_TIMER_NULL :: nat where "ERROR_TIMER_NULL = 3001"
definition ERROR_TIMER_CALLBACK_NULL :: nat where "ERROR_TIMER_CALLBACK_NULL = 3002"
definition ERROR_TIMER_TIME :: nat where "ERROR_TIMER_TIME = 3004"

definition ObjectGetIndex :: "u32 \<Rightarrow> nat" where
  "ObjectGetIndex ulId = unat (and ulId 0x0000ffff)"

definition ObjectClassOK :: "u32 \<Rightarrow> u32 \<Rightarrow> bool" where
  "ObjectClassOK ulId ucClass \<longleftrightarrow> and (drop_bit 26 ulId) 0x3f = ucClass"

section \<open>State\<close>

record timer =
  TIMER_ucType :: nat
  TIMER_ulCounterSave :: u32
  TIMER_ulOption :: u32
  TIMER_ucStatus :: nat
  TIMER_cbRoutine :: nat
  TIMER_pvArg :: nat
  TIMER_u64Overrun :: i64

record timers =
  tmrBuffer :: "addr \<Rightarrow> timer"
  wuHTmr :: wakeup
  wuITmr :: wakeup

definition timer_upd :: "addr \<Rightarrow> (timer \<Rightarrow> timer) \<Rightarrow> timers \<Rightarrow> timers" where
  "timer_upd t f T = T\<lparr>tmrBuffer := (tmrBuffer T)(t := f (tmrBuffer T t))\<rparr>"

definition Timer_Index_Invalid :: "nat \<Rightarrow> bool" where
  "Timer_Index_Invalid usIndex \<longleftrightarrow> LW_CFG_MAX_TIMERS \<le> usIndex"

definition Timer_Type_Invalid :: "nat \<Rightarrow> timers \<Rightarrow> bool" where
  "Timer_Type_Invalid usIndex T \<longleftrightarrow> TIMER_ucType (tmrBuffer T usIndex) = LW_TYPE_TIMER_UNUSED"

definition is_itimer :: "addr \<Rightarrow> timers \<Rightarrow> bool" where
  "is_itimer t T \<longleftrightarrow> TIMER_ucType (tmrBuffer T t) = LW_TYPE_TIMER_ITIMER"

text \<open>The assignment to \<open>TIMER_ulCounter\<close>, a field of the node, and the choice of the queue.\<close>

definition timer_counter :: "addr \<Rightarrow> u32 \<Rightarrow> timers \<Rightarrow> timers" where
  "timer_counter t c T =
     (if is_itimer t T then T\<lparr>wuITmr := set_counter t c (wuITmr T)\<rparr> else T\<lparr>wuHTmr := set_counter t c (wuHTmr T)\<rparr>)"

definition timer_dequeue :: "i64 \<Rightarrow> addr \<Rightarrow> timers \<Rightarrow> timers" where
  "timer_dequeue now t T =
     (if is_itimer t T then T\<lparr>wuITmr := WakeupDel now t True (wuITmr T)\<rparr>
      else T\<lparr>wuHTmr := WakeupDel now t False (wuHTmr T)\<rparr>)"

definition timer_enqueue :: "i64 \<Rightarrow> addr \<Rightarrow> timers \<Rightarrow> timers option" where
  "timer_enqueue now t T =
     (if is_itimer t T then map_option (\<lambda>(_, W). T\<lparr>wuITmr := W\<rparr>) (WakeupAdd now t True (wuITmr T))
      else map_option (\<lambda>(_, W). T\<lparr>wuHTmr := W\<rparr>) (WakeupAdd now t False (wuHTmr T)))"

section \<open>Operations\<close>

text \<open>The slot is the control block that the resource pool gives, which is unused.\<close>

definition TimerCreate :: "bool \<Rightarrow> addr \<Rightarrow> timers \<Rightarrow> timers" where
  "TimerCreate bItimer ptmr T =
     (let T = timer_upd ptmr (\<lambda>t. t\<lparr>TIMER_ucType := if bItimer then LW_TYPE_TIMER_ITIMER else LW_TYPE_TIMER_HTIMER\<rparr>) T;
          T = (if bItimer then T\<lparr>wuITmr := WAKEUP_NODE_INIT ptmr (wuITmr T)\<rparr>
               else T\<lparr>wuHTmr := WAKEUP_NODE_INIT ptmr (wuHTmr T)\<rparr>) in
      timer_upd ptmr (\<lambda>t. t\<lparr>TIMER_ulCounterSave := 0, TIMER_ulOption := 0, TIMER_ucStatus := LW_TIMER_STATUS_STOP,
        TIMER_cbRoutine := 0, TIMER_pvArg := 0, TIMER_u64Overrun := 0\<rparr>) T)"

definition TimerStartEx ::
    "i64 \<Rightarrow> u32 \<Rightarrow> u32 \<Rightarrow> u32 \<Rightarrow> u32 \<Rightarrow> nat \<Rightarrow> nat \<Rightarrow> timers \<Rightarrow> (nat \<times> timers) option" where
  "TimerStartEx now ulId ulInitCounter ulCounter ulOption cbTimerRoutine pvArg T =
     (let usIndex = ObjectGetIndex ulId in
      if cbTimerRoutine = 0 then Some (ERROR_TIMER_CALLBACK_NULL, T)
      else if ulInitCounter = 0 then Some (ERROR_TIMER_TIME, T)
      else if and ulOption LW_OPTION_AUTO_RESTART \<noteq> 0 \<and> ulCounter = 0 then Some (ERROR_TIMER_TIME, T)
      else if \<not> ObjectClassOK ulId OBJECT_TIMER then Some (ERROR_KERNEL_HANDLE_NULL, T)
      else if Timer_Index_Invalid usIndex then Some (ERROR_KERNEL_HANDLE_NULL, T)
      else if Timer_Type_Invalid usIndex T then Some (ERROR_TIMER_NULL, T)
      else
        (let T = (if TIMER_ucStatus (tmrBuffer T usIndex) = LW_TIMER_STATUS_RUNNING then timer_dequeue now usIndex T else T);
             T = timer_counter usIndex ulInitCounter T;
             T = timer_upd usIndex (\<lambda>t. t\<lparr>TIMER_ulCounterSave := ulCounter, TIMER_ulOption := ulOption,
               TIMER_ucStatus := LW_TIMER_STATUS_RUNNING, TIMER_cbRoutine := cbTimerRoutine, TIMER_pvArg := pvArg,
               TIMER_u64Overrun := 0\<rparr>) T in
         map_option (\<lambda>T. (0, T)) (timer_enqueue now usIndex T)))"

definition TimerStart :: "i64 \<Rightarrow> u32 \<Rightarrow> u32 \<Rightarrow> u32 \<Rightarrow> nat \<Rightarrow> nat \<Rightarrow> timers \<Rightarrow> (nat \<times> timers) option" where
  "TimerStart now ulId ulCounter ulOption cbTimerRoutine pvArg T =
     TimerStartEx now ulId ulCounter ulCounter ulOption cbTimerRoutine pvArg T"

definition TimerCancel :: "i64 \<Rightarrow> u32 \<Rightarrow> timers \<Rightarrow> nat \<times> timers" where
  "TimerCancel now ulId T =
     (let usIndex = ObjectGetIndex ulId in
      if \<not> ObjectClassOK ulId OBJECT_TIMER then (ERROR_KERNEL_HANDLE_NULL, T)
      else if Timer_Index_Invalid usIndex then (ERROR_KERNEL_HANDLE_NULL, T)
      else if Timer_Type_Invalid usIndex T then (ERROR_TIMER_NULL, T)
      else if TIMER_ucStatus (tmrBuffer T usIndex) = LW_TIMER_STATUS_STOP then (ERROR_TIMER_TIME, T)
      else
        (let T = timer_upd usIndex (\<lambda>t. t\<lparr>TIMER_ucStatus := LW_TIMER_STATUS_STOP\<rparr>) T;
             T = timer_dequeue now usIndex T in
         (0, timer_counter usIndex 0 T)))"

definition TimerReset :: "i64 \<Rightarrow> u32 \<Rightarrow> timers \<Rightarrow> (nat \<times> timers) option" where
  "TimerReset now ulId T =
     (let usIndex = ObjectGetIndex ulId in
      if \<not> ObjectClassOK ulId OBJECT_TIMER then Some (ERROR_KERNEL_HANDLE_NULL, T)
      else if Timer_Index_Invalid usIndex then Some (ERROR_KERNEL_HANDLE_NULL, T)
      else if Timer_Type_Invalid usIndex T then Some (ERROR_TIMER_NULL, T)
      else if TIMER_ucStatus (tmrBuffer T usIndex) = LW_TIMER_STATUS_STOP then Some (ERROR_TIMER_TIME, T)
      else
        (let T = timer_dequeue now usIndex T;
             T = timer_counter usIndex (TIMER_ulCounterSave (tmrBuffer T usIndex)) T in
         map_option (\<lambda>T. (0, T)) (timer_enqueue now usIndex T)))"

text \<open>The result: the error number, whether the timer runs, its option, the time left and its interval.\<close>

definition TimerStatusEx :: "i64 \<Rightarrow> u32 \<Rightarrow> timers \<Rightarrow> (nat + bool \<times> u32 \<times> u32 \<times> u32) option" where
  "TimerStatusEx now ulId T =
     (let usIndex = ObjectGetIndex ulId; t = tmrBuffer T usIndex in
      if \<not> ObjectClassOK ulId OBJECT_TIMER then Some (Inl ERROR_KERNEL_HANDLE_NULL)
      else if Timer_Index_Invalid usIndex then Some (Inl ERROR_KERNEL_HANDLE_NULL)
      else if Timer_Type_Invalid usIndex T then Some (Inl ERROR_TIMER_NULL)
      else
        (let running = (TIMER_ucStatus t = LW_TIMER_STATUS_RUNNING) in
         map_option (\<lambda>pulCounter. Inr (running, TIMER_ulOption t, pulCounter, TIMER_ulCounterSave t))
           (if running then WakeupStatus now usIndex (if is_itimer usIndex T then wuITmr T else wuHTmr T)
            else Some 0)))"

section \<open>Passes\<close>

text \<open>
  What a pass over one of the queues does with a timer that is due.  The kernel is left for the call of the
  routine \<open>cb\<close>, which may use the timers.
\<close>

definition timer_expire ::
    "(timers \<Rightarrow> wakeup) \<Rightarrow> (wakeup \<Rightarrow> timers \<Rightarrow> timers) \<Rightarrow> (nat \<Rightarrow> nat \<Rightarrow> timers \<times> 'w \<Rightarrow> (timers \<times> 'w) option) \<Rightarrow>
     addr \<Rightarrow> timers \<times> 'w \<Rightarrow> (timers \<times> 'w) option" where
  "timer_expire get put cb ptmr s =
     (let (T, w) = s;
          T = put (WakeupDel 0 ptmr False (get T)) T in
      Option.bind
        (if and (TIMER_ulOption (tmrBuffer T ptmr)) LW_OPTION_AUTO_RESTART \<noteq> 0 then
           (let T = put (set_counter ptmr (TIMER_ulCounterSave (tmrBuffer T ptmr)) (get T)) T in
            map_option (\<lambda>(_, W). put W T) (WakeupAdd 0 ptmr False (get T)))
         else Some (timer_upd ptmr (\<lambda>t. t\<lparr>TIMER_ucStatus := LW_TIMER_STATUS_STOP\<rparr>) T))
        (\<lambda>T. cb (TIMER_cbRoutine (tmrBuffer T ptmr)) (TIMER_pvArg (tmrBuffer T ptmr)) (T, w)))"

definition put_h :: "wakeup \<Rightarrow> timers \<Rightarrow> timers" where
  "put_h W T = T\<lparr>wuHTmr := W\<rparr>"

definition put_i :: "wakeup \<Rightarrow> timers \<Rightarrow> timers" where
  "put_i W T = T\<lparr>wuITmr := W\<rparr>"

definition TimerHTicks ::
    "(nat \<Rightarrow> nat \<Rightarrow> timers \<times> 'w \<Rightarrow> (timers \<times> 'w) option) \<Rightarrow> timers \<times> 'w \<Rightarrow> (timers \<times> 'w) option" where
  "TimerHTicks cb s =
     WAKEUP_PASS (\<lambda>(T, w). wuHTmr T) (\<lambda>W (T, w). (put_h W T, w)) (timer_expire wuHTmr put_h cb) 1 s"

text \<open>
  One round of \<open>_ITimerThread\<close>: how long it goes to sleep, 100 seconds when there is no timer, and what it
  does when it runs again.
\<close>

definition itimer_sleep :: "u32 \<Rightarrow> i64 \<Rightarrow> timers \<Rightarrow> (u32 \<times> bool) \<times> timers" where
  "itimer_sleep ulTickHz now T =
     (let T = put_i ((wuITmr T)\<lparr>WU_i64LastTime := now\<rparr>) T in
      (case WAKEUP_GET_FIRST (wuITmr T) of
         Some pwun \<Rightarrow> ((WUN_ulCounter (wuITmr T) pwun, False), T)
       | None \<Rightarrow> ((ulTickHz * 100, True), T)))"

definition itimer_wake ::
    "(nat \<Rightarrow> nat \<Rightarrow> timers \<times> 'w \<Rightarrow> (timers \<times> 'w) option) \<Rightarrow> i64 \<Rightarrow> bool \<Rightarrow> timers \<times> 'w \<Rightarrow> (timers \<times> 'w) option" where
  "itimer_wake cb now bNoTimer s =
     (let (T, w) = s in
      if bNoTimer then Some s
      else
        (let ulCounter = elapsed now (wuITmr T);
             T = put_i ((wuITmr T)\<lparr>WU_i64LastTime := now\<rparr>) T in
         WAKEUP_PASS (\<lambda>(T, w). wuITmr T) (\<lambda>W (T, w). (put_i W T, w)) (timer_expire wuITmr put_i cb) ulCounter (T, w)))"

end
