(* ===== verification/TimerSpec.thy ===== *)
theory TimerSpec
  imports Timer
begin

text \<open>
  Well-formed timers, what the operations do to the times left, and the passes over the two queues, which
  interpret the interface of a client of a queue of timeouts.
\<close>

section \<open>Well-formed timers\<close>

definition timer_running :: "timers \<Rightarrow> addr \<Rightarrow> bool" where
  "timer_running T t \<longleftrightarrow> TIMER_ucStatus (tmrBuffer T t) = LW_TIMER_STATUS_RUNNING"

definition timer_auto :: "timers \<Rightarrow> addr \<Rightarrow> bool" where
  "timer_auto T t \<longleftrightarrow> and (TIMER_ulOption (tmrBuffer T t)) LW_OPTION_AUTO_RESTART \<noteq> 0"

definition timer_save :: "timers \<Rightarrow> addr \<Rightarrow> nat" where
  "timer_save T t = unat (TIMER_ulCounterSave (tmrBuffer T t))"

text \<open>The time after which a timer that starts itself again is due again.\<close>

definition timer_period :: "timers \<Rightarrow> addr \<Rightarrow> nat option" where
  "timer_period T t = (if timer_auto T t \<and> 0 < timer_save T t then Some (timer_save T t) else None)"

definition timers_ok :: "timers \<Rightarrow> (addr \<times> nat) list \<Rightarrow> (addr \<times> nat) list \<Rightarrow> bool" where
  "timers_ok T qh qi \<longleftrightarrow> wakeup_ok (wuHTmr T) qh \<and> wakeup_ok (wuITmr T) qi \<and>
     fst ` set qh = {t. timer_running T t \<and> \<not> is_itimer t T} \<and> fst ` set qi = {t. timer_running T t \<and> is_itimer t T} \<and>
     (\<forall>t. TIMER_ucStatus (tmrBuffer T t) \<in> {LW_TIMER_STATUS_RUNNING, LW_TIMER_STATUS_STOP}) \<and>
     (\<forall>t. timer_running T t \<longrightarrow> TIMER_ucType (tmrBuffer T t) \<noteq> LW_TYPE_TIMER_UNUSED) \<and>
     (\<forall>t. timer_running T t \<and> timer_auto T t \<longrightarrow> 0 < timer_save T t) \<and>
     (\<forall>x \<in> set qh. 0 < snd x) \<and> WU_i64LastTime (wuHTmr T) = 0 \<and> \<not> WU_pfuncWakeup (wuHTmr T)"

lemma timers_okD:
  assumes "timers_ok T qh qi"
  shows "wakeup_ok (wuHTmr T) qh" "wakeup_ok (wuITmr T) qi"
    "t \<in> fst ` set qh \<longleftrightarrow> timer_running T t \<and> \<not> is_itimer t T"
    "t \<in> fst ` set qi \<longleftrightarrow> timer_running T t \<and> is_itimer t T"
    "timer_running T t \<or> TIMER_ucStatus (tmrBuffer T t) = LW_TIMER_STATUS_STOP"
    "timer_running T t \<Longrightarrow> timer_auto T t \<Longrightarrow> 0 < timer_save T t"
    "x \<in> set qh \<Longrightarrow> 0 < snd x" "WU_i64LastTime (wuHTmr T) = 0" "\<not> WU_pfuncWakeup (wuHTmr T)"
    "timer_running T t \<Longrightarrow> TIMER_ucType (tmrBuffer T t) \<noteq> LW_TYPE_TIMER_UNUSED"
proof -
  have s: "fst ` set qh = {t. timer_running T t \<and> \<not> is_itimer t T}" "fst ` set qi = {t. timer_running T t \<and> is_itimer t T}"
    "TIMER_ucStatus (tmrBuffer T t) \<in> {LW_TIMER_STATUS_RUNNING, LW_TIMER_STATUS_STOP}"
    using assms unfolding timers_ok_def by blast+
  show "t \<in> fst ` set qh \<longleftrightarrow> timer_running T t \<and> \<not> is_itimer t T" "t \<in> fst ` set qi \<longleftrightarrow> timer_running T t \<and> is_itimer t T"
    unfolding s by simp_all
  show "timer_running T t \<or> TIMER_ucStatus (tmrBuffer T t) = LW_TIMER_STATUS_STOP" using s(3) by (auto simp: timer_running_def)
qed (use assms in \<open>simp_all add: timers_ok_def\<close>)

lemma timers_okI:
  assumes "wakeup_ok (wuHTmr T) qh" "wakeup_ok (wuITmr T) qi"
    "\<And>t. t \<in> fst ` set qh \<longleftrightarrow> timer_running T t \<and> \<not> is_itimer t T"
    "\<And>t. t \<in> fst ` set qi \<longleftrightarrow> timer_running T t \<and> is_itimer t T"
    "\<And>t. timer_running T t \<or> TIMER_ucStatus (tmrBuffer T t) = LW_TIMER_STATUS_STOP"
    "\<And>t. timer_running T t \<Longrightarrow> TIMER_ucType (tmrBuffer T t) \<noteq> LW_TYPE_TIMER_UNUSED"
    "\<And>t. timer_running T t \<Longrightarrow> timer_auto T t \<Longrightarrow> 0 < timer_save T t"
    "\<And>x. x \<in> set qh \<Longrightarrow> 0 < snd x" "WU_i64LastTime (wuHTmr T) = 0" "\<not> WU_pfuncWakeup (wuHTmr T)"
  shows "timers_ok T qh qi"
proof -
  have "fst ` set qh = {t. timer_running T t \<and> \<not> is_itimer t T}" "fst ` set qi = {t. timer_running T t \<and> is_itimer t T}"
    using assms(3,4) by blast+
  moreover have "TIMER_ucStatus (tmrBuffer T t) \<in> {LW_TIMER_STATUS_RUNNING, LW_TIMER_STATUS_STOP}" for t
    using assms(5)[of t] by (auto simp: timer_running_def)
  ultimately show ?thesis using assms(1,2,6-10) unfolding timers_ok_def by blast
qed

text \<open>The time left of a timer in the queue of the tick, as \<open>API_TimerStatus\<close> gives it.\<close>

definition time_left :: "timers \<Rightarrow> addr \<Rightarrow> nat option" where
  "time_left T t = (if timer_running T t \<and> \<not> is_itimer t T then map_option unat (WakeupStatus 0 t (wuHTmr T)) else None)"

lemma time_left:
  assumes ok: "timers_ok T qh qi"
  shows "time_left T t = map_of qh t"
proof (cases "timer_running T t \<and> \<not> is_itimer t T")
  case True
  then obtain d where d: "map_of qh t = Some d" using timers_okD(3)[OF ok, of t] by (metis map_of_eq_None_iff option.exhaust)
  have "d < 2 ^ 32" by (rule wakeup_bound[OF timers_okD(1)[OF ok] map_of_SomeD[OF d]])
  then have "unat (of_nat d :: u32) = d" by (simp add: unat_of_nat)
  then show ?thesis using True d WakeupStatus_ok[OF timers_okD(1)[OF ok] disjI1[OF timers_okD(8)[OF ok]], of 0 t] by (simp add: time_left_def)
next
  case False
  then have "map_of qh t = None" using timers_okD(3)[OF ok, of t] by (simp add: map_of_eq_None_iff)
  then show ?thesis using False by (auto simp: time_left_def)
qed

section \<open>Passes\<close>

text \<open>
  A routine that does not use the timers only changes the rest of the world.  After some timers are taken,
  those that do not start again are stopped.
\<close>

definition quiet :: "(nat \<Rightarrow> nat \<Rightarrow> 'w \<Rightarrow> 'w) \<Rightarrow> nat \<Rightarrow> nat \<Rightarrow> timers \<times> 'w \<Rightarrow> (timers \<times> 'w) option" where
  "quiet f r a s = Some (fst s, f r a (snd s))"

definition expired :: "timers \<Rightarrow> addr list \<Rightarrow> addr \<Rightarrow> timer" where
  "expired T cs t = (if t \<in> set cs \<and> \<not> timer_auto T t then (tmrBuffer T t)\<lparr>TIMER_ucStatus := LW_TIMER_STATUS_STOP\<rparr>
     else tmrBuffer T t)"

definition run_routines :: "(nat \<Rightarrow> nat \<Rightarrow> 'w \<Rightarrow> 'w) \<Rightarrow> timers \<Rightarrow> addr list \<Rightarrow> 'w \<Rightarrow> 'w" where
  "run_routines f T cs = fold (\<lambda>t. f (TIMER_cbRoutine (tmrBuffer T t)) (TIMER_pvArg (tmrBuffer T t))) cs"

definition taken :: "(timers \<Rightarrow> wakeup) \<Rightarrow> (nat \<Rightarrow> nat \<Rightarrow> 'w \<Rightarrow> 'w) \<Rightarrow> timers \<Rightarrow> 'w \<Rightarrow> addr set \<Rightarrow> addr list \<Rightarrow> timers \<times> 'w \<Rightarrow> bool" where
  "taken other f T0 w0 Q cs s \<longleftrightarrow> tmrBuffer (fst s) = expired T0 cs \<and> other (fst s) = other T0 \<and> snd s = run_routines f T0 cs w0 \<and>
     (\<forall>t \<in> Q. timer_auto T0 t \<longrightarrow> 0 < timer_save T0 t)"

lemma timer_upd_buffer [simp]: "tmrBuffer (timer_upd t g T) = (tmrBuffer T)(t := g (tmrBuffer T t))"
  by (simp add: timer_upd_def)

locale timer_queue =
  fixes get :: "timers \<Rightarrow> wakeup" and put :: "wakeup \<Rightarrow> timers \<Rightarrow> timers" and other :: "timers \<Rightarrow> wakeup"
  assumes get_put [simp]: "get (put W T) = W" and put_put [simp]: "put V (put W T) = put V T"
    and put_buffer [simp]: "tmrBuffer (put W T) = tmrBuffer T" and put_other [simp]: "other (put W T) = other T"
    and upd_get [simp]: "get (timer_upd t g T) = get T" and upd_other [simp]: "other (timer_upd t g T) = other T"
begin

lemma expire_ok:
  assumes I: "taken other f T0 w0 Q cs s" and ok: "wakeup_ok (get (fst s)) ((a, 0) # q)" and a: "a \<in> Q" "a \<notin> set cs"
    and op: "WU_plineOp (get (fst s)) \<noteq> Some a"
  shows "\<exists>s'. timer_expire get put (quiet f) a s = Some s' \<and> taken other f T0 w0 Q (cs @ [a]) s' \<and>
    WU_plineOp (get (fst s')) = WU_plineOp (get (fst s)) \<and> same_times (get (fst s)) (get (fst s')) \<and>
    wakeup_ok (get (fst s')) (case timer_period T0 a of None \<Rightarrow> q | Some p \<Rightarrow> due_insert a p q)"
proof -
  obtain T w where s: "s = (T, w)" by (cases s)
  let ?D = "WakeupDel 0 a False (get T)"
  have buf: "tmrBuffer T = expired T0 cs" "other T = other T0" "w = run_routines f T0 cs w0"
    using I by (simp_all add: taken_def s)
  have ba: "tmrBuffer T a = tmrBuffer T0 a" using a(2) by (simp add: buf expired_def)
  have an: "a \<notin> fst ` set q" using wakeup_distinct[OF ok] by auto
  have okT: "wakeup_ok (get T) ((a, 0) # q)" and opT: "WU_plineOp (get T) \<noteq> Some a" using ok op by (simp_all add: s)
  have dq: "due_delete a ((a, 0) # q) = q" using an by (auto simp: due_delete_def filter_id_conv)
  have d: "wakeup_ok ?D q" "same_times (get T) ?D" "WU_plineOp ?D = WU_plineOp (get T)"
    using WakeupDel_ok(1-3)[OF okT, of a 0] opT unfolding dq by simp_all
  have run: "run_routines f T0 (cs @ [a]) w0 = f (TIMER_cbRoutine (tmrBuffer T0 a)) (TIMER_pvArg (tmrBuffer T0 a)) w"
    by (simp add: run_routines_def buf(3))
  show ?thesis
  proof (cases "timer_auto T0 a")
    case True
    let ?C = "set_counter a (TIMER_ulCounterSave (tmrBuffer T0 a)) ?D"
    have C: "wakeup_ok ?C q" by (rule wakeup_ok_counter[OF d(1) an])
    obtain V where V: "WakeupAdd 0 a False ?C = Some (False, V)" "same_wakeup ?C V"
      "wakeup_ok V (due_insert a (unat (WUN_ulCounter ?C a)) q)" by (rule WakeupAdd_ok[OF C an])
    have per: "timer_period T0 a = Some (timer_save T0 a)"
      using I a(1) True by (simp add: taken_def timer_period_def)
    have au: "and (TIMER_ulOption (tmrBuffer T0 a)) LW_OPTION_AUTO_RESTART \<noteq> 0" using True by (simp add: timer_auto_def)
    let ?s = "(put V T, run_routines f T0 (cs @ [a]) w0)"
    have "timer_expire get put (quiet f) a s = Some ?s"
      using V(1) ba au run by (simp add: timer_expire_def s quiet_def Let_def)
    moreover have "expired T0 (cs @ [a]) = expired T0 cs" using True by (auto simp: expired_def fun_eq_iff)
    then have "taken other f T0 w0 Q (cs @ [a]) ?s" using I buf by (simp add: taken_def)
    moreover have "wakeup_ok (get (fst ?s)) (due_insert a (timer_save T0 a) q)" using V(3) by (simp add: timer_save_def)
    ultimately show ?thesis using per d(2,3) V(2) unfolding s by (intro exI[of _ ?s]) (simp add: same_wakeup_def same_times_def)
  next
    case False
    have au: "and (TIMER_ulOption (tmrBuffer T0 a)) LW_OPTION_AUTO_RESTART = 0" using False by (simp add: timer_auto_def)
    let ?T = "timer_upd a (\<lambda>t. t\<lparr>TIMER_ucStatus := LW_TIMER_STATUS_STOP\<rparr>) (put ?D T)"
    let ?s = "(?T, run_routines f T0 (cs @ [a]) w0)"
    have "timer_expire get put (quiet f) a s = Some ?s"
      using ba au run by (simp add: timer_expire_def s quiet_def Let_def)
    moreover have "expired T0 (cs @ [a]) = (expired T0 cs)(a := (expired T0 cs a)\<lparr>TIMER_ucStatus := LW_TIMER_STATUS_STOP\<rparr>)"
      using False by (auto simp: expired_def fun_eq_iff)
    then have "taken other f T0 w0 Q (cs @ [a]) ?s" using I buf by (simp add: taken_def)
    moreover have "timer_period T0 a = None" using False by (simp add: timer_period_def)
    ultimately show ?thesis using d unfolding s by (intro exI[of _ ?s]) simp
  qed
qed

end

sublocale timer_queue \<subseteq> pass: tick_client "\<lambda>(T, w). get T" "\<lambda>W (T, w). (put W T, w)" "timer_expire get put (quiet f)"
  "timer_period T0" "taken other f T0 w0 Q" Q for f :: "nat \<Rightarrow> nat \<Rightarrow> 'w \<Rightarrow> 'w" and T0 w0 Q
proof unfold_locales
  fix cs :: "addr list" and s :: "timers \<times> 'w" and a q
  assume "taken other f T0 w0 Q cs s" "wakeup_ok (case s of (T, w) \<Rightarrow> get T) ((a, 0) # q)" "a \<in> Q" "a \<notin> set cs"
    "WU_plineOp (case s of (T, w) \<Rightarrow> get T) \<noteq> Some a"
  then show "\<exists>s'. timer_expire get put (quiet f) a s = Some s' \<and> taken other f T0 w0 Q (cs @ [a]) s' \<and>
      WU_plineOp (case s' of (T, w) \<Rightarrow> get T) = WU_plineOp (case s of (T, w) \<Rightarrow> get T) \<and>
      same_times (case s of (T, w) \<Rightarrow> get T) (case s' of (T, w) \<Rightarrow> get T) \<and>
      wakeup_ok (case s' of (T, w) \<Rightarrow> get T) (case timer_period T0 a of None \<Rightarrow> q | Some p \<Rightarrow> due_insert a p q)"
    using expire_ok[of f T0 w0 Q cs s a q] by (simp add: split_beta)
qed (auto simp: taken_def timer_period_def split: if_splits)

interpretation hq: timer_queue wuHTmr put_h wuITmr
  by unfold_locales (simp_all add: put_h_def timer_upd_def)

interpretation iq: timer_queue wuITmr put_i wuHTmr
  by unfold_locales (simp_all add: put_i_def timer_upd_def)

text \<open>A tick: who is due, in which order the routines run, and what is left of the times.\<close>

lemma expired_simps [simp]: "TIMER_ucType (expired T cs t) = TIMER_ucType (tmrBuffer T t)"
  "TIMER_ulOption (expired T cs t) = TIMER_ulOption (tmrBuffer T t)"
  "TIMER_ulCounterSave (expired T cs t) = TIMER_ulCounterSave (tmrBuffer T t)"
  "TIMER_cbRoutine (expired T cs t) = TIMER_cbRoutine (tmrBuffer T t)" "TIMER_pvArg (expired T cs t) = TIMER_pvArg (tmrBuffer T t)"
  by (simp_all add: expired_def)

lemma expired_running: "tmrBuffer T' = expired T cs \<Longrightarrow>
    timer_running T' t \<longleftrightarrow> timer_running T t \<and> \<not> (t \<in> set cs \<and> \<not> timer_auto T t)"
  by (auto simp: timer_running_def expired_def LW_TIMER_STATUS_RUNNING_def LW_TIMER_STATUS_STOP_def)

lemma expired_same: "tmrBuffer T' = expired T cs \<Longrightarrow> is_itimer t T' = is_itimer t T"
  "tmrBuffer T' = expired T cs \<Longrightarrow> timer_auto T' t = timer_auto T t"
  "tmrBuffer T' = expired T cs \<Longrightarrow> timer_save T' t = timer_save T t"
  by (simp_all add: is_itimer_def timer_auto_def timer_save_def)

definition left_after_tick :: "timers \<Rightarrow> nat \<Rightarrow> (addr \<rightharpoonup> nat) \<Rightarrow> addr \<rightharpoonup> nat" where
  "left_after_tick T n l t = (case l t of None \<Rightarrow> None | Some d \<Rightarrow> if d = n then timer_period T t else Some (d - n))"

definition due_now :: "nat \<Rightarrow> (addr \<times> nat) list \<Rightarrow> addr list" where
  "due_now n q = map fst (filter (\<lambda>x. snd x = n) q)"

lemma due_now_set: "distinct (map fst q) \<Longrightarrow> t \<in> set (due_now n q) \<longleftrightarrow> map_of q t = Some n"
  unfolding due_now_def by (force simp: map_of_eq_Some_iff)

lemma left_member:
  assumes "map_of q' = left_after_tick T n (map_of q)" "distinct (map fst q)"
    and "\<And>t. t \<in> fst ` set q \<Longrightarrow> timer_auto T t \<Longrightarrow> 0 < timer_save T t"
  shows "t \<in> fst ` set q' \<longleftrightarrow> t \<in> fst ` set q \<and> \<not> (t \<in> set (due_now n q) \<and> \<not> timer_auto T t)"
proof (cases "map_of q t")
  case None
  then have "map_of q' t = None" using assms(1) by (simp add: left_after_tick_def)
  then show ?thesis using None by (simp add: map_of_eq_None_iff)
next
  case (Some d)
  then have m: "t \<in> fst ` set q" using map_of_SomeD by force
  have "timer_period T t = None \<longleftrightarrow> \<not> timer_auto T t" using assms(3)[OF m] by (auto simp: timer_period_def)
  then have "map_of q' t = None \<longleftrightarrow> d = n \<and> \<not> timer_auto T t" using assms(1) Some by (simp add: left_after_tick_def)
  then show ?thesis using m Some due_now_set[OF assms(2)] by (auto simp: map_of_eq_None_iff)
qed

lemma expired_timers_ok:
  assumes ok: "timers_ok T qh qi" and b: "tmrBuffer T' = expired T cs"
    and q: "wakeup_ok (wuHTmr T') qh'" "wakeup_ok (wuITmr T') qi'" "WU_i64LastTime (wuHTmr T') = 0" "\<not> WU_pfuncWakeup (wuHTmr T')"
    and h: "\<And>t. t \<in> fst ` set qh' \<longleftrightarrow> t \<in> fst ` set qh \<and> \<not> (t \<in> set cs \<and> \<not> timer_auto T t)"
    and i: "\<And>t. t \<in> fst ` set qi' \<longleftrightarrow> t \<in> fst ` set qi \<and> \<not> (t \<in> set cs \<and> \<not> timer_auto T t)"
    and pos: "\<And>x. x \<in> set qh' \<Longrightarrow> 0 < snd x"
  shows "timers_ok T' qh' qi'"
proof (rule timers_okI[OF q(1,2)])
  note o = timers_okD[OF ok] and run = expired_running[OF b] and same = expired_same[OF b]
  show "t \<in> fst ` set qh' \<longleftrightarrow> timer_running T' t \<and> \<not> is_itimer t T'" for t
    unfolding h run same using o(3)[of t] by blast
  show "t \<in> fst ` set qi' \<longleftrightarrow> timer_running T' t \<and> is_itimer t T'" for t
    unfolding i run same using o(4)[of t] by blast
  show "timer_running T' t \<or> TIMER_ucStatus (tmrBuffer T' t) = LW_TIMER_STATUS_STOP" for t
    using o(5)[of t] run[of t] by (auto simp: b expired_def timer_running_def)
  show "TIMER_ucType (tmrBuffer T' t) \<noteq> LW_TYPE_TIMER_UNUSED" if "timer_running T' t" for t
    using o(10)[of t] run[of t] that by (simp add: b)
  show "0 < timer_save T' t" if "timer_running T' t" "timer_auto T' t" for t
    using o(6)[of t] run[of t] that same by simp
qed (use q pos in auto)

lemma HTicks_ok:
  assumes ok: "timers_ok T qh qi"
  obtains T' qh' where "TimerHTicks (quiet f) (T, w) = Some (T', run_routines f T (due_now 1 qh) w)"
    "timers_ok T' qh' qi" "map_of qh' = left_after_tick T 1 (map_of qh)" "tmrBuffer T' = expired T (due_now 1 qh)"
proof -
  note o = timers_okD[OF ok]
  let ?Q = "fst ` set qh" and ?cs = "due_now 1 qh"
  have start: "taken wuITmr f T w ?Q [] (T, w)" using o(3,6) by (auto simp: taken_def expired_def run_routines_def)
  have early: "\<forall>x \<in> set qh. unat (1 :: u32) \<le> snd x" using o(7) by (simp add: Suc_le_eq)
  have "wakeup_ok (case (T, w) of (T, w) \<Rightarrow> wuHTmr T) qh" using o(1) by simp
  note pass = hq.pass.pass_ok[OF this start subset_refl early]
  obtain s' qh' where p: "TimerHTicks (quiet f) (T, w) = Some s'" "taken wuITmr f T w ?Q ?cs s'"
    "wakeup_ok (wuHTmr (fst s')) qh'" "same_times (wuHTmr T) (wuHTmr (fst s'))" "map_of qh' = left_after_tick T 1 (map_of qh)"
    using pass unfolding TimerHTicks_def left_after_tick_def due_now_def unsigned_1 case_prod_beta fst_conv by blast
  let ?T = "fst s'"
  have b: "tmrBuffer ?T = expired T ?cs" "wuITmr ?T = wuITmr T" "snd s' = run_routines f T ?cs w"
    using p(2) by (simp_all add: taken_def)
  have d: "distinct (map fst qh)" by (rule wakeup_distinct[OF o(1)])
  have "timers_ok ?T qh' qi"
  proof (rule expired_timers_ok[OF ok b(1) p(3)])
    show "wakeup_ok (wuITmr ?T) qi" using o(2) b(2) by simp
    show "WU_i64LastTime (wuHTmr ?T) = 0" "\<not> WU_pfuncWakeup (wuHTmr ?T)" using p(4) o(8,9) by (simp_all add: same_times_def)
    show "t \<in> fst ` set qh' \<longleftrightarrow> t \<in> fst ` set qh \<and> \<not> (t \<in> set ?cs \<and> \<not> timer_auto T t)" for t
      by (rule left_member[OF p(5) d]) (use o(3,6) in blast)
    show "t \<in> fst ` set qi \<longleftrightarrow> t \<in> fst ` set qi \<and> \<not> (t \<in> set ?cs \<and> \<not> timer_auto T t)" for t
      using o(3,4)[of t] due_now_set[OF d, of t 1] map_of_SomeD[of qh t 1] by force
    show "0 < snd x" if "x \<in> set qh'" for x
    proof -
      have "map_of qh' (fst x) = Some (snd x)" using that wakeup_distinct[OF p(3)] by simp
      then show ?thesis unfolding p(5) left_after_tick_def timer_period_def using o(7) map_of_SomeD[of qh]
        by (fastforce split: option.splits if_splits)
    qed
  qed
  then show thesis using that[of ?T qh'] p(1,5) b(1,3) by (metis prod.collapse)
qed

text \<open>
  The thread that serves the timers of the other queue: going to sleep changes nothing but the time of the last
  change, and what happens when it wakes and is not late, so that no timer should have been due before.
\<close>

definition on_time :: "i64 \<Rightarrow> timers \<Rightarrow> bool" where
  "on_time now T \<longleftrightarrow> (case WAKEUP_GET_FIRST (wuITmr T) of None \<Rightarrow> True
     | Some pwun \<Rightarrow> elapsed now (wuITmr T) \<le> WUN_ulCounter (wuITmr T) pwun)"

lemma on_time_least:
  assumes ok: "wakeup_ok (wuITmr T) qi" and t: "on_time now T"
  shows "\<forall>x \<in> set qi. unat (elapsed now (wuITmr T)) \<le> snd x"
proof (cases qi)
  case (Cons x q)
  obtain a d where x: "x = (a, d)" by (cases x)
  have ok': "wakeup_ok (wuITmr T) ((a, d) # q)" using ok Cons x by simp
  have "elapsed now (wuITmr T) \<le> WUN_ulCounter (wuITmr T) a"
    using t head_of[OF ok'] by (simp add: on_time_def WAKEUP_GET_FIRST_def)
  then have "unat (elapsed now (wuITmr T)) \<le> d" using counter_of(1)[OF ok'] by (simp add: word_le_nat_alt)
  then show ?thesis using wakeup_sorted[OF ok'] Cons x by auto
qed simp

lemma touch_ok:
  assumes "timers_ok T qh qi"
  shows "timers_ok (put_i ((wuITmr T)\<lparr>WU_i64LastTime := now\<rparr>) T) qh qi"
proof -
  have "wakeup_ok ((wuITmr T)\<lparr>WU_i64LastTime := now\<rparr>) qi" using timers_okD(2)[OF assms] by (simp add: wakeup_ok_def)
  then show ?thesis
    using assms unfolding timers_ok_def put_i_def timer_running_def is_itimer_def timer_auto_def timer_save_def by simp
qed

lemma Sleep_ok:
  assumes ok: "timers_ok T qh qi" and sleep: "itimer_sleep hz now T = ((n, b), T1)"
  shows "T1 = put_i ((wuITmr T)\<lparr>WU_i64LastTime := now\<rparr>) T" "timers_ok T1 qh qi" "b \<longleftrightarrow> qi = []"
    "qi \<noteq> [] \<Longrightarrow> unat n = snd (hd qi)" "b \<Longrightarrow> n = hz * 100"
proof -
  show T1: "T1 = put_i ((wuITmr T)\<lparr>WU_i64LastTime := now\<rparr>) T"
    using sleep by (auto simp: itimer_sleep_def Let_def put_i_def split: option.splits)
  show "timers_ok T1 qh qi" unfolding T1 by (rule touch_ok[OF ok])
  note okI = timers_okD(2)[OF ok]
  have hd: "WU_plineHeader (wuITmr T) = hd_opt (map fst qi)" by (rule head_of[OF okI])
  then show "b \<longleftrightarrow> qi = []" "b \<Longrightarrow> n = hz * 100"
    using sleep by (cases qi; auto simp: itimer_sleep_def Let_def WAKEUP_GET_FIRST_def put_i_def)+
  show "unat n = snd (hd qi)" if "qi \<noteq> []"
  proof -
    obtain a d q where q: "qi = (a, d) # q" using \<open>qi \<noteq> []\<close> by (metis list.exhaust surj_pair)
    have "n = WUN_ulCounter (wuITmr T) a" using sleep hd q
      by (auto simp: itimer_sleep_def Let_def WAKEUP_GET_FIRST_def put_i_def)
    then show ?thesis using counter_of(1)[of "wuITmr T" a d q] okI q by simp
  qed
qed

lemma ITimerWake_ok:
  assumes ok: "timers_ok T qh qi" and t: "on_time now T"
  obtains T' qi' where "itimer_wake (quiet f) now False (T, w) =
      Some (T', run_routines f T (due_now (unat (elapsed now (wuITmr T))) qi) w)"
    "timers_ok T' qh qi'" "map_of qi' = left_after_tick T (unat (elapsed now (wuITmr T))) (map_of qi)"
    "WU_i64LastTime (wuITmr T') = now" "tmrBuffer T' = expired T (due_now (unat (elapsed now (wuITmr T))) qi)"
proof -
  note o = timers_okD[OF ok]
  let ?n = "elapsed now (wuITmr T)" and ?Q = "fst ` set qi"
  let ?cs = "due_now (unat ?n) qi" and ?U = "put_i ((wuITmr T)\<lparr>WU_i64LastTime := now\<rparr>) T"
  have buf: "tmrBuffer ?U = tmrBuffer T" "wuHTmr ?U = wuHTmr T" by (simp_all add: put_i_def)
  have start: "taken wuHTmr f T w ?Q [] (?U, w)" using o(4,6) by (auto simp: taken_def expired_def run_routines_def buf)
  have okU: "wakeup_ok (case (?U, w) of (T, w) \<Rightarrow> wuITmr T) qi" using o(2) by (simp add: put_i_def wakeup_ok_def)
  note early = on_time_least[OF o(2) t]
  note pass = iq.pass.pass_ok[OF okU start subset_refl early]
  have run: "itimer_wake (quiet f) now False (T, w) =
      WAKEUP_PASS (\<lambda>(T, w). wuITmr T) (\<lambda>W (T, w). (put_i W T, w)) (timer_expire wuITmr put_i (quiet f)) ?n (?U, w)"
    by (simp add: itimer_wake_def Let_def)
  obtain s' qi' where p: "itimer_wake (quiet f) now False (T, w) = Some s'" "taken wuHTmr f T w ?Q ?cs s'"
    "wakeup_ok (wuITmr (fst s')) qi'" "same_times (wuITmr ?U) (wuITmr (fst s'))" "map_of qi' = left_after_tick T (unat ?n) (map_of qi)"
    using pass unfolding run left_after_tick_def due_now_def case_prod_beta fst_conv by blast
  let ?T = "fst s'"
  have c: "tmrBuffer ?T = expired T ?cs" "wuHTmr ?T = wuHTmr T" "snd s' = run_routines f T ?cs w"
    using p(2) by (simp_all add: taken_def)
  have d: "distinct (map fst qi)" by (rule wakeup_distinct[OF o(2)])
  have "timers_ok ?T qh qi'"
  proof (rule expired_timers_ok[OF ok c(1) _ p(3)])
    show "wakeup_ok (wuHTmr ?T) qh" "WU_i64LastTime (wuHTmr ?T) = 0" "\<not> WU_pfuncWakeup (wuHTmr ?T)"
      using o(1,8,9) c(2) by simp_all
    show "t \<in> fst ` set qi' \<longleftrightarrow> t \<in> fst ` set qi \<and> \<not> (t \<in> set ?cs \<and> \<not> timer_auto T t)" for t
      by (rule left_member[OF p(5) d]) (use o(4,6) in blast)
    show "t \<in> fst ` set qh \<longleftrightarrow> t \<in> fst ` set qh \<and> \<not> (t \<in> set ?cs \<and> \<not> timer_auto T t)" for t
      using o(3,4)[of t] due_now_set[OF d, of t "unat ?n"] map_of_SomeD[of qi t "unat ?n"] by force
    show "0 < snd x" if "x \<in> set qh" for x by (rule o(7)[OF that])
  qed
  moreover have "WU_i64LastTime (wuITmr ?T) = now" using p(4) by (simp add: same_times_def put_i_def)
  ultimately show thesis using that[of ?T qi'] p(1,5) c(1,3) by (metis prod.collapse)
qed

section \<open>Starting and stopping\<close>

text \<open>The two queues alone, and what taking a timer out or putting it in does to them.\<close>

definition queues_ok :: "timers \<Rightarrow> (addr \<times> nat) list \<Rightarrow> (addr \<times> nat) list \<Rightarrow> bool" where
  "queues_ok T qh qi \<longleftrightarrow> wakeup_ok (wuHTmr T) qh \<and> wakeup_ok (wuITmr T) qi \<and> WU_i64LastTime (wuHTmr T) = 0 \<and>
     \<not> WU_pfuncWakeup (wuHTmr T)"

lemma dequeue_ok:
  assumes "queues_ok T qh qi" and "t \<in> fst ` set (if is_itimer t T then qi else qh)"
  shows "\<exists>qi'. queues_ok (timer_dequeue now t T) (if is_itimer t T then qh else due_delete t qh) qi' \<and>
    fst ` set qi' = (if is_itimer t T then fst ` set qi - {t} else fst ` set qi) \<and>
    tmrBuffer (timer_dequeue now t T) = tmrBuffer T"
proof (cases "is_itimer t T")
  case True
  then show ?thesis using assms WakeupDel_proc[of "wuITmr T" qi t now] by (auto simp: queues_ok_def timer_dequeue_def)
next
  case False
  then show ?thesis using assms WakeupDel_ok(1,2)[of "wuHTmr T" qh t now]
    by (auto simp: queues_ok_def timer_dequeue_def same_times_def)
qed

lemma counter_ok:
  assumes "queues_ok T qh qi" and "t \<notin> fst ` set (if is_itimer t T then qi else qh)"
  shows "queues_ok (timer_counter t c T) qh qi" "tmrBuffer (timer_counter t c T) = tmrBuffer T"
    "\<not> is_itimer t T \<Longrightarrow> WUN_ulCounter (wuHTmr (timer_counter t c T)) t = c"
  using assms wakeup_ok_counter by (auto simp: queues_ok_def timer_counter_def)

lemma enqueue_ok:
  assumes "queues_ok T qh qi" and "t \<notin> fst ` set (if is_itimer t T then qi else qh)"
  shows "\<exists>T' qi'. timer_enqueue now t T = Some T' \<and>
    queues_ok T' (if is_itimer t T then qh else due_insert t (unat (WUN_ulCounter (wuHTmr T) t)) qh) qi' \<and>
    fst ` set qi' = (if is_itimer t T then insert t (fst ` set qi) else fst ` set qi) \<and> tmrBuffer T' = tmrBuffer T"
proof (cases "is_itimer t T")
  case True
  then obtain b W' q' where "WakeupAdd now t True (wuITmr T) = Some (b, W')" "wakeup_ok W' q'"
    "fst ` set q' = insert t (fst ` set qi)" using assms WakeupAdd_proc[of "wuITmr T" qi t now] by (auto simp: queues_ok_def)
  then show ?thesis using True assms by (auto simp: queues_ok_def timer_enqueue_def)
next
  case False
  then have n: "wakeup_ok (wuHTmr T) qh" "t \<notin> fst ` set qh" using assms by (simp_all add: queues_ok_def)
  obtain W' where "WakeupAdd now t False (wuHTmr T) = Some (False, W')" "same_wakeup (wuHTmr T) W'"
    "wakeup_ok W' (due_insert t (unat (WUN_ulCounter (wuHTmr T) t)) qh)" by (rule WakeupAdd_ok[OF n])
  then show ?thesis using False assms by (auto simp: queues_ok_def timer_enqueue_def same_wakeup_def)
qed

lemma queues_upd [simp]: "queues_ok (timer_upd t f T) qh qi = queues_ok T qh qi"
  by (simp add: queues_ok_def timer_upd_def)

lemma timers_queues: "timers_ok T qh qi \<Longrightarrow> queues_ok T qh qi"
  by (simp add: timers_ok_def queues_ok_def)

definition in_htmr :: "timers \<Rightarrow> addr \<Rightarrow> bool" where
  "in_htmr T t \<longleftrightarrow> timer_running T t \<and> \<not> is_itimer t T"

text \<open>A handle that the operations accept.\<close>

definition handle_ok :: "u32 \<Rightarrow> timers \<Rightarrow> bool" where
  "handle_ok ulId T \<longleftrightarrow> ObjectClassOK ulId OBJECT_TIMER \<and> \<not> Timer_Index_Invalid (ObjectGetIndex ulId) \<and>
     \<not> Timer_Type_Invalid (ObjectGetIndex ulId) T"

text \<open>A timer that is in no queue is put in one.\<close>

lemma place_ok:
  assumes q: "queues_ok T qh qi" and out: "t \<notin> fst ` set (if is_itimer t T then qi else qh)"
    and g: "\<And>x. TIMER_ucType (g x) = TIMER_ucType x"
  shows "\<exists>T' qi'. timer_enqueue now t (timer_upd t g (timer_counter t c T)) = Some T' \<and>
    queues_ok T' (if is_itimer t T then qh else due_insert t (unat c) qh) qi' \<and>
    fst ` set qi' = (if is_itimer t T then insert t (fst ` set qi) else fst ` set qi) \<and>
    tmrBuffer T' = (tmrBuffer T)(t := g (tmrBuffer T t))"
proof -
  let ?T = "timer_upd t g (timer_counter t c T)"
  note c = counter_ok[OF q out, of c]
  have i: "is_itimer t ?T = is_itimer t T" using g c(2) by (simp add: is_itimer_def)
  have u: "wuHTmr ?T = wuHTmr (timer_counter t c T)" by (simp add: timer_upd_def)
  have "queues_ok ?T qh qi" using c(1) by simp
  from enqueue_ok[OF this, of t now] out i obtain T' qi' where "timer_enqueue now t ?T = Some T'"
    "queues_ok T' (if is_itimer t T then qh else due_insert t (unat (WUN_ulCounter (wuHTmr ?T) t)) qh) qi'"
    "fst ` set qi' = (if is_itimer t T then insert t (fst ` set qi) else fst ` set qi)" "tmrBuffer T' = tmrBuffer ?T" by auto
  then show ?thesis using c(2,3) u by (cases "is_itimer t T") auto
qed

lemma delete_absent: "t \<notin> fst ` set q \<Longrightarrow> due_delete t q = q"
  by (force simp: due_delete_def filter_id_conv)

lemma taken_out:
  assumes ok: "timers_ok T qh qi"
  shows "\<exists>qi'. queues_ok (if timer_running T t then timer_dequeue now t T else T) (due_delete t qh) qi' \<and>
    fst ` set qi' = fst ` set qi - {t} \<and>
    tmrBuffer (if timer_running T t then timer_dequeue now t T else T) = tmrBuffer T"
proof -
  note m = timers_okD(3,4)[OF ok, of t]
  show ?thesis
  proof (cases "timer_running T t")
    case True
    then have "t \<in> fst ` set (if is_itimer t T then qi else qh)" using m by simp
    from dequeue_ok[OF timers_queues[OF ok] this, of now] show ?thesis using True m delete_absent
      by (cases "is_itimer t T") auto
  next
    case False
    then show ?thesis using m delete_absent[of t qh] timers_queues[OF ok] by auto
  qed
qed

lemma placed_ok:
  assumes ok: "timers_ok T qh qi"
    and q: "queues_ok T' (if is_itimer t T then due_delete t qh else due_insert t c (due_delete t qh)) qi'"
      "fst ` set qi' = (if is_itimer t T then insert t (fst ` set qi - {t}) else fst ` set qi - {t})"
    and x: "tmrBuffer T' = (tmrBuffer T)(t := x)" "TIMER_ucType x = TIMER_ucType (tmrBuffer T t)"
      "TIMER_ucType x \<noteq> LW_TYPE_TIMER_UNUSED" "TIMER_ucStatus x = LW_TIMER_STATUS_RUNNING"
      "and (TIMER_ulOption x) LW_OPTION_AUTO_RESTART \<noteq> 0 \<Longrightarrow> 0 < unat (TIMER_ulCounterSave x)"
    and c: "\<not> is_itimer t T \<Longrightarrow> 0 < c"
  shows "timers_ok T' (if is_itimer t T then due_delete t qh else due_insert t c (due_delete t qh)) qi'"
proof -
  note o = timers_okD[OF ok]
  have i: "is_itimer u T' = is_itimer u T" for u using x(1,2) by (simp add: is_itimer_def)
  have r: "timer_running T' u \<longleftrightarrow> u = t \<or> timer_running T u" for u using x(1,4) by (simp add: timer_running_def)
  have a: "timer_auto T' u = (if u = t then and (TIMER_ulOption x) LW_OPTION_AUTO_RESTART \<noteq> 0 else timer_auto T u)"
    "timer_save T' u = (if u = t then unat (TIMER_ulCounterSave x) else timer_save T u)" for u
    using x(1) by (simp_all add: timer_auto_def timer_save_def)
  let ?qh = "if is_itimer t T then due_delete t qh else due_insert t c (due_delete t qh)"
  show ?thesis
  proof (rule timers_okI)
    show "wakeup_ok (wuHTmr T') ?qh" "wakeup_ok (wuITmr T') qi'" "WU_i64LastTime (wuHTmr T') = 0" "\<not> WU_pfuncWakeup (wuHTmr T')"
      using q(1) by (simp_all add: queues_ok_def)
    show "u \<in> fst ` set ?qh \<longleftrightarrow> timer_running T' u \<and> \<not> is_itimer u T'" for u
      using o(3)[of u] unfolding r i by (cases "is_itimer t T") auto
    show "u \<in> fst ` set qi' \<longleftrightarrow> timer_running T' u \<and> is_itimer u T'" for u
      using o(4)[of u] unfolding r i q(2) by auto
    show "timer_running T' u \<or> TIMER_ucStatus (tmrBuffer T' u) = LW_TIMER_STATUS_STOP" for u
      using o(5)[of u] r[of u] x(1) by auto
    show "TIMER_ucType (tmrBuffer T' u) \<noteq> LW_TYPE_TIMER_UNUSED" if "timer_running T' u" for u
      using o(10)[of u] that r[of u] x(1,3) by auto
    show "0 < timer_save T' u" if "timer_running T' u" "timer_auto T' u" for u
      using o(6)[of u] that x(5) unfolding r a by (auto split: if_splits)
    show "0 < snd y" if "y \<in> set ?qh" for y
      using o(7)[of y] that c by (auto simp: due_delete_def split: if_splits)
  qed
qed

lemma Start_ok:
  assumes ok: "timers_ok T qh qi" and h: "handle_ok ulId T" and args: "cb \<noteq> 0" "n \<noteq> 0" "and opt LW_OPTION_AUTO_RESTART \<noteq> 0 \<Longrightarrow> p \<noteq> 0"
  obtains T' qi' where "TimerStartEx now ulId n p opt cb arg T = Some (0, T')"
    "timers_ok T' (if is_itimer (ObjectGetIndex ulId) T then due_delete (ObjectGetIndex ulId) qh
       else due_insert (ObjectGetIndex ulId) (unat n) (due_delete (ObjectGetIndex ulId) qh)) qi'"
    "tmrBuffer T' = (tmrBuffer T)(ObjectGetIndex ulId := \<lparr>TIMER_ucType = TIMER_ucType (tmrBuffer T (ObjectGetIndex ulId)),
       TIMER_ulCounterSave = p, TIMER_ulOption = opt, TIMER_ucStatus = LW_TIMER_STATUS_RUNNING, TIMER_cbRoutine = cb,
       TIMER_pvArg = arg, TIMER_u64Overrun = 0\<rparr>)"
proof -
  let ?t = "ObjectGetIndex ulId"
  let ?D = "if timer_running T ?t then timer_dequeue now ?t T else T"
  let ?g = "\<lambda>t. t\<lparr>TIMER_ulCounterSave := p, TIMER_ulOption := opt, TIMER_ucStatus := LW_TIMER_STATUS_RUNNING,
    TIMER_cbRoutine := cb, TIMER_pvArg := arg, TIMER_u64Overrun := 0\<rparr>"
  obtain qi1 where d: "queues_ok ?D (due_delete ?t qh) qi1" "fst ` set qi1 = fst ` set qi - {?t}" "tmrBuffer ?D = tmrBuffer T"
    using taken_out[OF ok, of ?t now] by blast
  have i: "is_itimer ?t ?D = is_itimer ?t T" using d(3) by (simp add: is_itimer_def)
  have out: "?t \<notin> fst ` set (if is_itimer ?t ?D then qi1 else due_delete ?t qh)" using d(2) by simp
  obtain T' qi' where p: "timer_enqueue now ?t (timer_upd ?t ?g (timer_counter ?t n ?D)) = Some T'"
    "queues_ok T' (if is_itimer ?t T then due_delete ?t qh else due_insert ?t (unat n) (due_delete ?t qh)) qi'"
    "fst ` set qi' = (if is_itimer ?t T then insert ?t (fst ` set qi - {?t}) else fst ` set qi - {?t})"
    "tmrBuffer T' = (tmrBuffer T)(?t := ?g (tmrBuffer T ?t))"
    using place_ok[OF d(1) out, of ?g now n] d(2) unfolding i d(3) by auto
  have pn: "0 < unat n" using args(2) by (simp add: unat_gt_0)
  have "timers_ok T' (if is_itimer ?t T then due_delete ?t qh else due_insert ?t (unat n) (due_delete ?t qh)) qi'"
    by (rule placed_ok[OF ok p(2,3,4)]) (use h args pn in \<open>auto simp: handle_ok_def Timer_Type_Invalid_def unat_gt_0\<close>)
  moreover have "TimerStartEx now ulId n p opt cb arg T = Some (0, T')"
    using p(1) h args unfolding TimerStartEx_def handle_ok_def timer_running_def by (auto simp: Let_def)
  moreover have "?g x = \<lparr>TIMER_ucType = TIMER_ucType x, TIMER_ulCounterSave = p, TIMER_ulOption = opt,
    TIMER_ucStatus = LW_TIMER_STATUS_RUNNING, TIMER_cbRoutine = cb, TIMER_pvArg = arg, TIMER_u64Overrun = 0\<rparr>" for x
    by (cases x) simp
  ultimately show thesis using that p(4) by metis
qed

lemma Reset_ok:
  assumes ok: "timers_ok T qh qi" and h: "handle_ok ulId T" and run: "timer_running T (ObjectGetIndex ulId)"
    and save: "timer_save T (ObjectGetIndex ulId) \<noteq> 0"
  obtains T' qi' where "TimerReset now ulId T = Some (0, T')"
    "timers_ok T' (if is_itimer (ObjectGetIndex ulId) T then due_delete (ObjectGetIndex ulId) qh
       else due_insert (ObjectGetIndex ulId) (timer_save T (ObjectGetIndex ulId)) (due_delete (ObjectGetIndex ulId) qh)) qi'"
    "tmrBuffer T' = tmrBuffer T"
proof -
  let ?t = "ObjectGetIndex ulId" and ?c = "TIMER_ulCounterSave (tmrBuffer T (ObjectGetIndex ulId))"
  let ?D = "timer_dequeue now ?t T"
  obtain qi1 where d: "queues_ok ?D (due_delete ?t qh) qi1" "fst ` set qi1 = fst ` set qi - {?t}" "tmrBuffer ?D = tmrBuffer T"
    using taken_out[OF ok, of ?t now] run by auto
  have i: "is_itimer ?t ?D = is_itimer ?t T" using d(3) by (simp add: is_itimer_def)
  have out: "?t \<notin> fst ` set (if is_itimer ?t ?D then qi1 else due_delete ?t qh)" using d(2) by simp
  have id: "timer_upd ?t (\<lambda>x. x) U = U" for U by (simp add: timer_upd_def)
  obtain T' qi' where p: "timer_enqueue now ?t (timer_counter ?t ?c ?D) = Some T'"
    "queues_ok T' (if is_itimer ?t T then due_delete ?t qh else due_insert ?t (unat ?c) (due_delete ?t qh)) qi'"
    "fst ` set qi' = (if is_itimer ?t T then insert ?t (fst ` set qi - {?t}) else fst ` set qi - {?t})"
    "tmrBuffer T' = (tmrBuffer T)(?t := tmrBuffer T ?t)"
    using place_ok[OF d(1) out, of "\<lambda>x. x" now ?c] d(2) unfolding i d(3) id by auto
  have "timers_ok T' (if is_itimer ?t T then due_delete ?t qh else due_insert ?t (unat ?c) (due_delete ?t qh)) qi'"
    by (rule placed_ok[OF ok p(2,3,4)])
      (use h run save in \<open>auto simp: handle_ok_def Timer_Type_Invalid_def timer_running_def timer_save_def\<close>)
  moreover have "TimerReset now ulId T = Some (0, T')"
    using p(1) h run d(3) unfolding TimerReset_def handle_ok_def timer_running_def
    by (auto simp: Let_def LW_TIMER_STATUS_RUNNING_def LW_TIMER_STATUS_STOP_def)
  moreover have "tmrBuffer T' = tmrBuffer T" using p(4) by simp
  ultimately show thesis using that unfolding timer_save_def by blast
qed

lemma Cancel_ok:
  assumes ok: "timers_ok T qh qi" and h: "handle_ok ulId T" and run: "timer_running T (ObjectGetIndex ulId)"
  obtains T' qi' where "TimerCancel now ulId T = (0, T')" "timers_ok T' (due_delete (ObjectGetIndex ulId) qh) qi'"
    "tmrBuffer T' = (tmrBuffer T)(ObjectGetIndex ulId := (tmrBuffer T (ObjectGetIndex ulId))\<lparr>TIMER_ucStatus := LW_TIMER_STATUS_STOP\<rparr>)"
proof -
  let ?t = "ObjectGetIndex ulId" and ?g = "\<lambda>t. t\<lparr>TIMER_ucStatus := LW_TIMER_STATUS_STOP\<rparr>"
  let ?T = "timer_upd ?t ?g T"
  note o = timers_okD[OF ok]
  have i: "is_itimer u ?T = is_itimer u T" for u by (simp add: is_itimer_def)
  have q: "queues_ok ?T qh qi" using timers_queues[OF ok] by simp
  have inq: "?t \<in> fst ` set (if is_itimer ?t ?T then qi else qh)" using o(3,4)[of ?t] run i by simp
  have dq: "(if is_itimer ?t ?T then qh else due_delete ?t qh) = due_delete ?t qh"
    using o(3)[of ?t] i delete_absent[of ?t qh] by auto
  obtain qi' where d: "queues_ok (timer_dequeue now ?t ?T) (due_delete ?t qh) qi'" "fst ` set qi' = fst ` set qi - {?t}"
    "tmrBuffer (timer_dequeue now ?t ?T) = tmrBuffer ?T"
  proof -
    obtain r where r: "queues_ok (timer_dequeue now ?t ?T) (due_delete ?t qh) r"
      "fst ` set r = (if is_itimer ?t ?T then fst ` set qi - {?t} else fst ` set qi)"
      "tmrBuffer (timer_dequeue now ?t ?T) = tmrBuffer ?T" using dequeue_ok[OF q inq, of now] unfolding dq by blast
    have "fst ` set r = fst ` set qi - {?t}" using r(2) o(4)[of ?t] i by auto
    then show thesis using that r(1,3) by blast
  qed
  let ?T' = "timer_counter ?t 0 (timer_dequeue now ?t ?T)"
  have out: "?t \<notin> fst ` set (if is_itimer ?t (timer_dequeue now ?t ?T) then qi' else due_delete ?t qh)" using d(2) by simp
  note c = counter_ok(1,2)[OF d(1) out, of 0]
  have b: "tmrBuffer ?T' = (tmrBuffer T)(?t := ?g (tmrBuffer T ?t))" using c(2) d(3) by simp
  have r: "timer_running ?T' u \<longleftrightarrow> u \<noteq> ?t \<and> timer_running T u" for u
    unfolding timer_running_def b by (simp add: LW_TIMER_STATUS_RUNNING_def LW_TIMER_STATUS_STOP_def)
  have s: "is_itimer u ?T' = is_itimer u T" "timer_auto ?T' u = timer_auto T u" "timer_save ?T' u = timer_save T u"
    "TIMER_ucType (tmrBuffer ?T' u) = TIMER_ucType (tmrBuffer T u)" for u
    unfolding is_itimer_def timer_auto_def timer_save_def b by simp_all
  have "timers_ok ?T' (due_delete ?t qh) qi'"
  proof (rule timers_okI)
    show "wakeup_ok (wuHTmr ?T') (due_delete ?t qh)" "wakeup_ok (wuITmr ?T') qi'" "WU_i64LastTime (wuHTmr ?T') = 0"
      "\<not> WU_pfuncWakeup (wuHTmr ?T')" using c(1) by (simp_all add: queues_ok_def)
    show "u \<in> fst ` set (due_delete ?t qh) \<longleftrightarrow> timer_running ?T' u \<and> \<not> is_itimer u ?T'" for u
      unfolding due_delete_fst r s(1) using o(3)[of u] by blast
    show "u \<in> fst ` set qi' \<longleftrightarrow> timer_running ?T' u \<and> is_itimer u ?T'" for u
      unfolding d(2) r s(1) using o(4)[of u] by blast
    show "timer_running ?T' u \<or> TIMER_ucStatus (tmrBuffer ?T' u) = LW_TIMER_STATUS_STOP" for u
      unfolding r b using o(5)[of u] by auto
    show "TIMER_ucType (tmrBuffer ?T' u) \<noteq> LW_TYPE_TIMER_UNUSED" if "timer_running ?T' u" for u
      using that o(10)[of u] unfolding r s(4) by blast
    show "0 < timer_save ?T' u" if "timer_running ?T' u" "timer_auto ?T' u" for u
      using that o(6)[of u] unfolding r s by blast
    show "0 < snd y" if "y \<in> set (due_delete ?t qh)" for y using that o(7)[of y] by (simp add: due_delete_def)
  qed
  moreover have "TimerCancel now ulId T = (0, ?T')"
    using h run unfolding TimerCancel_def handle_ok_def timer_running_def
    by (simp add: Let_def LW_TIMER_STATUS_RUNNING_def LW_TIMER_STATUS_STOP_def)
  ultimately show thesis using that b by blast
qed

end
