(* ===== verification/TimerProps.thy ===== *)
theory TimerProps
  imports TimerSpec
begin

text \<open>
  The states that timers reach by creating, starting, resetting and cancelling them, by ticks and by rounds of
  the thread that serves the other queue, when it is not late, and the properties of the timers in these states.  The routines write themselves into a list of calls.
\<close>

section \<open>Reachable states\<close>

definition calls :: "nat \<Rightarrow> nat \<Rightarrow> (nat \<times> nat) list \<Rightarrow> (nat \<times> nat) list" where
  "calls r a w = w @ [(r, a)]"

inductive timer_reach :: "timers \<Rightarrow> bool" where
  boot: "\<forall>t. Timer_Type_Invalid t T \<and> TIMER_ucStatus (tmrBuffer T t) = LW_TIMER_STATUS_STOP \<Longrightarrow>
    \<forall>t. \<not> WUN_bInQ (wuHTmr T) t \<and> \<not> WUN_bInQ (wuITmr T) t \<Longrightarrow> WU_i64LastTime (wuHTmr T) = 0 \<Longrightarrow>
    timer_reach (T\<lparr>wuHTmr := WAKEUP_INIT False (wuHTmr T), wuITmr := WAKEUP_INIT True (wuITmr T)\<rparr>)"
| create: "timer_reach T \<Longrightarrow> Timer_Type_Invalid t T \<Longrightarrow> timer_reach (TimerCreate b t T)"
| start: "timer_reach T \<Longrightarrow> TimerStartEx now ulId n p opt cb arg T = Some (r, T') \<Longrightarrow> timer_reach T'"
| cancel: "timer_reach T \<Longrightarrow> TimerCancel now ulId T = (r, T') \<Longrightarrow> timer_reach T'"
| reset: "timer_reach T \<Longrightarrow> timer_save T (ObjectGetIndex ulId) \<noteq> 0 \<Longrightarrow> TimerReset now ulId T = Some (r, T') \<Longrightarrow> timer_reach T'"
| tick: "timer_reach T \<Longrightarrow> TimerHTicks (quiet calls) (T, w) = Some (T', w') \<Longrightarrow> timer_reach T'"
| sleep: "timer_reach T \<Longrightarrow> itimer_sleep hz now T = ((n, b), T') \<Longrightarrow> timer_reach T'"
| wake: "timer_reach T \<Longrightarrow> on_time now T \<Longrightarrow> itimer_wake (quiet calls) now b (T, w) = Some (T', w') \<Longrightarrow> timer_reach T'"

lemma start_refused:
  assumes "TimerStartEx now ulId n p opt cb arg T = Some (r, T')"
  shows "T' = T \<or> handle_ok ulId T \<and> cb \<noteq> 0 \<and> n \<noteq> 0 \<and> (and opt LW_OPTION_AUTO_RESTART \<noteq> 0 \<longrightarrow> p \<noteq> 0)"
  using assms unfolding TimerStartEx_def handle_ok_def by (auto simp: Let_def split: if_splits)

lemma cancel_refused:
  assumes "timers_ok T qh qi" "TimerCancel now ulId T = (r, T')"
  shows "T' = T \<or> handle_ok ulId T \<and> timer_running T (ObjectGetIndex ulId)"
  using assms(2) timers_okD(5)[OF assms(1), of "ObjectGetIndex ulId"] unfolding TimerCancel_def handle_ok_def
  by (auto simp: Let_def split: if_splits)

lemma reset_refused:
  assumes "timers_ok T qh qi" "TimerReset now ulId T = Some (r, T')"
  shows "T' = T \<or> handle_ok ulId T \<and> timer_running T (ObjectGetIndex ulId)"
  using assms(2) timers_okD(5)[OF assms(1), of "ObjectGetIndex ulId"] unfolding TimerReset_def handle_ok_def
  by (auto simp: Let_def split: if_splits)

lemma node_init_ok: "wakeup_ok W q \<Longrightarrow> a \<notin> fst ` set q \<Longrightarrow> wakeup_ok (WAKEUP_NODE_INIT a W) q"
  "WU_i64LastTime (WAKEUP_NODE_INIT a W) = WU_i64LastTime W" "WU_pfuncWakeup (WAKEUP_NODE_INIT a W) = WU_pfuncWakeup W"
proof -
  assume q: "wakeup_ok W q" "a \<notin> fst ` set q"
  have "same_links (set (map fst q)) (wu_line W) (set_prev a None (set_next a None (wu_line W)))"
    using q(2) by (auto simp: same_links_def)
  then have "line (set_prev a None (set_next a None (wu_line W))) (WU_plineHeader W) (map fst q)"
    using q(1) line_frame by (simp add: wakeup_ok_def)
  moreover have "a \<notin> set (map fst q)" using q(2) by simp
  ultimately show "wakeup_ok (WAKEUP_NODE_INIT a W) q"
    using q unfolding wakeup_ok_def WAKEUP_NODE_INIT_def set_in_queue_def set_counter_def by auto
qed (simp_all add: WAKEUP_NODE_INIT_def set_in_queue_def set_counter_def)

lemma create_ok:
  assumes ok: "timers_ok T qh qi" and t: "Timer_Type_Invalid t T"
  shows "timers_ok (TimerCreate b t T) qh qi"
proof -
  note o = timers_okD[OF ok]
  let ?C = "TimerCreate b t T"
  have nr: "\<not> timer_running T t" using o(10)[of t] t by (auto simp: Timer_Type_Invalid_def)
  have q: "t \<notin> fst ` set qh" "t \<notin> fst ` set qi" using o(3,4)[of t] nr by blast+
  have b: "tmrBuffer ?C u = tmrBuffer T u" if "u \<noteq> t" for u
    using that by (simp add: TimerCreate_def Let_def timer_upd_def)
  have bt: "TIMER_ucStatus (tmrBuffer ?C t) = LW_TIMER_STATUS_STOP" by (simp add: TimerCreate_def Let_def timer_upd_def)
  have r: "timer_running ?C u \<longleftrightarrow> timer_running T u" for u
    using b[of u] bt nr by (cases "u = t") (simp_all add: timer_running_def LW_TIMER_STATUS_RUNNING_def LW_TIMER_STATUS_STOP_def)
  have s: "u \<noteq> t \<Longrightarrow> is_itimer u ?C = is_itimer u T" "u \<noteq> t \<Longrightarrow> timer_auto ?C u = timer_auto T u"
    "u \<noteq> t \<Longrightarrow> timer_save ?C u = timer_save T u" for u
    using b[of u] by (simp_all add: is_itimer_def timer_auto_def timer_save_def)
  have w: "wuHTmr ?C = (if b then wuHTmr T else WAKEUP_NODE_INIT t (wuHTmr T))"
    "wuITmr ?C = (if b then WAKEUP_NODE_INIT t (wuITmr T) else wuITmr T)"
    by (simp_all add: TimerCreate_def Let_def timer_upd_def)
  show ?thesis
  proof (rule timers_okI)
    show "wakeup_ok (wuHTmr ?C) qh" "wakeup_ok (wuITmr ?C) qi" "WU_i64LastTime (wuHTmr ?C) = 0" "\<not> WU_pfuncWakeup (wuHTmr ?C)"
      unfolding w using o(1,2,8,9) node_init_ok q by auto
    show "u \<in> fst ` set qh \<longleftrightarrow> timer_running ?C u \<and> \<not> is_itimer u ?C" for u
      unfolding r using o(3)[of u] s(1)[of u] nr by (cases "u = t") auto
    show "u \<in> fst ` set qi \<longleftrightarrow> timer_running ?C u \<and> is_itimer u ?C" for u
      unfolding r using o(4)[of u] s(1)[of u] nr by (cases "u = t") auto
    show "timer_running ?C u \<or> TIMER_ucStatus (tmrBuffer ?C u) = LW_TIMER_STATUS_STOP" for u
      unfolding r using o(5)[of u] b[of u] bt by (cases "u = t") auto
    show "TIMER_ucType (tmrBuffer ?C u) \<noteq> LW_TYPE_TIMER_UNUSED" if "timer_running ?C u" for u
      using that nr o(10)[of u] b[of u] unfolding r by (cases "u = t") auto
    show "0 < timer_save ?C u" if "timer_running ?C u" "timer_auto ?C u" for u
      using that nr o(6)[of u] s(2,3)[of u] unfolding r by (cases "u = t") auto
    show "0 < snd y" if "y \<in> set qh" for y by (rule o(7)[OF that])
  qed
qed

lemma timer_reach_ok: "timer_reach T \<Longrightarrow> \<exists>qh qi. timers_ok T qh qi"
proof (induction rule: timer_reach.induct)
  case (boot T)
  let ?T = "T\<lparr>wuHTmr := WAKEUP_INIT False (wuHTmr T), wuITmr := WAKEUP_INIT True (wuITmr T)\<rparr>"
  have "timers_ok ?T [] []"
    by (rule timers_okI) (use boot in \<open>auto simp: wakeup_ok_def WAKEUP_INIT_def timer_running_def
      LW_TIMER_STATUS_RUNNING_def LW_TIMER_STATUS_STOP_def\<close>)
  then show ?case by blast
next
  case (create T t b)
  then show ?case using create_ok by blast
next
  case (start T now ulId n p opt cb arg r T')
  then obtain qh qi where ok: "timers_ok T qh qi" by blast
  from start_refused[OF start.hyps(2)] show ?case
  proof (elim disjE conjE)
    assume h: "handle_ok ulId T" "cb \<noteq> 0" "n \<noteq> 0" "and opt LW_OPTION_AUTO_RESTART \<noteq> 0 \<longrightarrow> p \<noteq> 0"
    show ?thesis using Start_ok[OF ok h(1-3), of opt p now arg] h(4) start.hyps(2) by (metis option.inject prod.inject)
  qed (use ok in blast)
next
  case (cancel T now ulId r T')
  then obtain qh qi where ok: "timers_ok T qh qi" by blast
  from cancel_refused[OF ok cancel.hyps(2)] show ?case
    using Cancel_ok[OF ok, of ulId now] cancel.hyps(2) ok by (metis prod.inject)
next
  case (reset T ulId now r T')
  then obtain qh qi where ok: "timers_ok T qh qi" by blast
  from reset_refused[OF ok reset.hyps(3)] show ?case
    using Reset_ok[OF ok, of ulId now] reset.hyps(2,3) ok by (metis option.inject prod.inject)
next
  case (tick T w T' w')
  then obtain qh qi where ok: "timers_ok T qh qi" by blast
  obtain U qh' where u: "TimerHTicks (quiet calls) (T, w) =
      Some (U, run_routines calls T (due_now 1 qh) w)" "timers_ok U qh' qi"
    by (rule HTicks_ok[OF ok, of calls w])
  then have "U = T'" using tick.hyps(2) by simp
  then show ?case using u(2) by blast
next
  case (sleep T hz now n b T')
  then show ?case using Sleep_ok(2) by blast
next
  case (wake T now b w T' w')
  then obtain qh qi where ok: "timers_ok T qh qi" by blast
  obtain U qi' where u: "itimer_wake (quiet calls) now False (T, w) =
      Some (U, run_routines calls T (due_now (unat (elapsed now (wuITmr T))) qi) w)" "timers_ok U qh qi'"
    by (rule ITimerWake_ok[OF ok wake.hyps(2), of calls w])
  then show ?case using wake.hyps(3) ok by (cases b) (auto simp: itimer_wake_def)
qed

section \<open>Ticks\<close>

lemma run_calls: "run_routines calls T cs w = w @ map (\<lambda>t. (TIMER_cbRoutine (tmrBuffer T t), TIMER_pvArg (tmrBuffer T t))) cs"
  unfolding run_routines_def by (induction cs arbitrary: w) (simp_all add: calls_def)

text \<open>A tick of a reachable state, in terms of the times that are left.\<close>

lemma tick_step:
  assumes "timer_reach T"
  obtains T' ts where "TimerHTicks (quiet calls) (T, w) =
      Some (T', w @ map (\<lambda>t. (TIMER_cbRoutine (tmrBuffer T t), TIMER_pvArg (tmrBuffer T t))) ts)"
    "timer_reach T'" "distinct ts" "set ts = {t. time_left T t = Some 1}" "time_left T' = left_after_tick T 1 (time_left T)"
    "tmrBuffer T' = expired T ts"
proof -
  obtain qh qi where ok: "timers_ok T qh qi" using timer_reach_ok[OF assms] by blast
  let ?ts = "due_now 1 qh"
  obtain T' qh' where u: "TimerHTicks (quiet calls) (T, w) = Some (T', run_routines calls T ?ts w)"
    "timers_ok T' qh' qi" "map_of qh' = left_after_tick T 1 (map_of qh)" "tmrBuffer T' = expired T ?ts"
    by (rule HTicks_ok[OF ok, of calls w])
  have d: "distinct (map fst qh)" by (rule wakeup_distinct[OF timers_okD(1)[OF ok]])
  have l: "time_left T = map_of qh" "time_left T' = map_of qh'" using time_left[OF ok] time_left[OF u(2)] by (simp_all add: fun_eq_iff)
  have "distinct ?ts" using d by (simp add: due_now_def distinct_map_filter)
  moreover have "set ?ts = {t. time_left T t = Some 1}" unfolding l using due_now_set[OF d] by blast
  ultimately show thesis using that[OF u(1)[unfolded run_calls] timer_reach.tick[OF assms u(1)]] u(3,4) l by simp
qed

fun h_ticks :: "nat \<Rightarrow> timers \<times> (nat \<times> nat) list \<Rightarrow> (timers \<times> (nat \<times> nat) list) option" where
  "h_ticks 0 s = Some s"
| "h_ticks (Suc k) s = Option.bind (TimerHTicks (quiet calls) s) (h_ticks k)"

text \<open>How often a timer is due in \<open>k\<close> ticks when \<open>d\<close> are left at the start.\<close>

definition due_count :: "nat \<Rightarrow> nat option \<Rightarrow> nat \<Rightarrow> nat" where
  "due_count d per k = (if k < d then 0 else case per of None \<Rightarrow> 1 | Some p \<Rightarrow> 1 + (k - d) div p)"

lemma due_count_Suc:
  "1 < d \<Longrightarrow> due_count d per (Suc k) = due_count (d - 1) per k"
  "due_count 1 None (Suc k) = 1"
  "0 < p \<Longrightarrow> due_count 1 (Some p) (Suc k) = 1 + due_count p (Some p) k"
proof -
  assume d: "1 < d"
  then have e: "Suc k < d \<longleftrightarrow> k < d - 1" "Suc k - d = k - (d - 1)" by linarith+
  show "due_count d per (Suc k) = due_count (d - 1) per k" unfolding due_count_def e ..
next
  show "due_count 1 None (Suc k) = 1" by (simp add: due_count_def)
next
  assume "0 < p"
  then show "due_count 1 (Some p) (Suc k) = 1 + due_count p (Some p) k" by (simp add: due_count_def le_div_geq)
qed

text \<open>No other timer makes the same call.\<close>

definition only_caller :: "timers \<Rightarrow> addr \<Rightarrow> bool" where
  "only_caller T t \<longleftrightarrow> (\<forall>u. u \<noteq> t \<longrightarrow> timer_running T u \<longrightarrow>
     (TIMER_cbRoutine (tmrBuffer T u), TIMER_pvArg (tmrBuffer T u)) \<noteq> (TIMER_cbRoutine (tmrBuffer T t), TIMER_pvArg (tmrBuffer T t)))"

lemma left_running: "time_left T t = Some d \<Longrightarrow> timer_running T t"
  by (simp add: time_left_def split: if_splits)

lemma count_one:
  "distinct ts \<Longrightarrow> (\<And>u. u \<in> set ts \<Longrightarrow> g u = g t \<Longrightarrow> u = t) \<Longrightarrow> count_list (map g ts) (g t) = (if t \<in> set ts then 1 else 0)"
proof (induction ts)
  case (Cons v ts)
  have "count_list (map g ts) (g t) = (if t \<in> set ts then 1 else 0)" using Cons by simp
  moreover have "g v = g t \<longleftrightarrow> v = t" using Cons.prems(2)[of v] by auto
  ultimately show ?case using Cons.prems(1) by auto
qed simp

lemma ticks_count:
  assumes "timer_reach T" and "only_caller T t"
    and "time_left T t = None \<or> (\<exists>d. time_left T t = Some d \<and> 0 < d)"
  shows "\<exists>T' w'. h_ticks k (T, w) = Some (T', w') \<and> timer_reach T' \<and>
    count_list w' (TIMER_cbRoutine (tmrBuffer T t), TIMER_pvArg (tmrBuffer T t)) =
      count_list w (TIMER_cbRoutine (tmrBuffer T t), TIMER_pvArg (tmrBuffer T t)) +
      (case time_left T t of None \<Rightarrow> 0 | Some d \<Rightarrow> due_count d (timer_period T t) k)"
  using assms
proof (induction k arbitrary: T w)
  case 0
  then show ?case by (auto simp: due_count_def split: option.splits)
next
  case (Suc k)
  let ?g = "\<lambda>T u. (TIMER_cbRoutine (tmrBuffer T u), TIMER_pvArg (tmrBuffer T u))"
  obtain U ts where u: "TimerHTicks (quiet calls) (T, w) = Some (U, w @ map (?g T) ts)" "timer_reach U" "distinct ts"
    "set ts = {t. time_left T t = Some 1}" "time_left U = left_after_tick T 1 (time_left T)" "tmrBuffer U = expired T ts"
    by (rule tick_step[OF Suc.prems(1), of w])
  have g: "?g U = ?g T" and p: "timer_period U t = timer_period T t"
    using expired_same[OF u(6)] u(6) by (simp_all add: timer_period_def)
  have "timer_running U v \<Longrightarrow> timer_running T v" for v using expired_running[OF u(6)] by blast
  then have only: "only_caller U t" using Suc.prems(2) unfolding only_caller_def fun_cong[OF g] by blast
  have uq: "u = t" if "u \<in> set ts" "?g T u = ?g T t" for u
    using that Suc.prems(2) left_running[of T u 1] unfolding only_caller_def u(4) by blast
  from count_one[where g = "?g T" and t = t, OF u(3) uq] have c: "count_list (w @ map (?g T) ts) (?g T t) =
      count_list w (?g T t) + (if time_left T t = Some 1 then 1 else 0)" by (simp add: u(4))
  have pp: "0 < q" if "timer_period T t = Some q" for q using that by (auto simp: timer_period_def split: if_splits)
  have "time_left U t = None \<or> (\<exists>d. time_left U t = Some d \<and> 0 < d)"
    using Suc.prems(3) pp unfolding u(5) left_after_tick_def by (cases "timer_period T t") (auto split: option.splits)
  from Suc.IH[OF u(2) only this, of "w @ map (?g T) ts"] obtain T' w' where
    IH: "h_ticks k (U, w @ map (?g T) ts) = Some (T', w')" "timer_reach T'"
    "count_list w' (?g T t) = count_list w (?g T t) + (if time_left T t = Some 1 then 1 else 0) +
       (case time_left U t of None \<Rightarrow> 0 | Some d \<Rightarrow> due_count d (timer_period T t) k)"
    unfolding fun_cong[OF g] p c by blast
  have "(if time_left T t = Some 1 then 1 else 0) + (case time_left U t of None \<Rightarrow> 0 | Some d \<Rightarrow> due_count d (timer_period T t) k) =
      (case time_left T t of None \<Rightarrow> 0 | Some d \<Rightarrow> due_count d (timer_period T t) (Suc k))"
  proof (cases "time_left T t")
    case None
    then show ?thesis by (simp add: u(5) left_after_tick_def)
  next
    case (Some d)
    then have "0 < d" using Suc.prems(3) by simp
    then consider (once) "d = 1" "timer_period T t = None" | (again) q where "d = 1" "timer_period T t = Some q" | (later) "1 < d"
      using nat_neq_iff[of d 1] by (cases "timer_period T t") auto
    then show ?thesis
    proof cases
      case (again q)
      then show ?thesis using Some due_count_Suc(3)[OF pp[OF again(2)]] by (simp add: u(5) left_after_tick_def)
    qed (use Some due_count_Suc in \<open>simp_all add: u(5) left_after_tick_def\<close>)
  qed
  then show ?case using u(1) IH by (intro exI[of _ T'] exI[of _ w']) simp
qed

section \<open>Operations and rounds of the thread\<close>

lemma left_map: "timers_ok T qh qi \<Longrightarrow> time_left T = map_of qh"
  using time_left by (simp add: fun_eq_iff)

lemma start_left:
  assumes "timer_reach T" "handle_ok ulId T" "\<not> is_itimer (ObjectGetIndex ulId) T" "cb \<noteq> 0" "n \<noteq> 0"
    "and opt LW_OPTION_AUTO_RESTART \<noteq> 0 \<longrightarrow> p \<noteq> 0"
  shows "\<exists>T'. TimerStartEx now ulId n p opt cb arg T = Some (0, T') \<and> timer_reach T' \<and>
    time_left T' = (time_left T)(ObjectGetIndex ulId \<mapsto> unat n)"
proof -
  let ?t = "ObjectGetIndex ulId"
  obtain qh qi where ok: "timers_ok T qh qi" using timer_reach_ok[OF assms(1)] by blast
  obtain T' qi' where s: "TimerStartEx now ulId n p opt cb arg T = Some (0, T')"
    "timers_ok T' (if is_itimer ?t T then due_delete ?t qh else due_insert ?t (unat n) (due_delete ?t qh)) qi'"
    using Start_ok[OF ok assms(2,4,5), of opt p now arg] assms(6) by blast
  have "time_left T' = (map_of (due_delete ?t qh))(?t \<mapsto> unat n)"
    using left_map[OF s(2)] assms(3) map_of_due_insert[of ?t "due_delete ?t qh" "unat n"] by simp
  then have "time_left T' = (time_left T)(?t \<mapsto> unat n)" by (simp add: map_of_due_delete left_map[OF ok])
  then show ?thesis using s(1) timer_reach.start[OF assms(1) s(1)] by blast
qed

lemma cancel_left:
  assumes "timer_reach T" "handle_ok ulId T" "timer_running T (ObjectGetIndex ulId)"
  shows "\<exists>T'. TimerCancel now ulId T = (0, T') \<and> timer_reach T' \<and> time_left T' = (time_left T)(ObjectGetIndex ulId := None)"
proof -
  obtain qh qi where ok: "timers_ok T qh qi" using timer_reach_ok[OF assms(1)] by blast
  obtain T' qi' where s: "TimerCancel now ulId T = (0, T')" "timers_ok T' (due_delete (ObjectGetIndex ulId) qh) qi'"
    by (rule Cancel_ok[OF ok assms(2,3), of now])
  then show ?thesis using timer_reach.cancel[OF assms(1) s(1)]
    by (simp add: left_map[OF ok] left_map[OF s(2)] map_of_due_delete)
qed

lemma reset_left:
  assumes "timer_reach T" "handle_ok ulId T" "timer_running T (ObjectGetIndex ulId)" "\<not> is_itimer (ObjectGetIndex ulId) T"
    "timer_save T (ObjectGetIndex ulId) \<noteq> 0"
  shows "\<exists>T'. TimerReset now ulId T = Some (0, T') \<and> timer_reach T' \<and>
    time_left T' = (time_left T)(ObjectGetIndex ulId \<mapsto> timer_save T (ObjectGetIndex ulId))"
proof -
  let ?t = "ObjectGetIndex ulId" and ?c = "timer_save T (ObjectGetIndex ulId)"
  obtain qh qi where ok: "timers_ok T qh qi" using timer_reach_ok[OF assms(1)] by blast
  obtain T' qi' where s: "TimerReset now ulId T = Some (0, T')"
    "timers_ok T' (if is_itimer ?t T then due_delete ?t qh else due_insert ?t ?c (due_delete ?t qh)) qi'"
    by (rule Reset_ok[OF ok assms(2,3,5), of now])
  have "time_left T' = (map_of (due_delete ?t qh))(?t \<mapsto> ?c)"
    using left_map[OF s(2)] assms(4) map_of_due_insert[of ?t "due_delete ?t qh" ?c] by simp
  then have "time_left T' = (time_left T)(?t \<mapsto> ?c)" by (simp add: map_of_due_delete left_map[OF ok])
  then show ?thesis using s(1) timer_reach.reset[OF assms(1,5) s(1)] by blast
qed

lemma status_left:
  assumes "timer_reach T" "handle_ok ulId T" "\<not> is_itimer (ObjectGetIndex ulId) T"
  shows "TimerStatusEx now ulId T = Some (Inr (timer_running T (ObjectGetIndex ulId),
    TIMER_ulOption (tmrBuffer T (ObjectGetIndex ulId)),
    of_nat (case time_left T (ObjectGetIndex ulId) of None \<Rightarrow> 0 | Some d \<Rightarrow> d),
    TIMER_ulCounterSave (tmrBuffer T (ObjectGetIndex ulId))))"
proof -
  let ?t = "ObjectGetIndex ulId"
  obtain qh qi where ok: "timers_ok T qh qi" using timer_reach_ok[OF assms(1)] by blast
  note o = timers_okD[OF ok]
  have "WakeupStatus now ?t (wuHTmr T) = Some (of_nat (case time_left T ?t of None \<Rightarrow> 0 | Some d \<Rightarrow> d))"
    using WakeupStatus_ok[OF o(1) disjI1[OF o(8)], of now ?t] time_left[OF ok, of ?t] by (simp split: option.splits)
  moreover have "time_left T ?t = None" if "\<not> timer_running T ?t" using that by (simp add: time_left_def)
  ultimately show ?thesis using assms(2,3)
    unfolding TimerStatusEx_def handle_ok_def by (auto simp: Let_def timer_running_def)
qed

text \<open>The time left of a timer in the other queue.\<close>

definition itimer_left :: "i64 \<Rightarrow> timers \<Rightarrow> addr \<Rightarrow> nat option" where
  "itimer_left now T t = (if timer_running T t \<and> is_itimer t T then map_option unat (WakeupStatus now t (wuITmr T)) else None)"

lemma itimer_left:
  assumes ok: "timers_ok T qh qi" and now: "WU_i64LastTime (wuITmr T) = now"
  shows "itimer_left now T = map_of qi"
proof
  fix t
  show "itimer_left now T t = map_of qi t"
  proof (cases "map_of qi t")
    case None
    then have "t \<notin> fst ` set qi" by (simp add: map_of_eq_None_iff)
    then show ?thesis using None timers_okD(4)[OF ok, of t] by (auto simp: itimer_left_def)
  next
    case (Some d)
    have "t \<in> fst ` set qi" using map_of_SomeD[OF Some] by force
    then have "timer_running T t \<and> is_itimer t T" using timers_okD(4)[OF ok, of t] by blast
    moreover have "d < 2 ^ 32" by (rule wakeup_bound[OF timers_okD(2)[OF ok] map_of_SomeD[OF Some]])
    then have "unat (of_nat d :: u32) = d" by (simp add: unat_of_nat)
    ultimately show ?thesis using Some WakeupStatus_ok[OF timers_okD(2)[OF ok] disjI2[OF now], of t] by (simp add: itimer_left_def)
  qed
qed

lemma elapsed_exact: "WU_i64LastTime W = now \<Longrightarrow> elapsed (now + ucast n) W = n"
  by (auto simp: elapsed_def bit_simps intro: bit_word_eqI)

lemma round_step:
  assumes "timer_reach T" "itimer_sleep hz now T = ((n, False), T1)"
  obtains T' ts where "itimer_wake (quiet calls) (now + ucast n) False (T1, w) =
      Some (T', w @ map (\<lambda>t. (TIMER_cbRoutine (tmrBuffer T t), TIMER_pvArg (tmrBuffer T t))) ts)"
    "timer_reach T'" "ts \<noteq> []" "distinct ts" "set ts = {t. itimer_left now T1 t = Some (unat n)}"
    "itimer_left (now + ucast n) T' = left_after_tick T (unat n) (itimer_left now T1)"
    "\<forall>t d. itimer_left now T1 t = Some d \<longrightarrow> unat n \<le> d"
proof -
  obtain qh qi where ok: "timers_ok T qh qi" using timer_reach_ok[OF assms(1)] by blast
  note s = Sleep_ok[OF ok assms(2)]
  have l1: "WU_i64LastTime (wuITmr T1) = now" and b1: "tmrBuffer T1 = tmrBuffer T" by (simp_all add: s(1) put_i_def)
  obtain a d q where q: "qi = (a, d) # q" using s(3) by (cases qi) auto
  have n: "unat n = d" using s(4) q by simp
  note el = elapsed_exact[OF l1, of n]
  have ok': "wakeup_ok (wuITmr T1) ((a, d) # q)" using timers_okD(2)[OF s(2)] q by simp
  have "n = WUN_ulCounter (wuITmr T1) a" using counter_of(1)[OF ok'] n by (simp add: word_unat_eq_iff)
  then have t: "on_time (now + ucast n) T1" using head_of[OF ok'] el by (simp add: on_time_def WAKEUP_GET_FIRST_def)
  let ?ts = "due_now (unat n) qi"
  obtain T' qi' where w: "itimer_wake (quiet calls) (now + ucast n) False (T1, w) = Some (T', run_routines calls T1 ?ts w)"
    "timers_ok T' qh qi'" "map_of qi' = left_after_tick T1 (unat n) (map_of qi)" "WU_i64LastTime (wuITmr T') = now + ucast n"
    by (rule ITimerWake_ok[OF s(2) t, of calls w, unfolded el])
  have d: "distinct (map fst qi)" by (rule wakeup_distinct[OF timers_okD(2)[OF ok]])
  note left = itimer_left[OF s(2) l1] itimer_left[OF w(2) w(4)]
  have per: "left_after_tick T1 = left_after_tick T"
    by (simp add: fun_eq_iff left_after_tick_def timer_period_def timer_auto_def timer_save_def b1 split: option.split)
  have "timer_reach T1" using timer_reach.sleep[OF assms(1)] assms(2) by blast
  then have "timer_reach T'" by (rule timer_reach.wake[OF _ t w(1)])
  moreover have "?ts \<noteq> []" using q n by (simp add: due_now_def)
  moreover have "distinct ?ts" using d by (simp add: due_now_def distinct_map_filter)
  moreover have "set ?ts = {t. itimer_left now T1 t = Some (unat n)}" unfolding left using due_now_set[OF d] by blast
  moreover have "unat n \<le> e" if "itimer_left now T1 t = Some e" for t e
    using that on_time_least[OF timers_okD(2)[OF s(2)] \<open>on_time (now + ucast n) T1\<close>] map_of_SomeD[of qi t e] unfolding left el by force
  ultimately show thesis using that[of T' ?ts] w(1,3) left unfolding run_calls b1 per by simp
qed

section \<open>A concrete system\<close>

definition demo_wakeup :: wakeup where
  "demo_wakeup = \<lparr>wu_line = \<lparr>LINE_plistNext = (\<lambda>_. None), LINE_plistPrev = (\<lambda>_. None)\<rparr>, WUN_bInQ = (\<lambda>_. False),
     WUN_ulCounter = (\<lambda>_. 0), WU_plineHeader = None, WU_plineOp = None, WU_i64LastTime = 0, WU_pfuncWakeup = False\<rparr>"

definition demo_slot :: timer where
  "demo_slot = \<lparr>TIMER_ucType = LW_TYPE_TIMER_UNUSED, TIMER_ulCounterSave = 0, TIMER_ulOption = 0,
     TIMER_ucStatus = LW_TIMER_STATUS_STOP, TIMER_cbRoutine = 0, TIMER_pvArg = 0, TIMER_u64Overrun = 0\<rparr>"

definition demo_boot_timers :: timers where
  "demo_boot_timers = (let T = \<lparr>tmrBuffer = \<lambda>_. demo_slot, wuHTmr = demo_wakeup, wuITmr = demo_wakeup\<rparr> in
     T\<lparr>wuHTmr := WAKEUP_INIT False (wuHTmr T), wuITmr := WAKEUP_INIT True (wuITmr T)\<rparr>)"

definition demo_timers :: timers where
  "demo_timers = TimerCreate True 3 (TimerCreate True 2 (TimerCreate False 1 (TimerCreate False 0 demo_boot_timers)))"

text \<open>The handle of the timer with an index.\<close>

definition demo_id :: "u32 \<Rightarrow> u32" where
  "demo_id i = 0x38000000 + i"

lemma demo_ids: "ObjectGetIndex (demo_id 0) = 0" "ObjectGetIndex (demo_id 1) = 1" "ObjectGetIndex (demo_id 2) = 2"
  "ObjectGetIndex (demo_id 3) = 3" "ObjectClassOK (demo_id 0) OBJECT_TIMER" "ObjectClassOK (demo_id 1) OBJECT_TIMER"
  "ObjectClassOK (demo_id 2) OBJECT_TIMER" "ObjectClassOK (demo_id 3) OBJECT_TIMER"
  by code_simp+

lemma demo_types: "TIMER_ucType (tmrBuffer demo_timers t) =
    (if t = 0 \<or> t = 1 then LW_TYPE_TIMER_HTIMER else if t = 2 \<or> t = 3 then LW_TYPE_TIMER_ITIMER else LW_TYPE_TIMER_UNUSED)"
  "TIMER_ucStatus (tmrBuffer demo_timers t) = LW_TIMER_STATUS_STOP"
  by (simp_all add: demo_timers_def demo_boot_timers_def TimerCreate_def Let_def timer_upd_def demo_slot_def)

lemma demo_timers_reach: "timer_reach demo_timers"
  unfolding demo_timers_def
proof (intro timer_reach.create)
  let ?T = "\<lparr>tmrBuffer = \<lambda>_. demo_slot, wuHTmr = demo_wakeup, wuITmr = demo_wakeup\<rparr>"
  have "timer_reach (?T\<lparr>wuHTmr := WAKEUP_INIT False (wuHTmr ?T), wuITmr := WAKEUP_INIT True (wuITmr ?T)\<rparr>)"
    by (rule timer_reach.boot) (simp_all add: demo_slot_def demo_wakeup_def Timer_Type_Invalid_def)
  then show "timer_reach demo_boot_timers" by (simp add: demo_boot_timers_def Let_def)
qed (simp_all add: demo_boot_timers_def TimerCreate_def Let_def timer_upd_def demo_slot_def Timer_Type_Invalid_def)

lemma demo_handles: "handle_ok (demo_id 0) demo_timers" "handle_ok (demo_id 1) demo_timers"
  by (simp_all add: handle_ok_def demo_ids Timer_Index_Invalid_def LW_CFG_MAX_TIMERS_def Timer_Type_Invalid_def demo_types
      LW_TYPE_TIMER_HTIMER_def LW_TYPE_TIMER_UNUSED_def)

lemma demo_stopped: "\<not> timer_running demo_timers t"
  by (simp add: timer_running_def demo_types LW_TIMER_STATUS_RUNNING_def LW_TIMER_STATUS_STOP_def)

section \<open>Properties\<close>

text \<open>
  C20: A tick runs the routines of exactly the timers that have one tick left, each once; those that start
  themselves again have their interval left then, the others are stopped, and all other timers have one tick
  less.
\<close>

theorem timer_tick:
  assumes "timer_reach T"
  shows "\<exists>T' ts. TimerHTicks (quiet calls) (T, w) =
      Some (T', w @ map (\<lambda>t. (TIMER_cbRoutine (tmrBuffer T t), TIMER_pvArg (tmrBuffer T t))) ts) \<and> timer_reach T' \<and>
    distinct ts \<and> set ts = {t. time_left T t = Some 1} \<and>
    (\<forall>t. time_left T' t = (case time_left T t of None \<Rightarrow> None | Some d \<Rightarrow>
       if d = 1 then timer_period T t else Some (d - 1)))"
proof -
  obtain T' ts where u: "TimerHTicks (quiet calls) (T, w) =
      Some (T', w @ map (\<lambda>t. (TIMER_cbRoutine (tmrBuffer T t), TIMER_pvArg (tmrBuffer T t))) ts)"
    "timer_reach T'" "distinct ts" "set ts = {t. time_left T t = Some 1}" "time_left T' = left_after_tick T 1 (time_left T)"
    by (rule tick_step[OF assms, of w])
  have "\<forall>t. time_left T' t = (case time_left T t of None \<Rightarrow> None | Some d \<Rightarrow>
      if d = 1 then timer_period T t else Some (d - 1))" unfolding u(5) left_after_tick_def by (rule allI) (rule refl)
  then show ?thesis using u(1-4) by blast
qed

theorem timer_tick_witness: "\<exists>T'. TimerHTicks (quiet calls) (demo_timers, []) = Some (T', []) \<and> timer_reach T'"
proof -
  have "time_left demo_timers t = None" for t using demo_stopped by (simp add: time_left_def)
  then show ?thesis using timer_tick[OF demo_timers_reach, of "[]"] by auto
qed

text \<open>
  C19: A timer that is started with \<open>n\<close> ticks runs its routine for the first time at the \<open>n\<close>-th tick, and when
  it starts itself again after each \<open>p\<close> ticks from there on, no tick missed and none too many.
\<close>

theorem timer_exact:
  assumes "timer_reach T" and "handle_ok ulId T" and "\<not> is_itimer (ObjectGetIndex ulId) T"
    and "cb \<noteq> 0" and "n \<noteq> 0" and "and opt LW_OPTION_AUTO_RESTART \<noteq> 0 \<longrightarrow> p \<noteq> 0"
    and "\<forall>u. u \<noteq> ObjectGetIndex ulId \<longrightarrow> timer_running T u \<longrightarrow> (TIMER_cbRoutine (tmrBuffer T u), TIMER_pvArg (tmrBuffer T u)) \<noteq> (cb, arg)"
  shows "\<exists>T1 T' w'. TimerStartEx now ulId n p opt cb arg T = Some (0, T1) \<and> h_ticks k (T1, []) = Some (T', w') \<and>
    count_list w' (cb, arg) =
      (if k < unat n then 0 else if and opt LW_OPTION_AUTO_RESTART \<noteq> 0 then 1 + (k - unat n) div unat p else 1)"
proof -
  let ?t = "ObjectGetIndex ulId"
  obtain qh qi where ok: "timers_ok T qh qi" using timer_reach_ok[OF assms(1)] by blast
  obtain T1 qi' where s: "TimerStartEx now ulId n p opt cb arg T = Some (0, T1)"
    "timers_ok T1 (if is_itimer ?t T then due_delete ?t qh else due_insert ?t (unat n) (due_delete ?t qh)) qi'"
    "tmrBuffer T1 = (tmrBuffer T)(?t := \<lparr>TIMER_ucType = TIMER_ucType (tmrBuffer T ?t), TIMER_ulCounterSave = p,
       TIMER_ulOption = opt, TIMER_ucStatus = LW_TIMER_STATUS_RUNNING, TIMER_cbRoutine = cb, TIMER_pvArg = arg,
       TIMER_u64Overrun = 0\<rparr>)"
    using Start_ok[OF ok assms(2,4,5), of opt p now arg] assms(6) by blast
  have reach: "timer_reach T1" by (rule timer_reach.start[OF assms(1) s(1)])
  have "time_left T1 ?t = map_of (due_insert ?t (unat n) (due_delete ?t qh)) ?t" using time_left[OF s(2)] assms(3) by simp
  then have l: "time_left T1 ?t = Some (unat n)" using map_of_due_insert[of ?t "due_delete ?t qh" "unat n"] by simp
  have only: "only_caller T1 ?t" using assms(7) by (auto simp: only_caller_def timer_running_def s(3))
  have per: "timer_period T1 ?t = (if and opt LW_OPTION_AUTO_RESTART \<noteq> 0 then Some (unat p) else None)"
    using assms(6) by (auto simp: timer_period_def timer_auto_def timer_save_def s(3) unat_gt_0)
  have "0 < unat n" using assms(5) by (simp add: unat_gt_0)
  then obtain T' w' where "h_ticks k (T1, []) = Some (T', w')"
    "count_list w' (cb, arg) = due_count (unat n) (timer_period T1 ?t) k"
    using ticks_count[OF reach only, of k "[]"] l s(3) by auto
  then show ?thesis using s(1) per by (intro exI[of _ T1] exI[of _ T'] exI[of _ w']) (simp add: due_count_def)
qed

theorem timer_exact_witness:
  "\<exists>T1 T' w'. TimerStartEx 0 (demo_id 0) 5 2 1 7 9 demo_timers = Some (0, T1) \<and> h_ticks 10 (T1, []) = Some (T', w') \<and>
     count_list w' (7, 9) = 3"
proof -
  have "\<not> is_itimer 0 demo_timers"
    by (simp add: is_itimer_def demo_types LW_TYPE_TIMER_HTIMER_def LW_TYPE_TIMER_ITIMER_def)
  then show ?thesis
    using timer_exact[OF demo_timers_reach demo_handles(1), of 7 5 1 2 9 0 10] demo_stopped
    by (auto simp: demo_ids LW_OPTION_AUTO_RESTART_def)
qed

text \<open>
  C22: What the operations on a timer of the tick do to the times left: a start sets it to the first time, a
  reset to the interval, a cancellation takes the timer out, and no other timer notices; a stopped timer
  cannot be cancelled or reset, and the status that is reported is the one that the ticks will keep.
\<close>

theorem timer_operations:
  assumes "timer_reach T" and "handle_ok ulId T" and "\<not> is_itimer (ObjectGetIndex ulId) T"
  shows "(cb \<noteq> 0 \<and> n \<noteq> 0 \<and> (and opt LW_OPTION_AUTO_RESTART \<noteq> 0 \<longrightarrow> p \<noteq> 0) \<longrightarrow>
      (\<exists>T'. TimerStartEx now ulId n p opt cb arg T = Some (0, T') \<and> timer_reach T' \<and>
        time_left T' = (time_left T)(ObjectGetIndex ulId \<mapsto> unat n))) \<and>
    (timer_running T (ObjectGetIndex ulId) \<longrightarrow> (\<exists>T'. TimerCancel now ulId T = (0, T') \<and> timer_reach T' \<and>
        time_left T' = (time_left T)(ObjectGetIndex ulId := None))) \<and>
    (timer_running T (ObjectGetIndex ulId) \<and> timer_save T (ObjectGetIndex ulId) \<noteq> 0 \<longrightarrow>
      (\<exists>T'. TimerReset now ulId T = Some (0, T') \<and> timer_reach T' \<and>
        time_left T' = (time_left T)(ObjectGetIndex ulId \<mapsto> timer_save T (ObjectGetIndex ulId)))) \<and>
    (\<not> timer_running T (ObjectGetIndex ulId) \<longrightarrow>
      TimerCancel now ulId T = (ERROR_TIMER_TIME, T) \<and> TimerReset now ulId T = Some (ERROR_TIMER_TIME, T)) \<and>
    TimerStatusEx now ulId T = Some (Inr (timer_running T (ObjectGetIndex ulId),
      TIMER_ulOption (tmrBuffer T (ObjectGetIndex ulId)),
      of_nat (case time_left T (ObjectGetIndex ulId) of None \<Rightarrow> 0 | Some d \<Rightarrow> d),
      TIMER_ulCounterSave (tmrBuffer T (ObjectGetIndex ulId))))"
proof -
  obtain qh qi where ok: "timers_ok T qh qi" using timer_reach_ok[OF assms(1)] by blast
  have refused: "\<not> timer_running T (ObjectGetIndex ulId) \<longrightarrow>
      TimerCancel now ulId T = (ERROR_TIMER_TIME, T) \<and> TimerReset now ulId T = Some (ERROR_TIMER_TIME, T)"
    using assms(2) timers_okD(5)[OF ok, of "ObjectGetIndex ulId"]
    by (auto simp: TimerCancel_def TimerReset_def Let_def handle_ok_def)
  show ?thesis
    by (intro conjI) (use assms refused start_left cancel_left reset_left status_left in blast)+
qed

theorem timer_operations_witness:
  "\<exists>T'. TimerStartEx 0 (demo_id 0) 5 2 1 7 9 demo_timers = Some (0, T') \<and> time_left T' = (time_left demo_timers)(0 \<mapsto> 5)"
proof -
  have "\<not> is_itimer 0 demo_timers"
    by (simp add: is_itimer_def demo_types LW_TYPE_TIMER_HTIMER_def LW_TYPE_TIMER_ITIMER_def)
  then show ?thesis
    using timer_operations[OF demo_timers_reach demo_handles(1), of 7 5 1 2 0 9] by (auto simp: demo_ids)
qed

text \<open>
  C21: The thread of the other timers sleeps until the first of them is due, no longer; when it wakes at that
  time it runs the routines of exactly the timers that are due, each once and at least one of them, and the
  others are the time it has slept closer to theirs.
\<close>

theorem itimer_round:
  assumes "timer_reach T" and "itimer_sleep hz now T = ((n, False), T1)"
  shows "\<exists>T' ts. itimer_wake (quiet calls) (now + ucast n) False (T1, w) =
      Some (T', w @ map (\<lambda>t. (TIMER_cbRoutine (tmrBuffer T t), TIMER_pvArg (tmrBuffer T t))) ts) \<and> timer_reach T' \<and>
    ts \<noteq> [] \<and> distinct ts \<and> set ts = {t. itimer_left now T1 t = Some (unat n)} \<and>
    (\<forall>t d. itimer_left now T1 t = Some d \<longrightarrow> unat n \<le> d) \<and>
    (\<forall>t. itimer_left (now + ucast n) T' t = (case itimer_left now T1 t of None \<Rightarrow> None | Some d \<Rightarrow>
       if d = unat n then timer_period T t else Some (d - unat n)))"
proof -
  obtain T' ts where u: "itimer_wake (quiet calls) (now + ucast n) False (T1, w) =
      Some (T', w @ map (\<lambda>t. (TIMER_cbRoutine (tmrBuffer T t), TIMER_pvArg (tmrBuffer T t))) ts)"
    "timer_reach T'" "ts \<noteq> []" "distinct ts" "set ts = {t. itimer_left now T1 t = Some (unat n)}"
    "itimer_left (now + ucast n) T' = left_after_tick T (unat n) (itimer_left now T1)"
    "\<forall>t d. itimer_left now T1 t = Some d \<longrightarrow> unat n \<le> d"
    by (rule round_step[OF assms, of w])
  have "\<forall>t. itimer_left (now + ucast n) T' t = (case itimer_left now T1 t of None \<Rightarrow> None | Some d \<Rightarrow>
      if d = unat n then timer_period T t else Some (d - unat n))" unfolding u(6) left_after_tick_def by (rule allI) (rule refl)
  then show ?thesis using u(1-5,7) by blast
qed

definition demo_itimers :: timers where
  "demo_itimers = (case TimerStart 1000 (demo_id 2) 2 1 7 0 demo_timers of None \<Rightarrow> demo_timers | Some (_, T) \<Rightarrow>
     (case TimerStart 1000 (demo_id 3) 10 0 8 0 T of None \<Rightarrow> demo_timers | Some (_, T) \<Rightarrow> T))"

lemma demo_itimers_reach: "timer_reach demo_itimers"
proof (cases "TimerStart 1000 (demo_id 2) 2 1 7 0 demo_timers")
  case (Some x)
  obtain r T where x: "x = (r, T)" by (cases x)
  have T: "timer_reach T" using timer_reach.start[OF demo_timers_reach] Some x by (simp add: TimerStart_def)
  have "timer_reach U" if "TimerStart 1000 (demo_id 3) 10 0 8 0 T = Some (r, U)" for r U
    using timer_reach.start[OF T] that by (simp add: TimerStart_def)
  then show ?thesis using Some x demo_timers_reach by (auto simp: demo_itimers_def split: option.split)
qed (simp add: demo_itimers_def demo_timers_reach)

lemma demo_sleep: "fst (itimer_sleep 100 1000 demo_itimers) = (2, False)"
  by code_simp

theorem itimer_round_witness:
  "\<exists>T1 T' ts. itimer_sleep 100 1000 demo_itimers = ((2, False), T1) \<and>
     itimer_wake (quiet calls) 1002 False (T1, []) =
       Some (T', map (\<lambda>t. (TIMER_cbRoutine (tmrBuffer demo_itimers t), TIMER_pvArg (tmrBuffer demo_itimers t))) ts) \<and> ts \<noteq> []"
proof -
  obtain T1 where s: "itimer_sleep 100 1000 demo_itimers = ((2, False), T1)"
    using demo_sleep by (cases "itimer_sleep 100 1000 demo_itimers") auto
  show ?thesis using itimer_round[OF demo_itimers_reach s, of "[]"] s by auto
qed

text \<open>
  When the thread is late, a timer may run early.  One timer is due after 2 and then every 2 ticks, another
  once after 10 ticks; the thread sleeps 2 ticks and is run after 9.  The first timer is put in again, in front
  of the second, and the second loses the 2 ticks of it although the pass has taken them off already: the second
  runs at the time 9.
\<close>

theorem late_round_fires_early:
  "itimer_left 1000 (snd (itimer_sleep 100 1000 demo_itimers)) 3 = Some 10 \<and>
   map_option snd (itimer_wake (quiet calls) 1009 False (snd (itimer_sleep 100 1000 demo_itimers), [])) = Some [(7, 0), (8, 0)]"
  by code_simp

text \<open>
  A timer that runs once, started for 5 ticks with the interval 0, is reset: it has no tick left, and the
  next tick runs it.
\<close>

definition demo_reset :: timers where
  "demo_reset = (case TimerStartEx 0 (demo_id 0) 5 0 0 7 9 demo_timers of None \<Rightarrow> demo_timers | Some (_, T) \<Rightarrow>
     (case TimerReset 0 (demo_id 0) T of None \<Rightarrow> demo_timers | Some (_, T) \<Rightarrow> T))"

theorem reset_without_interval:
  "time_left demo_reset 0 = Some 0 \<and> map_option snd (TimerHTicks (quiet calls) (demo_reset, [])) = Some [(7, 9)]"
  by code_simp

end
